(* ===== verification/Prelude.thy ===== *)
theory Prelude
  imports Main "HOL-Library.Word"
begin

unbundle bit_operations_syntax

text \<open>
  Shared base of the CastorOS development: the machine integer types of
  \<^verbatim>\<open>src/src/include/types.h\<close> for the i686 configuration (\<^verbatim>\<open>size_t\<close> and \<^verbatim>\<open>uintptr_t\<close> are
  32 bits wide, \<^verbatim>\<open>paddr_t\<close> and \<^verbatim>\<open>pfn_t\<close> 64), the page constants, a flat byte-addressed
  memory, and the facts on words, lists and loops which the component theories share.
\<close>

section \<open>Machine types and constants\<close>

type_synonym u8 = "8 word"
type_synonym u16 = "16 word"
type_synonym u32 = "32 word"
type_synonym u64 = "64 word"

text \<open>Byte-addressed memory: every 32-bit address holds one byte.\<close>

type_synonym mem = "u32 \<Rightarrow> u8"

abbreviation PAGE_SIZE :: nat where
  "PAGE_SIZE \<equiv> 4096"

named_theorems unat_simps \<open>reading word arithmetic as natural-number arithmetic\<close>

section \<open>Words\<close>

lemma unat_lt_u32 [simp]: "unat (x :: u32) < 4294967296"
  using unsigned_less [of x, where ?'a = nat] by simp

lemma unat_lt_u64 [simp]: "unat (x :: u64) < 18446744073709551616"
  using unsigned_less [of x, where ?'a = nat] by simp

lemma unat_le_u32 [simp]: "unat (x :: u32) \<le> 4294967295"
  using unat_lt_u32 [of x] by linarith

lemma unat_sub_wrap:
  fixes a b :: u32
  shows "unat (a - b) = (if unat b \<le> unat a then unat a - unat b
                         else unat a + 4294967296 - unat b)"
  by (simp add: unat_sub_if_size word_size)

lemma unat_add_wrap:
  fixes a b :: u32
  shows "unat (a + b) = (if unat a + unat b < 4294967296 then unat a + unat b
                         else unat a + unat b - 4294967296)"
  by (simp add: unat_plus_if_size word_size)

lemma unat_of_nat_u32: "n < 4294967296 \<Longrightarrow> unat (of_nat n :: u32) = n"
  by (simp add: unat_of_nat)

lemma unat_of_nat_u64: "n < 18446744073709551616 \<Longrightarrow> unat (of_nat n :: u64) = n"
  by (simp add: unat_of_nat)

lemma unat_add_no_wrap:
  fixes a b :: u32
  shows "unat a + unat b < 4294967296 \<Longrightarrow> unat (a + b) = unat a + unat b"
  by (simp add: unat_add_wrap)

lemma unat_sub_no_wrap:
  fixes a b :: u32
  shows "unat b \<le> unat a \<Longrightarrow> unat (a - b) = unat a - unat b"
  by (simp add: unat_sub_wrap)

lemma unat_add_const:
  fixes a :: u32
  shows "unat a + n < 4294967296 \<Longrightarrow> unat (a + of_nat n) = unat a + n"
  by (simp add: unat_add_wrap unat_of_nat_u32)

lemma word_eq_unat: "(a :: 'a::len word) = b \<longleftrightarrow> unat a = unat b"
  by (simp add: word_unat_eq_iff)

lemmas unat_order = word_le_nat_alt word_less_nat_alt

declare unat_order [unat_simps] unat_add_no_wrap [unat_simps] unat_sub_no_wrap [unat_simps]

section \<open>Distances on the address circle\<close>

text \<open>
  \<open>unat (a - p) < n\<close> says that address \<open>a\<close> is one of the \<open>n\<close> bytes that start at \<open>p\<close>,
  also when the region wraps around the end of the address space.
\<close>

lemma in_region_iff:
  fixes a p :: u32
  assumes "n \<le> 4294967296"
  shows "unat (a - p) < n \<longleftrightarrow> (\<exists>i<n. a = p + of_nat i)"
proof
  assume lt: "unat (a - p) < n"
  have "a = p + of_nat (unat (a - p))" by simp
  with lt show "\<exists>i<n. a = p + of_nat i" by blast
next
  assume "\<exists>i<n. a = p + of_nat i"
  then obtain i where i: "i < n" "a = p + of_nat i" by blast
  with assms show "unat (a - p) < n" by (simp add: unat_of_nat_u32)
qed

lemma unat_pred:
  fixes d :: u32
  shows "unat (d - 1) = (if d = 0 then 4294967295 else unat d - 1)"
  by (simp add: unat_sub_wrap Suc_le_eq unat_gt_0)

lemma region_Suc:
  fixes a p :: u32
  assumes "Suc n \<le> 4294967296"
  shows "unat (a - p) < Suc n \<longleftrightarrow> a = p \<or> unat (a - (p + 1)) < n"
proof -
  have eq: "a - (p + 1) = (a - p) - 1" by simp
  show ?thesis
  proof (cases "a = p")
    case False
    then have "0 < unat (a - p)" by (simp add: unat_gt_0)
    with False show ?thesis unfolding eq unat_pred by auto
  qed simp
qed

lemma add_mod_inj:
  fixes a x y m :: nat
  assumes "x < m" "y < m" "(a + x) mod m = (a + y) mod m"
  shows "x = y"
proof -
  have eq: "u = v" if "u \<le> v" "v < m" "(a + v) mod m = (a + u) mod m" for u v
  proof -
    have "m dvd v - u" using that mod_eq_dvd_iff_nat [of "a + u" "a + v" m] by simp
    then show ?thesis using that by (metis diff_is_0_eq dvd_imp_le le_antisym less_imp_diff_less not_le zero_less_iff_neq_zero)
  qed
  show ?thesis using eq [of x y] eq [of y x] assms by (cases "x \<le> y") auto
qed

section \<open>Lists and loops\<close>

lemma find_Some_iff_first:
  "find P [0..<n] = Some i \<longleftrightarrow> i < n \<and> P i \<and> (\<forall>j<i. \<not> P j)"
proof
  assume "find P [0..<n] = Some i"
  then show "i < n \<and> P i \<and> (\<forall>j<i. \<not> P j)"
    by (auto simp: find_Some_iff)
next
  assume "i < n \<and> P i \<and> (\<forall>j<i. \<not> P j)"
  then show "find P [0..<n] = Some i"
    by (auto simp: find_Some_iff intro!: exI [of _ i])
qed

lemma find_upt_None: "find P [a..<b] = None \<longleftrightarrow> (\<forall>i. a \<le> i \<and> i < b \<longrightarrow> \<not> P i)"
  by (auto simp: find_None_iff)

lemma find_upt_SomeD: "find P [a..<b] = Some i \<Longrightarrow> a \<le> i \<and> i < b \<and> P i"
  by (auto simp: find_Some_iff)

lemma find_map_comp: "find P (map f xs) = map_option f (find (P \<circ> f) xs)"
  by (induction xs) auto

lemma find_upt_0_Suc:
  "find P [0..<Suc n] = (if P 0 then Some 0 else map_option Suc (find (\<lambda>i. P (Suc i)) [0..<n]))"
proof -
  have "[0..<Suc n] = 0 # map Suc [0..<n]" by (simp add: upt_conv_Cons map_Suc_upt del: upt_Suc)
  then show ?thesis by (simp add: find_map_comp comp_def)
qed

section \<open>Loops that undo their work on failure\<close>

text \<open>
  Several routines perform a fallible step for \<open>i = 0, 1, ...\<close> and, when step \<open>i\<close> fails, undo the
  steps \<open>0, ..., i - 1\<close> before they report the failure.  \<open>step_loop\<close> is that loop;
  \<open>undo_loop\<close> the loop on its error path.
\<close>

definition undo_loop :: "(nat \<Rightarrow> 's \<Rightarrow> 's) \<Rightarrow> nat \<Rightarrow> 's \<Rightarrow> 's" where
  "undo_loop undo i s = fold undo [0..<i] s"

fun step_loop :: "(nat \<Rightarrow> 's \<Rightarrow> bool \<times> 's) \<Rightarrow> (nat \<Rightarrow> 's \<Rightarrow> 's) \<Rightarrow> nat \<Rightarrow> nat \<Rightarrow> 's \<Rightarrow> bool \<times> 's" where
  "step_loop step undo i 0 s = (True, s)"
| "step_loop step undo i (Suc k) s =
     (case step i s of
        (True, s') \<Rightarrow> step_loop step undo (Suc i) k s'
      | (False, s') \<Rightarrow> (False, undo_loop undo i s'))"

text \<open>
  The contract of the steps: step \<open>j\<close> enters \<open>entry j\<close> at position \<open>key j\<close> of a table that is read
  with \<open>view\<close>, or fails and leaves the table alone; undoing it clears the position.
\<close>

locale undoable_steps =
  fixes valid :: "'s \<Rightarrow> bool" and view :: "'s \<Rightarrow> 'k \<Rightarrow> 'e option"
    and step :: "nat \<Rightarrow> 's \<Rightarrow> bool \<times> 's" and undo :: "nat \<Rightarrow> 's \<Rightarrow> 's"
    and key :: "nat \<Rightarrow> 'k" and entry :: "nat \<Rightarrow> 'e option" and bound :: nat
  assumes step_ok: "valid s \<Longrightarrow> step j s = (True, s') \<Longrightarrow> valid s' \<and> view s' = (view s)(key j := entry j)"
    and step_fail: "valid s \<Longrightarrow> step j s = (False, s') \<Longrightarrow> valid s' \<and> view s' = view s"
    and undo_ok: "valid s \<Longrightarrow> valid (undo j s) \<and> view (undo j s) = (view s)(key j := None)"
    and key_inj: "inj_on key {..<bound}"
begin

lemma undo_loop_view:
  assumes "valid s"
  shows "valid (undo_loop undo i s)
    \<and> view (undo_loop undo i s) = (\<lambda>q. if q \<in> key ` {..<i} then None else view s q)"
proof (induction i)
  case 0
  with assms show ?case by (simp add: undo_loop_def)
next
  case (Suc i)
  then show ?case
    using undo_ok [of "undo_loop undo i s" i]
    by (auto simp: undo_loop_def lessThan_Suc fun_eq_iff)
qed

lemma step_loop_ok:
  assumes "valid s" "step_loop step undo i k s = (True, s')" "i + k \<le> bound"
  shows "valid s' \<and> (\<forall>j. i \<le> j \<and> j < i + k \<longrightarrow> view s' (key j) = entry j)
    \<and> (\<forall>q. q \<notin> key ` {i..<i + k} \<longrightarrow> view s' q = view s q)"
  using assms
proof (induction k arbitrary: i s)
  case (Suc k)
  then obtain s1 where s1: "step i s = (True, s1)" "step_loop step undo (Suc i) k s1 = (True, s')"
    by (auto split: prod.splits bool.splits)
  have v: "valid s1" "view s1 = (view s)(key i := entry i)" using step_ok [OF Suc.prems(1) s1(1)] by auto
  have IH: "valid s'" "\<forall>j. Suc i \<le> j \<and> j < Suc i + k \<longrightarrow> view s' (key j) = entry j"
    "\<forall>q. q \<notin> key ` {Suc i..<Suc i + k} \<longrightarrow> view s' q = view s1 q"
    using Suc.IH [OF v(1) s1(2)] Suc.prems(3) by simp_all
  have "key i \<notin> key ` {Suc i..<Suc i + k}"
    using inj_onD [OF key_inj, of i] Suc.prems(3) by fastforce
  then have "view s' (key i) = entry i" using IH(3) v(2) by simp
  then have "view s' (key j) = entry j" if "i \<le> j" "j < i + Suc k" for j
    using that IH(2) by (cases "j = i") auto
  moreover have "view s' q = view s q" if "q \<notin> key ` {i..<i + Suc k}" for q
  proof -
    have "q \<noteq> key i" "q \<notin> key ` {Suc i..<Suc i + k}" using that by auto
    then show ?thesis using IH(3) v(2) by simp
  qed
  ultimately show ?case using IH(1) by blast
qed auto

lemma step_loop_fail:
  assumes "valid s" "step_loop step undo i k s = (False, s')"
  shows "valid s' \<and> (\<exists>m < i + k. i \<le> m \<and> (\<forall>q. view s' q = (if q \<in> key ` {..<m} then None else view s q)))"
  using assms
proof (induction k arbitrary: i s)
  case (Suc k)
  show ?case
  proof (cases "step i s")
    case (Pair b s1)
    show ?thesis
    proof (cases b)
      case True
      then have s1: "step i s = (True, s1)" "step_loop step undo (Suc i) k s1 = (False, s')"
        using Pair Suc.prems(2) by auto
      have v: "valid s1" "view s1 = (view s)(key i := entry i)"
        using step_ok [OF Suc.prems(1) s1(1)] by auto
      obtain m where m: "m < Suc i + k" "Suc i \<le> m"
        "\<forall>q. view s' q = (if q \<in> key ` {..<m} then None else view s1 q)" and vs: "valid s'"
        using Suc.IH [OF v(1) s1(2)] by auto
      have "view s' q = (if q \<in> key ` {..<m} then None else view s q)" for q
        using m(2,3) v(2) by auto
      with m vs show ?thesis by (intro conjI exI [of _ m]) auto
    next
      case False
      then have "valid s1" "view s1 = view s" "s' = undo_loop undo i s1"
        using Pair Suc.prems step_fail [of s i s1] by auto
      with undo_loop_view [of s1 i] show ?thesis by (intro conjI exI [of _ i]) auto
    qed
  qed
qed simp

text \<open>If the positions were empty before, a failed loop leaves no trace.\<close>

lemma step_loop_fail_clean:
  assumes "valid s" "step_loop step undo 0 k s = (False, s')" "\<forall>j<k. view s (key j) = None"
  shows "valid s' \<and> view s' = view s"
  using step_loop_fail [OF assms(1,2)] assms(3) by (auto simp: fun_eq_iff)

end

lemma find_Some_set: "find P xs = Some x \<Longrightarrow> P x \<and> x \<in> set xs"
  by (auto simp: find_Some_iff)

section \<open>Rounding\<close>

lemma unat_and_not_mask: "unat (x AND NOT (mask n) :: u32) = unat x div 2 ^ n * 2 ^ n"
proof (cases "n < 32")
  case True
  have "x AND NOT (mask n) = push_bit n (drop_bit n x)"
    by (rule bit_word_eqI) (auto simp: bit_simps)
  also have "unat \<dots> = unat x div 2 ^ n * 2 ^ n mod 4294967296"
    by (simp only: unsigned_push_bit_eq unsigned_drop_bit_eq)
      (simp add: push_bit_eq_mult drop_bit_eq_div take_bit_eq_mod)
  also have "\<dots> = unat x div 2 ^ n * 2 ^ n"
    by (rule mod_less) (metis div_times_less_eq_dividend le_less_trans unat_lt_u32)
  finally show ?thesis .
next
  case False
  then have "mask n = (-1 :: u32)" by (intro bit_word_eqI) (auto simp: bit_simps)
  moreover have "unat x < 2 ^ n"
    by (rule less_le_trans[OF unat_lt_u32]) (use False power_increasing[of 32 n "2 :: nat"] in simp)
  ultimately show ?thesis by simp
qed

lemma page_round:
  "x \<le> (x + 4095) div 4096 * 4096" "(x + 4095) div 4096 * 4096 \<le> x + 4095"
  "(x + 4095) div 4096 * 4096 mod 4 = (0 :: nat)"
proof -
  have "(x + 4095) div 4096 * 4096 + (x + 4095) mod 4096 = x + 4095" "(x + 4095) mod 4096 < 4096"
    by simp_all
  then show "x \<le> (x + 4095) div 4096 * 4096" "(x + 4095) div 4096 * 4096 \<le> x + 4095" by linarith+
  have "(x + 4095) div 4096 * 4096 = ((x + 4095) div 4096 * 1024) * 4" by simp
  then show "(x + 4095) div 4096 * 4096 mod 4 = 0" by (simp only: mod_mult_self2_is_0)
qed

section \<open>Loops that may fail\<close>

text \<open>A loop over a list whose body may fail.\<close>

primrec foldM :: "('a \<Rightarrow> 's \<Rightarrow> 's option) \<Rightarrow> 'a list \<Rightarrow> 's \<Rightarrow> 's option" where
  "foldM f [] s = Some s"
| "foldM f (x # xs) s = (case f x s of None \<Rightarrow> None | Some s' \<Rightarrow> foldM f xs s')"

lemma foldM_append: "foldM f (xs @ ys) s = (case foldM f xs s of None \<Rightarrow> None | Some s' \<Rightarrow> foldM f ys s')"
  by (induction xs arbitrary: s) (auto split: option.split)

lemma foldM_inv:
  assumes "foldM f xs s = Some s'" "P s" "\<And>x s s'. x \<in> set xs \<Longrightarrow> P s \<Longrightarrow> f x s = Some s' \<Longrightarrow> P s'"
  shows "P s'"
  using assms
proof (induction xs arbitrary: s)
  case (Cons x xs)
  then obtain s1 where s1: "f x s = Some s1" "foldM f xs s1 = Some s'" by (auto split: option.splits)
  have "P s1" by (rule Cons.prems(3)[OF _ Cons.prems(2) s1(1)]) simp
  moreover have "P s3" if "y \<in> set xs" "P s2" "f y s2 = Some s3" for y s2 s3
    by (rule Cons.prems(3)[OF _ that(2,3)]) (use that(1) in simp)
  ultimately show ?case using Cons.IH[OF s1(2)] by blast
qed simp

end
