(* ===== verification/Kmem.thy ===== *)
theory Kmem
  imports Prelude
begin

unbundle bit_operations_syntax

text \<open>
  The block operations of \<^verbatim>\<open>src/src/lib/string.c\<close>: \<^verbatim>\<open>memset\<close>, \<^verbatim>\<open>memcpy\<close>, \<^verbatim>\<open>memmove\<close> and
  \<^verbatim>\<open>memcmp\<close>, over the flat byte memory. The C routines align the pointer, move 32-bit
  words four at a time and finish byte by byte; each loop is one function here. The lemmas
  show that the word loops do what the byte loops do, and that the results are the ideal
  fill and the ideal (simultaneous) copy.
\<close>

section \<open>Word access to byte memory\<close>

definition load32 :: "mem \<Rightarrow> u32 \<Rightarrow> u32" where
  "load32 m a = ucast (m a) OR push_bit 8 (ucast (m (a + 1)))
     OR push_bit 16 (ucast (m (a + 2))) OR push_bit 24 (ucast (m (a + 3)))"

definition store32 :: "mem \<Rightarrow> u32 \<Rightarrow> u32 \<Rightarrow> mem" where
  "store32 m a v = m(a := ucast v, a + 1 := ucast (drop_bit 8 v),
     a + 2 := ucast (drop_bit 16 v), a + 3 := ucast (drop_bit 24 v))"

section \<open>The C routines\<close>

text \<open>\<^verbatim>\<open>memset\<close>: unaligned head, blocks of four words, single words, remaining bytes.\<close>

fun memset_head :: "mem \<Rightarrow> u32 \<Rightarrow> u8 \<Rightarrow> nat \<Rightarrow> mem \<times> u32 \<times> nat" where
  "memset_head m p v n =
     (if p AND 3 \<noteq> 0 \<and> n > 0 then memset_head (m(p := v)) (p + 1) v (n - 1) else (m, p, n))"

fun memset_words4 :: "mem \<Rightarrow> u32 \<Rightarrow> u32 \<Rightarrow> nat \<Rightarrow> mem \<times> u32 \<times> nat" where
  "memset_words4 m p v32 count =
     (if 4 \<le> count
      then memset_words4
        (store32 (store32 (store32 (store32 m p v32) (p + 4) v32) (p + 8) v32) (p + 12) v32)
        (p + 16) v32 (count - 4)
      else (m, p, count))"

fun memset_words :: "mem \<Rightarrow> u32 \<Rightarrow> u32 \<Rightarrow> nat \<Rightarrow> mem \<times> u32" where
  "memset_words m p v32 0 = (m, p)"
| "memset_words m p v32 (Suc count) = memset_words (store32 m p v32) (p + 4) v32 count"

fun memset_bytes :: "mem \<Rightarrow> u32 \<Rightarrow> u8 \<Rightarrow> nat \<Rightarrow> mem" where
  "memset_bytes m p v 0 = m"
| "memset_bytes m p v (Suc n) = memset_bytes (m(p := v)) (p + 1) v n"

definition splat32 :: "u8 \<Rightarrow> u32" where
  "splat32 v = ucast v OR push_bit 8 (ucast v) OR push_bit 16 (ucast v) OR push_bit 24 (ucast v)"

definition memset :: "mem \<Rightarrow> u32 \<Rightarrow> u32 \<Rightarrow> u32 \<Rightarrow> mem" where
  "memset m ptr value num =
     (let v = ucast value;
          (m1, p1, n1) = memset_head m ptr v (unat num)
      in if 4 \<le> n1
         then let v32 = splat32 v;
                  (m2, p2, c2) = memset_words4 m1 p1 v32 (n1 div 4);
                  (m3, p3) = memset_words m2 p2 v32 c2
              in memset_bytes m3 p3 v (n1 mod 4)
         else memset_bytes m1 p1 v n1)"

text \<open>\<^verbatim>\<open>memcpy\<close>: the word path is taken only when both pointers have the same alignment.\<close>

fun memcpy_head :: "mem \<Rightarrow> u32 \<Rightarrow> u32 \<Rightarrow> nat \<Rightarrow> mem \<times> u32 \<times> u32 \<times> nat" where
  "memcpy_head m d s n =
     (if d AND 3 \<noteq> 0 \<and> n > 0 then memcpy_head (m(d := m s)) (d + 1) (s + 1) (n - 1)
      else (m, d, s, n))"

definition copy_word :: "mem \<Rightarrow> u32 \<Rightarrow> u32 \<Rightarrow> mem" where
  "copy_word m d s = store32 m d (load32 m s)"

fun memcpy_words4 :: "mem \<Rightarrow> u32 \<Rightarrow> u32 \<Rightarrow> nat \<Rightarrow> mem \<times> u32 \<times> u32 \<times> nat" where
  "memcpy_words4 m d s count =
     (if 4 \<le> count
      then memcpy_words4
        (copy_word (copy_word (copy_word (copy_word m d s) (d + 4) (s + 4)) (d + 8) (s + 8))
          (d + 12) (s + 12))
        (d + 16) (s + 16) (count - 4)
      else (m, d, s, count))"

fun memcpy_words :: "mem \<Rightarrow> u32 \<Rightarrow> u32 \<Rightarrow> nat \<Rightarrow> mem \<times> u32 \<times> u32" where
  "memcpy_words m d s 0 = (m, d, s)"
| "memcpy_words m d s (Suc count) = memcpy_words (copy_word m d s) (d + 4) (s + 4) count"

fun memcpy_bytes :: "mem \<Rightarrow> u32 \<Rightarrow> u32 \<Rightarrow> nat \<Rightarrow> mem" where
  "memcpy_bytes m d s 0 = m"
| "memcpy_bytes m d s (Suc n) = memcpy_bytes (m(d := m s)) (d + 1) (s + 1) n"

definition memcpy :: "mem \<Rightarrow> u32 \<Rightarrow> u32 \<Rightarrow> u32 \<Rightarrow> mem" where
  "memcpy m dest src num =
     (if (dest XOR src) AND 3 = 0
      then let (m1, d1, s1, n1) = memcpy_head m dest src (unat num)
           in if 4 \<le> n1
              then let (m2, d2, s2, c2) = memcpy_words4 m1 d1 s1 (n1 div 4);
                       (m3, d3, s3) = memcpy_words m2 d2 s2 c2
                   in memcpy_bytes m3 d3 s3 (n1 mod 4)
              else memcpy_bytes m1 d1 s1 n1
      else memcpy_bytes m dest src (unat num))"

text \<open>\<^verbatim>\<open>memmove\<close>: forwards through \<^verbatim>\<open>memcpy\<close>, or backwards from the end of both regions.\<close>

fun memmove_tail :: "mem \<Rightarrow> u32 \<Rightarrow> u32 \<Rightarrow> nat \<Rightarrow> mem \<times> u32 \<times> u32 \<times> nat" where
  "memmove_tail m d s n =
     (if d AND 3 \<noteq> 0 \<and> n > 0 then memmove_tail (m(d - 1 := m (s - 1))) (d - 1) (s - 1) (n - 1)
      else (m, d, s, n))"

fun memmove_words4 :: "mem \<Rightarrow> u32 \<Rightarrow> u32 \<Rightarrow> nat \<Rightarrow> mem \<times> u32 \<times> u32 \<times> nat" where
  "memmove_words4 m d s count =
     (if 4 \<le> count
      then memmove_words4
        (let d' = d - 16; s' = s - 16 in
         copy_word (copy_word (copy_word (copy_word m (d' + 12) (s' + 12)) (d' + 8) (s' + 8))
           (d' + 4) (s' + 4)) d' s')
        (d - 16) (s - 16) (count - 4)
      else (m, d, s, count))"

fun memmove_words :: "mem \<Rightarrow> u32 \<Rightarrow> u32 \<Rightarrow> nat \<Rightarrow> mem \<times> u32 \<times> u32" where
  "memmove_words m d s 0 = (m, d, s)"
| "memmove_words m d s (Suc count) = memmove_words (copy_word m (d - 4) (s - 4)) (d - 4) (s - 4) count"

fun memmove_bytes :: "mem \<Rightarrow> u32 \<Rightarrow> u32 \<Rightarrow> nat \<Rightarrow> mem" where
  "memmove_bytes m d s 0 = m"
| "memmove_bytes m d s (Suc n) = memmove_bytes (m(d - 1 := m (s - 1))) (d - 1) (s - 1) n"

definition memmove :: "mem \<Rightarrow> u32 \<Rightarrow> u32 \<Rightarrow> u32 \<Rightarrow> mem" where
  "memmove m dest src num =
     (if dest < src \<or> src + num \<le> dest then memcpy m dest src num
      else let d = dest + num; s = src + num in
        if (d XOR s) AND 3 = 0
        then let (m1, d1, s1, n1) = memmove_tail m d s (unat num)
             in if 4 \<le> n1
                then let (m2, d2, s2, c2) = memmove_words4 m1 d1 s1 (n1 div 4);
                         (m3, d3, s3) = memmove_words m2 d2 s2 c2
                     in memmove_bytes m3 d3 s3 (n1 mod 4)
                else memmove_bytes m1 d1 s1 n1
        else memmove_bytes m d s (unat num))"

text \<open>\<^verbatim>\<open>memcmp\<close> returns the difference of the first two bytes that differ, 0 if none does.\<close>

fun memcmp_loop :: "mem \<Rightarrow> u32 \<Rightarrow> u32 \<Rightarrow> nat \<Rightarrow> int" where
  "memcmp_loop m p1 p2 0 = 0"
| "memcmp_loop m p1 p2 (Suc n) =
     (if m p1 \<noteq> m p2 then uint (m p1) - uint (m p2) else memcmp_loop m (p1 + 1) (p2 + 1) n)"

definition memcmp :: "mem \<Rightarrow> u32 \<Rightarrow> u32 \<Rightarrow> u32 \<Rightarrow> int" where
  "memcmp m ptr1 ptr2 num = memcmp_loop m ptr1 ptr2 (unat num)"

declare memset_head.simps [simp del] memset_words4.simps [simp del]
  memcpy_head.simps [simp del] memcpy_words4.simps [simp del]
  memmove_tail.simps [simp del] memmove_words4.simps [simp del]

section \<open>What the routines should compute\<close>

definition fill :: "mem \<Rightarrow> u32 \<Rightarrow> u8 \<Rightarrow> nat \<Rightarrow> mem" where
  "fill m p v n = (\<lambda>a. if unat (a - p) < n then v else m a)"

definition copy_block :: "mem \<Rightarrow> u32 \<Rightarrow> u32 \<Rightarrow> nat \<Rightarrow> mem" where
  "copy_block m d s n = (\<lambda>a. if unat (a - d) < n then m (s + (a - d)) else m a)"

section \<open>A word move is four byte moves\<close>

lemma store32_splat32: "store32 m a (splat32 v) = m(a := v, a + 1 := v, a + 2 := v, a + 3 := v)"
proof -
  have "ucast (splat32 v) = v" "ucast (drop_bit 8 (splat32 v)) = v"
    "ucast (drop_bit 16 (splat32 v)) = v" "ucast (drop_bit 24 (splat32 v)) = v"
    unfolding splat32_def
    by (rule bit_word_eqI; auto simp: bit_simps dest: bit_imp_le_length)+
  then show ?thesis by (simp add: store32_def)
qed

lemma store32_load32:
  "store32 m d (load32 m' s) = m(d := m' s, d + 1 := m' (s + 1), d + 2 := m' (s + 2), d + 3 := m' (s + 3))"
proof -
  have "ucast (load32 m' s) = m' s" "ucast (drop_bit 8 (load32 m' s)) = m' (s + 1)"
    "ucast (drop_bit 16 (load32 m' s)) = m' (s + 2)"
    "ucast (drop_bit 24 (load32 m' s)) = m' (s + 3)"
    unfolding load32_def
    by (rule bit_word_eqI; auto simp: bit_simps dest: bit_imp_le_length)+
  then show ?thesis by (simp add: store32_def)
qed

section \<open>Filling\<close>

lemma fill_0 [simp]: "fill m p v 0 = m"
  by (simp add: fill_def)

lemma fill_Suc:
  "Suc n \<le> 4294967296 \<Longrightarrow> fill (m(p := v)) (p + 1) v n = fill m p v (Suc n)"
  unfolding fill_def by (rule ext) (simp only: region_Suc, simp)

lemma memset_bytes_fill: "n \<le> 4294967296 \<Longrightarrow> memset_bytes m p v n = fill m p v n"
  by (induction n arbitrary: m p) (simp_all add: fill_Suc)

text \<open>Every stage of \<^verbatim>\<open>memset\<close> leaves the rest of the work to the byte loop.\<close>

lemma memset_head_bytes:
  "memset_head m p v n = (m1, p1, n1) \<Longrightarrow> memset_bytes m1 p1 v n1 = memset_bytes m p v n"
proof (induction m p v n rule: memset_head.induct)
  case (1 m p v n)
  show ?case
  proof (cases "p AND 3 \<noteq> 0 \<and> n > 0")
    case True
    with 1(2) have "memset_head (m(p := v)) (p + 1) v (n - 1) = (m1, p1, n1)"
      by (simp add: memset_head.simps [of m p v n])
    from 1(1)[OF True this] True show ?thesis
      by (metis Suc_diff_1 memset_bytes.simps(2))
  next
    case False
    with 1(2) show ?thesis by (simp add: memset_head.simps [of m p v n])
  qed
qed

lemma memset_bytes_word:
  "memset_bytes (store32 m p (splat32 v)) (p + 4) v n = memset_bytes m p v (4 + n)"
  by (simp add: store32_splat32 numeral_eq_Suc add.assoc)

lemma memset_words_bytes:
  "memset_words m p (splat32 v) c = (m3, p3) \<Longrightarrow>
     memset_bytes m3 p3 v r = memset_bytes m p v (4 * c + r)"
  by (induction c arbitrary: m p) (simp_all add: memset_bytes_word add.assoc)

lemma memset_words4_bytes:
  "memset_words4 m p (splat32 v) c = (m2, p2, c2) \<Longrightarrow>
     memset_bytes m2 p2 v (4 * c2 + r) = memset_bytes m p v (4 * c + r)"
proof (induction m p "splat32 v" c rule: memset_words4.induct)
  case (1 m p c)
  show ?case
  proof (cases "4 \<le> c")
    case True
    let ?m = "store32 (store32 (store32 (store32 m p (splat32 v)) (p + 4) (splat32 v))
                (p + 8) (splat32 v)) (p + 12) (splat32 v)"
    from 1(1)[OF True] 1(2) True
    have "memset_bytes m2 p2 v (4 * c2 + r) = memset_bytes ?m (p + 16) v (4 * (c - 4) + r)"
      by (simp add: memset_words4.simps [of m p "splat32 v" c])
    also have "\<dots> = memset_bytes m p v (4 + (4 + (4 + (4 + (4 * (c - 4) + r)))))"
      by (simp only: memset_bytes_word [symmetric] add.assoc) simp
    also have "4 + (4 + (4 + (4 + (4 * (c - 4) + r)))) = 4 * c + r"
      using True by simp
    finally show ?thesis .
  next
    case False
    with 1(2) show ?thesis by (simp add: memset_words4.simps [of m p "splat32 v" c])
  qed
qed

lemma memset_is_bytes: "memset m ptr value num = memset_bytes m ptr (ucast value) (unat num)"
proof -
  obtain m1 p1 n1 where h: "memset_head m ptr (ucast value) (unat num) = (m1, p1, n1)"
    by (metis prod_cases3)
  obtain m2 p2 c2 where w4: "memset_words4 m1 p1 (splat32 (ucast value)) (n1 div 4) = (m2, p2, c2)"
    by (metis prod_cases3)
  obtain m3 p3 where w: "memset_words m2 p2 (splat32 (ucast value)) c2 = (m3, p3)"
    by (metis surj_pair)
  have "memset_bytes m3 p3 (ucast value) (n1 mod 4) = memset_bytes m1 p1 (ucast value) n1"
    using memset_words_bytes [OF w, of "n1 mod 4"] memset_words4_bytes [OF w4, of "n1 mod 4"]
    by simp
  with h w4 w show ?thesis
    by (simp add: memset_def Let_def memset_head_bytes [OF h])
qed

section \<open>Copying\<close>

lemma same_alignment:
  fixes d s :: u32
  assumes "(d XOR s) AND 3 = 0"
  shows "(d - s) AND 3 = 0"
proof -
  have three: "(3 :: u32) = mask 2" by (simp add: mask_eq_exp_minus_1)
  from assms have x: "(d AND 3) XOR (s AND 3) = 0"
    by (simp only: bit.conj_xor_distrib2)
  have "s AND 3 = (d AND 3) XOR ((d AND 3) XOR (s AND 3))" by simp
  also have "\<dots> = d AND 3" by (simp only: x xor.right_neutral)
  finally have "d AND mask 2 = s AND mask 2" by (simp add: three)
  then have "(d - s) AND mask 2 = ((s AND mask 2) - (s AND mask 2)) AND mask 2"
    by (metis mask_eqs(8))
  then show ?thesis by (simp add: three)
qed

lemma aligned_distance:
  fixes d s :: u32
  assumes "(d - s) AND 3 = 0"
  shows "s + 1 \<noteq> d" "s + 2 \<noteq> d" "s + 3 \<noteq> d" "d + 1 \<noteq> s" "d + 2 \<noteq> s" "d + 3 \<noteq> s"
    "1 + s \<noteq> d" "2 + s \<noteq> d"
  using assms by auto

lemma copy_word_bytes:
  assumes "(d - s) AND 3 = 0"
  shows "copy_word m d s = memcpy_bytes m d s 4"
  using aligned_distance [OF assms]
  by (simp add: copy_word_def store32_load32 numeral_eq_Suc add.assoc)

lemma memcpy_bytes_word:
  assumes "(d - s) AND 3 = 0"
  shows "memcpy_bytes (copy_word m d s) (d + 4) (s + 4) n = memcpy_bytes m d s (4 + n)"
  by (simp add: copy_word_bytes [OF assms] numeral_eq_Suc add.assoc)

lemma memcpy_head_bytes:
  "memcpy_head m d s n = (m1, d1, s1, n1) \<Longrightarrow>
     memcpy_bytes m1 d1 s1 n1 = memcpy_bytes m d s n \<and> d1 - s1 = d - s"
proof (induction m d s n rule: memcpy_head.induct)
  case (1 m d s n)
  show ?case
  proof (cases "d AND 3 \<noteq> 0 \<and> n > 0")
    case True
    with 1(2) have "memcpy_head (m(d := m s)) (d + 1) (s + 1) (n - 1) = (m1, d1, s1, n1)"
      by (simp add: memcpy_head.simps [of m d s n])
    from 1(1)[OF True this] True show ?thesis
      by (metis Suc_diff_1 add_diff_cancel_right memcpy_bytes.simps(2))
  next
    case False
    with 1(2) show ?thesis by (simp add: memcpy_head.simps [of m d s n])
  qed
qed

lemma memcpy_words_bytes:
  "memcpy_words m d s c = (m3, d3, s3) \<Longrightarrow> (d - s) AND 3 = 0 \<Longrightarrow>
     memcpy_bytes m3 d3 s3 r = memcpy_bytes m d s (4 * c + r)"
  by (induction c arbitrary: m d s) (simp_all add: memcpy_bytes_word add.assoc)

lemma memcpy_words4_bytes:
  "memcpy_words4 m d s c = (m2, d2, s2, c2) \<Longrightarrow> (d - s) AND 3 = 0 \<Longrightarrow>
     memcpy_bytes m2 d2 s2 (4 * c2 + r) = memcpy_bytes m d s (4 * c + r) \<and> d2 - s2 = d - s"
proof (induction m d s c rule: memcpy_words4.induct)
  case (1 m d s c)
  show ?case
  proof (cases "4 \<le> c")
    case True
    let ?m = "copy_word (copy_word (copy_word (copy_word m d s) (d + 4) (s + 4))
                (d + 8) (s + 8)) (d + 12) (s + 12)"
    from 1(2) True have "memcpy_words4 ?m (d + 16) (s + 16) (c - 4) = (m2, d2, s2, c2)"
      by (simp add: memcpy_words4.simps [of m d s c])
    from 1(1)[OF True this] 1(3)
    have ds: "d2 - s2 = d - s"
      and "memcpy_bytes m2 d2 s2 (4 * c2 + r) = memcpy_bytes ?m (d + 16) (s + 16) (4 * (c - 4) + r)"
      by simp_all
    note this(2)
    also have "\<dots> = memcpy_bytes m d s (4 + (4 + (4 + (4 + (4 * (c - 4) + r)))))"
      using 1(3) memcpy_bytes_word [of d s] memcpy_bytes_word [of "d + 4" "s + 4"]
        memcpy_bytes_word [of "d + 8" "s + 8"] memcpy_bytes_word [of "d + 12" "s + 12"]
      by (simp add: add.assoc)
    also have "4 + (4 + (4 + (4 + (4 * (c - 4) + r)))) = 4 * c + r"
      using True by simp
    finally show ?thesis using ds by simp
  next
    case False
    with 1(2) show ?thesis by (simp add: memcpy_words4.simps [of m d s c])
  qed
qed

lemma memcpy_is_bytes: "memcpy m dest src num = memcpy_bytes m dest src (unat num)"
proof (cases "(dest XOR src) AND 3 = 0")
  case True
  obtain m1 d1 s1 n1 where h: "memcpy_head m dest src (unat num) = (m1, d1, s1, n1)"
    by (metis prod_cases4)
  obtain m2 d2 s2 c2 where w4: "memcpy_words4 m1 d1 s1 (n1 div 4) = (m2, d2, s2, c2)"
    by (metis prod_cases4)
  obtain m3 d3 s3 where w: "memcpy_words m2 d2 s2 c2 = (m3, d3, s3)"
    by (metis prod_cases3)
  have al: "(d1 - s1) AND 3 = 0"
    using same_alignment [OF True] memcpy_head_bytes [OF h] by simp
  note st = memcpy_words4_bytes [OF w4 al, of "n1 mod 4"]
  have "memcpy_bytes m3 d3 s3 (n1 mod 4) = memcpy_bytes m1 d1 s1 n1"
    using memcpy_words_bytes [OF w, of "n1 mod 4"] st al by simp
  with True h w4 w show ?thesis
    by (simp add: memcpy_def Let_def memcpy_head_bytes [OF h])
qed (simp add: memcpy_def)

subsection \<open>Backwards\<close>

lemma copy_word_bytes_down:
  assumes "(d - s) AND 3 = 0"
  shows "copy_word m (d - 4) (s - 4) = memmove_bytes m d s 4"
proof -
  have ne: "s - 2 \<noteq> d - 1" "s - 3 \<noteq> d - 1" "s - 4 \<noteq> d - 1" "s - 3 \<noteq> d - 2" "s - 4 \<noteq> d - 2"
    "s - 4 \<noteq> d - 3"
    using aligned_distance [OF assms] by (auto simp: algebra_simps)
  have "memmove_bytes m d s 4 = m(d - 1 := m (s - 1), d - 2 := m (s - 2), d - 3 := m (s - 3),
      d - 4 := m (s - 4))"
    using ne by (simp add: numeral_eq_Suc diff_diff_eq)
  also have "\<dots> = m(d - 4 := m (s - 4), d - 3 := m (s - 3), d - 2 := m (s - 2), d - 1 := m (s - 1))"
    by (rule ext) simp
  finally show ?thesis
    by (simp add: copy_word_def store32_load32)
qed

lemma memmove_bytes_word:
  assumes "(d - s) AND 3 = 0"
  shows "memmove_bytes (copy_word m (d - 4) (s - 4)) (d - 4) (s - 4) n = memmove_bytes m d s (4 + n)"
  by (simp add: copy_word_bytes_down [OF assms] numeral_eq_Suc diff_diff_eq)

lemma memmove_tail_bytes:
  "memmove_tail m d s n = (m1, d1, s1, n1) \<Longrightarrow>
     memmove_bytes m1 d1 s1 n1 = memmove_bytes m d s n \<and> d1 - s1 = d - s"
proof (induction m d s n rule: memmove_tail.induct)
  case (1 m d s n)
  show ?case
  proof (cases "d AND 3 \<noteq> 0 \<and> n > 0")
    case True
    with 1(2) have "memmove_tail (m(d - 1 := m (s - 1))) (d - 1) (s - 1) (n - 1) = (m1, d1, s1, n1)"
      by (simp add: memmove_tail.simps [of m d s n])
    from 1(1)[OF True this] True show ?thesis
      by (metis Suc_diff_1 diff_diff_eq2 diff_add_cancel memmove_bytes.simps(2))
  next
    case False
    with 1(2) show ?thesis by (simp add: memmove_tail.simps [of m d s n])
  qed
qed

lemma memmove_words_bytes:
  "memmove_words m d s c = (m3, d3, s3) \<Longrightarrow> (d - s) AND 3 = 0 \<Longrightarrow>
     memmove_bytes m3 d3 s3 r = memmove_bytes m d s (4 * c + r)"
  by (induction c arbitrary: m d s) (simp_all add: memmove_bytes_word add.assoc)

lemma memmove_words4_bytes:
  "memmove_words4 m d s c = (m2, d2, s2, c2) \<Longrightarrow> (d - s) AND 3 = 0 \<Longrightarrow>
     memmove_bytes m2 d2 s2 (4 * c2 + r) = memmove_bytes m d s (4 * c + r) \<and> d2 - s2 = d - s"
proof (induction m d s c rule: memmove_words4.induct)
  case (1 m d s c)
  show ?case
  proof (cases "4 \<le> c")
    case True
    let ?m = "copy_word (copy_word (copy_word (copy_word m (d - 4) (s - 4)) (d - 8) (s - 8))
                (d - 12) (s - 12)) (d - 16) (s - 16)"
    from 1(2) True have rec: "memmove_words4 ?m (d - 16) (s - 16) (c - 4) = (m2, d2, s2, c2)"
      by (simp add: memmove_words4.simps [of m d s c] Let_def)
    have "memmove_bytes m2 d2 s2 (4 * c2 + r) = memmove_bytes ?m (d - 16) (s - 16) (4 * (c - 4) + r)
        \<and> d2 - s2 = (d - 16) - (s - 16)"
      using 1(1)[OF True] rec 1(3) by (simp add: Let_def)
    moreover have "memmove_bytes ?m (d - 16) (s - 16) (4 * (c - 4) + r)
        = memmove_bytes m d s (4 + (4 + (4 + (4 + (4 * (c - 4) + r)))))"
      using 1(3) memmove_bytes_word [of d s] memmove_bytes_word [of "d - 4" "s - 4"]
        memmove_bytes_word [of "d - 8" "s - 8"] memmove_bytes_word [of "d - 12" "s - 12"]
      by simp
    moreover have "4 + (4 + (4 + (4 + (4 * (c - 4) + r)))) = 4 * c + r"
      using True by simp
    ultimately show ?thesis by (metis diff_diff_eq2 diff_add_cancel)
  next
    case False
    with 1(2) show ?thesis by (simp add: memmove_words4.simps [of m d s c])
  qed
qed

section \<open>The byte loops copy simultaneously\<close>

lemma memcpy_bytes_block:
  assumes "n \<le> 4294967296" and "d = s \<or> n \<le> unat (d - s)"
  shows "memcpy_bytes m d s n = copy_block m d s n"
  using assms
proof (induction n arbitrary: m d s)
  case 0
  then show ?case by (simp add: copy_block_def)
next
  case (Suc n)
  let ?m = "m(d := m s)"
  have IH: "memcpy_bytes ?m (d + 1) (s + 1) n = copy_block ?m (d + 1) (s + 1) n"
    using Suc by auto
  have src: "s + (a - d) \<noteq> d" if "unat (a - (d + 1)) < n" for a
  proof
    assume "s + (a - d) = d"
    then have e: "a - d = d - s" by (metis add_diff_cancel_left')
    have "a \<noteq> d"
    proof
      assume "a = d"
      then have "unat (a - (d + 1)) = 4294967295" using unat_pred [of 0] by simp
      with that Suc.prems(1) show False by simp
    qed
    then have "unat (a - d) = Suc (unat (a - (d + 1)))"
      using unat_pred [of "a - d"] by (simp add: diff_diff_eq unat_gt_0)
    with that e Suc.prems(2) \<open>a \<noteq> d\<close> show False by auto
  qed
  have "copy_block ?m (d + 1) (s + 1) n = copy_block m d s (Suc n)"
  proof
    fix a
    have "s + 1 + (a - (d + 1)) = s + (a - d)" by simp
    then show "copy_block ?m (d + 1) (s + 1) n a = copy_block m d s (Suc n) a"
      using src [of a] Suc.prems(1) by (simp only: copy_block_def region_Suc) auto
  qed
  with IH show ?case by simp
qed

lemma memmove_bytes_block:
  assumes "n \<le> 4294967296" and "d = s \<or> n \<le> unat (s - d)"
  shows "memmove_bytes m (d + of_nat n) (s + of_nat n) n = copy_block m d s n"
  using assms
proof (induction n arbitrary: m)
  case 0
  then show ?case by (simp add: copy_block_def)
next
  case (Suc n)
  let ?m = "m(d + of_nat n := m (s + of_nat n))"
  have IH: "memmove_bytes ?m (d + of_nat n) (s + of_nat n) n = copy_block ?m d s n"
    using Suc by auto
  have src: "s + (a - d) \<noteq> d + of_nat n" if lt: "unat (a - d) < n" for a
  proof
    assume "s + (a - d) = d + of_nat n"
    then have "s - d = of_nat n - (a - d)" by (simp add: algebra_simps)
    then have "unat (s - d) = n - unat (a - d)"
      using lt Suc.prems(1) by (simp only: unat_sub_no_wrap unat_of_nat_u32)
    with lt Suc.prems(2) show False by auto
  qed
  have "copy_block ?m d s n = copy_block m d s (Suc n)"
  proof
    fix a
    have "unat (a - d) = n \<longleftrightarrow> a = d + of_nat n"
      using Suc.prems(1) by (auto simp: unat_of_nat_u32)
    then show "copy_block ?m d s n a = copy_block m d s (Suc n) a"
      using src [of a] by (auto simp: copy_block_def less_Suc_eq)
  qed
  with IH show ?case by (simp add: algebra_simps)
qed

lemma memmove_down_bytes:
  assumes "\<not> (dest < src \<or> src + num \<le> dest)"
  shows "memmove m dest src num = memmove_bytes m (dest + num) (src + num) (unat num)"
proof (cases "((dest + num) XOR (src + num)) AND 3 = 0")
  case True
  obtain m1 d1 s1 n1
    where h: "memmove_tail m (dest + num) (src + num) (unat num) = (m1, d1, s1, n1)"
    by (metis prod_cases4)
  obtain m2 d2 s2 c2 where w4: "memmove_words4 m1 d1 s1 (n1 div 4) = (m2, d2, s2, c2)"
    by (metis prod_cases4)
  obtain m3 d3 s3 where w: "memmove_words m2 d2 s2 c2 = (m3, d3, s3)"
    by (metis prod_cases3)
  have al: "(d1 - s1) AND 3 = 0"
    using same_alignment [OF True] memmove_tail_bytes [OF h] by simp
  note st = memmove_words4_bytes [OF w4 al, of "n1 mod 4"]
  have "memmove_bytes m3 d3 s3 (n1 mod 4) = memmove_bytes m1 d1 s1 n1"
    using memmove_words_bytes [OF w, of "n1 mod 4"] st al by simp
  with True h w4 w assms show ?thesis
    by (simp add: memmove_def Let_def memmove_tail_bytes [OF h])
next
  case False
  with assms show ?thesis by (simp add: memmove_def Let_def)
qed

lemma memcpy_block:
  "dest = src \<or> unat num \<le> unat (dest - src) \<Longrightarrow>
     memcpy m dest src num = copy_block m dest src (unat num)"
  using memcpy_bytes_block [of "unat num" dest src m] by (simp add: memcpy_is_bytes less_imp_le)

lemma memmove_block:
  assumes s: "unat src + unat num < 4294967296" and d: "unat dest + unat num \<le> 4294967296"
  shows "memmove m dest src num = copy_block m dest src (unat num)"
proof (cases "dest < src \<or> src + num \<le> dest")
  case True
  then have "unat num \<le> unat (dest - src)"
    using s by (auto simp: unat_order unat_sub_wrap unat_add_wrap)
  with True show ?thesis by (simp add: memmove_def memcpy_block)
next
  case False
  then have "dest = src \<or> unat num \<le> unat (src - dest)"
    using s d by (auto simp: unat_order unat_sub_wrap unat_add_wrap word_eq_unat)
  with memmove_down_bytes [OF False] show ?thesis
    using memmove_bytes_block [of "unat num" dest src m] by (simp add: less_imp_le)
qed

section \<open>Comparison\<close>

lemma memcmp_loop_first:
  "memcmp_loop m p q n =
     (case find (\<lambda>i. m (p + of_nat i) \<noteq> m (q + of_nat i)) [0..<n] of
        None \<Rightarrow> 0
      | Some i \<Rightarrow> uint (m (p + of_nat i)) - uint (m (q + of_nat i)))"
  by (induction n arbitrary: p q) (simp_all add: find_upt_0_Suc add_ac del: upt_Suc split: option.split)

section \<open>Properties\<close>

text \<open>C25: \<^verbatim>\<open>memset\<close>, with its alignment head, its loop of four words per turn and its byte tail,
  stores the low byte of \<open>value\<close> in exactly the \<open>num\<close> bytes from \<open>ptr\<close> on.\<close>

theorem memset_correct: "memset m ptr value num = fill m ptr (ucast value) (unat num)"
  using memset_bytes_fill [of "unat num" m ptr "ucast value"]
  by (simp add: memset_is_bytes less_imp_le)

text \<open>C24: \<^verbatim>\<open>memmove\<close> gives the destination the bytes the source had before the call, for every
  overlap of the two regions, as long as neither region reaches past the end of the
  address space; all other bytes keep their value.\<close>

theorem memmove_correct:
  assumes "unat src + unat num < 4294967296" and "unat dest + unat num \<le> 4294967296"
  shows "memmove m dest src num a =
           (if unat (a - dest) < unat num then m (src + (a - dest)) else m a)"
  using memmove_block [OF assms] by (simp add: copy_block_def)

theorem memmove_correct_witness:
  "memmove (\<lambda>a. ucast a) 0x1002 0x1000 6 0x1007 = 5"
  using memmove_correct [where src = "0x1000" and num = 6 and dest = "0x1002" and m = "\<lambda>a. ucast a"
      and a = "0x1007"] by simp

end
