(* ===== verification/Pmm.thy ===== *)
theory Pmm
  imports Prelude
begin

text \<open>
  The physical memory manager, \<^verbatim>\<open>src/src/mm/pmm.c\<close>: the frame bitmap, the per-frame
  reference counts used for copy-on-write, the list of protected frames and the counters of
  \<^verbatim>\<open>pmm_info\<close>.  Frame numbers (\<^verbatim>\<open>pfn_t\<close>) are natural numbers, physical addresses
  64-bit words, and physical memory itself is part of the state (\<open>phys_mem\<close>: frame number,
  then 32-bit word index), because the allocator promises zeroed frames and the page tables live
  there.  \<^verbatim>\<open>PFN_INVALID\<close> is \<open>None\<close>; \<^verbatim>\<open>PADDR_INVALID\<close> is the word \<open>- 1\<close>, as in the code.  Each
  operation runs under \<^verbatim>\<open>pmm_lock\<close> and is one atomic function.
\<close>

section \<open>Physical addresses and frame numbers\<close>

type_synonym paddr = u64
type_synonym pfn = nat

definition PADDR_INVALID :: paddr where
  "PADDR_INVALID = - 1"

definition PADDR_TO_PFN :: "paddr \<Rightarrow> pfn" where
  "PADDR_TO_PFN pa = unat (drop_bit 12 pa)"

definition PFN_TO_PADDR :: "pfn \<Rightarrow> paddr" where
  "PFN_TO_PADDR pfn = push_bit 12 (of_nat pfn)"

definition PADDR_ALIGN_DOWN :: "paddr \<Rightarrow> paddr" where
  "PADDR_ALIGN_DOWN pa = pa AND NOT 4095"

definition PADDR_ALIGN_UP :: "paddr \<Rightarrow> paddr" where
  "PADDR_ALIGN_UP pa = (pa + 4096 - 1) AND NOT 4095"

definition IS_PADDR_ALIGNED :: "paddr \<Rightarrow> bool" where
  "IS_PADDR_ALIGNED pa \<longleftrightarrow> pa AND 4095 = 0"

section \<open>State\<close>

datatype pmm_zone = ZONE_DMA | ZONE_NORMAL | ZONE_HIGH | ZONE_COUNT

record pmm_info_t =
  info_total_frames :: u64
  info_free_frames :: u64
  info_used_frames :: u64
  info_reserved_frames :: u64
  info_kernel_frames :: u64
  info_bitmap_frames :: u64

record protected_frame =
  pf_frame :: paddr
  pf_refcount :: u32

record pmm_state =
  frame_bitmap :: "u32 list"
  bitmap_size :: nat
  total_frames :: pfn
  pmm_info :: pmm_info_t
  last_free_index :: nat
  protected_frames :: "protected_frame list"
  frame_refcount :: "u16 list"
  heap_reserved_phys_start :: paddr
  heap_reserved_phys_end :: paddr
  phys_mem :: "pfn \<Rightarrow> nat \<Rightarrow> u32"

abbreviation MAX_PROTECTED_FRAMES :: nat where
  "MAX_PROTECTED_FRAMES \<equiv> 65536"

section \<open>Bitmap primitives\<close>

definition set_frame :: "pfn \<Rightarrow> pmm_state \<Rightarrow> pmm_state" where
  "set_frame idx s =
     (if bitmap_size s \<le> idx div 32 then s
      else s\<lparr>frame_bitmap := (frame_bitmap s)
               [idx div 32 := (frame_bitmap s ! (idx div 32)) OR push_bit (idx mod 32) 1]\<rparr>)"

definition clear_frame :: "pfn \<Rightarrow> pmm_state \<Rightarrow> pmm_state" where
  "clear_frame idx s =
     s\<lparr>frame_bitmap := (frame_bitmap s)
         [idx div 32 := (frame_bitmap s ! (idx div 32)) AND NOT (push_bit (idx mod 32) 1)]\<rparr>"

definition test_frame :: "pmm_state \<Rightarrow> pfn \<Rightarrow> bool" where
  "test_frame s idx =
     (if bitmap_size s \<le> idx div 32 then False
      else (frame_bitmap s ! (idx div 32)) AND push_bit (idx mod 32) 1 \<noteq> 0)"

text \<open>The two halves of the search share the scan of one bitmap word: the first clear bit whose
  frame number is below \<open>total_frames\<close>.\<close>

definition scan_word :: "pmm_state \<Rightarrow> nat \<Rightarrow> nat option" where
  "scan_word s i =
     (if frame_bitmap s ! i \<noteq> 0xFFFFFFFF
      then find (\<lambda>b. (frame_bitmap s ! i) AND push_bit b 1 = 0 \<and> i * 32 + b < total_frames s)
             [0..<32]
      else None)"

fun scan_words :: "pmm_state \<Rightarrow> nat list \<Rightarrow> (nat \<times> nat) option" where
  "scan_words s [] = None"
| "scan_words s (i # is) =
     (case scan_word s i of Some b \<Rightarrow> Some (i, b) | None \<Rightarrow> scan_words s is)"

definition find_free_frame :: "pmm_state \<Rightarrow> pfn option \<times> pmm_state" where
  "find_free_frame s =
     (case scan_words s [last_free_index s..<bitmap_size s] of
        Some (i, b) \<Rightarrow> (Some (i * 32 + b), s\<lparr>last_free_index := i\<rparr>)
      | None \<Rightarrow>
          (if 0 < last_free_index s
           then (case scan_words s [0..<last_free_index s] of
                   Some (i, b) \<Rightarrow> (Some (i * 32 + b), s\<lparr>last_free_index := i\<rparr>)
                 | None \<Rightarrow> (None, s))
           else (None, s)))"

section \<open>Accounting\<close>

definition set_refcount :: "pfn \<Rightarrow> u16 \<Rightarrow> pmm_state \<Rightarrow> pmm_state" where
  "set_refcount idx c s = s\<lparr>frame_refcount := (frame_refcount s)[idx := c]\<rparr>"

definition account_alloc :: "pmm_state \<Rightarrow> pmm_state" where
  "account_alloc s =
     s\<lparr>pmm_info := (pmm_info s)\<lparr>info_free_frames := info_free_frames (pmm_info s) - 1,
                                info_used_frames := info_used_frames (pmm_info s) + 1\<rparr>\<rparr>"

definition account_free :: "pmm_state \<Rightarrow> pmm_state" where
  "account_free s =
     s\<lparr>pmm_info := (pmm_info s)\<lparr>info_free_frames := info_free_frames (pmm_info s) + 1,
                                info_used_frames := info_used_frames (pmm_info s) - 1\<rparr>\<rparr>"

text \<open>The body of every allocation loop: mark the frame, count it, give it one reference.\<close>

definition claim_frame :: "pfn \<Rightarrow> pmm_state \<Rightarrow> pmm_state" where
  "claim_frame idx s = account_alloc (set_refcount idx 1 (set_frame idx s))"

text \<open>\<^verbatim>\<open>memset((void*)PHYS_TO_VIRT(addr), 0, n * PAGE_SIZE)\<close>.\<close>

definition zero_frames :: "pfn \<Rightarrow> nat \<Rightarrow> pmm_state \<Rightarrow> pmm_state" where
  "zero_frames idx n s =
     s\<lparr>phys_mem := (\<lambda>f. if idx \<le> f \<and> f < idx + n then (\<lambda>_. 0) else phys_mem s f)\<rparr>"

section \<open>Protected frames\<close>

definition find_protected_frame :: "paddr \<Rightarrow> pmm_state \<Rightarrow> nat option" where
  "find_protected_frame frame s =
     find (\<lambda>i. pf_frame (protected_frames s ! i) = frame) [0..<length (protected_frames s)]"

definition align_frame :: "paddr \<Rightarrow> paddr" where
  "align_frame frame = (if IS_PADDR_ALIGNED frame then frame else PADDR_ALIGN_DOWN frame)"

definition protect_entry :: "paddr \<Rightarrow> pmm_state \<Rightarrow> pmm_state" where
  "protect_entry frame s =
     (case find_protected_frame frame s of
        Some i \<Rightarrow> s\<lparr>protected_frames := (protected_frames s)
                     [i := (protected_frames s ! i)
                             \<lparr>pf_refcount := pf_refcount (protected_frames s ! i) + 1\<rparr>]\<rparr>
      | None \<Rightarrow> (if length (protected_frames s) < MAX_PROTECTED_FRAMES
                 then s\<lparr>protected_frames := protected_frames s
                          @ [\<lparr>pf_frame = frame, pf_refcount = 1\<rparr>]\<rparr>
                 else s))"

definition pmm_protect_frame :: "paddr \<Rightarrow> pmm_state \<Rightarrow> pmm_state" where
  "pmm_protect_frame frame s =
     (if frame = 0 \<or> frame = PADDR_INVALID then s
      else let frame = align_frame frame; idx = PADDR_TO_PFN frame;
               s1 = (if idx < total_frames s \<and> \<not> test_frame s idx then claim_frame idx s else s)
           in protect_entry frame s1)"

definition pmm_unprotect_frame :: "paddr \<Rightarrow> pmm_state \<Rightarrow> pmm_state" where
  "pmm_unprotect_frame frame s =
     (if frame = 0 \<or> frame = PADDR_INVALID then s
      else case find_protected_frame (align_frame frame) s of
             None \<Rightarrow> s
           | Some i \<Rightarrow>
               let e = protected_frames s ! i;
                   c = (if pf_refcount e = 0 then 0 else pf_refcount e - 1);
                   ps = (protected_frames s)[i := e\<lparr>pf_refcount := c\<rparr>]
               in s\<lparr>protected_frames :=
                      (if c = 0 then butlast (ps[i := last ps]) else ps)\<rparr>)"

definition pmm_is_frame_protected :: "paddr \<Rightarrow> pmm_state \<Rightarrow> bool" where
  "pmm_is_frame_protected frame s \<longleftrightarrow>
     \<not> (frame = 0 \<or> frame = PADDR_INVALID)
     \<and> find_protected_frame (align_frame frame) s \<noteq> None"

section \<open>Single frames\<close>

definition pmm_alloc_frame :: "pmm_state \<Rightarrow> paddr \<times> pmm_state" where
  "pmm_alloc_frame s =
     (case find_free_frame s of
        (None, s1) \<Rightarrow> (PADDR_INVALID, s1)
      | (Some idx, s1) \<Rightarrow>
          if test_frame s1 idx then (PADDR_INVALID, s1)
          else let s2 = claim_frame idx s1; addr = PFN_TO_PADDR idx in
            if \<not> test_frame s2 idx then (PADDR_INVALID, account_free s2)
            else if addr \<ge> 0x80000000 then (PADDR_INVALID, account_free (clear_frame idx s2))
            else if find_protected_frame addr s2 \<noteq> None
            then (PADDR_INVALID, account_free (set_refcount idx 0 (clear_frame idx s2)))
            else (addr, zero_frames idx 1 s2))"

definition pmm_alloc_frame_zone :: "pmm_zone \<Rightarrow> pmm_state \<Rightarrow> paddr \<times> pmm_state" where
  "pmm_alloc_frame_zone zone s = pmm_alloc_frame s"

definition lower_hint :: "nat \<Rightarrow> pmm_state \<Rightarrow> pmm_state" where
  "lower_hint i s = (if i < last_free_index s then s\<lparr>last_free_index := i\<rparr> else s)"

definition pmm_free_frame :: "paddr \<Rightarrow> pmm_state \<Rightarrow> pmm_state" where
  "pmm_free_frame frame s =
     (if frame = 0 \<or> frame = PADDR_INVALID then s
      else if \<not> IS_PADDR_ALIGNED frame then s
      else let idx = PADDR_TO_PFN frame in
        if total_frames s \<le> idx then s
        else if \<not> test_frame s idx then s
        else if find_protected_frame frame s \<noteq> None then s
        else let s1 = (if frame_refcount s ! idx = 0 then s
                       else set_refcount idx (frame_refcount s ! idx - 1) s) in
          if 0 < frame_refcount s1 ! idx then s1
          else lower_hint (idx div 32) (account_free (clear_frame idx s1)))"

definition pmm_free_frames :: "paddr \<Rightarrow> u32 \<Rightarrow> pmm_state \<Rightarrow> pmm_state" where
  "pmm_free_frames frame n s =
     fold (\<lambda>i. pmm_free_frame (frame + ucast (of_nat i * 4096 :: u32))) [0..<unat n] s"

section \<open>Runs of frames\<close>

definition zone_bounds :: "pmm_zone \<Rightarrow> pmm_state \<Rightarrow> paddr \<times> paddr" where
  "zone_bounds zone s =
     (case zone of
        ZONE_DMA \<Rightarrow> (0, 0x01000000)
      | ZONE_NORMAL \<Rightarrow> (0x01000000, 0x38000000)
      | ZONE_HIGH \<Rightarrow> (0x38000000, 0x80000000)
      | ZONE_COUNT \<Rightarrow> (0, PFN_TO_PADDR (total_frames s)))"

definition get_zone_range :: "pmm_zone \<Rightarrow> pmm_state \<Rightarrow> paddr \<times> paddr" where
  "get_zone_range zone s =
     (let (start, z_end) = zone_bounds zone s; max_addr = PFN_TO_PADDR (total_frames s)
      in (start, if z_end > max_addr \<or> z_end = PADDR_INVALID then max_addr else z_end))"

text \<open>
  The loop that looks for a run of free frames: \<open>start\<close> and \<open>consecutive\<close> are the loop's
  variables, \<open>fits\<close> the extra condition under which it breaks.
\<close>

fun scan_run :: "pmm_state \<Rightarrow> nat \<Rightarrow> (pfn \<Rightarrow> bool) \<Rightarrow> pfn list \<Rightarrow> pfn option \<Rightarrow> nat
    \<Rightarrow> pfn option \<times> nat" where
  "scan_run s n fits [] start consecutive = (start, consecutive)"
| "scan_run s n fits (i # is) start consecutive =
     (if \<not> test_frame s i
      then let start' = (if consecutive = 0 then Some i else start);
               consecutive' = consecutive + 1
           in if n \<le> consecutive' \<and> (case start' of Some st \<Rightarrow> fits st | None \<Rightarrow> True)
              then (start', consecutive')
              else scan_run s n fits is start' consecutive'
      else scan_run s n fits is None 0)"

definition claim_run :: "pfn \<Rightarrow> nat \<Rightarrow> pmm_state \<Rightarrow> pmm_state" where
  "claim_run start n s = fold (\<lambda>i. claim_frame (start + i)) [0..<n] s"

definition pmm_alloc_frames_zone :: "u32 \<Rightarrow> pmm_zone \<Rightarrow> pmm_state \<Rightarrow> paddr \<times> pmm_state" where
  "pmm_alloc_frames_zone cnt zone s =
     (if cnt = 0 then (PADDR_INVALID, s)
      else let (zone_start, zone_end) = get_zone_range zone s;
               start_frame = PADDR_TO_PFN zone_start;
               end_frame = min (PADDR_TO_PFN zone_end) (total_frames s); n = unat cnt
           in if end_frame \<le> start_frame then (PADDR_INVALID, s)
              else (case scan_run s n (\<lambda>st. PFN_TO_PADDR (st + n) \<le> zone_end)
                           [start_frame..<end_frame] None 0 of
                      (None, _) \<Rightarrow> (PADDR_INVALID, s)
                    | (Some start, consecutive) \<Rightarrow>
                        if consecutive < n then (PADDR_INVALID, s)
                        else (PFN_TO_PADDR start, zero_frames start n (claim_run start n s))))"

definition pmm_alloc_frames :: "u32 \<Rightarrow> pmm_state \<Rightarrow> paddr \<times> pmm_state" where
  "pmm_alloc_frames cnt s =
     (if cnt = 0 then (PADDR_INVALID, s)
      else if cnt = 1 then pmm_alloc_frame s
      else let n = unat cnt in
        case scan_run s n (\<lambda>_. True) [0..<total_frames s] None 0 of
          (None, _) \<Rightarrow> (PADDR_INVALID, s)
        | (Some start, consecutive) \<Rightarrow>
            if consecutive < n then (PADDR_INVALID, s)
            else (PFN_TO_PADDR start, zero_frames start n (claim_run start n s)))"

section \<open>Huge pages\<close>

abbreviation HUGE_FRAMES :: nat where
  "HUGE_FRAMES \<equiv> 512"

definition all_free :: "pmm_state \<Rightarrow> pfn \<Rightarrow> nat \<Rightarrow> bool" where
  "all_free s start n \<longleftrightarrow> (\<forall>i \<in> set [0..<n]. \<not> test_frame s (start + i))"

text \<open>The candidates \<open>aligned_start\<close>, \<open>aligned_start + 512\<close>, ... that end at or before the zone's
  end.\<close>

definition find_huge_page_frames :: "pmm_state \<Rightarrow> pfn \<Rightarrow> pfn \<Rightarrow> pfn option" where
  "find_huge_page_frames s zone_start zone_end =
     (let aligned_start = (zone_start + HUGE_FRAMES - 1) div HUGE_FRAMES * HUGE_FRAMES
      in find (\<lambda>start. all_free s start HUGE_FRAMES)
           (map (\<lambda>k. aligned_start + k * HUGE_FRAMES)
              [0..<(zone_end - aligned_start) div HUGE_FRAMES]))"

definition take_huge_page :: "pfn option \<Rightarrow> pmm_state \<Rightarrow> paddr \<times> pmm_state" where
  "take_huge_page r s =
     (case r of
        None \<Rightarrow> (PADDR_INVALID, s)
      | Some start \<Rightarrow>
          (PFN_TO_PADDR start, zero_frames start HUGE_FRAMES (claim_run start HUGE_FRAMES s)))"

definition pmm_alloc_huge_page :: "pmm_state \<Rightarrow> paddr \<times> pmm_state" where
  "pmm_alloc_huge_page s = take_huge_page (find_huge_page_frames s 0 (total_frames s)) s"

definition pmm_alloc_huge_page_zone :: "pmm_zone \<Rightarrow> pmm_state \<Rightarrow> paddr \<times> pmm_state" where
  "pmm_alloc_huge_page_zone zone s =
     (let (zone_start, zone_end) = get_zone_range zone s;
          start_frame = PADDR_TO_PFN zone_start;
          end_frame = min (PADDR_TO_PFN zone_end) (total_frames s)
      in if end_frame \<le> start_frame then (PADDR_INVALID, s)
         else take_huge_page (find_huge_page_frames s start_frame end_frame) s)"

definition release_huge_frame :: "pfn \<Rightarrow> pmm_state \<Rightarrow> pmm_state" where
  "release_huge_frame idx s =
     (if \<not> test_frame s idx then s
      else if 1 < frame_refcount s ! idx then set_refcount idx (frame_refcount s ! idx - 1) s
      else account_free (clear_frame idx (set_refcount idx 0 s)))"

definition pmm_is_huge_page_aligned :: "paddr \<Rightarrow> bool" where
  "pmm_is_huge_page_aligned addr \<longleftrightarrow> addr AND 0x1FFFFF = 0"

definition pmm_free_huge_page :: "paddr \<Rightarrow> pmm_state \<Rightarrow> pmm_state" where
  "pmm_free_huge_page huge_page s =
     (if \<not> pmm_is_huge_page_aligned huge_page then s
      else if huge_page = 0 \<or> huge_page = PADDR_INVALID then s
      else let start = PADDR_TO_PFN huge_page in
        if total_frames s < start + HUGE_FRAMES then s
        else lower_hint (start div 32)
               (fold (\<lambda>i. release_huge_frame (start + i)) [0..<HUGE_FRAMES] s))"

section \<open>Reference counts, reserved ranges, diagnostics\<close>

definition pmm_frame_ref_inc :: "paddr \<Rightarrow> pmm_state \<Rightarrow> u32 \<times> pmm_state" where
  "pmm_frame_ref_inc frame s =
     (if frame = 0 \<or> frame = PADDR_INVALID \<or> \<not> IS_PADDR_ALIGNED frame then (0, s)
      else let idx = PADDR_TO_PFN frame in
        if total_frames s \<le> idx then (0, s)
        else if frame_refcount s ! idx = 0xFFFF then (0xFFFF, s)
        else let c = frame_refcount s ! idx + 1 in (ucast c, set_refcount idx c s))"

definition pmm_frame_ref_dec :: "paddr \<Rightarrow> pmm_state \<Rightarrow> u32 \<times> pmm_state" where
  "pmm_frame_ref_dec frame s =
     (if frame = 0 \<or> frame = PADDR_INVALID \<or> \<not> IS_PADDR_ALIGNED frame then (0, s)
      else let idx = PADDR_TO_PFN frame in
        if total_frames s \<le> idx then (0, s)
        else if frame_refcount s ! idx = 0 then (0, s)
        else let c = frame_refcount s ! idx - 1 in (ucast c, set_refcount idx c s))"

definition pmm_frame_get_refcount :: "paddr \<Rightarrow> pmm_state \<Rightarrow> u32" where
  "pmm_frame_get_refcount frame s =
     (if frame = 0 \<or> frame = PADDR_INVALID \<or> \<not> IS_PADDR_ALIGNED frame then 0
      else let idx = PADDR_TO_PFN frame in
        if total_frames s \<le> idx then 0 else ucast (frame_refcount s ! idx))"

definition reserve_frame :: "pfn \<Rightarrow> pmm_state \<Rightarrow> pmm_state" where
  "reserve_frame f s = (if test_frame s f then s else claim_frame f s)"

definition pmm_set_heap_reserved_range :: "u32 \<Rightarrow> u32 \<Rightarrow> pmm_state \<Rightarrow> pmm_state" where
  "pmm_set_heap_reserved_range heap_virt_start heap_virt_end s =
     (if 0x80000000 \<le> heap_virt_start \<and> heap_virt_start < heap_virt_end
      then let phys_start = ucast (heap_virt_start - 0x80000000);
               phys_end = ucast (heap_virt_end - 0x80000000);
               s1 = s\<lparr>heap_reserved_phys_start := phys_start, heap_reserved_phys_end := phys_end\<rparr>;
               start_frame = PADDR_TO_PFN phys_start;
               end_frame = PADDR_TO_PFN (PADDR_ALIGN_UP phys_end)
           in fold reserve_frame [start_frame..<min end_frame (total_frames s)] s1
      else s)"

definition pmm_verify_consistency :: "pmm_state \<Rightarrow> bool" where
  "pmm_verify_consistency s \<longleftrightarrow>
     (let counted_free = of_nat (length (filter (\<lambda>i. \<not> test_frame s i) [0..<total_frames s]));
          counted_used = of_nat (length (filter (test_frame s) [0..<total_frames s]))
      in counted_free = info_free_frames (pmm_info s)
         \<and> counted_used = info_used_frames (pmm_info s)
         \<and> counted_free + counted_used = of_nat (total_frames s)
         \<and> (\<forall>e \<in> set (protected_frames s). PADDR_TO_PFN (pf_frame e) < total_frames s))"

section \<open>The bitmap as a set of free frames\<close>

definition bitmap_wf :: "pmm_state \<Rightarrow> bool" where
  "bitmap_wf s \<longleftrightarrow> length (frame_bitmap s) = bitmap_size s
     \<and> total_frames s \<le> 32 * bitmap_size s \<and> length (frame_refcount s) = total_frames s
     \<and> total_frames s \<le> 524288 \<and> last_free_index s \<le> bitmap_size s"

definition free_set :: "pmm_state \<Rightarrow> pfn set" where
  "free_set s = {i. i < total_frames s \<and> \<not> test_frame s i}"

definition used_set :: "pmm_state \<Rightarrow> pfn set" where
  "used_set s = {i. i < total_frames s \<and> test_frame s i}"

lemma finite_free_set [simp]: "finite (free_set s)"
  by (simp add: free_set_def)

lemma finite_used_set [simp]: "finite (used_set s)"
  by (simp add: used_set_def)

lemma card_free_used: "card (free_set s) + card (used_set s) = total_frames s"
proof -
  have "free_set s \<union> used_set s = {..<total_frames s}" "free_set s \<inter> used_set s = {}"
    by (auto simp: free_set_def used_set_def)
  then show ?thesis
    by (metis card_Un_disjoint card_lessThan finite_free_set finite_used_set)
qed

lemma test_frame_bit:
  "test_frame s i \<longleftrightarrow> i div 32 < bitmap_size s \<and> bit (frame_bitmap s ! (i div 32)) (i mod 32)"
  by (auto simp: test_frame_def bit_iff_and_push_bit_not_eq_0)

lemma div_mod_eq_32: "i div 32 = j div 32 \<and> i mod 32 = j mod 32 \<longleftrightarrow> i = (j :: nat)"
  by (metis div_mult_mod_eq)

lemma word_slot: "i < total_frames s \<Longrightarrow> bitmap_wf s \<Longrightarrow> i div 32 < bitmap_size s"
  by (auto simp: bitmap_wf_def)

lemma test_set_frame:
  assumes "bitmap_wf s" "i < total_frames s"
  shows "test_frame (set_frame i s) j \<longleftrightarrow> j = i \<or> test_frame s j"
proof -
  have "i div 32 < length (frame_bitmap s)" "i div 32 < bitmap_size s"
    using assms by (auto simp: bitmap_wf_def)
  then show ?thesis
    using div_mod_eq_32 [of i j]
    by (auto simp: test_frame_bit set_frame_def nth_list_update bit_or_iff bit_exp_iff
                   possible_bit_word)
qed

lemma test_clear_frame:
  assumes "bitmap_wf s" "i < total_frames s"
  shows "test_frame (clear_frame i s) j \<longleftrightarrow> j \<noteq> i \<and> test_frame s j"
proof -
  have "i div 32 < length (frame_bitmap s)" "i div 32 < bitmap_size s"
    using assms by (auto simp: bitmap_wf_def)
  then show ?thesis
    using div_mod_eq_32 [of i j]
    by (auto simp: test_frame_bit clear_frame_def nth_list_update bit_and_iff bit_not_iff
                   bit_exp_iff possible_bit_word)
qed

text \<open>The steps that do not touch the bitmap leave every test unchanged.\<close>

lemma test_frame_cong:
  "frame_bitmap s = frame_bitmap t \<Longrightarrow> bitmap_size s = bitmap_size t
   \<Longrightarrow> test_frame s i = test_frame t i"
  by (simp add: test_frame_def)

lemma test_frame_account [simp]:
  "test_frame (account_alloc s) i = test_frame s i"
  "test_frame (account_free s) i = test_frame s i"
  "test_frame (set_refcount j c s) i = test_frame s i"
  "test_frame (zero_frames j n s) i = test_frame s i"
  "test_frame (lower_hint j s) i = test_frame s i"
  "test_frame (s\<lparr>last_free_index := j\<rparr>) i = test_frame s i"
  "test_frame (s\<lparr>protected_frames := ps\<rparr>) i = test_frame s i"
  "test_frame (s\<lparr>pmm_info := p\<rparr>) i = test_frame s i"
  "test_frame (s\<lparr>heap_reserved_phys_start := a, heap_reserved_phys_end := b\<rparr>) i = test_frame s i"
  by (auto simp: account_alloc_def account_free_def set_refcount_def zero_frames_def
                 lower_hint_def intro!: test_frame_cong)

section \<open>The search finds a free frame whenever there is one\<close>

lemma scan_word_Some:
  assumes "scan_word s i = Some b" "i < bitmap_size s"
  shows "b < 32 \<and> i * 32 + b \<in> free_set s"
proof -
  from assms have "b < 32 \<and> (frame_bitmap s ! i) AND push_bit b 1 = 0
      \<and> i * 32 + b < total_frames s"
    by (auto simp: scan_word_def find_Some_iff_first split: if_splits)
  then show ?thesis
    by (auto simp: free_set_def test_frame_bit bit_iff_and_push_bit_not_eq_0)
qed

lemma scan_word_None:
  assumes "scan_word s i = None" "b < 32"
  shows "i * 32 + b \<notin> free_set s \<or> bitmap_size s \<le> i"
proof (cases "frame_bitmap s ! i = 0xFFFFFFFF")
  case True
  have ff: "(0xFFFFFFFF :: u32) = mask 32" by (simp add: mask_eq_exp_minus_1)
  show ?thesis using True \<open>b < 32\<close>
    by (auto simp: free_set_def test_frame_bit ff bit_mask_iff)
next
  case False
  with assms show ?thesis
    by (auto simp: scan_word_def find_upt_None free_set_def test_frame_bit
                   bit_iff_and_push_bit_not_eq_0)
qed

lemma scan_words_Some:
  assumes "scan_words s is = Some (i, b)" "\<forall>j \<in> set is. j < bitmap_size s"
  shows "i \<in> set is \<and> b < 32 \<and> i * 32 + b \<in> free_set s"
  using assms
proof (induction "is")
  case (Cons j js)
  then show ?case
    by (cases "scan_word s j") (auto dest: scan_word_Some)
qed simp

lemma scan_words_None:
  assumes "scan_words s is = None" "f \<in> free_set s" "f div 32 \<in> set is"
  shows "bitmap_size s \<le> f div 32"
  using assms
proof (induction "is")
  case (Cons j js)
  show ?case
  proof (cases "j = f div 32")
    case True
    have "f div 32 * 32 + f mod 32 = f" by simp
    then show ?thesis
      using scan_word_None [of s j "f mod 32"] Cons.prems True
      by (auto split: option.splits)
  next
    case False
    with Cons show ?thesis by (auto split: option.splits)
  qed
qed simp

lemma find_free_frame_state:
  "snd (find_free_frame s) = s\<lparr>last_free_index := last_free_index (snd (find_free_frame s))\<rparr>"
  by (auto simp: find_free_frame_def split: option.splits)

lemma find_free_frame_Some:
  assumes "find_free_frame s = (Some idx, s')" "bitmap_wf s"
  shows "idx \<in> free_set s \<and> s' = s\<lparr>last_free_index := idx div 32\<rparr>"
proof -
  have "(\<exists>i b. idx = i * 32 + b \<and> s' = s\<lparr>last_free_index := i\<rparr>
          \<and> (scan_words s [last_free_index s..<bitmap_size s] = Some (i, b)
             \<or> scan_words s [0..<last_free_index s] = Some (i, b)))"
    using assms(1) by (auto simp: find_free_frame_def split: option.splits if_splits)
  then obtain i b where ib: "idx = i * 32 + b" "s' = s\<lparr>last_free_index := i\<rparr>"
      "scan_words s [last_free_index s..<bitmap_size s] = Some (i, b)
       \<or> scan_words s [0..<last_free_index s] = Some (i, b)" by blast
  from ib(3) assms(2) have "b < 32 \<and> i * 32 + b \<in> free_set s"
    by (auto dest!: scan_words_Some simp: bitmap_wf_def)
  with ib show ?thesis by (auto simp: div_mult_self3)
qed

lemma find_free_frame_None:
  assumes "find_free_frame s = (None, s')" "bitmap_wf s"
  shows "free_set s = {} \<and> s' = s"
proof -
  have none: "scan_words s [last_free_index s..<bitmap_size s] = None" and s': "s' = s"
    and none': "0 < last_free_index s \<longrightarrow> scan_words s [0..<last_free_index s] = None"
    using assms(1) by (auto simp: find_free_frame_def split: option.splits if_splits)
  have "f \<notin> free_set s" for f
  proof
    assume f: "f \<in> free_set s"
    then have lt: "f div 32 < bitmap_size s"
      using word_slot [of f s] assms(2) by (simp add: free_set_def)
    show False
    proof (cases "f div 32 < last_free_index s")
      case True
      then show False using scan_words_None [of s "[0..<last_free_index s]" f] none' f lt by auto
    next
      case False
      then show False using scan_words_None [OF none f] lt by auto
    qed
  qed
  with s' show ?thesis by blast
qed

section \<open>Address arithmetic\<close>

lemma unat_PFN_TO_PADDR: "i < 2 ^ 52 \<Longrightarrow> unat (PFN_TO_PADDR i) = i * 4096"
  by (simp add: PFN_TO_PADDR_def push_bit_eq_mult unat_word_ariths unat_of_nat)

lemma PADDR_TO_PFN_div: "PADDR_TO_PFN a = unat a div 4096"
  by (simp add: PADDR_TO_PFN_def drop_bit_eq_div unat_div)

lemma PADDR_TO_PFN_PFN_TO_PADDR [simp]: "i < 2 ^ 52 \<Longrightarrow> PADDR_TO_PFN (PFN_TO_PADDR i) = i"
  by (simp add: PADDR_TO_PFN_div unat_PFN_TO_PADDR)

lemma aligned_unat: "IS_PADDR_ALIGNED a \<longleftrightarrow> unat a mod 4096 = 0"
proof -
  have "a AND 4095 = take_bit 12 a" by (simp add: take_bit_eq_mask mask_eq_exp_minus_1)
  then have "unat (a AND 4095) = unat a mod 4096"
    by (simp add: take_bit_eq_mod unat_mod)
  then show ?thesis by (metis IS_PADDR_ALIGNED_def unat_eq_zero)
qed

lemma PFN_TO_PADDR_aligned [simp]: "i < 2 ^ 52 \<Longrightarrow> IS_PADDR_ALIGNED (PFN_TO_PADDR i)"
  by (simp add: aligned_unat unat_PFN_TO_PADDR)

lemma PADDR_TO_PFN_lt: "PADDR_TO_PFN a < 2 ^ 52"
  using less_mult_imp_div_less [of "unat a" "2 ^ 52" 4096] unat_lt_u64 [of a]
  by (simp add: PADDR_TO_PFN_div)

lemma PFN_TO_PADDR_PADDR_TO_PFN: "IS_PADDR_ALIGNED a \<Longrightarrow> PFN_TO_PADDR (PADDR_TO_PFN a) = a"
  using unat_PFN_TO_PADDR [OF PADDR_TO_PFN_lt, of a]
  by (auto simp: word_unat_eq_iff aligned_unat PADDR_TO_PFN_div)

lemma aligned_eq_iff:
  "IS_PADDR_ALIGNED a \<Longrightarrow> IS_PADDR_ALIGNED b \<Longrightarrow> PADDR_TO_PFN a = PADDR_TO_PFN b \<longleftrightarrow> a = b"
  using PFN_TO_PADDR_PADDR_TO_PFN by metis

lemma PADDR_ALIGN_DOWN_aligned: "IS_PADDR_ALIGNED (PADDR_ALIGN_DOWN a)"
  by (auto simp: IS_PADDR_ALIGNED_def PADDR_ALIGN_DOWN_def intro!: bit_word_eqI
           simp: bit_simps)

lemma align_frame_aligned [simp]: "IS_PADDR_ALIGNED (align_frame a)"
  by (simp add: align_frame_def PADDR_ALIGN_DOWN_aligned)

lemma PADDR_INVALID_unaligned: "\<not> IS_PADDR_ALIGNED PADDR_INVALID"
  by (simp add: IS_PADDR_ALIGNED_def PADDR_INVALID_def)

lemma PFN_TO_PADDR_valid [simp]: "i < 2 ^ 52 \<Longrightarrow> PFN_TO_PADDR i \<noteq> PADDR_INVALID"
  using PFN_TO_PADDR_aligned PADDR_INVALID_unaligned by metis

section \<open>The invariant\<close>

definition counts_ok :: "pmm_state \<Rightarrow> bool" where
  "counts_ok s \<longleftrightarrow> unat (info_free_frames (pmm_info s)) = card (free_set s)
     \<and> unat (info_used_frames (pmm_info s)) = card (used_set s)"

definition refcount_ok :: "pmm_state \<Rightarrow> bool" where
  "refcount_ok s \<longleftrightarrow> (\<forall>i < total_frames s. test_frame s i \<longleftrightarrow> frame_refcount s ! i \<noteq> 0)"

definition protected_ok :: "pmm_state \<Rightarrow> bool" where
  "protected_ok s \<longleftrightarrow> distinct (map pf_frame (protected_frames s))
     \<and> length (protected_frames s) \<le> MAX_PROTECTED_FRAMES
     \<and> (\<forall>e \<in> set (protected_frames s). IS_PADDR_ALIGNED (pf_frame e)
          \<and> PADDR_TO_PFN (pf_frame e) \<notin> free_set s)"

definition pmm_inv :: "pmm_state \<Rightarrow> bool" where
  "pmm_inv s \<longleftrightarrow> bitmap_wf s \<and> counts_ok s \<and> refcount_ok s \<and> protected_ok s"

text \<open>The invariant reads the state only through the following parts.\<close>

lemma pmm_inv_cong:
  assumes "frame_bitmap s = frame_bitmap t" "bitmap_size s = bitmap_size t"
    "total_frames s = total_frames t" "pmm_info s = pmm_info t"
    "protected_frames s = protected_frames t" "frame_refcount s = frame_refcount t"
    "last_free_index t \<le> bitmap_size t" "pmm_inv s"
  shows "pmm_inv t"
proof -
  have "test_frame s = test_frame t"
    using assms by (intro ext test_frame_cong) auto
  then have "free_set s = free_set t" "used_set s = used_set t"
    using assms by (auto simp: free_set_def used_set_def)
  with assms \<open>test_frame s = test_frame t\<close> show ?thesis
    by (simp add: pmm_inv_def bitmap_wf_def counts_ok_def refcount_ok_def protected_ok_def)
qed

lemma free_set_cong:
  "frame_bitmap s = frame_bitmap t \<Longrightarrow> bitmap_size s = bitmap_size t
   \<Longrightarrow> total_frames s = total_frames t \<Longrightarrow> free_set s = free_set t"
  using test_frame_cong [of s t] by (auto simp: free_set_def)

lemma zero_frames_sel [simp]:
  "total_frames (zero_frames i n s) = total_frames s" "free_set (zero_frames i n s) = free_set s"
  "frame_refcount (zero_frames i n s) = frame_refcount s" "pmm_info (zero_frames i n s) = pmm_info s"
  "protected_frames (zero_frames i n s) = protected_frames s"
  "last_free_index (zero_frames i n s) = last_free_index s"
  "phys_mem (zero_frames i n s) = (\<lambda>f. if i \<le> f \<and> f < i + n then (\<lambda>_. 0) else phys_mem s f)"
  by (simp_all add: zero_frames_def free_set_def test_frame_def)

lemma pmm_inv_zero [simp]: "pmm_inv (zero_frames i n s) = pmm_inv s"
proof -
  have "zero_frames i n s = s\<lparr>phys_mem := phys_mem (zero_frames i n s)\<rparr>"
    by (simp add: zero_frames_def)
  then show ?thesis
    by (metis (no_types, lifting) bitmap_wf_def pmm_inv_cong pmm_inv_def
        pmm_state.select_convs pmm_state.surjective pmm_state.update_convs(10))
qed

lemma pmm_inv_hint: "pmm_inv s \<Longrightarrow> i \<le> bitmap_size s \<Longrightarrow> pmm_inv (s\<lparr>last_free_index := i\<rparr>)"
  by (rule pmm_inv_cong [of s]) auto

lemma pmm_inv_lower_hint: "pmm_inv s \<Longrightarrow> pmm_inv (lower_hint i s)"
  by (auto simp: lower_hint_def intro!: pmm_inv_hint) (auto simp: pmm_inv_def bitmap_wf_def)

lemma wf_set_frame [simp]:
  "bitmap_size (set_frame i s) = bitmap_size s" "total_frames (set_frame i s) = total_frames s"
  "length (frame_bitmap (set_frame i s)) = length (frame_bitmap s)"
  "pmm_info (set_frame i s) = pmm_info s" "frame_refcount (set_frame i s) = frame_refcount s"
  "protected_frames (set_frame i s) = protected_frames s"
  "last_free_index (set_frame i s) = last_free_index s" "phys_mem (set_frame i s) = phys_mem s"
  by (auto simp: set_frame_def)

lemma wf_clear_frame [simp]:
  "bitmap_size (clear_frame i s) = bitmap_size s" "total_frames (clear_frame i s) = total_frames s"
  "length (frame_bitmap (clear_frame i s)) = length (frame_bitmap s)"
  "pmm_info (clear_frame i s) = pmm_info s" "frame_refcount (clear_frame i s) = frame_refcount s"
  "protected_frames (clear_frame i s) = protected_frames s"
  "last_free_index (clear_frame i s) = last_free_index s"
  "phys_mem (clear_frame i s) = phys_mem s"
  by (auto simp: clear_frame_def)

lemma claim_frame_sel [simp]:
  "bitmap_size (claim_frame i s) = bitmap_size s" "total_frames (claim_frame i s) = total_frames s"
  "length (frame_bitmap (claim_frame i s)) = length (frame_bitmap s)"
  "frame_refcount (claim_frame i s) = (frame_refcount s)[i := 1]"
  "protected_frames (claim_frame i s) = protected_frames s"
  "last_free_index (claim_frame i s) = last_free_index s"
  "phys_mem (claim_frame i s) = phys_mem s"
  "info_free_frames (pmm_info (claim_frame i s)) = info_free_frames (pmm_info s) - 1"
  "info_used_frames (pmm_info (claim_frame i s)) = info_used_frames (pmm_info s) + 1"
  by (simp_all add: claim_frame_def account_alloc_def set_refcount_def)

lemma test_claim_frame:
  "bitmap_wf s \<Longrightarrow> i < total_frames s \<Longrightarrow>
   test_frame (claim_frame i s) j \<longleftrightarrow> j = i \<or> test_frame s j"
  by (simp add: claim_frame_def test_set_frame)

lemma free_set_claim:
  "bitmap_wf s \<Longrightarrow> i < total_frames s \<Longrightarrow> free_set (claim_frame i s) = free_set s - {i}"
  by (auto simp: free_set_def test_claim_frame)

lemma used_set_claim:
  "bitmap_wf s \<Longrightarrow> i < total_frames s \<Longrightarrow> used_set (claim_frame i s) = insert i (used_set s)"
  by (auto simp: used_set_def test_claim_frame)

lemma unat_inc64: "unat (x :: u64) < 2 ^ 64 - 1 \<Longrightarrow> unat (x + 1) = unat x + 1"
  by (simp add: unat_plus_if_size word_size)

lemma unat_dec64: "0 < unat (x :: u64) \<Longrightarrow> unat (x - 1) = unat x - 1"
  by (simp add: unat_sub_if_size word_size)

text \<open>The part of the invariant that concerns bitmap and counters only; it needs no discipline of the callers.\<close>

definition account_inv :: "pmm_state \<Rightarrow> bool" where
  "account_inv s \<longleftrightarrow> bitmap_wf s \<and> counts_ok s"

lemma pmm_inv_account: "pmm_inv s \<Longrightarrow> account_inv s"
  by (simp add: pmm_inv_def account_inv_def)

lemma claim_frame_account:
  assumes inv: "account_inv s" and i: "i \<in> free_set s"
  shows "account_inv (claim_frame i s)"
proof -
  have wf: "bitmap_wf s" and lt: "i < total_frames s" and nt: "i \<notin> used_set s"
    using inv i by (auto simp: account_inv_def free_set_def used_set_def)
  have pos: "0 < card (free_set s)" using i by (metis card_gt_0_iff empty_iff finite_free_set)
  have bound: "card (used_set s) < 2 ^ 64 - 1"
    using card_free_used [of s] wf by (simp add: bitmap_wf_def)
  have "counts_ok (claim_frame i s)"
    using inv pos bound i nt
    by (auto simp: counts_ok_def account_inv_def free_set_claim [OF wf lt] used_set_claim [OF wf lt]
                   unat_inc64 unat_dec64 card_insert_if)
  then show ?thesis using wf by (simp add: account_inv_def bitmap_wf_def)
qed

lemma claim_frame_inv:
  assumes inv: "pmm_inv s" and i: "i \<in> free_set s"
  shows "pmm_inv (claim_frame i s)"
proof -
  have wf: "bitmap_wf s" and lt: "i < total_frames s"
    using inv i by (auto simp: pmm_inv_def free_set_def)
  have "counts_ok (claim_frame i s)"
    using claim_frame_account [OF pmm_inv_account [OF inv] i] by (simp add: account_inv_def)
  moreover have "refcount_ok (claim_frame i s)"
    using inv lt by (auto simp: refcount_ok_def pmm_inv_def test_claim_frame [OF wf lt]
                                nth_list_update bitmap_wf_def)
  ultimately show ?thesis using inv lt
    by (auto simp: pmm_inv_def protected_ok_def bitmap_wf_def free_set_claim [OF wf lt])
qed

lemma release_sel [simp]:
  "bitmap_size (account_free s) = bitmap_size s" "total_frames (account_free s) = total_frames s"
  "frame_bitmap (account_free s) = frame_bitmap s"
  "frame_refcount (account_free s) = frame_refcount s"
  "protected_frames (account_free s) = protected_frames s"
  "last_free_index (account_free s) = last_free_index s"
  "phys_mem (account_free s) = phys_mem s"
  "info_free_frames (pmm_info (account_free s)) = info_free_frames (pmm_info s) + 1"
  "info_used_frames (pmm_info (account_free s)) = info_used_frames (pmm_info s) - 1"
  by (simp_all add: account_free_def)

lemma set_refcount_sel [simp]:
  "bitmap_size (set_refcount i c s) = bitmap_size s"
  "total_frames (set_refcount i c s) = total_frames s"
  "frame_bitmap (set_refcount i c s) = frame_bitmap s"
  "frame_refcount (set_refcount i c s) = (frame_refcount s)[i := c]"
  "protected_frames (set_refcount i c s) = protected_frames s"
  "last_free_index (set_refcount i c s) = last_free_index s"
  "phys_mem (set_refcount i c s) = phys_mem s" "pmm_info (set_refcount i c s) = pmm_info s"
  by (simp_all add: set_refcount_def)

lemma bitmap_wf_set_refcount [simp]: "bitmap_wf (set_refcount i c s) = bitmap_wf s"
  by (simp add: bitmap_wf_def)

text \<open>Giving a frame back: the counterpart of \<open>claim_frame\<close>.\<close>

definition release_frame :: "pfn \<Rightarrow> pmm_state \<Rightarrow> pmm_state" where
  "release_frame i s = account_free (clear_frame i (set_refcount i 0 s))"

lemma test_release_frame:
  "bitmap_wf s \<Longrightarrow> i < total_frames s \<Longrightarrow>
   test_frame (release_frame i s) j \<longleftrightarrow> j \<noteq> i \<and> test_frame s j"
  by (simp add: release_frame_def test_clear_frame)

lemma release_frame_sel [simp]:
  "total_frames (release_frame i s) = total_frames s"
  "bitmap_size (release_frame i s) = bitmap_size s"
  "frame_refcount (release_frame i s) = (frame_refcount s)[i := 0]"
  "protected_frames (release_frame i s) = protected_frames s"
  "last_free_index (release_frame i s) = last_free_index s"
  "phys_mem (release_frame i s) = phys_mem s"
  by (simp_all add: release_frame_def)

lemma free_set_release:
  "bitmap_wf s \<Longrightarrow> i < total_frames s \<Longrightarrow> free_set (release_frame i s) = insert i (free_set s)"
  by (auto simp: free_set_def test_release_frame)

lemma used_set_release:
  "bitmap_wf s \<Longrightarrow> i < total_frames s \<Longrightarrow> used_set (release_frame i s) = used_set s - {i}"
  by (auto simp: used_set_def test_release_frame)

text \<open>Whatever becomes of the reference count.\<close>

lemma release_frame_account:
  assumes inv: "account_inv s" and i: "i \<in> used_set s"
  shows "account_inv (account_free (clear_frame i (set_refcount i c s)))"
proof -
  define t where "t = set_refcount i c s"
  have wf: "bitmap_wf t" and lt: "i < total_frames t" and nf: "i \<notin> free_set s"
    using inv i by (auto simp: account_inv_def t_def used_set_def free_set_def)
  have tf: "test_frame (clear_frame i t) j \<longleftrightarrow> j \<noteq> i \<and> test_frame s j" "total_frames t = total_frames s" for j
    using test_clear_frame [OF wf lt, of j] by (simp_all add: t_def)
  have sets: "free_set (account_free (clear_frame i t)) = insert i (free_set s)"
    "used_set (account_free (clear_frame i t)) = used_set s - {i}"
    using lt by (auto simp: free_set_def used_set_def tf)
  have pos: "0 < card (used_set s)" using i by (metis card_gt_0_iff empty_iff finite_used_set)
  have bound: "card (free_set s) < 2 ^ 64 - 1"
    using card_free_used [of s] inv by (simp add: account_inv_def bitmap_wf_def)
  have "counts_ok (account_free (clear_frame i t))"
    using inv pos bound i nf unfolding counts_ok_def sets
    by (auto simp: account_inv_def counts_ok_def unat_inc64 unat_dec64 card_insert_if t_def)
  then show ?thesis using inv by (simp add: account_inv_def bitmap_wf_def t_def)
qed

lemma release_frame_inv:
  assumes inv: "pmm_inv s" and i: "i \<in> used_set s"
    and np: "\<forall>e \<in> set (protected_frames s). PADDR_TO_PFN (pf_frame e) \<noteq> i"
  shows "pmm_inv (release_frame i s)"
proof -
  have wf: "bitmap_wf s" and lt: "i < total_frames s" and nf: "i \<notin> free_set s"
    using inv i by (auto simp: pmm_inv_def free_set_def used_set_def)
  have "counts_ok (release_frame i s)"
    using release_frame_account [OF pmm_inv_account [OF inv] i, of 0] by (simp add: account_inv_def release_frame_def)
  moreover have "refcount_ok (release_frame i s)"
    using inv lt by (auto simp: refcount_ok_def pmm_inv_def test_release_frame [OF wf lt]
                                nth_list_update bitmap_wf_def)
  moreover have "bitmap_wf (release_frame i s)"
    using wf by (simp add: bitmap_wf_def) (simp add: release_frame_def)
  ultimately show ?thesis using inv np
    by (auto simp: pmm_inv_def protected_ok_def free_set_release [OF wf lt])
qed

lemma free_set_hint [simp]: "free_set (s\<lparr>last_free_index := i\<rparr>) = free_set s"
  by (simp add: free_set_def)

lemma find_protected_None:
  "find_protected_frame a s = None \<longleftrightarrow> a \<notin> pf_frame ` set (protected_frames s)"
  by (fastforce simp: find_protected_frame_def find_None_iff image_iff in_set_conv_nth)

lemma pmm_alloc_frame_cases:
  assumes inv: "pmm_inv s"
  shows "(free_set s = {} \<and> pmm_alloc_frame s = (PADDR_INVALID, s))
    \<or> (\<exists>i \<in> free_set s. pmm_alloc_frame s =
          (PFN_TO_PADDR i, zero_frames i 1 (claim_frame i (s\<lparr>last_free_index := i div 32\<rparr>))))"
proof (cases "find_free_frame s")
  case (Pair r s1)
  have wf: "bitmap_wf s" using inv by (simp add: pmm_inv_def)
  show ?thesis
  proof (cases r)
    case None
    with Pair find_free_frame_None [OF _ wf, of s1] show ?thesis by (simp add: pmm_alloc_frame_def)
  next
    case (Some i)
    with Pair have i: "i \<in> free_set s" and s1: "s1 = s\<lparr>last_free_index := i div 32\<rparr>"
      using find_free_frame_Some [OF _ wf, of i s1] by auto
    then have lt: "i < total_frames s" and nt: "\<not> test_frame s i" by (auto simp: free_set_def)
    have lt': "i < 524288" using lt wf by (simp add: bitmap_wf_def)
    have wf1: "bitmap_wf s1" using wf word_slot [OF lt wf] by (simp add: s1 bitmap_wf_def)
    have low: "\<not> 0x80000000 \<le> PFN_TO_PADDR i"
      using lt' by (simp add: word_le_nat_alt unat_PFN_TO_PADDR)
    have np: "PFN_TO_PADDR i \<notin> pf_frame ` set (protected_frames s)"
      using inv i PADDR_TO_PFN_PFN_TO_PADDR [of i] lt'
      by (auto simp: pmm_inv_def protected_ok_def simp del: PADDR_TO_PFN_PFN_TO_PADDR)
    have "pmm_alloc_frame s = (PFN_TO_PADDR i, zero_frames i 1 (claim_frame i s1))"
      using Pair Some nt lt low np
      by (simp add: pmm_alloc_frame_def s1 test_claim_frame wf1 [unfolded s1] find_protected_None
                    Let_def)
    with i s1 show ?thesis by blast
  qed
qed

lemma pmm_alloc_frame_fail:
  assumes inv: "pmm_inv s" and alloc: "pmm_alloc_frame s = (PADDR_INVALID, s')"
  shows "free_set s = {} \<and> s' = s"
proof -
  have "PADDR_INVALID \<noteq> PFN_TO_PADDR i" if "i \<in> free_set s" for i
  proof -
    have "i < 2 ^ 52" using that inv by (auto simp: free_set_def pmm_inv_def bitmap_wf_def)
    then show ?thesis using PFN_TO_PADDR_valid by metis
  qed
  with pmm_alloc_frame_cases [OF inv] alloc show ?thesis by auto
qed

section \<open>Every operation keeps the invariant\<close>

lemma pmm_alloc_frame_inv:
  assumes inv: "pmm_inv s"
  shows "pmm_inv (snd (pmm_alloc_frame s))"
  using pmm_alloc_frame_cases [OF inv]
proof
  assume "free_set s = {} \<and> pmm_alloc_frame s = (PADDR_INVALID, s)"
  with inv show ?thesis by simp
next
  assume "\<exists>i \<in> free_set s. pmm_alloc_frame s =
    (PFN_TO_PADDR i, zero_frames i 1 (claim_frame i (s\<lparr>last_free_index := i div 32\<rparr>)))"
  then obtain i where i: "i \<in> free_set s" and eq: "pmm_alloc_frame s =
    (PFN_TO_PADDR i, zero_frames i 1 (claim_frame i (s\<lparr>last_free_index := i div 32\<rparr>)))" by blast
  have "i div 32 < bitmap_size s"
    using word_slot [of i s] i inv by (auto simp: free_set_def pmm_inv_def)
  then show ?thesis
    using inv i by (simp add: eq claim_frame_inv pmm_inv_hint)
qed

lemma set_refcount_inv:
  assumes "pmm_inv s" "i \<in> used_set s" "c \<noteq> 0"
  shows "pmm_inv (set_refcount i c s)"
proof -
  have "free_set (set_refcount i c s) = free_set s" "used_set (set_refcount i c s) = used_set s"
    by (auto simp: free_set_def used_set_def)
  with assms show ?thesis
    by (auto simp: pmm_inv_def counts_ok_def refcount_ok_def protected_ok_def used_set_def
                   nth_list_update bitmap_wf_def)
qed

lemma refcount_pos: "pmm_inv s \<Longrightarrow> i \<in> used_set s \<Longrightarrow> frame_refcount s ! i \<noteq> 0"
  by (auto simp: pmm_inv_def refcount_ok_def used_set_def)

lemma pmm_free_frame_eq:
  assumes "pmm_inv s" "frame \<noteq> 0" "IS_PADDR_ALIGNED frame" "PADDR_TO_PFN frame \<in> used_set s"
    "frame \<notin> pf_frame ` set (protected_frames s)"
  shows "pmm_free_frame frame s =
    (let i = PADDR_TO_PFN frame in
       if frame_refcount s ! i = 1 then lower_hint (i div 32) (release_frame i s)
       else set_refcount i (frame_refcount s ! i - 1) s)"
proof -
  have len: "PADDR_TO_PFN frame < length (frame_refcount s)"
    using assms by (simp add: pmm_inv_def bitmap_wf_def used_set_def)
  have "frame \<noteq> PADDR_INVALID" using assms(3) PADDR_INVALID_unaligned by auto
  then show ?thesis
    using assms len refcount_pos [OF assms(1,4)]
    by (auto simp: pmm_free_frame_def Let_def used_set_def find_protected_None release_frame_def
                   word_gt_0)
qed

lemma pmm_free_frame_refuse:
  assumes "frame = 0 \<or> \<not> IS_PADDR_ALIGNED frame \<or> PADDR_TO_PFN frame \<notin> used_set s
    \<or> frame \<in> pf_frame ` set (protected_frames s)"
  shows "pmm_free_frame frame s = s"
  using assms by (auto simp: pmm_free_frame_def Let_def used_set_def find_protected_None)

lemma protected_pfn:
  assumes "pmm_inv s" "IS_PADDR_ALIGNED frame" "frame \<notin> pf_frame ` set (protected_frames s)"
  shows "\<forall>e \<in> set (protected_frames s). PADDR_TO_PFN (pf_frame e) \<noteq> PADDR_TO_PFN frame"
  using assms by (auto simp: pmm_inv_def protected_ok_def aligned_eq_iff)

lemma pmm_free_frame_inv:
  assumes inv: "pmm_inv s"
  shows "pmm_inv (pmm_free_frame frame s)"
proof (cases "frame = 0 \<or> \<not> IS_PADDR_ALIGNED frame \<or> PADDR_TO_PFN frame \<notin> used_set s
    \<or> frame \<in> pf_frame ` set (protected_frames s)")
  case True
  with inv show ?thesis by (simp add: pmm_free_frame_refuse)
next
  case False
  then have ok: "frame \<noteq> 0" "IS_PADDR_ALIGNED frame" "PADDR_TO_PFN frame \<in> used_set s"
    "frame \<notin> pf_frame ` set (protected_frames s)" by auto
  show ?thesis
  proof (cases "frame_refcount s ! PADDR_TO_PFN frame = 1")
    case True
    then show ?thesis
      using pmm_inv_lower_hint [OF release_frame_inv [OF inv ok(3) protected_pfn [OF inv ok(2,4)]]]
      by (simp add: pmm_free_frame_eq [OF inv ok] Let_def)
  next
    case False
    then show ?thesis
      using set_refcount_inv [OF inv ok(3)]
      by (simp add: pmm_free_frame_eq [OF inv ok] Let_def)
  qed
qed

lemma fold_inv: "(\<And>x s. x \<in> set xs \<Longrightarrow> P s \<Longrightarrow> P (f x s)) \<Longrightarrow> P s \<Longrightarrow> P (fold f xs s)"
  by (induction xs arbitrary: s) auto

lemma pmm_free_frames_inv: "pmm_inv s \<Longrightarrow> pmm_inv (pmm_free_frames frame n s)"
  unfolding pmm_free_frames_def by (rule fold_inv) (auto intro: pmm_free_frame_inv)

text \<open>Claiming a run of free frames, one after the other.\<close>

lemma claim_run_Suc: "claim_run start (Suc n) s = claim_frame (start + n) (claim_run start n s)"
  by (simp add: claim_run_def)

lemma claim_run_props:
  assumes inv: "pmm_inv s" and free: "{start..<start + n} \<subseteq> free_set s"
  shows "pmm_inv (claim_run start n s) \<and> free_set (claim_run start n s) = free_set s - {start..<start + n}
    \<and> total_frames (claim_run start n s) = total_frames s
    \<and> protected_frames (claim_run start n s) = protected_frames s
    \<and> phys_mem (claim_run start n s) = phys_mem s
    \<and> (\<forall>j < total_frames s. frame_refcount (claim_run start n s) ! j
         = (if j \<in> {start..<start + n} then 1 else frame_refcount s ! j))"
  using free
proof (induction n)
  case 0
  with inv show ?case by (simp add: claim_run_def)
next
  case (Suc n)
  have sub: "{start..<start + n} \<subseteq> free_set s" using Suc.prems by auto
  have IH: "pmm_inv (claim_run start n s)"
    "free_set (claim_run start n s) = free_set s - {start..<start + n}"
    "total_frames (claim_run start n s) = total_frames s"
    "protected_frames (claim_run start n s) = protected_frames s"
    "phys_mem (claim_run start n s) = phys_mem s"
    "\<forall>j < total_frames s. frame_refcount (claim_run start n s) ! j
         = (if j \<in> {start..<start + n} then 1 else frame_refcount s ! j)"
    using Suc.IH [OF sub] by simp_all
  have mem: "start + n \<in> free_set s" using Suc.prems by auto
  then have f: "start + n \<in> free_set (claim_run start n s)" using IH(2) by simp
  have lt: "start + n < total_frames (claim_run start n s)"
    using mem IH(3) by (simp add: free_set_def)
  have wf: "bitmap_wf (claim_run start n s)" using IH(1) by (simp add: pmm_inv_def)
  show ?case
    using claim_frame_inv [OF IH(1) f] IH lt wf
    by (auto simp: claim_run_Suc free_set_claim [OF wf lt] nth_list_update bitmap_wf_def)
qed

subsection \<open>The search for a run\<close>

definition free_run :: "pmm_state \<Rightarrow> pfn \<Rightarrow> nat \<Rightarrow> bool" where
  "free_run s start n \<longleftrightarrow> (\<forall>j. start \<le> j \<and> j < start + n \<longrightarrow> \<not> test_frame s j)"

text \<open>The loop invariant of the search before frame \<open>i\<close>: the current run is the maximal free run
  that ends at \<open>i\<close>, it is still too short, and no complete run has been passed.\<close>

definition scan_inv :: "pmm_state \<Rightarrow> nat \<Rightarrow> pfn \<Rightarrow> pfn \<Rightarrow> pfn option \<Rightarrow> nat \<Rightarrow> bool" where
  "scan_inv s n lo i start c \<longleftrightarrow>
     c < n \<and> lo + c \<le> i \<and> start = (if c = 0 then None else Some (i - c))
     \<and> free_run s (i - c) c \<and> (lo < i - c \<longrightarrow> test_frame s (i - c - 1))
     \<and> (\<forall>st. lo \<le> st \<and> st + n \<le> i \<longrightarrow> \<not> free_run s st n)"

lemma scan_inv_used:
  assumes "scan_inv s n lo i start c" "test_frame s i"
  shows "scan_inv s n lo (Suc i) None 0"
proof -
  have "\<not> free_run s st n" if "lo \<le> st" "st + n \<le> Suc i" for st
  proof (cases "st + n = Suc i")
    case True
    with assms that show ?thesis
      by (auto simp: free_run_def scan_inv_def intro!: exI [of _ i])
  next
    case False
    with assms that show ?thesis by (auto simp: scan_inv_def)
  qed
  with assms show ?thesis by (auto simp: scan_inv_def free_run_def)
qed

lemma scan_inv_free:
  assumes J: "scan_inv s n lo i start c" and free: "\<not> test_frame s i" and c: "Suc c < n"
  shows "scan_inv s n lo (Suc i) (Some (i - c)) (Suc c)"
proof -
  have "\<not> free_run s st n" if st: "lo \<le> st" "st + n \<le> Suc i" for st
  proof (cases "st + n = Suc i")
    case True
    with c st have "lo < i - c" "st \<le> i - c - 1" "i - c - 1 < st + n" by auto
    with J show ?thesis by (auto simp: free_run_def scan_inv_def intro!: exI [of _ "i - c - 1"])
  next
    case False
    with J st show ?thesis by (auto simp: scan_inv_def)
  qed
  with assms show ?thesis
    by (auto simp: scan_inv_def free_run_def Suc_diff_le less_Suc_eq)
qed

lemma scan_run_spec:
  assumes "scan_inv s n lo i start c" "i \<le> e" "\<And>st. lo \<le> st \<Longrightarrow> st + n \<le> e \<Longrightarrow> fits st"
  shows "(\<exists>st. scan_run s n fits [i..<e] start c = (Some st, n) \<and> lo \<le> st \<and> st + n \<le> e
             \<and> free_run s st n)
       \<or> (\<exists>r c'. scan_run s n fits [i..<e] start c = (r, c') \<and> c' < n
             \<and> (\<forall>st. lo \<le> st \<and> st + n \<le> e \<longrightarrow> \<not> free_run s st n))"
  using assms
proof (induction "e - i" arbitrary: i start c)
  case 0
  then show ?case by (auto simp: scan_inv_def)
next
  case (Suc k)
  then have upt: "[i..<e] = i # [Suc i..<e]" by (simp add: upt_conv_Cons)
  have k: "k = e - Suc i" "Suc i \<le> e" using Suc by auto
  show ?case
  proof (cases "test_frame s i")
    case True
    then show ?thesis
      using Suc.hyps(1) [OF k(1) scan_inv_used [OF Suc.prems(1) True] k(2) Suc.prems(3)]
      by (simp add: upt)
  next
    case False
    have st: "(if c = 0 then Some i else start) = Some (i - c)"
      using Suc.prems(1) by (auto simp: scan_inv_def)
    show ?thesis
    proof (cases "Suc c < n")
      case True
      then show ?thesis
        using Suc.hyps(1) [OF k(1) scan_inv_free [OF Suc.prems(1) False True] k(2) Suc.prems(3)]
          False st by (simp add: upt)
    next
      case stop: False
      with Suc.prems(1) have n: "n = Suc c" "lo \<le> i - c" "c \<le> i" by (auto simp: scan_inv_def)
      have "free_run s (i - c) n"
        using Suc.prems(1) False n by (auto simp: free_run_def scan_inv_def less_Suc_eq)
      moreover have "fits (i - c)" using Suc.prems(3) [of "i - c"] n k(2) by simp
      ultimately show ?thesis
        using False st n k(2) by (auto simp: upt)
    qed
  qed
qed

lemma scan_run_start: "0 < n \<Longrightarrow> scan_inv s n lo lo None 0"
  by (auto simp: scan_inv_def free_run_def)

lemma free_run_set:
  "st + n \<le> total_frames s \<Longrightarrow> free_run s st n \<longleftrightarrow> {st..<st + n} \<subseteq> free_set s"
  by (auto simp: free_run_def free_set_def)

text \<open>
  What a contiguous allocation of \<open>n\<close> frames between the frame numbers \<open>lo\<close> and \<open>hi\<close> promises.
\<close>

definition run_allocated :: "nat \<Rightarrow> pfn \<Rightarrow> pfn \<Rightarrow> pmm_state \<Rightarrow> paddr \<Rightarrow> pmm_state \<Rightarrow> bool" where
  "run_allocated n lo hi s addr s' \<longleftrightarrow>
     (if addr = PADDR_INVALID
      then s' = s \<and> (\<forall>st. lo \<le> st \<and> st + n \<le> hi \<longrightarrow> \<not> {st..<st + n} \<subseteq> free_set s)
      else \<exists>st. addr = PFN_TO_PADDR st \<and> lo \<le> st \<and> st + n \<le> hi
             \<and> {st..<st + n} \<subseteq> free_set s \<and> free_set s' = free_set s - {st..<st + n}
             \<and> pmm_inv s' \<and> total_frames s' = total_frames s
             \<and> (\<forall>j < total_frames s. frame_refcount s' ! j
                  = (if st \<le> j \<and> j < st + n then 1 else frame_refcount s ! j))
             \<and> (\<forall>j. phys_mem s' j = (if st \<le> j \<and> j < st + n then (\<lambda>_. 0) else phys_mem s j)))"

lemma take_run:
  assumes inv: "pmm_inv s" and st: "lo \<le> st" "st + n \<le> hi" "hi \<le> total_frames s"
    and free: "free_run s st n" and n: "0 < n"
  shows "run_allocated n lo hi s (PFN_TO_PADDR st) (zero_frames st n (claim_run st n s))"
proof -
  have sub: "{st..<st + n} \<subseteq> free_set s" using free st free_run_set [of st n s] by simp
  have "st < 2 ^ 52" using st n inv by (auto simp: pmm_inv_def bitmap_wf_def)
  then show ?thesis
    using claim_run_props [OF inv sub] sub st
    by (auto simp: run_allocated_def intro!: exI [of _ st])
qed

lemma pmm_alloc_frame_run:
  assumes inv: "pmm_inv s"
  shows "run_allocated 1 0 (total_frames s) s (fst (pmm_alloc_frame s)) (snd (pmm_alloc_frame s))"
  using pmm_alloc_frame_cases [OF inv]
proof
  assume a: "free_set s = {} \<and> pmm_alloc_frame s = (PADDR_INVALID, s)"
  then show ?thesis by (auto simp: run_allocated_def)
next
  assume "\<exists>i \<in> free_set s. pmm_alloc_frame s =
    (PFN_TO_PADDR i, zero_frames i 1 (claim_frame i (s\<lparr>last_free_index := i div 32\<rparr>)))"
  then obtain i where i: "i \<in> free_set s" and eq: "pmm_alloc_frame s =
    (PFN_TO_PADDR i, zero_frames i 1 (claim_frame i (s\<lparr>last_free_index := i div 32\<rparr>)))" by blast
  have lt: "i < total_frames s" and small: "i < 2 ^ 52" and len: "length (frame_refcount s) = total_frames s"
    using i inv by (auto simp: free_set_def pmm_inv_def bitmap_wf_def)
  have wf: "bitmap_wf (s\<lparr>last_free_index := i div 32\<rparr>)"
    using inv word_slot [OF lt] by (auto simp: pmm_inv_def bitmap_wf_def)
  have "pmm_inv (zero_frames i 1 (claim_frame i (s\<lparr>last_free_index := i div 32\<rparr>)))"
    using pmm_alloc_frame_inv [OF inv] by (simp add: eq)
  then show ?thesis
    using i lt len free_set_claim [OF wf, of i]
    unfolding eq fst_conv snd_conv run_allocated_def if_not_P [OF PFN_TO_PADDR_valid [OF small]]
    by (intro exI [of _ i] conjI) (simp_all add: nth_list_update atLeastLessThanSuc le_less_Suc_eq)
qed

lemma pmm_alloc_frames_run:
  assumes inv: "pmm_inv s" and cnt: "cnt \<noteq> 0"
  shows "run_allocated (unat cnt) 0 (total_frames s) s
           (fst (pmm_alloc_frames cnt s)) (snd (pmm_alloc_frames cnt s))"
proof (cases "cnt = 1")
  case True
  with pmm_alloc_frame_run [OF inv] show ?thesis by (simp add: pmm_alloc_frames_def)
next
  case False
  have n: "0 < unat cnt" using cnt by (simp add: unat_gt_0)
  from scan_run_spec [OF scan_run_start [OF n], of 0 "total_frames s" "\<lambda>_. True" s]
  show ?thesis
    using False cnt take_run [OF inv, of 0 _ "unat cnt" "total_frames s"] n
    by (auto simp: pmm_alloc_frames_def run_allocated_def [of _ _ _ s PADDR_INVALID] Let_def
                   free_run_set split: option.splits)
qed

definition zone_frames :: "pmm_zone \<Rightarrow> pmm_state \<Rightarrow> pfn \<times> pfn" where
  "zone_frames zone s =
     (let (zone_start, zone_end) = get_zone_range zone s
      in (PADDR_TO_PFN zone_start, min (PADDR_TO_PFN zone_end) (total_frames s)))"

lemma PFN_TO_PADDR_le: "k \<le> PADDR_TO_PFN a \<Longrightarrow> PFN_TO_PADDR k \<le> a"
  using PADDR_TO_PFN_lt [of a] unat_PFN_TO_PADDR [of k]
  by (simp add: word_le_nat_alt PADDR_TO_PFN_div)

lemma pmm_alloc_frames_zone_run:
  assumes inv: "pmm_inv s" and cnt: "cnt \<noteq> 0"
  shows "run_allocated (unat cnt) (fst (zone_frames zone s)) (snd (zone_frames zone s)) s
           (fst (pmm_alloc_frames_zone cnt zone s)) (snd (pmm_alloc_frames_zone cnt zone s))"
proof -
  obtain zs ze where z: "get_zone_range zone s = (zs, ze)" by (cases "get_zone_range zone s")
  define lo hi where "lo = PADDR_TO_PFN zs" and "hi = min (PADDR_TO_PFN ze) (total_frames s)"
  have zf: "zone_frames zone s = (lo, hi)" by (simp add: zone_frames_def z lo_def hi_def)
  have n: "0 < unat cnt" using cnt by (simp add: unat_gt_0)
  have fits: "PFN_TO_PADDR (st + unat cnt) \<le> ze" if "st + unat cnt \<le> hi" for st
    using that by (intro PFN_TO_PADDR_le) (simp add: hi_def)
  show ?thesis
  proof (cases "hi \<le> lo")
    case True
    then show ?thesis using n cnt
      by (auto simp: pmm_alloc_frames_zone_def z zf run_allocated_def Let_def
               simp flip: lo_def hi_def)
  next
    case False
    then have le: "lo \<le> hi" "hi \<le> total_frames s" by (auto simp: hi_def)
    have eq: "pmm_alloc_frames_zone cnt zone s =
      (case scan_run s (unat cnt) (\<lambda>st. PFN_TO_PADDR (st + unat cnt) \<le> ze) [lo..<hi] None 0 of
         (None, _) \<Rightarrow> (PADDR_INVALID, s)
       | (Some st, c) \<Rightarrow> if c < unat cnt then (PADDR_INVALID, s)
           else (PFN_TO_PADDR st, zero_frames st (unat cnt) (claim_run st (unat cnt) s)))"
      using False cnt by (simp add: pmm_alloc_frames_zone_def z Let_def flip: lo_def hi_def)
    from scan_run_spec [OF scan_run_start [OF n] le(1), of "\<lambda>st. PFN_TO_PADDR (st + unat cnt) \<le> ze" s]
      fits
    consider st where "scan_run s (unat cnt) (\<lambda>st. PFN_TO_PADDR (st + unat cnt) \<le> ze) [lo..<hi]
        None 0 = (Some st, unat cnt)" "lo \<le> st" "st + unat cnt \<le> hi" "free_run s st (unat cnt)"
      | r c where "scan_run s (unat cnt) (\<lambda>st. PFN_TO_PADDR (st + unat cnt) \<le> ze) [lo..<hi]
        None 0 = (r, c)" "c < unat cnt" "\<forall>st. lo \<le> st \<and> st + unat cnt \<le> hi \<longrightarrow>
        \<not> free_run s st (unat cnt)" by blast
    then show ?thesis
    proof cases
      case 1
      then show ?thesis
        using take_run [OF inv 1(2,3) le(2) 1(4) n] by (simp add: eq zf)
    next
      case 2
      have "\<not> {st..<st + unat cnt} \<subseteq> free_set s" if "lo \<le> st" "st + unat cnt \<le> hi" for st
        using 2(3) that le(2) free_run_set [of st "unat cnt" s] by simp
      then show ?thesis
        using 2(1,2) by (auto simp: eq zf run_allocated_def split: option.splits)
    qed
  qed
qed

lemma run_allocated_inv: "pmm_inv s \<Longrightarrow> run_allocated n lo hi s a s' \<Longrightarrow> pmm_inv s'"
  by (auto simp: run_allocated_def split: if_splits)

lemma pmm_alloc_frames_inv: "pmm_inv s \<Longrightarrow> pmm_inv (snd (pmm_alloc_frames cnt s))"
  using run_allocated_inv [OF _ pmm_alloc_frames_run] by (cases "cnt = 0") (auto simp: pmm_alloc_frames_def)

lemma pmm_alloc_frames_zone_inv: "pmm_inv s \<Longrightarrow> pmm_inv (snd (pmm_alloc_frames_zone cnt zone s))"
  using run_allocated_inv [OF _ pmm_alloc_frames_zone_run]
  by (cases "cnt = 0") (auto simp: pmm_alloc_frames_zone_def)

subsection \<open>Huge pages\<close>

lemma find_huge_Some:
  assumes "find_huge_page_frames s lo hi = Some st"
  shows "st mod HUGE_FRAMES = 0 \<and> lo \<le> st \<and> st + HUGE_FRAMES \<le> hi \<and> free_run s st HUGE_FRAMES"
proof -
  define a where "a = (lo + HUGE_FRAMES - 1) div HUGE_FRAMES * HUGE_FRAMES"
  from assms obtain k where k: "k < (hi - a) div HUGE_FRAMES" and st: "st = a + k * HUGE_FRAMES"
    and free: "all_free s st HUGE_FRAMES"
    unfolding find_huge_page_frames_def Let_def a_def [symmetric]
    by (auto simp: find_map_comp comp_def dest!: find_upt_SomeD)
  have "lo \<le> a" "a mod HUGE_FRAMES = 0" by (auto simp: a_def)
  moreover have "(k + 1) * HUGE_FRAMES \<le> hi - a"
    using k by (metis Suc_eq_plus1 Suc_leI div_times_less_eq_dividend dual_order.trans mult_le_mono1)
  moreover have "free_run s st HUGE_FRAMES"
    unfolding free_run_def
  proof (intro allI impI)
    fix j assume "st \<le> j \<and> j < st + HUGE_FRAMES"
    then have "j - st \<in> set [0..<HUGE_FRAMES]" "st + (j - st) = j" by auto
    with free show "\<not> test_frame s j" by (metis all_free_def)
  qed
  ultimately show ?thesis by (auto simp: st)
qed

lemma find_huge_None:
  assumes "find_huge_page_frames s lo hi = None" "st mod HUGE_FRAMES = 0" "lo \<le> st"
    "st + HUGE_FRAMES \<le> hi"
  shows "\<not> free_run s st HUGE_FRAMES"
proof
  assume free: "free_run s st HUGE_FRAMES"
  define a where "a = (lo + HUGE_FRAMES - 1) div HUGE_FRAMES * HUGE_FRAMES"
  have "st div HUGE_FRAMES * HUGE_FRAMES + st mod HUGE_FRAMES = st" by (rule div_mult_mod_eq)
  then obtain q where q: "st = q * HUGE_FRAMES" using assms(2) by (metis add.right_neutral)
  have "a \<le> st" using assms(3) unfolding a_def q by simp
  then obtain k where k: "st = a + k * HUGE_FRAMES"
    unfolding a_def q by (metis add_diff_inverse_nat diff_mult_distrib not_le)
  then have "(k + 1) * HUGE_FRAMES \<le> hi - a" using assms(4) by simp
  then have "k < (hi - a) div HUGE_FRAMES" by simp
  moreover have "all_free s st HUGE_FRAMES" using free by (auto simp: all_free_def free_run_def)
  ultimately show False
    using assms(1) k
    unfolding find_huge_page_frames_def Let_def a_def [symmetric]
    by (auto simp: find_map_comp comp_def find_upt_None)
qed

lemma take_huge_page_inv:
  assumes inv: "pmm_inv s" and hi: "hi \<le> total_frames s"
  shows "pmm_inv (snd (take_huge_page (find_huge_page_frames s lo hi) s))"
proof (cases "find_huge_page_frames s lo hi")
  case (Some st)
  then have "lo \<le> st" "st + HUGE_FRAMES \<le> hi" "free_run s st HUGE_FRAMES"
    using find_huge_Some by auto
  from run_allocated_inv [OF inv take_run [OF inv this(1,2) hi this(3)]] Some
  show ?thesis by (simp add: take_huge_page_def)
qed (simp add: take_huge_page_def inv)

lemma pmm_alloc_huge_page_inv: "pmm_inv s \<Longrightarrow> pmm_inv (snd (pmm_alloc_huge_page s))"
  by (simp add: pmm_alloc_huge_page_def take_huge_page_inv)

lemma pmm_alloc_huge_page_zone_inv:
  "pmm_inv s \<Longrightarrow> pmm_inv (snd (pmm_alloc_huge_page_zone zone s))"
  by (auto simp: pmm_alloc_huge_page_zone_def Let_def split: prod.splits intro: take_huge_page_inv)

lemma release_huge_frame_inv:
  assumes inv: "pmm_inv s" and i: "i < total_frames s"
    and np: "\<forall>e \<in> set (protected_frames s). PADDR_TO_PFN (pf_frame e) \<noteq> i"
  shows "pmm_inv (release_huge_frame i s)"
proof (cases "test_frame s i")
  case True
  then have u: "i \<in> used_set s" using i by (simp add: used_set_def)
  show ?thesis
  proof (cases "1 < frame_refcount s ! i")
    case True
    then have "frame_refcount s ! i - 1 \<noteq> 0" by auto
    with True u inv show ?thesis using \<open>test_frame s i\<close>
      by (simp add: release_huge_frame_def set_refcount_inv)
  next
    case False
    with \<open>test_frame s i\<close> release_frame_inv [OF inv u np] show ?thesis
      by (simp add: release_huge_frame_def release_frame_def)
  qed
qed (simp add: release_huge_frame_def inv)

lemma release_huge_frame_sel [simp]:
  "total_frames (release_huge_frame i s) = total_frames s"
  "protected_frames (release_huge_frame i s) = protected_frames s"
  by (auto simp: release_huge_frame_def)

text \<open>Freeing a huge page keeps the invariant only if none of its frames is protected: the code
  does not look at the protected list here.\<close>

lemma pmm_free_huge_page_inv:
  assumes inv: "pmm_inv s"
    and np: "\<forall>e \<in> set (protected_frames s). PADDR_TO_PFN (pf_frame e)
               \<notin> {PADDR_TO_PFN addr..<PADDR_TO_PFN addr + HUGE_FRAMES}"
  shows "pmm_inv (pmm_free_huge_page addr s)"
proof (cases "total_frames s < PADDR_TO_PFN addr + HUGE_FRAMES")
  case False
  let ?P = "\<lambda>t. pmm_inv t \<and> protected_frames t = protected_frames s
                \<and> total_frames t = total_frames s"
  have "?P (fold (\<lambda>i. release_huge_frame (PADDR_TO_PFN addr + i)) [0..<HUGE_FRAMES] s)"
  proof (rule fold_inv)
    fix i t assume i: "i \<in> set [0..<HUGE_FRAMES]" and P: "?P t"
    have "\<forall>e \<in> set (protected_frames t). PADDR_TO_PFN (pf_frame e) \<noteq> PADDR_TO_PFN addr + i"
      using np i P by fastforce
    with i P False show "?P (release_huge_frame (PADDR_TO_PFN addr + i) t)"
      by (auto intro!: release_huge_frame_inv)
  qed (simp add: inv)
  with inv show ?thesis by (auto simp: pmm_free_huge_page_def Let_def pmm_inv_lower_hint)
qed (simp add: pmm_free_huge_page_def Let_def inv)

subsection \<open>Protection, reservation and reference counts\<close>

lemma pmm_inv_protected:
  assumes "pmm_inv s" "distinct (map pf_frame ps)" "length ps \<le> MAX_PROTECTED_FRAMES"
    "\<forall>e \<in> set ps. IS_PADDR_ALIGNED (pf_frame e) \<and> PADDR_TO_PFN (pf_frame e) \<notin> free_set s"
  shows "pmm_inv (s\<lparr>protected_frames := ps\<rparr>)"
proof -
  have "free_set (s\<lparr>protected_frames := ps\<rparr>) = free_set s"
    "used_set (s\<lparr>protected_frames := ps\<rparr>) = used_set s"
    by (auto simp: free_set_def used_set_def)
  with assms show ?thesis
    by (simp add: pmm_inv_def bitmap_wf_def counts_ok_def refcount_ok_def protected_ok_def)
qed

lemma find_protected_Some:
  assumes "find_protected_frame a s = Some i"
  shows "i < length (protected_frames s) \<and> pf_frame (protected_frames s ! i) = a"
  using assms by (auto simp: find_protected_frame_def find_Some_iff_first)

lemma map_update_same: "i < length xs \<Longrightarrow> f y = f (xs ! i) \<Longrightarrow> map f (xs[i := y]) = map f xs"
  by (simp add: map_update list_update_same_conv)

lemma protect_entry_inv:
  assumes inv: "pmm_inv s" and a: "IS_PADDR_ALIGNED a" "PADDR_TO_PFN a \<notin> free_set s"
  shows "pmm_inv (protect_entry a s)"
proof (cases "find_protected_frame a s")
  case None
  then have new: "a \<notin> pf_frame ` set (protected_frames s)" by (simp add: find_protected_None)
  show ?thesis
  proof (cases "length (protected_frames s) < MAX_PROTECTED_FRAMES")
    case True
    with inv a new have "pmm_inv (s\<lparr>protected_frames := protected_frames s
        @ [\<lparr>pf_frame = a, pf_refcount = 1\<rparr>]\<rparr>)"
      by (intro pmm_inv_protected) (auto simp: pmm_inv_def protected_ok_def)
    with None True show ?thesis by (simp add: protect_entry_def)
  qed (simp add: protect_entry_def None inv)
next
  case (Some i)
  let ?y = "(protected_frames s ! i)\<lparr>pf_refcount := pf_refcount (protected_frames s ! i) + 1\<rparr>"
  have i: "i < length (protected_frames s)" using find_protected_Some [OF Some] by simp
  then have m: "map pf_frame ((protected_frames s)[i := ?y]) = map pf_frame (protected_frames s)"
    by (simp add: map_update_same)
  have "\<forall>e \<in> set ((protected_frames s)[i := ?y]).
      IS_PADDR_ALIGNED (pf_frame e) \<and> PADDR_TO_PFN (pf_frame e) \<notin> free_set s"
    using inv i by (auto simp: pmm_inv_def protected_ok_def dest!: subsetD [OF set_update_subset_insert])
  with inv m show ?thesis
    by (auto simp: protect_entry_def Some pmm_inv_def [of s] protected_ok_def
             intro!: pmm_inv_protected [OF inv])
qed

lemma pmm_protect_frame_inv:
  assumes inv: "pmm_inv s"
  shows "pmm_inv (pmm_protect_frame a s)"
proof -
  let ?i = "PADDR_TO_PFN (align_frame a)"
  let ?s1 = "if ?i < total_frames s \<and> \<not> test_frame s ?i then claim_frame ?i s else s"
  have "pmm_inv ?s1" using inv by (simp add: claim_frame_inv free_set_def)
  moreover have "?i \<notin> free_set ?s1"
    using inv free_set_claim [of s ?i] by (auto simp: pmm_inv_def) (auto simp: free_set_def)
  ultimately show ?thesis
    using inv by (auto simp: pmm_protect_frame_def Let_def intro!: protect_entry_inv)
qed

lemma swap_remove:
  assumes "distinct xs" "i < length xs"
  shows "distinct (butlast (xs[i := last xs]))
    \<and> set (butlast (xs[i := last xs])) = set xs - {xs ! i}"
proof -
  obtain ys z where xs: "xs = ys @ [z]" using assms(2) by (cases xs rule: rev_cases) auto
  show ?thesis
  proof (cases "i = length ys")
    case False
    then have i: "i < length ys" using assms(2) xs by simp
    with assms(1) have "set (ys[i := z]) = insert z (set ys - {ys ! i})" "ys ! i \<noteq> z"
      by (auto simp: xs set_update_distinct)
    with i assms(1) show ?thesis
      by (auto simp: xs list_update_append nth_append intro!: distinct_list_update)
  qed (use assms(1) in \<open>auto simp: xs\<close>)
qed

lemma map_butlast_swap:
  "i < length xs \<Longrightarrow> map f (butlast (xs[i := last xs])) = butlast ((map f xs)[i := last (map f xs)])"
  by (cases xs rule: rev_cases) (auto simp: map_butlast map_update)

lemma pmm_unprotect_frame_inv:
  assumes inv: "pmm_inv s"
  shows "pmm_inv (pmm_unprotect_frame a s)"
proof (cases "find_protected_frame (align_frame a) s")
  case None
  with inv show ?thesis by (simp add: pmm_unprotect_frame_def)
next
  case (Some i)
  define e where "e = protected_frames s ! i"
  define c where "c = (if pf_refcount e = 0 then 0 else pf_refcount e - 1)"
  define ps where "ps = (protected_frames s)[i := e\<lparr>pf_refcount := c\<rparr>]"
  have i: "i < length (protected_frames s)" using find_protected_Some [OF Some] by simp
  have m: "map pf_frame ps = map pf_frame (protected_frames s)"
    using i by (simp add: ps_def e_def map_update_same)
  have d: "distinct (map pf_frame ps)" and len: "length ps \<le> MAX_PROTECTED_FRAMES"
    using inv by (auto simp: m pmm_inv_def protected_ok_def) (simp add: ps_def)
  have ok: "IS_PADDR_ALIGNED f \<and> PADDR_TO_PFN f \<notin> free_set s" if "f \<in> pf_frame ` set ps" for f
  proof -
    have "f \<in> set (map pf_frame (protected_frames s))" using that m by (metis set_map)
    then show ?thesis using inv by (auto simp: pmm_inv_def protected_ok_def)
  qed
  have i': "i < length ps" using i by (simp add: ps_def)
  have "pmm_inv (s\<lparr>protected_frames := ps\<rparr>)"
    using d len ok by (intro pmm_inv_protected [OF inv]) auto
  moreover have "pmm_inv (s\<lparr>protected_frames := butlast (ps[i := last ps])\<rparr>)"
  proof (intro pmm_inv_protected [OF inv] ballI)
    show "distinct (map pf_frame (butlast (ps[i := last ps])))"
      using swap_remove [OF d, of i] i' by (simp add: map_butlast_swap)
    show "length (butlast (ps[i := last ps])) \<le> MAX_PROTECTED_FRAMES" using len by simp
    fix f assume f: "f \<in> set (butlast (ps[i := last ps]))"
    then have "f \<in> insert (last ps) (set ps)"
      using set_update_subset_insert in_set_butlastD by fastforce
    then show "IS_PADDR_ALIGNED (pf_frame f) \<and> PADDR_TO_PFN (pf_frame f) \<notin> free_set s"
      using ok i' by (cases ps rule: rev_cases) auto
  qed
  moreover have "pmm_unprotect_frame a s = (if a = 0 \<or> a = PADDR_INVALID then s
      else s\<lparr>protected_frames := (if c = 0 then butlast (ps[i := last ps]) else ps)\<rparr>)"
    unfolding pmm_unprotect_frame_def Some option.case Let_def e_def [symmetric] c_def [symmetric]
      ps_def [symmetric] ..
  ultimately show ?thesis using inv by simp
qed

lemma reserve_frame_inv:
  "pmm_inv s \<Longrightarrow> f < total_frames s \<Longrightarrow> pmm_inv (reserve_frame f s)"
  by (simp add: reserve_frame_def claim_frame_inv free_set_def)

lemma pmm_set_heap_reserved_range_inv:
  assumes inv: "pmm_inv s"
  shows "pmm_inv (pmm_set_heap_reserved_range a b s)"
proof -
  have "pmm_inv (fold reserve_frame [st..<min e (total_frames s)] t)
      \<and> total_frames (fold reserve_frame [st..<min e (total_frames s)] t) = total_frames s"
    if "pmm_inv t" "total_frames t = total_frames s" for st e t
    by (rule fold_inv [where P = "\<lambda>t. pmm_inv t \<and> total_frames t = total_frames s"])
       (use that in \<open>auto simp: reserve_frame_inv reserve_frame_def [THEN arg_cong, of total_frames]\<close>)
  moreover have "pmm_inv (s\<lparr>heap_reserved_phys_start := p, heap_reserved_phys_end := q\<rparr>)" for p q
    by (rule pmm_inv_cong [of s]) (use inv in \<open>auto simp: pmm_inv_def bitmap_wf_def\<close>)
  ultimately show ?thesis
    using inv by (auto simp: pmm_set_heap_reserved_range_def Let_def)
qed

lemma pmm_frame_ref_inc_inv:
  assumes "pmm_inv s" "PADDR_TO_PFN a \<in> used_set s"
  shows "pmm_inv (snd (pmm_frame_ref_inc a s))"
proof -
  have "c + 1 \<noteq> 0" if "c \<noteq> 0xFFFF" for c :: u16
    using that eq_neg_iff_add_eq_0 [of c 1] by auto
  then show ?thesis
    using assms by (auto simp: pmm_frame_ref_inc_def Let_def intro!: set_refcount_inv)
qed

lemma pmm_frame_ref_dec_inv:
  assumes "pmm_inv s" "PADDR_TO_PFN a \<in> used_set s" "frame_refcount s ! PADDR_TO_PFN a \<noteq> 1"
  shows "pmm_inv (snd (pmm_frame_ref_dec a s))"
  using assms by (auto simp: pmm_frame_ref_dec_def Let_def intro!: set_refcount_inv)

section \<open>Initialisation from the Multiboot memory map\<close>

record mmap_entry =
  mm_addr :: u64
  mm_len :: u64
  mm_type :: u32

record mb_module =
  mod_start :: u32
  mod_end :: u32

text \<open>The fields of \<^verbatim>\<open>multiboot_info_t\<close> which the code reads; the two tables are given as the lists
  of their entries.\<close>

record multiboot_info =
  mb_flags :: u32
  mb_mmap :: "mmap_entry list"
  mb_mods :: "mb_module list"

definition PAGE_ALIGN_UP :: "'a::len word \<Rightarrow> 'a word" where
  "PAGE_ALIGN_UP a = (a + 4096 - 1) AND 0xFFFFF000"

definition region_end :: "mmap_entry \<Rightarrow> paddr" where
  "region_end e = min (mm_addr e + mm_len e) 0x80000000"

definition mmap_max_addr :: "mmap_entry list \<Rightarrow> paddr" where
  "mmap_max_addr es =
     fold (\<lambda>e m. if mm_type e = 1 then (if m < region_end e then region_end e else m) else m) es 0"

text \<open>The frames of an available region, after the clipping at 2 GB, at the end of the kernel and at
  the end of the allocator's own tables.\<close>

definition region_frames :: "paddr \<Rightarrow> paddr \<Rightarrow> mmap_entry \<Rightarrow> pfn list" where
  "region_frames kernel_end refcount_end e =
     (if mm_type e = 1
      then let start = PADDR_ALIGN_UP (mm_addr e);
               e_end = min (PADDR_ALIGN_DOWN (mm_addr e + mm_len e)) 0x80000000;
               start = (if start < kernel_end then kernel_end else start);
               start = (if start < refcount_end then refcount_end else start)
           in if start < e_end then [PADDR_TO_PFN start..<PADDR_TO_PFN e_end] else []
      else [])"

definition boot_clear :: "pfn \<Rightarrow> pmm_state \<Rightarrow> pmm_state" where
  "boot_clear f s = (clear_frame f s)\<lparr>pmm_info := (pmm_info s)
     \<lparr>info_free_frames := info_free_frames (pmm_info s) + 1\<rparr>\<rparr>"

definition boot_module_frame :: "pfn \<Rightarrow> pmm_state \<Rightarrow> pmm_state" where
  "boot_module_frame f s =
     (if f < total_frames s \<and> \<not> test_frame s f
      then (set_frame f s)\<lparr>pmm_info := (pmm_info s)
              \<lparr>info_free_frames := info_free_frames (pmm_info s) - 1\<rparr>\<rparr>
      else s)"

definition module_frames :: "mb_module \<Rightarrow> pfn list" where
  "module_frames m = [PADDR_TO_PFN (PADDR_ALIGN_DOWN (ucast (mod_start m)))
                      ..<PADDR_TO_PFN (ucast (mod_end m + 4096 - 1) AND NOT 4095)]"

text \<open>The state before the memory map is read: every bit set, nothing counted.\<close>

definition boot_tables :: "paddr \<Rightarrow> (pfn \<Rightarrow> nat \<Rightarrow> u32) \<Rightarrow> pmm_state" where
  "boot_tables max_addr ram =
     (let total = unat (max_addr div 4096);
          bitmap_bytes = PAGE_ALIGN_UP ((of_nat total + 31) div 32 * 4 :: u64)
      in \<lparr>frame_bitmap = replicate (unat (bitmap_bytes div 4)) 0xFFFFFFFF,
          bitmap_size = unat (bitmap_bytes div 4), total_frames = total,
          pmm_info = \<lparr>info_total_frames = of_nat total, info_free_frames = 0,
                      info_used_frames = 0, info_reserved_frames = 0,
                      info_kernel_frames = 0, info_bitmap_frames = 0\<rparr>,
          last_free_index = 0, protected_frames = [],
          frame_refcount = replicate total 0,
          heap_reserved_phys_start = 0, heap_reserved_phys_end = 0, phys_mem = ram\<rparr>)"

definition boot_finish :: "paddr \<Rightarrow> paddr \<Rightarrow> paddr \<Rightarrow> paddr \<Rightarrow> pmm_state \<Rightarrow> pmm_state" where
  "boot_finish kernel_end bitmap_start bitmap_end refcount_end s =
     (let kf = of_nat (PADDR_TO_PFN (kernel_end - 0x100000));
          bf = of_nat (PADDR_TO_PFN (bitmap_end - bitmap_start));
          rf = of_nat (PADDR_TO_PFN (refcount_end - bitmap_end))
      in s\<lparr>pmm_info := (pmm_info s)
             \<lparr>info_used_frames := of_nat (total_frames s) - info_free_frames (pmm_info s),
              info_kernel_frames := kf, info_bitmap_frames := bf,
              info_reserved_frames := kf + bf + rf\<rparr>,
           frame_refcount := map (\<lambda>i. if test_frame s i then 1 else 0) [0..<total_frames s]\<rparr>)"

text \<open>\<open>kernel_end_virt\<close> is the linker symbol \<^verbatim>\<open>_kernel_end\<close>; \<open>None\<close> is the panic on a missing memory
  map.\<close>

definition pmm_init :: "u32 \<Rightarrow> multiboot_info \<Rightarrow> (pfn \<Rightarrow> nat \<Rightarrow> u32) \<Rightarrow> pmm_state option" where
  "pmm_init kernel_end_virt mbi ram =
     (if mb_flags mbi AND 0x40 = 0 then None
      else let kernel_end = ucast (PAGE_ALIGN_UP (kernel_end_virt - 0x80000000)) :: paddr;
               s0 = boot_tables (mmap_max_addr (mb_mmap mbi)) ram;
               bitmap_start = ucast (PAGE_ALIGN_UP kernel_end_virt - 0x80000000) :: paddr;
               bitmap_end = PAGE_ALIGN_UP (bitmap_start + of_nat (bitmap_size s0) * 4);
               refcount_end = PAGE_ALIGN_UP (bitmap_end
                                + PAGE_ALIGN_UP (of_nat (total_frames s0) * 2));
               s1 = fold (\<lambda>f s. if f < total_frames s then set_frame f s else s)
                      [PADDR_TO_PFN bitmap_end..<PADDR_TO_PFN refcount_end] s0;
               s2 = fold boot_clear
                      (concat (map (region_frames kernel_end refcount_end) (mb_mmap mbi))) s1;
               s3 = (if mb_flags mbi AND 0x8 \<noteq> 0 \<and> mb_mods mbi \<noteq> []
                     then fold boot_module_frame (concat (map module_frames (mb_mods mbi))) s2
                     else s2)
           in Some (boot_finish kernel_end bitmap_start bitmap_end refcount_end s3))"

lemma unat_and_page_mask: "unat ((x :: u64) AND NOT 4095) = unat x div 4096 * 4096"
proof -
  have m: "(4095 :: u64) = mask 12" by (simp add: mask_eq_exp_minus_1)
  have "x AND NOT 4095 = push_bit 12 (drop_bit 12 x)"
    unfolding m by (rule bit_word_eqI) (auto simp: bit_simps)
  also have "\<dots> = PFN_TO_PADDR (PADDR_TO_PFN x)"
    unfolding PFN_TO_PADDR_def PADDR_TO_PFN_def by simp
  finally show ?thesis
    using unat_PFN_TO_PADDR [OF PADDR_TO_PFN_lt, of x] by (simp only: PADDR_TO_PFN_div)
qed

lemma unat_PAGE_ALIGN_UP:
  assumes "unat (x :: u64) + 4095 < 4294967296"
  shows "unat (PAGE_ALIGN_UP x) = (unat x + 4095) div 4096 * 4096"
proof -
  have xs: "unat (x + 4095) = unat x + 4095"
    using assms by (simp add: unat_plus_if_size word_size)
  have tb: "take_bit 32 (x + 4095) = x + 4095"
    using assms xs by (simp add: word_unat_eq_iff unsigned_take_bit_eq take_bit_nat_eq_self)
  have m: "(0xFFFFF000 :: u64) = mask 32 AND NOT 4095" and e: "x + 4096 - 1 = x + 4095"
    by (simp_all add: mask_eq_exp_minus_1)
  have "PAGE_ALIGN_UP x = take_bit 32 (x + 4095) AND NOT 4095"
    unfolding PAGE_ALIGN_UP_def e m take_bit_eq_mask by (simp only: and.assoc)
  then have "PAGE_ALIGN_UP x = (x + 4095) AND NOT 4095" by (simp only: tb)
  then show ?thesis by (simp only: unat_and_page_mask xs)
qed

lemma region_end_le: "region_end e \<le> 0x80000000"
  by (simp add: region_end_def)

lemma mmap_max_addr_bounds:
  "mmap_max_addr es \<le> 0x80000000 \<and> (\<forall>e \<in> set es. mm_type e = 1 \<longrightarrow> region_end e \<le> mmap_max_addr es)"
proof -
  let ?f = "\<lambda>e m. if mm_type e = 1 then (if m < region_end e then region_end e else m) else m"
  have "m \<le> fold ?f es m \<and> (m \<le> 0x80000000 \<longrightarrow> fold ?f es m \<le> 0x80000000)
      \<and> (\<forall>e \<in> set es. mm_type e = 1 \<longrightarrow> region_end e \<le> fold ?f es m)" for m
  proof (induction es arbitrary: m)
    case (Cons e es)
    show ?case using Cons [of "?f e m"] region_end_le [of e] by (auto split: if_splits)
  qed simp
  from this [of 0] show ?thesis unfolding mmap_max_addr_def by simp
qed

text \<open>The memory map a boot loader reports: no available region wraps around, and no two available
  regions overlap.\<close>

definition regions_apart :: "mmap_entry \<Rightarrow> mmap_entry \<Rightarrow> bool" where
  "regions_apart a b \<longleftrightarrow> unat (mm_addr a) + unat (mm_len a) \<le> unat (mm_addr b)
     \<or> unat (mm_addr b) + unat (mm_len b) \<le> unat (mm_addr a)"

definition mmap_ok :: "mmap_entry list \<Rightarrow> bool" where
  "mmap_ok es \<longleftrightarrow> sorted_wrt regions_apart (filter (\<lambda>e. mm_type e = 1) es)
     \<and> (\<forall>e \<in> set es. unat (mm_addr e) + unat (mm_len e) + 4095 < 18446744073709551616)"

lemma region_frames_inside:
  assumes f: "f \<in> set (region_frames ke re e)"
    and nw: "unat (mm_addr e) + unat (mm_len e) + 4095 < 18446744073709551616"
  shows "mm_type e = 1 \<and> unat (mm_addr e) \<le> f * 4096
    \<and> (f + 1) * 4096 \<le> unat (mm_addr e) + unat (mm_len e) \<and> f < PADDR_TO_PFN (region_end e)"
proof -
  let ?hi = "min (PADDR_ALIGN_DOWN (mm_addr e + mm_len e)) 0x80000000"
  have up: "unat (PADDR_ALIGN_UP (mm_addr e)) = (unat (mm_addr e) + 4095) div 4096 * 4096"
    using nw unfolding PADDR_ALIGN_UP_def unat_and_page_mask
    by (simp add: unat_plus_if_size word_size)
  have sum: "unat (mm_addr e + mm_len e) = unat (mm_addr e) + unat (mm_len e)"
    using nw by (simp add: unat_plus_if_size word_size)
  define st0 where "st0 = max (PADDR_ALIGN_UP (mm_addr e)) ke"
  define st where "st = max st0 re"
  have st: "PADDR_ALIGN_UP (mm_addr e) \<le> st" by (simp add: st_def st0_def le_max_iff_disj)
  have st0': "st0 = (if PADDR_ALIGN_UP (mm_addr e) < ke then ke else PADDR_ALIGN_UP (mm_addr e))"
    and st': "st = (if st0 < re then re else st0)"
    by (auto simp: st_def st0_def max_def)
  have t: "mm_type e = 1" and fr: "PADDR_TO_PFN st \<le> f" "f < PADDR_TO_PFN ?hi"
    using f unfolding region_frames_def Let_def st0' [symmetric] st' [symmetric]
    by (auto split: if_splits)
  have "(unat (mm_addr e) + 4095) div 4096 \<le> f"
    using st fr(1) up unfolding word_le_nat_alt PADDR_TO_PFN_div
    by (metis div_le_mono dual_order.trans nonzero_mult_div_cancel_right zero_neq_numeral)
  then have a: "unat (mm_addr e) \<le> f * 4096" by linarith
  have m: "unat ?hi \<le> unat (PADDR_ALIGN_DOWN (mm_addr e + mm_len e))" "unat ?hi \<le> 0x80000000"
    using min.cobounded1 [of "PADDR_ALIGN_DOWN (mm_addr e + mm_len e)" "0x80000000"]
      min.cobounded2 [of "PADDR_ALIGN_DOWN (mm_addr e + mm_len e)" "0x80000000"]
    by (simp_all only: word_le_nat_alt) auto
  have b: "(f + 1) * 4096 \<le> unat ?hi"
    using fr(2) by (simp add: PADDR_TO_PFN_div)
  have d: "unat (PADDR_ALIGN_DOWN (mm_addr e + mm_len e)) \<le> unat (mm_addr e) + unat (mm_len e)"
    by (simp only: PADDR_ALIGN_DOWN_def unat_and_page_mask sum div_times_less_eq_dividend)
  have "?hi \<le> region_end e"
    using sum d by (simp add: region_end_def min_le_iff_disj word_le_nat_alt min_def)
  then have "PADDR_TO_PFN ?hi \<le> PADDR_TO_PFN (region_end e)"
    by (simp add: PADDR_TO_PFN_div word_le_nat_alt div_le_mono)
  with a b d m(1) t fr(2) show ?thesis by linarith
qed

lemma region_frames_distinct: "distinct (region_frames ke re e)"
  by (simp add: region_frames_def Let_def)

lemma mmap_frames_distinct:
  assumes "mmap_ok es"
  shows "distinct (concat (map (region_frames ke re) es))"
  using assms
proof (induction es)
  case (Cons e es)
  then have IH: "distinct (concat (map (region_frames ke re) es))"
    by (auto simp: mmap_ok_def split: if_splits)
  have "set (region_frames ke re e) \<inter> set (region_frames ke re e') = {}" if "e' \<in> set es" for e'
  proof (rule ccontr)
    assume "set (region_frames ke re e) \<inter> set (region_frames ke re e') \<noteq> {}"
    then obtain f where f: "f \<in> set (region_frames ke re e)" "f \<in> set (region_frames ke re e')"
      by blast
    have "unat (mm_addr e) + unat (mm_len e) + 4095 < 18446744073709551616"
      "unat (mm_addr e') + unat (mm_len e') + 4095 < 18446744073709551616"
      using Cons.prems that by (auto simp: mmap_ok_def)
    note in1 = region_frames_inside [OF f(1) this(1)] and in2 = region_frames_inside [OF f(2) this(2)]
    then have "regions_apart e e'" using Cons.prems that by (auto simp: mmap_ok_def)
    with in1 in2 show False unfolding regions_apart_def by auto
  qed
  then show ?case using IH by (auto simp: region_frames_distinct)
qed simp

text \<open>While the map is read, the free counter follows the bitmap.\<close>

definition boot_inv :: "pmm_state \<Rightarrow> bool" where
  "boot_inv s \<longleftrightarrow> bitmap_wf s \<and> protected_frames s = []
     \<and> unat (info_free_frames (pmm_info s)) = card (free_set s)"

lemma boot_clear_inv:
  assumes inv: "boot_inv s" and f: "f \<in> used_set s"
  shows "boot_inv (boot_clear f s) \<and> used_set (boot_clear f s) = used_set s - {f}"
proof -
  have wf: "bitmap_wf s" and lt: "f < total_frames s"
    using inv f by (auto simp: boot_inv_def used_set_def)
  have t: "test_frame (boot_clear f s) j \<longleftrightarrow> j \<noteq> f \<and> test_frame s j" for j
    using test_clear_frame [OF wf lt, of j] by (simp add: boot_clear_def)
  have tot: "total_frames (boot_clear f s) = total_frames s" by (simp add: boot_clear_def)
  have fs: "free_set (boot_clear f s) = insert f (free_set s)" "f \<notin> free_set s"
    using t tot lt f by (auto simp: free_set_def used_set_def)
  have "card (free_set s) < 2 ^ 64 - 1"
    using card_free_used [of s] wf by (simp add: bitmap_wf_def)
  then have "boot_inv (boot_clear f s)"
    using inv fs unfolding boot_inv_def bitmap_wf_def tot
    by (auto simp: boot_clear_def unat_inc64)
  moreover have "used_set (boot_clear f s) = used_set s - {f}"
    using t tot by (auto simp: used_set_def)
  ultimately show ?thesis by simp
qed

lemma fold_boot_clear_inv:
  "boot_inv s \<Longrightarrow> distinct fs \<Longrightarrow> set fs \<subseteq> used_set s \<Longrightarrow> boot_inv (fold boot_clear fs s)"
proof (induction fs arbitrary: s)
  case (Cons f fs)
  then show ?case using boot_clear_inv [of s f] by auto
qed simp

lemma boot_module_frame_inv:
  assumes inv: "boot_inv s"
  shows "boot_inv (boot_module_frame f s)"
proof (cases "f < total_frames s \<and> \<not> test_frame s f")
  case True
  have wf: "bitmap_wf s" using inv by (simp add: boot_inv_def)
  have t: "test_frame (boot_module_frame f s) j \<longleftrightarrow> j = f \<or> test_frame s j" for j
    using test_set_frame [OF wf, of f j] True by (simp add: boot_module_frame_def)
  have tot: "total_frames (boot_module_frame f s) = total_frames s"
    by (simp add: boot_module_frame_def)
  have fs: "free_set (boot_module_frame f s) = free_set s - {f}" "f \<in> free_set s"
    using t tot True by (auto simp: free_set_def)
  have "0 < card (free_set s)" using fs(2) by (metis card_gt_0_iff empty_iff finite_free_set)
  then show ?thesis
    using inv fs True unfolding boot_inv_def bitmap_wf_def tot
    by (auto simp: boot_module_frame_def unat_dec64)
qed (auto simp: boot_module_frame_def inv)

lemma boot_set_frame_inv:
  assumes "boot_inv s" "free_set s = {}" "f < total_frames s"
  shows "boot_inv (set_frame f s) \<and> free_set (set_frame f s) = {}"
proof -
  have "free_set (set_frame f s) = {}"
    using assms test_set_frame [of s f] by (auto simp: free_set_def boot_inv_def)
  with assms show ?thesis by (auto simp: boot_inv_def bitmap_wf_def)
qed

lemma boot_tables_inv:
  assumes "m \<le> 0x80000000"
  shows "boot_inv (boot_tables m ram) \<and> free_set (boot_tables m ram) = {}
    \<and> total_frames (boot_tables m ram) = PADDR_TO_PFN m"
proof -
  define total where "total = unat (m div 4096)"
  define bytes where "bytes = (PAGE_ALIGN_UP ((of_nat total + 31) div 32 * 4) :: u64)"
  have tot: "total = unat m div 4096" by (simp add: total_def unat_div)
  have le: "total \<le> 524288" using assms by (simp add: tot word_le_nat_alt)
  have w: "unat ((of_nat total + 31) div 32 * 4 :: u64) = (total + 31) div 32 * 4"
    using le by (simp add: unat_word_ariths unat_div unat_of_nat)
  have "(total + 31) div 32 * 4 \<le> unat bytes"
    unfolding bytes_def using le w by (subst unat_PAGE_ALIGN_UP) auto
  then have "(total + 31) div 32 \<le> unat (bytes div 4)" by (simp add: unat_div less_eq_div_iff_mult_less_eq)
  then have size: "total \<le> 32 * unat (bytes div 4)" by linarith
  have test: "test_frame (boot_tables m ram) i" if "i < total" for i
  proof -
    have ff: "(0xFFFFFFFF :: u32) = mask 32" by (simp add: mask_eq_exp_minus_1)
    have "i div 32 < unat (bytes div 4)" using that size by auto
    then show ?thesis
      unfolding test_frame_bit boot_tables_def Let_def total_def [symmetric] bytes_def [symmetric]
      by (simp add: ff bit_mask_iff)
  qed
  have sel: "total_frames (boot_tables m ram) = total"
    "bitmap_size (boot_tables m ram) = unat (bytes div 4)"
    "length (frame_bitmap (boot_tables m ram)) = unat (bytes div 4)"
    "length (frame_refcount (boot_tables m ram)) = total"
    "last_free_index (boot_tables m ram) = 0" "protected_frames (boot_tables m ram) = []"
    "info_free_frames (pmm_info (boot_tables m ram)) = 0"
    unfolding boot_tables_def Let_def total_def [symmetric] bytes_def [symmetric] by simp_all
  have "free_set (boot_tables m ram) = {}" using test by (auto simp: free_set_def sel)
  then show ?thesis using size le
    by (auto simp: boot_inv_def bitmap_wf_def sel tot PADDR_TO_PFN_div)
qed

lemma fold_refcount_table:
  assumes "boot_inv s" "free_set s = {}"
  shows "boot_inv (fold (\<lambda>f s. if f < total_frames s then set_frame f s else s) fs s)
    \<and> free_set (fold (\<lambda>f s. if f < total_frames s then set_frame f s else s) fs s) = {}
    \<and> total_frames (fold (\<lambda>f s. if f < total_frames s then set_frame f s else s) fs s)
        = total_frames s"
  by (rule fold_inv [where P = "\<lambda>t. boot_inv t \<and> free_set t = {} \<and> total_frames t = total_frames s"])
     (use assms in \<open>auto simp: boot_set_frame_inv\<close>)

lemma boot_finish_inv:
  assumes inv: "boot_inv s"
  shows "pmm_inv (boot_finish ke bs be re s)"
proof -
  let ?t = "boot_finish ke bs be re s"
  have sel: "total_frames ?t = total_frames s" "test_frame ?t i = test_frame s i"
    "frame_refcount ?t = map (\<lambda>i. if test_frame s i then 1 else 0) [0..<total_frames s]"
    "frame_bitmap ?t = frame_bitmap s" "bitmap_size ?t = bitmap_size s"
    "last_free_index ?t = last_free_index s" "protected_frames ?t = protected_frames s"
    "info_free_frames (pmm_info ?t) = info_free_frames (pmm_info s)"
    "info_used_frames (pmm_info ?t) = of_nat (total_frames s) - info_free_frames (pmm_info s)" for i
    by (simp_all add: boot_finish_def Let_def test_frame_def)
  then have fu: "free_set ?t = free_set s" "used_set ?t = used_set s"
    by (auto simp: free_set_def used_set_def)
  have tot: "unat (of_nat (total_frames s) :: u64) = total_frames s"
    using inv by (simp add: boot_inv_def bitmap_wf_def unat_of_nat)
  have "unat (of_nat (total_frames s) - info_free_frames (pmm_info s)) = card (used_set s)"
    using inv card_free_used [of s]
    by (subst unat_sub) (auto simp: word_le_nat_alt tot boot_inv_def)
  with inv show ?thesis
    by (auto simp: pmm_inv_def boot_inv_def bitmap_wf_def counts_ok_def refcount_ok_def
                   protected_ok_def sel fu)
qed

lemma boot_finish_protected: "boot_inv s \<Longrightarrow> protected_frames (boot_finish ke bs be re s) = []"
  by (simp add: boot_finish_def boot_inv_def Let_def)

lemma pmm_init_inv:
  assumes "mb_flags mbi AND 0x40 \<noteq> 0" "mmap_ok (mb_mmap mbi)"
  shows "\<exists>s. pmm_init kernel_end_virt mbi ram = Some s \<and> pmm_inv s
    \<and> protected_frames s = []"
proof -
  let ?es = "mb_mmap mbi"
  let ?s0 = "boot_tables (mmap_max_addr ?es) ram"
  have max: "mmap_max_addr ?es \<le> 0x80000000" using mmap_max_addr_bounds by blast
  define s1 where "s1 = (\<lambda>fs. fold (\<lambda>f s. if f < total_frames s then set_frame f s else s) fs ?s0)"
  have s1: "boot_inv (s1 fs)" "free_set (s1 fs) = {}" "total_frames (s1 fs) = PADDR_TO_PFN (mmap_max_addr ?es)" for fs
    using fold_refcount_table boot_tables_inv [OF max, of ram] by (auto simp: s1_def)
  have frames: "set (concat (map (region_frames ke re) ?es)) \<subseteq> used_set (s1 fs)" for ke re fs
  proof
    fix f assume "f \<in> set (concat (map (region_frames ke re) ?es))"
    then obtain e where e: "e \<in> set ?es" "f \<in> set (region_frames ke re e)" by auto
    then have in_e: "mm_type e = 1" "f < PADDR_TO_PFN (region_end e)"
      using region_frames_inside [OF e(2)] assms(2) by (auto simp: mmap_ok_def)
    then have "PADDR_TO_PFN (region_end e) \<le> PADDR_TO_PFN (mmap_max_addr ?es)"
      using mmap_max_addr_bounds [of ?es] e(1)
      by (simp add: PADDR_TO_PFN_div word_le_nat_alt div_le_mono)
    with in_e s1(2,3) [of fs] show "f \<in> used_set (s1 fs)" by (auto simp: used_set_def free_set_def)
  qed
  have s2: "boot_inv (fold boot_clear (concat (map (region_frames ke re) ?es)) (s1 fs))" for ke re fs
    using fold_boot_clear_inv [OF s1(1) mmap_frames_distinct [OF assms(2)] frames] .
  have s3: "boot_inv (fold boot_module_frame ms s)" if "boot_inv s" for ms s
    by (rule fold_inv) (use that in \<open>auto intro: boot_module_frame_inv\<close>)
  show ?thesis
    unfolding pmm_init_def Let_def using assms(1)
    by (auto intro!: boot_finish_inv boot_finish_protected s2 [unfolded s1_def] s3)
qed

text \<open>
  For every Multiboot memory map whose available regions do not overlap, initialisation does
  not panic and leaves the allocator in a state that satisfies the invariant: the free and used
  counters agree with the bitmap, a frame is marked used exactly when its reference count is not
  zero, and the bitmap and the reference counts cover all frames below the 2 GB limit.
\<close>

theorem pmm_init_establishes_inv:
  assumes "mb_flags mbi AND 0x40 \<noteq> 0" "mmap_ok (mb_mmap mbi)"
  shows "\<exists>s. pmm_init kernel_end_virt mbi ram = Some s \<and> pmm_inv s"
  using pmm_init_inv [OF assms] by blast

theorem pmm_init_establishes_inv_witness:
  "\<exists>s. pmm_init 0x80200000
         \<lparr>mb_flags = 0x48,
          mb_mmap = [\<lparr>mm_addr = 0, mm_len = 0x9FC00, mm_type = 1\<rparr>,
                     \<lparr>mm_addr = 0x9FC00, mm_len = 0x400, mm_type = 2\<rparr>,
                     \<lparr>mm_addr = 0x100000, mm_len = 0x7EE0000, mm_type = 1\<rparr>],
          mb_mods = [\<lparr>mod_start = 0x300000, mod_end = 0x310000\<rparr>]\<rparr> (\<lambda>_ _. 0) = Some s \<and> pmm_inv s"
  by (rule pmm_init_establishes_inv) (simp_all add: mmap_ok_def regions_apart_def)

section \<open>What the allocator promises\<close>

text \<open>
  A small allocator state for the concrete instances below: four frames, frames 1 and 2 free,
  frame 3 protected once.
\<close>

definition pmm_sample :: pmm_state where
  "pmm_sample = \<lparr>frame_bitmap = [0xFFFFFFF9], bitmap_size = 1, total_frames = 4,
     pmm_info = \<lparr>info_total_frames = 4, info_free_frames = 2, info_used_frames = 2,
                 info_reserved_frames = 0, info_kernel_frames = 0, info_bitmap_frames = 0\<rparr>,
     last_free_index = 0, protected_frames = [\<lparr>pf_frame = 0x3000, pf_refcount = 1\<rparr>],
     frame_refcount = [1, 0, 0, 1], heap_reserved_phys_start = 0, heap_reserved_phys_end = 0,
     phys_mem = (\<lambda>_ _. 7)\<rparr>"

lemma pmm_sample_test:
  "test_frame pmm_sample 0" "\<not> test_frame pmm_sample 1" "\<not> test_frame pmm_sample 2"
  "test_frame pmm_sample 3" "\<not> test_frame pmm_sample (Suc 0)"
  by (simp_all add: test_frame_def pmm_sample_def)

lemma less_4: "i < (4 :: nat) \<longleftrightarrow> i = 0 \<or> i = 1 \<or> i = 2 \<or> i = 3"
  by auto

lemma pmm_sample_sets:
  "free_set pmm_sample = {1, 2}" "used_set pmm_sample = {0, 3}"
proof -
  have "total_frames pmm_sample = 4" by (simp add: pmm_sample_def)
  then show "free_set pmm_sample = {1, 2}" "used_set pmm_sample = {0, 3}"
    using pmm_sample_test by (auto simp: free_set_def used_set_def less_4)
qed

lemma pmm_sample_inv: "pmm_inv pmm_sample"
proof -
  have "refcount_ok pmm_sample"
    using pmm_sample_test by (auto simp: refcount_ok_def pmm_sample_def [THEN arg_cong, of total_frames]
      less_4 pmm_sample_def [THEN arg_cong, of frame_refcount])
  moreover have "bitmap_wf pmm_sample" by (simp add: bitmap_wf_def pmm_sample_def)
  moreover have "counts_ok pmm_sample" by (simp add: counts_ok_def pmm_sample_sets) (simp add: pmm_sample_def)
  moreover have "protected_ok pmm_sample"
    by (simp add: protected_ok_def pmm_sample_sets)
       (simp add: pmm_sample_def IS_PADDR_ALIGNED_def PADDR_TO_PFN_div)
  ultimately show ?thesis by (simp add: pmm_inv_def)
qed

text \<open>
  C17: a single-frame allocation fails exactly when no frame is free, and then changes nothing.
  Otherwise it returns the page-aligned address of a frame that was free, which is now used with
  one reference and filled with zeros; every other frame keeps its reference count and contents,
  and the invariant is kept.
\<close>

theorem pmm_alloc_frame_correct:
  assumes "pmm_inv s"
  shows "run_allocated 1 0 (total_frames s) s (fst (pmm_alloc_frame s)) (snd (pmm_alloc_frame s))
    \<and> (fst (pmm_alloc_frame s) = PADDR_INVALID \<longleftrightarrow> free_set s = {})"
proof -
  have "(fst (pmm_alloc_frame s) = PADDR_INVALID) = (free_set s = {})"
    using pmm_alloc_frame_cases [OF assms] assms
    by (auto simp: pmm_inv_def bitmap_wf_def free_set_def)
  with pmm_alloc_frame_run [OF assms] show ?thesis by simp
qed

theorem pmm_alloc_frame_correct_witness:
  "run_allocated 1 0 (total_frames pmm_sample) pmm_sample
     (fst (pmm_alloc_frame pmm_sample)) (snd (pmm_alloc_frame pmm_sample))
   \<and> fst (pmm_alloc_frame pmm_sample) \<noteq> PADDR_INVALID"
  using pmm_alloc_frame_correct [OF pmm_sample_inv] by (simp add: pmm_sample_sets)

text \<open>
  C26: an allocation of \<open>cnt\<close> consecutive frames in a zone returns the start of a run of \<open>cnt\<close> free
  frames inside the zone, all of them zeroed and referenced once, and changes no other frame; it
  fails only if the zone has no such run, so the single pass over the bitmap misses none.
\<close>

theorem pmm_alloc_frames_zone_correct:
  assumes "pmm_inv s" "cnt \<noteq> 0"
  shows "run_allocated (unat cnt) (fst (zone_frames zone s)) (snd (zone_frames zone s)) s
           (fst (pmm_alloc_frames_zone cnt zone s)) (snd (pmm_alloc_frames_zone cnt zone s))"
  using assms by (rule pmm_alloc_frames_zone_run)

theorem pmm_alloc_frames_zone_correct_witness:
  "run_allocated (unat (2 :: u32)) (fst (zone_frames ZONE_DMA pmm_sample))
     (snd (zone_frames ZONE_DMA pmm_sample)) pmm_sample
     (fst (pmm_alloc_frames_zone 2 ZONE_DMA pmm_sample))
     (snd (pmm_alloc_frames_zone 2 ZONE_DMA pmm_sample))"
  by (rule pmm_alloc_frames_zone_correct) (simp_all add: pmm_sample_inv)

lemma bitmap_set_clear:
  assumes "\<not> test_frame s i" "i < total_frames s" "bitmap_wf s"
  shows "frame_bitmap (clear_frame i (set_frame i s)) = frame_bitmap s"
proof -
  let ?w = "frame_bitmap s ! (i div 32)"
  have "\<not> bit ?w (i mod 32)" using assms word_slot [OF assms(2,3)] by (simp add: test_frame_bit)
  then have "(?w OR push_bit (i mod 32) 1) AND NOT (push_bit (i mod 32) 1) = ?w"
    by (intro bit_word_eqI) (auto simp: bit_simps)
  then show ?thesis
    using assms word_slot [OF assms(2,3)]
    by (simp add: clear_frame_def set_frame_def bitmap_wf_def list_update_same_conv)
qed

text \<open>
  Freeing a frame right after allocating it undoes the allocation: the bitmap, the reference
  counts and the counters are what they were, and the frame can be allocated again.  Frame 0 is
  excluded, because the code refuses to free the null address.
\<close>

theorem pmm_alloc_free_roundtrip:
  assumes inv: "pmm_inv s" and alloc: "pmm_alloc_frame s = (addr, s')"
    and ok: "addr \<noteq> PADDR_INVALID" "addr \<noteq> 0"
  shows "frame_bitmap (pmm_free_frame addr s') = frame_bitmap s
    \<and> frame_refcount (pmm_free_frame addr s') = frame_refcount s
    \<and> pmm_info (pmm_free_frame addr s') = pmm_info s
    \<and> free_set (pmm_free_frame addr s') = free_set s \<and> pmm_inv (pmm_free_frame addr s')"
proof -
  obtain i where i: "i \<in> free_set s" and addr: "addr = PFN_TO_PADDR i"
    and s': "s' = zero_frames i 1 (claim_frame i (s\<lparr>last_free_index := i div 32\<rparr>))"
    using pmm_alloc_frame_cases [OF inv] alloc ok(1) by auto
  have lt: "i < total_frames s" "\<not> test_frame s i" and wf: "bitmap_wf s" and small: "i < 2 ^ 52"
    and len: "length (frame_refcount s) = total_frames s" and rc: "frame_refcount s ! i = 0"
    using i inv by (auto simp: free_set_def pmm_inv_def bitmap_wf_def refcount_ok_def)
  have inv': "pmm_inv s'" using pmm_alloc_frame_inv [OF inv] alloc by simp
  have wf1: "bitmap_wf (s\<lparr>last_free_index := i div 32\<rparr>)"
    using wf word_slot [OF lt(1) wf] by (simp add: bitmap_wf_def)
  have used: "PADDR_TO_PFN addr \<in> used_set s'"
    using lt small by (simp add: addr s' used_set_def test_claim_frame [OF wf1])
  have np: "addr \<notin> pf_frame ` set (protected_frames s')"
  proof
    assume "addr \<in> pf_frame ` set (protected_frames s')"
    then obtain e where "e \<in> set (protected_frames s)" "pf_frame e = addr" by (auto simp: s')
    with inv have "PADDR_TO_PFN addr \<notin> free_set s" by (auto simp: pmm_inv_def protected_ok_def)
    with i small show False by (simp add: addr)
  qed
  have al: "IS_PADDR_ALIGNED addr" using small by (simp add: addr)
  have eq: "pmm_free_frame addr s' = lower_hint (i div 32) (release_frame i s')"
    using pmm_free_frame_eq [OF inv' ok(2) al used np] small lt len
    by (simp add: addr s' Let_def)
  have lh: "frame_bitmap (lower_hint k t) = frame_bitmap t" "free_set (lower_hint k t) = free_set t"
    "frame_refcount (lower_hint k t) = frame_refcount t" "pmm_info (lower_hint k t) = pmm_info t" for k t
    by (simp_all add: lower_hint_def)
  have bm: "frame_bitmap (release_frame i s') = frame_bitmap s"
    using bitmap_set_clear [OF lt(2,1) wf]
    by (simp add: release_frame_def s' claim_frame_def account_alloc_def set_refcount_def
                  zero_frames_def set_frame_def clear_frame_def account_free_def split: if_splits)
  have "pmm_info (release_frame i s') = pmm_info s"
    by (simp add: release_frame_def s' account_free_def)
       (simp add: claim_frame_def account_alloc_def)
  moreover have "frame_refcount (release_frame i s') = frame_refcount s"
    using rc by (simp add: s' list_update_same_conv lt len)
  moreover have "free_set (release_frame i s') = free_set s"
    using bm by (intro free_set_cong) (simp_all add: s' zero_frames_def)
  ultimately show ?thesis
    using pmm_free_frame_inv [OF inv', of addr] bm by (simp add: eq lh)
qed

theorem pmm_alloc_free_roundtrip_witness:
  "frame_bitmap (pmm_free_frame 0x1000 (snd (pmm_alloc_frame pmm_sample))) = [0xFFFFFFF9]"
proof -
  have "fst (pmm_alloc_frame pmm_sample) = 0x1000" by code_simp
  then have "pmm_alloc_frame pmm_sample = (0x1000, snd (pmm_alloc_frame pmm_sample))"
    by (metis prod.collapse)
  from pmm_alloc_free_roundtrip [OF pmm_sample_inv this] show ?thesis
    by (simp add: PADDR_INVALID_def pmm_sample_def)
qed

text \<open>
  Taking a further reference to a used, unprotected frame and freeing the frame once gives back
  exactly the state before, so a frame shared by copy-on-write survives every free but the last.
\<close>

theorem pmm_ref_inc_then_free:
  assumes inv: "pmm_inv s" and f: "frame \<noteq> 0" "IS_PADDR_ALIGNED frame"
    and used: "PADDR_TO_PFN frame \<in> used_set s"
    and np: "\<not> pmm_is_frame_protected frame s"
    and max: "frame_refcount s ! PADDR_TO_PFN frame \<noteq> 0xFFFF"
  shows "pmm_free_frame frame (snd (pmm_frame_ref_inc frame s)) = s"
proof -
  let ?i = "PADDR_TO_PFN frame"
  let ?c = "frame_refcount s ! ?i"
  have lt: "?i < length (frame_refcount s)" "?i < total_frames s"
    using used inv by (auto simp: used_set_def pmm_inv_def bitmap_wf_def)
  have ne: "frame \<noteq> PADDR_INVALID" using f PADDR_INVALID_unaligned by auto
  have eq: "snd (pmm_frame_ref_inc frame s) = set_refcount ?i (?c + 1) s"
    using f ne lt max by (simp add: pmm_frame_ref_inc_def Let_def)
  have inv': "pmm_inv (set_refcount ?i (?c + 1) s)"
    using pmm_frame_ref_inc_inv [OF inv used] eq by simp
  have used': "?i \<in> used_set (set_refcount ?i (?c + 1) s)"
    using used by (simp add: used_set_def)
  have np': "frame \<notin> pf_frame ` set (protected_frames (set_refcount ?i (?c + 1) s))"
    using np f ne by (simp add: pmm_is_frame_protected_def align_frame_def find_protected_None)
  have "?c \<noteq> 0" using refcount_pos [OF inv used] .
  then show ?thesis
    unfolding eq pmm_free_frame_eq [OF inv' f used' np'] Let_def
    using lt by (simp add: set_refcount_def)
qed

theorem pmm_ref_inc_then_free_witness:
  "pmm_free_frame 0x3000 (snd (pmm_frame_ref_inc 0x3000 (pmm_unprotect_frame 0x3000 pmm_sample)))
   = pmm_unprotect_frame 0x3000 pmm_sample"
proof (rule pmm_ref_inc_then_free)
  let ?s = "pmm_unprotect_frame 0x3000 pmm_sample"
  have pfn: "PADDR_TO_PFN 0x3000 = 3" by (simp add: PADDR_TO_PFN_div)
  show "pmm_inv ?s" by (rule pmm_unprotect_frame_inv [OF pmm_sample_inv])
  show "(0x3000 :: paddr) \<noteq> 0" "IS_PADDR_ALIGNED 0x3000" by (simp_all add: IS_PADDR_ALIGNED_def)
  have "test_frame ?s 3" "total_frames ?s = 4" "frame_refcount ?s ! 3 \<noteq> 0xFFFF" by code_simp+
  then show "PADDR_TO_PFN 0x3000 \<in> used_set ?s" "frame_refcount ?s ! PADDR_TO_PFN 0x3000 \<noteq> 0xFFFF"
    by (simp_all add: used_set_def pfn)
  show "\<not> pmm_is_frame_protected 0x3000 ?s" by code_simp
qed

section \<open>Bitmap and counters under arbitrary calls\<close>

text \<open>The laws of this section have no hypothesis on the arguments, on reference counts or on the protected list.\<close>

lemma account_inv_cong:
  assumes "account_inv s" "frame_bitmap t = frame_bitmap s" "bitmap_size t = bitmap_size s" "total_frames t = total_frames s"
    "pmm_info t = pmm_info s" "length (frame_refcount t) = length (frame_refcount s)" "last_free_index t \<le> bitmap_size t"
  shows "account_inv t"
proof -
  have "test_frame s = test_frame t" using assms by (intro ext test_frame_cong) auto
  then have "free_set s = free_set t" "used_set s = used_set t" using assms by (auto simp: free_set_def used_set_def)
  then show ?thesis using assms by (auto simp: account_inv_def counts_ok_def bitmap_wf_def)
qed

lemma account_inv_hint: "account_inv s \<Longrightarrow> account_inv (lower_hint i s)"
  by (rule account_inv_cong [of s]) (auto simp: lower_hint_def account_inv_def bitmap_wf_def)

lemma account_inv_refcount: "account_inv s \<Longrightarrow> account_inv (set_refcount i c s)"
  by (rule account_inv_cong [of s]) (auto simp: account_inv_def bitmap_wf_def)

lemma account_inv_zero: "account_inv s \<Longrightarrow> account_inv (zero_frames i n s)"
  by (rule account_inv_cong [of s]) (auto simp: account_inv_def bitmap_wf_def zero_frames_def)

lemma set_refcount_same: "set_refcount i (frame_refcount s ! i) s = s"
  by (simp add: set_refcount_def)

lemma clear_frame_refcount: "set_refcount i c (clear_frame j s) = clear_frame j (set_refcount i c s)"
  by (cases s) (simp add: set_refcount_def clear_frame_def)

lemma alloc_frame_account:
  assumes inv: "account_inv s"
  shows "account_inv (snd (pmm_alloc_frame s))"
proof (cases "find_free_frame s")
  case (Pair r s1)
  have wf: "bitmap_wf s" using inv by (simp add: account_inv_def)
  show ?thesis
  proof (cases r)
    case None
    with Pair find_free_frame_None [OF _ wf, of s1] inv show ?thesis by (simp add: pmm_alloc_frame_def)
  next
    case (Some i)
    with Pair have i: "i \<in> free_set s" and s1: "s1 = s\<lparr>last_free_index := i div 32\<rparr>"
      using find_free_frame_Some [OF _ wf, of i s1] by auto
    have lt: "i < total_frames s" using i by (simp add: free_set_def)
    have inv1: "account_inv s1"
      by (rule account_inv_cong [OF inv]) (use word_slot [OF lt wf] in \<open>auto simp: s1\<close>)
    have i1: "i \<in> free_set s1" using i by (simp add: s1)
    have inv2: "account_inv (claim_frame i s1)" by (rule claim_frame_account [OF inv1 i1])
    have wf1: "bitmap_wf s1" and lt1: "i < total_frames s1" and nt: "\<not> test_frame s1 i"
      using inv1 i1 by (auto simp: account_inv_def free_set_def)
    have u: "i \<in> used_set (claim_frame i s1)" using used_set_claim [OF wf1 lt1] by simp
    have "account_inv (account_free (clear_frame i (claim_frame i s1)))"
      using release_frame_account [OF inv2 u, of "frame_refcount (claim_frame i s1) ! i"] by (simp only: set_refcount_same)
    moreover have "account_inv (account_free (set_refcount i 0 (clear_frame i (claim_frame i s1))))"
      using release_frame_account [OF inv2 u, of 0] by (simp only: clear_frame_refcount)
    ultimately show ?thesis
      using Pair Some nt inv1 inv2 test_claim_frame [OF wf1 lt1, of i]
      by (simp add: pmm_alloc_frame_def Let_def account_inv_zero)
  qed
qed

lemma claim_run_account:
  assumes inv: "account_inv s" and free: "{start..<start + n} \<subseteq> free_set s"
  shows "account_inv (claim_run start n s)"
proof -
  have "account_inv (claim_run start n s) \<and> free_set (claim_run start n s) = free_set s - {start..<start + n}
      \<and> total_frames (claim_run start n s) = total_frames s"
    using free
  proof (induction n)
    case 0
    then show ?case using inv by (simp add: claim_run_def)
  next
    case (Suc n)
    have sub: "{start..<start + n} \<subseteq> free_set s" using Suc.prems by auto
    have IH: "account_inv (claim_run start n s)" "free_set (claim_run start n s) = free_set s - {start..<start + n}"
      "total_frames (claim_run start n s) = total_frames s" using Suc.IH [OF sub] by simp_all
    have f: "start + n \<in> free_set (claim_run start n s)" using Suc.prems IH(2) by auto
    have wf: "bitmap_wf (claim_run start n s)" using IH(1) by (simp add: account_inv_def)
    have lt: "start + n < total_frames (claim_run start n s)" using f by (simp add: free_set_def)
    have "free_set (claim_run start (Suc n) s) = free_set s - {start..<start + Suc n}"
      unfolding claim_run_Suc free_set_claim [OF wf lt] IH(2) by auto
    then show ?case
      using claim_frame_account [OF IH(1) f] IH(3) by (simp add: claim_run_Suc)
  qed
  then show ?thesis by blast
qed

lemma take_run_account:
  assumes "account_inv s" "free_run s st n" "st + n \<le> total_frames s"
  shows "account_inv (zero_frames st n (claim_run st n s))"
  using assms free_run_set [of st n s] by (intro account_inv_zero claim_run_account) auto

lemma alloc_frames_account:
  assumes inv: "account_inv s"
  shows "account_inv (snd (pmm_alloc_frames cnt s))"
proof -
  consider "cnt = 0" | "cnt = 1" | "cnt \<noteq> 0" "cnt \<noteq> 1" by blast
  then show ?thesis
  proof cases
    case 3
    then have n: "0 < unat cnt" by (simp add: unat_gt_0)
    from scan_run_spec [OF scan_run_start [OF n], of 0 "total_frames s" "\<lambda>_. True" s]
    show ?thesis
      using 3 inv take_run_account [OF inv, of _ "unat cnt"]
      by (auto simp: pmm_alloc_frames_def Let_def split: option.splits)
  qed (simp_all add: pmm_alloc_frames_def inv alloc_frame_account)
qed

lemma alloc_frames_zone_account:
  assumes inv: "account_inv s"
  shows "account_inv (snd (pmm_alloc_frames_zone cnt zone s))"
proof (cases "cnt = 0")
  case False
  obtain zs ze where z: "get_zone_range zone s = (zs, ze)" by (cases "get_zone_range zone s")
  define lo hi where "lo = PADDR_TO_PFN zs" and "hi = min (PADDR_TO_PFN ze) (total_frames s)"
  have n: "0 < unat cnt" using False by (simp add: unat_gt_0)
  have fits: "PFN_TO_PADDR (st + unat cnt) \<le> ze" if "st + unat cnt \<le> hi" for st
    using that by (intro PFN_TO_PADDR_le) (simp add: hi_def)
  show ?thesis
  proof (cases "hi \<le> lo")
    case True
    then show ?thesis using inv False by (auto simp: pmm_alloc_frames_zone_def z Let_def simp flip: lo_def hi_def)
  next
    case nonempty: False
    then have le: "lo \<le> hi" "hi \<le> total_frames s" by (auto simp: hi_def)
    have eq: "pmm_alloc_frames_zone cnt zone s =
      (case scan_run s (unat cnt) (\<lambda>st. PFN_TO_PADDR (st + unat cnt) \<le> ze) [lo..<hi] None 0 of
         (None, _) \<Rightarrow> (PADDR_INVALID, s)
       | (Some st, c) \<Rightarrow> if c < unat cnt then (PADDR_INVALID, s)
           else (PFN_TO_PADDR st, zero_frames st (unat cnt) (claim_run st (unat cnt) s)))"
      using False nonempty by (simp add: pmm_alloc_frames_zone_def z Let_def flip: lo_def hi_def)
    from scan_run_spec [OF scan_run_start [OF n] le(1), of "\<lambda>st. PFN_TO_PADDR (st + unat cnt) \<le> ze" s] fits le(2)
    show ?thesis
      using inv take_run_account [OF inv, of _ "unat cnt"] unfolding eq
      by (auto split: option.splits)
  qed
qed (simp add: pmm_alloc_frames_zone_def inv)

lemma take_huge_page_account:
  assumes "account_inv s" "hi \<le> total_frames s"
  shows "account_inv (snd (take_huge_page (find_huge_page_frames s lo hi) s))"
  using assms take_run_account [OF assms(1), of _ HUGE_FRAMES] find_huge_Some [of s lo hi]
  by (auto simp: take_huge_page_def split: option.splits)

lemma alloc_huge_page_account:
  "account_inv s \<Longrightarrow> account_inv (snd (pmm_alloc_huge_page s))"
  "account_inv s \<Longrightarrow> account_inv (snd (pmm_alloc_huge_page_zone zone s))"
  by (simp add: pmm_alloc_huge_page_def take_huge_page_account)
     (auto simp: pmm_alloc_huge_page_zone_def Let_def split: prod.splits intro: take_huge_page_account)

lemma free_frame_account:
  assumes inv: "account_inv s"
  shows "account_inv (pmm_free_frame frame s)"
proof (cases "PADDR_TO_PFN frame < total_frames s \<and> test_frame s (PADDR_TO_PFN frame)")
  case True
  define i where "i = PADDR_TO_PFN frame"
  define t where "t = (if frame_refcount s ! i = 0 then s else set_refcount i (frame_refcount s ! i - 1) s)"
  have t: "account_inv t" "used_set t = used_set s" using inv by (auto simp: t_def account_inv_refcount used_set_def)
  have i: "i \<in> used_set t" unfolding t(2) using True by (simp add: used_set_def i_def)
  have "account_inv (account_free (clear_frame i t))"
    using release_frame_account [OF t(1) i, of "frame_refcount t ! i"] by (simp only: set_refcount_same)
  then show ?thesis
    using inv t(1) unfolding pmm_free_frame_def Let_def i_def [symmetric] t_def [symmetric] by (simp add: account_inv_hint)
qed (auto simp: pmm_free_frame_def Let_def inv)

lemma free_frames_account: "account_inv s \<Longrightarrow> account_inv (pmm_free_frames frame n s)"
  unfolding pmm_free_frames_def by (rule fold_inv) (auto intro: free_frame_account)

lemma release_huge_frame_account:
  assumes inv: "account_inv s" and i: "i < total_frames s"
  shows "account_inv (release_huge_frame i s)"
  using inv i release_frame_account [OF inv, of i 0]
  by (auto simp: release_huge_frame_def account_inv_refcount used_set_def)

lemma free_huge_page_account:
  assumes inv: "account_inv s"
  shows "account_inv (pmm_free_huge_page a s)"
proof (cases "total_frames s < PADDR_TO_PFN a + HUGE_FRAMES")
  case False
  have "account_inv (fold (\<lambda>i. release_huge_frame (PADDR_TO_PFN a + i)) [0..<HUGE_FRAMES] s)
      \<and> total_frames (fold (\<lambda>i. release_huge_frame (PADDR_TO_PFN a + i)) [0..<HUGE_FRAMES] s) = total_frames s"
    by (rule fold_inv [where P = "\<lambda>t. account_inv t \<and> total_frames t = total_frames s"])
       (use inv False in \<open>auto intro!: release_huge_frame_account\<close>)
  with inv show ?thesis by (auto simp: pmm_free_huge_page_def Let_def account_inv_hint)
qed (simp add: pmm_free_huge_page_def Let_def inv)

lemma account_inv_protected: "account_inv s \<Longrightarrow> account_inv (s\<lparr>protected_frames := ps\<rparr>)"
  by (rule account_inv_cong [of s]) (auto simp: account_inv_def bitmap_wf_def)

lemma protect_frame_account: "account_inv s \<Longrightarrow> account_inv (pmm_protect_frame a s)"
  using claim_frame_account [of s "PADDR_TO_PFN (align_frame a)"]
  by (auto simp: pmm_protect_frame_def protect_entry_def Let_def free_set_def account_inv_protected split: option.splits)

lemma unprotect_frame_account: "account_inv s \<Longrightarrow> account_inv (pmm_unprotect_frame a s)"
  by (auto simp: pmm_unprotect_frame_def Let_def account_inv_protected split: option.splits)

lemma reserve_frame_account:
  "account_inv s \<Longrightarrow> f < total_frames s \<Longrightarrow> account_inv (reserve_frame f s)" "total_frames (reserve_frame f s) = total_frames s"
  by (simp_all add: reserve_frame_def claim_frame_account free_set_def)

lemma reserve_account:
  assumes inv: "account_inv s"
  shows "account_inv (pmm_set_heap_reserved_range a b s)"
proof -
  have "account_inv (fold reserve_frame [st..<min e (total_frames s)] t)
      \<and> total_frames (fold reserve_frame [st..<min e (total_frames s)] t) = total_frames s"
    if "account_inv t" "total_frames t = total_frames s" for st e t
    by (rule fold_inv [where P = "\<lambda>t. account_inv t \<and> total_frames t = total_frames s"])
       (use that in \<open>auto simp: reserve_frame_account\<close>)
  moreover have "account_inv (s\<lparr>heap_reserved_phys_start := p, heap_reserved_phys_end := q\<rparr>)" for p q
    by (rule account_inv_cong [OF inv]) (use inv in \<open>auto simp: account_inv_def bitmap_wf_def\<close>)
  ultimately show ?thesis
    using inv by (auto simp: pmm_set_heap_reserved_range_def Let_def)
qed

lemma ref_account:
  "account_inv s \<Longrightarrow> account_inv (snd (pmm_frame_ref_inc a s))" "account_inv s \<Longrightarrow> account_inv (snd (pmm_frame_ref_dec a s))"
  by (auto simp: pmm_frame_ref_inc_def pmm_frame_ref_dec_def Let_def account_inv_refcount)

section \<open>Sequences of calls\<close>

text \<open>
  One call of the allocator, with any arguments.  If \<open>careful\<close> is set the caller observes three rules that the code does not
  enforce: references are counted for used frames only, the last reference is dropped by freeing the frame, and a huge page is
  freed only if none of its frames is protected.
\<close>

inductive pmm_step :: "bool \<Rightarrow> pmm_state \<Rightarrow> pmm_state \<Rightarrow> bool" for careful where
  alloc: "pmm_step careful s (snd (pmm_alloc_frame s))"
| alloc_one_zone: "pmm_step careful s (snd (pmm_alloc_frame_zone zone s))"
| alloc_frames: "pmm_step careful s (snd (pmm_alloc_frames n s))"
| alloc_zone: "pmm_step careful s (snd (pmm_alloc_frames_zone n zone s))"
| alloc_huge: "pmm_step careful s (snd (pmm_alloc_huge_page s))"
| alloc_huge_zone: "pmm_step careful s (snd (pmm_alloc_huge_page_zone zone s))"
| free: "pmm_step careful s (pmm_free_frame a s)"
| free_frames: "pmm_step careful s (pmm_free_frames a n s)"
| free_huge: "(careful \<Longrightarrow> \<forall>e \<in> set (protected_frames s). PADDR_TO_PFN (pf_frame e)
      \<notin> {PADDR_TO_PFN a..<PADDR_TO_PFN a + HUGE_FRAMES}) \<Longrightarrow> pmm_step careful s (pmm_free_huge_page a s)"
| protect: "pmm_step careful s (pmm_protect_frame a s)"
| unprotect: "pmm_step careful s (pmm_unprotect_frame a s)"
| reserve: "pmm_step careful s (pmm_set_heap_reserved_range va vb s)"
| ref_inc: "(careful \<Longrightarrow> PADDR_TO_PFN a \<in> used_set s) \<Longrightarrow> pmm_step careful s (snd (pmm_frame_ref_inc a s))"
| ref_dec: "(careful \<Longrightarrow> PADDR_TO_PFN a \<in> used_set s \<and> frame_refcount s ! PADDR_TO_PFN a \<noteq> 1)
    \<Longrightarrow> pmm_step careful s (snd (pmm_frame_ref_dec a s))"

lemma alloc_frame_zone_laws:
  "account_inv s \<Longrightarrow> account_inv (snd (pmm_alloc_frame_zone zone s))" "pmm_inv s \<Longrightarrow> pmm_inv (snd (pmm_alloc_frame_zone zone s))"
  by (simp_all add: pmm_alloc_frame_zone_def alloc_frame_account pmm_alloc_frame_inv)

lemmas account_laws = alloc_frame_account alloc_frame_zone_laws(1) alloc_frames_account alloc_frames_zone_account alloc_huge_page_account
  free_frame_account free_frames_account free_huge_page_account protect_frame_account unprotect_frame_account reserve_account ref_account

lemmas inv_laws = alloc_frame_zone_laws(2) pmm_alloc_frame_inv pmm_alloc_frames_inv pmm_alloc_frames_zone_inv pmm_alloc_huge_page_inv
  pmm_alloc_huge_page_zone_inv pmm_free_frame_inv pmm_free_frames_inv pmm_free_huge_page_inv pmm_protect_frame_inv
  pmm_unprotect_frame_inv pmm_set_heap_reserved_range_inv pmm_frame_ref_inc_inv pmm_frame_ref_dec_inv

lemma pmm_step_account: "pmm_step careful s t \<Longrightarrow> account_inv s \<Longrightarrow> account_inv t"
  by (cases rule: pmm_step.cases) (blast intro: account_laws)+

lemma pmm_step_inv: "pmm_step True s t \<Longrightarrow> pmm_inv s \<Longrightarrow> pmm_inv t"
  by (cases rule: pmm_step.cases) (blast intro: inv_laws)+

lemma pmm_steps_account: "(pmm_step careful)\<^sup>*\<^sup>* s t \<Longrightarrow> account_inv s \<Longrightarrow> account_inv t"
  by (induction rule: rtranclp_induct) (auto intro: pmm_step_account)

lemma pmm_steps_inv: "(pmm_step True)\<^sup>*\<^sup>* s t \<Longrightarrow> pmm_inv s \<Longrightarrow> pmm_inv t"
  by (induction rule: rtranclp_induct) (auto intro: pmm_step_inv)

lemma length_filter_upt_card: "length (filter P [0..<n]) = card {i. i < n \<and> P i}"
proof -
  have "length (filter P [0..<n]) = card (set (filter P [0..<n]))"
    by (metis distinct_card distinct_filter distinct_upt)
  then show ?thesis by (simp add: conj_commute)
qed

lemma verify_consistency_account:
  assumes inv: "account_inv s"
  shows "pmm_verify_consistency s \<longleftrightarrow> (\<forall>e \<in> set (protected_frames s). PADDR_TO_PFN (pf_frame e) < total_frames s)"
proof -
  have c: "card (free_set s) = unat (info_free_frames (pmm_info s))"
    "card (used_set s) = unat (info_used_frames (pmm_info s))"
    using inv by (simp_all add: account_inv_def counts_ok_def)
  have "of_nat (card (free_set s)) = info_free_frames (pmm_info s)"
    "of_nat (card (used_set s)) = info_used_frames (pmm_info s)"
    unfolding c by simp_all
  moreover have "(of_nat (card (free_set s)) + of_nat (card (used_set s)) :: u64)
      = of_nat (total_frames s)"
    using card_free_used [of s] by (simp only: flip: of_nat_add)
  ultimately show ?thesis
    by (simp add: pmm_verify_consistency_def Let_def length_filter_upt_card
             flip: free_set_def used_set_def)
qed

text \<open>
  C1: start the allocator on any memory map whose available regions do not overlap, and issue any
  sequence of calls with any arguments.  In every state reached the free and the used counter are the
  numbers of clear and of set bits, and the code's own consistency check succeeds exactly if all
  protected frames lie in memory.  If the callers are careful (they count references of used frames
  only, drop the last reference by freeing, and free no huge page with a protected frame) then besides
  a frame has a reference exactly if it is used, and no protected frame is free.
\<close>

theorem pmm_reachable_consistent:
  assumes "mb_flags mbi AND 0x40 \<noteq> 0" "mmap_ok (mb_mmap mbi)"
    "pmm_init kernel_end_virt mbi ram = Some s0" "(pmm_step careful)\<^sup>*\<^sup>* s0 s"
  shows "unat (info_free_frames (pmm_info s)) = card (free_set s)
    \<and> unat (info_used_frames (pmm_info s)) = card (used_set s)
    \<and> (pmm_verify_consistency s \<longleftrightarrow> (\<forall>e \<in> set (protected_frames s). PADDR_TO_PFN (pf_frame e) < total_frames s))
    \<and> (careful \<longrightarrow> (\<forall>i < total_frames s. test_frame s i \<longleftrightarrow> frame_refcount s ! i \<noteq> 0)
         \<and> (\<forall>e \<in> set (protected_frames s). PADDR_TO_PFN (pf_frame e) \<notin> free_set s))"
proof -
  have inv0: "pmm_inv s0" using pmm_init_inv [OF assms(1,2), of kernel_end_virt ram] assms(3) by auto
  then have acc: "account_inv s" using pmm_steps_account [OF assms(4)] pmm_inv_account by blast
  have "careful \<longrightarrow> pmm_inv s" using pmm_steps_inv inv0 assms(4) by (cases careful) auto
  then show ?thesis
    using acc verify_consistency_account [OF acc]
    by (auto simp: account_inv_def counts_ok_def pmm_inv_def refcount_ok_def protected_ok_def)
qed

text \<open>A run of careful calls, and a run that is not: it counts a reference of a free frame.\<close>

theorem pmm_reachable_consistent_witness:
  "\<exists>s0. pmm_init 0x80200000
           \<lparr>mb_flags = 0x40, mb_mmap = [\<lparr>mm_addr = 0x100000, mm_len = 0x7EE0000, mm_type = 1\<rparr>],
            mb_mods = []\<rparr> (\<lambda>_ _. 0) = Some s0
         \<and> pmm_verify_consistency (snd (pmm_alloc_frame s0)) \<and> pmm_verify_consistency (snd (pmm_frame_ref_inc 0x7000000 s0))"
proof -
  let ?mbi = "\<lparr>mb_flags = 0x40, mb_mmap = [\<lparr>mm_addr = 0x100000, mm_len = 0x7EE0000, mm_type = 1\<rparr>],
    mb_mods = []\<rparr>"
  have ok: "mb_flags ?mbi AND 0x40 \<noteq> 0" "mmap_ok (mb_mmap ?mbi)" by (simp_all add: mmap_ok_def)
  obtain s0 where s0: "pmm_init 0x80200000 ?mbi (\<lambda>_ _. 0) = Some s0" "pmm_inv s0"
    "protected_frames s0 = []" using pmm_init_inv [OF ok] by blast
  have np: "protected_frames (snd (pmm_alloc_frame s0)) = []" "protected_frames (snd (pmm_frame_ref_inc 0x7000000 s0)) = []"
    using pmm_alloc_frame_cases [OF s0(2)] s0(3) by (auto simp: pmm_frame_ref_inc_def Let_def)
  have "(pmm_step True)\<^sup>*\<^sup>* s0 (snd (pmm_alloc_frame s0))" "(pmm_step False)\<^sup>*\<^sup>* s0 (snd (pmm_frame_ref_inc 0x7000000 s0))"
    by (rule r_into_rtranclp, rule pmm_step.alloc) (rule r_into_rtranclp, rule pmm_step.ref_inc, simp)
  then show ?thesis
    using s0(1) np pmm_reachable_consistent [OF ok s0(1)] by fastforce
qed

end
