(* ===== verification/Paging.thy ===== *)
theory Paging
  imports Pmm
begin

text \<open>
  Two-level i686 paging: the page-table entry encoding of \<^verbatim>\<open>src/src/arch/i686/mm/pgtable.c\<close> and the
  MMU operations of \<^verbatim>\<open>src/src/arch/i686/mm/paging.c\<close>.  Page directories and page tables are ordinary
  frames of the physical memory that belongs to the allocator's state, so allocating, zeroing and
  overwriting a table are visible.  The register \<open>cr3\<close> is part of the state; TLB flushes change
  nothing the model can see and are left out.
\<close>

section \<open>State\<close>

type_synonym vaddr = u32

record mm_state =
  mm_pmm :: pmm_state
  cr3 :: u32
  current_dir_phys :: u32
  boot_dir_phys :: u32
  active_page_directories :: "u32 list"
  mmio_next_virt :: u32
  pat_initialized :: bool

definition read_entry :: "mm_state \<Rightarrow> pfn \<Rightarrow> nat \<Rightarrow> u32" where
  "read_entry s f i = phys_mem (mm_pmm s) f i"

definition write_entry :: "pfn \<Rightarrow> nat \<Rightarrow> u32 \<Rightarrow> mm_state \<Rightarrow> mm_state" where
  "write_entry f i v s =
     s\<lparr>mm_pmm := (mm_pmm s)\<lparr>phys_mem := (phys_mem (mm_pmm s))(f := (phys_mem (mm_pmm s) f)(i := v))\<rparr>\<rparr>"

section \<open>Entry encoding\<close>

abbreviation PAGE_PRESENT :: u32 where "PAGE_PRESENT \<equiv> 0x001"
abbreviation PAGE_WRITE :: u32 where "PAGE_WRITE \<equiv> 0x002"
abbreviation PAGE_USER :: u32 where "PAGE_USER \<equiv> 0x004"
abbreviation PAGE_CACHE_DISABLE :: u32 where "PAGE_CACHE_DISABLE \<equiv> 0x010"
abbreviation PAGE_EXEC :: u32 where "PAGE_EXEC \<equiv> 0x100"
abbreviation PAGE_COW :: u32 where "PAGE_COW \<equiv> 0x200"

abbreviation HAL_PAGE_PRESENT :: u32 where "HAL_PAGE_PRESENT \<equiv> 0x01"
abbreviation HAL_PAGE_WRITE :: u32 where "HAL_PAGE_WRITE \<equiv> 0x02"
abbreviation HAL_PAGE_USER :: u32 where "HAL_PAGE_USER \<equiv> 0x04"
abbreviation HAL_PAGE_NOCACHE :: u32 where "HAL_PAGE_NOCACHE \<equiv> 0x08"
abbreviation HAL_PAGE_EXEC :: u32 where "HAL_PAGE_EXEC \<equiv> 0x10"
abbreviation HAL_PAGE_COW :: u32 where "HAL_PAGE_COW \<equiv> 0x20"
abbreviation HAL_PAGE_DIRTY :: u32 where "HAL_PAGE_DIRTY \<equiv> 0x40"
abbreviation HAL_PAGE_ACCESSED :: u32 where "HAL_PAGE_ACCESSED \<equiv> 0x80"
abbreviation HAL_PAGE_WRITECOMB :: u32 where "HAL_PAGE_WRITECOMB \<equiv> 0x100"

text \<open>\<open>flag f a b\<close> is one line \<^verbatim>\<open>if (f & a) r |= b;\<close> of the translation functions.\<close>

definition flag :: "u32 \<Rightarrow> u32 \<Rightarrow> u32 \<Rightarrow> u32" where
  "flag f a b = (if f AND a \<noteq> 0 then b else 0)"

definition hal_flags_to_i686 :: "u32 \<Rightarrow> u32" where
  "hal_flags_to_i686 f =
     flag f HAL_PAGE_PRESENT PAGE_PRESENT OR flag f HAL_PAGE_WRITE PAGE_WRITE
     OR flag f HAL_PAGE_USER PAGE_USER OR flag f HAL_PAGE_NOCACHE PAGE_CACHE_DISABLE
     OR flag f HAL_PAGE_COW PAGE_COW"

definition i686_flags_to_hal :: "u32 \<Rightarrow> u32" where
  "i686_flags_to_hal f =
     flag f PAGE_PRESENT HAL_PAGE_PRESENT OR flag f PAGE_WRITE HAL_PAGE_WRITE
     OR flag f PAGE_USER HAL_PAGE_USER OR flag f PAGE_CACHE_DISABLE HAL_PAGE_NOCACHE
     OR flag f PAGE_COW HAL_PAGE_COW OR flag f 0x40 HAL_PAGE_DIRTY
     OR flag f 0x20 HAL_PAGE_ACCESSED"

definition i686_pde_index :: "vaddr \<Rightarrow> nat" where
  "i686_pde_index virt = unat (drop_bit 22 virt)"

definition i686_pte_index :: "vaddr \<Rightarrow> nat" where
  "i686_pte_index virt = unat (drop_bit 12 virt AND 0x3FF)"

definition i686_get_frame :: "u32 \<Rightarrow> u32" where
  "i686_get_frame entry = entry AND 0xFFFFF000"

definition i686_is_present :: "u32 \<Rightarrow> bool" where
  "i686_is_present entry \<longleftrightarrow> entry AND PAGE_PRESENT \<noteq> 0"

definition i686_validate_pte_format :: "u32 \<Rightarrow> bool" where
  "i686_validate_pte_format entry \<longleftrightarrow>
     (if \<not> i686_is_present entry then True else i686_get_frame entry AND 0xFFF = 0)"

definition i686_validate_pde_format :: "u32 \<Rightarrow> bool" where
  "i686_validate_pde_format entry \<longleftrightarrow>
     (if \<not> i686_is_present entry then True else i686_get_frame entry AND 0xFFF = 0)"

text \<open>The frame number behind an entry, and behind an address space handle.\<close>

definition entry_pfn :: "u32 \<Rightarrow> pfn" where
  "entry_pfn entry = unat (i686_get_frame entry) div PAGE_SIZE"

definition get_page_directory :: "mm_state \<Rightarrow> paddr \<Rightarrow> pfn" where
  "get_page_directory s space =
     (if space = 0 then unat (cr3 s) div PAGE_SIZE else unat space div PAGE_SIZE)"

section \<open>MMU operations\<close>

definition hal_mmu_query :: "mm_state \<Rightarrow> paddr \<Rightarrow> vaddr \<Rightarrow> (paddr \<times> u32) option" where
  "hal_mmu_query s space virt =
     (let dir = get_page_directory s space; pde = read_entry s dir (i686_pde_index virt) in
        if \<not> i686_is_present pde then None
        else let pte = read_entry s (entry_pfn pde) (i686_pte_index virt) in
          if \<not> i686_is_present pte then None
          else Some (ucast (i686_get_frame pte), i686_flags_to_hal (pte AND 0xFFF)))"

definition hal_mmu_protect :: "mm_state \<Rightarrow> paddr \<Rightarrow> vaddr \<Rightarrow> u32 \<Rightarrow> u32 \<Rightarrow> bool \<times> mm_state" where
  "hal_mmu_protect s space virt set_flags clear_flags =
     (let dir = get_page_directory s space; pde = read_entry s dir (i686_pde_index virt) in
        if \<not> i686_is_present pde then (False, s)
        else let pt_idx = i686_pte_index virt; pte = read_entry s (entry_pfn pde) pt_idx in
          if \<not> i686_is_present pte then (False, s)
          else let flags = ((pte AND 0xFFF) OR hal_flags_to_i686 set_flags)
                             AND NOT (hal_flags_to_i686 clear_flags)
               in (True, write_entry (entry_pfn pde) pt_idx (i686_get_frame pte OR flags) s))"

definition hal_mmu_map :: "mm_state \<Rightarrow> paddr \<Rightarrow> vaddr \<Rightarrow> paddr \<Rightarrow> u32 \<Rightarrow> bool \<times> mm_state" where
  "hal_mmu_map s space virt phys flags =
     (if (virt OR ucast phys) AND 0xFFF \<noteq> 0 then (False, s)
      else let i686_flags = hal_flags_to_i686 flags; dir = get_page_directory s space;
               pd_idx = i686_pde_index virt; pt_idx = i686_pte_index virt;
               pde = read_entry s dir pd_idx
        in if \<not> i686_is_present pde
           then (case pmm_alloc_frame (mm_pmm s) of (table_phys, pmm') \<Rightarrow>
                   if table_phys = PADDR_INVALID then (False, s\<lparr>mm_pmm := pmm'\<rparr>)
                   else let table = unat table_phys div PAGE_SIZE;
                            s1 = s\<lparr>mm_pmm := zero_frames table 1 pmm'\<rparr>;
                            pde_flags = PAGE_PRESENT OR PAGE_WRITE
                                          OR flag i686_flags PAGE_USER PAGE_USER;
                            s2 = write_entry dir pd_idx (ucast table_phys OR pde_flags) s1
                        in (True, write_entry table pt_idx (ucast phys OR i686_flags) s2))
           else let table = entry_pfn pde;
                    s1 = (if i686_flags AND PAGE_USER \<noteq> 0 \<and> pde AND PAGE_USER = 0
                          then write_entry dir pd_idx (pde OR PAGE_USER) s else s)
                in (True, write_entry table pt_idx (ucast phys OR i686_flags) s1))"

definition hal_mmu_unmap :: "mm_state \<Rightarrow> paddr \<Rightarrow> vaddr \<Rightarrow> paddr \<times> mm_state" where
  "hal_mmu_unmap s space virt =
     (if virt AND 0xFFF \<noteq> 0 then (PADDR_INVALID, s)
      else let dir = get_page_directory s space; pde = read_entry s dir (i686_pde_index virt) in
        if \<not> i686_is_present pde then (PADDR_INVALID, s)
        else let pt_idx = i686_pte_index virt; pte = read_entry s (entry_pfn pde) pt_idx in
          if \<not> i686_is_present pte then (PADDR_INVALID, s)
          else (ucast (i686_get_frame pte), write_entry (entry_pfn pde) pt_idx 0 s))"

definition hal_mmu_virt_to_phys :: "mm_state \<Rightarrow> vaddr \<Rightarrow> paddr" where
  "hal_mmu_virt_to_phys s virt =
     (case hal_mmu_query s 0 virt of Some (phys, _) \<Rightarrow> phys | None \<Rightarrow> PADDR_INVALID)"

definition hal_mmu_create_space :: "mm_state \<Rightarrow> paddr \<times> mm_state" where
  "hal_mmu_create_space s =
     (case pmm_alloc_frame (mm_pmm s) of (dir_phys, pmm') \<Rightarrow>
        if dir_phys = PADDR_INVALID then (PADDR_INVALID, s\<lparr>mm_pmm := pmm'\<rparr>)
        else let dir = unat dir_phys div PAGE_SIZE;
                 s1 = s\<lparr>mm_pmm := zero_frames dir 1 pmm'\<rparr>;
                 boot = unat (boot_dir_phys s) div PAGE_SIZE
             in (dir_phys, fold (\<lambda>i t. write_entry dir i (read_entry t boot i) t) [512..<1024] s1))"

section \<open>Huge pages as runs of small pages\<close>

definition is_huge_page_aligned :: "u32 \<Rightarrow> bool" where
  "is_huge_page_aligned addr \<longleftrightarrow> addr AND 0x1FFFFF = 0"

text \<open>One step of the loops over consecutive pages, and the step that undoes it.\<close>

definition map_step :: "paddr \<Rightarrow> vaddr \<Rightarrow> paddr \<Rightarrow> u32 \<Rightarrow> nat \<Rightarrow> mm_state \<Rightarrow> bool \<times> mm_state" where
  "map_step space virt phys flags i s =
     hal_mmu_map s space (virt + of_nat i * 4096) (phys + of_nat i * 4096) flags"

definition unmap_step :: "paddr \<Rightarrow> vaddr \<Rightarrow> nat \<Rightarrow> mm_state \<Rightarrow> mm_state" where
  "unmap_step space virt i s = snd (hal_mmu_unmap s space (virt + of_nat i * 4096))"

definition hal_mmu_map_huge :: "mm_state \<Rightarrow> paddr \<Rightarrow> vaddr \<Rightarrow> paddr \<Rightarrow> u32 \<Rightarrow> bool \<times> mm_state" where
  "hal_mmu_map_huge s space virt phys flags =
     (if \<not> is_huge_page_aligned virt \<or> \<not> is_huge_page_aligned (ucast phys) then (False, s)
      else step_loop (map_step space virt phys flags) (unmap_step space virt) 0 HUGE_FRAMES s)"

definition hal_mmu_unmap_huge :: "mm_state \<Rightarrow> paddr \<Rightarrow> vaddr \<Rightarrow> paddr \<times> mm_state" where
  "hal_mmu_unmap_huge s space virt =
     (if \<not> is_huge_page_aligned virt then (PADDR_INVALID, s)
      else case hal_mmu_query s space virt of
             None \<Rightarrow> (PADDR_INVALID, s)
           | Some (first_phys, _) \<Rightarrow> (first_phys, undo_loop (unmap_step space virt) HUGE_FRAMES s))"

section \<open>Indices and entries\<close>

lemma pde_index_div: "i686_pde_index v = unat v div 4194304"
  by (simp add: i686_pde_index_def drop_bit_eq_div unat_div)

lemma pte_index_div: "i686_pte_index v = unat v div 4096 mod 1024"
proof -
  have "drop_bit 12 v AND 0x3FF = take_bit 10 (drop_bit 12 v)"
    by (simp add: take_bit_eq_mask mask_eq_exp_minus_1)
  then show ?thesis
    by (simp add: i686_pte_index_def take_bit_eq_mod drop_bit_eq_div unat_div unat_mod)
qed

lemma index_bounds [simp]: "i686_pde_index v < 1024" "i686_pte_index v < 1024"
  using unat_lt_u32 [of v] by (auto simp: pde_index_div pte_index_div less_mult_imp_div_less)

lemma same_page_iff:
  "i686_pde_index v = i686_pde_index w \<and> i686_pte_index v = i686_pte_index w
   \<longleftrightarrow> unat v div 4096 = unat w div 4096"
proof -
  have "x div 4194304 = x div 4096 div 1024" for x :: nat by (simp add: div_mult2_eq [symmetric])
  then show ?thesis unfolding pde_index_div pte_index_div by (metis div_mult_mod_eq)
qed

lemma low12: "(x :: u32) AND 0xFFF = take_bit 12 x"
  by (simp add: take_bit_eq_mask mask_eq_exp_minus_1)

lemma page_mask_bits: "bit (0xFFFFF000 :: int) n \<longleftrightarrow> 12 \<le> n \<and> n < 32"
proof -
  have m: "(0xFFFFF000 :: int) = push_bit 12 (mask 20)" by (simp add: mask_eq_exp_minus_1)
  show ?thesis unfolding m by (auto simp: bit_push_bit_iff bit_mask_iff)
qed

text \<open>Testing a flag is testing a bit.\<close>

lemma flag_bits:
  fixes x :: u32
  shows "x AND 0x1 = 0 \<longleftrightarrow> \<not> bit x 0" "x AND 0x2 = 0 \<longleftrightarrow> \<not> bit x 1"
    "x AND 0x4 = 0 \<longleftrightarrow> \<not> bit x 2" "x AND 0x8 = 0 \<longleftrightarrow> \<not> bit x 3"
    "x AND 0x10 = 0 \<longleftrightarrow> \<not> bit x 4" "x AND 0x20 = 0 \<longleftrightarrow> \<not> bit x 5"
    "x AND 0x40 = 0 \<longleftrightarrow> \<not> bit x 6" "x AND 0x80 = 0 \<longleftrightarrow> \<not> bit x 7"
    "x AND 0x100 = 0 \<longleftrightarrow> \<not> bit x 8" "x AND 0x200 = 0 \<longleftrightarrow> \<not> bit x 9"
  using bit_iff_and_push_bit_not_eq_0 [of x 0] bit_iff_and_push_bit_not_eq_0 [of x 1]
    bit_iff_and_push_bit_not_eq_0 [of x 2] bit_iff_and_push_bit_not_eq_0 [of x 3]
    bit_iff_and_push_bit_not_eq_0 [of x 4] bit_iff_and_push_bit_not_eq_0 [of x 5]
    bit_iff_and_push_bit_not_eq_0 [of x 6] bit_iff_and_push_bit_not_eq_0 [of x 7]
    bit_iff_and_push_bit_not_eq_0 [of x 8] bit_iff_and_push_bit_not_eq_0 [of x 9]
  by simp_all

lemma present_bit: "i686_is_present e \<longleftrightarrow> bit e 0"
  using flag_bits(1) [of e] by (simp only: i686_is_present_def) simp

lemma hal_flags_low: "take_bit 12 (hal_flags_to_i686 f) = hal_flags_to_i686 f"
  unfolding low12 [symmetric] by (simp add: hal_flags_to_i686_def flag_def)

lemma low12_bits: "take_bit 12 (a :: u32) = 0 \<longleftrightarrow> (\<forall>n<12. \<not> bit a n)"
  by (auto simp: bit_eq_iff bit_take_bit_iff)

lemma entry_parts:
  fixes a fl :: u32
  assumes "take_bit 12 a = 0" "take_bit 12 fl = fl"
  shows "i686_get_frame (a OR fl) = a" "(a OR fl) AND 0xFFF = fl"
proof -
  have a: "n < 12 \<Longrightarrow> \<not> bit a n" for n using assms(1) by (simp add: low12_bits)
  have f: "bit fl n \<Longrightarrow> n < 12" for n using assms(2) by (metis bit_take_bit_iff)
  show "i686_get_frame (a OR fl) = a"
  proof (rule bit_word_eqI)
    fix n assume "n < LENGTH(32)"
    then show "bit (i686_get_frame (a OR fl)) n = bit a n"
      using a [of n] f [of n]
      by (cases "n < 12") (auto simp: i686_get_frame_def bit_and_iff bit_or_iff page_mask_bits)
  qed
  show "(a OR fl) AND 0xFFF = fl"
  proof (rule bit_word_eqI)
    fix n assume "n < LENGTH(32)"
    then show "bit ((a OR fl) AND 0xFFF) n = bit fl n"
      using a [of n] f [of n] by (auto simp: low12 bit_or_iff bit_take_bit_iff)
  qed
qed

lemma entry_present: "i686_is_present (a OR fl) \<longleftrightarrow> i686_is_present a \<or> i686_is_present fl"
  by (simp add: present_bit bit_or_iff)

lemma hal_present: "i686_is_present (hal_flags_to_i686 f) \<longleftrightarrow> f AND HAL_PAGE_PRESENT \<noteq> 0"
  by (simp add: i686_is_present_def hal_flags_to_i686_def flag_def)

text \<open>The hardware stores exactly the flags it has bits for; write-combining and execute are lost.\<close>

lemma and_flag:
  fixes x :: u32
  shows "x AND push_bit k 1 = (if bit x k then push_bit k 1 else 0)"
  by (rule bit_word_eqI) (auto simp: bit_simps)

lemma hal_flags_roundtrip: "i686_flags_to_hal (hal_flags_to_i686 f) = f AND 0x2F"
proof -
  have "f AND 0x2F = (f AND 0x1) OR (f AND 0x2) OR (f AND 0x4) OR (f AND 0x8) OR (f AND 0x20)"
    by (simp flip: bit.conj_disj_distrib)
  also have "\<dots> = flag f 0x1 0x1 OR flag f 0x2 0x2 OR flag f 0x4 0x4 OR flag f 0x8 0x8 OR flag f 0x20 0x20"
    using and_flag [of f 0] and_flag [of f 1] and_flag [of f 2] and_flag [of f 3] and_flag [of f 5]
    by (simp add: flag_def)
  finally show ?thesis by (simp add: i686_flags_to_hal_def hal_flags_to_i686_def flag_def)
qed

section \<open>Address spaces\<close>

text \<open>The page-table entry that translates an address in the space with directory frame \<open>d\<close>.\<close>

definition lookup :: "mm_state \<Rightarrow> pfn \<Rightarrow> vaddr \<Rightarrow> u32 option" where
  "lookup s d v =
     (let pde = read_entry s d (i686_pde_index v) in
        if \<not> i686_is_present pde then None
        else let pte = read_entry s (entry_pfn pde) (i686_pte_index v) in
          if i686_is_present pte then Some pte else None)"

lemma hal_mmu_query_lookup:
  "hal_mmu_query s space v =
     map_option (\<lambda>pte. (ucast (i686_get_frame pte), i686_flags_to_hal (pte AND 0xFFF)))
       (lookup s (get_page_directory s space) v)"
  by (simp add: hal_mmu_query_def lookup_def Let_def)

definition space_wf :: "mm_state \<Rightarrow> pfn \<Rightarrow> bool" where
  "space_wf s d \<longleftrightarrow> d \<in> used_set (mm_pmm s)
     \<and> (\<forall>i < 1024. i686_is_present (read_entry s d i) \<longrightarrow>
          entry_pfn (read_entry s d i) \<in> used_set (mm_pmm s) \<and> entry_pfn (read_entry s d i) \<noteq> d)
     \<and> inj_on (\<lambda>i. entry_pfn (read_entry s d i)) {i. i < 1024 \<and> i686_is_present (read_entry s d i)}"

lemma read_write_entry [simp]:
  "read_entry (write_entry f i v s) g j = (if g = f \<and> j = i then v else read_entry s g j)"
  by (simp add: read_entry_def write_entry_def)

lemma read_entry_pmm [simp]: "read_entry (s\<lparr>mm_pmm := p\<rparr>) g j = phys_mem p g j"
  by (simp add: read_entry_def)

lemma test_frame_phys_mem [simp]: "test_frame (p\<lparr>phys_mem := x\<rparr>) i = test_frame p i"
  by (rule test_frame_cong) simp_all

lemma used_set_phys_mem [simp]: "used_set (p\<lparr>phys_mem := x\<rparr>) = used_set p"
  by (simp add: used_set_def)

lemma free_set_phys_mem [simp]: "free_set (p\<lparr>phys_mem := x\<rparr>) = free_set p"
  by (simp add: free_set_def)

lemma pmm_inv_phys_mem [simp]: "pmm_inv (p\<lparr>phys_mem := x\<rparr>) = pmm_inv p"
  using pmm_inv_cong [of p "p\<lparr>phys_mem := x\<rparr>"] pmm_inv_cong [of "p\<lparr>phys_mem := x\<rparr>" p]
  by (auto simp: pmm_inv_def bitmap_wf_def)

lemma write_entry_sel [simp]:
  "used_set (mm_pmm (write_entry f i v s)) = used_set (mm_pmm s)"
  "free_set (mm_pmm (write_entry f i v s)) = free_set (mm_pmm s)"
  "pmm_inv (mm_pmm (write_entry f i v s)) = pmm_inv (mm_pmm s)"
  "cr3 (write_entry f i v s) = cr3 s"
  "current_dir_phys (write_entry f i v s) = current_dir_phys s"
  "boot_dir_phys (write_entry f i v s) = boot_dir_phys s"
  "active_page_directories (write_entry f i v s) = active_page_directories s"
  "frame_refcount (mm_pmm (write_entry f i v s)) = frame_refcount (mm_pmm s)"
  "total_frames (mm_pmm (write_entry f i v s)) = total_frames (mm_pmm s)"
  by (simp_all add: write_entry_def)

lemma get_page_directory_write [simp]:
  "get_page_directory (write_entry f i v s) space = get_page_directory s space"
  by (simp add: get_page_directory_def)

text \<open>Writing an entry of a page table of the space changes the translation of one page.\<close>

lemma lookup_write_pte:
  assumes wf: "space_wf s d" and pres: "i686_is_present (read_entry s d (i686_pde_index v))"
  shows "lookup (write_entry (entry_pfn (read_entry s d (i686_pde_index v))) (i686_pte_index v) e s) d w
    = (if unat w div 4096 = unat v div 4096 then (if i686_is_present e then Some e else None)
       else lookup s d w)"
proof -
  let ?t = "entry_pfn (read_entry s d (i686_pde_index v))"
  have nd: "?t \<noteq> d" using wf pres by (simp add: space_wf_def)
  have inj: "i686_pde_index w = i686_pde_index v"
    if "i686_is_present (read_entry s d (i686_pde_index w))"
      "entry_pfn (read_entry s d (i686_pde_index w)) = ?t"
    using wf pres that unfolding space_wf_def inj_on_def by auto
  show ?thesis
  proof (cases "unat w div 4096 = unat v div 4096")
    case True
    then have "i686_pde_index w = i686_pde_index v" "i686_pte_index w = i686_pte_index v"
      using same_page_iff [of w v] by auto
    with True pres nd show ?thesis by (simp add: lookup_def Let_def)
  next
    case False
    then have "\<not> (i686_pde_index w = i686_pde_index v \<and> i686_pte_index w = i686_pte_index v)"
      using same_page_iff [of w v] by auto
    with False inj nd show ?thesis by (auto simp: lookup_def Let_def)
  qed
qed

lemma space_wf_write_pte:
  assumes wf: "space_wf s d" and t: "t \<noteq> d"
  shows "space_wf (write_entry t i e s) d"
  using assms by (simp add: space_wf_def)

text \<open>Setting the user bit of a present directory entry keeps the table it points to.\<close>

lemma user_bit_entry:
  "entry_pfn (e OR PAGE_USER) = entry_pfn e" "i686_is_present (e OR PAGE_USER) = i686_is_present e"
proof -
  have "(e OR PAGE_USER) AND 0xFFFFF000 = e AND 0xFFFFF000"
    by (simp add: bit.conj_disj_distrib2)
  then show "entry_pfn (e OR PAGE_USER) = entry_pfn e"
    by (simp add: entry_pfn_def i686_get_frame_def)
  show "i686_is_present (e OR PAGE_USER) = i686_is_present e"
    by (simp add: i686_is_present_def bit.conj_disj_distrib2)
qed

lemma write_user_bit:
  assumes wf: "space_wf s d"
  shows "space_wf (write_entry d i (read_entry s d i OR PAGE_USER) s) d
    \<and> lookup (write_entry d i (read_entry s d i OR PAGE_USER) s) d w = lookup s d w"
proof -
  let ?s = "write_entry d i (read_entry s d i OR PAGE_USER) s"
  have e: "entry_pfn (read_entry ?s d j) = entry_pfn (read_entry s d j)"
    "i686_is_present (read_entry ?s d j) = i686_is_present (read_entry s d j)" for j
    by (auto simp: user_bit_entry)
  have "space_wf ?s d" using wf unfolding space_wf_def e by simp
  moreover have "lookup ?s d w = lookup s d w"
    using wf unfolding lookup_def Let_def e by (auto simp: space_wf_def)
  ultimately show ?thesis by simp
qed

text \<open>Installing a fresh, zeroed table behind an absent directory entry.\<close>

lemma install_table:
  assumes wf: "space_wf s d" and i: "i < 1024" and abs: "\<not> i686_is_present (read_entry s d i)"
    and t: "t \<in> free_set (mm_pmm s)" and used: "used_set p = insert t (used_set (mm_pmm s))"
    and mem: "\<And>f. phys_mem p f = (if f = t then (\<lambda>_. 0) else phys_mem (mm_pmm s) f)"
    and e: "i686_is_present e" "entry_pfn e = t"
  shows "space_wf (write_entry d i e (s\<lparr>mm_pmm := p\<rparr>)) d"
    "lookup (write_entry d i e (s\<lparr>mm_pmm := p\<rparr>)) d w = lookup s d w"
proof -
  let ?s = "write_entry d i e (s\<lparr>mm_pmm := p\<rparr>)"
  have new: "t \<notin> used_set (mm_pmm s)" using t by (auto simp: free_set_def used_set_def)
  have td: "t \<noteq> d" using wf new by (auto simp: space_wf_def)
  have rd: "read_entry ?s d j = (if j = i then e else read_entry s d j)" for j
    using td by (simp add: mem) (simp add: read_entry_def)
  have old: "entry_pfn (read_entry s d j) \<noteq> t" if "j < 1024" "i686_is_present (read_entry s d j)" for j
    using wf that new by (auto simp: space_wf_def)
  have inj0: "x = y" if "x < 1024" "y < 1024" "i686_is_present (read_entry s d x)"
    "i686_is_present (read_entry s d y)" "entry_pfn (read_entry s d x) = entry_pfn (read_entry s d y)" for x y
    using wf that unfolding space_wf_def inj_on_def by blast
  have "inj_on (\<lambda>j. entry_pfn (read_entry ?s d j)) {j. j < 1024 \<and> i686_is_present (read_entry ?s d j)}"
    unfolding inj_on_def
  proof (intro ballI impI)
    fix x y
    assume x: "x \<in> {j. j < 1024 \<and> i686_is_present (read_entry ?s d j)}"
      and y: "y \<in> {j. j < 1024 \<and> i686_is_present (read_entry ?s d j)}"
      and eq: "entry_pfn (read_entry ?s d x) = entry_pfn (read_entry ?s d y)"
    show "x = y"
    proof (cases "x = i \<or> y = i")
      case True
      with x y eq old [of x] old [of y] e(2) show ?thesis unfolding rd by (cases "x = i"; cases "y = i") auto
    next
      case False
      then have r: "read_entry ?s d x = read_entry s d x" "read_entry ?s d y = read_entry s d y"
        unfolding rd by simp_all
      show ?thesis using x y eq unfolding mem_Collect_eq r by - (rule inj0, simp_all)
    qed
  qed
  moreover have "d \<in> used_set (mm_pmm ?s)" using wf by (auto simp: space_wf_def used)
  moreover have "entry_pfn (read_entry ?s d j) \<in> used_set (mm_pmm ?s) \<and> entry_pfn (read_entry ?s d j) \<noteq> d"
    if "j < 1024" "i686_is_present (read_entry ?s d j)" for j
    using wf that e td unfolding rd space_wf_def by (auto simp: used split: if_splits)
  ultimately show "space_wf ?s d" unfolding space_wf_def by blast
  show "lookup ?s d w = lookup s d w"
  proof (cases "i686_pde_index w = i")
    case True
    then show ?thesis
      using abs e td unfolding lookup_def Let_def rd
      by (simp add: mem i686_is_present_def)
  next
    case False
    have "read_entry ?s (entry_pfn (read_entry s d (i686_pde_index w))) k
        = read_entry s (entry_pfn (read_entry s d (i686_pde_index w))) k"
      if "i686_is_present (read_entry s d (i686_pde_index w))" for k
    proof -
      have "entry_pfn (read_entry s d (i686_pde_index w)) \<noteq> t" using old that by simp
      moreover have "entry_pfn (read_entry s d (i686_pde_index w)) \<noteq> d"
        using wf that by (simp add: space_wf_def)
      ultimately show ?thesis by (simp add: mem) (simp add: read_entry_def)
    qed
    with False show ?thesis unfolding lookup_def Let_def rd by auto
  qed
qed

lemma unat_ucast_low: "unat (a :: u64) < 4294967296 \<Longrightarrow> unat (ucast a :: u32) = unat a"
  by (simp add: unsigned_ucast_eq take_bit_nat_eq_self)

lemma unat_ucast_up: "unat (ucast (x :: u32) :: u64) = unat x"
proof -
  have "unat x < 2 ^ 64" by (rule less_trans [OF unat_lt_u32]) simp
  then have "take_bit 64 (unat x) = unat x" by (rule take_bit_nat_eq_self)
  then show ?thesis by (simp add: unsigned_ucast_eq)
qed

lemma ucast_up_0 [simp]: "(ucast (x :: u32) :: u64) = 0 \<longleftrightarrow> x = 0"
  using unat_ucast_up [of x] by (metis ucast_0 unsigned_0 unat_eq_zero)

lemma take12_unat: "take_bit 12 (a :: u32) = 0 \<longleftrightarrow> unat a mod 4096 = 0"
  by (simp add: take_bit_eq_mod word_unat_eq_iff unat_mod)

lemma table_entry:
  assumes "t < 524288" "take_bit 12 fl = fl" "i686_is_present fl"
  shows "i686_is_present (ucast (PFN_TO_PADDR t) OR fl)" "entry_pfn (ucast (PFN_TO_PADDR t) OR fl) = t"
proof -
  have u: "unat (ucast (PFN_TO_PADDR t) :: u32) = t * 4096"
    using assms(1) unat_PFN_TO_PADDR [of t] by (simp add: unat_ucast_low)
  then have "take_bit 12 (ucast (PFN_TO_PADDR t) :: u32) = 0" by (simp add: take12_unat)
  from entry_parts(1) [OF this assms(2)] u show "entry_pfn (ucast (PFN_TO_PADDR t) OR fl) = t"
    by (simp add: entry_pfn_def)
  show "i686_is_present (ucast (PFN_TO_PADDR t) OR fl)" using assms(3) by (simp add: entry_present)
qed

text \<open>The frame a fresh table gets, and the effect of the allocation.\<close>

lemma alloc_table:
  assumes inv: "pmm_inv p" and alloc: "pmm_alloc_frame p = (a, p')" and ok: "a \<noteq> PADDR_INVALID"
  obtains t where "a = PFN_TO_PADDR t" "t \<in> free_set p" "t < 524288" "pmm_inv p'"
    "used_set p' = insert t (used_set p)" "free_set p' = free_set p - {t}"
    "\<And>f. phys_mem p' f = (if f = t then (\<lambda>_. 0) else phys_mem p f)"
    "zero_frames t 1 p' = p'" "unat a div 4096 = t" "total_frames p' = total_frames p"
    "frame_refcount p' = (frame_refcount p)[t := 1]" "protected_frames p' = protected_frames p"
proof -
  obtain t where t: "t \<in> free_set p" "a = PFN_TO_PADDR t"
    and p': "p' = zero_frames t 1 (claim_frame t (p\<lparr>last_free_index := t div 32\<rparr>))"
    using pmm_alloc_frame_cases [OF inv] alloc ok by auto
  have lt: "t < total_frames p" and small: "t < 524288"
    using t(1) inv by (auto simp: free_set_def pmm_inv_def bitmap_wf_def)
  have wf: "bitmap_wf (p\<lparr>last_free_index := t div 32\<rparr>)"
    using inv word_slot [OF lt] by (auto simp: pmm_inv_def bitmap_wf_def)
  have "used_set p' = insert t (used_set p)" "free_set p' = free_set p - {t}"
    using lt free_set_claim [OF wf, of t] used_set_claim [OF wf, of t]
    by (simp_all add: p') (simp_all add: used_set_def)
  moreover have "phys_mem p' f = (if f = t then (\<lambda>_. 0) else phys_mem p f)" for f
    by (auto simp: p')
  moreover have "zero_frames t 1 p' = p'" by (simp add: p' zero_frames_def fun_eq_iff)
  moreover have "pmm_inv p'" using pmm_alloc_frame_inv [OF inv] alloc by simp
  moreover have "unat a div 4096 = t" using small by (simp add: t(2) unat_PFN_TO_PADDR)
  ultimately show ?thesis using t small by (intro that) (auto simp: p')
qed

section \<open>The laws of mapping and unmapping\<close>

text \<open>The page tables of a space.\<close>

definition tables :: "mm_state \<Rightarrow> pfn \<Rightarrow> pfn set" where
  "tables s d = (\<lambda>i. entry_pfn (read_entry s d i)) ` {i. i < 1024 \<and> i686_is_present (read_entry s d i)}"

text \<open>Between \<open>s\<close> and \<open>s'\<close> only the directory \<open>d\<close>, its tables and frames that were free have
  changed their contents, and used frames stay used with the same number of references.\<close>

definition only_tables_changed :: "mm_state \<Rightarrow> pfn \<Rightarrow> mm_state \<Rightarrow> bool" where
  "only_tables_changed s d s' \<longleftrightarrow>
     cr3 s' = cr3 s \<and> current_dir_phys s' = current_dir_phys s \<and> boot_dir_phys s' = boot_dir_phys s
     \<and> total_frames (mm_pmm s') = total_frames (mm_pmm s)
     \<and> protected_frames (mm_pmm s') = protected_frames (mm_pmm s)
     \<and> used_set (mm_pmm s) \<subseteq> used_set (mm_pmm s')
     \<and> (\<forall>f \<in> used_set (mm_pmm s). frame_refcount (mm_pmm s') ! f = frame_refcount (mm_pmm s) ! f
          \<and> (f \<noteq> d \<and> f \<notin> tables s d \<longrightarrow> phys_mem (mm_pmm s') f = phys_mem (mm_pmm s) f))"

definition map_entry :: "paddr \<Rightarrow> u32 \<Rightarrow> u32" where
  "map_entry phys flags = ucast phys OR hal_flags_to_i686 flags"

lemma aligned_or:
  "(v OR a) AND 0xFFF = 0 \<longleftrightarrow> take_bit 12 v = 0 \<and> take_bit 12 (a :: u32) = 0"
  unfolding low12 low12_bits by (auto simp: bit_or_iff)

lemma map_entry_parts:
  assumes "take_bit 12 (ucast phys :: u32) = 0"
  shows "i686_get_frame (map_entry phys flags) = ucast phys"
    "map_entry phys flags AND 0xFFF = hal_flags_to_i686 flags"
    "i686_is_present (map_entry phys flags) \<longleftrightarrow> flags AND HAL_PAGE_PRESENT \<noteq> 0"
proof -
  show "i686_get_frame (map_entry phys flags) = ucast phys"
    "map_entry phys flags AND 0xFFF = hal_flags_to_i686 flags"
    unfolding map_entry_def by (rule entry_parts [OF assms hal_flags_low])+
  have "\<not> i686_is_present (ucast phys)" using assms by (simp add: present_bit low12_bits)
  then show "i686_is_present (map_entry phys flags) \<longleftrightarrow> flags AND HAL_PAGE_PRESENT \<noteq> 0"
    by (simp only: map_entry_def entry_present hal_present) simp
qed

lemma pde_flags: "take_bit 12 (PAGE_PRESENT OR PAGE_WRITE OR flag f PAGE_USER PAGE_USER)
      = PAGE_PRESENT OR PAGE_WRITE OR flag f PAGE_USER PAGE_USER"
  "i686_is_present (PAGE_PRESENT OR PAGE_WRITE OR flag f PAGE_USER PAGE_USER)"
  by (simp_all add: flag_def i686_is_present_def flip: low12)

lemma hal_mmu_map_cases:
  assumes inv: "pmm_inv (mm_pmm s)" and wf: "space_wf s (get_page_directory s space)"
    and al: "(v OR ucast phys) AND 0xFFF = 0" and d: "d = get_page_directory s space"
  shows "(\<not> i686_is_present (read_entry s d (i686_pde_index v)) \<and> free_set (mm_pmm s) = {}
            \<and> hal_mmu_map s space v phys flags = (False, s))
    \<or> (\<exists>s1. hal_mmu_map s space v phys flags =
            (True, write_entry (entry_pfn (read_entry s1 d (i686_pde_index v))) (i686_pte_index v)
                     (map_entry phys flags) s1)
          \<and> space_wf s1 d \<and> pmm_inv (mm_pmm s1) \<and> (\<forall>w. lookup s1 d w = lookup s d w)
          \<and> i686_is_present (read_entry s1 d (i686_pde_index v))
          \<and> only_tables_changed s d s1 \<and> tables s d \<subseteq> tables s1 d \<and> tables s1 d \<subseteq> tables s d \<union> free_set (mm_pmm s)
          \<and> used_set (mm_pmm s1) \<subseteq> used_set (mm_pmm s) \<union> tables s1 d
          \<and> (i686_is_present (read_entry s d (i686_pde_index v)) \<longrightarrow> mm_pmm s1 = (mm_pmm s)\<lparr>phys_mem := phys_mem (mm_pmm s1)\<rparr>))"
proof (cases "i686_is_present (read_entry s d (i686_pde_index v))")
  case True
  let ?pde = "read_entry s d (i686_pde_index v)"
  define s1 where "s1 = (if hal_flags_to_i686 flags AND PAGE_USER \<noteq> 0 \<and> ?pde AND PAGE_USER = 0
    then write_entry d (i686_pde_index v) (?pde OR PAGE_USER) s else s)"
  have eq: "hal_mmu_map s space v phys flags =
      (True, write_entry (entry_pfn ?pde) (i686_pte_index v) (map_entry phys flags) s1)"
    using al True unfolding hal_mmu_map_def d [symmetric] Let_def s1_def map_entry_def
    by (simp only: simp_thms if_False if_True)
  have pde1: "entry_pfn (read_entry s1 d i) = entry_pfn (read_entry s d i)"
    "i686_is_present (read_entry s1 d i) = i686_is_present (read_entry s d i)" for i
    by (auto simp: s1_def user_bit_entry)
  have "space_wf s1 d" "lookup s1 d w = lookup s d w" for w
    using write_user_bit [of s d "i686_pde_index v"] wf d by (auto simp: s1_def)
  moreover have "tables s1 d = tables s d" by (simp add: tables_def pde1)
  moreover have "only_tables_changed s d s1"
    by (auto simp: only_tables_changed_def s1_def write_entry_def)
  moreover have "used_set (mm_pmm s1) = used_set (mm_pmm s)" by (simp add: s1_def write_entry_def)
  moreover have "mm_pmm s1 = (mm_pmm s)\<lparr>phys_mem := phys_mem (mm_pmm s1)\<rparr>" "pmm_inv (mm_pmm s1)"
    using inv by (auto simp: s1_def write_entry_def)
  ultimately show ?thesis using True eq by (intro disjI2 exI [of _ s1]) (simp add: pde1)
next
  case False
  obtain a p where alloc: "pmm_alloc_frame (mm_pmm s) = (a, p)" by (cases "pmm_alloc_frame (mm_pmm s)")
  show ?thesis
  proof (cases "a = PADDR_INVALID")
    case True
    then have "free_set (mm_pmm s) = {}" "p = mm_pmm s"
      using pmm_alloc_frame_fail [OF inv] alloc by auto
    then show ?thesis
      using al False alloc True unfolding hal_mmu_map_def d [symmetric] Let_def by simp
  next
    case ok: False
    from alloc_table [OF inv alloc ok] obtain t where t: "a = PFN_TO_PADDR t" "t \<in> free_set (mm_pmm s)"
      "t < 524288" "pmm_inv p" "used_set p = insert t (used_set (mm_pmm s))"
      "\<And>f. phys_mem p f = (if f = t then (\<lambda>_. 0) else phys_mem (mm_pmm s) f)"
      "zero_frames t 1 p = p" "unat a div 4096 = t" "total_frames p = total_frames (mm_pmm s)"
      "frame_refcount p = (frame_refcount (mm_pmm s))[t := 1]"
      "protected_frames p = protected_frames (mm_pmm s)" by metis
    define e where "e = ucast a OR (PAGE_PRESENT OR PAGE_WRITE
      OR flag (hal_flags_to_i686 flags) PAGE_USER PAGE_USER)"
    define s1 where "s1 = write_entry d (i686_pde_index v) e (s\<lparr>mm_pmm := p\<rparr>)"
    have e: "i686_is_present e" "entry_pfn e = t"
      unfolding e_def t(1) by (rule table_entry [OF t(3) pde_flags])+
    have wfd: "space_wf s d" using wf d by simp
    note inst = install_table [OF wfd index_bounds(1) False t(2,5,6) e, folded s1_def]
    have td: "t \<noteq> d" "t \<notin> used_set (mm_pmm s)"
      using t(2) wfd by (auto simp: free_set_def used_set_def space_wf_def)
    have rd: "read_entry s1 d j = (if j = i686_pde_index v then e else read_entry s d j)" for j
      using td by (simp add: s1_def t(6)) (simp add: read_entry_def)
    have "hal_mmu_map s space v phys flags =
        (True, write_entry t (i686_pte_index v) (map_entry phys flags) s1)"
      using al False alloc ok t(7,8) unfolding hal_mmu_map_def d [symmetric] Let_def s1_def e_def map_entry_def
      by (simp add: or.assoc)
    moreover have "tables s1 d \<subseteq> tables s d \<union> free_set (mm_pmm s)"
      using e t(2) by (auto simp: tables_def rd)
    moreover have "only_tables_changed s d s1"
      using td t by (auto simp: only_tables_changed_def s1_def write_entry_def)
    moreover have "pmm_inv (mm_pmm s1)" using t(4) by (simp add: s1_def)
    moreover have "tables s d \<subseteq> tables s1 d"
      unfolding tables_def using False by (intro image_subsetI) (auto simp: rd intro!: image_eqI)
    moreover have "used_set (mm_pmm s1) \<subseteq> used_set (mm_pmm s) \<union> tables s1 d"
      using e t(5) by (auto simp: tables_def rd s1_def write_entry_def)
    ultimately show ?thesis using inst e rd False by (intro disjI2 exI [of _ s1]) simp
  qed
qed

definition space_ok :: "paddr \<Rightarrow> mm_state \<Rightarrow> bool" where
  "space_ok space s \<longleftrightarrow> pmm_inv (mm_pmm s) \<and> space_wf s (get_page_directory s space)"

text \<open>The translation of a space, by page number.\<close>

definition page_view :: "paddr \<Rightarrow> mm_state \<Rightarrow> nat \<Rightarrow> u32 option" where
  "page_view space s n =
     (if n < 1048576 then lookup s (get_page_directory s space) (of_nat n * 4096) else None)"

lemma lookup_page_cong:
  assumes "unat v div 4096 = unat w div 4096"
  shows "lookup s d v = lookup s d w"
proof -
  have "i686_pde_index v = i686_pde_index w" "i686_pte_index v = i686_pte_index w"
    using same_page_iff [of v w] assms by auto
  then show ?thesis by (simp add: lookup_def Let_def)
qed

lemma get_page_directory_cong: "cr3 s' = cr3 s \<Longrightarrow> get_page_directory s' space = get_page_directory s space"
  by (simp add: get_page_directory_def)

lemma hal_mmu_map_law:
  assumes ok: "space_ok space s" and map: "hal_mmu_map s space v phys flags = (b, s')"
    and d: "d = get_page_directory s space"
  shows "space_ok space s' \<and> get_page_directory s' space = d \<and> only_tables_changed s d s'
    \<and> (\<forall>w. lookup s' d w =
          (if b \<and> unat w div 4096 = unat v div 4096
           then (if flags AND HAL_PAGE_PRESENT \<noteq> 0 then Some (map_entry phys flags) else None)
           else lookup s d w))
    \<and> (\<not> b \<longrightarrow> s' = s)"
proof (cases "(v OR ucast phys) AND 0xFFF = 0")
  case False
  then have "b = False" "s' = s" using map unfolding hal_mmu_map_def by simp_all
  then show ?thesis using ok d by (simp add: only_tables_changed_def)
next
  case al: True
  then have low: "take_bit 12 (ucast phys :: u32) = 0" using aligned_or by blast
  have inv: "pmm_inv (mm_pmm s)" and wf: "space_wf s (get_page_directory s space)"
    using ok by (auto simp: space_ok_def)
  show ?thesis
    using hal_mmu_map_cases [OF inv wf al d, of flags]
  proof
    assume "\<not> i686_is_present (read_entry s d (i686_pde_index v)) \<and> free_set (mm_pmm s) = {}
            \<and> hal_mmu_map s space v phys flags = (False, s)"
    then have "b = False" "s' = s" using map by simp_all
    then show ?thesis using ok d by (simp add: only_tables_changed_def)
  next
    assume "\<exists>s1. hal_mmu_map s space v phys flags =
            (True, write_entry (entry_pfn (read_entry s1 d (i686_pde_index v))) (i686_pte_index v)
                     (map_entry phys flags) s1)
          \<and> space_wf s1 d \<and> pmm_inv (mm_pmm s1) \<and> (\<forall>w. lookup s1 d w = lookup s d w)
          \<and> i686_is_present (read_entry s1 d (i686_pde_index v))
          \<and> only_tables_changed s d s1 \<and> tables s d \<subseteq> tables s1 d \<and> tables s1 d \<subseteq> tables s d \<union> free_set (mm_pmm s)
          \<and> used_set (mm_pmm s1) \<subseteq> used_set (mm_pmm s) \<union> tables s1 d
          \<and> (i686_is_present (read_entry s d (i686_pde_index v)) \<longrightarrow> mm_pmm s1 = (mm_pmm s)\<lparr>phys_mem := phys_mem (mm_pmm s1)\<rparr>)"
    then obtain s1 where b: "b = True" and s': "s' = write_entry (entry_pfn (read_entry s1 d (i686_pde_index v)))
        (i686_pte_index v) (map_entry phys flags) s1"
      and s1: "space_wf s1 d" "pmm_inv (mm_pmm s1)" "\<And>w. lookup s1 d w = lookup s d w"
        "i686_is_present (read_entry s1 d (i686_pde_index v))" "only_tables_changed s d s1"
        "tables s1 d \<subseteq> tables s d \<union> free_set (mm_pmm s)" using map by auto
    let ?t = "entry_pfn (read_entry s1 d (i686_pde_index v))"
    have td: "?t \<noteq> d" using s1(1,4) by (simp add: space_wf_def)
    have "?t \<in> tables s1 d" using s1(4) by (auto simp: tables_def)
    then have t_old: "?t \<in> tables s d \<or> ?t \<notin> used_set (mm_pmm s)"
      using s1(6) by (auto simp: free_set_def used_set_def)
    have gd: "get_page_directory s1 space = d"
      using s1(5) d get_page_directory_cong [of s1 s] by (simp add: only_tables_changed_def)
    have "only_tables_changed s d s'"
      using s1(5) t_old unfolding s' only_tables_changed_def by (auto simp: write_entry_def)
    moreover have "space_ok space s'"
      using s1(1,2) td gd by (simp add: s' space_ok_def space_wf_write_pte)
    moreover have "lookup s' d w =
        (if unat w div 4096 = unat v div 4096
         then (if i686_is_present (map_entry phys flags) then Some (map_entry phys flags) else None)
         else lookup s d w)" for w
      unfolding s' lookup_write_pte [OF s1(1,4)] s1(3) ..
    ultimately show ?thesis using b gd map_entry_parts(3) [OF low] by (simp add: s')
  qed
qed

lemma hal_mmu_unmap_law:
  assumes ok: "space_ok space s" and v: "take_bit 12 v = 0" and d: "d = get_page_directory s space"
    and un: "hal_mmu_unmap s space v = (r, s')"
  shows "space_ok space s' \<and> get_page_directory s' space = d \<and> only_tables_changed s d s'
    \<and> mm_pmm s' = (mm_pmm s)\<lparr>phys_mem := phys_mem (mm_pmm s')\<rparr>
    \<and> (\<forall>i. read_entry s' d i = read_entry s d i)
    \<and> (\<forall>w. lookup s' d w = (if unat w div 4096 = unat v div 4096 then None else lookup s d w))
    \<and> r = (case lookup s d v of None \<Rightarrow> PADDR_INVALID | Some pte \<Rightarrow> ucast (i686_get_frame pte))"
proof (cases "lookup s d v")
  case None
  then have "r = PADDR_INVALID" "s' = s"
    using un v unfolding hal_mmu_unmap_def lookup_def d [symmetric] Let_def low12
    by (auto split: if_splits)
  moreover have "lookup s d w = None" if "unat w div 4096 = unat v div 4096" for w
    using lookup_page_cong [OF that] None by simp
  ultimately show ?thesis using ok d None by (simp add: only_tables_changed_def)
next
  case (Some pte)
  have wf: "space_wf s d" using ok d by (simp add: space_ok_def)
  let ?t = "entry_pfn (read_entry s d (i686_pde_index v))"
  have pres: "i686_is_present (read_entry s d (i686_pde_index v))"
    using Some by (auto simp: lookup_def Let_def split: if_splits)
  have rs: "r = ucast (i686_get_frame pte)" "s' = write_entry ?t (i686_pte_index v) 0 s"
    using un v Some unfolding hal_mmu_unmap_def lookup_def d [symmetric] Let_def low12
    by (auto split: if_splits)
  have td: "?t \<noteq> d" "?t \<in> tables s d" using wf pres by (auto simp: space_wf_def tables_def)
  have "only_tables_changed s d s'"
    using td unfolding rs(2) only_tables_changed_def by (auto simp: write_entry_def)
  moreover have "mm_pmm s' = (mm_pmm s)\<lparr>phys_mem := phys_mem (mm_pmm s')\<rparr>"
    by (simp add: rs(2) write_entry_def)
  moreover have "lookup s' d w = (if unat w div 4096 = unat v div 4096 then None else lookup s d w)" for w
    unfolding rs(2) lookup_write_pte [OF wf pres] by (simp add: i686_is_present_def)
  ultimately show ?thesis
    using ok d td space_wf_write_pte [OF wf td(1)] Some rs(1) by (simp add: rs(2) space_ok_def)
qed

lemma page_of_nat: "n < 1048576 \<Longrightarrow> unat (of_nat n * 4096 :: u32) div 4096 = n"
  by (simp add: unat_word_ariths unat_of_nat)

lemma page_bound: "unat (v :: u32) div 4096 < 1048576"
  using less_mult_imp_div_less [of "unat v" 1048576 4096] by simp

lemma page_view_page: "page_view space s (unat v div 4096) = lookup s (get_page_directory s space) v"
  using page_bound [of v] page_of_nat [OF page_bound, of v]
  by (auto simp: page_view_def intro!: lookup_page_cong)

definition run_page :: "vaddr \<Rightarrow> nat \<Rightarrow> nat" where
  "run_page virt j = unat (virt + of_nat j * 4096) div 4096"

lemma run_page_mod: "run_page virt j = (unat virt div 4096 + j) mod 1048576"
proof -
  have "unat (virt + of_nat j * 4096) = (unat virt + j * 4096) mod (4096 * 1048576)"
    by (simp add: unat_word_ariths unat_of_nat mod_simps)
  then have "run_page virt j = (unat virt + j * 4096) div 4096 mod 1048576"
    unfolding run_page_def mod_mult2_eq by simp
  then show ?thesis by (simp add: add.commute)
qed

lemma run_page_inj: "inj_on (run_page virt) {..<1048576}"
proof (rule inj_onI)
  fix x y assume "x \<in> {..<1048576}" "y \<in> {..<1048576}" "run_page virt x = run_page virt y"
  then have "x < 1048576" "y < 1048576"
    "(unat virt div 4096 + x) mod 1048576 = (unat virt div 4096 + y) mod 1048576"
    by (auto simp: run_page_mod)
  then show "x = y" using add_mod_inj by blast
qed

lemma page_step_aligned:
  assumes "take_bit 12 (virt :: u32) = 0"
  shows "take_bit 12 (virt + of_nat j * 4096) = 0"
proof -
  have "unat (virt + of_nat j * 4096) mod 4096 = (unat virt + j * 4096) mod 4294967296 mod 4096"
    by (simp add: unat_word_ariths unat_of_nat mod_simps)
  also have "\<dots> = (unat virt + j * 4096) mod 4096" by (rule mod_mod_cancel) simp
  finally show ?thesis using assms unfolding take12_unat by simp
qed

lemma fun_upd_view:
  fixes v :: u32
  assumes "\<And>w. lookup s' d w = (if unat w div 4096 = unat v div 4096 then e else lookup s d w)"
    "get_page_directory s space = d" "get_page_directory s' space = d"
  shows "page_view space s' = (page_view space s)(unat v div 4096 := e)"
  using assms page_bound [of v] by (auto simp: page_view_def fun_eq_iff page_of_nat)

interpretation hm: undoable_steps
  "\<lambda>s. take_bit 12 virt = 0 \<and> space_ok space s" "page_view space"
  "map_step space virt phys flags" "unmap_step space virt" "run_page virt"
  "\<lambda>j. if flags AND HAL_PAGE_PRESENT \<noteq> 0 then Some (map_entry (phys + of_nat j * 4096) flags) else None"
  1048576
  for space virt phys flags
proof (unfold_locales, goal_cases)
  case (1 s j s')
  then show ?case
    using hal_mmu_map_law [of space s "virt + of_nat j * 4096" "phys + of_nat j * 4096" flags True s',
        OF _ _ refl]
    by (auto simp: map_step_def run_page_def intro!: fun_upd_view)
next
  case (2 s j s')
  then show ?case
    using hal_mmu_map_law [of space s "virt + of_nat j * 4096" "phys + of_nat j * 4096" flags False s',
        OF _ _ refl]
    by (auto simp: map_step_def)
next
  case (3 s j)
  have "take_bit 12 (virt + of_nat j * 4096) = 0"
    using 3 page_step_aligned by blast
  with 3 show ?case
    using hal_mmu_unmap_law [of space s "virt + of_nat j * 4096", OF _ _ refl]
    by (cases "hal_mmu_unmap s space (virt + of_nat j * 4096)")
       (auto simp: unmap_step_def run_page_def intro!: fun_upd_view)
next
  case 4
  show ?case by (rule run_page_inj)
qed

text \<open>Changing flags of a mapped page.\<close>

lemma hal_mmu_protect_law:
  assumes ok: "space_ok space s" and d: "d = get_page_directory s space"
    and pte: "lookup s d v = Some pte" and pr: "hal_mmu_protect s space v sf cf = (b, s')"
    and keep: "i686_is_present (((pte AND 0xFFF) OR hal_flags_to_i686 sf) AND NOT (hal_flags_to_i686 cf))"
  shows "b \<and> space_ok space s' \<and> get_page_directory s' space = d \<and> only_tables_changed s d s'
    \<and> mm_pmm s' = (mm_pmm s)\<lparr>phys_mem := phys_mem (mm_pmm s')\<rparr>
    \<and> (\<forall>w. lookup s' d w =
         (if unat w div 4096 = unat v div 4096
          then Some (i686_get_frame pte OR (((pte AND 0xFFF) OR hal_flags_to_i686 sf) AND NOT (hal_flags_to_i686 cf)))
          else lookup s d w))"
proof -
  let ?e = "i686_get_frame pte OR (((pte AND 0xFFF) OR hal_flags_to_i686 sf) AND NOT (hal_flags_to_i686 cf))"
  have wf: "space_wf s d" using ok d by (simp add: space_ok_def)
  let ?t = "entry_pfn (read_entry s d (i686_pde_index v))"
  have pres: "i686_is_present (read_entry s d (i686_pde_index v))"
    using pte by (auto simp: lookup_def Let_def split: if_splits)
  have rs: "b" "s' = write_entry ?t (i686_pte_index v) ?e s"
    using pr pte unfolding hal_mmu_protect_def lookup_def d [symmetric] Let_def
    by (auto split: if_splits)
  have td: "?t \<noteq> d" "?t \<in> tables s d" using wf pres by (auto simp: space_wf_def tables_def)
  have e: "i686_is_present ?e" using keep by (simp only: entry_present simp_thms)
  have "only_tables_changed s d s'"
    using td unfolding rs(2) only_tables_changed_def by (auto simp: write_entry_def)
  moreover have "mm_pmm s' = (mm_pmm s)\<lparr>phys_mem := phys_mem (mm_pmm s')\<rparr>"
    by (simp add: rs(2) write_entry_def)
  moreover have "lookup s' d w = (if unat w div 4096 = unat v div 4096 then Some ?e else lookup s d w)" for w
    unfolding rs(2) lookup_write_pte [OF wf pres] using e by simp
  ultimately show ?thesis
    using ok d space_wf_write_pte [OF wf td(1)] rs(1) by (simp add: rs(2) space_ok_def)
qed

text \<open>A change that keeps all used frames and their contents keeps the translations.\<close>

lemma space_ok_frame:
  assumes ok: "space_ok space s" and inv: "pmm_inv (mm_pmm s')" and cr: "cr3 s' = cr3 s"
    and used: "used_set (mm_pmm s) \<subseteq> used_set (mm_pmm s')"
    and mem: "\<And>f. f = d \<or> f \<in> tables s d \<Longrightarrow> phys_mem (mm_pmm s') f = phys_mem (mm_pmm s) f"
    and d: "d = get_page_directory s space"
  shows "space_ok space s'" "lookup s' d w = lookup s d w" "tables s' d = tables s d"
    "get_page_directory s' space = d"
proof -
  have gd: "get_page_directory s' space = d" using get_page_directory_cong [OF cr] d by simp
  have wf: "space_wf s d" using ok d by (simp add: space_ok_def)
  have rd: "read_entry s' d i = read_entry s d i" for i using mem [of d] by (simp add: read_entry_def)
  then show t: "tables s' d = tables s d" by (simp add: tables_def)
  have "space_wf s' d" using wf used unfolding space_wf_def rd by blast
  then show "space_ok space s'" using inv gd by (simp add: space_ok_def)
  have "read_entry s' (entry_pfn (read_entry s d i)) j = read_entry s (entry_pfn (read_entry s d i)) j"
    if "i < 1024" "i686_is_present (read_entry s d i)" for i j
  proof -
    have "entry_pfn (read_entry s d i) \<in> tables s d" using that by (auto simp: tables_def)
    then show ?thesis using mem by (simp add: read_entry_def)
  qed
  then show "lookup s' d w = lookup s d w" unfolding lookup_def Let_def rd by auto
  show "get_page_directory s' space = d" by (rule gd)
qed

lemma flag_bit: "bit (flag f a b) n \<longleftrightarrow> f AND a \<noteq> 0 \<and> bit b n"
  by (simp add: flag_def)

lemma i686_to_hal_bits:
  "bit (i686_flags_to_hal f) 0 = bit f 0" "bit (i686_flags_to_hal f) (Suc 0) = bit f 1"
  "bit (i686_flags_to_hal f) 2 = bit f 2" "bit (i686_flags_to_hal f) 3 = bit f 4"
  "bit (i686_flags_to_hal f) 5 = bit f 9"
  by (simp_all add: i686_flags_to_hal_def bit_or_iff flag_bit flag_bits)

section \<open>Properties\<close>

text \<open>A machine with four frames: frame 3 holds an empty page directory, frames 1 and 2 are free.\<close>

definition mm_sample :: mm_state where
  "mm_sample = \<lparr>mm_pmm = pmm_sample\<lparr>phys_mem := (\<lambda>_ _. 0)\<rparr>, cr3 = 0x3000, current_dir_phys = 0x3000,
     boot_dir_phys = 0x3000, active_page_directories = [], mmio_next_virt = 0xF0000000,
     pat_initialized = False\<rparr>"

lemma mm_sample_dir: "get_page_directory mm_sample 0 = 3"
  by (simp add: get_page_directory_def mm_sample_def)

lemma mm_sample_ok: "space_ok 0 mm_sample"
proof -
  have "\<not> i686_is_present (read_entry mm_sample 3 i)" for i
    by (simp add: read_entry_def mm_sample_def i686_is_present_def)
  moreover have "3 \<in> used_set (mm_pmm mm_sample)" "pmm_inv (mm_pmm mm_sample)"
    by (simp_all add: mm_sample_def pmm_sample_sets pmm_sample_inv)
  ultimately show ?thesis by (simp add: space_ok_def mm_sample_dir space_wf_def)
qed

lemma mm_sample_empty: "lookup mm_sample 3 w = None"
  by (simp add: lookup_def read_entry_def mm_sample_def i686_is_present_def)

lemma query_map_entry:
  assumes "take_bit 12 (ucast phys :: u32) = 0" "unat phys < 4294967296"
  shows "(ucast (i686_get_frame (map_entry phys flags)), i686_flags_to_hal (map_entry phys flags AND 0xFFF))
    = (phys, flags AND 0x2F)"
proof -
  have "(ucast (ucast phys :: u32) :: paddr) = phys"
    using assms(2) by (simp add: word_unat_eq_iff unsigned_ucast_eq unsigned_take_bit_eq take_bit_nat_eq_self)
  then show ?thesis by (simp add: map_entry_parts [OF assms(1)] hal_flags_roundtrip)
qed

text \<open>
  C11: mapping a page in a well-formed space, with the present flag, to a physical page below 4 GB.  When
  \<open>hal_mmu_map\<close> succeeds, a query for any address in the mapped page gives the physical page and those of
  the flags present, write, user, no-cache and copy-on-write (\<^verbatim>\<open>0x2F\<close>) that were asked for, and a query for any other address gives
  what it gave before; the space stays well formed, used frames keep their contents (apart from the
  space's own directory and tables) and their references.  When it fails, nothing has changed.
\<close>

theorem hal_mmu_map_query:
  assumes ok: "space_ok space s" and map: "hal_mmu_map s space v phys flags = (b, s')"
    and flags: "flags AND HAL_PAGE_PRESENT \<noteq> 0" and phys: "unat phys < 4294967296"
  shows "space_ok space s' \<and> only_tables_changed s (get_page_directory s space) s'
    \<and> (if b then \<forall>w. hal_mmu_query s' space w =
          (if unat w div 4096 = unat v div 4096 then Some (phys, flags AND 0x2F)
           else hal_mmu_query s space w)
       else s' = s)"
proof -
  note law = hal_mmu_map_law [OF ok map refl]
  have low: "take_bit 12 (ucast phys :: u32) = 0" if b
    using map that aligned_or [of v "ucast phys"] unfolding hal_mmu_map_def by (auto split: if_splits)
  have "hal_mmu_query s' space w = (if unat w div 4096 = unat v div 4096 then Some (phys, flags AND 0x2F)
           else hal_mmu_query s space w)" if b for w
    using law flags that query_map_entry [OF low [OF that] phys, of flags]
    unfolding hal_mmu_query_lookup by simp
  with law show ?thesis by simp
qed

theorem hal_mmu_map_query_witness:
  "hal_mmu_query (snd (hal_mmu_map mm_sample 0 0x400000 0x2000 0x7)) 0 0x400123 = Some (0x2000, 0x7)
   \<and> hal_mmu_query (snd (hal_mmu_map mm_sample 0 0x400000 0x2000 0x7)) 0 0x401000 = None"
proof -
  have inv: "pmm_inv (mm_pmm mm_sample)" "space_wf mm_sample (get_page_directory mm_sample 0)"
    using mm_sample_ok by (auto simp: space_ok_def)
  have "free_set (mm_pmm mm_sample) \<noteq> {}" by (simp add: mm_sample_def pmm_sample_sets)
  with hal_mmu_map_cases [OF inv _ refl, of "0x400000" "0x2000" "0x7"]
  have "fst (hal_mmu_map mm_sample 0 0x400000 0x2000 0x7) = True" by auto
  then have "hal_mmu_map mm_sample 0 0x400000 0x2000 0x7 =
      (True, snd (hal_mmu_map mm_sample 0 0x400000 0x2000 0x7))" by (metis prod.collapse)
  from hal_mmu_map_query [OF mm_sample_ok this]
  have "\<forall>w. hal_mmu_query (snd (hal_mmu_map mm_sample 0 0x400000 0x2000 0x7)) 0 w =
      (if unat w div 4096 = 1024 then Some (0x2000, 0x7) else hal_mmu_query mm_sample 0 w)" by simp
  moreover have "hal_mmu_query mm_sample 0 0x401000 = None"
    by (simp add: hal_mmu_query_lookup mm_sample_dir mm_sample_empty)
  ultimately show ?thesis by simp
qed

text \<open>
  C27: unmapping a page returns the physical page it was mapped to (or the invalid address if it was
  not mapped), removes the translation of exactly that page, and changes nothing but one entry of a
  page table of the space.
\<close>

theorem hal_mmu_unmap_query:
  assumes ok: "space_ok space s" and v: "v AND 0xFFF = 0" and un: "hal_mmu_unmap s space v = (r, s')"
  shows "space_ok space s' \<and> only_tables_changed s (get_page_directory s space) s'
    \<and> r = (case hal_mmu_query s space v of None \<Rightarrow> PADDR_INVALID | Some (phys, _) \<Rightarrow> phys)
    \<and> (\<forall>w. hal_mmu_query s' space w =
          (if unat w div 4096 = unat v div 4096 then None else hal_mmu_query s space w))"
proof -
  have "take_bit 12 v = 0" using v by (simp only: low12)
  from hal_mmu_unmap_law [OF ok this refl un] show ?thesis
    unfolding hal_mmu_query_lookup by (auto split: option.splits)
qed

theorem hal_mmu_unmap_query_witness:
  "hal_mmu_query (snd (hal_mmu_unmap mm_sample 0 0x400000)) 0 0x400000 = None"
  using hal_mmu_unmap_query [OF mm_sample_ok, of "0x400000"
      "fst (hal_mmu_unmap mm_sample 0 0x400000)" "snd (hal_mmu_unmap mm_sample 0 0x400000)"] by simp

text \<open>
  Mapping a 2 MB page as 512 small pages is all or nothing.  If it succeeds, all 512 pages are
  mapped to the consecutive physical pages and no other translation has changed; if it fails, and
  the range was not mapped before, the pages mapped so far have been removed again and every
  translation is as before.
\<close>

theorem hal_mmu_map_huge_atomic:
  assumes ok: "space_ok space s" and map: "hal_mmu_map_huge s space virt phys flags = (b, s')"
    and flags: "flags AND HAL_PAGE_PRESENT \<noteq> 0"
    and empty: "\<forall>j<HUGE_FRAMES. page_view space s (run_page virt j) = None"
  shows "if b then (\<forall>j<HUGE_FRAMES. page_view space s' (run_page virt j)
                        = Some (map_entry (phys + of_nat j * 4096) flags))
                 \<and> (\<forall>q. q \<notin> run_page virt ` {..<HUGE_FRAMES} \<longrightarrow> page_view space s' q = page_view space s q)
         else page_view space s' = page_view space s"
proof (cases "\<not> is_huge_page_aligned virt \<or> \<not> is_huge_page_aligned (ucast phys)")
  case True
  then show ?thesis using map by (auto simp: hal_mmu_map_huge_def)
next
  case False
  then have al: "take_bit 12 virt = 0"
  proof -
    have "virt AND 0x1FFFFF = 0" using False by (simp add: is_huge_page_aligned_def)
    moreover have "virt AND 0xFFF = (virt AND 0x1FFFFF) AND 0xFFF" by (simp add: and.assoc)
    ultimately show ?thesis by (simp flip: low12)
  qed
  have loop: "step_loop (map_step space virt phys flags) (unmap_step space virt) 0 HUGE_FRAMES s = (b, s')"
    using map False by (simp add: hal_mmu_map_huge_def)
  show ?thesis
  proof (cases b)
    case True
    then show ?thesis
      using hm.step_loop_ok [of virt space s phys flags 0 HUGE_FRAMES s'] al ok loop flags
      by (auto simp: lessThan_atLeast0)
  next
    case False
    then show ?thesis
      using hm.step_loop_fail_clean [of virt space s phys flags HUGE_FRAMES s'] al ok loop empty by simp
  qed
qed

theorem hal_mmu_map_huge_atomic_witness:
  "if fst (hal_mmu_map_huge mm_sample 0 0x400000 0x80000000 0x3)
   then page_view 0 (snd (hal_mmu_map_huge mm_sample 0 0x400000 0x80000000 0x3)) 1024 = Some 0x80000003
   else page_view 0 (snd (hal_mmu_map_huge mm_sample 0 0x400000 0x80000000 0x3)) = page_view 0 mm_sample"
proof -
  let ?r = "hal_mmu_map_huge mm_sample 0 0x400000 0x80000000 0x3"
  have "page_view 0 mm_sample n = None" for n
    by (simp add: page_view_def mm_sample_dir mm_sample_empty)
  moreover have "run_page 0x400000 0 = 1024" "map_entry 0x80000000 0x3 = 0x80000003"
    by (simp add: run_page_def) code_simp
  ultimately show ?thesis
    using hal_mmu_map_huge_atomic [OF mm_sample_ok, where virt = "0x400000" and phys = "0x80000000"
        and flags = "0x3" and b = "fst ?r" and s' = "snd ?r"]
    by (auto dest!: spec [of _ 0] split: if_splits)
qed

text \<open>
  The i686 page tables cannot store the write-combining attribute: requesting it has exactly the
  effect of not requesting it, so a framebuffer mapped with \<^verbatim>\<open>HAL_PAGE_WRITECOMB\<close> (and without
  \<^verbatim>\<open>HAL_PAGE_NOCACHE\<close>) is mapped with ordinary caching.
\<close>

theorem hal_mmu_map_writecomb_ignored:
  "hal_mmu_map s space v phys (flags OR HAL_PAGE_WRITECOMB) = hal_mmu_map s space v phys flags"
proof -
  have "(flags OR HAL_PAGE_WRITECOMB) AND x = flags AND x" if "HAL_PAGE_WRITECOMB AND x = 0" for x
    using that by (simp add: bit.conj_disj_distrib2)
  then have "hal_flags_to_i686 (flags OR HAL_PAGE_WRITECOMB) = hal_flags_to_i686 flags"
    by (simp add: hal_flags_to_i686_def flag_def)
  then show ?thesis unfolding hal_mmu_map_def by simp
qed

end
