(* ===== verification/Pgtable.thy ===== *)
theory Pgtable
  imports Paging
begin

text \<open>
  The architecture-independent page-table entry interface as implemented for i686 in
  \<^verbatim>\<open>src/src/arch/i686/mm/pgtable.c\<close>: building an entry from a physical address and abstract flags,
  reading both back, and changing flags.
\<close>

abbreviation PTE_EXEC :: u32 where "PTE_EXEC \<equiv> 0x10"
abbreviation PTE_HUGE :: u32 where "PTE_HUGE \<equiv> 0x100"
abbreviation PTE_GLOBAL :: u32 where "PTE_GLOBAL \<equiv> 0x200"

definition pgtable_make_entry :: "paddr \<Rightarrow> u32 \<Rightarrow> u32" where
  "pgtable_make_entry phys flags =
     (let i686_flags = flag flags 0x01 0x001 OR flag flags 0x02 0x002 OR flag flags 0x04 0x004
                         OR flag flags 0x08 0x010 OR flag flags 0x20 0x200 OR flag flags 0x200 0x100
      in (ucast phys AND 0xFFFFF000) OR (i686_flags AND 0x00000FFF))"

definition pgtable_get_phys :: "u32 \<Rightarrow> paddr" where
  "pgtable_get_phys entry = ucast (entry AND 0xFFFFF000)"

definition pgtable_get_flags :: "u32 \<Rightarrow> u32" where
  "pgtable_get_flags entry =
     (let f = entry AND 0x00000FFF
      in flag f 0x001 0x01 OR flag f 0x002 0x02 OR flag f 0x004 0x04 OR flag f 0x010 0x08
         OR flag f 0x200 0x20 OR flag f 0x040 0x40 OR flag f 0x020 0x80 OR flag f 0x100 0x200
         OR flag f 0x080 0x100 OR PTE_EXEC)"

definition pgtable_is_present :: "u32 \<Rightarrow> bool" where
  "pgtable_is_present entry \<longleftrightarrow> entry AND 0x001 \<noteq> 0"

definition pgtable_is_writable :: "u32 \<Rightarrow> bool" where
  "pgtable_is_writable entry \<longleftrightarrow> entry AND 0x002 \<noteq> 0"

definition pgtable_is_user :: "u32 \<Rightarrow> bool" where
  "pgtable_is_user entry \<longleftrightarrow> entry AND 0x004 \<noteq> 0"

definition pgtable_is_cow :: "u32 \<Rightarrow> bool" where
  "pgtable_is_cow entry \<longleftrightarrow> entry AND 0x200 \<noteq> 0"

definition pgtable_is_huge :: "u32 \<Rightarrow> bool" where
  "pgtable_is_huge entry \<longleftrightarrow> entry AND 0x080 \<noteq> 0"

definition pgtable_modify_flags :: "u32 \<Rightarrow> u32 \<Rightarrow> u32 \<Rightarrow> u32" where
  "pgtable_modify_flags entry set_flags clear_flags =
     pgtable_make_entry (pgtable_get_phys entry)
       ((pgtable_get_flags entry AND NOT clear_flags) OR set_flags)"

definition pgtable_get_top_index :: "vaddr \<Rightarrow> nat" where
  "pgtable_get_top_index virt = unat (drop_bit 22 virt AND 0x3FF)"

definition pgtable_get_index :: "vaddr \<Rightarrow> nat \<Rightarrow> nat" where
  "pgtable_get_index virt level =
     (if level = 0 then unat (drop_bit 12 virt AND 0x3FF)
      else if level = 1 then unat (drop_bit 22 virt AND 0x3FF) else 0)"

definition pgtable_validate_entry :: "u32 \<Rightarrow> bool" where
  "pgtable_validate_entry entry \<longleftrightarrow>
     (if \<not> pgtable_is_present entry then True
      else let phys = pgtable_get_phys entry in phys AND 0xFFF = 0 \<and> \<not> 0xFFFFFFFF < phys)"

section \<open>Encoding and decoding\<close>

definition entry_flags :: "u32 \<Rightarrow> u32" where
  "entry_flags flags = flag flags 0x01 0x001 OR flag flags 0x02 0x002 OR flag flags 0x04 0x004
     OR flag flags 0x08 0x010 OR flag flags 0x20 0x200 OR flag flags 0x200 0x100"

lemma entry_flags_low: "entry_flags f AND 0xFFF = entry_flags f"
  by (simp add: entry_flags_def flag_def)

lemma entry_flags_take: "take_bit 12 (entry_flags f) = entry_flags f"
  using entry_flags_low [of f] by (simp only: low12)

lemma make_entry_eq: "pgtable_make_entry phys flags = i686_get_frame (ucast phys) OR entry_flags flags"
  unfolding pgtable_make_entry_def Let_def i686_get_frame_def entry_flags_def [symmetric] entry_flags_low ..

lemma get_frame_low: "take_bit 12 (i686_get_frame e) = 0"
  unfolding low12_bits by (auto simp: i686_get_frame_def bit_and_iff page_mask_bits)

lemma get_frame_idem: "i686_get_frame (i686_get_frame e) = i686_get_frame e"
  by (simp add: i686_get_frame_def and.assoc)

lemma get_phys_make: "pgtable_get_phys (pgtable_make_entry phys flags) = ucast (i686_get_frame (ucast phys))"
  using entry_parts(1) [OF get_frame_low entry_flags_take, of "ucast phys" flags]
  unfolding pgtable_get_phys_def make_entry_eq by (simp add: i686_get_frame_def)

text \<open>The flags an i686 entry can express; execute permission cannot be withheld.\<close>

lemma get_flags_make: "pgtable_get_flags (pgtable_make_entry phys flags) = (flags AND 0x22F) OR PTE_EXEC"
proof -
  have "flags AND 0x22F = (flags AND 0x1) OR (flags AND 0x2) OR (flags AND 0x4) OR (flags AND 0x8)
      OR (flags AND 0x20) OR (flags AND 0x200)"
    by (simp flip: bit.conj_disj_distrib)
  also have "\<dots> = flag flags 0x1 0x1 OR flag flags 0x2 0x2 OR flag flags 0x4 0x4 OR flag flags 0x8 0x8
      OR flag flags 0x20 0x20 OR flag flags 0x200 0x200"
    using and_flag [of flags 0] and_flag [of flags 1] and_flag [of flags 2] and_flag [of flags 3]
      and_flag [of flags 5] and_flag [of flags 9]
    by (simp add: flag_def)
  finally have f: "flags AND 0x22F = flag flags 0x1 0x1 OR flag flags 0x2 0x2 OR flag flags 0x4 0x4
      OR flag flags 0x8 0x8 OR flag flags 0x20 0x20 OR flag flags 0x200 0x200" .
  show ?thesis
    unfolding pgtable_get_flags_def Let_def make_entry_eq entry_parts(2) [OF get_frame_low entry_flags_take] f
    by (simp add: entry_flags_def flag_def)
qed

lemma aligned_frame:
  assumes "unat phys < 4294967296" "unat phys mod 4096 = 0"
  shows "take_bit 12 (ucast phys :: u32) = 0" "i686_get_frame (ucast phys) = ucast phys" "(ucast (ucast phys :: u32) :: paddr) = phys"
proof -
  have u: "unat (ucast phys :: u32) = unat phys" using assms(1) by (rule unat_ucast_low)
  then show low: "take_bit 12 (ucast phys :: u32) = 0" using assms(2) by (simp add: take12_unat)
  show "i686_get_frame (ucast phys) = ucast phys"
    using entry_parts(1) [OF low, of 0] by simp
  show "(ucast (ucast phys :: u32) :: paddr) = phys"
    using assms(1) by (simp add: word_unat_eq_iff unsigned_ucast_eq unsigned_take_bit_eq take_bit_nat_eq_self)
qed

lemma make_get_phys:
  assumes "unat phys < 4294967296" "unat phys mod 4096 = 0"
  shows "pgtable_get_phys (pgtable_make_entry phys flags) = phys"
  unfolding get_phys_make aligned_frame[OF assms] ..

text \<open>
  An entry made for a page-aligned physical address below 4 GB gives back that address, and the
  abstract flags with the execute flag added and the flags the hardware maintains (dirty, accessed)
  or does not support at this level removed; the entry passes the format check.
\<close>

theorem pgtable_entry_roundtrip:
  assumes "unat phys < 4294967296" "unat phys mod 4096 = 0"
  shows "pgtable_get_phys (pgtable_make_entry phys flags) = phys
    \<and> pgtable_get_flags (pgtable_make_entry phys flags) = (flags AND 0x22F) OR PTE_EXEC
    \<and> pgtable_is_present (pgtable_make_entry phys flags) = (flags AND 0x01 \<noteq> 0)
    \<and> pgtable_validate_entry (pgtable_make_entry phys flags)"
proof -
  note low = aligned_frame(1)[OF assms] and frame = aligned_frame(2)[OF assms] and phys = make_get_phys[OF assms]
  have "\<not> bit (ucast phys :: u32) 0" using low by (simp only: low12_bits) simp
  then have "pgtable_is_present (pgtable_make_entry phys flags) = (flags AND 0x01 \<noteq> 0)"
    unfolding pgtable_is_present_def make_entry_eq frame flag_bits
    by (simp add: bit_or_iff entry_flags_def flag_def flag_bits)
  moreover have "phys AND 0xFFF = 0"
    using assms(2) aligned_unat [of phys] by (simp add: IS_PADDR_ALIGNED_def)
  ultimately show ?thesis
    using assms(1) phys get_flags_make [of phys flags]
    by (simp add: pgtable_validate_entry_def Let_def word_less_nat_alt)
qed

theorem pgtable_entry_roundtrip_witness:
  "pgtable_get_phys (pgtable_make_entry 0x12345000 0x27) = 0x12345000
   \<and> pgtable_get_flags (pgtable_make_entry 0x12345000 0x27) = 0x37"
  using pgtable_entry_roundtrip [of "0x12345000" "0x27"] by simp

text \<open>
  Changing the flags of an entry keeps its physical address; the new flags are the old ones with
  the cleared flags removed and then the set flags added (a flag in both sets ends up set), but the
  dirty and accessed bits are always lost.
\<close>

theorem pgtable_modify_flags_effect:
  "pgtable_get_phys (pgtable_modify_flags entry set_flags clear_flags) = pgtable_get_phys entry
   \<and> pgtable_get_flags (pgtable_modify_flags entry set_flags clear_flags)
       = (((pgtable_get_flags entry AND NOT clear_flags) OR set_flags) AND 0x22F) OR PTE_EXEC"
proof -
  have "(ucast (pgtable_get_phys entry) :: u32) = i686_get_frame entry"
    by (simp add: pgtable_get_phys_def i686_get_frame_def unsigned_ucast_eq take_bit_word_eq_self)
  then show ?thesis
    unfolding pgtable_modify_flags_def get_flags_make get_phys_make
    by (simp add: get_frame_idem) (simp add: pgtable_get_phys_def i686_get_frame_def)
qed

end
