(* ===== verification/Pgtable_Arch.thy ===== *)
theory Pgtable_Arch
  imports Pgtable
begin

text \<open>
  The page-table entry interface of \<^verbatim>\<open>src/src/include/hal/pgtable.h\<close> and its three implementations: for i686 (theory
  \<open>Pgtable\<close>), for x86-64 (\<^verbatim>\<open>src/src/arch/x86_64/mm/pgtable.c\<close>) and for ARM64 (\<^verbatim>\<open>src/src/arch/arm64/mm/pgtable.c\<close>).  The
  locale \<open>page_entry\<close> states what the architecture-independent code may rely on, address and flags in and out of an entry of
  unknown format; what copy-on-write needs of it is proved there once and holds for each architecture by interpretation.
\<close>

section \<open>x86-64\<close>









definition x64_is_huge :: "u64 \<Rightarrow> bool" where
  "x64_is_huge entry \<longleftrightarrow> entry AND 0x080 \<noteq> 0"

definition x64_is_executable :: "u64 \<Rightarrow> bool" where
  "x64_is_executable entry \<longleftrightarrow> entry AND 0x8000000000000000 = 0"



text \<open>The four-level indices, the same on both 64-bit architectures.\<close>

definition pgtable64_get_top_index :: "u64 \<Rightarrow> nat" where
  "pgtable64_get_top_index virt = unat (drop_bit 39 virt AND 0x1FF)"

definition pgtable64_get_index :: "u64 \<Rightarrow> nat \<Rightarrow> nat" where
  "pgtable64_get_index virt level =
     (if level = 0 then unat (drop_bit 12 virt AND 0x1FF)
      else if level = 1 then unat (drop_bit 21 virt AND 0x1FF)
      else if level = 2 then unat (drop_bit 30 virt AND 0x1FF)
      else if level = 3 then unat (drop_bit 39 virt AND 0x1FF) else 0)"

section \<open>ARM64\<close>









definition arm64_is_huge :: "u64 \<Rightarrow> bool" where
  "arm64_is_huge entry \<longleftrightarrow> entry AND 0x001 \<noteq> 0 \<and> entry AND 0x002 = 0"

definition arm64_is_executable :: "u64 \<Rightarrow> bool" where
  "arm64_is_executable entry \<longleftrightarrow> entry AND 0x0060000000000000 = 0"



section \<open>The interface\<close>




section \<open>The three implementations\<close>


lemma flag_bits64:
  fixes x :: u64
  shows "x AND 0x1 = 0 \<longleftrightarrow> \<not> bit x 0" "x AND 0x2 = 0 \<longleftrightarrow> \<not> bit x 1" "x AND 0x4 = 0 \<longleftrightarrow> \<not> bit x 2" "x AND 0x10 = 0 \<longleftrightarrow> \<not> bit x 4"
    "x AND 0x20 = 0 \<longleftrightarrow> \<not> bit x 5" "x AND 0x40 = 0 \<longleftrightarrow> \<not> bit x 6" "x AND 0x80 = 0 \<longleftrightarrow> \<not> bit x 7"
    "x AND 0x100 = 0 \<longleftrightarrow> \<not> bit x 8" "x AND 0x200 = 0 \<longleftrightarrow> \<not> bit x 9"
  using bit_iff_and_push_bit_not_eq_0 [of x 0] bit_iff_and_push_bit_not_eq_0 [of x 1]
    bit_iff_and_push_bit_not_eq_0 [of x 2] bit_iff_and_push_bit_not_eq_0 [of x 4]
    bit_iff_and_push_bit_not_eq_0 [of x 5] bit_iff_and_push_bit_not_eq_0 [of x 6] bit_iff_and_push_bit_not_eq_0 [of x 7]
    bit_iff_and_push_bit_not_eq_0 [of x 8] bit_iff_and_push_bit_not_eq_0 [of x 9]
  by simp_all

text \<open>A word under an address mask: aligned, bounded, and itself if it was both.\<close>

lemma addr_mask:
  fixes p :: u64
  assumes "12 \<le> w" "w \<le> 64"
  shows "p AND (mask w AND NOT (mask 12)) = push_bit 12 (take_bit (w - 12) (drop_bit 12 p))"
  by (rule bit_word_eqI) (use assms in \<open>auto simp: bit_simps\<close>)

















lemma u32_bits:
  fixes x :: u32
  shows "(x AND 0x01 \<noteq> 0) = bit x 0" "(x AND 0x02 \<noteq> 0) = bit x 1" "(x AND 0x04 \<noteq> 0) = bit x 2" "(x AND 0x20 \<noteq> 0) = bit x 5"
  using flag_bits(1,2,3,6)[of x] by simp_all
















section \<open>The interface on every architecture\<close>



end
