(* ===== verification/Vmm.thy ===== *)
theory Vmm
  imports Pgtable
begin

text \<open>
  The virtual memory manager, \<^verbatim>\<open>src/src/mm/vmm.c\<close> in its i686 configuration: mapping in the current
  and in other page directories, MMIO windows, the registry of page directories, copy-on-write
  cloning and its page-fault handler, and the release of a directory.  Each operation holds
  \<^verbatim>\<open>vmm_lock\<close> throughout and is one atomic function on the state of theory \<open>Paging\<close>.
\<close>

abbreviation MAX_PAGE_DIRECTORIES :: nat where "MAX_PAGE_DIRECTORIES \<equiv> 64"
abbreviation KERNEL_VIRTUAL_BASE :: u32 where "KERNEL_VIRTUAL_BASE \<equiv> 0x80000000"
abbreviation MMIO_VIRT_BASE :: u32 where "MMIO_VIRT_BASE \<equiv> 0xF0000000"
abbreviation MMIO_VIRT_END :: u32 where "MMIO_VIRT_END \<equiv> 0xFFC00000"

datatype task_state =
  TASK_UNUSED | TASK_READY | TASK_RUNNING | TASK_BLOCKED | TASK_ZOMBIE | TASK_TERMINATED

section \<open>Frames of page tables\<close>

definition on_pmm :: "(pmm_state \<Rightarrow> pmm_state) \<Rightarrow> mm_state \<Rightarrow> mm_state" where
  "on_pmm f s = s\<lparr>mm_pmm := f (mm_pmm s)\<rparr>"

definition dir_pfn :: "u32 \<Rightarrow> pfn" where
  "dir_pfn a = unat a div PAGE_SIZE"

definition protect_phys_frame :: "paddr \<Rightarrow> mm_state \<Rightarrow> mm_state" where
  "protect_phys_frame frame s =
     (if frame \<noteq> 0 \<and> frame \<noteq> PADDR_INVALID then on_pmm (pmm_protect_frame frame) s else s)"

definition unprotect_phys_frame :: "paddr \<Rightarrow> mm_state \<Rightarrow> mm_state" where
  "unprotect_phys_frame frame s =
     (if frame \<noteq> 0 \<and> frame \<noteq> PADDR_INVALID then on_pmm (pmm_unprotect_frame frame) s else s)"

definition protect_directory_range :: "pfn \<Rightarrow> nat \<Rightarrow> nat \<Rightarrow> mm_state \<Rightarrow> mm_state" where
  "protect_directory_range dir start_idx end_idx s =
     fold (\<lambda>i t. let entry = read_entry t dir i in
             if pgtable_is_present entry \<and> pgtable_get_phys entry \<noteq> 0
             then protect_phys_frame (pgtable_get_phys entry) t else t)
       [start_idx..<end_idx] s"

definition release_directory_range :: "pfn \<Rightarrow> nat \<Rightarrow> nat \<Rightarrow> bool \<Rightarrow> mm_state \<Rightarrow> mm_state" where
  "release_directory_range dir start_idx end_idx clear_entries s =
     fold (\<lambda>i t. let entry = read_entry t dir i in
             if pgtable_is_present entry
             then let t1 = (if pgtable_get_phys entry = 0 then t
                            else unprotect_phys_frame (pgtable_get_phys entry) t)
                  in if clear_entries then write_entry dir i 0 t1 else t1
             else t)
       [start_idx..<end_idx] s"

section \<open>The registry of page directories\<close>

definition is_active_page_directory :: "mm_state \<Rightarrow> u32 \<Rightarrow> bool" where
  "is_active_page_directory s frame \<longleftrightarrow> frame \<in> set (active_page_directories s)"

definition register_page_directory :: "u32 \<Rightarrow> mm_state \<Rightarrow> mm_state" where
  "register_page_directory dir_phys s =
     (if MAX_PAGE_DIRECTORIES \<le> length (active_page_directories s) then s
      else if is_active_page_directory s dir_phys then s
      else let s1 = protect_phys_frame (ucast dir_phys) s
           in s1\<lparr>active_page_directories := active_page_directories s1 @ [dir_phys]\<rparr>)"

definition unregister_page_directory :: "u32 \<Rightarrow> mm_state \<Rightarrow> mm_state" where
  "unregister_page_directory dir_phys s =
     (case find (\<lambda>i. active_page_directories s ! i = dir_phys)
             [0..<length (active_page_directories s)] of
        None \<Rightarrow> s
      | Some i \<Rightarrow>
          let s1 = unprotect_phys_frame (ucast dir_phys) s; ds = active_page_directories s1
          in s1\<lparr>active_page_directories := butlast (ds[i := last ds])\<rparr>)"

section \<open>Mapping\<close>

definition vmm_flags_to_hal :: "u32 \<Rightarrow> u32" where
  "vmm_flags_to_hal f =
     flag f PAGE_PRESENT HAL_PAGE_PRESENT OR flag f PAGE_WRITE HAL_PAGE_WRITE
     OR flag f PAGE_USER HAL_PAGE_USER OR flag f PAGE_CACHE_DISABLE HAL_PAGE_NOCACHE
     OR flag f PAGE_COW HAL_PAGE_COW OR flag f PAGE_EXEC HAL_PAGE_EXEC"

definition hal_flags_to_vmm :: "u32 \<Rightarrow> u32" where
  "hal_flags_to_vmm f =
     flag f HAL_PAGE_PRESENT PAGE_PRESENT OR flag f HAL_PAGE_WRITE PAGE_WRITE
     OR flag f HAL_PAGE_USER PAGE_USER OR flag f HAL_PAGE_NOCACHE PAGE_CACHE_DISABLE
     OR flag f HAL_PAGE_COW PAGE_COW"

definition vmm_map_page :: "u32 \<Rightarrow> u32 \<Rightarrow> u32 \<Rightarrow> mm_state \<Rightarrow> bool \<times> mm_state" where
  "vmm_map_page virt phys flags s =
     (if (virt OR phys) AND 0xFFF \<noteq> 0 then (False, s)
      else case hal_mmu_map s 0 virt (ucast phys) (vmm_flags_to_hal flags) of
             (False, s1) \<Rightarrow> (False, s1)
           | (True, s1) \<Rightarrow>
               let pd = i686_pde_index virt;
                   entry = read_entry s1 (dir_pfn (current_dir_phys s1)) pd
               in if KERNEL_VIRTUAL_BASE \<le> virt \<and> boot_dir_phys s1 \<noteq> current_dir_phys s1
                     \<and> pgtable_is_present entry
                  then (True, write_entry (dir_pfn (boot_dir_phys s1)) pd entry s1)
                  else (True, s1))"

definition vmm_unmap_page :: "u32 \<Rightarrow> mm_state \<Rightarrow> mm_state" where
  "vmm_unmap_page virt s = (if virt AND 0xFFF \<noteq> 0 then s else snd (hal_mmu_unmap s 0 virt))"

definition space_of :: "u32 \<Rightarrow> mm_state \<Rightarrow> paddr" where
  "space_of dir_phys s = (if dir_phys = current_dir_phys s then 0 else ucast dir_phys)"

definition vmm_map_page_in_directory ::
    "u32 \<Rightarrow> u32 \<Rightarrow> u32 \<Rightarrow> u32 \<Rightarrow> mm_state \<Rightarrow> bool \<times> mm_state" where
  "vmm_map_page_in_directory dir_phys virt phys flags s =
     (if (virt OR phys) AND 0xFFF \<noteq> 0 then (False, s)
      else hal_mmu_map s (space_of dir_phys s) virt (ucast phys) (vmm_flags_to_hal flags))"

definition vmm_unmap_page_in_directory :: "u32 \<Rightarrow> u32 \<Rightarrow> mm_state \<Rightarrow> u32 \<times> mm_state" where
  "vmm_unmap_page_in_directory dir_phys virt s =
     (if virt AND 0xFFF \<noteq> 0 then (0, s)
      else case hal_mmu_query s (space_of dir_phys s) virt of
             None \<Rightarrow> (0, s)
           | Some (old_phys, _) \<Rightarrow>
               (ucast old_phys, snd (hal_mmu_unmap s (space_of dir_phys s) virt)))"

definition vmm_virt_to_phys :: "u32 \<Rightarrow> mm_state \<Rightarrow> u32" where
  "vmm_virt_to_phys virt s =
     (case hal_mmu_query s 0 virt of None \<Rightarrow> 0 | Some (phys, _) \<Rightarrow> ucast phys OR (virt AND 0xFFF))"

definition vmm_switch_page_directory :: "u32 \<Rightarrow> mm_state \<Rightarrow> mm_state" where
  "vmm_switch_page_directory dir_phys s =
     (if dir_phys = 0 then s else s\<lparr>current_dir_phys := dir_phys, cr3 := dir_phys\<rparr>)"

definition vmm_sync_current_dir :: "u32 \<Rightarrow> mm_state \<Rightarrow> mm_state" where
  "vmm_sync_current_dir dir_phys s = (if dir_phys = 0 then s else s\<lparr>current_dir_phys := dir_phys\<rparr>)"

definition vmm_handle_kernel_page_fault :: "u32 \<Rightarrow> mm_state \<Rightarrow> bool \<times> mm_state" where
  "vmm_handle_kernel_page_fault addr s =
     (if addr < KERNEL_VIRTUAL_BASE then (False, s)
      else let pd = unat (drop_bit 22 addr); entry = read_entry s (dir_pfn (boot_dir_phys s)) pd in
        if entry AND PAGE_PRESENT \<noteq> 0
        then (True, write_entry (dir_pfn (current_dir_phys s)) pd entry s)
        else (False, s))"

section \<open>Device memory\<close>

text \<open>\<^verbatim>\<open>vmm_map_mmio\<close> and \<^verbatim>\<open>vmm_map_framebuffer\<close> differ only in the page attributes they ask for.\<close>

definition map_device :: "u32 \<Rightarrow> u32 \<Rightarrow> u32 \<Rightarrow> mm_state \<Rightarrow> u32 \<times> mm_state" where
  "map_device hal_flags phys_addr sz s =
     (if sz = 0 then (0, s)
      else let phys_start = phys_addr AND 0xFFFFF000; phys_end = PAGE_ALIGN_UP (phys_addr + sz);
               num_pages = (phys_end - phys_start) div 4096; virt_start = mmio_next_virt s
        in if MMIO_VIRT_END < virt_start + num_pages * 4096 then (0, s)
           else case step_loop (map_step 0 virt_start (ucast phys_start) hal_flags)
                       (unmap_step 0 virt_start) 0 (unat num_pages) s of
                  (False, s1) \<Rightarrow> (0, s1)
                | (True, s1) \<Rightarrow>
                    (virt_start + (phys_addr - phys_start),
                     s1\<lparr>mmio_next_virt := virt_start + num_pages * 4096\<rparr>))"

definition vmm_map_mmio :: "u32 \<Rightarrow> u32 \<Rightarrow> mm_state \<Rightarrow> u32 \<times> mm_state" where
  "vmm_map_mmio phys_addr sz s =
     map_device (HAL_PAGE_PRESENT OR HAL_PAGE_WRITE OR HAL_PAGE_NOCACHE) phys_addr sz s"

definition vmm_map_framebuffer :: "u32 \<Rightarrow> u32 \<Rightarrow> mm_state \<Rightarrow> u32 \<times> mm_state" where
  "vmm_map_framebuffer phys_addr sz s =
     map_device (if pat_initialized s then HAL_PAGE_PRESENT OR HAL_PAGE_WRITE OR HAL_PAGE_WRITECOMB
                 else HAL_PAGE_PRESENT OR HAL_PAGE_WRITE OR HAL_PAGE_NOCACHE) phys_addr sz s"

definition vmm_unmap_mmio :: "u32 \<Rightarrow> u32 \<Rightarrow> mm_state \<Rightarrow> mm_state" where
  "vmm_unmap_mmio virt_addr sz s =
     (if sz = 0 \<or> virt_addr < MMIO_VIRT_BASE \<or> MMIO_VIRT_END \<le> virt_addr then s
      else let virt_start = virt_addr AND 0xFFFFF000; virt_end = PAGE_ALIGN_UP (virt_addr + sz)
           in undo_loop (unmap_step 0 virt_start) (unat virt_end div 4096 - unat virt_start div 4096) s)"

section \<open>Directories\<close>

definition vmm_create_page_directory :: "mm_state \<Rightarrow> u32 \<times> mm_state" where
  "vmm_create_page_directory s =
     (case hal_mmu_create_space s of (new_space, s1) \<Rightarrow>
        if new_space = PADDR_INVALID then (0, s1)
        else let s2 = protect_directory_range (PADDR_TO_PFN new_space) 512 1024 s1
             in (ucast new_space, register_page_directory (ucast new_space) s2))"

text \<open>One page-table entry of the clone: a writable page becomes read-only and copy-on-write in
  both spaces, and the frame gets one more reference.\<close>

definition cow_flags :: "u32 \<Rightarrow> u32" where
  "cow_flags flags = (if flags AND PAGE_WRITE \<noteq> 0 then (flags AND NOT PAGE_WRITE) OR PAGE_COW else flags)"

definition clone_pte :: "pfn \<Rightarrow> pfn \<Rightarrow> nat \<Rightarrow> mm_state \<Rightarrow> mm_state" where
  "clone_pte src_table new_table j s =
     (let pte = read_entry s src_table j in
        if pgtable_is_present pte
        then let src_frame = pgtable_get_phys pte; flags = pte AND 0xFFF;
                 entry = ucast src_frame OR cow_flags flags;
                 s1 = (if flags AND PAGE_WRITE \<noteq> 0 then write_entry src_table j entry s else s);
                 s2 = write_entry new_table j entry s1
             in on_pmm (\<lambda>p. snd (pmm_frame_ref_inc src_frame p)) s2
        else write_entry new_table j 0 s)"

text \<open>The loop over the 512 user entries; \<open>False\<close> is \<^verbatim>\<open>clone_failed\<close>.\<close>

fun clone_pdes :: "pfn \<Rightarrow> pfn \<Rightarrow> nat list \<Rightarrow> mm_state \<Rightarrow> bool \<times> mm_state" where
  "clone_pdes src_dir new_dir [] s = (True, s)"
| "clone_pdes src_dir new_dir (i # is) s =
     (let pde = read_entry s src_dir i in
        if \<not> pgtable_is_present pde then clone_pdes src_dir new_dir is s
        else let src_table_phys = pgtable_get_phys pde in
          if 0x80000000 \<le> src_table_phys \<or> src_table_phys = 0 then (False, s)
          else case pmm_alloc_frame (mm_pmm s) of (new_table_phys, p) \<Rightarrow>
            if new_table_phys = PADDR_INVALID then (False, s\<lparr>mm_pmm := p\<rparr>)
            else let new_table = PADDR_TO_PFN new_table_phys;
                     s1 = fold (clone_pte (PADDR_TO_PFN src_table_phys) new_table) [0..<1024]
                            (s\<lparr>mm_pmm := p\<rparr>);
                     s2 = write_entry new_dir i
                            (ucast new_table_phys OR (read_entry s1 src_dir i AND 0xFFF)) s1
                 in clone_pdes src_dir new_dir is (protect_phys_frame new_table_phys s2))"

section \<open>Releasing a directory\<close>

text \<open>The task pool, reduced to what \<^verbatim>\<open>is_page_directory_in_use\<close> reads.\<close>

definition is_page_directory_in_use :: "(task_state \<times> u32) list \<Rightarrow> u32 \<Rightarrow> bool" where
  "is_page_directory_in_use tasks dir_phys \<longleftrightarrow>
     (\<exists>(st, pd) \<in> set tasks. st \<noteq> TASK_UNUSED \<and> st \<noteq> TASK_ZOMBIE \<and> st \<noteq> TASK_TERMINATED
        \<and> pd = dir_phys)"

definition free_pte :: "pfn \<Rightarrow> nat \<Rightarrow> mm_state \<Rightarrow> mm_state" where
  "free_pte table j s =
     (let pte = read_entry s table j in
        if pgtable_is_present pte
        then let frame = pgtable_get_phys pte in
          if frame = 0 \<or> 0x80000000 \<le> frame then s else on_pmm (pmm_free_frame frame) s
        else s)"

definition free_pde :: "pfn \<Rightarrow> nat \<Rightarrow> mm_state \<Rightarrow> mm_state" where
  "free_pde dir i s =
     (let pde = read_entry s dir i in
        if pgtable_is_present pde
        then let table_phys = pgtable_get_phys pde in
          if table_phys = 0 then write_entry dir i 0 s
          else let s1 = fold (free_pte (PADDR_TO_PFN table_phys)) [0..<1024] s;
                   s2 = on_pmm (pmm_free_frame table_phys) (unprotect_phys_frame table_phys s1)
               in write_entry dir i 0 s2
        else s)"

definition vmm_free_page_directory :: "(task_state \<times> u32) list \<Rightarrow> u32 \<Rightarrow> mm_state \<Rightarrow> mm_state" where
  "vmm_free_page_directory tasks dir_phys s =
     (if dir_phys = 0 \<or> dir_phys = current_dir_phys s \<or> dir_phys = boot_dir_phys s
         \<or> is_page_directory_in_use tasks dir_phys then s
      else let dir = dir_pfn dir_phys;
               s1 = fold (free_pde dir) [0..<512] s;
               s2 = release_directory_range dir 512 1024 True s1;
               s3 = (if is_active_page_directory s2 dir_phys
                     then unregister_page_directory dir_phys s2 else s2)
           in on_pmm (pmm_free_frame (ucast dir_phys)) s3)"

definition vmm_clone_page_directory :: "(task_state \<times> u32) list \<Rightarrow> u32 \<Rightarrow> mm_state \<Rightarrow> u32 \<times> mm_state" where
  "vmm_clone_page_directory tasks src_dir_phys s =
     (if src_dir_phys = 0 \<or> 0x80000000 \<le> src_dir_phys then (0, s)
      else case pmm_alloc_frame (mm_pmm s) of (new_dir_phys, p) \<Rightarrow>
        if new_dir_phys = PADDR_INVALID then (0, s\<lparr>mm_pmm := p\<rparr>)
        else if new_dir_phys = ucast src_dir_phys
        then (0, s\<lparr>mm_pmm := pmm_free_frame new_dir_phys p\<rparr>)
        else let src_dir = dir_pfn src_dir_phys; new_dir = PADDR_TO_PFN new_dir_phys;
                 s1 = s\<lparr>mm_pmm := zero_frames new_dir 1 p\<rparr>;
                 s2 = fold (\<lambda>i t. write_entry new_dir i (read_entry t src_dir i) t) [512..<1024] s1;
                 s3 = protect_directory_range new_dir 512 1024 s2
             in case clone_pdes src_dir new_dir [0..<512] s3 of
                  (False, s4) \<Rightarrow> (0, vmm_free_page_directory tasks (ucast new_dir_phys) s4)
                | (True, s4) \<Rightarrow> (ucast new_dir_phys, register_page_directory (ucast new_dir_phys) s4))"

definition vmm_cleanup_empty_page_tables :: "u32 \<Rightarrow> u32 \<Rightarrow> u32 \<Rightarrow> mm_state \<Rightarrow> mm_state" where
  "vmm_cleanup_empty_page_tables dir_phys start_virt end_virt s =
     (if dir_phys = 0 \<or> end_virt \<le> start_virt then s
      else if KERNEL_VIRTUAL_BASE \<le> start_virt \<or> KERNEL_VIRTUAL_BASE < end_virt then s
      else let dir = dir_pfn dir_phys in
        fold (\<lambda>pd t. let pde = read_entry t dir pd in
                if \<not> pgtable_is_present pde then t
                else if \<forall>pt \<in> set [0..<1024].
                          \<not> pgtable_is_present (read_entry t (entry_pfn pde) pt)
                then on_pmm (pmm_free_frame (pgtable_get_phys pde)) (write_entry dir pd 0 t)
                else t)
          [i686_pde_index start_virt..<Suc (i686_pde_index (end_virt - 1))] s)"

section \<open>Copy-on-write faults\<close>

text \<open>\<^verbatim>\<open>memcpy\<close> of one page between two frames.\<close>

definition copy_frame :: "pfn \<Rightarrow> pfn \<Rightarrow> mm_state \<Rightarrow> mm_state" where
  "copy_frame dst src s =
     on_pmm (\<lambda>p. p\<lparr>phys_mem := (phys_mem p)(dst := phys_mem p src)\<rparr>) s"

definition vmm_handle_cow_page_fault :: "u32 \<Rightarrow> u32 \<Rightarrow> mm_state \<Rightarrow> bool \<times> mm_state" where
  "vmm_handle_cow_page_fault addr error_code s =
     (if error_code AND 0x3 \<noteq> 0x3 then (False, s)
      else case hal_mmu_query s 0 addr of
        None \<Rightarrow> (False, s)
      | Some (old_frame, hal_flags) \<Rightarrow>
          if hal_flags AND HAL_PAGE_COW = 0 then (False, s)
          else if old_frame = PADDR_INVALID \<or> old_frame = 0 then (False, s)
          else let refcount = pmm_frame_get_refcount old_frame (mm_pmm s) in
            if refcount = 0 \<or> refcount = 1
            then (True, snd (hal_mmu_protect s 0 addr HAL_PAGE_WRITE HAL_PAGE_COW))
            else case pmm_alloc_frame (mm_pmm s) of (new_frame, p) \<Rightarrow>
              if new_frame = PADDR_INVALID then (False, s\<lparr>mm_pmm := p\<rparr>)
              else let s1 = copy_frame (PADDR_TO_PFN new_frame) (PADDR_TO_PFN old_frame) (s\<lparr>mm_pmm := p\<rparr>);
                       new_flags = (hal_flags AND NOT HAL_PAGE_COW) OR HAL_PAGE_WRITE;
                       page_addr = addr AND NOT 0xFFF;
                       s2 = snd (hal_mmu_unmap s1 0 page_addr);
                       s3 = snd (hal_mmu_map s2 0 page_addr new_frame new_flags)
                   in (True, on_pmm (\<lambda>q. snd (pmm_frame_ref_dec old_frame q)) s3))"

section \<open>The copy-on-write fault handler\<close>

lemma unat_get_frame: "unat (i686_get_frame e) = unat e div 4096 * 4096"
proof -
  have m: "(0xFFFFF000 :: u32) = NOT (mask 12)" by (simp add: mask_eq_exp_minus_1)
  have "i686_get_frame e = push_bit 12 (drop_bit 12 e)"
    unfolding i686_get_frame_def m by (rule bit_word_eqI) (auto simp: bit_simps)
  also have "unat \<dots> = unat e div 4096 * 4096 mod 4294967296"
    by (simp add: push_bit_eq_mult drop_bit_eq_div unat_word_ariths unat_div mod_mult_left_eq)
  also have "\<dots> = unat e div 4096 * 4096"
    by (rule mod_less) (metis div_times_less_eq_dividend le_less_trans unat_lt_u32)
  finally show ?thesis .
qed

lemma not_fff: "a AND NOT 0xFFF = i686_get_frame a"
proof -
  have m: "(0xFFFFF000 :: u32) = NOT (mask 12)" "(0xFFF :: u32) = mask 12"
    by (simp_all add: mask_eq_exp_minus_1)
  show ?thesis unfolding i686_get_frame_def m ..
qed

text \<open>A frame read from an entry is page aligned and below 4 GB.\<close>

lemma entry_phys:
  "IS_PADDR_ALIGNED (ucast (i686_get_frame e))" "PADDR_TO_PFN (ucast (i686_get_frame e)) = entry_pfn e"
  "(ucast (i686_get_frame e) :: paddr) \<noteq> PADDR_INVALID"
proof -
  have u: "unat (ucast (i686_get_frame e) :: paddr) = unat (i686_get_frame e)"
    by (rule unat_ucast_up)
  show al: "IS_PADDR_ALIGNED (ucast (i686_get_frame e))"
    by (simp add: aligned_unat u unat_get_frame)
  show "PADDR_TO_PFN (ucast (i686_get_frame e)) = entry_pfn e"
    by (simp add: PADDR_TO_PFN_div u entry_pfn_def)
  show "(ucast (i686_get_frame e) :: paddr) \<noteq> PADDR_INVALID"
    using al PADDR_INVALID_unaligned by metis
qed

text \<open>The flags of the page after either branch of the handler.\<close>

lemma and_D:
  "(x :: u32) AND 0xD = (if bit x 0 then 1 else 0) OR (if bit x 2 then 4 else 0) OR (if bit x 3 then 8 else 0)"
proof -
  have "x AND 0xD = (x AND 0x1) OR (x AND 0x4) OR (x AND 0x8)" by (simp flip: bit.conj_disj_distrib)
  then show ?thesis using and_flag [of x 0] and_flag [of x 2] and_flag [of x 3] by simp
qed

lemma cow_flags_cleared:
  fixes fl :: u32
  defines "y \<equiv> (fl AND NOT HAL_PAGE_COW) OR HAL_PAGE_WRITE"
  shows "y AND 0x2F AND HAL_PAGE_WRITE \<noteq> 0" "y AND 0x2F AND HAL_PAGE_COW = 0"
    "y AND 0x2F AND 0xD = fl AND 0xD"
  by (simp_all add: and.assoc flag_bits and_D bit_or_iff bit_and_iff bit_not_iff y_def)

lemma get_refcount_entry:
  assumes "entry_pfn e \<in> used_set p" "i686_get_frame e \<noteq> 0"
  shows "pmm_frame_get_refcount (ucast (i686_get_frame e)) p = ucast (frame_refcount p ! entry_pfn e)"
  using assms entry_phys [of e]
  by (simp add: pmm_frame_get_refcount_def Let_def used_set_def)

lemma ref_dec_entry:
  assumes "entry_pfn e \<in> used_set p" "i686_get_frame e \<noteq> 0" "frame_refcount p ! entry_pfn e \<noteq> 0"
  shows "snd (pmm_frame_ref_dec (ucast (i686_get_frame e)) p)
    = set_refcount (entry_pfn e) (frame_refcount p ! entry_pfn e - 1) p"
  using assms entry_phys [of e]
  by (simp add: pmm_frame_ref_dec_def Let_def used_set_def)

lemma small_refcount: "(ucast (c :: u16) :: u32) = 0 \<longleftrightarrow> c = 0" "(ucast c :: u32) = 1 \<longleftrightarrow> c = 1"
proof -
  have u: "unat (ucast c :: u32) = unat c"
  proof -
    have "unat c < 2 ^ 32" by (rule less_trans [OF unsigned_less [of c, where ?'a = nat]]) simp
    then have "take_bit 32 (unat c) = unat c" by (rule take_bit_nat_eq_self)
    then show ?thesis by (simp add: unsigned_ucast_eq)
  qed
  show "(ucast c :: u32) = 0 \<longleftrightarrow> c = 0" "(ucast c :: u32) = 1 \<longleftrightarrow> c = 1"
    unfolding word_unat_eq_iff u by simp_all
qed

text \<open>The branch for a page that is not shared any more: only its flags change.\<close>

lemma cow_fault_sole_owner:
  assumes ok: "space_ok 0 s" and d: "d = get_page_directory s 0"
    and pte: "lookup s d addr = Some pte" and cow: "i686_flags_to_hal (pte AND 0xFFF) AND HAL_PAGE_COW \<noteq> 0"
    and pr: "hal_mmu_protect s 0 addr HAL_PAGE_WRITE HAL_PAGE_COW = (b, s')"
  shows "space_ok 0 s' \<and> mm_pmm s' = (mm_pmm s)\<lparr>phys_mem := phys_mem (mm_pmm s')\<rparr> \<and> only_tables_changed s d s'
    \<and> (\<forall>w. unat w div 4096 \<noteq> unat addr div 4096 \<longrightarrow> hal_mmu_query s' 0 w = hal_mmu_query s 0 w)
    \<and> (\<exists>fl'. hal_mmu_query s' 0 addr = Some (ucast (i686_get_frame pte), fl')
         \<and> fl' AND HAL_PAGE_WRITE \<noteq> 0 \<and> fl' AND HAL_PAGE_COW = 0
         \<and> fl' AND 0xD = i686_flags_to_hal (pte AND 0xFFF) AND 0xD)"
proof -
  define f where "f = ((pte AND 0xFFF) OR hal_flags_to_i686 HAL_PAGE_WRITE) AND NOT (hal_flags_to_i686 HAL_PAGE_COW)"
  have c: "hal_flags_to_i686 HAL_PAGE_WRITE = 0x2" "hal_flags_to_i686 HAL_PAGE_COW = 0x200"
    by (simp_all add: hal_flags_to_i686_def flag_def)
  have b: "bit (0x2 :: u32) n \<longleftrightarrow> n = 1" "bit (0x200 :: u32) n \<longleftrightarrow> n = 9" for n
    using bit_exp_iff [where 'a = "32 word", of 1 n] bit_exp_iff [where 'a = "32 word", of 9 n] by auto
  have fb: "bit f n \<longleftrightarrow> (n < 12 \<and> bit pte n \<or> n = 1) \<and> n \<noteq> 9" for n
    unfolding f_def c bit_and_iff bit_or_iff bit_not_iff low12 bit_take_bit_iff b
    by (auto dest: bit_imp_le_length)
  have pres: "i686_is_present pte" using pte by (auto simp: lookup_def Let_def split: if_splits)
  then have fp: "i686_is_present f" by (simp add: present_bit fb)
  have low: "take_bit 12 f = f" by (rule bit_word_eqI) (auto simp: bit_take_bit_iff fb)
  note law = hal_mmu_protect_law [OF ok d pte pr, folded f_def, OF fp]
  note parts = entry_parts [OF get_frame_low low, of pte]
  have q: "hal_mmu_query s' 0 w = (if unat w div 4096 = unat addr div 4096
      then Some (ucast (i686_get_frame pte), i686_flags_to_hal f) else hal_mmu_query s 0 w)" for w
    using law d unfolding hal_mmu_query_lookup by (simp add: parts)
  have "i686_flags_to_hal f AND HAL_PAGE_WRITE \<noteq> 0" "i686_flags_to_hal f AND HAL_PAGE_COW = 0"
    by (simp_all add: flag_bits i686_to_hal_bits fb)
  moreover have "i686_flags_to_hal f AND 0xD = i686_flags_to_hal (pte AND 0xFFF) AND 0xD"
    unfolding and_D by (simp add: i686_to_hal_bits fb low12 bit_take_bit_iff)
  ultimately show ?thesis using law q by simp
qed

text \<open>The branch for a shared page: copy, remap, drop one reference.\<close>

lemma cow_fault_copy:
  assumes ok: "space_ok 0 s" and d: "d = get_page_directory s 0" and pte: "lookup s d addr = Some pte"
    and old: "entry_pfn pte \<in> used_set (mm_pmm s)" "entry_pfn pte \<noteq> d" "entry_pfn pte \<notin> tables s d"
    and alloc: "pmm_alloc_frame (mm_pmm s) = (new, p)" "new \<noteq> PADDR_INVALID"
    and fl: "fl AND HAL_PAGE_PRESENT \<noteq> 0"
    and s1: "s1 = copy_frame (PADDR_TO_PFN new) (entry_pfn pte) (s\<lparr>mm_pmm := p\<rparr>)"
    and s2: "s2 = snd (hal_mmu_unmap s1 0 (addr AND NOT 0xFFF))"
    and s3: "s3 = snd (hal_mmu_map s2 0 (addr AND NOT 0xFFF) new fl)"
  shows "space_ok 0 s3 \<and> get_page_directory s3 0 = d
    \<and> PADDR_TO_PFN new \<in> free_set (mm_pmm s) \<and> PADDR_TO_PFN new \<in> used_set (mm_pmm s3)
    \<and> entry_pfn pte \<in> used_set (mm_pmm s3)
    \<and> phys_mem (mm_pmm s3) (PADDR_TO_PFN new) = phys_mem (mm_pmm s) (entry_pfn pte)
    \<and> phys_mem (mm_pmm s3) (entry_pfn pte) = phys_mem (mm_pmm s) (entry_pfn pte)
    \<and> frame_refcount (mm_pmm s3) ! PADDR_TO_PFN new = 1
    \<and> frame_refcount (mm_pmm s3) ! entry_pfn pte = frame_refcount (mm_pmm s) ! entry_pfn pte
    \<and> (\<forall>w. hal_mmu_query s3 0 w = (if unat w div 4096 = unat addr div 4096 then Some (new, fl AND 0x2F)
                                     else hal_mmu_query s 0 w))"
proof -
  have inv: "pmm_inv (mm_pmm s)" using ok by (simp add: space_ok_def)
  from alloc_table [OF inv alloc] obtain t where t: "new = PFN_TO_PADDR t" "t \<in> free_set (mm_pmm s)"
    "t < 524288" "pmm_inv p" "used_set p = insert t (used_set (mm_pmm s))"
    "\<And>f. phys_mem p f = (if f = t then (\<lambda>_. 0) else phys_mem (mm_pmm s) f)"
    "total_frames p = total_frames (mm_pmm s)" "frame_refcount p = (frame_refcount (mm_pmm s))[t := 1]"
    by metis
  have pn: "PADDR_TO_PFN new = t" using t(1,3) by simp
  have tu: "t \<notin> used_set (mm_pmm s)" using t(2) by (auto simp: free_set_def used_set_def)
  have wf: "space_wf s d" using ok d by (simp add: space_ok_def)
  have td: "t \<noteq> d" "t \<notin> tables s d" "t \<noteq> entry_pfn pte"
    using tu wf old(1) by (auto simp: space_wf_def tables_def)
  have len: "t < length (frame_refcount (mm_pmm s))"
    using t(2) inv by (auto simp: free_set_def pmm_inv_def bitmap_wf_def)
  have m1: "phys_mem (mm_pmm s1) f = (if f = t then phys_mem (mm_pmm s) (entry_pfn pte) else phys_mem (mm_pmm s) f)" for f
    using td(3) by (simp add: s1 copy_frame_def on_pmm_def pn t(6))
  have p1: "pmm_inv (mm_pmm s1)" "used_set (mm_pmm s1) = insert t (used_set (mm_pmm s))"
    "frame_refcount (mm_pmm s1) = (frame_refcount (mm_pmm s))[t := 1]" "cr3 s1 = cr3 s"
    using t(4,5,8) by (simp_all add: s1 copy_frame_def on_pmm_def)
  have "phys_mem (mm_pmm s1) f = phys_mem (mm_pmm s) f" if "f = d \<or> f \<in> tables s d" for f
    using that td m1 by auto
  note sp1 = space_ok_frame [OF ok p1(1,4) _ this d, unfolded p1(2), OF subset_insertI]
  define v where "v = addr AND NOT 0xFFF"
  have va: "take_bit 12 v = 0" "unat v div 4096 = unat addr div 4096"
    unfolding v_def not_fff by (rule get_frame_low) (simp add: unat_get_frame)
  obtain r2 where un: "hal_mmu_unmap s1 0 v = (r2, s2)" using s2 [folded v_def] by (cases "hal_mmu_unmap s1 0 v") simp
  note law2 = hal_mmu_unmap_law [OF sp1(1) va(1) sp1(4) [symmetric] un]
  have tab2: "tables s2 d = tables s d" using law2 sp1(3) by (simp add: tables_def)
  have p2: "used_set (mm_pmm s2) = insert t (used_set (mm_pmm s))"
    "frame_refcount (mm_pmm s2) = (frame_refcount (mm_pmm s))[t := 1]"
    using law2 p1(2,3) by (metis used_set_phys_mem) (metis law2 p1(3) pmm_state.ext_inject pmm_state.surjective pmm_state.update_convs(10))
  have m2: "phys_mem (mm_pmm s2) f = phys_mem (mm_pmm s1) f" if "f \<in> insert t (used_set (mm_pmm s))" "f \<noteq> d" "f \<notin> tables s d" for f
    using law2 that p1(2) sp1(3) by (auto simp: only_tables_changed_def)
  obtain b where map: "hal_mmu_map s2 0 v new fl = (b, s3)" using s3 [folded v_def] by (cases "hal_mmu_map s2 0 v new fl") simp
  have ok2: "space_ok 0 s2" and gd2: "get_page_directory s2 0 = d" using law2 by auto
  have newlow: "unat new = t * 4096" "unat new < 4294967296"
    using t(1,3) unat_PFN_TO_PADDR [of t] by auto
  then have nl: "take_bit 12 (ucast new :: u32) = 0" using unat_ucast_low [of new] by (simp add: take12_unat)
  have al: "(v OR ucast new) AND 0xFFF = 0" using va(1) nl aligned_or by blast
  have "i686_is_present (read_entry s d (i686_pde_index addr))"
    using pte by (auto simp: lookup_def Let_def split: if_splits)
  then have pde: "i686_is_present (read_entry s2 d (i686_pde_index v))"
    using law2 m1 td same_page_iff [of v addr] va(2) by (simp add: read_entry_def)
  have i2: "pmm_inv (mm_pmm s2)" "space_wf s2 (get_page_directory s2 0)"
    using ok2 by (simp_all add: space_ok_def)
  have "fst (hal_mmu_map s2 0 v new fl)"
    using hal_mmu_map_cases [OF i2 al gd2 [symmetric], of fl] by (elim disjE conjE exE) (simp_all add: pde)
  then have b: "b" by (simp add: map)
  note law3 = hal_mmu_map_law [OF ok2 map gd2 [symmetric]]
  have keep3: "phys_mem (mm_pmm s3) f = phys_mem (mm_pmm s1) f"
    "frame_refcount (mm_pmm s3) ! f = frame_refcount (mm_pmm s1) ! f" "f \<in> used_set (mm_pmm s3)"
    if "f \<in> insert t (used_set (mm_pmm s))" "f \<noteq> d" "f \<notin> tables s d" for f
    using law3 that p2 m2 [OF that] p1(3) tab2 by (auto simp: only_tables_changed_def)
  have "hal_mmu_query s3 0 w = (if unat w div 4096 = unat addr div 4096 then Some (new, fl AND 0x2F)
      else hal_mmu_query s 0 w)" for w
    using law3 law2 b fl va(2) sp1(2) query_map_entry [OF nl newlow(2), of fl] gd2 d
    unfolding hal_mmu_query_lookup by (simp add: gd2)
  with law3 keep3 [of t] keep3 [of "entry_pfn pte"] old td m1 p1(3) len t(2) pn show ?thesis
    by simp
qed

lemma space_ok_set_refcount:
  assumes ok: "space_ok 0 s" and i: "i \<in> used_set (mm_pmm s)" and c: "c \<noteq> 0"
  shows "space_ok 0 (on_pmm (set_refcount i c) s)
    \<and> hal_mmu_query (on_pmm (set_refcount i c) s) 0 w = hal_mmu_query s 0 w"
proof -
  let ?s = "on_pmm (set_refcount i c) s"
  have inv: "pmm_inv (mm_pmm ?s)" using ok set_refcount_inv [OF _ i c] by (simp add: on_pmm_def space_ok_def)
  have sel: "used_set (mm_pmm ?s) = used_set (mm_pmm s)" "cr3 ?s = cr3 s"
    "phys_mem (mm_pmm ?s) = phys_mem (mm_pmm s)"
    by (simp_all add: on_pmm_def used_set_def)
  have sub: "used_set (mm_pmm s) \<subseteq> used_set (mm_pmm ?s)" by (simp add: sel)
  note frame = space_ok_frame [OF ok inv sel(2) sub _ refl]
  have "space_ok 0 ?s" by (rule frame(1)) (simp add: sel)
  moreover have "lookup ?s (get_page_directory s 0) w = lookup s (get_page_directory s 0) w"
    by (rule frame(2)) (simp add: sel)
  moreover have "get_page_directory ?s 0 = get_page_directory s 0" by (rule frame(4)) (simp add: sel)
  ultimately show ?thesis unfolding hal_mmu_query_lookup by simp
qed

text \<open>
  C3: a write fault on a copy-on-write page of the running space is resolved by giving the writer a
  private page.  When the handler reports success, the page is mapped writable, without the
  copy-on-write mark and otherwise with the same rights, to a frame with the same contents that has
  exactly one reference; all other pages of the space are mapped as before.  If the frame was shared,
  the page now uses a frame that was free, and the old frame keeps its contents and loses one
  reference.  The handler fails only when no frame is free, and then it has changed nothing.
\<close>

theorem vmm_handle_cow_page_fault_correct:
  assumes ok: "space_ok 0 s" and err: "error_code AND 0x3 = 0x3"
    and q: "hal_mmu_query s 0 addr = Some (old, fl)" and cow: "fl AND HAL_PAGE_COW \<noteq> 0"
    and nz: "old \<noteq> 0" and used: "PADDR_TO_PFN old \<in> used_set (mm_pmm s)"
    and data: "PADDR_TO_PFN old \<noteq> get_page_directory s 0" "PADDR_TO_PFN old \<notin> tables s (get_page_directory s 0)"
    and r: "vmm_handle_cow_page_fault addr error_code s = (b, s')"
  shows "if b then \<exists>new fl'. hal_mmu_query s' 0 addr = Some (new, fl')
        \<and> fl' AND HAL_PAGE_WRITE \<noteq> 0 \<and> fl' AND HAL_PAGE_COW = 0 \<and> fl' AND 0xD = fl AND 0xD
        \<and> phys_mem (mm_pmm s') (PADDR_TO_PFN new) = phys_mem (mm_pmm s) (PADDR_TO_PFN old)
        \<and> frame_refcount (mm_pmm s') ! PADDR_TO_PFN new = 1
        \<and> (\<forall>w. unat w div 4096 \<noteq> unat addr div 4096 \<longrightarrow> hal_mmu_query s' 0 w = hal_mmu_query s 0 w)
        \<and> space_ok 0 s'
        \<and> (if frame_refcount (mm_pmm s) ! PADDR_TO_PFN old = 1 then new = old
           else PADDR_TO_PFN new \<in> free_set (mm_pmm s)
                \<and> phys_mem (mm_pmm s') (PADDR_TO_PFN old) = phys_mem (mm_pmm s) (PADDR_TO_PFN old)
                \<and> frame_refcount (mm_pmm s') ! PADDR_TO_PFN old = frame_refcount (mm_pmm s) ! PADDR_TO_PFN old - 1)
      else free_set (mm_pmm s) = {} \<and> s' = s"
proof -
  define d where "d = get_page_directory s 0"
  obtain pte where pte: "lookup s d addr = Some pte" and old: "old = ucast (i686_get_frame pte)"
    and fl: "fl = i686_flags_to_hal (pte AND 0xFFF)"
    using q unfolding hal_mmu_query_lookup d_def by auto
  let ?i = "entry_pfn pte"
  have pn: "PADDR_TO_PFN old = ?i" unfolding old by (rule entry_phys(2))
  have inv: "pmm_inv (mm_pmm s)" using ok by (simp add: space_ok_def)
  have rc0: "frame_refcount (mm_pmm s) ! ?i \<noteq> 0" using refcount_pos [OF inv] used pn by simp
  have grc: "pmm_frame_get_refcount old (mm_pmm s) = ucast (frame_refcount (mm_pmm s) ! ?i)"
    using get_refcount_entry [of pte "mm_pmm s"] used [unfolded pn] nz unfolding old by simp
  have inval: "old \<noteq> PADDR_INVALID" unfolding old by (rule entry_phys(3))
  show ?thesis
  proof (cases "frame_refcount (mm_pmm s) ! ?i = 1")
    case True
    then have h: "vmm_handle_cow_page_fault addr error_code s =
        (True, snd (hal_mmu_protect s 0 addr HAL_PAGE_WRITE HAL_PAGE_COW))"
      using err q cow nz inval by (simp add: vmm_handle_cow_page_fault_def grc small_refcount)
    then obtain b' where pr: "hal_mmu_protect s 0 addr HAL_PAGE_WRITE HAL_PAGE_COW = (b', s')"
      using r by (cases "hal_mmu_protect s 0 addr HAL_PAGE_WRITE HAL_PAGE_COW") simp
    note sole = cow_fault_sole_owner [OF ok d_def pte _ pr, folded fl old, OF cow]
    have "phys_mem (mm_pmm s') ?i = phys_mem (mm_pmm s) ?i"
      using sole used data by (simp add: only_tables_changed_def pn flip: d_def)
    moreover have "frame_refcount (mm_pmm s') = frame_refcount (mm_pmm s)"
      using sole by (metis pmm_state.ext_inject pmm_state.surjective pmm_state.update_convs(10))
    ultimately show ?thesis using sole True h r pn by auto
  next
    case False
    obtain new p where alloc: "pmm_alloc_frame (mm_pmm s) = (new, p)" by (cases "pmm_alloc_frame (mm_pmm s)")
    show ?thesis
    proof (cases "new = PADDR_INVALID")
      case True
      then have "free_set (mm_pmm s) = {}" "p = mm_pmm s" using pmm_alloc_frame_fail [OF inv] alloc by auto
      moreover have "vmm_handle_cow_page_fault addr error_code s = (False, s\<lparr>mm_pmm := p\<rparr>)"
        using err q cow nz inval False rc0 alloc True
        by (simp add: vmm_handle_cow_page_fault_def grc small_refcount)
      ultimately show ?thesis using r by simp
    next
      case ok_new: False
      define nf where "nf = (fl AND NOT HAL_PAGE_COW) OR HAL_PAGE_WRITE"
      define s1 where "s1 = copy_frame (PADDR_TO_PFN new) ?i (s\<lparr>mm_pmm := p\<rparr>)"
      define s2 where "s2 = snd (hal_mmu_unmap s1 0 (addr AND NOT 0xFFF))"
      define s3 where "s3 = snd (hal_mmu_map s2 0 (addr AND NOT 0xFFF) new nf)"
      have h: "vmm_handle_cow_page_fault addr error_code s = (True, on_pmm (\<lambda>q. snd (pmm_frame_ref_dec old q)) s3)"
        unfolding vmm_handle_cow_page_fault_def s3_def s2_def s1_def nf_def pn [symmetric]
        using err q cow nz inval False rc0 alloc ok_new
        by (simp only: Let_def grc small_refcount if_False if_True simp_thms option.case prod.case)
      have "i686_is_present pte" using pte by (auto simp: lookup_def Let_def split: if_splits)
      then have "bit fl 0" by (simp add: fl present_bit i686_to_hal_bits low12 bit_take_bit_iff)
      then have nfp: "nf AND HAL_PAGE_PRESENT \<noteq> 0"
        by (simp add: nf_def flag_bits bit_or_iff bit_and_iff bit_not_iff)
      note copy = cow_fault_copy [OF ok d_def pte used [unfolded pn] data [unfolded pn, folded d_def]
          alloc ok_new nfp s1_def s2_def s3_def]
      let ?c = "frame_refcount (mm_pmm s3) ! ?i - 1"
      have c: "?c \<noteq> 0" using copy False by simp
      have s': "s' = on_pmm (set_refcount ?i ?c) s3"
        using h r ref_dec_entry [of pte "mm_pmm s3"] copy rc0 nz unfolding old by (simp add: on_pmm_def)
      have q': "space_ok 0 s'" "hal_mmu_query s' 0 w = hal_mmu_query s3 0 w" for w
        using space_ok_set_refcount [of s3 ?i ?c w] copy c by (simp_all add: s')
      have ne: "PADDR_TO_PFN new \<noteq> ?i" using copy used pn by (auto simp: free_set_def used_set_def)
      have len: "?i < length (frame_refcount (mm_pmm s3))"
        using copy by (auto simp: space_ok_def pmm_inv_def bitmap_wf_def used_set_def)
      have "\<exists>new fl'. hal_mmu_query s' 0 addr = Some (new, fl')
        \<and> fl' AND HAL_PAGE_WRITE \<noteq> 0 \<and> fl' AND HAL_PAGE_COW = 0 \<and> fl' AND 0xD = fl AND 0xD
        \<and> phys_mem (mm_pmm s') (PADDR_TO_PFN new) = phys_mem (mm_pmm s) ?i
        \<and> frame_refcount (mm_pmm s') ! PADDR_TO_PFN new = 1
        \<and> (\<forall>w. unat w div 4096 \<noteq> unat addr div 4096 \<longrightarrow> hal_mmu_query s' 0 w = hal_mmu_query s 0 w)
        \<and> space_ok 0 s' \<and> PADDR_TO_PFN new \<in> free_set (mm_pmm s)
        \<and> phys_mem (mm_pmm s') ?i = phys_mem (mm_pmm s) ?i
        \<and> frame_refcount (mm_pmm s') ! ?i = frame_refcount (mm_pmm s) ! ?i - 1"
        using copy q' ne len cow_flags_cleared [of fl, folded nf_def]
        by (intro exI [of _ new] exI [of _ "nf AND 0x2F"]) (simp add: s' on_pmm_def and.assoc)
      then show ?thesis using False h r pn by simp
    qed
  qed
qed

text \<open>A machine with eight frames: frame 3 is the page directory, frame 4 its only page table, frame
  5 a page with two references that is mapped copy-on-write at \<^verbatim>\<open>0x400000\<close>; frames 1 and 2 are free.\<close>

definition cow_sample :: mm_state where
  "cow_sample = \<lparr>mm_pmm =
     \<lparr>frame_bitmap = [0xFFFFFFF9], bitmap_size = 1, total_frames = 8,
      pmm_info = \<lparr>info_total_frames = 8, info_free_frames = 2, info_used_frames = 6,
                  info_reserved_frames = 0, info_kernel_frames = 0, info_bitmap_frames = 0\<rparr>,
      last_free_index = 0, protected_frames = [], frame_refcount = [1, 0, 0, 1, 1, 2, 1, 1],
      heap_reserved_phys_start = 0, heap_reserved_phys_end = 0,
      phys_mem = (\<lambda>f i. if f = 3 \<and> i = 1 then 0x4007 else if f = 4 \<and> i = 0 then 0x5205
                       else if f = 5 then 42 else 0)\<rparr>,
     cr3 = 0x3000, current_dir_phys = 0x3000, boot_dir_phys = 0x3000, active_page_directories = [],
     mmio_next_virt = 0xF0000000, pat_initialized = False\<rparr>"

lemma less_8: "i < (8 :: nat) \<longleftrightarrow> i = 0 \<or> i = 1 \<or> i = 2 \<or> i = 3 \<or> i = 4 \<or> i = 5 \<or> i = 6 \<or> i = 7"
  by auto

lemma cow_sample_sets:
  "free_set (mm_pmm cow_sample) = {1, 2}" "used_set (mm_pmm cow_sample) = {0, 3, 4, 5, 6, 7}"
proof -
  have t: "test_frame (mm_pmm cow_sample) 0" "\<not> test_frame (mm_pmm cow_sample) 1"
    "\<not> test_frame (mm_pmm cow_sample) 2" "test_frame (mm_pmm cow_sample) 3"
    "test_frame (mm_pmm cow_sample) 4" "test_frame (mm_pmm cow_sample) 5"
    "test_frame (mm_pmm cow_sample) 6" "test_frame (mm_pmm cow_sample) 7"
    "\<not> test_frame (mm_pmm cow_sample) (Suc 0)"
    by (simp_all add: test_frame_def cow_sample_def)
  have "total_frames (mm_pmm cow_sample) = 8" by (simp add: cow_sample_def)
  with t show "free_set (mm_pmm cow_sample) = {1, 2}" "used_set (mm_pmm cow_sample) = {0, 3, 4, 5, 6, 7}"
    by (auto simp: free_set_def used_set_def less_8)
qed

lemma cow_sample_inv: "pmm_inv (mm_pmm cow_sample)"
proof -
  have "i \<in> used_set (mm_pmm cow_sample) \<longleftrightarrow> frame_refcount (mm_pmm cow_sample) ! i \<noteq> 0" if "i < 8" for i
    using that unfolding cow_sample_sets less_8 by (auto simp: cow_sample_def)
  then have "refcount_ok (mm_pmm cow_sample)"
    by (simp add: refcount_ok_def used_set_def) (simp add: cow_sample_def)
  moreover have "bitmap_wf (mm_pmm cow_sample)" by (simp add: bitmap_wf_def cow_sample_def)
  moreover have "counts_ok (mm_pmm cow_sample)"
    by (simp add: counts_ok_def cow_sample_sets) (simp add: cow_sample_def)
  moreover have "protected_ok (mm_pmm cow_sample)" by (simp add: protected_ok_def cow_sample_def)
  ultimately show ?thesis by (simp add: pmm_inv_def)
qed

lemma cow_sample_dir: "get_page_directory cow_sample 0 = 3"
  by (simp add: get_page_directory_def cow_sample_def)

lemma cow_sample_pde: "i686_is_present (read_entry cow_sample 3 i) \<longleftrightarrow> i = 1" "entry_pfn (read_entry cow_sample 3 1) = 4"
  by (simp_all add: read_entry_def cow_sample_def i686_is_present_def entry_pfn_def i686_get_frame_def)

lemma cow_sample_ok: "space_ok 0 cow_sample"
  using cow_sample_inv cow_sample_pde
  by (simp add: space_ok_def space_wf_def cow_sample_dir cow_sample_sets inj_on_def)

lemma cow_sample_tables: "tables cow_sample 3 = {4}"
proof -
  have "{i. i < 1024 \<and> i686_is_present (read_entry cow_sample 3 i)} = {1}"
    unfolding cow_sample_pde(1) by auto
  then show ?thesis unfolding tables_def using cow_sample_pde(2) by simp
qed

lemma cow_sample_query: "hal_mmu_query cow_sample 0 0x400123 = Some (0x5000, 0x25)"
proof -
  have i: "i686_pde_index 0x400123 = 1" "i686_pte_index 0x400123 = 0"
    by (simp_all add: pde_index_div pte_index_div)
  have "lookup cow_sample 3 0x400123 = Some 0x5205"
    unfolding lookup_def Let_def i using cow_sample_pde
    by (simp add: i686_is_present_def [of "0x5205"] read_entry_def [of _ 4] cow_sample_def)
  then show ?thesis
    by (simp add: hal_mmu_query_lookup cow_sample_dir i686_get_frame_def i686_flags_to_hal_def flag_def)
qed

theorem vmm_handle_cow_page_fault_correct_witness:
  "\<exists>s'. vmm_handle_cow_page_fault 0x400123 0x7 cow_sample = (True, s')
     \<and> (\<exists>new fl'. hal_mmu_query s' 0 0x400123 = Some (new, fl') \<and> fl' AND HAL_PAGE_WRITE \<noteq> 0
          \<and> phys_mem (mm_pmm s') (PADDR_TO_PFN new) = (\<lambda>_. 42)
          \<and> frame_refcount (mm_pmm s') ! PADDR_TO_PFN new = 1)"
proof -
  obtain b s' where r: "vmm_handle_cow_page_fault 0x400123 0x7 cow_sample = (b, s')"
    by (cases "vmm_handle_cow_page_fault 0x400123 0x7 cow_sample")
  have pn: "PADDR_TO_PFN 0x5000 = 5" by (simp add: PADDR_TO_PFN_div)
  have mem: "phys_mem (mm_pmm cow_sample) 5 = (\<lambda>_. 42)" by (simp add: cow_sample_def)
  note h = vmm_handle_cow_page_fault_correct [OF cow_sample_ok _ cow_sample_query _ _ _ _ _ r,
      unfolded pn cow_sample_dir cow_sample_tables cow_sample_sets mem]
  have "b" using h by (cases b) auto
  with h r show ?thesis by auto
qed

end
