(* ===== verification/Heap.thy ===== *)
theory Heap
  imports Vmm Kmem
begin

text \<open>
  The kernel heap, \<^verbatim>\<open>src/src/mm/heap.c\<close> in its i686 configuration.  Block headers
  (\<^verbatim>\<open>heap_block_t\<close>, 20 bytes) live in a typed store indexed by their address, \<open>0\<close> being the null
  pointer; the bytes of the blocks are a separate memory, so that user data does not overlap headers
  in the model.  Growing the heap allocates frames and maps pages through the models of the physical
  and virtual memory managers.  Walking the block list may not end on a cyclic list, so the walk is a
  partial function and \<open>None\<close> stands for a call that does not return.
\<close>

section \<open>State\<close>

record heap_block =
  hb_size :: u32
  hb_free :: bool
  hb_next :: u32
  hb_prev :: u32
  hb_magic :: u32

record heap_state =
  heap_start :: u32
  heap_end :: u32
  heap_max :: u32
  first_block :: u32
  last_block :: u32
  blocks :: "u32 \<Rightarrow> heap_block"
  heap_mem :: mem
  heap_mm :: mm_state

abbreviation HEAP_MAGIC :: u32 where "HEAP_MAGIC \<equiv> 0xDEADBEEF"
abbreviation HEADER :: u32 where "HEADER \<equiv> 20"

definition upd_block :: "u32 \<Rightarrow> (heap_block \<Rightarrow> heap_block) \<Rightarrow> heap_state \<Rightarrow> heap_state" where
  "upd_block b f s = s\<lparr>blocks := (blocks s)(b := f (blocks s b))\<rparr>"

section \<open>Growing the heap\<close>

definition expand_step :: "u32 \<Rightarrow> nat \<Rightarrow> mm_state \<Rightarrow> bool \<times> mm_state" where
  "expand_step base i m =
     (case pmm_alloc_frame (mm_pmm m) of (frame, p) \<Rightarrow>
        if frame = PADDR_INVALID then (False, m\<lparr>mm_pmm := p\<rparr>)
        else case vmm_map_page (base + of_nat i * 4096) (ucast frame) (PAGE_PRESENT OR PAGE_WRITE)
                    (m\<lparr>mm_pmm := p\<rparr>) of
               (True, m') \<Rightarrow> (True, m')
             | (False, m') \<Rightarrow> (False, on_pmm (pmm_free_frame frame) m'))"

definition expand_undo :: "u32 \<Rightarrow> u32 \<Rightarrow> nat \<Rightarrow> mm_state \<Rightarrow> mm_state" where
  "expand_undo dir_phys base j m =
     (case vmm_unmap_page_in_directory dir_phys (base + of_nat j * 4096) m of (phys, m') \<Rightarrow>
        if phys \<noteq> 0 then on_pmm (pmm_free_frame (ucast phys)) m' else m')"

definition expand :: "u32 \<Rightarrow> heap_state \<Rightarrow> bool \<times> heap_state" where
  "expand sz s =
     (let pages = (sz + 4096 - 1) div 4096 in
        if heap_max s < heap_end s + pages * 4096 then (False, s)
        else case step_loop (expand_step (heap_end s))
                    (expand_undo (current_dir_phys (heap_mm s)) (heap_end s)) 0 (unat pages) (heap_mm s) of
               (False, m) \<Rightarrow> (False, s\<lparr>heap_mm := m\<rparr>)
             | (True, m) \<Rightarrow> (True, s\<lparr>heap_mm := m, heap_end := heap_end s + pages * 4096\<rparr>))"

section \<open>Merging and splitting blocks\<close>

definition coalesce_next :: "u32 \<Rightarrow> heap_state \<Rightarrow> heap_state" where
  "coalesce_next b s =
     (let n = hb_next (blocks s b);
          s1 = (if n = last_block s then s\<lparr>last_block := b\<rparr> else s);
          s2 = upd_block b (\<lambda>h. h\<lparr>hb_size := hb_size h + (HEADER + hb_size (blocks s n)),
                                  hb_next := hb_next (blocks s n)\<rparr>) s1;
          n' = hb_next (blocks s2 b)
      in if n' \<noteq> 0 then upd_block n' (\<lambda>h. h\<lparr>hb_prev := b\<rparr>) s2 else s2)"

definition coalesce_prev :: "u32 \<Rightarrow> heap_state \<Rightarrow> heap_state" where
  "coalesce_prev b s =
     (let p = hb_prev (blocks s b);
          s1 = (if b = last_block s then s\<lparr>last_block := p\<rparr> else s);
          s2 = upd_block p (\<lambda>h. h\<lparr>hb_size := hb_size h + (HEADER + hb_size (blocks s b)),
                                  hb_next := hb_next (blocks s b)\<rparr>) s1;
          n = hb_next (blocks s b)
      in if n \<noteq> 0 then upd_block n (\<lambda>h. h\<lparr>hb_prev := p\<rparr>) s2 else s2)"

definition coalesce :: "u32 \<Rightarrow> heap_state \<Rightarrow> heap_state" where
  "coalesce b s =
     (if hb_magic (blocks s b) \<noteq> HEAP_MAGIC then s
      else let n = hb_next (blocks s b); merge_n = (n \<noteq> 0 \<and> hb_free (blocks s n)) in
        if merge_n \<and> hb_magic (blocks s n) \<noteq> HEAP_MAGIC then s
        else let s1 = (if merge_n then coalesce_next b s else s); p = hb_prev (blocks s1 b) in
          if p \<noteq> 0 \<and> hb_free (blocks s1 p)
          then (if hb_magic (blocks s1 p) \<noteq> HEAP_MAGIC then s1 else coalesce_prev b s1)
          else s1)"

definition split :: "u32 \<Rightarrow> u32 \<Rightarrow> heap_state \<Rightarrow> heap_state" where
  "split b sz s =
     (if hb_magic (blocks s b) \<noteq> HEAP_MAGIC then s
      else if sz + HEADER + 16 \<le> hb_size (blocks s b)
      then let new = b + HEADER + sz; n = hb_next (blocks s b);
               s1 = upd_block new (\<lambda>_. \<lparr>hb_size = hb_size (blocks s b) - sz - HEADER, hb_free = True,
                                        hb_next = n, hb_prev = b, hb_magic = HEAP_MAGIC\<rparr>) s;
               s2 = (if n \<noteq> 0 then upd_block n (\<lambda>h. h\<lparr>hb_prev := new\<rparr>) s1 else s1)
           in upd_block b (\<lambda>h. h\<lparr>hb_next := new, hb_size := sz\<rparr>) s2
      else s)"

section \<open>The allocator\<close>

definition heap_init :: "u32 \<Rightarrow> u32 \<Rightarrow> heap_state \<Rightarrow> heap_state option" where
  "heap_init start sz s =
     (let hs = PAGE_ALIGN_UP start;
          s1 = s\<lparr>heap_start := hs, heap_end := hs, heap_max := hs + sz\<rparr>
      in case expand 4096 s1 of
           (False, _) \<Rightarrow> None
         | (True, s2) \<Rightarrow>
             Some (upd_block hs (\<lambda>_. \<lparr>hb_size = 4096 - HEADER, hb_free = True, hb_next = 0,
                                      hb_prev = 0, hb_magic = HEAP_MAGIC\<rparr>)
                     (s2\<lparr>first_block := hs, last_block := hs\<rparr>)))"

datatype search = Found u32 | Not_found | Corrupted

partial_function (option) search_block :: "(u32 \<Rightarrow> heap_block) \<Rightarrow> u32 \<Rightarrow> u32 \<Rightarrow> search option" where
  "search_block st sz b =
     (if b = 0 then Some Not_found
      else if b < KERNEL_VIRTUAL_BASE then Some Corrupted
      else if hb_magic (st b) \<noteq> HEAP_MAGIC then Some Corrupted
      else if hb_free (st b) \<and> sz \<le> hb_size (st b) then Some (Found b)
      else search_block st sz (hb_next (st b)))"

definition append_block :: "u32 \<Rightarrow> heap_state \<Rightarrow> heap_state" where
  "append_block old s =
     (let s1 = upd_block old (\<lambda>_. \<lparr>hb_size = heap_end s - old - HEADER, hb_free = False,
                                   hb_next = 0, hb_prev = last_block s, hb_magic = HEAP_MAGIC\<rparr>) s;
          s2 = (if last_block s \<noteq> 0 then upd_block (last_block s) (\<lambda>h. h\<lparr>hb_next := old\<rparr>) s1 else s1)
      in s2\<lparr>last_block := old\<rparr>)"

definition kmalloc :: "u32 \<Rightarrow> heap_state \<Rightarrow> (u32 \<times> heap_state) option" where
  "kmalloc sz0 s =
     (if sz0 = 0 then Some (0, s)
      else if first_block s = 0 then Some (0, s)
      else if first_block s < KERNEL_VIRTUAL_BASE \<or> hb_magic (blocks s (first_block s)) \<noteq> HEAP_MAGIC
      then Some (0, s)
      else let sz = (sz0 + 3) AND NOT 3 in
        case search_block (blocks s) sz (first_block s) of
          None \<Rightarrow> None
        | Some Corrupted \<Rightarrow> Some (0, s)
        | Some (Found b) \<Rightarrow>
            Some (b + HEADER, split b sz (upd_block b (\<lambda>h. h\<lparr>hb_free := False\<rparr>) s))
        | Some Not_found \<Rightarrow>
            (case expand (sz + HEADER) s of
               (False, s1) \<Rightarrow> Some (0, s1)
             | (True, s1) \<Rightarrow> Some (heap_end s + HEADER, append_block (heap_end s) s1)))"

definition kfree :: "u32 \<Rightarrow> heap_state \<Rightarrow> heap_state" where
  "kfree ptr s =
     (if ptr = 0 then s
      else let b = ptr - HEADER in
        if hb_magic (blocks s b) \<noteq> HEAP_MAGIC then s
        else coalesce b (upd_block b (\<lambda>h. h\<lparr>hb_free := True\<rparr>) s))"

definition krealloc :: "u32 \<Rightarrow> u32 \<Rightarrow> heap_state \<Rightarrow> (u32 \<times> heap_state) option" where
  "krealloc ptr sz s =
     (if ptr = 0 then kmalloc sz s
      else if sz = 0 then Some (0, kfree ptr s)
      else let b = ptr - HEADER in
        if hb_magic (blocks s b) \<noteq> HEAP_MAGIC then Some (0, s)
        else if sz \<le> hb_size (blocks s b) then Some (ptr, s)
        else let old_size = hb_size (blocks s b) in
          case kmalloc sz s of
            None \<Rightarrow> None
          | Some (new_ptr, s1) \<Rightarrow>
              if new_ptr \<noteq> 0
              then Some (new_ptr, kfree ptr (s1\<lparr>heap_mem := memcpy (heap_mem s1) new_ptr ptr old_size\<rparr>))
              else Some (0, s1))"

definition kcalloc :: "u32 \<Rightarrow> u32 \<Rightarrow> heap_state \<Rightarrow> (u32 \<times> heap_state) option" where
  "kcalloc num sz s =
     (if num \<noteq> 0 \<and> (- 1) div num < sz then Some (0, s)
      else let total = num * sz in
        case kmalloc total s of
          None \<Rightarrow> None
        | Some (ptr, s1) \<Rightarrow>
            if ptr \<noteq> 0 then Some (ptr, s1\<lparr>heap_mem := memset (heap_mem s1) ptr 0 total\<rparr>)
            else Some (0, s1))"

definition kmalloc_aligned :: "u32 \<Rightarrow> u32 \<Rightarrow> heap_state \<Rightarrow> (u32 \<times> heap_state) option" where
  "kmalloc_aligned sz alignment0 s =
     (if sz = 0 \<or> alignment0 = 0 then Some (0, s)
      else if alignment0 AND (alignment0 - 1) \<noteq> 0 then Some (0, s)
      else let alignment = (if alignment0 < 4 then 4 else alignment0);
               extra = alignment - 1 + 4
        in case kmalloc (sz + extra) s of
             None \<Rightarrow> None
           | Some (raw, s1) \<Rightarrow>
               if raw = 0 then Some (0, s1)
               else let raw_addr = raw + 4;
                        aligned_addr = (raw_addr + alignment - 1) AND NOT (alignment - 1)
                    in Some (aligned_addr, s1\<lparr>heap_mem := store32 (heap_mem s1) (aligned_addr - 4) raw\<rparr>))"

definition kfree_aligned :: "u32 \<Rightarrow> heap_state \<Rightarrow> heap_state" where
  "kfree_aligned ptr s = (if ptr = 0 then s else kfree (load32 (heap_mem s) (ptr - 4)) s)"

record heap_info =
  hi_total :: u32
  hi_used :: u32
  hi_free :: u32
  hi_max :: u32
  hi_block_count :: u32
  hi_free_block_count :: u32

text \<open>The accumulators of the statistics loop: used, free, used metadata, free metadata, block count,
  free block count.\<close>

partial_function (option) info_loop ::
    "(u32 \<Rightarrow> heap_block) \<Rightarrow> u32 \<Rightarrow> u32 \<times> u32 \<times> u32 \<times> u32 \<times> u32 \<times> u32
     \<Rightarrow> (u32 \<times> u32 \<times> u32 \<times> u32 \<times> u32 \<times> u32) option" where
  "info_loop st b acc =
     (if b = 0 then Some acc
      else case acc of (used, free, used_md, free_md, cnt, free_cnt) \<Rightarrow>
        if hb_free (st b)
        then info_loop st (hb_next (st b))
               (used, free + hb_size (st b), used_md, free_md + HEADER, cnt + 1, free_cnt + 1)
        else info_loop st (hb_next (st b))
               (used + hb_size (st b), free, used_md + HEADER, free_md, cnt + 1, free_cnt))"

definition heap_get_info :: "heap_state \<Rightarrow> heap_info option" where
  "heap_get_info s =
     (case info_loop (blocks s) (first_block s) (0, 0, 0, 0, 0, 0) of
        None \<Rightarrow> None
      | Some (used, free, used_md, free_md, cnt, free_cnt) \<Rightarrow>
          Some \<lparr>hi_total = heap_end s - heap_start s, hi_used = used + used_md, hi_free = free + free_md,
                hi_max = heap_max s - heap_start s, hi_block_count = cnt, hi_free_block_count = free_cnt\<rparr>)"

section \<open>The block list\<close>

text \<open>
  \<open>chain st p n e bs\<close>: the blocks \<open>bs\<close> are doubly linked in this order, \<open>p\<close> before and \<open>n\<close> after them,
  and tile the addresses up to \<open>e\<close>: each block ends where the next one starts.
\<close>

definition block_ok :: "(u32 \<Rightarrow> heap_block) \<Rightarrow> u32 \<Rightarrow> bool" where
  "block_ok st b \<longleftrightarrow> KERNEL_VIRTUAL_BASE \<le> b \<and> unat b mod 4 = 0 \<and> hb_magic (st b) = HEAP_MAGIC"

definition hd_or :: "'a \<Rightarrow> 'a list \<Rightarrow> 'a" where
  "hd_or d xs = (case xs of [] \<Rightarrow> d | x # _ \<Rightarrow> x)"

definition last_or :: "'a \<Rightarrow> 'a list \<Rightarrow> 'a" where
  "last_or d xs = (if xs = [] then d else last xs)"

definition block_stop :: "(u32 \<Rightarrow> heap_block) \<Rightarrow> u32 \<Rightarrow> nat" where
  "block_stop st b = unat b + 20 + unat (hb_size (st b))"

fun chain :: "(u32 \<Rightarrow> heap_block) \<Rightarrow> u32 \<Rightarrow> u32 \<Rightarrow> u32 \<Rightarrow> u32 list \<Rightarrow> bool" where
  "chain st p n e [] \<longleftrightarrow> True"
| "chain st p n e (b # bs) \<longleftrightarrow> block_ok st b \<and> hb_prev (st b) = p \<and> hb_next (st b) = hd_or n bs
     \<and> block_stop st b = unat (hd_or e bs) \<and> chain st b n e bs"

definition heap_inv :: "heap_state \<Rightarrow> u32 list \<Rightarrow> bool" where
  "heap_inv s bs \<longleftrightarrow> bs \<noteq> [] \<and> hd bs = heap_start s \<and> first_block s = heap_start s
     \<and> unat (heap_end s) mod 4 = 0 \<and> chain (blocks s) 0 0 (heap_end s) bs"

text \<open>The allocated blocks with their sizes, in address order.\<close>

definition allocated :: "heap_state \<Rightarrow> u32 list \<Rightarrow> (u32 \<times> u32) list" where
  "allocated s bs = map (\<lambda>b. (b, hb_size (blocks s b))) (filter (\<lambda>b. \<not> hb_free (blocks s b)) bs)"

lemma hd_or_simps [simp]:
  "hd_or d [] = d" "hd_or d (x # xs) = x" "hd_or d (xs @ y # ys) = hd_or y xs"
  by (simp_all add: hd_or_def split: list.split)

lemma last_or_simps [simp]: "last_or d [] = d" "last_or d (x # xs) = last_or x xs" "last_or d (xs @ [y]) = y"
  by (simp_all add: last_or_def)

lemma hd_or_append: "hd_or d (xs @ ys) = hd_or (hd_or d ys) xs"
  by (cases xs) simp_all

lemma chain_append: "chain st p n e (xs @ ys) \<longleftrightarrow>
    chain st p (hd_or n ys) (hd_or e ys) xs \<and> chain st (last_or p xs) n e ys"
  by (induction xs arbitrary: p) (simp_all add: hd_or_append)

lemma chain_cong: "\<forall>b \<in> set bs. st' b = st b \<Longrightarrow> chain st' p n e bs = chain st p n e bs"
  by (induction bs arbitrary: p) (simp_all add: block_ok_def block_stop_def)

lemma chain_bounds:
  assumes "chain st p n e bs"
  shows "unat (hd_or e bs) \<le> unat e"
    and "b \<in> set bs \<Longrightarrow> unat (hd_or e bs) \<le> unat b \<and> block_stop st b \<le> unat e"
  using assms
proof (induction bs arbitrary: p)
  case (Cons a bs)
  { case 1 then show ?case using Cons.IH(1)[of a] by (auto simp: block_stop_def)
  next
    case 2
    have "unat a \<le> unat (hd_or e bs)" using 2 by (simp add: block_stop_def)
    then show ?case using 2 Cons.IH(1)[of a] Cons.IH(2)[of a] by (auto simp: block_stop_def) }
qed simp_all

lemma chain_order:
  assumes "chain st p n e (xs @ b # ys)"
  shows "c \<in> set ys \<Longrightarrow> block_stop st b \<le> unat c" "c \<in> set xs \<Longrightarrow> block_stop st c \<le> unat b"
proof -
  have *: "chain st p b b xs" "chain st b n e ys" "block_stop st b = unat (hd_or e ys)"
    using assms by (simp_all add: chain_append)
  show "c \<in> set ys \<Longrightarrow> block_stop st b \<le> unat c" using chain_bounds(2)[OF *(2), of c] *(3) by simp
  show "c \<in> set xs \<Longrightarrow> block_stop st c \<le> unat b" using chain_bounds(2)[OF *(1), of c] by simp
qed

lemma block_stop_gt [simp]: "unat b < block_stop st b"
  by (simp add: block_stop_def)

lemma chain_fresh:
  assumes "chain st p n e (xs @ b # ys)"
  shows "b \<notin> set xs" "b \<notin> set ys" "set xs \<inter> set ys = {}"
proof -
  have o: "c \<in> set ys \<Longrightarrow> unat b < unat c" "c \<in> set xs \<Longrightarrow> unat c < unat b" for c
    using chain_order[OF assms, of c] block_stop_gt[of b st] block_stop_gt[of c st] by linarith+
  show "b \<notin> set xs" "b \<notin> set ys" using o by auto
  show "set xs \<inter> set ys = {}"
  proof (rule equals0I)
    fix c assume "c \<in> set xs \<inter> set ys"
    then show False using o[of c] by simp
  qed
qed

lemma chain_distinct: "chain st p n e bs \<Longrightarrow> distinct bs"
proof (induction bs arbitrary: p)
  case (Cons a bs)
  then show ?case using chain_fresh(2)[of st p n e "[]" a bs] by auto
qed simp

lemma chain_new_hd:
  assumes "chain st p n e ys" "\<forall>c \<in> set (tl ys). st' c = st c"
    "ys \<noteq> [] \<Longrightarrow> st' (hd ys) = (st (hd ys))\<lparr>hb_prev := q\<rparr>"
  shows "chain st' q n e ys"
proof (cases ys)
  case (Cons c cs)
  then show ?thesis using assms chain_cong[of cs st' st c n e] by (simp add: block_ok_def block_stop_def)
qed simp

text \<open>Replacing a segment of the list by another one with the same first block.\<close>

lemma chain_replace:
  assumes "chain st p n e (xs @ mid @ ys)" "mid \<noteq> []" "mid' \<noteq> []" "hd mid' = hd mid"
    and "\<forall>c \<in> set xs. st' c = st c" "\<forall>c \<in> set (tl ys). st' c = st c"
    and "ys \<noteq> [] \<Longrightarrow> st' (hd ys) = (st (hd ys))\<lparr>hb_prev := last mid'\<rparr>"
    and "chain st' (last_or p xs) (hd_or n ys) (hd_or e ys) mid'"
  shows "chain st' p n e (xs @ mid' @ ys)"
proof -
  have hd: "hd_or d (mid' @ ys) = hd mid" "hd_or d (mid @ ys) = hd mid" for d
    using assms(2-4) by (cases mid; cases mid'; simp)+
  have "chain st' (last mid') n e ys"
    by (rule chain_new_hd[where st = st, OF _ assms(6) assms(7)])
      (use assms(1) in \<open>auto simp: chain_append\<close>)
  moreover have "last_or q mid' = last mid'" for q using assms(3) by (simp add: last_or_def)
  moreover have "chain st' p (hd mid) (hd mid) xs"
    using assms(1) chain_cong[OF assms(5)] by (simp add: chain_append hd)
  ultimately show ?thesis using assms(8)
    unfolding chain_append[of _ _ _ _ xs] hd by (simp add: chain_append)
qed

section \<open>Splitting and merging keep the block list\<close>

lemma upd_block_sel [simp]:
  "blocks (upd_block b f s) = (blocks s)(b := f (blocks s b))"
  "heap_start (upd_block b f s) = heap_start s" "heap_end (upd_block b f s) = heap_end s"
  "heap_max (upd_block b f s) = heap_max s" "first_block (upd_block b f s) = first_block s"
  "last_block (upd_block b f s) = last_block s" "heap_mem (upd_block b f s) = heap_mem s"
  "heap_mm (upd_block b f s) = heap_mm s"
  by (simp_all add: upd_block_def)

lemma block_nonzero: "block_ok st b \<Longrightarrow> b \<noteq> 0"
  by (auto simp: block_ok_def)

lemma chain_ok: "chain st p n e bs \<Longrightarrow> b \<in> set bs \<Longrightarrow> block_ok st b"
  by (induction bs arbitrary: p) auto

lemma hd_or_zero: "chain st p n e bs \<Longrightarrow> hd_or 0 bs = 0 \<longleftrightarrow> bs = []"
  by (cases bs) (auto dest: block_nonzero)

lemma last_or_zero: "chain st p n e bs \<Longrightarrow> last_or 0 bs = 0 \<longleftrightarrow> bs = []"
  by (metis last_in_set last_or_def chain_ok block_nonzero)

lemma allocated_simps [simp]:
  "allocated s [] = []"
  "allocated s (b # bs) = (if hb_free (blocks s b) then [] else [(b, hb_size (blocks s b))]) @ allocated s bs"
  "allocated s (xs @ ys) = allocated s xs @ allocated s ys"
  by (simp_all add: allocated_def)

lemma allocated_cong:
  "\<forall>b \<in> set bs. hb_free (blocks s' b) = hb_free (blocks s b) \<and> hb_size (blocks s' b) = hb_size (blocks s b)
   \<Longrightarrow> allocated s' bs = allocated s bs"
  by (induction bs) simp_all

lemma unat_new_block:
  fixes b sz bsz e :: u32
  assumes "unat b + 20 + unat bsz = unat e" "unat sz + 36 \<le> unat bsz"
  shows "unat (b + HEADER + sz) = unat b + 20 + unat sz" "unat (bsz - sz - HEADER) = unat bsz - unat sz - 20"
proof -
  have e: "unat b + 20 < 4294967296" "unat b + 20 + unat sz < 4294967296"
    using assms unat_lt_u32[of e] by linarith+
  have "unat (b + HEADER) = unat b + 20" by (subst unat_add_no_wrap) (use e in simp_all)
  then show "unat (b + HEADER + sz) = unat b + 20 + unat sz" by (subst unat_add_no_wrap) (use e in simp_all)
  have "unat (bsz - sz) = unat bsz - unat sz" using assms by (simp add: unat_sub_wrap)
  then show "unat (bsz - sz - HEADER) = unat bsz - unat sz - 20" using assms by (simp add: unat_sub_wrap)
qed

lemma le_split_size:
  fixes sz bsz :: u32
  assumes "unat sz \<le> unat bsz" "unat bsz < 2147483648"
  shows "sz + HEADER + 16 \<le> bsz \<longleftrightarrow> unat sz + 36 \<le> unat bsz"
proof -
  have "unat (sz + HEADER) = unat sz + 20" by (subst unat_add_no_wrap) (use assms in auto)
  then have "unat (sz + HEADER + 16) = unat sz + 36" by (subst unat_add_no_wrap) (use assms in auto)
  then show ?thesis by (simp add: word_le_nat_alt)
qed

lemma chain_size_small:
  assumes "chain st p n e bs" "b \<in> set bs"
  shows "unat (hb_size (st b)) < 2147483648"
proof -
  have "block_stop st b \<le> unat e" "2147483648 \<le> unat b"
    using chain_bounds(2)[OF assms] chain_ok[OF assms] by (simp_all add: block_ok_def word_le_nat_alt)
  then show ?thesis using unat_lt_u32[of e] unfolding block_stop_def by linarith
qed

lemma aligned_stop: "a mod 4 = 0 \<Longrightarrow> c mod 4 = 0 \<Longrightarrow> (a + 20 + c) mod 4 = (0 :: nat)"
  by presburger

lemma split_law:
  assumes inv: "heap_inv s (xs @ b # ys)" and used: "\<not> hb_free (blocks s b)"
    and sz: "unat sz \<le> unat (hb_size (blocks s b))" "unat sz mod 4 = 0"
  shows "\<exists>bs sz'. heap_inv (split b sz s) bs \<and> unat sz \<le> unat sz'
    \<and> allocated (split b sz s) bs = allocated s xs @ (b, sz') # allocated s ys"
proof (cases "sz + HEADER + 16 \<le> hb_size (blocks s b)")
  case True
  let ?st = "blocks s" let ?new = "b + HEADER + sz" let ?s' = "split b sz s"
  have c: "chain ?st 0 0 (heap_end s) (xs @ [b] @ ys)" using inv by (simp add: heap_inv_def)
  have b: "block_ok ?st b" "hb_prev (?st b) = last_or 0 xs" "hb_next (?st b) = hd_or 0 ys"
      "unat b + 20 + unat (hb_size (?st b)) = unat (hd_or (heap_end s) ys)"
    using c by (simp_all add: chain_append block_stop_def)
  have le: "unat sz + 36 \<le> unat (hb_size (?st b))"
    using True le_split_size[OF sz(1) chain_size_small[OF c]] by simp
  note new = unat_new_block[OF b(4) le]
  have fresh: "?new \<notin> set xs" "?new \<notin> set ys" "?new \<noteq> b"
  proof -
    have "unat ?new \<noteq> unat b" using new(1) by linarith
    then show "?new \<noteq> b" by metis
    show "?new \<notin> set xs"
      using chain_order(2)[of ?st 0 0 "heap_end s" xs b ys ?new] c block_stop_gt[of ?new ?st] new(1) by fastforce
    show "?new \<notin> set ys"
      using chain_order(1)[of ?st 0 0 "heap_end s" xs b ys ?new] c le new(1) by (force simp: block_stop_def)
  qed
  note old = chain_fresh[of ?st 0 0 "heap_end s" xs b ys, OF c[simplified]]
  have st': "blocks ?s' = (let st1 = ?st(?new := \<lparr>hb_size = hb_size (?st b) - sz - HEADER, hb_free = True,
                  hb_next = hd_or 0 ys, hb_prev = b, hb_magic = HEAP_MAGIC\<rparr>);
                st2 = (if ys \<noteq> [] then st1(hd ys := (st1 (hd ys))\<lparr>hb_prev := ?new\<rparr>) else st1)
              in st2(b := (st2 b)\<lparr>hb_next := ?new, hb_size := sz\<rparr>))"
    using True b c by (cases ys) (auto simp: split_def block_ok_def chain_append Let_def)
  have sel: "heap_start ?s' = heap_start s" "heap_end ?s' = heap_end s" "first_block ?s' = first_block s"
    by (simp_all add: split_def Let_def)
  have xs: "\<forall>c \<in> set xs. blocks ?s' c = ?st c"
    unfolding st' using old fresh by (cases ys) (auto simp: Let_def)
  have ys: "\<forall>c \<in> set (tl ys). blocks ?s' c = ?st c" "ys \<noteq> [] \<Longrightarrow> blocks ?s' (hd ys) = (?st (hd ys))\<lparr>hb_prev := ?new\<rparr>"
    unfolding st' using old fresh chain_distinct[OF c] by (cases ys; auto simp: Let_def)+
  have nb: "blocks ?s' ?new = \<lparr>hb_size = hb_size (?st b) - sz - HEADER, hb_free = True,
        hb_next = hd_or 0 ys, hb_prev = b, hb_magic = HEAP_MAGIC\<rparr>"
      "blocks ?s' b = (?st b)\<lparr>hb_next := ?new, hb_size := sz\<rparr>"
    unfolding st' using old fresh by (cases ys; auto simp: Let_def)+
  have ok: "block_ok (blocks ?s') ?new"
    using b(1) sz(2) by (simp add: block_ok_def nb word_le_nat_alt new(1) aligned_stop)
  have mid: "chain (blocks ?s') (last_or 0 xs) (hd_or 0 ys) (hd_or (heap_end s) ys) [b, ?new]"
    using ok b le by (simp add: nb block_stop_def new) (simp add: block_ok_def nb)
  have "chain (blocks ?s') 0 0 (heap_end s) (xs @ [b, ?new] @ ys)"
    by (rule chain_replace[OF c _ _ _ xs ys(1) _ mid]) (use ys(2) in auto)
  moreover have "allocated ?s' ys = allocated s ys"
    by (rule allocated_cong) (use ys in \<open>cases ys; auto\<close>)
  moreover have "allocated ?s' xs = allocated s xs" by (rule allocated_cong) (use xs in auto)
  moreover have "hd (xs @ [b, ?new] @ ys) = hd (xs @ b # ys)" by (cases xs) simp_all
  ultimately show ?thesis using inv used
    by (intro exI[of _ "xs @ [b, ?new] @ ys"] exI[of _ sz]) (simp only: heap_inv_def sel, simp add: nb)
next
  case False
  then have "split b sz s = s" by (simp add: split_def)
  then show ?thesis using inv used sz by (intro exI[of _ "xs @ b # ys"] exI[of _ "hb_size (blocks s b)"]) simp
qed

lemma coalesce_prev_next:
  "hb_next (blocks s a) = c \<Longrightarrow> hb_prev (blocks s c) = a \<Longrightarrow> coalesce_prev c s = coalesce_next a s"
  by (simp add: coalesce_prev_def coalesce_next_def Let_def)

lemma merge_law:
  assumes inv: "heap_inv s (xs @ a # c # ys)" and free: "hb_free (blocks s a)" "hb_free (blocks s c)"
  defines "s' \<equiv> coalesce_next a s"
  shows "heap_inv s' (xs @ a # ys)" "hb_free (blocks s' a)"
    "allocated s' xs = allocated s xs" "allocated s' ys = allocated s ys"
    "last_block s = last (xs @ a # c # ys) \<Longrightarrow> last_block s' = last (xs @ a # ys)"
proof -
  let ?st = "blocks s"
  have c: "chain ?st 0 0 (heap_end s) (xs @ [a, c] @ ys)" using inv by (simp add: heap_inv_def)
  have a: "block_ok ?st a" "block_ok ?st c" "hb_prev (?st a) = last_or 0 xs" "hb_next (?st a) = c"
      "hb_prev (?st c) = a" "hb_next (?st c) = hd_or 0 ys" "unat a + 20 + unat (hb_size (?st a)) = unat c"
      "unat c + 20 + unat (hb_size (?st c)) = unat (hd_or (heap_end s) ys)"
    using c by (simp_all add: chain_append block_stop_def)
  have d: "distinct (xs @ a # c # ys)" using chain_distinct[OF c] by simp
  have hd: "hd_or 0 ys = 0 \<longleftrightarrow> ys = []" by (rule hd_or_zero) (use c in \<open>auto simp: chain_append\<close>)
  define sz where "sz = hb_size (?st a) + (HEADER + hb_size (?st c))"
  have sz: "unat a + 20 + unat sz = unat (hd_or (heap_end s) ys)"
  proof -
    have l: "unat (hb_size (?st a)) + (20 + unat (hb_size (?st c))) < 4294967296"
      using a(7,8) unat_lt_u32[of "hd_or (heap_end s) ys"] by linarith
    then have "unat (HEADER + hb_size (?st c)) = 20 + unat (hb_size (?st c))"
      by (subst unat_add_no_wrap) simp_all
    then have "unat sz = unat (hb_size (?st a)) + (20 + unat (hb_size (?st c)))"
      unfolding sz_def by (subst unat_add_no_wrap) (use l in simp_all)
    then show ?thesis using a(7,8) by linarith
  qed
  have st': "blocks s' = (let st2 = ?st(a := (?st a)\<lparr>hb_size := sz, hb_next := hd_or 0 ys\<rparr>)
              in if ys \<noteq> [] then st2(hd ys := (st2 (hd ys))\<lparr>hb_prev := a\<rparr>) else st2)"
    using a hd unfolding s'_def coalesce_next_def sz_def by (cases ys) (simp_all add: Let_def)
  have sel: "heap_start s' = heap_start s" "heap_end s' = heap_end s" "first_block s' = first_block s"
    "last_block s' = (if c = last_block s then a else last_block s)"
    unfolding s'_def coalesce_next_def using a by (simp_all add: Let_def)
  have xs: "\<forall>c \<in> set xs. blocks s' c = ?st c"
    unfolding st' using d by (cases ys) (auto simp: Let_def)
  have ys: "\<forall>c \<in> set (tl ys). blocks s' c = ?st c" "ys \<noteq> [] \<Longrightarrow> blocks s' (hd ys) = (?st (hd ys))\<lparr>hb_prev := a\<rparr>"
    unfolding st' using d by (cases ys; auto simp: Let_def)+
  have na: "blocks s' a = (?st a)\<lparr>hb_size := sz, hb_next := hd_or 0 ys\<rparr>"
    unfolding st' using d by (cases ys) (auto simp: Let_def)
  have mid: "chain (blocks s') (last_or 0 xs) (hd_or 0 ys) (hd_or (heap_end s) ys) [a]"
    using a sz by (simp add: na block_stop_def block_ok_def)
  have "chain (blocks s') 0 0 (heap_end s) (xs @ [a] @ ys)"
    by (rule chain_replace[OF c _ _ _ xs ys(1) _ mid]) (use ys(2) in auto)
  moreover have "hd (xs @ [a] @ ys) = hd (xs @ a # c # ys)" by (cases xs) simp_all
  ultimately show "heap_inv s' (xs @ a # ys)" using inv by (simp add: heap_inv_def sel)
  show "hb_free (blocks s' a)" using free by (simp add: na)
  show "allocated s' xs = allocated s xs" by (rule allocated_cong) (use xs in auto)
  show "allocated s' ys = allocated s ys" by (rule allocated_cong) (use ys in \<open>cases ys; auto\<close>)
  show "last_block s' = last (xs @ a # ys)" if "last_block s = last (xs @ a # c # ys)"
    using that d by (cases ys rule: rev_cases) (auto simp: sel)
qed

lemma heap_inv_block:
  assumes "heap_inv s (xs @ b # ys)"
  shows "block_ok (blocks s) b" "hb_prev (blocks s b) = last_or 0 xs" "hb_next (blocks s b) = hd_or 0 ys"
    "hd_or 0 ys = 0 \<longleftrightarrow> ys = []" "last_or 0 xs = 0 \<longleftrightarrow> xs = []"
    "\<forall>c \<in> set (xs @ b # ys). hb_magic (blocks s c) = HEAP_MAGIC"
proof -
  have c: "chain (blocks s) 0 0 (heap_end s) (xs @ b # ys)" using assms by (simp add: heap_inv_def)
  show "block_ok (blocks s) b" "hb_prev (blocks s b) = last_or 0 xs" "hb_next (blocks s b) = hd_or 0 ys"
    using c by (simp_all add: chain_append)
  show "hd_or 0 ys = 0 \<longleftrightarrow> ys = []" by (rule hd_or_zero) (use c in \<open>auto simp: chain_append\<close>)
  show "last_or 0 xs = 0 \<longleftrightarrow> xs = []" by (rule last_or_zero) (use c in \<open>auto simp: chain_append\<close>)
  show "\<forall>c \<in> set (xs @ b # ys). hb_magic (blocks s c) = HEAP_MAGIC"
    using chain_ok[OF c] by (auto simp: block_ok_def)
qed

lemma coalesce_prev_law:
  assumes inv: "heap_inv s (xs @ b # ys)" and free: "hb_free (blocks s b)"
    and s': "s' = (let p = hb_prev (blocks s b) in if p \<noteq> 0 \<and> hb_free (blocks s p)
          then (if hb_magic (blocks s p) \<noteq> HEAP_MAGIC then s else coalesce_prev b s) else s)"
  shows "\<exists>bs. heap_inv s' bs \<and> allocated s' bs = allocated s xs @ allocated s ys
    \<and> (last_block s = last (xs @ b # ys) \<longrightarrow> last_block s' = last bs)"
proof (cases "xs \<noteq> [] \<and> hb_free (blocks s (last xs))")
  case True
  then obtain zs p where xs: "xs = zs @ [p]" by (cases xs rule: rev_cases) auto
  note facts = heap_inv_block[OF inv] heap_inv_block(3)[of s zs p "b # ys"]
  have "s' = coalesce_next p s"
    using facts True inv xs coalesce_prev_next[of s p b] unfolding s' by (auto simp: Let_def block_ok_def)
  then show ?thesis using merge_law[of s zs p b ys] inv True free xs
    by (intro exI[of _ "zs @ p # ys"]) simp
next
  case False
  then have "s' = s" using heap_inv_block[OF inv] unfolding s' by (auto simp: Let_def last_or_def)
  then show ?thesis using inv free by (intro exI[of _ "xs @ b # ys"]) simp
qed

lemma coalesce_law:
  assumes inv: "heap_inv s (xs @ b # ys)" and free: "hb_free (blocks s b)"
  shows "\<exists>bs. heap_inv (coalesce b s) bs \<and> allocated (coalesce b s) bs = allocated s xs @ allocated s ys
    \<and> (last_block s = last (xs @ b # ys) \<longrightarrow> last_block (coalesce b s) = last bs)"
proof (cases "ys \<noteq> [] \<and> hb_free (blocks s (hd ys))")
  case True
  then obtain c zs where ys: "ys = c # zs" by (cases ys) auto
  note facts = heap_inv_block[OF inv]
  note m = merge_law[OF inv[unfolded ys] free]
  have c: "hb_free (blocks s c)" using True ys by simp
  have "coalesce b s = (let s1 = coalesce_next b s; p = hb_prev (blocks s1 b) in
          if p \<noteq> 0 \<and> hb_free (blocks s1 p)
          then (if hb_magic (blocks s1 p) \<noteq> HEAP_MAGIC then s1 else coalesce_prev b s1) else s1)"
    using facts True ys by (simp add: coalesce_def Let_def block_ok_def)
  then have *: "coalesce b s = (let p = hb_prev (blocks (coalesce_next b s) b) in
          if p \<noteq> 0 \<and> hb_free (blocks (coalesce_next b s) p)
          then (if hb_magic (blocks (coalesce_next b s) p) \<noteq> HEAP_MAGIC then coalesce_next b s
                else coalesce_prev b (coalesce_next b s)) else coalesce_next b s)"
    by (simp only: Let_def)
  from coalesce_prev_law[OF m(1,2)[OF c] *]
  show ?thesis using m(3-5)[OF c] c ys by auto
next
  case False
  have "coalesce b s = (let p = hb_prev (blocks s b) in if p \<noteq> 0 \<and> hb_free (blocks s p)
          then (if hb_magic (blocks s p) \<noteq> HEAP_MAGIC then s else coalesce_prev b s) else s)"
    using heap_inv_block[OF inv] False by (cases ys) (auto simp: coalesce_def Let_def block_ok_def)
  from coalesce_prev_law[OF inv free this] show ?thesis .
qed

lemma set_free_inv: "heap_inv (upd_block b (\<lambda>h. h\<lparr>hb_free := f\<rparr>) s) bs = heap_inv s bs"
proof -
  have "chain ((blocks s)(b := (blocks s b)\<lparr>hb_free := f\<rparr>)) p n e bs = chain (blocks s) p n e bs" for p n e
    by (induction bs arbitrary: p) (simp_all add: block_ok_def block_stop_def)
  then show ?thesis by (simp add: heap_inv_def)
qed

lemma allocated_set_free:
  "b \<notin> set bs \<Longrightarrow> allocated (upd_block b (\<lambda>h. h\<lparr>hb_free := f\<rparr>) s) bs = allocated s bs"
  by (rule allocated_cong) auto

lemma heap_inv_fresh: "heap_inv s (xs @ b # ys) \<Longrightarrow> b \<notin> set xs \<and> b \<notin> set ys"
  using chain_distinct by (fastforce simp: heap_inv_def)

lemma unat_payload:
  assumes "chain st p n e bs" "b \<in> set bs"
  shows "unat (b + HEADER) = unat b + 20"
proof -
  have "unat b + 20 < 4294967296"
    using chain_bounds(2)[OF assms] unat_lt_u32[of e] unfolding block_stop_def by linarith
  then show ?thesis by (subst unat_add_no_wrap) simp_all
qed

lemma kfree_law:
  assumes inv: "heap_inv s (xs @ b # ys)"
  shows "\<exists>bs. heap_inv (kfree (b + HEADER) s) bs \<and> allocated (kfree (b + HEADER) s) bs = allocated s xs @ allocated s ys
    \<and> (last_block s = last (xs @ b # ys) \<longrightarrow> last_block (kfree (b + HEADER) s) = last bs)"
proof -
  let ?s1 = "upd_block b (\<lambda>h. h\<lparr>hb_free := True\<rparr>) s"
  have "unat (b + HEADER) = unat b + 20" 
    using unat_payload[of "blocks s" 0 0 "heap_end s" "xs @ b # ys" b] inv by (simp add: heap_inv_def)
  then have "b + HEADER \<noteq> 0" by (metis add_is_0 unsigned_0 zero_neq_numeral)
  then have "kfree (b + HEADER) s = coalesce b ?s1"
    using heap_inv_block(1)[OF inv] by (simp add: kfree_def Let_def block_ok_def)
  then show ?thesis
    using coalesce_law[of ?s1 xs b ys] inv heap_inv_fresh[OF inv] by (simp add: set_free_inv allocated_set_free)
qed

section \<open>Allocation\<close>

definition round4 :: "u32 \<Rightarrow> u32" where
  "round4 sz = (sz + 3) AND NOT 3"

lemma unat_round4:
  assumes "unat sz + 3 < 4294967296"
  shows "unat (round4 sz) = (unat sz + 3) div 4 * 4"
proof -
  have "(3 :: u32) = mask 2" by (simp add: mask_eq_exp_minus_1)
  then have "round4 sz = (sz + 3) AND NOT (mask 2)" by (simp only: round4_def)
  then show ?thesis using assms by (simp only: unat_and_not_mask) (simp add: unat_add_no_wrap)
qed

lemma search_block_chain:
  "chain st p 0 e bs \<Longrightarrow> search_block st sz (hd_or 0 bs) =
     Some (case find (\<lambda>b. hb_free (st b) \<and> sz \<le> hb_size (st b)) bs of None \<Rightarrow> Not_found | Some b \<Rightarrow> Found b)"
proof (induction bs arbitrary: p)
  case Nil show ?case by (subst search_block.simps) simp
next
  case (Cons b bs)
  then have ok: "block_ok st b" "hb_next (st b) = hd_or 0 bs" "chain st b 0 e bs" by auto
  show ?case using ok block_nonzero[OF ok(1)] Cons.IH[OF ok(3)]
    by (subst search_block.simps) (auto simp: block_ok_def)
qed

lemma expand_cases:
  assumes "expand sz s = (ok, s1)"
  shows "\<exists>m. s1 = (if ok then s\<lparr>heap_mm := m, heap_end := heap_end s + (sz + 4096 - 1) div 4096 * 4096\<rparr>
                   else s\<lparr>heap_mm := m\<rparr>)"
proof (cases "heap_max s < heap_end s + (sz + 4096 - 1) div 4096 * 4096")
  case True
  then show ?thesis using assms by (intro exI[of _ "heap_mm s"]) (auto simp: expand_def Let_def)
next
  case False
  obtain r m where "step_loop (expand_step (heap_end s)) (expand_undo (current_dir_phys (heap_mm s)) (heap_end s)) 0
      (unat ((sz + 4096 - 1) div 4096)) (heap_mm s) = (r, m)" by fastforce
  then show ?thesis using assms False
    by (intro exI[of _ m]) (cases r; auto simp: expand_def Let_def)
qed

lemma expand_amount:
  fixes sz :: u32
  assumes "unat sz + 4096 < 4294967296"
  shows "unat ((sz + 4096 - 1) div 4096 * 4096) = (unat sz + 4095) div 4096 * 4096"
proof -
  have "sz + 4096 - 1 = sz + 4095" by simp
  moreover have "unat (sz + 4095) = unat sz + 4095" using assms by (subst unat_add_no_wrap) simp_all
  ultimately have "unat ((sz + 4096 - 1) div 4096) = (unat sz + 4095) div 4096"
    by (simp only: unat_div) simp
  moreover have "(unat sz + 4095) div 4096 * 4096 < 4294967296"
    using div_times_less_eq_dividend[of "unat sz + 4095" 4096] assms by linarith
  ultimately show ?thesis by (simp add: unat_word_ariths)
qed


definition fits :: "heap_state \<Rightarrow> u32 list \<Rightarrow> u32 \<Rightarrow> bool" where
  "fits s bs sz \<longleftrightarrow> (\<exists>b \<in> set bs. hb_free (blocks s b) \<and> round4 sz \<le> hb_size (blocks s b))"

lemma heap_inv_mm: "heap_inv (s\<lparr>heap_mm := m\<rparr>) bs = heap_inv s bs" "allocated (s\<lparr>heap_mm := m\<rparr>) bs = allocated s bs"
  by (simp_all add: heap_inv_def allocated_def)

lemma heap_inv_first:
  assumes "heap_inv s bs"
  shows "first_block s = hd_or 0 bs" "block_ok (blocks s) (first_block s)"
proof -
  obtain b ys where "bs = b # ys" using assms by (cases bs) (auto simp: heap_inv_def)
  then show "first_block s = hd_or 0 bs" "block_ok (blocks s) (first_block s)"
    using assms by (auto simp: heap_inv_def)
qed

lemma kmalloc_search:
  assumes inv: "heap_inv s bs" and "sz0 \<noteq> 0"
  shows "kmalloc sz0 s = (case find (\<lambda>b. hb_free (blocks s b) \<and> round4 sz0 \<le> hb_size (blocks s b)) bs of
      Some b \<Rightarrow> Some (b + HEADER, split b (round4 sz0) (upd_block b (\<lambda>h. h\<lparr>hb_free := False\<rparr>) s))
    | None \<Rightarrow> (case expand (round4 sz0 + HEADER) s of
               (False, s1) \<Rightarrow> Some (0, s1)
             | (True, s1) \<Rightarrow> Some (heap_end s + HEADER, append_block (heap_end s) s1)))"
proof -
  note f = heap_inv_first[OF inv]
  have "chain (blocks s) 0 0 (heap_end s) bs" using inv by (simp add: heap_inv_def)
  from search_block_chain[OF this, of "round4 sz0"] show ?thesis
    using assms f(2) block_nonzero[OF f(2)] unfolding f(1)[symmetric] kmalloc_def round4_def[symmetric]
    by (simp add: Let_def block_ok_def not_less[symmetric] split: option.split)
qed

lemma kmalloc_found:
  assumes inv: "heap_inv s bs" and sz: "sz0 \<noteq> 0" "unat sz0 + 3 < 4294967296" and fit: "fits s bs sz0"
  shows "\<exists>ptr s' bs' n l1 l2. kmalloc sz0 s = Some (ptr, s') \<and> heap_inv s' bs' \<and> unat sz0 \<le> unat n
    \<and> ptr \<noteq> 0 \<and> heap_end s' = heap_end s \<and> heap_max s' = heap_max s
    \<and> allocated s bs = l1 @ l2 \<and> allocated s' bs' = l1 @ (ptr - HEADER, n) # l2"
proof -
  let ?P = "\<lambda>b. hb_free (blocks s b) \<and> round4 sz0 \<le> hb_size (blocks s b)"
  obtain b where b: "find ?P bs = Some b" "b \<in> set bs" "?P b"
    using fit by (cases "find ?P bs") (auto simp: fits_def find_None_iff find_Some_iff)
  obtain xs ys where bs: "bs = xs @ b # ys" using b(2) by (meson split_list)
  let ?s1 = "upd_block b (\<lambda>h. h\<lparr>hb_free := False\<rparr>) s"
  have r: "unat sz0 \<le> unat (round4 sz0)" "unat (round4 sz0) mod 4 = 0"
    using unat_round4[OF sz(2)] by auto
  have c: "chain (blocks s) 0 0 (heap_end s) bs" using inv by (simp add: heap_inv_def)
  have nz: "b + HEADER \<noteq> 0"
  proof
    assume "b + HEADER = 0"
    then show False using unat_payload[OF c b(2)] by simp
  qed
  have "\<exists>bs' sz'. heap_inv (split b (round4 sz0) ?s1) bs' \<and> unat (round4 sz0) \<le> unat sz'
    \<and> allocated (split b (round4 sz0) ?s1) bs' = allocated ?s1 xs @ (b, sz') # allocated ?s1 ys"
    by (rule split_law) (use inv b(3) r bs in \<open>auto simp: set_free_inv word_le_nat_alt\<close>)
  then obtain bs' n where *: "heap_inv (split b (round4 sz0) ?s1) bs'" "unat (round4 sz0) \<le> unat n"
    "allocated (split b (round4 sz0) ?s1) bs' = allocated s xs @ (b, n) # allocated s ys"
    using heap_inv_fresh[OF inv[unfolded bs]] by (auto simp: allocated_set_free)
  have e: "heap_end (split b (round4 sz0) ?s1) = heap_end s" "heap_max (split b (round4 sz0) ?s1) = heap_max s"
    by (simp_all add: split_def Let_def)
  have "kmalloc sz0 s = Some (b + HEADER, split b (round4 sz0) ?s1)"
    using kmalloc_search[OF inv sz(1)] b(1) by simp
  then show ?thesis using * r b(3) bs nz e
    by (intro exI[of _ "b + HEADER"] exI[of _ "split b (round4 sz0) ?s1"] exI[of _ bs'] exI[of _ n]
        exI[of _ "allocated s xs"] exI[of _ "allocated s ys"]) auto
qed


lemma kmalloc_full:
  assumes inv: "heap_inv s bs" and "sz0 \<noteq> 0" and fit: "\<not> fits s bs sz0"
    and ex: "expand (round4 sz0 + HEADER) s = (False, s1)"
  shows "kmalloc sz0 s = Some (0, s1) \<and> heap_inv s1 bs \<and> allocated s1 bs = allocated s bs
    \<and> heap_end s1 = heap_end s \<and> heap_max s1 = heap_max s"
proof -
  obtain m where "s1 = s\<lparr>heap_mm := m\<rparr>" using expand_cases[OF ex] by auto
  moreover have "find (\<lambda>b. hb_free (blocks s b) \<and> round4 sz0 \<le> hb_size (blocks s b)) bs = None"
    using fit by (auto simp: fits_def find_None_iff)
  ultimately show ?thesis using kmalloc_search[OF inv assms(2)] ex inv by (simp add: heap_inv_mm)
qed

lemma allocated_sorted:
  assumes "heap_inv s bs"
  shows "sorted_wrt (\<lambda>x y. unat (fst x) + 20 + unat (snd x) \<le> unat (fst y)) (allocated s bs)"
proof -
  have "sorted_wrt (\<lambda>b c. block_stop (blocks s) b \<le> unat c) bs" if "chain (blocks s) p n e bs" for p n e bs
    using that
  proof (induction bs arbitrary: p)
    case (Cons a bs)
    then show ?case using chain_order(1)[of "blocks s" p n e "[]" a bs] by auto
  qed simp
  from this[of 0 0 "heap_end s" bs] show ?thesis
    using assms by (simp add: heap_inv_def allocated_def sorted_wrt_map sorted_wrt_filter block_stop_def)
qed

lemma allocated_bounds:
  assumes "heap_inv s bs" "(b, n) \<in> set (allocated s bs)"
  shows "unat (heap_start s) \<le> unat b \<and> unat b + 20 + unat n \<le> unat (heap_end s) \<and> unat b mod 4 = 0
    \<and> unat (b + HEADER) = unat b + 20"
proof -
  have c: "chain (blocks s) 0 0 (heap_end s) bs" and h: "hd_or (heap_end s) bs = heap_start s"
    using assms(1) by (auto simp: heap_inv_def hd_or_def split: list.split)
  have b: "b \<in> set bs" "hb_size (blocks s b) = n" using assms(2) by (auto simp: allocated_def)
  show ?thesis using chain_bounds(2)[OF c b(1)] b chain_ok[OF c b(1)] unat_payload[OF c b(1)]
    by (simp add: h block_stop_def block_ok_def)
qed



lemma allocated_split:
  assumes inv: "heap_inv s bs" and b: "(b, n) \<in> set (allocated s bs)"
  shows "\<exists>xs ys. bs = xs @ b # ys \<and> remove1 (b, n) (allocated s bs) = allocated s xs @ allocated s ys"
proof -
  have "b \<in> set bs" using b by (auto simp: allocated_def)
  then obtain xs ys where bs: "bs = xs @ b # ys" by (meson split_list)
  then have "(b, n) \<notin> set (allocated s xs)" "(b, n) \<notin> set (allocated s ys)"
    using heap_inv_fresh[OF inv[unfolded bs]] by (auto simp: allocated_def)
  then show ?thesis using b bs by (intro exI[of _ xs] exI[of _ ys]) (auto simp: remove1_append split: if_splits)
qed

section \<open>Growing by a page\<close>

text \<open>One step of the growth succeeds as long as two frames are free: one for the page and one for the
  page table it may need.\<close>

lemma expand_step_ok:
  assumes ok: "space_ok 0 m" and free: "x \<in> free_set (mm_pmm m)" "y \<in> free_set (mm_pmm m)" "x \<noteq> y"
    and al: "unat base mod 4096 = 0"
  shows "fst (expand_step base 0 m)"
proof -
  obtain a p where alloc: "pmm_alloc_frame (mm_pmm m) = (a, p)" by fastforce
  have inv: "pmm_inv (mm_pmm m)" using ok by (simp add: space_ok_def)
  obtain i where i: "i \<in> free_set (mm_pmm m)" "a = PFN_TO_PADDR i"
    using pmm_alloc_frame_cases [OF inv] free(1) alloc by auto
  have "i < 524288" using i(1) inv by (simp add: free_set_def pmm_inv_def bitmap_wf_def)
  then have "i < 2 ^ 52" by simp
  then have a: "a \<noteq> PADDR_INVALID" unfolding i(2) by (rule PFN_TO_PADDR_valid)
  from alloc_table [OF inv alloc a] obtain t where t: "a = PFN_TO_PADDR t" "t \<in> free_set (mm_pmm m)" "t < 524288"
    "pmm_inv p" "used_set p = insert t (used_set (mm_pmm m))" "free_set p = free_set (mm_pmm m) - {t}"
    "\<And>f. phys_mem p f = (if f = t then (\<lambda>_. 0) else phys_mem (mm_pmm m) f)" by blast
  let ?m = "m\<lparr>mm_pmm := p\<rparr>"
  have tu: "t \<notin> used_set (mm_pmm m)" using t(2) by (auto simp: free_set_def used_set_def)
  have wf: "space_wf m (get_page_directory m 0)" using ok by (simp add: space_ok_def)
  have "space_ok 0 ?m"
  proof (rule space_ok_frame(1) [OF ok _ _ _ _ refl])
    fix f assume "f = get_page_directory m 0 \<or> f \<in> tables m (get_page_directory m 0)"
    then have "f \<noteq> t" using wf tu by (auto simp: space_wf_def tables_def)
    then show "phys_mem (mm_pmm ?m) f = phys_mem (mm_pmm m) f" by (simp add: t(7))
  qed (use t in auto)
  then have wf': "pmm_inv (mm_pmm ?m)" "space_wf ?m (get_page_directory ?m 0)" by (simp_all add: space_ok_def)
  have ua: "unat (ucast a :: u32) = t * 4096"
    using t(1,3) by (subst unat_ucast_low) (simp_all add: unat_PFN_TO_PADDR)
  then have al2: "(base OR ucast a) AND 0xFFF = 0"
    using al unfolding aligned_or take12_unat by simp
  have "(ucast (ucast (ucast a :: u32) :: paddr) :: u32) = ucast a" by (rule bit_word_eqI) (auto simp: bit_simps)
  then have "(base OR ucast (ucast (ucast a :: u32) :: paddr)) AND 0xFFF = 0" by (simp only: al2)
  moreover have "free_set (mm_pmm ?m) \<noteq> {}" using free t(6) by auto
  ultimately obtain s1 where "hal_mmu_map ?m 0 base (ucast (ucast a :: u32))
      (vmm_flags_to_hal (PAGE_PRESENT OR PAGE_WRITE)) = (True, s1)"
    using hal_mmu_map_cases [OF wf' _ refl, of base "ucast (ucast a :: u32)"
        "vmm_flags_to_hal (PAGE_PRESENT OR PAGE_WRITE)"] by blast
  then have "fst (vmm_map_page base (ucast a) (PAGE_PRESENT OR PAGE_WRITE) ?m)"
    unfolding vmm_map_page_def using al2 by (auto simp: Let_def)
  then obtain s2 where "vmm_map_page base (ucast a) (PAGE_PRESENT OR PAGE_WRITE) ?m = (True, s2)"
    by (metis prod.collapse)
  then show ?thesis using alloc a by (simp add: expand_step_def)
qed

section \<open>Sequences of calls\<close>

text \<open>A client of the heap: it allocates, and frees blocks it holds.  The list of blocks it holds, with
  the sizes it asked for, is kept beside the heap.\<close>

datatype heap_call = Malloc u32 | Free u32

fun heap_run :: "heap_call list \<Rightarrow> (u32 \<times> u32) list \<Rightarrow> heap_state \<Rightarrow> ((u32 \<times> u32) list \<times> heap_state) option" where
  "heap_run [] held s = Some (held, s)"
| "heap_run (Malloc sz # cs) held s =
     (case kmalloc sz s of None \<Rightarrow> None
      | Some (p, s') \<Rightarrow> heap_run cs (if p = 0 then held else (p, sz) # held) s')"
| "heap_run (Free p # cs) held s =
     (if p \<in> set (map fst held) then heap_run cs (filter (\<lambda>x. fst x \<noteq> p) held) (kfree p s)
      else heap_run cs held s)"

definition holds :: "(u32 \<times> u32) list \<Rightarrow> heap_state \<Rightarrow> u32 list \<Rightarrow> bool" where
  "holds held s bs \<longleftrightarrow> distinct (map fst held)
     \<and> (\<forall>(p, n) \<in> set held. \<exists>m. (p - HEADER, m) \<in> set (allocated s bs) \<and> unat n \<le> unat m)"

definition held_disjoint :: "(u32 \<times> u32) list \<Rightarrow> heap_state \<Rightarrow> bool" where
  "held_disjoint held s \<longleftrightarrow>
     (\<forall>(p, n) \<in> set held. unat (heap_start s) + 20 \<le> unat p \<and> unat p + unat n \<le> unat (heap_end s) \<and> unat p mod 4 = 0
        \<and> (\<forall>(q, m) \<in> set held. p \<noteq> q \<longrightarrow> unat p + unat n \<le> unat q \<or> unat q + unat m \<le> unat p))"

lemma sorted_wrt_pair: "sorted_wrt R xs \<Longrightarrow> x \<in> set xs \<Longrightarrow> y \<in> set xs \<Longrightarrow> x = y \<or> R x y \<or> R y x"
  by (induction xs) auto

lemma holds_disjoint:
  assumes inv: "heap_inv s bs" and h: "holds held s bs"
  shows "held_disjoint held s"
proof -
  have el: "\<exists>k. (p - HEADER, k) \<in> set (allocated s bs) \<and> unat n \<le> unat k \<and> unat p = unat (p - HEADER) + 20"
    if pn: "(p, n) \<in> set held" for p n
  proof -
    obtain k where k: "(p - HEADER, k) \<in> set (allocated s bs)" "unat n \<le> unat k"
      using h pn by (fastforce simp: holds_def)
    then show ?thesis using allocated_bounds[OF inv k(1)] by auto
  qed
  have one: "unat (heap_start s) + 20 \<le> unat p \<and> unat p + unat n \<le> unat (heap_end s) \<and> unat p mod 4 = 0"
    if pn: "(p, n) \<in> set held" for p n
  proof -
    obtain k where k: "(p - HEADER, k) \<in> set (allocated s bs)" "unat n \<le> unat k" "unat p = unat (p - HEADER) + 20"
      using el[OF pn] by blast
    note b = allocated_bounds[OF inv k(1)]
    have "(unat (p - HEADER) + 20) mod 4 = 0" using b aligned_stop[of _ 0] by simp
    then have "unat p mod 4 = 0" by (simp only: k(3))
    moreover have "unat (heap_start s) + 20 \<le> unat p" "unat p + unat n \<le> unat (heap_end s)"
      using b k(2,3) by linarith+
    ultimately show ?thesis by blast
  qed
  have two: "unat p + unat n \<le> unat q \<or> unat q + unat m \<le> unat p"
    if pq: "(p, n) \<in> set held" "(q, m) \<in> set held" "p \<noteq> q" for p n q m
  proof -
    obtain k1 k2 where k: "(p - HEADER, k1) \<in> set (allocated s bs)" "unat n \<le> unat k1" "unat p = unat (p - HEADER) + 20"
      "(q - HEADER, k2) \<in> set (allocated s bs)" "unat m \<le> unat k2" "unat q = unat (q - HEADER) + 20"
      using el[OF pq(1)] el[OF pq(2)] by blast
    have "unat (p - HEADER) + 20 + unat k1 \<le> unat (q - HEADER)
      \<or> unat (q - HEADER) + 20 + unat k2 \<le> unat (p - HEADER)"
      using sorted_wrt_pair[OF allocated_sorted[OF inv] k(1,4)] pq(3) by auto
    then show ?thesis using k by linarith
  qed
  show ?thesis unfolding held_disjoint_def using one two by blast
qed

lemma holds_malloc:
  assumes inv: "heap_inv s bs" "heap_inv s' bs'" and h: "holds held s bs"
    and a: "allocated s bs = l1 @ l2" "allocated s' bs' = l1 @ (p - HEADER, n) # l2" "unat sz \<le> unat n"
  shows "holds ((p, sz) # held) s' bs'"
proof -
  have "(p - HEADER, m) \<notin> set (allocated s bs)" for m
    using allocated_sorted[OF inv(2)] by (fastforce simp: a sorted_wrt_append)
  then have "p \<notin> set (map fst held)" using h by (fastforce simp: holds_def)
  moreover have "set (allocated s bs) \<subseteq> set (allocated s' bs')" by (auto simp: a)
  ultimately show ?thesis using h a(2,3) unfolding holds_def by fastforce
qed

lemma holds_free:
  assumes inv: "heap_inv s bs" and h: "holds held s bs" "p \<in> set (map fst held)"
  shows "\<exists>bs'. heap_inv (kfree p s) bs' \<and> holds (filter (\<lambda>x. fst x \<noteq> p) held) (kfree p s) bs'"
proof -
  obtain m where m: "(p - HEADER, m) \<in> set (allocated s bs)" using h by (fastforce simp: holds_def)
  obtain xs ys where bs: "bs = xs @ (p - HEADER) # ys"
      "remove1 (p - HEADER, m) (allocated s bs) = allocated s xs @ allocated s ys"
    using allocated_split[OF inv m] by blast
  obtain bs' where bs': "heap_inv (kfree p s) bs'" "allocated (kfree p s) bs' = remove1 (p - HEADER, m) (allocated s bs)"
    using kfree_law[of s xs "p - HEADER" ys] inv bs by auto
  have "(q - HEADER, k) \<in> set (remove1 (p - HEADER, m) (allocated s bs))"
    if "(q - HEADER, k) \<in> set (allocated s bs)" "q \<noteq> p" for q k
    using that by (simp add: in_set_remove1)
  then have "holds (filter (\<lambda>x. fst x \<noteq> p) held) (kfree p s) bs'"
    using h(1) unfolding holds_def bs'(2) by (fastforce simp: distinct_map_filter)
  then show ?thesis using bs'(1) by blast
qed

lemma coalesce_frame:
  "heap_end (coalesce_next b s) = heap_end s" "heap_max (coalesce_next b s) = heap_max s"
  "heap_end (coalesce_prev b s) = heap_end s" "heap_max (coalesce_prev b s) = heap_max s"
  "heap_mem (coalesce_next b s) = heap_mem s" "heap_mem (coalesce_prev b s) = heap_mem s"
  by (simp_all add: coalesce_next_def coalesce_prev_def Let_def)

lemma kfree_frame:
  "heap_end (kfree p s) = heap_end s" "heap_max (kfree p s) = heap_max s" "heap_mem (kfree p s) = heap_mem s"
proof -
  have "heap_end (coalesce b t) = heap_end t" "heap_max (coalesce b t) = heap_max t"
    "heap_mem (coalesce b t) = heap_mem t" for b t
    unfolding coalesce_def Let_def by (simp_all only: if_distrib[of heap_end] if_distrib[of heap_max]
        if_distrib[of heap_mem] coalesce_frame if_cancel)
  then show "heap_end (kfree p s) = heap_end s" "heap_max (kfree p s) = heap_max s"
    "heap_mem (kfree p s) = heap_mem s" by (simp_all add: kfree_def Let_def)
qed

lemma expand_full:
  assumes "heap_max s = heap_end s" "unat (heap_end s) + unat sz0 + 8192 < 4294967296"
  shows "expand (round4 sz0 + HEADER) s = (False, s)"
proof -
  have r: "unat (round4 sz0) \<le> unat sz0 + 3" using unat_round4[of sz0] assms(2) by linarith
  have k: "unat (round4 sz0 + HEADER) = unat (round4 sz0) + 20"
    by (subst unat_add_no_wrap) (use r assms in simp_all)
  let ?d = "(round4 sz0 + HEADER + 4096 - 1) div 4096 * 4096"
  have d: "unat ?d = (unat (round4 sz0 + HEADER) + 4095) div 4096 * 4096"
    by (rule expand_amount) (use k r assms in simp)
  have "unat ?d \<le> unat (round4 sz0) + 20 + 4095" "0 < unat ?d"
    using page_round[of "unat (round4 sz0 + HEADER)"] unfolding d k by linarith+
  then have "unat (heap_end s + ?d) = unat (heap_end s) + unat ?d" "0 < unat ?d"
    using r assms by (auto intro!: unat_add_no_wrap)
  then show ?thesis using assms(1) by (simp add: expand_def Let_def word_less_nat_alt)
qed

lemma heap_run_law:
  assumes "heap_inv s bs" "holds held s bs" "heap_max s = heap_end s"
    "\<forall>c \<in> set cs. \<forall>sz. c = Malloc sz \<longrightarrow> unat (heap_end s) + unat sz + 8192 < 4294967296"
  shows "\<exists>held' s' bs'. heap_run cs held s = Some (held', s') \<and> heap_inv s' bs' \<and> holds held' s' bs'"
  using assms
proof (induction cs held s arbitrary: bs rule: heap_run.induct)
  case (2 sz cs held s)
  note IH = "2.IH" and inv = "2.prems"(1) and h = "2.prems"(2)
  have sz: "unat (heap_end s) + unat sz + 8192 < 4294967296" "unat sz + 3 < 4294967296" using "2.prems"(4) by fastforce+
  consider "sz = 0" | "sz \<noteq> 0" "fits s bs sz" | "sz \<noteq> 0" "\<not> fits s bs sz" by blast
  then show ?case
  proof cases
    case 1
    then have "kmalloc sz s = Some (0, s)" by (simp add: kmalloc_def)
    with IH[OF this refl] "2.prems" show ?thesis by auto
  next
    case 2
    from kmalloc_found[OF inv 2(1) sz(2) 2(2)] obtain p s' bs' n l1 l2 where k: "kmalloc sz s = Some (p, s')"
      "heap_inv s' bs'" "unat sz \<le> unat n" "p \<noteq> 0" "heap_end s' = heap_end s" "heap_max s' = heap_max s"
      "allocated s bs = l1 @ l2" "allocated s' bs' = l1 @ (p - HEADER, n) # l2" by blast
    have "holds ((p, sz) # held) s' bs'" by (rule holds_malloc[OF inv k(2) h k(7,8,3)])
    with IH[OF k(1) refl, of bs'] k "2.prems" show ?thesis by auto
  next
    case 3
    have "kmalloc sz s = Some (0, s)"
      using kmalloc_full[OF inv 3 expand_full] "2.prems" sz by auto
    with IH[OF this refl] "2.prems" show ?thesis by auto
  qed
next
  case (3 p cs held s)
  show ?case
  proof (cases "p \<in> set (map fst held)")
    case True
    from holds_free[OF "3.prems"(1,2) True] obtain bs' where
      "heap_inv (kfree p s) bs'" "holds (filter (\<lambda>x. fst x \<noteq> p) held) (kfree p s) bs'" by blast
    with "3.IH"(1)[OF True, of bs'] "3.prems" True show ?thesis by (simp add: kfree_frame)
  next
    case False
    with "3.IH"(2)[OF False, of bs] "3.prems" show ?thesis by simp
  qed
qed auto

section \<open>Correctness of the allocator\<close>

definition heap_sample :: heap_state where
  "heap_sample = \<lparr>heap_start = 0xC0000000, heap_end = 0xC0001000, heap_max = 0xC0002000,
     first_block = 0xC0000000, last_block = 0xC0000000,
     blocks = (\<lambda>_. \<lparr>hb_size = 0, hb_free = False, hb_next = 0, hb_prev = 0, hb_magic = 0\<rparr>)
       (0xC0000000 := \<lparr>hb_size = 4076, hb_free = True, hb_next = 0, hb_prev = 0, hb_magic = HEAP_MAGIC\<rparr>),
     heap_mem = (\<lambda>_. 0), heap_mm = mm_sample\<rparr>"

lemma heap_sample_inv: "heap_inv heap_sample [0xC0000000]" "allocated heap_sample [0xC0000000] = []"
  by (simp_all add: heap_inv_def heap_sample_def block_ok_def block_stop_def)





text \<open>
  C18: release.  Freeing an allocated block of a well-formed heap leaves a well-formed heap whose
  allocated blocks are exactly the others: merging with free neighbours moves no allocated block and
  changes no size of one.  The recorded last block stays the last one if it was.
\<close>

theorem kfree_correct:
  assumes inv: "heap_inv s bs" and b: "(b, n) \<in> set (allocated s bs)"
  shows "\<exists>bs'. heap_inv (kfree (b + HEADER) s) bs' \<and> allocated (kfree (b + HEADER) s) bs' = remove1 (b, n) (allocated s bs)
    \<and> (last_block s = last bs \<longrightarrow> last_block (kfree (b + HEADER) s) = last bs')"
proof -
  obtain xs ys where "bs = xs @ b # ys" "remove1 (b, n) (allocated s bs) = allocated s xs @ allocated s ys"
    using allocated_split[OF inv b] by blast
  then show ?thesis using kfree_law[of s xs b ys] inv by auto
qed

definition heap_used_sample :: heap_state where
  "heap_used_sample = upd_block 0xC0000000 (\<lambda>h. h\<lparr>hb_free := False\<rparr>) heap_sample"

theorem kfree_correct_witness:
  "\<exists>bs'. heap_inv (kfree 0xC0000014 heap_used_sample) bs' \<and> allocated (kfree 0xC0000014 heap_used_sample) bs' = []"
proof -
  have "heap_inv heap_used_sample [0xC0000000]" "allocated heap_used_sample [0xC0000000] = [(0xC0000000, 4076)]"
    using heap_sample_inv by (simp_all add: heap_used_sample_def set_free_inv) (simp_all add: heap_sample_def)
  then show ?thesis using kfree_correct[of heap_used_sample "[0xC0000000]" "0xC0000000" 4076] by auto
qed

text \<open>
  C13: memory safety of a heap that is at its limit and cannot grow.  Whatever sequence of allocations
  and releases a client issues, as long as no size it asks for would carry the end of the heap (with
  two pages to spare) past 4 GB, every call returns, and the blocks the client holds lie inside the
  heap, are aligned and pairwise disjoint for the sizes it asked for.
\<close>

theorem heap_run_disjoint:
  assumes "heap_inv s bs" "allocated s bs = []" "heap_max s = heap_end s"
    "\<forall>c \<in> set cs. \<forall>sz. c = Malloc sz \<longrightarrow> unat (heap_end s) + unat sz + 8192 < 4294967296"
  shows "\<exists>held s'. heap_run cs [] s = Some (held, s') \<and> held_disjoint held s'"
proof -
  have "holds [] s bs" by (simp add: holds_def)
  from heap_run_law[OF assms(1) this assms(3,4)] show ?thesis using holds_disjoint by blast
qed

theorem heap_run_disjoint_witness:
  "\<exists>held s'. heap_run [Malloc 100, Malloc 200, Free 0xC0000014, Malloc 5000] []
      (heap_sample\<lparr>heap_max := 0xC0001000\<rparr>) = Some (held, s') \<and> held_disjoint held s'"
proof (rule heap_run_disjoint)
  show "heap_inv (heap_sample\<lparr>heap_max := 0xC0001000\<rparr>) [0xC0000000]"
    "allocated (heap_sample\<lparr>heap_max := 0xC0001000\<rparr>) [0xC0000000] = []"
    using heap_sample_inv by (simp_all add: heap_inv_def allocated_def)
qed (auto simp: heap_sample_def)

lemma info_loop_chain:
  assumes "chain (blocks s) p 0 e bs"
  shows "info_loop (blocks s) (hd_or 0 bs) (used, free, umd, fmd, cnt, fcnt) =
    Some (used + (\<Sum>(b, n)\<leftarrow>allocated s bs. n), free + (\<Sum>b\<leftarrow>filter (\<lambda>b. hb_free (blocks s b)) bs. hb_size (blocks s b)),
          umd + 20 * of_nat (length (allocated s bs)), fmd + 20 * of_nat (length (filter (\<lambda>b. hb_free (blocks s b)) bs)),
          cnt + of_nat (length bs), fcnt + of_nat (length (filter (\<lambda>b. hb_free (blocks s b)) bs)))"
  using assms
proof (induction bs arbitrary: p used free umd fmd cnt fcnt)
  case Nil show ?case by (subst info_loop.simps) simp
next
  case (Cons b bs)
  then have ok: "block_ok (blocks s) b" "hb_next (blocks s b) = hd_or 0 bs" "chain (blocks s) b 0 e bs" by auto
  show ?case using block_nonzero[OF ok(1)]
    by (subst info_loop.simps) (simp add: ok(2) Cons.IH[OF ok(3)] algebra_simps)
qed

lemma chain_total:
  assumes "chain (blocks s) p n e bs"
  shows "e - hd_or e bs = (\<Sum>b\<leftarrow>bs. hb_size (blocks s b) + 20)"
  using assms
proof (induction bs arbitrary: p)
  case (Cons b bs)
  then have "unat b + 20 + unat (hb_size (blocks s b)) = unat (hd_or e bs)" by (simp add: block_stop_def)
  from arg_cong[OF this, of "of_nat :: nat \<Rightarrow> u32"]
  have "hd_or e bs = b + 20 + hb_size (blocks s b)" by simp
  then have "hd_or e bs - b = hb_size (blocks s b) + 20" by simp
  moreover have "e - hd_or e bs = (\<Sum>b\<leftarrow>bs. hb_size (blocks s b) + 20)" using Cons by auto
  moreover have "e - b = (hd_or e bs - b) + (e - hd_or e bs)" by simp
  ultimately show ?case by simp
qed simp

lemma sizes_split: "(\<Sum>b\<leftarrow>bs. hb_size (blocks s b) + 20) =
    (\<Sum>(b, n)\<leftarrow>allocated s bs. n) + 20 * of_nat (length (allocated s bs))
    + ((\<Sum>b\<leftarrow>filter (\<lambda>b. hb_free (blocks s b)) bs. hb_size (blocks s b))
       + 20 * of_nat (length (filter (\<lambda>b. hb_free (blocks s b)) bs)))"
  by (induction bs) (simp_all add: algebra_simps)

text \<open>
  The statistics add up.  On a well-formed heap \<^verbatim>\<open>heap_get_info\<close> returns; the bytes it reports as
  used are the sizes and headers of the allocated blocks, the block counts are exact, and used and free
  bytes make up the whole heap.
\<close>

theorem heap_get_info_correct:
  assumes inv: "heap_inv s bs"
  shows "\<exists>i. heap_get_info s = Some i \<and> hi_total i = heap_end s - heap_start s
    \<and> hi_used i + hi_free i = hi_total i
    \<and> hi_used i = (\<Sum>(b, n)\<leftarrow>allocated s bs. n) + 20 * of_nat (length (allocated s bs))
    \<and> hi_block_count i = of_nat (length bs)
    \<and> hi_free_block_count i = of_nat (length bs - length (allocated s bs))"
proof -
  have c: "chain (blocks s) 0 0 (heap_end s) bs" and h: "hd_or (heap_end s) bs = heap_start s"
    using inv by (auto simp: heap_inv_def hd_or_def split: list.split)
  have l: "length (filter (\<lambda>b. hb_free (blocks s b)) bs) = length bs - length (allocated s bs)"
    using sum_length_filter_compl[of "\<lambda>b. hb_free (blocks s b)" bs] by (simp add: allocated_def)
  have t: "heap_end s - heap_start s = (\<Sum>b\<leftarrow>bs. hb_size (blocks s b) + 20)"
    using chain_total[OF c] by (simp add: h)
  show ?thesis
    using info_loop_chain[OF c, of 0 0 0 0 0 0] heap_inv_first(1)[OF inv]
    by (simp add: heap_get_info_def t sizes_split l)
qed

theorem heap_get_info_correct_witness:
  "\<exists>i. heap_get_info heap_sample = Some i \<and> hi_total i = 4096 \<and> hi_used i = 0 \<and> hi_free i = 4096
     \<and> hi_block_count i = 1"
  using heap_get_info_correct[OF heap_sample_inv(1)] heap_sample_inv(2) by (auto simp: heap_sample_def)

section \<open>A stale last block\<close>

lemma search_block_0 [simp]: "search_block st sz 0 = Some Not_found"
  by (subst search_block.simps) simp

lemma search_block_hit:
  "KERNEL_VIRTUAL_BASE \<le> b \<Longrightarrow> hb_magic (st b) = HEAP_MAGIC \<Longrightarrow> hb_free (st b) \<Longrightarrow> sz \<le> hb_size (st b) \<Longrightarrow>
   search_block st sz b = Some (Found b)"
  by (subst search_block.simps) (auto simp: not_less)

lemma search_block_next:
  "KERNEL_VIRTUAL_BASE \<le> b \<Longrightarrow> hb_magic (st b) = HEAP_MAGIC \<Longrightarrow> \<not> (hb_free (st b) \<and> sz \<le> hb_size (st b)) \<Longrightarrow>
   search_block st sz b = search_block st sz (hb_next (st b))"
  by (subst search_block.simps) (auto simp: not_less)

lemma expand_sample:
  assumes "heap_end s = 0xC0001000" "heap_max s = 0xC0002000" "heap_mm s = mm_sample"
  shows "expand 120 s = (True, s\<lparr>heap_mm := snd (expand_step 0xC0001000 0 mm_sample), heap_end := 0xC0002000\<rparr>)"
proof -
  have "fst (expand_step 0xC0001000 0 mm_sample)"
    by (rule expand_step_ok[OF mm_sample_ok, of 1 2]) (simp_all add: mm_sample_def pmm_sample_sets)
  then obtain m where m: "expand_step 0xC0001000 0 mm_sample = (True, m)" by (metis prod.collapse)
  then show ?thesis using assms by (simp add: expand_def Let_def)
qed

definition chunk :: "u32 \<Rightarrow> bool \<Rightarrow> u32 \<Rightarrow> u32 \<Rightarrow> heap_block" where
  "chunk sz fr n p = \<lparr>hb_size = sz, hb_free = fr, hb_next = n, hb_prev = p, hb_magic = HEAP_MAGIC\<rparr>"

definition heap_at :: "u32 \<Rightarrow> u32 \<Rightarrow> mm_state \<Rightarrow> (u32 \<Rightarrow> heap_block) \<Rightarrow> heap_state" where
  "heap_at e l m f = heap_sample\<lparr>heap_end := e, last_block := l, heap_mm := m, blocks := f\<rparr>"

lemma chunk_sel [simp]:
  "hb_size (chunk sz fr n p) = sz" "hb_free (chunk sz fr n p) = fr" "hb_next (chunk sz fr n p) = n"
  "hb_prev (chunk sz fr n p) = p" "hb_magic (chunk sz fr n p) = HEAP_MAGIC"
  "(chunk sz fr n p)\<lparr>hb_size := sz'\<rparr> = chunk sz' fr n p" "(chunk sz fr n p)\<lparr>hb_free := fr'\<rparr> = chunk sz fr' n p"
  "(chunk sz fr n p)\<lparr>hb_next := n'\<rparr> = chunk sz fr n' p" "(chunk sz fr n p)\<lparr>hb_prev := p'\<rparr> = chunk sz fr n p'"
  by (simp_all add: chunk_def)

lemma heap_at_sel [simp]:
  "heap_end (heap_at e l m f) = e" "last_block (heap_at e l m f) = l" "heap_mm (heap_at e l m f) = m"
  "blocks (heap_at e l m f) = f" "first_block (heap_at e l m f) = 0xC0000000" "heap_max (heap_at e l m f) = 0xC0002000"
  "(heap_at e l m f)\<lparr>heap_end := e'\<rparr> = heap_at e' l m f" "(heap_at e l m f)\<lparr>last_block := l'\<rparr> = heap_at e l' m f"
  "(heap_at e l m f)\<lparr>heap_mm := m'\<rparr> = heap_at e l m' f" "(heap_at e l m f)\<lparr>blocks := f'\<rparr> = heap_at e l m f'"
  by (simp_all add: heap_at_def heap_sample_def)

lemma upd_heap_at [simp]: "upd_block b g (heap_at e l m f) = heap_at e l m (f(b := g (f b)))"
  by (simp add: upd_block_def)

lemmas heap_eval = kmalloc_def kfree_def split_def coalesce_def coalesce_next_def coalesce_prev_def append_block_def
  search_block_hit search_block_next expand_sample Let_def chunk_def[symmetric]

definition stale_calls :: "heap_call list" where
  "stale_calls = [Malloc 100, Malloc 3956, Malloc 100, Free 0xC0000014, Free 0xC000008C,
     Malloc 100, Malloc 3956, Free 0xC0000014, Free 0xC0001014, Malloc 4000]"

lemma heap_sample_at:
  "heap_sample = heap_at 0xC0001000 0xC0000000 mm_sample ((blocks heap_sample)(0xC0000000 := chunk 4076 True 0 0))"
  by (simp add: heap_at_def heap_sample_def chunk_def)

text \<open>
  C19: an overlapping allocation.  \<^verbatim>\<open>split\<close> does not move \<^verbatim>\<open>last_block\<close> when it splits the last
  block, so a later growth of the heap links the new block behind the wrong one and drops the block in
  between from the list.  From a fresh one-page heap that can grow by a page, ten calls, each of which
  frees only pointers the caller holds, end with a live block of 3956 bytes at \<open>0xC000008C\<close> inside a
  live block of 4000 bytes at \<open>0xC0000014\<close>.
\<close>

theorem kmalloc_overlap:
  "\<exists>held s. heap_run stale_calls [] heap_sample = Some (held, s)
     \<and> (0xC000008C, 3956) \<in> set held \<and> (0xC0000014, 4000) \<in> set held \<and> \<not> held_disjoint held s"
proof -
  have "\<exists>s. heap_run stale_calls [] heap_sample = Some ([(0xC0000014, 4000), (0xC000008C, 3956)], s)"
    by (subst heap_sample_at) (simp add: stale_calls_def heap_eval)
  then show ?thesis by (auto simp: held_disjoint_def)
qed

section \<open>Aligned allocation\<close>

lemma load32_store32: "load32 (store32 m a v) a = v"
proof (rule bit_word_eqI)
  fix n :: nat
  consider "24 \<le> n" | "16 \<le> n \<and> n < 24" | "8 \<le> n \<and> n < 16" | "n < 8" by linarith
  then show "bit (load32 (store32 m a v) a) n = bit v n" if "n < LENGTH(32)"
    using that by cases (auto simp: load32_def store32_def bit_simps)
qed

lemma power_of_two_mask:
  assumes "al = 2 ^ k" "k < 32"
  shows "al - 1 = (mask k :: u32)" "unat (al :: u32) = 2 ^ k"
proof -
  show "al - 1 = mask k" using assms by (simp add: mask_eq_exp_minus_1)
  have "(2 :: nat) ^ k < 2 ^ 32" using assms(2) by (intro power_strict_increasing) simp_all
  then show "unat al = 2 ^ k" using unat_of_nat_u32[of "2 ^ k"] by (simp add: assms(1))
qed

text \<open>
  Aligned allocation.  For a power-of-two alignment of at least four bytes,
  \<^verbatim>\<open>kmalloc_aligned\<close> returns an address that is a multiple of the alignment, with room for the
  requested size inside the block obtained from \<^verbatim>\<open>kmalloc\<close> and for the saved pointer before it; and
  \<^verbatim>\<open>kfree_aligned\<close> frees exactly that block.
\<close>

theorem kmalloc_aligned_correct:
  assumes al: "al = 2 ^ k" "2 \<le> k" "k < 32" and sz: "sz \<noteq> 0"
    and raw: "kmalloc (sz + (al - 1 + 4)) s = Some (raw, s1)" "raw \<noteq> 0"
    and fit: "unat raw + unat sz + 2 ^ k + 3 < 4294967296"
  shows "\<exists>q s'. kmalloc_aligned sz al s = Some (q, s') \<and> unat q mod 2 ^ k = 0
    \<and> unat raw + 4 \<le> unat q \<and> unat q + unat sz \<le> unat raw + (unat sz + (2 ^ k - 1 + 4))
    \<and> kfree_aligned q s' = kfree raw s'"
proof -
  note p = power_of_two_mask[OF al(1,3)]
  have k4: "(4 :: nat) \<le> 2 ^ k" using power_increasing[OF al(2), of "2 :: nat"] by simp
  have n4: "\<not> al < 4" using k4 by (simp add: word_less_nat_alt p(2))
  have nz: "al \<noteq> 0" using k4 p(2) by (metis not_numeral_le_zero unsigned_0)
  have a0: "al AND (al - 1) = 0" unfolding p(1) unfolding al(1)
    by (rule bit_word_eqI) (auto simp: bit_simps)
  define q where "q = (raw + 4 + al - 1) AND NOT (al - 1)"
  have "unat (al - 1) = 2 ^ k - 1" using k4 p(2) by (simp add: unat_sub_wrap)
  then have u: "unat (raw + 4 + (al - 1)) = unat raw + 4 + (2 ^ k - 1)"
    using fit k4 unat_add_no_wrap[of raw 4] unat_add_no_wrap[of "raw + 4" "al - 1"] by simp
  have q: "unat q = (unat raw + 4 + (2 ^ k - 1)) div 2 ^ k * 2 ^ k"
    unfolding q_def add_diff_eq[symmetric] u[symmetric] unfolding p(1) by (rule unat_and_not_mask)
  have "(unat raw + 4 + (2 ^ k - 1)) mod 2 ^ k < 2 ^ k" by simp
  then have r: "unat raw + 4 \<le> unat q" "unat q \<le> unat raw + 4 + (2 ^ k - 1)"
    using div_mult_mod_eq[of "unat raw + 4 + (2 ^ k - 1)" "2 ^ k"] q by linarith+
  have qz: "q \<noteq> 0" using r by auto
  let ?s' = "s1\<lparr>heap_mem := store32 (heap_mem s1) (q - 4) raw\<rparr>"
  have "kmalloc_aligned sz al s = Some (q, ?s')"
    using sz nz a0 n4 raw by (simp add: kmalloc_aligned_def Let_def q_def)
  moreover have "kfree_aligned q ?s' = kfree raw ?s'"
    using qz by (simp add: kfree_aligned_def load32_store32)
  moreover have "unat q mod 2 ^ k = 0" using q by simp
  moreover have "unat q + unat sz \<le> unat raw + (unat sz + (2 ^ k - 1 + 4))" using r(2) by linarith
  ultimately show ?thesis using r(1) by (intro exI[of _ q] exI[of _ ?s'] conjI)
qed

theorem kmalloc_aligned_correct_witness:
  "\<exists>q s'. kmalloc_aligned 100 4096 (heap_sample\<lparr>blocks := (\<lambda>_. chunk 0 False 0 0)
      (0xC0000000 := chunk 8172 True 0 0)\<rparr>) = Some (q, s') \<and> unat q mod 4096 = 0
    \<and> kfree_aligned q s' = kfree 0xC0000014 s'"
proof -
  let ?s = "heap_sample\<lparr>blocks := (\<lambda>_. chunk 0 False 0 0)(0xC0000000 := chunk 8172 True 0 0)\<rparr>"
  obtain s1 where "kmalloc (100 + (4096 - 1 + 4)) ?s = Some (0xC0000014, s1)"
    by (simp add: heap_eval) (simp add: heap_sample_def search_block_hit)
  from kmalloc_aligned_correct[OF _ _ _ _ this, of 12] show ?thesis by auto
qed

end
