(* ===== verification/Sync.thy ===== *)
theory Sync
  imports Prelude
begin

text \<open>
  Locks of the kernel: \<^verbatim>\<open>src/src/kernel/sync/spinlock.c\<close>, \<^verbatim>\<open>mutex.c\<close> and \<^verbatim>\<open>semaphore.c\<close>.
  A pointer argument that may be null is an \<open>option\<close>.  The body of a mutex or semaphore operation runs
  under the object's spin lock with interrupts off and is one atomic function here; what makes that
  right is the mutual exclusion of the spin lock, proved over the interleavings of its atomic exchanges.
  The waiting loops of \<^verbatim>\<open>mutex_lock\<close> and \<^verbatim>\<open>semaphore_wait\<close> are modelled by one attempt each, whose
  result says whether the caller blocks and tries again.
\<close>

section \<open>Spin locks\<close>

record spinlock_t =
  sl_value :: u32

abbreviation (input) SPINLOCK_UNLOCKED :: u32 where "SPINLOCK_UNLOCKED \<equiv> 0"
abbreviation (input) SPINLOCK_LOCKED :: u32 where "SPINLOCK_LOCKED \<equiv> 1"

definition atomic_xchg :: "u32 \<Rightarrow> spinlock_t \<Rightarrow> u32 \<times> spinlock_t" where
  "atomic_xchg v l = (sl_value l, l\<lparr>sl_value := v\<rparr>)"

definition spinlock_init :: "spinlock_t option \<Rightarrow> spinlock_t option" where
  "spinlock_init p = (case p of None \<Rightarrow> None | Some l \<Rightarrow> Some (l\<lparr>sl_value := SPINLOCK_UNLOCKED\<rparr>))"

definition spinlock_try_lock :: "spinlock_t option \<Rightarrow> bool \<times> spinlock_t option" where
  "spinlock_try_lock p =
     (case p of None \<Rightarrow> (False, None)
      | Some l \<Rightarrow> (case atomic_xchg SPINLOCK_LOCKED l of (old, l') \<Rightarrow> (old = SPINLOCK_UNLOCKED, Some l')))"

definition spinlock_unlock :: "spinlock_t option \<Rightarrow> spinlock_t option" where
  "spinlock_unlock p = (case p of None \<Rightarrow> None | Some l \<Rightarrow> Some (snd (atomic_xchg SPINLOCK_UNLOCKED l)))"

definition spinlock_is_locked :: "spinlock_t option \<Rightarrow> bool" where
  "spinlock_is_locked p = (case p of None \<Rightarrow> False | Some l \<Rightarrow> sl_value l = SPINLOCK_LOCKED)"

text \<open>
  The program points of a processor around one lock, and the interrupt flag it had when it asked for
  the lock: outside, between \<^verbatim>\<open>interrupts_disable\<close> and a successful exchange, and holding the lock.
\<close>

datatype spin_pc = Outside | Spinning bool | Inside bool

record spin_system =
  sp_lock :: spinlock_t
  sp_pc :: "nat \<Rightarrow> spin_pc"
  sp_irq :: "nat \<Rightarrow> bool"

definition irqsave_enter :: "nat \<Rightarrow> spin_system \<Rightarrow> spin_system" where
  "irqsave_enter c s = s\<lparr>sp_pc := (sp_pc s)(c := Spinning (sp_irq s c)), sp_irq := (sp_irq s)(c := False)\<rparr>"

definition spin_once :: "nat \<Rightarrow> bool \<Rightarrow> spin_system \<Rightarrow> spin_system" where
  "spin_once c prev s =
     (case spinlock_try_lock (Some (sp_lock s)) of
        (True, Some l) \<Rightarrow> s\<lparr>sp_lock := l, sp_pc := (sp_pc s)(c := Inside prev)\<rparr>
      | (False, Some l) \<Rightarrow> s\<lparr>sp_lock := l\<rparr>
      | (_, None) \<Rightarrow> s)"

definition irqrestore_leave :: "nat \<Rightarrow> bool \<Rightarrow> spin_system \<Rightarrow> spin_system" where
  "irqrestore_leave c prev s =
     (case spinlock_unlock (Some (sp_lock s)) of
        Some l \<Rightarrow> s\<lparr>sp_lock := l, sp_pc := (sp_pc s)(c := Outside), sp_irq := (sp_irq s)(c := prev)\<rparr>
      | None \<Rightarrow> s)"

inductive spin_step :: "spin_system \<Rightarrow> spin_system \<Rightarrow> bool" where
  enter: "sp_pc s c = Outside \<Longrightarrow> spin_step s (irqsave_enter c s)"
| spin: "sp_pc s c = Spinning prev \<Longrightarrow> spin_step s (spin_once c prev s)"
| leave: "sp_pc s c = Inside prev \<Longrightarrow> spin_step s (irqrestore_leave c prev s)"

inductive spin_reachable :: "spin_system \<Rightarrow> bool" where
  init: "sl_value (sp_lock s) = SPINLOCK_UNLOCKED \<Longrightarrow> \<forall>c. sp_pc s c = Outside \<Longrightarrow> spin_reachable s"
| step: "spin_reachable s \<Longrightarrow> spin_step s s' \<Longrightarrow> spin_reachable s'"

inductive_cases spin_stepE: "spin_step s s'"

definition spin_holders :: "spin_system \<Rightarrow> nat set" where
  "spin_holders s = {c. \<exists>b. sp_pc s c = Inside b}"

definition spin_inv :: "spin_system \<Rightarrow> bool" where
  "spin_inv s \<longleftrightarrow>
     (sl_value (sp_lock s) = SPINLOCK_UNLOCKED \<and> spin_holders s = {}
      \<or> sl_value (sp_lock s) = SPINLOCK_LOCKED \<and> (\<exists>c. spin_holders s = {c}))
     \<and> (\<forall>c. sp_pc s c \<noteq> Outside \<longrightarrow> \<not> sp_irq s c)"

section \<open>Mutexes\<close>

record mutex_t =
  mx_locked :: bool
  mx_owner_pid :: u32
  mx_recursion :: u32

definition mutex_init :: "mutex_t \<Rightarrow> mutex_t" where
  "mutex_init m = m\<lparr>mx_locked := False, mx_owner_pid := 0, mx_recursion := 0\<rparr>"

definition mutex_try_lock :: "u32 option \<Rightarrow> mutex_t \<Rightarrow> bool \<times> mutex_t" where
  "mutex_try_lock current m =
     (if \<not> mx_locked m
      then (True, m\<lparr>mx_locked := True, mx_owner_pid := (case current of Some pid \<Rightarrow> pid | None \<Rightarrow> 0),
                    mx_recursion := 1\<rparr>)
      else case current of
             Some pid \<Rightarrow> if mx_owner_pid m = pid then (True, m\<lparr>mx_recursion := mx_recursion m + 1\<rparr>) else (False, m)
           | None \<Rightarrow> (False, m))"

datatype attempt = Acquired | Blocked | Returned

text \<open>One round of the loop of \<^verbatim>\<open>mutex_lock\<close>; \<open>Returned\<close> is the early return without a current task.\<close>

definition mutex_lock :: "u32 option \<Rightarrow> mutex_t \<Rightarrow> attempt \<times> mutex_t" where
  "mutex_lock current m =
     (case current of
        None \<Rightarrow> (Returned, m)
      | Some pid \<Rightarrow>
          if \<not> mx_locked m
          then (Acquired, m\<lparr>mx_locked := True, mx_owner_pid := pid, mx_recursion := 1\<rparr>)
          else if mx_owner_pid m = pid then (Acquired, m\<lparr>mx_recursion := mx_recursion m + 1\<rparr>)
          else (Blocked, m))"

text \<open>\<^verbatim>\<open>mutex_unlock\<close> also says whether it wakes up the waiters.\<close>

definition mutex_unlock :: "u32 option \<Rightarrow> mutex_t \<Rightarrow> bool \<times> mutex_t" where
  "mutex_unlock current m =
     (case current of
        None \<Rightarrow> (False, m)
      | Some pid \<Rightarrow>
          if \<not> mx_locked m then (False, m)
          else if mx_owner_pid m \<noteq> pid then (False, m)
          else let m1 = m\<lparr>mx_recursion := mx_recursion m - 1\<rparr> in
            if mx_recursion m1 = 0 then (True, m1\<lparr>mx_locked := False, mx_owner_pid := 0\<rparr>)
            else (False, m1))"

definition mutex_is_locked :: "mutex_t \<Rightarrow> bool" where
  "mutex_is_locked m = mx_locked m"

section \<open>Semaphores\<close>

text \<open>The counter is an \<^verbatim>\<open>int32_t\<close>; the code never lets it overflow.\<close>

record semaphore_t =
  sem_count :: int

abbreviation (input) INT32_MAX :: int where "INT32_MAX \<equiv> 2147483647"

definition semaphore_init :: "int \<Rightarrow> semaphore_t \<Rightarrow> semaphore_t" where
  "semaphore_init n s = s\<lparr>sem_count := n\<rparr>"

definition semaphore_try_consume :: "semaphore_t \<Rightarrow> bool \<times> semaphore_t" where
  "semaphore_try_consume s = (if sem_count s > 0 then (True, s\<lparr>sem_count := sem_count s - 1\<rparr>) else (False, s))"

definition semaphore_wait :: "u32 option \<Rightarrow> semaphore_t \<Rightarrow> attempt \<times> semaphore_t" where
  "semaphore_wait current s =
     (case current of
        None \<Rightarrow> (Returned, s)
      | Some _ \<Rightarrow> (case semaphore_try_consume s of (True, s') \<Rightarrow> (Acquired, s') | (False, s') \<Rightarrow> (Blocked, s')))"

definition semaphore_try_wait :: "semaphore_t \<Rightarrow> bool \<times> semaphore_t" where
  "semaphore_try_wait s = semaphore_try_consume s"

definition semaphore_signal :: "semaphore_t \<Rightarrow> semaphore_t" where
  "semaphore_signal s = (if sem_count s < INT32_MAX then s\<lparr>sem_count := sem_count s + 1\<rparr> else s)"

definition semaphore_get_value :: "semaphore_t \<Rightarrow> int" where
  "semaphore_get_value s = sem_count s"

section \<open>Mutual exclusion of the spin lock\<close>

lemma spin_once_eq:
  "spin_once c prev s = (if sl_value (sp_lock s) = 0
     then s\<lparr>sp_lock := (sp_lock s)\<lparr>sl_value := 1\<rparr>, sp_pc := (sp_pc s)(c := Inside prev)\<rparr>
     else s\<lparr>sp_lock := (sp_lock s)\<lparr>sl_value := 1\<rparr>\<rparr>)"
  by (simp add: spin_once_def spinlock_try_lock_def atomic_xchg_def)

lemma irqrestore_leave_eq:
  "irqrestore_leave c prev s = s\<lparr>sp_lock := (sp_lock s)\<lparr>sl_value := 0\<rparr>,
     sp_pc := (sp_pc s)(c := Outside), sp_irq := (sp_irq s)(c := prev)\<rparr>"
  by (simp add: irqrestore_leave_def spinlock_unlock_def atomic_xchg_def)

lemma spin_holders_enter: "sp_pc s c = Outside \<Longrightarrow> spin_holders (irqsave_enter c s) = spin_holders s"
  by (auto simp: spin_holders_def irqsave_enter_def)

lemma spin_holders_leave: "spin_holders (irqrestore_leave c prev s) = spin_holders s - {c}"
  by (auto simp: spin_holders_def irqrestore_leave_eq)

lemma spin_holders_once: "spin_holders (spin_once c prev s) =
    (if sl_value (sp_lock s) = 0 then insert c (spin_holders s) else spin_holders s)"
  by (auto simp: spin_holders_def spin_once_eq)

lemmas spin_holders_simps = spin_holders_enter spin_holders_leave spin_holders_once

lemma spin_inv_step:
  assumes inv: "spin_inv s" and st: "spin_step s s'"
  shows "spin_inv s'"
  using st
proof cases
  case (enter c)
  then show ?thesis using inv spin_holders_enter[of s c]
    by (auto simp: spin_inv_def) (auto simp: irqsave_enter_def split: if_splits)
next
  case (spin c prev)
  then have "\<not> sp_irq s c" using inv by (auto simp: spin_inv_def)
  then show ?thesis using inv spin
    by (auto simp: spin_inv_def spin_holders_once) (auto simp: spin_once_eq split: if_splits)
next
  case (leave c prev)
  then have "c \<in> spin_holders s" by (auto simp: spin_holders_def)
  then show ?thesis using inv leave
    by (auto simp: spin_inv_def spin_holders_leave) (auto simp: irqrestore_leave_eq split: if_splits)
qed

lemma spin_reachable_inv: "spin_reachable s \<Longrightarrow> spin_inv s"
proof (induction rule: spin_reachable.induct)
  case (init s) then show ?case by (auto simp: spin_inv_def spin_holders_def)
next
  case (step s s') then show ?case using spin_inv_step by blast
qed

text \<open>
  C15: mutual exclusion.  In every interleaving of \<^verbatim>\<open>spinlock_lock_irqsave\<close> and
  \<^verbatim>\<open>spinlock_unlock_irqrestore\<close> on any number of processors, at most one holds the lock, the lock word
  says whether one does, and a processor that waits for or holds the lock has its interrupts disabled.
\<close>

theorem spinlock_mutual_exclusion:
  assumes "spin_reachable s"
  shows "(\<forall>c d b b'. sp_pc s c = Inside b \<and> sp_pc s d = Inside b' \<longrightarrow> c = d)
    \<and> (spinlock_is_locked (Some (sp_lock s)) \<longleftrightarrow> (\<exists>c b. sp_pc s c = Inside b))
    \<and> (\<forall>c. sp_pc s c \<noteq> Outside \<longrightarrow> \<not> sp_irq s c)"
proof -
  note inv = spin_reachable_inv[OF assms, unfolded spin_inv_def]
  have "\<exists>d. spin_holders s \<subseteq> {d}" using inv by auto
  then have "c = d" if "sp_pc s c = Inside b" "sp_pc s d = Inside b'" for c d b b'
    using that unfolding spin_holders_def by blast
  moreover have "spinlock_is_locked (Some (sp_lock s)) \<longleftrightarrow> spin_holders s \<noteq> {}"
    using inv by (auto simp: spinlock_is_locked_def)
  ultimately show ?thesis using inv unfolding spin_holders_def by blast
qed

definition spin_sample :: spin_system where
  "spin_sample = \<lparr>sp_lock = \<lparr>sl_value = 0\<rparr>, sp_pc = (\<lambda>_. Outside), sp_irq = (\<lambda>_. True)\<rparr>"

theorem spinlock_mutual_exclusion_witness:
  "let s = spin_once 0 True (spin_once 1 True (irqsave_enter 1 (irqsave_enter 0 spin_sample)))
   in sp_pc s 1 = Inside True \<and> sp_pc s 0 = Spinning True \<and> spinlock_is_locked (Some (sp_lock s)) \<and> \<not> sp_irq s 0"
proof -
  let ?s1 = "irqsave_enter 0 spin_sample" let ?s2 = "irqsave_enter 1 ?s1" let ?s3 = "spin_once 1 True ?s2"
  have "spin_reachable spin_sample" by (rule spin_reachable.init) (simp_all add: spin_sample_def)
  then have "spin_reachable ?s1" by (rule spin_reachable.step) (rule spin_step.enter, simp add: spin_sample_def)
  then have "spin_reachable ?s2"
    by (rule spin_reachable.step) (rule spin_step.enter, simp add: spin_sample_def irqsave_enter_def)
  then have "spin_reachable ?s3"
    by (rule spin_reachable.step) (rule spin_step.spin, simp add: spin_sample_def irqsave_enter_def)
  then have "spin_reachable (spin_once 0 True ?s3)"
    by (rule spin_reachable.step) (rule spin_step.spin, simp add: spin_sample_def irqsave_enter_def spin_once_eq)
  note mx = spinlock_mutual_exclusion[OF this]
  have pc: "sp_pc (spin_once 0 True ?s3) 1 = Inside True" "sp_pc (spin_once 0 True ?s3) 0 = Spinning True"
    by (simp_all add: spin_sample_def irqsave_enter_def spin_once_eq)
  then have "\<not> sp_irq (spin_once 0 True ?s3) 0" "spinlock_is_locked (Some (sp_lock (spin_once 0 True ?s3)))"
    using mx by (metis spin_pc.distinct(1))+
  with pc show ?thesis by (simp add: Let_def)
qed

section \<open>Ownership of a mutex\<close>

text \<open>The calls tasks make on one mutex, and how often each task holds it.\<close>

datatype mutex_op = Lock u32 | Try_lock u32 | Unlock u32

fun mutex_call :: "mutex_op \<Rightarrow> mutex_t \<times> (u32 \<Rightarrow> nat) \<Rightarrow> mutex_t \<times> (u32 \<Rightarrow> nat)" where
  "mutex_call (Lock p) (m, d) =
     (case mutex_lock (Some p) m of (Acquired, m') \<Rightarrow> (m', d(p := d p + 1)) | (_, m') \<Rightarrow> (m', d))"
| "mutex_call (Try_lock p) (m, d) =
     (case mutex_try_lock (Some p) m of (True, m') \<Rightarrow> (m', d(p := d p + 1)) | (False, m') \<Rightarrow> (m', d))"
| "mutex_call (Unlock p) (m, d) = (snd (mutex_unlock (Some p) m), d(p := d p - 1))"

definition mutex_held :: "mutex_t \<Rightarrow> (u32 \<Rightarrow> nat) \<Rightarrow> bool" where
  "mutex_held m d \<longleftrightarrow> (if mx_locked m then 0 < unat (mx_recursion m) \<and> d = (\<lambda>_. 0)(mx_owner_pid m := unat (mx_recursion m))
     else d = (\<lambda>_. 0))"

lemma unat_inc: "unat (r :: u32) < 4294967295 \<Longrightarrow> unat (r + 1) = Suc (unat r)"
  by (simp add: unat_add_wrap)

lemma unat_dec: "0 < unat (r :: u32) \<Longrightarrow> unat (r - 1) = unat r - 1"
  by (simp add: unat_sub_wrap)

lemma word_eq_1: "(r :: u32) = 1 \<longleftrightarrow> unat r = Suc 0"
  by (simp add: word_unat_eq_iff)

lemma mutex_unlock_owner:
  assumes "mx_locked m" "mx_owner_pid m = p"
  shows "mutex_unlock (Some p) m =
    (if unat (mx_recursion m) = Suc 0 then (True, m\<lparr>mx_recursion := 0, mx_locked := False, mx_owner_pid := 0\<rparr>)
     else (False, m\<lparr>mx_recursion := mx_recursion m - 1\<rparr>))"
  using assms by (simp add: mutex_unlock_def Let_def word_eq_1[symmetric])

lemma mutex_unlock_other:
  "\<not> (mx_locked m \<and> mx_owner_pid m = p) \<Longrightarrow> mutex_unlock (Some p) m = (False, m)"
  by (auto simp: mutex_unlock_def)

lemma mutex_held_call:
  assumes "mutex_held m d" "mx_locked m \<Longrightarrow> unat (mx_recursion m) < 4294967295" "mutex_call c (m, d) = (m', d')"
  shows "mutex_held m' d' \<and> (mx_locked m' \<longrightarrow> unat (mx_recursion m') \<le> Suc (if mx_locked m then unat (mx_recursion m) else 0))"
proof (cases c)
  case (Lock p)
  then show ?thesis using assms
    by (cases "mx_locked m"; cases "mx_owner_pid m = p") (auto simp: mutex_held_def mutex_lock_def unat_inc)
next
  case (Try_lock p)
  then show ?thesis using assms
    by (cases "mx_locked m"; cases "mx_owner_pid m = p") (auto simp: mutex_held_def mutex_try_lock_def unat_inc)
next
  case (Unlock p)
  show ?thesis
  proof (cases "mx_locked m \<and> mx_owner_pid m = p")
    case True
    then have r: "0 < unat (mx_recursion m)" "d = (\<lambda>_. 0)(p := unat (mx_recursion m))"
      using assms(1) by (simp_all add: mutex_held_def)
    with True Unlock assms(3) show ?thesis
      by (cases "unat (mx_recursion m) = Suc 0")
        (simp_all add: mutex_held_def mutex_unlock_owner unat_dec[OF r(1)], auto simp: mutex_held_def unat_dec[OF r(1)])
  next
    case False
    then have "d p = 0" using assms(1) by (auto simp: mutex_held_def split: if_splits)
    then have "d' = d" "m' = m" using False Unlock assms(3) by (auto simp: mutex_unlock_other)
    then show ?thesis using assms(1) by simp
  qed
qed

lemma mutex_calls_held:
  assumes "mutex_held m d" "(if mx_locked m then unat (mx_recursion m) else 0) + length cs < 4294967296"
    "fold mutex_call cs (m, d) = (m', d')"
  shows "mutex_held m' d'"
  using assms
proof (induction cs arbitrary: m d)
  case (Cons c cs)
  obtain m1 d1 where c: "mutex_call c (m, d) = (m1, d1)" by fastforce
  have b: "mx_locked m \<Longrightarrow> unat (mx_recursion m) < 4294967295" using Cons.prems(2) by auto
  note h = mutex_held_call[OF Cons.prems(1) b c]
  show ?case
    by (rule Cons.IH[of m1 d1]) (use h Cons.prems(2,3) c in \<open>auto split: if_splits\<close>)
qed auto

text \<open>
  Exclusive ownership of a mutex.  After any sequence of fewer than \<open>2\<^sup>32\<close> lock, try-lock and unlock
  calls by any tasks, a task holds the mutex (has acquired it more often than released it) exactly if the
  mutex is locked and records that task as the owner; so at most one task holds it, the recursion
  counter is the number of times it must still unlock, and calls of other tasks cannot release it.
\<close>

theorem mutex_exclusive:
  assumes "length cs < 4294967296"
    and "fold mutex_call cs (mutex_init m, \<lambda>_. 0) = (m', d)"
  shows "(0 < d p \<longleftrightarrow> mx_locked m' \<and> mx_owner_pid m' = p) \<and> (0 < d p \<and> 0 < d q \<longrightarrow> p = q)
    \<and> (0 < d p \<longrightarrow> unat (mx_recursion m') = d p)"
proof -
  have "mutex_held m' d"
    by (rule mutex_calls_held[OF _ _ assms(2)]) (use assms(1) in \<open>simp_all add: mutex_held_def mutex_init_def\<close>)
  then show ?thesis by (auto simp: mutex_held_def fun_eq_iff split: if_splits)
qed

theorem mutex_exclusive_witness:
  "case fold mutex_call [Lock 7, Lock 9, Lock 7, Unlock 9, Unlock 7] (mutex_init \<lparr>mx_locked = True, mx_owner_pid = 5, mx_recursion = 4\<rparr>, \<lambda>_. 0)
   of (m, d) \<Rightarrow> d 7 = 1 \<and> d 9 = 0 \<and> mx_owner_pid m = 7 \<and> mx_recursion m = 1"
proof -
  obtain m d where f: "fold mutex_call [Lock 7, Lock 9, Lock 7, Unlock 9, Unlock 7]
      (mutex_init \<lparr>mx_locked = True, mx_owner_pid = 5, mx_recursion = 4\<rparr>, \<lambda>_. 0) = (m, d)" by fastforce
  have "d 7 = 1" using f by (auto simp: mutex_init_def mutex_lock_def mutex_unlock_def Let_def)
  moreover have "mx_recursion m = 1" using f by (auto simp: mutex_init_def mutex_lock_def mutex_unlock_def Let_def)
  ultimately show ?thesis unfolding f using mutex_exclusive[OF _ f, of 7 9] by auto
qed

section \<open>Counting of a semaphore\<close>

datatype sem_op = Wait | Signal

fun sem_call :: "sem_op \<Rightarrow> semaphore_t \<times> nat \<times> nat \<Rightarrow> semaphore_t \<times> nat \<times> nat" where
  "sem_call Wait (s, acquired, signalled) =
     (case semaphore_try_wait s of (True, s') \<Rightarrow> (s', acquired + 1, signalled) | (False, s') \<Rightarrow> (s', acquired, signalled))"
| "sem_call Signal (s, acquired, signalled) = (semaphore_signal s, acquired, signalled + 1)"

lemma sem_calls_count:
  assumes "fold sem_call cs (s, a, g) = (s', a', g')" "sem_count s + int (length cs) \<le> INT32_MAX"
  shows "sem_count s' + int a' - int g' = sem_count s + int a - int g \<and> (0 \<le> sem_count s \<longrightarrow> 0 \<le> sem_count s')"
  using assms
proof (induction cs arbitrary: s a g)
  case (Cons c cs)
  show ?case
  proof (cases c)
    case Wait
    then show ?thesis using Cons.prems
      by (cases "0 < sem_count s")
        (auto simp: semaphore_try_wait_def semaphore_try_consume_def dest!: Cons.IH)
  next
    case Signal
    then show ?thesis using Cons.prems by (auto simp: semaphore_signal_def dest!: Cons.IH)
  qed
qed simp

text \<open>
  A semaphore counts.  Starting from \<open>n \<ge> 0\<close> units, after any sequence of calls short enough not to
  reach the saturation point, the number of successful acquisitions is at most \<open>n\<close> plus the number of
  signals, and the counter is exactly the difference.
\<close>

theorem semaphore_conservation:
  assumes "0 \<le> n" "n + int (length cs) \<le> INT32_MAX" "fold sem_call cs (semaphore_init n s, 0, 0) = (s', acquired, signalled)"
  shows "semaphore_get_value s' = n + int signalled - int acquired \<and> int acquired \<le> n + int signalled"
  using sem_calls_count[OF assms(3)] assms(1,2) by (simp add: semaphore_init_def semaphore_get_value_def)

theorem semaphore_conservation_witness:
  "case fold sem_call [Wait, Wait, Signal, Wait] (semaphore_init 1 \<lparr>sem_count = 9\<rparr>, 0, 0) of
     (s, acquired, signalled) \<Rightarrow> semaphore_get_value s = 0 \<and> acquired = 2 \<and> signalled = 1"
proof -
  have f: "fold sem_call [Wait, Wait, Signal, Wait] (semaphore_init 1 \<lparr>sem_count = 9\<rparr>, 0, 0) = (\<lparr>sem_count = 0\<rparr>, 2, 1)"
    by (simp add: semaphore_init_def semaphore_try_wait_def semaphore_try_consume_def semaphore_signal_def)
  from semaphore_conservation[OF _ _ this] show ?thesis unfolding f by simp
qed

end
