(* ===== verification/Fs_Node.thy ===== *)
theory Fs_Node
  imports Sync
begin

text \<open>
  The objects of the file-system layer: \<^verbatim>\<open>fs_node_t\<close> (\<^verbatim>\<open>src/src/include/fs/vfs.h\<close>), \<^verbatim>\<open>pipe_t\<close>
  (\<^verbatim>\<open>include/fs/pipe.h\<close>) and the file, directory and directory-entry structures of \<^verbatim>\<open>fs/ramfs.c\<close>, in a
  store indexed by their addresses.  \<^verbatim>\<open>kfree\<close> removes the object at an address; reading an address
  that holds no object of the right type is a fault, the value \<open>None\<close>.  An operation that allocates
  takes the addresses its \<^verbatim>\<open>kmalloc\<close> calls return as arguments, in the order of the calls, \<open>0\<close> being the
  null pointer of a failed call.  Function pointers of a node are values of an enumeration.
\<close>

datatype fs_node_type = FS_FILE | FS_DIRECTORY | FS_CHARDEVICE | FS_BLOCKDEVICE | FS_PIPE | FS_SYMLINK

datatype fs_fn = Ramfs | Pipe

record fs_node_t =
  fn_name :: string
  fn_inode :: u32
  fn_type :: fs_node_type
  fn_size :: u32
  fn_permissions :: u32
  fn_uid :: u32
  fn_gid :: u32
  fn_flags :: u32
  fn_impl :: u32
  fn_impl_data :: u32
  fn_ref_count :: u32
  fn_read :: "fs_fn option"
  fn_write :: "fs_fn option"
  fn_open :: "fs_fn option"
  fn_close :: "fs_fn option"
  fn_readdir :: "fs_fn option"
  fn_finddir :: "fs_fn option"
  fn_create :: "fs_fn option"
  fn_mkdir :: "fs_fn option"
  fn_unlink :: "fs_fn option"
  fn_truncate :: "fs_fn option"
  fn_rename :: "fs_fn option"

abbreviation (input) FS_NODE_FLAG_ALLOCATED :: u32 where "FS_NODE_FLAG_ALLOCATED \<equiv> 0x80000000"

record pipe_t =
  p_buffer :: "u8 list"
  p_read_pos :: u32
  p_write_pos :: u32
  p_count :: u32
  p_readers :: u32
  p_writers :: u32
  p_read_sem :: semaphore_t
  p_write_sem :: semaphore_t
  p_read_closed :: bool
  p_write_closed :: bool

record ramfs_file_t =
  rf_data :: "u8 list option"
  rf_size :: u32
  rf_capacity :: u32

record ramfs_dirent_t =
  rd_name :: string
  rd_node :: u32

text \<open>The entries of a directory in the order of its linked list.\<close>

record ramfs_dir_t =
  rdir_entries :: "ramfs_dirent_t list"
  rdir_count :: u32

record fs_state =
  fs_nodes :: "u32 \<Rightarrow> fs_node_t option"
  fs_pipes :: "u32 \<Rightarrow> pipe_t option"
  fs_files :: "u32 \<Rightarrow> ramfs_file_t option"
  fs_dirs :: "u32 \<Rightarrow> ramfs_dir_t option"
  pipe_inode_counter :: u32
  next_inode :: u32

definition kfree_obj :: "u32 \<Rightarrow> fs_state \<Rightarrow> fs_state" where
  "kfree_obj a s = (if a = 0 then s
     else s\<lparr>fs_nodes := (fs_nodes s)(a := None), fs_pipes := (fs_pipes s)(a := None),
            fs_files := (fs_files s)(a := None), fs_dirs := (fs_dirs s)(a := None)\<rparr>)"

text \<open>A node after \<^verbatim>\<open>memset(node, 0, sizeof(fs_node_t))\<close>.\<close>

definition zero_node :: fs_node_t where
  "zero_node = \<lparr>fn_name = '''', fn_inode = 0, fn_type = FS_FILE, fn_size = 0, fn_permissions = 0, fn_uid = 0,
     fn_gid = 0, fn_flags = 0, fn_impl = 0, fn_impl_data = 0, fn_ref_count = 0, fn_read = None, fn_write = None,
     fn_open = None, fn_close = None, fn_readdir = None, fn_finddir = None, fn_create = None, fn_mkdir = None,
     fn_unlink = None, fn_truncate = None, fn_rename = None\<rparr>"

definition put_node :: "u32 \<Rightarrow> fs_node_t \<Rightarrow> fs_state \<Rightarrow> fs_state" where
  "put_node a n s = s\<lparr>fs_nodes := (fs_nodes s)(a := Some n)\<rparr>"

definition put_pipe :: "u32 \<Rightarrow> pipe_t \<Rightarrow> fs_state \<Rightarrow> fs_state" where
  "put_pipe a p s = s\<lparr>fs_pipes := (fs_pipes s)(a := Some p)\<rparr>"

definition put_file :: "u32 \<Rightarrow> ramfs_file_t \<Rightarrow> fs_state \<Rightarrow> fs_state" where
  "put_file a f s = s\<lparr>fs_files := (fs_files s)(a := Some f)\<rparr>"

definition put_dir :: "u32 \<Rightarrow> ramfs_dir_t \<Rightarrow> fs_state \<Rightarrow> fs_state" where
  "put_dir a d s = s\<lparr>fs_dirs := (fs_dirs s)(a := Some d)\<rparr>"

section \<open>Lifetime of a node\<close>

definition vfs_ref_node :: "u32 \<Rightarrow> fs_state \<Rightarrow> fs_state option" where
  "vfs_ref_node node s =
     (if node = 0 then Some s
      else case fs_nodes s node of None \<Rightarrow> None
      | Some n \<Rightarrow>
          if fn_flags n AND FS_NODE_FLAG_ALLOCATED = 0 then Some s
          else Some (put_node node (n\<lparr>fn_ref_count := fn_ref_count n + 1\<rparr>) s))"

definition vfs_release_node :: "u32 \<Rightarrow> fs_state \<Rightarrow> fs_state option" where
  "vfs_release_node node s =
     (if node = 0 then Some s
      else case fs_nodes s node of None \<Rightarrow> None
      | Some n \<Rightarrow>
          if fn_flags n AND FS_NODE_FLAG_ALLOCATED = 0 then Some s
          else if fn_ref_count n = 0 then Some s
          else let s1 = put_node node (n\<lparr>fn_ref_count := fn_ref_count n - 1\<rparr>) s in
            if fn_ref_count n - 1 = 0 then Some (kfree_obj node (kfree_obj (fn_impl n) s1)) else Some s1)"

lemma put_sel [simp]:
  "fs_nodes (put_node a n s) = (fs_nodes s)(a := Some n)" "fs_pipes (put_node a n s) = fs_pipes s"
  "fs_files (put_node a n s) = fs_files s" "fs_dirs (put_node a n s) = fs_dirs s"
  "next_inode (put_node a n s) = next_inode s" "pipe_inode_counter (put_node a n s) = pipe_inode_counter s"
  "fs_nodes (put_pipe a p s) = fs_nodes s" "fs_pipes (put_pipe a p s) = (fs_pipes s)(a := Some p)"
  "fs_files (put_pipe a p s) = fs_files s" "fs_dirs (put_pipe a p s) = fs_dirs s"
  "next_inode (put_pipe a p s) = next_inode s" "pipe_inode_counter (put_pipe a p s) = pipe_inode_counter s"
  "fs_nodes (put_file a f s) = fs_nodes s" "fs_pipes (put_file a f s) = fs_pipes s"
  "fs_files (put_file a f s) = (fs_files s)(a := Some f)" "fs_dirs (put_file a f s) = fs_dirs s"
  "next_inode (put_file a f s) = next_inode s" "pipe_inode_counter (put_file a f s) = pipe_inode_counter s"
  "fs_nodes (put_dir a d s) = fs_nodes s" "fs_pipes (put_dir a d s) = fs_pipes s"
  "fs_files (put_dir a d s) = fs_files s" "fs_dirs (put_dir a d s) = (fs_dirs s)(a := Some d)"
  "next_inode (put_dir a d s) = next_inode s" "pipe_inode_counter (put_dir a d s) = pipe_inode_counter s"
  by (simp_all add: put_node_def put_pipe_def put_file_def put_dir_def)

end
