(* ===== verification/Byte_Queue.thy ===== *)
theory Byte_Queue
  imports Prelude
begin

text \<open>
  The interface of a bounded byte queue, shared by the ring buffers of the kernel: what one insertion
  and one removal do to the contents, and what loops of them do.
\<close>

text \<open>The loop \<^verbatim>\<open>for (i = 0; i < n; i++) buffer[i] = get()\<close>.\<close>

fun get_loop :: "('s \<Rightarrow> 'b \<times> 's) \<Rightarrow> nat \<Rightarrow> 's \<Rightarrow> 'b list \<times> 's" where
  "get_loop get 0 s = ([], s)"
| "get_loop get (Suc n) s = (case get s of (b, s') \<Rightarrow> case get_loop get n s' of (bs, s'') \<Rightarrow> (b # bs, s''))"

locale bounded_queue =
  fixes contents :: "'s \<Rightarrow> 'b list" and ok :: "'s \<Rightarrow> bool"
    and put :: "'b \<Rightarrow> 's \<Rightarrow> 's" and get :: "'s \<Rightarrow> 'b \<times> 's" and cap :: nat
  assumes put_ok: "ok s \<Longrightarrow> length (contents s) < cap \<Longrightarrow> ok (put b s)"
    and put_contents: "ok s \<Longrightarrow> length (contents s) < cap \<Longrightarrow> contents (put b s) = contents s @ [b]"
    and get_ok: "ok s \<Longrightarrow> contents s \<noteq> [] \<Longrightarrow> ok (snd (get s))"
    and get_contents: "ok s \<Longrightarrow> contents s \<noteq> [] \<Longrightarrow> fst (get s) # contents (snd (get s)) = contents s"
    and bounded: "ok s \<Longrightarrow> length (contents s) \<le> cap"
begin

lemma fold_put:
  "ok s \<Longrightarrow> length (contents s) + length bs \<le> cap \<Longrightarrow>
   ok (fold put bs s) \<and> contents (fold put bs s) = contents s @ bs"
  by (induction bs arbitrary: s) (simp_all add: put_ok put_contents)

lemma get_loop_contents:
  "ok s \<Longrightarrow> n \<le> length (contents s) \<Longrightarrow>
   ok (snd (get_loop get n s)) \<and> fst (get_loop get n s) = take n (contents s)
   \<and> contents (snd (get_loop get n s)) = drop n (contents s)"
proof (induction n arbitrary: s)
  case (Suc n)
  then have ne: "contents s \<noteq> []" by auto
  obtain b s' where g: "get s = (b, s')" by fastforce
  have s': "ok s'" "b # contents s' = contents s"
    using get_ok[OF Suc.prems(1) ne] get_contents[OF Suc.prems(1) ne] g by simp_all
  then have "n \<le> length (contents s')" using Suc.prems(2) by (metis Suc_le_mono length_Cons)
  from Suc.IH[OF s'(1) this] show ?case by (auto simp: g s'(2)[symmetric] split: prod.split)
qed simp

lemma put_then_get:
  assumes "ok s" "contents s = []" "length bs \<le> cap"
  shows "fst (get_loop get (length bs) (fold put bs s)) = bs"
proof -
  have "ok (fold put bs s)" "contents (fold put bs s) = bs" using fold_put[of s bs] assms by simp_all
  then show ?thesis using get_loop_contents[of "fold put bs s" "length bs"] by simp
qed

end

section \<open>Ring buffers\<close>

text \<open>The \<open>n\<close> elements of a ring from position \<open>r\<close> on.\<close>

definition ring :: "'b list \<Rightarrow> nat \<Rightarrow> nat \<Rightarrow> 'b list" where
  "ring buf r n = map (\<lambda>i. buf ! ((r + i) mod length buf)) [0..<n]"

lemma length_ring [simp]: "length (ring buf r n) = n"
  by (simp add: ring_def)

lemma ring_0 [simp]: "ring buf r 0 = []"
  by (simp add: ring_def)

lemma ring_cong:
  "length buf' = length buf \<Longrightarrow> (\<And>i. i < n \<Longrightarrow> buf' ! ((r + i) mod length buf) = buf ! ((r + i) mod length buf)) \<Longrightarrow>
   ring buf' r n = ring buf r n"
  by (simp add: ring_def)

lemma ring_push:
  assumes "w = (r + n) mod length buf" "n < length buf"
  shows "ring (buf[w := b]) r (Suc n) = ring buf r n @ [b]"
proof -
  have "(r + i) mod length buf \<noteq> w" if "i < n" for i
    using add_mod_inj[of i "length buf" n r] that assms by auto
  then have "ring (buf[w := b]) r n = ring buf r n" by (intro ring_cong) (simp, metis nth_list_update_neq)
  moreover have "w < length buf" unfolding assms(1) by (rule mod_less_divisor) (use assms(2) in auto)
  ultimately show ?thesis by (simp add: ring_def assms(1))
qed

lemma ring_pop: "0 < n \<Longrightarrow> r < length buf \<Longrightarrow> ring buf r n = buf ! r # ring buf (Suc r mod length buf) (n - 1)"
proof -
  assume a: "0 < n" "r < length buf"
  have "ring buf r n = buf ! (r mod length buf) # map (\<lambda>i. buf ! ((r + i) mod length buf)) [1..<n]"
    using a by (simp add: ring_def upt_conv_Cons)
  moreover have "[1..<n] = map Suc [0..<n - 1]" using a by (simp add: map_Suc_upt)
  ultimately show ?thesis using a by (simp add: ring_def o_def mod_add_left_eq)
qed

end
