(* ===== verification/Pipe.thy ===== *)
theory Pipe
  imports Fs_Node Byte_Queue
begin

text \<open>
  Pipes, \<^verbatim>\<open>src/src/fs/pipe.c\<close>.  Each section a reader or writer executes under the pipe's mutex is one
  function on the pipe; \<^verbatim>\<open>pipe_read\<close> and \<^verbatim>\<open>pipe_write\<close> compose them with the waits on the two
  semaphores.  A call that has to block stops with the work left to do.
\<close>

abbreviation (input) PIPE_BUFFER_SIZE :: nat where "PIPE_BUFFER_SIZE \<equiv> 4096"

section \<open>Sections under the lock\<close>

definition pipe_put_byte :: "u8 \<Rightarrow> pipe_t \<Rightarrow> pipe_t" where
  "pipe_put_byte b p = p\<lparr>p_buffer := (p_buffer p)[unat (p_write_pos p) := b],
     p_write_pos := (p_write_pos p + 1) mod 4096, p_count := p_count p + 1,
     p_read_sem := semaphore_signal (p_read_sem p)\<rparr>"

definition pipe_get_byte :: "pipe_t \<Rightarrow> u8 \<times> pipe_t" where
  "pipe_get_byte p = (p_buffer p ! unat (p_read_pos p),
     p\<lparr>p_read_pos := (p_read_pos p + 1) mod 4096, p_count := p_count p - 1,
       p_write_sem := semaphore_signal (p_write_sem p)\<rparr>)"

text \<open>Copying out at most \<open>n\<close> bytes, and copying in as many of the given bytes as fit.\<close>

definition read_section :: "u32 \<Rightarrow> pipe_t \<Rightarrow> u8 list \<times> pipe_t" where
  "read_section n p =
     (let to_read = (if p_count p < n then p_count p else n) in get_loop pipe_get_byte (unat to_read) p)"

definition write_section :: "u8 list \<Rightarrow> pipe_t \<Rightarrow> nat \<times> pipe_t" where
  "write_section bs p =
     (let to_write = (of_nat (length bs) :: u32); space_available = 4096 - p_count p;
          n = unat (if space_available < to_write then space_available else to_write)
      in (n, fold pipe_put_byte (take n bs) p))"

section \<open>Calls\<close>

datatype pipe_wait = Ready | Closed | Must_block

text \<open>The inner loop of \<^verbatim>\<open>pipe_read\<close>: wait for data, consuming the credits of the read semaphore.\<close>

function pipe_wait_data :: "pipe_t \<Rightarrow> pipe_wait \<times> pipe_t" where
  "pipe_wait_data p =
     (if p_count p \<noteq> 0 then (Ready, p)
      else if p_write_closed p then (Closed, p)
      else if 0 < sem_count (p_read_sem p)
      then pipe_wait_data (p\<lparr>p_read_sem := snd (semaphore_try_consume (p_read_sem p))\<rparr>)
      else (Must_block, p))"
  by auto
termination
  by (relation "measure (\<lambda>p. nat (sem_count (p_read_sem p)))") (auto simp: semaphore_try_consume_def)

text \<open>The inner loop of \<^verbatim>\<open>pipe_write\<close>: wait for room.\<close>

function pipe_wait_room :: "pipe_t \<Rightarrow> pipe_wait \<times> pipe_t" where
  "pipe_wait_room p =
     (if p_count p \<noteq> 4096 then (Ready, p)
      else if p_read_closed p then (Closed, p)
      else if 0 < sem_count (p_write_sem p)
      then pipe_wait_room (p\<lparr>p_write_sem := snd (semaphore_try_consume (p_write_sem p))\<rparr>)
      else (Must_block, p))"
  by auto
termination
  by (relation "measure (\<lambda>p. nat (sem_count (p_write_sem p)))") (auto simp: semaphore_try_consume_def)

datatype read_outcome = Read_done "u8 list" | Read_blocked

definition pipe_read :: "u32 \<Rightarrow> pipe_t \<Rightarrow> read_outcome \<times> pipe_t" where
  "pipe_read sz p =
     (if sz = 0 then (Read_done [], p)
      else case pipe_wait_data p of
             (Ready, p1) \<Rightarrow> (case read_section sz p1 of (bs, p2) \<Rightarrow> (Read_done bs, p2))
           | (Closed, p1) \<Rightarrow> (Read_done [], p1)
           | (Must_block, p1) \<Rightarrow> (Read_blocked, p1))"

datatype write_outcome = Write_done nat | Write_blocked nat

text \<open>The outer loop of \<^verbatim>\<open>pipe_write\<close> on the bytes left to write; \<open>n\<close> counts the bytes written so far.
  A blocked call goes on with \<open>pipe_write_resume\<close> when its wait for the semaphore succeeds.\<close>

partial_function (option) pipe_write_loop :: "u8 list \<Rightarrow> nat \<Rightarrow> pipe_t \<Rightarrow> (write_outcome \<times> pipe_t) option" where
  "pipe_write_loop bs n p =
     (if bs = [] then Some (Write_done n, p)
      else case pipe_wait_room p of
             (Ready, p1) \<Rightarrow>
               (case write_section bs p1 of (k, p2) \<Rightarrow> pipe_write_loop (drop k bs) (n + k) p2)
           | (Closed, p1) \<Rightarrow> Some (Write_done n, p1)
           | (Must_block, p1) \<Rightarrow> Some (Write_blocked n, p1))"

definition pipe_write :: "u8 list \<Rightarrow> pipe_t \<Rightarrow> (write_outcome \<times> pipe_t) option" where
  "pipe_write bs p = (if p_read_closed p then Some (Write_done 0, p) else pipe_write_loop bs 0 p)"

definition pipe_write_resume :: "u8 list \<Rightarrow> nat \<Rightarrow> pipe_t \<Rightarrow> (write_outcome \<times> pipe_t) option" where
  "pipe_write_resume bs n p = (if p_read_closed p then Some (Write_done n, p) else pipe_write_loop bs n p)"

section \<open>Creation, duplication and closing of the ends\<close>

definition new_pipe :: pipe_t where
  "new_pipe = \<lparr>p_buffer = replicate 4096 0, p_read_pos = 0, p_write_pos = 0, p_count = 0, p_readers = 1,
     p_writers = 1, p_read_sem = \<lparr>sem_count = 0\<rparr>, p_write_sem = \<lparr>sem_count = 4096\<rparr>,
     p_read_closed = False, p_write_closed = False\<rparr>"

definition pipe_node :: "string \<Rightarrow> u32 \<Rightarrow> u32 \<Rightarrow> u32 \<Rightarrow> fs_node_t" where
  "pipe_node name inode pipe role = zero_node\<lparr>fn_name := name, fn_inode := inode, fn_type := FS_PIPE,
     fn_permissions := 420, fn_impl := pipe, fn_impl_data := role, fn_flags := FS_NODE_FLAG_ALLOCATED,
     fn_ref_count := 1, fn_read := (if role = 0 then Some Pipe else None),
     fn_write := (if role = 0 then None else Some Pipe), fn_close := Some Pipe\<rparr>"

text \<open>The arguments are the results of the three \<^verbatim>\<open>kmalloc\<close> calls: pipe, read node, write node.\<close>

definition pipe_create :: "u32 \<Rightarrow> u32 \<Rightarrow> u32 \<Rightarrow> fs_state \<Rightarrow> (u32 \<times> u32) option \<times> fs_state" where
  "pipe_create a_pipe a_r a_w s =
     (if a_pipe = 0 then (None, s)
      else let s1 = put_pipe a_pipe new_pipe s; inode = pipe_inode_counter s1;
               s2 = s1\<lparr>pipe_inode_counter := inode + 1\<rparr>
        in if a_r = 0 then (None, kfree_obj a_pipe s2)
           else let s3 = put_node a_r (pipe_node ''pipe_read'' inode a_pipe 0) s2 in
             if a_w = 0 then (None, kfree_obj a_pipe (kfree_obj a_r s3))
             else (Some (a_r, a_w), put_node a_w (pipe_node ''pipe_write'' inode a_pipe 1) s3))"

definition pipe_on_dup :: "u32 \<Rightarrow> fs_state \<Rightarrow> fs_state option" where
  "pipe_on_dup node s =
     (if node = 0 then Some s
      else case fs_nodes s node of None \<Rightarrow> None
      | Some n \<Rightarrow>
          if fn_type n \<noteq> FS_PIPE \<or> fn_impl n = 0 then Some s
          else case fs_pipes s (fn_impl n) of None \<Rightarrow> None
          | Some p \<Rightarrow> Some (put_pipe (fn_impl n)
              (if fn_impl_data n = 1 then p\<lparr>p_writers := p_writers p + 1\<rparr> else p\<lparr>p_readers := p_readers p + 1\<rparr>) s))"

definition close_end :: "bool \<Rightarrow> pipe_t \<Rightarrow> pipe_t" where
  "close_end is_write_end p =
     (if is_write_end
      then let p1 = p\<lparr>p_writers := p_writers p - 1\<rparr> in
        if p_writers p1 = 0
        then p1\<lparr>p_write_closed := True, p_read_sem := (semaphore_signal ^^ 10) (p_read_sem p1)\<rparr> else p1
      else let p1 = p\<lparr>p_readers := p_readers p - 1\<rparr> in
        if p_readers p1 = 0
        then p1\<lparr>p_read_closed := True, p_write_sem := (semaphore_signal ^^ 10) (p_write_sem p1)\<rparr> else p1)"

definition pipe_close :: "u32 \<Rightarrow> fs_state \<Rightarrow> fs_state option" where
  "pipe_close node s =
     (if node = 0 then Some s
      else case fs_nodes s node of None \<Rightarrow> None
      | Some n \<Rightarrow>
          if fn_impl n = 0 then Some s
          else case fs_pipes s (fn_impl n) of None \<Rightarrow> None
          | Some p \<Rightarrow>
              let p' = close_end (fn_impl_data n = 1) p; s1 = put_pipe (fn_impl n) p' s
              in if p_readers p' = 0 \<and> p_writers p' = 0
                 then Some (kfree_obj (fn_impl n) (put_node node (n\<lparr>fn_impl := 0\<rparr>) s1))
                 else Some s1)"

section \<open>The pipe is a queue\<close>

definition pipe_ok :: "pipe_t \<Rightarrow> bool" where
  "pipe_ok p \<longleftrightarrow> length (p_buffer p) = 4096 \<and> unat (p_read_pos p) < 4096 \<and> unat (p_count p) \<le> 4096
     \<and> unat (p_write_pos p) = (unat (p_read_pos p) + unat (p_count p)) mod 4096"

definition pipe_data :: "pipe_t \<Rightarrow> u8 list" where
  "pipe_data p = ring (p_buffer p) (unat (p_read_pos p)) (unat (p_count p))"

lemma length_pipe_data [simp]: "length (pipe_data p) = unat (p_count p)"
  by (simp add: pipe_data_def)

lemma unat_inc_mod: "unat (x :: u32) < 4096 \<Longrightarrow> unat ((x + 1) mod 4096) = Suc (unat x) mod 4096"
  by (simp add: unat_mod unat_inc)

lemma put_byte_queue:
  assumes ok: "pipe_ok p" and room: "length (pipe_data p) < 4096"
  shows "pipe_ok (pipe_put_byte b p)" "pipe_data (pipe_put_byte b p) = pipe_data p @ [b]"
proof -
  have c: "unat (p_count p + 1) = Suc (unat (p_count p))" using room by (simp add: unat_inc)
  have w: "unat (p_write_pos p) = (unat (p_read_pos p) + unat (p_count p)) mod 4096" "unat (p_write_pos p) < 4096"
    using ok by (simp_all add: pipe_ok_def)
  show "pipe_ok (pipe_put_byte b p)"
    using ok room c w unat_inc_mod[OF w(2)] by (simp add: pipe_ok_def pipe_put_byte_def mod_Suc_eq)
  show "pipe_data (pipe_put_byte b p) = pipe_data p @ [b]"
    using ok room c w ring_push[of "unat (p_write_pos p)" "unat (p_read_pos p)" "unat (p_count p)" "p_buffer p" b]
    by (simp add: pipe_data_def pipe_put_byte_def pipe_ok_def)
qed

lemma get_byte_queue:
  assumes ok: "pipe_ok p" and ne: "pipe_data p \<noteq> []"
  shows "pipe_ok (snd (pipe_get_byte p))" "fst (pipe_get_byte p) # pipe_data (snd (pipe_get_byte p)) = pipe_data p"
proof -
  have pos: "0 < unat (p_count p)" using ne length_pipe_data[of p] by (metis length_greater_0_conv)
  then have c: "unat (p_count p - 1) = unat (p_count p) - 1" by (rule unat_dec)
  have r: "unat (p_read_pos p) < 4096" using ok by (simp add: pipe_ok_def)
  have "(Suc (unat (p_read_pos p)) mod 4096 + (unat (p_count p) - 1)) mod 4096
      = (unat (p_read_pos p) + unat (p_count p)) mod 4096"
    unfolding mod_add_left_eq using pos by (intro arg_cong[of _ _ "\<lambda>x. x mod 4096"]) linarith
  then show "pipe_ok (snd (pipe_get_byte p))"
    using ok pos c unat_inc_mod[OF r] by (auto simp: pipe_ok_def pipe_get_byte_def)
  show "fst (pipe_get_byte p) # pipe_data (snd (pipe_get_byte p)) = pipe_data p"
    using ok pos c unat_inc_mod[OF r] ring_pop[OF pos, of "unat (p_read_pos p)" "p_buffer p"]
    by (simp add: pipe_ok_def pipe_get_byte_def pipe_data_def)
qed

interpretation pq: bounded_queue pipe_data pipe_ok pipe_put_byte pipe_get_byte 4096
  by unfold_locales (simp_all add: put_byte_queue get_byte_queue, simp add: pipe_ok_def)

lemma read_section_queue:
  assumes "pipe_ok p"
  shows "pipe_ok (snd (read_section n p))" "fst (read_section n p) = take (unat n) (pipe_data p)"
    "pipe_data (snd (read_section n p)) = drop (unat n) (pipe_data p)"
proof -
  let ?k = "unat (if p_count p < n then p_count p else n)"
  have k: "?k = min (unat n) (unat (p_count p))" by (auto simp: word_less_nat_alt)
  then show "pipe_ok (snd (read_section n p))" "fst (read_section n p) = take (unat n) (pipe_data p)"
    "pipe_data (snd (read_section n p)) = drop (unat n) (pipe_data p)"
    using pq.get_loop_contents[OF assms, of ?k] by (auto simp: read_section_def Let_def min_def)
qed

lemma write_section_queue:
  assumes ok: "pipe_ok p" and len: "length bs < 4294967296" and w: "write_section bs p = (k, p')"
  shows "k = min (length bs) (4096 - length (pipe_data p))" "pipe_ok p'" "pipe_data p' = pipe_data p @ take k bs"
proof -
  have "unat (4096 - p_count p) = 4096 - unat (p_count p)" using ok by (simp add: pipe_ok_def unat_sub_wrap)
  then show k: "k = min (length bs) (4096 - length (pipe_data p))"
    using w unat_of_nat_u32[OF len] by (auto simp: write_section_def Let_def word_less_nat_alt min_def)
  have "length (pipe_data p) + length (take k bs) \<le> 4096" using k ok by (auto simp: pipe_ok_def)
  from pq.fold_put[OF ok this] show "pipe_ok p'" "pipe_data p' = pipe_data p @ take k bs"
    using w by (auto simp: write_section_def Let_def)
qed

section \<open>Interleavings\<close>

text \<open>What tasks can do to a pipe between two holders of its mutex, and the bytes written and read so far.\<close>

datatype pipe_action = Write_bytes "u8 list" | Read_bytes u32 | Take_read_credit | Take_write_credit | Close_end bool

fun pipe_act :: "pipe_action \<Rightarrow> pipe_t \<times> u8 list \<times> u8 list \<Rightarrow> pipe_t \<times> u8 list \<times> u8 list" where
  "pipe_act (Write_bytes bs) (p, written, got) =
     (case write_section bs p of (k, p') \<Rightarrow> (p', written @ take k bs, got))"
| "pipe_act (Read_bytes n) (p, written, got) = (case read_section n p of (bs, p') \<Rightarrow> (p', written, got @ bs))"
| "pipe_act Take_read_credit (p, written, got) =
     (p\<lparr>p_read_sem := snd (semaphore_try_consume (p_read_sem p))\<rparr>, written, got)"
| "pipe_act Take_write_credit (p, written, got) =
     (p\<lparr>p_write_sem := snd (semaphore_try_consume (p_write_sem p))\<rparr>, written, got)"
| "pipe_act (Close_end w) (p, written, got) = (close_end w p, written, got)"

lemma close_end_queue:
  "pipe_ok (close_end w p) = pipe_ok p" "pipe_data (close_end w p) = pipe_data p"
  by (simp_all add: close_end_def pipe_ok_def pipe_data_def Let_def)

lemma sem_update_queue:
  "pipe_ok (p\<lparr>p_read_sem := x\<rparr>) = pipe_ok p" "pipe_data (p\<lparr>p_read_sem := x\<rparr>) = pipe_data p"
  "pipe_ok (p\<lparr>p_write_sem := x\<rparr>) = pipe_ok p" "pipe_data (p\<lparr>p_write_sem := x\<rparr>) = pipe_data p"
  by (simp_all add: pipe_ok_def pipe_data_def)

lemma new_pipe_queue: "pipe_ok new_pipe" "pipe_data new_pipe = []"
  by (simp_all add: pipe_ok_def pipe_data_def new_pipe_def)

lemma pipe_act_fifo:
  assumes "pipe_ok p" "written = got @ pipe_data p" "\<forall>bs. a = Write_bytes bs \<longrightarrow> length bs < 4294967296"
    "pipe_act a (p, written, got) = (p', written', got')"
  shows "pipe_ok p' \<and> written' = got' @ pipe_data p'"
proof (cases a)
  case (Write_bytes bs)
  obtain k q where w: "write_section bs p = (k, q)" by fastforce
  show ?thesis using write_section_queue[OF assms(1) _ w] assms Write_bytes w by auto
next
  case (Read_bytes n)
  show ?thesis using read_section_queue[OF assms(1), of n] assms(2,4) Read_bytes
    by (cases "read_section n p") auto
qed (use assms in \<open>auto simp: close_end_queue sem_update_queue\<close>)

text \<open>
  C5: a pipe is a FIFO channel.  For every interleaving of the critical sections of any number of
  readers and writers, of waits on the semaphores and of closes, the bytes written so far are exactly the
  bytes read so far followed by the bytes in the buffer: nothing is lost, duplicated or reordered, and at
  most 4096 bytes are in transit.
\<close>

theorem pipe_fifo:
  assumes "\<forall>bs. Write_bytes bs \<in> set acts \<longrightarrow> length bs < 4294967296"
    and "fold pipe_act acts (new_pipe, [], []) = (p, written, got)"
  shows "written = got @ pipe_data p \<and> length (pipe_data p) \<le> 4096"
proof -
  have "pipe_ok p' \<and> written' = got' @ pipe_data p'"
    if "fold pipe_act as (q, w, g) = (p', written', got')" "pipe_ok q" "w = g @ pipe_data q"
      "\<forall>bs. Write_bytes bs \<in> set as \<longrightarrow> length bs < 4294967296" for as q w g p' written' got'
    using that
  proof (induction as arbitrary: q w g)
    case (Cons a as)
    obtain q1 w1 g1 where a: "pipe_act a (q, w, g) = (q1, w1, g1)" by (metis prod_cases3)
    have "pipe_ok q1 \<and> w1 = g1 @ pipe_data q1"
      by (rule pipe_act_fifo[OF Cons.prems(2,3) _ a]) (use Cons.prems(4) in auto)
    then show ?case using Cons.IH[of q1 w1 g1] Cons.prems a by auto
  qed auto
  from this[OF assms(2) new_pipe_queue(1) _ assms(1)] show ?thesis
    by (simp add: new_pipe_queue pipe_ok_def)
qed

theorem pipe_fifo_witness:
  "case fold pipe_act [Write_bytes [1, 2, 3], Read_bytes 2, Write_bytes [4], Close_end True, Read_bytes 1] (new_pipe, [], []) of
     (p, written, got) \<Rightarrow> written = got @ pipe_data p"
proof -
  obtain p written got where f: "fold pipe_act [Write_bytes [1, 2, 3], Read_bytes 2, Write_bytes [4], Close_end True, Read_bytes 1]
      (new_pipe, [], []) = (p, written, got)" by (metis prod_cases3)
  show ?thesis unfolding f using pipe_fifo[OF _ f] by auto
qed

section \<open>Complete calls\<close>

lemma pipe_wait_data_queue:
  "pipe_wait_data p = (r, p') \<Longrightarrow> pipe_ok p' = pipe_ok p \<and> pipe_data p' = pipe_data p \<and> p_write_closed p' = p_write_closed p
     \<and> (r = Ready \<longleftrightarrow> pipe_data p \<noteq> []) \<and> (r = Must_block \<longrightarrow> pipe_data p = [] \<and> \<not> p_write_closed p)
     \<and> (r = Closed \<longrightarrow> p_write_closed p)"
proof (induction p rule: pipe_wait_data.induct)
  case (1 p)
  have e: "p_count p = 0 \<longleftrightarrow> pipe_data p = []" by (metis length_0_conv length_pipe_data unat_eq_zero)
  consider "p_count p \<noteq> 0" | "p_count p = 0" "p_write_closed p"
    | "p_count p = 0" "\<not> p_write_closed p" "0 < sem_count (p_read_sem p)"
    | "p_count p = 0" "\<not> p_write_closed p" "\<not> 0 < sem_count (p_read_sem p)" by blast
  then show ?case
  proof cases
    case 3
    then show ?thesis using 1 e by (subst (asm) (2) pipe_wait_data.simps) (simp add: sem_update_queue)
  qed (use 1(2) e in \<open>subst (asm) pipe_wait_data.simps, auto\<close>)+
qed

lemma pipe_wait_room_queue:
  "pipe_wait_room p = (r, p') \<Longrightarrow> pipe_ok p' = pipe_ok p \<and> pipe_data p' = pipe_data p \<and> p_read_closed p' = p_read_closed p
     \<and> r = (if length (pipe_data p) \<noteq> 4096 then Ready else if p_read_closed p then Closed else Must_block)"
proof (induction p rule: pipe_wait_room.induct)
  case (1 p)
  have e: "p_count p = 4096 \<longleftrightarrow> length (pipe_data p) = 4096" by (simp add: word_unat_eq_iff)
  consider "p_count p \<noteq> 4096" | "p_count p = 4096" "p_read_closed p"
    | "p_count p = 4096" "\<not> p_read_closed p" "0 < sem_count (p_write_sem p)"
    | "p_count p = 4096" "\<not> p_read_closed p" "\<not> 0 < sem_count (p_write_sem p)" by blast
  then show ?case
  proof cases
    case 3
    then show ?thesis using 1 e by (subst (asm) (2) pipe_wait_room.simps) (simp add: sem_update_queue)
  qed (use 1(2) e in \<open>subst (asm) pipe_wait_room.simps, auto\<close>)+
qed

lemma pipe_write_loop_full:
  assumes ok: "pipe_ok p" and full: "length (pipe_data p) = 4096" and ne: "bs \<noteq> []"
  shows "\<exists>p'. pipe_write_loop bs n p = Some (if p_read_closed p then Write_done n else Write_blocked n, p')
    \<and> pipe_ok p' \<and> pipe_data p' = pipe_data p"
proof -
  obtain r p' where w: "pipe_wait_room p = (r, p')" by fastforce
  show ?thesis using pipe_wait_room_queue[OF w] ok full ne w
    by (subst pipe_write_loop.simps) (auto split: if_splits)
qed

lemma pipe_write_loop_law:
  assumes ok: "pipe_ok p" and len: "length bs < 4294967296"
  defines "k \<equiv> min (length bs) (4096 - length (pipe_data p))"
  shows "\<exists>p'. pipe_write_loop bs n p = Some (if k = length bs \<or> p_read_closed p then Write_done (n + k) else Write_blocked (n + k), p')
    \<and> pipe_ok p' \<and> pipe_data p' = pipe_data p @ take k bs"
proof -
  consider "bs = []" | "bs \<noteq> []" "length (pipe_data p) = 4096" | "bs \<noteq> []" "length (pipe_data p) \<noteq> 4096" by blast
  then show ?thesis
  proof cases
    case 1
    then show ?thesis using ok by (subst pipe_write_loop.simps) (simp add: k_def)
  next
    case 2
    then show ?thesis using pipe_write_loop_full[OF ok 2(2,1), of n] by (auto simp: k_def)
  next
    case 3
    obtain r p1 where w: "pipe_wait_room p = (r, p1)" by fastforce
    note p1 = pipe_wait_room_queue[OF w]
    have ok1: "pipe_ok p1" and d1: "pipe_data p1 = pipe_data p" and r: "r = Ready" using p1 ok 3 by auto
    obtain k' p2 where ws: "write_section bs p1 = (k', p2)" by fastforce
    note s = write_section_queue[OF ok1 len ws]
    have k': "k' = k" using s(1) d1 by (simp add: k_def)
    have rc: "p_read_closed p2 = p_read_closed p"
    proof -
      have "p_read_closed (fold pipe_put_byte xs q) = p_read_closed q" for xs q
        by (induction xs arbitrary: q) (simp_all add: pipe_put_byte_def)
      then show ?thesis using ws p1 by (auto simp: write_section_def Let_def)
    qed
    have step: "pipe_write_loop bs n p = pipe_write_loop (drop k bs) (n + k) p2"
      using 3 w r ws k' by (subst pipe_write_loop.simps) simp
    show ?thesis
    proof (cases "k = length bs")
      case True
      then show ?thesis unfolding step using s k' d1 by (subst pipe_write_loop.simps) simp
    next
      case False
      then have "drop k bs \<noteq> []" "length (pipe_data p2) = 4096"
        using s(3) k' d1 ok by (auto simp: k_def pipe_ok_def min_def split: if_splits)
      from pipe_write_loop_full[OF s(2) this(2,1), of "n + k"] show ?thesis
        unfolding step using s(3) k' d1 rc False by auto
    qed
  qed
qed

text \<open>
  A write to a pipe.  With no reader left a write delivers nothing.  Otherwise it always returns: it
  appends the longest prefix that fits to the pipe's data, reports completion exactly if that is all of
  it, and else blocks with the number of bytes written so far.
\<close>

theorem pipe_write_correct:
  assumes "pipe_ok p" "length bs < 4294967296"
  shows "\<exists>k p'. pipe_write bs p = Some (if k = length bs \<or> p_read_closed p then Write_done k else Write_blocked k, p')
    \<and> k = (if p_read_closed p then 0 else min (length bs) (4096 - length (pipe_data p)))
    \<and> pipe_ok p' \<and> pipe_data p' = pipe_data p @ take k bs"
proof (cases "p_read_closed p")
  case True
  then show ?thesis using assms(1) by (intro exI[of _ 0]) (simp add: pipe_write_def)
next
  case False
  let ?k = "min (length bs) (4096 - length (pipe_data p))"
  from pipe_write_loop_law[OF assms, of 0] obtain p' where
    "pipe_write_loop bs 0 p = Some (if ?k = length bs \<or> p_read_closed p then Write_done ?k else Write_blocked ?k, p')"
    "pipe_ok p'" "pipe_data p' = pipe_data p @ take ?k bs" by (auto simp only: add_0)
  then show ?thesis by (intro exI[of _ ?k] exI[of _ p']) (simp only: pipe_write_def False if_False simp_thms)
qed

theorem pipe_write_correct_witness:
  "\<exists>p'. pipe_write [7, 8] new_pipe = Some (Write_done 2, p') \<and> pipe_data p' = [7, 8]"
  using pipe_write_correct[OF new_pipe_queue(1), of "[7, 8]"] new_pipe_queue(2)
  by (auto simp: new_pipe_def)

text \<open>
  A read from a pipe.  A read of at least one byte always returns: with data it delivers the oldest
  bytes, as many as asked for or there are, and removes exactly those; without data it reports the end of
  the stream if the last writer is gone and blocks otherwise, and leaves the data alone.
\<close>

theorem pipe_read_correct:
  assumes ok: "pipe_ok p" and sz: "sz \<noteq> 0"
  shows "\<exists>p'. pipe_read sz p =
      (if pipe_data p = [] \<and> \<not> p_write_closed p then Read_blocked else Read_done (take (unat sz) (pipe_data p)), p')
    \<and> pipe_ok p' \<and> pipe_data p' = drop (unat sz) (pipe_data p)"
proof -
  obtain r p1 where w: "pipe_wait_data p = (r, p1)" by fastforce
  note q = pipe_wait_data_queue[OF w]
  show ?thesis
  proof (cases r)
    case Ready
    then show ?thesis using q ok sz w read_section_queue[of p1 sz]
      by (cases "read_section sz p1") (auto simp: pipe_read_def)
  qed (use q ok sz w in \<open>auto simp: pipe_read_def\<close>)
qed

theorem pipe_read_correct_witness:
  "\<exists>p'. pipe_read 5 (pipe_put_byte 9 new_pipe) = (Read_done [9], p') \<and> pipe_data p' = []"
proof -
  have "pipe_ok (pipe_put_byte 9 new_pipe)" "pipe_data (pipe_put_byte 9 new_pipe) = [9]"
    using put_byte_queue[OF new_pipe_queue(1), of 9] new_pipe_queue(2) by (simp_all add: new_pipe_def)
  then show ?thesis using pipe_read_correct[of "pipe_put_byte 9 new_pipe" 5] by auto
qed

end
