(* ===== verification/Ramfs.thy ===== *)
theory Ramfs
  imports Fs_Node
begin

text \<open>
  The in-memory file system, \<^verbatim>\<open>src/src/fs/ramfs.c\<close>.  C strings are HOL strings without the terminating
  zero.  The data of a file is the list of its \<^verbatim>\<open>capacity\<close> bytes; a copy that leaves it is a fault.  A
  buffer obtained from \<^verbatim>\<open>kmalloc\<close> comes with its contents, which the code does not clear.
\<close>

section \<open>Directory entries\<close>

definition ramfs_find_entry :: "ramfs_dir_t \<Rightarrow> string \<Rightarrow> ramfs_dirent_t option" where
  "ramfs_find_entry dir name = find (\<lambda>e. rd_name e = name) (rdir_entries dir)"

text \<open>\<^verbatim>\<open>strncpy(dst, src, 127); dst[127] = 0\<close>.\<close>

definition copy_name :: "string \<Rightarrow> string" where
  "copy_name name = take 127 name"

definition ramfs_add_entry :: "u32 \<Rightarrow> string \<Rightarrow> u32 \<Rightarrow> ramfs_dir_t \<Rightarrow> ramfs_dir_t option" where
  "ramfs_add_entry a_entry name node dir =
     (if ramfs_find_entry dir name \<noteq> None then None
      else if a_entry = 0 then None
      else Some (dir\<lparr>rdir_entries := \<lparr>rd_name = copy_name name, rd_node = node\<rparr> # rdir_entries dir,
                     rdir_count := rdir_count dir + 1\<rparr>))"

fun remove_first :: "('a \<Rightarrow> bool) \<Rightarrow> 'a list \<Rightarrow> 'a list" where
  "remove_first P [] = []"
| "remove_first P (x # xs) = (if P x then xs else x # remove_first P xs)"

definition ramfs_remove_entry :: "string \<Rightarrow> ramfs_dir_t \<Rightarrow> ramfs_dir_t option" where
  "ramfs_remove_entry name dir =
     (if ramfs_find_entry dir name = None then None
      else Some (dir\<lparr>rdir_entries := remove_first (\<lambda>e. rd_name e = name) (rdir_entries dir),
                     rdir_count := rdir_count dir - 1\<rparr>))"

section \<open>File data\<close>

definition ramfs_file_read :: "u32 \<Rightarrow> u32 \<Rightarrow> ramfs_file_t \<Rightarrow> u8 list option" where
  "ramfs_file_read offset sz file =
     (case rf_data file of
        None \<Rightarrow> Some []
      | Some data \<Rightarrow>
          if rf_size file \<le> offset then Some []
          else let to_read = (if rf_size file < offset + sz then rf_size file - offset else sz)
            in if unat offset + unat to_read \<le> length data
               then Some (take (unat to_read) (drop (unat offset) data)) else None)"

definition splice_bytes :: "nat \<Rightarrow> u8 list \<Rightarrow> u8 list \<Rightarrow> u8 list" where
  "splice_bytes off bs data = take off data @ bs @ drop (off + length bs) data"

definition page_up :: "u32 \<Rightarrow> u32" where
  "page_up n = (n + 4095) AND NOT 4095"

text \<open>The first argument is the contents of the buffer of \<open>new_capacity\<close> bytes that \<^verbatim>\<open>kmalloc\<close> returned.\<close>

definition ramfs_grow :: "u8 list option \<Rightarrow> u32 \<Rightarrow> ramfs_file_t \<Rightarrow> ramfs_file_t option" where
  "ramfs_grow buf new_size file =
     (if rf_capacity file < new_size
      then case buf of
             None \<Rightarrow> None
           | Some fresh \<Rightarrow>
               let new_data = (case rf_data file of
                                 None \<Rightarrow> fresh
                               | Some old \<Rightarrow> take (unat (rf_size file)) old @ drop (unat (rf_size file)) fresh)
               in Some (file\<lparr>rf_data := Some new_data, rf_capacity := page_up new_size\<rparr>)
      else Some file)"

definition ramfs_file_write :: "u8 list option \<Rightarrow> u32 \<Rightarrow> u8 list \<Rightarrow> ramfs_file_t \<Rightarrow> (u32 \<times> ramfs_file_t) option" where
  "ramfs_file_write buf offset bytes file =
     (let sz = of_nat (length bytes); new_size = offset + sz
      in case ramfs_grow buf new_size file of
           None \<Rightarrow> Some (0, file)
         | Some f1 \<Rightarrow>
             (case rf_data f1 of
                None \<Rightarrow> if bytes = [] then Some (sz, f1) else None
              | Some data \<Rightarrow>
                  if unat offset + length bytes \<le> length data
                  then let f2 = f1\<lparr>rf_data := Some (splice_bytes (unat offset) bytes data)\<rparr>
                    in Some (sz, if rf_size f2 < new_size then f2\<lparr>rf_size := new_size\<rparr> else f2)
                  else None))"

text \<open>The node operations: the check of the type, the look-up of the file behind \<^verbatim>\<open>impl\<close>, the access.\<close>

definition ramfs_read :: "u32 \<Rightarrow> u32 \<Rightarrow> u32 \<Rightarrow> fs_state \<Rightarrow> u8 list option" where
  "ramfs_read node offset sz s =
     (case fs_nodes s node of None \<Rightarrow> None
      | Some n \<Rightarrow>
          if fn_type n \<noteq> FS_FILE \<or> fn_impl n = 0 then Some []
          else case fs_files s (fn_impl n) of None \<Rightarrow> None | Some f \<Rightarrow> ramfs_file_read offset sz f)"

definition ramfs_write :: "u8 list option \<Rightarrow> u32 \<Rightarrow> u32 \<Rightarrow> u8 list \<Rightarrow> fs_state \<Rightarrow> (u32 \<times> fs_state) option" where
  "ramfs_write buf node offset bytes s =
     (case fs_nodes s node of None \<Rightarrow> None
      | Some n \<Rightarrow>
          if fn_type n \<noteq> FS_FILE \<or> fn_impl n = 0 then Some (0, s)
          else case fs_files s (fn_impl n) of None \<Rightarrow> None
          | Some f \<Rightarrow>
              (case ramfs_file_write buf offset bytes f of None \<Rightarrow> None
               | Some (r, f') \<Rightarrow>
                   Some (r, put_node node (if rf_size f < rf_size f' then n\<lparr>fn_size := rf_size f'\<rparr> else n)
                              (put_file (fn_impl n) f' s))))"

section \<open>Directories\<close>

definition ramfs_dir_of :: "u32 \<Rightarrow> fs_state \<Rightarrow> (fs_node_t \<times> ramfs_dir_t) option option" where
  "ramfs_dir_of node s =
     (case fs_nodes s node of None \<Rightarrow> None
      | Some n \<Rightarrow>
          if fn_type n \<noteq> FS_DIRECTORY \<or> fn_impl n = 0 then Some None
          else case fs_dirs s (fn_impl n) of None \<Rightarrow> None | Some d \<Rightarrow> Some (Some (n, d)))"

datatype dirent_type = DT_REG | DT_DIR | DT_CHR | DT_BLK | DT_FIFO | DT_LNK

fun dirent_type_of :: "fs_node_type \<Rightarrow> dirent_type" where
  "dirent_type_of FS_FILE = DT_REG"
| "dirent_type_of FS_DIRECTORY = DT_DIR"
| "dirent_type_of FS_CHARDEVICE = DT_CHR"
| "dirent_type_of FS_BLOCKDEVICE = DT_BLK"
| "dirent_type_of FS_PIPE = DT_FIFO"
| "dirent_type_of FS_SYMLINK = DT_LNK"

record dirent =
  d_name :: string
  d_ino :: u32
  d_off :: u32
  d_type :: dirent_type

definition ramfs_readdir :: "u32 \<Rightarrow> u32 \<Rightarrow> fs_state \<Rightarrow> dirent option option" where
  "ramfs_readdir node index s =
     (case ramfs_dir_of node s of None \<Rightarrow> None | Some None \<Rightarrow> Some None
      | Some (Some (n, d)) \<Rightarrow>
          if length (rdir_entries d) \<le> unat index then Some None
          else let e = rdir_entries d ! unat index in
            case fs_nodes s (rd_node e) of None \<Rightarrow> None
            | Some t \<Rightarrow> Some (Some \<lparr>d_name = take 255 (rd_name e), d_ino = fn_inode t, d_off = index + 1,
                                  d_type = dirent_type_of (fn_type t)\<rparr>))"

definition ramfs_finddir :: "u32 \<Rightarrow> string \<Rightarrow> fs_state \<Rightarrow> (u32 \<times> fs_state) option" where
  "ramfs_finddir node name s =
     (case ramfs_dir_of node s of None \<Rightarrow> None | Some None \<Rightarrow> Some (0, s)
      | Some (Some (n, d)) \<Rightarrow>
          (case ramfs_find_entry d name of
             None \<Rightarrow> Some (0, s)
           | Some e \<Rightarrow>
               if rd_node e = 0 then Some (0, s)
               else map_option (\<lambda>s'. (rd_node e, s')) (vfs_ref_node (rd_node e) s)))"

text \<open>The initialised node of a new file or directory.\<close>

definition ramfs_node :: "string \<Rightarrow> u32 \<Rightarrow> fs_node_type \<Rightarrow> u32 \<Rightarrow> u32 \<Rightarrow> fs_node_t" where
  "ramfs_node name inode type permissions impl =
     (let n = zero_node\<lparr>fn_name := copy_name name, fn_inode := inode, fn_type := type, fn_permissions := permissions,
                        fn_impl := impl\<rparr>
      in if type = FS_DIRECTORY
         then n\<lparr>fn_readdir := Some Ramfs, fn_finddir := Some Ramfs, fn_create := Some Ramfs, fn_mkdir := Some Ramfs,
                fn_unlink := Some Ramfs, fn_rename := Some Ramfs\<rparr>
         else n\<lparr>fn_read := Some Ramfs, fn_write := Some Ramfs, fn_open := Some Ramfs, fn_close := Some Ramfs\<rparr>)"

text \<open>Results are \<open>True\<close> for 0 and \<open>False\<close> for -1.  The addresses are those of the new node, of its file or
  directory structure and of the directory entry.\<close>

definition ramfs_create_file :: "u32 \<Rightarrow> u32 \<Rightarrow> u32 \<Rightarrow> u32 \<Rightarrow> string \<Rightarrow> fs_state \<Rightarrow> (bool \<times> fs_state) option" where
  "ramfs_create_file a_node a_file a_entry node name s =
     (case ramfs_dir_of node s of None \<Rightarrow> None | Some None \<Rightarrow> Some (False, s)
      | Some (Some (n, d)) \<Rightarrow>
          if ramfs_find_entry d name \<noteq> None then Some (False, s)
          else if a_node = 0 then Some (False, s)
          else if a_file = 0 then Some (False, kfree_obj a_node s)
          else let s1 = put_file a_file \<lparr>rf_data = None, rf_size = 0, rf_capacity = 0\<rparr> s;
                   inode = next_inode s1; s2 = s1\<lparr>next_inode := inode + 1\<rparr>;
                   s3 = put_node a_node (ramfs_node name inode FS_FILE 6 a_file) s2
            in case ramfs_add_entry a_entry name a_node d of
                 None \<Rightarrow> Some (False, kfree_obj a_node (kfree_obj a_file s3))
               | Some d' \<Rightarrow> Some (True, put_dir (fn_impl n) d' s3))"

definition ramfs_mkdir :: "u32 \<Rightarrow> u32 \<Rightarrow> u32 \<Rightarrow> u32 \<Rightarrow> string \<Rightarrow> u32 \<Rightarrow> fs_state \<Rightarrow> (bool \<times> fs_state) option" where
  "ramfs_mkdir a_node a_dir a_entry node name permissions s =
     (case ramfs_dir_of node s of None \<Rightarrow> None | Some None \<Rightarrow> Some (False, s)
      | Some (Some (n, d)) \<Rightarrow>
          if ramfs_find_entry d name \<noteq> None then Some (False, s)
          else if a_node = 0 then Some (False, s)
          else if a_dir = 0 then Some (False, kfree_obj a_node s)
          else let s1 = put_dir a_dir \<lparr>rdir_entries = [], rdir_count = 0\<rparr> s;
                   inode = next_inode s1; s2 = s1\<lparr>next_inode := inode + 1\<rparr>;
                   s3 = put_node a_node (ramfs_node name inode FS_DIRECTORY permissions a_dir) s2
            in case ramfs_add_entry a_entry name a_node d of
                 None \<Rightarrow> Some (False, kfree_obj a_node (kfree_obj a_dir s3))
               | Some d' \<Rightarrow> Some (True, put_dir (fn_impl n) d' s3))"

fun update_first :: "('a \<Rightarrow> bool) \<Rightarrow> ('a \<Rightarrow> 'a) \<Rightarrow> 'a list \<Rightarrow> 'a list" where
  "update_first P f [] = []"
| "update_first P f (x # xs) = (if P x then f x # xs else x # update_first P f xs)"

definition ramfs_rename :: "u32 \<Rightarrow> string \<Rightarrow> string \<Rightarrow> fs_state \<Rightarrow> (bool \<times> fs_state) option" where
  "ramfs_rename node old_name new_name s =
     (case ramfs_dir_of node s of None \<Rightarrow> None | Some None \<Rightarrow> Some (False, s)
      | Some (Some (n, d)) \<Rightarrow>
          if old_name = '''' \<or> new_name = '''' then Some (False, s)
          else if old_name = new_name then Some (True, s)
          else case ramfs_find_entry d old_name of
                 None \<Rightarrow> Some (False, s)
               | Some e \<Rightarrow>
                   if ramfs_find_entry d new_name \<noteq> None then Some (False, s)
                   else let d' = d\<lparr>rdir_entries := update_first (\<lambda>x. rd_name x = old_name)
                                     (\<lambda>x. x\<lparr>rd_name := copy_name new_name\<rparr>) (rdir_entries d)\<rparr>;
                            s1 = put_dir (fn_impl n) d' s
                     in case fs_nodes s1 (rd_node e) of None \<Rightarrow> None
                        | Some t \<Rightarrow> Some (True, put_node (rd_node e) (t\<lparr>fn_name := copy_name new_name\<rparr>) s1))"

definition ramfs_unlink :: "u32 \<Rightarrow> string \<Rightarrow> fs_state \<Rightarrow> (bool \<times> fs_state) option" where
  "ramfs_unlink node name s =
     (case ramfs_dir_of node s of None \<Rightarrow> None | Some None \<Rightarrow> Some (False, s)
      | Some (Some (n, d)) \<Rightarrow>
          (case ramfs_find_entry d name of
             None \<Rightarrow> Some (False, s)
           | Some e \<Rightarrow>
               (case fs_nodes s (rd_node e) of None \<Rightarrow> None
                | Some t \<Rightarrow>
                    if fn_type t = FS_DIRECTORY \<and> fn_impl t \<noteq> 0 \<and> fs_dirs s (fn_impl t) = None then None
                    else if fn_type t = FS_DIRECTORY \<and> fn_impl t \<noteq> 0
                         \<and> 0 < rdir_count (the (fs_dirs s (fn_impl t))) then Some (False, s)
                    else let s1 = (if (fn_type t = FS_DIRECTORY \<or> fn_type t = FS_FILE) \<and> fn_impl t \<noteq> 0
                                   then kfree_obj (fn_impl t) s else s)
                      in case ramfs_remove_entry name d of
                           None \<Rightarrow> Some (True, kfree_obj (rd_node e) s1)
                         | Some d' \<Rightarrow> Some (True, kfree_obj (rd_node e) (put_dir (fn_impl n) d' s1)))))"

definition ramfs_create :: "u32 \<Rightarrow> u32 \<Rightarrow> string option \<Rightarrow> fs_state \<Rightarrow> u32 \<times> fs_state" where
  "ramfs_create a_node a_dir name s =
     (if a_node = 0 then (0, s)
      else if a_dir = 0 then (0, kfree_obj a_node s)
      else let s1 = put_dir a_dir \<lparr>rdir_entries = [], rdir_count = 0\<rparr> s;
               inode = next_inode s1; s2 = s1\<lparr>next_inode := inode + 1\<rparr>
        in (a_node, put_node a_node
              (ramfs_node (case name of Some x \<Rightarrow> x | None \<Rightarrow> ''/'') inode FS_DIRECTORY 7 a_dir) s2))"

definition ramfs_init :: "u32 \<Rightarrow> u32 \<Rightarrow> fs_state \<Rightarrow> u32 \<times> fs_state" where
  "ramfs_init a_node a_dir s = ramfs_create a_node a_dir (Some ''/'') s"

section \<open>Reading what was written\<close>

definition file_ok :: "ramfs_file_t \<Rightarrow> bool" where
  "file_ok f \<longleftrightarrow> rf_size f \<le> rf_capacity f
     \<and> (case rf_data f of None \<Rightarrow> rf_capacity f = 0 | Some d \<Rightarrow> length d = unat (rf_capacity f))"

definition file_bytes :: "ramfs_file_t \<Rightarrow> u8 list" where
  "file_bytes f = (case rf_data f of None \<Rightarrow> [] | Some d \<Rightarrow> take (unat (rf_size f)) d)"

lemma length_file_bytes: "file_ok f \<Longrightarrow> length (file_bytes f) = unat (rf_size f)"
  by (auto simp: file_ok_def file_bytes_def word_le_nat_alt split: option.splits)

lemma unat_page_up:
  assumes "unat n + 4095 < 4294967296"
  shows "unat (page_up n) = (unat n + 4095) div 4096 * 4096"
proof -
  have "(4095 :: u32) = mask 12" by (simp add: mask_eq_exp_minus_1)
  then have "page_up n = (n + 4095) AND NOT (mask 12)" by (simp only: page_up_def)
  then show ?thesis using assms by (simp only: unat_and_not_mask) (simp add: unat_add_no_wrap)
qed

lemma ramfs_grow_ok:
  assumes ok: "file_ok f" and sz: "unat new_size + 4095 < 4294967296"
    and buf: "rf_capacity f < new_size \<Longrightarrow> buf = Some fresh \<and> length fresh = unat (page_up new_size)"
  shows "\<exists>f1. ramfs_grow buf new_size f = Some f1 \<and> file_ok f1 \<and> rf_size f1 = rf_size f
    \<and> unat new_size \<le> unat (rf_capacity f1) \<and> file_bytes f1 = file_bytes f"
proof (cases "rf_capacity f < new_size")
  case True
  have up: "unat new_size \<le> unat (page_up new_size)" using unat_page_up[OF sz] page_round(1)[of "unat new_size"] by simp
  have le: "unat (rf_size f) \<le> unat (rf_capacity f)" "unat (rf_capacity f) < unat new_size"
    using ok True by (auto simp: file_ok_def word_le_nat_alt word_less_nat_alt)
  show ?thesis
  proof (cases "rf_data f")
    case None
    then have z: "unat (rf_size f) = 0" using ok le by (auto simp: file_ok_def)
    show ?thesis using True buf ok None up le z
      by (auto simp: ramfs_grow_def file_ok_def file_bytes_def word_le_nat_alt)
  next
    case (Some d)
    then have "length d = unat (rf_capacity f)" using ok by (simp add: file_ok_def)
    then show ?thesis using True buf ok Some up le
      by (auto simp: ramfs_grow_def file_ok_def file_bytes_def word_le_nat_alt Let_def)
  qed
next
  case False
  then show ?thesis using ok by (auto simp: ramfs_grow_def word_less_nat_alt not_less)
qed

lemma splice_bytes_facts:
  assumes "off + length bs \<le> length data"
  shows "length (splice_bytes off bs data) = length data"
    "take (length bs) (drop off (splice_bytes off bs data)) = bs"
    "i < off \<or> off + length bs \<le> i \<Longrightarrow> i < length data \<Longrightarrow> splice_bytes off bs data ! i = data ! i"
  using assms by (auto simp: splice_bytes_def nth_append)

text \<open>
  C20: a file returns what was written.  A write of a region that ends below 4 GB succeeds whenever the
  buffer it may need is available; afterwards reading the same region gives exactly the bytes written,
  every other byte of the old contents is unchanged, and the size is the larger of the old size and the
  end of the region.
\<close>

theorem ramfs_write_read:
  assumes ok: "file_ok f" and sz: "unat offset + length bytes + 4095 < 4294967296" and ne: "bytes \<noteq> []"
    and buf: "rf_capacity f < offset + of_nat (length bytes) \<Longrightarrow>
      buf = Some fresh \<and> length fresh = unat (page_up (offset + of_nat (length bytes)))"
  shows "\<exists>f'. ramfs_file_write buf offset bytes f = Some (of_nat (length bytes), f') \<and> file_ok f'
    \<and> ramfs_file_read offset (of_nat (length bytes)) f' = Some bytes
    \<and> unat (rf_size f') = max (unat (rf_size f)) (unat offset + length bytes)
    \<and> (\<forall>i < unat (rf_size f). i < unat offset \<or> unat offset + length bytes \<le> i \<longrightarrow> file_bytes f' ! i = file_bytes f ! i)"
proof -
  let ?n = "of_nat (length bytes) :: u32" let ?e = "offset + ?n"
  have n: "unat ?n = length bytes" using sz by (intro unat_of_nat_u32) linarith
  have e: "unat ?e = unat offset + length bytes" using sz n by (subst unat_add_no_wrap) simp_all
  obtain f1 where f1: "ramfs_grow buf ?e f = Some f1" "file_ok f1" "rf_size f1 = rf_size f"
      "unat ?e \<le> unat (rf_capacity f1)" "file_bytes f1 = file_bytes f"
    using ramfs_grow_ok[OF ok _ buf] sz e by auto
  obtain d where d: "rf_data f1 = Some d" "length d = unat (rf_capacity f1)"
    using f1(2,4) e ne by (cases "rf_data f1") (auto simp: file_ok_def)
  have le: "unat offset + length bytes \<le> length d" "unat (rf_size f) \<le> length d"
    using f1 d e by (auto simp: file_ok_def word_le_nat_alt)
  note sp = splice_bytes_facts[OF le(1)]
  define f' where "f' = (let f2 = f1\<lparr>rf_data := Some (splice_bytes (unat offset) bytes d)\<rparr>
    in if rf_size f2 < ?e then f2\<lparr>rf_size := ?e\<rparr> else f2)"
  have data: "rf_data f' = Some (splice_bytes (unat offset) bytes d)" "rf_capacity f' = rf_capacity f1"
    by (simp_all add: f'_def Let_def)
  have size: "unat (rf_size f') = max (unat (rf_size f)) (unat offset + length bytes)"
    using e f1(3) by (auto simp: f'_def Let_def word_less_nat_alt max_def)
  have w: "ramfs_file_write buf offset bytes f = Some (?n, f')"
    using f1(1) d(1) le(1) by (simp add: ramfs_file_write_def Let_def f'_def)
  have ok': "file_ok f'" using data size d(2) le sp(1) by (simp add: file_ok_def word_le_nat_alt)
  have "\<not> rf_size f' \<le> offset" using size ne by (auto simp: word_le_nat_alt)
  moreover have "\<not> rf_size f' < ?e" using size e by (auto simp: word_less_nat_alt)
  ultimately have r: "ramfs_file_read offset ?n f' = Some bytes"
    using sp le n by (simp add: ramfs_file_read_def data)
  have "file_bytes f' ! i = file_bytes f ! i"
    if i: "i < unat (rf_size f)" "i < unat offset \<or> unat offset + length bytes \<le> i" for i
  proof -
    have "file_bytes f ! i = d ! i" 
      using f1(3) d(1) i(1) unfolding f1(5)[symmetric] by (simp add: file_bytes_def)
    then show ?thesis using sp(3)[OF i(2)] i(1) le(2) size by (simp add: file_bytes_def data)
  qed
  with w ok' r size show ?thesis by blast
qed

theorem ramfs_write_read_witness:
  "\<exists>f'. ramfs_file_write (Some (replicate 4096 9)) 3 [1, 2] \<lparr>rf_data = None, rf_size = 0, rf_capacity = 0\<rparr> = Some (2, f')
     \<and> ramfs_file_read 3 2 f' = Some [1, 2] \<and> unat (rf_size f') = 5"
  using ramfs_write_read[of "\<lparr>rf_data = None, rf_size = 0, rf_capacity = 0\<rparr>" 3 "[1, 2]" "Some (replicate 4096 9)" "replicate 4096 9"]
  by (simp add: file_ok_def page_up_def) auto

text \<open>
  C28: an offset near 4 GB defeats the bounds of a file.  The end of the written region is computed in 32
  bits.  Every write whose end passes 4 GB, to any file, fails: if the wrapped end exceeds the capacity and there is
  no memory for a larger buffer it returns 0 and the file is as before; otherwise the buffer, grown to the
  wrapped end or not grown at all, does not contain the written region and the copy runs out of it.
\<close>

theorem ramfs_write_wraps:
  assumes ok: "file_ok f" and wrap: "4294967296 \<le> unat offset + length bytes" "length bytes < 4294967296"
    and buf: "\<forall>fresh. buf = Some fresh \<longrightarrow> length fresh = unat (page_up (offset + of_nat (length bytes)))"
  shows "ramfs_file_write buf offset bytes f =
    (if rf_capacity f < offset + of_nat (length bytes) \<and> buf = None then Some (0, f) else None)"
proof -
  let ?e = "offset + of_nat (length bytes)"
  have ne: "bytes \<noteq> []" using wrap(1) unat_lt_u32[of offset] by fastforce
  have short: "length d < unat offset + length bytes" if g: "ramfs_grow buf ?e f = Some f1" "rf_data f1 = Some d" for f1 d
  proof -
    have sz: "unat (rf_size f) \<le> unat (rf_capacity f)" using ok by (simp add: file_ok_def word_le_nat_alt)
    have old: "length d' = unat (rf_capacity f)" if "rf_data f = Some d'" for d' using ok that by (simp add: file_ok_def)
    have sum: "unat a + (unat b - unat a) < 4294967296" for a b :: u32 using unat_lt_u32[of a] unat_lt_u32[of b] by linarith
    have "length d < 4294967296"
      using g buf sz old unat_lt_u32[of "rf_capacity f"] unat_lt_u32[of "page_up ?e"] sum
      by (auto simp: ramfs_grow_def Let_def split: if_splits option.splits)
    then show ?thesis using wrap(1) by linarith
  qed
  show ?thesis
  proof (cases "ramfs_grow buf ?e f")
    case None
    then have "rf_capacity f < ?e \<and> buf = None" by (auto simp: ramfs_grow_def Let_def split: if_splits option.splits)
    then show ?thesis using None by (simp add: ramfs_file_write_def)
  next
    case (Some f1)
    then have "\<not> (rf_capacity f < ?e \<and> buf = None)" by (auto simp: ramfs_grow_def split: option.splits)
    moreover have "ramfs_file_write buf offset bytes f = None"
      using Some ne short[OF Some] by (auto simp: ramfs_file_write_def Let_def not_le[symmetric] split: option.split)
    ultimately show ?thesis by simp
  qed
qed

theorem ramfs_write_wraps_witness:
  "ramfs_file_write (Some (replicate 4096 0)) 0xFFFFFFFF (replicate 17 1) \<lparr>rf_data = None, rf_size = 0, rf_capacity = 0\<rparr> = None
   \<and> ramfs_file_write None 0xFFFFFFFF [1, 2] \<lparr>rf_data = Some [5, 5], rf_size = 2, rf_capacity = 2\<rparr> = None
   \<and> ramfs_file_write None 0xFFFFFFFF (replicate 17 1) \<lparr>rf_data = None, rf_size = 0, rf_capacity = 0\<rparr>
       = Some (0, \<lparr>rf_data = None, rf_size = 0, rf_capacity = 0\<rparr>)"
proof -
  let ?f = "\<lparr>rf_data = None, rf_size = 0, rf_capacity = 0\<rparr>" and ?g = "\<lparr>rf_data = Some [5, 5], rf_size = 2, rf_capacity = 2\<rparr>"
  have "ramfs_file_write (Some (replicate 4096 0)) 0xFFFFFFFF (replicate 17 1) ?f = None"
    using ramfs_write_wraps[of ?f "0xFFFFFFFF" "replicate 17 1" "Some (replicate 4096 0)"] by (simp add: file_ok_def page_up_def)
  moreover have "ramfs_file_write None 0xFFFFFFFF [1, 2] ?g = None"
    using ramfs_write_wraps[of ?g "0xFFFFFFFF" "[1, 2]" None] by (simp add: file_ok_def)
  moreover have "ramfs_file_write None 0xFFFFFFFF (replicate 17 1) ?f = Some (0, ?f)"
    using ramfs_write_wraps[of ?f "0xFFFFFFFF" "replicate 17 1" None] by (simp add: file_ok_def)
  ultimately show ?thesis by simp
qed

section \<open>Names in a directory\<close>

text \<open>The directory at \<open>node\<close> is well formed: its nodes exist, are not counted (\<^verbatim>\<open>ramfs\<close> nodes have no flags)
  and are not null.\<close>

definition dir_ok :: "u32 \<Rightarrow> fs_node_t \<Rightarrow> ramfs_dir_t \<Rightarrow> fs_state \<Rightarrow> bool" where
  "dir_ok node n d s \<longleftrightarrow> ramfs_dir_of node s = Some (Some (n, d))
     \<and> (\<forall>e \<in> set (rdir_entries d). rd_node e \<noteq> 0 \<and> (\<exists>t. fs_nodes s (rd_node e) = Some t \<and> fn_flags t = 0))"

text \<open>The name-to-node map of a directory.\<close>

definition dir_map :: "ramfs_dir_t \<Rightarrow> string \<Rightarrow> u32 option" where
  "dir_map d name = map_option rd_node (ramfs_find_entry d name)"

lemma dir_ok_node:
  "dir_ok node n d s \<Longrightarrow> fs_nodes s node = Some n \<and> fs_dirs s (fn_impl n) = Some d \<and> fn_impl n \<noteq> 0 \<and> fn_type n = FS_DIRECTORY"
  by (auto simp: dir_ok_def ramfs_dir_of_def split: option.splits if_splits)

lemma ramfs_finddir_map:
  assumes "dir_ok node n d s"
  shows "ramfs_finddir node name s = Some (case dir_map d name of None \<Rightarrow> 0 | Some a \<Rightarrow> a, s)"
proof (cases "ramfs_find_entry d name")
  case None
  then show ?thesis using assms by (simp add: ramfs_finddir_def dir_map_def dir_ok_def)
next
  case (Some e)
  then have "e \<in> set (rdir_entries d)" by (auto simp: ramfs_find_entry_def find_Some_iff)
  then obtain t where "rd_node e \<noteq> 0" "fs_nodes s (rd_node e) = Some t" "fn_flags t = 0"
    using assms by (auto simp: dir_ok_def)
  then show ?thesis using assms Some by (simp add: ramfs_finddir_def dir_map_def dir_ok_def vfs_ref_node_def)
qed

lemma dir_map_cons: "dir_map (d\<lparr>rdir_entries := \<lparr>rd_name = x, rd_node = a\<rparr> # rdir_entries d, rdir_count := c\<rparr>) =
    (dir_map d)(x \<mapsto> a)"
  by (auto simp: dir_map_def ramfs_find_entry_def fun_eq_iff)

text \<open>
  Creating and removing a file.  In a well-formed directory, creating a file under a new name of at
  most 127 characters makes exactly that name resolve to the new node and leaves every other name as it
  was; creating it again fails; and removing it makes the directory resolve every name as before and
  frees the node and the file structure.
\<close>

theorem ramfs_create_unlink:
  assumes ok: "dir_ok node n d s" and new: "dir_map d name = None" "length name \<le> 127"
    and alloc: "a_node \<noteq> 0" "a_file \<noteq> 0" "a_entry \<noteq> 0" "a_node \<noteq> a_file"
    and fresh: "fs_nodes s a_node = None" "fs_nodes s a_file = None" "fs_dirs s a_node = None" "fs_dirs s a_file = None"
  shows "\<exists>s1 d1. ramfs_create_file a_node a_file a_entry node name s = Some (True, s1)
    \<and> dir_ok node n d1 s1 \<and> dir_map d1 = (dir_map d)(name \<mapsto> a_node)
    \<and> ramfs_create_file b_node b_file b_entry node name s1 = Some (False, s1)
    \<and> (\<exists>s2 d2. ramfs_unlink node name s1 = Some (True, s2) \<and> dir_ok node n d2 s2 \<and> dir_map d2 = dir_map d
         \<and> fs_nodes s2 a_node = None \<and> fs_files s2 a_file = None)"
proof -
  note nd = dir_ok_node[OF ok]
  have ne: "node \<noteq> a_node" "node \<noteq> a_file" "fn_impl n \<noteq> a_node" "fn_impl n \<noteq> a_file"
    using nd fresh by auto
  have none: "ramfs_find_entry d name = None" using new(1) by (simp add: dir_map_def)
  let ?e = "\<lparr>rd_name = name, rd_node = a_node\<rparr>"
  define d1 where "d1 = d\<lparr>rdir_entries := ?e # rdir_entries d, rdir_count := rdir_count d + 1\<rparr>"
  define s1 where "s1 = put_dir (fn_impl n) d1 (put_node a_node (ramfs_node name (next_inode s) FS_FILE 6 a_file)
    ((put_file a_file \<lparr>rf_data = None, rf_size = 0, rf_capacity = 0\<rparr> s)\<lparr>next_inode := next_inode s + 1\<rparr>))"
  have c: "ramfs_create_file a_node a_file a_entry node name s = Some (True, s1)"
    using ok none alloc new(2)
    by (simp add: ramfs_create_file_def dir_ok_def ramfs_add_entry_def copy_name_def Let_def s1_def d1_def)
  have fl: "fn_flags (ramfs_node name i FS_FILE 6 a_file) = 0" "fn_type (ramfs_node name i FS_FILE 6 a_file) = FS_FILE"
    "fn_impl (ramfs_node name i FS_FILE 6 a_file) = a_file" for i
    by (simp_all add: ramfs_node_def zero_node_def Let_def)
  have ok1: "dir_ok node n d1 s1"
    using ok nd ne alloc fl fresh by (auto simp: dir_ok_def ramfs_dir_of_def s1_def d1_def)
  have m1: "dir_map d1 = (dir_map d)(name \<mapsto> a_node)" unfolding d1_def by (rule dir_map_cons)
  have f1: "ramfs_find_entry d1 name = Some ?e" by (simp add: ramfs_find_entry_def d1_def)
  have c1: "ramfs_create_file b_node b_file b_entry node name s1 = Some (False, s1)"
    using ok1 f1 by (simp add: ramfs_create_file_def dir_ok_def)
  define d2 where "d2 = d1\<lparr>rdir_entries := rdir_entries d, rdir_count := rdir_count d1 - 1\<rparr>"
  define s2 where "s2 = kfree_obj a_node (put_dir (fn_impl n) d2 (kfree_obj a_file s1))"
  have u: "ramfs_unlink node name s1 = Some (True, s2)"
  proof -
    have "fs_nodes s1 a_node = Some (ramfs_node name (next_inode s) FS_FILE 6 a_file)" by (simp add: s1_def)
    moreover have "ramfs_remove_entry name d1 = Some d2"
      by (simp add: ramfs_remove_entry_def f1) (simp add: d2_def d1_def)
    moreover have "ramfs_dir_of node s1 = Some (Some (n, d1))" using ok1 by (simp add: dir_ok_def)
    ultimately show ?thesis using f1 alloc by (simp add: ramfs_unlink_def fl s2_def Let_def)
  qed
  have k: "e \<in> set (rdir_entries d) \<Longrightarrow> rd_node e \<noteq> a_node \<and> rd_node e \<noteq> a_file" for e
    using ok fresh by (auto simp: dir_ok_def)
  have ok2: "dir_ok node n d2 s2"
    using ok nd ne alloc k by (auto simp: dir_ok_def ramfs_dir_of_def s2_def d2_def kfree_obj_def s1_def)
  have "dir_map d2 = dir_map d" by (simp add: d2_def d1_def dir_map_def ramfs_find_entry_def fun_eq_iff)
  moreover have "fs_nodes s2 a_node = None" "fs_files s2 a_file = None"
    using alloc by (simp_all add: s2_def kfree_obj_def)
  ultimately show ?thesis using c ok1 m1 c1 u ok2 by blast
qed

definition ramfs_sample :: fs_state where
  "ramfs_sample = \<lparr>fs_nodes = [0x1000 \<mapsto> ramfs_node ''/'' 1 FS_DIRECTORY 7 0x2000], fs_pipes = Map.empty, fs_files = Map.empty,
     fs_dirs = [0x2000 \<mapsto> \<lparr>rdir_entries = [], rdir_count = 0\<rparr>], pipe_inode_counter = 0, next_inode = 2\<rparr>"

lemma ramfs_sample_ok:
  "dir_ok 0x1000 (ramfs_node ''/'' 1 FS_DIRECTORY 7 0x2000) \<lparr>rdir_entries = [], rdir_count = 0\<rparr> ramfs_sample"
  by (simp add: dir_ok_def ramfs_dir_of_def ramfs_sample_def ramfs_node_def zero_node_def Let_def)

theorem ramfs_create_unlink_witness:
  "\<exists>s1 s2. ramfs_create_file 0x3000 0x4000 0x5000 0x1000 ''a'' ramfs_sample = Some (True, s1)
     \<and> ramfs_finddir 0x1000 ''a'' s1 = Some (0x3000, s1)
     \<and> ramfs_unlink 0x1000 ''a'' s1 = Some (True, s2) \<and> fs_nodes s2 0x3000 = None"
proof -
  let ?n = "ramfs_node ''/'' 1 FS_DIRECTORY 7 0x2000"
  have "\<exists>s1 d1. ramfs_create_file 0x3000 0x4000 0x5000 0x1000 ''a'' ramfs_sample = Some (True, s1)
    \<and> dir_ok 0x1000 ?n d1 s1 \<and> dir_map d1 = (dir_map \<lparr>rdir_entries = [], rdir_count = 0\<rparr>)(''a'' \<mapsto> 0x3000)
    \<and> ramfs_create_file 0 0 0 0x1000 ''a'' s1 = Some (False, s1)
    \<and> (\<exists>s2 d2. ramfs_unlink 0x1000 ''a'' s1 = Some (True, s2) \<and> dir_ok 0x1000 ?n d2 s2
         \<and> dir_map d2 = dir_map \<lparr>rdir_entries = [], rdir_count = 0\<rparr>
         \<and> fs_nodes s2 0x3000 = None \<and> fs_files s2 0x4000 = None)"
    by (rule ramfs_create_unlink[OF ramfs_sample_ok])
      (simp_all add: dir_map_def ramfs_find_entry_def ramfs_sample_def)
  then show ?thesis by (auto simp: ramfs_finddir_map)
qed

end
