(* ===== verification/Vfs.thy ===== *)
theory Vfs
  imports Pipe Ramfs
begin

text \<open>
  The virtual file system, \<^verbatim>\<open>src/src/fs/vfs.c\<close>: dispatch to the file systems through the function
  pointers of a node, resolution of paths with mount points, and the operations on paths.  The model
  covers the trees of \<^verbatim>\<open>ramfs\<close> and the pipe nodes.  As in the other file-system theories \<open>None\<close> is an
  access to an object that does not exist, and the results of \<^verbatim>\<open>kmalloc\<close> calls are arguments.
\<close>

record vfs_state =
  vs_fs :: fs_state
  fs_root :: u32
  mount_table :: "(string \<times> u32) list"

abbreviation (input) MAX_MOUNTS :: nat where "MAX_MOUNTS \<equiv> 32"
abbreviation (input) slash :: char where "slash \<equiv> CHR ''/''"

section \<open>Dispatch\<close>

definition pipe_of :: "u32 \<Rightarrow> fs_state \<Rightarrow> pipe_t option option" where
  "pipe_of node s =
     (case fs_nodes s node of None \<Rightarrow> None
      | Some n \<Rightarrow> if fn_impl n = 0 then Some None
                 else case fs_pipes s (fn_impl n) of None \<Rightarrow> None | Some p \<Rightarrow> Some (Some p))"

definition pipe_node_read :: "u32 \<Rightarrow> u32 \<Rightarrow> fs_state \<Rightarrow> (read_outcome \<times> fs_state) option" where
  "pipe_node_read node sz s =
     (case pipe_of node s of None \<Rightarrow> None | Some None \<Rightarrow> Some (Read_done [], s)
      | Some (Some p) \<Rightarrow> (case pipe_read sz p of (r, p') \<Rightarrow> Some (r, put_pipe (fn_impl (the (fs_nodes s node))) p' s)))"

definition pipe_node_write :: "u32 \<Rightarrow> u8 list \<Rightarrow> fs_state \<Rightarrow> (write_outcome \<times> fs_state) option" where
  "pipe_node_write node bytes s =
     (case pipe_of node s of None \<Rightarrow> None | Some None \<Rightarrow> Some (Write_done 0, s)
      | Some (Some p) \<Rightarrow>
          (case pipe_write bytes p of None \<Rightarrow> None
           | Some (r, p') \<Rightarrow> Some (r, put_pipe (fn_impl (the (fs_nodes s node))) p' s)))"

definition vfs_read :: "u32 \<Rightarrow> u32 \<Rightarrow> u32 \<Rightarrow> fs_state \<Rightarrow> (read_outcome \<times> fs_state) option" where
  "vfs_read node offset sz s =
     (if node = 0 then Some (Read_done [], s)
      else case fs_nodes s node of None \<Rightarrow> None
      | Some n \<Rightarrow>
          (case fn_read n of
             None \<Rightarrow> Some (Read_done [], s)
           | Some Ramfs \<Rightarrow> map_option (\<lambda>bs. (Read_done bs, s)) (ramfs_read node offset sz s)
           | Some Pipe \<Rightarrow> pipe_node_read node sz s))"

definition vfs_write :: "u8 list option \<Rightarrow> u32 \<Rightarrow> u32 \<Rightarrow> u8 list \<Rightarrow> fs_state \<Rightarrow> (write_outcome \<times> fs_state) option" where
  "vfs_write buf node offset bytes s =
     (if node = 0 then Some (Write_done 0, s)
      else case fs_nodes s node of None \<Rightarrow> None
      | Some n \<Rightarrow>
          (case fn_write n of
             None \<Rightarrow> Some (Write_done 0, s)
           | Some Ramfs \<Rightarrow> map_option (\<lambda>(r, s'). (Write_done (unat r), s')) (ramfs_write buf node offset bytes s)
           | Some Pipe \<Rightarrow> pipe_node_write node bytes s))"

text \<open>The open operation of both file systems does nothing, and so does the close operation of \<^verbatim>\<open>ramfs\<close>.\<close>

definition vfs_open :: "u32 \<Rightarrow> fs_state \<Rightarrow> fs_state option" where
  "vfs_open node s =
     (if node = 0 then Some s else case fs_nodes s node of None \<Rightarrow> None | Some _ \<Rightarrow> Some s)"

definition vfs_close :: "u32 \<Rightarrow> fs_state \<Rightarrow> fs_state option" where
  "vfs_close node s =
     (if node = 0 then Some s
      else case fs_nodes s node of None \<Rightarrow> None
      | Some n \<Rightarrow> (case fn_close n of None \<Rightarrow> Some s | Some Ramfs \<Rightarrow> Some s | Some Pipe \<Rightarrow> pipe_close node s))"

definition vfs_readdir :: "u32 \<Rightarrow> u32 \<Rightarrow> fs_state \<Rightarrow> dirent option option" where
  "vfs_readdir node index s =
     (if node = 0 then Some None
      else case fs_nodes s node of None \<Rightarrow> None
      | Some n \<Rightarrow> if fn_type n \<noteq> FS_DIRECTORY then Some None
                 else case fn_readdir n of Some Ramfs \<Rightarrow> ramfs_readdir node index s | _ \<Rightarrow> Some None)"

definition node_finddir :: "fs_node_t \<Rightarrow> u32 \<Rightarrow> string \<Rightarrow> fs_state \<Rightarrow> (u32 \<times> fs_state) option" where
  "node_finddir n node name s = (case fn_finddir n of Some Ramfs \<Rightarrow> ramfs_finddir node name s | _ \<Rightarrow> Some (0, s))"

definition vfs_finddir :: "u32 \<Rightarrow> u32 \<Rightarrow> string \<Rightarrow> fs_state \<Rightarrow> (u32 \<times> fs_state) option" where
  "vfs_finddir root node name s =
     (if node = 0 then Some (0, s)
      else case fs_nodes s node of None \<Rightarrow> None
      | Some n \<Rightarrow>
          if fn_type n \<noteq> FS_DIRECTORY then Some (0, s)
          else if name = ''.'' then Some (node, s)
          else if name = ''..''
          then (case node_finddir n node ''..'' s of None \<Rightarrow> None
                | Some (parent, s') \<Rightarrow>
                    if parent \<noteq> 0 then Some (parent, s') else Some (if node = root then root else 0, s'))
          else node_finddir n node name s)"

section \<open>Paths\<close>

text \<open>The next component of a path: at most 127 characters up to a slash.\<close>

fun take_token :: "nat \<Rightarrow> string \<Rightarrow> string \<times> string" where
  "take_token 0 p = ([], p)"
| "take_token (Suc k) [] = ([], [])"
| "take_token (Suc k) (c # p) =
     (if c = slash then ([], c # p) else case take_token k p of (t, r) \<Rightarrow> (c # t, r))"

lemma take_token_length:
  "take_token k p = (t, r) \<Longrightarrow> length t + length r = length p"
  by (induction k p arbitrary: t r rule: take_token.induct) (auto split: if_splits prod.splits)

lemma take_token_progress_Suc:
  assumes "take_token (Suc k) p = (t, r)" "p \<noteq> []"
  shows "length (dropWhile (\<lambda>c. c = slash) r) < length p"
proof -
  obtain c p' where p: "p = c # p'" using assms(2) by (cases p) auto
  have l: "length (dropWhile (\<lambda>c. c = slash) x) \<le> length x" for x :: string by (rule length_dropWhile_le)
  show ?thesis
  proof (cases "c = slash")
    case True
    then have "r = c # p'" using assms(1) p by simp
    then show ?thesis using l[of p'] True p by simp
  next
    case False
    then have "t \<noteq> []" using assms(1) p by (auto split: prod.splits)
    then show ?thesis using take_token_length[OF assms(1)] l[of r] by (cases t) auto
  qed
qed

lemmas take_token_progress = take_token_progress_Suc[of 126, simplified]

definition release_unless :: "bool \<Rightarrow> u32 \<Rightarrow> fs_state \<Rightarrow> fs_state option" where
  "release_unless keep node s = (if keep then Some s else vfs_release_node node s)"

text \<open>The walk along the components.  There are two copies of this loop in the code, for a path below a
  mount point and for one from the root; they differ in that the first releases its start node in two
  error cases.\<close>

function vfs_walk :: "u32 \<Rightarrow> bool \<Rightarrow> u32 \<Rightarrow> string \<Rightarrow> u32 \<Rightarrow> fs_state \<Rightarrow> (u32 \<times> fs_state) option" where
  "vfs_walk root mounted start path current s =
     (if path = [] then Some (current, s)
      else case take_token 127 path of (token, rest) \<Rightarrow>
        if rest \<noteq> [] \<and> hd rest \<noteq> slash
        then map_option (\<lambda>s'. (0, s')) (release_unless (\<not> mounted \<and> current = start) current s)
        else let path' = dropWhile (\<lambda>c. c = slash) rest in
          if token = [] \<or> token = ''.'' then vfs_walk root mounted start path' current s
          else if token = ''..''
          then (case vfs_finddir root current ''..'' s of None \<Rightarrow> None
                | Some (parent, s1) \<Rightarrow>
                    if parent = 0
                    then map_option (\<lambda>s'. (0, s')) (release_unless (\<not> mounted \<and> current = start) current s1)
                    else (case release_unless (current = start) current s1 of None \<Rightarrow> None
                          | Some s2 \<Rightarrow> vfs_walk root mounted start path' parent s2))
          else (case vfs_finddir root current token s of None \<Rightarrow> None
                | Some (next, s1) \<Rightarrow>
                    (case release_unless (current = start) current s1 of None \<Rightarrow> None
                     | Some s2 \<Rightarrow> if next = 0 then Some (0, s2) else vfs_walk root mounted start path' next s2)))"
  by pat_completeness auto
termination
  by (relation "measure (\<lambda>(_, _, _, path, _, _). length path)") (auto intro: take_token_progress[OF sym])

definition vfs_get_mounted_root_by_path :: "string \<Rightarrow> (string \<times> u32) list \<Rightarrow> u32" where
  "vfs_get_mounted_root_by_path path mounts =
     (case find (\<lambda>(p, r). p = path) mounts of None \<Rightarrow> 0 | Some (p, r) \<Rightarrow> r)"

definition mount_matches :: "string \<Rightarrow> string \<Rightarrow> bool" where
  "mount_matches path mpath \<longleftrightarrow> take (length mpath) path = mpath
     \<and> (length path = length mpath \<or> length mpath < length path \<and> path ! length mpath = slash)"

definition vfs_path_to_node :: "string \<Rightarrow> vfs_state \<Rightarrow> (u32 \<times> vfs_state) option" where
  "vfs_path_to_node path v =
     (let with_fs = map_option (\<lambda>(n, s). (n, v\<lparr>vs_fs := s\<rparr>)) in
      if fs_root v = 0 then Some (0, v)
      else if path = [slash] then Some (fs_root v, v)
      else let mounted = vfs_get_mounted_root_by_path path (mount_table v) in
        if mounted \<noteq> 0 then Some (mounted, v)
        else case find (\<lambda>(p, r). mount_matches path p) (mount_table v) of
               Some (p, r) \<Rightarrow>
                 if length path = length p then Some (r, v)
                 else with_fs (vfs_walk (fs_root v) True r (drop (Suc (length p)) path) r (vs_fs v))
             | None \<Rightarrow>
                 with_fs (vfs_walk (fs_root v) False (fs_root v)
                   (case path of c # p \<Rightarrow> if c = slash then p else path | [] \<Rightarrow> []) (fs_root v) (vs_fs v)))"

section \<open>Operations on paths\<close>

definition last_slash :: "string \<Rightarrow> nat option" where
  "last_slash path = (let is = filter (\<lambda>i. path ! i = slash) [0..<length path] in
     if is = [] then None else Some (last is))"

text \<open>The directory part and the name; \<open>None\<close> if the directory part does not fit its buffer.\<close>

definition split_path :: "string \<Rightarrow> (string \<times> string) option" where
  "split_path path =
     (case last_slash path of
        None \<Rightarrow> Some ([slash], path)
      | Some i \<Rightarrow>
          if i = 0 then Some ([slash], drop 1 path)
          else if 256 \<le> i then None else Some (take i path, drop (Suc i) path))"

definition on_fs :: "(fs_state \<Rightarrow> fs_state option) \<Rightarrow> vfs_state \<Rightarrow> vfs_state option" where
  "on_fs f v = map_option (\<lambda>s. v\<lparr>vs_fs := s\<rparr>) (f (vs_fs v))"

text \<open>The common frame of \<^verbatim>\<open>vfs_create\<close>, \<^verbatim>\<open>vfs_mkdir\<close> and \<^verbatim>\<open>vfs_unlink\<close>: resolve the parent, check that it is a
  directory with the operation, call it, release the parent.\<close>

definition with_parent ::
    "string \<Rightarrow> (fs_node_t \<Rightarrow> fs_fn option) \<Rightarrow> (u32 \<Rightarrow> fs_state \<Rightarrow> (bool \<times> fs_state) option) \<Rightarrow> vfs_state
     \<Rightarrow> (bool \<times> vfs_state) option" where
  "with_parent parent_path field operation v =
     (case vfs_path_to_node parent_path v of None \<Rightarrow> None
      | Some (parent, v1) \<Rightarrow>
          if parent = 0 then Some (False, v1)
          else (case fs_nodes (vs_fs v1) parent of None \<Rightarrow> None
          | Some n \<Rightarrow>
              if fn_type n \<noteq> FS_DIRECTORY \<or> field n \<noteq> Some Ramfs
              then map_option (\<lambda>v'. (False, v')) (on_fs (vfs_release_node parent) v1)
              else (case operation parent (vs_fs v1) of None \<Rightarrow> None
              | Some (r, s2) \<Rightarrow>
                  map_option (\<lambda>v'. (r, v')) (on_fs (vfs_release_node parent) (v1\<lparr>vs_fs := s2\<rparr>)))))"

definition vfs_create :: "u32 \<Rightarrow> u32 \<Rightarrow> u32 \<Rightarrow> string \<Rightarrow> vfs_state \<Rightarrow> (bool \<times> vfs_state) option" where
  "vfs_create a_node a_file a_entry path v =
     (if fs_root v = 0 then Some (False, v)
      else case split_path path of None \<Rightarrow> Some (False, v)
      | Some (parent_path, name) \<Rightarrow>
          with_parent parent_path fn_create (\<lambda>parent. ramfs_create_file a_node a_file a_entry parent name) v)"

definition vfs_mkdir :: "u32 \<Rightarrow> u32 \<Rightarrow> u32 \<Rightarrow> string \<Rightarrow> u32 \<Rightarrow> vfs_state \<Rightarrow> (bool \<times> vfs_state) option" where
  "vfs_mkdir a_node a_dir a_entry path permissions v =
     (if fs_root v = 0 then Some (False, v)
      else case split_path path of None \<Rightarrow> Some (False, v)
      | Some (parent_path, name) \<Rightarrow>
          with_parent parent_path fn_mkdir (\<lambda>parent. ramfs_mkdir a_node a_dir a_entry parent name permissions) v)"

definition vfs_unlink :: "string \<Rightarrow> vfs_state \<Rightarrow> (bool \<times> vfs_state) option" where
  "vfs_unlink path v =
     (if fs_root v = 0 \<or> path = [slash] then Some (False, v)
      else case split_path path of None \<Rightarrow> Some (False, v)
      | Some (parent_path, name) \<Rightarrow> with_parent parent_path fn_unlink (\<lambda>parent. ramfs_unlink parent name) v)"

definition vfs_rename :: "string \<Rightarrow> string \<Rightarrow> vfs_state \<Rightarrow> (bool \<times> vfs_state) option" where
  "vfs_rename oldpath newpath v =
     (if fs_root v = 0 \<or> oldpath = [slash] \<or> newpath = [slash] then Some (False, v)
      else case (split_path oldpath, split_path newpath) of
             (Some (old_parent, old_name), Some (new_parent, new_name)) \<Rightarrow>
               if old_parent \<noteq> new_parent then Some (False, v)
               else with_parent old_parent fn_rename (\<lambda>parent. ramfs_rename parent old_name new_name) v
           | _ \<Rightarrow> Some (False, v))"

definition vfs_truncate :: "u32 \<Rightarrow> u32 \<Rightarrow> fs_state \<Rightarrow> (bool \<times> fs_state) option" where
  "vfs_truncate node new_size s =
     (if node = 0 then Some (False, s)
      else case fs_nodes s node of None \<Rightarrow> None
      | Some n \<Rightarrow>
          if fn_type n \<noteq> FS_FILE then Some (False, s)
          else Some (True, put_node node (n\<lparr>fn_size := new_size\<rparr>) s))"

definition vfs_mount :: "string \<Rightarrow> u32 \<Rightarrow> vfs_state \<Rightarrow> (bool \<times> vfs_state) option" where
  "vfs_mount path root v =
     (if root = 0 \<or> fs_root v = 0 then Some (False, v)
      else case vfs_path_to_node path v of None \<Rightarrow> None
      | Some (mount_point, v1) \<Rightarrow>
          if mount_point = 0 then Some (False, v1)
          else (case fs_nodes (vs_fs v1) mount_point of None \<Rightarrow> None
          | Some n \<Rightarrow>
              (case on_fs (vfs_release_node mount_point) v1 of None \<Rightarrow> None
               | Some v2 \<Rightarrow>
                   if fn_type n \<noteq> FS_DIRECTORY then Some (False, v2)
                   else if path \<in> fst ` set (mount_table v2) then Some (False, v2)
                   else if MAX_MOUNTS \<le> length (mount_table v2) then Some (False, v2)
                   else Some (True, v2\<lparr>mount_table := mount_table v2 @ [(take 255 path, root)]\<rparr>))))"

declare vfs_walk.simps [simp del]

section \<open>Path resolution\<close>

text \<open>A tree of \<^verbatim>\<open>ramfs\<close> nodes: none is counted, and every directory is well formed.\<close>

definition tree_ok :: "fs_state \<Rightarrow> bool" where
  "tree_ok s \<longleftrightarrow> (\<forall>a n. fs_nodes s a = Some n \<longrightarrow> fn_flags n = 0
     \<and> (fn_type n = FS_DIRECTORY \<longrightarrow> fn_finddir n = Some Ramfs \<and> (\<exists>d. dir_ok a n d s)))"

definition child :: "fs_state \<Rightarrow> u32 \<Rightarrow> string \<Rightarrow> u32 option" where
  "child s a name =
     (case fs_nodes s a of None \<Rightarrow> None
      | Some n \<Rightarrow> if fn_type n = FS_DIRECTORY then dir_map (the (fs_dirs s (fn_impl n))) name else None)"

fun resolve :: "fs_state \<Rightarrow> u32 \<Rightarrow> string list \<Rightarrow> u32" where
  "resolve s a [] = a"
| "resolve s a (c # cs) = (case child s a c of None \<Rightarrow> 0 | Some b \<Rightarrow> resolve s b cs)"

text \<open>A path: components preceded by one or more slashes, and slashes at its end.\<close>

definition path_of :: "(nat \<times> string) list \<Rightarrow> nat \<Rightarrow> string" where
  "path_of cs t = concat (map (\<lambda>(k, c). replicate (Suc k) slash @ c) cs) @ replicate t slash"

definition component_ok :: "string \<Rightarrow> bool" where
  "component_ok c \<longleftrightarrow> c \<noteq> [] \<and> slash \<notin> set c \<and> length c \<le> 127 \<and> c \<noteq> ''..''"

lemma take_token_append:
  "slash \<notin> set c \<Longrightarrow> length c \<le> k \<Longrightarrow> rest = [] \<or> hd rest = slash \<Longrightarrow> take_token k (c @ rest) = (c, rest)"
proof (induction c arbitrary: k)
  case Nil then show ?case by (cases k; cases rest) auto
next
  case (Cons x c) then show ?case by (cases k) auto
qed

lemma walk_skip: "vfs_walk root m st p cur s = vfs_walk root m st (dropWhile (\<lambda>c. c = slash) p) cur s"
proof (cases p)
  case (Cons x p')
  show ?thesis
  proof (cases "x = slash")
    case True
    then have "take_token 127 p = ([], p)" using take_token_append[of "[]" 127 p] Cons by simp
    then show ?thesis using Cons True by (subst vfs_walk.simps) simp
  qed (use Cons in simp)
qed simp

lemma release_uncounted:
  assumes "tree_ok s" "fs_nodes s cur \<noteq> None"
  shows "release_unless k cur s = Some s"
  using assms by (auto simp: release_unless_def vfs_release_node_def tree_ok_def)

lemma finddir_child:
  assumes ok: "tree_ok s" and n: "fs_nodes s cur = Some n" "cur \<noteq> 0" and c: "c \<noteq> ''.''" "c \<noteq> ''..''"
  shows "vfs_finddir root cur c s = Some (case child s cur c of None \<Rightarrow> 0 | Some a \<Rightarrow> a, s)"
    and "child s cur c = Some a \<Longrightarrow> a \<noteq> 0 \<and> fs_nodes s a \<noteq> None"
proof -
  show "vfs_finddir root cur c s = Some (case child s cur c of None \<Rightarrow> 0 | Some a \<Rightarrow> a, s)"
  proof (cases "fn_type n = FS_DIRECTORY")
    case True
    then obtain d where d: "dir_ok cur n d s" "fn_finddir n = Some Ramfs" using ok n by (auto simp: tree_ok_def)
    then show ?thesis using ramfs_finddir_map[OF d(1)] dir_ok_node[OF d(1)] n c True
      by (simp add: vfs_finddir_def node_finddir_def child_def)
  qed (use n in \<open>simp add: vfs_finddir_def child_def\<close>)
  show "a \<noteq> 0 \<and> fs_nodes s a \<noteq> None" if a: "child s cur c = Some a"
  proof -
    have t: "fn_type n = FS_DIRECTORY" using a n by (auto simp: child_def split: if_splits)
    then obtain d where d: "dir_ok cur n d s" using ok n by (auto simp: tree_ok_def)
    then have "dir_map d c = Some a" using a n t dir_ok_node[OF d] by (simp add: child_def)
    then obtain e where "e \<in> set (rdir_entries d)" "rd_node e = a"
      by (auto simp: dir_map_def ramfs_find_entry_def dest!: find_Some_set)
    then show ?thesis using d by (auto simp: dir_ok_def)
  qed
qed

lemma walk_component:
  assumes ok: "tree_ok s" and n: "fs_nodes s cur \<noteq> None" "cur \<noteq> 0" and c: "component_ok c" and r: "rest = [] \<or> hd rest = slash"
  shows "vfs_walk root m st (c @ rest) cur s =
    (if c = ''.'' then vfs_walk root m st rest cur s
     else case child s cur c of None \<Rightarrow> Some (0, s) | Some a \<Rightarrow> vfs_walk root m st rest a s)"
proof -
  have t: "take_token 127 (c @ rest) = (c, rest)" using take_token_append[of c 127 rest] c r by (simp add: component_ok_def)
  show ?thesis
  proof (cases "c = ''.''")
    case True
    then show ?thesis using t r walk_skip[of root m st rest cur s]
      by (subst vfs_walk.simps) (auto simp: Let_def)
  next
    case False
    obtain n' where n': "fs_nodes s cur = Some n'" using n by auto
    have "c \<noteq> ''..''" using c by (simp add: component_ok_def)
    note f = finddir_child(1)[OF ok n' n(2) False this, of root] finddir_child(2)[OF ok n' n(2) False this]
    show ?thesis using t r c False f release_uncounted[OF ok n(1)] walk_skip[of root m st rest _ s]
      by (subst vfs_walk.simps) (auto simp: Let_def component_ok_def split: option.split)
  qed
qed

lemma path_of_Cons: "path_of ((k, c) # cs) t = replicate (Suc k) slash @ c @ path_of cs t"
  by (simp add: path_of_def)

lemma path_of_slash: "path_of cs t = [] \<or> hd (path_of cs t) = slash"
  by (cases cs; cases t) (auto simp: path_of_def)

lemma dropWhile_slashes: "c \<noteq> [] \<Longrightarrow> slash \<notin> set c \<Longrightarrow>
    dropWhile (\<lambda>c. c = slash) (replicate k slash @ c @ r) = c @ r"
  by (cases c) (auto simp: dropWhile_append)

lemma walk_path:
  assumes ok: "tree_ok s" and cs: "\<forall>(k, c) \<in> set cs. component_ok c"
    and n: "fs_nodes s cur \<noteq> None" "cur \<noteq> 0"
  shows "vfs_walk root m st (path_of cs t) cur s = Some (resolve s cur (filter (\<lambda>c. c \<noteq> ''.'') (map snd cs)), s)"
  using cs n
proof (induction cs arbitrary: cur)
  case Nil
  have "dropWhile (\<lambda>c. c = slash) (replicate t slash) = []" by simp
  then have "vfs_walk root m st (path_of [] t) cur s = vfs_walk root m st [] cur s"
    using walk_skip[of root m st "replicate t slash" cur s] by (simp add: path_of_def)
  then show ?case by (simp add: vfs_walk.simps)
next
  case (Cons kc cs)
  obtain k c where kc: "kc = (k, c)" by fastforce
  have c: "component_ok c" and cs: "\<forall>(k, c) \<in> set cs. component_ok c" using Cons.prems(1) kc by auto
  have "vfs_walk root m st (path_of (kc # cs) t) cur s = vfs_walk root m st (c @ path_of cs t) cur s"
    using walk_skip[of root m st "path_of (kc # cs) t" cur s] dropWhile_slashes[of c "Suc k" "path_of cs t"] c
    by (simp add: kc path_of_Cons component_ok_def del: replicate_Suc)
  also have "\<dots> = (if c = ''.'' then vfs_walk root m st (path_of cs t) cur s
     else case child s cur c of None \<Rightarrow> Some (0, s) | Some a \<Rightarrow> vfs_walk root m st (path_of cs t) a s)"
    by (rule walk_component[OF ok Cons.prems(2,3) c path_of_slash])
  finally have step: "vfs_walk root m st (path_of (kc # cs) t) cur s = \<dots>" .
  show ?case
  proof (cases "c = ''.''")
    case True
    then show ?thesis using step Cons.IH[OF cs Cons.prems(2,3)] kc by simp
  next
    case False
    obtain n' where n': "fs_nodes s cur = Some n'" using Cons.prems(2) by auto
    have "c \<noteq> ''..''" using c by (simp add: component_ok_def)
    note f = finddir_child(2)[OF ok n' Cons.prems(3) False this]
    show ?thesis using step False kc f Cons.IH[OF cs] by (cases "child s cur c") auto
  qed
qed

text \<open>
  C14: path resolution.  In a tree of \<^verbatim>\<open>ramfs\<close> nodes an absolute path that no mount point covers, with
  any number of slashes between and after its components, resolves to the node found by descending from
  the root component by component, \<^verbatim>\<open>.\<close> standing for the current directory; it resolves to null if a
  component does not exist or is not in a directory; and no state changes.
\<close>

theorem vfs_path_to_node_resolves:
  assumes ok: "tree_ok (vs_fs v)" and root: "fs_root v \<noteq> 0" "fs_nodes (vs_fs v) (fs_root v) \<noteq> None"
    and cs: "\<forall>(k, c) \<in> set cs. component_ok c" and free: "\<forall>(p, r) \<in> set (mount_table v). \<not> mount_matches (path_of cs t) p"
  shows "vfs_path_to_node (path_of cs t) v =
    Some (resolve (vs_fs v) (fs_root v) (filter (\<lambda>c. c \<noteq> ''.'') (map snd cs)), v)"
proof -
  let ?P = "path_of cs t" let ?R = "resolve (vs_fs v) (fs_root v) (filter (\<lambda>c. c \<noteq> ''.'') (map snd cs))"
  have w: "vfs_walk (fs_root v) False (fs_root v) ?P (fs_root v) (vs_fs v) = Some (?R, vs_fs v)"
    by (rule walk_path[OF ok cs root(2,1)])
  have w': "vfs_walk (fs_root v) False (fs_root v) (case ?P of c # p \<Rightarrow> if c = slash then p else ?P | [] \<Rightarrow> []) (fs_root v) (vs_fs v)
      = Some (?R, vs_fs v)"
  proof (cases ?P)
    case (Cons x p)
    then have "x = slash" using path_of_slash[of cs t] by simp
    then have "vfs_walk (fs_root v) False (fs_root v) ?P (fs_root v) (vs_fs v) = vfs_walk (fs_root v) False (fs_root v) p (fs_root v) (vs_fs v)"
      using walk_skip[of "fs_root v" False "fs_root v" ?P "fs_root v" "vs_fs v"]
        walk_skip[of "fs_root v" False "fs_root v" p "fs_root v" "vs_fs v"] Cons by simp
    then show ?thesis using w Cons \<open>x = slash\<close> by simp
  qed (use w in simp)
  have m: "find (\<lambda>(p, r). mount_matches ?P p) (mount_table v) = None" using free by (auto simp: find_None_iff)
  have "mount_matches ?P ?P" by (simp add: mount_matches_def)
  then have e: "vfs_get_mounted_root_by_path ?P (mount_table v) = 0"
    using free by (auto simp: vfs_get_mounted_root_by_path_def split: option.splits dest!: find_Some_set)
  show ?thesis
  proof (cases "?P = [slash]")
    case True
    then have "?R = fs_root v" using w' by (simp add: vfs_walk.simps)
    then show ?thesis using True root(1) by (simp add: vfs_path_to_node_def)
  qed (use root(1) m e w' in \<open>simp add: vfs_path_to_node_def Let_def\<close>)
qed

definition tree_sample :: fs_state where
  "tree_sample = \<lparr>fs_nodes = [0x1000 \<mapsto> ramfs_node ''/'' 1 FS_DIRECTORY 7 0x2000, 0x3000 \<mapsto> ramfs_node ''etc'' 2 FS_DIRECTORY 7 0x4000,
       0x5000 \<mapsto> ramfs_node ''f'' 3 FS_FILE 6 0x6000], fs_pipes = Map.empty,
     fs_files = [0x6000 \<mapsto> \<lparr>rf_data = None, rf_size = 0, rf_capacity = 0\<rparr>],
     fs_dirs = [0x2000 \<mapsto> \<lparr>rdir_entries = [\<lparr>rd_name = ''etc'', rd_node = 0x3000\<rparr>], rdir_count = 1\<rparr>,
                0x4000 \<mapsto> \<lparr>rdir_entries = [\<lparr>rd_name = ''f'', rd_node = 0x5000\<rparr>], rdir_count = 1\<rparr>],
     pipe_inode_counter = 0, next_inode = 4\<rparr>"

lemma ramfs_node_sel [simp]:
  "fn_flags (ramfs_node name i ty p a) = 0" "fn_type (ramfs_node name i ty p a) = ty" "fn_impl (ramfs_node name i ty p a) = a"
  "fn_size (ramfs_node name i ty p a) = 0"
  "fn_finddir (ramfs_node name i ty p a) = (if ty = FS_DIRECTORY then Some Ramfs else None)"
  "fn_create (ramfs_node name i ty p a) = (if ty = FS_DIRECTORY then Some Ramfs else None)"
  by (simp_all add: ramfs_node_def zero_node_def Let_def)

lemma tree_sample_ok: "tree_ok tree_sample"
  by (auto simp: tree_ok_def tree_sample_def dir_ok_def ramfs_dir_of_def split: if_splits)

theorem vfs_path_to_node_resolves_witness:
  "vfs_path_to_node ''//etc/./f/'' \<lparr>vs_fs = tree_sample, fs_root = 0x1000, mount_table = [(''/dev'', 0x9000)]\<rparr>
   = Some (0x5000, \<lparr>vs_fs = tree_sample, fs_root = 0x1000, mount_table = [(''/dev'', 0x9000)]\<rparr>)"
proof -
  let ?v = "\<lparr>vs_fs = tree_sample, fs_root = 0x1000, mount_table = [(''/dev'', 0x9000)]\<rparr>"
  let ?cs = "[(Suc 0, ''etc''), (0, ''.''), (0, ''f'')]"
  have p: "path_of ?cs (Suc 0) = ''//etc/./f/''" by (simp add: path_of_def)
  have r: "fs_nodes tree_sample 0x1000 \<noteq> None" by (simp add: tree_sample_def)
  have "vfs_path_to_node (path_of ?cs (Suc 0)) ?v = Some (resolve tree_sample 0x1000 [''etc'', ''f''], ?v)"
    using vfs_path_to_node_resolves[of ?v ?cs "Suc 0"] r
    by (simp add: tree_sample_ok component_ok_def p mount_matches_def)
  moreover have "resolve tree_sample 0x1000 [''etc'', ''f''] = 0x5000"
    by (simp add: child_def tree_sample_def dir_map_def ramfs_find_entry_def)
  ultimately show ?thesis by (simp add: p)
qed

text \<open>
  Truncation does not reach the data of a \<^verbatim>\<open>ramfs\<close> file.  These files have no truncate operation,
  so \<^verbatim>\<open>vfs_truncate\<close> only sets the size in the node and reports success; reading the file gives the same
  bytes as before.
\<close>

theorem vfs_truncate_keeps_data:
  assumes "fs_nodes s node = Some n" "fn_type n = FS_FILE" "fn_read n = Some Ramfs" "node \<noteq> 0"
  shows "\<exists>s'. vfs_truncate node 0 s = Some (True, s') \<and> fn_size (the (fs_nodes s' node)) = 0
    \<and> (\<forall>offset sz. map_option fst (vfs_read node offset sz s') = map_option fst (vfs_read node offset sz s))"
  using assms by (auto simp: vfs_truncate_def vfs_read_def ramfs_read_def option.map_comp comp_def split: option.split)

theorem vfs_truncate_keeps_data_witness:
  "\<exists>s'. vfs_truncate 0x5000 0 (tree_sample\<lparr>fs_files := [0x6000 \<mapsto> \<lparr>rf_data = Some [1, 2, 3], rf_size = 3, rf_capacity = 3\<rparr>]\<rparr>)
       = Some (True, s')
     \<and> map_option fst (vfs_read 0x5000 0 3 s') = Some (Read_done [1, 2, 3])"
proof -
  let ?s = "tree_sample\<lparr>fs_files := [0x6000 \<mapsto> \<lparr>rf_data = Some [1, 2, 3], rf_size = 3, rf_capacity = 3\<rparr>]\<rparr>"
  have "fs_nodes ?s 0x5000 = Some (ramfs_node ''f'' 3 FS_FILE 6 0x6000)" "fn_read (ramfs_node ''f'' 3 FS_FILE 6 0x6000) = Some Ramfs"
    by (simp_all add: tree_sample_def ramfs_node_def Let_def)
  note n = this
  obtain s' where s': "vfs_truncate 0x5000 0 ?s = Some (True, s')"
      "map_option fst (vfs_read 0x5000 0 3 s') = map_option fst (vfs_read 0x5000 0 3 ?s)"
    using vfs_truncate_keeps_data[OF n(1) _ n(2)] by auto
  have "map_option fst (vfs_read 0x5000 0 3 ?s) = Some (Read_done [1, 2, 3])"
    using n by (simp add: vfs_read_def ramfs_read_def ramfs_file_read_def)
  with s' show ?thesis by auto
qed

end
