(* ===== verification/Fd_Table.thy ===== *)
theory Fd_Table
  imports Vfs
begin

text \<open>
  The descriptor table of a process, \<^verbatim>\<open>src/src/kernel/fd_table.c\<close>, and the file system calls on it,
  \<^verbatim>\<open>src/src/kernel/syscalls/fs.c\<close>.  Pointer arguments are assumed not null where the code only checks for
  that.  A call that blocks inside a pipe has the result \<open>Block\<close>; \<open>None\<close> is again an access to an object
  that does not exist.
\<close>

record fd_entry_t =
  fe_node :: u32
  fe_offset :: u32
  fe_flags :: u32
  fe_in_use :: bool

type_synonym fd_table_t = "fd_entry_t list"

abbreviation (input) MAX_FDS :: nat where "MAX_FDS \<equiv> 512"

definition free_entry :: fd_entry_t where
  "free_entry = \<lparr>fe_node = 0, fe_offset = 0, fe_flags = 0, fe_in_use = False\<rparr>"

definition fd_table_init :: fd_table_t where
  "fd_table_init = replicate MAX_FDS free_entry"

section \<open>The table\<close>

definition fd_table_alloc :: "fd_table_t \<Rightarrow> u32 \<Rightarrow> u32 \<Rightarrow> fs_state \<Rightarrow> (int \<times> fd_table_t \<times> fs_state) option" where
  "fd_table_alloc table node flags s =
     (if node = 0 then Some (-1, table, s)
      else case find (\<lambda>i. \<not> fe_in_use (table ! i)) [0..<length table] of
             None \<Rightarrow> Some (-1, table, s)
           | Some i \<Rightarrow>
               map_option (\<lambda>s'. (int i, table[i := \<lparr>fe_node = node, fe_offset = 0, fe_flags = flags, fe_in_use = True\<rparr>], s'))
                 (vfs_ref_node node s))"

definition fd_table_get :: "fd_table_t \<Rightarrow> int \<Rightarrow> fd_entry_t option" where
  "fd_table_get table fd =
     (if fd < 0 \<or> int (length table) \<le> fd then None
      else if fe_in_use (table ! nat fd) then Some (table ! nat fd) else None)"

definition fd_table_free :: "fd_table_t \<Rightarrow> int \<Rightarrow> fs_state \<Rightarrow> (bool \<times> fd_table_t \<times> fs_state) option" where
  "fd_table_free table fd s =
     (case fd_table_get table fd of
        None \<Rightarrow> Some (False, table, s)
      | Some e \<Rightarrow>
          let table' = table[nat fd := free_entry]; node = fe_node e
          in if node = 0 then Some (True, table', s)
             else (case vfs_close node s of None \<Rightarrow> None
                   | Some s1 \<Rightarrow> map_option (\<lambda>s2. (True, table', s2)) (vfs_release_node node s1)))"

text \<open>Copying an entry of the parent's table into the child's.\<close>

definition fd_copy_entry :: "fd_table_t \<Rightarrow> nat \<Rightarrow> fd_table_t \<times> fs_state \<Rightarrow> (fd_table_t \<times> fs_state) option" where
  "fd_copy_entry src i ds =
     (case ds of (dst, s) \<Rightarrow>
        let e = src ! i in
        if fe_in_use e
        then let dst' = dst[i := e] in
          if fe_node e = 0 then Some (dst', s)
          else case vfs_ref_node (fe_node e) s of None \<Rightarrow> None
          | Some s1 \<Rightarrow>
              (case fs_nodes s1 (fe_node e) of None \<Rightarrow> None
               | Some n \<Rightarrow>
                   if fn_type n = FS_PIPE then map_option (\<lambda>s2. (dst', s2)) (pipe_on_dup (fe_node e) s1)
                   else Some (dst', s1))
        else Some (dst[i := (dst ! i)\<lparr>fe_in_use := False\<rparr>], s))"

definition fd_table_copy :: "fd_table_t \<Rightarrow> fd_table_t \<Rightarrow> fs_state \<Rightarrow> (fd_table_t \<times> fs_state) option" where
  "fd_table_copy src dst s =
     foldM (fd_copy_entry src) [0..<length src] (dst, s)"

section \<open>System calls\<close>

record proc_state =
  ps_vfs :: vfs_state
  ps_fds :: fd_table_t
  ps_cwd :: string

datatype sys_result = Ret u32 | Block

abbreviation (input) O_RDONLY :: u32 where "O_RDONLY \<equiv> 0"
abbreviation (input) O_WRONLY :: u32 where "O_WRONLY \<equiv> 1"
abbreviation (input) O_RDWR :: u32 where "O_RDWR \<equiv> 2"
abbreviation (input) O_CREAT :: u32 where "O_CREAT \<equiv> 0x40"
abbreviation (input) O_EXCL :: u32 where "O_EXCL \<equiv> 0x80"
abbreviation (input) O_TRUNC :: u32 where "O_TRUNC \<equiv> 0x200"
abbreviation (input) O_APPEND :: u32 where "O_APPEND \<equiv> 0x400"

definition with_files :: "proc_state \<Rightarrow> fs_state \<Rightarrow> proc_state" where
  "with_files p s = p\<lparr>ps_vfs := (ps_vfs p)\<lparr>vs_fs := s\<rparr>\<rparr>"

abbreviation files :: "proc_state \<Rightarrow> fs_state" where "files p \<equiv> vs_fs (ps_vfs p)"

text \<open>The descriptor's entry, if it is open and has a node.\<close>

definition open_entry :: "proc_state \<Rightarrow> int \<Rightarrow> fd_entry_t option" where
  "open_entry p fd = (case fd_table_get (ps_fds p) fd of Some e \<Rightarrow> if fe_node e = 0 then None else Some e | None \<Rightarrow> None)"

definition set_offset :: "int \<Rightarrow> u32 \<Rightarrow> proc_state \<Rightarrow> proc_state" where
  "set_offset fd off p = p\<lparr>ps_fds := (ps_fds p)[nat fd := (ps_fds p ! nat fd)\<lparr>fe_offset := off\<rparr>]\<rparr>"

text \<open>The truncation, opening and descriptor allocation of \<^verbatim>\<open>sys_open\<close> once the node is known.\<close>

definition open_node :: "u32 \<Rightarrow> u32 \<Rightarrow> proc_state \<Rightarrow> (sys_result \<times> proc_state) option" where
  "open_node node flags p =
     (case fs_nodes (files p) node of None \<Rightarrow> None
      | Some n \<Rightarrow>
          (case (if flags AND O_TRUNC \<noteq> 0 \<and> flags AND (O_WRONLY OR O_RDWR) \<noteq> 0 \<and> fn_type n = FS_FILE
                 then map_option snd (vfs_truncate node 0 (files p)) else Some (files p)) of None \<Rightarrow> None
           | Some s1 \<Rightarrow>
          (case vfs_open node s1 of None \<Rightarrow> None
           | Some s2 \<Rightarrow>
          (case fd_table_alloc (ps_fds p) node flags s2 of None \<Rightarrow> None
           | Some (fd, fds, s3) \<Rightarrow>
               if fd < 0
               then (case vfs_close node s3 of None \<Rightarrow> None
                     | Some s4 \<Rightarrow> map_option (\<lambda>s5. (Ret (-1), with_files p s5)) (vfs_release_node node s4))
               else (case vfs_release_node node s3 of None \<Rightarrow> None
               | Some s4 \<Rightarrow>
                   let p1 = (with_files p s4)\<lparr>ps_fds := fds\<rparr>
                   in if flags AND O_APPEND \<noteq> 0
                      then (case fs_nodes s4 node of None \<Rightarrow> None
                            | Some n' \<Rightarrow> Some (Ret (of_int fd), set_offset fd (fn_size n') p1))
                      else Some (Ret (of_int fd), p1))))))"

definition sys_open :: "u32 \<Rightarrow> u32 \<Rightarrow> u32 \<Rightarrow> string \<Rightarrow> u32 \<Rightarrow> proc_state \<Rightarrow> (sys_result \<times> proc_state) option" where
  "sys_open a_node a_file a_entry path flags p =
     (case vfs_path_to_node path (ps_vfs p) of None \<Rightarrow> None
      | Some (node0, v0) \<Rightarrow>
          (case (if node0 = 0 \<and> flags AND O_CREAT \<noteq> 0
                 then (case vfs_create a_node a_file a_entry path v0 of None \<Rightarrow> None
                       | Some (False, v1) \<Rightarrow> Some (0, v1)
                       | Some (True, v1) \<Rightarrow> vfs_path_to_node path v1)
                 else Some (node0, v0)) of None \<Rightarrow> None
           | Some (node, v) \<Rightarrow>
               let p1 = p\<lparr>ps_vfs := v\<rparr> in
               if node = 0 then Some (Ret (-1), p1)
               else if flags AND O_CREAT \<noteq> 0 \<and> flags AND O_EXCL \<noteq> 0
               then map_option (\<lambda>s. (Ret (-1), with_files p1 s)) (vfs_release_node node (files p1))
               else open_node node flags p1))"

definition sys_close :: "int \<Rightarrow> proc_state \<Rightarrow> (sys_result \<times> proc_state) option" where
  "sys_close fd p =
     (case fd_table_free (ps_fds p) fd (files p) of None \<Rightarrow> None
      | Some (ok, fds, s) \<Rightarrow> Some (Ret (if ok then 0 else -1), (with_files p s)\<lparr>ps_fds := fds\<rparr>))"

definition sys_read :: "int \<Rightarrow> u32 \<Rightarrow> proc_state \<Rightarrow> (sys_result \<times> u8 list \<times> proc_state) option" where
  "sys_read fd cnt p =
     (case open_entry p fd of
        None \<Rightarrow> Some (Ret (-1), [], p)
      | Some e \<Rightarrow>
          if fe_flags e AND O_WRONLY \<noteq> 0 \<and> fe_flags e AND O_RDWR = 0 then Some (Ret (-1), [], p)
          else (case vfs_read (fe_node e) (fe_offset e) cnt (files p) of None \<Rightarrow> None
                | Some (Read_blocked, s) \<Rightarrow> Some (Block, [], with_files p s)
                | Some (Read_done bs, s) \<Rightarrow>
                    Some (Ret (of_nat (length bs)), bs,
                          set_offset fd (fe_offset e + of_nat (length bs)) (with_files p s))))"

text \<open>The loop of \<^verbatim>\<open>sys_write\<close> over chunks of 512 bytes; \<open>bufs i\<close> is the buffer that growing the file in
  chunk \<open>i\<close> allocates.\<close>

function sys_write_loop :: "(nat \<Rightarrow> u8 list option) \<Rightarrow> nat \<Rightarrow> u32 \<Rightarrow> u32 \<Rightarrow> u8 list \<Rightarrow> u32 \<Rightarrow> fs_state
    \<Rightarrow> (sys_result \<times> u32 \<times> fs_state) option" where
  "sys_write_loop bufs i node offset bytes written s =
     (if bytes = [] then Some (Ret written, offset, s)
      else let chunk = take 512 bytes in
        case vfs_write (bufs i) node offset chunk s of None \<Rightarrow> None
        | Some (Write_blocked n, s') \<Rightarrow> Some (Block, offset, s')
        | Some (Write_done n, s') \<Rightarrow>
            if n = 0 then Some (Ret written, offset, s')
            else if n < length chunk then Some (Ret (written + of_nat n), offset + of_nat n, s')
            else sys_write_loop bufs (Suc i) node (offset + of_nat n) (drop 512 bytes) (written + of_nat n) s')"
  by pat_completeness auto
termination
  by (relation "measure (\<lambda>(_, _, _, _, bytes, _, _). length bytes)") auto

declare sys_write_loop.simps [simp del]

definition sys_write :: "(nat \<Rightarrow> u8 list option) \<Rightarrow> int \<Rightarrow> u8 list \<Rightarrow> proc_state \<Rightarrow> (sys_result \<times> proc_state) option" where
  "sys_write bufs fd bytes p =
     (case open_entry p fd of
        None \<Rightarrow> Some (Ret (-1), p)
      | Some e \<Rightarrow>
          if fe_flags e AND O_RDONLY \<noteq> 0 \<and> fe_flags e AND O_RDWR = 0 then Some (Ret (-1), p)
          else (case fs_nodes (files p) (fe_node e) of None \<Rightarrow> None
          | Some n \<Rightarrow>
              let offset = (if fe_flags e AND O_APPEND \<noteq> 0 then fn_size n else fe_offset e)
              in case sys_write_loop bufs 0 (fe_node e) offset bytes 0 (files p) of None \<Rightarrow> None
                 | Some (r, off, s) \<Rightarrow> Some (r, set_offset fd off (with_files p s))))"

definition sys_lseek :: "int \<Rightarrow> u32 \<Rightarrow> int \<Rightarrow> proc_state \<Rightarrow> (sys_result \<times> proc_state) option" where
  "sys_lseek fd offset whence p =
     (case open_entry p fd of
        None \<Rightarrow> Some (Ret (-1), p)
      | Some e \<Rightarrow>
          (case fs_nodes (files p) (fe_node e) of None \<Rightarrow> None
           | Some n \<Rightarrow>
               if whence \<notin> {0, 1, 2} then Some (Ret (-1), p)
               else let new_offset = (if whence = 0 then offset
                                      else if whence = 1 then fe_offset e + offset else fn_size n + offset)
                 in if sint new_offset < 0 then Some (Ret (-1), p)
                    else Some (Ret new_offset, set_offset fd new_offset p)))"

definition sys_mkdir :: "u32 \<Rightarrow> u32 \<Rightarrow> u32 \<Rightarrow> string \<Rightarrow> u32 \<Rightarrow> proc_state \<Rightarrow> (sys_result \<times> proc_state) option" where
  "sys_mkdir a_node a_dir a_entry path mode p =
     map_option (\<lambda>(ok, v). (Ret (if ok then 0 else -1), p\<lparr>ps_vfs := v\<rparr>))
       (vfs_mkdir a_node a_dir a_entry path mode (ps_vfs p))"

definition sys_unlink :: "string \<Rightarrow> proc_state \<Rightarrow> (sys_result \<times> proc_state) option" where
  "sys_unlink path p =
     map_option (\<lambda>(ok, v). (Ret (if ok then 0 else -1), p\<lparr>ps_vfs := v\<rparr>)) (vfs_unlink path (ps_vfs p))"

definition sys_rename :: "string \<Rightarrow> string \<Rightarrow> proc_state \<Rightarrow> (sys_result \<times> proc_state) option" where
  "sys_rename oldpath newpath p =
     map_option (\<lambda>(ok, v). (Ret (if ok then 0 else -1), p\<lparr>ps_vfs := v\<rparr>)) (vfs_rename oldpath newpath (ps_vfs p))"

definition sys_ftruncate :: "int \<Rightarrow> u32 \<Rightarrow> proc_state \<Rightarrow> (sys_result \<times> proc_state) option" where
  "sys_ftruncate fd len p =
     (case open_entry p fd of
        None \<Rightarrow> Some (Ret (-1), p)
      | Some e \<Rightarrow>
          (case fs_nodes (files p) (fe_node e) of None \<Rightarrow> None
           | Some n \<Rightarrow>
               if fn_type n \<noteq> FS_FILE then Some (Ret (-1), p)
               else if fe_flags e AND O_RDONLY \<noteq> 0 \<and> fe_flags e AND O_RDWR = 0 then Some (Ret (-1), p)
               else map_option (\<lambda>(ok, s). (Ret (if ok then 0 else -1), with_files p s))
                      (vfs_truncate (fe_node e) len (files p))))"

definition sys_getdents :: "int \<Rightarrow> u32 \<Rightarrow> proc_state \<Rightarrow> (u32 \<times> dirent option) option" where
  "sys_getdents fd index p =
     (case open_entry p fd of
        None \<Rightarrow> Some (-1, None)
      | Some e \<Rightarrow>
          (case fs_nodes (files p) (fe_node e) of None \<Rightarrow> None
           | Some n \<Rightarrow>
               if fn_type n \<noteq> FS_DIRECTORY then Some (-1, None)
               else (case vfs_readdir (fe_node e) index (files p) of None \<Rightarrow> None
                     | Some None \<Rightarrow> Some (-1, None) | Some (Some d) \<Rightarrow> Some (0, Some d))))"

definition sys_pipe :: "u32 \<Rightarrow> u32 \<Rightarrow> u32 \<Rightarrow> proc_state \<Rightarrow> (sys_result \<times> (int \<times> int) option \<times> proc_state) option" where
  "sys_pipe a_pipe a_r a_w p =
     (case pipe_create a_pipe a_r a_w (files p) of
        (None, s) \<Rightarrow> Some (Ret (-1), None, with_files p s)
      | (Some (r, w), s) \<Rightarrow>
          (case fd_table_alloc (ps_fds p) r O_RDONLY s of None \<Rightarrow> None
           | Some (rfd, fds1, s1) \<Rightarrow>
               if rfd < 0
               then (case vfs_release_node r s1 of None \<Rightarrow> None
                     | Some s2 \<Rightarrow> map_option (\<lambda>s3. (Ret (-1), None, with_files p s3)) (vfs_release_node w s2))
               else (case vfs_release_node r s1 of None \<Rightarrow> None
               | Some s2 \<Rightarrow>
               (case fd_table_alloc fds1 w O_WRONLY s2 of None \<Rightarrow> None
               | Some (wfd, fds2, s3) \<Rightarrow>
                   if wfd < 0
                   then (case fd_table_free fds1 rfd s3 of None \<Rightarrow> None
                         | Some (_, fds4, s4) \<Rightarrow>
                             map_option (\<lambda>s5. (Ret (-1), None, (with_files p s5)\<lparr>ps_fds := fds4\<rparr>)) (vfs_release_node w s4))
                   else map_option (\<lambda>s4. (Ret 0, Some (rfd, wfd), (with_files p s4)\<lparr>ps_fds := fds2\<rparr>))
                          (vfs_release_node w s3)))))"

definition sys_dup :: "int \<Rightarrow> proc_state \<Rightarrow> (sys_result \<times> proc_state) option" where
  "sys_dup oldfd p =
     (case open_entry p oldfd of
        None \<Rightarrow> Some (Ret (-1), p)
      | Some e \<Rightarrow>
          (case fd_table_alloc (ps_fds p) (fe_node e) (fe_flags e) (files p) of None \<Rightarrow> None
           | Some (newfd, fds, s1) \<Rightarrow>
               if newfd < 0 then Some (Ret (-1), with_files p s1)
               else (case fs_nodes s1 (fe_node e) of None \<Rightarrow> None
               | Some n \<Rightarrow>
                   (case (if fn_type n = FS_PIPE then pipe_on_dup (fe_node e) s1 else Some s1) of None \<Rightarrow> None
                    | Some s2 \<Rightarrow>
                        Some (Ret (of_int newfd), set_offset newfd (fe_offset e) ((with_files p s2)\<lparr>ps_fds := fds\<rparr>))))))"

definition sys_dup2 :: "int \<Rightarrow> int \<Rightarrow> proc_state \<Rightarrow> (sys_result \<times> proc_state) option" where
  "sys_dup2 oldfd newfd p =
     (if oldfd = newfd
      then Some (Ret (if open_entry p oldfd = None then -1 else of_int newfd), p)
      else if newfd < 0 \<or> int MAX_FDS \<le> newfd then Some (Ret (-1), p)
      else case open_entry p oldfd of
        None \<Rightarrow> Some (Ret (-1), p)
      | Some e \<Rightarrow>
          (case (if fd_table_get (ps_fds p) newfd \<noteq> None
                 then map_option snd (fd_table_free (ps_fds p) newfd (files p)) else Some (ps_fds p, files p)) of None \<Rightarrow> None
           | Some (fds1, s1) \<Rightarrow>
               let fds2 = fds1[nat newfd := e\<lparr>fe_in_use := True\<rparr>] in
               (case vfs_ref_node (fe_node e) s1 of None \<Rightarrow> None
                | Some s2 \<Rightarrow>
                    (case fs_nodes s2 (fe_node e) of None \<Rightarrow> None
                     | Some n \<Rightarrow>
                         map_option (\<lambda>s3. (Ret (of_int newfd), (with_files p s3)\<lparr>ps_fds := fds2\<rparr>))
                           (if fn_type n = FS_PIPE then pipe_on_dup (fe_node e) s2 else Some s2)))))"

section \<open>Status and the working directory\<close>

record stat =
  st_ino :: u32
  st_mode :: u32
  st_nlink :: u32
  st_uid :: u32
  st_gid :: u32
  st_size :: u32
  st_blksize :: u32
  st_blocks :: u32

fun file_type_bits :: "fs_node_type \<Rightarrow> u32" where
  "file_type_bits FS_FILE = 0x8000"
| "file_type_bits FS_DIRECTORY = 0x4000"
| "file_type_bits FS_CHARDEVICE = 0x2000"
| "file_type_bits FS_BLOCKDEVICE = 0x6000"
| "file_type_bits FS_PIPE = 0x1000"
| "file_type_bits FS_SYMLINK = 0xA000"

text \<open>The fields that are always zero are left out.\<close>

definition fill_stat_from_node :: "fs_node_t \<Rightarrow> stat" where
  "fill_stat_from_node node =
     \<lparr>st_ino = fn_inode node, st_mode = file_type_bits (fn_type node) OR (fn_permissions node AND 0x1FF), st_nlink = 1,
      st_uid = fn_uid node, st_gid = fn_gid node, st_size = fn_size node, st_blksize = 512,
      st_blocks = (fn_size node + 511) div 512\<rparr>"

definition sys_stat :: "string \<Rightarrow> proc_state \<Rightarrow> (u32 \<times> stat option \<times> proc_state) option" where
  "sys_stat path p =
     (case vfs_path_to_node path (ps_vfs p) of None \<Rightarrow> None
      | Some (node, v) \<Rightarrow>
          if node = 0 then Some (-1, None, p\<lparr>ps_vfs := v\<rparr>)
          else (case fs_nodes (vs_fs v) node of None \<Rightarrow> None
                | Some n \<Rightarrow>
                    map_option (\<lambda>s. (0, Some (fill_stat_from_node n), with_files (p\<lparr>ps_vfs := v\<rparr>) s))
                      (vfs_release_node node (vs_fs v))))"

definition sys_fstat :: "int \<Rightarrow> proc_state \<Rightarrow> (u32 \<times> stat option) option" where
  "sys_fstat fd p =
     (case open_entry p fd of
        None \<Rightarrow> Some (-1, None)
      | Some e \<Rightarrow> map_option (\<lambda>n. (0, Some (fill_stat_from_node n))) (fs_nodes (files p) (fe_node e)))"

lemma take_token_consumes:
  assumes "(t, r) = take_token 127 (dropWhile (\<lambda>c. c = slash) p)" "dropWhile (\<lambda>c. c = slash) p \<noteq> []"
  shows "length r < length p" and "t \<noteq> []"
proof -
  let ?q = "dropWhile (\<lambda>c. c = slash) p"
  have h: "hd ?q \<noteq> slash" using assms(2) hd_dropWhile by fast
  then obtain c q where q: "?q = c # q" "c \<noteq> slash" using assms(2) by (cases ?q) auto
  have "take_token (Suc k) (c # q) = (t, r) \<Longrightarrow> t \<noteq> []" for k using q(2) by (auto split: prod.splits)
  from this[of 126] show t: "t \<noteq> []" using assms(1) q(1) by simp
  have "length t + length r = length ?q" using take_token_length[of 127 ?q t r] assms(1) by simp
  moreover have "length ?q \<le> length p" by (rule length_dropWhile_le)
  moreover have "0 < length t" using t by simp
  ultimately show "length r < length p" by linarith
qed

text \<open>The component stack of \<^verbatim>\<open>normalize_path\<close>; \<open>None\<close> if there are more than 64 components.\<close>

function normalize_components :: "string \<Rightarrow> string list \<Rightarrow> string list option" where
  "normalize_components path stack =
     (let p = dropWhile (\<lambda>c. c = slash) path in
      if p = [] then Some stack
      else case take_token 127 p of (token, rest) \<Rightarrow>
        if token = [] \<or> token = ''.'' then normalize_components rest stack
        else if token = ''..'' then normalize_components rest (butlast stack)
        else if 64 \<le> length stack then None
        else normalize_components rest (stack @ [token]))"
  by pat_completeness auto

termination
  by (relation "measure (\<lambda>(path, _). length path)") (auto intro: take_token_consumes)

declare normalize_components.simps [simp del]

definition push_char :: "nat \<Rightarrow> char \<Rightarrow> string \<Rightarrow> string" where
  "push_char sz c out = (if length out < sz - 1 then out @ [c] else out)"

definition push_component :: "nat \<Rightarrow> string \<Rightarrow> string \<Rightarrow> string" where
  "push_component sz token out =
     fold (push_char sz) token (if out \<noteq> [] \<and> last out \<noteq> slash then push_char sz slash out else out)"

definition normalize_path :: "string \<Rightarrow> nat \<Rightarrow> string option" where
  "normalize_path path sz =
     (if sz = 0 then None
      else let is_absolute = (path \<noteq> [] \<and> hd path = slash)
        in case normalize_components path [] of None \<Rightarrow> None
           | Some comps \<Rightarrow>
               let out = fold (push_component sz) comps (if is_absolute then push_char sz slash [] else [])
               in Some (if out = [] then [if is_absolute then slash else CHR ''.''] else out))"

definition sys_chdir :: "string \<Rightarrow> proc_state \<Rightarrow> (u32 \<times> proc_state) option" where
  "sys_chdir path p =
     (let cwd = ps_cwd p; absolute = (path \<noteq> [] \<and> hd path = slash) in
      if absolute \<and> 512 \<le> length path \<or> \<not> absolute \<and> 512 \<le> length cwd + 1 + length path then Some (-1, p)
      else let abs_path = (if absolute then path
                           else cwd @ (if 1 < length cwd \<and> last cwd \<noteq> slash then [slash] else []) @ path)
        in case vfs_path_to_node abs_path (ps_vfs p) of None \<Rightarrow> None
           | Some (node, v) \<Rightarrow>
               if node = 0 then Some (-1, p\<lparr>ps_vfs := v\<rparr>)
               else (case fs_nodes (vs_fs v) node of None \<Rightarrow> None
               | Some n \<Rightarrow>
                   (case vfs_release_node node (vs_fs v) of None \<Rightarrow> None
                    | Some s \<Rightarrow>
                        let p1 = with_files (p\<lparr>ps_vfs := v\<rparr>) s in
                        if fn_type n \<noteq> FS_DIRECTORY then Some (-1, p1)
                        else (case normalize_path abs_path 512 of
                                None \<Rightarrow> Some (-1, p1)
                              | Some np \<Rightarrow>
                                  if 256 \<le> length np then Some (-1, p1) else Some (0, p1\<lparr>ps_cwd := np\<rparr>)))))"

definition sys_getcwd :: "nat \<Rightarrow> proc_state \<Rightarrow> string option" where
  "sys_getcwd sz p = (if sz \<le> length (ps_cwd p) then None else Some (ps_cwd p))"

section \<open>Allocating and freeing descriptors\<close>

abbreviation first_free :: "fd_table_t \<Rightarrow> nat option" where
  "first_free t \<equiv> find (\<lambda>i. \<not> fe_in_use (t ! i)) [0..<length t]"

lemma first_free_Some:
  assumes "first_free t = Some i"
  shows "i < length t" "\<not> fe_in_use (t ! i)" "j < i \<Longrightarrow> fe_in_use (t ! j)"
proof -
  obtain k where k: "k < length t" "i = [0..<length t] ! k" "\<not> fe_in_use (t ! i)"
    "\<And>j. j < k \<Longrightarrow> fe_in_use (t ! ([0..<length t] ! j))"
    using assms by (auto simp: find_Some_iff)
  then have ik: "i = k" by simp
  show "i < length t" "\<not> fe_in_use (t ! i)" using k ik by auto
  show "fe_in_use (t ! j)" if "j < i" using k(4)[of j] that k(1) ik by simp
qed

lemma first_free_ex: "i < length t \<Longrightarrow> \<not> fe_in_use (t ! i) \<Longrightarrow> \<exists>j. first_free t = Some j"
  by (cases "first_free t") (auto simp: find_None_iff)

lemma get_update:
  "i < length t \<Longrightarrow> fd_table_get (t[i := e]) fd =
     (if fd = int i then if fe_in_use e then Some e else None else fd_table_get t fd)"
  by (auto simp: fd_table_get_def nth_list_update)

text \<open>
  C31: \<^verbatim>\<open>fd_table_alloc\<close> takes the lowest descriptor that is not in use: if there is one, every lower descriptor
  was open, the new one is open on the node at offset 0 with the given flags, and every other descriptor is
  unchanged; if there is none it returns -1 and changes nothing.
\<close>
theorem fd_table_alloc_lowest:
  assumes "fd_table_alloc t node flags s = Some (fd, t', s')" "node \<noteq> 0"
  shows "(if \<exists>i<length t. fd_table_get t (int i) = None
          then 0 \<le> fd \<and> fd < int (length t) \<and> fd_table_get t fd = None \<and> (\<forall>j. 0 \<le> j \<and> j < fd \<longrightarrow> fd_table_get t j \<noteq> None)
             \<and> fd_table_get t' fd = Some \<lparr>fe_node = node, fe_offset = 0, fe_flags = flags, fe_in_use = True\<rparr>
             \<and> (\<forall>j. j \<noteq> fd \<longrightarrow> fd_table_get t' j = fd_table_get t j) \<and> vfs_ref_node node s = Some s'
          else fd = -1 \<and> t' = t \<and> s' = s)"
proof (cases "first_free t")
  case None
  then have "fd_table_get t (int i) \<noteq> None" if "i < length t" for i
    using that by (auto simp: find_None_iff fd_table_get_def)
  then show ?thesis using None assms by (auto simp: fd_table_alloc_def)
next
  case (Some i)
  note ff = first_free_Some[OF Some]
  have r: "fd = int i" "t' = t[i := \<lparr>fe_node = node, fe_offset = 0, fe_flags = flags, fe_in_use = True\<rparr>]"
    "vfs_ref_node node s = Some s'"
    using assms Some by (auto simp: fd_table_alloc_def)
  have free: "fd_table_get t (int i) = None" using ff(2) by (simp add: fd_table_get_def)
  have below: "fd_table_get t j \<noteq> None" if "0 \<le> j" "j < int i" for j
    using ff(3)[of "nat j"] ff(1) that by (simp add: fd_table_get_def nat_less_iff)
  show ?thesis using ff(1) free below r get_update[OF ff(1)] by auto
qed

lemma sample_free: "first_free fd_table_init = Some 0"
  by (simp add: fd_table_init_def free_entry_def upt_rec)

theorem fd_table_alloc_lowest_witness:
  "fd_table_get (fd_table_init[0 := \<lparr>fe_node = 0x1000, fe_offset = 0, fe_flags = 0, fe_in_use = True\<rparr>]) 0
     = Some \<lparr>fe_node = 0x1000, fe_offset = 0, fe_flags = 0, fe_in_use = True\<rparr>"
proof -
  let ?s = "\<lparr>fs_nodes = [0x1000 \<mapsto> zero_node], fs_pipes = Map.empty, fs_files = Map.empty, fs_dirs = Map.empty,
    pipe_inode_counter = 0, next_inode = 0\<rparr>"
  let ?t = "fd_table_init[0 := \<lparr>fe_node = 0x1000, fe_offset = 0, fe_flags = 0, fe_in_use = True\<rparr>]"
  have a: "fd_table_alloc fd_table_init 0x1000 0 ?s = Some (0, ?t, ?s)"
    by (simp add: fd_table_alloc_def sample_free vfs_ref_node_def zero_node_def)
  have "\<exists>i<length fd_table_init. fd_table_get fd_table_init (int i) = None"
    by (intro exI[of _ 0]) (simp add: fd_table_get_def fd_table_init_def free_entry_def)
  then show ?thesis using fd_table_alloc_lowest[OF a] by simp
qed

section \<open>Pipes lose their buffer when one end is closed\<close>

lemma alloc_counted:
  assumes "first_free t = Some i" "node \<noteq> 0" "fs_nodes s node = Some n" "fn_flags n AND FS_NODE_FLAG_ALLOCATED \<noteq> 0"
  shows "fd_table_alloc t node flags s =
    Some (int i, t[i := \<lparr>fe_node = node, fe_offset = 0, fe_flags = flags, fe_in_use = True\<rparr>],
          put_node node (n\<lparr>fn_ref_count := fn_ref_count n + 1\<rparr>) s)"
  using assms by (simp add: fd_table_alloc_def vfs_ref_node_def)

lemma release_shared:
  assumes "node \<noteq> 0" "fs_nodes s node = Some n" "fn_flags n AND FS_NODE_FLAG_ALLOCATED \<noteq> 0" "fn_ref_count n = 2"
  shows "vfs_release_node node s = Some (put_node node (n\<lparr>fn_ref_count := 1\<rparr>) s)"
  using assms by (simp add: vfs_release_node_def)

lemma pipe_node_sel [simp]:
  "fn_flags (pipe_node nm i a r) = FS_NODE_FLAG_ALLOCATED" "fn_ref_count (pipe_node nm i a r) = 1"
  "fn_impl (pipe_node nm i a r) = a" "fn_impl_data (pipe_node nm i a r) = r" "fn_close (pipe_node nm i a r) = Some Pipe"
  "fn_write (pipe_node nm i a r) = (if r = 0 then None else Some Pipe)" "fn_type (pipe_node nm i a r) = FS_PIPE"
  by (simp_all add: pipe_node_def)

lemma put_node_twice [simp]: "put_node a n' (put_node a n s) = put_node a n' s"
  by (simp add: put_node_def)

lemma ref_count_same [simp]: "(pipe_node nm i a r)\<lparr>fn_ref_count := 1\<rparr> = pipe_node nm i a r"
  by (simp add: pipe_node_def zero_node_def)

text \<open>The state after \<^verbatim>\<open>sys_pipe\<close>: both nodes are held by one descriptor each.\<close>

lemma sys_pipe_state:
  assumes a: "distinct [a, r, w]" "0 \<notin> {a, r, w}"
    and f: "first_free (ps_fds p) = Some i"
      "first_free ((ps_fds p)[i := \<lparr>fe_node = r, fe_offset = 0, fe_flags = 0, fe_in_use = True\<rparr>]) = Some j"
  shows "sys_pipe a r w p = Some (Ret 0, Some (int i, int j),
    (with_files p (snd (pipe_create a r w (files p))))
      \<lparr>ps_fds := (ps_fds p)[i := \<lparr>fe_node = r, fe_offset = 0, fe_flags = 0, fe_in_use = True\<rparr>,
                             j := \<lparr>fe_node = w, fe_offset = 0, fe_flags = 1, fe_in_use = True\<rparr>]\<rparr>)"
proof -
  define s where "s = snd (pipe_create a r w (files p))"
  define ino where "ino = pipe_inode_counter (files p)"
  have c: "pipe_create a r w (files p) = (Some (r, w), s)"
    using a by (simp add: s_def pipe_create_def Let_def)
  have n: "fs_nodes s r = Some (pipe_node ''pipe_read'' ino a 0)" "fs_nodes s w = Some (pipe_node ''pipe_write'' ino a 1)"
    using a by (simp_all add: s_def pipe_create_def Let_def ino_def)
  have same: "put_node r (pipe_node ''pipe_read'' ino a 0) s = s" "put_node w (pipe_node ''pipe_write'' ino a 1) s = s"
    using n by (simp_all add: put_node_def fun_upd_idem)
  have z: "r \<noteq> 0" "w \<noteq> 0" using a by auto
  note ar = alloc_counted[OF f(1) z(1) n(1), of 0] and aw = alloc_counted[OF f(2) z(2) n(2), of 1]
  have rr: "vfs_release_node r (put_node r ((pipe_node ''pipe_read'' ino a 0)\<lparr>fn_ref_count := 2\<rparr>) s) = Some s"
    using z same by (subst release_shared) auto
  have rw: "vfs_release_node w (put_node w ((pipe_node ''pipe_write'' ino a 1)\<lparr>fn_ref_count := 2\<rparr>) s) = Some s"
    using z same by (subst release_shared) auto
  show ?thesis using ar aw rr rw by (simp add: sys_pipe_def c s_def[symmetric])
qed

lemma close_read_end:
  assumes a: "distinct [a, r, w]" "0 \<notin> {a, r, w}" and s: "s = snd (pipe_create a r w s0)"
  shows "\<exists>s1 s2. vfs_close r s = Some s1 \<and> vfs_release_node r s1 = Some s2 \<and> fs_pipes s2 a = None
    \<and> fs_nodes s2 w = Some (pipe_node ''pipe_write'' (pipe_inode_counter s0) a 1)"
proof -
  let ?r = "pipe_node ''pipe_read'' (pipe_inode_counter s0) a 0"
  have n: "fs_nodes s r = Some ?r" "fs_nodes s w = Some (pipe_node ''pipe_write'' (pipe_inode_counter s0) a 1)"
    "fs_pipes s a = Some new_pipe"
    using a by (simp_all add: s pipe_create_def Let_def)
  have z: "r \<noteq> 0" "a \<noteq> 0" "r \<noteq> w" "a \<noteq> w" using a by auto
  define s1 where "s1 = put_pipe a (close_end False new_pipe) s"
  have c: "vfs_close r s = Some s1"
    using n z by (simp add: vfs_close_def pipe_close_def Let_def s1_def close_end_def new_pipe_def)
  have "vfs_release_node r s1 = Some (kfree_obj r (kfree_obj a (put_node r (?r\<lparr>fn_ref_count := 0\<rparr>) s1)))"
    using n z by (simp add: vfs_release_node_def s1_def Let_def)
  then show ?thesis using c n z by (intro exI conjI) (assumption | simp add: kfree_obj_def s1_def)+
qed

text \<open>
  C12: A use after free.  After \<^verbatim>\<open>pipe\<close> has succeeded, closing the read end frees the pipe buffer that the write
  end still refers to: \<^verbatim>\<open>pipe_close\<close> keeps it because a writer is left, but \<^verbatim>\<open>vfs_release_node\<close> then frees
  \<^verbatim>\<open>node->impl\<close>.  The next write to the write end, and also closing it, access freed memory.
\<close>
theorem pipe_close_use_after_free:
  assumes addresses: "distinct [a, r, w]" "0 \<notin> {a, r, w}"
    and two_free: "i < j" "j < length (ps_fds p)" "fd_table_get (ps_fds p) (int i) = None" "fd_table_get (ps_fds p) (int j) = None"
    and bytes: "bytes \<noteq> []"
  shows "\<exists>rfd wfd p1 p2. sys_pipe a r w p = Some (Ret 0, Some (rfd, wfd), p1)
    \<and> sys_close rfd p1 = Some (Ret 0, p2)
    \<and> sys_write bufs wfd bytes p2 = None \<and> sys_close wfd p2 = None"
proof -
  let ?t = "ps_fds p"
  let ?er = "\<lparr>fe_node = r, fe_offset = 0, fe_flags = 0, fe_in_use = True\<rparr>"
  let ?ew = "\<lparr>fe_node = w, fe_offset = 0, fe_flags = 1, fe_in_use = True\<rparr>"
  have free: "\<not> fe_in_use (?t ! i)" "\<not> fe_in_use (?t ! j)" using two_free by (auto simp: fd_table_get_def split: if_splits)
  obtain i' where i': "first_free ?t = Some i'" using first_free_ex[of i ?t] two_free free by auto
  note fi = first_free_Some[OF i']
  obtain k where k: "k < length ?t" "k \<noteq> i'" "\<not> fe_in_use (?t ! k)"
    using that[of i] that[of j] two_free free less_trans[OF two_free(1,2)] by (cases "i' = i") auto
  obtain j' where j': "first_free (?t[i' := ?er]) = Some j'" using first_free_ex[of k "?t[i' := ?er]"] k by auto
  note fj = first_free_Some[OF j']
  have ne: "j' \<noteq> i'" using fj(1,2) by (auto simp: nth_list_update)
  define s where "s = snd (pipe_create a r w (files p))"
  define p1 where "p1 = (with_files p s)\<lparr>ps_fds := ?t[i' := ?er, j' := ?ew]\<rparr>"
  have sp: "sys_pipe a r w p = Some (Ret 0, Some (int i', int j'), p1)"
    using sys_pipe_state[OF addresses i' j'] by (simp add: p1_def s_def)
  obtain s1 s2 where cl: "vfs_close r s = Some s1" "vfs_release_node r s1 = Some s2" "fs_pipes s2 a = None"
    "fs_nodes s2 w = Some (pipe_node ''pipe_write'' (pipe_inode_counter (files p)) a 1)"
    using close_read_end[OF addresses s_def] by blast
  have g: "fd_table_get (?t[i' := ?er, j' := ?ew]) (int i') = Some ?er"
    using fi(1) fj(1) ne by (simp add: get_update)
  define p2 where "p2 = (with_files p1 s2)\<lparr>ps_fds := ?t[i' := ?er, j' := ?ew, i' := free_entry]\<rparr>"
  have sc: "sys_close (int i') p1 = Some (Ret 0, p2)"
    using g cl addresses by (simp add: sys_close_def fd_table_free_def p1_def p2_def with_files_def Let_def)
  have gw: "fd_table_get (ps_fds p2) (int j') = Some ?ew"
    using fi(1) fj(1) ne by (simp add: p2_def get_update)
  have fl: "files p2 = s2" by (simp add: p2_def with_files_def)
  have z: "w \<noteq> 0" "a \<noteq> 0" using addresses by auto
  have "sys_write bufs (int j') bytes p2 = None"
    using gw fl z cl(3,4) bytes
    by (simp add: sys_write_def open_entry_def sys_write_loop.simps vfs_write_def pipe_node_write_def pipe_of_def Let_def)
  moreover have "sys_close (int j') p2 = None"
    using gw fl z cl(3,4) by (simp add: sys_close_def fd_table_free_def vfs_close_def pipe_close_def Let_def)
  ultimately show ?thesis using sp sc by blast
qed

definition empty_proc :: proc_state where
  "empty_proc = \<lparr>ps_vfs = \<lparr>vs_fs = \<lparr>fs_nodes = Map.empty, fs_pipes = Map.empty, fs_files = Map.empty, fs_dirs = Map.empty,
     pipe_inode_counter = 1, next_inode = 1\<rparr>, fs_root = 0, mount_table = []\<rparr>, ps_fds = fd_table_init, ps_cwd = [slash]\<rparr>"

theorem pipe_close_use_after_free_witness:
  "\<exists>rfd wfd p1 p2. sys_pipe 0x1000 0x3000 0x4000 empty_proc = Some (Ret 0, Some (rfd, wfd), p1)
    \<and> sys_close rfd p1 = Some (Ret 0, p2)
    \<and> sys_write (\<lambda>_. None) wfd [65] p2 = None \<and> sys_close wfd p2 = None"
  by (rule pipe_close_use_after_free[of _ _ _ 0 1])
    (simp_all add: empty_proc_def fd_table_init_def free_entry_def fd_table_get_def)

section \<open>Exclusive creation\<close>

text \<open>
  C29: \<^verbatim>\<open>sys_open\<close> with \<^verbatim>\<open>O_CREAT | O_EXCL\<close> never opens a file: whether or not the file exists, the call either faults
  or returns -1 and leaves the descriptor table unchanged.  The flag is tested after the file was created, on
  the node just created.
\<close>
theorem sys_open_excl_fails:
  assumes "flags AND O_CREAT \<noteq> 0" "flags AND O_EXCL \<noteq> 0"
    "sys_open a_node a_file a_entry path flags p = Some (r, p')"
  shows "r = Ret (-1) \<and> ps_fds p' = ps_fds p"
  using assms
  by (auto simp: sys_open_def Let_def with_files_def split: option.splits prod.splits if_splits bool.splits)

text \<open>An empty root directory, before and after \<^verbatim>\<open>/f\<close> is created.\<close>

definition bare_root :: fs_state where
  "bare_root = \<lparr>fs_nodes = [0x1000 \<mapsto> ramfs_node ''/'' 1 FS_DIRECTORY 7 0x2000], fs_pipes = Map.empty, fs_files = Map.empty,
     fs_dirs = [0x2000 \<mapsto> \<lparr>rdir_entries = [], rdir_count = 0\<rparr>], pipe_inode_counter = 1, next_inode = 2\<rparr>"

definition root_with_f :: fs_state where
  "root_with_f = \<lparr>fs_nodes = [0x1000 \<mapsto> ramfs_node ''/'' 1 FS_DIRECTORY 7 0x2000, 0x5000 \<mapsto> ramfs_node ''f'' 2 FS_FILE 6 0x6000],
     fs_pipes = Map.empty, fs_files = [0x6000 \<mapsto> \<lparr>rf_data = None, rf_size = 0, rf_capacity = 0\<rparr>],
     fs_dirs = [0x2000 \<mapsto> \<lparr>rdir_entries = [\<lparr>rd_name = ''f'', rd_node = 0x5000\<rparr>], rdir_count = 1\<rparr>],
     pipe_inode_counter = 1, next_inode = 3\<rparr>"

lemma lookup_f:
  assumes "tree_ok s" "fs_nodes s 0x1000 \<noteq> None"
  shows "vfs_path_to_node ''/f'' \<lparr>vs_fs = s, fs_root = 0x1000, mount_table = []\<rparr>
    = Some (case child s 0x1000 ''f'' of None \<Rightarrow> 0 | Some a \<Rightarrow> a, \<lparr>vs_fs = s, fs_root = 0x1000, mount_table = []\<rparr>)"
  using walk_component[where s = s and cur = "0x1000" and c = "''f''" and rest = "[]"] assms
  by (simp add: vfs_path_to_node_def vfs_get_mounted_root_by_path_def component_ok_def vfs_walk.simps[of _ _ _ "[]"] split: option.split)

lemma create_f:
  "vfs_create 0x5000 0x6000 0x7000 ''/f'' \<lparr>vs_fs = bare_root, fs_root = 0x1000, mount_table = []\<rparr>
    = Some (True, \<lparr>vs_fs = root_with_f, fs_root = 0x1000, mount_table = []\<rparr>)"
  by (simp add: vfs_create_def split_path_def last_slash_def with_parent_def vfs_path_to_node_def bare_root_def
      root_with_f_def ramfs_create_file_def ramfs_dir_of_def ramfs_find_entry_def ramfs_add_entry_def copy_name_def
      on_fs_def vfs_release_node_def put_node_def put_file_def put_dir_def Let_def)

lemma trees_ok: "tree_ok bare_root" "tree_ok root_with_f"
  by (auto simp: tree_ok_def bare_root_def root_with_f_def dir_ok_def ramfs_dir_of_def split: if_splits)

theorem sys_open_excl_fails_witness:
  "\<exists>p'. sys_open 0x5000 0x6000 0x7000 ''/f'' 0xC2
       (empty_proc\<lparr>ps_vfs := \<lparr>vs_fs = bare_root, fs_root = 0x1000, mount_table = []\<rparr>\<rparr>) = Some (Ret (-1), p')
     \<and> files p' = root_with_f \<and> ps_fds p' = fd_table_init"
proof -
  let ?p = "empty_proc\<lparr>ps_vfs := \<lparr>vs_fs = bare_root, fs_root = 0x1000, mount_table = []\<rparr>\<rparr>"
  have c: "child bare_root 0x1000 ''f'' = None" "child root_with_f 0x1000 ''f'' = Some 0x5000"
    by (simp_all add: child_def bare_root_def root_with_f_def dir_map_def ramfs_find_entry_def)
  have n: "fs_nodes bare_root 0x1000 \<noteq> None" "fs_nodes root_with_f 0x1000 \<noteq> None"
    by (simp_all add: bare_root_def root_with_f_def)
  have "\<exists>r p'. sys_open 0x5000 0x6000 0x7000 ''/f'' 0xC2 ?p = Some (r, p') \<and> files p' = root_with_f"
    using lookup_f[OF trees_ok(1) n(1)] lookup_f[OF trees_ok(2) n(2)] create_f c
    by (simp add: sys_open_def with_files_def vfs_release_node_def)
      (simp add: root_with_f_def)
  then obtain r p' where "sys_open 0x5000 0x6000 0x7000 ''/f'' 0xC2 ?p = Some (r, p')" "files p' = root_with_f" by blast
  note o = this
  have "r = Ret (-1) \<and> ps_fds p' = ps_fds ?p" by (rule sys_open_excl_fails[OF _ _ o(1)]) simp_all
  then show ?thesis using o by (simp add: empty_proc_def)
qed

section \<open>The working directory stays normalised\<close>

definition simple_component :: "string \<Rightarrow> bool" where
  "simple_component c \<longleftrightarrow> c \<noteq> [] \<and> slash \<notin> set c \<and> c \<noteq> ''.'' \<and> c \<noteq> ''..''"

text \<open>The absolute path with the given components.\<close>

definition abs_path_of :: "string list \<Rightarrow> string" where
  "abs_path_of cs = (if cs = [] then [slash] else concat (map (\<lambda>c. slash # c) cs))"

definition cwd_ok :: "string \<Rightarrow> bool" where
  "cwd_ok cwd \<longleftrightarrow> length cwd < 256 \<and> (\<exists>cs. list_all simple_component cs \<and> cwd = abs_path_of cs)"

lemma take_token_no_slash: "take_token k p = (t, r) \<Longrightarrow> slash \<notin> set t"
  by (induction k p arbitrary: t r rule: take_token.induct) (auto split: if_splits prod.splits)

lemma normalize_components_simple:
  "normalize_components path stack = Some cs \<Longrightarrow> list_all simple_component stack \<Longrightarrow> list_all simple_component cs"
proof (induction path stack rule: normalize_components.induct)
  case (1 path stack)
  obtain t r where t: "take_token 127 (dropWhile (\<lambda>c. c = slash) path) = (t, r)" by force
  have b: "list_all simple_component (butlast stack)" using 1(5) by (auto simp: list_all_iff dest: in_set_butlastD)
  show ?case
  proof (cases "dropWhile (\<lambda>c. c = slash) path = []")
    case True
    then show ?thesis using 1(4,5) by (subst (asm) normalize_components.simps) simp
  next
    case False
    have "normalize_components path stack =
      (if t = [] \<or> t = ''.'' then normalize_components r stack
       else if t = ''..'' then normalize_components r (butlast stack)
       else if 64 \<le> length stack then None else normalize_components r (stack @ [t]))"
      using False t by (subst normalize_components.simps) (simp only: Let_def if_False prod.case)
    then consider "t = [] \<or> t = ''.''" "normalize_components r stack = Some cs"
      | "\<not> (t = [] \<or> t = ''.'')" "t = ''..''" "normalize_components r (butlast stack) = Some cs"
      | "\<not> (t = [] \<or> t = ''.'')" "t \<noteq> ''..''" "\<not> 64 \<le> length stack" "normalize_components r (stack @ [t]) = Some cs"
      using 1(4) by (auto split: if_splits)
    then show ?thesis
    proof cases
      case 1
      from "1.IH"(1)[OF refl False t[symmetric] this] show ?thesis using "1.prems"(2) by simp
    next
      case 2
      from "1.IH"(2)[OF refl False t[symmetric] this] show ?thesis using b by simp
    next
      case 3
      then have "simple_component t" using take_token_no_slash[OF t] by (simp add: simple_component_def)
      with "1.IH"(3)[OF refl False t[symmetric] 3] show ?thesis using "1.prems"(2) by simp
    qed
  qed
qed

lemma push_chars: "fold (push_char sz) cs out = out @ take (sz - 1 - length out) cs"
proof (induction cs arbitrary: out)
  case (Cons c cs)
  show ?case
  proof (cases "length out < sz - 1")
    case True
    then have "sz - 1 - length out = Suc (sz - 1 - length (out @ [c]))" by simp
    then show ?thesis using Cons True by (simp add: push_char_def)
  qed (use Cons in \<open>simp add: push_char_def\<close>)
qed simp

lemma push_component_mono: "length out \<le> length (push_component sz c out)"
  by (auto simp: push_component_def push_chars push_char_def)

lemma push_components_mono: "length out \<le> length (fold (push_component sz) cs out)"
proof (induction cs arbitrary: out)
  case (Cons c cs)
  show ?case using push_component_mono[of out sz c] Cons[of "push_component sz c out"] by simp
qed simp

lemma push_component_fits:
  assumes "length (push_component sz c out) < sz - 1" "out \<noteq> []" "c \<noteq> []"
  shows "push_component sz c out = out @ (if last out = slash then c else slash # c)"
proof -
  let ?o = "if last out \<noteq> slash then push_char sz slash out else out"
  have l: "length out < sz - 1" using assms(1) push_component_mono[of out sz c] by linarith
  then have o: "?o = out @ (if last out = slash then [] else [slash])" by (simp add: push_char_def)
  have e: "push_component sz c out = ?o @ take (sz - 1 - length ?o) c"
    using assms(2) by (simp add: push_component_def push_chars)
  then have "length c \<le> sz - 1 - length ?o" using assms(1) by (cases "length c \<le> sz - 1 - length ?o") auto
  then show ?thesis using e o by auto
qed

text \<open>Nothing is cut off from a result that does not fill the buffer.\<close>

lemma push_components_fit:
  assumes "length (fold (push_component sz) cs out) < sz - 1" "out \<noteq> []" "last out \<noteq> slash" "list_all simple_component cs"
  shows "fold (push_component sz) cs out = out @ concat (map (\<lambda>c. slash # c) cs)"
  using assms
proof (induction cs arbitrary: out)
  case (Cons c cs)
  let ?o = "push_component sz c out"
  have "length ?o < sz - 1" using Cons.prems(1) push_components_mono[of ?o sz cs] by simp
  moreover have c: "c \<noteq> []" "slash \<notin> set c" using Cons.prems(4) by (auto simp: simple_component_def)
  ultimately have o: "?o = out @ slash # c" using push_component_fits[of sz c out] Cons.prems(2,3) by simp
  have "last c \<noteq> slash" using last_in_set[OF c(1)] c(2) by metis
  then have "last ?o \<noteq> slash" using c o by simp
  then show ?case using Cons.IH[of ?o] Cons.prems o by simp
qed simp

lemma normalize_path_fits:
  assumes n: "normalize_path path 512 = Some np" and abs: "path \<noteq> []" "hd path = slash" and l: "length np < 256"
  shows "\<exists>cs. normalize_components path [] = Some cs \<and> np = abs_path_of cs"
proof -
  obtain cs where cs: "normalize_components path [] = Some cs" using n by (auto simp: normalize_path_def Let_def split: option.splits)
  then have s: "list_all simple_component cs" using normalize_components_simple[OF cs] by simp
  let ?f = "fold (push_component 512) cs [slash]"
  have ne: "?f \<noteq> []" using push_components_mono[of "[slash]" 512 cs] by force
  then have np: "np = ?f" using n cs abs by (auto simp: normalize_path_def push_char_def Let_def)
  have "?f = abs_path_of cs"
  proof (cases cs)
    case (Cons c cs')
    let ?o = "push_component 512 c [slash]"
    have c: "c \<noteq> []" "slash \<notin> set c" "list_all simple_component cs'" using s Cons by (auto simp: simple_component_def)
    have f: "?f = fold (push_component 512) cs' ?o" using Cons by simp
    have "length ?o < 256" using l push_components_mono[of ?o 512 cs'] unfolding np f by (rule le_less_trans[rotated])
    then have "length ?o < 512 - 1" by simp
    then have o: "?o = slash # c" using push_component_fits[of 512 c "[slash]"] c by simp
    have "last c \<noteq> slash" using last_in_set[OF c(1)] c(2) by metis
    then have "last ?o \<noteq> slash" using c o by simp
    then have "?f = ?o @ concat (map (\<lambda>c. slash # c) cs')"
      using push_components_fit[of 512 cs' ?o] c(3) l np f o by simp
    then show ?thesis using o Cons by (simp add: abs_path_of_def)
  qed (simp add: abs_path_of_def)
  then show ?thesis using cs np by blast
qed

text \<open>
  C29: The working directory of a process stays an absolute path of fewer than 256 characters without empty, \<^verbatim>\<open>.\<close> or
  \<^verbatim>\<open>..\<close> components, whatever \<^verbatim>\<open>chdir\<close> is called with.  A successful call sets it to the path of the components that
  \<^verbatim>\<open>normalize_path\<close> finds, without loss; a failed call leaves it as it was.
\<close>
theorem sys_chdir_normalised:
  assumes "cwd_ok (ps_cwd p)" "sys_chdir path p = Some (r, p')"
  shows "cwd_ok (ps_cwd p') \<and> ps_fds p' = ps_fds p
    \<and> (r = 0 \<and> (\<exists>abs_path cs. normalize_components abs_path [] = Some cs \<and> ps_cwd p' = abs_path_of cs
                  \<and> abs_path = (if path \<noteq> [] \<and> hd path = slash then path
                      else ps_cwd p @ (if 1 < length (ps_cwd p) \<and> last (ps_cwd p) \<noteq> slash then [slash] else []) @ path))
       \<or> r = -1 \<and> ps_cwd p' = ps_cwd p)"
proof -
  let ?abs = "if path \<noteq> [] \<and> hd path = slash then path
    else ps_cwd p @ (if 1 < length (ps_cwd p) \<and> last (ps_cwd p) \<noteq> slash then [slash] else []) @ path"
  obtain cs0 where "ps_cwd p = abs_path_of cs0" using assms(1) by (auto simp: cwd_ok_def)
  then have "ps_cwd p \<noteq> []" "hd (ps_cwd p) = slash"
    by (cases cs0; simp add: abs_path_of_def)+
  then have abs: "?abs \<noteq> []" "hd ?abs = slash" by auto
  consider "r = -1" "ps_cwd p' = ps_cwd p" "ps_fds p' = ps_fds p"
    | np where "r = 0" "normalize_path ?abs 512 = Some np" "length np < 256" "ps_cwd p' = np" "ps_fds p' = ps_fds p"
    using assms(2) unfolding sys_chdir_def Let_def with_files_def
    by (auto simp only: split: option.splits prod.splits if_splits)
      (auto simp: not_le)
  then show ?thesis
  proof cases
    case 2
    obtain cs where cs: "normalize_components ?abs [] = Some cs" "np = abs_path_of cs"
      using normalize_path_fits[OF 2(2) abs 2(3)] by blast
    then have "cwd_ok np" using normalize_components_simple[OF cs(1)] 2(3) by (auto simp: cwd_ok_def)
    then show ?thesis using 2 cs by blast
  qed (use assms(1) in simp)
qed

lemma normalize_etc: "normalize_components ''/etc/.'' [] = Some [''etc'']"
proof -
  have t: "take_token 127 ''etc/.'' = (''etc'', ''/.'')" "take_token 127 ''.'' = (''.'', [])"
    using take_token_append[of "''etc''" 127 "''/.''"] take_token_append[of "''.''" 127 "[]"] by simp_all
  show ?thesis
    by (subst normalize_components.simps, simp add: t, subst normalize_components.simps, simp add: t,
        subst normalize_components.simps, simp)
qed

theorem sys_chdir_normalised_witness:
  "\<exists>p'. sys_chdir ''etc/.'' (empty_proc\<lparr>ps_vfs := \<lparr>vs_fs = tree_sample, fs_root = 0x1000, mount_table = []\<rparr>\<rparr>) = Some (0, p')
     \<and> cwd_ok (ps_cwd p') \<and> ps_cwd p' = ''/etc''"
proof -
  let ?v = "\<lparr>vs_fs = tree_sample, fs_root = 0x1000, mount_table = []\<rparr>"
  let ?p = "empty_proc\<lparr>ps_vfs := ?v\<rparr>"
  have n: "fs_nodes tree_sample 0x1000 \<noteq> None" "fs_nodes tree_sample 0x3000 = Some (ramfs_node ''etc'' 2 FS_DIRECTORY 7 0x4000)"
    by (simp_all add: tree_sample_def)
  have c: "child tree_sample 0x1000 ''etc'' = Some 0x3000"
    by (simp add: child_def tree_sample_def dir_map_def ramfs_find_entry_def)
  have "vfs_walk 0x1000 False 0x1000 (''etc'' @ ''/.'') 0x1000 tree_sample = vfs_walk 0x1000 False 0x1000 ''/.'' 0x3000 tree_sample"
    using c by (subst walk_component[OF tree_sample_ok n(1)]) (simp_all add: component_ok_def)
  also have "\<dots> = vfs_walk 0x1000 False 0x1000 (''.'' @ []) 0x3000 tree_sample" by (subst walk_skip) simp
  also have "\<dots> = Some (0x3000, tree_sample)"
    using n(2) by (subst walk_component[OF tree_sample_ok]) (simp_all add: component_ok_def vfs_walk.simps[of _ _ _ "[]"])
  finally have w: "vfs_path_to_node ''/etc/.'' ?v = Some (0x3000, ?v)"
    by (simp add: vfs_path_to_node_def vfs_get_mounted_root_by_path_def)
  have np: "normalize_path ''/etc/.'' 512 = Some ''/etc''"
    by (simp add: normalize_path_def normalize_etc push_component_def push_char_def Let_def)
  have r: "\<exists>p'. sys_chdir ''etc/.'' ?p = Some (0, p') \<and> ps_cwd p' = ''/etc''"
    using w n(2) np by (simp add: sys_chdir_def empty_proc_def with_files_def vfs_release_node_def Let_def)
  have "cwd_ok (ps_cwd ?p)"
    by (auto simp: cwd_ok_def empty_proc_def abs_path_of_def intro!: exI[of _ "[]"])
  then show ?thesis using sys_chdir_normalised[of ?p] r by metis
qed

end
