(* ===== verification/Task_Queue.thy ===== *)
theory Task_Queue
  imports Fd_Table Vmm
begin

text \<open>
  The process control block and the ready queue of \<^verbatim>\<open>src/src/kernel/task.c\<close>.  A pointer to a control block is
  an index into the pool.  The queue is the doubly linked list the code keeps in the \<^verbatim>\<open>next\<close> and \<^verbatim>\<open>prev\<close> fields; its
  operations, which run under \<^verbatim>\<open>task_lock\<close>, are shown to implement a queue.
\<close>

record cpu_context_t =
  ctx_gs :: u16
  ctx_fs :: u16
  ctx_es :: u16
  ctx_ds :: u16
  ctx_edi :: u32
  ctx_esi :: u32
  ctx_ebp :: u32
  ctx_ebx :: u32
  ctx_edx :: u32
  ctx_ecx :: u32
  ctx_eax :: u32
  ctx_eip :: u32
  ctx_cs :: u16
  ctx_eflags :: u32
  ctx_esp :: u32
  ctx_ss :: u16
  ctx_cr3 :: u32

record task_t =
  t_pid :: u32
  t_name :: string
  t_state :: task_state
  t_priority :: u32
  t_time_slice :: u32
  t_runtime_ms :: u64
  t_sleep_until_ms :: u64
  t_context :: cpu_context_t
  t_kernel_stack_base :: u32
  t_kernel_stack :: u32
  t_is_user_process :: bool
  t_user_entry :: u32
  t_user_stack_base :: u32
  t_user_stack :: u32
  t_page_dir_phys :: u32
  t_heap_start :: u32
  t_heap_end :: u32
  t_heap_max :: u32
  t_fd_table :: "(u32 \<times> fd_table_t) option"
  t_cwd :: string
  t_parent :: "nat option"
  t_exit_code :: u32
  t_exit_signaled :: bool
  t_exit_signal :: u32
  t_next :: "nat option"
  t_prev :: "nat option"

record sched_state =
  task_pool :: "task_t list"
  current_task :: "nat option"
  ready_queue_head :: "nat option"
  ready_queue_tail :: "nat option"
  next_pid :: u32
  active_task_count :: u32
  idle_task :: "nat option"
  scheduler_initialized :: bool
  pending_cleanup_task :: "nat option"
  tick_count :: u32

abbreviation (input) MAX_TASKS :: nat where "MAX_TASKS \<equiv> 256"

definition upd_task :: "nat \<Rightarrow> (task_t \<Rightarrow> task_t) \<Rightarrow> 'a sched_state_scheme \<Rightarrow> 'a sched_state_scheme" where
  "upd_task i f k = k\<lparr>task_pool := (task_pool k)[i := f (task_pool k ! i)]\<rparr>"

definition ready_queue_add :: "nat \<Rightarrow> 'a sched_state_scheme \<Rightarrow> 'a sched_state_scheme" where
  "ready_queue_add i k =
     (if t_state (task_pool k ! i) \<in> {TASK_UNUSED, TASK_ZOMBIE, TASK_TERMINATED} then k
      else if t_state (task_pool k ! i) \<noteq> TASK_READY then k
      else let k1 = upd_task i (\<lambda>t. t\<lparr>t_next := None, t_prev := ready_queue_tail k\<rparr>) k;
               k2 = (case ready_queue_tail k1 of
                       Some back_task \<Rightarrow> upd_task back_task (\<lambda>t. t\<lparr>t_next := Some i\<rparr>) k1
                     | None \<Rightarrow> k1\<lparr>ready_queue_head := Some i\<rparr>)
           in k2\<lparr>ready_queue_tail := Some i\<rparr>)"

definition ready_queue_remove :: "nat \<Rightarrow> 'a sched_state_scheme \<Rightarrow> 'a sched_state_scheme" where
  "ready_queue_remove i k =
     (let k1 = (case t_prev (task_pool k ! i) of
                  Some p \<Rightarrow> upd_task p (\<lambda>t. t\<lparr>t_next := t_next (task_pool k ! i)\<rparr>) k
                | None \<Rightarrow> k\<lparr>ready_queue_head := t_next (task_pool k ! i)\<rparr>);
          k2 = (case t_next (task_pool k1 ! i) of
                  Some n \<Rightarrow> upd_task n (\<lambda>t. t\<lparr>t_prev := t_prev (task_pool k1 ! i)\<rparr>) k1
                | None \<Rightarrow> k1\<lparr>ready_queue_tail := t_prev (task_pool k1 ! i)\<rparr>)
      in upd_task i (\<lambda>t. t\<lparr>t_next := None, t_prev := None\<rparr>) k2)"

definition ready_queue_pop :: "'a sched_state_scheme \<Rightarrow> nat option \<times> 'a sched_state_scheme" where
  "ready_queue_pop k =
     (case ready_queue_head k of
        None \<Rightarrow> (None, k)
      | Some i \<Rightarrow>
          let k1 = k\<lparr>ready_queue_head := t_next (task_pool k ! i)\<rparr>;
              k2 = (case ready_queue_head k1 of
                      Some h \<Rightarrow> upd_task h (\<lambda>t. t\<lparr>t_prev := None\<rparr>) k1
                    | None \<Rightarrow> k1\<lparr>ready_queue_tail := None\<rparr>)
          in (Some i, upd_task i (\<lambda>t. t\<lparr>t_next := None, t_prev := None\<rparr>) k2))"

section \<open>Doubly linked segments\<close>

fun first_or :: "'a option \<Rightarrow> 'a list \<Rightarrow> 'a option" where
  "first_or n [] = n"
| "first_or n (x # xs) = Some x"

fun final_or :: "'a option \<Rightarrow> 'a list \<Rightarrow> 'a option" where
  "final_or p [] = p"
| "final_or p (x # xs) = final_or (Some x) xs"

text \<open>The tasks \<open>xs\<close> are linked in this order, between \<open>p\<close> and \<open>n\<close>.\<close>

fun dll :: "task_t list \<Rightarrow> nat option \<Rightarrow> nat list \<Rightarrow> nat option \<Rightarrow> bool" where
  "dll t p [] n \<longleftrightarrow> True"
| "dll t p (x # xs) n \<longleftrightarrow> x < length t \<and> t_prev (t ! x) = p \<and> t_next (t ! x) = first_or n xs \<and> dll t (Some x) xs n"

lemma final_or_snoc [simp]: "final_or p (xs @ [x]) = Some x"
  by (induction xs arbitrary: p) auto

lemma first_or_append [simp]: "first_or n (xs @ ys) = first_or (first_or n ys) xs"
  by (cases xs) auto

lemma final_or_append [simp]: "final_or p (xs @ ys) = final_or (final_or p xs) ys"
  by (induction xs arbitrary: p) auto

lemma dll_append: "dll t p (xs @ ys) n \<longleftrightarrow> dll t p xs (first_or n ys) \<and> dll t (final_or p xs) ys n"
  by (induction xs arbitrary: p) auto

lemma dll_frame: "i \<notin> set xs \<Longrightarrow> dll (t[i := v]) p xs n = dll t p xs n"
  by (induction xs arbitrary: p) auto

lemma dll_bound: "dll t p xs n \<Longrightarrow> x \<in> set xs \<Longrightarrow> x < length t"
  by (induction xs arbitrary: p) auto

lemma final_or_cases: obtains "xs = []" "final_or p xs = p" | ys y where "xs = ys @ [y]" "final_or p xs = Some y"
  by (cases xs rule: rev_cases) auto

text \<open>Changing a field outside the links.\<close>

lemma dll_links:
  assumes "length t' = length t" "\<And>x. x \<in> set xs \<Longrightarrow> t_next (t' ! x) = t_next (t ! x) \<and> t_prev (t' ! x) = t_prev (t ! x)"
  shows "dll t' p xs n = dll t p xs n"
  using assms(2) by (induction xs arbitrary: p) (auto simp: assms(1))

text \<open>The queue as the list of its tasks.\<close>

definition queue_is :: "'a sched_state_scheme \<Rightarrow> nat list \<Rightarrow> bool" where
  "queue_is k xs \<longleftrightarrow> distinct xs \<and> dll (task_pool k) None xs None
     \<and> ready_queue_head k = first_or None xs \<and> ready_queue_tail k = final_or None xs"

lemma upd_task_sel [simp]:
  "task_pool (upd_task i f k) = (task_pool k)[i := f (task_pool k ! i)]"
  "current_task (upd_task i f k) = current_task k" "ready_queue_head (upd_task i f k) = ready_queue_head k"
  "ready_queue_tail (upd_task i f k) = ready_queue_tail k" "next_pid (upd_task i f k) = next_pid k"
  "active_task_count (upd_task i f k) = active_task_count k" "idle_task (upd_task i f k) = idle_task k"
  "scheduler_initialized (upd_task i f k) = scheduler_initialized k"
  "pending_cleanup_task (upd_task i f k) = pending_cleanup_task k" "tick_count (upd_task i f k) = tick_count k"
  by (simp_all add: upd_task_def)

lemma queue_add:
  assumes q: "queue_is k xs" and i: "i \<notin> set xs" "i < length (task_pool k)" "t_state (task_pool k ! i) = TASK_READY"
  shows "queue_is (ready_queue_add i k) (xs @ [i])"
proof (rule final_or_cases[of xs None])
  assume "xs = []" "final_or None xs = None"
  then show ?thesis using q i by (simp add: queue_is_def ready_queue_add_def Let_def)
next
  fix ys y assume y: "xs = ys @ [y]" "final_or None xs = Some y"
  then have d: "dll (task_pool k) None ys (Some y)" "dll (task_pool k) (final_or None ys) [y] None" "y < length (task_pool k)"
    using q by (auto simp: queue_is_def dll_append)
  have ne: "y \<noteq> i" "y \<notin> set ys" "i \<notin> set ys" using q i y by (auto simp: queue_is_def)
  show ?thesis using q i y d ne
    by (auto simp: queue_is_def ready_queue_add_def Let_def dll_append dll_frame nth_list_update)
qed

lemma queue_pop_empty: "queue_is k [] \<Longrightarrow> ready_queue_pop k = (None, k)"
  by (simp add: queue_is_def ready_queue_pop_def)

lemma queue_pop:
  assumes q: "queue_is k (x # xs)"
  shows "fst (ready_queue_pop k) = Some x" "queue_is (snd (ready_queue_pop k)) xs"
proof -
  show "fst (ready_queue_pop k) = Some x" using q by (simp add: queue_is_def ready_queue_pop_def Let_def)
  show "queue_is (snd (ready_queue_pop k)) xs"
  proof (cases xs)
    case Nil
    then show ?thesis using q by (simp add: queue_is_def ready_queue_pop_def Let_def)
  next
    case (Cons y ys)
    then show ?thesis using q
      by (auto simp: queue_is_def ready_queue_pop_def Let_def dll_frame)
  qed
qed

lemma queue_remove:
  assumes q: "queue_is k xs" and i: "i \<in> set xs"
  shows "queue_is (ready_queue_remove i k) (remove1 i xs)"
proof -
  obtain ys zs where xs: "xs = ys @ i # zs" "i \<notin> set ys" using i by (meson split_list_first)
  have z: "i \<notin> set zs" "distinct (ys @ zs)" using q xs by (auto simp: queue_is_def)
  have r: "remove1 i xs = ys @ zs" using xs by (simp add: remove1_append)
  have d: "dll (task_pool k) None ys (Some i)" "dll (task_pool k) (Some i) zs None" "i < length (task_pool k)"
    "t_prev (task_pool k ! i) = final_or None ys" "t_next (task_pool k ! i) = first_or None zs"
    "ready_queue_head k = first_or (Some i) ys" "ready_queue_tail k = final_or (Some i) zs"
    using q xs by (auto simp: queue_is_def dll_append)
  show ?thesis
  proof (rule final_or_cases[of ys None])
    assume y: "ys = []" "final_or None ys = None"
    show ?thesis
      using y d z r by (cases zs) (auto simp: queue_is_def ready_queue_remove_def Let_def dll_frame nth_list_update)
  next
    fix us u assume y: "ys = us @ [u]" "final_or None ys = Some u"
    have u: "u \<noteq> i" "u \<notin> set us" "u \<notin> set zs" "u < length (task_pool k)"
      using xs z y d(1) by (auto simp: dll_append)
    show ?thesis
    proof (cases zs)
      case Nil
      then show ?thesis using y d z r u xs
        by (cases us) (auto simp: queue_is_def ready_queue_remove_def Let_def dll_append dll_frame nth_list_update)
    next
      case (Cons v vs)
      then show ?thesis using y d z r u xs
        by (cases us) (auto simp: queue_is_def ready_queue_remove_def Let_def dll_append dll_frame nth_list_update)
    qed
  qed
qed

section \<open>The queue as an interface\<close>

text \<open>What the scheduler relies on: an operation that appends a task and one that takes the first.\<close>

locale run_queue =
  fixes holds :: "'s \<Rightarrow> nat list \<Rightarrow> bool" and addable :: "nat \<Rightarrow> 's \<Rightarrow> bool"
    and add :: "nat \<Rightarrow> 's \<Rightarrow> 's" and pop :: "'s \<Rightarrow> nat option \<times> 's"
  assumes add_holds: "holds s xs \<Longrightarrow> i \<notin> set xs \<Longrightarrow> addable i s \<Longrightarrow> holds (add i s) (xs @ [i])"
    and pop_holds: "holds s (x # xs) \<Longrightarrow> fst (pop s) = Some x \<and> holds (snd (pop s)) xs"
begin

lemma rotate_queue:
  assumes "holds s xs" "i \<notin> set xs" "addable i s"
  shows "fst (pop (add i s)) = Some (hd (xs @ [i]))" "holds (snd (pop (add i s))) (tl (xs @ [i]))"
proof -
  have h: "holds (add i s) (hd (xs @ [i]) # tl (xs @ [i]))" using add_holds[OF assms] by simp
  show "fst (pop (add i s)) = Some (hd (xs @ [i]))" "holds (snd (pop (add i s))) (tl (xs @ [i]))" using pop_holds[OF h] by auto
qed

end

interpretation rq: run_queue queue_is "\<lambda>i k. i < length (task_pool k) \<and> t_state (task_pool k ! i) = TASK_READY"
    ready_queue_add ready_queue_pop
  by unfold_locales (auto simp: queue_add queue_pop)

end
