(* ===== verification/Task.thy ===== *)
theory Task
  imports Task_Queue Heap "HOL-Library.Monad_Syntax"
begin

text \<open>
  Tasks and the scheduler, \<^verbatim>\<open>src/src/kernel/task.c\<close>, and the process system calls of
  \<^verbatim>\<open>src/src/kernel/syscalls/process.c\<close> that do not load a program.  The kernel state joins the task pool and ready
  queue with the heap (and through it physical and virtual memory) and the file system, and the operations call
  those of the other theories.  Each operation runs with interrupts disabled in the code and is one function here.
  \<open>None\<close> is an access to an object that does not exist or a heap list that is not terminated.  Saving and loading of
  registers by \<^verbatim>\<open>task_switch_context\<close> is machine code: \<^verbatim>\<open>task_schedule\<close> is modelled up to the switch, with the new task as
  the current one; of the context only the address space is saved and loaded.
\<close>

record kernel_state = sched_state +
  k_heap :: heap_state
  k_vfs :: vfs_state
  tss_esp0 :: u32

definition on_heap :: "(heap_state \<Rightarrow> heap_state) \<Rightarrow> kernel_state \<Rightarrow> kernel_state" where
  "on_heap f k = k\<lparr>k_heap := f (k_heap k)\<rparr>"

abbreviation k_mm :: "kernel_state \<Rightarrow> mm_state" where "k_mm k \<equiv> heap_mm (k_heap k)"

definition set_mm :: "mm_state \<Rightarrow> kernel_state \<Rightarrow> kernel_state" where
  "set_mm m k = k\<lparr>k_heap := (k_heap k)\<lparr>heap_mm := m\<rparr>\<rparr>"

definition set_files :: "fs_state \<Rightarrow> kernel_state \<Rightarrow> kernel_state" where
  "set_files s k = k\<lparr>k_vfs := (k_vfs k)\<lparr>vs_fs := s\<rparr>\<rparr>"

definition k_malloc :: "u32 \<Rightarrow> kernel_state \<Rightarrow> (u32 \<times> kernel_state) option" where
  "k_malloc sz k = map_option (\<lambda>(a, h). (a, k\<lparr>k_heap := h\<rparr>)) (kmalloc sz (k_heap k))"

text \<open>What \<^verbatim>\<open>is_page_directory_in_use\<close> reads of the pool.\<close>

definition task_dirs :: "'a sched_state_scheme \<Rightarrow> (task_state \<times> u32) list" where
  "task_dirs k = map (\<lambda>t. (t_state t, t_page_dir_phys t)) (task_pool k)"

definition zero_context :: cpu_context_t where
  "zero_context = \<lparr>ctx_gs = 0, ctx_fs = 0, ctx_es = 0, ctx_ds = 0, ctx_edi = 0, ctx_esi = 0, ctx_ebp = 0, ctx_ebx = 0,
     ctx_edx = 0, ctx_ecx = 0, ctx_eax = 0, ctx_eip = 0, ctx_cs = 0, ctx_eflags = 0, ctx_esp = 0, ctx_ss = 0, ctx_cr3 = 0\<rparr>"

definition zero_task :: task_t where
  "zero_task = \<lparr>t_pid = 0, t_name = '''', t_state = TASK_UNUSED, t_priority = 0, t_time_slice = 0, t_runtime_ms = 0,
     t_sleep_until_ms = 0, t_context = zero_context, t_kernel_stack_base = 0, t_kernel_stack = 0, t_is_user_process = False,
     t_user_entry = 0, t_user_stack_base = 0, t_user_stack = 0, t_page_dir_phys = 0, t_heap_start = 0, t_heap_end = 0,
     t_heap_max = 0, t_fd_table = None, t_cwd = '''', t_parent = None, t_exit_code = 0, t_exit_signaled = False,
     t_exit_signal = 0, t_next = None, t_prev = None\<rparr>"

abbreviation (input) DEFAULT_PRIORITY :: u32 where "DEFAULT_PRIORITY \<equiv> 10"
abbreviation (input) DEFAULT_TIME_SLICE :: u32 where "DEFAULT_TIME_SLICE \<equiv> 10"
abbreviation (input) KERNEL_STACK_SIZE :: u32 where "KERNEL_STACK_SIZE \<equiv> 8192"
abbreviation (input) SIZEOF_FD_TABLE :: u32 where "SIZEOF_FD_TABLE \<equiv> 8196"
abbreviation (input) USER_SPACE_END :: u32 where "USER_SPACE_END \<equiv> 0x80000000"
abbreviation (input) USER_STACK_SIZE :: u32 where "USER_STACK_SIZE \<equiv> 0x100000"

section \<open>The pool\<close>

definition task_alloc :: "'a sched_state_scheme \<Rightarrow> nat option \<times> 'a sched_state_scheme" where
  "task_alloc k =
     (case find (\<lambda>i. t_state (task_pool k ! i) = TASK_UNUSED) [0..<length (task_pool k)] of
        None \<Rightarrow> (None, k)
      | Some i \<Rightarrow>
          (Some i, (upd_task i (\<lambda>_. zero_task\<lparr>t_pid := next_pid k, t_state := TASK_READY, t_priority := DEFAULT_PRIORITY,
                                              t_time_slice := DEFAULT_TIME_SLICE\<rparr>) k)
                     \<lparr>next_pid := next_pid k + 1, active_task_count := active_task_count k + 1\<rparr>))"

text \<open>Closing every open descriptor of a table.\<close>

definition close_fd :: "nat \<Rightarrow> fd_table_t \<times> fs_state \<Rightarrow> (fd_table_t \<times> fs_state) option" where
  "close_fd i ts = (if fe_in_use (fst ts ! i) then map_option snd (fd_table_free (fst ts) (int i) (snd ts)) else Some ts)"

definition close_fds :: "fd_table_t \<Rightarrow> fs_state \<Rightarrow> fs_state option" where
  "close_fds table s = map_option snd (foldM close_fd [0..<length table] (table, s))"

definition clear_pcb :: "nat \<Rightarrow> 'a sched_state_scheme \<Rightarrow> 'a sched_state_scheme" where
  "clear_pcb i k = (upd_task i (\<lambda>_. zero_task) k)\<lparr>active_task_count := active_task_count k - 1\<rparr>"

definition free_stack :: "task_t \<Rightarrow> kernel_state \<Rightarrow> kernel_state" where
  "free_stack t k = (if t_kernel_stack_base t \<noteq> 0 then on_heap (kfree (t_kernel_stack_base t)) k else k)"

definition free_fds :: "task_t \<Rightarrow> kernel_state \<Rightarrow> kernel_state option" where
  "free_fds t k =
     (case t_fd_table t of
        None \<Rightarrow> Some k
      | Some (a, table) \<Rightarrow> map_option (\<lambda>s. on_heap (kfree a) (set_files s k)) (close_fds table (vs_fs (k_vfs k))))"

definition free_space :: "task_t \<Rightarrow> kernel_state \<Rightarrow> kernel_state" where
  "free_space t k = (if t_is_user_process t \<and> t_page_dir_phys t \<noteq> 0
                     then set_mm (vmm_free_page_directory (task_dirs k) (t_page_dir_phys t) (k_mm k)) k else k)"

definition task_free :: "nat \<Rightarrow> kernel_state \<Rightarrow> kernel_state option" where
  "task_free i k =
     (let t = task_pool k ! i in
      map_option (\<lambda>k2. clear_pcb i (free_space t k2)) (free_fds t (free_stack t k)))"

definition task_get_by_pid :: "u32 \<Rightarrow> 'a sched_state_scheme \<Rightarrow> nat option" where
  "task_get_by_pid pid k =
     find (\<lambda>i. t_state (task_pool k ! i) \<noteq> TASK_UNUSED \<and> t_pid (task_pool k ! i) = pid) [0..<length (task_pool k)]"

section \<open>The scheduler\<close>

text \<open>Deferred release of a terminated task: here the control block is cleared first.\<close>

definition cleanup_pending :: "kernel_state \<Rightarrow> kernel_state option" where
  "cleanup_pending k =
     (case pending_cleanup_task k of
        None \<Rightarrow> Some k
      | Some i \<Rightarrow>
          let t = task_pool k ! i; k1 = clear_pcb i (k\<lparr>pending_cleanup_task := None\<rparr>)
          in map_option (free_space t) (free_fds t (free_stack t k1)))"

definition requeue_prev :: "'a sched_state_scheme \<Rightarrow> 'a sched_state_scheme" where
  "requeue_prev k =
     (case current_task k of
        Some i \<Rightarrow>
          if current_task k \<noteq> idle_task k \<and> t_state (task_pool k ! i) = TASK_RUNNING
          then ready_queue_add i (upd_task i (\<lambda>t. t\<lparr>t_state := TASK_READY\<rparr>) k) else k
      | None \<Rightarrow> k)"

text \<open>Choosing the next task and switching to it; \<open>prev\<close> is the task that was current.\<close>

definition switch_to :: "nat option \<Rightarrow> nat \<Rightarrow> kernel_state \<Rightarrow> kernel_state" where
  "switch_to prev next k =
     (let k1 = (upd_task next (\<lambda>t. t\<lparr>t_state := TASK_RUNNING\<rparr>) k)\<lparr>current_task := Some next\<rparr>;
          t = task_pool k1 ! next;
          k2 = (if t_is_user_process t then k1\<lparr>tss_esp0 := t_kernel_stack t\<rparr> else k1);
          k3 = (if prev \<noteq> Some next \<and> t_is_user_process t
                then set_mm (vmm_sync_current_dir (t_page_dir_phys t) (k_mm k2)) k2 else k2);
          k4 = (case prev of
                  Some p \<Rightarrow> upd_task p (\<lambda>u. u\<lparr>t_context := (t_context u)\<lparr>ctx_cr3 := cr3 (k_mm k3)\<rparr>\<rparr>) k3
                | None \<Rightarrow> k3)
      in if prev \<noteq> Some next then set_mm ((k_mm k4)\<lparr>cr3 := ctx_cr3 (t_context t)\<rparr>) k4 else k3)"

definition task_schedule :: "kernel_state \<Rightarrow> kernel_state option" where
  "task_schedule k =
     (if \<not> scheduler_initialized k then Some k
      else case cleanup_pending k of None \<Rightarrow> None
      | Some k1 \<Rightarrow>
          let prev = current_task k1;
              should_free_prev_task = (case prev of Some i \<Rightarrow> prev \<noteq> idle_task k1 \<and> t_state (task_pool k1 ! i) = TASK_TERMINATED
                                                | None \<Rightarrow> False)
          in case ready_queue_pop (requeue_prev k1) of (popped, k2) \<Rightarrow>
             (case (case popped of Some i \<Rightarrow> Some i | None \<Rightarrow> idle_task k2) of None \<Rightarrow> None
              | Some next \<Rightarrow>
                  let k3 = switch_to prev next k2
                  in Some (if prev \<noteq> Some next \<and> should_free_prev_task then k3\<lparr>pending_cleanup_task := prev\<rparr> else k3)))"

definition wake_due :: "u64 \<Rightarrow> task_t \<Rightarrow> bool" where
  "wake_due now t \<longleftrightarrow> t_state t = TASK_BLOCKED \<and> 0 < t_sleep_until_ms t \<and> t_sleep_until_ms t \<le> now"

text \<open>The timer interrupt: \<open>freq\<close> and \<open>now\<close> are the results of \<^verbatim>\<open>timer_get_frequency\<close> and \<^verbatim>\<open>timer_get_uptime_ms\<close>.\<close>

definition task_timer_tick :: "u32 \<Rightarrow> u64 \<Rightarrow> 'a sched_state_scheme \<Rightarrow> 'a sched_state_scheme" where
  "task_timer_tick freq now k =
     (if \<not> scheduler_initialized k then k
      else case current_task k of None \<Rightarrow> k
      | Some cur \<Rightarrow>
          let k1 = upd_task cur (\<lambda>t. t\<lparr>t_runtime_ms := t_runtime_ms t + ucast (1000 div freq)\<rparr>) k;
              woken = filter (\<lambda>i. wake_due now (task_pool k1 ! i)) [0..<length (task_pool k1)];
              k2 = fold (\<lambda>i. upd_task i (\<lambda>t. t\<lparr>t_sleep_until_ms := 0, t_state := TASK_READY\<rparr>)) woken k1;
              k3 = fold ready_queue_add woken k2;
              ticks = tick_count k3 + 1
          in k3\<lparr>tick_count := (if t_time_slice (task_pool k3 ! cur) \<le> ticks then 0 else ticks)\<rparr>)"

text \<open>The children of a task that ends: zombies are released, the others lose their parent.\<close>

definition children :: "nat \<Rightarrow> 'a sched_state_scheme \<Rightarrow> nat list" where
  "children i k = filter (\<lambda>j. t_state (task_pool k ! j) \<noteq> TASK_UNUSED \<and> t_parent (task_pool k ! j) = Some i) [0..<length (task_pool k)]"

definition has_live_parent :: "nat \<Rightarrow> 'a sched_state_scheme \<Rightarrow> bool" where
  "has_live_parent i k \<longleftrightarrow>
     (case t_parent (task_pool k ! i) of Some p \<Rightarrow> t_state (task_pool k ! p) \<noteq> TASK_UNUSED | None \<Rightarrow> False)"

definition task_exit :: "u32 \<Rightarrow> kernel_state \<Rightarrow> kernel_state option" where
  "task_exit exit_code k =
     (case current_task k of None \<Rightarrow> None
      | Some cur \<Rightarrow>
          let k1 = upd_task cur (\<lambda>t. t\<lparr>t_exit_code := exit_code, t_exit_signaled := False\<rparr>) k;
              is_zombie = (\<lambda>j. t_state (task_pool k1 ! j) = TASK_ZOMBIE);
              k2 = fold (\<lambda>j. upd_task j (\<lambda>t. t\<lparr>t_parent := None\<rparr>)) (filter (\<lambda>j. \<not> is_zombie j) (children cur k1)) k1
          in case foldM task_free (filter is_zombie (children cur k1)) k2 of None \<Rightarrow> None
             | Some k3 \<Rightarrow>
                 let k4 = upd_task cur (\<lambda>t. t\<lparr>t_state := (if has_live_parent cur k3 then TASK_ZOMBIE else TASK_TERMINATED)\<rparr>) k3
                 in task_schedule (k4\<lparr>current_task := None\<rparr>))"

definition task_yield :: "kernel_state \<Rightarrow> kernel_state option" where
  "task_yield = task_schedule"

definition task_sleep :: "u64 \<Rightarrow> u32 \<Rightarrow> kernel_state \<Rightarrow> kernel_state option" where
  "task_sleep now ms k =
     (case current_task k of None \<Rightarrow> Some k
      | Some cur \<Rightarrow>
          if ms = 0 then Some k
          else task_schedule (upd_task cur (\<lambda>t. t\<lparr>t_sleep_until_ms := now + ucast ms, t_state := TASK_BLOCKED\<rparr>) k))"

definition task_block :: "kernel_state \<Rightarrow> kernel_state option" where
  "task_block k =
     (case current_task k of None \<Rightarrow> Some k
      | Some cur \<Rightarrow> task_schedule (upd_task cur (\<lambda>t. t\<lparr>t_state := TASK_BLOCKED\<rparr>) k))"

definition task_wakeup :: "'a sched_state_scheme \<Rightarrow> 'a sched_state_scheme" where
  "task_wakeup k =
     (case find (\<lambda>i. t_state (task_pool k ! i) = TASK_BLOCKED \<and> t_sleep_until_ms (task_pool k ! i) = 0) [0..<length (task_pool k)] of
        None \<Rightarrow> k
      | Some i \<Rightarrow> ready_queue_add i (upd_task i (\<lambda>t. t\<lparr>t_state := TASK_READY\<rparr>) k))"

section \<open>Creation\<close>

definition take_name :: "string \<Rightarrow> string" where
  "take_name name = take 31 name"

definition kernel_context :: "u32 \<Rightarrow> u32 \<Rightarrow> u32 \<Rightarrow> cpu_context_t" where
  "kernel_context enter stack dir = zero_context\<lparr>ctx_cs := 0x08, ctx_ss := 0x10, ctx_ds := 0x10, ctx_es := 0x10,
     ctx_fs := 0x10, ctx_gs := 0x10, ctx_esp := stack - 4, ctx_eip := enter, ctx_eflags := 0x202, ctx_cr3 := dir\<rparr>"

definition user_context :: "u32 \<Rightarrow> u32 \<Rightarrow> u32 \<Rightarrow> cpu_context_t" where
  "user_context eip esp dir = zero_context\<lparr>ctx_cs := 0x1B, ctx_ss := 0x23, ctx_ds := 0x23, ctx_es := 0x23,
     ctx_fs := 0x23, ctx_gs := 0x23, ctx_esp := esp, ctx_eip := eip, ctx_eflags := 0x202, ctx_cr3 := dir\<rparr>"

text \<open>The first word on the stack of a kernel thread is its entry point; \<open>enter\<close> is the address of
  \<^verbatim>\<open>task_enter_kernel_thread\<close>.\<close>

definition push_entry :: "u32 \<Rightarrow> u32 \<Rightarrow> kernel_state \<Rightarrow> kernel_state" where
  "push_entry stack entry = on_heap (\<lambda>h. h\<lparr>heap_mem := store32 (heap_mem h) (stack - 4) entry\<rparr>)"

definition task_create_kernel_thread :: "u32 \<Rightarrow> u32 \<Rightarrow> string \<Rightarrow> kernel_state \<Rightarrow> (u32 \<times> kernel_state) option" where
  "task_create_kernel_thread enter entry name k =
     (if entry = 0 then Some (0, k)
      else case task_alloc k of
        (None, k1) \<Rightarrow> Some (0, k1)
      | (Some i, k1) \<Rightarrow> do {
          let k2 = upd_task i (\<lambda>t. t\<lparr>t_name := take_name name, t_is_user_process := False\<rparr>) k1;
          (base, k3) \<leftarrow> k_malloc KERNEL_STACK_SIZE k2;
          (if base = 0 then map_option (Pair 0) (task_free i k3)
           else
             let stack = base + KERNEL_STACK_SIZE; dir = current_dir_phys (k_mm k3);
                 k4 = upd_task i (\<lambda>t. t\<lparr>t_kernel_stack_base := base, t_kernel_stack := stack, t_page_dir_phys := dir,
                        t_context := kernel_context enter stack dir, t_fd_table := None, t_cwd := ''/'',
                        t_state := TASK_READY\<rparr>) (push_entry stack entry k3)
             in Some (t_pid (task_pool k4 ! i), ready_queue_add i k4)) })"

text \<open>Undoing the pages of a stack that could not be completed.\<close>

definition undo_stack_page :: "u32 \<Rightarrow> u32 \<Rightarrow> nat \<Rightarrow> mm_state \<Rightarrow> mm_state" where
  "undo_stack_page dir bottom j m =
     (case vmm_unmap_page_in_directory dir (bottom + of_nat j * 4096) m of (phys, m1) \<Rightarrow>
        if phys \<noteq> 0 then on_pmm (pmm_free_frame (ucast phys)) m1 else m1)"

definition undo_stack :: "u32 \<Rightarrow> u32 \<Rightarrow> u32 \<Rightarrow> nat \<Rightarrow> mm_state \<Rightarrow> mm_state" where
  "undo_stack dir bottom high i m =
     vmm_cleanup_empty_page_tables dir bottom high (fold (undo_stack_page dir bottom) [0..<i] m)"

fun stack_pages :: "u32 \<Rightarrow> u32 \<Rightarrow> u32 \<Rightarrow> nat list \<Rightarrow> mm_state \<Rightarrow> bool \<times> mm_state" where
  "stack_pages dir bottom high [] m = (True, m)"
| "stack_pages dir bottom high (i # is) m =
     (case pmm_alloc_frame (mm_pmm m) of (phys, p) \<Rightarrow>
        if phys = PADDR_INVALID then (False, undo_stack dir bottom high i (m\<lparr>mm_pmm := p\<rparr>))
        else case vmm_map_page_in_directory dir (bottom + of_nat i * 4096) (ucast phys) (PAGE_PRESENT OR PAGE_WRITE OR PAGE_USER)
                    (m\<lparr>mm_pmm := p\<rparr>) of
               (False, m1) \<Rightarrow> (False, undo_stack dir bottom high i (on_pmm (pmm_free_frame phys) m1))
             | (True, m1) \<Rightarrow> stack_pages dir bottom high is m1)"

definition task_setup_user_stack :: "nat \<Rightarrow> kernel_state \<Rightarrow> bool \<times> kernel_state" where
  "task_setup_user_stack i k =
     (if \<not> t_is_user_process (task_pool k ! i) then (False, k)
      else let bottom = USER_SPACE_END - USER_STACK_SIZE in
        case stack_pages (t_page_dir_phys (task_pool k ! i)) bottom USER_SPACE_END [0..<256] (k_mm k) of
          (False, m) \<Rightarrow> (False, set_mm m k)
        | (True, m) \<Rightarrow>
            (True, upd_task i (\<lambda>t. t\<lparr>t_user_stack_base := bottom, t_user_stack := USER_SPACE_END - 4\<rparr>) (set_mm m k)))"

text \<open>Standard input, output and error of a new process, if \<^verbatim>\<open>/dev/console\<close> exists.\<close>

definition open_console :: "u32 list \<Rightarrow> fd_table_t \<Rightarrow> vfs_state \<Rightarrow> (fd_table_t \<times> vfs_state) option" where
  "open_console flags table v = do {
     (console, v1) \<leftarrow> vfs_path_to_node ''/dev/console'' v;
     (if console = 0 then Some (table, v1)
      else do {
        (table', s) \<leftarrow> foldM (\<lambda>fl (t, s). map_option snd (fd_table_alloc t console fl s)) flags (table, vs_fs v1);
        s' \<leftarrow> vfs_release_node console s;
        Some (table', v1\<lparr>vs_fs := s'\<rparr>) }) }"

abbreviation (input) HEAP_GAP :: u32 where "HEAP_GAP \<equiv> 0x800000"

definition task_create_user_process :: "string \<Rightarrow> u32 \<Rightarrow> u32 \<Rightarrow> u32 \<Rightarrow> kernel_state \<Rightarrow> (u32 \<times> kernel_state) option" where
  "task_create_user_process name entry_point dir_phys program_end k =
     (if entry_point = 0 then Some (0, k)
      else case task_alloc k of
        (None, k1) \<Rightarrow> Some (0, k1)
      | (Some i, k1) \<Rightarrow> do {
          let k2 = upd_task i (\<lambda>t. t\<lparr>t_name := take_name name, t_is_user_process := True, t_user_entry := entry_point\<rparr>) k1;
          (base, k3) \<leftarrow> k_malloc KERNEL_STACK_SIZE k2;
          (if base = 0 then map_option (Pair 0) (task_free i k3)
           else
             let k4 = upd_task i (\<lambda>t. t\<lparr>t_kernel_stack_base := base, t_kernel_stack := base + KERNEL_STACK_SIZE,
                                        t_page_dir_phys := dir_phys\<rparr>) k3
             in case task_setup_user_stack i k4 of
                  (False, k5) \<Rightarrow> map_option (Pair 0) (task_free i (on_heap (kfree base) k5))
                | (True, k5) \<Rightarrow> do {
                    let k6 = upd_task i (\<lambda>t. t\<lparr>t_context := user_context entry_point (t_user_stack t) dir_phys\<rparr>) k5;
                    (a, k7) \<leftarrow> k_malloc SIZEOF_FD_TABLE k6;
                    (if a = 0 then map_option (Pair 0) (task_free i (on_heap (kfree base) k7))
                     else do {
                       (table, v) \<leftarrow> open_console [0, 0, 0] fd_table_init (k_vfs k7);
                       let k8 = upd_task i (\<lambda>t. t\<lparr>t_fd_table := Some (a, table), t_heap_start := PAGE_ALIGN_UP program_end,
                                  t_heap_end := PAGE_ALIGN_UP program_end, t_heap_max := t_user_stack_base t - HEAP_GAP,
                                  t_cwd := ''/'', t_state := TASK_READY\<rparr>) (k7\<lparr>k_vfs := v\<rparr>);
                       Some (t_pid (task_pool k8 ! i), ready_queue_add i k8) }) }) })"

definition task_create_idle :: "u32 \<Rightarrow> u32 \<Rightarrow> kernel_state \<Rightarrow> (bool \<times> kernel_state) option" where
  "task_create_idle enter idle_loop k = do {
     let k1 = (upd_task 0 (\<lambda>_. zero_task\<lparr>t_name := ''idle'', t_state := TASK_READY, t_priority := -1,
                 t_time_slice := DEFAULT_TIME_SLICE\<rparr>) k)\<lparr>idle_task := Some 0\<rparr>;
     (base, k2) \<leftarrow> k_malloc KERNEL_STACK_SIZE k1;
     (if base = 0 then Some (False, k2)
      else
        let stack = base + KERNEL_STACK_SIZE; dir = current_dir_phys (k_mm k2);
            k3 = upd_task 0 (\<lambda>t. t\<lparr>t_kernel_stack_base := base, t_kernel_stack := stack, t_page_dir_phys := dir,
                   t_context := kernel_context enter stack dir, t_cwd := ''/''\<rparr>) (push_entry stack idle_loop k2)
        in Some (True, k3\<lparr>active_task_count := active_task_count k3 + 1\<rparr>)) }"

definition task_init :: "u32 \<Rightarrow> u32 \<Rightarrow> kernel_state \<Rightarrow> kernel_state option" where
  "task_init enter idle_loop k = do {
     (ok, k1) \<leftarrow> task_create_idle enter idle_loop
        (k\<lparr>task_pool := replicate MAX_TASKS zero_task, current_task := None, ready_queue_head := None,
           ready_queue_tail := None, next_pid := 1, active_task_count := 0\<rparr>);
     Some (if ok then k1\<lparr>scheduler_initialized := True\<rparr> else k1) }"

section \<open>Process system calls\<close>

text \<open>The registers of the caller on its kernel stack; \<open>frame\<close> lists them from index 0.\<close>

definition fork_context :: "u32 list \<Rightarrow> u32 \<Rightarrow> cpu_context_t" where
  "fork_context frame dir =
     \<lparr>ctx_gs = 0x23, ctx_fs = 0x23, ctx_es = 0x23, ctx_ds = 0x23, ctx_edi = frame ! 6, ctx_esi = frame ! 5, ctx_ebp = frame ! 7,
      ctx_ebx = frame ! 2, ctx_edx = frame ! 4, ctx_ecx = frame ! 3, ctx_eax = 0, ctx_eip = frame ! 8, ctx_cs = 0x1B,
      ctx_eflags = (frame ! 10 AND 0xCD5) OR 0x202, ctx_esp = frame ! 11, ctx_ss = 0x23, ctx_cr3 = dir\<rparr>"

definition pde_corrupted :: "mm_state \<Rightarrow> u32 \<Rightarrow> nat \<Rightarrow> bool" where
  "pde_corrupted m dir_phys i \<longleftrightarrow>
     (let pde = read_entry m (dir_pfn dir_phys) i; phys = pde AND 0xFFFFF000
      in pde AND 1 \<noteq> 0 \<and> (phys = 0 \<or> 0x80000000 \<le> phys))"

definition free_dir :: "u32 \<Rightarrow> kernel_state \<Rightarrow> kernel_state" where
  "free_dir dir k = set_mm (vmm_free_page_directory (task_dirs k) dir (k_mm k)) k"

text \<open>The child's copy of the descriptor table; \<^verbatim>\<open>fd_table_copy\<close> only fails for null pointers.\<close>

definition fork_fds :: "nat \<Rightarrow> kernel_state \<Rightarrow> ((u32 \<times> fd_table_t) option option \<times> kernel_state) option" where
  "fork_fds parent k =
     (case t_fd_table (task_pool k ! parent) of
        None \<Rightarrow> Some (Some None, k)
      | Some (_, table) \<Rightarrow> do {
          (a, k1) \<leftarrow> k_malloc SIZEOF_FD_TABLE k;
          (if a = 0 then Some (None, k1)
           else do {
             (copy, s) \<leftarrow> fd_table_copy table fd_table_init (vs_fs (k_vfs k1));
             Some (Some (Some (a, copy)), set_files s k1) }) })"

definition sys_fork :: "u32 list \<Rightarrow> kernel_state \<Rightarrow> (u32 \<times> kernel_state) option" where
  "sys_fork frame k =
     (case current_task k of None \<Rightarrow> Some (-1, k)
      | Some parent \<Rightarrow>
          let p = task_pool k ! parent in
          if \<not> t_is_user_process p then Some (-1, k)
          else if info_free_frames (pmm_info (mm_pmm (k_mm k))) < 64 then Some (-12, k)
          else if \<exists>i \<in> set [0..<10]. pde_corrupted (k_mm k) (t_page_dir_phys p) i then Some (-1, k)
          else case task_alloc k of
            (None, k1) \<Rightarrow> Some (-12, k1)
          | (Some i, k1) \<Rightarrow>
              (case vmm_clone_page_directory (task_dirs k1) (t_page_dir_phys p) (k_mm k1) of (dir, m) \<Rightarrow>
                 let k2 = upd_task i (\<lambda>t. t\<lparr>t_name := take_name (t_name p @ ''-child''), t_is_user_process := True,
                            t_priority := t_priority p, t_time_slice := DEFAULT_TIME_SLICE, t_page_dir_phys := dir\<rparr>) (set_mm m k1)
                 in if dir = 0 then map_option (Pair (-12)) (task_free i k2)
                    else do {
                      (base, k3) \<leftarrow> k_malloc KERNEL_STACK_SIZE k2;
                      (if base = 0 then map_option (Pair (-12)) (task_free i (free_dir dir k3))
                       else do {
                         let k4 = upd_task i (\<lambda>t. t\<lparr>t_kernel_stack_base := base, t_kernel_stack := base + KERNEL_STACK_SIZE,
                                    t_user_stack_base := t_user_stack_base p, t_user_stack := t_user_stack p,
                                    t_user_entry := t_user_entry p, t_heap_start := t_heap_start p,
                                    t_heap_end := t_heap_end p, t_heap_max := t_heap_max p,
                                    t_context := fork_context frame dir\<rparr>) k3;
                         (fds, k5) \<leftarrow> fork_fds parent k4;
                         (case fds of
                            None \<Rightarrow> map_option (Pair (-12)) (task_free i (free_dir dir (on_heap (kfree base) k5)))
                          | Some table \<Rightarrow>
                              let k6 = upd_task i (\<lambda>t. t\<lparr>t_fd_table := table, t_cwd := t_cwd p, t_parent := Some parent,
                                         t_state := TASK_READY\<rparr>) k5
                              in Some (t_pid (task_pool k6 ! i), ready_queue_add i k6)) }) }))"

definition sys_getpid :: "'a sched_state_scheme \<Rightarrow> u32" where
  "sys_getpid k = (case current_task k of None \<Rightarrow> -1 | Some i \<Rightarrow> t_pid (task_pool k ! i))"

definition sys_getppid :: "'a sched_state_scheme \<Rightarrow> u32" where
  "sys_getppid k =
     (case current_task k of None \<Rightarrow> 0
      | Some i \<Rightarrow> if has_live_parent i k then t_pid (task_pool k ! the (t_parent (task_pool k ! i))) else 0)"

definition sys_nanosleep :: "u64 \<Rightarrow> u32 \<Rightarrow> u32 \<Rightarrow> kernel_state \<Rightarrow> (u32 \<times> kernel_state) option" where
  "sys_nanosleep now tv_sec tv_nsec k =
     (if 1000000000 \<le> tv_nsec then Some (-1, k)
      else let total_ns = ucast tv_sec * 1000000000 + ucast tv_nsec :: u64; ms = total_ns div 1000000;
               total_ms = (if ms = 0 \<and> 0 < total_ns then 1 else ms);
               sleep_ms = (if 0xFFFFFFFF < total_ms then 0xFFFFFFFF else total_ms)
           in if 0 < total_ms then map_option (Pair 0) (task_sleep now (ucast sleep_ms) k) else Some (0, k))"

text \<open>The loop over the children in \<^verbatim>\<open>sys_kill\<close>, which finds them by process numbers below 256.\<close>

definition kill_child :: "nat \<Rightarrow> nat \<Rightarrow> kernel_state \<Rightarrow> kernel_state option" where
  "kill_child target n k =
     (case task_get_by_pid (of_nat n) k of None \<Rightarrow> Some k
      | Some j \<Rightarrow>
          if t_parent (task_pool k ! j) = Some target
          then if t_state (task_pool k ! j) = TASK_ZOMBIE then task_free j k
               else Some (upd_task j (\<lambda>t. t\<lparr>t_parent := None\<rparr>) k)
          else Some k)"

definition sys_kill :: "u32 \<Rightarrow> u32 \<Rightarrow> kernel_state \<Rightarrow> (u32 \<times> kernel_state) option" where
  "sys_kill pid signal k =
     (case current_task k of None \<Rightarrow> Some (-1, k)
      | Some cur \<Rightarrow>
          if pid = 0 then Some (-1, k)
          else case task_get_by_pid pid k of None \<Rightarrow> Some (-1, k)
          | Some target \<Rightarrow>
              if t_state (task_pool k ! target) \<in> {TASK_UNUSED, TASK_TERMINATED} then Some (-1, k)
              else if t_state (task_pool k ! target) = TASK_ZOMBIE then Some (0, k)
              else do {
                k2 \<leftarrow> foldM (kill_child target) [0..<MAX_TASKS]
                       (upd_task target (\<lambda>t. t\<lparr>t_exit_code := 128 + signal, t_exit_signaled := True, t_exit_signal := signal\<rparr>) k);
                let k3 = (if t_state (task_pool k2 ! target) = TASK_READY then ready_queue_remove target k2 else k2);
                (if has_live_parent target k3
                 then Some (0, upd_task target (\<lambda>t. t\<lparr>t_state := TASK_ZOMBIE\<rparr>) k3)
                 else if target = cur then Some (0, upd_task target (\<lambda>t. t\<lparr>t_state := TASK_TERMINATED\<rparr>) k3)
                 else map_option (Pair 0) (task_free target k3)) })"

text \<open>One round of the loop of \<^verbatim>\<open>sys_waitpid\<close>; \<open>Wait_yield\<close> is the call of \<^verbatim>\<open>task_yield\<close> before the next round.\<close>

datatype wait_result = Wait_ret u32 "u32 option" | Wait_yield

definition waited_for :: "nat \<Rightarrow> int \<Rightarrow> 'a sched_state_scheme \<Rightarrow> nat list" where
  "waited_for cur pid k = filter (\<lambda>j. 0 < pid \<longrightarrow> sint (t_pid (task_pool k ! j)) = pid) (children cur k)"

definition exit_status :: "task_t \<Rightarrow> u32" where
  "exit_status t = (if t_exit_signaled t then t_exit_signal t AND 0xFF else push_bit 8 (t_exit_code t AND 0xFF))"

definition sys_waitpid :: "int \<Rightarrow> u32 \<Rightarrow> kernel_state \<Rightarrow> (wait_result \<times> kernel_state) option" where
  "sys_waitpid pid options k =
     (case current_task k of None \<Rightarrow> Some (Wait_ret (-1) None, k)
      | Some cur \<Rightarrow>
          (case find (\<lambda>j. t_state (task_pool k ! j) = TASK_ZOMBIE) (waited_for cur pid k) of
             Some j \<Rightarrow>
               map_option (Pair (Wait_ret (t_pid (task_pool k ! j)) (Some (exit_status (task_pool k ! j))))) (task_free j k)
           | None \<Rightarrow>
               if waited_for cur pid k = [] then Some (Wait_ret (-1) None, k)
               else if options AND 1 \<noteq> 0 then Some (Wait_ret 0 None, k)
               else map_option (Pair Wait_yield) (task_yield k)))"

end
