(* ===== verification/Sched.thy ===== *)
theory Sched
  imports Task
begin

text \<open>
  The invariant of the task layer, that the ready queue holds exactly the ready tasks, and the proof that every
  operation of \<^verbatim>\<open>task.c\<close> and every modelled process call keeps it.
\<close>

section \<open>What the queue operations leave alone\<close>

definition strip :: "task_t \<Rightarrow> task_t" where
  "strip t = t\<lparr>t_next := None, t_prev := None\<rparr>"

text \<open>Two states that differ only in the queue links and its ends.\<close>

definition same_tasks :: "'a sched_state_scheme \<Rightarrow> 'a sched_state_scheme \<Rightarrow> bool" where
  "same_tasks k k' \<longleftrightarrow> map strip (task_pool k') = map strip (task_pool k) \<and> current_task k' = current_task k
     \<and> next_pid k' = next_pid k \<and> active_task_count k' = active_task_count k \<and> idle_task k' = idle_task k
     \<and> scheduler_initialized k' = scheduler_initialized k \<and> pending_cleanup_task k' = pending_cleanup_task k"

lemma map_strip_update [simp]:
  "map strip (t[i := (t ! i)\<lparr>t_next := a\<rparr>]) = map strip t"
  "map strip (t[i := (t ! i)\<lparr>t_prev := b\<rparr>]) = map strip t"
  "map strip (t[i := (t ! i)\<lparr>t_next := a, t_prev := b\<rparr>]) = map strip t"
proof -
  have *: "strip v = strip (t ! i) \<Longrightarrow> map strip (t[i := v]) = map strip t" for v
    by (metis list_update_id map_update)
  show "map strip (t[i := (t ! i)\<lparr>t_next := a\<rparr>]) = map strip t"
    "map strip (t[i := (t ! i)\<lparr>t_prev := b\<rparr>]) = map strip t"
    "map strip (t[i := (t ! i)\<lparr>t_next := a, t_prev := b\<rparr>]) = map strip t"
    by (rule *, simp add: strip_def)+
qed

lemma same_tasks_refl [simp]: "same_tasks k k"
  by (simp add: same_tasks_def)

lemma same_tasks_trans: "same_tasks a b \<Longrightarrow> same_tasks b c \<Longrightarrow> same_tasks a c"
  by (simp add: same_tasks_def)

lemma same_add: "same_tasks k (ready_queue_add i k)"
  by (auto simp: same_tasks_def ready_queue_add_def Let_def split: option.split)

lemma same_remove: "same_tasks k (ready_queue_remove i k)"
  by (auto simp: same_tasks_def ready_queue_remove_def Let_def split: option.split)

lemma same_pop: "same_tasks k (snd (ready_queue_pop k))"
  by (auto simp: same_tasks_def ready_queue_pop_def Let_def split: option.split)

lemma same_tasksD:
  assumes "same_tasks k k'"
  shows "length (task_pool k') = length (task_pool k)" "current_task k' = current_task k" "next_pid k' = next_pid k"
    "active_task_count k' = active_task_count k" "idle_task k' = idle_task k"
    "scheduler_initialized k' = scheduler_initialized k" "pending_cleanup_task k' = pending_cleanup_task k"
    "i < length (task_pool k) \<Longrightarrow> strip (task_pool k' ! i) = strip (task_pool k ! i)"
proof -
  show l: "length (task_pool k') = length (task_pool k)" using assms map_eq_imp_length_eq unfolding same_tasks_def by blast
  show "strip (task_pool k' ! i) = strip (task_pool k ! i)" if i: "i < length (task_pool k)"
  proof -
    have "map strip (task_pool k') ! i = map strip (task_pool k) ! i" using assms by (simp add: same_tasks_def)
    then show ?thesis using i l by simp
  qed
qed (use assms in \<open>simp_all add: same_tasks_def\<close>)

lemma strip_sel:
  assumes "strip t = strip u"
  shows "t_state t = t_state u" "t_pid t = t_pid u" "t_parent t = t_parent u" "t_sleep_until_ms t = t_sleep_until_ms u"
    "t_time_slice t = t_time_slice u" "t_is_user_process t = t_is_user_process u" "t_page_dir_phys t = t_page_dir_phys u"
  using assms by (cases t; cases u; simp add: strip_def)+

abbreviation st :: "'a sched_state_scheme \<Rightarrow> nat \<Rightarrow> task_state" where
  "st k i \<equiv> t_state (task_pool k ! i)"

lemma same_st: "same_tasks k k' \<Longrightarrow> i < length (task_pool k) \<Longrightarrow> st k' i = st k i"
  using same_tasksD(8) strip_sel(1) by blast

section \<open>The invariant\<close>

definition ready_set :: "'a sched_state_scheme \<Rightarrow> nat set" where
  "ready_set k = {i. i < length (task_pool k) \<and> i \<noteq> 0 \<and> st k i = TASK_READY}"

definition queue_set :: "'a sched_state_scheme \<Rightarrow> nat set \<Rightarrow> bool" where
  "queue_set k R \<longleftrightarrow> (\<exists>xs. queue_is k xs \<and> set xs = R)"

definition live_pcbs :: "'a sched_state_scheme \<Rightarrow> nat set" where
  "live_pcbs k = {i. i < length (task_pool k) \<and> st k i \<noteq> TASK_UNUSED}"

text \<open>Initialised, with the idle task in slot 0; the current task is running or has been killed; the task to be
  released has terminated; the counter is the number of control blocks in use; no task is its own parent.\<close>

definition pool_ok :: "'a sched_state_scheme \<Rightarrow> bool" where
  "pool_ok k \<longleftrightarrow> scheduler_initialized k \<and> idle_task k = Some 0 \<and> length (task_pool k) = 256 \<and> st k 0 \<in> {TASK_READY, TASK_RUNNING}
     \<and> t_pid (task_pool k ! 0) = 0
     \<and> (\<forall>i. current_task k = Some i \<longrightarrow> i < 256 \<and> st k i \<notin> {TASK_UNUSED, TASK_READY})
     \<and> (\<forall>i. pending_cleanup_task k = Some i \<longrightarrow> i < 256 \<and> i \<noteq> 0 \<and> st k i = TASK_TERMINATED \<and> current_task k \<noteq> Some i)
     \<and> unat (active_task_count k) = card (live_pcbs k)
     \<and> (\<forall>i<256. t_parent (task_pool k ! i) \<noteq> Some i)"

definition sched_inv :: "'a sched_state_scheme \<Rightarrow> bool" where
  "sched_inv k \<longleftrightarrow> pool_ok k \<and> queue_set k (ready_set k) \<and> (\<forall>i. current_task k = Some i \<longrightarrow> st k i \<noteq> TASK_BLOCKED)"

lemma same_pid: "same_tasks k k' \<Longrightarrow> i < length (task_pool k) \<Longrightarrow> t_pid (task_pool k' ! i) = t_pid (task_pool k ! i)"
  using same_tasksD(8) strip_sel(2) by blast

lemma same_parent: "same_tasks k k' \<Longrightarrow> i < length (task_pool k) \<Longrightarrow> t_parent (task_pool k' ! i) = t_parent (task_pool k ! i)"
  using same_tasksD(8) strip_sel(3) by blast

lemma same_ready [simp]: "same_tasks k k' \<Longrightarrow> ready_set k' = ready_set k"
  using same_st[of k k'] same_tasksD(1)[of k k'] by (auto simp: ready_set_def)

lemma same_live [simp]: "same_tasks k k' \<Longrightarrow> live_pcbs k' = live_pcbs k"
  using same_st[of k k'] same_tasksD(1)[of k k'] by (auto simp: live_pcbs_def)

lemma same_pool_ok:
  assumes "same_tasks k k'"
  shows "pool_ok k' = pool_ok k"
proof -
  note d = same_tasksD[OF assms] and s = same_st[OF assms]
  note u = same_live[OF assms]
  note pid = same_pid[OF assms] and par = same_parent[OF assms]
  have "pool_ok k'" if "pool_ok k" using that s pid par by (auto simp: pool_ok_def d u)
  moreover have "pool_ok k" if p: "pool_ok k'"
  proof -
    have l: "length (task_pool k) = 256" using p d(1) by (simp add: pool_ok_def)
    have s': "i < 256 \<Longrightarrow> st k' i = st k i" for i using s l by simp
    have par': "i < 256 \<Longrightarrow> t_parent (task_pool k' ! i) = t_parent (task_pool k ! i)" for i using par l by simp
    show ?thesis using p s' par' pid[of 0] l d u by (auto simp: pool_ok_def)
  qed
  ultimately show ?thesis by blast
qed

lemma queue_set_add:
  assumes "queue_set k R" "i \<notin> R" "i < length (task_pool k)" "st k i = TASK_READY"
  shows "queue_set (ready_queue_add i k) (insert i R)"
proof -
  obtain xs where xs: "queue_is k xs" "set xs = R" using assms(1) by (auto simp: queue_set_def)
  have "queue_is (ready_queue_add i k) (xs @ [i])" by (rule queue_add) (use xs assms in auto)
  then show ?thesis using xs unfolding queue_set_def by (intro exI[of _ "xs @ [i]"]) auto
qed

lemma queue_set_remove:
  assumes "queue_set k R" "i \<in> R"
  shows "queue_set (ready_queue_remove i k) (R - {i})"
proof -
  obtain xs where xs: "queue_is k xs" "set xs = R" using assms(1) by (auto simp: queue_set_def)
  then have "queue_is (ready_queue_remove i k) (remove1 i xs)" using queue_remove[of k xs i] assms by auto
  then show ?thesis using xs unfolding queue_set_def by (intro exI[of _ "remove1 i xs"]) (auto simp: queue_is_def)
qed

lemma queue_set_pop:
  assumes "queue_set k R"
  shows "ready_queue_pop k = (None, k) \<and> R = {} \<or> (\<exists>i. fst (ready_queue_pop k) = Some i \<and> i \<in> R \<and> queue_set (snd (ready_queue_pop k)) (R - {i}))"
proof -
  obtain xs where xs: "queue_is k xs" "set xs = R" using assms by (auto simp: queue_set_def)
  show ?thesis
  proof (cases xs)
    case (Cons y ys)
    then have "fst (ready_queue_pop k) = Some y" "queue_is (snd (ready_queue_pop k)) ys" using queue_pop[of k y ys] xs by auto
    moreover have "set ys = R - {y}" "y \<in> R" using xs Cons by (auto simp: queue_is_def)
    ultimately show ?thesis unfolding queue_set_def by blast
  qed (use xs queue_pop_empty[of k] in auto)
qed

lemma nth_update: "xs[i := v] ! j = (if i = j \<and> j < length xs then v else xs ! j)"
  by (cases "i < length xs") (auto simp: nth_list_update list_update_beyond not_less)

text \<open>An update of a control block that is not queued, or that keeps the links.\<close>

lemma queue_set_upd:
  assumes "queue_set k R" "i \<notin> R \<or> t_next (f (task_pool k ! i)) = t_next (task_pool k ! i) \<and> t_prev (f (task_pool k ! i)) = t_prev (task_pool k ! i)"
  shows "queue_set (upd_task i f k) R"
proof -
  obtain xs where xs: "queue_is k xs" "set xs = R" using assms(1) by (auto simp: queue_set_def)
  have "dll ((task_pool k)[i := f (task_pool k ! i)]) None xs None = dll (task_pool k) None xs None"
    using assms(2) xs by (intro dll_links) (auto simp: nth_update)
  then have "queue_is (upd_task i f k) xs" using xs(1) by (simp add: queue_is_def)
  then show ?thesis using xs(2) by (auto simp: queue_set_def)
qed

lemma queue_set_cong:
  "task_pool k' = task_pool k \<Longrightarrow> ready_queue_head k' = ready_queue_head k \<Longrightarrow> ready_queue_tail k' = ready_queue_tail k
   \<Longrightarrow> queue_set k' R = queue_set k R"
  by (simp add: queue_set_def queue_is_def)

lemma set_upds [simp]:
  "ready_set (k\<lparr>pending_cleanup_task := x\<rparr>) = ready_set k" "live_pcbs (k\<lparr>pending_cleanup_task := x\<rparr>) = live_pcbs k"
  "queue_set (k\<lparr>pending_cleanup_task := x\<rparr>) R = queue_set k R"
  "ready_set (k\<lparr>current_task := y\<rparr>) = ready_set k" "live_pcbs (k\<lparr>current_task := y\<rparr>) = live_pcbs k"
  "queue_set (k\<lparr>current_task := y\<rparr>) R = queue_set k R"
  "ready_set (k\<lparr>tick_count := n\<rparr>) = ready_set k" "live_pcbs (k\<lparr>tick_count := n\<rparr>) = live_pcbs k"
  "queue_set (k\<lparr>tick_count := n\<rparr>) R = queue_set k R"
  by (simp_all add: ready_set_def live_pcbs_def queue_set_def queue_is_def)

lemma st_upd: "st (upd_task i f k) j = (if i = j \<and> j < length (task_pool k) then t_state (f (task_pool k ! i)) else st k j)"
  by (simp add: nth_update)

lemma ready_upd:
  assumes "i < length (task_pool k)"
  shows "ready_set (upd_task i f k) =
    (if t_state (f (task_pool k ! i)) = TASK_READY \<and> i \<noteq> 0 then insert i (ready_set k) else ready_set k - {i})"
  using assms by (auto simp: ready_set_def nth_update)

lemma live_upd:
  assumes "i < length (task_pool k)"
  shows "live_pcbs (upd_task i f k) =
    (if t_state (f (task_pool k ! i)) = TASK_UNUSED then live_pcbs k - {i} else insert i (live_pcbs k))"
  using assms by (auto simp: live_pcbs_def nth_update)

lemma finite_live [simp]: "finite (live_pcbs k)"
  by (simp add: live_pcbs_def)

lemma pool_ok_upd:
  assumes "pool_ok k" "i < 256" "st k i \<noteq> TASK_UNUSED" "t_state (f (task_pool k ! i)) \<noteq> TASK_UNUSED"
    "i = 0 \<Longrightarrow> t_state (f (task_pool k ! i)) \<in> {TASK_READY, TASK_RUNNING} \<and> t_pid (f (task_pool k ! i)) = t_pid (task_pool k ! i)"
    "current_task k = Some i \<Longrightarrow> t_state (f (task_pool k ! i)) \<noteq> TASK_READY"
    "pending_cleanup_task k = Some i \<Longrightarrow> t_state (f (task_pool k ! i)) = TASK_TERMINATED"
    "t_parent (f (task_pool k ! i)) = t_parent (task_pool k ! i) \<or> t_parent (f (task_pool k ! i)) \<noteq> Some i"
  shows "pool_ok (upd_task i f k)"
proof -
  have "live_pcbs (upd_task i f k) = live_pcbs k"
    using assms by (subst live_upd) (auto simp: live_pcbs_def pool_ok_def)
  then show ?thesis using assms by (auto simp: pool_ok_def nth_update)
qed

lemma clear_pcb_sel [simp]:
  "task_pool (clear_pcb i k) = (task_pool k)[i := zero_task]" "current_task (clear_pcb i k) = current_task k"
  "ready_queue_head (clear_pcb i k) = ready_queue_head k" "ready_queue_tail (clear_pcb i k) = ready_queue_tail k"
  "next_pid (clear_pcb i k) = next_pid k" "active_task_count (clear_pcb i k) = active_task_count k - 1"
  "idle_task (clear_pcb i k) = idle_task k" "scheduler_initialized (clear_pcb i k) = scheduler_initialized k"
  "pending_cleanup_task (clear_pcb i k) = pending_cleanup_task k"
  by (simp_all add: clear_pcb_def)

lemma zero_task_sel [simp]: "t_state zero_task = TASK_UNUSED" "t_next zero_task = None" "t_prev zero_task = None" "t_parent zero_task = None"
  by (simp_all add: zero_task_def)

lemma pool_ok_clear:
  assumes p: "pool_ok k" and i: "i < 256" "i \<noteq> 0" "st k i \<noteq> TASK_UNUSED" "current_task k \<noteq> Some i" "pending_cleanup_task k \<noteq> Some i"
  shows "pool_ok (clear_pcb i k)"
proof -
  have l: "live_pcbs (clear_pcb i k) = live_pcbs k - {i}"
    using p i by (auto simp: live_pcbs_def nth_update pool_ok_def)
  have m: "i \<in> live_pcbs k" using p i by (simp add: live_pcbs_def pool_ok_def)
  then have "0 < card (live_pcbs k)" by (auto simp: card_gt_0_iff)
  then have "unat (active_task_count k - 1) = card (live_pcbs k - {i})"
    using p m unat_dec[of "active_task_count k"] by (simp add: pool_ok_def)
  then show ?thesis using p i l by (auto simp: pool_ok_def nth_update)
qed

lemma ready_clear: "ready_set (clear_pcb i k) = ready_set k - {i}"
  by (auto simp: ready_set_def nth_update)

lemma queue_set_clear: "queue_set k R \<Longrightarrow> i \<notin> R \<Longrightarrow> queue_set (clear_pcb i k) R"
proof -
  assume "queue_set k R" "i \<notin> R"
  then have "queue_set (upd_task i (\<lambda>_. zero_task) k) R" by (intro queue_set_upd) auto
  then show ?thesis by (simp add: clear_pcb_def queue_set_def queue_is_def)
qed

section \<open>Releasing resources does not touch the pool\<close>

text \<open>Two kernel states with the same scheduler state.\<close>

definition same_sched :: "kernel_state \<Rightarrow> kernel_state \<Rightarrow> bool" where
  "same_sched k k' \<longleftrightarrow> sched_state.truncate k' = sched_state.truncate k"

lemma same_sched_refl [simp]: "same_sched k k"
  by (simp add: same_sched_def)

lemma same_sched_trans: "same_sched a b \<Longrightarrow> same_sched b c \<Longrightarrow> same_sched a c"
  by (simp add: same_sched_def)

lemma same_schedD:
  assumes "same_sched k k'"
  shows "task_pool k' = task_pool k" "current_task k' = current_task k" "ready_queue_head k' = ready_queue_head k"
    "ready_queue_tail k' = ready_queue_tail k" "next_pid k' = next_pid k" "active_task_count k' = active_task_count k"
    "idle_task k' = idle_task k" "scheduler_initialized k' = scheduler_initialized k"
    "pending_cleanup_task k' = pending_cleanup_task k" "tick_count k' = tick_count k"
  using assms by (simp_all add: same_sched_def sched_state.truncate_def)

lemma same_sched_ops [simp]:
  "same_sched k (on_heap f k)" "same_sched k (set_mm m k)" "same_sched k (set_files s k)"
  by (simp_all add: same_sched_def sched_state.truncate_def on_heap_def set_mm_def set_files_def)

lemma same_sched_vfs: "same_sched k (k\<lparr>k_vfs := v\<rparr>)"
  by (simp add: same_sched_def sched_state.truncate_def)

lemma same_sched_malloc: "k_malloc n k = Some (a, k') \<Longrightarrow> same_sched k k'"
  by (auto simp: k_malloc_def same_sched_def sched_state.truncate_def)

lemma same_sched_free:
  "same_sched k (free_stack t k)" "same_sched k (free_space t k)" "free_fds t k = Some k' \<Longrightarrow> same_sched k k'"
  "same_sched k (free_dir d k)"
  by (auto simp: free_stack_def free_space_def free_dir_def free_fds_def intro: same_sched_trans[OF same_sched_ops(3) same_sched_ops(1)]
      split: option.splits)

lemma same_sched_task_free:
  assumes "task_free i k = Some k'"
  shows "\<exists>k1. same_sched k k1 \<and> k' = clear_pcb i k1"
proof -
  obtain k2 where k2: "free_fds (task_pool k ! i) (free_stack (task_pool k ! i) k) = Some k2"
      "k' = clear_pcb i (free_space (task_pool k ! i) k2)"
    using assms by (auto simp: task_free_def Let_def)
  have "same_sched k (free_space (task_pool k ! i) k2)"
    using same_sched_trans[OF same_sched_trans[OF same_sched_free(1) same_sched_free(3)[OF k2(1)]] same_sched_free(2)] .
  then show ?thesis using k2(2) by blast
qed

lemma same_sched_inv:
  assumes "same_sched k k'"
  shows "pool_ok k' = pool_ok k" "queue_set k' R = queue_set k R" "ready_set k' = ready_set k" "sched_inv k' = sched_inv k"
  using same_schedD[OF assms] by (simp_all add: pool_ok_def queue_set_def queue_is_def ready_set_def live_pcbs_def sched_inv_def)

section \<open>Scheduling keeps the invariant\<close>

lemma switch_to_facts:
  shows "length (task_pool (switch_to prev nxt k)) = length (task_pool k)"
    "st (switch_to prev nxt k) j = (if j = nxt \<and> j < length (task_pool k) then TASK_RUNNING else st k j)"
    "t_next (task_pool (switch_to prev nxt k) ! j) = t_next (task_pool k ! j)"
    "t_prev (task_pool (switch_to prev nxt k) ! j) = t_prev (task_pool k ! j)"
    "t_pid (task_pool (switch_to prev nxt k) ! j) = t_pid (task_pool k ! j)"
    "t_parent (task_pool (switch_to prev nxt k) ! j) = t_parent (task_pool k ! j)"
    "current_task (switch_to prev nxt k) = Some nxt"
    "ready_queue_head (switch_to prev nxt k) = ready_queue_head k" "ready_queue_tail (switch_to prev nxt k) = ready_queue_tail k"
    "next_pid (switch_to prev nxt k) = next_pid k" "active_task_count (switch_to prev nxt k) = active_task_count k"
    "idle_task (switch_to prev nxt k) = idle_task k" "scheduler_initialized (switch_to prev nxt k) = scheduler_initialized k"
    "pending_cleanup_task (switch_to prev nxt k) = pending_cleanup_task k"
  by (auto simp: switch_to_def Let_def set_mm_def nth_update split: option.split)

lemma queue_set_links:
  assumes "length (task_pool k') = length (task_pool k)" "\<And>j. t_next (task_pool k' ! j) = t_next (task_pool k ! j)"
    "\<And>j. t_prev (task_pool k' ! j) = t_prev (task_pool k ! j)" "ready_queue_head k' = ready_queue_head k" "ready_queue_tail k' = ready_queue_tail k"
  shows "queue_set k' R = queue_set k R"
proof -
  have "dll (task_pool k') None xs None = dll (task_pool k) None xs None" for xs
    using assms by (intro dll_links) auto
  then show ?thesis using assms by (simp add: queue_set_def queue_is_def)
qed

text \<open>After the previous task has been put aside: no task is current.\<close>

abbreviation no_current :: "'a sched_state_scheme \<Rightarrow> 'a sched_state_scheme" where
  "no_current k \<equiv> k\<lparr>current_task := None\<rparr>"

lemma switch_inv:
  assumes p: "pool_ok (no_current k)" "pending_cleanup_task k = None" and q: "queue_set k (ready_set k - {nxt})"
    and n: "nxt < 256" "nxt = 0 \<or> st k nxt = TASK_READY"
  shows "sched_inv (switch_to prev nxt k)"
proof -
  note f = switch_to_facts[of prev nxt k]
  have l: "length (task_pool k) = 256" using p by (simp add: pool_ok_def)
  have u: "st k nxt \<noteq> TASK_UNUSED" using p n by (auto simp: pool_ok_def)
  have live: "live_pcbs (switch_to prev nxt k) = live_pcbs k"
    using u n l by (auto simp: live_pcbs_def f(1,2))
  have "pool_ok (switch_to prev nxt k)"
    using p n l by (auto simp: pool_ok_def f live)
  moreover have "ready_set (switch_to prev nxt k) = ready_set k - {nxt}"
    by (auto simp: ready_set_def f(1,2))
  moreover have "queue_set (switch_to prev nxt k) (ready_set k - {nxt})"
    using q queue_set_links[of "switch_to prev nxt k" k] f by simp
  ultimately show ?thesis using n l f(2,7) by (auto simp: sched_inv_def)
qed

lemma cleanup_inv:
  assumes p: "pool_ok k" and q: "queue_set k (ready_set k)" and c: "cleanup_pending k = Some k1"
  shows "pool_ok k1" "queue_set k1 (ready_set k1)" "pending_cleanup_task k1 = None" "current_task k1 = current_task k"
    "next_pid k1 = next_pid k"
    "\<And>j. pending_cleanup_task k \<noteq> Some j \<Longrightarrow> task_pool k1 ! j = task_pool k ! j"
    "\<And>j. pending_cleanup_task k = Some j \<Longrightarrow> task_pool k1 ! j = zero_task"
proof -
  have "pool_ok k1 \<and> queue_set k1 (ready_set k1) \<and> pending_cleanup_task k1 = None \<and> current_task k1 = current_task k \<and> next_pid k1 = next_pid k
    \<and> (\<forall>j. pending_cleanup_task k \<noteq> Some j \<longrightarrow> task_pool k1 ! j = task_pool k ! j)
    \<and> (\<forall>j. pending_cleanup_task k = Some j \<longrightarrow> task_pool k1 ! j = zero_task)"
  proof (cases "pending_cleanup_task k")
    case None
    then show ?thesis using c p q by (simp add: cleanup_pending_def)
  next
    case (Some i)
    let ?t = "task_pool k ! i" and ?k0 = "k\<lparr>pending_cleanup_task := None\<rparr>"
    obtain k2 where k2: "free_fds ?t (free_stack ?t (clear_pcb i ?k0)) = Some k2" "k1 = free_space ?t k2"
      using c Some by (auto simp: cleanup_pending_def Let_def)
    have s: "same_sched (clear_pcb i ?k0) k1"
      using same_sched_trans[OF same_sched_trans[OF same_sched_free(1) same_sched_free(3)[OF k2(1)]] same_sched_free(2)] k2(2) by simp
    have i: "i < 256" "i \<noteq> 0" "st k i = TASK_TERMINATED" "current_task k \<noteq> Some i" "length (task_pool k) = 256" using p Some by (auto simp: pool_ok_def)
    have "pool_ok ?k0" using p by (simp add: pool_ok_def live_pcbs_def)
    then have "pool_ok (clear_pcb i ?k0)" using i by (intro pool_ok_clear) auto
    moreover have "i \<notin> ready_set k" using i by (simp add: ready_set_def)
    then have "queue_set (clear_pcb i ?k0) (ready_set k)" using q queue_set_clear[of ?k0 "ready_set k" i] queue_set_cong[of ?k0 k] by simp
    moreover have "ready_set (clear_pcb i ?k0) = ready_set k" using i by (auto simp: ready_set_def nth_update)
    ultimately show ?thesis using same_sched_inv[OF s] same_schedD[OF s] Some i by (auto simp: nth_update)
  qed
  then show "pool_ok k1" "queue_set k1 (ready_set k1)" "pending_cleanup_task k1 = None" "current_task k1 = current_task k"
    "next_pid k1 = next_pid k"
    "\<And>j. pending_cleanup_task k \<noteq> Some j \<Longrightarrow> task_pool k1 ! j = task_pool k ! j"
    "\<And>j. pending_cleanup_task k = Some j \<Longrightarrow> task_pool k1 ! j = zero_task" by auto
qed

lemma same_no_current: "same_tasks k k' \<Longrightarrow> same_tasks (no_current k) (no_current k')"
  by (simp add: same_tasks_def)

lemma pool_no_current: "pool_ok k \<Longrightarrow> pool_ok (no_current k)"
  by (simp add: pool_ok_def live_pcbs_def)

lemma requeue_inv:
  assumes p: "pool_ok k" and q: "queue_set k (ready_set k)"
  shows "pool_ok (no_current (requeue_prev k))" "queue_set (requeue_prev k) (ready_set (requeue_prev k))"
    "current_task (requeue_prev k) = current_task k" "pending_cleanup_task (requeue_prev k) = pending_cleanup_task k"
    "idle_task (requeue_prev k) = idle_task k" "next_pid (requeue_prev k) = next_pid k"
    "\<And>j. j < 256 \<Longrightarrow> st (requeue_prev k) j = (if current_task k = Some j \<and> j \<noteq> 0 \<and> st k j = TASK_RUNNING then TASK_READY else st k j)"
proof -
  have l: "length (task_pool k) = 256" "idle_task k = Some 0" using p by (simp_all add: pool_ok_def)
  have "pool_ok (no_current (requeue_prev k)) \<and> queue_set (requeue_prev k) (ready_set (requeue_prev k))
    \<and> current_task (requeue_prev k) = current_task k \<and> pending_cleanup_task (requeue_prev k) = pending_cleanup_task k
    \<and> idle_task (requeue_prev k) = idle_task k \<and> next_pid (requeue_prev k) = next_pid k
    \<and> (\<forall>j<256. st (requeue_prev k) j = (if current_task k = Some j \<and> j \<noteq> 0 \<and> st k j = TASK_RUNNING then TASK_READY else st k j))"
  proof (cases "\<exists>i. current_task k = Some i \<and> i \<noteq> 0 \<and> st k i = TASK_RUNNING")
    case False
    then have "requeue_prev k = k" using l by (auto simp: requeue_prev_def split: option.split)
    moreover have "st k j = (if current_task k = Some j \<and> j \<noteq> 0 \<and> st k j = TASK_RUNNING then TASK_READY else st k j)" for j
      using False by auto
    ultimately show ?thesis using p q pool_no_current[OF p] by simp
  next
    case True
    then obtain i where i: "current_task k = Some i" "i \<noteq> 0" "st k i = TASK_RUNNING" by blast
    define k1 where "k1 = upd_task i (\<lambda>t. t\<lparr>t_state := TASK_READY\<rparr>) k"
    have r: "requeue_prev k = ready_queue_add i k1" using i l by (simp add: requeue_prev_def k1_def)
    have lt: "i < 256" using p i by (simp add: pool_ok_def)
    have nr: "i \<notin> ready_set k" using i by (simp add: ready_set_def)
    have "no_current k1 = upd_task i (\<lambda>t. t\<lparr>t_state := TASK_READY\<rparr>) (no_current k)" by (simp add: k1_def upd_task_def)
    moreover have "pending_cleanup_task k \<noteq> Some i" using p i by (auto simp: pool_ok_def)
    then have "pool_ok (upd_task i (\<lambda>t. t\<lparr>t_state := TASK_READY\<rparr>) (no_current k))"
      using pool_no_current[OF p] i lt by (intro pool_ok_upd) auto
    ultimately have "pool_ok (no_current k1)" by simp
    then have a: "pool_ok (no_current (ready_queue_add i k1))" using same_pool_ok[OF same_no_current[OF same_add]] by blast
    have "queue_set k1 (ready_set k)" unfolding k1_def using q nr by (intro queue_set_upd) auto
    then have b: "queue_set (ready_queue_add i k1) (insert i (ready_set k))"
      using nr lt l by (intro queue_set_add) (auto simp: k1_def)
    have c: "ready_set (ready_queue_add i k1) = insert i (ready_set k)"
      using same_ready[OF same_add[of k1 i]] lt l i by (simp add: k1_def ready_upd)
    have s: "st (ready_queue_add i k1) j = (if j = i then TASK_READY else st k j)" if "j < 256" for j
      using same_st[OF same_add, of j k1 i] that l by (simp add: k1_def nth_update)
    note d = same_tasksD[OF same_add[of k1 i]]
    show ?thesis using a b c s d i by (auto simp: r k1_def)
  qed
  then show "pool_ok (no_current (requeue_prev k))" "queue_set (requeue_prev k) (ready_set (requeue_prev k))"
    "current_task (requeue_prev k) = current_task k" "pending_cleanup_task (requeue_prev k) = pending_cleanup_task k"
    "idle_task (requeue_prev k) = idle_task k" "next_pid (requeue_prev k) = next_pid k"
    "\<And>j. j < 256 \<Longrightarrow> st (requeue_prev k) j = (if current_task k = Some j \<and> j \<noteq> 0 \<and> st k j = TASK_RUNNING then TASK_READY else st k j)"
    by blast+
qed

text \<open>The effect of \<^verbatim>\<open>task_schedule\<close> on the states of the tasks.\<close>

definition after_schedule :: "'a sched_state_scheme \<Rightarrow> nat \<Rightarrow> nat \<Rightarrow> task_state" where
  "after_schedule k nxt j =
     (if j = nxt then TASK_RUNNING
      else if current_task k = Some j \<and> j \<noteq> 0 \<and> st k j = TASK_RUNNING then TASK_READY
      else if pending_cleanup_task k = Some j then TASK_UNUSED else st k j)"

lemma task_schedule_inv:
  assumes p: "pool_ok k" and q: "queue_set k (ready_set k)" and s: "task_schedule k = Some k'"
  shows "sched_inv k' \<and> next_pid k' = next_pid k
    \<and> (\<exists>nxt. current_task k' = Some nxt \<and> (nxt = 0 \<or> st k nxt = TASK_READY \<or> current_task k = Some nxt \<and> st k nxt = TASK_RUNNING)
        \<and> (\<forall>j<256. st k' j = after_schedule k nxt j)
        \<and> pending_cleanup_task k' = (case current_task k of
             Some c \<Rightarrow> if c \<noteq> 0 \<and> st k c = TASK_TERMINATED then Some c else None | None \<Rightarrow> None))"
proof -
  have init: "scheduler_initialized k" using p by (simp add: pool_ok_def)
  obtain k1 where c1: "cleanup_pending k = Some k1" using s init by (auto simp: task_schedule_def split: option.splits)
  note k1 = cleanup_inv[OF p q c1]
  define k2 where "k2 = requeue_prev k1"
  note r = requeue_inv[OF k1(1,2), folded k2_def]
  have len: "length (task_pool k2) = 256" using r(1) by (simp add: pool_ok_def)
  have idle: "idle_task k1 = Some 0" "idle_task k2 = Some 0" using k1(1) r(5) by (auto simp: pool_ok_def)
  define nxt where "nxt = (case fst (ready_queue_pop k2) of Some i \<Rightarrow> i | None \<Rightarrow> 0)"
  define k3 where "k3 = snd (ready_queue_pop k2)"
  have same: "same_tasks k2 k3" unfolding k3_def by (rule same_pop)
  note sd = same_tasksD[OF same]
  have q3: "queue_set k3 (ready_set k3 - {nxt})" and n: "nxt < 256" "nxt = 0 \<or> st k2 nxt = TASK_READY"
  proof -
    have "queue_set k3 (ready_set k3 - {nxt}) \<and> nxt < 256 \<and> (nxt = 0 \<or> st k2 nxt = TASK_READY)"
      using queue_set_pop[OF r(2)]
    proof
      assume "ready_queue_pop k2 = (None, k2) \<and> ready_set k2 = {}"
      then show ?thesis using r(2) by (simp add: nxt_def k3_def)
    next
      assume "\<exists>i. fst (ready_queue_pop k2) = Some i \<and> i \<in> ready_set k2 \<and> queue_set (snd (ready_queue_pop k2)) (ready_set k2 - {i})"
      then obtain i where i: "fst (ready_queue_pop k2) = Some i" "i \<in> ready_set k2" "queue_set k3 (ready_set k2 - {i})"
        unfolding k3_def by blast
      then have "nxt = i" "i < 256" "st k2 i = TASK_READY" using len by (simp_all add: nxt_def ready_set_def)
      then show ?thesis using i same_ready[OF same] by simp
    qed
    then show "queue_set k3 (ready_set k3 - {nxt})" "nxt < 256" "nxt = 0 \<or> st k2 nxt = TASK_READY" by auto
  qed
  have st3: "st k3 j = st k2 j" if "j < 256" for j using same_st[OF same] that len by simp
  define sw where "sw = switch_to (current_task k1) nxt k3"
  define dying where "dying = (case current_task k1 of Some i \<Rightarrow> i \<noteq> 0 \<and> st k1 i = TASK_TERMINATED | None \<Rightarrow> False)"
  have pop: "ready_queue_pop (requeue_prev k1) = (fst (ready_queue_pop k2), k3)" by (simp add: k2_def k3_def)
  have e: "(case fst (ready_queue_pop k2) of Some i \<Rightarrow> Some i | None \<Rightarrow> idle_task k3) = Some nxt"
    using idle sd(5) by (simp add: nxt_def split: option.split)
  have td: "(case current_task k1 of Some i \<Rightarrow> current_task k1 \<noteq> idle_task k1 \<and> st k1 i = TASK_TERMINATED | None \<Rightarrow> False) = dying"
    using idle by (simp add: dying_def split: option.split)
  have k': "k' = (if current_task k1 \<noteq> Some nxt \<and> dying then sw\<lparr>pending_cleanup_task := current_task k1\<rparr> else sw)"
    using s unfolding task_schedule_def Let_def c1 by (simp only: init not_True_eq_False if_False option.case pop prod.case e td sw_def option.inject)
  have pk: "pending_cleanup_task k3 = None" using sd(7) r(4) k1(3) by simp
  have "pool_ok (no_current k3)" using same_pool_ok[OF same_no_current[OF same]] r(1) by simp
  then have inv: "sched_inv sw" unfolding sw_def using switch_inv[OF _ pk q3 n(1)] n st3 by auto
  note f = switch_to_facts[of "current_task k1" nxt k3, folded sw_def]
  have stk1: "st k1 j = (if pending_cleanup_task k = Some j then TASK_UNUSED else st k j)" for j
    using k1(6,7)[of j] by auto
  have pc: "pending_cleanup_task k = Some i \<Longrightarrow> current_task k \<noteq> Some i \<and> i \<noteq> 0" for i using p by (auto simp: pool_ok_def)
  have nready: "nxt = 0 \<or> st k nxt = TASK_READY \<or> current_task k = Some nxt \<and> st k nxt = TASK_RUNNING"
    using n r(7)[OF n(1)] stk1[of nxt] k1(4) pc by (auto split: if_splits)
  have sts: "st sw j = after_schedule k nxt j" if "j < 256" for j
    using f(2)[of j] sd(1) len st3[OF that] r(7)[OF that] stk1[of j] k1(4) pc that by (auto simp: after_schedule_def)
  have tm: "dying = (case current_task k of Some c \<Rightarrow> c \<noteq> 0 \<and> st k c = TASK_TERMINATED | None \<Rightarrow> False)"
    using k1(4) stk1 pc by (auto simp: dying_def split: option.split)
  have "current_task k1 \<noteq> Some nxt" if "dying"
    using that n r(7)[OF n(1)] unfolding dying_def by (auto split: option.splits)
  then have k2': "k' = (if dying then sw\<lparr>pending_cleanup_task := current_task k\<rparr> else sw)" using k' k1(4) by auto
  have "sched_inv k'"
  proof (cases "dying")
    case True
    then obtain c where c: "current_task k = Some c" "c \<noteq> 0" "st k c = TASK_TERMINATED" using tm by (auto split: option.splits)
    have c2: "c < 256" "c \<noteq> nxt" using p c nready by (auto simp: pool_ok_def)
    then have "st sw c = TASK_TERMINATED" using sts[of c] c pc[of c] by (auto simp: after_schedule_def)
    then have "sched_inv (sw\<lparr>pending_cleanup_task := Some c\<rparr>)"
      using inv c c2 f(7) by (simp add: sched_inv_def pool_ok_def)
    then show ?thesis using True k2' c by simp
  qed (use inv k2' in simp)
  moreover have "pending_cleanup_task sw = None" using f(14) pk by simp
  then have "pending_cleanup_task k' = (case current_task k of Some c \<Rightarrow> if c \<noteq> 0 \<and> st k c = TASK_TERMINATED then Some c else None | None \<Rightarrow> None)"
    using k2' tm by (auto split: option.split)
  moreover have "next_pid k' = next_pid k" "current_task k' = Some nxt" "task_pool k' = task_pool sw"
    using k2' f(7,10) sd(3) r(6) k1(5) by auto
  ultimately show ?thesis using sts nready by auto
qed

section \<open>The other operations keep the invariant\<close>

text \<open>A terminated task that is neither current nor waiting for its release.\<close>

definition dead :: "'a sched_state_scheme \<Rightarrow> nat \<Rightarrow> bool" where
  "dead k i \<longleftrightarrow> i < 256 \<and> st k i = TASK_TERMINATED \<and> current_task k \<noteq> Some i \<and> pending_cleanup_task k \<noteq> Some i"

definition keeps_dead :: "'a sched_state_scheme \<Rightarrow> 'a sched_state_scheme \<Rightarrow> bool" where
  "keeps_dead k k' \<longleftrightarrow> (\<forall>i. dead k i \<longrightarrow> dead k' i)"

lemma keeps_dead_refl [simp]: "keeps_dead k k"
  by (simp add: keeps_dead_def)

lemma keeps_dead_trans: "keeps_dead a b \<Longrightarrow> keeps_dead b c \<Longrightarrow> keeps_dead a c"
  by (simp add: keeps_dead_def)

lemma keeps_dead_upd: "st k j \<noteq> TASK_TERMINATED \<or> t_state (f (task_pool k ! j)) = TASK_TERMINATED \<Longrightarrow> keeps_dead k (upd_task j f k)"
  by (auto simp: keeps_dead_def dead_def nth_update)

lemma keeps_dead_same: "same_tasks k k' \<Longrightarrow> length (task_pool k) = 256 \<Longrightarrow> keeps_dead k k'"
  using same_st[of k k'] by (auto simp: keeps_dead_def dead_def same_tasks_def)

lemma keeps_dead_sched: "same_sched k k' \<Longrightarrow> keeps_dead k k'"
  using same_schedD[of k k'] by (simp add: keeps_dead_def dead_def)

lemma keeps_dead_clear: "st k i \<noteq> TASK_TERMINATED \<Longrightarrow> keeps_dead k (clear_pcb i k)"
  by (auto simp: keeps_dead_def dead_def nth_update)

lemma sched_invD:
  assumes "sched_inv k"
  shows "pool_ok k" "queue_set k (ready_set k)" "length (task_pool k) = 256" "idle_task k = Some 0"
    "st k 0 = TASK_READY \<or> st k 0 = TASK_RUNNING" "t_pid (task_pool k ! 0) = 0"
    "current_task k = Some i \<Longrightarrow> i < 256 \<and> st k i \<noteq> TASK_UNUSED \<and> st k i \<noteq> TASK_READY \<and> st k i \<noteq> TASK_BLOCKED"
    "pending_cleanup_task k = Some i \<Longrightarrow> i < 256 \<and> i \<noteq> 0 \<and> st k i = TASK_TERMINATED \<and> current_task k \<noteq> Some i"
  using assms by (auto simp: sched_inv_def pool_ok_def)

lemma no_self_parent: "sched_inv k \<Longrightarrow> i < 256 \<Longrightarrow> t_parent (task_pool k ! i) \<noteq> Some i"
  by (simp add: sched_inv_def pool_ok_def)

lemma schedule_keeps:
  assumes "pool_ok k" "queue_set k (ready_set k)" "task_schedule k = Some k'"
  shows "sched_inv k' \<and> keeps_dead k k'"
proof -
  obtain nxt where n: "sched_inv k'" "current_task k' = Some nxt" "nxt = 0 \<or> st k nxt = TASK_READY \<or> current_task k = Some nxt \<and> st k nxt = TASK_RUNNING"
    "\<forall>j<256. st k' j = after_schedule k nxt j"
    "pending_cleanup_task k' = (case current_task k of Some c \<Rightarrow> if c \<noteq> 0 \<and> st k c = TASK_TERMINATED then Some c else None | None \<Rightarrow> None)"
    using task_schedule_inv[OF assms] by blast
  have "st k 0 \<noteq> TASK_TERMINATED" using assms(1) by (auto simp: pool_ok_def)
  then have "keeps_dead k k'" using n by (auto simp: keeps_dead_def dead_def after_schedule_def split: option.splits if_splits)
  then show ?thesis using n by blast
qed

text \<open>Changing fields other than the state and the links.\<close>

definition plain :: "(task_t \<Rightarrow> task_t) \<Rightarrow> bool" where
  "plain f \<longleftrightarrow> (\<forall>t. t_state (f t) = t_state t \<and> t_next (f t) = t_next t \<and> t_prev (f t) = t_prev t \<and> t_pid (f t) = t_pid t
     \<and> t_parent (f t) \<in> {t_parent t, None})"

lemma plain_upd:
  assumes "plain f"
  shows "pool_ok k \<Longrightarrow> pool_ok (upd_task i f k)" "queue_set (upd_task i f k) R = queue_set k R" "ready_set (upd_task i f k) = ready_set k"
    "sched_inv k \<Longrightarrow> sched_inv (upd_task i f k)" "keeps_dead k (upd_task i f k)" "st (upd_task i f k) j = st k j"
proof -
  show s: "st (upd_task i f k) j = st k j" for j using assms by (auto simp: nth_update plain_def)
  have p0: "t_pid (task_pool (upd_task i f k) ! j) = t_pid (task_pool k ! j)" for j using assms by (auto simp: nth_update plain_def)
  show r: "ready_set (upd_task i f k) = ready_set k" using s unfolding ready_set_def by simp
  have l: "live_pcbs (upd_task i f k) = live_pcbs k" using s unfolding live_pcbs_def by simp
  show q: "queue_set (upd_task i f k) R = queue_set k R" for R
    using assms by (intro queue_set_links) (auto simp: nth_update plain_def)
  have par: "t_parent (task_pool (upd_task i f k) ! j) \<in> {t_parent (task_pool k ! j), None}" for j
    using assms by (auto simp: nth_update plain_def)
  show p: "pool_ok (upd_task i f k)" if "pool_ok k"
  proof -
    have "t_parent (task_pool (upd_task i f k) ! j) \<noteq> Some j" if "j < 256" for j
    proof -
      have "t_parent (task_pool k ! j) \<noteq> Some j" using \<open>pool_ok k\<close> that by (simp add: pool_ok_def)
      then show ?thesis using par[of j] by (auto simp del: upd_task_sel(1))
    qed
    then show ?thesis using that unfolding pool_ok_def s l p0 by simp
  qed
  show "sched_inv (upd_task i f k)" if "sched_inv k" using that p unfolding sched_inv_def q r s by simp
  show "keeps_dead k (upd_task i f k)" unfolding keeps_dead_def dead_def s by simp
qed

lemma plain_fields [simp]:
  "plain (\<lambda>t. t\<lparr>t_parent := None\<rparr>)" "plain (\<lambda>t. t\<lparr>t_exit_code := b, t_exit_signaled := c\<rparr>)"
  "plain (\<lambda>t. t\<lparr>t_exit_code := b, t_exit_signaled := c, t_exit_signal := d\<rparr>)" "plain (\<lambda>t. t\<lparr>t_runtime_ms := t_runtime_ms t + r\<rparr>)"
  by (simp_all add: plain_def)

lemma plain_keeps:
  assumes "plain f" "sched_inv k"
  shows "sched_inv (upd_task i f k)" "keeps_dead k (upd_task i f k)" "\<forall>j. st (upd_task i f k) j = st k j"
  using plain_upd(4)[OF assms] plain_upd(5,6)[OF assms(1)] by blast+

text \<open>The current task stops running.\<close>

lemma leave_current:
  assumes inv: "sched_inv k" and c: "current_task k = Some c" "c \<noteq> 0"
    and f: "\<And>t. t_state (f t) = s \<and> t_next (f t) = t_next t \<and> t_prev (f t) = t_prev t \<and> t_parent (f t) = t_parent t" "s \<notin> {TASK_UNUSED, TASK_READY}"
  shows "pool_ok (upd_task c f k)" "queue_set (upd_task c f k) (ready_set (upd_task c f k))" "keeps_dead k (upd_task c f k)"
proof -
  note i = sched_invD[OF inv]
  have p: "pending_cleanup_task k \<noteq> Some c" using i(8)[of c] c by auto
  have u: "c < 256" "st k c \<noteq> TASK_UNUSED" "st k c \<noteq> TASK_READY" using i(7)[OF c(1)] by simp_all
  then show "pool_ok (upd_task c f k)" using i(1) c f p by (intro pool_ok_upd) auto
  have "ready_set (upd_task c f k) = ready_set k"
    using u i(3) f c by (subst ready_upd) (auto simp: ready_set_def)
  then show "queue_set (upd_task c f k) (ready_set (upd_task c f k))"
    using i(2) f by (simp add: queue_set_upd)
  show "keeps_dead k (upd_task c f k)" using c by (auto simp: keeps_dead_def dead_def nth_update)
qed

lemma task_block_keeps:
  assumes "sched_inv k" "current_task k \<noteq> Some 0" "task_block k = Some k'"
  shows "sched_inv k' \<and> keeps_dead k k'"
proof (cases "current_task k")
  case (Some c)
  have "task_schedule (upd_task c (\<lambda>t. t\<lparr>t_state := TASK_BLOCKED\<rparr>) k) = Some k'" using assms Some by (simp add: task_block_def)
  moreover note l = leave_current[OF assms(1) Some, of "\<lambda>t. t\<lparr>t_state := TASK_BLOCKED\<rparr>" TASK_BLOCKED]
  ultimately show ?thesis using schedule_keeps[OF l(1,2)] keeps_dead_trans[OF l(3)] assms(2) Some by simp
qed (use assms in \<open>simp add: task_block_def\<close>)

lemma task_sleep_keeps:
  assumes "sched_inv k" "current_task k \<noteq> Some 0" "task_sleep now ms k = Some k'"
  shows "sched_inv k' \<and> keeps_dead k k'"
proof (cases "ms = 0 \<or> current_task k = None")
  case False
  then obtain c where c: "current_task k = Some c" "c \<noteq> 0" using assms(2) by auto
  let ?f = "\<lambda>t. t\<lparr>t_sleep_until_ms := now + ucast ms, t_state := TASK_BLOCKED\<rparr>"
  have "task_schedule (upd_task c ?f k) = Some k'" using assms False c by (simp add: task_sleep_def)
  moreover note l = leave_current[OF assms(1) c, of ?f TASK_BLOCKED]
  ultimately show ?thesis using schedule_keeps[OF l(1,2)] keeps_dead_trans[OF l(3)] by simp
qed (use assms in \<open>auto simp: task_sleep_def split: option.splits\<close>)

text \<open>A blocked task becomes ready.\<close>

lemma wake_one:
  assumes inv: "sched_inv k" and i: "i < 256" "st k i = TASK_BLOCKED"
  shows "sched_inv (ready_queue_add i (upd_task i (\<lambda>t. t\<lparr>t_state := TASK_READY\<rparr>) k))"
    "keeps_dead k (ready_queue_add i (upd_task i (\<lambda>t. t\<lparr>t_state := TASK_READY\<rparr>) k))"
proof -
  note d = sched_invD[OF inv]
  let ?k = "upd_task i (\<lambda>t. t\<lparr>t_state := TASK_READY\<rparr>) k"
  have "i \<noteq> 0" using d(5) i by (cases "i = 0") auto
  then have nz: "i \<noteq> 0" "current_task k \<noteq> Some i" "pending_cleanup_task k \<noteq> Some i" "i \<notin> ready_set k"
    using d(7)[of i] d(8)[of i] i by (auto simp: ready_set_def)
  have p: "pool_ok ?k" using d(1) i nz by (intro pool_ok_upd) auto
  have "queue_set ?k (ready_set k)" using d(2) by (intro queue_set_upd) auto
  then have q: "queue_set (ready_queue_add i ?k) (insert i (ready_set k))"
    using nz i d(3) by (intro queue_set_add) auto
  have r: "ready_set (ready_queue_add i ?k) = insert i (ready_set k)"
    using same_ready[OF same_add[of ?k i]] i nz d(3) by (simp add: ready_upd)
  have c: "st (ready_queue_add i ?k) j \<noteq> TASK_BLOCKED" if "current_task k = Some j" for j
    using that same_st[OF same_add, of j ?k i] d(3) d(7)[OF that] nz by (auto simp: nth_update)
  show "sched_inv (ready_queue_add i ?k)"
    using same_pool_ok[OF same_add[of ?k i]] p q r c same_tasksD(2)[OF same_add[of ?k i]] by (auto simp: sched_inv_def)
  have "keeps_dead k ?k" by (rule keeps_dead_upd) (use i in simp)
  then show "keeps_dead k (ready_queue_add i ?k)"
    using keeps_dead_trans keeps_dead_same[OF same_add[of ?k i]] d(3) by simp
qed

lemma task_wakeup_keeps:
  assumes "sched_inv k"
  shows "sched_inv (task_wakeup k) \<and> keeps_dead k (task_wakeup k)"
proof (cases "find (\<lambda>i. st k i = TASK_BLOCKED \<and> t_sleep_until_ms (task_pool k ! i) = 0) [0..<length (task_pool k)]")
  case (Some i)
  then have "st k i = TASK_BLOCKED" "i < 256"
    using sched_invD(3)[OF assms] by (auto dest!: find_Some_set)
  then show ?thesis using wake_one[OF assms] Some by (simp add: task_wakeup_def)
qed (use assms in \<open>simp add: task_wakeup_def\<close>)

text \<open>The timer wakes all sleeping tasks whose time has come: first their states change, then they are queued.\<close>

lemma fold_add_queue:
  assumes "queue_set k R" "distinct ws" "set ws \<inter> R = {}" "\<forall>i\<in>set ws. i < length (task_pool k) \<and> st k i = TASK_READY"
  shows "queue_set (fold ready_queue_add ws k) (R \<union> set ws) \<and> same_tasks k (fold ready_queue_add ws k)"
  using assms
proof (induction ws arbitrary: k R)
  case (Cons w ws)
  let ?k = "ready_queue_add w k"
  have s: "same_tasks k ?k" by (rule same_add)
  have "queue_set ?k (insert w R)" using Cons.prems by (intro queue_set_add) auto
  then have "queue_set (fold ready_queue_add ws ?k) (insert w R \<union> set ws) \<and> same_tasks ?k (fold ready_queue_add ws ?k)"
    using Cons.prems same_st[OF s] same_tasksD(1)[OF s] by (intro Cons.IH) auto
  then show ?case using same_tasks_trans[OF s] by simp
qed simp

lemma fold_ready_states:
  assumes "pool_ok k" "queue_set k R" "\<forall>i\<in>set ws. i < 256 \<and> i \<noteq> 0 \<and> current_task k \<noteq> Some i \<and> pending_cleanup_task k \<noteq> Some i \<and> st k i \<noteq> TASK_UNUSED"
  shows "let k' = fold (\<lambda>i. upd_task i (\<lambda>t. t\<lparr>t_sleep_until_ms := 0, t_state := TASK_READY\<rparr>)) ws k in
    pool_ok k' \<and> queue_set k' R \<and> (\<forall>j. st k' j = (if j \<in> set ws then TASK_READY else st k j))
    \<and> current_task k' = current_task k \<and> pending_cleanup_task k' = pending_cleanup_task k"
  using assms
proof (induction ws arbitrary: k)
  case (Cons w ws)
  let ?f = "\<lambda>t. t\<lparr>t_sleep_until_ms := 0, t_state := TASK_READY\<rparr>"
  have l: "length (task_pool k) = 256" using Cons.prems(1) by (simp add: pool_ok_def)
  have "pool_ok (upd_task w ?f k)" using Cons.prems by (intro pool_ok_upd) auto
  moreover have "queue_set (upd_task w ?f k) R" using Cons.prems by (intro queue_set_upd) auto
  ultimately show ?case using Cons.IH[of "upd_task w ?f k"] Cons.prems(3) l by (auto simp: Let_def nth_update)
qed simp

lemma tick_upd:
  "sched_inv (k\<lparr>tick_count := n\<rparr>) = sched_inv k" "keeps_dead j (k\<lparr>tick_count := n\<rparr>) = keeps_dead j k"
  by (simp_all add: sched_inv_def pool_ok_def keeps_dead_def dead_def)

lemma task_timer_tick_keeps:
  assumes inv: "sched_inv k"
  shows "sched_inv (task_timer_tick freq now k) \<and> keeps_dead k (task_timer_tick freq now k)"
proof (cases "current_task k")
  case None
  then show ?thesis using inv by (simp add: task_timer_tick_def)
next
  case (Some cur)
  let ?r = "\<lambda>t. t\<lparr>t_runtime_ms := t_runtime_ms t + ucast (1000 div freq)\<rparr>"
  define k1 where "k1 = upd_task cur ?r k"
  have k1: "sched_inv k1" "keeps_dead k k1" unfolding k1_def by (rule plain_upd(4)[OF plain_fields(4) inv], rule plain_upd(5)[OF plain_fields(4)])
  note d = sched_invD[OF k1(1)]
  define ws where "ws = filter (\<lambda>i. wake_due now (task_pool k1 ! i)) [0..<length (task_pool k1)]"
  define k2 where "k2 = fold (\<lambda>i. upd_task i (\<lambda>t. t\<lparr>t_sleep_until_ms := 0, t_state := TASK_READY\<rparr>)) ws k1"
  define k3 where "k3 = fold ready_queue_add ws k2"
  have w: "i < 256 \<and> st k1 i = TASK_BLOCKED \<and> i \<noteq> 0 \<and> current_task k1 \<noteq> Some i \<and> pending_cleanup_task k1 \<noteq> Some i" if "i \<in> set ws" for i
  proof -
    have b: "i < 256" "st k1 i = TASK_BLOCKED" using that d(3) by (auto simp: ws_def wake_due_def)
    then have "i \<noteq> 0" using d(5) by (cases "i = 0") auto
    then show ?thesis using b d(7)[of i] d(8)[of i] by auto
  qed
  have p2: "pool_ok k2" "queue_set k2 (ready_set k1)" "current_task k2 = current_task k1" "pending_cleanup_task k2 = pending_cleanup_task k1"
    and s2: "\<And>j. st k2 j = (if j \<in> set ws then TASK_READY else st k1 j)"
    using fold_ready_states[OF d(1,2), of ws] w unfolding k2_def Let_def by auto
  have l2: "length (task_pool k2) = 256" using p2(1) by (simp add: pool_ok_def)
  have "i \<notin> ready_set k1" if "i \<in> set ws" for i using w[OF that] by (simp add: ready_set_def)
  then have disj: "set ws \<inter> ready_set k1 = {}" by blast
  have ws_ready: "\<forall>i\<in>set ws. i < length (task_pool k2) \<and> st k2 i = TASK_READY"
    unfolding l2 s2 by (simp add: w)
  have "distinct ws" by (simp add: ws_def)
  from fold_add_queue[OF p2(2) this disj ws_ready]
  have "queue_set k3 (ready_set k1 \<union> set ws) \<and> same_tasks k2 k3" unfolding k3_def .
  then have q3: "queue_set k3 (ready_set k1 \<union> set ws)" and s3: "same_tasks k2 k3" by auto
  have "ready_set k2 = ready_set k1 \<union> set ws"
    unfolding ready_set_def l2 d(3) s2 using w by (auto split: if_splits)
  then have r3: "ready_set k3 = ready_set k1 \<union> set ws" using same_ready[OF s3] by simp
  have c3: "current_task k3 = Some cur" using same_tasksD(2)[OF s3] p2(3) Some by (simp add: k1_def)
  have b3: "st k3 cur \<noteq> TASK_BLOCKED"
    using same_st[OF s3, of cur] l2 d(7)[of cur] s2 Some by (auto simp: k1_def split: if_splits)
  have inv3: "sched_inv k3" using same_pool_ok[OF s3] p2(1) q3 r3 c3 b3 by (simp add: sched_inv_def)
  have "keeps_dead k1 k2" unfolding keeps_dead_def dead_def p2(3,4) s2 using w by fastforce
  then have kd: "keeps_dead k k3" using keeps_dead_trans[OF k1(2)] keeps_dead_trans keeps_dead_same[OF s3 l2] by blast
  define n where "n = (if t_time_slice (task_pool k3 ! cur) \<le> tick_count k3 + 1 then 0 else tick_count k3 + 1)"
  have init: "scheduler_initialized k = True" using inv by (simp add: sched_inv_def pool_ok_def)
  have e: "task_timer_tick freq now k = k3\<lparr>tick_count := n\<rparr>"
    using Some init unfolding task_timer_tick_def Let_def n_def k3_def k2_def ws_def k1_def
    by (simp only: not_True_eq_False if_False option.case)
  show ?thesis unfolding e tick_upd using inv3 kd by blast
qed

text \<open>Releasing a task that is not queued, such as a zombie.\<close>

lemma task_free_keeps:
  assumes p: "pool_ok k" and q: "queue_set k (ready_set k - {i})" and i: "i < 256" "i \<noteq> 0" "st k i \<noteq> TASK_UNUSED" "st k i \<noteq> TASK_TERMINATED"
    "current_task k \<noteq> Some i" and f: "task_free i k = Some k'"
  shows "pool_ok k'" "queue_set k' (ready_set k')" "ready_set k' = ready_set k - {i}" "keeps_dead k k'" "current_task k' = current_task k" "st k' i = TASK_UNUSED"
    "j \<noteq> i \<Longrightarrow> task_pool k' ! j = task_pool k ! j" "next_pid k' = next_pid k" "pending_cleanup_task k' = pending_cleanup_task k"
proof -
  obtain k1 where k1: "same_sched k k1" "k' = clear_pcb i k1" using same_sched_task_free[OF f] by blast
  note s = same_sched_inv[OF k1(1)] and d = same_schedD[OF k1(1)]
  have pe: "pending_cleanup_task k \<noteq> Some i" using p i by (auto simp: pool_ok_def)
  have l: "length (task_pool k) = 256" using p by (simp add: pool_ok_def)
  show "pool_ok k'" unfolding k1(2) using p i pe s d by (intro pool_ok_clear) auto
  have r: "ready_set k' = ready_set k - {i}" unfolding k1(2) ready_clear using s by simp
  then show "ready_set k' = ready_set k - {i}" .
  show "queue_set k' (ready_set k')" unfolding r unfolding k1(2) using q s by (intro queue_set_clear) auto
  show "keeps_dead k k'" unfolding k1(2)
    using keeps_dead_trans[OF keeps_dead_sched[OF k1(1)] keeps_dead_clear] i(4) d by simp
  show "current_task k' = current_task k" "st k' i = TASK_UNUSED" "j \<noteq> i \<Longrightarrow> task_pool k' ! j = task_pool k ! j" "next_pid k' = next_pid k"
    "pending_cleanup_task k' = pending_cleanup_task k"
    using k1(2) d l i by (simp_all add: nth_update)
qed

lemma free_zombie:
  assumes inv: "sched_inv k" and i: "i < 256" "st k i = TASK_ZOMBIE" "current_task k \<noteq> Some i" and f: "task_free i k = Some k'"
  shows "sched_inv k'" "keeps_dead k k'" "current_task k' = current_task k" "j \<noteq> i \<Longrightarrow> task_pool k' ! j = task_pool k ! j"
    "st k' i = TASK_UNUSED" "next_pid k' = next_pid k" "pending_cleanup_task k' = pending_cleanup_task k"
proof -
  note d = sched_invD[OF inv]
  have z: "i \<noteq> 0" "i \<notin> ready_set k" using d(5) i by (cases "i = 0"; auto simp: ready_set_def)+
  have q: "queue_set k (ready_set k - {i})" using d(2) z by simp
  have n: "st k i \<noteq> TASK_UNUSED" "st k i \<noteq> TASK_TERMINATED" using i by auto
  note t = task_free_keeps[OF d(1) q i(1) z(1) n i(3) f]
  have "st k' c \<noteq> TASK_BLOCKED" if "current_task k' = Some c" for c
    using t(7)[of c] t(5) that i(3) d(7)[of c] by (cases "c = i") auto
  then show "sched_inv k'" using t by (simp add: sched_inv_def)
  show "keeps_dead k k'" "current_task k' = current_task k" "j \<noteq> i \<Longrightarrow> task_pool k' ! j = task_pool k ! j" "st k' i = TASK_UNUSED" "next_pid k' = next_pid k"
    "pending_cleanup_task k' = pending_cleanup_task k"
    using t by auto
qed

lemma orphan_fold:
  assumes "sched_inv k"
  shows "let k' = fold (\<lambda>j. upd_task j (\<lambda>t. t\<lparr>t_parent := None\<rparr>)) js k in
    sched_inv k' \<and> keeps_dead k k' \<and> (\<forall>j. st k' j = st k j) \<and> current_task k' = current_task k
    \<and> (\<forall>j. t_parent (task_pool k ! j) = None \<longrightarrow> t_parent (task_pool k' ! j) = None)"
  using assms
proof (induction js arbitrary: k)
  case (Cons j js)
  let ?k = "upd_task j (\<lambda>t. t\<lparr>t_parent := None\<rparr>) k"
  have i: "sched_inv ?k" "keeps_dead k ?k" "\<And>i. st ?k i = st k i"
    using Cons.prems plain_upd(4,5,6)[OF plain_fields(1)] by blast+
  show ?case using Cons.IH[OF i(1)] i(2,3) keeps_dead_trans[OF i(2)] by (auto simp: Let_def nth_update)
qed simp

lemma free_fold:
  assumes "sched_inv k" "foldM task_free zs k = Some k'" "distinct zs" "\<forall>z\<in>set zs. z < 256 \<and> st k z = TASK_ZOMBIE \<and> current_task k \<noteq> Some z"
  shows "sched_inv k'" "keeps_dead k k'" "current_task k' = current_task k" "j \<notin> set zs \<Longrightarrow> task_pool k' ! j = task_pool k ! j"
proof -
  have "sched_inv k' \<and> keeps_dead k k' \<and> current_task k' = current_task k \<and> (\<forall>j. j \<notin> set zs \<longrightarrow> task_pool k' ! j = task_pool k ! j)"
    using assms
  proof (induction zs arbitrary: k)
    case (Cons z zs)
    obtain k1 where k1: "task_free z k = Some k1" "foldM task_free zs k1 = Some k'" using Cons.prems(2) by (auto split: option.splits)
    have z: "z < 256" "st k z = TASK_ZOMBIE" "current_task k \<noteq> Some z" using Cons.prems(4) by auto
    note f = free_zombie[OF Cons.prems(1) z k1(1)]
    have "\<forall>x\<in>set zs. x < 256 \<and> st k1 x = TASK_ZOMBIE \<and> current_task k1 \<noteq> Some x"
    proof
      fix x assume x: "x \<in> set zs"
      then have "x \<noteq> z" using Cons.prems(3) by auto
      then show "x < 256 \<and> st k1 x = TASK_ZOMBIE \<and> current_task k1 \<noteq> Some x" using Cons.prems(4) x f(3) f(4)[of x] by simp
    qed
    then have "sched_inv k' \<and> keeps_dead k1 k' \<and> current_task k' = current_task k1 \<and> (\<forall>j. j \<notin> set zs \<longrightarrow> task_pool k' ! j = task_pool k1 ! j)"
      using Cons.IH[OF f(1) k1(2)] Cons.prems(3) by simp
    then show ?case using f(2,3,4) keeps_dead_trans by auto
  qed simp
  then show "sched_inv k'" "keeps_dead k k'" "current_task k' = current_task k" "j \<notin> set zs \<Longrightarrow> task_pool k' ! j = task_pool k ! j" by auto
qed

lemma task_exit_keeps:
  assumes inv: "sched_inv k" and c: "current_task k = Some c" "c \<noteq> 0" and e: "task_exit code k = Some k'"
  shows "sched_inv k'" "keeps_dead k k'" "t_parent (task_pool k ! c) = None \<Longrightarrow> dead k' c"
proof -
  let ?f = "\<lambda>t. t\<lparr>t_exit_code := code, t_exit_signaled := False\<rparr>"
  define k1 where "k1 = upd_task c ?f k"
  have k1: "sched_inv k1" "keeps_dead k k1" "\<And>j. st k1 j = st k j"
    unfolding k1_def using inv plain_upd(4,5,6)[OF plain_fields(2)] by blast+
  define os where "os = filter (\<lambda>j. \<not> st k1 j = TASK_ZOMBIE) (children c k1)"
  define zs where "zs = filter (\<lambda>j. st k1 j = TASK_ZOMBIE) (children c k1)"
  define k2 where "k2 = fold (\<lambda>j. upd_task j (\<lambda>t. t\<lparr>t_parent := None\<rparr>)) os k1"
  have k2: "sched_inv k2" "keeps_dead k1 k2" "\<And>j. st k2 j = st k1 j" "current_task k2 = Some c"
    "\<And>j. t_parent (task_pool k1 ! j) = None \<Longrightarrow> t_parent (task_pool k2 ! j) = None"
    using orphan_fold[OF k1(1), of os] c unfolding k2_def Let_def by (auto simp: k1_def)
  obtain k3 where k3: "foldM task_free zs k2 = Some k3"
      "task_schedule (no_current (upd_task c (\<lambda>t. t\<lparr>t_state := (if has_live_parent c k3 then TASK_ZOMBIE else TASK_TERMINATED)\<rparr>) k3)) = Some k'"
    using e c unfolding task_exit_def Let_def k1_def[symmetric]
    by (auto simp: k2_def os_def zs_def k1_def split: option.splits)
  have nz: "c \<notin> set zs" using sched_invD(7)[OF k1(1)] no_self_parent[OF k1(1)] by (simp add: zs_def children_def k1_def c)
  have "\<forall>z\<in>set zs. z < 256 \<and> st k2 z = TASK_ZOMBIE \<and> current_task k2 \<noteq> Some z"
    using nz sched_invD(3)[OF k1(1)] k2(3,4) by (auto simp: zs_def children_def)
  moreover have "distinct zs" by (simp add: zs_def children_def)
  ultimately have f: "sched_inv k3" "keeps_dead k2 k3" "current_task k3 = Some c" "task_pool k3 ! c = task_pool k2 ! c"
    using free_fold[OF k2(1) k3(1)] k2(4) nz by auto
  define s where "s = (if has_live_parent c k3 then TASK_ZOMBIE else TASK_TERMINATED)"
  let ?k4 = "upd_task c (\<lambda>t. t\<lparr>t_state := s\<rparr>) k3"
  note l = leave_current[OF f(1,3) c(2), of "\<lambda>t. t\<lparr>t_state := s\<rparr>" s]
  have l': "pool_ok ?k4" "queue_set ?k4 (ready_set ?k4)" "keeps_dead k3 ?k4" using l by (auto simp: s_def)
  have sch: "task_schedule (no_current ?k4) = Some k'" using k3(2) by (simp add: s_def)
  have r: "sched_inv k' \<and> keeps_dead (no_current ?k4) k'"
    using schedule_keeps[OF pool_no_current[OF l'(1)] _ sch] l'(2) by simp
  then show "sched_inv k'" by blast
  have "keeps_dead ?k4 (no_current ?k4)" by (simp add: keeps_dead_def dead_def)
  then show "keeps_dead k k'" using k1(2) k2(2) f(2) l'(3) r keeps_dead_trans by blast
  show "dead k' c" if par: "t_parent (task_pool k ! c) = None"
  proof -
    have lc: "c < 256" "length (task_pool k3) = 256" using sched_invD(3)[OF f(1)] sched_invD(7)[OF f(1) f(3)] by auto
    have "t_parent (task_pool k1 ! c) = None" using par by (simp add: k1_def nth_update)
    then have "\<not> has_live_parent c k3" using k2(5)[of c] f(4) by (simp add: has_live_parent_def)
    moreover have "pending_cleanup_task k3 \<noteq> Some c" using sched_invD(8)[OF f(1), of c] f(3) by auto
    ultimately have "dead (no_current ?k4) c" using lc by (simp add: dead_def s_def)
    then show ?thesis using r by (simp add: keeps_dead_def)
  qed
qed

lemma get_by_pid_Some:
  assumes "task_get_by_pid pid k = Some i"
  shows "i < length (task_pool k)" "st k i \<noteq> TASK_UNUSED" "t_pid (task_pool k ! i) = pid"
  using find_Some_set[OF assms[unfolded task_get_by_pid_def]] by auto

lemma kill_child_keeps:
  assumes inv: "sched_inv k" and c: "current_task k = Some c" "st k c = TASK_ZOMBIE \<Longrightarrow> t_parent (task_pool k ! c) \<noteq> Some target"
    and t: "st k target \<noteq> TASK_ZOMBIE" and e: "kill_child target n k = Some k'"
  shows "sched_inv k' \<and> keeps_dead k k' \<and> current_task k' = Some c \<and> (st k' c = TASK_ZOMBIE \<longrightarrow> t_parent (task_pool k' ! c) \<noteq> Some target)
    \<and> st k' target = st k target"
proof (cases "task_get_by_pid (of_nat n) k")
  case (Some j)
  show ?thesis
  proof (cases "t_parent (task_pool k ! j) = Some target \<and> st k j = TASK_ZOMBIE")
    case True
    then have f: "task_free j k = Some k'" using e Some by (simp add: kill_child_def)
    have j: "j < 256" "st k j = TASK_ZOMBIE" "current_task k \<noteq> Some j" "j \<noteq> target" "j \<noteq> c"
      using get_by_pid_Some(1)[OF Some] sched_invD(3)[OF inv] True c t by auto
    show ?thesis using free_zombie[OF inv j(1-3) f] j c by metis
  next
    case False
    then have "k' = (if t_parent (task_pool k ! j) = Some target then upd_task j (\<lambda>t. t\<lparr>t_parent := None\<rparr>) k else k)"
      using e Some by (auto simp: kill_child_def split: if_splits)
    moreover have "t_parent (task_pool (upd_task j (\<lambda>t. t\<lparr>t_parent := None\<rparr>) k) ! c) \<in> {t_parent (task_pool k ! c), None}"
      by (simp add: nth_update)
    ultimately show ?thesis using inv c plain_keeps[OF plain_fields(1) inv, of j]
      by (cases "t_parent (task_pool k ! j) = Some target") (auto simp del: upd_task_sel(1))
  qed
qed (use assms in \<open>simp add: kill_child_def\<close>)

text \<open>The one call that is not safe: a process that has killed itself, but still runs, and now kills the parent that is
  to collect it.  \<^verbatim>\<open>sys_kill\<close> frees the zombie children of its target, and so the control block of the caller.\<close>

definition spares_parent :: "u32 \<Rightarrow> 'a sched_state_scheme \<Rightarrow> bool" where
  "spares_parent pid k \<longleftrightarrow> (\<forall>c p. current_task k = Some c \<longrightarrow> st k c = TASK_ZOMBIE \<longrightarrow> t_parent (task_pool k ! c) = Some p
     \<longrightarrow> task_get_by_pid pid k \<noteq> Some p)"

lemma sys_kill_keeps:
  assumes inv: "sched_inv k" and spare: "spares_parent pid k" and e: "sys_kill pid sig k = Some (r, k')"
  shows "sched_inv k' \<and> keeps_dead k k'"
proof -
  consider "k' = k"
    | target c where "pid \<noteq> 0" "task_get_by_pid pid k = Some target" "st k target \<notin> {TASK_UNUSED, TASK_TERMINATED, TASK_ZOMBIE}"
        "current_task k = Some c"
    using e by (auto simp: sys_kill_def split: option.splits if_splits)
  then show ?thesis
  proof cases
    case (2 target c)
    note c = 2(4) and g = get_by_pid_Some[OF 2(2)]
    have t0: "target \<noteq> 0" using sched_invD(6)[OF inv] g(3) 2(1) by (cases "target = 0") auto
    have t1: "target < 256" using g(1) sched_invD(3)[OF inv] by simp
    let ?f = "\<lambda>t. t\<lparr>t_exit_code := 128 + sig, t_exit_signaled := True, t_exit_signal := sig\<rparr>"
    define k1 where "k1 = upd_task target ?f k"
    have k1: "sched_inv k1" "keeps_dead k k1" "\<And>j. st k1 j = st k j" "current_task k1 = Some c"
      unfolding k1_def using inv c plain_keeps[OF plain_fields(3) inv] by (simp_all del: upd_task_sel(1))
    obtain k2 where k2: "foldM (kill_child target) [0..<256] k1 = Some k2"
      and res: "(let k3 = (if st k2 target = TASK_READY then ready_queue_remove target k2 else k2) in
        if has_live_parent target k3 then Some (0, upd_task target (\<lambda>t. t\<lparr>t_state := TASK_ZOMBIE\<rparr>) k3)
        else if target = c then Some (0, upd_task target (\<lambda>t. t\<lparr>t_state := TASK_TERMINATED\<rparr>) k3)
        else map_option (Pair 0) (task_free target k3)) = Some (r, k')"
      using e 2 c unfolding sys_kill_def k1_def by (auto simp: Let_def bind_eq_Some_conv)
    let ?P = "\<lambda>s. sched_inv s \<and> keeps_dead k1 s \<and> current_task s = Some c
      \<and> (st s c = TASK_ZOMBIE \<longrightarrow> t_parent (task_pool s ! c) \<noteq> Some target) \<and> st s target = st k target"
    have "?P k2"
    proof (rule foldM_inv[OF k2, of ?P])
      have "t_parent (task_pool k1 ! c) = t_parent (task_pool k ! c)" by (simp add: k1_def nth_update)
      then show "?P k1" using k1 c spare 2(2) by (auto simp: spares_parent_def)
      show "?P s'" if "?P s" "kill_child target n s = Some s'" for n s s'
      proof -
        have "st s target \<noteq> TASK_ZOMBIE" using that 2(3) by auto
        from kill_child_keeps[OF _ _ _ this that(2)] that(1) show ?thesis using keeps_dead_trans by auto
      qed
    qed
    then have i2: "sched_inv k2" "keeps_dead k1 k2" "current_task k2 = Some c" "st k2 target = st k target" by auto
    note d = sched_invD[OF i2(1)]
    define k3 where "k3 = (if st k2 target = TASK_READY then ready_queue_remove target k2 else k2)"
    have s3: "same_tasks k2 k3" by (simp add: k3_def same_remove)
    have q3: "queue_set k3 (ready_set k2 - {target})"
    proof (cases "st k2 target = TASK_READY")
      case True
      then have "target \<in> ready_set k2" using t0 t1 d(3) by (simp add: ready_set_def)
      then show ?thesis using queue_set_remove[OF d(2)] True by (simp add: k3_def)
    next
      case False
      then have "target \<notin> ready_set k2" by (simp add: ready_set_def)
      then show ?thesis using d(2) False by (simp add: k3_def)
    qed
    note sd = same_tasksD[OF s3]
    have p3: "pool_ok k3" using same_pool_ok[OF s3] d(1) by simp
    have st3: "\<And>j. j < 256 \<Longrightarrow> st k3 j = st k2 j" using same_st[OF s3] d(3) by simp
    have nt: "st k3 target \<notin> {TASK_UNUSED, TASK_TERMINATED, TASK_ZOMBIE}" using st3[OF t1] i2(4) 2(3) by simp
    have pn: "pending_cleanup_task k3 \<noteq> Some target" using p3 nt by (auto simp: pool_ok_def)
    have kd: "keeps_dead k k3" using keeps_dead_trans[OF k1(2)] keeps_dead_trans[OF i2(2)] keeps_dead_same[OF s3 d(3)] by blast
    have c3: "current_task k3 = Some c" "c < 256" "st k3 c \<noteq> TASK_BLOCKED" using sd(2) i2(3) d(7)[OF i2(3)] st3[of c] by auto
    have stop: "sched_inv (upd_task target (\<lambda>t. t\<lparr>t_state := s\<rparr>) k3) \<and> keeps_dead k (upd_task target (\<lambda>t. t\<lparr>t_state := s\<rparr>) k3)"
      if s: "s \<in> {TASK_ZOMBIE, TASK_TERMINATED}" for s
    proof -
      let ?k = "upd_task target (\<lambda>t. t\<lparr>t_state := s\<rparr>) k3"
      have "pool_ok ?k" using p3 t0 t1 nt pn s by (intro pool_ok_upd) auto
      moreover have "queue_set ?k (ready_set k2 - {target})" using q3 by (intro queue_set_upd) auto
      moreover have "ready_set ?k = ready_set k2 - {target}" using same_ready[OF s3] t1 sd(1) d(3) s by (auto simp: ready_upd)
      moreover have "st ?k c \<noteq> TASK_BLOCKED" using c3 s by (auto simp: nth_update)
      moreover have "keeps_dead k3 ?k" by (rule keeps_dead_upd) (use nt in simp)
      ultimately show ?thesis using kd keeps_dead_trans c3(1) by (auto simp: sched_inv_def)
    qed
    show ?thesis
    proof (cases "has_live_parent target k3 \<or> target = c")
      case True
      then show ?thesis using res stop unfolding k3_def[symmetric] Let_def by (auto split: if_splits)
    next
      case False
      then have f: "task_free target k3 = Some k'" using res unfolding k3_def[symmetric] Let_def by auto
      have q: "queue_set k3 (ready_set k3 - {target})" using q3 same_ready[OF s3] by simp
      have n: "st k3 target \<noteq> TASK_UNUSED" "st k3 target \<noteq> TASK_TERMINATED" "current_task k3 \<noteq> Some target" using nt c3 False by auto
      note t = task_free_keeps[OF p3 q t1 t0 n f]
      have "st k' c \<noteq> TASK_BLOCKED" using t(7)[of c] c3 False by auto
      then show ?thesis using t kd keeps_dead_trans c3 by (auto simp: sched_inv_def)
    qed
  qed (use inv in simp)
qed

lemma sys_waitpid_keeps:
  assumes inv: "sched_inv k" and e: "sys_waitpid pid opts k = Some (r, k')"
  shows "sched_inv k' \<and> keeps_dead k k'"
proof (cases "current_task k")
  case None
  then show ?thesis using inv e by (simp add: sys_waitpid_def)
next
  case c: (Some c)
  show ?thesis
  proof (cases "find (\<lambda>j. st k j = TASK_ZOMBIE) (waited_for c pid k)")
    case (Some j)
    then have j: "st k j = TASK_ZOMBIE" "j < 256" "t_parent (task_pool k ! j) = Some c"
      using sched_invD(3)[OF inv] by (auto dest!: find_Some_set simp: waited_for_def children_def)
    have "task_free j k = Some k'" using e c Some by (auto simp: sys_waitpid_def)
    moreover have "current_task k \<noteq> Some j" using c j no_self_parent[OF inv j(2)] by auto
    ultimately show ?thesis using free_zombie[OF inv j(2,1)] by blast
  next
    case None
    then have "k' = k \<or> task_schedule k = Some k'" using e c by (auto simp: sys_waitpid_def task_yield_def split: if_splits)
    then show ?thesis using inv schedule_keeps[OF sched_invD(1,2)[OF inv]] by auto
  qed
qed

text \<open>A control block that has been allocated but not queued yet.\<close>

definition embryo :: "'a sched_state_scheme \<Rightarrow> 'a sched_state_scheme \<Rightarrow> nat \<Rightarrow> bool" where
  "embryo k0 k i \<longleftrightarrow> pool_ok k \<and> queue_set k (ready_set k - {i}) \<and> i < 256 \<and> i \<noteq> 0 \<and> st k i = TASK_READY
     \<and> current_task k = current_task k0 \<and> current_task k \<noteq> Some i \<and> (\<forall>c. current_task k = Some c \<longrightarrow> st k c \<noteq> TASK_BLOCKED) \<and> keeps_dead k0 k"

lemma alloc_embryo:
  assumes inv: "sched_inv k" and a: "task_alloc k = (Some i, k1)"
  shows "embryo k k1 i"
proof -
  note d = sched_invD[OF inv]
  let ?t = "zero_task\<lparr>t_pid := next_pid k, t_state := TASK_READY, t_priority := 10, t_time_slice := 10\<rparr>"
  have f: "find (\<lambda>i. st k i = TASK_UNUSED) [0..<length (task_pool k)] = Some i"
    and k1: "k1 = (upd_task i (\<lambda>_. ?t) k)\<lparr>next_pid := next_pid k + 1, active_task_count := active_task_count k + 1\<rparr>"
    using a by (auto simp: task_alloc_def split: option.splits)
  have i: "st k i = TASK_UNUSED" "i < 256" using find_Some_set[OF f] d(3) by auto
  then have nz: "i \<noteq> 0" "current_task k \<noteq> Some i" "pending_cleanup_task k \<noteq> Some i" "i \<notin> ready_set k" "i \<notin> live_pcbs k"
    using d(5) d(7)[of i] d(8)[of i] by (cases "i = 0"; auto simp: ready_set_def live_pcbs_def)+
  have pool: "task_pool k1 = (task_pool k)[i := ?t]" by (simp add: k1)
  have live: "live_pcbs k1 = insert i (live_pcbs k)" using i d(3) by (auto simp: live_pcbs_def pool nth_update)
  have "card (live_pcbs k) \<le> 256"
    using card_mono[of "{..<256}" "live_pcbs k"] d(3) by (auto simp: live_pcbs_def)
  then have cnt: "unat (active_task_count k1) = card (live_pcbs k1)"
    using d(1) nz(5) unfolding live by (simp add: k1 pool_ok_def unat_inc)
  have "pool_ok k1" using d(1) cnt i nz by (auto simp: pool_ok_def pool nth_update) (auto simp: k1)
  moreover have r: "ready_set k1 = insert i (ready_set k)" using i nz d(3) by (auto simp: ready_set_def pool nth_update)
  have "queue_set (upd_task i (\<lambda>_. ?t) k) (ready_set k)" using d(2) nz by (intro queue_set_upd) auto
  then have "queue_set k1 (ready_set k)" by (simp add: k1 queue_set_def queue_is_def)
  then have "queue_set k1 (ready_set k1 - {i})" using r nz by simp
  moreover have "keeps_dead k k1" using i by (auto simp: keeps_dead_def dead_def pool nth_update) (auto simp: k1)
  moreover have "current_task k1 = current_task k" by (simp add: k1)
  ultimately show ?thesis using i nz d(3) d(7) by (auto simp: embryo_def pool nth_update)
qed

lemma alloc_none: "task_alloc k = (None, k1) \<Longrightarrow> k1 = k"
  by (auto simp: task_alloc_def split: option.splits)

lemma embryo_upd:
  assumes e: "embryo k0 k i" and f: "t_state (f (task_pool k ! i)) = TASK_READY"
    and par: "t_parent (f (task_pool k ! i)) = t_parent (task_pool k ! i) \<or> t_parent (f (task_pool k ! i)) \<noteq> Some i"
  shows "embryo k0 (upd_task i f k) i"
proof -
  have l: "length (task_pool k) = 256" "pending_cleanup_task k \<noteq> Some i" using e by (auto simp: embryo_def pool_ok_def)
  have "pool_ok (upd_task i f k)" using e f l par by (intro pool_ok_upd) (auto simp: embryo_def)
  moreover have "ready_set (upd_task i f k) - {i} = ready_set k - {i}" using e f l by (auto simp: ready_upd embryo_def)
  moreover have "queue_set (upd_task i f k) (ready_set k - {i})" using e by (intro queue_set_upd) (auto simp: embryo_def)
  moreover have "keeps_dead k (upd_task i f k)" by (rule keeps_dead_upd) (use e in \<open>simp add: embryo_def\<close>)
  ultimately show ?thesis using e f l keeps_dead_trans unfolding embryo_def by (auto simp: nth_update)
qed

lemma embryo_same:
  assumes "embryo k0 k i" "same_sched k k'"
  shows "embryo k0 k' i"
  using assms same_sched_inv[OF assms(2)] same_schedD[OF assms(2)] keeps_dead_trans[OF _ keeps_dead_sched[OF assms(2)]]
  by (auto simp: embryo_def)

lemma embryo_add:
  assumes "embryo k0 k i"
  shows "sched_inv (ready_queue_add i k) \<and> keeps_dead k0 (ready_queue_add i k)"
proof -
  note s = same_add[of k i]
  have l: "length (task_pool k) = 256" using assms by (simp add: embryo_def pool_ok_def)
  have "queue_set (ready_queue_add i k) (insert i (ready_set k - {i}))" using assms l by (intro queue_set_add) (auto simp: embryo_def)
  moreover have "insert i (ready_set k - {i}) = ready_set (ready_queue_add i k)"
    using same_ready[OF s] assms l by (auto simp: embryo_def ready_set_def)
  moreover have "st (ready_queue_add i k) c \<noteq> TASK_BLOCKED" if "current_task k = Some c" for c
  proof -
    have "c < length (task_pool k)" using that assms l by (auto simp: embryo_def pool_ok_def)
    then show ?thesis using same_st[OF s] that assms by (simp add: embryo_def)
  qed
  ultimately have "sched_inv (ready_queue_add i k)"
    using same_pool_ok[OF s] same_tasksD(2)[OF s] assms by (simp add: sched_inv_def embryo_def)
  then show ?thesis using keeps_dead_same[OF s l] keeps_dead_trans assms unfolding embryo_def by blast
qed

lemma embryo_free:
  assumes e: "embryo k0 k i" and f: "task_free i k = Some k'"
  shows "sched_inv k' \<and> keeps_dead k0 k'"
proof -
  have p: "pool_ok k" "queue_set k (ready_set k - {i})" "i < 256" "i \<noteq> 0" "st k i \<noteq> TASK_UNUSED" "st k i \<noteq> TASK_TERMINATED" "current_task k \<noteq> Some i"
    using e by (auto simp: embryo_def)
  note t = task_free_keeps[OF p f]
  have "st k' c \<noteq> TASK_BLOCKED" if "current_task k' = Some c" for c
  proof -
    have "c \<noteq> i" using that t(5) p(7) by auto
    then show ?thesis using t(5) t(7)[of c] that e by (simp add: embryo_def)
  qed
  then have "sched_inv k'" using t by (simp add: sched_inv_def)
  then show ?thesis using t(4) e keeps_dead_trans unfolding embryo_def by blast
qed

lemma embryo_malloc: "embryo k0 k i \<Longrightarrow> k_malloc n k = Some (a, k') \<Longrightarrow> embryo k0 k' i"
  using embryo_same same_sched_malloc by blast

lemma embryo_heap: "embryo k0 k i \<Longrightarrow> embryo k0 (on_heap f k) i" "embryo k0 k i \<Longrightarrow> embryo k0 (set_mm m k) i"
  "embryo k0 k i \<Longrightarrow> embryo k0 (set_files s k) i" "embryo k0 k i \<Longrightarrow> embryo k0 (free_dir d k) i" "embryo k0 k i \<Longrightarrow> embryo k0 (push_entry p q k) i"
  "embryo k0 k i \<Longrightarrow> embryo k0 (k\<lparr>k_vfs := v\<rparr>) i"
  by (erule embryo_same, simp add: same_sched_free(4) push_entry_def same_sched_vfs)+

lemma embryo_st: "embryo k0 k i \<Longrightarrow> t_state (task_pool k ! i) = TASK_READY"
  by (simp add: embryo_def)

lemma task_create_kernel_thread_keeps:
  assumes inv: "sched_inv k" and e: "task_create_kernel_thread en entry name k = Some (pid, k')"
  shows "sched_inv k' \<and> keeps_dead k k'"
proof (cases "entry = 0 \<or> (\<exists>k1. task_alloc k = (None, k1))")
  case True
  then have "k' = k" using e alloc_none[of k] by (cases "entry = 0") (auto simp: task_create_kernel_thread_def)
  then show ?thesis using inv by simp
next
  case False
  then obtain i k1 where a: "task_alloc k = (Some i, k1)" by (cases "task_alloc k"; cases "fst (task_alloc k)") auto
  define k2 where "k2 = upd_task i (\<lambda>t. t\<lparr>t_name := take_name name, t_is_user_process := False\<rparr>) k1"
  have e1: "embryo k k1 i" by (rule alloc_embryo[OF inv a])
  have e2: "embryo k k2 i" unfolding k2_def by (rule embryo_upd[OF e1]) (use embryo_st[OF e1] in simp_all)
  obtain base k3 where m: "k_malloc 8192 k2 = Some (base, k3)"
      and r: "(if base = 0 then map_option (Pair 0) (task_free i k3)
        else let stack = base + 8192; dir = current_dir_phys (k_mm k3);
              k4 = upd_task i (\<lambda>t. t\<lparr>t_kernel_stack_base := base, t_kernel_stack := stack, t_page_dir_phys := dir,
                        t_context := kernel_context en stack dir, t_fd_table := None, t_cwd := ''/'',
                        t_state := TASK_READY\<rparr>) (push_entry stack entry k3)
             in Some (t_pid (task_pool k4 ! i), ready_queue_add i k4)) = Some (pid, k')"
    using e a False by (auto simp: task_create_kernel_thread_def k2_def[symmetric] bind_eq_Some_conv)
  have e3: "embryo k k3 i" by (rule embryo_malloc[OF e2 m])
  show ?thesis
  proof (cases "base = 0")
    case True
    then show ?thesis using r embryo_free[OF e3] by auto
  next
    case False
    then show ?thesis using r embryo_add[OF embryo_upd[OF embryo_heap(5)[OF e3]]] by (auto simp: Let_def)
  qed
qed

lemma embryo_stack: "embryo k0 k i \<Longrightarrow> task_setup_user_stack i k = (b, k') \<Longrightarrow> embryo k0 k' i"
proof -
  assume e: "embryo k0 k i" and s: "task_setup_user_stack i k = (b, k')"
  consider m where "k' = set_mm m k" | "k' = k"
    | m where "k' = upd_task i (\<lambda>t. t\<lparr>t_user_stack_base := 0x80000000 - 0x100000, t_user_stack := 0x80000000 - 4\<rparr>) (set_mm m k)"
    using s by (auto simp: task_setup_user_stack_def Let_def split: if_splits prod.splits bool.splits)
  then show ?thesis
  proof cases
    case (3 m)
    have e1: "embryo k0 (set_mm m k) i" using embryo_heap(2)[OF e] .
    show ?thesis unfolding 3 by (rule embryo_upd[OF e1]) (use embryo_st[OF e1] in simp_all)
  qed (use e embryo_heap(2) in auto)
qed

lemma task_create_user_process_keeps:
  assumes inv: "sched_inv k" and e: "task_create_user_process name entry dir pend k = Some (pid, k')"
  shows "sched_inv k' \<and> keeps_dead k k'"
proof (cases "entry = 0 \<or> (\<exists>k1. task_alloc k = (None, k1))")
  case True
  then have "k' = k" using e alloc_none[of k] by (cases "entry = 0") (auto simp: task_create_user_process_def)
  then show ?thesis using inv by simp
next
  case False
  then obtain i k1 where a: "task_alloc k = (Some i, k1)" by (cases "task_alloc k"; cases "fst (task_alloc k)") auto
  define k2 where "k2 = upd_task i (\<lambda>t. t\<lparr>t_name := take_name name, t_is_user_process := True, t_user_entry := entry\<rparr>) k1"
  have e1: "embryo k k1 i" by (rule alloc_embryo[OF inv a])
  have e2: "embryo k k2 i" unfolding k2_def by (rule embryo_upd[OF e1]) (use embryo_st[OF e1] in simp_all)
  obtain base k3 where m: "k_malloc 8192 k2 = Some (base, k3)" using e a False
    by (auto simp: task_create_user_process_def k2_def[symmetric] bind_eq_Some_conv)
  have e3: "embryo k k3 i" by (rule embryo_malloc[OF e2 m])
  show ?thesis
  proof (cases "base = 0")
    case True
    then have "map_option (Pair 0) (task_free i k3) = Some (pid, k')" using e a False m
      by (simp add: task_create_user_process_def k2_def[symmetric])
    then show ?thesis using embryo_free[OF e3] by auto
  next
    case base: False
    define k4 where "k4 = upd_task i (\<lambda>t. t\<lparr>t_kernel_stack_base := base, t_kernel_stack := base + 8192, t_page_dir_phys := dir\<rparr>) k3"
    have e4: "embryo k k4 i" unfolding k4_def by (rule embryo_upd[OF e3]) (use embryo_st[OF e3] in simp_all)
    obtain ok k5 where st5: "task_setup_user_stack i k4 = (ok, k5)" by fastforce
    have e5: "embryo k k5 i" by (rule embryo_stack[OF e4 st5])
    show ?thesis
    proof (cases ok)
      case False
      then have "map_option (Pair 0) (task_free i (on_heap (kfree base) k5)) = Some (pid, k')" using e a \<open>\<not> (entry = 0 \<or> _)\<close> m base st5
        by (simp add: task_create_user_process_def k2_def[symmetric] k4_def[symmetric])
      then show ?thesis using embryo_free[OF embryo_heap(1)[OF e5]] by auto
    next
      case ok: True
      define k6 where "k6 = upd_task i (\<lambda>t. t\<lparr>t_context := user_context entry (t_user_stack t) dir\<rparr>) k5"
      have e6: "embryo k k6 i" unfolding k6_def by (rule embryo_upd[OF e5]) (use embryo_st[OF e5] in simp_all)
      obtain x k7 where m7: "k_malloc 8196 k6 = Some (x, k7)"
        and r: "(if x = 0 then map_option (Pair 0) (task_free i (on_heap (kfree base) k7))
          else (open_console [0, 0, 0] fd_table_init (k_vfs k7)) \<bind> (\<lambda>(table, v).
            let k8 = upd_task i (\<lambda>t. t\<lparr>t_fd_table := Some (x, table), t_heap_start := PAGE_ALIGN_UP pend,
                  t_heap_end := PAGE_ALIGN_UP pend, t_heap_max := t_user_stack_base t - 0x800000, t_cwd := ''/'', t_state := TASK_READY\<rparr>) (k7\<lparr>k_vfs := v\<rparr>)
            in Some (t_pid (task_pool k8 ! i), ready_queue_add i k8))) = Some (pid, k')"
        using e a False m base st5 ok
        by (auto simp: task_create_user_process_def k2_def[symmetric] k4_def[symmetric] k6_def[symmetric] bind_eq_Some_conv)
      have e7: "embryo k k7 i" by (rule embryo_malloc[OF e6 m7])
      show ?thesis
      proof (cases "x = 0")
        case True
        then show ?thesis using r embryo_free[OF embryo_heap(1)[OF e7]] by auto
      next
        case False
        then show ?thesis using r embryo_add[OF embryo_upd[OF embryo_heap(6)[OF e7]]] by (auto simp: Let_def bind_eq_Some_conv)
      qed
    qed
  qed
qed

lemma embryo_fork_fds: "embryo k0 k i \<Longrightarrow> fork_fds p k = Some (r, k') \<Longrightarrow> embryo k0 k' i"
  by (auto simp: fork_fds_def bind_eq_Some_conv split: option.splits if_splits prod.splits
      intro: embryo_malloc embryo_heap(3))

lemma sys_fork_keeps:
  assumes inv: "sched_inv k" and e: "sys_fork frame k = Some (r, k')"
  shows "sched_inv k' \<and> keeps_dead k k'"
proof -
  consider "k' = k"
    | c i k1 where "current_task k = Some c" "task_alloc k = (Some i, k1)" "t_is_user_process (task_pool k ! c)"
        "\<not> info_free_frames (pmm_info (mm_pmm (k_mm k))) < 64" "\<not> (\<exists>i\<in>set [0..<10]. pde_corrupted (k_mm k) (t_page_dir_phys (task_pool k ! c)) i)"
    using e alloc_none[of k] unfolding sys_fork_def Let_def
    by (cases "task_alloc k"; cases "fst (task_alloc k)") (auto split: option.splits if_splits)
  then show ?thesis
  proof cases
    case (2 c i k1)
    let ?p = "task_pool k ! c"
    obtain dir m where cl: "vmm_clone_page_directory (task_dirs k1) (t_page_dir_phys ?p) (k_mm k1) = (dir, m)" by fastforce
    define k2 where "k2 = upd_task i (\<lambda>t. t\<lparr>t_name := take_name (t_name ?p @ ''-child''), t_is_user_process := True,
        t_priority := t_priority ?p, t_time_slice := 10, t_page_dir_phys := dir\<rparr>) (set_mm m k1)"
    have e1: "embryo k (set_mm m k1) i" using embryo_heap(2)[OF alloc_embryo[OF inv 2(2)]] .
    have e2: "embryo k k2 i" unfolding k2_def by (rule embryo_upd[OF e1]) (use embryo_st[OF e1] in simp_all)
    have r: "(if dir = 0 then map_option (Pair (-12)) (task_free i k2)
      else k_malloc 8192 k2 \<bind> (\<lambda>(base, k3).
        if base = 0 then map_option (Pair (-12)) (task_free i (free_dir dir k3))
        else let k4 = upd_task i (\<lambda>t. t\<lparr>t_kernel_stack_base := base, t_kernel_stack := base + 8192,
                                    t_user_stack_base := t_user_stack_base ?p, t_user_stack := t_user_stack ?p,
                                    t_user_entry := t_user_entry ?p, t_heap_start := t_heap_start ?p,
                                    t_heap_end := t_heap_end ?p, t_heap_max := t_heap_max ?p,
                                    t_context := fork_context frame dir\<rparr>) k3
             in fork_fds c k4 \<bind> (\<lambda>(fds, k5).
                 case fds of
                   None \<Rightarrow> map_option (Pair (-12)) (task_free i (free_dir dir (on_heap (kfree base) k5)))
                 | Some table \<Rightarrow>
                     let k6 = upd_task i (\<lambda>t. t\<lparr>t_fd_table := table, t_cwd := t_cwd ?p, t_parent := Some c,
                                         t_state := TASK_READY\<rparr>) k5
                     in Some (t_pid (task_pool k6 ! i), ready_queue_add i k6)))) = Some (r, k')"
      using e 2 cl unfolding sys_fork_def Let_def k2_def by simp
    show ?thesis
    proof (cases "dir = 0")
      case True
      then show ?thesis using r embryo_free[OF e2] by auto
    next
      case False
      then obtain base k3 where m3: "k_malloc 8192 k2 = Some (base, k3)" using r by (auto simp: bind_eq_Some_conv)
      have e3: "embryo k k3 i" by (rule embryo_malloc[OF e2 m3])
      show ?thesis
      proof (cases "base = 0")
        case True
        then show ?thesis using r False m3 embryo_free[OF embryo_heap(4)[OF e3]] by auto
      next
        case base: False
        define k4 where "k4 = upd_task i (\<lambda>t. t\<lparr>t_kernel_stack_base := base, t_kernel_stack := base + 8192,
                                    t_user_stack_base := t_user_stack_base ?p, t_user_stack := t_user_stack ?p,
                                    t_user_entry := t_user_entry ?p, t_heap_start := t_heap_start ?p,
                                    t_heap_end := t_heap_end ?p, t_heap_max := t_heap_max ?p,
                                    t_context := fork_context frame dir\<rparr>) k3"
        have e4: "embryo k k4 i" unfolding k4_def by (rule embryo_upd[OF e3]) (use embryo_st[OF e3] in simp_all)
        obtain fds k5 where f5: "fork_fds c k4 = Some (fds, k5)"
          and r5: "(case fds of
                   None \<Rightarrow> map_option (Pair (-12)) (task_free i (free_dir dir (on_heap (kfree base) k5)))
                 | Some table \<Rightarrow>
                     let k6 = upd_task i (\<lambda>t. t\<lparr>t_fd_table := table, t_cwd := t_cwd ?p, t_parent := Some c,
                                         t_state := TASK_READY\<rparr>) k5
                     in Some (t_pid (task_pool k6 ! i), ready_queue_add i k6)) = Some (r, k')"
          using r False m3 base by (auto simp: k4_def[symmetric] bind_eq_Some_conv)
        have e5: "embryo k k5 i" by (rule embryo_fork_fds[OF e4 f5])
        show ?thesis
        proof (cases fds)
          case None
          then show ?thesis using r5 embryo_free[OF embryo_heap(4)[OF embryo_heap(1)[OF e5]]] by auto
        next
          case (Some table)
          moreover have "c \<noteq> i" using e5 2(1) by (auto simp: embryo_def)
          ultimately show ?thesis using r5 embryo_add[OF embryo_upd[OF e5]] by (auto simp: Let_def)
        qed
      qed
    qed
  qed (use inv in simp)
qed

end
