(* ===== verification/Sched_Props.thy ===== *)
theory Sched_Props
  imports Sched
begin

text \<open>
  What the task layer guarantees: in every state the kernel can reach the ready queue holds exactly the tasks that are
  ready; yielding is round robin; and two leaks, of control blocks by \<^verbatim>\<open>task_exit\<close> and of address spaces by
  \<^verbatim>\<open>sys_kill\<close>.
\<close>

section \<open>Every reachable state\<close>

definition running :: "'a sched_state_scheme \<Rightarrow> nat \<Rightarrow> bool" where
  "running k c \<longleftrightarrow> current_task k = Some c \<and> c \<noteq> 0 \<and> st k c = TASK_RUNNING"

text \<open>The calls the kernel makes on the task layer, in any order and with any arguments.  They include the calls of a
  task that has been killed and still runs.  Two things are left out.  The idle task, in slot 0, neither blocks, sleeps
  nor exits: its body is a loop that halts the processor.  And a process that has killed itself does not go on to kill its
  parent, which would free its own control block under it.\<close>

inductive kernel_step :: "kernel_state \<Rightarrow> kernel_state \<Rightarrow> bool" where
  step_tick: "kernel_step k (task_timer_tick freq now k)"
| step_wakeup: "kernel_step k (task_wakeup k)"
| step_yield: "task_yield k = Some k' \<Longrightarrow> kernel_step k k'"
| step_block: "current_task k \<noteq> Some 0 \<Longrightarrow> task_block k = Some k' \<Longrightarrow> kernel_step k k'"
| step_sleep: "current_task k \<noteq> Some 0 \<Longrightarrow> task_sleep now ms k = Some k' \<Longrightarrow> kernel_step k k'"
| step_exit: "current_task k \<noteq> Some 0 \<Longrightarrow> task_exit code k = Some k' \<Longrightarrow> kernel_step k k'"
| step_fork: "sys_fork frame k = Some (r, k') \<Longrightarrow> kernel_step k k'"
| step_kill: "spares_parent pid k \<Longrightarrow> sys_kill pid sig k = Some (r, k') \<Longrightarrow> kernel_step k k'"
| step_wait: "sys_waitpid wpid opts k = Some (w, k') \<Longrightarrow> kernel_step k k'"
| step_thread: "task_create_kernel_thread enter entry name k = Some (r, k') \<Longrightarrow> kernel_step k k'"
| step_process: "task_create_user_process name entry dir pend k = Some (r, k') \<Longrightarrow> kernel_step k k'"

inductive kernel_reachable :: "kernel_state \<Rightarrow> bool" where
  reach_init: "pending_cleanup_task k0 = None \<Longrightarrow> task_init enter loop k0 = Some k \<Longrightarrow> scheduler_initialized k \<Longrightarrow> \<not> scheduler_initialized k0
    \<Longrightarrow> kernel_reachable k"
| reach_step: "kernel_reachable k \<Longrightarrow> kernel_step k k' \<Longrightarrow> kernel_reachable k'"

inductive_cases kernel_stepE: "kernel_step k k'"

lemma kernel_step_keeps:
  assumes "kernel_step k k'" "sched_inv k"
  shows "sched_inv k' \<and> keeps_dead k k'"
  using assms
proof (induction rule: kernel_step.induct)
  case (step_exit k code k')
  then obtain c where "current_task k = Some c" "c \<noteq> 0" by (cases "current_task k") (auto simp: task_exit_def)
  then show ?case using task_exit_keeps(1,2) step_exit by blast
qed (auto simp: task_yield_def task_timer_tick_keeps task_wakeup_keeps
       dest: task_block_keeps task_sleep_keeps sys_fork_keeps sys_kill_keeps sys_waitpid_keeps
         task_create_kernel_thread_keeps task_create_user_process_keeps schedule_keeps[OF sched_invD(1,2)])

lemma task_init_inv:
  assumes "pending_cleanup_task k0 = None" "task_init enter loop k0 = Some k" "scheduler_initialized k" "\<not> scheduler_initialized k0"
  shows "sched_inv k"
proof -
  define z where "z = k0\<lparr>task_pool := replicate 256 zero_task, current_task := None, ready_queue_head := None,
           ready_queue_tail := None, next_pid := 1, active_task_count := 0\<rparr>"
  define k1 where "k1 = (upd_task 0 (\<lambda>_. zero_task\<lparr>t_name := ''idle'', t_state := TASK_READY, t_priority := -1,
                 t_time_slice := 10\<rparr>) z)\<lparr>idle_task := Some 0\<rparr>"
  obtain base k2 where m: "k_malloc 8192 k1 = Some (base, k2)"
    using assms(2) by (auto simp: task_init_def task_create_idle_def z_def[symmetric] k1_def[symmetric] bind_eq_Some_conv)
  note s2 = same_schedD[OF same_sched_malloc[OF m]]
  have ini: "\<not> scheduler_initialized k2" using assms(4) s2(8) by (simp add: k1_def z_def)
  define stack where "stack = base + 8192"
  define k3 where "k3 = upd_task 0 (\<lambda>t. t\<lparr>t_kernel_stack_base := base, t_kernel_stack := stack, t_page_dir_phys := current_dir_phys (k_mm k2),
                   t_context := kernel_context enter stack (current_dir_phys (k_mm k2)), t_cwd := ''/''\<rparr>) (push_entry stack loop k2)"
  have k: "k = k3\<lparr>active_task_count := active_task_count k3 + 1, scheduler_initialized := True\<rparr>"
  proof (cases "base = 0")
    case True
    then have "k = k2" using assms(2) m
      by (simp add: task_init_def task_create_idle_def z_def[symmetric] k1_def[symmetric])
    then show ?thesis using ini assms(3) by simp
  next
    case False
    then show ?thesis using assms(2) m
      by (simp add: task_init_def task_create_idle_def z_def[symmetric] k1_def[symmetric] k3_def stack_def Let_def)
  qed
  note s3 = same_schedD[OF same_sched_ops(1), of "\<lambda>h. h\<lparr>heap_mem := store32 (heap_mem h) (stack - 4) loop\<rparr>" k2]
  have pool: "length (task_pool k) = 256" "\<And>j. j < 256 \<Longrightarrow> st k j = (if j = 0 then TASK_READY else TASK_UNUSED)" "t_pid (task_pool k ! 0) = 0"
      "\<And>j. j < 256 \<Longrightarrow> t_parent (task_pool k ! j) = None"
    and f: "current_task k = None" "pending_cleanup_task k = None" "idle_task k = Some 0" "scheduler_initialized k"
      "ready_queue_head k = None" "ready_queue_tail k = None" "active_task_count k = 1"
    using s2 s3 assms(1) by (simp_all add: k k3_def push_entry_def k1_def z_def nth_update zero_task_def)
  have l: "live_pcbs k = {0}" "ready_set k = {}" using pool by (auto simp: live_pcbs_def ready_set_def split: if_splits)
  have "queue_set k {}" unfolding queue_set_def using f by (intro exI[of _ "[]"]) (simp add: queue_is_def)
  then show ?thesis using pool f l by (simp add: sched_inv_def pool_ok_def)
qed

lemma reachable_inv: "kernel_reachable k \<Longrightarrow> sched_inv k"
  by (induction rule: kernel_reachable.induct) (auto intro: task_init_inv dest: kernel_step_keeps)

text \<open>
  C4: The ready queue is exact.  In every state reached from \<^verbatim>\<open>task_init\<close> by any sequence of timer ticks, wake-ups,
  yields, blocking, sleeping, exits, forks, kills, waits and creations of tasks, including the calls of a task that has
  been killed and still runs, the doubly linked queue is well formed and contains every ready task exactly once and
  nothing else; the current task is neither ready, blocked nor unused; and \<^verbatim>\<open>active_task_count\<close> is the number of control
  blocks in use.  The idle task, in slot 0, is never queued.  Left out are blocking, sleeping and exiting by the idle task,
  and one sequence of calls: a process that has killed itself and then kills its parent.
\<close>
theorem ready_queue_exact:
  assumes "kernel_reachable k"
  shows "\<exists>xs. queue_is k xs \<and> distinct xs \<and> set xs = {i. i < 256 \<and> i \<noteq> 0 \<and> t_state (task_pool k ! i) = TASK_READY}
    \<and> (\<forall>c. current_task k = Some c \<longrightarrow> c \<notin> set xs \<and> t_state (task_pool k ! c) \<in> {TASK_RUNNING, TASK_ZOMBIE, TASK_TERMINATED})
    \<and> unat (active_task_count k) = card {i. i < 256 \<and> t_state (task_pool k ! i) \<noteq> TASK_UNUSED}"
proof -
  note inv = reachable_inv[OF assms]
  note d = sched_invD[OF inv]
  obtain xs where xs: "queue_is k xs" "set xs = ready_set k" using d(2) by (auto simp: queue_set_def)
  have cur: "c \<notin> set xs \<and> st k c \<in> {TASK_RUNNING, TASK_ZOMBIE, TASK_TERMINATED}" if "current_task k = Some c" for c
    using d(7)[OF that] xs(2) by (cases "st k c") (auto simp: ready_set_def)
  have "unat (active_task_count k) = card (live_pcbs k)" using d(1) by (simp add: pool_ok_def)
  then show ?thesis using xs cur d(3) by (intro exI[of _ xs]) (auto simp: queue_is_def ready_set_def live_pcbs_def)
qed

definition boot_heap :: heap_state where
  "boot_heap = heap_sample\<lparr>heap_end := 0xC0010000, heap_max := 0xC0010000,
     blocks := (blocks heap_sample)(0xC0000000 := chunk 0xFFEC True 0 0)\<rparr>"

definition boot_state :: kernel_state where
  "boot_state = \<lparr>task_pool = [], current_task = None, ready_queue_head = None, ready_queue_tail = None, next_pid = 0,
     active_task_count = 0, idle_task = None, scheduler_initialized = False, pending_cleanup_task = None, tick_count = 0,
     k_heap = boot_heap, k_vfs = ps_vfs empty_proc, tss_esp0 = 0\<rparr>"

lemma boot_malloc:
  "\<exists>h. kmalloc 8192 boot_heap = Some (0xC0000014, h) \<and> (\<forall>m. \<exists>h'. kmalloc 8192 (h\<lparr>heap_mem := m\<rparr>) = Some (0xC0002028, h'))"
proof -
  have "search_block (blocks boot_heap) 8192 0xC0000000 = Some (Found 0xC0000000)"
    by (rule search_block_hit) (simp_all add: boot_heap_def chunk_def)
  then show ?thesis
    by (simp add: kmalloc_def split_def boot_heap_def heap_sample_def chunk_def Let_def search_block_hit search_block_next)
qed

text \<open>The state after \<^verbatim>\<open>task_init\<close> and the creation of a kernel thread.\<close>

lemma boot_thread:
  "\<exists>k. kernel_reachable k \<and> length (task_pool k) = 256 \<and> st k 1 = TASK_READY"
proof -
  obtain h where h: "kmalloc 8192 boot_heap = Some (0xC0000014, h)"
      "\<forall>m. \<exists>h'. kmalloc 8192 (h\<lparr>heap_mem := m\<rparr>) = Some (0xC0002028, h')" using boot_malloc by blast
  have *: "[0..<256] = 0 # 1 # [2..<256]" by (simp add: upt_conv_Cons)
  obtain k where k: "task_init 0x100000 0x100100 boot_state = Some k" "scheduler_initialized k" "length (task_pool k) = 256"
      "st k 0 = TASK_READY" "st k 1 = TASK_UNUSED" "\<exists>m. k_heap k = h\<lparr>heap_mem := m\<rparr>"
    using h(1) by (auto simp: task_init_def task_create_idle_def k_malloc_def boot_state_def upd_task_def push_entry_def on_heap_def Let_def)
  obtain m h' where h': "k_heap k = h\<lparr>heap_mem := m\<rparr>" "kmalloc 8192 (h\<lparr>heap_mem := m\<rparr>) = Some (0xC0002028, h')" using k(6) h(2) by blast
  have a: "find (\<lambda>i. st k i = TASK_UNUSED) [0..<256] = Some 1" using k(4,5) * by simp
  have add: "length (task_pool (ready_queue_add 1 j)) = length (task_pool j)"
    "1 < length (task_pool j) \<Longrightarrow> st (ready_queue_add 1 j) 1 = st j 1" for j :: kernel_state
    using same_tasksD(1)[OF same_add] same_st[OF same_add] by auto
  obtain r k' where k': "task_create_kernel_thread 0x100000 0x200000 ''init'' k = Some (r, k')" "length (task_pool k') = 256" "st k' 1 = TASK_READY"
    using h' k(3) a add by (simp add: task_create_kernel_thread_def task_alloc_def k_malloc_def push_entry_def on_heap_def upd_task_def Let_def)
  have "kernel_reachable k" using reach_init[of boot_state] k by (auto simp: boot_state_def)
  then show ?thesis using reach_step step_thread k' by blast
qed

theorem ready_queue_exact_witness:
  "\<exists>k xs. kernel_reachable k \<and> queue_is k xs \<and> distinct xs \<and> 1 \<in> set xs"
proof -
  obtain k where "kernel_reachable k" "st k 1 = TASK_READY" using boot_thread by blast
  then show ?thesis using ready_queue_exact[of k] by (auto intro!: exI[of _ k])
qed

section \<open>Yielding is round robin\<close>

lemma queue_is_links:
  assumes "length (task_pool k') = length (task_pool k)" "\<And>j. t_next (task_pool k' ! j) = t_next (task_pool k ! j)"
    "\<And>j. t_prev (task_pool k' ! j) = t_prev (task_pool k ! j)" "ready_queue_head k' = ready_queue_head k" "ready_queue_tail k' = ready_queue_tail k"
  shows "queue_is k' xs = queue_is k xs"
proof -
  have "dll (task_pool k') None xs None = dll (task_pool k) None xs None"
    using assms by (intro dll_links) auto
  then show ?thesis using assms by (simp add: queue_is_def)
qed

text \<open>The running task \<open>c\<close> and the queue \<open>xs\<close>, with nothing left to release.\<close>

definition in_turn :: "kernel_state \<Rightarrow> nat \<Rightarrow> nat list \<Rightarrow> bool" where
  "in_turn k c xs \<longleftrightarrow> sched_inv k \<and> running k c \<and> pending_cleanup_task k = None \<and> queue_is k xs \<and> set xs = ready_set k"

lemma yield_turn:
  assumes t: "in_turn k c xs"
  shows "\<exists>k'. task_yield k = Some k' \<and> in_turn k' (hd (xs @ [c])) (tl (xs @ [c]))"
proof -
  have inv: "sched_inv k" and c: "current_task k = Some c" "c \<noteq> 0" "st k c = TASK_RUNNING" and p: "pending_cleanup_task k = None"
    and q: "queue_is k xs" "set xs = ready_set k"
    using t by (auto simp: in_turn_def running_def)
  note d = sched_invD[OF inv]
  have lc: "c < 256" using d(7)[OF c(1)] by simp
  define k1 where "k1 = upd_task c (\<lambda>t. t\<lparr>t_state := TASK_READY\<rparr>) k"
  have q1: "queue_is k1 xs" using q(1) d(3) lc by (subst queue_is_links[of k1 k]) (auto simp: k1_def nth_update)
  have nc: "c \<notin> set xs" "c < length (task_pool k1) \<and> t_state (task_pool k1 ! c) = TASK_READY"
    using q(2) c d(3) lc by (auto simp: ready_set_def k1_def)
  note r = rq.rotate_queue[OF q1 nc]
  define k2 where "k2 = snd (ready_queue_pop (ready_queue_add c k1))"
  let ?n = "hd (xs @ [c])"
  have pop: "ready_queue_pop (requeue_prev k) = (Some ?n, k2)"
    using r(1) c d(4) by (simp add: requeue_prev_def k1_def[symmetric] k2_def prod_eq_iff)
  have cl: "cleanup_pending k = Some k" using p by (simp add: cleanup_pending_def)
  have init: "scheduler_initialized k" using inv by (simp add: sched_inv_def pool_ok_def)
  have y: "task_yield k = Some (switch_to (Some c) ?n k2)"
    using init cl pop c by (simp add: task_yield_def task_schedule_def Let_def)
  let ?k = "switch_to (Some c) ?n k2"
  note f = switch_to_facts[of "Some c" ?n k2]
  have "queue_is ?k (tl (xs @ [c])) = queue_is k2 (tl (xs @ [c]))" by (rule queue_is_links) (rule f(1,3,4,8,9))+
  then have q2: "queue_is ?k (tl (xs @ [c]))" using r(2) by (simp only: k2_def)
  obtain nxt where s: "sched_inv ?k" "current_task ?k = Some nxt" "pending_cleanup_task ?k = None"
    "\<forall>j<256. st ?k j = after_schedule k nxt j"
    using task_schedule_inv[OF d(1,2), of ?k] y c by (auto simp: task_yield_def)
  have n: "nxt = ?n" using s(2) f(7) by simp
  have nz: "?n \<noteq> 0" "?n < 256" using q(2) c lc d(3) by (cases xs; auto simp: ready_set_def)+
  have run: "running ?k ?n" using f(7) s(4) nz n by (simp add: running_def after_schedule_def)
  obtain ys where ys: "queue_is ?k ys" "set ys = ready_set ?k" using sched_invD(2)[OF s(1)] by (auto simp: queue_set_def)
  have "ready_set ?k = insert c (ready_set k) - {?n}"
  proof (intro set_eqI)
    fix j
    have "st ?k j = (if j = ?n then TASK_RUNNING else if j = c then TASK_READY else st k j)" if "j < 256"
      using s(4) n c p that by (auto simp: after_schedule_def)
    then show "j \<in> ready_set ?k \<longleftrightarrow> j \<in> insert c (ready_set k) - {?n}"
      unfolding ready_set_def d(3) sched_invD(3)[OF s(1)] using c lc by (cases "j < 256") auto
  qed
  moreover have "set (tl (xs @ [c])) = insert c (set xs) - {?n}" using q nc by (cases xs) (auto simp: queue_is_def)
  ultimately have "set (tl (xs @ [c])) = ready_set ?k" using q(2) by simp
  then show ?thesis using y s(1,3) run q2 by (auto simp: in_turn_def)
qed

primrec yields :: "nat \<Rightarrow> kernel_state \<Rightarrow> kernel_state option" where
  "yields 0 k = Some k"
| "yields (Suc n) k = (case task_yield k of None \<Rightarrow> None | Some k' \<Rightarrow> yields n k')"

lemma yields_rotate:
  "in_turn k c xs \<Longrightarrow> \<exists>k'. yields n k = Some k' \<and> in_turn k' (hd (rotate n (c # xs))) (tl (rotate n (c # xs)))"
proof (induction n arbitrary: k c xs)
  case (Suc n)
  obtain k1 where k1: "task_yield k = Some k1" "in_turn k1 (hd (xs @ [c])) (tl (xs @ [c]))" using yield_turn[OF Suc.prems] by blast
  obtain k' where k': "yields n k1 = Some k'" "in_turn k' (hd (rotate n (xs @ [c]))) (tl (rotate n (xs @ [c])))"
    using Suc.IH[OF k1(2)] by auto
  then show ?case using k1 by (auto simp: rotate1_rotate_swap[symmetric] rotate_def funpow_swap1)
qed simp

text \<open>
  C16: Fair scheduling.  If every task yields, the processor goes round: from a state with running task \<open>c\<close> and ready queue
  \<open>xs\<close>, \<open>n\<close> yields always succeed and leave the tasks rotated by \<open>n\<close>.  So after \<open>n \<le> length xs\<close> yields the \<open>n\<close>-th
  waiting task runs, and after \<open>length xs + 1\<close> the first one again, with the queue as it was.
\<close>
theorem yield_round_robin:
  assumes "in_turn k c xs"
  shows "\<exists>k'. yields n k = Some k' \<and> in_turn k' (hd (rotate n (c # xs))) (tl (rotate n (c # xs)))
    \<and> (1 \<le> n \<and> n \<le> length xs \<longrightarrow> current_task k' = Some (xs ! (n - 1)))
    \<and> (n = Suc (length xs) \<longrightarrow> current_task k' = Some c \<and> queue_is k' xs)"
proof -
  obtain k' where k': "yields n k = Some k'" "in_turn k' (hd (rotate n (c # xs))) (tl (rotate n (c # xs)))" using yields_rotate[OF assms] by blast
  have h: "hd (rotate n (c # xs)) = xs ! (n - 1)" if "1 \<le> n" "n \<le> length xs"
    using that by (simp add: hd_rotate_conv_nth)
  have "rotate n (c # xs) = c # xs" if "n = Suc (length xs)" using that rotate_length01[of "c # xs"] rotate_id[of n "c # xs"] by simp
  then show ?thesis using k' h by (auto simp: in_turn_def running_def)
qed

text \<open>A state with the idle task, a running task, a ready task and no other.\<close>

definition sample_task :: "u32 \<Rightarrow> task_state \<Rightarrow> task_t" where
  "sample_task pid s = zero_task\<lparr>t_pid := pid, t_state := s, t_time_slice := 10\<rparr>"

definition turn_sample :: kernel_state where
  "turn_sample = boot_state\<lparr>task_pool := sample_task 0 TASK_RUNNING # sample_task 1 TASK_RUNNING
       # (sample_task 2 TASK_READY)\<lparr>t_is_user_process := True, t_page_dir_phys := 0x5000\<rparr> # replicate 253 zero_task,
     current_task := Some 1, ready_queue_head := Some 2, ready_queue_tail := Some 2, next_pid := 3, active_task_count := 3,
     idle_task := Some 0, scheduler_initialized := True\<rparr>"

lemma turn_sample_sel:
  "j < 256 \<Longrightarrow> task_pool turn_sample ! j = (if j = 0 then sample_task 0 TASK_RUNNING else if j = 1 then sample_task 1 TASK_RUNNING
     else if j = 2 then (sample_task 2 TASK_READY)\<lparr>t_is_user_process := True, t_page_dir_phys := 0x5000\<rparr> else zero_task)"
  "length (task_pool turn_sample) = 256"
proof -
  show "task_pool turn_sample ! j = (if j = 0 then sample_task 0 TASK_RUNNING else if j = 1 then sample_task 1 TASK_RUNNING
     else if j = 2 then (sample_task 2 TASK_READY)\<lparr>t_is_user_process := True, t_page_dir_phys := 0x5000\<rparr> else zero_task)" if "j < 256"
  proof (cases "j = 0 \<or> j = 1 \<or> j = 2")
    case False
    then have "j = Suc (Suc (Suc (j - 3)))" "j - 3 < 253" using that by arith+
    then obtain i where "j = Suc (Suc (Suc i))" "i < 253" by blast
    then show ?thesis by (simp add: turn_sample_def)
  qed (auto simp: turn_sample_def)
qed (simp add: turn_sample_def)


lemma turn_sample_turn: "in_turn turn_sample 1 [2]"
proof -
  have st: "st turn_sample j = (if j = 0 \<or> j = 1 then TASK_RUNNING else if j = 2 then TASK_READY else TASK_UNUSED)" if "j < 256" for j
    using turn_sample_sel(1)[OF that] by (simp add: sample_task_def)
  have l: "live_pcbs turn_sample = {0, 1, 2}" "ready_set turn_sample = {2}"
    using st by (auto simp: live_pcbs_def ready_set_def turn_sample_sel(2) split: if_splits)
  have f: "scheduler_initialized turn_sample" "idle_task turn_sample = Some 0" "current_task turn_sample = Some 1"
    "pending_cleanup_task turn_sample = None" "active_task_count turn_sample = 3" "ready_queue_head turn_sample = Some 2"
    "ready_queue_tail turn_sample = Some 2"
    by (simp_all add: turn_sample_def boot_state_def)
  have q: "queue_is turn_sample [2]"
    using turn_sample_sel(1)[of 2] by (simp add: queue_is_def f turn_sample_sel(2) sample_task_def zero_task_def)
  have "pool_ok turn_sample"
    unfolding pool_ok_def l turn_sample_sel(2) using st[of 0] st[of 1] turn_sample_sel(1)
    by (simp add: sample_task_def f)
  moreover have "queue_set turn_sample (ready_set turn_sample)" unfolding queue_set_def l using q by (intro exI[of _ "[2]"]) simp
  ultimately have "sched_inv turn_sample" using f st[of 1] by (simp add: sched_inv_def)
  then show ?thesis using f q l st[of 1] by (simp add: in_turn_def running_def)
qed

theorem yield_round_robin_witness:
  "\<exists>k' k''. yields 1 turn_sample = Some k' \<and> current_task k' = Some 2
     \<and> yields 2 turn_sample = Some k'' \<and> current_task k'' = Some 1 \<and> queue_is k'' [2]"
  using yield_round_robin[OF turn_sample_turn, of 1] yield_round_robin[OF turn_sample_turn, of 2] by fastforce

section \<open>Control blocks that are never released\<close>

lemma dead_forever:
  assumes "kernel_step\<^sup>*\<^sup>* k k'" "sched_inv k" "dead k i"
  shows "sched_inv k' \<and> dead k' i"
  using assms
proof (induction rule: rtranclp_induct)
  case (step y z)
  then show ?case using kernel_step_keeps[OF step(2)] by (simp add: keeps_dead_def)
qed simp

text \<open>
  C21: A task without a parent leaks its control block when it exits.  \<^verbatim>\<open>task_exit\<close> clears \<^verbatim>\<open>current_task\<close> before it calls
  \<^verbatim>\<open>task_schedule\<close>, which therefore does not see the terminated task and never schedules its release: whatever the
  kernel does afterwards, the slot stays \<^verbatim>\<open>TASK_TERMINATED\<close> and is never allocated again.
\<close>
theorem task_exit_leaks_pcb:
  assumes "sched_inv k" "running k c" "t_parent (task_pool k ! c) = None" "task_exit code k = Some k'" "kernel_step\<^sup>*\<^sup>* k' k''"
  shows "t_state (task_pool k'' ! c) = TASK_TERMINATED \<and> fst (task_alloc k'') \<noteq> Some c"
proof -
  have c: "current_task k = Some c" "c \<noteq> 0" using assms(2) by (auto simp: running_def)
  have "sched_inv k'" "dead k' c" using task_exit_keeps[OF assms(1) c assms(4)] assms(3) by auto
  then have d: "dead k'' c" using dead_forever[OF assms(5)] by blast
  then have "st k'' c = TASK_TERMINATED" by (simp add: dead_def)
  moreover have "fst (task_alloc k'') \<noteq> Some c"
    using \<open>st k'' c = TASK_TERMINATED\<close> find_Some_set[of "\<lambda>i. st k'' i = TASK_UNUSED" "[0..<length (task_pool k'')]" c]
    by (auto simp: task_alloc_def split: option.split)
  ultimately show ?thesis by simp
qed

lemma schedule_total:
  assumes p: "pool_ok k" and q: "queue_set k (ready_set k)" and n: "pending_cleanup_task k = None"
  shows "\<exists>k'. task_schedule k = Some k'"
proof -
  have cl: "cleanup_pending k = Some k" using n by (simp add: cleanup_pending_def)
  have "idle_task (snd (ready_queue_pop (requeue_prev k))) = Some 0"
    using same_tasksD(5)[OF same_pop[of "requeue_prev k"]] requeue_inv(5)[OF p q] p by (simp add: pool_ok_def)
  then show ?thesis using cl by (auto simp: task_schedule_def Let_def split: option.split prod.splits)
qed

lemma sample_children: "children 1 (upd_task 1 f turn_sample) = []" if "\<And>t. t_parent (f t) = t_parent t" for f
proof -
  have "t_parent (task_pool (upd_task 1 f turn_sample) ! j) = None" if "j < 256" for j
    using turn_sample_sel(1)[OF that] \<open>\<And>t. t_parent (f t) = t_parent t\<close> by (simp add: nth_update turn_sample_sel(2) sample_task_def zero_task_def)
  then show ?thesis by (auto simp: children_def filter_empty_conv turn_sample_sel(2))
qed

theorem task_exit_leaks_pcb_witness:
  "\<exists>k'. task_exit 0 turn_sample = Some k' \<and> t_state (task_pool k' ! 1) = TASK_TERMINATED \<and> fst (task_alloc k') \<noteq> Some 1"
proof -
  have t: "sched_inv turn_sample" "running turn_sample 1" "pending_cleanup_task turn_sample = None"
    using turn_sample_turn by (simp_all add: in_turn_def)
  let ?f = "\<lambda>t. t\<lparr>t_exit_code := 0, t_exit_signaled := False\<rparr>"
  define k1 where "k1 = upd_task 1 ?f turn_sample"
  have k1: "sched_inv k1" unfolding k1_def using plain_keeps(1)[OF plain_fields(2) t(1)] .
  have r1: "current_task k1 = Some 1" "st k1 1 = TASK_RUNNING" "t_parent (task_pool k1 ! 1) = None" "pending_cleanup_task k1 = None"
    using t turn_sample_sel by (simp_all add: k1_def running_def sample_task_def zero_task_def nth_update)
  have ch: "children 1 k1 = []" unfolding k1_def by (rule sample_children) simp
  have hl: "\<not> has_live_parent 1 k1" using r1(3) by (simp add: has_live_parent_def)
  let ?k = "no_current (upd_task 1 (\<lambda>t. t\<lparr>t_state := TASK_TERMINATED\<rparr>) k1)"
  note l = leave_current[OF k1 r1(1), of "\<lambda>t. t\<lparr>t_state := TASK_TERMINATED\<rparr>" TASK_TERMINATED]
  obtain k' where k': "task_schedule ?k = Some k'"
    using schedule_total[of ?k] pool_no_current[OF l(1)] l(2) r1(4) by auto
  have cur: "current_task turn_sample = Some 1" using t(2) by (simp add: running_def)
  have e: "task_exit 0 turn_sample = Some k'"
    unfolding task_exit_def cur option.case Let_def k1_def[symmetric] ch using hl k' by simp
  have par: "t_parent (task_pool turn_sample ! 1) = None" using turn_sample_sel(1)[of 1] by (simp add: sample_task_def zero_task_def)
  show ?thesis using task_exit_leaks_pcb[OF t(1,2) par e, of k'] e by blast
qed

section \<open>Address spaces that are never released\<close>

lemma upd_block_mm [simp]: "heap_mm (upd_block b f h) = heap_mm h"
  by (simp add: upd_block_def)

lemma coalesce_step_mm [simp]: "heap_mm (coalesce_next b h) = heap_mm h" "heap_mm (coalesce_prev b h) = heap_mm h"
  by (simp_all add: coalesce_next_def coalesce_prev_def Let_def)

lemma coalesce_mm [simp]: "heap_mm (coalesce b h) = heap_mm h"
  by (simp add: coalesce_def Let_def)

lemma kfree_mm [simp]: "heap_mm (kfree a h) = heap_mm h"
  by (simp add: kfree_def Let_def)

lemma free_stack_mm [simp]: "k_mm (free_stack t k) = k_mm k"
  by (simp add: free_stack_def on_heap_def)

lemma free_fds_mm: "free_fds t k = Some k' \<Longrightarrow> k_mm k' = k_mm k"
  by (auto simp: free_fds_def on_heap_def set_files_def split: option.splits)

text \<open>\<^verbatim>\<open>task_free\<close> clears the control block after it releases the address space, so a task that has not ended is
  itself the reason why the address space counts as in use.\<close>

lemma task_free_keeps_space:
  assumes "i < length (task_pool k)" "st k i \<in> {TASK_READY, TASK_RUNNING, TASK_BLOCKED}" "task_free i k = Some k'"
  shows "k_mm k' = k_mm k"
proof -
  let ?t = "task_pool k ! i"
  obtain k2 where k2: "free_fds ?t (free_stack ?t k) = Some k2" "k' = clear_pcb i (free_space ?t k2)"
    using assms(3) by (auto simp: task_free_def Let_def)
  have s: "same_sched k k2" using same_sched_trans[OF same_sched_free(1) same_sched_free(3)[OF k2(1)]] .
  have m: "k_mm k2 = k_mm k" using free_fds_mm[OF k2(1)] by simp
  have "(t_state ?t, t_page_dir_phys ?t) \<in> set (task_dirs k2)"
    using same_schedD(1)[OF s] assms(1) by (auto simp: task_dirs_def)
  then have "is_page_directory_in_use (task_dirs k2) (t_page_dir_phys ?t)"
    using assms(2) unfolding is_page_directory_in_use_def by force
  then have "vmm_free_page_directory (task_dirs k2) (t_page_dir_phys ?t) (k_mm k2) = k_mm k2"
    by (simp add: vmm_free_page_directory_def)
  then show ?thesis using m by (simp add: k2(2) clear_pcb_def upd_task_def free_space_def set_mm_def)
qed

lemma no_children_fold:
  assumes "\<And>j. j < length (task_pool k) \<Longrightarrow> t_parent (task_pool k ! j) \<noteq> Some target"
  shows "foldM (kill_child target) ns k = Some k"
proof (induction ns)
  case (Cons n ns)
  have "kill_child target n k = Some k"
    using get_by_pid_Some(1)[of "of_nat n" k] assms by (auto simp: kill_child_def split: option.split)
  then show ?case using Cons by simp
qed simp

text \<open>
  C23: killing an orphan leaks its memory.  \<^verbatim>\<open>sys_kill\<close> on a ready or blocked process without a parent and without children returns 0 and frees its
  control block, but physical and virtual memory are exactly as before: no frame of its address space and no page table is
  released, and no task refers to them any more.
\<close>
theorem sys_kill_leaks_space:
  assumes inv: "sched_inv k" and run: "running k c" and pid: "pid \<noteq> 0" "task_get_by_pid pid k = Some i" and live: "t_state (task_pool k ! i) \<in> {TASK_READY, TASK_BLOCKED}"
    and orphan: "t_parent (task_pool k ! i) = None" and childless: "\<forall>j<256. t_parent (task_pool k ! j) \<noteq> Some i"
    and kill: "sys_kill pid sig k = Some (r, k')"
  shows "r = 0 \<and> t_state (task_pool k' ! i) = TASK_UNUSED \<and> heap_mm (k_heap k') = heap_mm (k_heap k)"
proof -
  note d = sched_invD[OF inv]
  have c: "current_task k = Some c" "c \<noteq> 0" "st k c = TASK_RUNNING" using run by (auto simp: running_def)
  have i: "i < 256" "i \<noteq> c" using get_by_pid_Some(1)[OF pid(2)] d(3) live c by auto
  define k1 where "k1 = upd_task i (\<lambda>t. t\<lparr>t_exit_code := 128 + sig, t_exit_signaled := True, t_exit_signal := sig\<rparr>) k"
  have "t_parent (task_pool k1 ! j) \<noteq> Some i" if "j < length (task_pool k1)" for j
    using that childless orphan d(3) by (auto simp: k1_def nth_update)
  note fold1 = no_children_fold[OF this, of "[0..<256]"]
  have s1: "st k1 i = st k i" "t_parent (task_pool k1 ! i) = None" "length (task_pool k1) = 256" using orphan d(3) i by (simp_all add: k1_def)
  define k3 where "k3 = (if st k1 i = TASK_READY then ready_queue_remove i k1 else k1)"
  have s3: "same_tasks k1 k3" by (simp add: k3_def same_remove)
  have p3: "strip (task_pool k3 ! i) = strip (task_pool k1 ! i)" using same_tasksD(8)[OF s3] s1(3) i by simp
  have par: "\<not> has_live_parent i k3" using strip_sel(3)[OF p3] s1(2) by (simp add: has_live_parent_def)
  have st3: "st k3 i = st k i" using strip_sel(1)[OF p3] s1(1) by simp
  have nt: "t_state (task_pool k ! i) \<notin> {TASK_UNUSED, TASK_TERMINATED}" "t_state (task_pool k ! i) \<noteq> TASK_ZOMBIE" using live by auto
  have f: "r = 0" "task_free i k3 = Some k'"
    using kill pid par i(2) fold1 nt c unfolding sys_kill_def c(1) option.case pid(2) k1_def[symmetric]
    by (auto simp: k3_def Let_def)
  have l3: "i < length (task_pool k3)" using same_tasksD(1)[OF s3] s1(3) i by simp
  have "k_mm k' = k_mm k3" using task_free_keeps_space[OF l3 _ f(2)] live st3 by auto
  moreover have "k_mm k3 = k_mm k"
    by (auto simp: k3_def k1_def ready_queue_remove_def upd_task_def Let_def split: option.split)
  moreover obtain k4 where "same_sched k3 k4" "k' = clear_pcb i k4" using same_sched_task_free[OF f(2)] by blast
  then have "st k' i = TASK_UNUSED" using same_schedD(1)[of k3 k4] l3 by simp
  ultimately show ?thesis using f(1) by simp
qed

theorem sys_kill_leaks_space_witness:
  "\<exists>k'. sys_kill 2 9 turn_sample = Some (0, k') \<and> t_state (task_pool k' ! 2) = TASK_UNUSED \<and> heap_mm (k_heap k') = heap_mm (k_heap turn_sample)"
proof -
  have t: "sched_inv turn_sample" "running turn_sample 1" using turn_sample_turn by (simp_all add: in_turn_def)
  have pool: "task_pool turn_sample ! 2 = (sample_task 2 TASK_READY)\<lparr>t_is_user_process := True, t_page_dir_phys := 0x5000\<rparr>"
    using turn_sample_sel(1)[of 2] by simp
  have [simp]: "[0..<256] = 0 # 1 # 2 # [3..<256]" by (simp add: upt_conv_Cons)
  have pid: "task_get_by_pid 2 turn_sample = Some 2"
    using turn_sample_sel by (simp add: task_get_by_pid_def sample_task_def)
  have par: "t_parent (task_pool turn_sample ! j) = None" if "j < 256" for j
    using turn_sample_sel(1)[OF that] by (simp add: sample_task_def zero_task_def)
  define k1 where "k1 = upd_task 2 (\<lambda>t. t\<lparr>t_exit_code := 128 + 9, t_exit_signaled := True, t_exit_signal := 9\<rparr>) turn_sample"
  have par1: "t_parent (task_pool k1 ! j) \<noteq> Some 2" if "j < length (task_pool k1)" for j
    using that par[of j] par[of 2] turn_sample_sel(2) by (simp add: k1_def nth_update)
  note fold1 = no_children_fold[OF par1, of "[0..<256]"]
  define k3 where "k3 = ready_queue_remove 2 k1"
  have p3: "strip (task_pool k3 ! 2) = strip (task_pool k1 ! 2)" unfolding k3_def by (rule same_tasksD(8)[OF same_remove]) (simp add: k1_def turn_sample_sel(2))
  have k1_2: "task_pool k1 ! 2 = (task_pool turn_sample ! 2)\<lparr>t_exit_code := 128 + 9, t_exit_signaled := True, t_exit_signal := 9\<rparr>"
    by (simp add: k1_def turn_sample_sel(2))
  have "t_fd_table (task_pool k3 ! 2) = None"
    using p3 unfolding k1_2 pool by (cases "task_pool k3 ! 2") (simp add: strip_def sample_task_def zero_task_def)
  then obtain k' where f: "task_free 2 k3 = Some k'" by (auto simp: task_free_def free_fds_def Let_def)
  have np: "\<not> has_live_parent 2 k3" using strip_sel(3)[OF p3] par[of 2] by (simp add: has_live_parent_def k1_2)
  have st: "st k1 2 = TASK_READY" "st turn_sample 2 = TASK_READY" by (simp_all add: k1_2 pool sample_task_def)
  have cur: "current_task turn_sample = Some 1" using t(2) by (simp add: running_def)
  have k: "sys_kill 2 9 turn_sample = Some (0, k')"
    using fold1 st np f unfolding sys_kill_def cur option.case pid k1_def[symmetric]
    by (simp add: k3_def[symmetric] Let_def)
  have "0 = (0 :: u32) \<and> t_state (task_pool k' ! 2) = TASK_UNUSED \<and> heap_mm (k_heap k') = heap_mm (k_heap turn_sample)"
    by (rule sys_kill_leaks_space[OF t _ pid _ _ _ k]) (use st par in auto)
  then show ?thesis using k by blast
qed

section \<open>Waiting for a child\<close>

text \<open>
  C22: \<^verbatim>\<open>waitpid\<close> is exact.  A call by the current task either reports the first zombie among the awaited children, in the
  order of the table, with its status, and frees that control block and no other; or, when no awaited child has ended,
  returns -1 if there is no such child, returns 0 if asked not to block, and yields otherwise.
\<close>
theorem sys_waitpid_correct:
  assumes inv: "sched_inv k" and run: "current_task k = Some c" and wait: "sys_waitpid pid opts k = Some (w, k')"
  shows "(\<exists>n < length (waited_for c pid k). let j = waited_for c pid k ! n in t_state (task_pool k ! j) = TASK_ZOMBIE
        \<and> (\<forall>m < n. t_state (task_pool k ! (waited_for c pid k ! m)) \<noteq> TASK_ZOMBIE)
        \<and> w = Wait_ret (t_pid (task_pool k ! j)) (Some (exit_status (task_pool k ! j)))
        \<and> t_state (task_pool k' ! j) = TASK_UNUSED \<and> (\<forall>i. i \<noteq> j \<longrightarrow> task_pool k' ! i = task_pool k ! i)
        \<and> unat (active_task_count k') = unat (active_task_count k) - 1)
    \<or> (\<forall>j \<in> set (waited_for c pid k). t_state (task_pool k ! j) \<noteq> TASK_ZOMBIE)
        \<and> (if waited_for c pid k = [] then w = Wait_ret (-1) None \<and> k' = k
           else if opts AND 1 \<noteq> 0 then w = Wait_ret 0 None \<and> k' = k
           else w = Wait_yield \<and> task_yield k = Some k')"
proof -
  note d = sched_invD[OF inv]
  show ?thesis
  proof (cases "find (\<lambda>j. st k j = TASK_ZOMBIE) (waited_for c pid k)")
    case (Some j)
    then obtain n where n: "n < length (waited_for c pid k)" "j = waited_for c pid k ! n"
      "\<forall>m<n. st k (waited_for c pid k ! m) \<noteq> TASK_ZOMBIE" by (auto simp: find_Some_iff)
    have j: "st k j = TASK_ZOMBIE" "j < 256" "t_parent (task_pool k ! j) = Some c"
      using find_Some_set[OF Some] d(3) by (auto simp: waited_for_def children_def)
    have w: "w = Wait_ret (t_pid (task_pool k ! j)) (Some (exit_status (task_pool k ! j)))" "task_free j k = Some k'"
      using wait run Some by (auto simp: sys_waitpid_def)
    have nc: "current_task k \<noteq> Some j" using run j no_self_parent[OF inv j(2)] by auto
    note f = free_zombie[OF inv j(2,1) nc w(2)]
    have cards: "unat (active_task_count k) = card (live_pcbs k)" "unat (active_task_count k') = card (live_pcbs k')"
      using d(1) sched_invD(1)[OF f(1)] by (simp_all add: pool_ok_def)
    have "st k' i = (if i = j then TASK_UNUSED else st k i)" for i using f(4)[of i] f(5) by auto
    then have "live_pcbs k' = live_pcbs k - {j}" using d(3) sched_invD(3)[OF f(1)] by (auto simp: live_pcbs_def split: if_splits)
    moreover have "j \<in> live_pcbs k" using j d(3) by (simp add: live_pcbs_def)
    ultimately have "unat (active_task_count k') = unat (active_task_count k) - 1" using cards by simp
    then show ?thesis using j w f(4,5) n by (intro disjI1 exI[of _ n]) (auto simp: Let_def)
  next
    case None
    have nz: "\<forall>j \<in> set (waited_for c pid k). st k j \<noteq> TASK_ZOMBIE" using None by (simp add: find_None_iff)
    have "(if waited_for c pid k = [] then w = Wait_ret (-1) None \<and> k' = k
           else if opts AND 1 \<noteq> 0 then w = Wait_ret 0 None \<and> k' = k
           else w = Wait_yield \<and> task_yield k = Some k')"
      using wait run None by (auto simp: sys_waitpid_def split: if_splits)
    then show ?thesis using nz by blast
  qed
qed

text \<open>Process 1 with two children that have ended, in slots 2 and 3.\<close>

definition ended_child :: "u32 \<Rightarrow> u32 \<Rightarrow> task_t" where
  "ended_child pid code = (sample_task pid TASK_ZOMBIE)\<lparr>t_parent := Some 1, t_exit_code := code\<rparr>"

definition wait_sample :: kernel_state where
  "wait_sample = boot_state\<lparr>task_pool := sample_task 0 TASK_RUNNING # sample_task 1 TASK_RUNNING
       # ended_child 2 5 # ended_child 3 6 # replicate 252 zero_task,
     current_task := Some 1, next_pid := 4, active_task_count := 4, idle_task := Some 0, scheduler_initialized := True\<rparr>"

lemma wait_sample_sel:
  "j < 256 \<Longrightarrow> task_pool wait_sample ! j = (if j = 0 then sample_task 0 TASK_RUNNING else if j = 1 then sample_task 1 TASK_RUNNING
     else if j = 2 then ended_child 2 5 else if j = 3 then ended_child 3 6 else zero_task)"
  "length (task_pool wait_sample) = 256"
proof -
  show "task_pool wait_sample ! j = (if j = 0 then sample_task 0 TASK_RUNNING else if j = 1 then sample_task 1 TASK_RUNNING
     else if j = 2 then ended_child 2 5 else if j = 3 then ended_child 3 6 else zero_task)" if "j < 256"
  proof (cases "j = 0 \<or> j = 1 \<or> j = 2 \<or> j = 3")
    case False
    then have "j = Suc (Suc (Suc (Suc (j - 4))))" "j - 4 < 252" using that by arith+
    then obtain i where "j = Suc (Suc (Suc (Suc i)))" "i < 252" by blast
    then show ?thesis by (simp add: wait_sample_def)
  qed (auto simp: wait_sample_def)
qed (simp add: wait_sample_def)

lemma wait_sample_inv: "sched_inv wait_sample"
proof -
  have st: "st wait_sample j = (if j = 0 \<or> j = 1 then TASK_RUNNING else if j = 2 \<or> j = 3 then TASK_ZOMBIE else TASK_UNUSED)"
    and par: "t_parent (task_pool wait_sample ! j) = (if j = 2 \<or> j = 3 then Some 1 else None)" if "j < 256" for j
    using wait_sample_sel(1)[OF that] by (simp_all add: sample_task_def ended_child_def zero_task_def)
  have l: "live_pcbs wait_sample = {0, 1, 2, 3}" "ready_set wait_sample = {}"
    using st by (auto simp: live_pcbs_def ready_set_def wait_sample_sel(2) split: if_splits)
  have f: "scheduler_initialized wait_sample" "idle_task wait_sample = Some 0" "current_task wait_sample = Some 1"
    "pending_cleanup_task wait_sample = None" "active_task_count wait_sample = 4" "ready_queue_head wait_sample = None"
    "ready_queue_tail wait_sample = None"
    by (simp_all add: wait_sample_def boot_state_def)
  have "pool_ok wait_sample"
    unfolding pool_ok_def l wait_sample_sel(2) using st[of 0] st[of 1] wait_sample_sel(1)[of 0] par
    by (simp add: sample_task_def f)
  moreover have "queue_set wait_sample {}" unfolding queue_set_def using f by (intro exI[of _ "[]"]) (simp add: queue_is_def)
  ultimately show ?thesis using f st[of 1] l by (simp add: sched_inv_def)
qed

theorem sys_waitpid_correct_witness:
  "\<exists>k'. sys_waitpid (-1) 0 wait_sample = Some (Wait_ret 2 (Some 0x500), k') \<and> t_state (task_pool k' ! 2) = TASK_UNUSED
     \<and> task_pool k' ! 3 = ended_child 3 6"
proof -
  have *: "[0..<256] = 0 # 1 # 2 # 3 # [4..<256]" by (simp add: upt_conv_Cons)
  have "filter (\<lambda>j. st wait_sample j \<noteq> TASK_UNUSED \<and> t_parent (task_pool wait_sample ! j) = Some 1) [4..<256] = []"
    using wait_sample_sel(1) by (simp add: filter_empty_conv)
  then have w: "waited_for 1 (-1) wait_sample = [2, 3]"
    using wait_sample_sel(1)[of 0] wait_sample_sel(1)[of 1] wait_sample_sel(1)[of 2] wait_sample_sel(1)[of 3]
    by (simp add: waited_for_def children_def wait_sample_sel(2) * sample_task_def ended_child_def zero_task_def)
  have c: "current_task wait_sample = Some 1" by (simp add: wait_sample_def)
  have z: "st wait_sample 2 = TASK_ZOMBIE" "task_pool wait_sample ! 2 = ended_child 2 5" "task_pool wait_sample ! 3 = ended_child 3 6"
    using wait_sample_sel(1)[of 2] wait_sample_sel(1)[of 3] by (simp_all add: ended_child_def sample_task_def)
  have "t_fd_table (task_pool wait_sample ! 2) = None" by (simp add: z ended_child_def sample_task_def zero_task_def)
  then obtain k' where f: "task_free 2 wait_sample = Some k'" by (auto simp: task_free_def free_fds_def Let_def)
  have s: "exit_status (ended_child 2 5) = 0x500" "t_pid (ended_child 2 5) = 2"
    by (simp_all add: exit_status_def ended_child_def sample_task_def zero_task_def)
  have e: "sys_waitpid (-1) 0 wait_sample = Some (Wait_ret 2 (Some 0x500), k')"
    unfolding sys_waitpid_def c option.case w using f s z by simp
  show ?thesis using sys_waitpid_correct[OF wait_sample_inv c e] z e unfolding w by (auto simp: Let_def less_Suc_eq)
qed

end
