(* ===== verification/Checksum.thy ===== *)
theory Checksum
  imports Prelude
begin

unbundle bit_operations_syntax

text \<open>
  The Internet checksum of \<^verbatim>\<open>src/src/net/checksum.c\<close> and the byte-order helpers of the network headers:
  16- and 32-bit fields as the bytes a little-endian machine stores, the byte swaps of
  \<^verbatim>\<open>src/src/include/net/ip.h\<close>.  The lemmas read the 32-bit accumulator modulo 65535.
\<close>

section \<open>Fields as bytes\<close>

definition le16 :: "u8 \<Rightarrow> u8 \<Rightarrow> u16" where
  "le16 b0 b1 = ucast b0 OR push_bit 8 (ucast b1)"

definition bytes16 :: "u16 \<Rightarrow> u8 list" where
  "bytes16 v = [ucast v, ucast (drop_bit 8 v)]"

definition le32 :: "u8 \<Rightarrow> u8 \<Rightarrow> u8 \<Rightarrow> u8 \<Rightarrow> u32" where
  "le32 b0 b1 b2 b3 = ucast b0 OR push_bit 8 (ucast b1) OR push_bit 16 (ucast b2) OR push_bit 24 (ucast b3)"

definition bytes32 :: "u32 \<Rightarrow> u8 list" where
  "bytes32 v = [ucast v, ucast (drop_bit 8 v), ucast (drop_bit 16 v), ucast (drop_bit 24 v)]"

text \<open>\<^verbatim>\<open>htons\<close> and \<^verbatim>\<open>htonl\<close>; \<^verbatim>\<open>ntohs\<close> and \<^verbatim>\<open>ntohl\<close> are the same macros.\<close>

definition htons :: "u16 \<Rightarrow> u16" where
  "htons x = push_bit 8 x OR (drop_bit 8 x AND 0xFF)"

definition htonl :: "u32 \<Rightarrow> u32" where
  "htonl x = push_bit 24 x OR (drop_bit 8 x AND 0xFF00) OR (push_bit 8 x AND 0xFF0000)
     OR (drop_bit 24 x AND 0xFF)"

abbreviation ntohs :: "u16 \<Rightarrow> u16" where "ntohs \<equiv> htons"

abbreviation ntohl :: "u32 \<Rightarrow> u32" where "ntohl \<equiv> htonl"

section \<open>The routines\<close>

fun checksum_partial :: "u32 \<Rightarrow> u8 list \<Rightarrow> u32" where
  "checksum_partial acc (b0 # b1 # data) = checksum_partial (acc + ucast (le16 b0 b1)) data"
| "checksum_partial acc [b] = acc + ucast (le16 b 0)"
| "checksum_partial acc [] = acc"

lemma carry_hi: "unat (drop_bit 16 (s :: u32)) = unat s div 65536"
  by (simp only: unsigned_drop_bit_eq) (simp add: drop_bit_eq_div take_bit_eq_mod)

lemma carry_less:
  assumes "drop_bit 16 s \<noteq> (0 :: u32)"
  shows "unat ((s AND 0xFFFF) + drop_bit 16 s) = unat s mod 65536 + unat s div 65536"
    "unat ((s AND 0xFFFF) + drop_bit 16 s) < unat s"
proof -
  have lo: "unat (s AND 0xFFFF) = unat s mod 65536"
  proof -
    have "s AND 0xFFFF = take_bit 16 s" by (simp only: take_bit_eq_mask) (simp add: mask_eq_exp_minus_1)
    then have "unat (s AND 0xFFFF) = take_bit 16 (unat s)" by (simp only: unsigned_take_bit_eq)
    then show ?thesis by (simp only: take_bit_eq_mod) simp
  qed
  have "unat s div 65536 < 65536" using unat_lt_u32[of s] by (simp add: less_mult_imp_div_less)
  moreover have "unat s mod 65536 < 65536" by simp
  ultimately show sum: "unat ((s AND 0xFFFF) + drop_bit 16 s) = unat s mod 65536 + unat s div 65536"
    by (simp add: unat_add_no_wrap lo carry_hi)
  have "unat (drop_bit 16 s) \<noteq> 0" using assms by (simp add: unat_eq_0)
  then have "0 < unat s div 65536" by (simp add: carry_hi)
  moreover have "unat s = unat s div 65536 * 65536 + unat s mod 65536" by simp
  ultimately show "unat ((s AND 0xFFFF) + drop_bit 16 s) < unat s" unfolding sum by linarith
qed

text \<open>The loop that folds the carries into the low 16 bits.\<close>

function fold_carries :: "u32 \<Rightarrow> u32" where
  "fold_carries s = (if drop_bit 16 s \<noteq> 0 then fold_carries ((s AND 0xFFFF) + drop_bit 16 s) else s)"
  by auto
termination
  by (relation "measure unat") (simp_all add: carry_less(2))

declare fold_carries.simps [simp del]

definition checksum_finish :: "u32 \<Rightarrow> u16" where
  "checksum_finish acc = ucast (NOT (fold_carries acc))"

definition checksum :: "u8 list \<Rightarrow> u16" where
  "checksum data = checksum_finish (checksum_partial 0 data)"

definition checksum_verify :: "u8 list \<Rightarrow> bool" where
  "checksum_verify data \<longleftrightarrow> fold_carries (checksum_partial 0 data) = 0xFFFF"

section \<open>Facts on fields\<close>

lemma byte_masks:
  "(0xFF :: 'a::len word) = mask 8" "(0xFF00 :: u32) = push_bit 8 (mask 8)"
  "(0xFF0000 :: u32) = push_bit 16 (mask 8)"
  by (simp_all add: mask_eq_exp_minus_1 push_bit_eq_mult)

lemma htons_htons [simp]: "htons (htons x) = x"
  unfolding htons_def byte_masks by (rule bit_word_eqI) (auto simp: bit_simps)

lemma bit_byte_cases:
  fixes n :: nat
  assumes "n < 32"
  obtains k where "k < 8" "n = k" | k where "k < 8" "n = 8 + k"
  | k where "k < 8" "n = 16 + k" | k where "k < 8" "n = 24 + k"
proof -
  consider "n < 8" | "8 \<le> n \<and> n < 16" | "16 \<le> n \<and> n < 24" | "24 \<le> n" by linarith
  then show ?thesis using that(1)[of n] that(2)[of "n - 8"] that(3)[of "n - 16"] that(4)[of "n - 24"] assms
    by cases auto
qed

lemma htonl_htonl [simp]: "htonl (htonl x) = x"
  unfolding htonl_def byte_masks
proof (rule bit_word_eqI, goal_cases)
  case (1 n)
  then have "n < 32" by simp
  then show ?case by (cases n rule: bit_byte_cases) (simp_all add: bit_simps)
qed

lemma htons_inject [simp]: "htons x = htons y \<longleftrightarrow> x = y"
  by (metis htons_htons)

lemma le16_bytes16: "le16 (ucast v) (ucast (drop_bit 8 v)) = v"
  unfolding le16_def by (rule bit_word_eqI) (auto simp: bit_simps)

lemma le32_bytes32:
  "le32 (ucast v) (ucast (drop_bit 8 v)) (ucast (drop_bit 16 v)) (ucast (drop_bit 24 v)) = v"
  unfolding le32_def
proof (rule bit_word_eqI, goal_cases)
  case (1 n)
  then have "n < 32" by simp
  then show ?case by (cases n rule: bit_byte_cases) (simp_all add: bit_simps)
qed

lemma length_bytes [simp]: "length (bytes16 v) = 2" "length (bytes32 w) = 4"
  by (simp_all add: bytes16_def bytes32_def)

lemma unat_le16: "unat (le16 a b) = unat a + 256 * unat b"
proof -
  have "le16 a b = ucast a + push_bit 8 (ucast b)"
    unfolding le16_def by (rule disjunctive_add[symmetric]) (auto simp: bit_simps dest: bit_imp_le_length)
  moreover have "unat (push_bit 8 (ucast b :: u16)) = 256 * unat b"
    by (simp only: unsigned_push_bit_eq) (use unsigned_less[of b, where ?'a = nat] in
      \<open>simp add: push_bit_eq_mult take_bit_eq_mod unsigned_ucast_eq\<close>)
  ultimately show ?thesis
    using unsigned_less[of a, where ?'a = nat] unsigned_less[of b, where ?'a = nat]
    by (simp add: unat_word_ariths unsigned_ucast_eq take_bit_eq_mod)
qed

section \<open>The accumulator modulo 65535\<close>

lemma fold_carries_mod: "unat (fold_carries s) mod 65535 = unat s mod 65535"
proof (induction s rule: fold_carries.induct)
  case (1 s)
  show ?case
  proof (cases "drop_bit 16 s = 0")
    case False
    have "unat s = unat s div 65536 * 65535 + (unat s mod 65536 + unat s div 65536)"
      using div_mult_mod_eq[of "unat s" 65536] by linarith
    then have "unat s mod 65535 = (unat s div 65536 * 65535 + (unat s mod 65536 + unat s div 65536)) mod 65535"
      by (rule arg_cong)
    also have "\<dots> = (unat s mod 65536 + unat s div 65536) mod 65535" by (rule mod_mult_self3)
    finally have m: "unat s mod 65535 = (unat s mod 65536 + unat s div 65536) mod 65535" .
    have "fold_carries s = fold_carries ((s AND 0xFFFF) + drop_bit 16 s)"
      using False by (subst fold_carries.simps) simp
    then show ?thesis unfolding m using 1[OF False] by (simp only: carry_less(1)[OF False])
  qed (subst fold_carries.simps, simp)
qed

lemma fold_carries_bound: "unat (fold_carries s) < 65536"
proof (induction s rule: fold_carries.induct)
  case (1 s)
  show ?case
  proof (cases "drop_bit 16 s = 0")
    case True
    then have "unat s div 65536 = 0"
      by (metis carry_hi unat_0)
    then show ?thesis using True by (subst fold_carries.simps) simp
  qed (subst fold_carries.simps, use 1 in simp)
qed

lemma fold_carries_0: "fold_carries s = 0 \<longleftrightarrow> s = 0"
proof (induction s rule: fold_carries.induct)
  case (1 s)
  show ?case
  proof (cases "drop_bit 16 s = 0")
    case False
    have "unat s \<noteq> 0" using False by (auto simp: unat_eq_0)
    moreover have "unat s div 65536 * 65536 + unat s mod 65536 = unat s" by simp
    ultimately have "unat s mod 65536 + unat s div 65536 \<noteq> 0" by (metis add_is_0 mult_0)
    then have "(s AND 0xFFFF) + drop_bit 16 s \<noteq> 0" by (metis carry_less(1)[OF False] unat_0)
    moreover have "s \<noteq> 0" using False by auto
    ultimately show ?thesis using 1[OF False] False by (subst fold_carries.simps) simp
  qed (subst fold_carries.simps, simp)
qed

text \<open>The sum of the 16-bit words of a byte string, an odd last byte padded with zero.\<close>

fun word_sum :: "u8 list \<Rightarrow> nat" where
  "word_sum (b0 # b1 # data) = unat (le16 b0 b1) + word_sum data"
| "word_sum [b] = unat (le16 b 0)"
| "word_sum [] = 0"

lemma unat_le16_bound: "unat (x :: u16) \<le> 65535"
  using unsigned_less[of x, where ?'a = nat] by simp

lemma unat_ucast_u16: "unat (ucast (x :: u16) :: u32) = unat x"
  using unat_le16_bound[of x] by (simp add: unsigned_ucast_eq take_bit_eq_mod)

lemma word_sum_bound: "2 * word_sum data \<le> 65535 * (length data + 1)"
proof (induction data rule: word_sum.induct)
  case (1 b0 b1 data)
  then show ?case using unat_le16_bound[of "le16 b0 b1"] by simp
next
  case (2 b)
  then show ?case using unat_le16_bound[of "le16 b 0"] by simp
qed simp

lemma word_sum_append: "even (length xs) \<Longrightarrow> word_sum (xs @ ys) = word_sum xs + word_sum ys"
  by (induction xs rule: word_sum.induct) auto

text \<open>Below 128 KiB of data the 32-bit accumulator does not overflow.\<close>

lemma checksum_partial_sum:
  "unat acc + word_sum data < 4294967296 \<Longrightarrow> unat (checksum_partial acc data) = unat acc + word_sum data"
proof (induction acc data rule: checksum_partial.induct)
  case (1 acc b0 b1 data)
  have u: "unat (ucast (le16 b0 b1) :: u32) = unat (le16 b0 b1)" by (rule unat_ucast_u16)
  have "unat (acc + ucast (le16 b0 b1)) = unat acc + unat (le16 b0 b1)"
    using 1(2) by (subst unat_add_no_wrap) (simp_all add: u)
  then show ?case using 1 by simp
next
  case (2 acc b)
  then show ?case by (simp add: unat_add_no_wrap unat_ucast_u16)
qed simp

lemma checksum_partial_0:
  assumes "length data \<le> 131071"
  shows "unat (checksum_partial 0 data) = word_sum data"
proof -
  have "65535 * (length data + 1) \<le> 65535 * 131072" using assms by simp
  then have "word_sum data < 4294967296" using word_sum_bound[of data] by linarith
  then show ?thesis using checksum_partial_sum[of 0 data] by simp
qed

text \<open>The checksum complements the folded sum.\<close>

lemma unat_checksum_finish: "unat (checksum_finish s) = 65535 - unat (fold_carries s)"
proof -
  have "checksum_finish s = NOT (ucast (fold_carries s))"
    unfolding checksum_finish_def by (rule bit_word_eqI) (auto simp: bit_simps)
  moreover have "unat (ucast (fold_carries s) :: u16) = unat (fold_carries s)"
    using fold_carries_bound[of s] by (simp add: unsigned_ucast_eq take_bit_eq_mod)
  moreover have "unat (NOT x) = 65535 - unat x" for x :: u16
  proof -
    have "NOT x = 0xFFFF - x" by (simp add: not_eq_complement)
    then show ?thesis using unat_le16_bound[of x] by (simp add: unat_sub_if_size word_size)
  qed
  ultimately show ?thesis by simp
qed

text \<open>A folded value is fixed by its residue, up to the two representations of zero.\<close>

lemma fold_carries_top:
  "fold_carries s = 0xFFFF \<longleftrightarrow> s \<noteq> 0 \<and> unat s mod 65535 = 0"
proof
  assume a: "fold_carries s = 0xFFFF"
  then have "s \<noteq> 0" using fold_carries_0[of s] by auto
  moreover have "unat s mod 65535 = 0" using fold_carries_mod[of s] by (simp add: a)
  ultimately show "s \<noteq> 0 \<and> unat s mod 65535 = 0" ..
next
  assume a: "s \<noteq> 0 \<and> unat s mod 65535 = 0"
  have "unat (fold_carries s) \<noteq> 0" using a fold_carries_0[of s] by (simp add: unat_eq_0)
  moreover have "unat (fold_carries s) mod 65535 = 0" using a fold_carries_mod[of s] by simp
  ultimately have "unat (fold_carries s) = 65535" using fold_carries_bound[of s]
    by (auto simp: mod_eq_0_iff_dvd elim!: dvdE)
  then show "fold_carries s = 0xFFFF" by (simp add: word_eq_unat)
qed

lemma word_sum_field:
  "even (length pre) \<Longrightarrow> word_sum (pre @ bytes16 w @ post) = word_sum pre + unat w + word_sum post"
  by (simp add: word_sum_append bytes16_def le16_bytes16)

lemma checksum_verify_sum:
  "length data \<le> 131071 \<Longrightarrow>
    checksum_verify data \<longleftrightarrow> word_sum data \<noteq> 0 \<and> word_sum data mod 65535 = 0"
  by (simp add: checksum_verify_def fold_carries_top checksum_partial_0 flip: unat_eq_0)

lemma checksum_0_verify: "checksum data = 0 \<longleftrightarrow> checksum_verify data"
proof -
  let ?s = "fold_carries (checksum_partial 0 data)"
  have "checksum data = 0 \<longleftrightarrow> unat ?s = 65535"
    unfolding checksum_def unat_eq_0[symmetric] unat_checksum_finish
    using fold_carries_bound[of "checksum_partial 0 data"] by linarith
  also have "\<dots> \<longleftrightarrow> ?s = 0xFFFF" by (simp add: word_eq_unat)
  finally show ?thesis by (simp add: checksum_verify_def)
qed

lemma checksum_sum:
  assumes "length data \<le> 131071"
  shows "(word_sum data + unat (checksum data)) mod 65535 = 0" "word_sum data + unat (checksum data) \<noteq> 0"
proof -
  let ?s = "checksum_partial 0 data"
  have s: "unat ?s = word_sum data" by (rule checksum_partial_0[OF assms])
  have c: "unat (checksum data) + unat (fold_carries ?s) = 65535"
    unfolding checksum_def unat_checksum_finish using fold_carries_bound[of ?s] by linarith
  have "(word_sum data + unat (checksum data)) mod 65535
    = (unat (fold_carries ?s) + unat (checksum data)) mod 65535"
    by (metis fold_carries_mod mod_add_left_eq s)
  then show "(word_sum data + unat (checksum data)) mod 65535 = 0" using c by (simp add: add.commute)
  show "word_sum data + unat (checksum data) \<noteq> 0"
  proof
    assume z: "word_sum data + unat (checksum data) = 0"
    then have "?s = 0" using s by (simp add: unat_eq_0)
    then have "fold_carries ?s = 0" by (simp add: fold_carries_0)
    then show False using c z by simp
  qed
qed

text \<open>A packet with its checksum stored in the field verifies.\<close>

lemma checksum_stored:
  assumes "even (length pre)" "length pre + length post \<le> 131069"
  shows "checksum_verify (pre @ bytes16 (checksum (pre @ bytes16 0 @ post)) @ post)"
proof -
  have len: "length (pre @ bytes16 w @ post) \<le> 131071" for w using assms(2) by simp
  show ?thesis
    unfolding checksum_verify_sum[OF len] word_sum_field[OF assms(1)]
    using checksum_sum[OF len[of 0]] word_sum_field[OF assms(1), of 0 post] by (simp add: ac_simps)
qed

text \<open>
  C30: Storing the checksum of a packet, computed with the checksum field zero, into that field makes the
  packet verify (the sum over it is the complement of zero), and the check then detects every change of
  any single aligned 16-bit word of a verifying packet, up to the two representations 0 and 0xFFFF of
  zero.  The field may stand at any even offset of a packet of at most 131071 bytes.
\<close>

theorem checksum_correct:
  assumes "even (length pre)" "length pre + length post \<le> 131069"
  shows "checksum (pre @ bytes16 (checksum (pre @ bytes16 0 @ post)) @ post) = 0
    \<and> checksum_verify (pre @ bytes16 (checksum (pre @ bytes16 0 @ post)) @ post)
    \<and> (\<forall>w w'. checksum_verify (pre @ bytes16 w @ post) \<and> checksum_verify (pre @ bytes16 w' @ post)
         \<longrightarrow> w = w' \<or> {w, w'} = {0, 0xFFFF})"
proof -
  have len: "length (pre @ bytes16 w @ post) \<le> 131071" for w using assms(2) by simp
  let ?c = "checksum (pre @ bytes16 0 @ post)"
  have v: "checksum_verify (pre @ bytes16 ?c @ post)" by (rule checksum_stored[OF assms])
  have "w = w' \<or> {w, w'} = {0, 0xFFFF}"
    if "checksum_verify (pre @ bytes16 w @ post)" "checksum_verify (pre @ bytes16 w' @ post)" for w w'
  proof -
    let ?r = "word_sum pre + word_sum post"
    have "(?r + unat w) mod 65535 = (?r + unat w') mod 65535"
      using that unfolding checksum_verify_sum[OF len] word_sum_field[OF assms(1)] by (simp add: ac_simps)
    then have "(?r + unat w mod 65535) mod 65535 = (?r + unat w' mod 65535) mod 65535"
      by (simp only: mod_add_right_eq)
    then have m: "unat w mod 65535 = unat w' mod 65535"
      by (rule add_mod_inj[rotated 2]) simp_all
    have "unat w = unat w' \<or> {unat w, unat w'} = {0, 65535}"
      using m unat_le16_bound[of w] unat_le16_bound[of w']
      by (cases "unat w = 65535"; cases "unat w' = 65535") auto
    then show ?thesis by (auto simp: word_eq_unat doubleton_eq_iff)
  qed
  with v show ?thesis by (simp add: checksum_0_verify)
qed

theorem checksum_correct_witness:
  "checksum ([0x45, 0] @ bytes16 (checksum ([0x45, 0] @ bytes16 0 @ [0x28])) @ [0x28]) = 0"
  using checksum_correct[of "[0x45, 0]" "[0x28]"] by simp

end
