(* ===== verification/Netbuf.thy ===== *)
theory Netbuf
  imports Checksum "HOL-Library.Monad_Syntax"
begin

text \<open>
  Packet buffers, \<^verbatim>\<open>src/src/net/netbuf.c\<close>.  The network stack keeps its objects in a store: byte blocks
  and buffer descriptors, each under the address \<^verbatim>\<open>kmalloc\<close> returned for it.  The results of the coming
  \<^verbatim>\<open>kmalloc\<close> calls are a field of the state, \<open>0\<close> being the null pointer of a failed call, so that every
  statement holds for every course of allocations, failures included; the address of a live object is
  not a possible result and counts as a failure, and neither is a block that wraps around the end of
  the address space.  \<^verbatim>\<open>kfree\<close> removes the object.  An access to an object
  that is not there, or outside its block, is the value \<open>None\<close>.  Pointers into a buffer are 32-bit
  addresses.  Chains of buffers through \<^verbatim>\<open>next\<close> are lists of addresses in the structures that hold them.
\<close>

section \<open>State\<close>

record netbuf_t =
  nb_head :: u32
  nb_data :: u32
  nb_tail :: u32
  nb_end :: u32
  nb_len :: u32
  nb_total_size :: u32
  nb_mac_header :: u32
  nb_network_header :: u32
  nb_transport_header :: u32
  nb_dev :: u32
  nb_src_ip :: "u32 option"
  nb_src_port :: "u16 option"

text \<open>\<^verbatim>\<open>src_ip\<close> and \<^verbatim>\<open>src_port\<close> are not initialised by \<^verbatim>\<open>netbuf_alloc\<close>: they are \<open>None\<close> until
  \<^verbatim>\<open>udp_input\<close> sets them.  \<open>ns_now\<close> is the uptime in milliseconds, as the code truncates it.\<close>

record nb_state =
  ns_kmalloc :: "u32 list"
  ns_now :: u32
  ns_blocks :: "u32 \<Rightarrow> u8 list option"
  ns_bufs :: "u32 \<Rightarrow> netbuf_t option"

abbreviation (input) NETBUF_MAX_SIZE :: u32 where "NETBUF_MAX_SIZE \<equiv> 2048"

abbreviation (input) NETBUF_HEADROOM :: u32 where "NETBUF_HEADROOM \<equiv> 128"

section \<open>Memory\<close>

definition kmalloc_next :: "(u32 \<Rightarrow> bool) \<Rightarrow> 'a nb_state_scheme \<Rightarrow> u32 \<times> 'a nb_state_scheme" where
  "kmalloc_next live s =
     (case ns_kmalloc s of [] \<Rightarrow> (0, s) | a # as \<Rightarrow> (if live a then 0 else a, s\<lparr>ns_kmalloc := as\<rparr>))"

text \<open>Allocating a block of bytes with the given content.\<close>

definition kmalloc_block :: "u8 list \<Rightarrow> 'a nb_state_scheme \<Rightarrow> u32 \<times> 'a nb_state_scheme" where
  "kmalloc_block bs s =
     (let (a, s1) = kmalloc_next (\<lambda>x. ns_blocks s x \<noteq> None \<or> 4294967296 \<le> unat x + length bs) s
      in if a = 0 then (0, s1) else (a, s1\<lparr>ns_blocks := (ns_blocks s1)(a := Some bs)\<rparr>))"

definition kfree_block :: "u32 \<Rightarrow> 'a nb_state_scheme \<Rightarrow> 'a nb_state_scheme option" where
  "kfree_block a s = (if ns_blocks s a = None then None else Some (s\<lparr>ns_blocks := (ns_blocks s)(a := None)\<rparr>))"

text \<open>\<open>n\<close> bytes at address \<open>p\<close> of the block that starts at \<open>base\<close>.\<close>

definition block_read :: "'a nb_state_scheme \<Rightarrow> u32 \<Rightarrow> u32 \<Rightarrow> nat \<Rightarrow> u8 list option" where
  "block_read s base p n = do {
     bs \<leftarrow> ns_blocks s base;
     if unat (p - base) + n \<le> length bs then Some (take n (drop (unat (p - base)) bs)) else None }"

definition overwrite :: "nat \<Rightarrow> 'b list \<Rightarrow> 'b list \<Rightarrow> 'b list" where
  "overwrite i ws bs = take i bs @ ws @ drop (i + length ws) bs"

definition block_write :: "'a nb_state_scheme \<Rightarrow> u32 \<Rightarrow> u32 \<Rightarrow> u8 list \<Rightarrow> 'a nb_state_scheme option" where
  "block_write s base p ws = do {
     bs \<leftarrow> ns_blocks s base;
     if unat (p - base) + length ws \<le> length bs
     then Some (s\<lparr>ns_blocks := (ns_blocks s)(base := Some (overwrite (unat (p - base)) ws bs))\<rparr>)
     else None }"

section \<open>Operations\<close>

definition netbuf_alloc :: "u32 \<Rightarrow> 'a nb_state_scheme \<Rightarrow> u32 \<times> 'a nb_state_scheme" where
  "netbuf_alloc sz s =
     (let total_size = (if NETBUF_HEADROOM + sz > NETBUF_MAX_SIZE then NETBUF_MAX_SIZE else NETBUF_HEADROOM + sz);
          (buf, s1) = kmalloc_next (\<lambda>x. ns_bufs s x \<noteq> None) s
      in if buf = 0 then (0, s1)
         else let (h, s2) = kmalloc_block (replicate (unat total_size) 0) s1
              in if h = 0 then (0, s2)
                 else (buf, s2\<lparr>ns_bufs := (ns_bufs s2)(buf := Some
                   \<lparr>nb_head = h, nb_data = h + NETBUF_HEADROOM, nb_tail = h + NETBUF_HEADROOM,
                    nb_end = h + total_size, nb_len = 0, nb_total_size = total_size,
                    nb_mac_header = 0, nb_network_header = 0, nb_transport_header = 0, nb_dev = 0,
                    nb_src_ip = None, nb_src_port = None\<rparr>)\<rparr>))"

definition netbuf_free :: "u32 \<Rightarrow> 'a nb_state_scheme \<Rightarrow> 'a nb_state_scheme option" where
  "netbuf_free b s =
     (if b = 0 then Some s
      else do {
        buf \<leftarrow> ns_bufs s b;
        s1 \<leftarrow> (if nb_head buf \<noteq> 0 then kfree_block (nb_head buf) s else Some s);
        Some (s1\<lparr>ns_bufs := (ns_bufs s1)(b := None)\<rparr>) })"

definition upd_buf :: "u32 \<Rightarrow> (netbuf_t \<Rightarrow> netbuf_t) \<Rightarrow> 'a nb_state_scheme \<Rightarrow> 'a nb_state_scheme option" where
  "upd_buf b f s = do { buf \<leftarrow> ns_bufs s b; Some (s\<lparr>ns_bufs := (ns_bufs s)(b := Some (f buf))\<rparr>) }"

text \<open>Both operands of the comparison are signed: a length of \<open>2 ^ 31\<close> or more counts as negative.\<close>

definition netbuf_push :: "u32 \<Rightarrow> u32 \<Rightarrow> 'a nb_state_scheme \<Rightarrow> (u32 \<times> 'a nb_state_scheme) option" where
  "netbuf_push b len s =
     (if b = 0 then Some (0, s)
      else do {
        buf \<leftarrow> ns_bufs s b;
        if sint (nb_data buf - nb_head buf) < sint len then Some (0, s)
        else do {
          s1 \<leftarrow> upd_buf b (\<lambda>x. x\<lparr>nb_data := nb_data x - len, nb_len := nb_len x + len\<rparr>) s;
          Some (nb_data buf - len, s1) } })"

definition netbuf_pull :: "u32 \<Rightarrow> u32 \<Rightarrow> 'a nb_state_scheme \<Rightarrow> (u32 \<times> 'a nb_state_scheme) option" where
  "netbuf_pull b len s =
     (if b = 0 then Some (0, s)
      else do {
        buf \<leftarrow> ns_bufs s b;
        if nb_len buf < len then Some (0, s)
        else do {
          s1 \<leftarrow> upd_buf b (\<lambda>x. x\<lparr>nb_data := nb_data x + len, nb_len := nb_len x - len\<rparr>) s;
          Some (nb_data buf + len, s1) } })"

definition netbuf_put :: "u32 \<Rightarrow> u32 \<Rightarrow> 'a nb_state_scheme \<Rightarrow> (u32 \<times> 'a nb_state_scheme) option" where
  "netbuf_put b len s =
     (if b = 0 then Some (0, s)
      else do {
        buf \<leftarrow> ns_bufs s b;
        if sint (nb_end buf - nb_tail buf) < sint len then Some (0, s)
        else do {
          s1 \<leftarrow> upd_buf b (\<lambda>x. x\<lparr>nb_tail := nb_tail x + len, nb_len := nb_len x + len\<rparr>) s;
          Some (nb_tail buf, s1) } })"

text \<open>Reading and writing through a pointer into a buffer.\<close>

definition nb_read :: "'a nb_state_scheme \<Rightarrow> u32 \<Rightarrow> u32 \<Rightarrow> nat \<Rightarrow> u8 list option" where
  "nb_read s b p n = do { buf \<leftarrow> ns_bufs s b; block_read s (nb_head buf) p n }"

definition nb_write :: "u32 \<Rightarrow> u32 \<Rightarrow> u8 list \<Rightarrow> 'a nb_state_scheme \<Rightarrow> 'a nb_state_scheme option" where
  "nb_write b p ws s = do { buf \<leftarrow> ns_bufs s b; block_write s (nb_head buf) p ws }"

definition netbuf_clone :: "u32 \<Rightarrow> 'a nb_state_scheme \<Rightarrow> (u32 \<times> 'a nb_state_scheme) option" where
  "netbuf_clone b s =
     (if b = 0 then Some (0, s)
      else do {
        buf \<leftarrow> ns_bufs s b;
        let (nb, s1) = netbuf_alloc (nb_len buf) s;
        if nb = 0 then Some (0, s1)
        else do {
          new \<leftarrow> ns_bufs s1 nb;
          bs \<leftarrow> nb_read s1 b (nb_data buf) (unat (nb_len buf));
          s2 \<leftarrow> nb_write nb (nb_data new) bs s1;
          s3 \<leftarrow> upd_buf nb (\<lambda>x. x\<lparr>nb_tail := nb_data x + nb_len buf, nb_len := nb_len buf,
                 nb_dev := nb_dev buf\<rparr>) s2;
          Some (nb, s3) } })"

definition netbuf_reset :: "u32 \<Rightarrow> 'a nb_state_scheme \<Rightarrow> 'a nb_state_scheme option" where
  "netbuf_reset b s =
     (if b = 0 then Some s
      else upd_buf b (\<lambda>x. x\<lparr>nb_data := nb_head x + NETBUF_HEADROOM, nb_tail := nb_head x + NETBUF_HEADROOM,
             nb_len := 0, nb_mac_header := 0, nb_network_header := 0, nb_transport_header := 0\<rparr>) s)"

definition netbuf_headroom :: "u32 \<Rightarrow> 'a nb_state_scheme \<Rightarrow> u32 option" where
  "netbuf_headroom b s = (if b = 0 then Some 0 else do { buf \<leftarrow> ns_bufs s b; Some (nb_data buf - nb_head buf) })"

definition netbuf_tailroom :: "u32 \<Rightarrow> 'a nb_state_scheme \<Rightarrow> u32 option" where
  "netbuf_tailroom b s = (if b = 0 then Some 0 else do { buf \<leftarrow> ns_bufs s b; Some (nb_end buf - nb_tail buf) })"

section \<open>Well-formed buffers and what they hold\<close>

definition buf_ok :: "netbuf_t \<Rightarrow> u8 list \<Rightarrow> bool" where
  "buf_ok buf bs \<longleftrightarrow>
     unat (nb_data buf - nb_head buf) \<le> unat (nb_tail buf - nb_head buf)
     \<and> unat (nb_tail buf - nb_head buf) \<le> length bs \<and> length bs \<le> 2048
     \<and> unat (nb_len buf) = unat (nb_tail buf - nb_head buf) - unat (nb_data buf - nb_head buf)
     \<and> nb_end buf - nb_head buf = of_nat (length bs) \<and> nb_total_size buf = of_nat (length bs)
     \<and> nb_head buf \<noteq> 0 \<and> unat (nb_head buf) + length bs < 4294967296 \<and> 128 \<le> length bs"

definition net_ok :: "'a nb_state_scheme \<Rightarrow> bool" where
  "net_ok s \<longleftrightarrow>
     (\<forall>b buf. ns_bufs s b = Some buf \<longrightarrow>
        b \<noteq> 0 \<and> (\<exists>bs. ns_blocks s (nb_head buf) = Some bs \<and> buf_ok buf bs))
     \<and> (\<forall>b b' buf buf'. ns_bufs s b = Some buf \<and> ns_bufs s b' = Some buf' \<and> nb_head buf = nb_head buf'
          \<longrightarrow> b = b')"

text \<open>What a buffer holds: the free bytes in front, the packet, and the free bytes behind.\<close>

type_synonym packet = "u8 list \<times> u8 list \<times> u8 list"

definition split_at :: "nat \<Rightarrow> nat \<Rightarrow> u8 list \<Rightarrow> packet" where
  "split_at d t bs = (take d bs, take (t - d) (drop d bs), drop t bs)"

definition contents :: "'a nb_state_scheme \<Rightarrow> u32 \<Rightarrow> packet option" where
  "contents s b = do {
     buf \<leftarrow> ns_bufs s b;
     bs \<leftarrow> ns_blocks s (nb_head buf);
     Some (split_at (unat (nb_data buf - nb_head buf)) (unat (nb_tail buf - nb_head buf)) bs) }"

lemma net_okD:
  assumes "net_ok s" "ns_bufs s b = Some buf"
  obtains bs where "b \<noteq> 0" "ns_blocks s (nb_head buf) = Some bs" "buf_ok buf bs"
  using assms unfolding net_ok_def by blast

lemma net_ok_inj:
  "net_ok s \<Longrightarrow> ns_bufs s b = Some buf \<Longrightarrow> ns_bufs s b' = Some buf' \<Longrightarrow> nb_head buf = nb_head buf' \<Longrightarrow> b = b'"
  unfolding net_ok_def by blast

lemma net_okI:
  assumes "\<And>b buf. ns_bufs s b = Some buf \<Longrightarrow>
      b \<noteq> 0 \<and> (\<exists>bs. ns_blocks s (nb_head buf) = Some bs \<and> buf_ok buf bs)"
    and "\<And>b b' buf buf'. ns_bufs s b = Some buf \<Longrightarrow> ns_bufs s b' = Some buf' \<Longrightarrow> nb_head buf = nb_head buf'
          \<Longrightarrow> b = b'"
  shows "net_ok s"
  using assms unfolding net_ok_def by blast

lemma contents_Some:
  assumes "net_ok s" "ns_bufs s b = Some buf"
  obtains pre pay post where "contents s b = Some (pre, pay, post)"
    "ns_blocks s (nb_head buf) = Some (pre @ pay @ post)"
    "unat (nb_data buf - nb_head buf) = length pre"
    "unat (nb_tail buf - nb_head buf) = length pre + length pay" "nb_len buf = of_nat (length pay)"
    "length pre + length pay + length post \<le> 2048"
    "nb_head buf \<noteq> 0" "unat (nb_head buf) + length pre + length pay + length post < 4294967296"
proof -
  obtain bs where bs: "ns_blocks s (nb_head buf) = Some bs" "buf_ok buf bs"
    using net_okD[OF assms] by blast
  define d where "d = unat (nb_data buf - nb_head buf)"
  define t where "t = unat (nb_tail buf - nb_head buf)"
  have o: "d \<le> t" "t \<le> length bs" "length bs \<le> 2048" "unat (nb_len buf) = t - d"
    "nb_head buf \<noteq> 0" "unat (nb_head buf) + length bs < 4294967296"
    using bs(2) by (simp_all add: buf_ok_def d_def t_def)
  have c: "contents s b = Some (take d bs, take (t - d) (drop d bs), drop t bs)"
    using assms(2) bs(1) by (simp add: contents_def split_at_def d_def t_def)
  have eq: "take d bs @ take (t - d) (drop d bs) @ drop t bs = bs"
    using o(1) by (metis append.assoc append_take_drop_id le_add_diff_inverse take_add)
  have ln: "nb_len buf = of_nat (t - d)"
  proof -
    have "nb_len buf = of_nat (unat (nb_len buf))" by simp
    then show ?thesis by (simp only: o(4))
  qed
  have l: "length (take d bs) = d" "length (take (t - d) (drop d bs)) = t - d"
    "length (drop t bs) = length bs - t" using o by simp_all
  show ?thesis
  proof (rule that[OF c])
    show "ns_blocks s (nb_head buf) = Some (take d bs @ take (t - d) (drop d bs) @ drop t bs)"
      unfolding eq by (rule bs(1))
  qed (unfold l, use o ln in \<open>simp_all add: d_def[symmetric] t_def[symmetric]\<close>)
qed

text \<open>The facts on a well-formed buffer, from what it holds.\<close>

lemma contentsD:
  assumes "net_ok s" "contents s b = Some (pre, pay, post)"
  obtains buf where "ns_bufs s b = Some buf" "ns_blocks s (nb_head buf) = Some (pre @ pay @ post)"
    "unat (nb_data buf - nb_head buf) = length pre"
    "unat (nb_tail buf - nb_head buf) = length pre + length pay" "nb_len buf = of_nat (length pay)"
    "length pre + length pay + length post \<le> 2048" "b \<noteq> 0"
    "nb_head buf \<noteq> 0" "unat (nb_head buf) + length pre + length pay + length post < 4294967296"
    "buf_ok buf (pre @ pay @ post)"
proof -
  obtain buf where buf: "ns_bufs s b = Some buf"
    using assms(2) by (auto simp: contents_def bind_eq_Some_conv)
  obtain pre' pay' post' where c: "contents s b = Some (pre', pay', post')"
    "ns_blocks s (nb_head buf) = Some (pre' @ pay' @ post')"
    "unat (nb_data buf - nb_head buf) = length pre'"
    "unat (nb_tail buf - nb_head buf) = length pre' + length pay'" "nb_len buf = of_nat (length pay')"
    "length pre' + length pay' + length post' \<le> 2048"
    "nb_head buf \<noteq> 0" "unat (nb_head buf) + length pre' + length pay' + length post' < 4294967296"
    by (rule contents_Some[OF assms(1) buf])
  obtain bs where "b \<noteq> 0" "ns_blocks s (nb_head buf) = Some bs" "buf_ok buf bs"
    using net_okD[OF assms(1) buf] .
  with that[OF buf] c assms(2) show ?thesis by simp
qed

lemma unat_add_nat: "unat h + k < 4294967296 \<Longrightarrow> unat (h + of_nat k :: u32) = unat h + k"
  by (rule unat_add_const)

text \<open>A change of one descriptor keeps the other buffers.\<close>

lemma contents_other:
  assumes "b' \<noteq> b" "ns_blocks s' = ns_blocks s" "ns_bufs s' = (ns_bufs s)(b := x)"
  shows "contents s' b' = contents s b'"
  using assms by (simp add: contents_def)

lemma upd_buf_ok:
  assumes "net_ok s" "ns_bufs s b = Some buf" "ns_blocks s (nb_head buf) = Some bs"
    and "nb_head new = nb_head buf" "buf_ok new bs"
  shows "net_ok (s\<lparr>ns_bufs := (ns_bufs s)(b := Some new)\<rparr>)"
proof (rule net_okI, goal_cases)
  case (1 b' buf')
  then show ?case using net_okD[OF assms(1,2)] net_okD[OF assms(1), of b' buf'] assms(3-5)
    by (cases "b' = b") auto
next
  case (2 b1 b2 buf1 buf2)
  then show ?case using net_ok_inj[OF assms(1)] assms(2,4) by (auto split: if_splits)
qed

section \<open>Each operation on what the buffer holds\<close>

lemma sint_small: "unat x < 2147483648 \<Longrightarrow> sint (x :: u32) = int (unat x)"
proof -
  assume a: "unat x < 2147483648"
  have u: "int (unat x) = uint x" by simp
  with a have "uint x < 2147483648" by linarith
  moreover have "- 2147483648 \<le> uint x" using u by linarith
  ultimately have "signed_take_bit 31 (uint x) = uint x"
    by (intro signed_take_bit_int_eq_self) simp_all
  then show ?thesis unfolding u by (simp add: sint_uint)
qed

text \<open>Moving the two ends of the packet inside its block.\<close>

lemma buf_ok_move:
  assumes "buf_ok buf bs" "d \<le> t" "t \<le> length bs"
  shows "buf_ok (buf\<lparr>nb_data := nb_head buf + of_nat d, nb_tail := nb_head buf + of_nat t,
    nb_len := of_nat (t - d)\<rparr>) bs"
  using assms by (simp add: buf_ok_def unat_of_nat_u32 unat_sub_no_wrap)

lemma move_ends:
  assumes "net_ok s" "contents s b = Some (pre, pay, post)" "ns_bufs s b = Some buf"
    and "f buf = buf\<lparr>nb_data := nb_head buf + of_nat d, nb_tail := nb_head buf + of_nat t,
           nb_len := of_nat (t - d)\<rparr>"
    and "d \<le> t" "t \<le> length pre + length pay + length post"
    and s': "upd_buf b f s = Some s'"
  shows "net_ok s'" "contents s' b = Some (split_at d t (pre @ pay @ post))"
    "\<And>b'. b' \<noteq> b \<Longrightarrow> contents s' b' = contents s b'"
proof -
  have e: "s' = s\<lparr>ns_bufs := (ns_bufs s)(b := Some (f buf))\<rparr>"
    using s' assms(3) by (simp add: upd_buf_def)
  obtain "ns_blocks s (nb_head buf) = Some (pre @ pay @ post)" "buf_ok buf (pre @ pay @ post)"
    "length pre + length pay + length post \<le> 2048"
    using contentsD[OF assms(1,2)] assms(3) by (metis option.inject)
  note c = this
  have ok: "buf_ok (f buf) (pre @ pay @ post)"
    unfolding assms(4) by (rule buf_ok_move[OF c(2) assms(5)]) (use assms(6) in simp)
  show "net_ok s'" unfolding e
    by (rule upd_buf_ok[OF assms(1,3) c(1) _ ok]) (simp add: assms(4))
  show "contents s' b = Some (split_at d t (pre @ pay @ post))"
    using c assms(5,6) by (simp add: e contents_def assms(4) unat_of_nat_u32)
  show "contents s' b' = contents s b'" if "b' \<noteq> b" for b'
    using that by (rule contents_other) (simp_all add: e)
qed

text \<open>The operations on a buffer change nothing but descriptors and blocks.\<close>

definition same_env :: "'a nb_state_scheme \<Rightarrow> 'a nb_state_scheme \<Rightarrow> bool" where
  "same_env s s' \<longleftrightarrow> s' = s\<lparr>ns_kmalloc := ns_kmalloc s', ns_blocks := ns_blocks s', ns_bufs := ns_bufs s'\<rparr>"

lemma same_env_refl [simp]: "same_env s s"
  by (simp add: same_env_def)

lemma same_env_trans: "same_env s s' \<Longrightarrow> same_env s' s'' \<Longrightarrow> same_env s s''"
  unfolding same_env_def by (cases s; cases s'; cases s'') simp

lemma upd_buf_env: "upd_buf b f s = Some s' \<Longrightarrow> same_env s s'"
  by (auto simp: upd_buf_def same_env_def bind_eq_Some_conv)

lemma upd_buf_Some: "ns_bufs s b = Some buf \<Longrightarrow> upd_buf b f s = Some (s\<lparr>ns_bufs := (ns_bufs s)(b := Some (f buf))\<rparr>)"
  by (simp add: upd_buf_def)

text \<open>\<open>buf_step b c s s'\<close>: buffer \<open>b\<close> now holds \<open>c\<close>, every other buffer what it held, and the buffers
  are still well-formed.\<close>

definition buf_step :: "u32 \<Rightarrow> packet \<Rightarrow> 'a nb_state_scheme \<Rightarrow> 'a nb_state_scheme \<Rightarrow> bool" where
  "buf_step b c s s' \<longleftrightarrow> net_ok s' \<and> contents s' b = Some c \<and> same_env s s' \<and> ns_kmalloc s' = ns_kmalloc s
     \<and> (\<forall>b'. b' \<noteq> b \<longrightarrow> contents s' b' = contents s b' \<and> ns_bufs s' b' = ns_bufs s b')"

lemma move_step:
  assumes "net_ok s" "contents s b = Some (pre, pay, post)" "ns_bufs s b = Some buf"
    and "f buf = buf\<lparr>nb_data := nb_head buf + of_nat d, nb_tail := nb_head buf + of_nat t,
           nb_len := of_nat (t - d)\<rparr>"
    and "d \<le> t" "t \<le> length pre + length pay + length post"
  obtains s' where "upd_buf b f s = Some s'" "buf_step b (split_at d t (pre @ pay @ post)) s s'"
    "ns_bufs s' b = Some (f buf)"
proof -
  let ?s = "s\<lparr>ns_bufs := (ns_bufs s)(b := Some (f buf))\<rparr>"
  have u: "upd_buf b f s = Some ?s" by (rule upd_buf_Some[OF assms(3)])
  show ?thesis
    by (rule that[OF u])
      (use move_ends[OF assms u] upd_buf_env[OF u] in \<open>simp_all add: buf_step_def\<close>)
qed

lemma data_tail_offsets:
  assumes "unat (p - h) = k"
  shows "p = h + of_nat k" "p + of_nat n = h + of_nat (k + n)"
    "n \<le> k \<Longrightarrow> p - of_nat n = h + of_nat (k - n)"
proof -
  have "p - h = of_nat k" using assms by (metis of_nat_unat ucast_id)
  then show p: "p = h + of_nat k" by (metis add.commute diff_add_cancel)
  show "p + of_nat n = h + of_nat (k + n)" "n \<le> k \<Longrightarrow> p - of_nat n = h + of_nat (k - n)"
    by (simp_all add: p of_nat_diff)
qed

lemma in_block_nonzero:
  assumes "h \<noteq> 0" "unat h + k < 4294967296"
  shows "h + of_nat k \<noteq> (0 :: u32)"
proof -
  have "unat (h + of_nat k) = unat h + k" by (rule unat_add_nat[OF assms(2)])
  moreover have "unat h \<noteq> 0" using assms(1) by (simp add: unat_eq_0)
  ultimately show ?thesis by (metis add_is_0 unat_0)
qed

lemma netbuf_push_ok:
  assumes ok: "net_ok s" and c: "contents s b = Some (pre, pay, post)" and n: "n \<le> length pre"
  obtains p s' buf where "netbuf_push b (of_nat n) s = Some (p, s')" "p \<noteq> 0"
    "buf_step b (take (length pre - n) pre, drop (length pre - n) pre @ pay, post) s s'"
    "ns_bufs s b = Some buf"
    "ns_bufs s' b = Some (buf\<lparr>nb_data := p, nb_len := of_nat (n + length pay)\<rparr>)"
proof -
  obtain buf where b: "ns_bufs s b = Some buf"
    and o: "unat (nb_data buf - nb_head buf) = length pre"
      "unat (nb_tail buf - nb_head buf) = length pre + length pay" "nb_len buf = of_nat (length pay)"
      "length pre + length pay + length post \<le> 2048" "b \<noteq> 0" "nb_head buf \<noteq> 0"
      "unat (nb_head buf) + length pre + length pay + length post < 4294967296"
    using contentsD[OF ok c] by metis
  let ?f = "\<lambda>x. x\<lparr>nb_data := nb_data x - of_nat n, nb_len := nb_len x + of_nat n\<rparr> :: netbuf_t"
  define p where "p = nb_head buf + of_nat (length pre - n)"
  have p: "nb_data buf - of_nat n = p" unfolding p_def by (rule data_tail_offsets(3)[OF o(1) n])
  have t: "nb_tail buf = nb_head buf + of_nat (length pre + length pay)"
    by (rule data_tail_offsets(1)[OF o(2)])
  have f: "?f buf = buf\<lparr>nb_data := nb_head buf + of_nat (length pre - n),
      nb_tail := nb_head buf + of_nat (length pre + length pay),
      nb_len := of_nat (length pre + length pay - (length pre - n))\<rparr>"
    using t p n by (simp add: p_def o(3) flip: of_nat_add)
  obtain s' where s': "upd_buf b ?f s = Some s'"
    "buf_step b (split_at (length pre - n) (length pre + length pay) (pre @ pay @ post)) s s'"
    "ns_bufs s' b = Some (?f buf)"
    by (rule move_step[where f = ?f, OF ok c b f]) (use n in simp_all)
  have "sint (nb_data buf - nb_head buf) = int (length pre)" using o(1,4) by (subst sint_small) simp_all
  moreover have "sint (of_nat n :: u32) = int n" using n o(4) by (subst sint_small) (simp_all add: unat_of_nat_u32)
  ultimately have push: "netbuf_push b (of_nat n) s = Some (p, s')"
    using n s'(1) b p o(5) by (simp add: netbuf_push_def)
  have p0: "p \<noteq> 0" unfolding p_def by (rule in_block_nonzero[OF o(6)]) (use o(7) in linarith)
  have sp: "split_at (length pre - n) (length pre + length pay) (pre @ pay @ post)
    = (take (length pre - n) pre, drop (length pre - n) pre @ pay, post)"
    using n by (simp add: split_at_def)
  have "?f buf = buf\<lparr>nb_data := p, nb_len := of_nat (n + length pay)\<rparr>" by (simp add: p o(3))
  then show ?thesis using that[OF push p0 s'(2)[unfolded sp] b] s'(3) by simp
qed

lemma netbuf_push_fail:
  assumes "net_ok s" "contents s b = Some (pre, pay, post)" "length pre < n" "n < 2147483648"
  shows "netbuf_push b (of_nat n) s = Some (0, s)"
proof -
  obtain buf where b: "ns_bufs s b = Some buf" "unat (nb_data buf - nb_head buf) = length pre"
    "length pre + length pay + length post \<le> 2048"
    using contentsD[OF assms(1,2)] by metis
  have "sint (nb_data buf - nb_head buf) = int (length pre)" using b(2,3) by (subst sint_small) simp_all
  moreover have "sint (of_nat n :: u32) = int n" using assms(4) by (subst sint_small) (simp_all add: unat_of_nat_u32)
  ultimately show ?thesis using assms(3) b(1) by (simp add: netbuf_push_def)
qed

lemma netbuf_pull_ok:
  assumes ok: "net_ok s" and c: "contents s b = Some (pre, pay, post)" and n: "n \<le> length pay"
  obtains p s' buf where "netbuf_pull b (of_nat n) s = Some (p, s')"
    "buf_step b (pre @ take n pay, drop n pay, post) s s'"
    "ns_bufs s b = Some buf" "p = nb_data buf + of_nat n"
    "ns_bufs s' b = Some (buf\<lparr>nb_data := p, nb_len := of_nat (length pay - n)\<rparr>)"
proof -
  obtain buf where b: "ns_bufs s b = Some buf"
    and o: "unat (nb_data buf - nb_head buf) = length pre"
      "unat (nb_tail buf - nb_head buf) = length pre + length pay" "nb_len buf = of_nat (length pay)"
      "length pre + length pay + length post \<le> 2048" "b \<noteq> 0"
    using contentsD[OF ok c] by metis
  let ?f = "\<lambda>x. x\<lparr>nb_data := nb_data x + of_nat n, nb_len := nb_len x - of_nat n\<rparr> :: netbuf_t"
  have p: "nb_data buf + of_nat n = nb_head buf + of_nat (length pre + n)"
    by (rule data_tail_offsets(2)[OF o(1)])
  have t: "nb_tail buf = nb_head buf + of_nat (length pre + length pay)"
    by (rule data_tail_offsets(1)[OF o(2)])
  have l: "nb_len buf - of_nat n = of_nat (length pay - n)" using n by (simp add: o(3) of_nat_diff)
  have f: "?f buf = buf\<lparr>nb_data := nb_head buf + of_nat (length pre + n),
      nb_tail := nb_head buf + of_nat (length pre + length pay),
      nb_len := of_nat (length pre + length pay - (length pre + n))\<rparr>"
    using t p l by simp
  obtain s' where s': "upd_buf b ?f s = Some s'"
    "buf_step b (split_at (length pre + n) (length pre + length pay) (pre @ pay @ post)) s s'"
    "ns_bufs s' b = Some (?f buf)"
    by (rule move_step[where f = ?f, OF ok c b f]) (use n in simp_all)
  have "\<not> nb_len buf < of_nat n"
    using n o(3,4) by (simp add: word_less_nat_alt unat_of_nat_u32)
  then have pull: "netbuf_pull b (of_nat n) s = Some (nb_data buf + of_nat n, s')"
    using s'(1) b o(5) by (simp add: netbuf_pull_def)
  have sp: "split_at (length pre + n) (length pre + length pay) (pre @ pay @ post)
    = (pre @ take n pay, drop n pay, post)"
    using n by (simp add: split_at_def)
  show ?thesis using that[OF pull s'(2)[unfolded sp] b refl] s'(3) l by simp
qed

lemma netbuf_put_ok:
  assumes ok: "net_ok s" and c: "contents s b = Some (pre, pay, post)" and n: "n \<le> length post"
  obtains p s' buf where "netbuf_put b (of_nat n) s = Some (p, s')" "p \<noteq> 0"
    "buf_step b (pre, pay @ take n post, drop n post) s s'"
    "ns_bufs s b = Some buf" "p = nb_tail buf"
    "ns_bufs s' b = Some (buf\<lparr>nb_tail := p + of_nat n, nb_len := of_nat (length pay + n)\<rparr>)"
proof -
  obtain buf where b: "ns_bufs s b = Some buf"
    and o: "unat (nb_data buf - nb_head buf) = length pre"
      "unat (nb_tail buf - nb_head buf) = length pre + length pay" "nb_len buf = of_nat (length pay)"
      "length pre + length pay + length post \<le> 2048" "b \<noteq> 0" "nb_head buf \<noteq> 0"
      "unat (nb_head buf) + length pre + length pay + length post < 4294967296"
      "buf_ok buf (pre @ pay @ post)"
    using contentsD[OF ok c] by metis
  let ?f = "\<lambda>x. x\<lparr>nb_tail := nb_tail x + of_nat n, nb_len := nb_len x + of_nat n\<rparr> :: netbuf_t"
  have d: "nb_data buf = nb_head buf + of_nat (length pre)" by (rule data_tail_offsets(1)[OF o(1)])
  have t: "nb_tail buf = nb_head buf + of_nat (length pre + length pay)"
    by (rule data_tail_offsets(1)[OF o(2)])
  have t': "nb_tail buf + of_nat n = nb_head buf + of_nat (length pre + length pay + n)"
    by (rule data_tail_offsets(2)[OF o(2)])
  have f: "?f buf = buf\<lparr>nb_data := nb_head buf + of_nat (length pre),
      nb_tail := nb_head buf + of_nat (length pre + length pay + n),
      nb_len := of_nat (length pre + length pay + n - length pre)\<rparr>"
    using d t' by (simp add: o(3))
  obtain s' where s': "upd_buf b ?f s = Some s'"
    "buf_step b (split_at (length pre) (length pre + length pay + n) (pre @ pay @ post)) s s'"
    "ns_bufs s' b = Some (?f buf)"
    by (rule move_step[where f = ?f, OF ok c b f]) (use n in simp_all)
  have room: "nb_end buf - nb_tail buf = of_nat (length post)"
  proof -
    have "nb_end buf - nb_tail buf = (nb_end buf - nb_head buf) - (nb_tail buf - nb_head buf)" by simp
    also have "\<dots> = of_nat (length (pre @ pay @ post)) - of_nat (length pre + length pay)"
      using o(8) by (simp add: buf_ok_def t)
    finally show ?thesis by simp
  qed
  have "sint (nb_end buf - nb_tail buf) = int (length post)"
    unfolding room using o(4) by (subst sint_small) (simp_all add: unat_of_nat_u32)
  moreover have "sint (of_nat n :: u32) = int n"
    using n o(4) by (subst sint_small) (simp_all add: unat_of_nat_u32)
  ultimately have put: "netbuf_put b (of_nat n) s = Some (nb_tail buf, s')"
    using n s'(1) b o(5) by (simp add: netbuf_put_def)
  have p0: "nb_tail buf \<noteq> 0" unfolding t by (rule in_block_nonzero[OF o(6)]) (use o(7) in linarith)
  have sp: "split_at (length pre) (length pre + length pay + n) (pre @ pay @ post)
    = (pre, pay @ take n post, drop n post)"
    using n by (simp add: split_at_def)
  show ?thesis using that[OF put p0 s'(2)[unfolded sp] b refl] s'(3) by (simp add: o(3))
qed

lemma netbuf_put_fail:
  assumes "net_ok s" "contents s b = Some (pre, pay, post)" "length post < n" "n < 2147483648"
  shows "netbuf_put b (of_nat n) s = Some (0, s)"
proof -
  obtain buf where b: "ns_bufs s b = Some buf" "unat (nb_tail buf - nb_head buf) = length pre + length pay"
    "length pre + length pay + length post \<le> 2048" "buf_ok buf (pre @ pay @ post)"
    using contentsD[OF assms(1,2)] by metis
  have "nb_end buf - nb_tail buf = (nb_end buf - nb_head buf) - (nb_tail buf - nb_head buf)" by simp
  also have "\<dots> = of_nat (length (pre @ pay @ post)) - of_nat (length pre + length pay)"
    using b(4) data_tail_offsets(1)[OF b(2)] by (simp add: buf_ok_def)
  finally have "sint (nb_end buf - nb_tail buf) = int (length post)"
    using b(3) by (subst sint_small) (simp_all add: unat_of_nat_u32)
  moreover have "sint (of_nat n :: u32) = int n" using assms(4) by (subst sint_small) (simp_all add: unat_of_nat_u32)
  ultimately show ?thesis using assms(3) b(1) by (simp add: netbuf_put_def)
qed

text \<open>Reading and writing inside the packet.\<close>

lemma nb_read_block:
  assumes "net_ok s" "contents s b = Some (pre, pay, post)" "ns_bufs s b = Some buf"
    and "p - nb_head buf = of_nat k" "k + n \<le> length pre + length pay + length post"
  shows "nb_read s b p n = Some (take n (drop k (pre @ pay @ post)))"
proof -
  obtain c: "ns_blocks s (nb_head buf) = Some (pre @ pay @ post)"
    "length pre + length pay + length post \<le> 2048"
    using contentsD[OF assms(1,2)] assms(3) by (metis option.inject)
  have "unat (p - nb_head buf) = k" using assms(4,5) c(2) by (simp add: unat_of_nat_u32)
  then show ?thesis using assms(3,5) c(1) by (simp add: nb_read_def block_read_def)
qed

lemma nb_read_data:
  assumes "net_ok s" "contents s b = Some (pre, pay, post)" "ns_bufs s b = Some buf"
    and "k + n \<le> length pay"
  shows "nb_read s b (nb_data buf + of_nat k) n = Some (take n (drop k pay))"
proof -
  obtain "unat (nb_data buf - nb_head buf) = length pre"
    using contentsD[OF assms(1,2)] assms(3) by (metis option.inject)
  from data_tail_offsets(2)[OF this, of k]
  have "nb_data buf + of_nat k - nb_head buf = of_nat (length pre + k)" by simp
  from nb_read_block[OF assms(1-3) this, of n] assms(4) show ?thesis by simp
qed

lemma length_overwrite [simp]: "i + length ws \<le> length bs \<Longrightarrow> length (overwrite i ws bs) = length bs"
  by (simp add: overwrite_def)

lemma overwrite_append:
  "i + length ws \<le> length ys \<Longrightarrow> overwrite (length xs + i) ws (xs @ ys @ zs) = xs @ overwrite i ws ys @ zs"
  by (simp add: overwrite_def)

lemma overwrite_prefix: "length ws = length xs \<Longrightarrow> overwrite 0 ws (xs @ ys) = ws @ ys"
  by (simp add: overwrite_def)

lemma nb_write_data:
  assumes ok: "net_ok s" and c: "contents s b = Some (pre, pay, post)" and b: "ns_bufs s b = Some buf"
    and k: "k + length ws \<le> length pay"
  obtains s' where "nb_write b (nb_data buf + of_nat k) ws s = Some s'"
    "buf_step b (pre, overwrite k ws pay, post) s s'" "ns_bufs s' = ns_bufs s"
proof -
  obtain o: "ns_blocks s (nb_head buf) = Some (pre @ pay @ post)"
    "unat (nb_data buf - nb_head buf) = length pre"
    "unat (nb_tail buf - nb_head buf) = length pre + length pay"
    "length pre + length pay + length post \<le> 2048" "buf_ok buf (pre @ pay @ post)"
    using contentsD[OF ok c] b by (metis option.inject)
  have "nb_data buf + of_nat k - nb_head buf = of_nat (length pre + k)"
    using data_tail_offsets(2)[OF o(2), of k] by simp
  then have off: "unat (nb_data buf + of_nat k - nb_head buf) = length pre + k"
    using o(4) k by (simp only: unat_of_nat_u32)
  let ?bs = "pre @ overwrite k ws pay @ post"
  let ?s = "s\<lparr>ns_blocks := (ns_blocks s)(nb_head buf := Some ?bs)\<rparr>"
  have w: "nb_write b (nb_data buf + of_nat k) ws s = Some ?s"
    using b o(1) k off by (simp add: nb_write_def block_write_def overwrite_append)
  have len: "length ?bs = length (pre @ pay @ post)" using k by simp
  have okb: "buf_ok buf ?bs" using o(5) unfolding buf_ok_def len .
  have "net_ok ?s"
  proof (rule net_okI, goal_cases)
    case (1 b' buf')
    then have b': "ns_bufs s b' = Some buf'" by simp
    show ?case
    proof (cases "nb_head buf' = nb_head buf")
      case True
      then have "b' = b" using net_ok_inj[OF ok b' b] by simp
      then show ?thesis using b b' okb net_okD[OF ok b] by auto
    next
      case False
      then show ?thesis using net_okD[OF ok b'] by auto
    qed
  next
    case (2 b1 b2 buf1 buf2)
    then show ?case using net_ok_inj[OF ok] by simp
  qed
  moreover have "contents ?s b = Some (pre, overwrite k ws pay, post)"
    using b o(2,3) k by (simp add: contents_def split_at_def)
  moreover have "contents ?s b' = contents s b'" if "b' \<noteq> b" for b'
  proof (cases "ns_bufs s b'")
    case (Some buf')
    then have "nb_head buf' \<noteq> nb_head buf" using net_ok_inj[OF ok Some b] that by blast
    then show ?thesis using Some by (simp add: contents_def)
  qed (simp add: contents_def)
  ultimately have "buf_step b (pre, overwrite k ws pay, post) s ?s"
    by (simp add: buf_step_def same_env_def)
  with that[OF w] show ?thesis by simp
qed

text \<open>The block behind a buffer.\<close>

lemma contents_block:
  assumes "net_ok s" "contents s b = Some (pre, pay, post)" "ns_bufs s b = Some buf"
  obtains bs where "ns_blocks s (nb_head buf) = Some bs" "length bs = length pre + length pay + length post"
    "unat (nb_data buf - nb_head buf) = length pre"
proof -
  obtain bs where bs: "ns_blocks s (nb_head buf) = Some bs" "buf_ok buf bs" using assms(1,3) unfolding net_ok_def by blast
  have "(pre, pay, post) = split_at (unat (nb_data buf - nb_head buf)) (unat (nb_tail buf - nb_head buf)) bs"
    using assms(2,3) bs(1) by (simp add: contents_def)
  then show ?thesis using bs(2) by (intro that[OF bs(1)]) (auto simp: buf_ok_def split_at_def)
qed

text \<open>Making room for a packet in a fresh buffer.\<close>

lemma put_fresh:
  assumes ok: "net_ok s" and c: "contents s b = Some (pre, [], replicate n 0)"
  obtains p s2 buf where "netbuf_put b (of_nat n) s = Some (p, s2)" "p \<noteq> 0"
    "buf_step b (pre, replicate n 0, []) s s2" "ns_bufs s2 b = Some buf" "p = nb_data buf"
proof -
  obtain p s2 buf where s2: "netbuf_put b (of_nat n) s = Some (p, s2)" "p \<noteq> 0"
    "buf_step b (pre, [] @ take n (replicate n 0), drop n (replicate n 0)) s s2"
    "ns_bufs s b = Some buf" "p = nb_tail buf"
    "ns_bufs s2 b = Some (buf\<lparr>nb_tail := p + of_nat n, nb_len := of_nat (length ([] :: u8 list) + n)\<rparr>)"
    using netbuf_put_ok[OF ok c, of n] by auto
  obtain o: "unat (nb_data buf - nb_head buf) = length pre" "unat (nb_tail buf - nb_head buf) = length pre + 0"
    using contentsD[OF ok c] s2(4) by (metis list.size(3) option.inject)
  have "nb_data buf - nb_head buf = nb_tail buf - nb_head buf" using o by (simp add: word_eq_unat)
  then have "p = nb_data buf" using s2(5) by simp
  then show ?thesis using that[OF s2(1,2) _ s2(6)] s2(3) by simp
qed

text \<open>Setting the header pointers, the device or the source of a packet keeps what it holds.\<close>

lemma upd_buf_meta:
  assumes ok: "net_ok s" and c: "contents s b = Some (pre, pay, post)" and b: "ns_bufs s b = Some buf"
    and f: "nb_head (f buf) = nb_head buf" "nb_data (f buf) = nb_data buf" "nb_tail (f buf) = nb_tail buf"
      "nb_end (f buf) = nb_end buf" "nb_len (f buf) = nb_len buf" "nb_total_size (f buf) = nb_total_size buf"
  obtains s' where "upd_buf b f s = Some s'" "buf_step b (pre, pay, post) s s'"
    "ns_bufs s' b = Some (f buf)"
proof -
  obtain o: "ns_blocks s (nb_head buf) = Some (pre @ pay @ post)" "buf_ok buf (pre @ pay @ post)"
    using contentsD[OF ok c] b by (metis option.inject)
  have okf: "buf_ok (f buf) (pre @ pay @ post)" using o(2) by (simp add: buf_ok_def f)
  let ?s = "s\<lparr>ns_bufs := (ns_bufs s)(b := Some (f buf))\<rparr>"
  have u: "upd_buf b f s = Some ?s" by (rule upd_buf_Some[OF b])
  have "net_ok ?s" by (rule upd_buf_ok[OF ok b o(1) f(1) okf])
  moreover have "contents ?s b = contents s b" using b by (simp add: contents_def f)
  moreover have "contents ?s b' = contents s b'" if "b' \<noteq> b" for b'
    using that by (rule contents_other) simp_all
  ultimately have "buf_step b (pre, pay, post) s ?s" using c by (simp add: buf_step_def same_env_def)
  with that[OF u] show ?thesis by simp
qed

text \<open>Allocation and release.\<close>

lemma kmalloc_next_env: "kmalloc_next live s = (a, s') \<Longrightarrow> s' = s\<lparr>ns_kmalloc := ns_kmalloc s'\<rparr>"
  by (auto simp: kmalloc_next_def split: list.splits if_splits)

lemma kmalloc_next_fresh: "kmalloc_next live s = (a, s') \<Longrightarrow> a \<noteq> 0 \<Longrightarrow> \<not> live a"
  by (auto simp: kmalloc_next_def split: list.splits if_splits)

text \<open>A failed allocation changes neither descriptors nor blocks.\<close>

definition same_bufs :: "'a nb_state_scheme \<Rightarrow> 'a nb_state_scheme \<Rightarrow> bool" where
  "same_bufs s s' \<longleftrightarrow> ns_bufs s' = ns_bufs s \<and> ns_blocks s' = ns_blocks s"

lemma same_bufs_ok: "same_bufs s s' \<Longrightarrow> net_ok s' = net_ok s"
  by (simp add: same_bufs_def net_ok_def)

lemma same_bufs_contents: "same_bufs s s' \<Longrightarrow> contents s' = contents s"
  by (simp add: same_bufs_def contents_def fun_eq_iff)

lemma kmalloc_block_cases:
  assumes "kmalloc_block bs s = (a, s')"
  shows "a = 0 \<and> same_bufs s s' \<and> same_env s s'
    \<or> a \<noteq> 0 \<and> ns_blocks s a = None \<and> unat a + length bs < 4294967296 \<and> same_env s s'
      \<and> ns_blocks s' = (ns_blocks s)(a := Some bs) \<and> ns_bufs s' = ns_bufs s"
proof -
  obtain x s1 where k: "kmalloc_next (\<lambda>x. ns_blocks s x \<noteq> None \<or> 4294967296 \<le> unat x + length bs) s = (x, s1)"
    by fastforce
  have e: "s1 = s\<lparr>ns_kmalloc := ns_kmalloc s1\<rparr>" by (rule kmalloc_next_env[OF k])
  have f: "ns_blocks s1 = ns_blocks s" "ns_bufs s1 = ns_bufs s" by (subst e, simp)+
  have env: "same_env s s1" using e f by (simp add: same_env_def)
  show ?thesis
  proof (cases "x = 0")
    case True
    then show ?thesis using assms k f env by (simp add: kmalloc_block_def same_bufs_def)
  next
    case False
    have s': "a = x" "s' = s1\<lparr>ns_blocks := (ns_blocks s)(x := Some bs)\<rparr>"
      using False assms k f by (auto simp: kmalloc_block_def)
    have "same_env s1 s'" by (simp add: s'(2) same_env_def)
    with env have "same_env s s'" by (rule same_env_trans)
    then show ?thesis using False kmalloc_next_fresh[OF k False] s' f by auto
  qed
qed

text \<open>The content of a fresh buffer: headroom, no packet, and room for at most 1920 bytes.\<close>

definition fresh_packet :: "u32 \<Rightarrow> packet" where
  "fresh_packet sz = (replicate 128 0, [], replicate (min (unat sz) 1920) 0)"

lemma total_size:
  assumes "unat sz < 4294967168"
  shows "unat (if NETBUF_HEADROOM + sz > NETBUF_MAX_SIZE then NETBUF_MAX_SIZE else NETBUF_HEADROOM + sz)
    = 128 + min (unat sz) 1920"
proof -
  have "unat (128 + sz) = 128 + unat sz" using assms by (subst unat_add_no_wrap) simp_all
  then show ?thesis by (auto simp: word_less_nat_alt)
qed

lemma netbuf_alloc_cases:
  assumes ok: "net_ok s" and sz: "unat sz < 4294967168" and a: "netbuf_alloc sz s = (b, s')"
  shows "b = 0 \<and> same_bufs s s' \<and> same_env s s' \<and> net_ok s'
    \<or> b \<noteq> 0 \<and> ns_bufs s b = None \<and> net_ok s' \<and> same_env s s' \<and> contents s' b = Some (fresh_packet sz)
      \<and> (\<exists>h. ns_bufs s' b = Some
                   \<lparr>nb_head = h, nb_data = h + 128, nb_tail = h + 128,
                    nb_end = h + of_nat (128 + min (unat sz) 1920), nb_len = 0,
                    nb_total_size = of_nat (128 + min (unat sz) 1920),
                    nb_mac_header = 0, nb_network_header = 0, nb_transport_header = 0, nb_dev = 0,
                    nb_src_ip = None, nb_src_port = None\<rparr>)
      \<and> (\<forall>b'. b' \<noteq> b \<longrightarrow> contents s' b' = contents s b' \<and> ns_bufs s' b' = ns_bufs s b')"
proof -
  let ?N = "128 + min (unat sz) 1920"
  define ts :: u32 where "ts = (if NETBUF_HEADROOM + sz > NETBUF_MAX_SIZE then NETBUF_MAX_SIZE else NETBUF_HEADROOM + sz)"
  have uts: "unat ts = ?N" unfolding ts_def by (rule total_size[OF sz])
  have ts: "ts = of_nat ?N" unfolding uts[symmetric] by simp
  obtain x s1 where k: "kmalloc_next (\<lambda>x. ns_bufs s x \<noteq> None) s = (x, s1)" by fastforce
  have e: "s1 = s\<lparr>ns_kmalloc := ns_kmalloc s1\<rparr>" by (rule kmalloc_next_env[OF k])
  have f: "ns_blocks s1 = ns_blocks s" "ns_bufs s1 = ns_bufs s" by (subst e, simp)+
  have sb: "same_bufs s s1" "same_env s s1" using e f by (simp_all add: same_bufs_def same_env_def)
  obtain h s2 where k2: "kmalloc_block (replicate ?N 0) s1 = (h, s2)" by fastforce
  note c2 = kmalloc_block_cases[OF k2]
  have al: "netbuf_alloc sz s = (if x = 0 then (0, s1) else if h = 0 then (0, s2)
     else (x, s2\<lparr>ns_bufs := (ns_bufs s2)(x := Some
                   \<lparr>nb_head = h, nb_data = h + 128, nb_tail = h + 128, nb_end = h + ts, nb_len = 0,
                    nb_total_size = ts, nb_mac_header = 0, nb_network_header = 0,
                    nb_transport_header = 0, nb_dev = 0, nb_src_ip = None, nb_src_port = None\<rparr>)\<rparr>))"
    unfolding netbuf_alloc_def ts_def[symmetric] k Let_def prod.case uts k2 by simp
  show ?thesis
  proof (cases "x = 0 \<or> h = 0")
    case True
    have "same_bufs s s2 \<and> same_env s s2" if "h = 0"
      using c2 that sb same_env_trans by (auto simp: same_bufs_def)
    with True have r: "b = 0" "same_bufs s s'" "same_env s s'"
      using a al sb by (auto split: if_splits)
    then show ?thesis using same_bufs_ok[OF r(2)] ok by simp
  next
    case False
    then have nz: "x \<noteq> 0" "h \<noteq> 0" by auto
    have x: "ns_bufs s x = None" using kmalloc_next_fresh[OF k nz(1)] by simp
    have h: "ns_blocks s h = None" "unat h + ?N < 4294967296" "same_env s1 s2"
      "ns_blocks s2 = (ns_blocks s)(h := Some (replicate ?N 0))" "ns_bufs s2 = ns_bufs s"
      using c2 nz(2) f by (simp_all add: algebra_simps)
    define buf where "buf = \<lparr>nb_head = h, nb_data = h + 128, nb_tail = h + 128, nb_end = h + ts, nb_len = 0,
                    nb_total_size = ts, nb_mac_header = 0, nb_network_header = 0,
                    nb_transport_header = 0, nb_dev = 0, nb_src_ip = None, nb_src_port = None\<rparr>"
    have s': "b = x" "s' = s2\<lparr>ns_bufs := (ns_bufs s)(x := Some buf)\<rparr>"
      using a al nz h(5) by (auto simp: buf_def)
    have bok: "buf_ok buf (replicate ?N 0)"
      using h(2) nz(2) by (simp add: buf_ok_def buf_def ts)
    have head: "nb_head buf' \<noteq> h" if "ns_bufs s b' = Some buf'" for b' buf'
      using net_okD[OF ok that] h(1) by (metis option.distinct(1))
    have nok: "net_ok s'"
    proof (rule net_okI, goal_cases)
      case (1 b' buf')
      show ?case
      proof (cases "b' = x")
        case True
        then have "buf' = buf" using 1 by (simp add: s'(2))
        then show ?thesis using True nz(1) bok h(4) by (auto simp: s'(2) buf_def)
      next
        case False
        then have "ns_bufs s b' = Some buf'" using 1 by (simp add: s'(2))
        then show ?thesis using net_okD[OF ok, of b' buf'] head[of b' buf'] h(4) by (auto simp: s'(2))
      qed
    next
      case (2 b1 b2 buf1 buf2)
      have hb: "nb_head buf = h" by (simp add: buf_def)
      from 2 show ?case using net_ok_inj[OF ok, of b1 buf1 b2 buf2] head[of b1 buf1] head[of b2 buf2] hb
        by (auto simp: s'(2) split: if_splits)
    qed
    have cn: "contents s' x = Some (fresh_packet sz)"
      using h(4) by (simp add: s'(2) contents_def split_at_def fresh_packet_def buf_def)
    have oth: "contents s' b' = contents s b'" if "b' \<noteq> x" for b'
      using that head[of b'] h(4) by (cases "ns_bufs s b'") (auto simp: contents_def s'(2))
    have "same_env s2 s'" by (simp add: s'(2) same_env_def)
    then have env: "same_env s s'" using sb(2) h(3) same_env_trans by blast
    have "ns_bufs s' x = Some buf" by (simp add: s'(2))
    then have bufx: "\<exists>h. ns_bufs s' x = Some
                   \<lparr>nb_head = h, nb_data = h + 128, nb_tail = h + 128,
                    nb_end = h + of_nat ?N, nb_len = 0, nb_total_size = of_nat ?N,
                    nb_mac_header = 0, nb_network_header = 0, nb_transport_header = 0, nb_dev = 0,
                    nb_src_ip = None, nb_src_port = None\<rparr>"
      unfolding buf_def ts by blast
    have "ns_bufs s' b' = ns_bufs s b'" if "b' \<noteq> x" for b' using that by (simp add: s'(2))
    with nz(1) x nok env cn oth bufx show ?thesis unfolding s'(1) by blast
  qed
qed

lemma netbuf_free_ok:
  assumes ok: "net_ok s" and b: "ns_bufs s b = Some buf"
  obtains s' where "netbuf_free b s = Some s'" "net_ok s'" "same_env s s'" "ns_kmalloc s' = ns_kmalloc s"
    "ns_bufs s' = (ns_bufs s)(b := None)" "contents s' b = None"
    "\<And>b'. b' \<noteq> b \<Longrightarrow> contents s' b' = contents s b'"
proof -
  obtain bs where bs: "b \<noteq> 0" "ns_blocks s (nb_head buf) = Some bs" "buf_ok buf bs"
    using net_okD[OF ok b] .
  let ?s = "s\<lparr>ns_blocks := (ns_blocks s)(nb_head buf := None), ns_bufs := (ns_bufs s)(b := None)\<rparr>"
  have "netbuf_free b s = Some ?s"
    using b bs by (simp add: netbuf_free_def kfree_block_def buf_ok_def)
  moreover have head: "nb_head buf' \<noteq> nb_head buf" if "ns_bufs s b' = Some buf'" "b' \<noteq> b" for b' buf'
    using net_ok_inj[OF ok that(1) b] that(2) by blast
  have "net_ok ?s"
  proof (rule net_okI, goal_cases)
    case (1 b' buf')
    then have "b' \<noteq> b" "ns_bufs s b' = Some buf'" by (auto split: if_splits)
    then show ?case using net_okD[OF ok, of b' buf'] head[of b' buf'] by auto
  next
    case (2 b1 b2 buf1 buf2)
    then show ?case using net_ok_inj[OF ok, of b1 buf1 b2 buf2] by (auto split: if_splits)
  qed
  moreover have "contents ?s b' = contents s b'" if "b' \<noteq> b" for b'
    using that head[of b'] by (cases "ns_bufs s b'") (auto simp: contents_def)
  moreover have "contents ?s b = None" by (simp add: contents_def)
  ultimately show ?thesis using that[of ?s] by (simp add: same_env_def)
qed

section \<open>Every operation keeps the buffers well-formed\<close>

datatype nb_op =
    Nb_alloc u32 | Nb_free u32 | Nb_push u32 u32 | Nb_pull u32 u32 | Nb_put u32 u32 | Nb_reset u32 | Nb_clone u32

primrec nb_run :: "nb_op \<Rightarrow> 'a nb_state_scheme \<Rightarrow> 'a nb_state_scheme option" where
  "nb_run (Nb_alloc sz) s = Some (snd (netbuf_alloc sz s))"
| "nb_run (Nb_free b) s = netbuf_free b s"
| "nb_run (Nb_push b n) s = map_option snd (netbuf_push b n s)"
| "nb_run (Nb_pull b n) s = map_option snd (netbuf_pull b n s)"
| "nb_run (Nb_put b n) s = map_option snd (netbuf_put b n s)"
| "nb_run (Nb_reset b) s = netbuf_reset b s"
| "nb_run (Nb_clone b) s = map_option snd (netbuf_clone b s)"

text \<open>What a caller has to guarantee: the buffer is null or live, lengths are below \<open>2 ^ 31\<close>, and a
  cloned packet fits behind the headroom of a new buffer.\<close>

definition live_or_null :: "'a nb_state_scheme \<Rightarrow> u32 \<Rightarrow> bool" where
  "live_or_null s b \<longleftrightarrow> b = 0 \<or> ns_bufs s b \<noteq> None"

primrec nb_callable :: "nb_op \<Rightarrow> 'a nb_state_scheme \<Rightarrow> bool" where
  "nb_callable (Nb_alloc sz) s \<longleftrightarrow> sz < 0x80000000"
| "nb_callable (Nb_free b) s \<longleftrightarrow> live_or_null s b"
| "nb_callable (Nb_push b n) s \<longleftrightarrow> live_or_null s b \<and> n < 0x80000000"
| "nb_callable (Nb_pull b n) s \<longleftrightarrow> live_or_null s b"
| "nb_callable (Nb_put b n) s \<longleftrightarrow> live_or_null s b \<and> n < 0x80000000"
| "nb_callable (Nb_reset b) s \<longleftrightarrow> live_or_null s b"
| "nb_callable (Nb_clone b) s \<longleftrightarrow> live_or_null s b \<and> (\<forall>buf. ns_bufs s b = Some buf \<longrightarrow> nb_len buf \<le> 1920)"

lemma of_nat_unat_u32: "of_nat (unat (n :: u32)) = n"
  by simp

lemma netbuf_push_typed:
  assumes "net_ok s" "ns_bufs s b = Some buf" "n < 0x80000000"
  shows "\<exists>s'. map_option snd (netbuf_push b n s) = Some s' \<and> net_ok s'"
proof -
  obtain pre pay post where c: "contents s b = Some (pre, pay, post)" using contents_Some[OF assms(1,2)] .
  show ?thesis
  proof (cases "unat n \<le> length pre")
    case True
    from netbuf_push_ok[OF assms(1) c this] show ?thesis
      by (metis buf_step_def of_nat_unat_u32 option.simps(9) snd_conv)
  next
    case False
    then show ?thesis using netbuf_push_fail[OF assms(1) c, of "unat n"] assms(1,3)
      by (simp add: word_less_nat_alt)
  qed
qed

lemma netbuf_pull_typed:
  assumes "net_ok s" "ns_bufs s b = Some buf"
  shows "\<exists>s'. map_option snd (netbuf_pull b n s) = Some s' \<and> net_ok s'"
proof -
  obtain pre pay post where c: "contents s b = Some (pre, pay, post)" "nb_len buf = of_nat (length pay)"
    "length pre + length pay + length post \<le> 2048" using contents_Some[OF assms(1,2)] .
  show ?thesis
  proof (cases "unat n \<le> length pay")
    case True
    from netbuf_pull_ok[OF assms(1) c(1) this] show ?thesis
      by (metis buf_step_def of_nat_unat_u32 option.simps(9) snd_conv)
  next
    case False
    then have "nb_len buf < n" using c(2,3) by (simp add: word_less_nat_alt unat_of_nat_u32)
    then show ?thesis using assms by (simp add: netbuf_pull_def)
  qed
qed

lemma netbuf_put_typed:
  assumes "net_ok s" "ns_bufs s b = Some buf" "n < 0x80000000"
  shows "\<exists>s'. map_option snd (netbuf_put b n s) = Some s' \<and> net_ok s'"
proof -
  obtain pre pay post where c: "contents s b = Some (pre, pay, post)" using contents_Some[OF assms(1,2)] .
  show ?thesis
  proof (cases "unat n \<le> length post")
    case True
    from netbuf_put_ok[OF assms(1) c this] show ?thesis
      by (metis buf_step_def of_nat_unat_u32 option.simps(9) snd_conv)
  next
    case False
    then show ?thesis using netbuf_put_fail[OF assms(1) c, of "unat n"] assms(1,3)
      by (simp add: word_less_nat_alt)
  qed
qed

lemma netbuf_reset_typed:
  assumes "net_ok s" "ns_bufs s b = Some buf"
  shows "\<exists>s'. netbuf_reset b s = Some s' \<and> net_ok s'"
proof -
  obtain bs where bs: "b \<noteq> 0" "ns_blocks s (nb_head buf) = Some bs" "buf_ok buf bs"
    using net_okD[OF assms] .
  have "net_ok (s\<lparr>ns_bufs := (ns_bufs s)(b := Some (buf\<lparr>nb_data := nb_head buf + 128,
      nb_tail := nb_head buf + 128, nb_len := 0, nb_mac_header := 0, nb_network_header := 0,
      nb_transport_header := 0\<rparr>))\<rparr>)"
    by (rule upd_buf_ok[OF assms bs(2)]) (use bs(3) in \<open>simp_all add: buf_ok_def\<close>)
  then show ?thesis using bs(1) assms(2) by (simp add: netbuf_reset_def upd_buf_def)
qed

text \<open>A clone holds a copy of the packet, behind the headroom of a buffer of its own.\<close>

lemma netbuf_clone_ok:
  assumes ok: "net_ok s" and c: "contents s b = Some (pre, pay, post)" and len: "length pay \<le> 1920"
  obtains nb s' where "netbuf_clone b s = Some (nb, s')" "net_ok s'" "contents s' b = contents s b"
    "nb \<noteq> 0 \<Longrightarrow> nb \<noteq> b \<and> contents s' nb = Some (replicate 128 0, pay, [])"
proof -
  obtain buf where b: "ns_bufs s b = Some buf" "b \<noteq> 0" "nb_len buf = of_nat (length pay)"
    using contentsD[OF ok c] by metis
  have ul: "unat (nb_len buf) = length pay" using b(3) len by (simp add: unat_of_nat_u32)
  obtain nb s1 where a: "netbuf_alloc (nb_len buf) s = (nb, s1)" by fastforce
  note cs = netbuf_alloc_cases[OF ok _ a, unfolded ul]
  show ?thesis
  proof (cases "nb = 0")
    case True
    then have s1: "same_bufs s s1" "net_ok s1" using cs len by simp_all
    show ?thesis
      by (rule that[of 0 s1]) (use True a b s1 same_bufs_contents[OF s1(1)] in \<open>simp_all add: netbuf_clone_def\<close>)
  next
    case False
    obtain h where h: "ns_bufs s nb = None" "net_ok s1" "contents s1 nb = Some (fresh_packet (nb_len buf))"
      "ns_bufs s1 nb = Some
                   \<lparr>nb_head = h, nb_data = h + 128, nb_tail = h + 128,
                    nb_end = h + of_nat (128 + min (length pay) 1920), nb_len = 0,
                    nb_total_size = of_nat (128 + min (length pay) 1920),
                    nb_mac_header = 0, nb_network_header = 0, nb_transport_header = 0, nb_dev = 0,
                    nb_src_ip = None, nb_src_port = None\<rparr>"
      "\<forall>b'. b' \<noteq> nb \<longrightarrow> contents s1 b' = contents s b' \<and> ns_bufs s1 b' = ns_bufs s b'"
      using cs len False by (auto simp del: of_nat_add)
    have nb: "nb \<noteq> b" using h(1) b(1) by auto
    have rd: "nb_read s1 b (nb_data buf) (unat (nb_len buf)) = Some pay"
      using nb_read_data[OF h(2), of b pre pay post buf 0 "length pay"] h(5) nb c b(1) by (simp add: ul)
    have blk: "ns_blocks s1 h = Some (replicate (128 + length pay) 0)"
    proof -
      obtain x where x: "ns_bufs s1 nb = Some x" "ns_blocks s1 (nb_head x) = Some (replicate 128 0 @ [] @ replicate (length pay) 0)"
        using contentsD[OF h(2) h(3)[unfolded fresh_packet_def ul]] len by (metis min.absorb1)
      then show ?thesis using h(4) by (auto simp: replicate_add)
    qed
    let ?bs = "replicate 128 0 @ pay"
    have ow: "overwrite 128 pay (replicate (128 + length pay) 0) = ?bs"
      by (simp add: overwrite_def replicate_add)
    let ?s2 = "s1\<lparr>ns_blocks := (ns_blocks s1)(h := Some ?bs)\<rparr>"
    have w: "nb_write nb (h + 128) pay s1 = Some ?s2"
      using h(4) blk ow by (simp add: nb_write_def block_write_def)
    define new where "new = \<lparr>nb_head = h, nb_data = h + 128, nb_tail = h + 128 + nb_len buf,
                    nb_end = h + of_nat (128 + length pay), nb_len = nb_len buf,
                    nb_total_size = of_nat (128 + length pay),
                    nb_mac_header = 0, nb_network_header = 0, nb_transport_header = 0, nb_dev = nb_dev buf,
                    nb_src_ip = None, nb_src_port = None\<rparr>"
    let ?s3 = "?s2\<lparr>ns_bufs := (ns_bufs s1)(nb := Some new)\<rparr>"
    have cl: "netbuf_clone b s = Some (nb, ?s3)"
      using b a False h(4) rd w len by (simp add: netbuf_clone_def upd_buf_def new_def)
    have head: "nb_head x \<noteq> h" if "ns_bufs s1 b' = Some x" "b' \<noteq> nb" for b' x
      using net_ok_inj[OF h(2) that(1) h(4)] that(2) by auto
    have hb: "h \<noteq> 0 \<and> unat h + (128 + length pay) < 4294967296"
    proof (rule net_okD[OF h(2) h(4)], goal_cases)
      case (1 bs)
      then have "bs = replicate (128 + length pay) 0" using blk by (simp del: replicate_add)
      with 1(3) show ?case by (simp add: buf_ok_def)
    qed
    have tl: "nb_tail new - nb_head new = of_nat (128 + length pay)" by (simp add: new_def b(3))
    have bok: "buf_ok new ?bs" unfolding buf_ok_def tl
      using hb len ul by (simp add: new_def unat_of_nat_u32 del: of_nat_add)
    have nok: "net_ok ?s3"
    proof (rule net_okI, goal_cases)
      case (1 b' x)
      show ?case
      proof (cases "b' = nb")
        case True
        then show ?thesis using 1 False bok by (auto simp: new_def)
      next
        case ne: False
        then have "ns_bufs s1 b' = Some x" using 1 by simp
        then show ?thesis using net_okD[OF h(2), of b' x] head[of b' x] ne by auto
      qed
    next
      case (2 b1 b2 x1 x2)
      have "nb_head new = h" by (simp add: new_def)
      with 2 show ?case using net_ok_inj[OF h(2), of b1 x1 b2 x2] head[of b1 x1] head[of b2 x2]
        by (auto split: if_splits)
    qed
    have "contents ?s3 nb = Some (replicate 128 0, pay, [])"
      using len ul tl by (simp add: contents_def split_at_def new_def unat_of_nat_u32 del: of_nat_add)
    moreover have "contents ?s3 b = contents s b"
      using h(5) nb head[of b] by (cases "ns_bufs s1 b") (auto simp: contents_def)
    ultimately show ?thesis using that[OF cl nok] nb by simp
  qed
qed

text \<open>
  C31: Every operation on packet buffers, called with a null or live buffer, with lengths below \<open>2 ^ 31\<close>
  and, for a clone, with a packet of at most 1920 bytes, returns without a memory fault and leaves every
  live buffer well-formed: its four pointers in order inside its own block, its length the distance of
  tail and data, and no two buffers sharing a block.
\<close>

theorem netbuf_ops_typed:
  assumes "net_ok s" "nb_callable op s"
  shows "\<exists>s'. nb_run op s = Some s' \<and> net_ok s'"
proof (cases op)
  case (Nb_alloc sz)
  obtain b s' where a: "netbuf_alloc sz s = (b, s')" by fastforce
  have "unat sz < 4294967168" using assms(2) by (simp add: Nb_alloc word_less_nat_alt)
  from netbuf_alloc_cases[OF assms(1) this a] show ?thesis by (auto simp: Nb_alloc a)
next
  case (Nb_free b)
  show ?thesis
  proof (cases "b = 0")
    case True
    then show ?thesis using assms(1) by (simp add: Nb_free netbuf_free_def)
  next
    case False
    then obtain buf where "ns_bufs s b = Some buf" using assms(2) by (auto simp: Nb_free live_or_null_def)
    from netbuf_free_ok[OF assms(1) this] show ?thesis unfolding Nb_free by auto
  qed
next
  case (Nb_push b n)
  then show ?thesis using assms netbuf_push_typed[of s b _ n]
    by (cases "b = 0") (auto simp: live_or_null_def netbuf_push_def)
next
  case (Nb_pull b n)
  then show ?thesis using assms netbuf_pull_typed[of s b _ n]
    by (cases "b = 0") (auto simp: live_or_null_def netbuf_pull_def)
next
  case (Nb_put b n)
  then show ?thesis using assms netbuf_put_typed[of s b _ n]
    by (cases "b = 0") (auto simp: live_or_null_def netbuf_put_def)
next
  case (Nb_reset b)
  then show ?thesis using assms netbuf_reset_typed[of s b]
    by (cases "b = 0") (auto simp: live_or_null_def netbuf_reset_def)
next
  case (Nb_clone b)
  show ?thesis
  proof (cases "b = 0")
    case True
    then show ?thesis using assms(1) by (simp add: Nb_clone netbuf_clone_def)
  next
    case False
    then obtain buf where b: "ns_bufs s b = Some buf" "nb_len buf \<le> 1920"
      using assms(2) by (auto simp: Nb_clone live_or_null_def)
    obtain pre pay post where c: "contents s b = Some (pre, pay, post)" "nb_len buf = of_nat (length pay)"
      "length pre + length pay + length post \<le> 2048" using contents_Some[OF assms(1) b(1)] .
    have "length pay \<le> 1920" using b(2) c(2,3) by (simp add: word_le_nat_alt unat_of_nat_u32)
    then obtain nb s' where "netbuf_clone b s = Some (nb, s')" "net_ok s'"
      by (rule netbuf_clone_ok[OF assms(1) c(1)])
    then show ?thesis unfolding Nb_clone by simp
  qed
qed

definition nb_sample :: nb_state where
  "nb_sample = snd (netbuf_alloc 60 \<lparr>ns_kmalloc = [0x1000, 0x2000, 0x3000, 0x4000], ns_now = 0,
     ns_blocks = (\<lambda>_. None), ns_bufs = (\<lambda>_. None)\<rparr>)"

lemma nb_sample_ok: "net_ok nb_sample"
proof -
  let ?s = "\<lparr>ns_kmalloc = [0x1000, 0x2000, 0x3000, 0x4000], ns_now = 0,
     ns_blocks = (\<lambda>_. None), ns_bufs = (\<lambda>_. None)\<rparr> :: nb_state"
  have "net_ok ?s" by (simp add: net_ok_def)
  moreover obtain b s' where "netbuf_alloc 60 ?s = (b, s')" by fastforce
  ultimately show ?thesis using netbuf_alloc_cases[of ?s 60 b s'] by (auto simp: nb_sample_def)
qed

theorem netbuf_ops_typed_witness: "\<exists>s'. nb_run (Nb_put 0x1000 60) nb_sample = Some s' \<and> net_ok s'"
proof (rule netbuf_ops_typed[OF nb_sample_ok])
  show "nb_callable (Nb_put 0x1000 60) nb_sample"
    by (simp add: live_or_null_def nb_sample_def netbuf_alloc_def kmalloc_next_def kmalloc_block_def)
qed

end
