(* ===== verification/Netdev.thy ===== *)
theory Netdev
  imports Netbuf
begin

text \<open>
  Network devices and the Ethernet layer: \<^verbatim>\<open>src/src/net/netdev.c\<close>, the sending half and the address
  helpers of \<^verbatim>\<open>src/src/net/ethernet.c\<close>, and the transmit routine of the one driver that provides a
  device, \<^verbatim>\<open>src/src/drivers/x86/e1000.c\<close>.  Devices are objects under their addresses, \<open>0\<close> being the null
  pointer.  What the hardware decides, whether a descriptor of the transmit ring becomes free in time,
  is a field of the state; the frames handed to the card are recorded in the order of transmission.  The
  receiving half of the layer is in theory \<open>Net_Input\<close>, behind the protocols it calls.
\<close>

section \<open>State\<close>

datatype netdev_state_t = NETDEV_DOWN | NETDEV_UP

text \<open>The operation tables a device can point to: \<^verbatim>\<open>e1000_netdev_ops\<close> is the only one.\<close>

datatype netdev_ops_t = E1000_ops

record netdev_t =
  nd_name :: string
  nd_mac :: "u8 list"
  nd_ip_addr :: u32
  nd_netmask :: u32
  nd_gateway :: u32
  nd_state :: netdev_state_t
  nd_mtu :: u16
  nd_rx_packets :: u64
  nd_tx_packets :: u64
  nd_rx_bytes :: u64
  nd_tx_bytes :: u64
  nd_rx_errors :: u64
  nd_tx_errors :: u64
  nd_rx_dropped :: u64
  nd_tx_dropped :: u64
  nd_ops :: "netdev_ops_t option"

record dev_state = nb_state +
  ds_devs :: "u32 \<Rightarrow> netdev_t option"
  ds_netdevs :: "u32 list"
  ds_default :: u32
  ds_eth_num :: nat
  ds_tx_ready :: "bool list"
  ds_wire :: "(u32 \<times> u8 list) list"

abbreviation (input) MAX_NETDEV :: nat where "MAX_NETDEV \<equiv> 4"

section \<open>The device table\<close>

definition netdev_init :: "'a dev_state_scheme \<Rightarrow> 'a dev_state_scheme" where
  "netdev_init s = s\<lparr>ds_netdevs := [], ds_default := 0, ds_eth_num := 0\<rparr>"

text \<open>Decimal digits, as \<^verbatim>\<open>%d\<close> prints a device number, and \<^verbatim>\<open>snprintf\<close>'s truncation to the buffer.\<close>

fun decimal :: "nat \<Rightarrow> string" where
  "decimal n = (if n < 10 then [char_of (48 + n)] else decimal (n div 10) @ [char_of (48 + n mod 10)])"

declare decimal.simps [simp del]

definition zero_netdev :: netdev_t where
  "zero_netdev = \<lparr>nd_name = '''', nd_mac = replicate 6 0, nd_ip_addr = 0, nd_netmask = 0, nd_gateway = 0,
     nd_state = NETDEV_DOWN, nd_mtu = 0, nd_rx_packets = 0, nd_tx_packets = 0, nd_rx_bytes = 0, nd_tx_bytes = 0,
     nd_rx_errors = 0, nd_tx_errors = 0, nd_rx_dropped = 0, nd_tx_dropped = 0, nd_ops = None\<rparr>"

definition netdev_alloc :: "string option \<Rightarrow> 'a dev_state_scheme \<Rightarrow> u32 \<times> 'a dev_state_scheme" where
  "netdev_alloc name s =
     (let (dev, s1) = kmalloc_next (\<lambda>x. ds_devs s x \<noteq> None) s
      in if dev = 0 then (0, s1)
         else let nm = take 15 ((case name of Some n \<Rightarrow> n | None \<Rightarrow> ''eth'') @ decimal (ds_eth_num s1))
              in (dev, s1\<lparr>ds_devs := (ds_devs s1)(dev := Some (zero_netdev\<lparr>nd_name := nm,
                     nd_state := NETDEV_DOWN, nd_mtu := 1500\<rparr>)), ds_eth_num := ds_eth_num s1 + 1\<rparr>))"

definition netdev_free :: "u32 \<Rightarrow> 'a dev_state_scheme \<Rightarrow> 'a dev_state_scheme" where
  "netdev_free dev s = (if dev = 0 then s else s\<lparr>ds_devs := (ds_devs s)(dev := None)\<rparr>)"

definition netdev_register :: "u32 \<Rightarrow> 'a dev_state_scheme \<Rightarrow> int \<times> 'a dev_state_scheme" where
  "netdev_register dev s =
     (if dev = 0 then (-1, s)
      else if MAX_NETDEV \<le> length (ds_netdevs s) then (-1, s)
      else if dev \<in> set (ds_netdevs s) then (-1, s)
      else (0, s\<lparr>ds_netdevs := ds_netdevs s @ [dev],
                 ds_default := (if ds_default s = 0 then dev else ds_default s)\<rparr>))"

text \<open>\<^verbatim>\<open>netdev_unregister\<close> closes the gap by shifting the later entries down.\<close>

definition netdev_unregister :: "u32 \<Rightarrow> 'a dev_state_scheme \<Rightarrow> int \<times> 'a dev_state_scheme" where
  "netdev_unregister dev s =
     (if dev = 0 then (-1, s)
      else case find (\<lambda>i. ds_netdevs s ! i = dev) [0..<length (ds_netdevs s)] of
             None \<Rightarrow> (-1, s)
           | Some found \<Rightarrow>
               (let devs = take found (ds_netdevs s) @ drop (Suc found) (ds_netdevs s);
                    d1 = (if ds_default s = dev then 0 else ds_default s);
                    d2 = (if d1 = 0 \<and> devs \<noteq> [] then hd devs else d1)
                in (0, s\<lparr>ds_netdevs := devs, ds_default := d2\<rparr>)))"

text \<open>The loop of \<^verbatim>\<open>netdev_get_by_name\<close>; reading the name of an entry that is gone faults.\<close>

fun find_dev_name :: "(u32 \<Rightarrow> netdev_t option) \<Rightarrow> string \<Rightarrow> u32 list \<Rightarrow> u32 option" where
  "find_dev_name devs name [] = Some 0"
| "find_dev_name devs name (d # ds) = do {
     x \<leftarrow> devs d;
     if nd_name x = name then Some d else find_dev_name devs name ds }"

definition netdev_get_by_name :: "string \<Rightarrow> 'a dev_state_scheme \<Rightarrow> u32 option" where
  "netdev_get_by_name name s = find_dev_name (ds_devs s) name (ds_netdevs s)"

definition netdev_get_default :: "'a dev_state_scheme \<Rightarrow> u32" where
  "netdev_get_default s = ds_default s"

definition netdev_set_default :: "u32 \<Rightarrow> 'a dev_state_scheme \<Rightarrow> 'a dev_state_scheme" where
  "netdev_set_default dev s = s\<lparr>ds_default := dev\<rparr>"

definition netdev_get_all :: "int \<Rightarrow> 'a dev_state_scheme \<Rightarrow> u32 list" where
  "netdev_get_all max_count s = (if max_count \<le> 0 then [] else take (nat max_count) (ds_netdevs s))"

definition upd_dev :: "u32 \<Rightarrow> (netdev_t \<Rightarrow> netdev_t) \<Rightarrow> 'a dev_state_scheme \<Rightarrow> 'a dev_state_scheme option" where
  "upd_dev dev f s = do { d \<leftarrow> ds_devs s dev; Some (s\<lparr>ds_devs := (ds_devs s)(dev := Some (f d))\<rparr>) }"

text \<open>The driver's \<^verbatim>\<open>open\<close> and \<^verbatim>\<open>close\<close> program registers and return 0.\<close>

definition netdev_up :: "u32 \<Rightarrow> 'a dev_state_scheme \<Rightarrow> (int \<times> 'a dev_state_scheme) option" where
  "netdev_up dev s =
     (if dev = 0 then Some (-1, s)
      else do { s1 \<leftarrow> upd_dev dev (\<lambda>d. d\<lparr>nd_state := NETDEV_UP\<rparr>) s; Some (0, s1) })"

definition netdev_down :: "u32 \<Rightarrow> 'a dev_state_scheme \<Rightarrow> (int \<times> 'a dev_state_scheme) option" where
  "netdev_down dev s =
     (if dev = 0 then Some (-1, s)
      else do { s1 \<leftarrow> upd_dev dev (\<lambda>d. d\<lparr>nd_state := NETDEV_DOWN\<rparr>) s; Some (0, s1) })"

definition netdev_set_ipaddr :: "u32 \<Rightarrow> u32 \<Rightarrow> 'a dev_state_scheme \<Rightarrow> 'a dev_state_scheme option" where
  "netdev_set_ipaddr dev ip s = (if dev = 0 then Some s else upd_dev dev (\<lambda>d. d\<lparr>nd_ip_addr := ip\<rparr>) s)"

definition netdev_set_netmask :: "u32 \<Rightarrow> u32 \<Rightarrow> 'a dev_state_scheme \<Rightarrow> 'a dev_state_scheme option" where
  "netdev_set_netmask dev m s = (if dev = 0 then Some s else upd_dev dev (\<lambda>d. d\<lparr>nd_netmask := m\<rparr>) s)"

definition netdev_set_gateway :: "u32 \<Rightarrow> u32 \<Rightarrow> 'a dev_state_scheme \<Rightarrow> 'a dev_state_scheme option" where
  "netdev_set_gateway dev g s = (if dev = 0 then Some s else upd_dev dev (\<lambda>d. d\<lparr>nd_gateway := g\<rparr>) s)"

section \<open>Transmission\<close>

text \<open>\<^verbatim>\<open>e1000_netdev_transmit\<close> copies the packet into the ring buffer of the current descriptor; it does
  not take over the packet buffer.\<close>

definition e1000_netdev_transmit :: "u32 \<Rightarrow> u32 \<Rightarrow> 'a dev_state_scheme \<Rightarrow> (int \<times> 'a dev_state_scheme) option" where
  "e1000_netdev_transmit dev b s = do {
     buf \<leftarrow> ns_bufs s b;
     if nb_len buf = 0 \<or> nb_len buf > 1518 then Some (-1, s)
     else let s1 = s\<lparr>ds_tx_ready := tl (ds_tx_ready s)\<rparr>
          in if ds_tx_ready s = [] \<or> \<not> hd (ds_tx_ready s) then Some (-1, s1)
             else do {
               bs \<leftarrow> nb_read s1 b (nb_data buf) (unat (nb_len buf));
               Some (0, s1\<lparr>ds_wire := ds_wire s1 @ [(dev, bs)]\<rparr>) } }"

definition netdev_transmit :: "u32 \<Rightarrow> u32 \<Rightarrow> 'a dev_state_scheme \<Rightarrow> (int \<times> 'a dev_state_scheme) option" where
  "netdev_transmit dev b s =
     (if dev = 0 \<or> b = 0 then Some (-1, s)
      else do {
        d \<leftarrow> ds_devs s dev;
        if nd_state d \<noteq> NETDEV_UP
        then do { s1 \<leftarrow> upd_dev dev (\<lambda>d. d\<lparr>nd_tx_dropped := nd_tx_dropped d + 1\<rparr>) s; Some (-1, s1) }
        else if nd_ops d = None
        then do { s1 \<leftarrow> upd_dev dev (\<lambda>d. d\<lparr>nd_tx_errors := nd_tx_errors d + 1\<rparr>) s; Some (-1, s1) }
        else do {
          (ret, s1) \<leftarrow> e1000_netdev_transmit dev b s;
          buf \<leftarrow> ns_bufs s1 b;
          s2 \<leftarrow> upd_dev dev (if ret < 0 then (\<lambda>d. d\<lparr>nd_tx_errors := nd_tx_errors d + 1\<rparr>)
                 else (\<lambda>d. d\<lparr>nd_tx_packets := nd_tx_packets d + 1,
                         nd_tx_bytes := nd_tx_bytes d + ucast (nb_len buf)\<rparr>)) s1;
          Some (ret, s2) } })"

section \<open>Ethernet\<close>

abbreviation (input) ETH_HEADER_LEN :: u32 where "ETH_HEADER_LEN \<equiv> 14"

abbreviation (input) ETH_TYPE_IP :: u16 where "ETH_TYPE_IP \<equiv> 0x0800"

abbreviation (input) ETH_TYPE_ARP :: u16 where "ETH_TYPE_ARP \<equiv> 0x0806"

definition ETH_BROADCAST_ADDR :: "u8 list" where "ETH_BROADCAST_ADDR = replicate 6 0xFF"

definition ETH_ZERO_ADDR :: "u8 list" where "ETH_ZERO_ADDR = replicate 6 0"

text \<open>Addresses are lists of six bytes; \<^verbatim>\<open>mac_addr_cmp\<close> is used only to test for equality.\<close>

definition mac_addr_is_broadcast :: "u8 list \<Rightarrow> bool" where
  "mac_addr_is_broadcast a \<longleftrightarrow> a = ETH_BROADCAST_ADDR"

definition mac_addr_is_multicast :: "u8 list \<Rightarrow> bool" where
  "mac_addr_is_multicast a \<longleftrightarrow> (a ! 0) AND 0x01 \<noteq> 0"

definition mac_addr_is_zero :: "u8 list \<Rightarrow> bool" where
  "mac_addr_is_zero a \<longleftrightarrow> a = ETH_ZERO_ADDR"

definition eth_header_bytes :: "u8 list \<Rightarrow> u8 list \<Rightarrow> u16 \<Rightarrow> u8 list" where
  "eth_header_bytes dst src type = dst @ src @ bytes16 (htons type)"

definition ethernet_output ::
  "u32 \<Rightarrow> u32 \<Rightarrow> u8 list \<Rightarrow> u16 \<Rightarrow> 'a dev_state_scheme \<Rightarrow> (int \<times> 'a dev_state_scheme) option" where
  "ethernet_output dev b dst_mac type s =
     (if dev = 0 \<or> b = 0 then Some (-1, s)
      else do {
        (header_ptr, s1) \<leftarrow> netbuf_push b ETH_HEADER_LEN s;
        if header_ptr = 0 then Some (-1, s1)
        else do {
          d \<leftarrow> ds_devs s1 dev;
          buf \<leftarrow> ns_bufs s1 b;
          s2 \<leftarrow> nb_write b (nb_data buf) (eth_header_bytes dst_mac (nd_mac d) type) s1;
          s3 \<leftarrow> upd_buf b (\<lambda>x. x\<lparr>nb_mac_header := nb_data x\<rparr>) s2;
          netdev_transmit dev b s3 } })"

section \<open>Invariant and frame\<close>

definition dev_ok :: "'a dev_state_scheme \<Rightarrow> bool" where
  "dev_ok s \<longleftrightarrow> net_ok s \<and> (\<forall>dev d. ds_devs s dev = Some d \<longrightarrow> dev \<noteq> 0 \<and> length (nd_mac d) = 6)
     \<and> (ds_default s \<noteq> 0 \<longrightarrow> ds_devs s (ds_default s) \<noteq> None)"

lemma dev_okD:
  assumes "dev_ok s"
  shows "net_ok s" "ds_devs s dev = Some d \<Longrightarrow> length (nd_mac d) = 6" "ds_devs s dev = Some d \<Longrightarrow> dev \<noteq> 0"
    "ds_default s \<noteq> 0 \<Longrightarrow> \<exists>d. ds_devs s (ds_default s) = Some d"
  using assms unfolding dev_ok_def by auto

text \<open>The configuration of a device, which sending does not change.\<close>

definition dev_cfg :: "netdev_t \<Rightarrow> string \<times> u8 list \<times> u32 \<times> u32 \<times> u32 \<times> netdev_state_t \<times> netdev_ops_t option" where
  "dev_cfg d = (nd_name d, nd_mac d, nd_ip_addr d, nd_netmask d, nd_gateway d, nd_state d, nd_ops d)"

text \<open>\<open>dev_frame s s'\<close>: only buffers, statistics, ring readiness and the record of sent frames differ,
  and that record has only grown.\<close>

definition dev_frame :: "'a dev_state_scheme \<Rightarrow> 'a dev_state_scheme \<Rightarrow> bool" where
  "dev_frame s s' \<longleftrightarrow>
     s' = s\<lparr>ns_kmalloc := ns_kmalloc s', ns_blocks := ns_blocks s', ns_bufs := ns_bufs s', ds_devs := ds_devs s',
            ds_tx_ready := ds_tx_ready s', ds_wire := ds_wire s'\<rparr>
     \<and> (\<forall>dev. map_option dev_cfg (ds_devs s' dev) = map_option dev_cfg (ds_devs s dev))
     \<and> (\<exists>fs. ds_wire s' = ds_wire s @ fs)"

lemma dev_frame_refl [simp]: "dev_frame s s"
  by (simp add: dev_frame_def)

lemma dev_frame_trans:
  assumes "dev_frame s s'" "dev_frame s' s''"
  shows "dev_frame s s''"
proof -
  obtain f1 f2 where f: "ds_wire s' = ds_wire s @ f1" "ds_wire s'' = ds_wire s' @ f2"
    using assms unfolding dev_frame_def by blast
  have "s'' = s\<lparr>ns_kmalloc := ns_kmalloc s'', ns_blocks := ns_blocks s'', ns_bufs := ns_bufs s'',
            ds_devs := ds_devs s'', ds_tx_ready := ds_tx_ready s'', ds_wire := ds_wire s''\<rparr>"
    using assms unfolding dev_frame_def by (cases s; cases s'; cases s'') simp
  moreover have "map_option dev_cfg (ds_devs s'' dev) = map_option dev_cfg (ds_devs s dev)" for dev
    using assms unfolding dev_frame_def by simp
  ultimately show ?thesis using f unfolding dev_frame_def by auto
qed

lemma same_env_frame:
  fixes s s' :: "'a dev_state_scheme"
  assumes "same_env s s'"
  shows "dev_frame s s'"
proof -
  have e: "s' = s\<lparr>ns_kmalloc := ns_kmalloc s', ns_blocks := ns_blocks s', ns_bufs := ns_bufs s'\<rparr>"
    using assms by (simp add: same_env_def)
  have d: "ds_devs s' = ds_devs s" "ds_tx_ready s' = ds_tx_ready s" "ds_wire s' = ds_wire s"
    by (subst e, simp)+
  from e d show ?thesis unfolding dev_frame_def by (cases s; cases s') simp
qed

lemma dev_frame_simps:
  assumes "dev_frame s s'"
  shows "ns_now s' = ns_now s" "ds_netdevs s' = ds_netdevs s" "ds_default s' = ds_default s"
    "dev_state.more s' = dev_state.more s" "ds_devs s' dev = None \<longleftrightarrow> ds_devs s dev = None"
proof -
  have e: "s' = s\<lparr>ns_kmalloc := ns_kmalloc s', ns_blocks := ns_blocks s', ns_bufs := ns_bufs s', ds_devs := ds_devs s',
            ds_tx_ready := ds_tx_ready s', ds_wire := ds_wire s'\<rparr>"
    and c: "map_option dev_cfg (ds_devs s' dev) = map_option dev_cfg (ds_devs s dev)"
    using assms unfolding dev_frame_def by blast+
  show "ns_now s' = ns_now s" "ds_netdevs s' = ds_netdevs s" "ds_default s' = ds_default s"
    "dev_state.more s' = dev_state.more s"
    by (subst e, simp)+
  show "ds_devs s' dev = None \<longleftrightarrow> ds_devs s dev = None" using c by (metis option.map_disc_iff)
qed

lemma dev_frame_cfg:
  assumes "dev_frame s s'" "ds_devs s dev = Some d"
  obtains d' where "ds_devs s' dev = Some d'" "dev_cfg d' = dev_cfg d"
proof -
  have "map_option dev_cfg (ds_devs s' dev) = Some (dev_cfg d)"
    using assms unfolding dev_frame_def by simp
  then show ?thesis using that by auto
qed

lemma dev_ok_frame:
  assumes "dev_ok s" "dev_frame s s'" "net_ok s'"
  shows "dev_ok s'"
proof -
  have "dev \<noteq> 0 \<and> length (nd_mac d') = 6" if "ds_devs s' dev = Some d'" for dev d'
  proof -
    have "map_option dev_cfg (ds_devs s dev) = Some (dev_cfg d')"
      using assms(2) that unfolding dev_frame_def by (metis option.simps(9))
    then obtain d where "ds_devs s dev = Some d" "dev_cfg d = dev_cfg d'" by auto
    then show ?thesis using dev_okD(2,3)[OF assms(1), of dev d] by (simp add: dev_cfg_def)
  qed
  moreover have "ds_default s' \<noteq> 0 \<longrightarrow> ds_devs s' (ds_default s') \<noteq> None"
    using assms(1) dev_frame_simps(3,5)[OF assms(2)] unfolding dev_ok_def by simp
  ultimately show ?thesis using assms(3) unfolding dev_ok_def by blast
qed

text \<open>\<open>buf_tx b s s'\<close>: a step that may rewrite buffer \<open>b\<close> and send frames, and touches no other buffer.\<close>

definition buf_tx :: "u32 \<Rightarrow> 'a dev_state_scheme \<Rightarrow> 'a dev_state_scheme \<Rightarrow> bool" where
  "buf_tx b s s' \<longleftrightarrow> net_ok s' \<and> dev_frame s s' \<and> ns_kmalloc s' = ns_kmalloc s
     \<and> (ns_bufs s' b = None \<longleftrightarrow> ns_bufs s b = None)
     \<and> (\<forall>b'. b' \<noteq> b \<longrightarrow> contents s' b' = contents s b' \<and> ns_bufs s' b' = ns_bufs s b')"

lemma buf_tx_refl: "net_ok s \<Longrightarrow> buf_tx b s s"
  by (simp add: buf_tx_def)

lemma buf_tx_trans: "buf_tx b s s' \<Longrightarrow> buf_tx b s' s'' \<Longrightarrow> buf_tx b s s''"
  unfolding buf_tx_def using dev_frame_trans by metis

lemma buf_step_live: "buf_step b c s s' \<Longrightarrow> ns_bufs s' b \<noteq> None"
  by (auto simp: buf_step_def contents_def bind_eq_Some_conv)

lemma buf_step_tx:
  fixes s s' :: "'a dev_state_scheme"
  assumes "buf_step b c s s'" "contents s b \<noteq> None"
  shows "buf_tx b s s'"
proof -
  have "ns_bufs s b \<noteq> None" using assms(2) by (auto simp: contents_def bind_eq_Some_conv)
  then show ?thesis using assms(1) buf_step_live[OF assms(1)] same_env_frame[of s s']
    unfolding buf_step_def buf_tx_def by blast
qed

text \<open>Changing statistics of a device.\<close>

lemma upd_dev_tx:
  assumes "net_ok s" "ds_devs s dev = Some d" "dev_cfg (f d) = dev_cfg d"
  obtains s' where "upd_dev dev f s = Some s'" "buf_tx b s s'" "contents s' = contents s"
    "ds_wire s' = ds_wire s" "ns_bufs s' = ns_bufs s"
proof -
  let ?s = "s\<lparr>ds_devs := (ds_devs s)(dev := Some (f d))\<rparr>"
  have "upd_dev dev f s = Some ?s" using assms(2) by (simp add: upd_dev_def)
  moreover have "dev_frame s ?s" using assms(2,3) by (simp add: dev_frame_def)
  moreover have "net_ok ?s" using assms(1) by (simp add: net_ok_def)
  moreover have "contents ?s = contents s" by (simp add: contents_def fun_eq_iff)
  ultimately show ?thesis using that[of ?s] by (simp add: buf_tx_def)
qed

section \<open>Sending a frame\<close>

lemma e1000_transmit_ok:
  assumes ok: "net_ok s" and c: "contents s b = Some (pre, pay, post)"
  obtains ret s' where "e1000_netdev_transmit dev b s = Some (ret, s')" "buf_tx b s s'"
    "contents s' = contents s" "ns_bufs s' = ns_bufs s" "ds_devs s' = ds_devs s"
    "ret = 0 \<and> ds_wire s' = ds_wire s @ [(dev, pay)] \<or> ret = -1 \<and> ds_wire s' = ds_wire s"
    "0 < length pay \<and> length pay \<le> 1518 \<and> ds_tx_ready s = True # rs \<longrightarrow> ret = 0 \<and> ds_tx_ready s' = rs"
proof -
  obtain buf where b: "ns_bufs s b = Some buf" "nb_len buf = of_nat (length pay)"
    "length pre + length pay + length post \<le> 2048"
    using contentsD[OF ok c] by metis
  have ul: "unat (nb_len buf) = length pay" using b(2,3) by (simp add: unat_of_nat_u32)
  have sz: "nb_len buf = 0 \<longleftrightarrow> pay = []" "nb_len buf > 1518 \<longleftrightarrow> 1518 < length pay"
    using ul by (auto simp: word_less_nat_alt simp flip: unat_eq_0)
  have rd: "nb_read s b (nb_data buf) (length pay) = Some pay"
    using nb_read_data[OF ok c b(1), of 0 "length pay"] by simp
  have rd': "nb_read (s\<lparr>ds_tx_ready := r\<rparr>) b (nb_data buf) (length pay) = Some pay" for r
    using rd by (simp add: nb_read_def block_read_def)
  have keep: "net_ok (s\<lparr>ds_tx_ready := r, ds_wire := w\<rparr>)"
    "contents (s\<lparr>ds_tx_ready := r, ds_wire := w\<rparr>) = contents s" for r w
    using ok by (simp_all add: net_ok_def contents_def fun_eq_iff)
  define s1 where "s1 = s\<lparr>ds_tx_ready := tl (ds_tx_ready s)\<rparr>"
  have s1: "s1 = s\<lparr>ds_tx_ready := tl (ds_tx_ready s), ds_wire := ds_wire s\<rparr>" by (simp add: s1_def)
  have c1: "contents s1 = contents s" "net_ok s1" unfolding s1 by (rule keep)+
  consider (bad) "pay = [] \<or> 1518 < length pay"
    | (wait) "pay \<noteq> []" "length pay \<le> 1518" "ds_tx_ready s = [] \<or> \<not> hd (ds_tx_ready s)"
    | (sent) "pay \<noteq> []" "length pay \<le> 1518" "ds_tx_ready s \<noteq> []" "hd (ds_tx_ready s)"
    by linarith
  then show ?thesis
  proof cases
    case bad
    then show ?thesis using that[of "-1" s] b(1) sz ok
      by (auto simp: e1000_netdev_transmit_def buf_tx_refl)
  next
    case wait
    have "buf_tx b s s1" unfolding buf_tx_def dev_frame_def using c1 by (simp add: s1_def)
    moreover have "e1000_netdev_transmit dev b s = Some (-1, s1)"
      using wait b(1) sz by (auto simp: e1000_netdev_transmit_def s1_def Let_def)
    moreover have "ds_tx_ready s \<noteq> True # rs" using wait(3) by auto
    ultimately show ?thesis using that[of "-1" s1] c1 by (simp add: s1_def)
  next
    case sent
    let ?s = "s\<lparr>ds_tx_ready := tl (ds_tx_ready s), ds_wire := ds_wire s @ [(dev, pay)]\<rparr>"
    have "buf_tx b s ?s" unfolding buf_tx_def dev_frame_def using keep by simp
    moreover have "e1000_netdev_transmit dev b s = Some (0, ?s)"
      using sent b(1) sz ul rd' by (simp add: e1000_netdev_transmit_def Let_def)
    ultimately show ?thesis using that[of 0 ?s] sent keep by auto
  qed
qed

lemma netdev_transmit_ok:
  assumes ok: "dev_ok s" and c: "contents s b = Some (pre, pay, post)" and d: "ds_devs s dev = Some d"
  obtains ret s' where "netdev_transmit dev b s = Some (ret, s')" "buf_tx b s s'" "contents s' = contents s"
    "ns_bufs s' = ns_bufs s"
    "ret = 0 \<and> ds_wire s' = ds_wire s @ [(dev, pay)] \<or> ret = -1 \<and> ds_wire s' = ds_wire s"
    "nd_state d = NETDEV_UP \<and> nd_ops d \<noteq> None \<and> 0 < length pay \<and> length pay \<le> 1518
      \<and> ds_tx_ready s = True # rs \<longrightarrow> ret = 0 \<and> ds_tx_ready s' = rs"
proof -
  have nok: "net_ok s" by (rule dev_okD(1)[OF ok])
  have nz: "dev \<noteq> 0" "b \<noteq> 0" using dev_okD(3)[OF ok d] contentsD[OF nok c] by auto
  let ?drop = "\<lambda>d. d\<lparr>nd_tx_dropped := nd_tx_dropped d + 1\<rparr> :: netdev_t"
  let ?err = "\<lambda>d. d\<lparr>nd_tx_errors := nd_tx_errors d + 1\<rparr> :: netdev_t"
  consider (down) "nd_state d \<noteq> NETDEV_UP" | (noops) "nd_state d = NETDEV_UP" "nd_ops d = None"
    | (up) "nd_state d = NETDEV_UP" "nd_ops d \<noteq> None" by blast
  then show ?thesis
  proof cases
    case down
    obtain s' where s': "upd_dev dev ?drop s = Some s'" "buf_tx b s s'" "contents s' = contents s"
      "ds_wire s' = ds_wire s" "ns_bufs s' = ns_bufs s"
      by (rule upd_dev_tx[OF nok d, of ?drop b]) (simp add: dev_cfg_def)
    show ?thesis by (rule that[of "-1" s']) (use s' down d nz in \<open>simp_all add: netdev_transmit_def\<close>)
  next
    case noops
    obtain s' where s': "upd_dev dev ?err s = Some s'" "buf_tx b s s'" "contents s' = contents s"
      "ds_wire s' = ds_wire s" "ns_bufs s' = ns_bufs s"
      by (rule upd_dev_tx[OF nok d, of ?err b]) (simp add: dev_cfg_def)
    show ?thesis by (rule that[of "-1" s']) (use s' noops d nz in \<open>simp_all add: netdev_transmit_def\<close>)
  next
    case up
    obtain ret s1 where t: "e1000_netdev_transmit dev b s = Some (ret, s1)" "buf_tx b s s1"
      "contents s1 = contents s" "ns_bufs s1 = ns_bufs s" "ds_devs s1 = ds_devs s"
      "ret = 0 \<and> ds_wire s1 = ds_wire s @ [(dev, pay)] \<or> ret = -1 \<and> ds_wire s1 = ds_wire s"
      "0 < length pay \<and> length pay \<le> 1518 \<and> ds_tx_ready s = True # rs \<longrightarrow> ret = 0 \<and> ds_tx_ready s1 = rs"
      by (rule e1000_transmit_ok[OF nok c, of dev rs])
    obtain buf where b: "ns_bufs s1 b = Some buf" using contentsD[OF nok c] t(4) by metis
    let ?f = "if ret < 0 then ?err else (\<lambda>d. d\<lparr>nd_tx_packets := nd_tx_packets d + 1,
                         nd_tx_bytes := nd_tx_bytes d + ucast (nb_len buf)\<rparr>)"
    have nok1: "net_ok s1" and d1: "ds_devs s1 dev = Some d" using t(2,5) d by (simp_all add: buf_tx_def)
    have rd: "ds_tx_ready s' = ds_tx_ready s1" if "upd_dev dev ?f s1 = Some s'" for s'
      using that by (auto simp: upd_dev_def bind_eq_Some_conv)
    obtain s' where s': "upd_dev dev ?f s1 = Some s'" "buf_tx b s1 s'" "contents s' = contents s1"
      "ds_wire s' = ds_wire s1" "ns_bufs s' = ns_bufs s1"
      by (rule upd_dev_tx[OF nok1 d1, of ?f b]) (simp add: dev_cfg_def)
    have "netdev_transmit dev b s = Some (ret, s')"
      using up d nz t(1) b s'(1) by (auto simp: netdev_transmit_def)
    then show ?thesis
      using that[of ret s'] t s' rd[OF s'(1)] buf_tx_trans[OF t(2) s'(2)] by simp
  qed
qed

text \<open>A frame is the Ethernet header followed by the packet.  Without headroom for the header the call
  fails and sends nothing.\<close>

lemma ethernet_output_ok:
  assumes ok: "dev_ok s" and c: "contents s b = Some (pre, pay, post)" and d: "ds_devs s dev = Some d"
    and dst: "length dst = 6"
  obtains ret s' where "ethernet_output dev b dst type s = Some (ret, s')" "buf_tx b s s'"
    "ret = 0 \<and> ds_wire s' = ds_wire s @ [(dev, eth_header_bytes dst (nd_mac d) type @ pay)]
     \<or> ret = -1 \<and> ds_wire s' = ds_wire s"
    "nd_state d = NETDEV_UP \<and> nd_ops d \<noteq> None \<and> 14 \<le> length pre \<and> length pay \<le> 1504
      \<and> ds_tx_ready s = True # rs \<longrightarrow> ret = 0 \<and> ds_tx_ready s' = rs"
proof -
  have nok: "net_ok s" by (rule dev_okD(1)[OF ok])
  have nz: "dev \<noteq> 0" "b \<noteq> 0" using dev_okD(3)[OF ok d] contentsD[OF nok c] by auto
  show ?thesis
  proof (cases "14 \<le> length pre")
    case False
    have "netbuf_push b 14 s = Some (0, s)" using netbuf_push_fail[OF nok c, of 14] False by simp
    then show ?thesis using that[of "-1" s] nz False nok by (simp add: ethernet_output_def buf_tx_refl)
  next
    case True
    let ?k = "length pre - 14"
    obtain p s1 buf where s1: "netbuf_push b (of_nat 14) s = Some (p, s1)" "p \<noteq> 0"
      "buf_step b (take ?k pre, drop ?k pre @ pay, post) s s1"
      "ns_bufs s1 b = Some (buf\<lparr>nb_data := p, nb_len := of_nat (14 + length pay)\<rparr>)"
      by (rule netbuf_push_ok[OF nok c True]) blast
    have env: "same_env s s1" "net_ok s1" "contents s1 b = Some (take ?k pre, drop ?k pre @ pay, post)"
      using s1(3) by (simp_all add: buf_step_def)
    have d1: "ds_devs s1 dev = Some d" "ds_tx_ready s1 = ds_tx_ready s" "ds_wire s1 = ds_wire s"
    proof -
      have e: "s1 = s\<lparr>ns_kmalloc := ns_kmalloc s1, ns_blocks := ns_blocks s1, ns_bufs := ns_bufs s1\<rparr>"
        using env(1) by (simp add: same_env_def)
      show "ds_devs s1 dev = Some d" "ds_tx_ready s1 = ds_tx_ready s" "ds_wire s1 = ds_wire s"
        by (subst e, simp add: d)+
    qed
    let ?h = "eth_header_bytes dst (nd_mac d) type"
    have lh: "length ?h = 14" using dst dev_okD(2)[OF ok d] by (simp add: eth_header_bytes_def)
    obtain s2 where s2: "nb_write b p ?h s1 = Some s2"
      "buf_step b (take ?k pre, overwrite 0 ?h (drop ?k pre @ pay), post) s1 s2" "ns_bufs s2 = ns_bufs s1"
      using nb_write_data[OF env(2,3) s1(4), of 0 ?h] lh True by auto
    have ow: "overwrite 0 ?h (drop ?k pre @ pay) = ?h @ pay" by (rule overwrite_prefix) (use lh True in simp)
    have c2: "net_ok s2" "contents s2 b = Some (take ?k pre, ?h @ pay, post)"
      using s2(2) by (simp_all add: buf_step_def ow)
    let ?f = "\<lambda>x. x\<lparr>nb_mac_header := nb_data x\<rparr> :: netbuf_t"
    obtain s3 where s3: "upd_buf b ?f s2 = Some s3" "buf_step b (take ?k pre, ?h @ pay, post) s2 s3"
      using upd_buf_meta[OF c2 s1(4)[folded s2(3)], of ?f] by auto
    have t3: "buf_tx b s s3"
      using buf_tx_trans[OF buf_tx_trans[OF buf_step_tx[OF s1(3)] buf_step_tx[OF s2(2)]] buf_step_tx[OF s3(2)]]
        c env(3) c2(2) by simp
    have d3: "ds_devs s3 dev = Some d" "ds_tx_ready s3 = ds_tx_ready s" "ds_wire s3 = ds_wire s"
    proof -
      have "same_env s1 s3" using s2(2) s3(2) same_env_trans by (auto simp: buf_step_def)
      then have e: "s3 = s1\<lparr>ns_kmalloc := ns_kmalloc s3, ns_blocks := ns_blocks s3, ns_bufs := ns_bufs s3\<rparr>"
        by (simp add: same_env_def)
      show "ds_devs s3 dev = Some d" "ds_tx_ready s3 = ds_tx_ready s" "ds_wire s3 = ds_wire s"
        by (subst e, simp add: d1)+
    qed
    have ok3: "dev_ok s3" using dev_ok_frame[OF ok] t3 by (simp add: buf_tx_def)
    have c3: "contents s3 b = Some (take ?k pre, ?h @ pay, post)" using s3(2) by (simp add: buf_step_def)
    obtain ret s' where s': "netdev_transmit dev b s3 = Some (ret, s')" "buf_tx b s3 s'"
      "ret = 0 \<and> ds_wire s' = ds_wire s3 @ [(dev, ?h @ pay)] \<or> ret = -1 \<and> ds_wire s' = ds_wire s3"
      "nd_state d = NETDEV_UP \<and> nd_ops d \<noteq> None \<and> 0 < length (?h @ pay) \<and> length (?h @ pay) \<le> 1518
      \<and> ds_tx_ready s3 = True # rs \<longrightarrow> ret = 0 \<and> ds_tx_ready s' = rs"
      by (rule netdev_transmit_ok[OF ok3 c3 d3(1), of rs])
    have "ethernet_output dev b dst type s = Some (ret, s')"
      using nz s1(1,2,4) d1 s2(1) s3(1) s'(1) by (simp add: ethernet_output_def)
    then show ?thesis using that[of ret s'] s' buf_tx_trans[OF t3 s'(2)] lh by (simp add: d3)
  qed
qed

end
