(* ===== verification/Arp.thy ===== *)
theory Arp
  imports Netdev
begin

text \<open>
  Address resolution, \<^verbatim>\<open>src/src/net/arp.c\<close>: the cache of 32 entries, the packets that wait for an address,
  and the three message routines.  A section under \<^verbatim>\<open>arp_cache_lock\<close> is one function; the queue of packets
  waiting at an entry is the list of their buffers.
\<close>

section \<open>State\<close>

datatype arp_state_t = ARP_STATE_FREE | ARP_STATE_PENDING | ARP_STATE_RESOLVED

record arp_entry_t =
  ae_ip_addr :: u32
  ae_mac_addr :: "u8 list"
  ae_timestamp :: u32
  ae_state :: arp_state_t
  ae_retries :: u8
  ae_pending_queue :: "u32 list"

record arp_env = dev_state +
  as_cache :: "arp_entry_t list"

abbreviation (input) ARP_CACHE_SIZE :: nat where "ARP_CACHE_SIZE \<equiv> 32"

abbreviation (input) ARP_CACHE_TIMEOUT :: u32 where "ARP_CACHE_TIMEOUT \<equiv> 300000"

abbreviation (input) ARP_MAX_RETRIES :: u8 where "ARP_MAX_RETRIES \<equiv> 3"

text \<open>The header of an ARP message, fields as they stand in memory.\<close>

record arp_header_t =
  ah_hardware_type :: u16
  ah_protocol_type :: u16
  ah_hardware_len :: u8
  ah_protocol_len :: u8
  ah_operation :: u16
  ah_sender_mac :: "u8 list"
  ah_sender_ip :: u32
  ah_target_mac :: "u8 list"
  ah_target_ip :: u32

definition arp_header_of :: "u8 list \<Rightarrow> arp_header_t" where
  "arp_header_of bs =
     \<lparr>ah_hardware_type = le16 (bs ! 0) (bs ! 1), ah_protocol_type = le16 (bs ! 2) (bs ! 3),
      ah_hardware_len = bs ! 4, ah_protocol_len = bs ! 5, ah_operation = le16 (bs ! 6) (bs ! 7),
      ah_sender_mac = take 6 (drop 8 bs), ah_sender_ip = le32 (bs ! 14) (bs ! 15) (bs ! 16) (bs ! 17),
      ah_target_mac = take 6 (drop 18 bs), ah_target_ip = le32 (bs ! 24) (bs ! 25) (bs ! 26) (bs ! 27)\<rparr>"

definition arp_header_bytes :: "arp_header_t \<Rightarrow> u8 list" where
  "arp_header_bytes h = bytes16 (ah_hardware_type h) @ bytes16 (ah_protocol_type h)
     @ [ah_hardware_len h, ah_protocol_len h] @ bytes16 (ah_operation h) @ ah_sender_mac h
     @ bytes32 (ah_sender_ip h) @ ah_target_mac h @ bytes32 (ah_target_ip h)"

section \<open>The cache\<close>

definition zero_entry :: arp_entry_t where
  "zero_entry = \<lparr>ae_ip_addr = 0, ae_mac_addr = replicate 6 0, ae_timestamp = 0, ae_state = ARP_STATE_FREE,
     ae_retries = 0, ae_pending_queue = []\<rparr>"

definition arp_init :: "'a arp_env_scheme \<Rightarrow> 'a arp_env_scheme" where
  "arp_init s = s\<lparr>as_cache := replicate ARP_CACHE_SIZE zero_entry\<rparr>"

definition upd_entry :: "nat \<Rightarrow> (arp_entry_t \<Rightarrow> arp_entry_t) \<Rightarrow> 'a arp_env_scheme \<Rightarrow> 'a arp_env_scheme" where
  "upd_entry i f s = s\<lparr>as_cache := (as_cache s)[i := f (as_cache s ! i)]\<rparr>"

text \<open>A free entry, else the one with the oldest time stamp.\<close>

fun find_free_from :: "arp_entry_t list \<Rightarrow> nat \<Rightarrow> nat option \<Rightarrow> u32 \<Rightarrow> nat option" where
  "find_free_from [] i oldest oldest_time = oldest"
| "find_free_from (e # es) i oldest oldest_time =
     (if ae_state e = ARP_STATE_FREE then Some i
      else if ae_timestamp e < oldest_time then find_free_from es (Suc i) (Some i) (ae_timestamp e)
      else find_free_from es (Suc i) oldest oldest_time)"

definition arp_cache_find_free :: "'a arp_env_scheme \<Rightarrow> nat option" where
  "arp_cache_find_free s = find_free_from (as_cache s) 0 None 0xFFFFFFFF"

definition arp_cache_find :: "u32 \<Rightarrow> 'a arp_env_scheme \<Rightarrow> nat option" where
  "arp_cache_find ip s =
     find (\<lambda>i. ae_state (as_cache s ! i) \<noteq> ARP_STATE_FREE \<and> ae_ip_addr (as_cache s ! i) = ip)
       [0..<length (as_cache s)]"

definition send_or_free :: "u32 \<Rightarrow> u8 list \<Rightarrow> u32 \<Rightarrow> 'a arp_env_scheme \<Rightarrow> 'a arp_env_scheme option" where
  "send_or_free dev mac b s = do {
     (ret, s1) \<leftarrow> ethernet_output dev b mac ETH_TYPE_IP s;
     if ret < 0 then netbuf_free b s1 else Some s1 }"

definition arp_send_pending :: "nat \<Rightarrow> u32 \<Rightarrow> 'a arp_env_scheme \<Rightarrow> 'a arp_env_scheme option" where
  "arp_send_pending i dev s = do {
     s1 \<leftarrow> foldM (send_or_free dev (ae_mac_addr (as_cache s ! i))) (ae_pending_queue (as_cache s ! i)) s;
     Some (upd_entry i (\<lambda>e. e\<lparr>ae_pending_queue := []\<rparr>) s1) }"

definition arp_free_pending :: "nat \<Rightarrow> 'a arp_env_scheme \<Rightarrow> 'a arp_env_scheme option" where
  "arp_free_pending i s = do {
     s1 \<leftarrow> foldM netbuf_free (ae_pending_queue (as_cache s ! i)) s;
     Some (upd_entry i (\<lambda>e. e\<lparr>ae_pending_queue := []\<rparr>) s1) }"

definition arp_cache_update :: "u32 \<Rightarrow> u8 list \<Rightarrow> 'a arp_env_scheme \<Rightarrow> 'a arp_env_scheme option" where
  "arp_cache_update ip mac s =
     (if mac_addr_is_zero mac then Some s
      else let slot = (case arp_cache_find ip s of
                         Some i \<Rightarrow> Some (i, s)
                       | None \<Rightarrow> (case arp_cache_find_free s of
                            None \<Rightarrow> None
                          | Some i \<Rightarrow> Some (i, upd_entry i (\<lambda>e. e\<lparr>ae_ip_addr := ip, ae_pending_queue := []\<rparr>) s)))
           in case slot of
                None \<Rightarrow> Some s
              | Some (i, s1) \<Rightarrow>
                  (let had_pending = (ae_state (as_cache s1 ! i) = ARP_STATE_PENDING
                                      \<and> ae_pending_queue (as_cache s1 ! i) \<noteq> []);
                       dev = netdev_get_default s1;
                       s2 = upd_entry i (\<lambda>e. e\<lparr>ae_mac_addr := mac, ae_state := ARP_STATE_RESOLVED,
                              ae_timestamp := ns_now s1, ae_retries := 0\<rparr>) s1
                   in if had_pending \<and> dev \<noteq> 0 then arp_send_pending i dev s2 else Some s2))"

definition arp_cache_lookup :: "u32 \<Rightarrow> 'a arp_env_scheme \<Rightarrow> u8 list option" where
  "arp_cache_lookup ip s =
     (case arp_cache_find ip s of
        None \<Rightarrow> None
      | Some i \<Rightarrow> if ae_state (as_cache s ! i) = ARP_STATE_RESOLVED then Some (ae_mac_addr (as_cache s ! i)) else None)"

definition arp_cache_add_static :: "u32 \<Rightarrow> u8 list \<Rightarrow> 'a arp_env_scheme \<Rightarrow> 'a arp_env_scheme option" where
  "arp_cache_add_static ip mac s = arp_cache_update ip mac s"

definition arp_cache_delete :: "u32 \<Rightarrow> 'a arp_env_scheme \<Rightarrow> (int \<times> 'a arp_env_scheme) option" where
  "arp_cache_delete ip s =
     (case arp_cache_find ip s of
        None \<Rightarrow> Some (-1, s)
      | Some i \<Rightarrow> do {
          s1 \<leftarrow> arp_free_pending i s;
          Some (0, upd_entry i (\<lambda>e. zero_entry) s1) })"

definition cleanup_entry :: "u32 \<Rightarrow> nat \<Rightarrow> 'a arp_env_scheme \<Rightarrow> 'a arp_env_scheme option" where
  "cleanup_entry now i s =
     (let e = as_cache s ! i
      in case ae_state e of
           ARP_STATE_RESOLVED \<Rightarrow>
             Some (if now - ae_timestamp e > ARP_CACHE_TIMEOUT
                   then upd_entry i (\<lambda>e. e\<lparr>ae_state := ARP_STATE_FREE\<rparr>) s else s)
         | ARP_STATE_PENDING \<Rightarrow>
             (if ae_retries e \<ge> ARP_MAX_RETRIES
              then do { s1 \<leftarrow> arp_free_pending i s; Some (upd_entry i (\<lambda>e. e\<lparr>ae_state := ARP_STATE_FREE\<rparr>) s1) }
              else Some s)
         | ARP_STATE_FREE \<Rightarrow> Some s)"

definition arp_cache_cleanup :: "'a arp_env_scheme \<Rightarrow> 'a arp_env_scheme option" where
  "arp_cache_cleanup s = foldM (cleanup_entry (ns_now s)) [0..<ARP_CACHE_SIZE] s"

definition arp_cache_clear :: "'a arp_env_scheme \<Rightarrow> 'a arp_env_scheme option" where
  "arp_cache_clear s =
     foldM (\<lambda>i s. do { s1 \<leftarrow> arp_free_pending i s; Some (upd_entry i (\<lambda>e. zero_entry) s1) }) [0..<ARP_CACHE_SIZE] s"

definition arp_cache_count :: "'a arp_env_scheme \<Rightarrow> nat" where
  "arp_cache_count s = length (filter (\<lambda>e. ae_state e \<noteq> ARP_STATE_FREE) (as_cache s))"

definition arp_cache_get_entry :: "int \<Rightarrow> 'a arp_env_scheme \<Rightarrow> (u32 \<times> u8 list \<times> arp_state_t) option" where
  "arp_cache_get_entry index s =
     (if index < 0 \<or> index \<ge> int ARP_CACHE_SIZE then None
      else let e = as_cache s ! nat index
           in if ae_state e = ARP_STATE_FREE then None else Some (ae_ip_addr e, ae_mac_addr e, ae_state e))"

definition arp_queue_packet :: "u32 \<Rightarrow> u32 \<Rightarrow> 'a arp_env_scheme \<Rightarrow> int \<times> 'a arp_env_scheme" where
  "arp_queue_packet ip b s =
     (if b = 0 then (-1, s)
      else case arp_cache_find ip s of
             None \<Rightarrow> (-1, s)
           | Some i \<Rightarrow>
               if ae_state (as_cache s ! i) = ARP_STATE_PENDING
               then (0, upd_entry i (\<lambda>e. e\<lparr>ae_pending_queue := ae_pending_queue e @ [b]\<rparr>) s)
               else (-1, s))"

section \<open>Messages\<close>

definition arp_message :: "u16 \<Rightarrow> netdev_t \<Rightarrow> u8 list \<Rightarrow> u32 \<Rightarrow> arp_header_t" where
  "arp_message oper d target_mac target_ip =
     \<lparr>ah_hardware_type = htons 1, ah_protocol_type = htons 0x0800, ah_hardware_len = 6, ah_protocol_len = 4,
      ah_operation = htons oper, ah_sender_mac = nd_mac d, ah_sender_ip = nd_ip_addr d,
      ah_target_mac = target_mac, ah_target_ip = target_ip\<rparr>"

text \<open>\<^verbatim>\<open>arp_request\<close> and \<^verbatim>\<open>arp_reply\<close> differ in the operation, the target hardware address and the address
  the frame goes to.\<close>

definition arp_send :: "u16 \<Rightarrow> u8 list \<Rightarrow> u32 \<Rightarrow> u8 list \<Rightarrow> u32 \<Rightarrow> 'a arp_env_scheme
    \<Rightarrow> (int \<times> 'a arp_env_scheme) option" where
  "arp_send oper dst dev target_mac target_ip s =
     (let (b, s1) = netbuf_alloc 28 s
      in if b = 0 then Some (-1, s1)
         else do {
           (data, s2) \<leftarrow> netbuf_put b 28 s1;
           d \<leftarrow> ds_devs s2 dev;
           s3 \<leftarrow> nb_write b data (arp_header_bytes (arp_message oper d target_mac target_ip)) s2;
           (ret, s4) \<leftarrow> ethernet_output dev b dst ETH_TYPE_ARP s3;
           s5 \<leftarrow> (if ret < 0 then netbuf_free b s4 else Some s4);
           Some (ret, s5) })"

definition arp_request :: "u32 \<Rightarrow> u32 \<Rightarrow> 'a arp_env_scheme \<Rightarrow> (int \<times> 'a arp_env_scheme) option" where
  "arp_request dev target_ip s =
     (if dev = 0 then Some (-1, s) else arp_send 1 ETH_BROADCAST_ADDR dev (replicate 6 0) target_ip s)"

definition arp_reply :: "u32 \<Rightarrow> u32 \<Rightarrow> u8 list \<Rightarrow> 'a arp_env_scheme \<Rightarrow> (int \<times> 'a arp_env_scheme) option" where
  "arp_reply dev target_ip target_mac s =
     (if dev = 0 then Some (-1, s) else arp_send 2 target_mac dev target_mac target_ip s)"

text \<open>The result of \<^verbatim>\<open>arp_resolve\<close> is the address, or \<open>-1\<close> when a request is under way.\<close>

datatype arp_result = Resolved "u8 list" | Unresolved int

definition arp_resolve :: "u32 \<Rightarrow> u32 \<Rightarrow> 'a arp_env_scheme \<Rightarrow> (arp_result \<times> 'a arp_env_scheme) option" where
  "arp_resolve dev ip s =
     (if dev = 0 then Some (Unresolved (-2), s)
      else let start = (case arp_cache_find_free s of
                          None \<Rightarrow> Some s
                        | Some i \<Rightarrow> do {
                            s1 \<leftarrow> (if ae_pending_queue (as_cache s ! i) \<noteq> [] then arp_free_pending i s else Some s);
                            Some (upd_entry i (\<lambda>e. e\<lparr>ae_ip_addr := ip, ae_state := ARP_STATE_PENDING,
                              ae_timestamp := ns_now s1, ae_retries := 0, ae_pending_queue := [],
                              ae_mac_addr := replicate 6 0\<rparr>) s1) });
               request = do { s1 \<leftarrow> start; (_, s2) \<leftarrow> arp_request dev ip s1; Some (Unresolved (-1), s2) }
           in case arp_cache_find ip s of
                None \<Rightarrow> request
              | Some i \<Rightarrow>
                  (case ae_state (as_cache s ! i) of
                     ARP_STATE_RESOLVED \<Rightarrow>
                       Some (Resolved (ae_mac_addr (as_cache s ! i)),
                             upd_entry i (\<lambda>e. e\<lparr>ae_timestamp := ns_now s\<rparr>) s)
                   | ARP_STATE_PENDING \<Rightarrow> Some (Unresolved (-1), s)
                   | ARP_STATE_FREE \<Rightarrow> request))"

definition arp_input :: "u32 \<Rightarrow> u32 \<Rightarrow> 'a arp_env_scheme \<Rightarrow> 'a arp_env_scheme option" where
  "arp_input dev b s =
     (if dev = 0 \<or> b = 0 then Some s
      else do {
        buf \<leftarrow> ns_bufs s b;
        if nb_len buf < 28 then netbuf_free b s
        else do {
          bs \<leftarrow> nb_read s b (nb_data buf) 28;
          let arp = arp_header_of bs;
          if ntohs (ah_hardware_type arp) \<noteq> 1 \<or> ntohs (ah_protocol_type arp) \<noteq> 0x0800
             \<or> ah_hardware_len arp \<noteq> 6 \<or> ah_protocol_len arp \<noteq> 4
          then netbuf_free b s
          else do {
            s1 \<leftarrow> arp_cache_update (ah_sender_ip arp) (ah_sender_mac arp) s;
            d \<leftarrow> ds_devs s1 dev;
            if ah_target_ip arp \<noteq> nd_ip_addr d then netbuf_free b s1
            else do {
              s2 \<leftarrow> (if ntohs (ah_operation arp) = 1
                     then do { (_, s2) \<leftarrow> arp_reply dev (ah_sender_ip arp) (ah_sender_mac arp) s1; Some s2 }
                     else Some s1);
              netbuf_free b s2 } } } })"

section \<open>Invariant\<close>

text \<open>The buffers that wait at entry \<open>i\<close>, and at any entry.\<close>

definition pq :: "'a arp_env_scheme \<Rightarrow> nat \<Rightarrow> u32 list" where
  "pq s i = ae_pending_queue (as_cache s ! i)"

definition pend :: "'a arp_env_scheme \<Rightarrow> u32 set" where
  "pend s = (\<Union>i<32. set (pq s i))"

definition used :: "'a arp_env_scheme \<Rightarrow> nat \<Rightarrow> bool" where
  "used s i \<longleftrightarrow> ae_state (as_cache s ! i) \<noteq> ARP_STATE_FREE"

text \<open>32 entries with six-byte addresses, at most one entry in use per IP address, waiting buffers live
  and waiting at one place only.\<close>

definition arp_ok :: "'a arp_env_scheme \<Rightarrow> bool" where
  "arp_ok s \<longleftrightarrow> dev_ok s \<and> length (as_cache s) = 32
     \<and> (\<forall>i<32. length (ae_mac_addr (as_cache s ! i)) = 6 \<and> ae_retries (as_cache s ! i) = 0)
     \<and> (\<forall>i<32. \<forall>j<32. used s i \<and> used s j \<and> ae_ip_addr (as_cache s ! i) = ae_ip_addr (as_cache s ! j) \<longrightarrow> i = j)
     \<and> (\<forall>i<32. distinct (pq s i)) \<and> (\<forall>i<32. \<forall>j<32. i \<noteq> j \<longrightarrow> set (pq s i) \<inter> set (pq s j) = {})
     \<and> (\<forall>b\<in>pend s. ns_bufs s b \<noteq> None)"

lemma arp_okD:
  assumes "arp_ok s"
  shows "dev_ok s" "net_ok s" "length (as_cache s) = 32" "b \<in> pend s \<Longrightarrow> ns_bufs s b \<noteq> None"
    "i < 32 \<Longrightarrow> length (ae_mac_addr (as_cache s ! i)) = 6" "i < 32 \<Longrightarrow> ae_retries (as_cache s ! i) = 0"
    "i < 32 \<Longrightarrow> distinct (pq s i)" "i < 32 \<Longrightarrow> j < 32 \<Longrightarrow> i \<noteq> j \<Longrightarrow> set (pq s i) \<inter> set (pq s j) = {}"
    "i < 32 \<Longrightarrow> j < 32 \<Longrightarrow> used s i \<Longrightarrow> used s j \<Longrightarrow> ae_ip_addr (as_cache s ! i) = ae_ip_addr (as_cache s ! j) \<Longrightarrow> i = j"
  using assms dev_okD(1)[of s] unfolding arp_ok_def by blast+

text \<open>What the operations of this layer may change beside the cache.\<close>

definition arp_frame :: "'a arp_env_scheme \<Rightarrow> 'a arp_env_scheme \<Rightarrow> bool" where
  "arp_frame s s' \<longleftrightarrow>
     s' = s\<lparr>ns_kmalloc := ns_kmalloc s', ns_blocks := ns_blocks s', ns_bufs := ns_bufs s', ds_devs := ds_devs s',
            ds_tx_ready := ds_tx_ready s', ds_wire := ds_wire s', as_cache := as_cache s'\<rparr>
     \<and> (\<forall>dev. map_option dev_cfg (ds_devs s' dev) = map_option dev_cfg (ds_devs s dev))
     \<and> (\<exists>fs. ds_wire s' = ds_wire s @ fs)"

lemma arp_frame_refl [simp]: "arp_frame s s"
  by (simp add: arp_frame_def)

lemma arp_frame_trans:
  assumes "arp_frame s s'" "arp_frame s' s''"
  shows "arp_frame s s''"
proof -
  obtain f1 f2 where f: "ds_wire s' = ds_wire s @ f1" "ds_wire s'' = ds_wire s' @ f2"
    using assms unfolding arp_frame_def by blast
  have "s'' = s\<lparr>ns_kmalloc := ns_kmalloc s'', ns_blocks := ns_blocks s'', ns_bufs := ns_bufs s'',
            ds_devs := ds_devs s'', ds_tx_ready := ds_tx_ready s'', ds_wire := ds_wire s'', as_cache := as_cache s''\<rparr>"
    using assms unfolding arp_frame_def by (cases s; cases s'; cases s'') simp
  moreover have "map_option dev_cfg (ds_devs s'' dev) = map_option dev_cfg (ds_devs s dev)" for dev
    using assms unfolding arp_frame_def by simp
  ultimately show ?thesis using f unfolding arp_frame_def by auto
qed

lemma dev_frame_cache:
  fixes s s' :: "'a arp_env_scheme"
  assumes "dev_frame s s'"
  shows "as_cache s' = as_cache s" "arp_frame s s'"
proof -
  have e: "s' = s\<lparr>ns_kmalloc := ns_kmalloc s', ns_blocks := ns_blocks s', ns_bufs := ns_bufs s', ds_devs := ds_devs s',
            ds_tx_ready := ds_tx_ready s', ds_wire := ds_wire s'\<rparr>"
    using assms unfolding dev_frame_def by blast
  show c: "as_cache s' = as_cache s" by (subst e) simp
  have "s' = s\<lparr>ns_kmalloc := ns_kmalloc s', ns_blocks := ns_blocks s', ns_bufs := ns_bufs s', ds_devs := ds_devs s',
            ds_tx_ready := ds_tx_ready s', ds_wire := ds_wire s', as_cache := as_cache s'\<rparr>"
    unfolding c by (subst e) simp
  then show "arp_frame s s'" using assms unfolding arp_frame_def dev_frame_def by blast
qed

lemma arp_frame_simps:
  assumes "arp_frame s s'"
  shows "ns_now s' = ns_now s" "ds_netdevs s' = ds_netdevs s" "ds_default s' = ds_default s"
    "ds_devs s' dev = None \<longleftrightarrow> ds_devs s dev = None"
proof -
  have e: "s' = s\<lparr>ns_kmalloc := ns_kmalloc s', ns_blocks := ns_blocks s', ns_bufs := ns_bufs s', ds_devs := ds_devs s',
            ds_tx_ready := ds_tx_ready s', ds_wire := ds_wire s', as_cache := as_cache s'\<rparr>"
    and c: "map_option dev_cfg (ds_devs s' dev) = map_option dev_cfg (ds_devs s dev)"
    using assms unfolding arp_frame_def by blast+
  show "ns_now s' = ns_now s" "ds_netdevs s' = ds_netdevs s" "ds_default s' = ds_default s"
    by (subst e, simp)+
  show "ds_devs s' dev = None \<longleftrightarrow> ds_devs s dev = None" using c by (metis option.map_disc_iff)
qed

lemma arp_frame_cfg:
  assumes "arp_frame s s'" "ds_devs s dev = Some d"
  obtains d' where "ds_devs s' dev = Some d'" "dev_cfg d' = dev_cfg d"
proof -
  have "map_option dev_cfg (ds_devs s' dev) = Some (dev_cfg d)"
    using assms unfolding arp_frame_def by simp
  then show ?thesis using that by auto
qed

text \<open>\<open>arp_step X s s'\<close>: a step of this layer that was given the buffers \<open>X\<close>.  Live buffers other than
  these and the waiting ones keep their descriptors and contents.\<close>

definition arp_step :: "u32 set \<Rightarrow> 'a arp_env_scheme \<Rightarrow> 'a arp_env_scheme \<Rightarrow> bool" where
  "arp_step X s s' \<longleftrightarrow> arp_ok s' \<and> arp_frame s s' \<and> pend s' \<subseteq> pend s \<union> X
     \<and> (\<forall>b. b \<notin> X \<union> pend s \<and> ns_bufs s b \<noteq> None \<longrightarrow> contents s' b = contents s b \<and> ns_bufs s' b = ns_bufs s b)"

lemma arp_step_refl: "arp_ok s \<Longrightarrow> arp_step X s s"
  by (auto simp: arp_step_def)

lemma arp_step_trans:
  assumes "arp_step X s s'" "arp_step Y s' s''"
  shows "arp_step (X \<union> Y) s s''"
proof -
  have "contents s'' b = contents s b \<and> ns_bufs s'' b = ns_bufs s b"
    if "b \<notin> X \<union> Y \<union> pend s" "ns_bufs s b \<noteq> None" for b
  proof -
    have 1: "contents s' b = contents s b" "ns_bufs s' b = ns_bufs s b"
      using assms(1) that unfolding arp_step_def by blast+
    have "b \<notin> Y \<union> pend s'" using assms(1) that(1) unfolding arp_step_def by blast
    then have "contents s'' b = contents s' b" "ns_bufs s'' b = ns_bufs s' b"
      using assms(2) that(2) 1(2) unfolding arp_step_def by metis+
    then show ?thesis using 1 by simp
  qed
  moreover have "arp_frame s s''"
    using assms arp_frame_trans unfolding arp_step_def by blast
  ultimately show ?thesis using assms unfolding arp_step_def by auto
qed

lemma arp_step_mono: "arp_step X s s' \<Longrightarrow> X \<subseteq> Y \<Longrightarrow> arp_step Y s s'"
  unfolding arp_step_def by blast

lemma arp_step_trans1: "arp_step X s s' \<Longrightarrow> arp_step X s' s'' \<Longrightarrow> arp_step X s s''"
  using arp_step_trans[of X s s' X s''] by simp

section \<open>Steps\<close>

text \<open>A change of one entry that keeps or empties its queue.\<close>

lemma cache_update_nth:
  "length (as_cache s) = 32 \<Longrightarrow> i < 32 \<Longrightarrow>
    as_cache (upd_entry i f s) ! j = (if j = i then f (as_cache s ! i) else as_cache s ! j)"
  by (simp add: upd_entry_def)

lemma upd_entry_keep [simp]:
  "ns_bufs (upd_entry i f s) = ns_bufs s" "ns_blocks (upd_entry i f s) = ns_blocks s"
  "contents (upd_entry i f s) = contents s" "net_ok (upd_entry i f s) = net_ok s"
  "ds_devs (upd_entry i f s) = ds_devs s" "ds_default (upd_entry i f s) = ds_default s"
  "dev_ok (upd_entry i f s) = dev_ok s" "ns_now (upd_entry i f s) = ns_now s" "ds_wire (upd_entry i f s) = ds_wire s"
  "ns_kmalloc (upd_entry i f s) = ns_kmalloc s" "ds_tx_ready (upd_entry i f s) = ds_tx_ready s"
  by (simp_all add: upd_entry_def contents_def net_ok_def dev_ok_def fun_eq_iff)

lemma upd_entry_step:
  assumes ok: "arp_ok s" and i: "i < 32"
    and e: "length (ae_mac_addr (f (as_cache s ! i))) = 6" "ae_retries (f (as_cache s ! i)) = 0"
    and q: "ae_pending_queue (f (as_cache s ! i)) = [] \<or> ae_pending_queue (f (as_cache s ! i)) = pq s i"
    and u: "\<And>j. ae_state (f (as_cache s ! i)) \<noteq> ARP_STATE_FREE \<Longrightarrow> j < 32 \<Longrightarrow> j \<noteq> i \<Longrightarrow> used s j
      \<Longrightarrow> ae_ip_addr (as_cache s ! j) \<noteq> ae_ip_addr (f (as_cache s ! i))"
  shows "arp_step X s (upd_entry i f s)"
proof -
  let ?s = "upd_entry i f s"
  note n = cache_update_nth[OF arp_okD(3)[OF ok] i, of f]
  have pqs: "pq ?s j = (if j = i then ae_pending_queue (f (as_cache s ! i)) else pq s j)" for j
    by (simp add: pq_def n)
  have sub: "set (pq ?s j) \<subseteq> set (pq s j)" for j using q pqs[of j] by auto
  have pnd: "pend ?s \<subseteq> pend s" unfolding pend_def using sub by blast
  have us: "used ?s j = (if j = i then ae_state (f (as_cache s ! i)) \<noteq> ARP_STATE_FREE else used s j)" for j
    by (simp add: used_def n)
  have "arp_ok ?s"
    unfolding arp_ok_def
  proof (intro conjI allI impI ballI)
    show "dev_ok ?s" using arp_okD(1)[OF ok] by simp
    show "length (as_cache ?s) = 32" using arp_okD(3)[OF ok] by (simp add: upd_entry_def)
  next
    fix j :: nat assume "j < 32"
    then show "length (ae_mac_addr (as_cache ?s ! j)) = 6" "ae_retries (as_cache ?s ! j) = 0"
      using arp_okD(5,6)[OF ok, of j] e by (simp_all add: n)
    show "distinct (pq ?s j)" using arp_okD(7)[OF ok \<open>j < 32\<close>] arp_okD(7)[OF ok i] q pqs[of j] by auto
  next
    fix j k :: nat assume "j < 32" "k < 32" "used ?s j \<and> used ?s k \<and>
      ae_ip_addr (as_cache ?s ! j) = ae_ip_addr (as_cache ?s ! k)"
    then show "j = k" using arp_okD(9)[OF ok, of j k] u[of j] u[of k] us[of j] us[of k]
      by (auto simp: n split: if_splits)
  next
    fix j k :: nat assume "j < 32" "k < 32" "j \<noteq> k"
    then show "set (pq ?s j) \<inter> set (pq ?s k) = {}" using arp_okD(8)[OF ok, of j k] sub[of j] sub[of k] by blast
  next
    fix b assume "b \<in> pend ?s"
    then show "ns_bufs ?s b \<noteq> None" using pnd arp_okD(4)[OF ok] by auto
  qed
  moreover have "arp_frame s ?s" by (simp add: arp_frame_def upd_entry_def)
  ultimately show ?thesis using pnd by (auto simp: arp_step_def)
qed

text \<open>A step that leaves the cache alone.\<close>

lemma dev_step_arp:
  assumes ok: "arp_ok s" and f: "dev_frame s s'" and n: "net_ok s'"
    and live: "\<And>b. b \<in> pend s \<Longrightarrow> ns_bufs s' b \<noteq> None"
    and keep: "\<And>b. b \<notin> X \<union> pend s \<Longrightarrow> ns_bufs s b \<noteq> None \<Longrightarrow> contents s' b = contents s b \<and> ns_bufs s' b = ns_bufs s b"
  shows "arp_step X s s'"
proof -
  have c: "as_cache s' = as_cache s" by (rule dev_frame_cache(1)[OF f])
  then have p: "pend s' = pend s" "pq s' = pq s" "used s' = used s"
    by (simp_all add: pend_def pq_def used_def fun_eq_iff)
  have "arp_ok s'"
    using ok dev_ok_frame[OF arp_okD(1)[OF ok] f n] live unfolding arp_ok_def c p by blast
  then show ?thesis using dev_frame_cache(2)[OF f] p(1) keep by (auto simp: arp_step_def)
qed

text \<open>A transmission of a buffer that is not waiting.\<close>

lemma buf_tx_arp:
  assumes "arp_ok s" "buf_tx b s s'"
  shows "arp_step {b} s s'"
proof (rule dev_step_arp[OF assms(1)])
  show "dev_frame s s'" "net_ok s'" using assms(2) by (simp_all add: buf_tx_def)
  show "ns_bufs s' b' \<noteq> None" if "b' \<in> pend s" for b'
    using arp_okD(4)[OF assms(1) that] assms(2) unfolding buf_tx_def by metis
  show "contents s' b' = contents s b' \<and> ns_bufs s' b' = ns_bufs s b'" if "b' \<notin> {b} \<union> pend s" for b'
    using that assms(2) unfolding buf_tx_def by blast
qed

lemma netbuf_free_arp:
  assumes ok: "arp_ok s" and b: "ns_bufs s b \<noteq> None" "b \<notin> pend s"
  obtains s' where "netbuf_free b s = Some s'" "arp_step {b} s s'" "ns_bufs s' b = None"
    "ns_kmalloc s' = ns_kmalloc s" "ds_wire s' = ds_wire s" "ns_bufs s' = (ns_bufs s)(b := None)"
    "as_cache s' = as_cache s" "ds_devs s' = ds_devs s" "ds_tx_ready s' = ds_tx_ready s"
proof -
  obtain buf where bf: "ns_bufs s b = Some buf" using b(1) by blast
  obtain s' where s': "netbuf_free b s = Some s'" "net_ok s'" "same_env s s'" "ns_kmalloc s' = ns_kmalloc s"
    "ns_bufs s' = (ns_bufs s)(b := None)" "\<And>b'. b' \<noteq> b \<Longrightarrow> contents s' b' = contents s b'"
    using netbuf_free_ok[OF arp_okD(2)[OF ok] bf] by blast
  have "arp_step {b} s s'"
    by (rule dev_step_arp[OF ok same_env_frame[OF s'(3)] s'(2)])
      (use s'(5,6) arp_okD(4)[OF ok] b(2) in auto)
  moreover have e: "s' = s\<lparr>ns_kmalloc := ns_kmalloc s', ns_blocks := ns_blocks s', ns_bufs := ns_bufs s'\<rparr>"
    using s'(3) by (simp add: same_env_def)
  have "ds_wire s' = ds_wire s" "as_cache s' = as_cache s" "ds_devs s' = ds_devs s" "ds_tx_ready s' = ds_tx_ready s"
    by (subst e, simp)+
  ultimately show ?thesis using that[OF s'(1)] s'(4,5) by simp
qed

text \<open>The loops over the buffers that wait at an entry.\<close>

lemma send_or_free_loop:
  assumes "dev_ok s" "\<forall>b\<in>set bs. ns_bufs s b \<noteq> None" "distinct bs" "ds_devs s dev \<noteq> None" "length mac = 6"
  obtains s' where "foldM (send_or_free dev mac) bs s = Some s'" "dev_frame s s'" "net_ok s'"
    "\<And>b. b \<notin> set bs \<Longrightarrow> contents s' b = contents s b \<and> ns_bufs s' b = ns_bufs s b"
  using assms
proof (induction bs arbitrary: s thesis)
  case Nil
  then show ?case using dev_okD(1)[OF Nil.prems(2)] by simp
next
  case (Cons b bs)
  note p = Cons.prems
  obtain buf where bf: "ns_bufs s b = Some buf" using p(3) by auto
  obtain pre pay post where c: "contents s b = Some (pre, pay, post)"
    using contents_Some[OF dev_okD(1)[OF p(2)] bf] .
  obtain d where d: "ds_devs s dev = Some d" using p(5) by blast
  obtain ret s1 where s1: "ethernet_output dev b mac ETH_TYPE_IP s = Some (ret, s1)" "buf_tx b s s1"
    using ethernet_output_ok[OF p(2) c d p(6)] by blast
  have n1: "net_ok s1" "dev_frame s s1" "ns_bufs s1 b \<noteq> None"
    "\<And>b'. b' \<noteq> b \<Longrightarrow> contents s1 b' = contents s b' \<and> ns_bufs s1 b' = ns_bufs s b'"
    using s1(2) bf unfolding buf_tx_def by auto
  obtain s2 where s2: "send_or_free dev mac b s = Some s2" "net_ok s2" "dev_frame s s2"
    "\<And>b'. b' \<noteq> b \<Longrightarrow> contents s2 b' = contents s b' \<and> ns_bufs s2 b' = ns_bufs s b'"
  proof (cases "ret < 0")
    case True
    obtain buf1 where b1: "ns_bufs s1 b = Some buf1" using n1(3) by blast
    obtain s2 where s2: "netbuf_free b s1 = Some s2" "net_ok s2" "same_env s1 s2"
      "ns_bufs s2 = (ns_bufs s1)(b := None)" "\<And>b'. b' \<noteq> b \<Longrightarrow> contents s2 b' = contents s1 b'"
      using netbuf_free_ok[OF n1(1) b1] by blast
    show thesis
      by (rule that[of s2])
        (use s1(1) True s2 n1 dev_frame_trans[OF n1(2) same_env_frame[OF s2(3)]] in
          \<open>simp_all add: send_or_free_def\<close>)
  next
    case False
    then show thesis using that[of s1] s1(1) n1 by (simp add: send_or_free_def)
  qed
  have ok2: "dev_ok s2" by (rule dev_ok_frame[OF p(2) s2(3,2)])
  have live: "\<forall>b'\<in>set bs. ns_bufs s2 b' \<noteq> None"
  proof
    fix b' assume "b' \<in> set bs"
    then show "ns_bufs s2 b' \<noteq> None" using p(3,4) s2(4)[of b'] by (metis distinct.simps(2) list.set_intros(2))
  qed
  have d2: "ds_devs s2 dev \<noteq> None" using p(5) dev_frame_simps(5)[OF s2(3)] by simp
  obtain s' where s': "foldM (send_or_free dev mac) bs s2 = Some s'" "dev_frame s2 s'" "net_ok s'"
    "\<And>b. b \<notin> set bs \<Longrightarrow> contents s' b = contents s2 b \<and> ns_bufs s' b = ns_bufs s2 b"
    using Cons.IH[OF _ ok2 live _ d2 p(6)] p(4) by auto
  show ?case
    by (rule p(1)[of s']) (use s2 s' dev_frame_trans[OF s2(3) s'(2)] in auto)
qed

lemma free_loop:
  fixes s :: "'a dev_state_scheme"
  assumes "net_ok s" "\<forall>b\<in>set bs. ns_bufs s b \<noteq> None" "distinct bs"
  obtains s' where "foldM netbuf_free bs s = Some s'" "dev_frame s s'" "net_ok s'"
    "\<And>b. b \<notin> set bs \<Longrightarrow> contents s' b = contents s b \<and> ns_bufs s' b = ns_bufs s b"
    "\<And>b. b \<in> set bs \<Longrightarrow> ns_bufs s' b = None"
  using assms
proof (induction bs arbitrary: s thesis)
  case Nil
  then show ?case by simp
next
  case (Cons b bs)
  note p = Cons.prems
  obtain buf where bf: "ns_bufs s b = Some buf" using p(3) by auto
  obtain s2 where s2: "netbuf_free b s = Some s2" "net_ok s2" "same_env s s2"
    "ns_bufs s2 = (ns_bufs s)(b := None)" "\<And>b'. b' \<noteq> b \<Longrightarrow> contents s2 b' = contents s b'"
    using netbuf_free_ok[OF p(2) bf] by blast
  have live: "\<forall>b'\<in>set bs. ns_bufs s2 b' \<noteq> None" using p(3,4) s2(4) by auto
  have "distinct bs" using p(4) by simp
  from Cons.IH[OF _ s2(2) live this] obtain s' where s': "foldM netbuf_free bs s2 = Some s'" "dev_frame s2 s'" "net_ok s'"
    "\<And>b. b \<notin> set bs \<Longrightarrow> contents s' b = contents s2 b \<and> ns_bufs s' b = ns_bufs s2 b"
    "\<And>b. b \<in> set bs \<Longrightarrow> ns_bufs s' b = None" by blast
  have "ns_bufs s' b = None" using s'(4)[of b] s2(4) p(4) by simp
  then show ?case
    by (intro p(1)[of s']) (use s2 s' dev_frame_trans[OF same_env_frame[OF s2(3)] s'(2)] in auto)
qed

lemma pend_subset: "i < 32 \<Longrightarrow> set (pq s i) \<subseteq> pend s"
  unfolding pend_def by blast

text \<open>Emptying the queue of an entry after its buffers have been dealt with.\<close>

lemma drain_step:
  assumes ok: "arp_ok s" and i: "i < 32" and f: "dev_frame s s1" and n: "net_ok s1"
    and keep: "\<And>b. b \<notin> set (pq s i) \<Longrightarrow> contents s1 b = contents s b \<and> ns_bufs s1 b = ns_bufs s b"
  shows "arp_step X s (upd_entry i (\<lambda>e. e\<lparr>ae_pending_queue := []\<rparr>) s1)"
proof -
  let ?s = "upd_entry i (\<lambda>e. e\<lparr>ae_pending_queue := []\<rparr>) s1"
  have c: "as_cache s1 = as_cache s" "arp_frame s s1" by (rule dev_frame_cache[OF f])+
  have len: "length (as_cache s1) = 32" using arp_okD(3)[OF ok] c by simp
  note nn = cache_update_nth[OF len i, of "\<lambda>e. e\<lparr>ae_pending_queue := []\<rparr>"]
  have nth: "as_cache ?s ! j = (if j = i then (as_cache s ! i)\<lparr>ae_pending_queue := []\<rparr> else as_cache s ! j)" for j
    by (simp add: nn c)
  have pqs: "pq ?s j = (if j = i then [] else pq s j)" for j by (simp add: pq_def nth)
  have us: "used ?s j = used s j" for j by (simp add: used_def nth)
  have pnd: "pend ?s \<subseteq> pend s" unfolding pend_def pqs by (auto split: if_splits)
  have live: "ns_bufs ?s b \<noteq> None" if "b \<in> pend ?s" for b
  proof -
    obtain j where j: "j < 32" "b \<in> set (pq ?s j)" using \<open>b \<in> pend ?s\<close> by (auto simp: pend_def)
    then have "j \<noteq> i" "b \<in> set (pq s j)" using pqs[of j] by (auto split: if_splits)
    then have "b \<notin> set (pq s i)" using arp_okD(8)[OF ok j(1) i] by blast
    then have "ns_bufs s1 b = ns_bufs s b" using keep by blast
    then show ?thesis using arp_okD(4)[OF ok] pnd that by auto
  qed
  have "arp_ok ?s"
    unfolding arp_ok_def
  proof (intro conjI allI impI ballI)
    show "dev_ok ?s" using dev_ok_frame[OF arp_okD(1)[OF ok] f n] by simp
    show "length (as_cache ?s) = 32" using len by (simp add: upd_entry_def)
  next
    fix j :: nat assume j: "j < 32"
    show "length (ae_mac_addr (as_cache ?s ! j)) = 6" "ae_retries (as_cache ?s ! j) = 0"
      using arp_okD(5,6)[OF ok j] arp_okD(5,6)[OF ok i] by (simp_all add: nth)
    show "distinct (pq ?s j)" using arp_okD(7)[OF ok j] by (simp add: pqs)
  next
    fix j k :: nat assume "j < 32" "k < 32" "used ?s j \<and> used ?s k \<and>
      ae_ip_addr (as_cache ?s ! j) = ae_ip_addr (as_cache ?s ! k)"
    then show "j = k" using arp_okD(9)[OF ok, of j k] us by (simp add: nth split: if_splits)
  next
    fix j k :: nat assume "j < 32" "k < 32" "j \<noteq> k"
    then show "set (pq ?s j) \<inter> set (pq ?s k) = {}" using arp_okD(8)[OF ok, of j k] by (simp add: pqs)
  qed (rule live)
  moreover have "arp_frame s ?s"
    by (rule arp_frame_trans[OF c(2)]) (simp add: arp_frame_def upd_entry_def)
  moreover have "contents ?s b = contents s b \<and> ns_bufs ?s b = ns_bufs s b" if "b \<notin> pend s" for b
    using keep[of b] that pend_subset[OF i, of s] by auto
  ultimately show ?thesis using pnd by (auto simp: arp_step_def)
qed

lemma arp_free_pending_step:
  assumes ok: "arp_ok s" and i: "i < 32"
  obtains s' where "arp_free_pending i s = Some s'" "arp_step {} s s'" "pq s' i = []"
    "\<And>j. ae_state (as_cache s' ! j) = ae_state (as_cache s ! j) \<and> ae_ip_addr (as_cache s' ! j) = ae_ip_addr (as_cache s ! j)"
    "\<And>b. b \<in> set (pq s i) \<Longrightarrow> ns_bufs s' b = None"
proof -
  have live: "\<forall>b\<in>set (pq s i). ns_bufs s b \<noteq> None"
    using arp_okD(4)[OF ok] pend_subset[OF i, of s] by blast
  obtain s1 where s1: "foldM netbuf_free (pq s i) s = Some s1" "dev_frame s s1" "net_ok s1"
    "\<And>b. b \<notin> set (pq s i) \<Longrightarrow> contents s1 b = contents s b \<and> ns_bufs s1 b = ns_bufs s b"
    "\<And>b. b \<in> set (pq s i) \<Longrightarrow> ns_bufs s1 b = None"
    using free_loop[OF arp_okD(2)[OF ok] live arp_okD(7)[OF ok i]] by blast
  let ?s = "upd_entry i (\<lambda>e. e\<lparr>ae_pending_queue := []\<rparr>) s1"
  have len: "length (as_cache s1) = 32" using arp_okD(3)[OF ok] dev_frame_cache(1)[OF s1(2)] by simp
  note nn = cache_update_nth[OF len i, of "\<lambda>e. e\<lparr>ae_pending_queue := []\<rparr>"]
  have "arp_free_pending i s = Some ?s" using s1(1) by (simp add: arp_free_pending_def pq_def)
  moreover have "arp_step {} s ?s" by (rule drain_step[OF ok i s1(2,3,4)])
  moreover have "pq ?s i = []" by (simp add: pq_def nn)
  moreover have "ae_state (as_cache ?s ! j) = ae_state (as_cache s ! j) \<and>
    ae_ip_addr (as_cache ?s ! j) = ae_ip_addr (as_cache s ! j)" for j
    using dev_frame_cache(1)[OF s1(2)] by (simp add: nn)
  ultimately show ?thesis using that[of ?s] s1(5) by simp
qed

lemma arp_send_pending_step:
  assumes ok: "arp_ok s" and i: "i < 32" and d: "ds_devs s dev \<noteq> None"
  obtains s' where "arp_send_pending i dev s = Some s'" "arp_step {} s s'"
    "as_cache s' = (as_cache s)[i := (as_cache s ! i)\<lparr>ae_pending_queue := []\<rparr>]"
proof -
  have live: "\<forall>b\<in>set (pq s i). ns_bufs s b \<noteq> None"
    using arp_okD(4)[OF ok] pend_subset[OF i, of s] by blast
  obtain s1 where s1: "foldM (send_or_free dev (ae_mac_addr (as_cache s ! i))) (pq s i) s = Some s1"
    "dev_frame s s1" "net_ok s1"
    "\<And>b. b \<notin> set (pq s i) \<Longrightarrow> contents s1 b = contents s b \<and> ns_bufs s1 b = ns_bufs s b"
    using send_or_free_loop[OF arp_okD(1)[OF ok] live arp_okD(7)[OF ok i] d arp_okD(5)[OF ok i]] by blast
  let ?s = "upd_entry i (\<lambda>e. e\<lparr>ae_pending_queue := []\<rparr>) s1"
  have "arp_send_pending i dev s = Some ?s" using s1(1) by (simp add: arp_send_pending_def pq_def)
  moreover have "arp_step {} s ?s" by (rule drain_step[OF ok i s1(2,3,4)])
  moreover have "as_cache ?s = (as_cache s)[i := (as_cache s ! i)\<lparr>ae_pending_queue := []\<rparr>]"
    using dev_frame_cache(1)[OF s1(2)] by (simp add: upd_entry_def)
  ultimately show ?thesis using that[of ?s] by blast
qed

lemma find_free_from_bound:
  "find_free_from es i oldest t = Some k \<Longrightarrow> oldest = None \<or> (\<exists>m. oldest = Some m \<and> m < i)
    \<Longrightarrow> k < i + length es"
  by (induction es i oldest t rule: find_free_from.induct) (auto split: if_splits)

lemma arp_cache_find_free_bound: "arp_ok s \<Longrightarrow> arp_cache_find_free s = Some i \<Longrightarrow> i < 32"
  using find_free_from_bound[of "as_cache s" 0 None "0xFFFFFFFF" i] arp_okD(3)[of s]
  by (simp add: arp_cache_find_free_def)

lemma arp_cache_find_Some:
  assumes "arp_ok s"
  shows "arp_cache_find ip s = Some i \<longleftrightarrow> i < 32 \<and> used s i \<and> ae_ip_addr (as_cache s ! i) = ip"
proof
  assume "arp_cache_find ip s = Some i"
  then show "i < 32 \<and> used s i \<and> ae_ip_addr (as_cache s ! i) = ip"
    using arp_okD(3)[OF assms] by (auto simp: arp_cache_find_def used_def dest!: find_upt_SomeD)
next
  assume i: "i < 32 \<and> used s i \<and> ae_ip_addr (as_cache s ! i) = ip"
  then have "\<not> (used s j \<and> ae_ip_addr (as_cache s ! j) = ip)" if "j < i" for j
    using arp_okD(9)[OF assms, of j i] that by auto
  then show "arp_cache_find ip s = Some i"
    using i arp_okD(3)[OF assms] by (auto simp: arp_cache_find_def used_def find_Some_iff_first)
qed

lemma arp_cache_find_None:
  assumes "arp_ok s"
  shows "arp_cache_find ip s = None \<longleftrightarrow> (\<forall>i<32. used s i \<longrightarrow> ae_ip_addr (as_cache s ! i) \<noteq> ip)"
  using arp_okD(3)[OF assms] by (auto simp: arp_cache_find_def used_def find_upt_None)

text \<open>The cache after a successful update, and the lookup that follows it.\<close>

lemma arp_cache_update_step:
  assumes ok: "arp_ok s" and m: "length mac = 6"
  obtains s' where "arp_cache_update ip mac s = Some s'" "arp_step {} s s'"
    "\<not> mac_addr_is_zero mac \<and> (arp_cache_find ip s \<noteq> None \<or> arp_cache_find_free s \<noteq> None) \<longrightarrow>
      arp_cache_lookup ip s' = Some mac"
proof (cases "mac_addr_is_zero mac \<or> arp_cache_find ip s = None \<and> arp_cache_find_free s = None")
  case True
  then have "arp_cache_update ip mac s = Some s" by (auto simp: arp_cache_update_def)
  then show ?thesis using that[of s] True arp_step_refl[OF ok] by auto
next
  case False
  obtain i s1 where i: "i < 32" and s1: "arp_step {} s s1" "ae_ip_addr (as_cache s1 ! i) = ip"
    and uniq: "\<And>j. j < 32 \<Longrightarrow> j \<noteq> i \<Longrightarrow> used s1 j \<Longrightarrow> ae_ip_addr (as_cache s1 ! j) \<noteq> ip"
    and upd: "arp_cache_update ip mac s =
      (let s2 = upd_entry i (\<lambda>e. e\<lparr>ae_mac_addr := mac, ae_state := ARP_STATE_RESOLVED,
                              ae_timestamp := ns_now s1, ae_retries := 0\<rparr>) s1
       in if (ae_state (as_cache s1 ! i) = ARP_STATE_PENDING \<and> ae_pending_queue (as_cache s1 ! i) \<noteq> [])
             \<and> ds_default s1 \<noteq> 0 then arp_send_pending i (ds_default s1) s2 else Some s2)"
  proof (cases "arp_cache_find ip s")
    case (Some i)
    then have i: "i < 32" "used s i" "ae_ip_addr (as_cache s ! i) = ip"
      using arp_cache_find_Some[OF ok] by blast+
    show thesis
    proof (rule that[of i s])
      show "ae_ip_addr (as_cache s ! j) \<noteq> ip" if "j < 32" "j \<noteq> i" "used s j" for j
        using arp_okD(9)[OF ok that(1) i(1) that(3) i(2)] that(2) i(3) by auto
    qed (use i Some False arp_step_refl[OF ok] in \<open>simp_all add: arp_cache_update_def netdev_get_default_def Let_def\<close>)
  next
    case None
    then obtain i where fi: "arp_cache_find_free s = Some i" using False by auto
    have i: "i < 32" by (rule arp_cache_find_free_bound[OF ok fi])
    let ?f = "\<lambda>e. e\<lparr>ae_ip_addr := ip, ae_pending_queue := []\<rparr> :: arp_entry_t"
    have no: "ae_ip_addr (as_cache s ! j) \<noteq> ip" if "j < 32" "used s j" for j
      using None that arp_cache_find_None[OF ok] by blast
    have st: "arp_step {} s (upd_entry i ?f s)"
      by (rule upd_entry_step[OF ok i]) (use arp_okD(5,6)[OF ok i] no in auto)
    note nn = cache_update_nth[OF arp_okD(3)[OF ok] i, of ?f]
    show thesis
    proof (rule that[of i "upd_entry i ?f s"])
      show "ae_ip_addr (as_cache (upd_entry i ?f s) ! j) \<noteq> ip" if "j < 32" "j \<noteq> i" "used (upd_entry i ?f s) j" for j
        using that no[of j] by (simp add: nn used_def)
    qed (use i None fi False st in \<open>simp_all add: arp_cache_update_def netdev_get_default_def Let_def nn\<close>)
  qed
  let ?f = "\<lambda>e. e\<lparr>ae_mac_addr := mac, ae_state := ARP_STATE_RESOLVED, ae_timestamp := ns_now s1, ae_retries := 0\<rparr>
    :: arp_entry_t"
  let ?s2 = "upd_entry i ?f s1"
  have ok1: "arp_ok s1" using s1(1) by (simp add: arp_step_def)
  note nn = cache_update_nth[OF arp_okD(3)[OF ok1] i, of ?f]
  have st2: "arp_step {} s1 ?s2"
    by (rule upd_entry_step[OF ok1 i]) (use m s1(2) uniq in \<open>auto simp: pq_def\<close>)
  have ok2: "arp_ok ?s2" using st2 by (simp add: arp_step_def)
  have lk: "arp_cache_lookup ip s' = Some mac"
    if "arp_ok s'" "ae_ip_addr (as_cache s' ! i) = ip" "ae_mac_addr (as_cache s' ! i) = mac"
      "ae_state (as_cache s' ! i) = ARP_STATE_RESOLVED" for s' :: "'a arp_env_scheme"
  proof -
    have "arp_cache_find ip s' = Some i" using that i by (simp add: arp_cache_find_Some used_def)
    then show ?thesis using that by (simp add: arp_cache_lookup_def)
  qed
  show ?thesis
  proof (cases "ae_state (as_cache s1 ! i) = ARP_STATE_PENDING \<and> ae_pending_queue (as_cache s1 ! i) \<noteq> [] \<and> ds_default s1 \<noteq> 0")
    case True
    have "ds_devs ?s2 (ds_default s1) \<noteq> None" using dev_okD(4)[OF arp_okD(1)[OF ok1]] True by auto
    from arp_send_pending_step[OF ok2 i this] obtain s' where s': "arp_send_pending i (ds_default s1) ?s2 = Some s'"
      "arp_step {} ?s2 s'" "as_cache s' = (as_cache ?s2)[i := (as_cache ?s2 ! i)\<lparr>ae_pending_queue := []\<rparr>]" .
    have e: "as_cache s' ! i = (?f (as_cache s1 ! i))\<lparr>ae_pending_queue := []\<rparr>"
      using i arp_okD(3)[OF ok2] by (simp add: s'(3) nn)
    have "arp_cache_lookup ip s' = Some mac"
      by (rule lk) (use s'(2) e s1(2) in \<open>simp_all add: arp_step_def\<close>)
    moreover have "arp_step {} s s'" using arp_step_trans1[OF arp_step_trans1[OF s1(1) st2] s'(2)] .
    moreover have "arp_cache_update ip mac s = Some s'" using upd True s'(1) by (simp add: Let_def)
    ultimately show ?thesis using that[of s'] by blast
  next
    case no: False
    have "arp_cache_lookup ip ?s2 = Some mac"
      by (rule lk[OF ok2]) (use s1(2) in \<open>simp_all add: nn\<close>)
    moreover have "arp_step {} s ?s2" using arp_step_trans1[OF s1(1) st2] .
    moreover have "arp_cache_update ip mac s = Some ?s2" using upd no by (auto simp: Let_def)
    ultimately show ?thesis using that[of ?s2] by blast
  qed
qed

lemma arp_step_new:
  assumes "arp_step {b} s s'" "ns_bufs s b = None" "b \<notin> pend s'"
  shows "arp_step {} s s'"
proof -
  have "contents s' b' = contents s b' \<and> ns_bufs s' b' = ns_bufs s b'" if "b' \<notin> pend s" "ns_bufs s b' \<noteq> None" for b'
  proof -
    have "b' \<notin> {b} \<union> pend s" using that assms(2) by auto
    then show ?thesis using assms(1) that(2) unfolding arp_step_def by blast
  qed
  then show ?thesis using assms(1,3) unfolding arp_step_def by auto
qed

lemma same_env_cache:
  fixes s s' :: "'a arp_env_scheme"
  assumes "same_env s s'"
  shows "as_cache s' = as_cache s" "ds_devs s' = ds_devs s" "ds_wire s' = ds_wire s" "ds_tx_ready s' = ds_tx_ready s"
    "pend s' = pend s"
proof -
  have e: "s' = s\<lparr>ns_kmalloc := ns_kmalloc s', ns_blocks := ns_blocks s', ns_bufs := ns_bufs s'\<rparr>"
    using assms by (simp add: same_env_def)
  show "as_cache s' = as_cache s" "ds_devs s' = ds_devs s" "ds_wire s' = ds_wire s" "ds_tx_ready s' = ds_tx_ready s"
    by (subst e, simp)+
  then show "pend s' = pend s" by (simp add: pend_def pq_def)
qed

text \<open>Allocation of a buffer and filling it with a message of \<open>n\<close> bytes.\<close>

lemma alloc_step:
  assumes ok: "arp_ok s" and sz: "unat sz < 4294967168" and a: "netbuf_alloc sz s = (b, s1)"
  shows "arp_step {} s s1" "same_env s s1" "b \<noteq> 0 \<Longrightarrow> ns_bufs s b = None"
    "b \<noteq> 0 \<Longrightarrow> contents s1 b = Some (fresh_packet sz)" "b \<noteq> 0 \<Longrightarrow> b \<notin> pend s1"
    "b \<noteq> 0 \<Longrightarrow> \<exists>h. ns_bufs s1 b = Some
                   \<lparr>nb_head = h, nb_data = h + 128, nb_tail = h + 128,
                    nb_end = h + of_nat (128 + min (unat sz) 1920), nb_len = 0,
                    nb_total_size = of_nat (128 + min (unat sz) 1920),
                    nb_mac_header = 0, nb_network_header = 0, nb_transport_header = 0, nb_dev = 0,
                    nb_src_ip = None, nb_src_port = None\<rparr>"
proof -
  note cs = netbuf_alloc_cases[OF arp_okD(2)[OF ok] sz a]
  show env: "same_env s s1" using cs by blast
  show "b \<noteq> 0 \<Longrightarrow> ns_bufs s b = None" "b \<noteq> 0 \<Longrightarrow> contents s1 b = Some (fresh_packet sz)"
    "b \<noteq> 0 \<Longrightarrow> \<exists>h. ns_bufs s1 b = Some
                   \<lparr>nb_head = h, nb_data = h + 128, nb_tail = h + 128,
                    nb_end = h + of_nat (128 + min (unat sz) 1920), nb_len = 0,
                    nb_total_size = of_nat (128 + min (unat sz) 1920),
                    nb_mac_header = 0, nb_network_header = 0, nb_transport_header = 0, nb_dev = 0,
                    nb_src_ip = None, nb_src_port = None\<rparr>"
    using cs by blast+
  show "b \<notin> pend s1" if "b \<noteq> 0"
    using that cs arp_okD(4)[OF ok, of b] same_env_cache(5)[OF env] by auto
  have keep: "contents s1 b' = contents s b' \<and> ns_bufs s1 b' = ns_bufs s b'" if "ns_bufs s b' \<noteq> None" for b'
  proof (cases "b = 0")
    case True
    then have "same_bufs s s1" using cs by blast
    from this same_bufs_contents[OF this] show ?thesis by (simp add: same_bufs_def)
  next
    case False
    then have "ns_bufs s b = None" "\<forall>b'. b' \<noteq> b \<longrightarrow> contents s1 b' = contents s b' \<and> ns_bufs s1 b' = ns_bufs s b'"
      using cs by blast+
    then show ?thesis using that by metis
  qed
  have n1: "net_ok s1" using cs by blast
  show "arp_step {} s s1"
  proof (rule dev_step_arp[OF ok same_env_frame[OF env] n1])
    fix b' assume "b' \<in> pend s"
    then show "ns_bufs s1 b' \<noteq> None" using arp_okD(4)[OF ok] keep[of b'] by simp
  qed (use keep in blast)
qed

lemma fill_step:
  assumes ok: "arp_ok s" and c: "contents s b = Some (replicate 128 0, [], replicate n 0)"
    and ws: "length ws = n" and b: "b \<notin> pend s"
  obtains p s2 s3 buf where "netbuf_put b (of_nat n) s = Some (p, s2)" "nb_write b p ws s2 = Some s3" "p \<noteq> 0"
    "same_env s s2" "same_env s2 s3" "contents s3 b = Some (replicate 128 0, ws, [])" "net_ok s2"
    "arp_step {b} s s3" "ns_bufs s2 b = Some buf" "ns_bufs s3 = ns_bufs s2" "p = nb_data buf"
    "contents s2 b = Some (replicate 128 0, replicate n 0, [])"
proof -
  have nok: "net_ok s" by (rule arp_okD(2)[OF ok])
  obtain p s2 buf where s2: "netbuf_put b (of_nat n) s = Some (p, s2)" "p \<noteq> 0"
    "buf_step b (replicate 128 0, replicate n 0, []) s s2" "ns_bufs s2 b = Some buf" "p = nb_data buf"
    by (rule put_fresh[OF nok c])
  have c2: "net_ok s2" "contents s2 b = Some (replicate 128 0, replicate n 0, [])" "same_env s s2"
    using s2(3) by (simp_all add: buf_step_def)
  obtain s3 where s3: "nb_write b p ws s2 = Some s3"
    "buf_step b (replicate 128 0, overwrite 0 ws (replicate n 0), []) s2 s3" "ns_bufs s3 = ns_bufs s2"
    using nb_write_data[OF c2(1,2) s2(4), of 0 ws] ws s2(5) by auto
  have c3: "contents s3 b = Some (replicate 128 0, ws, [])" "same_env s2 s3"
    using s3(2) ws overwrite_prefix[of ws "replicate n 0" "[]"] by (simp_all add: buf_step_def)
  have tx: "buf_tx b s s3"
    using buf_tx_trans[OF buf_step_tx[OF s2(3)] buf_step_tx[OF s3(2)]] c c2(2) by simp
  show ?thesis using that[OF s2(1) s3(1) s2(2) c2(3) c3(2,1) c2(1) buf_tx_arp[OF ok tx] s2(4) s3(3) s2(5) c2(2)] .
qed

text \<open>Sending a message.  On success the frame is on the wire and the buffer stays allocated.\<close>

lemma arp_header_bytes_length:
  "length (nd_mac d) = 6 \<Longrightarrow> length tm = 6 \<Longrightarrow> length (arp_header_bytes (arp_message oper d tm ip)) = 28"
  by (simp add: arp_header_bytes_def arp_message_def)

lemma arp_send_step:
  assumes ok: "arp_ok s" and d: "ds_devs s dev = Some d" and dst: "length dst = 6" and tm: "length tm = 6"
  obtains ret s' where "arp_send oper dst dev tm ip s = Some (ret, s')" "arp_step {} s s'"
    "as_cache s' = as_cache s"
    "ret = 0 \<and> ds_wire s' = ds_wire s @ [(dev, eth_header_bytes dst (nd_mac d) ETH_TYPE_ARP
         @ arp_header_bytes (arp_message oper d tm ip))]
       \<and> (\<exists>b. ns_bufs s b = None \<and> ns_bufs s' b \<noteq> None \<and> (\<forall>b'. ns_bufs s b' \<noteq> None \<longrightarrow> ns_bufs s' b' \<noteq> None))
     \<or> ret = -1 \<and> ds_wire s' = ds_wire s"
    "nd_state d = NETDEV_UP \<and> nd_ops d \<noteq> None \<and> ds_tx_ready s = True # rs \<and> fst (netbuf_alloc 28 s) \<noteq> 0
      \<longrightarrow> ret = 0 \<and> ds_tx_ready s' = rs"
proof -
  obtain b s1 where a: "netbuf_alloc 28 s = (b, s1)" by fastforce
  have sz: "unat (28 :: u32) < 4294967168" by simp
  note al = alloc_step[OF ok sz a]
  note env1 = same_env_cache[OF al(2)]
  show ?thesis
  proof (cases "b = 0")
    case True
    then show ?thesis using that[of "-1" s1] a al(1) env1 by (simp add: arp_send_def)
  next
    case False
    let ?ws = "arp_header_bytes (arp_message oper d tm ip)"
    have mac: "length (nd_mac d) = 6" by (rule dev_okD(2)[OF arp_okD(1)[OF ok] d])
    have ws: "length ?ws = 28" by (rule arp_header_bytes_length[OF mac tm])
    have ok1: "arp_ok s1" using al(1) by (simp add: arp_step_def)
    have c1: "contents s1 b = Some (replicate 128 0, [], replicate 28 0)"
      using al(4)[OF False] by (simp add: fresh_packet_def)
    obtain p s2 s3 where f: "netbuf_put b (of_nat 28) s1 = Some (p, s2)" "nb_write b p ?ws s2 = Some s3"
      "same_env s1 s2" "same_env s2 s3" "contents s3 b = Some (replicate 128 0, ?ws, [])" "arp_step {b} s1 s3"
      by (rule fill_step[OF ok1 c1 ws al(5)[OF False]]) blast
    note env2 = same_env_cache[OF f(3)] and env3 = same_env_cache[OF f(4)]
    have ok3: "arp_ok s3" using f(6) by (simp add: arp_step_def)
    have d3: "ds_devs s3 dev = Some d" using d env1 env2 env3 by simp
    obtain ret s4 where s4: "ethernet_output dev b dst ETH_TYPE_ARP s3 = Some (ret, s4)" "buf_tx b s3 s4"
      "ret = 0 \<and> ds_wire s4 = ds_wire s3 @ [(dev, eth_header_bytes dst (nd_mac d) ETH_TYPE_ARP @ ?ws)]
       \<or> ret = -1 \<and> ds_wire s4 = ds_wire s3"
      "nd_state d = NETDEV_UP \<and> nd_ops d \<noteq> None \<and> 14 \<le> length (replicate 128 (0 :: u8)) \<and> length ?ws \<le> 1504
        \<and> ds_tx_ready s3 = True # rs \<longrightarrow> ret = 0 \<and> ds_tx_ready s4 = rs"
      by (rule ethernet_output_ok[OF arp_okD(1)[OF ok3] f(5) d3 dst])
    have st4: "arp_step {b} s s4"
      using arp_step_trans1[OF arp_step_trans1[OF arp_step_mono[OF al(1)] f(6)] buf_tx_arp[OF ok3 s4(2)]] by simp
    have c4: "as_cache s4 = as_cache s"
      using dev_frame_cache(1)[of s3 s4] s4(2) env1 env2 env3 by (simp add: buf_tx_def)
    have p4: "pend s4 = pend s" using c4 by (simp add: pend_def pq_def)
    have bp: "b \<notin> pend s" using al(5)[OF False] env1 by simp
    have w: "ds_wire s3 = ds_wire s" "ds_tx_ready s3 = ds_tx_ready s" using env1 env2 env3 by simp_all
    have live4: "ns_bufs s4 b \<noteq> None"
    proof -
      have "ns_bufs s3 b \<noteq> None" using f(5) by (auto simp: contents_def bind_eq_Some_conv)
      then show ?thesis using s4(2) by (simp add: buf_tx_def)
    qed
    have keep4: "ns_bufs s4 b' \<noteq> None" if "ns_bufs s b' \<noteq> None" for b'
    proof (cases "b' \<in> pend s4")
      case True
      have "arp_ok s4" using st4 by (simp add: arp_step_def)
      then show ?thesis using arp_okD(4) True by blast
    next
      case no: False
      have "b' \<noteq> b" using that al(3)[OF False] by auto
      then have "ns_bufs s4 b' = ns_bufs s b'" using st4 no that p4 unfolding arp_step_def by blast
      then show ?thesis using that by simp
    qed
    have run: "arp_send oper dst dev tm ip s =
      (case (if ret < 0 then netbuf_free b s4 else Some s4) of None \<Rightarrow> None | Some s5 \<Rightarrow> Some (ret, s5))"
      using a False f(1,2) s4(1) d env1 env2 by (simp add: arp_send_def split: option.split)
    show ?thesis
    proof (cases "ret < 0")
      case True
      have ok4: "arp_ok s4" using st4 by (simp add: arp_step_def)
      have bp4: "b \<notin> pend s4" using bp p4 by simp
      obtain s5 where s5: "netbuf_free b s4 = Some s5" "arp_step {b} s4 s5" "as_cache s5 = as_cache s4"
        "ds_wire s5 = ds_wire s4"
        by (rule netbuf_free_arp[OF ok4 live4 bp4])
      have "b \<notin> pend s5" using bp4 s5(3) by (simp add: pend_def pq_def)
      then have "arp_step {} s s5"
        using arp_step_new[OF arp_step_trans1[OF st4 s5(2)] al(3)[OF False]] by blast
      moreover have "arp_send oper dst dev tm ip s = Some (ret, s5)" using run True s5(1) by simp
      ultimately show ?thesis using that[of ret s5] s4(3,4) True s5(3,4) c4 w ws by auto
    next
      case no: False
      then have r: "ret = 0" "ds_wire s4 = ds_wire s3 @ [(dev, eth_header_bytes dst (nd_mac d) ETH_TYPE_ARP @ ?ws)]"
        using s4(3) by auto
      have "arp_step {} s s4"
        using arp_step_new[OF st4 al(3)[OF False]] bp p4 by simp
      moreover have "arp_send oper dst dev tm ip s = Some (ret, s4)" using run no by simp
      moreover have "\<exists>b. ns_bufs s b = None \<and> ns_bufs s4 b \<noteq> None
          \<and> (\<forall>b'. ns_bufs s b' \<noteq> None \<longrightarrow> ns_bufs s4 b' \<noteq> None)"
        using al(3)[OF False] live4 keep4 by blast
      ultimately show ?thesis using that[of ret s4] r c4 w s4(4) ws by simp
    qed
  qed
qed

lemma arp_request_step:
  assumes ok: "arp_ok s" and d: "ds_devs s dev = Some d"
  obtains ret s' where "arp_request dev ip s = Some (ret, s')" "arp_step {} s s'" "as_cache s' = as_cache s"
    "nd_state d = NETDEV_UP \<and> nd_ops d \<noteq> None \<and> ds_tx_ready s = True # rs \<and> fst (netbuf_alloc 28 s) \<noteq> 0
     \<longrightarrow> ds_wire s' = ds_wire s @ [(dev, eth_header_bytes ETH_BROADCAST_ADDR (nd_mac d) ETH_TYPE_ARP
         @ arp_header_bytes (arp_message 1 d (replicate 6 0) ip))]"
proof -
  have nz: "dev \<noteq> 0" by (rule dev_okD(3)[OF arp_okD(1)[OF ok] d])
  have l: "length ETH_BROADCAST_ADDR = 6" "length (replicate 6 (0 :: u8)) = 6" by (simp_all add: ETH_BROADCAST_ADDR_def)
  obtain ret s' where s': "arp_send 1 ETH_BROADCAST_ADDR dev (replicate 6 0) ip s = Some (ret, s')" "arp_step {} s s'"
    "as_cache s' = as_cache s"
    "ret = 0 \<and> ds_wire s' = ds_wire s @ [(dev, eth_header_bytes ETH_BROADCAST_ADDR (nd_mac d) ETH_TYPE_ARP
         @ arp_header_bytes (arp_message 1 d (replicate 6 0) ip))]
       \<and> (\<exists>b. ns_bufs s b = None \<and> ns_bufs s' b \<noteq> None \<and> (\<forall>b'. ns_bufs s b' \<noteq> None \<longrightarrow> ns_bufs s' b' \<noteq> None))
     \<or> ret = -1 \<and> ds_wire s' = ds_wire s"
    "nd_state d = NETDEV_UP \<and> nd_ops d \<noteq> None \<and> ds_tx_ready s = True # rs \<and> fst (netbuf_alloc 28 s) \<noteq> 0
      \<longrightarrow> ret = 0 \<and> ds_tx_ready s' = rs"
    by (rule arp_send_step[OF ok d l])
  show ?thesis
    by (rule that[of ret s']) (use nz s'(1-3) s'(4,5) in \<open>simp_all add: arp_request_def\<close>, use s'(4,5) in force)
qed

lemma arp_reply_step:
  assumes ok: "arp_ok s" and d: "ds_devs s dev = Some d" and l: "length mac = 6"
  obtains ret s' where "arp_reply dev ip mac s = Some (ret, s')" "arp_step {} s s'" "as_cache s' = as_cache s"
    "ret = 0 \<and> ds_wire s' = ds_wire s @ [(dev, eth_header_bytes mac (nd_mac d) ETH_TYPE_ARP
         @ arp_header_bytes (arp_message 2 d mac ip))]
       \<and> (\<exists>b. ns_bufs s b = None \<and> ns_bufs s' b \<noteq> None \<and> (\<forall>b'. ns_bufs s b' \<noteq> None \<longrightarrow> ns_bufs s' b' \<noteq> None))
     \<or> ret = -1 \<and> ds_wire s' = ds_wire s"
    "nd_state d = NETDEV_UP \<and> nd_ops d \<noteq> None \<and> ds_tx_ready s = True # rs \<and> fst (netbuf_alloc 28 s) \<noteq> 0
      \<longrightarrow> ret = 0"
proof -
  have nz: "dev \<noteq> 0" by (rule dev_okD(3)[OF arp_okD(1)[OF ok] d])
  have r: "arp_reply dev ip mac s = arp_send 2 mac dev mac ip s" using nz by (simp add: arp_reply_def)
  show ?thesis by (rule arp_send_step[OF ok d l l, of 2 ip rs, folded r], rule that) blast+
qed

text \<open>The slot an unresolved address gets.\<close>

lemma start_pending_step:
  assumes ok: "arp_ok s" and i: "i < 32" and none: "arp_cache_find ip s = None"
  obtains s1 s2 where
    "(if ae_pending_queue (as_cache s ! i) \<noteq> [] then arp_free_pending i s else Some s) = Some s1"
    "s2 = upd_entry i (\<lambda>e. e\<lparr>ae_ip_addr := ip, ae_state := ARP_STATE_PENDING,
                              ae_timestamp := ns_now s1, ae_retries := 0, ae_pending_queue := [],
                              ae_mac_addr := replicate 6 0\<rparr>) s1"
    "arp_step {} s s2" "arp_cache_find ip s2 = Some i" "ae_state (as_cache s2 ! i) = ARP_STATE_PENDING"
proof -
  obtain s1 where s1: "(if ae_pending_queue (as_cache s ! i) \<noteq> [] then arp_free_pending i s else Some s) = Some s1"
    "arp_step {} s s1"
    "\<And>j. ae_state (as_cache s1 ! j) = ae_state (as_cache s ! j) \<and> ae_ip_addr (as_cache s1 ! j) = ae_ip_addr (as_cache s ! j)"
  proof (cases "ae_pending_queue (as_cache s ! i) = []")
    case True
    then show thesis using that[of s] arp_step_refl[OF ok] by simp
  next
    case False
    obtain s1 where "arp_free_pending i s = Some s1" "arp_step {} s s1"
      "\<And>j. ae_state (as_cache s1 ! j) = ae_state (as_cache s ! j) \<and> ae_ip_addr (as_cache s1 ! j) = ae_ip_addr (as_cache s ! j)"
      using arp_free_pending_step[OF ok i] by metis
    then show thesis using that[of s1] False by simp
  qed
  have ok1: "arp_ok s1" using s1(2) by (simp add: arp_step_def)
  let ?f = "\<lambda>e. e\<lparr>ae_ip_addr := ip, ae_state := ARP_STATE_PENDING, ae_timestamp := ns_now s1, ae_retries := 0,
     ae_pending_queue := [], ae_mac_addr := replicate 6 0\<rparr> :: arp_entry_t"
  note nn = cache_update_nth[OF arp_okD(3)[OF ok1] i, of ?f]
  have no: "ae_ip_addr (as_cache s1 ! j) \<noteq> ip" if "j < 32" "used s1 j" for j
    using none that arp_cache_find_None[OF ok] s1(3)[of j] by (simp add: used_def)
  have st: "arp_step {} s1 (upd_entry i ?f s1)"
    by (rule upd_entry_step[OF ok1 i]) (use no in auto)
  have ok2: "arp_ok (upd_entry i ?f s1)" using st by (simp add: arp_step_def)
  have "arp_cache_find ip (upd_entry i ?f s1) = Some i"
    using i by (simp add: arp_cache_find_Some[OF ok2] used_def nn)
  then show ?thesis using that[OF s1(1) refl arp_step_trans1[OF s1(2) st]] by (simp add: nn)
qed

lemma arp_resolve_step:
  assumes ok: "arp_ok s" and d: "ds_devs s dev = Some d"
  obtains r s' where "arp_resolve dev ip s = Some (r, s')" "arp_step {} s s'"
    "(\<exists>mac. r = Resolved mac \<and> length mac = 6 \<and> arp_cache_lookup ip s = Some mac)
     \<or> r = Unresolved (-1) \<and> arp_cache_lookup ip s = None"
proof -
  have nz: "dev \<noteq> 0" by (rule dev_okD(3)[OF arp_okD(1)[OF ok] d])
  show ?thesis
  proof (cases "arp_cache_find ip s")
    case (Some i)
    then have i: "i < 32" "used s i" "ae_ip_addr (as_cache s ! i) = ip" using arp_cache_find_Some[OF ok] by auto
    show ?thesis
    proof (cases "ae_state (as_cache s ! i)")
      case ARP_STATE_FREE
      then show ?thesis using i(2) by (simp add: used_def)
    next
      case ARP_STATE_PENDING
      then show ?thesis using that[of "Unresolved (-1)" s] nz Some arp_step_refl[OF ok]
        by (simp add: arp_resolve_def arp_cache_lookup_def)
    next
      case ARP_STATE_RESOLVED
      let ?s = "upd_entry i (\<lambda>e. e\<lparr>ae_timestamp := ns_now s\<rparr>) s"
      have "arp_step {} s ?s"
        by (rule upd_entry_step[OF ok i(1)])
          (use arp_okD(5,6)[OF ok i(1)] arp_okD(9)[OF ok _ i(1) _ i(2)] in \<open>auto simp: pq_def\<close>)
      then show ?thesis
        using that[of "Resolved (ae_mac_addr (as_cache s ! i))" ?s] nz Some ARP_STATE_RESOLVED arp_okD(5)[OF ok i(1)]
        by (simp add: arp_resolve_def arp_cache_lookup_def)
    qed
  next
    case None
    note lk = arp_cache_lookup_def[of ip s, unfolded None option.case]
    show ?thesis
    proof (cases "arp_cache_find_free s")
      case fn: None
      obtain ret s' where "arp_request dev ip s = Some (ret, s')" "arp_step {} s s'"
        using arp_request_step[OF ok d] by blast
      then show ?thesis using that[of "Unresolved (-1)" s'] nz None fn lk by (simp add: arp_resolve_def)
    next
      case (Some i)
      have i: "i < 32" by (rule arp_cache_find_free_bound[OF ok Some])
      obtain s1 s2 where s2:
        "(if ae_pending_queue (as_cache s ! i) \<noteq> [] then arp_free_pending i s else Some s) = Some s1"
        "s2 = upd_entry i (\<lambda>e. e\<lparr>ae_ip_addr := ip, ae_state := ARP_STATE_PENDING,
                              ae_timestamp := ns_now s1, ae_retries := 0, ae_pending_queue := [],
                              ae_mac_addr := replicate 6 0\<rparr>) s1" "arp_step {} s s2"
        by (rule start_pending_step[OF ok i None])
      have ok2: "arp_ok s2" and f2: "arp_frame s s2" using s2(3) by (simp_all add: arp_step_def)
      obtain d2 where d2: "ds_devs s2 dev = Some d2" using arp_frame_cfg[OF f2 d] by blast
      obtain ret s' where s': "arp_request dev ip s2 = Some (ret, s')" "arp_step {} s2 s'"
        using arp_request_step[OF ok2 d2] by blast
      have "arp_resolve dev ip s = Some (Unresolved (-1), s')"
        using nz None Some s2(1) s'(1) by (simp add: arp_resolve_def s2(2)[symmetric])
      then show ?thesis using that[of "Unresolved (-1)" s'] arp_step_trans1[OF s2(3) s'(2)] lk by simp
    qed
  qed
qed

lemma arp_queue_packet_step:
  assumes ok: "arp_ok s" and b: "ns_bufs s b \<noteq> None" "b \<notin> pend s" "b \<noteq> 0"
    and q: "arp_queue_packet ip b s = (ret, s')"
  shows "ret = -1 \<and> s' = s \<or> ret = 0 \<and> arp_step {b} s s' \<and> b \<in> pend s' \<and> ns_bufs s' = ns_bufs s \<and> contents s' = contents s"
proof (cases "\<exists>i. arp_cache_find ip s = Some i \<and> ae_state (as_cache s ! i) = ARP_STATE_PENDING")
  case False
  then show ?thesis using q b(3) by (auto simp: arp_queue_packet_def split: option.splits if_splits)
next
  case True
  then obtain i where i: "arp_cache_find ip s = Some i" "ae_state (as_cache s ! i) = ARP_STATE_PENDING" by blast
  have lt: "i < 32" using arp_cache_find_Some[OF ok] i(1) by blast
  let ?f = "\<lambda>e. e\<lparr>ae_pending_queue := ae_pending_queue e @ [b]\<rparr> :: arp_entry_t"
  have s': "ret = 0" "s' = upd_entry i ?f s" using q b(3) i by (simp_all add: arp_queue_packet_def)
  note nn = cache_update_nth[OF arp_okD(3)[OF ok] lt, of ?f]
  have pqs: "pq s' j = (if j = i then pq s i @ [b] else pq s j)" for j by (simp add: pq_def s'(2) nn)
  have us: "used s' j = used s j" for j by (simp add: used_def s'(2) nn)
  have nb: "b \<notin> set (pq s j)" if "j < 32" for j using b(2) pend_subset[OF that, of s] by blast
  have pnd: "pend s' \<subseteq> pend s \<union> {b}" unfolding pend_def pqs by (auto split: if_splits)
  have "arp_ok s'"
    unfolding arp_ok_def
  proof (intro conjI allI impI ballI)
    show "dev_ok s'" using arp_okD(1)[OF ok] by (simp add: s'(2))
    show "length (as_cache s') = 32" using arp_okD(3)[OF ok] by (simp add: s'(2) upd_entry_def)
  next
    fix j :: nat assume j: "j < 32"
    show "length (ae_mac_addr (as_cache s' ! j)) = 6" "ae_retries (as_cache s' ! j) = 0"
      using arp_okD(5,6)[OF ok j] arp_okD(5,6)[OF ok lt] by (simp_all add: s'(2) nn)
    show "distinct (pq s' j)" using arp_okD(7)[OF ok j] nb[OF j] by (cases "j = i") (simp_all add: pqs)
  next
    fix j k :: nat assume "j < 32" "k < 32" "used s' j \<and> used s' k \<and>
      ae_ip_addr (as_cache s' ! j) = ae_ip_addr (as_cache s' ! k)"
    then show "j = k" using arp_okD(9)[OF ok, of j k] us by (simp add: s'(2) nn split: if_splits)
  next
    fix j k :: nat assume jk: "j < 32" "k < 32" "j \<noteq> k"
    then show "set (pq s' j) \<inter> set (pq s' k) = {}"
      using arp_okD(8)[OF ok, of j k] nb[of j] nb[of k] by (auto simp: pqs)
  next
    fix b' assume "b' \<in> pend s'"
    then show "ns_bufs s' b' \<noteq> None" using pnd arp_okD(4)[OF ok, of b'] b(1) by (auto simp: s'(2))
  qed
  moreover have "arp_frame s s'" by (simp add: s'(2) arp_frame_def upd_entry_def)
  ultimately have "arp_step {b} s s'" using pnd by (auto simp: arp_step_def s'(2))
  moreover have "b \<in> pend s'" using pend_subset[OF lt, of s'] by (auto simp: pqs)
  ultimately show ?thesis using s' by simp
qed

lemma clear_entry_step:
  assumes ok: "arp_ok s" and i: "i < 32"
  obtains s1 where "arp_free_pending i s = Some s1" "arp_step {} s (upd_entry i (\<lambda>e. zero_entry) s1)"
    "arp_step {} s (upd_entry i (\<lambda>e. e\<lparr>ae_state := ARP_STATE_FREE\<rparr>) s1)"
proof -
  obtain s1 where s1: "arp_free_pending i s = Some s1" "arp_step {} s s1" "pq s1 i = []"
    using arp_free_pending_step[OF ok i] by metis
  have ok1: "arp_ok s1" using s1(2) by (simp add: arp_step_def)
  have "arp_step {} s1 (upd_entry i (\<lambda>e. zero_entry) s1)"
    by (rule upd_entry_step[OF ok1 i]) (simp_all add: zero_entry_def)
  moreover have "arp_step {} s1 (upd_entry i (\<lambda>e. e\<lparr>ae_state := ARP_STATE_FREE\<rparr>) s1)"
    by (rule upd_entry_step[OF ok1 i]) (use arp_okD(5,6)[OF ok1 i] in \<open>simp_all add: pq_def\<close>)
  ultimately show ?thesis using that[OF s1(1)] arp_step_trans1[OF s1(2)] by blast
qed

lemma arp_cache_delete_step:
  assumes ok: "arp_ok s"
  obtains ret s' where "arp_cache_delete ip s = Some (ret, s')" "arp_step {} s s'"
proof (cases "arp_cache_find ip s")
  case None
  then show ?thesis using that[of "-1" s] arp_step_refl[OF ok] by (simp add: arp_cache_delete_def)
next
  case (Some i)
  then have "i < 32" using arp_cache_find_Some[OF ok] by blast
  then obtain s1 where s1: "arp_free_pending i s = Some s1" "arp_step {} s (upd_entry i (\<lambda>e. zero_entry) s1)"
    using clear_entry_step[OF ok] by blast
  show ?thesis by (rule that[OF _ s1(2), of 0]) (simp add: arp_cache_delete_def Some s1(1))
qed

lemma foldM_step:
  assumes "\<And>i s. i \<in> set is \<Longrightarrow> arp_ok s \<Longrightarrow> \<exists>s'. f i s = Some s' \<and> arp_step {} s s'" "arp_ok s"
  shows "\<exists>s'. foldM f is s = Some s' \<and> arp_step {} s s'"
  using assms
proof (induction "is" arbitrary: s)
  case Nil
  then show ?case by (simp add: arp_step_refl)
next
  case (Cons i "is")
  obtain s1 where s1: "f i s = Some s1" "arp_step {} s s1" using Cons.prems by (meson list.set_intros(1))
  have "arp_ok s1" using s1(2) by (simp add: arp_step_def)
  then obtain s' where "foldM f is s1 = Some s'" "arp_step {} s1 s'"
    using Cons.IH[of s1] Cons.prems(1) by (meson list.set_intros(2))
  then show ?case using s1 arp_step_trans1 by (metis foldM.simps(2) option.simps(5))
qed

lemma cleanup_entry_step:
  assumes ok: "arp_ok s" and i: "i < 32"
  shows "\<exists>s'. cleanup_entry now i s = Some s' \<and> arp_step {} s s'"
proof (cases "ae_state (as_cache s ! i)")
  case ARP_STATE_FREE
  then show ?thesis using arp_step_refl[OF ok] by (simp add: cleanup_entry_def Let_def)
next
  case ARP_STATE_PENDING
  have "\<not> ae_retries (as_cache s ! i) \<ge> ARP_MAX_RETRIES" using arp_okD(6)[OF ok i] by simp
  then show ?thesis using ARP_STATE_PENDING arp_step_refl[OF ok] by (simp add: cleanup_entry_def Let_def)
next
  case ARP_STATE_RESOLVED
  have "arp_step {} s (upd_entry i (\<lambda>e. e\<lparr>ae_state := ARP_STATE_FREE\<rparr>) s)"
    by (rule upd_entry_step[OF ok i]) (use arp_okD(5,6)[OF ok i] in \<open>simp_all add: pq_def\<close>)
  then show ?thesis using ARP_STATE_RESOLVED arp_step_refl[OF ok] by (simp add: cleanup_entry_def Let_def)
qed

lemma arp_cache_cleanup_step:
  assumes "arp_ok s"
  obtains s' where "arp_cache_cleanup s = Some s'" "arp_step {} s s'"
  using foldM_step[OF _ assms, of "[0..<32]" "cleanup_entry (ns_now s)"] cleanup_entry_step that
  unfolding arp_cache_cleanup_def by fastforce

lemma arp_cache_clear_step:
  assumes "arp_ok s"
  obtains s' where "arp_cache_clear s = Some s'" "arp_step {} s s'"
proof -
  let ?f = "\<lambda>i s. do { s1 \<leftarrow> arp_free_pending i s; Some (upd_entry i (\<lambda>e. zero_entry) s1) }"
  have "\<exists>s'. ?f i s = Some s' \<and> arp_step {} s s'" if i: "i \<in> set [0..<32]" and oks: "arp_ok s"
    for i and s :: "'a arp_env_scheme"
  proof -
    have "i < 32" using i by simp
    then obtain s1 where "arp_free_pending i s = Some s1" "arp_step {} s (upd_entry i (\<lambda>e. zero_entry) s1)"
      using clear_entry_step[OF oks] by blast
    then show ?thesis by simp
  qed
  from foldM_step[of "[0..<32]" ?f, OF this assms] show ?thesis using that unfolding arp_cache_clear_def by blast
qed

lemma lookup_cache: "as_cache s' = as_cache s \<Longrightarrow> arp_cache_lookup ip s' = arp_cache_lookup ip s"
  unfolding arp_cache_lookup_def arp_cache_find_def by (simp only:)

text \<open>Receiving a message: the buffer is released on every path.\<close>

lemma arp_input_step:
  assumes ok: "arp_ok s" and d: "ds_devs s dev = Some d" and c: "contents s b = Some (pre, pay, post)"
    and np: "b \<notin> pend s"
  obtains s' where "arp_input dev b s = Some s'" "arp_step {b} s s'" "ns_bufs s' b = None"
    "let h = arp_header_of (take 28 pay) in
     28 \<le> length pay \<and> ntohs (ah_hardware_type h) = 1 \<and> ntohs (ah_protocol_type h) = 0x0800
       \<and> ah_hardware_len h = 6 \<and> ah_protocol_len h = 4 \<and> \<not> mac_addr_is_zero (ah_sender_mac h)
       \<and> (arp_cache_find (ah_sender_ip h) s \<noteq> None \<or> arp_cache_find_free s \<noteq> None)
     \<longrightarrow> arp_cache_lookup (ah_sender_ip h) s' = Some (ah_sender_mac h)"
proof -
  have nok: "net_ok s" by (rule arp_okD(2)[OF ok])
  obtain buf where b: "ns_bufs s b = Some buf" "b \<noteq> 0" "nb_len buf = of_nat (length pay)"
    "length pre + length pay + length post \<le> 2048"
    using contentsD[OF nok c] by metis
  have nz: "dev \<noteq> 0" by (rule dev_okD(3)[OF arp_okD(1)[OF ok] d])
  have short: "nb_len buf < 28 \<longleftrightarrow> length pay < 28"
    using b(3,4) by (simp add: word_less_nat_alt unat_of_nat_u32)
  let ?h = "arp_header_of (take 28 pay)"
  let ?bad = "ntohs (ah_hardware_type ?h) \<noteq> 1 \<or> ntohs (ah_protocol_type ?h) \<noteq> 0x0800
     \<or> ah_hardware_len ?h \<noteq> 6 \<or> ah_protocol_len ?h \<noteq> 4"
  have live: "ns_bufs s b \<noteq> None" using b(1) by simp
  obtain sf where sf: "netbuf_free b s = Some sf" "arp_step {b} s sf" "ns_bufs sf b = None"
    by (rule netbuf_free_arp[OF ok live np])
  show ?thesis
  proof (cases "length pay < 28 \<or> ?bad")
    case True
    have rd: "nb_read s b (nb_data buf) 28 = Some (take 28 pay)" if "28 \<le> length pay"
      using nb_read_data[OF nok c b(1), of 0 28] that by simp
    have "arp_input dev b s = Some sf"
    proof (cases "length pay < 28")
      case True
      then show ?thesis using b(1,2) nz short sf(1) by (simp add: arp_input_def)
    next
      case False
      then have "arp_input dev b s = (if ?bad then netbuf_free b s else arp_input dev b s)"
        using b(1,2) nz short rd True by (auto simp: arp_input_def Let_def)
      then show ?thesis using True False sf(1) by argo
    qed
    then show ?thesis using that[OF _ sf(2,3)] True by (auto simp: Let_def)
  next
    case False
    then have len: "28 \<le> length pay" and good: "\<not> ?bad" by auto
    have rd: "nb_read s b (nb_data buf) 28 = Some (take 28 pay)"
      using nb_read_data[OF nok c b(1), of 0 28] len by simp
    have lm: "length (ah_sender_mac ?h) = 6" using len by (simp add: arp_header_of_def)
    obtain s1 where s1: "arp_cache_update (ah_sender_ip ?h) (ah_sender_mac ?h) s = Some s1" "arp_step {} s s1"
      "\<not> mac_addr_is_zero (ah_sender_mac ?h)
        \<and> (arp_cache_find (ah_sender_ip ?h) s \<noteq> None \<or> arp_cache_find_free s \<noteq> None) \<longrightarrow>
        arp_cache_lookup (ah_sender_ip ?h) s1 = Some (ah_sender_mac ?h)"
      by (rule arp_cache_update_step[OF ok lm])
    have ok1: "arp_ok s1" and f1: "arp_frame s s1" using s1(2) by (simp_all add: arp_step_def)
    obtain d1 where d1: "ds_devs s1 dev = Some d1" using arp_frame_cfg[OF f1 d] by blast
    have np1: "b \<notin> pend s1" using s1(2) np by (auto simp: arp_step_def)
    have live1: "ns_bufs s1 b \<noteq> None" using s1(2) np live by (auto simp: arp_step_def)
    obtain s2 where s2: "(if ah_target_ip ?h = nd_ip_addr d1 \<and> ntohs (ah_operation ?h) = 1
        then do { (_, s2) \<leftarrow> arp_reply dev (ah_sender_ip ?h) (ah_sender_mac ?h) s1; Some s2 }
        else Some s1) = Some s2" "arp_step {} s1 s2" "as_cache s2 = as_cache s1"
    proof (cases "ah_target_ip ?h = nd_ip_addr d1 \<and> ntohs (ah_operation ?h) = 1")
      case True
      obtain ret s2 where "arp_reply dev (ah_sender_ip ?h) (ah_sender_mac ?h) s1 = Some (ret, s2)"
        "arp_step {} s1 s2" "as_cache s2 = as_cache s1"
        by (rule arp_reply_step[OF ok1 d1 lm, where ip = "ah_sender_ip ?h" and rs = "[]"])
      then show thesis using that[of s2] True by simp
    next
      case False
      then show thesis using that[of s1] arp_step_refl[OF ok1] by auto
    qed
    have ok2: "arp_ok s2" using s2(2) by (simp add: arp_step_def)
    have np2: "b \<notin> pend s2" using s2(2) np1 by (auto simp: arp_step_def)
    have live2: "ns_bufs s2 b \<noteq> None" using s2(2) np1 live1 by (auto simp: arp_step_def)
    obtain s3 where s3: "netbuf_free b s2 = Some s3" "arp_step {b} s2 s3" "ns_bufs s3 b = None"
      "as_cache s3 = as_cache s2"
      by (rule netbuf_free_arp[OF ok2 live2 np2])
    have st: "arp_step {b} s s3"
      using arp_step_trans1[OF arp_step_mono[OF arp_step_trans1[OF s1(2) s2(2)]] s3(2)] by simp
    have "arp_input dev b s = Some s3"
      using b(1,2) nz short len good rd s1(1) d1 s2(1) s3(1)
      by (auto simp: arp_input_def Let_def bind_eq_Some_conv split: if_splits)
    moreover have "arp_cache_lookup ip s3 = arp_cache_lookup ip s1" for ip
      by (rule lookup_cache) (simp add: s2(3) s3(4))
    ultimately show ?thesis using that[of s3] st s3(3) s1(3) by (simp add: Let_def)
  qed
qed

section \<open>Properties\<close>

text \<open>The calls into this layer.\<close>

datatype arp_op =
    Arp_input u32 u32 | Arp_resolve u32 u32 | Arp_request u32 u32 | Arp_reply u32 u32 "u8 list"
  | Arp_update u32 "u8 list" | Arp_add_static u32 "u8 list" | Arp_delete u32 | Arp_queue u32 u32
  | Arp_cleanup | Arp_clear

primrec arp_run :: "arp_op \<Rightarrow> 'a arp_env_scheme \<Rightarrow> 'a arp_env_scheme option" where
  "arp_run (Arp_input dev b) s = arp_input dev b s"
| "arp_run (Arp_resolve dev ip) s = map_option snd (arp_resolve dev ip s)"
| "arp_run (Arp_request dev ip) s = map_option snd (arp_request dev ip s)"
| "arp_run (Arp_reply dev ip mac) s = map_option snd (arp_reply dev ip mac s)"
| "arp_run (Arp_update ip mac) s = arp_cache_update ip mac s"
| "arp_run (Arp_add_static ip mac) s = arp_cache_add_static ip mac s"
| "arp_run (Arp_delete ip) s = map_option snd (arp_cache_delete ip s)"
| "arp_run (Arp_queue ip b) s = Some (snd (arp_queue_packet ip b s))"
| "arp_run Arp_cleanup s = arp_cache_cleanup s"
| "arp_run Arp_clear s = arp_cache_clear s"

text \<open>A caller passes devices that exist, six-byte addresses and buffers it owns: live, and not already
  waiting at an entry.\<close>

definition owned :: "u32 \<Rightarrow> 'a arp_env_scheme \<Rightarrow> bool" where
  "owned b s \<longleftrightarrow> b \<noteq> 0 \<and> ns_bufs s b \<noteq> None \<and> b \<notin> pend s"

primrec arp_callable :: "arp_op \<Rightarrow> 'a arp_env_scheme \<Rightarrow> bool" where
  "arp_callable (Arp_input dev b) s \<longleftrightarrow> ds_devs s dev \<noteq> None \<and> owned b s"
| "arp_callable (Arp_resolve dev ip) s \<longleftrightarrow> ds_devs s dev \<noteq> None"
| "arp_callable (Arp_request dev ip) s \<longleftrightarrow> ds_devs s dev \<noteq> None"
| "arp_callable (Arp_reply dev ip mac) s \<longleftrightarrow> ds_devs s dev \<noteq> None \<and> length mac = 6"
| "arp_callable (Arp_update ip mac) s \<longleftrightarrow> length mac = 6"
| "arp_callable (Arp_add_static ip mac) s \<longleftrightarrow> length mac = 6"
| "arp_callable (Arp_delete ip) s \<longleftrightarrow> True"
| "arp_callable (Arp_queue ip b) s \<longleftrightarrow> owned b s"
| "arp_callable Arp_cleanup s \<longleftrightarrow> True"
| "arp_callable Arp_clear s \<longleftrightarrow> True"

lemma owned_contents:
  assumes "arp_ok s" "owned b s"
  obtains pre pay post where "contents s b = Some (pre, pay, post)"
proof -
  obtain buf where "ns_bufs s b = Some buf" using assms(2) by (auto simp: owned_def)
  then show ?thesis using contents_Some[OF arp_okD(2)[OF assms(1)]] that by blast
qed

text \<open>
  C32: Every call into the address-resolution layer returns without a memory fault and keeps its
  invariant: at most one cache entry is in use per IP address, every packet waiting for an address is a
  live buffer that waits at one entry only, and the buffers stay well-formed.  A received message
  releases its buffer on every path.
\<close>

theorem arp_ops_safe:
  assumes "arp_ok s" "arp_callable op s"
  shows "\<exists>s'. arp_run op s = Some s' \<and> arp_ok s' \<and> (\<forall>dev b. op = Arp_input dev b \<longrightarrow> ns_bufs s' b = None)"
proof (cases op)
  case (Arp_input dev b)
  then obtain d where d: "ds_devs s dev = Some d" and o: "owned b s" using assms(2) by auto
  obtain pre pay post where c: "contents s b = Some (pre, pay, post)" by (rule owned_contents[OF assms(1) o])
  have np: "b \<notin> pend s" using o by (simp add: owned_def)
  obtain s' where "arp_input dev b s = Some s'" "arp_step {b} s s'" "ns_bufs s' b = None"
    by (rule arp_input_step[OF assms(1) d c np])
  then show ?thesis using Arp_input by (simp add: arp_step_def)
next
  case (Arp_resolve dev ip)
  then obtain d where d: "ds_devs s dev = Some d" using assms(2) by auto
  obtain r s' where "arp_resolve dev ip s = Some (r, s')" "arp_step {} s s'"
    by (rule arp_resolve_step[OF assms(1) d])
  then show ?thesis using Arp_resolve by (simp add: arp_step_def)
next
  case (Arp_request dev ip)
  then obtain d where d: "ds_devs s dev = Some d" using assms(2) by auto
  obtain r s' where "arp_request dev ip s = Some (r, s')" "arp_step {} s s'"
    by (rule arp_request_step[OF assms(1) d])
  then show ?thesis using Arp_request by (simp add: arp_step_def)
next
  case (Arp_reply dev ip mac)
  then obtain d where d: "ds_devs s dev = Some d" and l: "length mac = 6" using assms(2) by auto
  obtain r s' where "arp_reply dev ip mac s = Some (r, s')" "arp_step {} s s'"
    by (rule arp_reply_step[OF assms(1) d l])
  then show ?thesis using Arp_reply by (simp add: arp_step_def)
next
  case (Arp_update ip mac)
  then have l: "length mac = 6" using assms(2) by simp
  obtain s' where "arp_cache_update ip mac s = Some s'" "arp_step {} s s'"
    by (rule arp_cache_update_step[OF assms(1) l])
  then show ?thesis using Arp_update by (simp add: arp_step_def)
next
  case (Arp_add_static ip mac)
  then have l: "length mac = 6" using assms(2) by simp
  obtain s' where "arp_cache_update ip mac s = Some s'" "arp_step {} s s'"
    by (rule arp_cache_update_step[OF assms(1) l])
  then show ?thesis using Arp_add_static by (simp add: arp_step_def arp_cache_add_static_def)
next
  case (Arp_delete ip)
  obtain r s' where "arp_cache_delete ip s = Some (r, s')" "arp_step {} s s'"
    by (rule arp_cache_delete_step[OF assms(1)])
  then show ?thesis using Arp_delete by (simp add: arp_step_def)
next
  case (Arp_queue ip b)
  then have o: "ns_bufs s b \<noteq> None" "b \<notin> pend s" "b \<noteq> 0" using assms(2) by (simp_all add: owned_def)
  obtain r s' where "arp_queue_packet ip b s = (r, s')" by fastforce
  with arp_queue_packet_step[OF assms(1) o this] show ?thesis
    using Arp_queue assms(1) by (auto simp: arp_step_def)
next
  case Arp_cleanup
  obtain s' where "arp_cache_cleanup s = Some s'" "arp_step {} s s'"
    by (rule arp_cache_cleanup_step[OF assms(1)])
  then show ?thesis using Arp_cleanup by (simp add: arp_step_def)
next
  case Arp_clear
  obtain s' where "arp_cache_clear s = Some s'" "arp_step {} s s'"
    by (rule arp_cache_clear_step[OF assms(1)])
  then show ?thesis using Arp_clear by (simp add: arp_step_def)
qed

text \<open>The state after start-up with one interface.\<close>

definition net_sample :: arp_env where
  "net_sample = arp_init \<lparr>ns_kmalloc = [0x1000, 0x2000], ns_now = 0, ns_blocks = (\<lambda>_. None), ns_bufs = (\<lambda>_. None),
     ds_devs = (\<lambda>_. None)(0x100 := Some (zero_netdev\<lparr>nd_mac := [2, 0, 0, 0, 0, 1], nd_state := NETDEV_UP,
       nd_ops := Some E1000_ops, nd_ip_addr := 0x0100000A\<rparr>)),
     ds_netdevs = [0x100], ds_default = 0x100, ds_eth_num = 1, ds_tx_ready = [True], ds_wire = [], as_cache = []\<rparr>"

lemma arp_init_ok:
  assumes "dev_ok s"
  shows "arp_ok (arp_init s)"
proof -
  have d: "dev_ok (arp_init s)" using assms by (simp add: dev_ok_def arp_init_def net_ok_def)
  have n: "as_cache (arp_init s) ! i = zero_entry" if "i < 32" for i using that by (simp add: arp_init_def)
  have p: "pq (arp_init s) i = []" if "i < 32" for i using n[OF that] by (simp add: pq_def zero_entry_def)
  have "pend (arp_init s) = {}" using p by (simp add: pend_def)
  then show ?thesis unfolding arp_ok_def
    using d n p by (auto simp: arp_init_def used_def zero_entry_def)
qed

lemma net_sample_ok: "arp_ok net_sample"
  unfolding net_sample_def by (rule arp_init_ok) (simp add: dev_ok_def net_ok_def zero_netdev_def)

theorem arp_ops_safe_witness:
  "\<exists>s'. arp_run (Arp_resolve 0x100 0x0200000A) net_sample = Some s' \<and> arp_ok s'"
  using arp_ops_safe[OF net_sample_ok, of "Arp_resolve 0x100 0x0200000A"]
  by (simp add: net_sample_def arp_init_def)

text \<open>
  The expiry of unanswered requests never happens: no operation counts retries, so every entry of a
  reachable cache has the count 0, and the clean-up leaves an entry that waits for an answer, and the
  packets queued at it, untouched however much time has passed; a further resolution of the address
  does not repeat the request either.
\<close>

theorem arp_pending_never_expires:
  assumes ok: "arp_ok s" and i: "i < 32" and p: "ae_state (as_cache s ! i) = ARP_STATE_PENDING"
    and d: "dev \<noteq> 0"
  shows "\<exists>s'. arp_cache_cleanup s = Some s' \<and> as_cache s' ! i = as_cache s ! i
    \<and> arp_resolve dev (ae_ip_addr (as_cache s ! i)) s = Some (Unresolved (-1), s)"
proof -
  have one: "\<exists>s'. cleanup_entry now j s1 = Some s' \<and> arp_ok s' \<and> as_cache s' ! i = as_cache s1 ! i"
    if "arp_ok s1" "j < 32" "as_cache s1 ! i = as_cache s ! i" for now j and s1 :: "'a arp_env_scheme"
  proof -
    obtain s' where s': "cleanup_entry now j s1 = Some s'" "arp_ok s'"
      using cleanup_entry_step[OF \<open>arp_ok s1\<close> \<open>j < 32\<close>] unfolding arp_step_def by blast
    have "as_cache s' ! i = as_cache s1 ! i"
    proof (cases "j = i")
      case True
      then show ?thesis using s'(1) p \<open>as_cache s1 ! i = as_cache s ! i\<close> arp_okD(6)[OF ok i]
        by (simp add: cleanup_entry_def Let_def)
    next
      case False
      have r: "ae_retries (as_cache s1 ! j) = 0" by (rule arp_okD(6)[OF \<open>arp_ok s1\<close> \<open>j < 32\<close>])
      show ?thesis using s'(1) False r
        by (auto simp: cleanup_entry_def Let_def upd_entry_def split: arp_state_t.splits if_splits)
    qed
    with s' show ?thesis by blast
  qed
  have fold: "\<exists>s'. foldM (cleanup_entry now) js s1 = Some s' \<and> as_cache s' ! i = as_cache s ! i"
    if "arp_ok s1" "\<forall>j\<in>set js. j < 32" "as_cache s1 ! i = as_cache s ! i" for now js and s1 :: "'a arp_env_scheme"
    using that
  proof (induction js arbitrary: s1)
    case (Cons j js)
    then obtain s2 where "cleanup_entry now j s1 = Some s2" "arp_ok s2" "as_cache s2 ! i = as_cache s1 ! i"
      using one[of s1 j now] by auto
    then show ?case using Cons.IH[of s2] Cons.prems by simp
  qed simp
  have "arp_cache_find (ae_ip_addr (as_cache s ! i)) s = Some i"
    using i p by (simp add: arp_cache_find_Some[OF ok] used_def)
  then have "arp_resolve dev (ae_ip_addr (as_cache s ! i)) s = Some (Unresolved (-1), s)"
    using d p by (simp add: arp_resolve_def)
  then show ?thesis using fold[of s "[0..<32]" "ns_now s"] ok by (simp add: arp_cache_cleanup_def)
qed

definition waiting_sample :: arp_env where
  "waiting_sample = upd_entry 0 (\<lambda>e. e\<lparr>ae_ip_addr := 0x0200000A, ae_state := ARP_STATE_PENDING\<rparr>) net_sample"

lemma waiting_sample_ok: "arp_ok waiting_sample"
proof -
  have z: "as_cache net_sample ! j = zero_entry" if "j < 32" for j using that by (simp add: net_sample_def arp_init_def)
  have "arp_step {} net_sample waiting_sample"
    unfolding waiting_sample_def
    by (rule upd_entry_step[OF net_sample_ok]) (simp_all add: z zero_entry_def pq_def used_def)
  then show ?thesis by (simp add: arp_step_def)
qed

theorem arp_pending_never_expires_witness:
  "\<exists>s'. arp_cache_cleanup waiting_sample = Some s' \<and> as_cache s' ! 0 = as_cache waiting_sample ! 0"
  using arp_pending_never_expires[OF waiting_sample_ok, of 0 "0x100"]
  by (auto simp: waiting_sample_def upd_entry_def net_sample_def arp_init_def)

end
