(* ===== verification/Ip.thy ===== *)
theory Ip
  imports Arp
begin

text \<open>
  IPv4, \<^verbatim>\<open>src/src/net/ip.c\<close>: the header, addresses as text, the routing table, reassembly of fragments and
  the sending half of the layer.  The list of fragments of a datagram is private to its table entry and
  is a list of records with the bytes inside; allocation of a fragment can fail as any allocation.
\<close>

section \<open>State\<close>

record ip_header_t =
  ip_version_ihl :: u8
  ip_tos :: u8
  ip_total_length :: u16
  ip_identification :: u16
  ip_flags_fragment :: u16
  ip_ttl :: u8
  ip_protocol :: u8
  ip_hdr_checksum :: u16
  ip_src_addr :: u32
  ip_dst_addr :: u32

definition ip_header_of :: "u8 list \<Rightarrow> ip_header_t" where
  "ip_header_of bs =
     \<lparr>ip_version_ihl = bs ! 0, ip_tos = bs ! 1, ip_total_length = le16 (bs ! 2) (bs ! 3),
      ip_identification = le16 (bs ! 4) (bs ! 5), ip_flags_fragment = le16 (bs ! 6) (bs ! 7),
      ip_ttl = bs ! 8, ip_protocol = bs ! 9, ip_hdr_checksum = le16 (bs ! 10) (bs ! 11),
      ip_src_addr = le32 (bs ! 12) (bs ! 13) (bs ! 14) (bs ! 15),
      ip_dst_addr = le32 (bs ! 16) (bs ! 17) (bs ! 18) (bs ! 19)\<rparr>"

definition ip_header_bytes :: "ip_header_t \<Rightarrow> u8 list" where
  "ip_header_bytes h = [ip_version_ihl h, ip_tos h] @ bytes16 (ip_total_length h) @ bytes16 (ip_identification h)
     @ bytes16 (ip_flags_fragment h) @ [ip_ttl h, ip_protocol h] @ bytes16 (ip_hdr_checksum h)
     @ bytes32 (ip_src_addr h) @ bytes32 (ip_dst_addr h)"

definition ip_header_len :: "ip_header_t \<Rightarrow> u8" where
  "ip_header_len ip = (ip_version_ihl ip AND 0x0F) * 4"

definition ip_version :: "ip_header_t \<Rightarrow> u8" where
  "ip_version ip = drop_bit 4 (ip_version_ihl ip) AND 0x0F"

record ip_fragment_t =
  fr_offset :: u16
  fr_len :: u16
  fr_data :: "u8 list"

record ip_reassembly_t =
  ra_src_ip :: u32
  ra_dst_ip :: u32
  ra_id :: u16
  ra_protocol :: u8
  ra_total_len :: u16
  ra_received_len :: u16
  ra_fragments :: "ip_fragment_t list"
  ra_timeout :: u32
  ra_valid :: bool

record ip_route_t =
  rt_dest :: u32
  rt_netmask :: u32
  rt_gateway :: u32
  rt_dev :: u32
  rt_metric :: u32
  rt_valid :: bool

text \<open>\<open>is_released\<close> is what the bytes of memory that has been released read as: any contents.  The kernel heap stays mapped,
  so the one read of that kind, in \<open>ip_reassemble\<close>, returns a byte and does not trap.\<close>

record ip_env = arp_env +
  is_id_counter :: u16
  is_reass :: "ip_reassembly_t list"
  is_routes :: "ip_route_t list"
  is_released :: "u32 \<Rightarrow> u8"

abbreviation (input) IP_REASS_MAX_ENTRIES :: nat where "IP_REASS_MAX_ENTRIES \<equiv> 8"

abbreviation (input) IP_ROUTE_MAX :: nat where "IP_ROUTE_MAX \<equiv> 16"

abbreviation (input) IP_FLAG_DF :: u16 where "IP_FLAG_DF \<equiv> 0x4000"

abbreviation (input) IP_FLAG_MF :: u16 where "IP_FLAG_MF \<equiv> 0x2000"

abbreviation (input) IP_FRAG_OFFSET_MASK :: u16 where "IP_FRAG_OFFSET_MASK \<equiv> 0x1FFF"

abbreviation (input) IP_REASS_TIMEOUT :: u32 where "IP_REASS_TIMEOUT \<equiv> 30000"

definition zero_reass :: ip_reassembly_t where
  "zero_reass = \<lparr>ra_src_ip = 0, ra_dst_ip = 0, ra_id = 0, ra_protocol = 0, ra_total_len = 0, ra_received_len = 0,
     ra_fragments = [], ra_timeout = 0, ra_valid = False\<rparr>"

definition zero_route :: ip_route_t where
  "zero_route = \<lparr>rt_dest = 0, rt_netmask = 0, rt_gateway = 0, rt_dev = 0, rt_metric = 0, rt_valid = False\<rparr>"

definition ip_init :: "'a ip_env_scheme \<Rightarrow> 'a ip_env_scheme" where
  "ip_init s = s\<lparr>is_id_counter := 0, is_reass := replicate IP_REASS_MAX_ENTRIES zero_reass,
     is_routes := replicate IP_ROUTE_MAX zero_route\<rparr>"

section \<open>Addresses\<close>

definition IP_ADDR :: "u32 \<Rightarrow> u32 \<Rightarrow> u32 \<Rightarrow> u32 \<Rightarrow> u32" where
  "IP_ADDR a b c d = a OR push_bit 8 b OR push_bit 16 c OR push_bit 24 d"

text \<open>\<^verbatim>\<open>%u.%u.%u.%u\<close> on the four bytes of the address.\<close>

definition ip_to_str :: "u32 \<Rightarrow> string" where
  "ip_to_str ip = (let b = (\<lambda>i. decimal (unat (bytes32 ip ! i)))
     in b 0 @ ''.'' @ b 1 @ ''.'' @ b 2 @ ''.'' @ b 3)"

text \<open>The digit loop of \<^verbatim>\<open>str_to_ip\<close>: value so far, number of digits, rest of the text.  The value is a
  32-bit word.\<close>

fun parse_digits :: "u32 \<Rightarrow> nat \<Rightarrow> string \<Rightarrow> u32 \<times> nat \<times> string" where
  "parse_digits a count (c # p) =
     (if 48 \<le> (of_char c :: nat) \<and> of_char c \<le> (57 :: nat)
      then parse_digits (a * 10 + of_nat (of_char c - 48)) (Suc count) p
      else (a, count, c # p))"
| "parse_digits a count [] = (a, count, [])"

definition parse_octet :: "string \<Rightarrow> (u32 \<times> string) option" where
  "parse_octet p = (case parse_digits 0 0 p of (a, count, q) \<Rightarrow>
     if a > 255 \<or> count = 0 then None else Some (a, q))"

definition expect_dot :: "string \<Rightarrow> string option" where
  "expect_dot p = (case p of c # q \<Rightarrow> if c = CHR ''.'' then Some q else None | [] \<Rightarrow> None)"

definition str_to_ip :: "string \<Rightarrow> u32 option" where
  "str_to_ip str = do {
     (a, p) \<leftarrow> parse_octet str; p \<leftarrow> expect_dot p;
     (b, p) \<leftarrow> parse_octet p; p \<leftarrow> expect_dot p;
     (c, p) \<leftarrow> parse_octet p; p \<leftarrow> expect_dot p;
     (d, p) \<leftarrow> parse_octet p;
     if p \<noteq> [] then None else Some (IP_ADDR a b c d) }"

definition ip_same_subnet :: "u32 \<Rightarrow> u32 \<Rightarrow> u32 \<Rightarrow> bool" where
  "ip_same_subnet ip1 ip2 netmask \<longleftrightarrow> (ip1 AND netmask) = (ip2 AND netmask)"

definition ip_get_next_hop :: "netdev_t \<Rightarrow> u32 \<Rightarrow> u32" where
  "ip_get_next_hop d dst_ip =
     (if ip_same_subnet (nd_ip_addr d) dst_ip (nd_netmask d) then dst_ip
      else if nd_gateway d \<noteq> 0 then nd_gateway d
      else dst_ip)"

definition ip_checksum :: "u8 list \<Rightarrow> u16" where
  "ip_checksum header = checksum header"

section \<open>Routes\<close>

text \<open>The loop that counts the bits of a mask.\<close>

lemma shift_less: "m \<noteq> 0 \<Longrightarrow> unat (drop_bit 1 m) < unat (m :: u32)"
proof -
  assume "m \<noteq> 0"
  then have "0 < unat m" by (simp add: unat_gt_0)
  moreover have "unat (drop_bit 1 m) = unat m div 2"
    by (simp only: unsigned_drop_bit_eq) (simp add: drop_bit_eq_div take_bit_eq_mod)
  ultimately show ?thesis by simp
qed

function count_bits :: "u32 \<Rightarrow> u32 \<Rightarrow> u32" where
  "count_bits mask_len m = (if m \<noteq> 0 then count_bits (mask_len + (m AND 1)) (drop_bit 1 m) else mask_len)"
  by auto
termination
  by (relation "measure (\<lambda>(n, m). unat m)") (simp_all add: shift_less del: One_nat_def)

declare count_bits.simps [simp del]

record best_route =
  br_dev :: u32
  br_mask :: u32
  br_gateway :: u32
  br_metric :: u32

definition route_step :: "u32 \<Rightarrow> ip_route_t \<Rightarrow> best_route \<Rightarrow> best_route" where
  "route_step dst_ip r best =
     (if \<not> rt_valid r then best
      else if (dst_ip AND rt_netmask r) = rt_dest r
      then let mask_len = count_bits 0 (rt_netmask r);
               best_mask_len = count_bits 0 (br_mask best);
               better = (br_dev best = 0 \<or> mask_len > best_mask_len
                         \<or> mask_len = best_mask_len \<and> rt_metric r < br_metric best)
           in if better
              then \<lparr>br_dev = rt_dev r, br_mask = rt_netmask r, br_gateway = rt_gateway r, br_metric = rt_metric r\<rparr>
              else best
      else best)"

text \<open>Result: the device, \<open>0\<close> if there is none, and the next hop.\<close>

definition ip_route_lookup :: "u32 \<Rightarrow> 'a ip_env_scheme \<Rightarrow> (u32 \<times> u32) option" where
  "ip_route_lookup dst_ip s =
     (let best = fold (route_step dst_ip) (is_routes s)
            \<lparr>br_dev = 0, br_mask = 0, br_gateway = 0, br_metric = 0xFFFFFFFF\<rparr>
      in if br_dev best \<noteq> 0
         then Some (br_dev best, if br_gateway best \<noteq> 0 then br_gateway best else dst_ip)
         else if netdev_get_default s = 0 then Some (0, dst_ip)
         else do {
           d \<leftarrow> ds_devs s (netdev_get_default s);
           Some (netdev_get_default s, ip_get_next_hop d dst_ip) })"

definition ip_route_add :: "u32 \<Rightarrow> u32 \<Rightarrow> u32 \<Rightarrow> u32 \<Rightarrow> u32 \<Rightarrow> 'a ip_env_scheme \<Rightarrow> int \<times> 'a ip_env_scheme" where
  "ip_route_add dest netmask gateway dev metric s =
     (case find (\<lambda>i. rt_valid (is_routes s ! i) \<and> rt_dest (is_routes s ! i) = dest
                     \<and> rt_netmask (is_routes s ! i) = netmask) [0..<length (is_routes s)] of
        Some i \<Rightarrow> (0, s\<lparr>is_routes := (is_routes s)[i := (is_routes s ! i)\<lparr>rt_gateway := gateway, rt_dev := dev,
                     rt_metric := metric\<rparr>]\<rparr>)
      | None \<Rightarrow>
          (case find (\<lambda>i. \<not> rt_valid (is_routes s ! i)) [0..<length (is_routes s)] of
             Some i \<Rightarrow> (0, s\<lparr>is_routes := (is_routes s)[i := \<lparr>rt_dest = dest, rt_netmask = netmask,
                          rt_gateway = gateway, rt_dev = dev, rt_metric = metric, rt_valid = True\<rparr>]\<rparr>)
           | None \<Rightarrow> (-1, s)))"

definition ip_route_del :: "u32 \<Rightarrow> u32 \<Rightarrow> 'a ip_env_scheme \<Rightarrow> int \<times> 'a ip_env_scheme" where
  "ip_route_del dest netmask s =
     (case find (\<lambda>i. rt_valid (is_routes s ! i) \<and> rt_dest (is_routes s ! i) = dest
                     \<and> rt_netmask (is_routes s ! i) = netmask) [0..<length (is_routes s)] of
        Some i \<Rightarrow> (0, s\<lparr>is_routes := (is_routes s)[i := (is_routes s ! i)\<lparr>rt_valid := False\<rparr>]\<rparr>)
      | None \<Rightarrow> (-1, s))"

section \<open>Reassembly\<close>

definition new_reass :: "u32 \<Rightarrow> u32 \<Rightarrow> u16 \<Rightarrow> u8 \<Rightarrow> u32 \<Rightarrow> ip_reassembly_t" where
  "new_reass src dst ident proto timeout = zero_reass\<lparr>ra_src_ip := src, ra_dst_ip := dst, ra_id := ident,
     ra_protocol := proto, ra_timeout := timeout, ra_valid := True\<rparr>"

definition ip_reass_find :: "u32 \<Rightarrow> u32 \<Rightarrow> u16 \<Rightarrow> u8 \<Rightarrow> 'a ip_env_scheme \<Rightarrow> nat option \<times> 'a ip_env_scheme" where
  "ip_reass_find src dst ident proto s =
     (let rs = is_reass s; is = [0..<length rs]; now = ns_now s;
          new = new_reass src dst ident proto (now + IP_REASS_TIMEOUT)
      in case find (\<lambda>i. ra_valid (rs ! i) \<and> ra_src_ip (rs ! i) = src \<and> ra_dst_ip (rs ! i) = dst
                      \<and> ra_id (rs ! i) = ident \<and> ra_protocol (rs ! i) = proto) is of
           Some i \<Rightarrow> (Some i, s)
         | None \<Rightarrow>
             (case find (\<lambda>i. \<not> ra_valid (rs ! i)) is of
                Some i \<Rightarrow> (Some i, s\<lparr>is_reass := rs[i := new]\<rparr>)
              | None \<Rightarrow>
                  (case find (\<lambda>i. ra_valid (rs ! i) \<and> now \<ge> ra_timeout (rs ! i)) is of
                     Some i \<Rightarrow> (Some i, s\<lparr>is_reass := rs[i := new]\<rparr>)
                   | None \<Rightarrow> (None, s))))"

definition ip_reass_free :: "nat \<Rightarrow> 'a ip_env_scheme \<Rightarrow> 'a ip_env_scheme" where
  "ip_reass_free i s =
     s\<lparr>is_reass := (is_reass s)[i := (is_reass s ! i)\<lparr>ra_fragments := [], ra_valid := False\<rparr>]\<rparr>"

text \<open>Insertion by offset; a fragment with the offset and length of the first one not below it is a
  duplicate.\<close>

fun insert_fragment :: "ip_fragment_t \<Rightarrow> ip_fragment_t list \<Rightarrow> ip_fragment_t list option" where
  "insert_fragment frag [] = Some [frag]"
| "insert_fragment frag (g # gs) =
     (if fr_offset g < fr_offset frag then map_option (Cons g) (insert_fragment frag gs)
      else if fr_offset g = fr_offset frag \<and> fr_len g = fr_len frag then None
      else Some (frag # g # gs))"

text \<open>The two allocations of a fragment; \<^verbatim>\<open>kmalloc(0)\<close> is null.\<close>

definition alloc_fragment :: "u16 \<Rightarrow> 'a ip_env_scheme \<Rightarrow> bool \<times> 'a ip_env_scheme" where
  "alloc_fragment len s =
     (let (a, s1) = kmalloc_next (\<lambda>_. False) s
      in if a = 0 then (False, s1)
         else if len = 0 then (False, s1)
         else let (d, s2) = kmalloc_next (\<lambda>_. False) s1 in (d \<noteq> 0, s2))"

definition upd_reass :: "nat \<Rightarrow> (ip_reassembly_t \<Rightarrow> ip_reassembly_t) \<Rightarrow> 'a ip_env_scheme \<Rightarrow> 'a ip_env_scheme" where
  "upd_reass i f s = s\<lparr>is_reass := (is_reass s)[i := f (is_reass s ! i)]\<rparr>"

definition ip_reass_add_fragment ::
  "nat \<Rightarrow> u16 \<Rightarrow> u8 list \<Rightarrow> u16 \<Rightarrow> bool \<Rightarrow> 'a ip_env_scheme \<Rightarrow> int \<times> 'a ip_env_scheme" where
  "ip_reass_add_fragment i offset data len more_frags s =
     (let s1 = (if \<not> more_frags then upd_reass i (\<lambda>r. r\<lparr>ra_total_len := offset + len\<rparr>) s else s);
          (ok, s2) = alloc_fragment len s1
      in if \<not> ok then (-1, s2)
         else case insert_fragment \<lparr>fr_offset = offset, fr_len = len, fr_data = data\<rparr>
                     (ra_fragments (is_reass s2 ! i)) of
                None \<Rightarrow> (0, s2)
              | Some frs \<Rightarrow> (0, upd_reass i (\<lambda>r. r\<lparr>ra_fragments := frs,
                                  ra_received_len := ra_received_len r + len\<rparr>) s2))"

text \<open>The loop of \<^verbatim>\<open>ip_reass_complete\<close> that checks the fragments for gaps: the offset after the last one.\<close>

fun contiguous :: "u16 \<Rightarrow> ip_fragment_t list \<Rightarrow> u16 option" where
  "contiguous expected [] = Some expected"
| "contiguous expected (f # fs) = (if fr_offset f \<noteq> expected then None else contiguous (expected + fr_len f) fs)"

text \<open>The result is the buffer of the datagram, \<open>0\<close> if it is not complete.  The copies go to \<^verbatim>\<open>dest\<close> plus
  the offset of the fragment, with the pointer \<^verbatim>\<open>netbuf_put\<close> returned.  The protocol reaches only the log message.\<close>

definition ip_reass_complete :: "nat \<Rightarrow> u32 \<Rightarrow> u8 \<Rightarrow> 'a ip_env_scheme \<Rightarrow> (u32 \<times> 'a ip_env_scheme) option" where
  "ip_reass_complete i dev protocol s =
     (let r = is_reass s ! i
      in if ra_total_len r = 0 then Some (0, s)
         else case contiguous 0 (ra_fragments r) of
                None \<Rightarrow> Some (0, s)
              | Some expected \<Rightarrow>
                  if expected \<noteq> ra_total_len r then Some (0, s)
                  else let (b, s1) = netbuf_alloc (ucast (ra_total_len r)) s
                       in if b = 0 then Some (0, s1)
                          else do {
                            (dest, s2) \<leftarrow> netbuf_put b (ucast (ra_total_len r)) s1;
                            s3 \<leftarrow> foldM (\<lambda>f s. nb_write b (dest + ucast (fr_offset f)) (fr_data f) s) (ra_fragments r) s2;
                            s4 \<leftarrow> upd_buf b (\<lambda>x. x\<lparr>nb_dev := dev\<rparr>) s3;
                            Some (b, ip_reass_free i s4) })"

text \<open>\<open>ip_reassemble\<close> takes the header and the buffer of a fragment.  After the buffer is released the code
  still reads \<^verbatim>\<open>ip->protocol\<close>, the byte at offset 9 of the header: a read of released memory.\<close>

definition ip_reassemble :: "u32 \<Rightarrow> u32 \<Rightarrow> ip_header_t \<Rightarrow> 'a ip_env_scheme \<Rightarrow> (u32 \<times> 'a ip_env_scheme) option" where
  "ip_reassemble dev b ip s =
     (let flags_frag = ntohs (ip_flags_fragment ip);
          offset = (flags_frag AND IP_FRAG_OFFSET_MASK) * 8;
          more_frags = (flags_frag AND IP_FLAG_MF \<noteq> 0);
          (entry, s1) = ip_reass_find (ip_src_addr ip) (ip_dst_addr ip) (ntohs (ip_identification ip)) (ip_protocol ip) s
      in case entry of
           None \<Rightarrow> do { s2 \<leftarrow> netbuf_free b s1; Some (0, s2) }
         | Some i \<Rightarrow> do {
             buf \<leftarrow> ns_bufs s1 b;
             let hdr_len = ip_header_len ip;
             let data_len = ntohs (ip_total_length ip) - ucast hdr_len;
             data \<leftarrow> nb_read s1 b (nb_data buf + ucast hdr_len) (unat data_len);
             let (ret, s2) = ip_reass_add_fragment i offset data data_len more_frags s1;
             s3 \<leftarrow> netbuf_free b s2;
             if ret < 0 then Some (0, s3) else ip_reass_complete i dev (is_released s3 (nb_data buf + 9)) s3 })"

definition ip_reass_timer :: "'a ip_env_scheme \<Rightarrow> 'a ip_env_scheme" where
  "ip_reass_timer s = fold (\<lambda>i s. if ra_valid (is_reass s ! i) \<and> ns_now s \<ge> ra_timeout (is_reass s ! i)
     then ip_reass_free i s else s) [0..<IP_REASS_MAX_ENTRIES] s"

section \<open>Sending\<close>

definition ip_header_out :: "u32 \<Rightarrow> u16 \<Rightarrow> u8 \<Rightarrow> u32 \<Rightarrow> u32 \<Rightarrow> ip_header_t" where
  "ip_header_out len ident protocol src dst =
     \<lparr>ip_version_ihl = 0x45, ip_tos = 0, ip_total_length = htons (ucast len), ip_identification = htons ident,
      ip_flags_fragment = htons IP_FLAG_DF, ip_ttl = 64, ip_protocol = protocol, ip_hdr_checksum = 0,
      ip_src_addr = src, ip_dst_addr = dst\<rparr>"

text \<open>The address part of \<^verbatim>\<open>ip_output\<close>: send to a known address, else queue the packet.\<close>

definition ip_output_resolved :: "u32 \<Rightarrow> u32 \<Rightarrow> u32 \<Rightarrow> 'a ip_env_scheme \<Rightarrow> (int \<times> 'a ip_env_scheme) option" where
  "ip_output_resolved dev b next_hop s = do {
     (r, s1) \<leftarrow> arp_resolve dev next_hop s;
     case r of
       Resolved dst_mac \<Rightarrow> ethernet_output dev b dst_mac ETH_TYPE_IP s1
     | Unresolved ret \<Rightarrow>
         if ret = -1
         then let (q, s2) = arp_queue_packet next_hop b s1
              in if q = 0 then Some (0, s2)
                 else (case arp_cache_lookup next_hop s2 of
                         Some dst_mac \<Rightarrow> ethernet_output dev b dst_mac ETH_TYPE_IP s2
                       | None \<Rightarrow> Some (-1, s2))
         else Some (-1, s1) }"

definition ip_output :: "u32 \<Rightarrow> u32 \<Rightarrow> u32 \<Rightarrow> u8 \<Rightarrow> 'a ip_env_scheme \<Rightarrow> (int \<times> 'a ip_env_scheme) option" where
  "ip_output dev0 b dst_ip protocol s =
     (if b = 0 then Some (-1, s)
      else do {
        (dev, next_hop) \<leftarrow> (if dev0 = 0 then ip_route_lookup dst_ip s
                             else do { d \<leftarrow> ds_devs s dev0; Some (dev0, ip_get_next_hop d dst_ip) });
        if dev = 0 then Some (-1, s)
        else do {
          d \<leftarrow> ds_devs s dev;
          if nd_ip_addr d = 0 then Some (-1, s)
          else do {
            (header_ptr, s1) \<leftarrow> netbuf_push b 20 s;
            if header_ptr = 0 then Some (-1, s1)
            else do {
              s2 \<leftarrow> upd_buf b (\<lambda>x. x\<lparr>nb_network_header := nb_data x\<rparr>) s1;
              buf \<leftarrow> ns_bufs s2 b;
              let ident = is_id_counter s2;
              let s3 = s2\<lparr>is_id_counter := ident + 1\<rparr>;
              let h = ip_header_out (nb_len buf) ident protocol (nd_ip_addr d) dst_ip;
              s4 \<leftarrow> nb_write b (nb_data buf)
                     (ip_header_bytes (h\<lparr>ip_hdr_checksum := ip_checksum (ip_header_bytes h)\<rparr>)) s3;
              ip_output_resolved dev b next_hop s4 } } } })"

section \<open>Addresses as text\<close>

lemma parse_digits_append:
  "\<forall>c\<in>set ds. 48 \<le> (of_char c :: nat) \<and> of_char c \<le> (57 :: nat) \<Longrightarrow>
    parse_digits a n (ds @ p) = parse_digits (fold (\<lambda>c a. a * 10 + of_nat (of_char c - 48)) ds a) (n + length ds) p"
  by (induction ds arbitrary: a n) auto

lemma digit_char: "k < 10 \<Longrightarrow> of_char (char_of (48 + k :: nat)) = 48 + (k :: nat)"
  by (simp add: of_char_of)

lemma decimal_digits: "\<forall>c\<in>set (decimal n). 48 \<le> (of_char c :: nat) \<and> of_char c \<le> (57 :: nat)"
proof (induction n rule: decimal.induct)
  case (1 n)
  show ?case
  proof (cases "n < 10")
    case True
    then show ?thesis using digit_char[of n] by (subst decimal.simps) simp
  next
    case False
    then show ?thesis using 1 digit_char[of "n mod 10"] by (subst decimal.simps) simp
  qed
qed

lemma decimal_value: "fold (\<lambda>c a. a * 10 + of_nat (of_char c - 48)) (decimal n) (0 :: u32) = of_nat n"
proof (induction n rule: decimal.induct)
  case (1 n)
  show ?case
  proof (cases "n < 10")
    case True
    then show ?thesis using digit_char[of n] by (subst decimal.simps) simp
  next
    case False
    have "n = n div 10 * 10 + n mod 10" by simp
    then have "(of_nat n :: u32) = of_nat (n div 10) * 10 + of_nat (n mod 10)"
      by (metis of_nat_add of_nat_mult of_nat_numeral)
    then show ?thesis using 1 False digit_char[of "n mod 10"] by (subst decimal.simps) simp
  qed
qed

lemma decimal_nonempty: "decimal n \<noteq> []"
  by (subst decimal.simps) simp

lemma parse_octet_decimal:
  assumes "n \<le> 255" "p = [] \<or> hd p = CHR ''.''"
  shows "parse_octet (decimal n @ p) = Some (of_nat n, p)"
proof -
  have stop: "parse_digits a k p = (a, k, p)" for a k
    using assms(2) by (cases p) auto
  have "\<not> (of_nat n :: u32) > 255" using assms(1) by (simp add: word_less_nat_alt unat_of_nat_u32)
  then show ?thesis
    using parse_digits_append[OF decimal_digits, of 0 0 n p] decimal_value[of n] decimal_nonempty[of n] stop
    by (simp add: parse_octet_def)
qed

lemma IP_ADDR_bytes:
  "IP_ADDR (of_nat (unat (bytes32 ip ! 0))) (of_nat (unat (bytes32 ip ! 1)))
     (of_nat (unat (bytes32 ip ! 2))) (of_nat (unat (bytes32 ip ! 3))) = ip"
proof -
  have u: "(of_nat (unat (x :: u8)) :: u32) = ucast x" for x by simp
  show ?thesis unfolding u using le32_bytes32[of ip] by (simp add: IP_ADDR_def le32_def bytes32_def)
qed

text \<open>
  C35: An address printed in dotted decimal notation is read back as the same address, for every 32-bit
  value.
\<close>

theorem str_to_ip_round_trip: "str_to_ip (ip_to_str ip) = Some ip"
proof -
  have le: "unat (x :: u8) \<le> 255" for x using unsigned_less[of x, where ?'a = nat] by simp
  have o: "parse_octet (decimal (unat (x :: u8)) @ p) = Some (of_nat (unat x), p)"
    if "p = [] \<or> hd p = CHR ''.''" for x p
    by (rule parse_octet_decimal[OF le that])
  have l: "parse_octet (decimal (unat (x :: u8))) = Some (of_nat (unat x), [])" for x
    using o[of "[]" x] by simp
  show ?thesis
    using IP_ADDR_bytes[of ip]
    by (simp add: str_to_ip_def ip_to_str_def Let_def expect_dot_def o l)
qed

section \<open>Routing\<close>

definition ones :: "u32 \<Rightarrow> nat" where
  "ones m = card {n. bit m n}"

lemma finite_bits: "finite {n. bit (m :: u32) n}"
  by (rule finite_subset[of _ "{..<32}"]) (auto dest: bit_imp_le_length)

lemma ones_shift: "ones m = (if bit m 0 then 1 else 0) + ones (drop_bit 1 m)"
proof -
  have e: "{n. bit m n} = (if bit m 0 then {0} else {}) \<union> Suc ` {n. bit (drop_bit 1 m) n}"
  proof (intro set_eqI)
    fix n show "n \<in> {n. bit m n} \<longleftrightarrow> n \<in> (if bit m 0 then {0} else {}) \<union> Suc ` {n. bit (drop_bit 1 m) n}"
      by (cases n) (auto simp: bit_simps)
  qed
  have "card (Suc ` {n. bit (drop_bit 1 m) n}) = ones (drop_bit 1 m)"
    by (simp add: card_image ones_def)
  then show ?thesis
    unfolding ones_def[of m] e using finite_bits[of "drop_bit 1 m"] by (simp add: card_insert_if)
qed

lemma count_bits_ones: "count_bits a m = a + of_nat (ones m)"
proof (induction a m rule: count_bits.induct)
  case (1 a m)
  show ?case
  proof (cases "m = 0")
    case True
    then show ?thesis by (subst count_bits.simps) (simp add: ones_def)
  next
    case False
    have "m AND 1 = (if bit m 0 then 1 else 0)"
      by (simp add: and_one_eq mod_2_eq_odd bit_0)
    then show ?thesis using 1[OF False] False ones_shift[of m]
      by (subst count_bits.simps) auto
  qed
qed

lemma ones_bound: "ones m \<le> 32"
proof -
  have "{n. bit m n} \<subseteq> {..<32}" by (auto dest: bit_imp_le_length)
  from card_mono[OF _ this] show ?thesis by (simp add: ones_def)
qed

lemma count_bits_less: "count_bits 0 m < count_bits 0 m' \<longleftrightarrow> ones m < ones m'"
  "count_bits 0 m = count_bits 0 m' \<longleftrightarrow> ones m = ones m'"
  using ones_bound[of m] ones_bound[of m']
  by (simp_all add: count_bits_ones word_less_nat_alt word_eq_unat unat_of_nat_u32)

definition matching :: "u32 \<Rightarrow> ip_route_t \<Rightarrow> bool" where
  "matching dst r \<longleftrightarrow> rt_valid r \<and> (dst AND rt_netmask r) = rt_dest r"

text \<open>\<open>r\<close> is at least as good as \<open>r'\<close>: a longer mask, or the same length and no larger metric.\<close>

definition as_good :: "ip_route_t \<Rightarrow> ip_route_t \<Rightarrow> bool" where
  "as_good r r' \<longleftrightarrow> ones (rt_netmask r') < ones (rt_netmask r)
     \<or> ones (rt_netmask r') = ones (rt_netmask r) \<and> rt_metric r \<le> rt_metric r'"

definition of_route :: "ip_route_t \<Rightarrow> best_route" where
  "of_route r = \<lparr>br_dev = rt_dev r, br_mask = rt_netmask r, br_gateway = rt_gateway r, br_metric = rt_metric r\<rparr>"

lemma as_good_refl: "as_good r r"
  by (simp add: as_good_def)

lemma as_good_trans: "as_good r r' \<Longrightarrow> as_good r' r'' \<Longrightarrow> as_good r r''"
  by (auto simp: as_good_def)

lemma route_step_of_route:
  assumes "rt_dev r0 \<noteq> 0"
  shows "route_step dst r (of_route r0) = of_route (if matching dst r \<and> \<not> as_good r0 r then r else r0)"
  using assms
  by (auto simp: route_step_def of_route_def matching_def as_good_def count_bits_less Let_def)

lemma fold_routes:
  assumes "\<forall>r\<in>set rs. rt_valid r \<longrightarrow> rt_dev r \<noteq> 0" "rt_dev r0 \<noteq> 0"
  shows "\<exists>r. fold (route_step dst) rs (of_route r0) = of_route r \<and> (r = r0 \<or> r \<in> set rs \<and> matching dst r)
    \<and> rt_dev r \<noteq> 0 \<and> as_good r r0 \<and> (\<forall>r'\<in>set rs. matching dst r' \<longrightarrow> as_good r r')"
  using assms
proof (induction rs arbitrary: r0)
  case Nil
  then show ?case by (auto simp: as_good_refl)
next
  case (Cons x rs)
  define r1 where "r1 = (if matching dst x \<and> \<not> as_good r0 x then x else r0)"
  have d1: "rt_dev r1 \<noteq> 0" using Cons.prems by (auto simp: r1_def matching_def)
  have g1: "as_good r1 r0" by (auto simp: r1_def as_good_refl) (auto simp: as_good_def)
  have x1: "as_good r1 x" if "matching dst x" using that by (auto simp: r1_def as_good_refl)
  obtain r where r: "fold (route_step dst) rs (of_route r1) = of_route r" "r = r1 \<or> r \<in> set rs \<and> matching dst r"
    "rt_dev r \<noteq> 0" "as_good r r1" "\<forall>r'\<in>set rs. matching dst r' \<longrightarrow> as_good r r'"
    using Cons.IH[OF _ d1] Cons.prems(1) by auto
  have "r = r0 \<or> r \<in> set (x # rs) \<and> matching dst r"
    using r(2) by (auto simp: r1_def)
  moreover have "fold (route_step dst) (x # rs) (of_route r0) = of_route r"
    using r(1) by (simp add: route_step_of_route[OF Cons.prems(2)] r1_def)
  moreover have "\<forall>r'\<in>set (x # rs). matching dst r' \<longrightarrow> as_good r r'"
    using r(5) x1 as_good_trans[OF r(4)] by auto
  ultimately show ?case using r(3) as_good_trans[OF r(4) g1] by blast
qed

lemma fold_no_route:
  assumes "\<forall>r\<in>set rs. \<not> matching dst r"
  shows "fold (route_step dst) rs best = best"
  using assms by (induction rs arbitrary: best) (auto simp: route_step_def matching_def)

definition no_best :: best_route where
  "no_best = \<lparr>br_dev = 0, br_mask = 0, br_gateway = 0, br_metric = 0xFFFFFFFF\<rparr>"

lemma fold_from_none:
  assumes "\<forall>r\<in>set rs. rt_valid r \<longrightarrow> rt_dev r \<noteq> 0" "\<exists>r\<in>set rs. matching dst r"
  shows "\<exists>r. fold (route_step dst) rs no_best = of_route r \<and> r \<in> set rs \<and> matching dst r
    \<and> (\<forall>r'\<in>set rs. matching dst r' \<longrightarrow> as_good r r')"
  using assms
proof (induction rs)
  case (Cons x rs)
  show ?case
  proof (cases "matching dst x")
    case True
    then have "route_step dst x no_best = of_route x"
      by (simp add: route_step_def matching_def no_best_def of_route_def Let_def)
    moreover have "rt_dev x \<noteq> 0" using Cons.prems(1) True by (simp add: matching_def)
    ultimately show ?thesis
      using fold_routes[of rs x dst] Cons.prems(1) True as_good_refl by auto
  next
    case False
    then have "route_step dst x no_best = no_best" by (auto simp: route_step_def matching_def)
    then show ?thesis using Cons False by auto
  qed
qed simp

text \<open>
  C36: \<^verbatim>\<open>ip_route_lookup\<close> finds the longest-prefix match: if some valid route covers the destination, the
  device and next hop come from a valid covering route whose mask has the most one bits, and among those
  the smallest metric; the next hop is its gateway, or the destination itself when there is none.  If no
  route covers it, the default device decides, by its own subnet and gateway.
\<close>

theorem ip_route_lookup_longest_prefix:
  assumes "\<forall>r\<in>set (is_routes s). rt_valid r \<longrightarrow> rt_dev r \<noteq> 0"
  shows "(\<exists>r\<in>set (is_routes s). matching dst r \<and> (\<forall>r'\<in>set (is_routes s). matching dst r' \<longrightarrow> as_good r r')
      \<and> ip_route_lookup dst s = Some (rt_dev r, if rt_gateway r \<noteq> 0 then rt_gateway r else dst))
    \<or> (\<forall>r\<in>set (is_routes s). \<not> matching dst r)
      \<and> (ds_default s = 0 \<longrightarrow> ip_route_lookup dst s = Some (0, dst))
      \<and> (\<forall>d. ds_default s \<noteq> 0 \<and> ds_devs s (ds_default s) = Some d
           \<longrightarrow> ip_route_lookup dst s = Some (ds_default s, ip_get_next_hop d dst))"
proof (cases "\<exists>r\<in>set (is_routes s). matching dst r")
  case True
  from fold_from_none[OF assms True] obtain r where r: "fold (route_step dst) (is_routes s) no_best = of_route r"
    "r \<in> set (is_routes s)" "matching dst r" "\<forall>r'\<in>set (is_routes s). matching dst r' \<longrightarrow> as_good r r'" by blast
  have "rt_dev r \<noteq> 0" using r(2,3) assms by (simp add: matching_def)
  then have "ip_route_lookup dst s = Some (rt_dev r, if rt_gateway r \<noteq> 0 then rt_gateway r else dst)"
    using r(1) by (simp add: ip_route_lookup_def no_best_def of_route_def)
  with r show ?thesis by blast
next
  case False
  then have "fold (route_step dst) (is_routes s) no_best = no_best" by (intro fold_no_route) blast
  then have "ip_route_lookup dst s = (if ds_default s = 0 then Some (0, dst)
      else do { d \<leftarrow> ds_devs s (ds_default s); Some (ds_default s, ip_get_next_hop d dst) })"
    by (simp add: ip_route_lookup_def no_best_def netdev_get_default_def)
  with False show ?thesis by simp
qed

definition route_sample :: ip_env where
  "route_sample = arp_env.extend net_sample \<lparr>is_id_counter = 0, is_reass = replicate 8 zero_reass,
     is_routes = [\<lparr>rt_dest = 0, rt_netmask = 0, rt_gateway = 0xFE00000A, rt_dev = 0x100, rt_metric = 5, rt_valid = True\<rparr>,
       \<lparr>rt_dest = 0x0000000A, rt_netmask = 0x000000FF, rt_gateway = 0, rt_dev = 0x100, rt_metric = 1, rt_valid = True\<rparr>]
       @ replicate 14 zero_route, is_released = (\<lambda>_. 0)\<rparr>"

theorem ip_route_lookup_longest_prefix_witness:
  "\<exists>r\<in>set (is_routes route_sample). matching 0x0500000A r
    \<and> ip_route_lookup 0x0500000A route_sample = Some (rt_dev r, if rt_gateway r \<noteq> 0 then rt_gateway r else 0x0500000A)"
proof -
  have r: "set (is_routes route_sample) = {\<lparr>rt_dest = 0, rt_netmask = 0, rt_gateway = 0xFE00000A, rt_dev = 0x100, rt_metric = 5, rt_valid = True\<rparr>,
       \<lparr>rt_dest = 0x0000000A, rt_netmask = 0x000000FF, rt_gateway = 0, rt_dev = 0x100, rt_metric = 1, rt_valid = True\<rparr>, zero_route}"
    by (auto simp: route_sample_def arp_env.extend_def)
  have d: "\<forall>r\<in>set (is_routes route_sample). rt_valid r \<longrightarrow> rt_dev r \<noteq> 0" unfolding r by (simp add: zero_route_def)
  have "\<not> (\<forall>r\<in>set (is_routes route_sample). \<not> matching 0x0500000A r)" unfolding r by (simp add: matching_def)
  then show ?thesis using ip_route_lookup_longest_prefix[OF d, of "0x0500000A"] by blast
qed

section \<open>Reassembly\<close>

text \<open>A datagram cut into fragments, in the order of their offsets, the first one at offset \<open>k\<close>.\<close>

fun cut_from :: "nat \<Rightarrow> ip_fragment_t list \<Rightarrow> bool" where
  "cut_from k [] = True"
| "cut_from k (f # fs) \<longleftrightarrow> unat (fr_offset f) = k \<and> fr_data f \<noteq> [] \<and> unat (fr_len f) = length (fr_data f)
     \<and> cut_from (k + length (fr_data f)) fs"

definition payload :: "ip_fragment_t list \<Rightarrow> u8 list" where
  "payload fs = concat (map fr_data fs)"

lemma payload_simps [simp]: "payload [] = []" "payload (f # fs) = fr_data f @ payload fs"
  by (simp_all add: payload_def)

lemma cut_from_offset: "cut_from k fs \<Longrightarrow> f \<in> set fs \<Longrightarrow> k \<le> unat (fr_offset f)"
  by (induction fs arbitrary: k) fastforce+

lemma cut_from_later: "cut_from k (f # fs) \<Longrightarrow> g \<in> set fs \<Longrightarrow> unat (fr_offset f) < unat (fr_offset g)"
  using cut_from_offset[of "k + length (fr_data f)" fs g] by (cases "fr_data f") auto

lemma cut_from_notin: "cut_from k (f # fs) \<Longrightarrow> f \<notin> set fs"
  using cut_from_later[of k f fs f] by blast

lemma insert_fragment_first:
  assumes "\<forall>g\<in>set gs. unat (fr_offset f) < unat (fr_offset g)"
  shows "insert_fragment f gs = Some (f # gs)"
  using assms by (cases gs) (auto simp: word_less_nat_alt)

text \<open>The fragments that have arrived are kept in the order of the datagram, whatever the order of arrival.\<close>

lemma insert_fragment_filter:
  assumes "cut_from k fs" "f \<in> set fs" "f \<notin> S"
  shows "insert_fragment f (filter (\<lambda>g. g \<in> S) fs) = Some (filter (\<lambda>g. g \<in> insert f S) fs)"
  using assms
proof (induction fs arbitrary: k)
  case (Cons g fs)
  show ?case
  proof (cases "f = g")
    case True
    have ng: "g \<notin> set fs" by (rule cut_from_notin[OF Cons.prems(1)])
    have "\<forall>h\<in>set (filter (\<lambda>g. g \<in> S) fs). unat (fr_offset f) < unat (fr_offset h)"
      using cut_from_later[OF Cons.prems(1)] True by auto
    then have "insert_fragment f (filter (\<lambda>g. g \<in> S) (g # fs)) = Some (f # filter (\<lambda>g. g \<in> S) fs)"
      using True Cons.prems(3) insert_fragment_first by simp
    moreover have "filter (\<lambda>g. g \<in> insert f S) fs = filter (\<lambda>g. g \<in> S) fs"
      by (rule filter_cong) (use ng True in auto)
    ultimately show ?thesis using True by simp
  next
    case False
    then have f: "f \<in> set fs" using Cons.prems(2) by simp
    have IH: "insert_fragment f (filter (\<lambda>g. g \<in> S) fs) = Some (filter (\<lambda>g. g \<in> insert f S) fs)"
      using Cons.IH[of "k + length (fr_data g)"] Cons.prems(1,3) f by simp
    have "fr_offset g < fr_offset f" using cut_from_later[OF Cons.prems(1) f] by (simp add: word_less_nat_alt)
    then show ?thesis using IH False by simp
  qed
qed simp

lemma contiguous_filter:
  assumes "cut_from k fs" "k + length (payload fs) < 65536" "contiguous (of_nat k) (filter P fs) = Some x"
  shows "\<exists>n \<le> length fs. filter P fs = take n fs \<and> x = of_nat (k + length (payload (take n fs)))"
  using assms
proof (induction fs arbitrary: k)
  case Nil
  then show ?case by auto
next
  case (Cons f fs)
  show ?case
  proof (cases "P f")
    case True
    have "fr_offset f = of_nat k" using Cons.prems(1) by (metis cut_from.simps(2) of_nat_unat ucast_id)
    moreover have "fr_len f = of_nat (length (fr_data f))"
      using Cons.prems(1) by (metis cut_from.simps(2) of_nat_unat ucast_id)
    ultimately have "contiguous (of_nat (k + length (fr_data f))) (filter P fs) = Some x"
      using Cons.prems(3) True by simp
    then obtain n where n: "n \<le> length fs" "filter P fs = take n fs"
      "x = of_nat (k + length (fr_data f) + length (payload (take n fs)))"
      using Cons.IH[of "k + length (fr_data f)"] Cons.prems(1,2) by auto
    then show ?thesis using True by (intro exI[of _ "Suc n"]) (simp add: add.assoc)
  next
    case False
    have "filter P fs = []"
    proof (rule ccontr)
      assume "filter P fs \<noteq> []"
      then obtain g gs where g: "filter P fs = g # gs" by (cases "filter P fs") auto
      then have "g \<in> set fs" by (metis filter_eq_ConsD in_set_conv_decomp)
      then have "k < unat (fr_offset g)" using cut_from_later[OF Cons.prems(1)] Cons.prems(1) by force
      moreover have "unat (of_nat k :: u16) = k" using Cons.prems(2) by (simp add: unat_of_nat)
      ultimately have "fr_offset g \<noteq> of_nat k" by auto
      then show False using Cons.prems(3) g False by simp
    qed
    then show ?thesis using Cons.prems(3) False by (intro exI[of _ 0]) simp
  qed
qed

lemma payload_take_less:
  assumes "cut_from k fs" "n < length fs"
  shows "length (payload (take n fs)) < length (payload fs)"
  using assms
proof (induction fs arbitrary: k n)
  case (Cons f fs)
  then show ?case by (cases n; cases "fr_data f") auto
qed simp

lemma contiguous_all:
  assumes "cut_from k fs"
  shows "contiguous (of_nat k) fs = Some (of_nat (k + length (payload fs)))"
  using assms
proof (induction fs arbitrary: k)
  case (Cons f fs)
  have "fr_offset f = of_nat k" "fr_len f = of_nat (length (fr_data f))"
    using Cons.prems(1) by (metis cut_from.simps(2) of_nat_unat ucast_id)+
  then show ?case using Cons.IH[of "k + length (fr_data f)"] Cons.prems by (simp add: add.assoc)
qed simp

text \<open>The last fragment ends at the length of the datagram.\<close>

lemma cut_from_last:
  assumes "cut_from k fs" "fs \<noteq> []" "k + length (payload fs) < 65536"
  shows "fr_offset (last fs) + fr_len (last fs) = of_nat (k + length (payload fs))"
  using assms
proof (induction fs arbitrary: k)
  case (Cons f fs)
  show ?case
  proof (cases "fs = []")
    case True
    have "fr_offset f = of_nat k" "fr_len f = of_nat (length (fr_data f))"
      using Cons.prems(1) by (metis cut_from.simps(2) of_nat_unat ucast_id)+
    then show ?thesis using True by simp
  next
    case False
    then show ?thesis using Cons.IH[of "k + length (fr_data f)"] Cons.prems by (simp add: add.assoc)
  qed
qed simp

text \<open>The copies build the datagram.\<close>

lemma write_fragments:
  assumes "net_ok s" "contents s b = Some (pre, xs @ replicate (length (payload fs)) 0, post)"
    "ns_bufs s b = Some buf" "cut_from (length xs) fs"
  obtains s' where "foldM (\<lambda>f s. nb_write b (nb_data buf + ucast (fr_offset f)) (fr_data f) s) fs s = Some s'"
    "buf_step b (pre, xs @ payload fs, post) s s'" "ns_bufs s' = ns_bufs s"
  using assms
proof (induction fs arbitrary: s xs thesis)
  case Nil
  show ?case by (rule Nil(1)[of s]) (use Nil(2-4) in \<open>simp_all add: buf_step_def\<close>)
next
  case (Cons f fs)
  note p = Cons.prems
  let ?d = "fr_data f"
  have off: "ucast (fr_offset f) = (of_nat (length xs) :: u32)"
  proof -
    have u: "unat (fr_offset f) = length xs" using p(5) by simp
    have "(ucast (fr_offset f) :: u32) = of_nat (unat (fr_offset f))" by simp
    then show ?thesis unfolding u .
  qed
  have len: "length xs + length ?d \<le> length (xs @ replicate (length (payload (f # fs))) 0)" by simp
  obtain s1 where s1: "nb_write b (nb_data buf + of_nat (length xs)) ?d s = Some s1"
    "buf_step b (pre, overwrite (length xs) ?d (xs @ replicate (length (payload (f # fs))) 0), post) s s1"
    "ns_bufs s1 = ns_bufs s"
    by (rule nb_write_data[OF p(2,3,4) len])
  have ow: "overwrite (length xs) ?d (xs @ replicate (length (payload (f # fs))) 0)
    = (xs @ ?d) @ replicate (length (payload fs)) 0"
    by (simp add: overwrite_def replicate_add)
  have c1: "net_ok s1" "contents s1 b = Some (pre, (xs @ ?d) @ replicate (length (payload fs)) 0, post)"
    using s1(2) unfolding ow by (simp_all add: buf_step_def)
  have b1: "ns_bufs s1 b = Some buf" using s1(3) p(4) by simp
  have cut1: "cut_from (length (xs @ ?d)) fs" using p(5) by simp
  obtain s' where s': "foldM (\<lambda>f s. nb_write b (nb_data buf + ucast (fr_offset f)) (fr_data f) s) fs s1 = Some s'"
    "buf_step b (pre, (xs @ ?d) @ payload fs, post) s1 s'" "ns_bufs s' = ns_bufs s1"
    by (rule Cons.IH[OF _ c1 b1 cut1])
  have "buf_step b (pre, xs @ payload (f # fs), post) s s'"
    using s1(2) s'(2) same_env_trans unfolding buf_step_def by (auto simp: append_assoc)
  then show ?case using p(1)[of s'] s1(1,3) s'(1,3) off by simp
qed

text \<open>Arrival of the fragments of one datagram at its table entry; the last one carries no \<^verbatim>\<open>MF\<close> flag.\<close>

definition receive_fragment :: "nat \<Rightarrow> ip_fragment_t \<Rightarrow> ip_fragment_t \<Rightarrow> 'a ip_env_scheme \<Rightarrow> 'a ip_env_scheme" where
  "receive_fragment i lst f s = snd (ip_reass_add_fragment i (fr_offset f) (fr_data f) (fr_len f) (f \<noteq> lst) s)"

lemma alloc_fragment_ok:
  assumes "len \<noteq> 0" "0 \<notin> set (ns_kmalloc s)" "2 \<le> length (ns_kmalloc s)"
  shows "alloc_fragment len s = (True, s\<lparr>ns_kmalloc := drop 2 (ns_kmalloc s)\<rparr>)"
proof -
  obtain a d ks where "ns_kmalloc s = a # d # ks"
    using assms(3) by (metis Suc_le_length_iff numeral_2_eq_2)
  then show ?thesis using assms(1,2) by (auto simp: alloc_fragment_def kmalloc_next_def)
qed

lemma cut_from_member:
  "cut_from k fs \<Longrightarrow> f \<in> set fs \<Longrightarrow> unat (fr_len f) = length (fr_data f) \<and> fr_data f \<noteq> []"
  by (induction fs arbitrary: k) auto

lemma receive_one:
  assumes "cut_from 0 fs" "length (payload fs) < 65536" "f \<in> set fs" "f \<notin> S" "i < length (is_reass s)"
    "ra_fragments (is_reass s ! i) = filter (\<lambda>g. g \<in> S) fs"
    "ra_total_len (is_reass s ! i) = (if last fs \<in> S then of_nat (length (payload fs)) else 0)"
    "0 \<notin> set (ns_kmalloc s)" "2 \<le> length (ns_kmalloc s)"
  shows "\<exists>r. receive_fragment i (last fs) f s = s\<lparr>ns_kmalloc := drop 2 (ns_kmalloc s), is_reass := (is_reass s)[i := r]\<rparr>
    \<and> ra_fragments r = filter (\<lambda>g. g \<in> insert f S) fs
    \<and> ra_total_len r = (if last fs \<in> insert f S then of_nat (length (payload fs)) else 0)"
proof -
  have ne: "fs \<noteq> []" using assms(3) by auto
  have cutf: "unat (fr_len f) = length (fr_data f)" "fr_data f \<noteq> []"
    using cut_from_member[OF assms(1,3)] by simp_all
  then have l0: "fr_len f \<noteq> 0" by auto
  have fr: "\<lparr>fr_offset = fr_offset f, fr_len = fr_len f, fr_data = fr_data f\<rparr> = f" by simp
  note ins = insert_fragment_filter[OF assms(1,3,4)]
  have lastf: "fr_offset f + fr_len f = of_nat (length (payload fs))" if "f = last fs"
    using cut_from_last[OF assms(1) ne] assms(2) that by simp
  let ?r0 = "is_reass s ! i"
  show ?thesis
  proof (cases "f = last fs")
    case True
    let ?r = "?r0\<lparr>ra_total_len := of_nat (length (payload fs)), ra_fragments := filter (\<lambda>g. g \<in> insert f S) fs,
      ra_received_len := ra_received_len ?r0 + fr_len f\<rparr>"
    have "receive_fragment i (last fs) f s = s\<lparr>ns_kmalloc := drop 2 (ns_kmalloc s), is_reass := (is_reass s)[i := ?r]\<rparr>"
      using assms(5,6,8,9) lastf[OF True] ins
      by (simp add: True[symmetric] receive_fragment_def ip_reass_add_fragment_def alloc_fragment_ok[OF l0] upd_reass_def Let_def fr)
    then show ?thesis using True by (intro exI[of _ ?r]) simp
  next
    case False
    let ?r = "?r0\<lparr>ra_fragments := filter (\<lambda>g. g \<in> insert f S) fs, ra_received_len := ra_received_len ?r0 + fr_len f\<rparr>"
    have "receive_fragment i (last fs) f s = s\<lparr>ns_kmalloc := drop 2 (ns_kmalloc s), is_reass := (is_reass s)[i := ?r]\<rparr>"
      using False assms(5,6,8,9) ins
      by (simp add: receive_fragment_def ip_reass_add_fragment_def alloc_fragment_ok[OF l0] upd_reass_def Let_def fr)
    then show ?thesis using False assms(7) by (intro exI[of _ ?r]) simp
  qed
qed

lemma receive_all:
  assumes "cut_from 0 fs" "length (payload fs) < 65536" "distinct gs" "set gs \<subseteq> set fs" "set gs \<inter> S = {}"
    "i < length (is_reass s)" "ra_fragments (is_reass s ! i) = filter (\<lambda>g. g \<in> S) fs"
    "ra_total_len (is_reass s ! i) = (if last fs \<in> S then of_nat (length (payload fs)) else 0)"
    "0 \<notin> set (ns_kmalloc s)" "2 * length gs \<le> length (ns_kmalloc s)"
  shows "\<exists>r ks. fold (receive_fragment i (last fs)) gs s = s\<lparr>ns_kmalloc := ks, is_reass := (is_reass s)[i := r]\<rparr>
    \<and> ra_fragments r = filter (\<lambda>g. g \<in> S \<union> set gs) fs
    \<and> ra_total_len r = (if last fs \<in> S \<union> set gs then of_nat (length (payload fs)) else 0)"
  using assms
proof (induction gs arbitrary: S s)
  case Nil
  then show ?case by (intro exI[of _ "is_reass s ! i"] exI[of _ "ns_kmalloc s"]) simp
next
  case (Cons f gs)
  note p = Cons.prems
  obtain r where r: "receive_fragment i (last fs) f s = s\<lparr>ns_kmalloc := drop 2 (ns_kmalloc s), is_reass := (is_reass s)[i := r]\<rparr>"
    "ra_fragments r = filter (\<lambda>g. g \<in> insert f S) fs"
    "ra_total_len r = (if last fs \<in> insert f S then of_nat (length (payload fs)) else 0)"
    using receive_one[OF p(1,2), of f S i s] p(3-10) by auto
  let ?s = "s\<lparr>ns_kmalloc := drop 2 (ns_kmalloc s), is_reass := (is_reass s)[i := r]\<rparr>"
  have z: "0 \<notin> set (drop 2 (ns_kmalloc s))" using p(9) by (meson in_set_dropD)
  have len: "2 * length gs \<le> length (ns_kmalloc s) - 2" using p(10) by simp
  obtain r' ks where r': "fold (receive_fragment i (last fs)) gs ?s = ?s\<lparr>ns_kmalloc := ks, is_reass := (is_reass ?s)[i := r']\<rparr>"
    "ra_fragments r' = filter (\<lambda>g. g \<in> insert f S \<union> set gs) fs"
    "ra_total_len r' = (if last fs \<in> insert f S \<union> set gs then of_nat (length (payload fs)) else 0)"
    using Cons.IH[OF p(1,2), of "insert f S" ?s] p(3-10) r(2,3) z len by (auto simp del: Un_insert_left)
  have "insert f S \<union> set gs = S \<union> set (f # gs)" by auto
  then show ?case using r(1) r' by (intro exI[of _ r'] exI[of _ ks]) simp
qed

text \<open>
  C33: The fragments of a datagram of at most 1920 bytes may arrive in any order.  As long as one is missing,
  the datagram is not delivered and the table entry waits; when the last one has arrived, the buffer that
  is delivered holds exactly the payload of the datagram, and the entry is released.
\<close>

theorem ip_reassembly_any_order:
  assumes "net_ok s" "i < length (is_reass s)" "ra_fragments (is_reass s ! i) = []"
    "ra_total_len (is_reass s ! i) = 0" "fs \<noteq> []" "cut_from 0 fs" "length (payload fs) \<le> 1920"
    "distinct gs" "set gs = set fs" "0 \<notin> set (ns_kmalloc s)" "2 * length gs \<le> length (ns_kmalloc s)"
    "fst (netbuf_alloc (of_nat (length (payload fs))) (fold (receive_fragment i (last fs)) gs s)) \<noteq> 0"
  shows "(\<forall>n<length gs. let s1 = fold (receive_fragment i (last fs)) (take n gs) s
            in ip_reass_complete i dev protocol s1 = Some (0, s1))
    \<and> (\<exists>b s'. ip_reass_complete i dev protocol (fold (receive_fragment i (last fs)) gs s) = Some (b, s')
         \<and> b \<noteq> 0 \<and> contents s' b = Some (replicate 128 0, payload fs, []) \<and> \<not> ra_valid (is_reass s' ! i))"
proof (intro conjI allI impI)
  let ?L = "length (payload fs)"
  have L: "?L < 65536" "0 < ?L" using assms(5-7) by (cases fs; auto)+
  have uL: "unat (of_nat ?L :: u16) = ?L" using L by (simp add: unat_of_nat)
  have nz: "(of_nat ?L :: u16) \<noteq> 0" using uL L(2) by auto
  note ra = receive_all[OF assms(6) L(1), where S = "{}" and i = i and s = s]
  {
    fix n assume n: "n < length gs"
    let ?gs = "take n gs"
    have d: "distinct ?gs" "set ?gs \<subseteq> set fs" using assms(8,9) set_take_subset[of n gs] by auto
    have ln: "2 * length ?gs \<le> length (ns_kmalloc s)" using assms(11) by simp
    obtain r ks where r: "fold (receive_fragment i (last fs)) ?gs s = s\<lparr>ns_kmalloc := ks, is_reass := (is_reass s)[i := r]\<rparr>"
      "ra_fragments r = filter (\<lambda>g. g \<in> set ?gs) fs" "ra_total_len r = (if last fs \<in> set ?gs then of_nat ?L else 0)"
      using ra[OF d _ assms(2) _ _ assms(10) ln] assms(3,4) by auto
    have "x \<noteq> ra_total_len r" if tl: "ra_total_len r \<noteq> 0" and x: "contiguous 0 (ra_fragments r) = Some x" for x
    proof
      assume e: "x = ra_total_len r"
      obtain m where m: "m \<le> length fs" "filter (\<lambda>g. g \<in> set ?gs) fs = take m fs" "x = of_nat (length (payload (take m fs)))"
        using contiguous_filter[OF assms(6), of "\<lambda>g. g \<in> set ?gs" x] x L(1) by (auto simp: r(2))
      have "x = of_nat ?L" using e tl r(3) by (auto split: if_splits)
      then have "unat (of_nat (length (payload (take m fs))) :: u16) = ?L" using m(3) uL by simp
      moreover have "length (payload (take m fs)) \<le> ?L"
        using payload_take_less[OF assms(6), of m] by (cases "m < length fs") auto
      ultimately have "length (payload (take m fs)) = ?L" using L(1) by (simp add: unat_of_nat)
      then have "m = length fs" using payload_take_less[OF assms(6), of m] m(1) by (cases "m < length fs") auto
      then have "filter (\<lambda>g. g \<in> set ?gs) fs = fs" using m(2) by simp
      then have "set fs \<subseteq> set ?gs" by (metis (no_types, lifting) filter_id_conv subsetI)
      then have "card (set gs) \<le> card (set ?gs)" using assms(9) by (simp add: card_mono)
      then show False using n distinct_card[OF assms(8)] distinct_card[OF d(1)] by simp
    qed
    then show "let s1 = fold (receive_fragment i (last fs)) ?gs s in ip_reass_complete i dev protocol s1 = Some (0, s1)"
      using assms(2) by (auto simp: r(1) Let_def ip_reass_complete_def split: option.split)
  }
  let ?s = "fold (receive_fragment i (last fs)) gs s"
  obtain r ks where r: "?s = s\<lparr>ns_kmalloc := ks, is_reass := (is_reass s)[i := r]\<rparr>"
      "ra_fragments r = filter (\<lambda>g. g \<in> set gs) fs" "ra_total_len r = (if last fs \<in> set gs then of_nat ?L else 0)"
    using ra[OF assms(8) _ _ assms(2) _ _ assms(10,11)] assms(3,4,9) by auto
  have fr: "ra_fragments r = fs" using r(2) assms(9) by simp
  have tl: "ra_total_len r = of_nat ?L" using r(3) assms(5,9) by simp
  have e: "is_reass ?s ! i = r" "length (is_reass ?s) = length (is_reass s)" using assms(2) by (simp_all add: r(1))
  have nok: "net_ok ?s" using assms(1) by (simp add: r(1) net_ok_def)
  have uc: "(ucast (of_nat ?L :: u16) :: u32) = of_nat ?L" using uL by (metis of_nat_unat)
  obtain b s1 where a: "netbuf_alloc (of_nat ?L) ?s = (b, s1)" by fastforce
  have b0: "b \<noteq> 0" using assms(12) a by simp
  have uL32: "unat (of_nat ?L :: u32) = ?L" using L(1) by (simp add: unat_of_nat_u32)
  have sz: "unat (of_nat ?L :: u32) < 4294967168" using uL32 L(1) by simp
  have al: "net_ok s1" "same_env ?s s1" "contents s1 b = Some (replicate 128 0, [], replicate ?L 0)"
    using netbuf_alloc_cases[OF nok sz a] b0 assms(7) by (auto simp: fresh_packet_def uL32)
  obtain p s2 buf where s2: "netbuf_put b (of_nat ?L) s1 = Some (p, s2)" "p \<noteq> 0"
    "buf_step b (replicate 128 0, replicate ?L 0, []) s1 s2" "ns_bufs s2 b = Some buf" "p = nb_data buf"
    by (rule put_fresh[OF al(1,3)])
  have c2: "net_ok s2" "contents s2 b = Some (replicate 128 0, [] @ replicate ?L 0, [])" "same_env s1 s2"
    using s2(3) by (simp_all add: buf_step_def)
  obtain s3 where s3: "foldM (\<lambda>f s. nb_write b (nb_data buf + ucast (fr_offset f)) (fr_data f) s) fs s2 = Some s3"
    "buf_step b (replicate 128 0, [] @ payload fs, []) s2 s3" "ns_bufs s3 = ns_bufs s2"
    by (rule write_fragments[OF c2(1,2) s2(4)]) (use assms(6) in simp)
  have c3: "net_ok s3" "contents s3 b = Some (replicate 128 0, payload fs, [])" "same_env s2 s3"
    using s3(2) by (simp_all add: buf_step_def)
  have b3: "ns_bufs s3 b = Some buf" using s3(3) s2(4) by simp
  obtain s4 where s4: "upd_buf b (\<lambda>x. x\<lparr>nb_dev := dev\<rparr>) s3 = Some s4"
    "buf_step b (replicate 128 0, payload fs, []) s3 s4"
    using upd_buf_meta[OF c3(1,2) b3, of "\<lambda>x. x\<lparr>nb_dev := dev\<rparr>"] by auto
  have "same_env ?s s4" using al(2) c2(3) c3(3) s4(2) same_env_trans unfolding buf_step_def by blast
  then have e4: "s4 = ?s\<lparr>ns_kmalloc := ns_kmalloc s4, ns_blocks := ns_blocks s4, ns_bufs := ns_bufs s4\<rparr>"
    by (simp add: same_env_def)
  have r4: "is_reass s4 = is_reass ?s" by (subst e4) simp
  have "ip_reass_complete i dev protocol ?s = Some (b, ip_reass_free i s4)"
    using nz a b0 s2(1,5) s3(1) s4(1) contiguous_all[OF assms(6)] L(1)
    by (simp add: ip_reass_complete_def e(1) fr tl uc)
  moreover have "contents (ip_reass_free i s4) b = Some (replicate 128 0, payload fs, [])"
    using s4(2) by (simp add: buf_step_def ip_reass_free_def contents_def)
  moreover have "\<not> ra_valid (is_reass (ip_reass_free i s4) ! i)"
    using assms(2) e(2) r4 by (simp add: ip_reass_free_def)
  ultimately show "\<exists>b s'. ip_reass_complete i dev protocol ?s = Some (b, s')
         \<and> b \<noteq> 0 \<and> contents s' b = Some (replicate 128 0, payload fs, []) \<and> \<not> ra_valid (is_reass s' ! i)"
    using b0 by blast
qed

definition reass_sample :: ip_env where
  "reass_sample = route_sample\<lparr>ns_kmalloc := [1, 2, 3, 4, 0x1000, 0x2000],
     is_reass := zero_reass\<lparr>ra_valid := True\<rparr> # replicate 7 zero_reass\<rparr>"

definition fragment_sample :: "ip_fragment_t list" where
  "fragment_sample = [\<lparr>fr_offset = 0, fr_len = 8, fr_data = [1, 2, 3, 4, 5, 6, 7, 8]\<rparr>,
     \<lparr>fr_offset = 8, fr_len = 3, fr_data = [9, 10, 11]\<rparr>]"

lemma reass_sample_ok: "net_ok reass_sample"
  using net_sample_ok by (simp add: reass_sample_def route_sample_def arp_env.extend_def net_sample_def arp_init_def net_ok_def)

theorem ip_reassembly_any_order_witness:
  "\<exists>b s'. ip_reass_complete 0 0x100 17 (fold (receive_fragment 0 (fragment_sample ! 1)) (rev fragment_sample) reass_sample) = Some (b, s')
     \<and> contents s' b = Some (replicate 128 0, [1, 2, 3, 4, 5, 6, 7, 8, 9, 10, 11], [])"
proof -
  have "fst (netbuf_alloc (of_nat (length (payload fragment_sample)))
      (fold (receive_fragment 0 (last fragment_sample)) (rev fragment_sample) reass_sample)) \<noteq> 0"
    by (simp add: fragment_sample_def reass_sample_def route_sample_def arp_env.extend_def net_sample_def arp_init_def
        receive_fragment_def ip_reass_add_fragment_def alloc_fragment_def kmalloc_next_def upd_reass_def zero_reass_def
        netbuf_alloc_def kmalloc_block_def payload_def Let_def)
  from ip_reassembly_any_order[OF reass_sample_ok _ _ _ _ _ _ _ _ _ _ this, of "0x100" 17]
  show ?thesis
    by (auto simp: fragment_sample_def reass_sample_def zero_reass_def payload_def)
qed

text \<open>A write through the null pointer misses every data block.\<close>

lemma nb_write_null:
  assumes "net_ok s"
  shows "nb_write b 0 xs s = None"
proof (cases "ns_bufs s b")
  case None
  then show ?thesis by (simp add: nb_write_def)
next
  case (Some buf)
  then obtain bs where bs: "ns_blocks s (nb_head buf) = Some bs" "buf_ok buf bs" using assms unfolding net_ok_def by blast
  have "unat (nb_head buf) + length bs < 4294967296" "nb_head buf \<noteq> 0" using bs(2) by (simp_all add: buf_ok_def)
  moreover from this(2) have "0 < unat (nb_head buf)" by (simp add: unat_gt_0)
  ultimately have "length bs < unat (0 - nb_head buf)" by (simp add: unat_sub_if' del: diff_0)
  then show ?thesis using Some bs(1) by (simp add: nb_write_def block_write_def)
qed

text \<open>A copy that passes the end of the block faults, whatever the copies before it did.\<close>

lemma nb_write_block:
  assumes "nb_write b p ws s = Some s'" "ns_bufs s b = Some buf" "ns_blocks s (nb_head buf) = Some bs"
  shows "ns_bufs s' b = Some buf \<and> (\<exists>bs'. ns_blocks s' (nb_head buf) = Some bs' \<and> length bs' = length bs)
    \<and> unat (p - nb_head buf) + length ws \<le> length bs"
  using assms by (auto simp: nb_write_def block_write_def bind_eq_Some_conv overwrite_def split: if_splits)

lemma write_past_end:
  assumes "f \<in> set fs" "ns_bufs s b = Some buf" "ns_blocks s (nb_head buf) = Some bs"
    "length bs < unat (p + ucast (fr_offset f) - nb_head buf) + length (fr_data f)"
  shows "foldM (\<lambda>f s. nb_write b (p + ucast (fr_offset f)) (fr_data f) s) fs s = None"
  using assms
proof (induction fs arbitrary: s bs)
  case (Cons g gs)
  show ?case
  proof (cases "nb_write b (p + ucast (fr_offset g)) (fr_data g) s")
    case (Some s')
    note w = nb_write_block[OF Some Cons.prems(2,3)]
    then obtain bs' where bs': "ns_blocks s' (nb_head buf) = Some bs'" "length bs' = length bs" by blast
    have "f \<noteq> g" using w Cons.prems(4) by auto
    then have "foldM (\<lambda>f s. nb_write b (p + ucast (fr_offset f)) (fr_data f) s) gs s' = None"
      using Cons.IH[OF _ _ bs'(1)] Cons.prems(1,4) w bs'(2) by simp
    then show ?thesis using Some by simp
  qed simp
qed simp

lemma cut_from_end:
  assumes "cut_from k fs" "fs \<noteq> []"
  shows "unat (fr_offset (last fs)) + length (fr_data (last fs)) = k + length (payload fs)"
  using assms
proof (induction fs arbitrary: k)
  case (Cons f fs)
  then show ?case using Cons.IH[of "k + length (fr_data f)"] by (cases "fs = []") (simp_all add: add.assoc)
qed simp

text \<open>
  C34: A datagram whose fragments are all present and amount to more than 1920 bytes is not delivered: once a
  buffer has been allocated, the copies leave its memory.  The length is kept in 16 bits.  If it is above 1920 there,
  the buffer is clipped to 2048 bytes, the append returns null, the result is not tested, and the first fragment is
  written through the null pointer.  If the fragments reach past 65536 bytes and the length has wrapped around to
  less, the buffer is allocated for the small length and the last fragment is written far behind its end.
\<close>

theorem ip_reass_oversize_faults:
  assumes "net_ok s" "ra_fragments (is_reass s ! i) = fs" "cut_from 0 fs"
    "1920 < length (payload fs)" "length (payload fs) mod 65536 \<noteq> 0"
    "ra_total_len (is_reass s ! i) = of_nat (length (payload fs))"
    "fst (netbuf_alloc (of_nat (length (payload fs) mod 65536)) s) \<noteq> 0"
  shows "ip_reass_complete i dev protocol s = None"
proof -
  let ?L = "length (payload fs)" and ?n = "length (payload fs) mod 65536"
  have uL: "unat (of_nat ?L :: u16) = ?n" by (simp add: unat_of_nat)
  have nz: "(of_nat ?L :: u16) \<noteq> 0" using uL assms(5) by auto
  have uc: "(ucast (of_nat ?L :: u16) :: u32) = of_nat ?n" using uL by (metis of_nat_unat)
  have uL32: "unat (of_nat ?n :: u32) = ?n" by (simp add: unat_of_nat_u32)
  have sz: "unat (of_nat ?n :: u32) < 4294967168" using uL32 by simp
  obtain b s1 where a: "netbuf_alloc (of_nat ?n) s = (b, s1)" by fastforce
  have b0: "b \<noteq> 0" using assms(7) a by simp
  have al: "net_ok s1" "contents s1 b = Some (replicate 128 0, [], replicate (min ?n 1920) 0)"
    using netbuf_alloc_cases[OF assms(1) sz a] b0 by (auto simp: fresh_packet_def uL32)
  have fs: "fs \<noteq> []" using assms(4) by auto
  have "\<exists>p s2. netbuf_put b (of_nat ?n) s1 = Some (p, s2) \<and> foldM (\<lambda>f s. nb_write b (p + ucast (fr_offset f)) (fr_data f) s) fs s2 = None"
  proof (cases "?n \<le> 1920")
    case False
    have put: "netbuf_put b (of_nat ?n) s1 = Some (0, s1)"
      by (rule netbuf_put_fail[OF al]) (use False in simp_all)
    obtain f fs' where f: "fs = f # fs'" using fs by (cases fs) auto
    have "ucast (fr_offset f) = (0 :: u32)" using assms(3) f by (simp add: unat_eq_0)
    then have "foldM (\<lambda>f s. nb_write b (0 + ucast (fr_offset f)) (fr_data f) s) fs s1 = None"
      using nb_write_null[OF al(1)] by (simp add: f)
    then show ?thesis using put by blast
  next
    case True
    then have c1: "contents s1 b = Some (replicate 128 0, [], replicate ?n 0)" using al(2) by simp
    obtain p s2 buf where s2: "netbuf_put b (of_nat ?n) s1 = Some (p, s2)"
      "buf_step b (replicate 128 0, replicate ?n 0, []) s1 s2" "ns_bufs s2 b = Some buf" "p = nb_data buf"
      by (rule put_fresh[OF al(1) c1])
    have c2: "net_ok s2" "contents s2 b = Some (replicate 128 0, replicate ?n 0, [])" using s2(2) by (simp_all add: buf_step_def)
    obtain bs where bs: "ns_blocks s2 (nb_head buf) = Some bs" "length bs = 128 + ?n" "unat (nb_data buf - nb_head buf) = 128"
      by (rule contents_block[OF c2 s2(3)]) simp
    let ?f = "last fs"
    have o: "unat (ucast (fr_offset ?f) :: u32) = unat (fr_offset ?f)" by (rule unat_ucast_u16)
    have e: "nb_data buf + ucast (fr_offset ?f) - nb_head buf = (nb_data buf - nb_head buf) + ucast (fr_offset ?f)" by simp
    have "unat (nb_data buf + ucast (fr_offset ?f) - nb_head buf) = 128 + unat (fr_offset ?f)"
      unfolding e using bs(3) o unat_le16_bound[of "fr_offset ?f"] by (subst unat_add_lem[THEN iffD1]) simp_all
    moreover have "unat (fr_offset ?f) + length (fr_data ?f) = ?L" using cut_from_end[OF assms(3) fs] by simp
    ultimately have "length bs < unat (p + ucast (fr_offset ?f) - nb_head buf) + length (fr_data ?f)"
      using bs(2) True assms(4) s2(4) by simp
    from write_past_end[OF _ s2(3) bs(1) this] fs show ?thesis using s2(1) by auto
  qed
  then show ?thesis
    using nz a b0 contiguous_all[OF assms(3)]
    by (auto simp: ip_reass_complete_def Let_def assms(2,6) uc)
qed

definition oversize_sample :: "nat \<Rightarrow> nat \<Rightarrow> ip_env" where
  "oversize_sample m n = reass_sample\<lparr>is_reass := zero_reass\<lparr>ra_valid := True, ra_total_len := of_nat (m + n),
     ra_fragments := [\<lparr>fr_offset = 0, fr_len = of_nat m, fr_data = replicate m 7\<rparr>,
       \<lparr>fr_offset = of_nat m, fr_len = of_nat n, fr_data = replicate n 7\<rparr>]\<rparr> # replicate 7 zero_reass\<rparr>"

lemma oversize_sample_facts:
  "net_ok (oversize_sample m n)" "ra_fragments (is_reass (oversize_sample m n) ! 0) =
     [\<lparr>fr_offset = 0, fr_len = of_nat m, fr_data = replicate m 7\<rparr>, \<lparr>fr_offset = of_nat m, fr_len = of_nat n, fr_data = replicate n 7\<rparr>]"
  "ra_total_len (is_reass (oversize_sample m n) ! 0) = of_nat (m + n)" "fst (netbuf_alloc (of_nat k) (oversize_sample m n)) \<noteq> 0"
proof -
  show "net_ok (oversize_sample m n)" using reass_sample_ok by (simp add: oversize_sample_def net_ok_def)
  show "fst (netbuf_alloc (of_nat k) (oversize_sample m n)) \<noteq> 0"
    by (auto simp: netbuf_alloc_def kmalloc_next_def Let_def oversize_sample_def reass_sample_def route_sample_def arp_env.extend_def net_sample_def
        arp_init_def kmalloc_block_def not_less word_le_nat_alt split: if_splits prod.splits)
qed (simp_all add: oversize_sample_def)

theorem ip_reass_oversize_faults_witness:
  "ip_reass_complete 0 0x100 17 (oversize_sample 1400 600) = None \<and> ip_reass_complete 0 0x100 17 (oversize_sample 65000 800) = None"
proof
  note f = oversize_sample_facts
  show "ip_reass_complete 0 0x100 17 (oversize_sample 1400 600) = None"
    by (rule ip_reass_oversize_faults[OF f(1,2) _ _ _ _ f(4)]) (simp_all add: payload_def f(3))
  show "ip_reass_complete 0 0x100 17 (oversize_sample 65000 800) = None"
    by (rule ip_reass_oversize_faults[OF f(1,2) _ _ _ _ f(4)]) (simp_all add: payload_def f(3))
qed

section \<open>Sending\<close>

text \<open>Beside what the layers below may change, sending advances the identification counter.\<close>

definition ip_step :: "u32 set \<Rightarrow> 'a ip_env_scheme \<Rightarrow> 'a ip_env_scheme \<Rightarrow> bool" where
  "ip_step X s s' \<longleftrightarrow> arp_step X (s\<lparr>is_id_counter := is_id_counter s'\<rparr>) s'"

lemma id_counter_keep [simp]:
  "arp_ok (s\<lparr>is_id_counter := c\<rparr>) = arp_ok s" "pend (s\<lparr>is_id_counter := c\<rparr>) = pend s"
  "contents (s\<lparr>is_id_counter := c\<rparr>) b = contents s b" "net_ok (s\<lparr>is_id_counter := c\<rparr>) = net_ok s"
  "owned b (s\<lparr>is_id_counter := c\<rparr>) = owned b s"
  by (simp_all add: arp_ok_def dev_ok_def net_ok_def used_def pq_def pend_def contents_def owned_def)

lemma arp_step_ext:
  fixes s s' :: "'a ip_env_scheme"
  assumes "arp_step X s s'"
  shows "is_id_counter s' = is_id_counter s" "is_reass s' = is_reass s" "is_routes s' = is_routes s"
    "ip_env.more s' = ip_env.more s" "ds_default s' = ds_default s" "ns_now s' = ns_now s"
proof -
  have e: "s' = s\<lparr>ns_kmalloc := ns_kmalloc s', ns_blocks := ns_blocks s', ns_bufs := ns_bufs s', ds_devs := ds_devs s',
            ds_tx_ready := ds_tx_ready s', ds_wire := ds_wire s', as_cache := as_cache s'\<rparr>"
    using assms by (simp add: arp_step_def arp_frame_def)
  show "is_id_counter s' = is_id_counter s" "is_reass s' = is_reass s" "is_routes s' = is_routes s"
    "ip_env.more s' = ip_env.more s" "ds_default s' = ds_default s" "ns_now s' = ns_now s" by (subst e, simp)+
qed

lemma arp_step_dev:
  assumes "arp_step X s s'" "ds_devs s dev = Some d"
  obtains d' where "ds_devs s' dev = Some d'" "dev_cfg d' = dev_cfg d"
  using assms by (auto simp: arp_step_def arp_frame_def) (metis map_option_eq_Some)

lemma ip_stepI: "arp_step X s s' \<Longrightarrow> ip_step X s s'"
  using arp_step_ext(1)[of X s s'] by (simp add: ip_step_def)

lemma ip_step_ok: "ip_step X s s' \<Longrightarrow> arp_ok s'"
  by (simp add: ip_step_def arp_step_def)

lemma ip_step_pend: "ip_step X s s' \<Longrightarrow> pend s' \<subseteq> pend s \<union> X"
  by (simp add: ip_step_def arp_step_def)

lemma ip_step_mono: "ip_step X s s' \<Longrightarrow> X \<subseteq> Y \<Longrightarrow> ip_step Y s s'"
  using arp_step_mono by (auto simp: ip_step_def)

lemma arp_step_counter:
  assumes "arp_step X s s'"
  shows "arp_step X (s\<lparr>is_id_counter := c\<rparr>) (s'\<lparr>is_id_counter := c\<rparr>)"
proof -
  have e: "s' = s\<lparr>ns_kmalloc := ns_kmalloc s', ns_blocks := ns_blocks s', ns_bufs := ns_bufs s', ds_devs := ds_devs s',
            ds_tx_ready := ds_tx_ready s', ds_wire := ds_wire s', as_cache := as_cache s'\<rparr>"
    using assms by (simp add: arp_step_def arp_frame_def)
  have "s'\<lparr>is_id_counter := c\<rparr> = s\<lparr>is_id_counter := c, ns_kmalloc := ns_kmalloc s', ns_blocks := ns_blocks s', ns_bufs := ns_bufs s', ds_devs := ds_devs s',
            ds_tx_ready := ds_tx_ready s', ds_wire := ds_wire s', as_cache := as_cache s'\<rparr>" by (subst e) simp
  then have "arp_frame (s\<lparr>is_id_counter := c\<rparr>) (s'\<lparr>is_id_counter := c\<rparr>)"
    using assms unfolding arp_frame_def arp_step_def by simp
  then show ?thesis using assms by (simp add: arp_step_def)
qed

lemma ip_step_trans:
  assumes "ip_step X s s'" "ip_step Y s' s''"
  shows "ip_step (X \<union> Y) s s''"
proof -
  have "arp_step X (s\<lparr>is_id_counter := is_id_counter s''\<rparr>) (s'\<lparr>is_id_counter := is_id_counter s''\<rparr>)"
    using arp_step_counter[of X "s\<lparr>is_id_counter := is_id_counter s'\<rparr>" s' "is_id_counter s''"] assms(1)
    by (simp add: ip_step_def)
  then show ?thesis using arp_step_trans assms(2) unfolding ip_step_def by blast
qed

lemma ip_step_trans1: "ip_step X s s' \<Longrightarrow> ip_step X s' s'' \<Longrightarrow> ip_step X s s''"
  using ip_step_trans[of X s s' X s''] by simp

lemma ip_step_counter: "arp_ok s \<Longrightarrow> ip_step X s (s\<lparr>is_id_counter := c\<rparr>)"
  by (simp add: ip_step_def arp_step_refl)

lemma ip_step_other:
  "ip_step X s s' \<Longrightarrow> b \<notin> X \<Longrightarrow> owned b s \<Longrightarrow> contents s' b = contents s b \<and> owned b s'"
  using ip_step_pend[of X s s'] by (auto simp: ip_step_def arp_step_def owned_def)

lemma ip_step_ext:
  assumes "ip_step X s s'"
  shows "is_reass s' = is_reass s" "is_routes s' = is_routes s" "ip_env.more s' = ip_env.more s"
    "ds_default s' = ds_default s" "ns_now s' = ns_now s"
  using arp_step_ext[OF assms[unfolded ip_step_def]] by simp_all

lemma ip_step_dev:
  assumes "ip_step X s s'" "ds_devs s dev = Some d"
  obtains d' where "ds_devs s' dev = Some d'" "dev_cfg d' = dev_cfg d"
  using arp_step_dev[OF assms(1)[unfolded ip_step_def], of dev d] assms(2) by auto

text \<open>The resolved part: the datagram goes out, waits for the address of the next hop, or is handed back.\<close>

lemma arp_resolve_resolved:
  assumes "arp_resolve dev ip s = Some (Resolved mac, s')"
  shows "ds_wire s' = ds_wire s \<and> ds_tx_ready s' = ds_tx_ready s \<and> ds_devs s' = ds_devs s"
proof -
  obtain i where "s' = upd_entry i (\<lambda>e. e\<lparr>ae_timestamp := ns_now s\<rparr>) s"
    using assms by (auto simp: arp_resolve_def Let_def bind_eq_Some_conv split: if_splits option.splits arp_state_t.splits)
  then show ?thesis by (simp add: upd_entry_def)
qed

lemma arp_cache_lookup_length:
  assumes "arp_ok s" "arp_cache_lookup ip s = Some mac"
  shows "length mac = 6"
  using assms(2) arp_cache_find_Some[OF assms(1)] arp_okD(5)[OF assms(1)]
  by (auto simp: arp_cache_lookup_def split: option.splits if_splits)

lemma ip_output_resolved_step:
  fixes s :: "'a ip_env_scheme"
  assumes ok: "arp_ok s" and b: "owned b s" and c: "contents s b = Some (pre, pay, post)" and d: "ds_devs s dev = Some d"
  obtains ret s' where "ip_output_resolved dev b hop s = Some (ret, s')" "arp_step {b} s s'"
    "ret = 0 \<and> ns_bufs s' b \<noteq> None \<or> ret = -1 \<and> owned b s'"
    "arp_cache_lookup hop s = Some mac \<and> nd_state d = NETDEV_UP \<and> nd_ops d \<noteq> None \<and> 14 \<le> length pre
      \<and> length pay \<le> 1504 \<and> ds_tx_ready s = True # rs
     \<longrightarrow> ret = 0 \<and> owned b s' \<and> ds_tx_ready s' = rs
       \<and> ds_wire s' = ds_wire s @ [(dev, eth_header_bytes mac (nd_mac d) ETH_TYPE_IP @ pay)]"
proof -
  obtain r s1 where r: "arp_resolve dev hop s = Some (r, s1)" "arp_step {} s s1"
    "(\<exists>mac. r = Resolved mac \<and> length mac = 6 \<and> arp_cache_lookup hop s = Some mac)
     \<or> r = Unresolved (-1) \<and> arp_cache_lookup hop s = None"
    by (rule arp_resolve_step[OF ok d])
  have ok1: "arp_ok s1" using r(2) by (simp add: arp_step_def)
  have bnp: "b \<noteq> 0" "ns_bufs s b \<noteq> None" "b \<notin> pend s" using b by (simp_all add: owned_def)
  have c1: "contents s1 b = Some (pre, pay, post)" and b1: "owned b s1"
    using r(2) bnp c unfolding arp_step_def owned_def by auto
  obtain d1 where d1: "ds_devs s1 dev = Some d1" "dev_cfg d1 = dev_cfg d" by (rule arp_step_dev[OF r(2) d])
  have eth: thesis
    if m: "length m = 6" and run: "ip_output_resolved dev b hop s = ethernet_output dev b m ETH_TYPE_IP s1"
      and fin: "\<And>ret s'. ip_output_resolved dev b hop s = Some (ret, s') \<Longrightarrow> arp_step {b} s s' \<Longrightarrow>
          ret = 0 \<and> ns_bufs s' b \<noteq> None \<or> ret = -1 \<and> owned b s' \<Longrightarrow> owned b s' \<Longrightarrow>
          nd_state d = NETDEV_UP \<and> nd_ops d \<noteq> None \<and> 14 \<le> length pre \<and> length pay \<le> 1504
             \<and> ds_tx_ready s1 = True # rs \<longrightarrow> ret = 0 \<and> ds_tx_ready s' = rs
               \<and> ds_wire s' = ds_wire s1 @ [(dev, eth_header_bytes m (nd_mac d) ETH_TYPE_IP @ pay)] \<Longrightarrow> thesis" for m
  proof -
    obtain ret s2 where s2: "ethernet_output dev b m ETH_TYPE_IP s1 = Some (ret, s2)" "buf_tx b s1 s2"
      "ret = 0 \<and> ds_wire s2 = ds_wire s1 @ [(dev, eth_header_bytes m (nd_mac d1) ETH_TYPE_IP @ pay)]
       \<or> ret = -1 \<and> ds_wire s2 = ds_wire s1"
      "nd_state d1 = NETDEV_UP \<and> nd_ops d1 \<noteq> None \<and> 14 \<le> length pre \<and> length pay \<le> 1504
        \<and> ds_tx_ready s1 = True # rs \<longrightarrow> ret = 0 \<and> ds_tx_ready s2 = rs"
      by (rule ethernet_output_ok[OF arp_okD(1)[OF ok1] c1 d1(1) m])
    have st: "arp_step {b} s1 s2" by (rule buf_tx_arp[OF ok1 s2(2)])
    have "dev_frame s1 s2" using s2(2) by (simp add: buf_tx_def)
    then have "as_cache s2 = as_cache s1" by (rule dev_frame_cache(1))
    then have o2: "owned b s2" using b1 s2(2) by (simp add: owned_def buf_tx_def pend_def pq_def)
    have lv: "ns_bufs s2 b \<noteq> None" using o2 by (simp add: owned_def)
    have st2: "arp_step {b} s s2" using arp_step_trans[OF r(2) st] by simp
    have "nd_state d1 = nd_state d" "nd_ops d1 = nd_ops d" "nd_mac d1 = nd_mac d" using d1(2) by (simp_all add: dev_cfg_def)
    then show thesis using fin[OF _ st2 _ o2, of ret] run s2(1,3,4) o2 lv by auto
  qed
  show ?thesis
  proof (cases r)
    case (Resolved m)
    then have m: "length m = 6" "arp_cache_lookup hop s = Some m" using r(3) by auto
    have same: "ds_wire s1 = ds_wire s" "ds_tx_ready s1 = ds_tx_ready s"
      using arp_resolve_resolved[of dev hop s m s1] r(1) Resolved by simp_all
    show ?thesis
      by (rule eth[OF m(1)], simp add: ip_output_resolved_def r(1) Resolved) (rule that, use m(2) same in auto)
  next
    case (Unresolved e)
    then have e: "e = -1" "arp_cache_lookup hop s = None" using r(3) by auto
    obtain q s2 where q: "arp_queue_packet hop b s1 = (q, s2)" by fastforce
    note qs = arp_queue_packet_step[OF ok1 _ _ bnp(1) q]
    show ?thesis
    proof (cases "q = 0")
      case True
      then have "arp_step {b} s1 s2" "ns_bufs s2 = ns_bufs s1" using qs b1 by (auto simp: owned_def)
      then have "arp_step {b} s s2" "ns_bufs s2 b \<noteq> None" using arp_step_trans[OF r(2)] b1 by (auto simp: owned_def)
      moreover have "ip_output_resolved dev b hop s = Some (0, s2)"
        using r(1) Unresolved e q True by (simp add: ip_output_resolved_def)
      ultimately show ?thesis using that[of 0 s2] e(2) by simp
    next
      case False
      then have s2: "s2 = s1" using qs b1 by (auto simp: owned_def)
      show ?thesis
      proof (cases "arp_cache_lookup hop s1")
        case None
        then have "ip_output_resolved dev b hop s = Some (-1, s1)"
          using r(1) Unresolved e q False s2 by (simp add: ip_output_resolved_def)
        then show ?thesis using that[of "-1" s1] arp_step_mono[OF r(2)] b1 e(2) by simp
      next
        case (Some m)
        have m: "length m = 6" using arp_cache_lookup_length[OF ok1 Some] .
        show ?thesis
          by (rule eth[OF m], use r(1) Unresolved e q False s2 Some in \<open>simp add: ip_output_resolved_def\<close>)
            (rule that, use e(2) in auto)
      qed
    qed
  qed
qed

definition routes_ok :: "'a ip_env_scheme \<Rightarrow> bool" where
  "routes_ok s \<longleftrightarrow> (\<forall>r\<in>set (is_routes s). rt_valid r \<longrightarrow> ds_devs s (rt_dev r) \<noteq> None)"

lemma route_fold_dev:
  "(\<forall>r\<in>set rs. rt_valid r \<longrightarrow> P (rt_dev r)) \<Longrightarrow> br_dev best \<noteq> 0 \<longrightarrow> P (br_dev best) \<Longrightarrow>
    br_dev (fold (route_step dst) rs best) \<noteq> 0 \<longrightarrow> P (br_dev (fold (route_step dst) rs best))"
proof (induction rs arbitrary: best)
  case (Cons r rs)
  have "br_dev (route_step dst r best) \<noteq> 0 \<longrightarrow> P (br_dev (route_step dst r best))"
    using Cons.prems by (simp add: route_step_def Let_def)
  then show ?case using Cons by simp
qed simp

lemma ip_route_lookup_dev:
  assumes "dev_ok s" "routes_ok s"
  obtains dev hop where "ip_route_lookup dst s = Some (dev, hop)" "dev \<noteq> 0 \<longrightarrow> ds_devs s dev \<noteq> None"
proof -
  let ?b = "fold (route_step dst) (is_routes s) \<lparr>br_dev = 0, br_mask = 0, br_gateway = 0, br_metric = 0xFFFFFFFF\<rparr>"
  have b: "br_dev ?b \<noteq> 0 \<longrightarrow> ds_devs s (br_dev ?b) \<noteq> None"
    by (rule route_fold_dev) (use assms(2) in \<open>auto simp: routes_ok_def\<close>)
  show ?thesis
  proof (cases "br_dev ?b \<noteq> 0")
    case True
    then show ?thesis using that[of "br_dev ?b"] b by (simp add: ip_route_lookup_def Let_def)
  next
    case False
    show ?thesis
    proof (cases "ds_default s = 0")
      case True
      then show ?thesis using that[of 0] False by (simp add: ip_route_lookup_def Let_def netdev_get_default_def)
    next
      case no: False
      then obtain d where "ds_devs s (ds_default s) = Some d" using dev_okD(4)[OF assms(1)] by blast
      then show ?thesis using that[of "ds_default s"] False no
        by (simp add: ip_route_lookup_def Let_def netdev_get_default_def)
    qed
  qed
qed

lemma ip_header_bytes_length [simp]: "length (ip_header_bytes h) = 20"
  by (simp add: ip_header_bytes_def)

text \<open>The header as it leaves: with its checksum.\<close>

definition sealed :: "ip_header_t \<Rightarrow> ip_header_t" where
  "sealed h = h\<lparr>ip_hdr_checksum := ip_checksum (ip_header_bytes h)\<rparr>"

text \<open>The device and the next hop of a datagram, as the first lines of \<^verbatim>\<open>ip_output\<close> choose them.\<close>

definition egress :: "u32 \<Rightarrow> u32 \<Rightarrow> 'a ip_env_scheme \<Rightarrow> (u32 \<times> u32) option" where
  "egress dev0 dst s = (if dev0 = 0 then ip_route_lookup dst s
     else do { d \<leftarrow> ds_devs s dev0; Some (dev0, ip_get_next_hop d dst) })"

lemma egress_ok:
  assumes "dev_ok s" "routes_ok s" "dev0 \<noteq> 0 \<longrightarrow> ds_devs s dev0 \<noteq> None"
  obtains dev hop where "egress dev0 dst s = Some (dev, hop)" "dev \<noteq> 0 \<longrightarrow> ds_devs s dev \<noteq> None"
proof (cases "dev0 = 0")
  case True
  obtain dev hop where "ip_route_lookup dst s = Some (dev, hop)" "dev \<noteq> 0 \<longrightarrow> ds_devs s dev \<noteq> None"
    by (rule ip_route_lookup_dev[OF assms(1,2)])
  then show ?thesis using that[of dev hop] True by (simp add: egress_def)
next
  case False
  then obtain d where "ds_devs s dev0 = Some d" using assms(3) by blast
  then show ?thesis using that[of dev0] False by (simp add: egress_def)
qed

lemma buf_step_arp:
  assumes ok: "arp_ok s" and b: "owned b s" and st: "buf_step b c s s'"
  shows "arp_step {b} s s'" "owned b s'" "arp_ok s'"
proof -
  obtain pre pay post where "contents s b = Some (pre, pay, post)" by (rule owned_contents[OF ok b])
  then have "buf_tx b s s'" using buf_step_tx[OF st] by simp
  then show a: "arp_step {b} s s'" by (rule buf_tx_arp[OF ok])
  then show "arp_ok s'" by (simp add: arp_step_def)
  have e: "same_env s s'" using st by (simp add: buf_step_def)
  have "ns_bufs s' b \<noteq> None" using st by (auto simp: buf_step_def contents_def bind_eq_Some_conv)
  then show "owned b s'" using b same_env_cache(5)[OF e] by (simp add: owned_def)
qed

lemma same_env_id:
  fixes s s' :: "'a ip_env_scheme"
  assumes "same_env s s'"
  shows "is_id_counter s' = is_id_counter s"
proof -
  have e: "s' = s\<lparr>ns_kmalloc := ns_kmalloc s', ns_blocks := ns_blocks s', ns_bufs := ns_bufs s'\<rparr>"
    using assms by (simp add: same_env_def)
  show ?thesis by (subst e) simp
qed

lemma ip_output_step:
  fixes s :: "'a ip_env_scheme"
  assumes ok: "arp_ok s" and b: "owned b s" and c: "contents s b = Some (pre, pay, post)"
    and dv: "dev0 \<noteq> 0 \<longrightarrow> ds_devs s dev0 \<noteq> None" and rt: "routes_ok s"
  obtains ret s' where "ip_output dev0 b dst protocol s = Some (ret, s')" "ip_step {b} s s'"
    "ret = 0 \<and> ns_bufs s' b \<noteq> None \<or> ret = -1 \<and> owned b s'"
    "egress dev0 dst s = Some (dev, hop) \<and> dev \<noteq> 0 \<and> ds_devs s dev = Some d \<and> nd_ip_addr d \<noteq> 0
      \<and> arp_cache_lookup hop s = Some mac \<and> nd_state d = NETDEV_UP \<and> nd_ops d \<noteq> None \<and> 34 \<le> length pre
      \<and> length pay \<le> 1484 \<and> ds_tx_ready s = True # rs
     \<longrightarrow> ret = 0 \<and> owned b s' \<and> ds_tx_ready s' = rs
       \<and> ds_wire s' = ds_wire s @ [(dev, eth_header_bytes mac (nd_mac d) ETH_TYPE_IP
           @ ip_header_bytes (sealed (ip_header_out (of_nat (20 + length pay)) (is_id_counter s) protocol (nd_ip_addr d) dst))
           @ pay)]"
proof -
  have nok: "net_ok s" by (rule arp_okD(2)[OF ok])
  have b0: "b \<noteq> 0" using b by (simp add: owned_def)
  obtain dv1 hop1 where e: "egress dev0 dst s = Some (dv1, hop1)" "dv1 \<noteq> 0 \<longrightarrow> ds_devs s dv1 \<noteq> None"
    by (rule egress_ok[OF arp_okD(1)[OF ok] rt dv])
  have run: "ip_output dev0 b dst protocol s =
      (if dv1 = 0 then Some (-1, s)
       else do {
          d \<leftarrow> ds_devs s dv1;
          if nd_ip_addr d = 0 then Some (-1, s)
          else do {
            (header_ptr, s1) \<leftarrow> netbuf_push b 20 s;
            if header_ptr = 0 then Some (-1, s1)
            else do {
              s2 \<leftarrow> upd_buf b (\<lambda>x. x\<lparr>nb_network_header := nb_data x\<rparr>) s1;
              buf \<leftarrow> ns_bufs s2 b;
              s4 \<leftarrow> nb_write b (nb_data buf) (ip_header_bytes (sealed
                     (ip_header_out (nb_len buf) (is_id_counter s2) protocol (nd_ip_addr d) dst)))
                     (s2\<lparr>is_id_counter := is_id_counter s2 + 1\<rparr>);
              ip_output_resolved dv1 b hop1 s4 } } })"
    using b0 e(1) unfolding ip_output_def egress_def sealed_def Let_def by simp
  show ?thesis
  proof (cases "dv1 \<noteq> 0 \<and> nd_ip_addr (the (ds_devs s dv1)) \<noteq> 0 \<and> 20 \<le> length pre")
    case False
    have pf: "netbuf_push b 20 s = Some (0, s)" if "length pre < 20"
      using netbuf_push_fail[OF nok c, of 20] that by simp
    have "ip_output dev0 b dst protocol s = Some (-1, s)" using False e(2) pf unfolding run by auto
    then show ?thesis
      by (rule that) (use ip_stepI[OF arp_step_refl[OF ok]] b e False in auto)
  next
    case True
    then obtain d1 where d1: "dv1 \<noteq> 0" "ds_devs s dv1 = Some d1" "nd_ip_addr d1 \<noteq> 0" "20 \<le> length pre"
      using e(2) by auto
    let ?pre = "take (length pre - 20) pre" and ?old = "drop (length pre - 20) pre"
    obtain p s1 buf where s1: "netbuf_push b (of_nat 20) s = Some (p, s1)" "p \<noteq> 0"
      "buf_step b (?pre, ?old @ pay, post) s s1" "ns_bufs s b = Some buf"
      "ns_bufs s1 b = Some (buf\<lparr>nb_data := p, nb_len := of_nat (20 + length pay)\<rparr>)"
      by (rule netbuf_push_ok[OF nok c d1(4)])
    have c1: "net_ok s1" "contents s1 b = Some (?pre, ?old @ pay, post)" "same_env s s1" using s1(3) by (simp_all add: buf_step_def)
    let ?buf = "buf\<lparr>nb_data := p, nb_len := of_nat (20 + length pay)\<rparr>"
    obtain s2 where s2: "upd_buf b (\<lambda>x. x\<lparr>nb_network_header := nb_data x\<rparr>) s1 = Some s2"
      "buf_step b (?pre, ?old @ pay, post) s1 s2" "ns_bufs s2 b = Some (?buf\<lparr>nb_network_header := nb_data ?buf\<rparr>)"
      by (rule upd_buf_meta[OF c1(1,2) s1(5), of "\<lambda>x. x\<lparr>nb_network_header := nb_data x\<rparr>"]) simp_all
    have c2: "net_ok s2" "contents s2 b = Some (?pre, ?old @ pay, post)" "same_env s1 s2" using s2(2) by (simp_all add: buf_step_def)
    let ?h = "ip_header_bytes (sealed (ip_header_out (of_nat (20 + length pay)) (is_id_counter s) protocol (nd_ip_addr d1) dst))"
    let ?s3 = "s2\<lparr>is_id_counter := is_id_counter s2 + 1\<rparr>"
    let ?buf2 = "?buf\<lparr>nb_network_header := nb_data ?buf\<rparr>"
    have hl: "0 + length ?h \<le> length (?old @ pay)" using d1(4) by (subst ip_header_bytes_length) simp
    obtain s4 where s4: "nb_write b (nb_data ?buf2 + of_nat 0) ?h ?s3 = Some s4"
      "buf_step b (?pre, overwrite 0 ?h (?old @ pay), post) ?s3 s4" "ns_bufs s4 = ns_bufs ?s3"
      by (rule nb_write_data[of ?s3 b ?pre "?old @ pay" post ?buf2 0 ?h]) (use c2 s2(3) hl in simp_all)
    have ow: "overwrite 0 ?h (?old @ pay) = ?h @ pay" using d1(4) by (simp add: overwrite_def)
    have c4: "contents s4 b = Some (?pre, ?h @ pay, post)" using s4(2) unfolding ow by (simp add: buf_step_def)
    have id2: "is_id_counter s2 = is_id_counter s" using same_env_id[OF same_env_trans[OF c1(3) c2(3)]] .
    note a1 = buf_step_arp[OF ok b s1(3)]
    note a2 = buf_step_arp[OF a1(3,2) s2(2)]
    have st2: "arp_step {b} s s2" by (rule arp_step_trans1[OF a1(1) a2(1)])
    have ok3: "arp_ok ?s3" "owned b ?s3" using a2(2,3) by simp_all
    note a4 = buf_step_arp[OF ok3 s4(2)]
    have st: "ip_step {b} s s4"
      by (rule ip_step_trans1[OF ip_step_trans1[OF ip_stepI[OF st2] ip_step_counter[OF a2(3)]] ip_stepI[OF a4(1)]])
    have e4: "same_env ?s3 s4" using s4(2) by (simp add: buf_step_def)
    note env = same_env_cache[OF c1(3)] same_env_cache[OF c2(3)] same_env_cache[OF e4]
    have d4: "ds_devs s4 dv1 = Some d1" "ds_wire s4 = ds_wire s" "ds_tx_ready s4 = ds_tx_ready s" "as_cache s4 = as_cache s"
      using env d1(2) by simp_all
    obtain ret s5 where s5: "ip_output_resolved dv1 b hop1 s4 = Some (ret, s5)" "arp_step {b} s4 s5"
      "ret = 0 \<and> ns_bufs s5 b \<noteq> None \<or> ret = -1 \<and> owned b s5"
      "arp_cache_lookup hop1 s4 = Some mac \<and> nd_state d1 = NETDEV_UP \<and> nd_ops d1 \<noteq> None \<and> 14 \<le> length ?pre
        \<and> length (?h @ pay) \<le> 1504 \<and> ds_tx_ready s4 = True # rs
       \<longrightarrow> ret = 0 \<and> owned b s5 \<and> ds_tx_ready s5 = rs
         \<and> ds_wire s5 = ds_wire s4 @ [(dv1, eth_header_bytes mac (nd_mac d1) ETH_TYPE_IP @ ?h @ pay)]"
      by (rule ip_output_resolved_step[OF a4(3,2) c4 d4(1)])
    have "ip_output dev0 b dst protocol s = Some (ret, s5)"
      unfolding run using d1 s1(1,2) s2(1,3) s4(1) s5(1) id2 by simp
    moreover have "ip_step {b} s s5" by (rule ip_step_trans1[OF st ip_stepI[OF s5(2)]])
    ultimately show ?thesis
      by (rule that) (use s5(3,4) d1 d4 e(1) lookup_cache[OF d4(4), of hop1] in auto)
  qed
qed

text \<open>What leaves is what the receiver accepts: the header reads back, and its checksum is zero.\<close>

lemma ip_header_of_bytes [simp]: "ip_header_of (ip_header_bytes h @ xs) = h"
  by (simp add: ip_header_of_def ip_header_bytes_def bytes16_def bytes32_def le16_bytes16 le32_bytes32)

lemma sealed_verifies:
  assumes "ip_hdr_checksum h = 0"
  shows "ip_checksum (ip_header_bytes (sealed h)) = 0"
proof -
  let ?pre = "[ip_version_ihl h, ip_tos h] @ bytes16 (ip_total_length h) @ bytes16 (ip_identification h)
     @ bytes16 (ip_flags_fragment h) @ [ip_ttl h, ip_protocol h]"
  let ?post = "bytes32 (ip_src_addr h) @ bytes32 (ip_dst_addr h)"
  have h: "ip_header_bytes (h\<lparr>ip_hdr_checksum := c\<rparr>) = ?pre @ bytes16 c @ ?post" for c
    by (simp add: ip_header_bytes_def)
  have "ip_header_bytes h = ?pre @ bytes16 0 @ ?post" using assms by (simp add: ip_header_bytes_def)
  then show ?thesis
    using checksum_stored[of ?pre ?post] unfolding sealed_def h ip_checksum_def checksum_0_verify by simp
qed

end
