(* ===== verification/Icmp.thy ===== *)
theory Icmp
  imports Ip
begin

text \<open>
  The control protocol (\<^verbatim>\<open>src/src/net/icmp.c\<close>) with the ping state of \<^verbatim>\<open>src/src/net/net.c\<close>.  The only
  function ever registered as ping callback is \<^verbatim>\<open>ping_callback\<close> of \<^verbatim>\<open>net.c\<close>, which stores its arguments
  in \<^verbatim>\<open>ping_result\<close>; the callback pointer is therefore an option of a one-element type.  A data pointer
  argument is an option of the bytes it points to.  The relation \<open>kept\<close> says what every operation of the
  protocols above IP leaves alone: the buffers that others own, the devices and the routes.
\<close>

section \<open>State\<close>

record icmp_header_t =
  ic_type :: u8
  ic_code :: u8
  ic_checksum :: u16
  ic_un :: "u16 \<times> u16"

definition icmp_header_of :: "u8 list \<Rightarrow> icmp_header_t" where
  "icmp_header_of bs = \<lparr>ic_type = bs ! 0, ic_code = bs ! 1, ic_checksum = le16 (bs ! 2) (bs ! 3),
     ic_un = (le16 (bs ! 4) (bs ! 5), le16 (bs ! 6) (bs ! 7))\<rparr>"

definition icmp_header_bytes :: "icmp_header_t \<Rightarrow> u8 list" where
  "icmp_header_bytes h = [ic_type h, ic_code h] @ bytes16 (ic_checksum h) @ bytes16 (fst (ic_un h)) @ bytes16 (snd (ic_un h))"

datatype ping_callback_t = Ping_callback

record last_ping_t =
  lp_id :: u16
  lp_seq :: u16
  lp_send_time :: u32
  lp_waiting :: bool

record ping_result_t =
  pr_received :: bool
  pr_rtt :: u32
  pr_src_ip :: u32

record icmp_env = ip_env +
  cs_callback :: "ping_callback_t option"
  cs_last_ping :: last_ping_t
  cs_last_rtt :: u32
  cs_ping_result :: ping_result_t

abbreviation (input) ICMP_ECHO_REPLY :: u8 where "ICMP_ECHO_REPLY \<equiv> 0"

abbreviation (input) ICMP_DEST_UNREACHABLE :: u8 where "ICMP_DEST_UNREACHABLE \<equiv> 3"

abbreviation (input) ICMP_ECHO_REQUEST :: u8 where "ICMP_ECHO_REQUEST \<equiv> 8"

abbreviation (input) ICMP_PORT_UNREACHABLE :: u8 where "ICMP_PORT_UNREACHABLE \<equiv> 3"

abbreviation (input) IP_PROTO_ICMP :: u8 where "IP_PROTO_ICMP \<equiv> 1"

section \<open>Operations\<close>

definition icmp_init :: "'a icmp_env_scheme \<Rightarrow> 'a icmp_env_scheme" where
  "icmp_init s = s\<lparr>cs_callback := None, cs_last_ping := (cs_last_ping s)\<lparr>lp_waiting := False\<rparr>, cs_last_rtt := -1\<rparr>"

definition icmp_register_ping_callback :: "ping_callback_t option \<Rightarrow> 'a icmp_env_scheme \<Rightarrow> 'a icmp_env_scheme" where
  "icmp_register_ping_callback callback s = s\<lparr>cs_callback := callback\<rparr>"

text \<open>The field holds the 32 bits of a signed number.\<close>

definition icmp_get_last_rtt :: "'a icmp_env_scheme \<Rightarrow> int" where
  "icmp_get_last_rtt s = sint (cs_last_rtt s)"

text \<open>\<^verbatim>\<open>ping_callback\<close> of \<^verbatim>\<open>net.c\<close>.\<close>

definition ping_callback :: "u32 \<Rightarrow> u16 \<Rightarrow> u32 \<Rightarrow> bool \<Rightarrow> 'a icmp_env_scheme \<Rightarrow> 'a icmp_env_scheme" where
  "ping_callback src_ip seq rtt_ms success s =
     (if success then s\<lparr>cs_ping_result := \<lparr>pr_received = True, pr_rtt = rtt_ms, pr_src_ip = src_ip\<rparr>\<rparr> else s)"

text \<open>The part the three senders share: append \<open>icmp_len\<close> bytes, store the header, copy the data parts to
  their offsets, and store the checksum of the whole message.\<close>

definition icmp_fill :: "u32 \<Rightarrow> u32 \<Rightarrow> icmp_header_t \<Rightarrow> (u32 \<times> u8 list) list \<Rightarrow> 'a nb_state_scheme \<Rightarrow> 'a nb_state_scheme option" where
  "icmp_fill b icmp_len header parts s = do {
     (pkt, s1) \<leftarrow> netbuf_put b icmp_len s;
     s2 \<leftarrow> nb_write b pkt (icmp_header_bytes header) s1;
     s3 \<leftarrow> foldM (\<lambda>(off, d) s. nb_write b (pkt + off) d s) parts s2;
     bs \<leftarrow> nb_read s3 b pkt (unat icmp_len);
     nb_write b (pkt + 2) (bytes16 (checksum bs)) s3 }"

text \<open>And their end: \<^verbatim>\<open>ip_output\<close>, and the release of the buffer if it fails.\<close>

definition send_or_release :: "u32 \<Rightarrow> u32 \<Rightarrow> u32 \<Rightarrow> u8 \<Rightarrow> 'a ip_env_scheme \<Rightarrow> (int \<times> 'a ip_env_scheme) option" where
  "send_or_release dev b dst_ip protocol s = do {
     (ret, s1) \<leftarrow> ip_output dev b dst_ip protocol s;
     if ret < 0 then do { s2 \<leftarrow> netbuf_free b s1; Some (ret, s2) } else Some (ret, s1) }"

definition echo_header :: "u8 \<Rightarrow> u16 \<Rightarrow> u16 \<Rightarrow> icmp_header_t" where
  "echo_header typ ident seq = \<lparr>ic_type = typ, ic_code = 0, ic_checksum = 0, ic_un = (htons ident, htons seq)\<rparr>"

definition echo_parts :: "u8 list option \<Rightarrow> u32 \<Rightarrow> (u32 \<times> u8 list) list" where
  "echo_parts data len = (case data of None \<Rightarrow> [] | Some d \<Rightarrow> if len > 0 then [(8, d)] else [])"

definition icmp_send_echo_request ::
  "u32 \<Rightarrow> u16 \<Rightarrow> u16 \<Rightarrow> u8 list option \<Rightarrow> u32 \<Rightarrow> 'a icmp_env_scheme \<Rightarrow> (int \<times> 'a icmp_env_scheme) option" where
  "icmp_send_echo_request dst_ip ident seq data len s =
     (let icmp_len = 8 + len;
          (b, s1) = netbuf_alloc icmp_len s
      in if b = 0 then Some (-1, s1)
         else do {
           s2 \<leftarrow> icmp_fill b icmp_len (echo_header ICMP_ECHO_REQUEST ident seq) (echo_parts data len) s1;
           let s3 = s2\<lparr>cs_last_ping := \<lparr>lp_id = ident, lp_seq = seq, lp_send_time = ns_now s2, lp_waiting = True\<rparr>,
                       cs_last_rtt := -1\<rparr>;
           (ret, s4) \<leftarrow> send_or_release 0 b dst_ip IP_PROTO_ICMP s3;
           Some (ret, if ret < 0 then s4\<lparr>cs_last_ping := (cs_last_ping s4)\<lparr>lp_waiting := False\<rparr>\<rparr> else s4) })"

definition icmp_send_echo_reply ::
  "u32 \<Rightarrow> u16 \<Rightarrow> u16 \<Rightarrow> u8 list option \<Rightarrow> u32 \<Rightarrow> 'a ip_env_scheme \<Rightarrow> (int \<times> 'a ip_env_scheme) option" where
  "icmp_send_echo_reply dst_ip ident seq data len s =
     (let icmp_len = 8 + len;
          (b, s1) = netbuf_alloc icmp_len s
      in if b = 0 then Some (-1, s1)
         else do {
           s2 \<leftarrow> icmp_fill b icmp_len (echo_header ICMP_ECHO_REPLY ident seq) (echo_parts data len) s1;
           send_or_release 0 b dst_ip IP_PROTO_ICMP s2 })"

definition icmp_send_dest_unreachable ::
  "u32 \<Rightarrow> u8 \<Rightarrow> u8 list option \<Rightarrow> u8 list option \<Rightarrow> 'a ip_env_scheme \<Rightarrow> (int \<times> 'a ip_env_scheme) option" where
  "icmp_send_dest_unreachable dst_ip code orig_header orig_data s =
     (let icmp_len = 8 + (20 + 8);
          (b, s1) = netbuf_alloc icmp_len s;
          parts = (case orig_header of None \<Rightarrow> [] | Some h \<Rightarrow> [(8, take 20 h)])
                  @ (case orig_data of None \<Rightarrow> [] | Some d \<Rightarrow> [(28, take 8 d)])
      in if b = 0 then Some (-1, s1)
         else do {
           s2 \<leftarrow> icmp_fill b icmp_len \<lparr>ic_type = ICMP_DEST_UNREACHABLE, ic_code = code, ic_checksum = 0, ic_un = (0, 0)\<rparr> parts s1;
           send_or_release 0 b dst_ip IP_PROTO_ICMP s2 })"

text \<open>The types \<^verbatim>\<open>ICMP_DEST_UNREACHABLE\<close>, \<^verbatim>\<open>ICMP_TIME_EXCEEDED\<close> and unknown ones are only logged.\<close>

definition icmp_input :: "u32 \<Rightarrow> u32 \<Rightarrow> u32 \<Rightarrow> 'a icmp_env_scheme \<Rightarrow> 'a icmp_env_scheme option" where
  "icmp_input dev b src_ip s =
     (if dev = 0 \<or> b = 0 then Some s
      else do {
        buf \<leftarrow> ns_bufs s b;
        if nb_len buf < 8 then netbuf_free b s
        else do {
          bs \<leftarrow> nb_read s b (nb_data buf) (unat (nb_len buf));
          let icmp = icmp_header_of bs;
          if checksum bs \<noteq> 0 then netbuf_free b s
          else do {
            s1 \<leftarrow> (let ident = ntohs (fst (ic_un icmp)); seq = ntohs (snd (ic_un icmp))
                  in if ic_type icmp = ICMP_ECHO_REQUEST
                  then let data_len = nb_len buf - 8
                       in do {
                         (_, s1) \<leftarrow> icmp_send_echo_reply src_ip ident seq
                                     (if data_len > 0 then Some (drop 8 bs) else None) data_len s;
                         Some s1 }
                  else if ic_type icmp = ICMP_ECHO_REPLY
                  then let lp = cs_last_ping s
                       in if lp_waiting lp \<and> lp_id lp = ident \<and> lp_seq lp = seq
                          then let rtt = ns_now s - lp_send_time lp;
                                   s1 = s\<lparr>cs_last_rtt := rtt, cs_last_ping := lp\<lparr>lp_waiting := False\<rparr>\<rparr>
                               in Some (case cs_callback s1 of
                                          None \<Rightarrow> s1
                                        | Some Ping_callback \<Rightarrow> ping_callback src_ip seq rtt True s1)
                          else Some s
                  else Some s);
            netbuf_free b s1 } } })"

section \<open>What stays\<close>

definition kept :: "u32 set \<Rightarrow> 'a ip_env_scheme \<Rightarrow> 'a ip_env_scheme \<Rightarrow> bool" where
  "kept B s s' \<longleftrightarrow> arp_ok s'
     \<and> (\<forall>b. owned b s \<and> b \<notin> B \<longrightarrow> owned b s' \<and> contents s' b = contents s b \<and> ns_bufs s' b = ns_bufs s b)
     \<and> (\<forall>dev. map_option dev_cfg (ds_devs s' dev) = map_option dev_cfg (ds_devs s dev))
     \<and> (\<exists>fs. ds_wire s' = ds_wire s @ fs)
     \<and> is_routes s' = is_routes s \<and> ds_default s' = ds_default s \<and> ns_now s' = ns_now s"

lemma kept_refl: "arp_ok s \<Longrightarrow> kept B s s"
  by (simp add: kept_def)

lemma kept_ok: "kept B s s' \<Longrightarrow> arp_ok s'"
  by (simp add: kept_def)

lemma kept_trans:
  assumes "kept A s s'" "kept B s' s''"
  shows "kept (A \<union> B) s s''"
  using assms unfolding kept_def by auto

lemma kept_trans1: "kept B s s' \<Longrightarrow> kept B s' s'' \<Longrightarrow> kept B s s''"
  using kept_trans[of B s s' B s''] by simp

lemma kept_mono: "kept A s s' \<Longrightarrow> A \<subseteq> B \<Longrightarrow> kept B s s'"
  by (auto simp: kept_def)

lemma kept_new: "kept {b} s s' \<Longrightarrow> \<not> owned b s \<Longrightarrow> kept {} s s'"
  unfolding kept_def by blast

lemma kept_owned:
  assumes "kept B s s'" "owned b s" "b \<notin> B"
  shows "owned b s'" "contents s' b = contents s b" "ns_bufs s' b = ns_bufs s b"
  using assms unfolding kept_def by blast+

lemma kept_dev:
  assumes "kept B s s'" "ds_devs s dev = Some d"
  obtains d' where "ds_devs s' dev = Some d'" "dev_cfg d' = dev_cfg d"
  using assms unfolding kept_def by (metis map_option_eq_Some)

lemma kept_live_dev: "kept B s s' \<Longrightarrow> ds_devs s dev \<noteq> None \<Longrightarrow> ds_devs s' dev \<noteq> None"
  unfolding kept_def by (metis map_option_is_None)

lemma kept_routes: "kept B s s' \<Longrightarrow> routes_ok s \<Longrightarrow> routes_ok s'"
  unfolding routes_ok_def kept_def by (metis map_option_is_None)

lemma ip_step_kept:
  assumes "ip_step X s s'"
  shows "kept X s s'"
proof -
  let ?s = "s\<lparr>is_id_counter := is_id_counter s'\<rparr>"
  have st: "arp_step X ?s s'" using assms by (simp add: ip_step_def)
  have "owned b s' \<and> contents s' b = contents s b \<and> ns_bufs s' b = ns_bufs s b" if "owned b s" "b \<notin> X" for b
    using st that unfolding arp_step_def owned_def by auto
  then show ?thesis using st ip_step_ext[OF assms] by (auto simp: kept_def arp_step_def arp_frame_def)
qed

lemma netbuf_free_kept:
  assumes "arp_ok s" "owned b s"
  obtains s' where "netbuf_free b s = Some s'" "kept {b} s s'" "arp_step {b} s s'" "ns_bufs s' b = None"
    "ds_wire s' = ds_wire s" "ds_tx_ready s' = ds_tx_ready s" "as_cache s' = as_cache s" "ds_devs s' = ds_devs s"
proof -
  have b: "ns_bufs s b \<noteq> None" "b \<notin> pend s" using assms(2) by (simp_all add: owned_def)
  obtain s' where s': "netbuf_free b s = Some s'" "arp_step {b} s s'" "ns_bufs s' b = None"
    "ds_wire s' = ds_wire s" "as_cache s' = as_cache s" "ds_devs s' = ds_devs s" "ds_tx_ready s' = ds_tx_ready s"
    by (rule netbuf_free_arp[OF assms(1) b])
  show ?thesis by (rule that[OF s'(1) ip_step_kept[OF ip_stepI[OF s'(2)]] s'(2,3,4,7,5,6)])
qed

section \<open>Sending\<close>

text \<open>The frame that carries \<open>pay\<close> to \<open>dst\<close> through \<open>d\<close> and the neighbour \<open>mac\<close>.\<close>

definition ip_frame_bytes :: "u8 list \<Rightarrow> netdev_t \<Rightarrow> u16 \<Rightarrow> u8 \<Rightarrow> u32 \<Rightarrow> u8 list \<Rightarrow> u8 list" where
  "ip_frame_bytes mac d ident protocol dst pay = eth_header_bytes mac (nd_mac d) ETH_TYPE_IP
     @ ip_header_bytes (sealed (ip_header_out (of_nat (20 + length pay)) ident protocol (nd_ip_addr d) dst)) @ pay"

text \<open>The way to \<open>dst\<close> is open: a device that is up, a resolved neighbour, and a free descriptor.\<close>

definition path_open :: "u32 \<Rightarrow> u32 \<Rightarrow> u32 \<Rightarrow> u32 \<Rightarrow> netdev_t \<Rightarrow> u8 list \<Rightarrow> bool list \<Rightarrow> 'a ip_env_scheme \<Rightarrow> bool" where
  "path_open dev0 dst dev hop d mac rs s \<longleftrightarrow>
     egress dev0 dst s = Some (dev, hop) \<and> dev \<noteq> 0 \<and> ds_devs s dev = Some d \<and> nd_ip_addr d \<noteq> 0
     \<and> arp_cache_lookup hop s = Some mac \<and> nd_state d = NETDEV_UP \<and> nd_ops d \<noteq> None \<and> ds_tx_ready s = True # rs"

lemma send_or_release_step:
  fixes s :: "'a ip_env_scheme"
  assumes ok: "arp_ok s" and b: "owned b s" and c: "contents s b = Some (pre, pay, post)"
    and dv: "dev0 \<noteq> 0 \<longrightarrow> ds_devs s dev0 \<noteq> None" and rt: "routes_ok s"
  obtains ret s' where "send_or_release dev0 b dst protocol s = Some (ret, s')" "kept {b} s s'"
    "ret = 0 \<or> ret = -1" "ip_env.more s' = ip_env.more s" "is_reass s' = is_reass s"
    "path_open dev0 dst dev hop d mac rs s \<and> 34 \<le> length pre \<and> length pay \<le> 1484
     \<longrightarrow> ret = 0 \<and> ds_tx_ready s' = rs
       \<and> ds_wire s' = ds_wire s @ [(dev, ip_frame_bytes mac d (is_id_counter s) protocol dst pay)]"
proof -
  obtain ret s1 where s1: "ip_output dev0 b dst protocol s = Some (ret, s1)" "ip_step {b} s s1"
    "ret = 0 \<and> ns_bufs s1 b \<noteq> None \<or> ret = -1 \<and> owned b s1"
    "egress dev0 dst s = Some (dev, hop) \<and> dev \<noteq> 0 \<and> ds_devs s dev = Some d \<and> nd_ip_addr d \<noteq> 0
      \<and> arp_cache_lookup hop s = Some mac \<and> nd_state d = NETDEV_UP \<and> nd_ops d \<noteq> None \<and> 34 \<le> length pre
      \<and> length pay \<le> 1484 \<and> ds_tx_ready s = True # rs
     \<longrightarrow> ret = 0 \<and> owned b s1 \<and> ds_tx_ready s1 = rs
       \<and> ds_wire s1 = ds_wire s @ [(dev, eth_header_bytes mac (nd_mac d) ETH_TYPE_IP
           @ ip_header_bytes (sealed (ip_header_out (of_nat (20 + length pay)) (is_id_counter s) protocol (nd_ip_addr d) dst))
           @ pay)]"
    by (rule ip_output_step[OF ok b c dv rt])
  note k1 = ip_step_kept[OF s1(2)] and x1 = ip_step_ext[OF s1(2)]
  show ?thesis
  proof (cases "ret < 0")
    case True
    then have o1: "owned b s1" "ret = -1" using s1(3) by auto
    obtain s2 where s2: "netbuf_free b s1 = Some s2" "kept {b} s1 s2" "arp_step {b} s1 s2"
      by (rule netbuf_free_kept[OF kept_ok[OF k1] o1(1)])
    note x2 = arp_step_ext[OF s2(3)]
    have "send_or_release dev0 b dst protocol s = Some (ret, s2)" using True s1(1) s2(1) by (simp add: send_or_release_def)
    then show ?thesis
      by (rule that) (use kept_trans1[OF k1 s2(2)] x1 x2 o1(2) s1(4) in \<open>auto simp: path_open_def\<close>)
  next
    case False
    then have "send_or_release dev0 b dst protocol s = Some (ret, s1)" using s1(1) by (simp add: send_or_release_def)
    then show ?thesis
      by (rule that) (use k1 x1 s1(3,4) False in \<open>auto simp: path_open_def ip_frame_bytes_def\<close>)
  qed
qed

definition put_parts :: "(u32 \<times> u8 list) list \<Rightarrow> u8 list \<Rightarrow> u8 list" where
  "put_parts parts m = fold (\<lambda>(off, d). overwrite (unat off) d) parts m"

lemma buf_step_trans:
  "buf_step b c s s' \<Longrightarrow> buf_step b c' s' s'' \<Longrightarrow> buf_step b c' s s''"
  unfolding buf_step_def using same_env_trans by auto

lemma write_parts:
  assumes "net_ok s" "contents s b = Some (pre, pay, post)" "ns_bufs s b = Some buf"
    "\<forall>(off, d)\<in>set parts. unat off + length d \<le> length pay"
  shows "\<exists>s'. foldM (\<lambda>(off, d) s. nb_write b (nb_data buf + off) d s) parts s = Some s'
    \<and> buf_step b (pre, put_parts parts pay, post) s s' \<and> ns_bufs s' = ns_bufs s \<and> length (put_parts parts pay) = length pay"
  using assms
proof (induction parts arbitrary: s pay)
  case Nil
  then show ?case by (simp add: put_parts_def buf_step_def)
next
  case (Cons p parts)
  obtain off d where p: "p = (off, d)" by fastforce
  have k: "unat off + length d \<le> length pay" using Cons.prems(4) p by simp
  obtain s1 where s1: "nb_write b (nb_data buf + of_nat (unat off)) d s = Some s1"
    "buf_step b (pre, overwrite (unat off) d pay, post) s s1" "ns_bufs s1 = ns_bufs s"
    by (rule nb_write_data[OF Cons.prems(1-3) k])
  have c1: "net_ok s1" "contents s1 b = Some (pre, overwrite (unat off) d pay, post)" "ns_bufs s1 b = Some buf"
    using s1(2,3) Cons.prems(3) by (simp_all add: buf_step_def)
  have l: "length (overwrite (unat off) d pay) = length pay" by (rule length_overwrite[OF k])
  have r: "\<forall>(off', d')\<in>set parts. unat off' + length d' \<le> length (overwrite (unat off) d pay)"
    using Cons.prems(4) l by simp
  obtain s2 where s2: "foldM (\<lambda>(off, d) s. nb_write b (nb_data buf + off) d s) parts s1 = Some s2"
    "buf_step b (pre, put_parts parts (overwrite (unat off) d pay), post) s1 s2" "ns_bufs s2 = ns_bufs s1"
    "length (put_parts parts (overwrite (unat off) d pay)) = length pay"
    using Cons.IH[OF c1 r] l by auto
  have "of_nat (unat off) = off" by simp
  then have w: "nb_write b (nb_data buf + off) d s = Some s1" using s1(1) by simp
  show ?case using w s2 s1(3) buf_step_trans[OF s1(2) s2(2)] by (auto simp: p put_parts_def)
qed

definition with_checksum :: "u8 list \<Rightarrow> u8 list" where
  "with_checksum m = overwrite 2 (bytes16 (checksum m)) m"

lemma with_checksum_verifies:
  assumes "m = [a, b, 0, 0] @ xs" "length xs \<le> 131000"
  shows "checksum (with_checksum m) = 0" "length (with_checksum m) = length m"
    "with_checksum m = [a, b] @ bytes16 (checksum m) @ xs"
proof -
  have z: "bytes16 0 = [0, 0]" by (simp add: bytes16_def)
  show e: "with_checksum m = [a, b] @ bytes16 (checksum m) @ xs"
    by (simp add: with_checksum_def overwrite_def assms(1))
  have "m = [a, b] @ bytes16 0 @ xs" using assms(1) z by simp
  then show "checksum (with_checksum m) = 0"
    using checksum_stored[of "[a, b]" xs] assms(2) e by (simp add: checksum_0_verify)
  show "length (with_checksum m) = length m" unfolding e by (simp add: assms(1))
qed

lemma icmp_header_bytes_length [simp]: "length (icmp_header_bytes h) = 8"
  by (simp add: icmp_header_bytes_def)

text \<open>Filling a fresh buffer.\<close>

lemma icmp_fill_ok:
  assumes ok: "net_ok s" and c: "contents s b = Some (replicate 128 0, [], replicate n 0)"
    and n: "8 \<le> n" "n \<le> 1920" and parts: "\<forall>(off, d)\<in>set parts. unat off + length d \<le> n"
  obtains s' where "icmp_fill b (of_nat n) h parts s = Some s'"
    "buf_step b (replicate 128 0, with_checksum (put_parts parts (icmp_header_bytes h @ replicate (n - 8) 0)), []) s s'"
proof -
  obtain p s1 buf where s1: "netbuf_put b (of_nat n) s = Some (p, s1)" "p \<noteq> 0"
    "buf_step b (replicate 128 0, replicate n 0, []) s s1" "ns_bufs s1 b = Some buf" "p = nb_data buf"
    by (rule put_fresh[OF ok c])
  have c1: "net_ok s1" "contents s1 b = Some (replicate 128 0, replicate n 0, [])" using s1(3) by (simp_all add: buf_step_def)
  let ?h = "icmp_header_bytes h"
  have hl: "0 + length ?h \<le> length (replicate n (0 :: u8))" using n by simp
  obtain s2 where s2: "nb_write b (nb_data buf + of_nat 0) ?h s1 = Some s2"
    "buf_step b (replicate 128 0, overwrite 0 ?h (replicate n 0), []) s1 s2" "ns_bufs s2 = ns_bufs s1"
    by (rule nb_write_data[OF c1 s1(4) hl])
  let ?m = "?h @ replicate (n - 8) 0"
  have m: "overwrite 0 ?h (replicate n 0) = ?m" by (simp add: overwrite_def)
  have c2: "net_ok s2" "contents s2 b = Some (replicate 128 0, ?m, [])" "ns_bufs s2 b = Some buf"
    using s2(2,3) s1(4) m by (simp_all add: buf_step_def)
  have ml: "length ?m = n" using n by simp
  obtain s3 where s3: "foldM (\<lambda>(off, d) s. nb_write b (nb_data buf + off) d s) parts s2 = Some s3"
    "buf_step b (replicate 128 0, put_parts parts ?m, []) s2 s3" "ns_bufs s3 = ns_bufs s2"
    "length (put_parts parts ?m) = length ?m"
    using write_parts[OF c2, of parts] parts ml by auto
  let ?m3 = "put_parts parts ?m"
  have c3: "net_ok s3" "contents s3 b = Some (replicate 128 0, ?m3, [])" "ns_bufs s3 b = Some buf"
    using s3(2,3) c2(3) by (simp_all add: buf_step_def)
  have l3: "length ?m3 = n" using s3(4) ml by simp
  have rd: "nb_read s3 b (nb_data buf + of_nat 0) n = Some ?m3"
    using nb_read_data[OF c3, of 0 n] l3 by simp
  have k: "2 + length (bytes16 (checksum ?m3)) \<le> length ?m3" using l3 n by simp
  obtain s4 where s4: "nb_write b (nb_data buf + of_nat 2) (bytes16 (checksum ?m3)) s3 = Some s4"
    "buf_step b (replicate 128 0, overwrite 2 (bytes16 (checksum ?m3)) ?m3, []) s3 s4"
    by (rule nb_write_data[OF c3 k])
  have un: "unat (of_nat n :: u32) = n" using n by (simp add: unat_of_nat_u32)
  have "icmp_fill b (of_nat n) h parts s = Some s4"
    using s1(1,5) s2(1) s3(1) rd s4(1) un by (simp add: icmp_fill_def)
  moreover have "buf_step b (replicate 128 0, with_checksum ?m3, []) s s4"
    using buf_step_trans[OF s1(3) buf_step_trans[OF s2(2) buf_step_trans[OF s3(2) s4(2)]]] by (simp add: with_checksum_def)
  ultimately show ?thesis by (rule that)
qed

lemma egress_cong:
  "is_routes s' = is_routes s \<Longrightarrow> ds_default s' = ds_default s \<Longrightarrow> ds_devs s' = ds_devs s \<Longrightarrow>
    egress dev0 dst s' = egress dev0 dst s"
  unfolding egress_def ip_route_lookup_def netdev_get_default_def by (simp only:)

lemma length_put_parts:
  "\<forall>(off, d)\<in>set parts. unat off + length d \<le> length m \<Longrightarrow> length (put_parts parts m) = length m"
  unfolding put_parts_def by (induction parts arbitrary: m) auto

lemma same_env_path:
  fixes s s' :: "'a ip_env_scheme"
  assumes "same_env s s'"
  shows "path_open dev0 dst dev hop d mac rs s' = path_open dev0 dst dev hop d mac rs s"
    "is_id_counter s' = is_id_counter s" "is_reass s' = is_reass s" "ip_env.more s' = ip_env.more s" "ns_now s' = ns_now s"
    "routes_ok s' = routes_ok s" "is_routes s' = is_routes s"
proof -
  have e: "s' = s\<lparr>ns_kmalloc := ns_kmalloc s', ns_blocks := ns_blocks s', ns_bufs := ns_bufs s'\<rparr>"
    using assms by (simp add: same_env_def)
  have eg: "egress dev0 dst s' = egress dev0 dst s"
    by (rule egress_cong, subst e, simp, subst e, simp, subst e, simp)
  show "path_open dev0 dst dev hop d mac rs s' = path_open dev0 dst dev hop d mac rs s"
    unfolding path_open_def eg same_env_cache[OF assms] lookup_cache[OF same_env_cache(1)[OF assms]] ..
  show "is_id_counter s' = is_id_counter s" "is_reass s' = is_reass s" "ip_env.more s' = ip_env.more s"
    "ns_now s' = ns_now s" "routes_ok s' = routes_ok s" "is_routes s' = is_routes s"
    by (subst e, simp add: routes_ok_def)+
qed

lemma arp_step_kept: "arp_step X s s' \<Longrightarrow> kept X s s'"
  by (rule ip_step_kept[OF ip_stepI])

text \<open>Allocating and filling the buffer of a message.\<close>

lemma icmp_build:
  fixes s :: "'a ip_env_scheme"
  assumes ok: "arp_ok s" and n: "8 \<le> n" "n \<le> 1920" and parts: "\<forall>(off, d)\<in>set parts. unat off + length d \<le> n"
    and a: "netbuf_alloc (of_nat n) s = (b, s1)" "b \<noteq> 0"
  obtains s2 where "icmp_fill b (of_nat n) h parts s1 = Some s2" "kept {} s s2" "owned b s2" "same_env s s2"
    "contents s2 b = Some (replicate 128 0, with_checksum (put_parts parts (icmp_header_bytes h @ replicate (n - 8) 0)), [])"
    "\<not> owned b s"
proof -
  have un: "unat (of_nat n :: u32) = n" using n by (simp add: unat_of_nat_u32)
  have sz: "unat (of_nat n :: u32) < 4294967168" using un n by simp
  note al = alloc_step[OF ok sz a(1)]
  have c: "contents s1 b = Some (replicate 128 0, [], replicate n 0)"
    using al(4)[OF a(2)] n un by (simp add: fresh_packet_def)
  have ok1: "arp_ok s1" using al(1) by (simp add: arp_step_def)
  obtain s2 where s2: "icmp_fill b (of_nat n) h parts s1 = Some s2"
    "buf_step b (replicate 128 0, with_checksum (put_parts parts (icmp_header_bytes h @ replicate (n - 8) 0)), []) s1 s2"
    by (rule icmp_fill_ok[OF arp_okD(2)[OF ok1] c n parts])
  have "ns_bufs s1 b \<noteq> None" using c by (auto simp: contents_def bind_eq_Some_conv)
  then have o1: "owned b s1" using a(2) al(5) by (simp add: owned_def)
  note st = buf_step_arp[OF ok1 o1 s2(2)]
  have no: "\<not> owned b s" using al(3)[OF a(2)] by (simp add: owned_def)
  have "kept {b} s s2" using kept_trans[OF arp_step_kept[OF al(1)] arp_step_kept[OF st(1)]] by simp
  then have k: "kept {} s s2" using kept_new no by blast
  have e: "same_env s s2" using same_env_trans[OF al(2)] s2(2) by (simp add: buf_step_def)
  show ?thesis by (rule that[OF s2(1) k st(2) e _ no]) (use s2(2) in \<open>simp add: buf_step_def\<close>)
qed

text \<open>Building and sending, for the senders without further state.\<close>

lemma icmp_send_step:
  fixes s :: "'a ip_env_scheme"
  assumes ok: "arp_ok s" and rt: "routes_ok s" and n: "8 \<le> n" "n \<le> 1920"
    and parts: "\<forall>(off, d)\<in>set parts. unat off + length d \<le> n"
  obtains ret s' where
    "(let (b, s1) = netbuf_alloc (of_nat n) s
      in if b = 0 then Some (-1, s1)
         else do { s2 \<leftarrow> icmp_fill b (of_nat n) h parts s1; send_or_release 0 b dst protocol s2 }) = Some (ret, s')"
    "kept {} s s'" "ret = 0 \<or> ret = -1" "ip_env.more s' = ip_env.more s" "is_reass s' = is_reass s"
    "path_open 0 dst dev hop d mac rs s \<and> n \<le> 1484 \<and> fst (netbuf_alloc (of_nat n) s) \<noteq> 0
     \<longrightarrow> ret = 0 \<and> ds_tx_ready s' = rs
       \<and> ds_wire s' = ds_wire s @ [(dev, ip_frame_bytes mac d (is_id_counter s) protocol dst
            (with_checksum (put_parts parts (icmp_header_bytes h @ replicate (n - 8) 0))))]"
proof -
  obtain b s1 where a: "netbuf_alloc (of_nat n) s = (b, s1)" by fastforce
  have un: "unat (of_nat n :: u32) = n" using n by (simp add: unat_of_nat_u32)
  have sz: "unat (of_nat n :: u32) < 4294967168" using un n by simp
  show ?thesis
  proof (cases "b = 0")
    case True
    note al = alloc_step[OF ok sz a]
    show ?thesis
      by (rule that[of "-1" s1])
        (use a True arp_step_kept[OF al(1)] same_env_path[OF al(2)] in simp_all)
  next
    case False
    let ?m = "with_checksum (put_parts parts (icmp_header_bytes h @ replicate (n - 8) 0))"
    obtain s2 where s2: "icmp_fill b (of_nat n) h parts s1 = Some s2" "kept {} s s2" "owned b s2" "same_env s s2"
      "contents s2 b = Some (replicate 128 0, ?m, [])" "\<not> owned b s"
      by (rule icmp_build[OF ok n parts a False])
    note env = same_env_path[OF s2(4)] and dv = same_env_cache[OF s2(4)]
    have rt2: "routes_ok s2" using rt env(6) by simp
    have z: "(0 :: u32) \<noteq> 0 \<longrightarrow> ds_devs s2 0 \<noteq> None" by simp
    obtain ret s3 where s3: "send_or_release 0 b dst protocol s2 = Some (ret, s3)" "kept {b} s2 s3"
      "ret = 0 \<or> ret = -1" "ip_env.more s3 = ip_env.more s2" "is_reass s3 = is_reass s2"
      "path_open 0 dst dev hop d mac rs s2 \<and> 34 \<le> length (replicate 128 (0 :: u8)) \<and> length ?m \<le> 1484
       \<longrightarrow> ret = 0 \<and> ds_tx_ready s3 = rs
         \<and> ds_wire s3 = ds_wire s2 @ [(dev, ip_frame_bytes mac d (is_id_counter s2) protocol dst ?m)]"
      by (rule send_or_release_step[OF kept_ok[OF s2(2)] s2(3,5) z rt2])
    have "kept {b} s s3" using kept_trans[OF s2(2) s3(2)] by simp
    then have k: "kept {} s s3" using kept_new s2(6) by blast
    have "length (put_parts parts (icmp_header_bytes h @ replicate (n - 8) 0)) = n"
      using length_put_parts[of parts "icmp_header_bytes h @ replicate (n - 8) 0"] parts n by simp
    then have lm: "length ?m = n" using n by (simp add: with_checksum_def)
    show ?thesis
      by (rule that[OF _ k s3(3)]) (use a False s2(1) s3(1,4,5,6) env dv lm in simp_all)
  qed
qed

lemma bytes16_le16: "bytes16 (le16 a b) = [a, b]"
proof -
  have "ucast (le16 a b) = a" unfolding le16_def by (rule bit_word_eqI) (auto simp: bit_simps)
  moreover have "ucast (drop_bit 8 (le16 a b)) = b" unfolding le16_def
    by (rule bit_word_eqI) (auto simp: bit_simps dest: bit_imp_le_length)
  ultimately show ?thesis by (simp add: bytes16_def)
qed

lemma echo_parts_put:
  assumes "length hdr = 8" "k < 4294967296" "data = Some d \<and> length d = k \<or> data = None \<and> d = replicate k 0"
  shows "put_parts (echo_parts data (of_nat k)) (hdr @ replicate k 0) = hdr @ d"
    "\<forall>(off, d)\<in>set (echo_parts data (of_nat k)). unat off + length d \<le> 8 + k"
proof -
  have z: "(0 < (of_nat k :: u32)) \<longleftrightarrow> k \<noteq> 0"
    using assms(2) by (simp add: word_less_nat_alt unat_of_nat_u32)
  show "put_parts (echo_parts data (of_nat k)) (hdr @ replicate k 0) = hdr @ d"
    using assms z by (auto simp: echo_parts_def put_parts_def overwrite_def)
  show "\<forall>(off, d)\<in>set (echo_parts data (of_nat k)). unat off + length d \<le> 8 + k"
    using assms z by (auto simp: echo_parts_def)
qed

text \<open>The message an echo sender builds.\<close>

definition echo_bytes :: "u8 \<Rightarrow> u16 \<Rightarrow> u16 \<Rightarrow> u8 list \<Rightarrow> u8 list" where
  "echo_bytes typ ident seq d = with_checksum (icmp_header_bytes (echo_header typ ident seq) @ d)"

lemma icmp_send_echo_reply_step:
  fixes s :: "'a ip_env_scheme"
  assumes ok: "arp_ok s" and rt: "routes_ok s" and k: "k \<le> 1912"
    and d: "data = Some bs \<and> length bs = k \<or> data = None \<and> bs = replicate k 0"
  obtains ret s' where "icmp_send_echo_reply dst ident seq data (of_nat k) s = Some (ret, s')"
    "kept {} s s'" "ret = 0 \<or> ret = -1" "ip_env.more s' = ip_env.more s" "is_reass s' = is_reass s"
    "path_open 0 dst dev hop dd mac rs s \<and> k \<le> 1476 \<and> fst (netbuf_alloc (of_nat (8 + k)) s) \<noteq> 0
     \<longrightarrow> ret = 0 \<and> ds_tx_ready s' = rs
       \<and> ds_wire s' = ds_wire s @ [(dev, ip_frame_bytes mac dd (is_id_counter s) IP_PROTO_ICMP dst (echo_bytes ICMP_ECHO_REPLY ident seq bs))]"
proof -
  let ?h = "echo_header ICMP_ECHO_REPLY ident seq"
  have k32: "k < 4294967296" using k by simp
  note ep = echo_parts_put[OF icmp_header_bytes_length[of ?h] k32 d]
  have n: "8 \<le> 8 + k" "8 + k \<le> 1920" using k by simp_all
  obtain ret s' where r: "(let (b, s1) = netbuf_alloc (of_nat (8 + k)) s
      in if b = 0 then Some (-1, s1)
         else do { s2 \<leftarrow> icmp_fill b (of_nat (8 + k)) ?h (echo_parts data (of_nat k)) s1; send_or_release 0 b dst IP_PROTO_ICMP s2 }) = Some (ret, s')"
    "kept {} s s'" "ret = 0 \<or> ret = -1" "ip_env.more s' = ip_env.more s" "is_reass s' = is_reass s"
    "path_open 0 dst dev hop dd mac rs s \<and> 8 + k \<le> 1484 \<and> fst (netbuf_alloc (of_nat (8 + k)) s) \<noteq> 0
     \<longrightarrow> ret = 0 \<and> ds_tx_ready s' = rs
       \<and> ds_wire s' = ds_wire s @ [(dev, ip_frame_bytes mac dd (is_id_counter s) IP_PROTO_ICMP dst
            (with_checksum (put_parts (echo_parts data (of_nat k)) (icmp_header_bytes ?h @ replicate (8 + k - 8) 0))))]"
    by (rule icmp_send_step[OF ok rt n ep(2)])
  have e8: "(of_nat (8 + k) :: u32) = 8 + of_nat k" by simp
  have "icmp_send_echo_reply dst ident seq data (of_nat k) s = Some (ret, s')"
    using r(1) unfolding icmp_send_echo_reply_def Let_def e8 .
  then show ?thesis by (rule that[OF _ r(2-5)]) (use r(6) ep(1) in \<open>simp add: echo_bytes_def\<close>)
qed

lemma icmp_send_dest_unreachable_step:
  fixes s :: "'a ip_env_scheme"
  assumes ok: "arp_ok s" and rt: "routes_ok s"
  obtains ret s' where "icmp_send_dest_unreachable dst code oh od s = Some (ret, s')"
    "kept {} s s'" "ret = 0 \<or> ret = -1" "ip_env.more s' = ip_env.more s" "is_reass s' = is_reass s"
proof -
  let ?p = "(case oh of None \<Rightarrow> [] | Some h \<Rightarrow> [(8, take 20 h)]) @ (case od of None \<Rightarrow> [] | Some d \<Rightarrow> [(28 :: u32, take 8 d)])"
  have p: "\<forall>(off, d)\<in>set ?p. unat off + length d \<le> 36" by (auto split: option.splits)
  obtain ret s' where r: "(let (b, s1) = netbuf_alloc (of_nat 36) s
      in if b = 0 then Some (-1, s1)
         else do { s2 \<leftarrow> icmp_fill b (of_nat 36) \<lparr>ic_type = ICMP_DEST_UNREACHABLE, ic_code = code, ic_checksum = 0, ic_un = (0, 0)\<rparr> ?p s1;
            send_or_release 0 b dst IP_PROTO_ICMP s2 }) = Some (ret, s')"
    "kept {} s s'" "ret = 0 \<or> ret = -1" "ip_env.more s' = ip_env.more s" "is_reass s' = is_reass s"
    by (rule icmp_send_step[OF ok rt _ _ p]) simp_all
  have e36: "(8 + (20 + 8) :: u32) = of_nat 36" by simp
  have "icmp_send_dest_unreachable dst code oh od s = Some (ret, s')"
    using r(1) unfolding icmp_send_dest_unreachable_def Let_def e36 by (simp only: prod.case)
  then show ?thesis by (rule that[OF _ r(2-5)])
qed

section \<open>State of the protocols above\<close>

text \<open>Two states that differ only in the fields of the protocols above IP.\<close>

definition low_eq :: "'a ip_env_scheme \<Rightarrow> 'a ip_env_scheme \<Rightarrow> bool" where
  "low_eq s s' \<longleftrightarrow> ns_kmalloc s' = ns_kmalloc s \<and> ns_now s' = ns_now s \<and> ns_blocks s' = ns_blocks s
     \<and> ns_bufs s' = ns_bufs s \<and> ds_devs s' = ds_devs s \<and> ds_default s' = ds_default s
     \<and> ds_tx_ready s' = ds_tx_ready s \<and> ds_wire s' = ds_wire s \<and> as_cache s' = as_cache s
     \<and> is_id_counter s' = is_id_counter s \<and> is_reass s' = is_reass s \<and> is_routes s' = is_routes s"

lemma low_eqD:
  assumes "low_eq s s'"
  shows "arp_ok s' = arp_ok s" "owned b s' = owned b s" "contents s' b = contents s b" "routes_ok s' = routes_ok s"
    "path_open dev0 dst dev hop d mac rs s' = path_open dev0 dst dev hop d mac rs s" "pend s' = pend s"
    "ns_bufs s' = ns_bufs s" "ds_wire s' = ds_wire s" "is_id_counter s' = is_id_counter s" "ds_devs s' = ds_devs s"
    "ns_now s' = ns_now s" "is_reass s' = is_reass s" "ds_tx_ready s' = ds_tx_ready s" "ds_default s' = ds_default s"
proof -
  have e: "ns_bufs s' = ns_bufs s" "ns_blocks s' = ns_blocks s" "ds_devs s' = ds_devs s" "ds_default s' = ds_default s"
    "as_cache s' = as_cache s" "is_routes s' = is_routes s" "ds_tx_ready s' = ds_tx_ready s"
    using assms by (simp_all add: low_eq_def)
  show p: "pend s' = pend s" by (simp add: pend_def pq_def e)
  show "arp_ok s' = arp_ok s" by (simp add: arp_ok_def dev_ok_def net_ok_def used_def pq_def p e)
  show "owned b s' = owned b s" by (simp add: owned_def p e)
  show "contents s' b = contents s b" by (simp add: contents_def e)
  show "routes_ok s' = routes_ok s" by (simp add: routes_ok_def e)
  show "path_open dev0 dst dev hop d mac rs s' = path_open dev0 dst dev hop d mac rs s"
    unfolding path_open_def egress_cong[OF e(6,4,3)] lookup_cache[OF e(5)] e ..
qed (use assms in \<open>simp_all add: low_eq_def\<close>)

lemma low_eq_kept:
  assumes "arp_ok s" "low_eq s s'"
  shows "kept B s s'"
proof -
  have "is_routes s' = is_routes s" using assms(2) by (simp add: low_eq_def)
  then show ?thesis using assms(1) by (simp add: kept_def low_eqD[OF assms(2)])
qed

lemma more_icmp:
  fixes s s' :: "'a icmp_env_scheme"
  assumes "ip_env.more s' = ip_env.more s"
  shows "cs_callback s' = cs_callback s" "cs_last_ping s' = cs_last_ping s" "cs_last_rtt s' = cs_last_rtt s"
    "cs_ping_result s' = cs_ping_result s" "icmp_env.more s' = icmp_env.more s"
  using assms by (cases s; cases s'; simp)+

lemma icmp_send_echo_request_step:
  fixes s :: "'a icmp_env_scheme"
  assumes ok: "arp_ok s" and rt: "routes_ok s" and k: "k \<le> 1912"
    and d: "data = Some bs \<and> length bs = k \<or> data = None \<and> bs = replicate k 0"
  obtains ret s' where "icmp_send_echo_request dst ident seq data (of_nat k) s = Some (ret, s')"
    "kept {} s s'" "ret = 0 \<or> ret = -1" "icmp_env.more s' = icmp_env.more s"
    "path_open 0 dst dev hop dd mac rs s \<and> k \<le> 1476 \<and> fst (netbuf_alloc (of_nat (8 + k)) s) \<noteq> 0
     \<longrightarrow> ret = 0 \<and> ds_tx_ready s' = rs \<and> cs_last_rtt s' = -1
       \<and> cs_last_ping s' = \<lparr>lp_id = ident, lp_seq = seq, lp_send_time = ns_now s, lp_waiting = True\<rparr>
       \<and> ds_wire s' = ds_wire s @ [(dev, ip_frame_bytes mac dd (is_id_counter s) IP_PROTO_ICMP dst (echo_bytes ICMP_ECHO_REQUEST ident seq bs))]"
proof -
  let ?h = "echo_header ICMP_ECHO_REQUEST ident seq"
  let ?p = "echo_parts data (of_nat k)"
  have k32: "k < 4294967296" using k by simp
  note ep = echo_parts_put[OF icmp_header_bytes_length[of ?h] k32 d]
  have n: "8 \<le> 8 + k" "8 + k \<le> 1920" using k by simp_all
  have e8: "(of_nat (8 + k) :: u32) = 8 + of_nat k" by simp
  obtain b s1 where a: "netbuf_alloc (of_nat (8 + k)) s = (b, s1)" by fastforce
  have un: "unat (of_nat (8 + k) :: u32) = 8 + k" using n by (simp add: unat_of_nat_u32 del: of_nat_add)
  have sz: "unat (of_nat (8 + k) :: u32) < 4294967168" using un n by simp
  show ?thesis
  proof (cases "b = 0")
    case True
    note al = alloc_step[OF ok sz a]
    have "icmp_send_echo_request dst ident seq data (of_nat k) s = Some (-1, s1)"
      using a True unfolding icmp_send_echo_request_def Let_def e8 by simp
    then show ?thesis
      by (rule that) (use a True arp_step_kept[OF al(1)] more_icmp[OF same_env_path(4)[OF al(2)]] in simp_all)
  next
    case False
    obtain s2 where s2: "icmp_fill b (of_nat (8 + k)) ?h ?p s1 = Some s2" "kept {} s s2" "owned b s2" "same_env s s2"
      "contents s2 b = Some (replicate 128 0, with_checksum (put_parts ?p (icmp_header_bytes ?h @ replicate (8 + k - 8) 0)), [])"
      "\<not> owned b s"
      by (rule icmp_build[OF ok n ep(2) a False])
    have c2: "contents s2 b = Some (replicate 128 0, echo_bytes ICMP_ECHO_REQUEST ident seq bs, [])"
      using s2(5) ep(1) by (simp add: echo_bytes_def)
    let ?lp = "\<lparr>lp_id = ident, lp_seq = seq, lp_send_time = ns_now s2, lp_waiting = True\<rparr>"
    let ?s3 = "s2\<lparr>cs_last_ping := ?lp, cs_last_rtt := -1\<rparr>"
    have low: "low_eq s2 ?s3" by (simp add: low_eq_def)
    note l3 = low_eqD[OF low] and env = same_env_path[OF s2(4)] and ch = same_env_cache[OF s2(4)]
    have z: "(0 :: u32) \<noteq> 0 \<longrightarrow> ds_devs ?s3 0 \<noteq> None" by simp
    have pre: "arp_ok ?s3" "owned b ?s3" "contents ?s3 b = Some (replicate 128 0, echo_bytes ICMP_ECHO_REQUEST ident seq bs, [])"
      "routes_ok ?s3" unfolding l3 using kept_ok[OF s2(2)] s2(3) c2 rt env(6) by simp_all
    obtain ret s4 where s4: "send_or_release 0 b dst IP_PROTO_ICMP ?s3 = Some (ret, s4)" "kept {b} ?s3 s4"
      "ret = 0 \<or> ret = -1" "ip_env.more s4 = ip_env.more ?s3" "is_reass s4 = is_reass ?s3"
      "path_open 0 dst dev hop dd mac rs ?s3 \<and> 34 \<le> length (replicate 128 (0 :: u8))
         \<and> length (echo_bytes ICMP_ECHO_REQUEST ident seq bs) \<le> 1484
       \<longrightarrow> ret = 0 \<and> ds_tx_ready s4 = rs \<and> ds_wire s4 = ds_wire ?s3
           @ [(dev, ip_frame_bytes mac dd (is_id_counter ?s3) IP_PROTO_ICMP dst (echo_bytes ICMP_ECHO_REQUEST ident seq bs))]"
      by (rule send_or_release_step[OF pre(1-3) z pre(4)])
    let ?s5 = "if ret < 0 then s4\<lparr>cs_last_ping := (cs_last_ping s4)\<lparr>lp_waiting := False\<rparr>\<rparr> else s4"
    note m4 = more_icmp[OF s4(4)] and m2 = more_icmp[OF env(4)]
    have run: "icmp_send_echo_request dst ident seq data (of_nat k) s = Some (ret, ?s5)"
      using a False s2(1) s4(1) unfolding icmp_send_echo_request_def Let_def e8 by simp
    have low5: "low_eq s4 ?s5" by (simp add: low_eq_def)
    have k4: "kept {b} s2 s4" using kept_trans[OF low_eq_kept[OF kept_ok[OF s2(2)] low, of "{}"] s4(2)] by simp
    have "kept {b} s ?s5"
      using kept_trans[OF s2(2) kept_trans1[OF k4 low_eq_kept[OF kept_ok[OF k4] low5]]] by simp
    then have k5: "kept {} s ?s5" using kept_new s2(6) by blast
    have len: "length (echo_bytes ICMP_ECHO_REQUEST ident seq bs) = 8 + k"
    proof -
      have "length bs = k" using d by auto
      then show ?thesis by (simp add: echo_bytes_def with_checksum_def)
    qed
    have po: "path_open 0 dst dev hop dd mac rs ?s3 = path_open 0 dst dev hop dd mac rs s" unfolding l3(5) env(1) ..
    have f: "ret = 0 \<and> ds_tx_ready s4 = rs \<and> ds_wire s4 = ds_wire s
           @ [(dev, ip_frame_bytes mac dd (is_id_counter s) IP_PROTO_ICMP dst (echo_bytes ICMP_ECHO_REQUEST ident seq bs))]"
      if "path_open 0 dst dev hop dd mac rs s" "k \<le> 1476"
      using s4(6) that po len env(2) ch by simp
    have m5: "icmp_env.more ?s5 = icmp_env.more s" using m4 m2 by simp
    show ?thesis
      by (rule that[OF run k5 s4(3) m5]) (use f m4 env(5) in auto)
  qed
qed

section \<open>Receiving\<close>

text \<open>The reply to an echo request: the same identifier, sequence number and data under a new type and checksum.\<close>

definition echo_reply :: "u8 list \<Rightarrow> u8 list" where
  "echo_reply req = with_checksum ([0, 0, 0, 0] @ drop 4 req)"

lemma echo_reply_bytes:
  assumes "8 \<le> length bs"
  shows "echo_bytes ICMP_ECHO_REPLY (ntohs (fst (ic_un (icmp_header_of bs)))) (ntohs (snd (ic_un (icmp_header_of bs)))) (drop 8 bs)
    = echo_reply bs"
proof -
  obtain a0 a1 a2 a3 a4 a5 a6 a7 xs where "bs = a0 # a1 # a2 # a3 # a4 # a5 # a6 # a7 # xs"
    using assms by (auto simp: numeral_nat Suc_le_length_iff)
  then show ?thesis
    by (simp add: echo_bytes_def echo_reply_def echo_header_def icmp_header_bytes_def icmp_header_of_def bytes16_le16)
      (simp add: bytes16_def)
qed

lemma icmp_input_step:
  fixes s :: "'a icmp_env_scheme"
  assumes ok: "arp_ok s" and rt: "routes_ok s" and b: "owned b s" and dv: "dev \<noteq> 0"
    and c: "contents s b = Some (pre, pay, post)" and len: "length pay \<le> 1920"
  obtains s' where "icmp_input dev b src s = Some s'" "kept {b} s s'" "ns_bufs s' b = None"
    "icmp_env.more s' = icmp_env.more s" "is_reass s' = is_reass s"
    "8 \<le> length pay \<and> checksum pay = 0 \<and> pay ! 0 = ICMP_ECHO_REQUEST \<and> path_open 0 src dev' hop dd mac rs s
       \<and> length pay \<le> 1484 \<and> fst (netbuf_alloc (of_nat (length pay)) s) \<noteq> 0
     \<longrightarrow> ds_tx_ready s' = rs
       \<and> ds_wire s' = ds_wire s @ [(dev', ip_frame_bytes mac dd (is_id_counter s) IP_PROTO_ICMP src (echo_reply pay))]"
proof -
  have nok: "net_ok s" by (rule arp_okD(2)[OF ok])
  have b0: "b \<noteq> 0" using b by (simp add: owned_def)
  obtain buf where bf: "ns_bufs s b = Some buf" "nb_len buf = of_nat (length pay)"
    using contentsD[OF nok c] by metis
  have ul: "unat (nb_len buf) = length pay" using bf(2) len by (simp add: unat_of_nat_u32)
  have short: "nb_len buf < 8 \<longleftrightarrow> length pay < 8" using ul by (simp add: word_less_nat_alt)
  have rd: "nb_read s b (nb_data buf) (unat (nb_len buf)) = Some pay"
    using nb_read_data[OF nok c bf(1), of 0 "length pay"] ul by simp
  note result = that
  have fin: thesis if r: "icmp_input dev b src s = netbuf_free b s1" and k: "kept {} s s1"
      and m: "icmp_env.more s1 = icmp_env.more s" "is_reass s1 = is_reass s"
      and w: "8 \<le> length pay \<and> checksum pay = 0 \<and> pay ! 0 = ICMP_ECHO_REQUEST \<and> path_open 0 src dev' hop dd mac rs s
       \<and> length pay \<le> 1484 \<and> fst (netbuf_alloc (of_nat (length pay)) s) \<noteq> 0
     \<longrightarrow> ds_tx_ready s1 = rs
       \<and> ds_wire s1 = ds_wire s @ [(dev', ip_frame_bytes mac dd (is_id_counter s) IP_PROTO_ICMP src (echo_reply pay))]" for s1
  proof -
    have o1: "owned b s1" using kept_owned(1)[OF k b] by simp
    obtain s2 where s2: "netbuf_free b s1 = Some s2" "kept {b} s1 s2" "arp_step {b} s1 s2" "ns_bufs s2 b = None"
      "ds_wire s2 = ds_wire s1" "ds_tx_ready s2 = ds_tx_ready s1"
      by (rule netbuf_free_kept[OF kept_ok[OF k] o1])
    have "kept {b} s s2" using kept_trans[OF k s2(2)] by simp
    then show thesis
      using result[of s2] r s2(1,4,5,6) m w more_icmp(5)[OF arp_step_ext(4)[OF s2(3)]] arp_step_ext(2)[OF s2(3)] by simp
  qed
  show ?thesis
  proof (cases "length pay < 8 \<or> checksum pay \<noteq> 0")
    case True
    then have "icmp_input dev b src s = netbuf_free b s"
      using dv b0 bf(1) short rd by (auto simp: icmp_input_def Let_def)
    then show ?thesis by (rule fin[OF _ kept_refl[OF ok]]) (use True in auto)
  next
    case False
    then have good: "8 \<le> length pay" "checksum pay = 0" by auto
    have ty: "ic_type (icmp_header_of pay) = pay ! 0" by (simp add: icmp_header_of_def)
    let ?id = "ntohs (fst (ic_un (icmp_header_of pay)))" and ?seq = "ntohs (snd (ic_un (icmp_header_of pay)))"
    consider (req) "pay ! 0 = ICMP_ECHO_REQUEST" | (hit) "pay ! 0 = ICMP_ECHO_REPLY" "lp_waiting (cs_last_ping s)"
        "lp_id (cs_last_ping s) = ?id" "lp_seq (cs_last_ping s) = ?seq"
      | (miss) "pay ! 0 \<noteq> ICMP_ECHO_REQUEST"
        "\<not> (pay ! 0 = ICMP_ECHO_REPLY \<and> lp_waiting (cs_last_ping s) \<and> lp_id (cs_last_ping s) = ?id \<and> lp_seq (cs_last_ping s) = ?seq)"
      by fastforce
    then show ?thesis
    proof cases
      case req
      let ?k = "length pay - 8"
      have dl: "nb_len buf - 8 = of_nat ?k" using bf(2) good(1) by (simp add: of_nat_diff)
      have k: "?k \<le> 1912" using len by simp
      have z: "(0 :: u32) < of_nat ?k \<longleftrightarrow> ?k \<noteq> 0" using len by (auto simp: word_less_nat_alt unat_of_nat_u32 simp del: of_nat_diff)
      let ?d = "if ?k \<noteq> 0 then Some (drop 8 pay) else None"
      have d: "?d = Some (drop 8 pay) \<and> length (drop 8 pay) = ?k \<or> ?d = None \<and> drop 8 pay = replicate ?k 0" by simp
      obtain ret s1 where s1: "icmp_send_echo_reply src ?id ?seq ?d (of_nat ?k) s = Some (ret, s1)"
        "kept {} s s1" "ret = 0 \<or> ret = -1" "ip_env.more s1 = ip_env.more s" "is_reass s1 = is_reass s"
        "path_open 0 src dev' hop dd mac rs s \<and> ?k \<le> 1476 \<and> fst (netbuf_alloc (of_nat (8 + ?k)) s) \<noteq> 0
         \<longrightarrow> ret = 0 \<and> ds_tx_ready s1 = rs
           \<and> ds_wire s1 = ds_wire s @ [(dev', ip_frame_bytes mac dd (is_id_counter s) IP_PROTO_ICMP src
                (echo_bytes ICMP_ECHO_REPLY ?id ?seq (drop 8 pay)))]"
        by (rule icmp_send_echo_reply_step[OF ok rt k d])
      have r1: "icmp_send_echo_reply src ?id ?seq (if 0 < nb_len buf - 8 then Some (drop 8 pay) else None) (nb_len buf - 8) s = Some (ret, s1)"
        using s1(1) by (simp only: dl z)
      have run: "icmp_input dev b src s = netbuf_free b s1"
        using dv b0 bf(1) short good rd req ty r1 by (simp add: icmp_input_def Let_def)
      have l8: "8 + ?k = length pay" using good(1) by simp
      show ?thesis
        by (rule fin[OF run s1(2) more_icmp(5)[OF s1(4)] s1(5)])
          (use s1(6) in \<open>auto simp: echo_reply_bytes[OF good(1)] l8 simp del: of_nat_add\<close>)
    next
      case hit
      let ?rtt = "ns_now s - lp_send_time (cs_last_ping s)"
      let ?s1 = "s\<lparr>cs_last_rtt := ?rtt, cs_last_ping := (cs_last_ping s)\<lparr>lp_waiting := False\<rparr>\<rparr>"
      let ?s2 = "case cs_callback ?s1 of None \<Rightarrow> ?s1 | Some Ping_callback \<Rightarrow> ping_callback src ?seq ?rtt True ?s1"
      have run: "icmp_input dev b src s = netbuf_free b ?s2"
        using dv b0 bf(1) short good rd hit ty by (simp add: icmp_input_def Let_def)
      have low: "low_eq s ?s2" by (auto simp: low_eq_def ping_callback_def split: option.split ping_callback_t.split)
      have more: "icmp_env.more ?s2 = icmp_env.more s" by (auto simp: ping_callback_def split: option.split ping_callback_t.split)
      show ?thesis
        by (rule fin[OF run low_eq_kept[OF ok low] more]) (use low hit(1) in \<open>simp_all add: low_eqD(12)\<close>)
    next
      case miss
      then have "icmp_input dev b src s = netbuf_free b s"
        using dv b0 bf(1) short good rd ty by (auto simp: icmp_input_def Let_def)
      then show ?thesis by (rule fin[OF _ kept_refl[OF ok]]) (use miss in auto)
    qed
  qed
qed

end
