(* ===== verification/Udp.thy ===== *)
theory Udp
  imports Icmp
begin

text \<open>
  The datagram protocol (\<^verbatim>\<open>src/src/net/udp.c\<close>).  Control blocks are objects under their addresses; the list
  through \<^verbatim>\<open>next\<close> from \<^verbatim>\<open>udp_pcbs\<close> is a list of addresses, the receive queue of a block a list of buffer
  addresses.  A receive callback is a function pointer; no code of the repository registers one, and what
  it does is the parameter \<open>recv\<close>.  The search for a free port is a loop that would not end from a start
  value outside the port range, so it is a partial function, and its result is proved to exist.
\<close>

section \<open>State\<close>

record udp_header_t =
  uh_src_port :: u16
  uh_dst_port :: u16
  uh_length :: u16
  uh_checksum :: u16

definition udp_header_of :: "u8 list \<Rightarrow> udp_header_t" where
  "udp_header_of bs = \<lparr>uh_src_port = le16 (bs ! 0) (bs ! 1), uh_dst_port = le16 (bs ! 2) (bs ! 3),
     uh_length = le16 (bs ! 4) (bs ! 5), uh_checksum = le16 (bs ! 6) (bs ! 7)\<rparr>"

definition udp_header_bytes :: "udp_header_t \<Rightarrow> u8 list" where
  "udp_header_bytes h = bytes16 (uh_src_port h) @ bytes16 (uh_dst_port h) @ bytes16 (uh_length h) @ bytes16 (uh_checksum h)"

record udp_pcb_t =
  up_local_ip :: u32
  up_local_port :: u16
  up_remote_ip :: u32
  up_remote_port :: u16
  up_recv_queue :: "u32 list"
  up_recv_queue_len :: u32
  up_recv_callback :: u32
  up_callback_arg :: u32

definition zero_udp_pcb :: udp_pcb_t where
  "zero_udp_pcb = \<lparr>up_local_ip = 0, up_local_port = 0, up_remote_ip = 0, up_remote_port = 0, up_recv_queue = [],
     up_recv_queue_len = 0, up_recv_callback = 0, up_callback_arg = 0\<rparr>"

record udp_env = icmp_env +
  us_pcbs :: "u32 list"
  us_pcb :: "u32 \<Rightarrow> udp_pcb_t option"
  us_next_ephemeral_port :: u32

abbreviation (input) UDP_EPHEMERAL_PORT_MIN :: u32 where "UDP_EPHEMERAL_PORT_MIN \<equiv> 49152"

abbreviation (input) UDP_EPHEMERAL_PORT_MAX :: u32 where "UDP_EPHEMERAL_PORT_MAX \<equiv> 65535"

abbreviation (input) IP_PROTO_UDP :: u8 where "IP_PROTO_UDP \<equiv> 17"

section \<open>Control blocks\<close>

definition upd_pcb :: "u32 \<Rightarrow> (udp_pcb_t \<Rightarrow> udp_pcb_t) \<Rightarrow> 'a udp_env_scheme \<Rightarrow> 'a udp_env_scheme option" where
  "upd_pcb p f s = do { pcb \<leftarrow> us_pcb s p; Some (s\<lparr>us_pcb := (us_pcb s)(p := Some (f pcb))\<rparr>) }"

text \<open>The score of a block for a datagram, \<open>None\<close> if it does not match.\<close>

definition udp_score :: "u32 \<Rightarrow> u16 \<Rightarrow> u32 \<Rightarrow> u16 \<Rightarrow> udp_pcb_t \<Rightarrow> int option" where
  "udp_score local_ip local_port remote_ip remote_port pcb =
     (if up_local_port pcb \<noteq> local_port
         \<or> up_local_ip pcb \<noteq> 0 \<and> up_local_ip pcb \<noteq> local_ip
         \<or> up_remote_port pcb \<noteq> 0 \<and> up_remote_port pcb \<noteq> remote_port
         \<or> up_remote_ip pcb \<noteq> 0 \<and> up_remote_ip pcb \<noteq> remote_ip
      then None
      else Some ((if up_local_ip pcb \<noteq> 0 then 1 else 0) + (if up_remote_port pcb \<noteq> 0 then 2 else 0)
                 + (if up_remote_ip pcb \<noteq> 0 then 4 else 0)))"

primrec find_best :: "(udp_pcb_t \<Rightarrow> int option) \<Rightarrow> 'a udp_env_scheme \<Rightarrow> u32 list \<Rightarrow> u32 \<times> int \<Rightarrow> (u32 \<times> int) option" where
  "find_best score s [] best = Some best"
| "find_best score s (p # ps) best = do {
     pcb \<leftarrow> us_pcb s p;
     find_best score s ps (case score pcb of None \<Rightarrow> best | Some n \<Rightarrow> if n > snd best then (p, n) else best) }"

text \<open>The address of the best match, \<open>0\<close> if there is none.\<close>

definition udp_find_pcb :: "u32 \<Rightarrow> u16 \<Rightarrow> u32 \<Rightarrow> u16 \<Rightarrow> 'a udp_env_scheme \<Rightarrow> u32 option" where
  "udp_find_pcb local_ip local_port remote_ip remote_port s =
     map_option fst (find_best (udp_score local_ip local_port remote_ip remote_port) s (us_pcbs s) (0, -1))"

definition udp_init :: "'a udp_env_scheme \<Rightarrow> 'a udp_env_scheme" where
  "udp_init s = s\<lparr>us_pcbs := [], us_next_ephemeral_port := UDP_EPHEMERAL_PORT_MIN\<rparr>"

definition udp_pcb_new :: "'a udp_env_scheme \<Rightarrow> u32 \<times> 'a udp_env_scheme" where
  "udp_pcb_new s =
     (let (p, s1) = kmalloc_next (\<lambda>x. us_pcb s x \<noteq> None) s
      in if p = 0 then (0, s1)
         else (p, s1\<lparr>us_pcb := (us_pcb s1)(p := Some zero_udp_pcb), us_pcbs := p # us_pcbs s1\<rparr>))"

definition udp_pcb_free :: "u32 \<Rightarrow> 'a udp_env_scheme \<Rightarrow> 'a udp_env_scheme option" where
  "udp_pcb_free p s =
     (if p = 0 then Some s
      else do {
        pcb \<leftarrow> us_pcb s p;
        s1 \<leftarrow> foldM netbuf_free (up_recv_queue pcb) (s\<lparr>us_pcbs := remove1 p (us_pcbs s)\<rparr>);
        Some (s1\<lparr>us_pcb := (us_pcb s1)(p := None)\<rparr>) })"

primrec port_taken :: "u32 \<Rightarrow> u32 \<Rightarrow> u16 \<Rightarrow> 'a udp_env_scheme \<Rightarrow> u32 list \<Rightarrow> bool option" where
  "port_taken p local_ip local_port s [] = Some False"
| "port_taken p local_ip local_port s (q # qs) = do {
     pcb \<leftarrow> us_pcb s q;
     if q \<noteq> p \<and> up_local_port pcb = local_port
        \<and> (up_local_ip pcb = 0 \<or> local_ip = 0 \<or> up_local_ip pcb = local_ip)
     then Some True
     else port_taken p local_ip local_port s qs }"

definition udp_bind :: "u32 \<Rightarrow> u32 \<Rightarrow> u16 \<Rightarrow> 'a udp_env_scheme \<Rightarrow> (int \<times> 'a udp_env_scheme) option" where
  "udp_bind p local_ip local_port s =
     (if p = 0 then Some (-1, s)
      else do {
        taken \<leftarrow> port_taken p local_ip local_port s (us_pcbs s);
        if taken then Some (-1, s)
        else do {
          s1 \<leftarrow> upd_pcb p (\<lambda>x. x\<lparr>up_local_ip := local_ip, up_local_port := local_port\<rparr>) s;
          Some (0, s1) } })"

partial_function (option) udp_port_loop :: "(u16 \<Rightarrow> bool) \<Rightarrow> u16 \<Rightarrow> u32 \<Rightarrow> (u16 \<times> u32) option" where
  "udp_port_loop in_use start nxt =
     (let port = ucast nxt;
          nxt1 = (if nxt + 1 > UDP_EPHEMERAL_PORT_MAX then UDP_EPHEMERAL_PORT_MIN else nxt + 1)
      in if \<not> in_use port then Some (port, nxt1)
         else if nxt1 \<noteq> ucast start then udp_port_loop in_use start nxt1
         else Some (0, nxt1))"

definition port_in_use :: "'a udp_env_scheme \<Rightarrow> u16 \<Rightarrow> bool" where
  "port_in_use s port \<longleftrightarrow> (\<exists>p\<in>set (us_pcbs s). map_option up_local_port (us_pcb s p) = Some port)"

definition udp_alloc_port :: "'a udp_env_scheme \<Rightarrow> (u16 \<times> 'a udp_env_scheme) option" where
  "udp_alloc_port s = do {
     (port, nxt) \<leftarrow> udp_port_loop (port_in_use s) (ucast (us_next_ephemeral_port s)) (us_next_ephemeral_port s);
     Some (port, s\<lparr>us_next_ephemeral_port := nxt\<rparr>) }"

text \<open>Give a block without a local port an ephemeral one; the result says whether it has one now.\<close>

definition udp_autobind :: "u32 \<Rightarrow> 'a udp_env_scheme \<Rightarrow> (bool \<times> 'a udp_env_scheme) option" where
  "udp_autobind p s = do {
     pcb \<leftarrow> us_pcb s p;
     if up_local_port pcb = 0
     then do {
       (port, s1) \<leftarrow> udp_alloc_port s;
       s2 \<leftarrow> upd_pcb p (\<lambda>x. x\<lparr>up_local_port := port\<rparr>) s1;
       Some (port \<noteq> 0, s2) }
     else Some (True, s) }"

definition udp_connect :: "u32 \<Rightarrow> u32 \<Rightarrow> u16 \<Rightarrow> 'a udp_env_scheme \<Rightarrow> (int \<times> 'a udp_env_scheme) option" where
  "udp_connect p remote_ip remote_port s =
     (if p = 0 then Some (-1, s)
      else do {
        s1 \<leftarrow> upd_pcb p (\<lambda>x. x\<lparr>up_remote_ip := remote_ip, up_remote_port := remote_port\<rparr>) s;
        (ok, s2) \<leftarrow> udp_autobind p s1;
        Some (if ok then 0 else -1, s2) })"

definition udp_disconnect :: "u32 \<Rightarrow> 'a udp_env_scheme \<Rightarrow> 'a udp_env_scheme option" where
  "udp_disconnect p s = (if p = 0 then Some s else upd_pcb p (\<lambda>x. x\<lparr>up_remote_ip := 0, up_remote_port := 0\<rparr>) s)"

definition udp_recv :: "u32 \<Rightarrow> u32 \<Rightarrow> u32 \<Rightarrow> 'a udp_env_scheme \<Rightarrow> 'a udp_env_scheme option" where
  "udp_recv p callback arg s =
     (if p = 0 then Some s else upd_pcb p (\<lambda>x. x\<lparr>up_recv_callback := callback, up_callback_arg := arg\<rparr>) s)"

definition udp_recv_poll :: "u32 \<Rightarrow> 'a udp_env_scheme \<Rightarrow> (u32 \<times> 'a udp_env_scheme) option" where
  "udp_recv_poll p s =
     (if p = 0 then Some (0, s)
      else do {
        pcb \<leftarrow> us_pcb s p;
        case up_recv_queue pcb of
          [] \<Rightarrow> Some (0, s)
        | b # bs \<Rightarrow> do {
            s1 \<leftarrow> upd_pcb p (\<lambda>x. x\<lparr>up_recv_queue := bs, up_recv_queue_len := up_recv_queue_len x - 1\<rparr>) s;
            Some (b, s1) } })"

definition udp_has_data :: "u32 \<Rightarrow> 'a udp_env_scheme \<Rightarrow> bool option" where
  "udp_has_data p s = (if p = 0 then Some False else do { pcb \<leftarrow> us_pcb s p; Some (up_recv_queue pcb \<noteq> []) })"

section \<open>Datagrams\<close>

definition udp_pseudo_header :: "u32 \<Rightarrow> u32 \<Rightarrow> u16 \<Rightarrow> u8 list" where
  "udp_pseudo_header src_ip dst_ip len = bytes32 src_ip @ bytes32 dst_ip @ [0, IP_PROTO_UDP] @ bytes16 (htons len)"

definition udp_checksum :: "u32 \<Rightarrow> u32 \<Rightarrow> u8 list \<Rightarrow> u16 \<Rightarrow> u16" where
  "udp_checksum src_ip dst_ip udp len =
     checksum_finish (checksum_partial (checksum_partial 0 (udp_pseudo_header src_ip dst_ip len)) udp)"

definition udp_output :: "u16 \<Rightarrow> u32 \<Rightarrow> u16 \<Rightarrow> u8 list option \<Rightarrow> u32 \<Rightarrow> 'a udp_env_scheme \<Rightarrow> (int \<times> 'a udp_env_scheme) option" where
  "udp_output src_port dst_ip dst_port data len s =
     (let dev = netdev_get_default s
      in if dev = 0 then Some (-1, s)
         else let udp_len = 8 + len;
                  (b, s1) = netbuf_alloc udp_len s
              in if b = 0 then Some (-1, s1)
                 else do {
                   d \<leftarrow> ds_devs s1 dev;
                   (pkt, s2) \<leftarrow> netbuf_put b udp_len s1;
                   s3 \<leftarrow> nb_write b pkt (udp_header_bytes \<lparr>uh_src_port = htons src_port, uh_dst_port = htons dst_port,
                          uh_length = htons (ucast udp_len), uh_checksum = 0\<rparr>) s2;
                   s4 \<leftarrow> (case data of None \<Rightarrow> Some s3 | Some bs \<Rightarrow> if len > 0 then nb_write b (pkt + 8) bs s3 else Some s3);
                   bs \<leftarrow> nb_read s4 b pkt (unat (ucast udp_len :: u16));
                   s5 \<leftarrow> nb_write b (pkt + 6) (bytes16 (udp_checksum (nd_ip_addr d) dst_ip bs (ucast udp_len))) s4;
                   send_or_release dev b dst_ip IP_PROTO_UDP s5 })"

definition udp_sendto :: "u32 \<Rightarrow> u32 \<Rightarrow> u32 \<Rightarrow> u16 \<Rightarrow> 'a udp_env_scheme \<Rightarrow> (int \<times> 'a udp_env_scheme) option" where
  "udp_sendto p b dst_ip dst_port s =
     (if p = 0 \<or> b = 0 then Some (-1, s)
      else let dev = netdev_get_default s
           in if dev = 0 then Some (-1, s)
              else do {
                (ok, s1) \<leftarrow> udp_autobind p s;
                if \<not> ok then Some (-1, s1)
                else do {
                  (header_ptr, s2) \<leftarrow> netbuf_push b 8 s1;
                  if header_ptr = 0 then Some (-1, s2)
                  else do {
                    pcb \<leftarrow> us_pcb s2 p;
                    d \<leftarrow> ds_devs s2 dev;
                    buf \<leftarrow> ns_bufs s2 b;
                    let udp_len = (ucast (nb_len buf) :: u16);
                    s3 \<leftarrow> nb_write b (nb_data buf) (udp_header_bytes \<lparr>uh_src_port = htons (up_local_port pcb),
                           uh_dst_port = htons dst_port, uh_length = htons udp_len, uh_checksum = 0\<rparr>) s2;
                    let src_ip = (if up_local_ip pcb \<noteq> 0 then up_local_ip pcb else nd_ip_addr d);
                    bs \<leftarrow> nb_read s3 b (nb_data buf) (unat udp_len);
                    s4 \<leftarrow> nb_write b (nb_data buf + 6) (bytes16 (udp_checksum src_ip dst_ip bs udp_len)) s3;
                    ip_output dev b dst_ip IP_PROTO_UDP s4 } } })"

definition udp_send :: "u32 \<Rightarrow> u32 \<Rightarrow> 'a udp_env_scheme \<Rightarrow> (int \<times> 'a udp_env_scheme) option" where
  "udp_send p b s =
     (if p = 0 \<or> b = 0 then Some (-1, s)
      else do {
        pcb \<leftarrow> us_pcb s p;
        if up_remote_ip pcb = 0 \<or> up_remote_port pcb = 0 then Some (-1, s)
        else udp_sendto p b (up_remote_ip pcb) (up_remote_port pcb) s })"

text \<open>The check of the checksum: it is cleared in the buffer, computed, and put back.  The result says
  whether the datagram is accepted.\<close>

definition udp_verify :: "u32 \<Rightarrow> u32 \<Rightarrow> u32 \<Rightarrow> u32 \<Rightarrow> u16 \<Rightarrow> u16 \<Rightarrow> 'a nb_state_scheme \<Rightarrow> (bool \<times> 'a nb_state_scheme) option" where
  "udp_verify src_ip dst_ip b udp udp_len orig_checksum s =
     (if orig_checksum = 0 then Some (True, s)
      else do {
        s1 \<leftarrow> nb_write b (udp + 6) (bytes16 0) s;
        bs \<leftarrow> nb_read s1 b udp (unat udp_len);
        if udp_checksum src_ip dst_ip bs udp_len \<noteq> orig_checksum then Some (False, s1)
        else do {
          s2 \<leftarrow> nb_write b (udp + 6) (bytes16 orig_checksum) s1;
          Some (True, s2) } })"

definition udp_input ::
  "(u32 \<Rightarrow> u32 \<Rightarrow> u32 \<Rightarrow> u32 \<Rightarrow> u16 \<Rightarrow> 'a udp_env_scheme \<Rightarrow> 'a udp_env_scheme option)
    \<Rightarrow> u32 \<Rightarrow> u32 \<Rightarrow> u32 \<Rightarrow> u32 \<Rightarrow> 'a udp_env_scheme \<Rightarrow> 'a udp_env_scheme option" where
  "udp_input recv dev b src_ip dst_ip s =
     (if dev = 0 \<or> b = 0 then Some s
      else do {
        buf \<leftarrow> ns_bufs s b;
        if nb_len buf < 8 then netbuf_free b s
        else do {
          s1 \<leftarrow> upd_buf b (\<lambda>x. x\<lparr>nb_transport_header := nb_data x\<rparr>) s;
          hb \<leftarrow> nb_read s1 b (nb_data buf) 8;
          let udp = udp_header_of hb;
          let src_port = ntohs (uh_src_port udp);
          let dst_port = ntohs (uh_dst_port udp);
          let udp_len = ntohs (uh_length udp);
          if udp_len < 8 \<or> ucast udp_len > nb_len buf then netbuf_free b s1
          else do {
            (good, s2) \<leftarrow> udp_verify src_ip dst_ip b (nb_data buf) udp_len (uh_checksum udp) s1;
            if \<not> good then netbuf_free b s2
            else do {
              p \<leftarrow> udp_find_pcb dst_ip dst_port src_ip src_port s2;
              if p \<noteq> 0
              then do {
                (_, s3) \<leftarrow> netbuf_pull b 8 s2;
                s4 \<leftarrow> upd_buf b (\<lambda>x. x\<lparr>nb_src_ip := Some src_ip, nb_src_port := Some src_port\<rparr>) s3;
                pcb \<leftarrow> us_pcb s4 p;
                if up_recv_callback pcb \<noteq> 0 then recv (up_recv_callback pcb) p b src_ip src_port s4
                else upd_pcb p (\<lambda>x. x\<lparr>up_recv_queue := up_recv_queue x @ [b],
                                     up_recv_queue_len := up_recv_queue_len x + 1\<rparr>) s4 }
              else do {
                orig_ip \<leftarrow> (if nb_network_header buf = 0 then Some None
                            else map_option Some (nb_read s2 b (nb_network_header buf) 20));
                ub \<leftarrow> nb_read s2 b (nb_data buf) 8;
                (_, s3) \<leftarrow> icmp_send_dest_unreachable src_ip ICMP_PORT_UNREACHABLE orig_ip (Some ub) s2;
                netbuf_free b s3 } } } } })"

section \<open>Ephemeral ports\<close>

text \<open>The ephemeral port number \<open>i\<close> of 16384, counted cyclically.\<close>

definition eport :: "nat \<Rightarrow> u16" where
  "eport i = of_nat (49152 + i mod 16384)"

lemma unat_eport: "unat (eport i) = 49152 + i mod 16384"
  unfolding eport_def unat_of_nat by simp

lemma unat_port32: "i < 16384 \<Longrightarrow> unat (of_nat (49152 + i) :: u32) = 49152 + i"
  unfolding unat_of_nat by simp

lemma port_loop_step:
  assumes "i < 16384" "j < 16384"
  shows "udp_port_loop f (of_nat (49152 + j)) (of_nat (49152 + i)) =
    (if \<not> f (eport i) then Some (eport i, of_nat (49152 + Suc i mod 16384))
     else if Suc i mod 16384 \<noteq> j then udp_port_loop f (of_nat (49152 + j)) (of_nat (49152 + Suc i mod 16384))
     else Some (0, of_nat (49152 + Suc i mod 16384)))"
proof -
  let ?n = "of_nat (49152 + i) :: u32" and ?i1 = "Suc i mod 16384"
  have u: "unat ?n = 49152 + i" by (rule unat_port32[OF assms(1)])
  have port: "ucast ?n = eport i"
    unfolding word_unat_eq_iff unat_eport using u assms(1) by (simp add: unsigned_ucast_eq take_bit_eq_mod)
  have u1: "unat (?n + 1) = 49153 + i" using u assms(1) by (subst unat_add_no_wrap) simp_all
  have gt: "?n + 1 > 65535 \<longleftrightarrow> i = 16383" using u1 assms(1) by (auto simp: word_less_nat_alt)
  have nxt: "(if ?n + 1 > 65535 then 49152 else ?n + 1) = of_nat (49152 + ?i1)"
    unfolding gt using assms(1) by (cases "i = 16383") (simp_all add: algebra_simps)
  have i1: "?i1 < 16384" by simp
  have uj: "unat (ucast (of_nat (49152 + j) :: u16) :: u32) = 49152 + j"
    unfolding unat_ucast_u16 unat_of_nat using assms(2) by simp
  have st: "(of_nat (49152 + ?i1) :: u32) \<noteq> ucast (of_nat (49152 + j) :: u16) \<longleftrightarrow> ?i1 \<noteq> j"
    unfolding word_unat_eq_iff uj unat_port32[OF i1] by simp
  show ?thesis by (subst udp_port_loop.simps) (simp only: Let_def port nxt st)
qed

lemma port_loop_result:
  assumes "i < 16384" "j < 16384"
  shows "\<exists>port n. udp_port_loop f (of_nat (49152 + j)) (of_nat (49152 + i)) = Some (port, of_nat (49152 + n)) \<and> n < 16384
    \<and> (port \<noteq> 0 \<and> \<not> f port \<and> 49152 \<le> unat port \<or> port = 0 \<and> (\<forall>m\<le>(j + 16383 - i) mod 16384. f (eport (i + m))))"
  using assms(1)
proof (induction "(j + 16383 - i) mod 16384" arbitrary: i rule: less_induct)
  case less
  let ?k = "(j + 16383 - i) mod 16384" and ?i1 = "Suc i mod 16384"
  have i1: "?i1 < 16384" by simp
  have ne: "eport i \<noteq> 0" using unat_eport[of i] by auto
  note step = port_loop_step[OF less.prems assms(2), of f]
  consider "\<not> f (eport i)" | (last) "f (eport i)" "?i1 = j" | (more) "f (eport i)" "?i1 \<noteq> j" by blast
  then show ?case
  proof cases
    case 1
    then show ?thesis using ne i1 unat_eport[of i] by (intro exI[of _ "eport i"] exI[of _ ?i1]) (simp add: step del: of_nat_add)
  next
    case last
    have "?k = 0" using last(2) less.prems by (cases "i = 16383") auto
    then show ?thesis using last i1 by (intro exI[of _ 0] exI[of _ ?i1]) (simp add: step del: of_nat_add)
  next
    case more
    have k: "?k = Suc ((j + 16383 - ?i1) mod 16384)"
    proof (cases "i = 16383")
      case True
      then obtain j' where j': "j = Suc j'" using more(2) by (cases j) auto
      have "(j' + 16384) mod 16384 = j'" using assms(2) j' by simp
      then show ?thesis using True assms(2) j' by simp
    next
      case False
      then have "?i1 = Suc i" using less.prems by simp
      moreover have "j + 16383 - i = Suc (j + 16383 - Suc i)" using less.prems False by simp
      moreover have "Suc ((j + 16383 - Suc i) mod 16384) \<noteq> 16384"
        using more(2) assms(2) less.prems False \<open>?i1 = Suc i\<close> by (cases "j + 16383 - Suc i < 16384") (auto simp: mod_if)
      ultimately show ?thesis by (simp add: mod_Suc)
    qed
    then obtain port n where p: "udp_port_loop f (of_nat (49152 + j)) (of_nat (49152 + ?i1)) = Some (port, of_nat (49152 + n))"
      "n < 16384" "port \<noteq> 0 \<and> \<not> f port \<and> 49152 \<le> unat port \<or> port = 0 \<and> (\<forall>m\<le>(j + 16383 - ?i1) mod 16384. f (eport (?i1 + m)))"
      using less.hyps[OF _ i1] by auto
    have "f (eport (i + m))" if "port = 0" "m \<le> ?k" for m
    proof (cases m)
      case 0
      then show ?thesis using more(1) by simp
    next
      case (Suc m')
      then have "f (eport (?i1 + m'))" using p(3) that k by auto
      moreover have "eport (?i1 + m') = eport (i + m)" unfolding eport_def Suc by (simp add: mod_add_left_eq)
      ultimately show ?thesis by simp
    qed
    then show ?thesis using p more by (intro exI[of _ port] exI[of _ n]) (auto simp: step simp del: of_nat_add)
  qed
qed

lemma alloc_port_result:
  assumes "49152 \<le> us_next_ephemeral_port s" "us_next_ephemeral_port s \<le> 65535"
  obtains port n where "udp_alloc_port s = Some (port, s\<lparr>us_next_ephemeral_port := n\<rparr>)" "49152 \<le> n" "n \<le> 65535"
    "port \<noteq> 0 \<and> \<not> port_in_use s port \<and> 49152 \<le> port \<or> port = 0 \<and> (\<forall>m. port_in_use s (eport m))"
proof -
  define i where "i = unat (us_next_ephemeral_port s) - 49152"
  have i: "i < 16384" "us_next_ephemeral_port s = of_nat (49152 + i)"
    using assms unfolding i_def by (auto simp: word_le_nat_alt)
  have u: "ucast (us_next_ephemeral_port s) = (of_nat (49152 + i) :: u16)"
    unfolding word_unat_eq_iff unsigned_ucast_eq i(2) unat_port32[OF i(1)] unat_of_nat using i(1)
    by (simp add: take_bit_eq_mod)
  obtain port n where p: "udp_port_loop (port_in_use s) (of_nat (49152 + i)) (of_nat (49152 + i)) = Some (port, of_nat (49152 + n))"
    "n < 16384" "port \<noteq> 0 \<and> \<not> port_in_use s port \<and> 49152 \<le> unat port
       \<or> port = 0 \<and> (\<forall>m\<le>(i + 16383 - i) mod 16384. port_in_use s (eport (i + m)))"
    using port_loop_result[OF i(1) i(1)] by blast
  have run: "udp_alloc_port s = Some (port, s\<lparr>us_next_ephemeral_port := of_nat (49152 + n)\<rparr>)"
    using p(1) unfolding u[symmetric] i(2)[symmetric] udp_alloc_port_def by (simp del: of_nat_add)
  have r: "49152 \<le> (of_nat (49152 + n) :: u32)" "(of_nat (49152 + n) :: u32) \<le> 65535"
    unfolding word_le_nat_alt unat_port32[OF p(2)] using p(2) by simp_all
  have "port_in_use s (eport m)" if "port = 0" for m
  proof -
    let ?m = "(m mod 16384 + 16384 - i) mod 16384"
    have "i + (m mod 16384 + 16384 - i) = m mod 16384 + 16384" using i(1) by simp
    then have "(i + ?m) mod 16384 = (m mod 16384 + 16384) mod 16384" by (simp only: mod_add_right_eq)
    then have "(i + ?m) mod 16384 = m mod 16384" by (simp only: mod_add_self2 mod_mod_trivial)
    then have "eport (i + ?m) = eport m" by (simp add: eport_def)
    moreover have "?m \<le> (i + 16383 - i) mod 16384" by simp
    ultimately show ?thesis using p(3) that by metis
  qed
  then show ?thesis using that[OF run r] p(3) by (auto simp: word_le_nat_alt)
qed

text \<open>
  With the port counter in the ephemeral range the search for a port ends.  It returns a port of the
  range 49152 to 65535 that no control block uses, or 0, and 0 only if every one of the 16384 ports is in
  use; only the counter changes, and it stays in the range.
\<close>

theorem udp_alloc_port_correct:
  assumes "49152 \<le> us_next_ephemeral_port s" "us_next_ephemeral_port s \<le> 65535"
  shows "\<exists>port n. udp_alloc_port s = Some (port, s\<lparr>us_next_ephemeral_port := n\<rparr>) \<and> 49152 \<le> n \<and> n \<le> 65535
    \<and> (if port \<noteq> 0 then 49152 \<le> port \<and> \<not> port_in_use s port else (\<forall>p \<ge> 49152. port_in_use s p))"
proof -
  obtain port n where r: "udp_alloc_port s = Some (port, s\<lparr>us_next_ephemeral_port := n\<rparr>)" "49152 \<le> n" "n \<le> 65535"
    "port \<noteq> 0 \<and> \<not> port_in_use s port \<and> 49152 \<le> port \<or> port = 0 \<and> (\<forall>m. port_in_use s (eport m))"
    by (rule alloc_port_result[OF assms])
  have "port_in_use s q" if "port = 0" "49152 \<le> q" for q
  proof -
    have "eport (unat q - 49152) = q" unfolding word_unat_eq_iff unat_eport
      using that(2) unat_le16_bound[of q] by (simp add: word_le_nat_alt)
    then show ?thesis using r(4) that(1) by metis
  qed
  then show ?thesis using r by (intro exI conjI) auto
qed

section \<open>Invariant\<close>

definition queue_of :: "'a udp_env_scheme \<Rightarrow> u32 \<Rightarrow> u32 list" where
  "queue_of s p = (case us_pcb s p of None \<Rightarrow> [] | Some pcb \<Rightarrow> up_recv_queue pcb)"

definition queued :: "'a udp_env_scheme \<Rightarrow> u32 set" where
  "queued s = (\<Union>p. set (queue_of s p))"

definition udp_ok :: "'a udp_env_scheme \<Rightarrow> bool" where
  "udp_ok s \<longleftrightarrow> arp_ok s \<and> routes_ok s \<and> 49152 \<le> us_next_ephemeral_port s \<and> us_next_ephemeral_port s \<le> 65535
     \<and> distinct (us_pcbs s) \<and> set (us_pcbs s) = dom (us_pcb s) \<and> us_pcb s 0 = None
     \<and> (\<forall>p pcb. us_pcb s p = Some pcb \<longrightarrow> up_recv_queue_len pcb = of_nat (length (up_recv_queue pcb)))
     \<and> (\<forall>p. distinct (queue_of s p)) \<and> (\<forall>p q. p \<noteq> q \<longrightarrow> set (queue_of s p) \<inter> set (queue_of s q) = {})
     \<and> (\<forall>b\<in>queued s. owned b s)"

lemma udp_okD:
  assumes "udp_ok s"
  shows "arp_ok s" "routes_ok s" "set (us_pcbs s) = dom (us_pcb s)" "us_pcb s 0 = None"
    "49152 \<le> us_next_ephemeral_port s" "us_next_ephemeral_port s \<le> 65535" "distinct (us_pcbs s)"
    "b \<in> queued s \<Longrightarrow> owned b s" "distinct (queue_of s p)" "p \<noteq> q \<Longrightarrow> set (queue_of s p) \<inter> set (queue_of s q) = {}"
  using assms unfolding udp_ok_def by blast+

text \<open>A buffer in the hands of a caller: owned, and in no receive queue.\<close>

definition held :: "u32 \<Rightarrow> 'a udp_env_scheme \<Rightarrow> bool" where
  "held b s \<longleftrightarrow> owned b s \<and> b \<notin> queued s"

lemma more_udp:
  fixes s s' :: "'a udp_env_scheme"
  assumes "icmp_env.more s' = icmp_env.more s"
  shows "us_pcbs s' = us_pcbs s" "us_pcb s' = us_pcb s" "us_next_ephemeral_port s' = us_next_ephemeral_port s"
    "udp_env.more s' = udp_env.more s"
  using assms by (cases s; cases s'; simp)+

lemma queued_same: "us_pcb s' = us_pcb s \<Longrightarrow> queued s' = queued s" "us_pcb s' = us_pcb s \<Longrightarrow> queue_of s' = queue_of s"
  by (simp_all add: queued_def queue_of_def fun_eq_iff)

text \<open>What an operation of the layers below keeps of the invariant.\<close>

lemma udp_ok_kept:
  assumes ok: "udp_ok s" and k: "kept B s s'" and m: "icmp_env.more s' = icmp_env.more s" and B: "B \<inter> queued s = {}"
  shows "udp_ok s'" "queued s' = queued s"
proof -
  note mu = more_udp[OF m]
  note q = queued_same[OF mu(2)]
  have "\<forall>b\<in>queued s. owned b s'"
    using kept_owned(1)[OF k udp_okD(8)[OF ok]] B by blast
  then show "udp_ok s'"
    using ok kept_ok[OF k] kept_routes[OF k] by (simp add: udp_ok_def q mu)
  show "queued s' = queued s" by (rule q(1))
qed

lemma held_kept:
  assumes "kept B s s'" "icmp_env.more s' = icmp_env.more s" "held b s" "b \<notin> B"
  shows "held b s'"
  using assms kept_owned(1)[OF assms(1)] queued_same(1)[OF more_udp(2)[OF assms(2)]] by (simp add: held_def)

text \<open>A change of the fields of the datagram layer that keeps the lower state.\<close>

lemma udp_upd_pcb:
  assumes ok: "udp_ok s" and p: "us_pcb s p = Some pcb"
    and f: "up_recv_queue (f pcb) = up_recv_queue pcb" "up_recv_queue_len (f pcb) = up_recv_queue_len pcb"
  obtains s' where "upd_pcb p f s = Some s'" "s' = s\<lparr>us_pcb := (us_pcb s)(p := Some (f pcb))\<rparr>" "udp_ok s'" "low_eq s s'"
    "queued s' = queued s"
proof -
  let ?s = "s\<lparr>us_pcb := (us_pcb s)(p := Some (f pcb))\<rparr>"
  have q: "queue_of ?s = queue_of s" using p f(1) by (auto simp: queue_of_def fun_eq_iff)
  then have qd: "queued ?s = queued s" by (simp add: queued_def)
  have low: "low_eq s ?s" by (simp add: low_eq_def)
  have d: "dom (us_pcb ?s) = dom (us_pcb s)" using p by auto
  have p0: "p \<noteq> 0" using p udp_okD(4)[OF ok] by auto
  have "udp_ok ?s"
    using ok p f(2) p0 unfolding udp_ok_def q qd low_eqD[OF low] d by (auto simp: q f(1))
  moreover have "upd_pcb p f s = Some ?s" using p by (simp add: upd_pcb_def)
  ultimately show ?thesis using that low qd by blast
qed

section \<open>Steps\<close>

lemma udp_okI:
  assumes "arp_ok s" "routes_ok s" "49152 \<le> us_next_ephemeral_port s" "us_next_ephemeral_port s \<le> 65535"
    "distinct (us_pcbs s)" "set (us_pcbs s) = dom (us_pcb s)" "us_pcb s 0 = None"
    "\<And>p pcb. us_pcb s p = Some pcb \<Longrightarrow> up_recv_queue_len pcb = of_nat (length (up_recv_queue pcb))"
    "\<And>p. distinct (queue_of s p)" "\<And>p q. p \<noteq> q \<Longrightarrow> set (queue_of s p) \<inter> set (queue_of s q) = {}"
    "\<And>b. b \<in> queued s \<Longrightarrow> owned b s"
  shows "udp_ok s"
  unfolding udp_ok_def using assms by auto

lemma kmalloc_keep:
  "low_eq (s :: 'a ip_env_scheme) (s'\<lparr>ns_kmalloc := ns_kmalloc s\<rparr>) \<Longrightarrow>
    arp_ok s' = arp_ok s \<and> owned b s' = owned b s \<and> contents s' b = contents s b \<and> routes_ok s' = routes_ok s"
proof -
  assume "low_eq s (s'\<lparr>ns_kmalloc := ns_kmalloc s\<rparr>)"
  note l = low_eqD[OF this]
  have "pend (s'\<lparr>ns_kmalloc := k\<rparr>) = pend s'" for k by (simp add: pend_def pq_def)
  then show ?thesis using l(1,2,4) l(3)[of b]
    by (simp add: arp_ok_def dev_ok_def net_ok_def used_def pq_def owned_def contents_def routes_ok_def)
qed

lemma kmalloc_next_state:
  "kmalloc_next live s = (a, s') \<Longrightarrow> (\<exists>ks. s' = s\<lparr>ns_kmalloc := ks\<rparr>) \<and> (a \<noteq> 0 \<longrightarrow> \<not> live a)"
  by (cases "ns_kmalloc s") (auto simp: kmalloc_next_def intro: exI[of _ "ns_kmalloc s"] split: if_splits)

lemma udp_pcb_new_step:
  assumes ok: "udp_ok s"
  obtains p s' where "udp_pcb_new s = (p, s')" "udp_ok s'" "queued s' = queued s"
    "p \<noteq> 0 \<longrightarrow> us_pcb s' p = Some zero_udp_pcb \<and> us_pcb s p = None"
proof -
  obtain p s1 where k: "kmalloc_next (\<lambda>x. us_pcb s x \<noteq> None) s = (p, s1)" by fastforce
  obtain ks where s1: "s1 = s\<lparr>ns_kmalloc := ks\<rparr>" "p \<noteq> 0 \<longrightarrow> us_pcb s p = None"
    using kmalloc_next_state[OF k] by auto
  let ?s' = "if p = 0 then s1 else s1\<lparr>us_pcb := (us_pcb s1)(p := Some zero_udp_pcb), us_pcbs := p # us_pcbs s1\<rparr>"
  have run: "udp_pcb_new s = (p, ?s')" using k by (simp add: udp_pcb_new_def)
  have u1: "us_pcb s1 = us_pcb s" "us_pcbs s1 = us_pcbs s" "us_next_ephemeral_port s1 = us_next_ephemeral_port s"
    by (simp_all add: s1(1))
  have low: "low_eq s (?s'\<lparr>ns_kmalloc := ns_kmalloc s\<rparr>)" by (simp add: s1(1) low_eq_def)
  note kk = kmalloc_keep[OF low]
  have q: "queue_of ?s' = queue_of s"
    using s1(2) u1 by (auto simp: queue_of_def fun_eq_iff zero_udp_pcb_def)
  then have qd: "queued ?s' = queued s" by (simp add: queued_def)
  have "udp_ok ?s'"
  proof (rule udp_okI)
    show "set (us_pcbs ?s') = dom (us_pcb ?s')" using udp_okD(3)[OF ok] u1 by auto
    show "distinct (us_pcbs ?s')" using udp_okD(3,7)[OF ok] u1 s1(2) by auto
    show "up_recv_queue_len pcb = of_nat (length (up_recv_queue pcb))" if "us_pcb ?s' x = Some pcb" for x pcb
      using that ok u1 by (auto simp: udp_ok_def zero_udp_pcb_def split: if_splits)
    show "owned b ?s'" if "b \<in> queued ?s'" for b using that udp_okD(8)[OF ok] kk unfolding qd by blast
  qed (use kk udp_okD[OF ok] u1 q in auto)
  then show ?thesis using that[OF run _ qd] s1(2) by simp
qed

lemma free_queue:
  fixes s :: "'a ip_env_scheme"
  assumes "arp_ok s" "distinct bs" "\<forall>b\<in>set bs. owned b s"
  shows "\<exists>s'. foldM netbuf_free bs s = Some s' \<and> kept (set bs) s s' \<and> ip_env.more s' = ip_env.more s"
  using assms
proof (induction bs arbitrary: s)
  case Nil
  then show ?case by (simp add: kept_refl)
next
  case (Cons b bs)
  have b: "owned b s" using Cons.prems(3) by simp
  obtain s1 where s1: "netbuf_free b s = Some s1" "kept {b} s s1" "arp_step {b} s s1" "ns_bufs s1 b = None"
    by (rule netbuf_free_kept[OF Cons.prems(1) b])
  have o1: "\<forall>b'\<in>set bs. owned b' s1" using kept_owned(1)[OF s1(2)] Cons.prems(2,3) by auto
  obtain s2 where s2: "foldM netbuf_free bs s1 = Some s2" "kept (set bs) s1 s2" "ip_env.more s2 = ip_env.more s1"
    using Cons.IH[OF kept_ok[OF s1(2)] _ o1] Cons.prems(2) by auto
  have "kept (set (b # bs)) s s2" using kept_trans[OF s1(2) s2(2)] by simp
  then show ?case using s1(1) s2(1,3) arp_step_ext(4)[OF s1(3)] by simp
qed

lemma udp_pcb_free_step:
  assumes ok: "udp_ok s" and p: "p = 0 \<or> us_pcb s p \<noteq> None"
  obtains s' where "udp_pcb_free p s = Some s'" "udp_ok s'" "queued s' = queued s - set (queue_of s p)"
    "kept (set (queue_of s p)) s s'"
proof (cases "p = 0")
  case True
  then show ?thesis using that[of s] ok kept_refl[OF udp_okD(1)[OF ok]] udp_okD(4)[OF ok]
    by (simp add: udp_pcb_free_def queue_of_def)
next
  case False
  then obtain pcb where pcb: "us_pcb s p = Some pcb" using p by blast
  have qp: "queue_of s p = up_recv_queue pcb" using pcb by (simp add: queue_of_def)
  let ?s0 = "s\<lparr>us_pcbs := remove1 p (us_pcbs s)\<rparr>"
  have low0: "low_eq s ?s0" by (simp add: low_eq_def)
  have own: "\<forall>b\<in>set (queue_of s p). owned b ?s0"
    using udp_okD(8)[OF ok] unfolding low_eqD[OF low0] queued_def by blast
  obtain s1 where s1: "foldM netbuf_free (queue_of s p) ?s0 = Some s1" "kept (set (queue_of s p)) ?s0 s1"
    "ip_env.more s1 = ip_env.more ?s0"
    using free_queue[OF _ udp_okD(9)[OF ok] own] udp_okD(1)[OF ok] unfolding low_eqD[OF low0] by auto
  note mu = more_udp[OF more_icmp(5)[OF s1(3)]]
  let ?s2 = "s1\<lparr>us_pcb := (us_pcb s1)(p := None)\<rparr>"
  have low2: "low_eq s1 ?s2" by (simp add: low_eq_def)
  have k: "kept (set (queue_of s p)) s ?s2"
    using kept_trans1[OF low_eq_kept[OF udp_okD(1)[OF ok] low0] kept_trans1[OF s1(2) low_eq_kept[OF kept_ok[OF s1(2)] low2]]] .
  have q2: "queue_of ?s2 r = (if r = p then [] else queue_of s r)" for r by (simp add: queue_of_def mu)
  have dj: "set (queue_of s r) \<inter> set (queue_of s p) = {}" if "r \<noteq> p" for r using udp_okD(10)[OF ok that] .
  have qd: "queued ?s2 = queued s - set (queue_of s p)"
    unfolding queued_def q2 using dj by (fastforce split: if_splits)
  have "udp_ok ?s2"
  proof (rule udp_okI)
    show "arp_ok ?s2" "routes_ok ?s2" using kept_ok[OF k] kept_routes[OF k udp_okD(2)[OF ok]] by simp_all
    show "set (us_pcbs ?s2) = dom (us_pcb ?s2)" using udp_okD(3,7)[OF ok] by (auto simp: mu)
    show "up_recv_queue_len x = of_nat (length (up_recv_queue x))" if "us_pcb ?s2 r = Some x" for r x
      using that ok by (auto simp: udp_ok_def mu split: if_splits)
    show "owned b ?s2" if "b \<in> queued ?s2" for b
      using kept_owned(1)[OF k udp_okD(8)[OF ok]] that unfolding qd by blast
    show "distinct (queue_of ?s2 r)" for r using udp_okD(9)[OF ok] by (simp add: q2)
    show "set (queue_of ?s2 r) \<inter> set (queue_of ?s2 t) = {}" if "r \<noteq> t" for r t
      using udp_okD(10)[OF ok that] by (simp add: q2)
  qed (use udp_okD[OF ok] mu in auto)
  moreover have "udp_pcb_free p s = Some ?s2" using False pcb s1(1) qp by (simp add: udp_pcb_free_def)
  ultimately show ?thesis using that qd k by blast
qed

lemma upd_port_ok:
  assumes "udp_ok s" "49152 \<le> n" "n \<le> 65535"
  shows "udp_ok (s\<lparr>us_next_ephemeral_port := n\<rparr>)" "queued (s\<lparr>us_next_ephemeral_port := n\<rparr>) = queued s"
    "low_eq s (s\<lparr>us_next_ephemeral_port := n\<rparr>)"
proof -
  let ?s = "s\<lparr>us_next_ephemeral_port := n\<rparr>"
  show low: "low_eq s ?s" by (simp add: low_eq_def)
  have q: "queue_of ?s = queue_of s" by (simp add: queue_of_def fun_eq_iff)
  show qd: "queued ?s = queued s" by (simp add: queued_def q)
  show "udp_ok ?s" using assms by (simp add: udp_ok_def low_eqD[OF low] q qd)
qed

lemma udp_autobind_step:
  assumes ok: "udp_ok s" and p: "us_pcb s p = Some pcb"
  obtains r s' pcb' where "udp_autobind p s = Some (r, s')" "udp_ok s'" "queued s' = queued s" "low_eq s s'"
    "us_pcb s' p = Some pcb'" "pcb' = pcb\<lparr>up_local_port := up_local_port pcb'\<rparr>" "r \<longleftrightarrow> up_local_port pcb' \<noteq> 0"
    "up_local_port pcb \<noteq> 0 \<longrightarrow> s' = s \<and> pcb' = pcb"
proof (cases "up_local_port pcb = 0")
  case False
  show ?thesis
    by (rule that[of True s pcb]) (use False p ok in \<open>simp_all add: udp_autobind_def low_eq_def\<close>)
next
  case True
  obtain port n where r: "udp_alloc_port s = Some (port, s\<lparr>us_next_ephemeral_port := n\<rparr>)" "49152 \<le> n" "n \<le> 65535"
    by (rule alloc_port_result[OF udp_okD(5,6)[OF ok]])
  note u = upd_port_ok[OF ok r(2,3)]
  let ?s1 = "s\<lparr>us_next_ephemeral_port := n\<rparr>"
  have p1: "us_pcb ?s1 p = Some pcb" using p by simp
  obtain s2 where s2: "upd_pcb p (\<lambda>x. x\<lparr>up_local_port := port\<rparr>) ?s1 = Some s2"
    "s2 = ?s1\<lparr>us_pcb := (us_pcb ?s1)(p := Some (pcb\<lparr>up_local_port := port\<rparr>))\<rparr>" "udp_ok s2" "low_eq ?s1 s2" "queued s2 = queued ?s1"
    by (rule udp_upd_pcb[OF u(1) p1, where f = "\<lambda>x. x\<lparr>up_local_port := port\<rparr>"]) simp_all
  have low: "low_eq s s2" by (simp add: s2(2) low_eq_def)
  have "udp_autobind p s = Some (port \<noteq> 0, s2)" using True p r(1) s2(1) by (simp add: udp_autobind_def)
  then show ?thesis
    by (rule that[OF _ s2(3) _ low, of _ "pcb\<lparr>up_local_port := port\<rparr>"]) (use s2(2,5) u(2) True in simp_all)
qed

lemma port_taken_total:
  "\<forall>q\<in>set qs. us_pcb s q \<noteq> None \<Longrightarrow> port_taken p ip port s qs = Some (\<exists>q\<in>set qs. q \<noteq> p
    \<and> up_local_port (the (us_pcb s q)) = port
    \<and> (up_local_ip (the (us_pcb s q)) = 0 \<or> ip = 0 \<or> up_local_ip (the (us_pcb s q)) = ip))"
  by (induction qs) (simp, clarsimp, blast)

lemma udp_bind_step:
  assumes ok: "udp_ok s" and p: "us_pcb s p = Some pcb"
  obtains r s' where "udp_bind p ip port s = Some (r, s')" "udp_ok s'" "queued s' = queued s" "low_eq s s'"
    "r = 0 \<and> us_pcb s' = (us_pcb s)(p := Some (pcb\<lparr>up_local_ip := ip, up_local_port := port\<rparr>))
       \<and> (\<forall>q x. q \<noteq> p \<and> us_pcb s q = Some x \<and> up_local_port x = port \<longrightarrow> up_local_ip x \<noteq> 0 \<and> ip \<noteq> 0 \<and> up_local_ip x \<noteq> ip)
     \<or> r = -1 \<and> s' = s"
proof -
  have p0: "p \<noteq> 0" using p udp_okD(4)[OF ok] by auto
  have live: "\<forall>q\<in>set (us_pcbs s). us_pcb s q \<noteq> None" using udp_okD(3)[OF ok] by auto
  obtain t where t: "port_taken p ip port s (us_pcbs s) = Some t"
    "t \<longleftrightarrow> (\<exists>q\<in>set (us_pcbs s). q \<noteq> p \<and> up_local_port (the (us_pcb s q)) = port
          \<and> (up_local_ip (the (us_pcb s q)) = 0 \<or> ip = 0 \<or> up_local_ip (the (us_pcb s q)) = ip))"
    using port_taken_total[OF live] by blast
  let ?f = "\<lambda>x. x\<lparr>up_local_ip := ip, up_local_port := port\<rparr>"
  obtain s1 where s1: "upd_pcb p ?f s = Some s1" "s1 = s\<lparr>us_pcb := (us_pcb s)(p := Some (?f pcb))\<rparr>" "udp_ok s1"
    "low_eq s s1" "queued s1 = queued s"
    by (rule udp_upd_pcb[OF ok p, where f = ?f]) simp_all
  show ?thesis
  proof (cases t)
    case True
    show ?thesis by (rule that[of "-1" s]) (use True p0 t(1) ok in \<open>simp_all add: udp_bind_def low_eq_def\<close>)
  next
    case False
    have dom: "q \<in> set (us_pcbs s)" if "us_pcb s q = Some x" for q x using udp_okD(3)[OF ok] that by auto
    have "udp_bind p ip port s = Some (0, s1)" using False p0 t(1) s1(1) by (simp add: udp_bind_def)
    moreover have "up_local_ip x \<noteq> 0 \<and> ip \<noteq> 0 \<and> up_local_ip x \<noteq> ip"
      if "q \<noteq> p" "us_pcb s q = Some x" "up_local_port x = port" for q x
      using False t(2) dom[OF that(2)] that by force
    ultimately show ?thesis
      by (intro that[OF _ s1(3,5,4), of 0] disjI1) (auto simp: s1(2))
  qed
qed

lemma udp_connect_step:
  assumes ok: "udp_ok s" and p: "us_pcb s p = Some pcb"
  obtains r s' where "udp_connect p ip port s = Some (r, s')" "udp_ok s'" "queued s' = queued s" "low_eq s s'"
proof -
  have p0: "p \<noteq> 0" using p udp_okD(4)[OF ok] by auto
  let ?f = "\<lambda>x. x\<lparr>up_remote_ip := ip, up_remote_port := port\<rparr>"
  obtain s1 where s1: "upd_pcb p ?f s = Some s1" "s1 = s\<lparr>us_pcb := (us_pcb s)(p := Some (?f pcb))\<rparr>" "udp_ok s1"
    "low_eq s s1" "queued s1 = queued s"
    by (rule udp_upd_pcb[OF ok p, where f = ?f]) simp_all
  have p1: "us_pcb s1 p = Some (?f pcb)" by (simp add: s1(2))
  obtain r s2 where s2: "udp_autobind p s1 = Some (r, s2)" "udp_ok s2" "queued s2 = queued s1" "low_eq s1 s2"
    by (rule udp_autobind_step[OF s1(3) p1])
  show ?thesis
    by (rule that[of "if r then 0 else -1" s2]) (use p0 s1 s2 in \<open>simp_all add: udp_connect_def low_eq_def\<close>)
qed

text \<open>Taking a datagram from the queue hands its buffer to the caller.\<close>

lemma udp_recv_poll_step:
  assumes ok: "udp_ok s" and p: "us_pcb s p = Some pcb"
  obtains b s' where "udp_recv_poll p s = Some (b, s')" "udp_ok s'" "low_eq s s'"
    "b = 0 \<and> up_recv_queue pcb = [] \<and> s' = s \<or>
     b \<noteq> 0 \<and> held b s' \<and> up_recv_queue pcb = b # queue_of s' p \<and> queued s' = queued s - {b}"
proof (cases "up_recv_queue pcb")
  case Nil
  have p0: "p \<noteq> 0" using p udp_okD(4)[OF ok] by auto
  show ?thesis by (rule that[of 0 s]) (use Nil p p0 ok in \<open>simp_all add: udp_recv_poll_def low_eq_def\<close>)
next
  case (Cons b bs)
  have p0: "p \<noteq> 0" using p udp_okD(4)[OF ok] by auto
  let ?x = "pcb\<lparr>up_recv_queue := bs, up_recv_queue_len := up_recv_queue_len pcb - 1\<rparr>"
  let ?s = "s\<lparr>us_pcb := (us_pcb s)(p := Some ?x)\<rparr>"
  have low: "low_eq s ?s" by (simp add: low_eq_def)
  have qp: "queue_of s p = b # bs" using p Cons by (simp add: queue_of_def)
  have q: "queue_of ?s r = (if r = p then bs else queue_of s r)" for r by (simp add: queue_of_def)
  have dj: "set (queue_of s r) \<inter> set (b # bs) = {}" if "r \<noteq> p" for r using udp_okD(10)[OF ok that] qp by simp
  have bb: "b \<notin> set bs" "distinct bs" using udp_okD(9)[OF ok, of p] qp by simp_all
  have qd: "queued ?s = queued s - {b}"
  proof -
    have "x \<noteq> b \<and> x \<in> set (queue_of s p)" if "x \<in> set bs" for x using that bb qp by auto
    moreover have "x \<noteq> b" if "x \<in> set (queue_of s r)" "r \<noteq> p" for x r using dj[OF that(2)] that(1) by auto
    moreover have "x \<in> set bs" if "x \<in> set (queue_of s p)" "x \<noteq> b" for x using that qp by auto
    ultimately show ?thesis unfolding queued_def q by (auto split: if_splits) metis+
  qed
  have ob: "owned b s" using udp_okD(8)[OF ok] qp unfolding queued_def by (metis UNIV_I UN_I list.set_intros(1))
  have len: "up_recv_queue_len pcb = of_nat (length (up_recv_queue pcb))" using ok p by (simp add: udp_ok_def)
  have "udp_ok ?s"
  proof (rule udp_okI)
    show "set (us_pcbs ?s) = dom (us_pcb ?s)" using udp_okD(3)[OF ok] p by auto
    show "up_recv_queue_len y = of_nat (length (up_recv_queue y))" if "us_pcb ?s r = Some y" for r y
      using that ok len Cons by (auto simp: udp_ok_def split: if_splits)
    show "owned x ?s" if "x \<in> queued ?s" for x using that udp_okD(8)[OF ok] unfolding qd low_eqD[OF low] by blast
    show "distinct (queue_of ?s r)" for r using udp_okD(9)[OF ok] bb by (simp add: q)
    show "set (queue_of ?s r) \<inter> set (queue_of ?s t) = {}" if "r \<noteq> t" for r t
      using udp_okD(10)[OF ok that] dj[of r] dj[of t] that by (auto simp: q)
  qed (use udp_okD[OF ok] p0 low_eqD[OF low] in auto)
  moreover have "udp_recv_poll p s = Some (b, ?s)" using p0 p Cons by (simp add: udp_recv_poll_def upd_pcb_def)
  moreover have "held b ?s" using ob qd low_eqD(2)[OF low] by (simp add: held_def)
  moreover have "b \<noteq> 0" using ob by (simp add: owned_def)
  ultimately show ?thesis
    by (intro that[OF _ _ low, of b] disjI2) (simp_all add: qd q Cons)
qed

lemma udp_header_bytes_length [simp]: "length (udp_header_bytes h) = 8"
  by (simp add: udp_header_bytes_def)

text \<open>The bytes of a datagram, with the checksum stored.\<close>

definition udp_raw :: "u16 \<Rightarrow> u16 \<Rightarrow> u8 list \<Rightarrow> u8 list" where
  "udp_raw sp dp pay = udp_header_bytes \<lparr>uh_src_port = htons sp, uh_dst_port = htons dp,
     uh_length = htons (of_nat (8 + length pay)), uh_checksum = 0\<rparr> @ pay"

definition udp_bytes :: "u32 \<Rightarrow> u32 \<Rightarrow> u16 \<Rightarrow> u16 \<Rightarrow> u8 list \<Rightarrow> u8 list" where
  "udp_bytes src dst sp dp pay =
     overwrite 6 (bytes16 (udp_checksum src dst (udp_raw sp dp pay) (of_nat (8 + length pay)))) (udp_raw sp dp pay)"

lemma length_udp_bytes [simp]: "length (udp_bytes src dst sp dp pay) = 8 + length pay"
  by (simp add: udp_bytes_def udp_raw_def)

text \<open>Writing header and checksum into a buffer that has been extended by eight bytes.\<close>

lemma udp_write_header:
  assumes ok: "net_ok s" and c: "contents s b = Some (pre, old @ pay, post)" "length old = 8"
    and bf: "ns_bufs s b = Some buf"
  obtains s1 s2 where
    "nb_write b (nb_data buf) (udp_header_bytes \<lparr>uh_src_port = htons sp, uh_dst_port = htons dp,
       uh_length = htons (of_nat (8 + length pay)), uh_checksum = 0\<rparr>) s = Some s1"
    "nb_read s1 b (nb_data buf) (8 + length pay) = Some (udp_raw sp dp pay)"
    "nb_write b (nb_data buf + 6) (bytes16 (udp_checksum src dst (udp_raw sp dp pay) (of_nat (8 + length pay)))) s1 = Some s2"
    "buf_step b (pre, udp_bytes src dst sp dp pay, post) s s2" "ns_bufs s1 = ns_bufs s" "ns_bufs s2 = ns_bufs s"
proof -
  let ?h = "udp_header_bytes \<lparr>uh_src_port = htons sp, uh_dst_port = htons dp,
       uh_length = htons (of_nat (8 + length pay)), uh_checksum = 0\<rparr>"
  have hl: "0 + length ?h \<le> length (old @ pay)" using c(2) by (subst udp_header_bytes_length) simp
  obtain s1 where s1: "nb_write b (nb_data buf + of_nat 0) ?h s = Some s1"
    "buf_step b (pre, overwrite 0 ?h (old @ pay), post) s s1" "ns_bufs s1 = ns_bufs s"
    by (rule nb_write_data[OF ok c(1) bf hl])
  have ow: "overwrite 0 ?h (old @ pay) = udp_raw sp dp pay"
    unfolding udp_raw_def by (rule overwrite_prefix) (simp add: c(2))
  have c1: "net_ok s1" "contents s1 b = Some (pre, udp_raw sp dp pay, post)" "ns_bufs s1 b = Some buf"
    using s1(2,3) bf unfolding ow by (simp_all add: buf_step_def)
  have l: "length (udp_raw sp dp pay) = 8 + length pay" by (simp add: udp_raw_def)
  have rd: "nb_read s1 b (nb_data buf + of_nat 0) (8 + length pay) = Some (udp_raw sp dp pay)"
    using nb_read_data[OF c1, of 0 "8 + length pay"] l by simp
  let ?ck = "bytes16 (udp_checksum src dst (udp_raw sp dp pay) (of_nat (8 + length pay)))"
  have k: "6 + length ?ck \<le> length (udp_raw sp dp pay)" using l by simp
  obtain s2 where s2: "nb_write b (nb_data buf + of_nat 6) ?ck s1 = Some s2"
    "buf_step b (pre, overwrite 6 ?ck (udp_raw sp dp pay), post) s1 s2" "ns_bufs s2 = ns_bufs s1"
    by (rule nb_write_data[OF c1 k])
  show ?thesis
    by (rule that[of s1 s2]) (use s1 s2 rd buf_step_trans[OF s1(2) s2(2)] in \<open>simp_all add: udp_bytes_def\<close>)
qed

lemma udp_sendto_step:
  fixes s :: "'a udp_env_scheme"
  assumes ok: "udp_ok s" and p: "us_pcb s p = Some pcb" and b: "held b s" and c: "contents s b = Some (pre, pay, post)"
  obtains ret s' where "udp_sendto p b dst dport s = Some (ret, s')" "udp_ok s'" "kept {b} s s'" "queued s' = queued s"
    "ret = 0 \<and> ns_bufs s' b \<noteq> None \<or> ret = -1 \<and> held b s'"
    "up_local_port pcb \<noteq> 0 \<and> ds_default s = dev \<and> path_open dev dst dev hop d mac rs s \<and> 42 \<le> length pre \<and> length pay \<le> 1476
     \<longrightarrow> ret = 0 \<and> ds_tx_ready s' = rs
       \<and> ds_wire s' = ds_wire s @ [(dev, ip_frame_bytes mac d (is_id_counter s) IP_PROTO_UDP dst
           (udp_bytes (if up_local_ip pcb \<noteq> 0 then up_local_ip pcb else nd_ip_addr d) dst (up_local_port pcb) dport pay))]"
proof -
  have aok: "arp_ok s" by (rule udp_okD(1)[OF ok])
  have p0: "p \<noteq> 0" using p udp_okD(4)[OF ok] by auto
  have b0: "b \<noteq> 0" "owned b s" "b \<notin> queued s" using b by (simp_all add: held_def owned_def)
  let ?dev = "ds_default s"
  show ?thesis
  proof (cases "?dev = 0")
    case True
    have run: "udp_sendto p b dst dport s = Some (-1, s)" using True p0 b0 by (simp add: udp_sendto_def netdev_get_default_def)
    show ?thesis
      by (rule that[OF run ok kept_refl[OF aok]]) (use True b in \<open>auto simp: path_open_def\<close>)
  next
    case dv: False
    obtain dd where dd: "ds_devs s ?dev = Some dd" using dev_okD(4)[OF arp_okD(1)[OF aok] dv] by blast
    obtain r s1 pcb1 where s1: "udp_autobind p s = Some (r, s1)" "udp_ok s1" "queued s1 = queued s" "low_eq s s1"
      "us_pcb s1 p = Some pcb1" "pcb1 = pcb\<lparr>up_local_port := up_local_port pcb1\<rparr>" "r \<longleftrightarrow> up_local_port pcb1 \<noteq> 0"
      "up_local_port pcb \<noteq> 0 \<longrightarrow> s1 = s \<and> pcb1 = pcb"
      by (rule udp_autobind_step[OF ok p])
    note l1 = low_eqD[OF s1(4)]
    have k1: "kept {b} s s1" by (rule low_eq_kept[OF aok s1(4)])
    have h1: "held b s1" using b s1(3) l1(2) by (simp add: held_def)
    have aok1: "arp_ok s1" by (rule udp_okD(1)[OF s1(2)])
    have nok1: "net_ok s1" by (rule arp_okD(2)[OF aok1])
    have c1: "contents s1 b = Some (pre, pay, post)" using c l1(3) by simp
    show ?thesis
    proof (cases "r \<and> 8 \<le> length pre")
      case False
      have "r \<Longrightarrow> netbuf_push b 8 s1 = Some (0, s1)" using netbuf_push_fail[OF nok1 c1, of 8] False by simp
      then have run: "udp_sendto p b dst dport s = Some (-1, s1)"
        using dv p0 b0 s1(1) by (cases r) (simp_all add: udp_sendto_def netdev_get_default_def)
      show ?thesis
        by (rule that[OF run s1(2) k1 s1(3)]) (use h1 False s1(7,8) in auto)
    next
      case True
      let ?pre = "take (length pre - 8) pre" and ?old = "drop (length pre - 8) pre"
      obtain q s2 buf where s2: "netbuf_push b (of_nat 8) s1 = Some (q, s2)" "q \<noteq> 0"
        "buf_step b (?pre, ?old @ pay, post) s1 s2" "ns_bufs s1 b = Some buf"
        "ns_bufs s2 b = Some (buf\<lparr>nb_data := q, nb_len := of_nat (8 + length pay)\<rparr>)"
        using netbuf_push_ok[OF nok1 c1, of 8] True by metis
      let ?buf = "buf\<lparr>nb_data := q, nb_len := of_nat (8 + length pay)\<rparr>"
      have c2: "net_ok s2" "contents s2 b = Some (?pre, ?old @ pay, post)" "same_env s1 s2" using s2(3) by (simp_all add: buf_step_def)
      let ?src = "if up_local_ip pcb1 \<noteq> 0 then up_local_ip pcb1 else nd_ip_addr dd"
      let ?m = "udp_bytes ?src dst (up_local_port pcb1) dport pay"
      have ol: "length ?old = 8" using True by simp
      have lenp: "length pay \<le> 2048" by (rule contentsD[OF nok1 c1]) simp
      have un: "unat (of_nat (8 + length pay) :: u16) = 8 + length pay" unfolding unat_of_nat using lenp by simp
      have uc: "(ucast (of_nat (8 + length pay) :: u32) :: u16) = of_nat (8 + length pay)"
        unfolding word_unat_eq_iff unsigned_ucast_eq un using lenp
        by (simp add: take_bit_eq_mod unat_of_nat_u32 del: of_nat_add)
      obtain s3 s4 where w:
        "nb_write b (nb_data ?buf) (udp_header_bytes \<lparr>uh_src_port = htons (up_local_port pcb1), uh_dst_port = htons dport,
           uh_length = htons (of_nat (8 + length pay)), uh_checksum = 0\<rparr>) s2 = Some s3"
        "nb_read s3 b (nb_data ?buf) (8 + length pay) = Some (udp_raw (up_local_port pcb1) dport pay)"
        "nb_write b (nb_data ?buf + 6) (bytes16 (udp_checksum ?src dst (udp_raw (up_local_port pcb1) dport pay) (of_nat (8 + length pay)))) s3 = Some s4"
        "buf_step b (?pre, ?m, post) s2 s4" "ns_bufs s3 = ns_bufs s2" "ns_bufs s4 = ns_bufs s2"
        by (rule udp_write_header[OF c2(1,2) ol s2(5)])
      have st4: "buf_step b (?pre, ?m, post) s1 s4" by (rule buf_step_trans[OF s2(3) w(4)])
      have o1: "owned b s1" using h1 by (simp add: held_def)
      note a4 = buf_step_arp[OF aok1 o1 st4]
      have e4: "same_env s1 s4" and e2: "same_env s1 s2" using st4 s2(3) by (simp_all add: buf_step_def)
      note env4 = same_env_cache[OF e4] same_env_path[OF e4] and env2 = same_env_cache[OF e2] same_env_path[OF e2]
      note mu4 = more_udp[OF more_icmp(5)[OF same_env_path(4)[OF e4]]] and mu2 = more_udp[OF more_icmp(5)[OF same_env_path(4)[OF e2]]]
      have c4: "contents s4 b = Some (?pre, ?m, post)" using st4 by (simp add: buf_step_def)
      have dv4: "?dev \<noteq> 0 \<longrightarrow> ds_devs s4 ?dev \<noteq> None" using dd env4(2) l1(10) by simp
      have rt4: "routes_ok s4" using udp_okD(2)[OF s1(2)] env4(11) by simp
      obtain ret s5 where s5: "ip_output ?dev b dst IP_PROTO_UDP s4 = Some (ret, s5)" "ip_step {b} s4 s5"
        "ret = 0 \<and> ns_bufs s5 b \<noteq> None \<or> ret = -1 \<and> owned b s5"
        "egress ?dev dst s4 = Some (?dev, hop) \<and> ?dev \<noteq> 0 \<and> ds_devs s4 ?dev = Some d \<and> nd_ip_addr d \<noteq> 0
          \<and> arp_cache_lookup hop s4 = Some mac \<and> nd_state d = NETDEV_UP \<and> nd_ops d \<noteq> None \<and> 34 \<le> length ?pre
          \<and> length ?m \<le> 1484 \<and> ds_tx_ready s4 = True # rs
         \<longrightarrow> ret = 0 \<and> owned b s5 \<and> ds_tx_ready s5 = rs
           \<and> ds_wire s5 = ds_wire s4 @ [(?dev, eth_header_bytes mac (nd_mac d) ETH_TYPE_IP
               @ ip_header_bytes (sealed (ip_header_out (of_nat (20 + length ?m)) (is_id_counter s4) IP_PROTO_UDP (nd_ip_addr d) dst))
               @ ?m)]"
        by (rule ip_output_step[OF a4(3,2) c4 dv4 rt4])
      have run: "udp_sendto p b dst dport s = Some (ret, s5)"
        using dv p0 b0 s1(1,5) True s2(1,2,5) w(1-3) s5(1) dd env2(2) l1(10) mu2(2) un uc
        by (simp add: udp_sendto_def netdev_get_default_def Let_def del: of_nat_add)
      have k5: "kept {b} s1 s5" by (rule kept_trans1[OF arp_step_kept[OF a4(1)] ip_step_kept[OF s5(2)]])
      have m5: "icmp_env.more s5 = icmp_env.more s1"
        using more_icmp(5)[OF ip_step_ext(3)[OF s5(2)]] more_icmp(5)[OF same_env_path(4)[OF e4]] by simp
      have q1: "{b} \<inter> queued s1 = {}" using h1 by (simp add: held_def)
      note u5 = udp_ok_kept[OF s1(2) k5 m5 q1]
      have qd5: "queued s5 = queued s" using u5(2) s1(3) by simp
      have kk: "kept {b} s s5" by (rule kept_trans1[OF k1 k5])
      have hr: "ret = 0 \<and> ns_bufs s5 b \<noteq> None \<or> ret = -1 \<and> held b s5" using s5(3) b0(3) qd5 by (simp add: held_def)
      have fn: "ret = 0 \<and> ds_tx_ready s5 = rs
          \<and> ds_wire s5 = ds_wire s @ [(dev, ip_frame_bytes mac d (is_id_counter s) IP_PROTO_UDP dst
           (udp_bytes (if up_local_ip pcb \<noteq> 0 then up_local_ip pcb else nd_ip_addr d) dst (up_local_port pcb) dport pay))]"
        if h: "up_local_port pcb \<noteq> 0" "ds_default s = dev" "path_open dev dst dev hop d mac rs s" "42 \<le> length pre" "length pay \<le> 1476"
      proof -
        have e: "s1 = s" "pcb1 = pcb" using s1(8) h(1) by simp_all
        have po: "path_open dev dst dev hop d mac rs s4" using h(3) env4(6) e by simp
        then have "dd = d" using dd h(2) env4(2) e by (simp add: path_open_def)
        moreover have "34 \<le> length ?pre" "length ?m \<le> 1484" using h(4,5) by simp_all
        ultimately show ?thesis
          using s5(4) po h(2) e env4 unfolding path_open_def ip_frame_bytes_def by (simp del: of_nat_add)
      qed
      show ?thesis by (rule that[OF run u5(1) kk qd5 hr]) (use fn in blast)
    qed
  qed
qed

section \<open>Receiving\<close>

lemma overwrite_take: "i + length ws \<le> n \<Longrightarrow> n \<le> length m \<Longrightarrow> take n (overwrite i ws m) = overwrite i ws (take n m)"
  by (cases "n = i") (auto simp: overwrite_def take_drop min_def)

lemma overwrite_overwrite:
  "length ws = length vs \<Longrightarrow> i + length ws \<le> length m \<Longrightarrow> overwrite i vs (overwrite i ws m) = overwrite i vs m"
  by (simp add: overwrite_def)

lemma overwrite_self:
  assumes "8 \<le> length m" "v = le16 (m ! 6) (m ! 7)"
  shows "overwrite 6 (bytes16 v) m = m"
proof -
  obtain a0 a1 a2 a3 a4 a5 a6 a7 xs where "m = a0 # a1 # a2 # a3 # a4 # a5 # a6 # a7 # xs"
    using assms(1) by (auto simp: numeral_nat Suc_le_length_iff)
  then show ?thesis by (simp add: assms(2) bytes16_le16 overwrite_def)
qed

definition udp_good :: "u32 \<Rightarrow> u32 \<Rightarrow> u16 \<Rightarrow> u16 \<Rightarrow> u8 list \<Rightarrow> bool" where
  "udp_good src dst len orig pay \<longleftrightarrow>
     orig = 0 \<or> udp_checksum src dst (overwrite 6 (bytes16 0) (take (unat len) pay)) len = orig"

lemma udp_verify_step:
  assumes ok: "net_ok s" and c: "contents s b = Some (pre, pay, post)" and bf: "ns_bufs s b = Some buf"
    and len: "8 \<le> unat len" "unat len \<le> length pay" and orig: "orig = le16 (pay ! 6) (pay ! 7)"
  obtains r s' pay' where "udp_verify src dst b (nb_data buf) len orig s = Some (r, s')"
    "buf_step b (pre, pay', post) s s'" "length pay' = length pay" "r \<longrightarrow> pay' = pay" "ns_bufs s' = ns_bufs s"
    "r \<longleftrightarrow> udp_good src dst len orig pay"
proof (cases "orig = 0")
  case True
  show ?thesis
    by (rule that[of True s pay]) (use True ok c in \<open>simp_all add: udp_verify_def udp_good_def buf_step_def\<close>)
next
  case False
  have k: "6 + length (bytes16 v) \<le> length pay" for v using len by simp
  obtain s1 where s1: "nb_write b (nb_data buf + of_nat 6) (bytes16 0) s = Some s1"
    "buf_step b (pre, overwrite 6 (bytes16 0) pay, post) s s1" "ns_bufs s1 = ns_bufs s"
    by (rule nb_write_data[OF ok c bf k])
  let ?p1 = "overwrite 6 (bytes16 0) pay"
  have l1: "length ?p1 = length pay" using k by simp
  have c1: "net_ok s1" "contents s1 b = Some (pre, ?p1, post)" "ns_bufs s1 b = Some buf"
    using s1(2,3) bf by (simp_all add: buf_step_def)
  have tk: "take (unat len) ?p1 = overwrite 6 (bytes16 0) (take (unat len) pay)"
    by (rule overwrite_take) (use len in simp_all)
  have rd: "nb_read s1 b (nb_data buf + of_nat 0) (unat len) = Some (overwrite 6 (bytes16 0) (take (unat len) pay))"
    using nb_read_data[OF c1, of 0 "unat len"] l1 len(2) tk by simp
  have k1: "6 + length (bytes16 orig) \<le> length ?p1" using k l1 by simp
  obtain s2 where s2: "nb_write b (nb_data buf + of_nat 6) (bytes16 orig) s1 = Some s2"
    "buf_step b (pre, overwrite 6 (bytes16 orig) ?p1, post) s1 s2" "ns_bufs s2 = ns_bufs s1"
    by (rule nb_write_data[OF c1 k1])
  have restored: "overwrite 6 (bytes16 orig) ?p1 = pay"
    using overwrite_overwrite[of "bytes16 0" "bytes16 orig" 6 pay] overwrite_self[OF _ orig] k len by simp
  show ?thesis
  proof (cases "udp_good src dst len orig pay")
    case True
    then have "udp_verify src dst b (nb_data buf) len orig s = Some (True, s2)"
      using False s1(1) rd s2(1) by (simp add: udp_verify_def udp_good_def)
    then show ?thesis
      by (rule that[of True s2 pay]) (use buf_step_trans[OF s1(2) s2(2)] restored s1(3) s2(3) True in simp_all)
  next
    case no: False
    then have "udp_verify src dst b (nb_data buf) len orig s = Some (False, s1)"
      using False s1(1) rd by (simp add: udp_verify_def udp_good_def)
    then show ?thesis by (rule that[of False s1 ?p1]) (use s1 l1 no in simp_all)
  qed
qed

lemma find_best_result:
  "\<forall>p\<in>set ps. us_pcb s p \<noteq> None \<Longrightarrow>
    \<exists>q n. find_best score s ps (q0, n0) = Some (q, n) \<and> n0 \<le> n
      \<and> (\<forall>p\<in>set ps. \<forall>k. score (the (us_pcb s p)) = Some k \<longrightarrow> k \<le> n)
      \<and> (q = q0 \<and> n = n0 \<or> q \<in> set ps \<and> score (the (us_pcb s q)) = Some n)"
proof (induction ps arbitrary: q0 n0)
  case (Cons p ps)
  obtain x where x: "us_pcb s p = Some x" using Cons.prems by auto
  obtain q1 n1 where b1: "(case score x of None \<Rightarrow> (q0, n0) | Some n \<Rightarrow> if n > snd (q0, n0) then (p, n) else (q0, n0)) = (q1, n1)"
    by fastforce
  obtain q n where r: "find_best score s ps (q1, n1) = Some (q, n)" "n1 \<le> n"
    "\<forall>p\<in>set ps. \<forall>k. score (the (us_pcb s p)) = Some k \<longrightarrow> k \<le> n"
    "q = q1 \<and> n = n1 \<or> q \<in> set ps \<and> score (the (us_pcb s q)) = Some n"
    using Cons.IH[of q1 n1] Cons.prems by auto
  have "find_best score s (p # ps) (q0, n0) = Some (q, n)"
    using r(1) x by (simp only: find_best.simps b1 bind.bind_lunit)
  moreover have "n0 \<le> n1" "score x = Some k \<longrightarrow> k \<le> n1" "q1 = q0 \<and> n1 = n0 \<or> q1 = p \<and> score x = Some n1" for k
    using b1 by (auto split: option.splits if_splits)
  ultimately show ?case using r x by (intro exI[of _ q] exI[of _ n]) fastforce
qed simp

text \<open>The control block of a datagram: the best match, and any block that matches better than all others.\<close>

lemma udp_find_pcb_result:
  assumes "udp_ok s"
  obtains q where "udp_find_pcb lip lport rip rport s = Some q" "q = 0 \<or> us_pcb s q \<noteq> None"
    "\<forall>p pcb k. us_pcb s p = Some pcb \<and> udp_score lip lport rip rport pcb = Some k \<longrightarrow>
       q \<noteq> 0 \<and> (\<exists>m. udp_score lip lport rip rport (the (us_pcb s q)) = Some m \<and> k \<le> m)"
proof -
  let ?sc = "udp_score lip lport rip rport"
  have live: "\<forall>p\<in>set (us_pcbs s). us_pcb s p \<noteq> None" using udp_okD(3)[OF assms] by auto
  obtain q n where r: "find_best ?sc s (us_pcbs s) (0, -1) = Some (q, n)" "-1 \<le> n"
    "\<forall>p\<in>set (us_pcbs s). \<forall>k. ?sc (the (us_pcb s p)) = Some k \<longrightarrow> k \<le> n"
    "q = 0 \<and> n = -1 \<or> q \<in> set (us_pcbs s) \<and> ?sc (the (us_pcb s q)) = Some n"
    using find_best_result[OF live] by blast
  have nn: "0 \<le> k" if "?sc pcb = Some k" for k pcb using that by (auto simp: udp_score_def split: if_splits)
  have "q \<noteq> 0 \<and> (\<exists>m. ?sc (the (us_pcb s q)) = Some m \<and> k \<le> m)" if "us_pcb s p = Some pcb" "?sc pcb = Some k" for p pcb k
  proof -
    have "p \<in> set (us_pcbs s)" using that(1) udp_okD(3)[OF assms] by auto
    then have "k \<le> n" using r(3) that by auto
    then have "q \<in> set (us_pcbs s)" "?sc (the (us_pcb s q)) = Some n" using r(4) nn[OF that(2)] by auto
    then show ?thesis using \<open>k \<le> n\<close> live udp_okD(4)[OF assms] by auto
  qed
  moreover have "q = 0 \<or> us_pcb s q \<noteq> None" using r(4) live by auto
  moreover have "udp_find_pcb lip lport rip rport s = Some q" using r(1) by (simp add: udp_find_pcb_def)
  ultimately show ?thesis using that by blast
qed

text \<open>What is expected of a receive callback: it takes over the buffer.\<close>

definition recv_ok :: "(u32 \<Rightarrow> u32 \<Rightarrow> u32 \<Rightarrow> u32 \<Rightarrow> u16 \<Rightarrow> 'a udp_env_scheme \<Rightarrow> 'a udp_env_scheme option) \<Rightarrow> bool" where
  "recv_ok recv \<longleftrightarrow> (\<forall>cb p b src sport s. udp_ok s \<and> held b s \<longrightarrow>
     (\<exists>s'. recv cb p b src sport s = Some s' \<and> udp_ok s' \<and> kept {b} s s' \<and> is_reass s' = is_reass s
        \<and> udp_env.more s' = udp_env.more s))"

lemma udp_header_of_take: "8 \<le> length pay \<Longrightarrow> udp_header_of (take 8 pay) = udp_header_of pay"
  by (simp add: udp_header_of_def)

text \<open>Releasing a held buffer.\<close>

lemma udp_release:
  fixes s :: "'a udp_env_scheme"
  assumes "udp_ok s" "held b s"
  obtains s' where "netbuf_free b s = Some s'" "udp_ok s'" "kept {b} s s'" "is_reass s' = is_reass s"
    "udp_env.more s' = udp_env.more s" "ds_wire s' = ds_wire s"
proof -
  have o: "owned b s" "b \<notin> queued s" using assms(2) by (simp_all add: held_def)
  obtain s' where s': "netbuf_free b s = Some s'" "kept {b} s s'" "arp_step {b} s s'" "ds_wire s' = ds_wire s"
    by (rule netbuf_free_kept[OF udp_okD(1)[OF assms(1)] o(1)])
  have m: "icmp_env.more s' = icmp_env.more s" by (rule more_icmp(5)[OF arp_step_ext(4)[OF s'(3)]])
  have "udp_ok s'" by (rule udp_ok_kept[OF assms(1) s'(2) m]) (use o in simp)
  then show ?thesis using that[OF s'(1) _ s'(2) arp_step_ext(2)[OF s'(3)] more_udp(4)[OF m] s'(4)] by simp
qed

text \<open>A step on a held buffer.\<close>

lemma udp_buf_step:
  fixes s :: "'a udp_env_scheme"
  assumes "udp_ok s" "held b s" "buf_step b c s s'"
  shows "udp_ok s'" "held b s'" "kept {b} s s'" "is_reass s' = is_reass s" "icmp_env.more s' = icmp_env.more s"
    "us_pcb s' = us_pcb s" "us_pcbs s' = us_pcbs s" "udp_env.more s' = udp_env.more s" "ds_wire s' = ds_wire s"
proof -
  have o: "owned b s" "b \<notin> queued s" using assms(2) by (simp_all add: held_def)
  note a = buf_step_arp[OF udp_okD(1)[OF assms(1)] o(1) assms(3)]
  have e: "same_env s s'" using assms(3) by (simp add: buf_step_def)
  show k: "kept {b} s s'" by (rule arp_step_kept[OF a(1)])
  show m: "icmp_env.more s' = icmp_env.more s" by (rule more_icmp(5)[OF same_env_path(4)[OF e]])
  note u = udp_ok_kept[OF assms(1) k m]
  show "udp_ok s'" "held b s'" using u o a(2) by (simp_all add: held_def)
  show "is_reass s' = is_reass s" "ds_wire s' = ds_wire s" using same_env_path(3)[OF e] same_env_cache(3)[OF e] by simp_all
  show "us_pcb s' = us_pcb s" "us_pcbs s' = us_pcbs s" "udp_env.more s' = udp_env.more s" by (rule more_udp[OF m])+
qed

text \<open>Appending a held buffer to a queue.\<close>

lemma udp_enqueue:
  fixes s :: "'a udp_env_scheme"
  assumes ok: "udp_ok s" and h: "held b s" and p: "us_pcb s p = Some pcb"
  obtains s' where "upd_pcb p (\<lambda>x. x\<lparr>up_recv_queue := up_recv_queue x @ [b], up_recv_queue_len := up_recv_queue_len x + 1\<rparr>) s = Some s'"
    "udp_ok s'" "low_eq s s'" "queue_of s' p = queue_of s p @ [b]" "\<forall>q. q \<noteq> p \<longrightarrow> us_pcb s' q = us_pcb s q"
    "udp_env.more s' = udp_env.more s"
proof -
  let ?x = "pcb\<lparr>up_recv_queue := up_recv_queue pcb @ [b], up_recv_queue_len := up_recv_queue_len pcb + 1\<rparr>"
  let ?s = "s\<lparr>us_pcb := (us_pcb s)(p := Some ?x)\<rparr>"
  have p0: "p \<noteq> 0" using p udp_okD(4)[OF ok] by auto
  have o: "owned b s" "b \<notin> queued s" using h by (simp_all add: held_def)
  have low: "low_eq s ?s" by (simp add: low_eq_def)
  have qp: "queue_of s p = up_recv_queue pcb" using p by (simp add: queue_of_def)
  have q: "queue_of ?s r = (if r = p then queue_of s p @ [b] else queue_of s r)" for r using qp by (simp add: queue_of_def)
  have bn: "b \<notin> set (queue_of s r)" for r using o(2) by (auto simp: queued_def)
  have qd: "queued ?s = insert b (queued s)" unfolding queued_def q by (auto split: if_splits)
  have len: "up_recv_queue_len pcb = of_nat (length (up_recv_queue pcb))" using ok p by (simp add: udp_ok_def)
  have "udp_ok ?s"
  proof (rule udp_okI)
    show "set (us_pcbs ?s) = dom (us_pcb ?s)" using udp_okD(3)[OF ok] p by auto
    show "up_recv_queue_len y = of_nat (length (up_recv_queue y))" if "us_pcb ?s r = Some y" for r y
      using that ok len by (auto simp: udp_ok_def split: if_splits)
    show "owned x ?s" if "x \<in> queued ?s" for x using that udp_okD(8)[OF ok] o(1) unfolding qd low_eqD[OF low] by blast
    show "distinct (queue_of ?s r)" for r using udp_okD(9)[OF ok] bn by (simp add: q)
    show "set (queue_of ?s r) \<inter> set (queue_of ?s t) = {}" if "r \<noteq> t" for r t
      using udp_okD(10)[OF ok that] bn that by (auto simp: q)
  qed (use udp_okD[OF ok] p0 low_eqD[OF low] in auto)
  then show ?thesis
    by (intro that[of ?s]) (use low q p in \<open>simp_all add: upd_pcb_def\<close>)
qed

definition header_inside :: "'a nb_state_scheme \<Rightarrow> u32 \<Rightarrow> bool" where
  "header_inside s b \<longleftrightarrow> (\<exists>buf bs. ns_bufs s b = Some buf \<and> ns_blocks s (nb_head buf) = Some bs
     \<and> (nb_network_header buf = 0 \<or> unat (nb_network_header buf - nb_head buf) + 20 \<le> length bs))"

lemma header_inside_read:
  assumes "header_inside s b" "ns_bufs s b = Some buf"
  shows "nb_network_header buf = 0 \<or> (\<exists>xs. nb_read s b (nb_network_header buf) 20 = Some xs)"
  using assms by (auto simp: header_inside_def nb_read_def block_read_def)

lemma header_inside_step:
  assumes "header_inside s b" "net_ok s" "contents s b = Some (pre, pay, post)" "buf_step b (pre', pay', post') s s'"
    "length pre' + length pay' + length post' = length pre + length pay + length post"
    "map_option (\<lambda>x. (nb_head x, nb_network_header x)) (ns_bufs s' b) = map_option (\<lambda>x. (nb_head x, nb_network_header x)) (ns_bufs s b)"
  shows "header_inside s' b"
proof -
  obtain buf where b: "ns_bufs s b = Some buf" "ns_blocks s (nb_head buf) = Some (pre @ pay @ post)"
    by (rule contentsD[OF assms(2,3)])
  have c': "net_ok s'" "contents s' b = Some (pre', pay', post')" using assms(4) by (simp_all add: buf_step_def)
  obtain buf' where b': "ns_bufs s' b = Some buf'" "ns_blocks s' (nb_head buf') = Some (pre' @ pay' @ post')"
    by (rule contentsD[OF c'])
  show ?thesis using assms(1,5,6) b b' by (auto simp: header_inside_def)
qed

lemma find_best_cong: "us_pcb s' = us_pcb s \<Longrightarrow> find_best score s' ps best = find_best score s ps best"
  by (induction ps arbitrary: best) simp_all

lemma udp_find_pcb_cong:
  "us_pcb s' = us_pcb s \<Longrightarrow> us_pcbs s' = us_pcbs s \<Longrightarrow> udp_find_pcb lip lp rip rp s' = udp_find_pcb lip lp rip rp s"
  using find_best_cong[of s' s] by (simp add: udp_find_pcb_def)

lemma udp_input_step:
  fixes s :: "'a udp_env_scheme"
  assumes ok: "udp_ok s" and h: "held b s" and dv: "dev \<noteq> 0" and rc: "recv_ok recv"
    and c: "contents s b = Some (pre, pay, post)" and hi: "header_inside s b"
  obtains s' where "udp_input recv dev b src dst s = Some s'" "udp_ok s'" "kept {b} s s'" "is_reass s' = is_reass s"
    "udp_env.more s' = udp_env.more s"
    "8 \<le> length pay \<and> 8 \<le> unat (ntohs (uh_length (udp_header_of pay))) \<and> unat (ntohs (uh_length (udp_header_of pay))) \<le> length pay
       \<and> udp_good src dst (ntohs (uh_length (udp_header_of pay))) (uh_checksum (udp_header_of pay)) pay
       \<and> udp_find_pcb dst (ntohs (uh_dst_port (udp_header_of pay))) src (ntohs (uh_src_port (udp_header_of pay))) s = Some q
       \<and> q \<noteq> 0 \<and> us_pcb s q = Some pcb \<and> up_recv_callback pcb = 0
     \<longrightarrow> queue_of s' q = queue_of s q @ [b] \<and> contents s' b = Some (pre @ take 8 pay, drop 8 pay, post) \<and> ds_wire s' = ds_wire s"
proof -
  have nok: "net_ok s" by (rule arp_okD(2)[OF udp_okD(1)[OF ok]])
  have b0: "b \<noteq> 0" using h by (simp add: held_def owned_def)
  obtain buf where bf: "ns_bufs s b = Some buf" "nb_len buf = of_nat (length pay)" "length pre + length pay + length post \<le> 2048"
    by (rule contentsD[OF nok c])
  have ul: "unat (nb_len buf) = length pay" using bf(2,3) by (simp add: unat_of_nat_u32)
  have short: "nb_len buf < 8 \<longleftrightarrow> length pay < 8" using ul by (simp add: word_less_nat_alt)
  let ?f = "\<lambda>x. x\<lparr>nb_transport_header := nb_data x\<rparr>"
  obtain s1 where s1: "upd_buf b ?f s = Some s1" "buf_step b (pre, pay, post) s s1" "ns_bufs s1 b = Some (?f buf)"
    by (rule upd_buf_meta[OF nok c bf(1), of ?f]) simp_all
  have c1: "net_ok s1" "contents s1 b = Some (pre, pay, post)" using s1(2) by (simp_all add: buf_step_def)
  note u1 = udp_buf_step[OF ok h s1(2)]
  have hi1: "header_inside s1 b" by (rule header_inside_step[OF hi nok c s1(2)]) (simp_all add: s1(3) bf(1))
  note result = that
  have rel: thesis if r: "udp_input recv dev b src dst s = netbuf_free b t" and t: "udp_ok t" "held b t" "kept {b} s t"
      "is_reass t = is_reass s" "udp_env.more t = udp_env.more s"
      and no: "\<not> (8 \<le> length pay \<and> 8 \<le> unat (ntohs (uh_length (udp_header_of pay))) \<and> unat (ntohs (uh_length (udp_header_of pay))) \<le> length pay
       \<and> udp_good src dst (ntohs (uh_length (udp_header_of pay))) (uh_checksum (udp_header_of pay)) pay
       \<and> udp_find_pcb dst (ntohs (uh_dst_port (udp_header_of pay))) src (ntohs (uh_src_port (udp_header_of pay))) s = Some q
       \<and> q \<noteq> 0)" for t
  proof -
    obtain s' where s': "netbuf_free b t = Some s'" "udp_ok s'" "kept {b} t s'" "is_reass s' = is_reass t"
      "udp_env.more s' = udp_env.more t"
      by (rule udp_release[OF t(1,2)])
    have run: "udp_input recv dev b src dst s = Some s'" using r s'(1) by simp
    show thesis
      by (rule result[OF run s'(2) kept_trans1[OF t(3) s'(3)]]) (use s'(4,5) t(4,5) no in auto)
  qed
  show ?thesis
  proof (cases "length pay < 8")
    case True
    have r: "udp_input recv dev b src dst s = netbuf_free b s" using True dv b0 bf(1) short by (simp add: udp_input_def)
    show ?thesis
      by (rule rel[OF r ok h kept_refl[OF udp_okD(1)[OF ok]]]) (use True in auto)
  next
    case ge: False
    let ?u = "udp_header_of pay"
    let ?len = "ntohs (uh_length ?u)" and ?sp = "ntohs (uh_src_port ?u)" and ?dp = "ntohs (uh_dst_port ?u)"
    have hb: "nb_read s1 b (nb_data buf) 8 = Some (take 8 pay)"
      using nb_read_data[OF c1 s1(3), of 0 8] ge by simp
    have hh: "udp_header_of (take 8 pay) = ?u" by (rule udp_header_of_take) (use ge in simp)
    have bad: "?len < 8 \<or> ucast ?len > nb_len buf \<longleftrightarrow> unat ?len < 8 \<or> length pay < unat ?len"
      using ul by (simp add: word_less_nat_alt unat_ucast_u16)
    show ?thesis
    proof (cases "unat ?len < 8 \<or> length pay < unat ?len")
      case True
      have r: "udp_input recv dev b src dst s = netbuf_free b s1"
        using True dv b0 bf(1) short ge s1(1) hb hh bad by (simp add: udp_input_def Let_def)
      show ?thesis by (rule rel[OF r u1(1,2,3,4,8)]) (use True in auto)
    next
      case lenok: False
      then have len: "8 \<le> unat ?len" "unat ?len \<le> length pay" by auto
      have ck: "uh_checksum ?u = le16 (pay ! 6) (pay ! 7)" by (simp add: udp_header_of_def)
      obtain r s2 pay' where v: "udp_verify src dst b (nb_data (?f buf)) ?len (uh_checksum ?u) s1 = Some (r, s2)"
        "buf_step b (pre, pay', post) s1 s2" "length pay' = length pay" "r \<longrightarrow> pay' = pay" "ns_bufs s2 = ns_bufs s1"
        "r \<longleftrightarrow> udp_good src dst ?len (uh_checksum ?u) pay"
        by (rule udp_verify_step[OF c1 s1(3) len ck])
      note u2 = udp_buf_step[OF u1(1,2) v(2)]
      have k2: "kept {b} s s2" by (rule kept_trans1[OF u1(3) u2(3)])
      have more2: "is_reass s2 = is_reass s" "udp_env.more s2 = udp_env.more s" using u1 u2 by simp_all
      have v1: "udp_verify src dst b (nb_data buf) ?len (uh_checksum ?u) s1 = Some (r, s2)" using v(1) by simp
      have nshort: "(nb_len buf < 8) = False" using short ge by simp
      have nbad: "(?len < 8 \<or> ucast ?len > nb_len buf) = False" unfolding bad using lenok by simp
      have go: "udp_input recv dev b src dst s = (if \<not> r then netbuf_free b s2
            else do {
              p \<leftarrow> udp_find_pcb dst ?dp src ?sp s2;
              if p \<noteq> 0
              then do {
                (_, s3) \<leftarrow> netbuf_pull b 8 s2;
                s4 \<leftarrow> upd_buf b (\<lambda>x. x\<lparr>nb_src_ip := Some src, nb_src_port := Some ?sp\<rparr>) s3;
                pcb \<leftarrow> us_pcb s4 p;
                if up_recv_callback pcb \<noteq> 0 then recv (up_recv_callback pcb) p b src ?sp s4
                else upd_pcb p (\<lambda>x. x\<lparr>up_recv_queue := up_recv_queue x @ [b],
                                     up_recv_queue_len := up_recv_queue_len x + 1\<rparr>) s4 }
              else do {
                orig_ip \<leftarrow> (if nb_network_header buf = 0 then Some None
                            else map_option Some (nb_read s2 b (nb_network_header buf) 20));
                ub \<leftarrow> nb_read s2 b (nb_data buf) 8;
                (_, s3) \<leftarrow> icmp_send_dest_unreachable src ICMP_PORT_UNREACHABLE orig_ip (Some ub) s2;
                netbuf_free b s3 } })"
        unfolding udp_input_def Let_def
        by (simp only: dv b0 bf(1) nshort s1(1) hb hh nbad v1 bind.bind_lunit prod.case simp_thms if_False)
      obtain p where p: "udp_find_pcb dst ?dp src ?sp s2 = Some p" "p = 0 \<or> us_pcb s2 p \<noteq> None"
        by (rule udp_find_pcb_result[OF u2(1)])
      have same: "us_pcb s2 = us_pcb s" "us_pcbs s2 = us_pcbs s" using u1 u2 by simp_all
      have ps: "udp_find_pcb dst ?dp src ?sp s = Some p" using p(1) udp_find_pcb_cong[OF same] by simp
      show ?thesis
      proof (cases r)
        case False
        have r: "udp_input recv dev b src dst s = netbuf_free b s2" using go False by simp
        show ?thesis by (rule rel[OF r u2(1,2) k2 more2]) (use False v(6) in auto)
      next
        case good: True
        have c2: "net_ok s2" "contents s2 b = Some (pre, pay, post)" using v(2,4) good by (simp_all add: buf_step_def)
        have b2: "ns_bufs s2 b = Some (?f buf)" using v(5) s1(3) by simp
        show ?thesis
        proof (cases "p = 0")
          case True
          have hi2: "header_inside s2 b"
            by (rule header_inside_step[OF hi1 c1 v(2)]) (use v(3,5) in simp_all)
          obtain oh where oh: "(if nb_network_header buf = 0 then Some None
              else map_option Some (nb_read s2 b (nb_network_header buf) 20)) = Some oh"
            using header_inside_read[OF hi2 b2] by fastforce
          have ub: "nb_read s2 b (nb_data buf) 8 = Some (take 8 pay)"
            using nb_read_data[OF c2 b2, of 0 8] ge by simp
          obtain ret s3 where s3: "icmp_send_dest_unreachable src ICMP_PORT_UNREACHABLE oh (Some (take 8 pay)) s2 = Some (ret, s3)"
            "kept {} s2 s3" "ret = 0 \<or> ret = -1" "ip_env.more s3 = ip_env.more s2" "is_reass s3 = is_reass s2"
            by (rule icmp_send_dest_unreachable_step[OF udp_okD(1,2)[OF u2(1)]])
          have m3: "icmp_env.more s3 = icmp_env.more s2" by (rule more_icmp(5)[OF s3(4)])
          have u3: "udp_ok s3" by (rule udp_ok_kept[OF u2(1) s3(2) m3]) simp
          have h3: "held b s3" by (rule held_kept[OF s3(2) m3 u2(2)]) simp
          have r: "udp_input recv dev b src dst s = netbuf_free b s3"
            unfolding go using good p(1) True oh ub s3(1) by simp
          show ?thesis
            by (rule rel[OF r u3 h3]) (use kept_trans[OF k2 s3(2)] s3(5) more2 more_udp(4)[OF m3] ps True in auto)
        next
          case False
          then obtain pcb' where pc: "us_pcb s2 p = Some pcb'" using p(2) by blast
          have n8: "8 \<le> length pay" using ge by simp
          obtain pp s3 buf3 where s3: "netbuf_pull b (of_nat 8) s2 = Some (pp, s3)"
            "buf_step b (pre @ take 8 pay, drop 8 pay, post) s2 s3" "ns_bufs s2 b = Some buf3" "pp = nb_data buf3 + of_nat 8"
            "ns_bufs s3 b = Some (buf3\<lparr>nb_data := pp, nb_len := of_nat (length pay - 8)\<rparr>)"
            by (rule netbuf_pull_ok[OF c2 n8])
          note u3 = udp_buf_step[OF u2(1,2) s3(2)]
          have c3: "net_ok s3" "contents s3 b = Some (pre @ take 8 pay, drop 8 pay, post)" using s3(2) by (simp_all add: buf_step_def)
          let ?g = "\<lambda>x. x\<lparr>nb_src_ip := Some src, nb_src_port := Some ?sp\<rparr>"
          obtain s4 where s4: "upd_buf b ?g s3 = Some s4" "buf_step b (pre @ take 8 pay, drop 8 pay, post) s3 s4"
            by (rule upd_buf_meta[OF c3 s3(5), of ?g]) simp_all
          note u4 = udp_buf_step[OF u3(1,2) s4(2)]
          have pc4: "us_pcb s4 p = Some pcb'" using pc u3(6) u4(6) by simp
          have k4: "kept {b} s s4" by (rule kept_trans1[OF k2 kept_trans1[OF u3(3) u4(3)]])
          have go4: "udp_input recv dev b src dst s =
              (if up_recv_callback pcb' \<noteq> 0 then recv (up_recv_callback pcb') p b src ?sp s4
               else upd_pcb p (\<lambda>x. x\<lparr>up_recv_queue := up_recv_queue x @ [b], up_recv_queue_len := up_recv_queue_len x + 1\<rparr>) s4)"
            unfolding go using good p(1) False s3(1) s4(1) pc4 by simp
          show ?thesis
          proof (cases "up_recv_callback pcb' = 0")
            case True
            obtain s5 where s5: "upd_pcb p (\<lambda>x. x\<lparr>up_recv_queue := up_recv_queue x @ [b], up_recv_queue_len := up_recv_queue_len x + 1\<rparr>) s4 = Some s5"
              "udp_ok s5" "low_eq s4 s5" "queue_of s5 p = queue_of s4 p @ [b]" "\<forall>q. q \<noteq> p \<longrightarrow> us_pcb s5 q = us_pcb s4 q"
              "udp_env.more s5 = udp_env.more s4"
              by (rule udp_enqueue[OF u4(1,2) pc4])
            note l5 = low_eqD[OF s5(3)]
            have run: "udp_input recv dev b src dst s = Some s5" using go4 True s5(1) by simp
            have k5: "kept {b} s s5" by (rule kept_trans1[OF k4 low_eq_kept[OF udp_okD(1)[OF u4(1)] s5(3)]])
            have "queue_of s4 = queue_of s" by (rule queued_same(2)) (use u4(6) u3(6) same in simp)
            moreover have "contents s5 b = Some (pre @ take 8 pay, drop 8 pay, post)" using l5(3) s4(2) by (simp add: buf_step_def)
            moreover have "ds_wire s5 = ds_wire s" using l5(8) u4(9) u3(9) u2(9) u1(9) by simp
            ultimately show ?thesis
              by (intro result[OF run s5(2) k5]) (use l5(12) u4(4,8) u3(4,8) more2 s5(4,6) ps in auto)
          next
            case cb: False
            obtain s5 where s5: "recv (up_recv_callback pcb') p b src ?sp s4 = Some s5" "udp_ok s5" "kept {b} s4 s5"
              "is_reass s5 = is_reass s4" "udp_env.more s5 = udp_env.more s4"
              using rc u4(1,2) unfolding recv_ok_def by blast
            have run: "udp_input recv dev b src dst s = Some s5" using go4 cb s5(1) by simp
            show ?thesis
              by (rule result[OF run s5(2) kept_trans1[OF k4 s5(3)]]) (use s5(4,5) u4(4,8) u3(4,8) more2 ps cb pc same in auto)
          qed
        qed
      qed
    qed
  qed
qed

section \<open>Checksums of all ones\<close>

lemma udp_checksum_not_ones:
  assumes "length udp \<le> 65535"
  shows "udp_checksum src dst udp len \<noteq> 0xFFFF"
proof -
  let ?p = "udp_pseudo_header src dst len"
  have ev: "even (length ?p)" "length ?p = 12" by (simp_all add: udp_pseudo_header_def)
  have u: "unat (checksum_partial 0 ?p) = word_sum ?p" by (rule checksum_partial_0) (use ev in simp)
  have "2 * word_sum ?p \<le> 65535 * 13" using word_sum_bound[of ?p] ev by simp
  moreover have "65535 * (length udp + 1) \<le> 65535 * 65536" using assms by simp
  then have "2 * word_sum udp \<le> 65535 * 65536" using word_sum_bound[of udp] by linarith
  ultimately have b: "unat (checksum_partial 0 ?p) + word_sum udp < 4294967296" using u by linarith
  have s: "unat (checksum_partial (checksum_partial 0 ?p) udp) = word_sum ?p + word_sum udp"
    using checksum_partial_sum[OF b] u by simp
  have "word_sum ?p = word_sum (bytes32 src @ bytes32 dst) + word_sum ([0, 17] @ bytes16 (htons len))"
    unfolding udp_pseudo_header_def append_assoc[symmetric] by (subst word_sum_append[symmetric]) simp_all
  moreover have "0 < word_sum ([0, 17] @ bytes16 (htons len))" by (simp add: unat_le16)
  ultimately have "checksum_partial (checksum_partial 0 ?p) udp \<noteq> 0" using s by auto
  then have "0 < unat (fold_carries (checksum_partial (checksum_partial 0 ?p) udp))"
    using fold_carries_0 by (simp add: unat_gt_0)
  then have "unat (udp_checksum src dst udp len) \<noteq> 65535"
    unfolding udp_checksum_def unat_checksum_finish by linarith
  then show ?thesis by auto
qed

text \<open>
  A datagram whose checksum field is all ones is always rejected.  The standard prescribes exactly this
  value for a datagram whose checksum computes to zero, so such a datagram of another host, though intact,
  never reaches its receiver.
\<close>

theorem udp_ones_rejected:
  assumes "net_ok s" "contents s b = Some (pre, pay, post)" "ns_bufs s b = Some buf"
    "8 \<le> unat len" "unat len \<le> length pay" "le16 (pay ! 6) (pay ! 7) = 0xFFFF"
  shows "\<exists>s'. udp_verify src dst b (nb_data buf) len 0xFFFF s = Some (False, s')"
proof -
  obtain r s' pay' where v: "udp_verify src dst b (nb_data buf) len 0xFFFF s = Some (r, s')"
    "r \<longleftrightarrow> udp_good src dst len 0xFFFF pay"
    by (rule udp_verify_step[OF assms(1-5) assms(6)[symmetric]])
  have l: "length (overwrite 6 (bytes16 0) (take (unat len) pay)) \<le> 65535"
    using assms(4,5) unat_le16_bound[of len] by simp
  have "\<not> udp_good src dst len 0xFFFF pay"
    using udp_checksum_not_ones[OF l] by (simp add: udp_good_def)
  then show ?thesis using v by simp
qed

definition ones_sample :: nb_state where
  "ones_sample = \<lparr>ns_kmalloc = [], ns_now = 0,
     ns_blocks = [0x2000 \<mapsto> replicate 128 0 @ [0, 53, 0, 53, 0, 8, 0xFF, 0xFF]],
     ns_bufs = [0x1000 \<mapsto> \<lparr>nb_head = 0x2000, nb_data = 0x2080, nb_tail = 0x2088, nb_end = 0x2088, nb_len = 8,
       nb_total_size = 136, nb_mac_header = 0, nb_network_header = 0, nb_transport_header = 0, nb_dev = 0,
       nb_src_ip = None, nb_src_port = None\<rparr>]\<rparr>"

theorem udp_ones_rejected_witness:
  "\<exists>s'. udp_verify 0x0100000A 0x0200000A 0x1000 0x2080 8 0xFFFF ones_sample = Some (False, s')"
proof -
  have ok: "net_ok ones_sample" by (simp add: net_ok_def ones_sample_def buf_ok_def)
  have c: "contents ones_sample 0x1000 = Some (replicate 128 0, [0, 53, 0, 53, 0, 8, 0xFF, 0xFF], [])"
    by (simp add: contents_def ones_sample_def split_at_def)
  have b: "ns_bufs ones_sample 0x1000 = Some (the (ns_bufs ones_sample 0x1000))" by (simp add: ones_sample_def)
  have "le16 ([0, 53, 0, 53, 0, 8, 0xFF, 0xFF] ! 6) ([0, 53, 0, 53, 0, 8, 0xFF, 0xFF] ! 7) = 0xFFFF"
    by (simp add: le16_def push_bit_eq_mult)
  from udp_ones_rejected[OF ok c b _ _ this, of 8]
  show ?thesis by (simp add: ones_sample_def)
qed

definition udp_sample :: udp_env where
  "udp_sample = ip_env.extend route_sample \<lparr>cs_callback = None,
     cs_last_ping = \<lparr>lp_id = 0, lp_seq = 0, lp_send_time = 0, lp_waiting = False\<rparr>, cs_last_rtt = -1,
     cs_ping_result = \<lparr>pr_received = False, pr_rtt = 0, pr_src_ip = 0\<rparr>,
     us_pcbs = [0x300], us_pcb = [0x300 \<mapsto> zero_udp_pcb\<lparr>up_local_port := 49152\<rparr>], us_next_ephemeral_port = 49152\<rparr>"

theorem udp_alloc_port_correct_witness:
  "\<exists>port n. udp_alloc_port udp_sample = Some (port, udp_sample\<lparr>us_next_ephemeral_port := n\<rparr>) \<and> 49152 \<le> n \<and> n \<le> 65535"
  using udp_alloc_port_correct[of udp_sample] by (simp add: udp_sample_def ip_env.extend_def) blast

end
