(* ===== verification/Tcp.thy ===== *)
theory Tcp
  imports Udp
begin

text \<open>
  The stream protocol (\<^verbatim>\<open>src/src/net/tcp.c\<close>).  Control blocks are objects under their addresses and are
  linked by their \<^verbatim>\<open>next\<close> pointers, which the code uses for the list of connections, the list of listeners
  and the queues of a listener alike; walking such a list is a partial function, since nothing in the code
  bounds it.  The segment queues private to a block are lists with the bytes inside, and of the send and
  receive buffers the model keeps the bytes they hold.  \<open>tcp_lock\<close> is explicit: taking it while it is held
  never returns, which is the value \<open>None\<close>.  Callbacks are a parameter; no code of the repository
  registers one.
\<close>

section \<open>State\<close>

datatype tcp_state_t = TCP_CLOSED | TCP_LISTEN | TCP_SYN_SENT | TCP_SYN_RECEIVED | TCP_ESTABLISHED | TCP_FIN_WAIT_1
  | TCP_FIN_WAIT_2 | TCP_CLOSE_WAIT | TCP_CLOSING | TCP_LAST_ACK | TCP_TIME_WAIT

record tcp_header_t =
  th_src_port :: u16
  th_dst_port :: u16
  th_seq_num :: u32
  th_ack_num :: u32
  th_data_offset :: u8
  th_flags :: u8
  th_window :: u16
  th_checksum :: u16
  th_urgent_ptr :: u16

definition tcp_header_of :: "u8 list \<Rightarrow> tcp_header_t" where
  "tcp_header_of bs = \<lparr>th_src_port = le16 (bs ! 0) (bs ! 1), th_dst_port = le16 (bs ! 2) (bs ! 3),
     th_seq_num = le32 (bs ! 4) (bs ! 5) (bs ! 6) (bs ! 7), th_ack_num = le32 (bs ! 8) (bs ! 9) (bs ! 10) (bs ! 11),
     th_data_offset = bs ! 12, th_flags = bs ! 13, th_window = le16 (bs ! 14) (bs ! 15),
     th_checksum = le16 (bs ! 16) (bs ! 17), th_urgent_ptr = le16 (bs ! 18) (bs ! 19)\<rparr>"

definition tcp_header_bytes :: "tcp_header_t \<Rightarrow> u8 list" where
  "tcp_header_bytes h = bytes16 (th_src_port h) @ bytes16 (th_dst_port h) @ bytes32 (th_seq_num h) @ bytes32 (th_ack_num h)
     @ [th_data_offset h, th_flags h] @ bytes16 (th_window h) @ bytes16 (th_checksum h) @ bytes16 (th_urgent_ptr h)"

definition tcp_header_len :: "tcp_header_t \<Rightarrow> u8" where
  "tcp_header_len tcp = (drop_bit 4 (th_data_offset tcp) AND 0x0F) * 4"

text \<open>A sent segment that waits for its acknowledgement, and a segment that arrived early.\<close>

record tcp_segment_t =
  sg_seq :: u32
  sg_len :: u32
  sg_data :: "u8 list option"
  sg_data_len :: u32
  sg_flags :: u8
  sg_send_time :: u32
  sg_retransmit_time :: u32
  sg_retries :: u8

record tcp_ooseq_t =
  oo_seq :: u32
  oo_len :: u32
  oo_data :: "u8 list"

record tcp_pcb_t =
  tp_local_ip :: u32
  tp_local_port :: u16
  tp_remote_ip :: u32
  tp_remote_port :: u16
  tp_state :: tcp_state_t
  tp_snd_una :: u32
  tp_snd_nxt :: u32
  tp_snd_wnd :: u32
  tp_iss :: u32
  tp_rcv_nxt :: u32
  tp_rcv_wnd :: u32
  tp_irs :: u32
  tp_mss :: u16
  tp_rto :: u32
  tp_last_send_time :: u32
  tp_unacked :: "tcp_segment_t list"
  tp_srtt :: u32
  tp_rttvar :: u32
  tp_rtt_measuring :: bool
  tp_rtt_seq :: u32
  tp_timer_retransmit :: u32
  tp_timer_time_wait :: u32
  tp_ooseq :: "tcp_ooseq_t list"
  tp_ooseq_count :: u32
  tp_cwnd :: u32
  tp_ssthresh :: u32
  tp_dup_ack_count :: u32
  tp_send_buf :: "u8 list"
  tp_send_buf_size :: u32
  tp_recv_buf :: "u8 list"
  tp_recv_buf_size :: u32
  tp_recv_read_pos :: u32
  tp_accept_queue :: u32
  tp_pending_queue :: u32
  tp_backlog :: int
  tp_pending_count :: int
  tp_listen_pcb :: u32
  tp_accept_callback :: u32
  tp_recv_callback :: u32
  tp_error_callback :: u32
  tp_callback_arg :: u32
  tp_next :: u32

record tcp_env = udp_env +
  ts_pcb :: "u32 \<Rightarrow> tcp_pcb_t option"
  ts_pcbs :: u32
  ts_listen_pcbs :: u32
  ts_lock :: bool
  ts_next_ephemeral_port :: u32
  ts_isn :: u32

abbreviation (input) TCP_FLAG_FIN :: u8 where "TCP_FLAG_FIN \<equiv> 0x01"

abbreviation (input) TCP_FLAG_SYN :: u8 where "TCP_FLAG_SYN \<equiv> 0x02"

abbreviation (input) TCP_FLAG_RST :: u8 where "TCP_FLAG_RST \<equiv> 0x04"

abbreviation (input) TCP_FLAG_PSH :: u8 where "TCP_FLAG_PSH \<equiv> 0x08"

abbreviation (input) TCP_FLAG_ACK :: u8 where "TCP_FLAG_ACK \<equiv> 0x10"

abbreviation (input) IP_PROTO_TCP :: u8 where "IP_PROTO_TCP \<equiv> 6"

abbreviation (input) TCP_RTO_MIN :: u32 where "TCP_RTO_MIN \<equiv> 200"

abbreviation (input) TCP_RTO_MAX :: u32 where "TCP_RTO_MAX \<equiv> 120000"

abbreviation (input) TCP_MAX_RETRIES :: u8 where "TCP_MAX_RETRIES \<equiv> 5"

abbreviation (input) TCP_MAX_OOSEQ :: u32 where "TCP_MAX_OOSEQ \<equiv> 8"

abbreviation (input) TCP_TIME_WAIT_TIMEOUT :: u32 where "TCP_TIME_WAIT_TIMEOUT \<equiv> 60000"

abbreviation (input) has_flag :: "u8 \<Rightarrow> u8 \<Rightarrow> bool" where "has_flag flags f \<equiv> (flags AND f \<noteq> 0)"

text \<open>Comparison of sequence numbers: the difference read as a signed number.\<close>

definition TCP_SEQ_LT :: "u32 \<Rightarrow> u32 \<Rightarrow> bool" where "TCP_SEQ_LT a b \<longleftrightarrow> sint (a - b) < 0"

definition TCP_SEQ_LEQ :: "u32 \<Rightarrow> u32 \<Rightarrow> bool" where "TCP_SEQ_LEQ a b \<longleftrightarrow> sint (a - b) \<le> 0"

definition TCP_SEQ_GT :: "u32 \<Rightarrow> u32 \<Rightarrow> bool" where "TCP_SEQ_GT a b \<longleftrightarrow> sint (a - b) > 0"

definition TCP_SEQ_GEQ :: "u32 \<Rightarrow> u32 \<Rightarrow> bool" where "TCP_SEQ_GEQ a b \<longleftrightarrow> sint (a - b) \<ge> 0"

definition TCP_SEQ_BETWEEN :: "u32 \<Rightarrow> u32 \<Rightarrow> u32 \<Rightarrow> bool" where
  "TCP_SEQ_BETWEEN a s e \<longleftrightarrow> TCP_SEQ_GEQ a s \<and> TCP_SEQ_LEQ a e"

definition upd_tcp :: "u32 \<Rightarrow> (tcp_pcb_t \<Rightarrow> tcp_pcb_t) \<Rightarrow> 'a tcp_env_scheme \<Rightarrow> 'a tcp_env_scheme option" where
  "upd_tcp p f s = do { pcb \<leftarrow> ts_pcb s p; Some (s\<lparr>ts_pcb := (ts_pcb s)(p := Some (f pcb))\<rparr>) }"

definition tcp_lock_acquire :: "'a tcp_env_scheme \<Rightarrow> 'a tcp_env_scheme option" where
  "tcp_lock_acquire s = (if ts_lock s then None else Some (s\<lparr>ts_lock := True\<rparr>))"

definition tcp_lock_release :: "'a tcp_env_scheme \<Rightarrow> 'a tcp_env_scheme" where
  "tcp_lock_release s = s\<lparr>ts_lock := False\<rparr>"

definition tcp_gen_isn :: "'a tcp_env_scheme \<Rightarrow> u32 \<times> 'a tcp_env_scheme" where
  "tcp_gen_isn s = (let isn = ts_isn s + ns_now s * 250000 in (isn, s\<lparr>ts_isn := isn\<rparr>))"

section \<open>Retransmission\<close>

definition tcp_calc_rto :: "tcp_pcb_t \<Rightarrow> u32" where
  "tcp_calc_rto pcb =
     (let rto = tp_srtt pcb div 8 + tp_rttvar pcb;
          rto1 = (if rto < TCP_RTO_MIN then TCP_RTO_MIN else rto)
      in if rto1 > TCP_RTO_MAX then TCP_RTO_MAX else rto1)"

definition tcp_update_rtt :: "u32 \<Rightarrow> tcp_pcb_t \<Rightarrow> tcp_pcb_t" where
  "tcp_update_rtt measured_rtt pcb =
     (let pcb1 = (if tp_srtt pcb = 0
                  then pcb\<lparr>tp_srtt := measured_rtt * 8, tp_rttvar := measured_rtt * 2\<rparr>
                  else let delta = measured_rtt - tp_srtt pcb div 8;
                           srtt = tp_srtt pcb + delta;
                           delta1 = (if sint delta < 0 then - delta else delta);
                           rttvar = tp_rttvar pcb + (delta1 - tp_rttvar pcb div 4)
                       in pcb\<lparr>tp_srtt := if srtt = 0 then 1 else srtt, tp_rttvar := if rttvar = 0 then 1 else rttvar\<rparr>)
      in pcb1\<lparr>tp_rto := tcp_calc_rto pcb1\<rparr>)"

definition tcp_queue_unacked :: "u32 \<Rightarrow> u32 \<Rightarrow> u8 \<Rightarrow> u8 list option \<Rightarrow> u32 \<Rightarrow> 'a tcp_env_scheme \<Rightarrow> (int \<times> 'a tcp_env_scheme) option" where
  "tcp_queue_unacked p seq flags data data_len s =
     (let (a, s1) = kmalloc_next (\<lambda>_. False) s
      in if a = 0 then Some (-1, s1)
         else let copy = (data_len > 0 \<and> data \<noteq> None);
                  (d, s2) = (if copy then kmalloc_next (\<lambda>_. False) s1 else (1, s1))
              in if d = 0 then Some (-1, s2)
                 else do {
                   s3 \<leftarrow> upd_tcp p (\<lambda>pcb.
                     let len = data_len + (if has_flag flags TCP_FLAG_SYN then 1 else 0) + (if has_flag flags TCP_FLAG_FIN then 1 else 0);
                         seg = \<lparr>sg_seq = seq, sg_len = len, sg_data = (if copy then data else None), sg_data_len = data_len,
                                sg_flags = flags, sg_send_time = ns_now s2, sg_retransmit_time = ns_now s2 + tp_rto pcb, sg_retries = 0\<rparr>
                     in pcb\<lparr>tp_unacked := tp_unacked pcb @ [seg],
                            tp_timer_retransmit := if tp_timer_retransmit pcb = 0 then sg_retransmit_time seg else tp_timer_retransmit pcb,
                            tp_rtt_seq := if tp_rtt_measuring pcb then tp_rtt_seq pcb else seq,
                            tp_rtt_measuring := True\<rparr>) s2;
                   Some (0, s3) })"

text \<open>One acknowledged segment: the sample of the round-trip time and the growth of the congestion window.  A
  division by an empty window is a fault.\<close>

definition ack_segment :: "u32 \<Rightarrow> tcp_segment_t \<Rightarrow> tcp_pcb_t \<Rightarrow> tcp_pcb_t option" where
  "ack_segment now seg pcb =
     (let pcb1 = (if tp_rtt_measuring pcb \<and> sg_retries seg = 0 \<and> TCP_SEQ_LEQ (tp_rtt_seq pcb) (sg_seq seg)
                  then (tcp_update_rtt (now - sg_send_time seg) pcb)\<lparr>tp_rtt_measuring := False\<rparr>
                  else pcb);
          mss = ucast (tp_mss pcb1)
      in if tp_cwnd pcb1 < tp_ssthresh pcb1 then Some (pcb1\<lparr>tp_cwnd := tp_cwnd pcb1 + mss\<rparr>)
         else if tp_cwnd pcb1 = 0 then None
         else Some (pcb1\<lparr>tp_cwnd := tp_cwnd pcb1 + mss * mss div tp_cwnd pcb1\<rparr>))"

primrec ack_loop :: "u32 \<Rightarrow> u32 \<Rightarrow> tcp_segment_t list \<Rightarrow> tcp_pcb_t \<Rightarrow> tcp_pcb_t option" where
  "ack_loop now ack [] pcb = Some (pcb\<lparr>tp_unacked := []\<rparr>)"
| "ack_loop now ack (seg # segs) pcb =
     (if TCP_SEQ_LEQ (sg_seq seg + sg_len seg) ack
      then do { pcb1 \<leftarrow> ack_segment now seg pcb; ack_loop now ack segs pcb1 }
      else Some (pcb\<lparr>tp_unacked := seg # segs\<rparr>))"

definition tcp_ack_received :: "u32 \<Rightarrow> u32 \<Rightarrow> tcp_pcb_t \<Rightarrow> tcp_pcb_t option" where
  "tcp_ack_received now ack pcb = do {
     pcb1 \<leftarrow> ack_loop now ack (tp_unacked pcb) pcb;
     Some (pcb1\<lparr>tp_timer_retransmit := (case tp_unacked pcb1 of [] \<Rightarrow> 0 | seg # _ \<Rightarrow> sg_retransmit_time seg),
                tp_dup_ack_count := 0\<rparr>) }"

definition tcp_free_unacked :: "tcp_pcb_t \<Rightarrow> tcp_pcb_t" where
  "tcp_free_unacked pcb = pcb\<lparr>tp_unacked := [], tp_timer_retransmit := 0\<rparr>"

section \<open>Data out of order\<close>

text \<open>\<open>None\<close> if a segment with this number is already queued.\<close>

primrec ooseq_insert :: "tcp_ooseq_t \<Rightarrow> tcp_ooseq_t list \<Rightarrow> tcp_ooseq_t list option" where
  "ooseq_insert seg [] = Some [seg]"
| "ooseq_insert seg (g # gs) =
     (if TCP_SEQ_LT (oo_seq g) (oo_seq seg) then map_option (Cons g) (ooseq_insert seg gs)
      else if oo_seq g = oo_seq seg then None
      else Some (seg # g # gs))"

text \<open>The bookkeeping of \<open>tcp_ooseq_add\<close> takes the results of its two allocations.\<close>

definition tcp_ooseq_add :: "u32 \<Rightarrow> u8 list \<Rightarrow> u32 \<Rightarrow> u32 \<times> u32 \<Rightarrow> tcp_pcb_t \<Rightarrow> int \<times> tcp_pcb_t" where
  "tcp_ooseq_add seq data len allocs pcb =
     (if tp_ooseq_count pcb \<ge> TCP_MAX_OOSEQ then (-1, pcb)
      else if \<not> TCP_SEQ_BETWEEN seq (tp_rcv_nxt pcb) (tp_rcv_nxt pcb + tp_rcv_wnd pcb) then (-1, pcb)
      else if fst allocs = 0 \<or> snd allocs = 0 then (-1, pcb)
      else case ooseq_insert \<lparr>oo_seq = seq, oo_len = len, oo_data = data\<rparr> (tp_ooseq pcb) of
             None \<Rightarrow> (0, pcb)
           | Some q \<Rightarrow> (0, pcb\<lparr>tp_ooseq := q, tp_ooseq_count := tp_ooseq_count pcb + 1\<rparr>))"

text \<open>Appending to the receive buffer, which silently drops data that does not fit.\<close>

definition recv_append :: "u8 list \<Rightarrow> u32 \<Rightarrow> tcp_pcb_t \<Rightarrow> tcp_pcb_t" where
  "recv_append data len pcb =
     (if of_nat (length (tp_recv_buf pcb)) + len \<le> tp_recv_buf_size pcb
      then pcb\<lparr>tp_recv_buf := tp_recv_buf pcb @ data\<rparr> else pcb)"

primrec merge_loop :: "tcp_ooseq_t list \<Rightarrow> tcp_pcb_t \<Rightarrow> tcp_pcb_t" where
  "merge_loop [] pcb = pcb\<lparr>tp_ooseq := []\<rparr>"
| "merge_loop (seg # segs) pcb =
     (if oo_seq seg = tp_rcv_nxt pcb
      then let pcb1 = recv_append (oo_data seg) (oo_len seg) pcb
           in merge_loop segs (pcb1\<lparr>tp_rcv_nxt := tp_rcv_nxt pcb1 + oo_len seg, tp_ooseq_count := tp_ooseq_count pcb1 - 1\<rparr>)
      else if TCP_SEQ_LT (oo_seq seg) (tp_rcv_nxt pcb)
      then merge_loop segs (pcb\<lparr>tp_ooseq_count := tp_ooseq_count pcb - 1\<rparr>)
      else pcb\<lparr>tp_ooseq := seg # segs\<rparr>)"

definition tcp_ooseq_merge :: "tcp_pcb_t \<Rightarrow> tcp_pcb_t" where
  "tcp_ooseq_merge pcb = merge_loop (tp_ooseq pcb) pcb"

definition tcp_free_ooseq :: "tcp_pcb_t \<Rightarrow> tcp_pcb_t" where
  "tcp_free_ooseq pcb = pcb\<lparr>tp_ooseq := [], tp_ooseq_count := 0\<rparr>"

definition tcp_process_data :: "u32 \<Rightarrow> u8 list \<Rightarrow> u32 \<Rightarrow> u32 \<times> u32 \<Rightarrow> tcp_pcb_t \<Rightarrow> tcp_pcb_t" where
  "tcp_process_data seq data data_len allocs pcb =
     (if data_len = 0 then pcb
      else if seq = tp_rcv_nxt pcb
      then let pcb1 = recv_append data data_len pcb
           in tcp_ooseq_merge (pcb1\<lparr>tp_rcv_nxt := tp_rcv_nxt pcb1 + data_len\<rparr>)
      else if TCP_SEQ_GT seq (tp_rcv_nxt pcb)
      then snd (tcp_ooseq_add seq data data_len allocs pcb)
      else pcb)"

text \<open>The segment queue needs two allocations, and only if it is reached.\<close>

definition tcp_process :: "u32 \<Rightarrow> u32 \<Rightarrow> u8 list \<Rightarrow> u32 \<Rightarrow> 'a tcp_env_scheme \<Rightarrow> 'a tcp_env_scheme option" where
  "tcp_process p seq data data_len s = do {
     pcb \<leftarrow> ts_pcb s p;
     let queue = (data_len \<noteq> 0 \<and> TCP_SEQ_GT seq (tp_rcv_nxt pcb) \<and> tp_ooseq_count pcb < TCP_MAX_OOSEQ
                  \<and> TCP_SEQ_BETWEEN seq (tp_rcv_nxt pcb) (tp_rcv_nxt pcb + tp_rcv_wnd pcb));
     let (a, s1) = (if queue then kmalloc_next (\<lambda>_. False) s else (0, s));
     let (d, s2) = (if queue \<and> a \<noteq> 0 then kmalloc_next (\<lambda>_. False) s1 else (0, s1));
     upd_tcp p (tcp_process_data seq data data_len (a, d)) s2 }"

section \<open>Lists of control blocks\<close>

partial_function (option) find_next :: "(u32 \<Rightarrow> tcp_pcb_t \<Rightarrow> bool) \<Rightarrow> (u32 \<Rightarrow> tcp_pcb_t option) \<Rightarrow> u32 \<Rightarrow> u32 option" where
  "find_next P st q =
     (if q = 0 then Some 0
      else do { x \<leftarrow> st q; if P q x then Some q else find_next P st (tp_next x) })"

definition tcp_find_pcb :: "u32 \<Rightarrow> u16 \<Rightarrow> u32 \<Rightarrow> u16 \<Rightarrow> 'a tcp_env_scheme \<Rightarrow> u32 option" where
  "tcp_find_pcb local_ip local_port remote_ip remote_port s = do {
     q \<leftarrow> find_next (\<lambda>_ x. tp_local_port x = local_port \<and> tp_remote_port x = remote_port \<and> tp_remote_ip x = remote_ip
            \<and> (tp_local_ip x = 0 \<or> tp_local_ip x = local_ip)) (ts_pcb s) (ts_pcbs s);
     if q \<noteq> 0 then Some q
     else find_next (\<lambda>_ x. tp_local_port x = local_port \<and> (tp_local_ip x = 0 \<or> tp_local_ip x = local_ip))
            (ts_pcb s) (ts_listen_pcbs s) }"

text \<open>The predecessor of \<open>p\<close> in a list, \<open>0\<close> if it is the head, \<open>None\<close> if it is not in the list.\<close>

partial_function (option) find_link :: "u32 \<Rightarrow> (u32 \<Rightarrow> tcp_pcb_t option) \<Rightarrow> u32 \<Rightarrow> u32 \<Rightarrow> u32 option option" where
  "find_link p st prev q =
     (if q = p then Some (Some prev)
      else if q = 0 then Some None
      else do { x \<leftarrow> st q; find_link p st q (tp_next x) })"

text \<open>Unlinking \<open>p\<close>: the new head and the new blocks, and whether it was found.\<close>

definition tcp_unlink :: "u32 \<Rightarrow> u32 \<Rightarrow> (u32 \<Rightarrow> tcp_pcb_t option) \<Rightarrow> (bool \<times> u32 \<times> (u32 \<Rightarrow> tcp_pcb_t option)) option" where
  "tcp_unlink p head st = do {
     r \<leftarrow> find_link p st 0 head;
     case r of
       None \<Rightarrow> Some (False, head, st)
     | Some prev \<Rightarrow> do {
         x \<leftarrow> st p;
         if prev = 0 then Some (True, tp_next x, st)
         else do { y \<leftarrow> st prev; Some (True, head, st(prev := Some (y\<lparr>tp_next := tp_next x\<rparr>))) } } }"

definition tcp_init :: "'a tcp_env_scheme \<Rightarrow> 'a tcp_env_scheme" where
  "tcp_init s = s\<lparr>ts_lock := False, ts_pcbs := 0, ts_listen_pcbs := 0, ts_next_ephemeral_port := 49152, ts_isn := ns_now s\<rparr>"

definition new_tcp_pcb :: tcp_pcb_t where
  "new_tcp_pcb = \<lparr>tp_local_ip = 0, tp_local_port = 0, tp_remote_ip = 0, tp_remote_port = 0, tp_state = TCP_CLOSED,
     tp_snd_una = 0, tp_snd_nxt = 0, tp_snd_wnd = 4096, tp_iss = 0, tp_rcv_nxt = 0, tp_rcv_wnd = 4096, tp_irs = 0,
     tp_mss = 1460, tp_rto = 1000, tp_last_send_time = 0, tp_unacked = [], tp_srtt = 0, tp_rttvar = 0,
     tp_rtt_measuring = False, tp_rtt_seq = 0, tp_timer_retransmit = 0, tp_timer_time_wait = 0, tp_ooseq = [],
     tp_ooseq_count = 0, tp_cwnd = 1460, tp_ssthresh = 65535, tp_dup_ack_count = 0, tp_send_buf = [],
     tp_send_buf_size = 8192, tp_recv_buf = [], tp_recv_buf_size = 8192, tp_recv_read_pos = 0, tp_accept_queue = 0,
     tp_pending_queue = 0, tp_backlog = 0, tp_pending_count = 0, tp_listen_pcb = 0, tp_accept_callback = 0,
     tp_recv_callback = 0, tp_error_callback = 0, tp_callback_arg = 0, tp_next = 0\<rparr>"

definition tcp_pcb_new :: "'a tcp_env_scheme \<Rightarrow> (u32 \<times> 'a tcp_env_scheme) option" where
  "tcp_pcb_new s =
     (let (p, s1) = kmalloc_next (\<lambda>x. ts_pcb s x \<noteq> None) s
      in if p = 0 then Some (0, s1)
         else let (rb, s2) = kmalloc_next (\<lambda>_. False) s1;
                  (sb, s3) = kmalloc_next (\<lambda>_. False) s2
              in if rb = 0 \<or> sb = 0 then Some (0, s3)
                 else do {
                   s4 \<leftarrow> tcp_lock_acquire s3;
                   Some (p, tcp_lock_release (s4\<lparr>ts_pcb := (ts_pcb s4)(p := Some (new_tcp_pcb\<lparr>tp_next := ts_pcbs s4\<rparr>)), ts_pcbs := p\<rparr>)) })"

definition tcp_pcb_free :: "u32 \<Rightarrow> 'a tcp_env_scheme \<Rightarrow> 'a tcp_env_scheme option" where
  "tcp_pcb_free p s =
     (if p = 0 then Some s
      else do {
        s1 \<leftarrow> tcp_lock_acquire s;
        (_, h, st) \<leftarrow> tcp_unlink p (ts_pcbs s1) (ts_pcb s1);
        (_, lh, st1) \<leftarrow> tcp_unlink p (ts_listen_pcbs s1) st;
        let s2 = tcp_lock_release (s1\<lparr>ts_pcb := st1, ts_pcbs := h, ts_listen_pcbs := lh\<rparr>);
        _ \<leftarrow> ts_pcb s2 p;
        Some (s2\<lparr>ts_pcb := (ts_pcb s2)(p := None)\<rparr>) })"

definition tcp_port_clash :: "u32 \<Rightarrow> u32 \<Rightarrow> u16 \<Rightarrow> u32 \<Rightarrow> tcp_pcb_t \<Rightarrow> bool" where
  "tcp_port_clash p local_ip local_port q x \<longleftrightarrow>
     q \<noteq> p \<and> tp_local_port x = local_port \<and> (tp_local_ip x = 0 \<or> local_ip = 0 \<or> tp_local_ip x = local_ip)"

definition tcp_bind :: "u32 \<Rightarrow> u32 \<Rightarrow> u16 \<Rightarrow> 'a tcp_env_scheme \<Rightarrow> (int \<times> 'a tcp_env_scheme) option" where
  "tcp_bind p local_ip local_port s =
     (if p = 0 then Some (-1, s)
      else do {
        pcb \<leftarrow> ts_pcb s p;
        if tp_state pcb \<noteq> TCP_CLOSED then Some (-1, s)
        else do {
          s1 \<leftarrow> tcp_lock_acquire s;
          q \<leftarrow> find_next (tcp_port_clash p local_ip local_port) (ts_pcb s1) (ts_pcbs s1);
          if q \<noteq> 0 then Some (-1, tcp_lock_release s1)
          else do {
            q2 \<leftarrow> find_next (tcp_port_clash p local_ip local_port) (ts_pcb s1) (ts_listen_pcbs s1);
            if q2 \<noteq> 0 then Some (-1, tcp_lock_release s1)
            else do {
              s2 \<leftarrow> upd_tcp p (\<lambda>x. x\<lparr>tp_local_ip := local_ip, tp_local_port := local_port\<rparr>) s1;
              Some (0, tcp_lock_release s2) } } } })"

definition tcp_listen :: "u32 \<Rightarrow> int \<Rightarrow> 'a tcp_env_scheme \<Rightarrow> (int \<times> 'a tcp_env_scheme) option" where
  "tcp_listen p backlog s =
     (if p = 0 then Some (-1, s)
      else do {
        pcb \<leftarrow> ts_pcb s p;
        if tp_state pcb \<noteq> TCP_CLOSED \<or> tp_local_port pcb = 0 then Some (-1, s)
        else do {
          s1 \<leftarrow> tcp_lock_acquire s;
          (_, h, st) \<leftarrow> tcp_unlink p (ts_pcbs s1) (ts_pcb s1);
          s2 \<leftarrow> upd_tcp p (\<lambda>x. x\<lparr>tp_next := ts_listen_pcbs s1, tp_state := TCP_LISTEN,
                              tp_backlog := if backlog > 0 then backlog else 5\<rparr>) (s1\<lparr>ts_pcb := st, ts_pcbs := h\<rparr>);
          Some (0, tcp_lock_release (s2\<lparr>ts_listen_pcbs := p\<rparr>)) } })"

definition tcp_accept :: "u32 \<Rightarrow> 'a tcp_env_scheme \<Rightarrow> (u32 \<times> 'a tcp_env_scheme) option" where
  "tcp_accept p s =
     (if p = 0 then Some (0, s)
      else do {
        pcb \<leftarrow> ts_pcb s p;
        if tp_state pcb \<noteq> TCP_LISTEN then Some (0, s)
        else do {
          s1 \<leftarrow> tcp_lock_acquire s;
          let q = tp_accept_queue pcb;
          if q = 0 then Some (0, tcp_lock_release s1)
          else do {
            x \<leftarrow> ts_pcb s1 q;
            s2 \<leftarrow> upd_tcp p (\<lambda>y. y\<lparr>tp_accept_queue := tp_next x\<rparr>) s1;
            s3 \<leftarrow> upd_tcp q (\<lambda>y. y\<lparr>tp_next := 0\<rparr>) s2;
            Some (q, tcp_lock_release s3) } } })"

text \<open>The search for a port is the loop of \<^verbatim>\<open>udp.c\<close> over both lists of control blocks.\<close>

definition tcp_port_in_use :: "u16 \<Rightarrow> 'a tcp_env_scheme \<Rightarrow> bool option" where
  "tcp_port_in_use port s = do {
     q \<leftarrow> find_next (\<lambda>_ x. tp_local_port x = port) (ts_pcb s) (ts_pcbs s);
     if q \<noteq> 0 then Some True
     else do {
       q2 \<leftarrow> find_next (\<lambda>_ x. tp_local_port x = port) (ts_pcb s) (ts_listen_pcbs s);
       Some (q2 \<noteq> 0) } }"

partial_function (option) tcp_port_loop :: "(u16 \<Rightarrow> bool option) \<Rightarrow> u16 \<Rightarrow> u32 \<Rightarrow> (u16 \<times> u32) option" where
  "tcp_port_loop in_use start nxt = do {
     taken \<leftarrow> in_use (ucast nxt);
     let nxt1 = (if nxt + 1 > 65535 then 49152 else nxt + 1);
     if \<not> taken then Some (ucast nxt, nxt1)
     else if nxt1 \<noteq> ucast start then tcp_port_loop in_use start nxt1
     else Some (0, nxt1) }"

definition tcp_alloc_port :: "'a tcp_env_scheme \<Rightarrow> (u16 \<times> 'a tcp_env_scheme) option" where
  "tcp_alloc_port s = do {
     s1 \<leftarrow> tcp_lock_acquire s;
     (port, nxt) \<leftarrow> tcp_port_loop (\<lambda>port. tcp_port_in_use port s1) (ucast (ts_next_ephemeral_port s1)) (ts_next_ephemeral_port s1);
     Some (port, tcp_lock_release (s1\<lparr>ts_next_ephemeral_port := nxt\<rparr>)) }"

definition tcp_accept_callback :: "u32 \<Rightarrow> u32 \<Rightarrow> u32 \<Rightarrow> 'a tcp_env_scheme \<Rightarrow> 'a tcp_env_scheme option" where
  "tcp_accept_callback p callback arg s =
     (if p = 0 then Some s else upd_tcp p (\<lambda>x. x\<lparr>tp_accept_callback := callback, tp_callback_arg := arg\<rparr>) s)"

definition tcp_recv_callback :: "u32 \<Rightarrow> u32 \<Rightarrow> u32 \<Rightarrow> 'a tcp_env_scheme \<Rightarrow> 'a tcp_env_scheme option" where
  "tcp_recv_callback p callback arg s =
     (if p = 0 then Some s else upd_tcp p (\<lambda>x. x\<lparr>tp_recv_callback := callback, tp_callback_arg := arg\<rparr>) s)"

definition tcp_state_name :: "tcp_state_t \<Rightarrow> string" where
  "tcp_state_name st = (case st of TCP_CLOSED \<Rightarrow> ''CLOSED'' | TCP_LISTEN \<Rightarrow> ''LISTEN'' | TCP_SYN_SENT \<Rightarrow> ''SYN_SENT''
     | TCP_SYN_RECEIVED \<Rightarrow> ''SYN_RECEIVED'' | TCP_ESTABLISHED \<Rightarrow> ''ESTABLISHED'' | TCP_FIN_WAIT_1 \<Rightarrow> ''FIN_WAIT_1''
     | TCP_FIN_WAIT_2 \<Rightarrow> ''FIN_WAIT_2'' | TCP_CLOSE_WAIT \<Rightarrow> ''CLOSE_WAIT'' | TCP_CLOSING \<Rightarrow> ''CLOSING''
     | TCP_LAST_ACK \<Rightarrow> ''LAST_ACK'' | TCP_TIME_WAIT \<Rightarrow> ''TIME_WAIT'')"

section \<open>Sending\<close>

definition tcp_pseudo_header :: "u32 \<Rightarrow> u32 \<Rightarrow> u16 \<Rightarrow> u8 list" where
  "tcp_pseudo_header src_ip dst_ip len = bytes32 src_ip @ bytes32 dst_ip @ [0, IP_PROTO_TCP] @ bytes16 (htons len)"

definition tcp_checksum :: "u32 \<Rightarrow> u32 \<Rightarrow> u8 list \<Rightarrow> u16 \<Rightarrow> u16" where
  "tcp_checksum src_ip dst_ip tcp len =
     checksum_finish (checksum_partial (checksum_partial 0 (tcp_pseudo_header src_ip dst_ip len)) tcp)"

text \<open>Header, data and checksum of a segment of \<open>tcp_len\<close> bytes, as the three senders write them.\<close>

definition tcp_build :: "u32 \<Rightarrow> u32 \<Rightarrow> u32 \<Rightarrow> u32 \<Rightarrow> tcp_header_t \<Rightarrow> u8 list option \<Rightarrow> 'a nb_state_scheme \<Rightarrow> 'a nb_state_scheme option" where
  "tcp_build b tcp_len src_ip dst_ip header data s = do {
     (pkt, s1) \<leftarrow> netbuf_put b tcp_len s;
     s2 \<leftarrow> nb_write b pkt (tcp_header_bytes header) s1;
     s3 \<leftarrow> (case data of None \<Rightarrow> Some s2 | Some bs \<Rightarrow> if bs \<noteq> [] then nb_write b (pkt + 20) bs s2 else Some s2);
     bs \<leftarrow> nb_read s3 b pkt (unat (ucast tcp_len :: u16));
     nb_write b (pkt + 16) (bytes16 (tcp_checksum src_ip dst_ip bs (ucast tcp_len))) s3 }"

definition tcp_header_out :: "tcp_pcb_t \<Rightarrow> u32 \<Rightarrow> u8 \<Rightarrow> tcp_header_t" where
  "tcp_header_out pcb seq flags = \<lparr>th_src_port = htons (tp_local_port pcb), th_dst_port = htons (tp_remote_port pcb),
     th_seq_num = htonl seq, th_ack_num = htonl (tp_rcv_nxt pcb), th_data_offset = 0x50, th_flags = flags,
     th_window = htons (ucast (tp_rcv_wnd pcb)), th_checksum = 0, th_urgent_ptr = 0\<rparr>"

definition tcp_source_ip :: "tcp_pcb_t \<Rightarrow> netdev_t \<Rightarrow> u32" where
  "tcp_source_ip pcb d = (if tp_local_ip pcb \<noteq> 0 then tp_local_ip pcb else nd_ip_addr d)"

definition tcp_send_segment :: "u32 \<Rightarrow> u8 \<Rightarrow> u8 list option \<Rightarrow> u32 \<Rightarrow> 'a tcp_env_scheme \<Rightarrow> (int \<times> 'a tcp_env_scheme) option" where
  "tcp_send_segment p flags data len s =
     (let dev = netdev_get_default s
      in if dev = 0 then Some (-1, s)
         else let (b, s1) = netbuf_alloc (20 + len) s
              in if b = 0 then Some (-1, s1)
                 else do {
                   pcb \<leftarrow> ts_pcb s1 p;
                   d \<leftarrow> ds_devs s1 dev;
                   s2 \<leftarrow> tcp_build b (20 + len) (tcp_source_ip pcb d) (tp_remote_ip pcb) (tcp_header_out pcb (tp_snd_nxt pcb) flags) data s1;
                   s3 \<leftarrow> upd_tcp p (\<lambda>x. x\<lparr>tp_snd_nxt := tp_snd_nxt x + (if has_flag flags TCP_FLAG_SYN then 1 else 0)
                          + (if has_flag flags TCP_FLAG_FIN then 1 else 0) + len, tp_last_send_time := ns_now s2\<rparr>) s2;
                   (ret, s4) \<leftarrow> send_or_release dev b (tp_remote_ip pcb) IP_PROTO_TCP s3;
                   if ret < 0 then Some (ret, s4)
                   else do {
                     pcb1 \<leftarrow> ts_pcb s4 p;
                     if (has_flag flags TCP_FLAG_SYN \<or> has_flag flags TCP_FLAG_FIN \<or> len > 0) \<and> tp_state pcb1 \<noteq> TCP_LISTEN
                     then do { (_, s5) \<leftarrow> tcp_queue_unacked p (tp_snd_nxt pcb) flags data len s4; Some (ret, s5) }
                     else Some (ret, s4) } })"

definition tcp_send_rst :: "u32 \<Rightarrow> u32 \<Rightarrow> u16 \<Rightarrow> u16 \<Rightarrow> u32 \<Rightarrow> u32 \<Rightarrow> bool \<Rightarrow> 'a tcp_env_scheme \<Rightarrow> 'a tcp_env_scheme option" where
  "tcp_send_rst src_ip dst_ip src_port dst_port seq ack ack_valid s =
     (let dev = netdev_get_default s
      in if dev = 0 then Some s
         else let (b, s1) = netbuf_alloc 20 s
              in if b = 0 then Some s1
                 else do {
                   s2 \<leftarrow> tcp_build b 20 src_ip dst_ip \<lparr>th_src_port = htons src_port, th_dst_port = htons dst_port,
                     th_seq_num = htonl seq, th_ack_num = htonl ack, th_data_offset = 0x50,
                     th_flags = TCP_FLAG_RST OR (if ack_valid then TCP_FLAG_ACK else 0),
                     th_window = 0, th_checksum = 0, th_urgent_ptr = 0\<rparr> None s1;
                   (_, s3) \<leftarrow> send_or_release dev b dst_ip IP_PROTO_TCP s2;
                   Some s3 })"

text \<open>The head of the queue of unacknowledged segments changed in place.\<close>

definition upd_first :: "(tcp_segment_t \<Rightarrow> tcp_segment_t) \<Rightarrow> tcp_pcb_t \<Rightarrow> tcp_pcb_t" where
  "upd_first f pcb = pcb\<lparr>tp_unacked := (case tp_unacked pcb of [] \<Rightarrow> [] | seg # segs \<Rightarrow> f seg # segs)\<rparr>"

definition halved_threshold :: "tcp_pcb_t \<Rightarrow> u32" where
  "halved_threshold pcb =
     (let half = tp_cwnd pcb div 2 in if half < 2 * ucast (tp_mss pcb) then 2 * ucast (tp_mss pcb) else half)"

definition tcp_dup_ack :: "u32 \<Rightarrow> 'a tcp_env_scheme \<Rightarrow> 'a tcp_env_scheme option" where
  "tcp_dup_ack p s = do {
     s1 \<leftarrow> upd_tcp p (\<lambda>x. x\<lparr>tp_dup_ack_count := tp_dup_ack_count x + 1\<rparr>) s;
     pcb \<leftarrow> ts_pcb s1 p;
     case tp_unacked pcb of
       [] \<Rightarrow> Some s1
     | seg # _ \<Rightarrow>
         if tp_dup_ack_count pcb \<noteq> 3 then Some s1
         else do {
           s2 \<leftarrow> upd_tcp p (\<lambda>x. x\<lparr>tp_ssthresh := halved_threshold x, tp_cwnd := halved_threshold x + 3 * ucast (tp_mss x)\<rparr>) s1;
           (_, s3) \<leftarrow> tcp_send_segment p (sg_flags seg OR TCP_FLAG_ACK) (sg_data seg) (sg_data_len seg) s2;
           upd_tcp p (\<lambda>x. upd_first (\<lambda>g. g\<lparr>sg_retries := sg_retries g + 1, sg_retransmit_time := ns_now s3 + tp_rto x\<rparr>) x) s3 } }"

definition tcp_connect :: "u32 \<Rightarrow> u32 \<Rightarrow> u16 \<Rightarrow> 'a tcp_env_scheme \<Rightarrow> (int \<times> 'a tcp_env_scheme) option" where
  "tcp_connect p remote_ip remote_port s =
     (if p = 0 then Some (-1, s)
      else do {
        pcb \<leftarrow> ts_pcb s p;
        if tp_state pcb \<noteq> TCP_CLOSED then Some (-1, s)
        else do {
          (port, s1) \<leftarrow> (if tp_local_port pcb = 0 then tcp_alloc_port s else Some (tp_local_port pcb, s));
          s2 \<leftarrow> upd_tcp p (\<lambda>x. x\<lparr>tp_local_port := port\<rparr>) s1;
          if port = 0 then Some (-1, s2)
          else do {
            let (isn, s3) = tcp_gen_isn s2;
            s4 \<leftarrow> upd_tcp p (\<lambda>x. x\<lparr>tp_remote_ip := remote_ip, tp_remote_port := remote_port, tp_iss := isn,
                               tp_snd_una := isn, tp_snd_nxt := isn, tp_state := TCP_SYN_SENT\<rparr>) s3;
            tcp_send_segment p TCP_FLAG_SYN None 0 s4 } } })"

text \<open>The test for room is on 32-bit numbers; a copy beyond the buffer is a fault.\<close>

definition tcp_write :: "u32 \<Rightarrow> u8 list option \<Rightarrow> u32 \<Rightarrow> 'a tcp_env_scheme \<Rightarrow> (int \<times> 'a tcp_env_scheme) option" where
  "tcp_write p data len s =
     (if p = 0 \<or> data = None \<or> len = 0 then Some (-1, s)
      else do {
        pcb \<leftarrow> ts_pcb s p;
        if tp_state pcb \<noteq> TCP_ESTABLISHED \<and> tp_state pcb \<noteq> TCP_CLOSE_WAIT then Some (-1, s)
        else do {
          let room = tp_send_buf_size pcb - of_nat (length (tp_send_buf pcb));
          let copy_len = (if of_nat (length (tp_send_buf pcb)) + len > tp_send_buf_size pcb then room else len);
          if copy_len = 0 then Some (0, s)
          else if length (tp_send_buf pcb) + unat copy_len > unat (tp_send_buf_size pcb) then None
          else do {
            s1 \<leftarrow> upd_tcp p (\<lambda>x. x\<lparr>tp_send_buf := tp_send_buf x @ take (unat copy_len) (the data)\<rparr>) s;
            let send_len = (if copy_len > ucast (tp_mss pcb) then ucast (tp_mss pcb) else copy_len);
            pcb1 \<leftarrow> ts_pcb s1 p;
            (_, s2) \<leftarrow> tcp_send_segment p (TCP_FLAG_ACK OR TCP_FLAG_PSH) (Some (take (unat send_len) (tp_send_buf pcb1))) send_len s1;
            s3 \<leftarrow> upd_tcp p (\<lambda>x. x\<lparr>tp_send_buf := drop (unat send_len) (tp_send_buf x)\<rparr>) s2;
            Some (sint copy_len, s3) } } })"

text \<open>Result: the return value and the bytes copied to the caller.\<close>

definition tcp_read :: "u32 \<Rightarrow> u32 \<Rightarrow> 'a tcp_env_scheme \<Rightarrow> (int \<times> u8 list \<times> 'a tcp_env_scheme) option" where
  "tcp_read p len s =
     (if p = 0 \<or> len = 0 then Some (-1, [], s)
      else do {
        pcb \<leftarrow> ts_pcb s p;
        if tp_recv_buf pcb = []
        then Some (if tp_state pcb = TCP_CLOSE_WAIT \<or> tp_state pcb = TCP_CLOSED then 0 else -1, [], s)
        else do {
          let avail = of_nat (length (tp_recv_buf pcb)) - tp_recv_read_pos pcb;
          let copy_len = (if len > avail then avail else len);
          let pos = tp_recv_read_pos pcb + copy_len;
          s1 \<leftarrow> upd_tcp p (\<lambda>x. if pos \<ge> of_nat (length (tp_recv_buf x)) then x\<lparr>tp_recv_buf := [], tp_recv_read_pos := 0\<rparr>
                              else x\<lparr>tp_recv_read_pos := pos\<rparr>) s;
          Some (sint copy_len, take (unat copy_len) (drop (unat (tp_recv_read_pos pcb)) (tp_recv_buf pcb)), s1) } })"

definition tcp_close :: "u32 \<Rightarrow> 'a tcp_env_scheme \<Rightarrow> (int \<times> 'a tcp_env_scheme) option" where
  "tcp_close p s =
     (if p = 0 then Some (-1, s)
      else do {
        pcb \<leftarrow> ts_pcb s p;
        let st = tp_state pcb;
        if st \<in> {TCP_CLOSED, TCP_LISTEN, TCP_SYN_SENT}
        then do { s1 \<leftarrow> upd_tcp p (\<lambda>x. x\<lparr>tp_state := TCP_CLOSED\<rparr>) s; Some (0, s1) }
        else if st \<in> {TCP_SYN_RECEIVED, TCP_ESTABLISHED, TCP_CLOSE_WAIT}
        then do {
          s1 \<leftarrow> upd_tcp p (\<lambda>x. x\<lparr>tp_state := if st = TCP_CLOSE_WAIT then TCP_LAST_ACK else TCP_FIN_WAIT_1\<rparr>) s;
          (_, s2) \<leftarrow> tcp_send_segment p (TCP_FLAG_FIN OR TCP_FLAG_ACK) None 0 s1;
          Some (0, s2) }
        else Some (-1, s) })"

definition tcp_abort :: "u32 \<Rightarrow> 'a tcp_env_scheme \<Rightarrow> 'a tcp_env_scheme option" where
  "tcp_abort p s =
     (if p = 0 then Some s
      else do {
        pcb \<leftarrow> ts_pcb s p;
        s1 \<leftarrow> (if tp_state pcb \<noteq> TCP_CLOSED \<and> tp_state pcb \<noteq> TCP_LISTEN \<and> netdev_get_default s \<noteq> 0
               then do { d \<leftarrow> ds_devs s (netdev_get_default s);
                         tcp_send_rst (nd_ip_addr d) (tp_remote_ip pcb) (tp_local_port pcb) (tp_remote_port pcb) (tp_snd_nxt pcb) 0 False s }
               else Some s);
        upd_tcp p (\<lambda>x. x\<lparr>tp_state := TCP_CLOSED\<rparr>) s1 })"

section \<open>Receiving\<close>

datatype tcp_callback = Accept_cb u32 u32 u32 | Recv_cb u32 u32 u32 | Error_cb u32 u32 u32

text \<open>What \<open>tcp_input\<close> reads of a segment before it takes the lock.\<close>

record tcp_arrival =
  ta_buf :: u32
  ta_src_ip :: u32
  ta_dst_ip :: u32
  ta_src_port :: u16
  ta_dst_port :: u16
  ta_seq :: u32
  ta_ack :: u32
  ta_flags :: u8
  ta_data :: "u8 list"

abbreviation (input) ta_data_len :: "tcp_arrival \<Rightarrow> u32" where "ta_data_len a \<equiv> of_nat (length (ta_data a))"

definition input_done :: "tcp_arrival \<Rightarrow> 'a tcp_env_scheme \<Rightarrow> 'a tcp_env_scheme option" where
  "input_done a s = netbuf_free (ta_buf a) (tcp_lock_release s)"

text \<open>The paths that answer with a segment: unlock, send, release the buffer.\<close>

definition input_answer :: "tcp_arrival \<Rightarrow> u32 \<Rightarrow> u8 \<Rightarrow> 'a tcp_env_scheme \<Rightarrow> 'a tcp_env_scheme option" where
  "input_answer a p flags s = do {
     (_, s1) \<leftarrow> tcp_send_segment p flags None 0 (tcp_lock_release s);
     netbuf_free (ta_buf a) s1 }"

definition input_reset :: "tcp_arrival \<Rightarrow> 'a tcp_env_scheme \<Rightarrow> 'a tcp_env_scheme option" where
  "input_reset a s = tcp_send_rst (ta_dst_ip a) (ta_src_ip a) (ta_dst_port a) (ta_src_port a) (ta_ack a) 0 False s"

definition input_call :: "(tcp_callback \<Rightarrow> 'a tcp_env_scheme \<Rightarrow> 'a tcp_env_scheme option)
    \<Rightarrow> tcp_arrival \<Rightarrow> tcp_callback \<Rightarrow> 'a tcp_env_scheme \<Rightarrow> 'a tcp_env_scheme option" where
  "input_call call a cb s = do { s1 \<leftarrow> call cb (tcp_lock_release s); netbuf_free (ta_buf a) s1 }"

definition input_no_pcb :: "tcp_arrival \<Rightarrow> 'a tcp_env_scheme \<Rightarrow> 'a tcp_env_scheme option" where
  "input_no_pcb a s = do {
     s2 \<leftarrow> (if has_flag (ta_flags a) TCP_FLAG_RST then Some (tcp_lock_release s)
            else if has_flag (ta_flags a) TCP_FLAG_ACK then input_reset a (tcp_lock_release s)
            else tcp_send_rst (ta_dst_ip a) (ta_src_ip a) (ta_dst_port a) (ta_src_port a) 0
                   (ta_seq a + ta_data_len a + (if has_flag (ta_flags a) TCP_FLAG_SYN then 1 else 0)
                     + (if has_flag (ta_flags a) TCP_FLAG_FIN then 1 else 0)) True (tcp_lock_release s));
     netbuf_free (ta_buf a) s2 }"

definition input_listen :: "tcp_arrival \<Rightarrow> u32 \<Rightarrow> tcp_pcb_t \<Rightarrow> 'a tcp_env_scheme \<Rightarrow> 'a tcp_env_scheme option" where
  "input_listen a p pcb s =
     (if has_flag (ta_flags a) TCP_FLAG_RST then input_done a s
      else if has_flag (ta_flags a) TCP_FLAG_ACK then do { s1 \<leftarrow> input_reset a s; input_done a s1 }
      else if has_flag (ta_flags a) TCP_FLAG_SYN
      then if tp_pending_count pcb \<ge> tp_backlog pcb then input_done a s
           else do {
             (q, s1) \<leftarrow> tcp_pcb_new s;
             if q = 0 then input_done a s1
             else do {
               let (isn, s2) = tcp_gen_isn s1;
               s3 \<leftarrow> upd_tcp q (\<lambda>x. x\<lparr>tp_local_ip := ta_dst_ip a, tp_local_port := ta_dst_port a,
                        tp_remote_ip := ta_src_ip a, tp_remote_port := ta_src_port a, tp_state := TCP_SYN_RECEIVED,
                        tp_irs := ta_seq a, tp_rcv_nxt := ta_seq a + 1, tp_iss := isn, tp_snd_nxt := isn, tp_snd_una := isn,
                        tp_listen_pcb := p, tp_next := tp_pending_queue pcb\<rparr>) s2;
               s4 \<leftarrow> upd_tcp p (\<lambda>x. x\<lparr>tp_pending_queue := q, tp_pending_count := tp_pending_count x + 1\<rparr>) s3;
               input_answer a q (TCP_FLAG_SYN OR TCP_FLAG_ACK) s4 } }
      else input_done a s)"

definition input_syn_sent :: "(tcp_callback \<Rightarrow> 'a tcp_env_scheme \<Rightarrow> 'a tcp_env_scheme option)
    \<Rightarrow> tcp_arrival \<Rightarrow> u32 \<Rightarrow> tcp_pcb_t \<Rightarrow> 'a tcp_env_scheme \<Rightarrow> 'a tcp_env_scheme option" where
  "input_syn_sent call a p pcb s =
     (if has_flag (ta_flags a) TCP_FLAG_ACK \<and> ta_ack a \<noteq> tp_snd_nxt pcb
      then do {
        s1 \<leftarrow> (if has_flag (ta_flags a) TCP_FLAG_RST then Some s else input_reset a s);
        input_done a s1 }
      else if has_flag (ta_flags a) TCP_FLAG_RST
      then if has_flag (ta_flags a) TCP_FLAG_ACK
           then do {
             s1 \<leftarrow> upd_tcp p (\<lambda>x. x\<lparr>tp_state := TCP_CLOSED\<rparr>) s;
             if tp_error_callback pcb \<noteq> 0 then input_call call a (Error_cb (tp_error_callback pcb) p (tp_callback_arg pcb)) s1
             else input_done a s1 }
           else input_done a s
      else if has_flag (ta_flags a) TCP_FLAG_SYN
      then do {
        let una = (if has_flag (ta_flags a) TCP_FLAG_ACK then ta_ack a else tp_snd_una pcb);
        let established = TCP_SEQ_GT una (tp_iss pcb);
        s1 \<leftarrow> upd_tcp p (\<lambda>x. x\<lparr>tp_irs := ta_seq a, tp_rcv_nxt := ta_seq a + 1, tp_snd_una := una,
                           tp_state := if established then TCP_ESTABLISHED else TCP_SYN_RECEIVED\<rparr>) s;
        input_answer a p (if established then TCP_FLAG_ACK else TCP_FLAG_SYN OR TCP_FLAG_ACK) s1 }
      else input_done a s)"

definition input_syn_received :: "(tcp_callback \<Rightarrow> 'a tcp_env_scheme \<Rightarrow> 'a tcp_env_scheme option)
    \<Rightarrow> tcp_arrival \<Rightarrow> u32 \<Rightarrow> tcp_pcb_t \<Rightarrow> 'a tcp_env_scheme \<Rightarrow> 'a tcp_env_scheme option" where
  "input_syn_received call a p pcb s =
     (if has_flag (ta_flags a) TCP_FLAG_RST
      then do { s1 \<leftarrow> upd_tcp p (\<lambda>x. x\<lparr>tp_state := TCP_CLOSED\<rparr>) s; input_done a s1 }
      else if has_flag (ta_flags a) TCP_FLAG_ACK \<and> ta_ack a = tp_snd_nxt pcb
      then do {
        s1 \<leftarrow> upd_tcp p (\<lambda>x. x\<lparr>tp_snd_una := ta_ack a, tp_state := TCP_ESTABLISHED\<rparr>) s;
        let l = tp_listen_pcb pcb;
        if l = 0 then input_done a s1
        else do {
          lst \<leftarrow> ts_pcb s1 l;
          (found, h, st) \<leftarrow> tcp_unlink p (tp_pending_queue lst) (ts_pcb s1);
          s2 \<leftarrow> upd_tcp l (\<lambda>x. x\<lparr>tp_pending_queue := h,
                             tp_pending_count := if found then tp_pending_count x - 1 else tp_pending_count x\<rparr>)
                  (s1\<lparr>ts_pcb := st\<rparr>);
          lst2 \<leftarrow> ts_pcb s2 l;
          s3 \<leftarrow> upd_tcp p (\<lambda>x. x\<lparr>tp_next := tp_accept_queue lst2, tp_listen_pcb := 0\<rparr>) s2;
          s4 \<leftarrow> upd_tcp l (\<lambda>x. x\<lparr>tp_accept_queue := p\<rparr>) s3;
          if tp_accept_callback lst2 \<noteq> 0
          then input_call call a (Accept_cb (tp_accept_callback lst2) p (tp_callback_arg lst2)) s4
          else input_done a s4 } }
      else input_done a s)"

definition input_ack :: "tcp_arrival \<Rightarrow> u32 \<Rightarrow> 'a tcp_env_scheme \<Rightarrow> 'a tcp_env_scheme option" where
  "input_ack a p s =
     (if \<not> has_flag (ta_flags a) TCP_FLAG_ACK then Some s
      else do {
        pcb \<leftarrow> ts_pcb s p;
        s1 \<leftarrow> (if TCP_SEQ_GT (ta_ack a) (tp_snd_una pcb) \<and> TCP_SEQ_LEQ (ta_ack a) (tp_snd_nxt pcb)
               then do {
                 pcb1 \<leftarrow> tcp_ack_received (ns_now s) (ta_ack a) (pcb\<lparr>tp_snd_una := ta_ack a\<rparr>);
                 upd_tcp p (\<lambda>_. pcb1) s }
               else if ta_ack a = tp_snd_una pcb \<and> tp_unacked pcb \<noteq> [] then tcp_dup_ack p s
               else Some s);
        upd_tcp p (\<lambda>x. if tp_state x = TCP_FIN_WAIT_1 \<and> ta_ack a = tp_snd_nxt x then x\<lparr>tp_state := TCP_FIN_WAIT_2\<rparr> else x) s1 })"

definition input_fin :: "u32 \<Rightarrow> tcp_pcb_t \<Rightarrow> tcp_pcb_t" where
  "input_fin now pcb =
     (let pcb1 = pcb\<lparr>tp_rcv_nxt := tp_rcv_nxt pcb + 1\<rparr>
      in case tp_state pcb of
           TCP_ESTABLISHED \<Rightarrow> pcb1\<lparr>tp_state := TCP_CLOSE_WAIT\<rparr>
         | TCP_FIN_WAIT_1 \<Rightarrow> pcb1\<lparr>tp_state := TCP_CLOSING\<rparr>
         | TCP_FIN_WAIT_2 \<Rightarrow> tcp_free_unacked (pcb1\<lparr>tp_state := TCP_TIME_WAIT, tp_timer_time_wait := now + TCP_TIME_WAIT_TIMEOUT\<rparr>)
         | _ \<Rightarrow> pcb1)"

definition input_established :: "(tcp_callback \<Rightarrow> 'a tcp_env_scheme \<Rightarrow> 'a tcp_env_scheme option)
    \<Rightarrow> tcp_arrival \<Rightarrow> u32 \<Rightarrow> tcp_pcb_t \<Rightarrow> 'a tcp_env_scheme \<Rightarrow> 'a tcp_env_scheme option" where
  "input_established call a p pcb s =
     (if has_flag (ta_flags a) TCP_FLAG_RST
      then do {
        s1 \<leftarrow> upd_tcp p (\<lambda>x. tcp_free_ooseq (tcp_free_unacked (x\<lparr>tp_state := TCP_CLOSED\<rparr>))) s;
        if tp_error_callback pcb \<noteq> 0 then input_call call a (Error_cb (tp_error_callback pcb) p (tp_callback_arg pcb)) s1
        else input_done a s1 }
      else do {
        s1 \<leftarrow> input_ack a p s;
        before \<leftarrow> ts_pcb s1 p;
        s2 \<leftarrow> (if ta_data a \<noteq> [] then tcp_process p (ta_seq a) (ta_data a) (ta_data_len a) s1 else Some s1);
        after \<leftarrow> ts_pcb s2 p;
        if ta_data a \<noteq> [] \<and> tp_rcv_nxt after \<noteq> tp_rcv_nxt before
        then do {
          (_, s3) \<leftarrow> tcp_send_segment p TCP_FLAG_ACK None 0 (tcp_lock_release s2);
          pcb3 \<leftarrow> ts_pcb s3 p;
          s4 \<leftarrow> (if tp_recv_callback pcb3 \<noteq> 0 then call (Recv_cb (tp_recv_callback pcb3) p (tp_callback_arg pcb3)) s3 else Some s3);
          netbuf_free (ta_buf a) s4 }
        else if ta_data a \<noteq> [] \<and> TCP_SEQ_GT (ta_seq a) (tp_rcv_nxt after) then input_answer a p TCP_FLAG_ACK s2
        else if has_flag (ta_flags a) TCP_FLAG_FIN
        then do { s3 \<leftarrow> upd_tcp p (input_fin (ns_now s2)) s2; input_answer a p TCP_FLAG_ACK s3 }
        else input_done a s2 })"

text \<open>The last acknowledgement in \<open>CLOSING\<close> and \<open>LAST_ACK\<close>.\<close>

definition input_last :: "tcp_state_t \<Rightarrow> tcp_arrival \<Rightarrow> u32 \<Rightarrow> tcp_pcb_t \<Rightarrow> 'a tcp_env_scheme \<Rightarrow> 'a tcp_env_scheme option" where
  "input_last st a p pcb s =
     (if has_flag (ta_flags a) TCP_FLAG_ACK \<and> ta_ack a = tp_snd_nxt pcb
      then do { s1 \<leftarrow> upd_tcp p (\<lambda>x. x\<lparr>tp_state := st\<rparr>) s; input_done a s1 }
      else input_done a s)"

definition input_state :: "(tcp_callback \<Rightarrow> 'a tcp_env_scheme \<Rightarrow> 'a tcp_env_scheme option)
    \<Rightarrow> tcp_arrival \<Rightarrow> u32 \<Rightarrow> tcp_pcb_t \<Rightarrow> 'a tcp_env_scheme \<Rightarrow> 'a tcp_env_scheme option" where
  "input_state call a p pcb s =
     (case tp_state pcb of
        TCP_LISTEN \<Rightarrow> input_listen a p pcb s
      | TCP_SYN_SENT \<Rightarrow> input_syn_sent call a p pcb s
      | TCP_SYN_RECEIVED \<Rightarrow> input_syn_received call a p pcb s
      | TCP_ESTABLISHED \<Rightarrow> input_established call a p pcb s
      | TCP_FIN_WAIT_1 \<Rightarrow> input_established call a p pcb s
      | TCP_FIN_WAIT_2 \<Rightarrow> input_established call a p pcb s
      | TCP_CLOSE_WAIT \<Rightarrow> input_established call a p pcb s
      | TCP_CLOSING \<Rightarrow> input_last TCP_TIME_WAIT a p pcb s
      | TCP_LAST_ACK \<Rightarrow> input_last TCP_CLOSED a p pcb s
      | TCP_CLOSED \<Rightarrow> input_done a s
      | TCP_TIME_WAIT \<Rightarrow> input_done a s)"

definition input_locked :: "(tcp_callback \<Rightarrow> 'a tcp_env_scheme \<Rightarrow> 'a tcp_env_scheme option)
    \<Rightarrow> tcp_arrival \<Rightarrow> 'a tcp_env_scheme \<Rightarrow> 'a tcp_env_scheme option" where
  "input_locked call a s = do {
     s1 \<leftarrow> tcp_lock_acquire s;
     p \<leftarrow> tcp_find_pcb (ta_dst_ip a) (ta_dst_port a) (ta_src_ip a) (ta_src_port a) s1;
     if p = 0 then input_no_pcb a s1
     else do { pcb \<leftarrow> ts_pcb s1 p; input_state call a p pcb s1 } }"

definition arrival_of :: "u32 \<Rightarrow> u32 \<Rightarrow> u32 \<Rightarrow> tcp_header_t \<Rightarrow> u8 list \<Rightarrow> tcp_arrival" where
  "arrival_of b src_ip dst_ip tcp data = \<lparr>ta_buf = b, ta_src_ip = src_ip, ta_dst_ip = dst_ip,
     ta_src_port = ntohs (th_src_port tcp), ta_dst_port = ntohs (th_dst_port tcp),
     ta_seq = ntohl (th_seq_num tcp), ta_ack = ntohl (th_ack_num tcp), ta_flags = th_flags tcp, ta_data = data\<rparr>"

definition tcp_input :: "(tcp_callback \<Rightarrow> 'a tcp_env_scheme \<Rightarrow> 'a tcp_env_scheme option)
    \<Rightarrow> u32 \<Rightarrow> u32 \<Rightarrow> u32 \<Rightarrow> u32 \<Rightarrow> 'a tcp_env_scheme \<Rightarrow> 'a tcp_env_scheme option" where
  "tcp_input call dev b src_ip dst_ip s =
     (if dev = 0 \<or> b = 0 then Some s
      else do {
        buf \<leftarrow> ns_bufs s b;
        if nb_len buf < 20 then netbuf_free b s
        else do {
          s1 \<leftarrow> upd_buf b (\<lambda>x. x\<lparr>nb_transport_header := nb_data x\<rparr>) s;
          hb \<leftarrow> nb_read s1 b (nb_data buf) 20;
          let tcp = tcp_header_of hb;
          let hdr_len = tcp_header_len tcp;
          if hdr_len < 20 \<or> ucast hdr_len > nb_len buf then netbuf_free b s1
          else do {
            s2 \<leftarrow> nb_write b (nb_data buf + 16) (bytes16 0) s1;
            bs \<leftarrow> nb_read s2 b (nb_data buf) (unat (ucast (nb_len buf) :: u16));
            if tcp_checksum src_ip dst_ip bs (ucast (nb_len buf)) \<noteq> th_checksum tcp then netbuf_free b s2
            else do {
              s3 \<leftarrow> nb_write b (nb_data buf + 16) (bytes16 (th_checksum tcp)) s2;
              data \<leftarrow> nb_read s3 b (nb_data buf + ucast hdr_len) (unat (nb_len buf - ucast hdr_len));
              input_locked call (arrival_of b src_ip dst_ip tcp data) s3 } } } })"

section \<open>Timers\<close>

definition tcp_resend :: "u32 \<Rightarrow> tcp_segment_t \<Rightarrow> 'a tcp_env_scheme \<Rightarrow> 'a tcp_env_scheme option" where
  "tcp_resend p seg s =
     (let dev = netdev_get_default s
      in if dev = 0 then Some s
         else let (b, s1) = netbuf_alloc (20 + sg_data_len seg) s
              in if b = 0 then Some s1
                 else do {
                   pcb \<leftarrow> ts_pcb s1 p;
                   d \<leftarrow> ds_devs s1 dev;
                   s2 \<leftarrow> tcp_build b (20 + sg_data_len seg) (tcp_source_ip pcb d) (tp_remote_ip pcb)
                           (tcp_header_out pcb (sg_seq seg) (sg_flags seg OR TCP_FLAG_ACK)) (sg_data seg) s1;
                   (_, s3) \<leftarrow> send_or_release dev b (tp_remote_ip pcb) IP_PROTO_TCP s2;
                   Some s3 })"

definition timer_backoff :: "u32 \<Rightarrow> tcp_pcb_t \<Rightarrow> tcp_pcb_t" where
  "timer_backoff now pcb =
     (case tp_unacked pcb of [] \<Rightarrow> pcb
      | seg # segs \<Rightarrow>
          let retries = sg_retries seg + 1;
              rto = tp_rto pcb * push_bit (unat retries) 1;
              due = now + (if rto > TCP_RTO_MAX then TCP_RTO_MAX else rto)
          in pcb\<lparr>tp_unacked := seg\<lparr>sg_retries := retries, sg_retransmit_time := due\<rparr> # segs, tp_timer_retransmit := due,
                 tp_ssthresh := halved_threshold pcb, tp_cwnd := ucast (tp_mss pcb)\<rparr>)"

definition timer_retransmit :: "(tcp_callback \<Rightarrow> 'a tcp_env_scheme \<Rightarrow> 'a tcp_env_scheme option)
    \<Rightarrow> u32 \<Rightarrow> u32 \<Rightarrow> 'a tcp_env_scheme \<Rightarrow> 'a tcp_env_scheme option" where
  "timer_retransmit call now p s = do {
     pcb \<leftarrow> ts_pcb s p;
     if tp_timer_retransmit pcb \<noteq> 0 \<and> now \<ge> tp_timer_retransmit pcb
     then case tp_unacked pcb of
            [] \<Rightarrow> Some s
          | seg # _ \<Rightarrow>
              if sg_retries seg \<ge> TCP_MAX_RETRIES
              then do {
                s1 \<leftarrow> upd_tcp p (\<lambda>x. tcp_free_ooseq (tcp_free_unacked (x\<lparr>tp_state := TCP_CLOSED\<rparr>))) s;
                if tp_error_callback pcb \<noteq> 0
                then do { s2 \<leftarrow> call (Error_cb (tp_error_callback pcb) p (tp_callback_arg pcb)) (tcp_lock_release s1);
                          tcp_lock_acquire s2 }
                else Some s1 }
              else do {
                s1 \<leftarrow> tcp_resend p seg (tcp_lock_release s);
                s2 \<leftarrow> tcp_lock_acquire s1;
                upd_tcp p (timer_backoff now) s2 }
     else Some s }"

definition timer_time_wait :: "u32 \<Rightarrow> tcp_pcb_t \<Rightarrow> tcp_pcb_t" where
  "timer_time_wait now pcb =
     (if tp_state pcb = TCP_TIME_WAIT \<and> tp_timer_time_wait pcb \<noteq> 0 \<and> now \<ge> tp_timer_time_wait pcb
      then pcb\<lparr>tp_state := TCP_CLOSED, tp_timer_time_wait := 0\<rparr> else pcb)"

partial_function (option) timer_loop :: "(tcp_callback \<Rightarrow> 'a tcp_env_scheme \<Rightarrow> 'a tcp_env_scheme option)
    \<Rightarrow> u32 \<Rightarrow> u32 \<Rightarrow> 'a tcp_env_scheme \<Rightarrow> 'a tcp_env_scheme option" where
  "timer_loop call now p s =
     (if p = 0 then Some s
      else do {
        pcb \<leftarrow> ts_pcb s p;
        s1 \<leftarrow> timer_retransmit call now p s;
        s2 \<leftarrow> upd_tcp p (timer_time_wait now) s1;
        timer_loop call now (tp_next pcb) s2 })"

definition tcp_timer :: "(tcp_callback \<Rightarrow> 'a tcp_env_scheme \<Rightarrow> 'a tcp_env_scheme option) \<Rightarrow> 'a tcp_env_scheme \<Rightarrow> 'a tcp_env_scheme option" where
  "tcp_timer call s = do {
     s1 \<leftarrow> tcp_lock_acquire s;
     s2 \<leftarrow> timer_loop call (ns_now s) (ts_pcbs s1) s1;
     Some (tcp_lock_release s2) }"

end
