(* ===== verification/Tcp_Stream.thy ===== *)
theory Tcp_Stream
  imports Tcp
begin

text \<open>
  The receiver of \<^verbatim>\<open>src/src/net/tcp.c\<close> puts a byte stream together.  Whatever pieces of the stream arrive, in
  whatever order and however often, the receive buffer holds a prefix of the stream as long as it has room;
  and once every piece of a segmented stream has arrived, the whole stream is there.
\<close>

section \<open>A prefix of the stream, always\<close>

text \<open>A piece of the stream \<open>str\<close> that starts at sequence number \<open>base\<close>.\<close>

definition piece :: "u32 \<Rightarrow> u8 list \<Rightarrow> u32 \<Rightarrow> u8 list \<Rightarrow> bool" where
  "piece base str seq data \<longleftrightarrow> (\<exists>off n. off \<le> length str \<and> seq = base + of_nat off \<and> data = take n (drop off str))"

text \<open>Bytes handed out by \<open>tcp_read\<close> so far, and the bytes that wait in the buffer.\<close>

definition unread :: "tcp_pcb_t \<Rightarrow> u8 list" where
  "unread pcb = drop (unat (tp_recv_read_pos pcb)) (tp_recv_buf pcb)"

definition stream_ok :: "u32 \<Rightarrow> u8 list \<Rightarrow> u8 list \<Rightarrow> tcp_pcb_t \<Rightarrow> bool" where
  "stream_ok base str got pcb \<longleftrightarrow>
     (\<exists>k \<le> length str. tp_rcv_nxt pcb = base + of_nat k \<and> got @ unread pcb = take k str \<and> length (tp_recv_buf pcb) \<le> k)
     \<and> unat (tp_recv_read_pos pcb) \<le> length (tp_recv_buf pcb)
     \<and> length str \<le> unat (tp_recv_buf_size pcb) \<and> length str < 2147483648
     \<and> (\<forall>g \<in> set (tp_ooseq pcb). piece base str (oo_seq g) (oo_data g) \<and> oo_len g = of_nat (length (oo_data g)))"

lemma same_offset:
  assumes "(base :: u32) + of_nat i = base + of_nat j" "i < 4294967296" "j < 4294967296"
  shows "i = j"
proof -
  have "(of_nat i :: u32) = of_nat j" using assms(1) by simp
  hence "unat (of_nat i :: u32) = unat (of_nat j :: u32)" by simp
  thus ?thesis using assms(2,3) by (simp add: unat_of_nat_u32)
qed

lemma take_piece: "take k xs @ take n (drop k xs) = take (k + n) xs"
  by (metis take_add)

text \<open>Accepting the piece at the expected number.\<close>

lemma stream_append:
  assumes ok: "stream_ok base str got pcb" and p: "piece base str (tp_rcv_nxt pcb) data" and l: "len = of_nat (length data)"
    and q: "set qs \<subseteq> set (tp_ooseq pcb)"
  shows "stream_ok base str got ((recv_append data len pcb)\<lparr>tp_rcv_nxt := tp_rcv_nxt pcb + len, tp_ooseq := qs, tp_ooseq_count := c\<rparr>)"
proof -
  obtain k where k: "k \<le> length str" "tp_rcv_nxt pcb = base + of_nat k" "got @ unread pcb = take k str" "length (tp_recv_buf pcb) \<le> k"
    and rest: "unat (tp_recv_read_pos pcb) \<le> length (tp_recv_buf pcb)" "length str \<le> unat (tp_recv_buf_size pcb)" "length str < 2147483648"
      "\<forall>g \<in> set (tp_ooseq pcb). piece base str (oo_seq g) (oo_data g) \<and> oo_len g = of_nat (length (oo_data g))"
    using ok by (auto simp: stream_ok_def)
  obtain off n where o: "off \<le> length str" "tp_rcv_nxt pcb = base + of_nat off" "data = take n (drop off str)"
    using p by (auto simp: piece_def)
  have off: "off = k" by (rule same_offset[of base]) (use k(1,2) o(1,2) rest(3) in simp_all)
  define m where "m = length data"
  have dm: "data = take m (drop k str)" using o(3) off by (simp add: m_def min_def)
  have "m \<le> length str - k" by (simp add: m_def o(3) off)
  hence mk: "k + m \<le> length str" using k(1) by linarith
  have fits: "of_nat (length (tp_recv_buf pcb)) + len \<le> tp_recv_buf_size pcb"
  proof -
    have "unat (of_nat (length (tp_recv_buf pcb)) + len) = length (tp_recv_buf pcb) + m"
      unfolding l of_nat_add[symmetric] m_def[symmetric] using mk k(4) rest(3) by (simp add: unat_of_nat_u32 del: of_nat_add)
    thus ?thesis using mk k(4) rest(2) by (simp add: word_le_nat_alt)
  qed
  have new: "got @ drop (unat (tp_recv_read_pos pcb)) (tp_recv_buf pcb @ data) = take (k + m) str"
  proof -
    have "got @ drop (unat (tp_recv_read_pos pcb)) (tp_recv_buf pcb @ data) = (got @ unread pcb) @ data"
      using rest(1) by (simp add: unread_def)
    thus ?thesis using take_piece[of k str m] dm by (simp only: k(3))
  qed
  have nx: "tp_rcv_nxt pcb + len = base + of_nat (k + m)" using k(2) l by (simp add: m_def)
  show ?thesis unfolding stream_ok_def recv_append_def using fits new nx mk rest q k(4)
    by (auto simp: unread_def m_def intro!: exI[of _ "k + m"])
qed

lemma stream_merge:
  "stream_ok base str got pcb \<Longrightarrow> set qs \<subseteq> set (tp_ooseq pcb) \<Longrightarrow> stream_ok base str got (merge_loop qs pcb)"
proof (induction qs arbitrary: pcb)
  case Nil thus ?case by (simp add: stream_ok_def unread_def)
next
  case (Cons g gs)
  have g: "piece base str (oo_seq g) (oo_data g)" "oo_len g = of_nat (length (oo_data g))" and gs: "set gs \<subseteq> set (tp_ooseq pcb)"
    using Cons.prems by (auto simp: stream_ok_def)
  consider (now) "oo_seq g = tp_rcv_nxt pcb" | (old) "oo_seq g \<noteq> tp_rcv_nxt pcb" "TCP_SEQ_LT (oo_seq g) (tp_rcv_nxt pcb)"
    | (later) "oo_seq g \<noteq> tp_rcv_nxt pcb" "\<not> TCP_SEQ_LT (oo_seq g) (tp_rcv_nxt pcb)" by blast
  thus ?case
  proof cases
    case now
    let ?a = "recv_append (oo_data g) (oo_len g) pcb"
    have a: "tp_rcv_nxt ?a = tp_rcv_nxt pcb" "tp_ooseq ?a = tp_ooseq pcb" "tp_ooseq_count ?a = tp_ooseq_count pcb"
      by (simp_all add: recv_append_def)
    have "stream_ok base str got (?a\<lparr>tp_rcv_nxt := tp_rcv_nxt pcb + oo_len g, tp_ooseq := tp_ooseq pcb,
            tp_ooseq_count := tp_ooseq_count pcb - 1\<rparr>)"
      by (rule stream_append[OF Cons.prems(1) _ g(2)]) (use g(1) now in simp_all)
    moreover have "?a\<lparr>tp_rcv_nxt := tp_rcv_nxt pcb + oo_len g, tp_ooseq := tp_ooseq pcb, tp_ooseq_count := tp_ooseq_count pcb - 1\<rparr>
      = ?a\<lparr>tp_rcv_nxt := tp_rcv_nxt ?a + oo_len g, tp_ooseq_count := tp_ooseq_count ?a - 1\<rparr>"
      using a by (cases ?a) simp
    ultimately show ?thesis using Cons.IH[of "?a\<lparr>tp_rcv_nxt := tp_rcv_nxt ?a + oo_len g, tp_ooseq_count := tp_ooseq_count ?a - 1\<rparr>"] gs now a
      by (simp add: Let_def)
  next
    case old
    have "stream_ok base str got (pcb\<lparr>tp_ooseq_count := tp_ooseq_count pcb - 1\<rparr>)"
      using Cons.prems(1) by (simp add: stream_ok_def unread_def)
    thus ?thesis using Cons.IH[of "pcb\<lparr>tp_ooseq_count := tp_ooseq_count pcb - 1\<rparr>"] gs old by simp
  next
    case later
    thus ?thesis using Cons.prems by (auto simp: stream_ok_def unread_def)
  qed
qed

lemma ooseq_insert_set: "ooseq_insert seg gs = Some q \<Longrightarrow> set q = insert seg (set gs)"
  by (induction gs arbitrary: q) (auto split: if_splits)

lemma stream_process:
  assumes "stream_ok base str got pcb" "piece base str seq data"
  shows "stream_ok base str got (tcp_process_data seq data (of_nat (length data)) allocs pcb)"
proof -
  let ?len = "of_nat (length data) :: u32"
  have 1: "stream_ok base str got (tcp_ooseq_merge ((recv_append data ?len pcb)\<lparr>tp_rcv_nxt := tp_rcv_nxt pcb + ?len\<rparr>))"
    if "seq = tp_rcv_nxt pcb"
  proof -
    have "stream_ok base str got ((recv_append data ?len pcb)\<lparr>tp_rcv_nxt := tp_rcv_nxt pcb + ?len, tp_ooseq := tp_ooseq pcb,
            tp_ooseq_count := tp_ooseq_count pcb\<rparr>)"
      by (rule stream_append[OF assms(1)]) (use assms(2) that in simp_all)
    moreover have "(recv_append data ?len pcb)\<lparr>tp_rcv_nxt := tp_rcv_nxt pcb + ?len, tp_ooseq := tp_ooseq pcb,
            tp_ooseq_count := tp_ooseq_count pcb\<rparr> = (recv_append data ?len pcb)\<lparr>tp_rcv_nxt := tp_rcv_nxt pcb + ?len\<rparr>"
      by (cases pcb) (simp add: recv_append_def)
    ultimately show ?thesis unfolding tcp_ooseq_merge_def by (intro stream_merge) simp_all
  qed
  have 2: "stream_ok base str got (snd (tcp_ooseq_add seq data ?len allocs pcb))"
    using assms by (auto simp: tcp_ooseq_add_def stream_ok_def unread_def split: option.splits dest!: ooseq_insert_set)
  have "tp_rcv_nxt (recv_append data ?len pcb) = tp_rcv_nxt pcb" by (simp add: recv_append_def)
  thus ?thesis using 1 2 assms(1) by (simp add: tcp_process_data_def Let_def)
qed

text \<open>Segments and reads in any order.  A read hands its bytes to the caller.\<close>

datatype stream_op = Arrives u32 "u8 list" | Reads u32

definition read_pcb :: "u32 \<Rightarrow> tcp_pcb_t \<Rightarrow> u8 list \<times> tcp_pcb_t" where
  "read_pcb len pcb =
     (let avail = of_nat (length (tp_recv_buf pcb)) - tp_recv_read_pos pcb;
          copy_len = (if len > avail then avail else len);
          pos = tp_recv_read_pos pcb + copy_len
      in if tp_recv_buf pcb = [] \<or> len = 0 then ([], pcb)
         else (take (unat copy_len) (drop (unat (tp_recv_read_pos pcb)) (tp_recv_buf pcb)),
               if pos \<ge> of_nat (length (tp_recv_buf pcb)) then pcb\<lparr>tp_recv_buf := [], tp_recv_read_pos := 0\<rparr>
               else pcb\<lparr>tp_recv_read_pos := pos\<rparr>))"

lemma tcp_read_pcb:
  assumes "ts_pcb s p = Some pcb" "p \<noteq> 0"
  shows "\<exists>ret. tcp_read p len s = Some (ret, fst (read_pcb len pcb), s\<lparr>ts_pcb := (ts_pcb s)(p \<mapsto> snd (read_pcb len pcb))\<rparr>)"
proof -
  have "(ts_pcb s)(p \<mapsto> pcb) = ts_pcb s" using assms(1) by auto
  hence same: "s\<lparr>ts_pcb := (ts_pcb s)(p \<mapsto> pcb)\<rparr> = s" by simp
  show ?thesis using assms same
    by (cases "tp_recv_buf pcb = [] \<or> len = 0") (auto simp: tcp_read_def read_pcb_def upd_tcp_def Let_def)
qed

lemma stream_read:
  assumes "stream_ok base str got pcb"
  shows "stream_ok base str (got @ fst (read_pcb len pcb)) (snd (read_pcb len pcb))"
proof (cases "tp_recv_buf pcb = [] \<or> len = 0")
  case True thus ?thesis using assms by (simp add: read_pcb_def)
next
  case False
  obtain k where k: "k \<le> length str" "tp_rcv_nxt pcb = base + of_nat k" "got @ unread pcb = take k str" "length (tp_recv_buf pcb) \<le> k"
    and rest: "unat (tp_recv_read_pos pcb) \<le> length (tp_recv_buf pcb)" "length str \<le> unat (tp_recv_buf_size pcb)" "length str < 2147483648"
      "\<forall>g \<in> set (tp_ooseq pcb). piece base str (oo_seq g) (oo_data g) \<and> oo_len g = of_nat (length (oo_data g))"
    using assms by (auto simp: stream_ok_def)
  define r where "r = unat (tp_recv_read_pos pcb)"
  define n where "n = length (tp_recv_buf pcb)"
  have rn: "r \<le> n" "n < 2147483648" using rest k by (simp_all add: r_def n_def)
  have un: "unat (of_nat n :: u32) = n" using rn by (simp add: unat_of_nat_u32)
  have rp: "tp_recv_read_pos pcb = of_nat r" by (simp add: r_def)
  define d where "d = n - r"
  have av: "(of_nat n :: u32) - of_nat r = of_nat d" using rn by (simp add: d_def)
  have ud: "unat (of_nat d :: u32) = d" using rn by (simp add: d_def unat_of_nat_u32 del: of_nat_diff)
  define c where "c = min (unat len) d"
  have cl: "(if len > of_nat d then of_nat d else len) = (of_nat c :: u32)"
    unfolding c_def word_less_nat_alt ud by (simp add: min_def)
  have cn: "c \<le> n - r" by (simp add: c_def d_def)
  have uc: "unat (of_nat c :: u32) = c" using cn rn by (simp add: unat_of_nat_u32)
  have pos: "(of_nat r + of_nat c :: u32) = of_nat (r + c)" by simp
  have up: "unat (of_nat (r + c) :: u32) = r + c" using cn rn by (simp add: unat_of_nat_u32 del: of_nat_add)
  have ge: "(of_nat r + of_nat c :: u32) \<ge> of_nat n \<longleftrightarrow> n \<le> r + c" unfolding pos using up un by (simp add: word_le_nat_alt)
  have rd: "read_pcb len pcb = (take c (drop r (tp_recv_buf pcb)),
      if n \<le> r + c then pcb\<lparr>tp_recv_buf := [], tp_recv_read_pos := 0\<rparr> else pcb\<lparr>tp_recv_read_pos := of_nat (r + c)\<rparr>)"
  proof -
    have 1: "(if of_nat (length (tp_recv_buf pcb)) - tp_recv_read_pos pcb < len
              then of_nat (length (tp_recv_buf pcb)) - tp_recv_read_pos pcb else len) = of_nat c"
      unfolding n_def[symmetric] rp av by (rule cl)
    have 2: "(of_nat (length (tp_recv_buf pcb)) \<le> tp_recv_read_pos pcb + of_nat c) = (n \<le> r + c)"
      unfolding n_def[symmetric] rp by (rule ge)
    have 3: "tp_recv_read_pos pcb + of_nat c = of_nat (r + c)" unfolding rp by (rule pos)
    show ?thesis unfolding read_pcb_def Let_def 1 2 uc using False by (simp only: 3 r_def simp_thms if_False)
  qed
  show ?thesis
  proof (cases "n \<le> r + c")
    case True
    hence "c = n - r" using cn rn by linarith
    hence "take c (drop r (tp_recv_buf pcb)) = unread pcb" by (simp add: unread_def r_def n_def)
    thus ?thesis using True k rest unfolding rd stream_ok_def by (auto simp: unread_def intro!: exI[of _ k])
  next
    case False
    have "take c (drop r (tp_recv_buf pcb)) @ drop (r + c) (tp_recv_buf pcb) = unread pcb"
      by (simp add: unread_def r_def add.commute flip: drop_drop)
    moreover have "unat (of_nat r + of_nat c :: u32) = r + c" using up by simp
    ultimately show ?thesis using False k rest unfolding rd stream_ok_def
      by (auto simp: unread_def n_def intro!: exI[of _ k])
  qed
qed

primrec of_stream :: "u32 \<Rightarrow> u8 list \<Rightarrow> stream_op \<Rightarrow> bool" where
  "of_stream base str (Arrives seq data) \<longleftrightarrow> piece base str seq data"
| "of_stream base str (Reads len) \<longleftrightarrow> True"

text \<open>The same on the state of the stack: the results are those of \<open>tcp_read\<close>.\<close>

primrec run_stream :: "u32 \<Rightarrow> stream_op list \<Rightarrow> u8 list \<times> 'a tcp_env_scheme \<Rightarrow> (u8 list \<times> 'a tcp_env_scheme) option" where
  "run_stream p [] st = Some st"
| "run_stream p (op # ops) st =
     (case op of
        Arrives seq data \<Rightarrow> do { s1 \<leftarrow> tcp_process p seq data (of_nat (length data)) (snd st); run_stream p ops (fst st, s1) }
      | Reads len \<Rightarrow> do { (_, bs, s1) \<leftarrow> tcp_read p len (snd st); run_stream p ops (fst st @ bs, s1) })"

lemma kmalloc_next_tcp: "ts_pcb (snd (kmalloc_next live s)) = ts_pcb s"
  by (simp add: kmalloc_next_def split: list.splits)

lemma tcp_process_pcb:
  fixes s :: "'a tcp_env_scheme"
  assumes "ts_pcb s p = Some pcb"
  obtains s' allocs where "tcp_process p seq data len s = Some s'"
    "ts_pcb s' = (ts_pcb s)(p \<mapsto> tcp_process_data seq data len allocs pcb)"
proof -
  define queue where "queue = (len \<noteq> 0 \<and> TCP_SEQ_GT seq (tp_rcv_nxt pcb) \<and> tp_ooseq_count pcb < TCP_MAX_OOSEQ
                  \<and> TCP_SEQ_BETWEEN seq (tp_rcv_nxt pcb) (tp_rcv_nxt pcb + tp_rcv_wnd pcb))"
  obtain a s1 where 1: "(if queue then kmalloc_next (\<lambda>_. False) s else (0, s)) = (a, s1)" by fastforce
  obtain d s2 where 2: "(if queue \<and> a \<noteq> 0 then kmalloc_next (\<lambda>_. False) s1 else (0, s1)) = (d, s2)" by fastforce
  have t1: "ts_pcb s1 = ts_pcb s" using 1 kmalloc_next_tcp[of "\<lambda>_. False" s] by (auto split: if_splits)
  have t2: "ts_pcb s2 = ts_pcb s" using 2 t1 kmalloc_next_tcp[of "\<lambda>_. False" s1] by (auto split: if_splits)
  have "tcp_process p seq data len s = upd_tcp p (tcp_process_data seq data len (a, d)) s2"
    using 1 2 assms unfolding tcp_process_def queue_def Let_def by simp
  thus ?thesis using that assms t2 by (simp add: upd_tcp_def)
qed

lemma run_stream_ok:
  fixes s :: "'a tcp_env_scheme"
  assumes "ts_pcb s p = Some pcb" "p \<noteq> 0" "stream_ok base str got pcb" "list_all (of_stream base str) ops"
  shows "\<exists>got' s' pcb'. run_stream p ops (got, s) = Some (got', s') \<and> ts_pcb s' p = Some pcb' \<and> stream_ok base str got' pcb'"
  using assms
proof (induction ops arbitrary: got s pcb)
  case Nil thus ?case by simp
next
  case (Cons op ops)
  show ?case
  proof (cases op)
    case (Arrives seq data)
    obtain s1 allocs where s1: "tcp_process p seq data (of_nat (length data)) s = Some s1"
      "ts_pcb s1 = (ts_pcb s)(p \<mapsto> tcp_process_data seq data (of_nat (length data)) allocs pcb)"
      by (rule tcp_process_pcb[OF Cons.prems(1)])
    have "stream_ok base str got (tcp_process_data seq data (of_nat (length data)) allocs pcb)"
      by (rule stream_process[OF Cons.prems(3)]) (use Cons.prems(4) Arrives in simp)
    thus ?thesis using Cons.IH[of s1 _ got] Cons.prems s1 Arrives by simp
  next
    case (Reads len)
    let ?s1 = "s\<lparr>ts_pcb := (ts_pcb s)(p \<mapsto> snd (read_pcb len pcb))\<rparr>"
    obtain ret where "tcp_read p len s = Some (ret, fst (read_pcb len pcb), ?s1)"
      using tcp_read_pcb[OF Cons.prems(1,2)] by blast
    thus ?thesis using Cons.IH[of ?s1 "snd (read_pcb len pcb)" "got @ fst (read_pcb len pcb)"] Cons.prems stream_read[OF Cons.prems(3)] Reads
      by simp
  qed
qed

lemma stream_prefix:
  assumes "stream_ok base str got pcb"
  shows "got @ unread pcb = take (unat (tp_rcv_nxt pcb - base)) str"
proof -
  obtain k where k: "k \<le> length str" "tp_rcv_nxt pcb = base + of_nat k" "got @ unread pcb = take k str" "length str < 2147483648"
    using assms by (auto simp: stream_ok_def)
  have "unat (tp_rcv_nxt pcb - base) = k" using k by (simp add: unat_of_nat_u32)
  thus ?thesis using k(3) by simp
qed

text \<open>C10: \<^bold>\<open>A stream is delivered as a prefix, whatever arrives.\<close>  From a connection that expects the first byte of a stream, with an empty
  receive buffer that has room for the whole stream, let pieces of the stream arrive in any order, overlapping, duplicated, with or without memory for the queue of early
  segments, and let the program read in between.  Every step returns, and the bytes read so far followed by the bytes that
  wait in the receive buffer are exactly the bytes of the stream up to \<open>rcv_nxt\<close>: none is lost, repeated or
  out of order.\<close>

theorem tcp_stream_prefix:
  fixes s :: "'a tcp_env_scheme"
  assumes "p \<noteq> 0" "ts_pcb s p = Some pcb" "tp_rcv_nxt pcb = base" "tp_recv_buf pcb = []" "tp_recv_read_pos pcb = 0" "tp_ooseq pcb = []"
    and "length str \<le> unat (tp_recv_buf_size pcb)" "length str < 2147483648"
    and "list_all (of_stream base str) ops"
  shows "\<exists>got s' pcb'. run_stream p ops ([], s) = Some (got, s') \<and> ts_pcb s' p = Some pcb'
     \<and> got @ unread pcb' = take (unat (tp_rcv_nxt pcb' - base)) str"
proof -
  have "stream_ok base str [] pcb" unfolding stream_ok_def using assms by (auto simp: unread_def intro!: exI[of _ 0])
  from run_stream_ok[OF assms(2,1) this assms(9)] show ?thesis using stream_prefix by blast
qed

section \<open>The whole stream, in the end\<close>

lemma seq_diff:
  assumes "x < 2147483648" "y < 2147483648"
  shows "sint ((base :: u32) + of_nat x - (base + of_nat y)) = int x - int y"
proof -
  have e: "base + of_nat x - (base + of_nat y) = (word_of_int (int x - int y) :: u32)" by simp
  have "sint (word_of_int i :: u32) = i" if "-2147483648 \<le> i" "i < 2147483648" for i
    using that by (simp add: sint_sbintrunc' signed_take_bit_int_eq_self)
  from this[of "int x - int y"] show ?thesis unfolding e using assms by linarith
qed

lemma seq_cmp:
  assumes "x < 2147483648" "y < 2147483648"
  shows "TCP_SEQ_LT (base + of_nat x) (base + of_nat y) \<longleftrightarrow> x < y" "TCP_SEQ_GT (base + of_nat x) (base + of_nat y) \<longleftrightarrow> x > y"
    "TCP_SEQ_LEQ (base + of_nat x) (base + of_nat y) \<longleftrightarrow> x \<le> y" "TCP_SEQ_GEQ (base + of_nat x) (base + of_nat y) \<longleftrightarrow> x \<ge> y"
    "base + of_nat x = base + of_nat y \<longleftrightarrow> x = y"
  unfolding TCP_SEQ_LT_def TCP_SEQ_GT_def TCP_SEQ_LEQ_def TCP_SEQ_GEQ_def seq_diff[OF assms]
  using same_offset[of base x y] assms by auto

text \<open>A stream cut into segments: the offset of segment \<open>i\<close>, and the segment as it waits in the queue.\<close>

definition off :: "u8 list list \<Rightarrow> nat \<Rightarrow> nat" where
  "off cs i = length (concat (take i cs))"

definition seg_at :: "u32 \<Rightarrow> u8 list list \<Rightarrow> nat \<Rightarrow> tcp_ooseq_t" where
  "seg_at base cs i = \<lparr>oo_seq = base + of_nat (off cs i), oo_len = of_nat (length (cs ! i)), oo_data = cs ! i\<rparr>"

definition cut_ok :: "u8 list list \<Rightarrow> tcp_pcb_t \<Rightarrow> bool" where
  "cut_ok cs pcb \<longleftrightarrow> [] \<notin> set cs \<and> length cs \<le> 9 \<and> length (concat cs) \<le> unat (tp_rcv_wnd pcb)
     \<and> length (concat cs) \<le> unat (tp_recv_buf_size pcb) \<and> unat (tp_rcv_wnd pcb) < 1073741824"

lemma off_Suc: "i < length cs \<Longrightarrow> off cs (Suc i) = off cs i + length (cs ! i)"
  by (simp add: off_def take_Suc_conv_app_nth)

lemma off_le: "off cs i \<le> length (concat cs)"
proof -
  have "concat cs = concat (take i cs) @ concat (drop i cs)" by (metis append_take_drop_id concat_append)
  thus ?thesis by (simp add: off_def)
qed

lemma off_less:
  assumes "i < j" "j \<le> length cs" "[] \<notin> set cs"
  shows "off cs i < off cs j"
  using assms
proof (induction j)
  case 0 thus ?case by simp
next
  case (Suc j)
  have "cs ! j \<noteq> []" using Suc.prems by (metis Suc_le_lessD nth_mem)
  hence "off cs j < off cs (Suc j)" using Suc.prems by (simp add: off_Suc)
  thus ?case using Suc by (cases "i = j") auto
qed

lemma off_less_iff: "i \<le> length cs \<Longrightarrow> j \<le> length cs \<Longrightarrow> [] \<notin> set cs \<Longrightarrow> off cs i < off cs j \<longleftrightarrow> i < j"
  using off_less[of i j cs] off_less[of j i cs] by (metis less_irrefl linorder_neqE_nat order.asym)

text \<open>The state of the receiver after some segments: all below \<open>k\<close> are in the buffer, those of \<open>qs\<close> wait.\<close>

definition rebuilt :: "u32 \<Rightarrow> u8 list list \<Rightarrow> nat \<Rightarrow> nat list \<Rightarrow> tcp_pcb_t \<Rightarrow> bool" where
  "rebuilt base cs k qs pcb \<longleftrightarrow> cut_ok cs pcb \<and> k \<le> length cs \<and> tp_rcv_nxt pcb = base + of_nat (off cs k)
     \<and> tp_recv_buf pcb = concat (take k cs) \<and> tp_ooseq pcb = map (seg_at base cs) qs \<and> tp_ooseq_count pcb = of_nat (length qs)
     \<and> sorted_wrt (<) qs \<and> (\<forall>q \<in> set qs. k < q \<and> q < length cs)"

lemma cut_seq:
  assumes "cut_ok cs pcb" "i \<le> length cs" "j \<le> length cs"
  shows "TCP_SEQ_LT (base + of_nat (off cs i)) (base + of_nat (off cs j)) \<longleftrightarrow> i < j"
    "TCP_SEQ_GT (base + of_nat (off cs i)) (base + of_nat (off cs j)) \<longleftrightarrow> i > j"
    "base + of_nat (off cs i) = base + of_nat (off cs j) \<longleftrightarrow> i = j"
    "j \<le> i \<Longrightarrow> TCP_SEQ_BETWEEN (base + of_nat (off cs i)) (base + of_nat (off cs j)) (base + of_nat (off cs j) + tp_rcv_wnd pcb)"
proof -
  have b: "off cs i < 2147483648" "off cs j < 2147483648" "off cs i \<le> unat (tp_rcv_wnd pcb)"
    using off_le[of cs i] off_le[of cs j] assms(1) by (simp_all add: cut_ok_def)
  have o: "off cs i < off cs j \<longleftrightarrow> i < j" "off cs j < off cs i \<longleftrightarrow> j < i"
    using assms by (simp_all add: off_less_iff cut_ok_def)
  show "TCP_SEQ_LT (base + of_nat (off cs i)) (base + of_nat (off cs j)) \<longleftrightarrow> i < j"
    "TCP_SEQ_GT (base + of_nat (off cs i)) (base + of_nat (off cs j)) \<longleftrightarrow> i > j"
    "base + of_nat (off cs i) = base + of_nat (off cs j) \<longleftrightarrow> i = j"
    using seq_cmp[OF b(1,2), of base] o by auto
  have w: "base + of_nat (off cs j) + tp_rcv_wnd pcb = base + of_nat (off cs j + unat (tp_rcv_wnd pcb))" by simp
  have bw: "off cs j + unat (tp_rcv_wnd pcb) < 2147483648"
    using off_le[of cs j] assms(1) by (simp add: cut_ok_def)
  show "j \<le> i \<Longrightarrow> TCP_SEQ_BETWEEN (base + of_nat (off cs i)) (base + of_nat (off cs j)) (base + of_nat (off cs j) + tp_rcv_wnd pcb)"
    unfolding TCP_SEQ_BETWEEN_def w using seq_cmp(4)[OF b(1,2), of base] seq_cmp(3)[OF b(1) bw, of base] b(3) o by auto
qed

lemma rebuilt_append:
  assumes r: "tp_recv_buf pcb = concat (take k cs)" "tp_rcv_nxt pcb = base + of_nat (off cs k)" "cut_ok cs pcb" and k: "k < length cs"
  shows "recv_append (cs ! k) (of_nat (length (cs ! k))) pcb = pcb\<lparr>tp_recv_buf := concat (take (Suc k) cs)\<rparr>"
    "tp_rcv_nxt pcb + of_nat (length (cs ! k)) = base + of_nat (off cs (Suc k))"
proof -
  have "off cs (Suc k) \<le> unat (tp_recv_buf_size pcb)" "off cs (Suc k) < 4294967296"
    using off_le[of cs "Suc k"] r(3) by (simp_all add: cut_ok_def)
  hence "unat (of_nat (off cs (Suc k)) :: u32) \<le> unat (tp_recv_buf_size pcb)" by (simp add: unat_of_nat_u32)
  hence "(of_nat (off cs (Suc k)) :: u32) \<le> tp_recv_buf_size pcb" by (simp add: word_le_nat_alt)
  hence "of_nat (length (tp_recv_buf pcb)) + of_nat (length (cs ! k)) \<le> tp_recv_buf_size pcb"
    using k r(1) by (simp add: off_Suc) (simp add: off_def)
  thus "recv_append (cs ! k) (of_nat (length (cs ! k))) pcb = pcb\<lparr>tp_recv_buf := concat (take (Suc k) cs)\<rparr>"
    using k r(1) by (simp add: recv_append_def take_Suc_conv_app_nth)
  show "tp_rcv_nxt pcb + of_nat (length (cs ! k)) = base + of_nat (off cs (Suc k))" using k r(2) by (simp add: off_Suc)
qed

lemma rebuilt_merge:
  assumes "cut_ok cs pcb" "k \<le> length cs" "tp_rcv_nxt pcb = base + of_nat (off cs k)" "tp_recv_buf pcb = concat (take k cs)"
    "tp_ooseq_count pcb = of_nat (length qs)" "sorted_wrt (<) qs" "\<forall>q \<in> set qs. k \<le> q \<and> q < length cs"
  shows "\<exists>k' qs'. rebuilt base cs k' qs' (merge_loop (map (seg_at base cs) qs) pcb) \<and> k \<le> k' \<and> set qs \<subseteq> {..<k'} \<union> set qs'"
  using assms
proof (induction qs arbitrary: k pcb)
  case Nil
  thus ?case by (intro exI[of _ k] exI[of _ "[]"]) (simp add: rebuilt_def cut_ok_def)
next
  case (Cons q qs)
  have q: "k \<le> q" "q < length cs" "\<forall>x \<in> set qs. q < x \<and> x < length cs" "sorted_wrt (<) qs" using Cons.prems by auto
  show ?case
  proof (cases "q = k")
    case True
    have kl: "k < length cs" using q(2) True by simp
    note a = rebuilt_append(1)[OF Cons.prems(4,3,1) kl]
    let ?p1 = "pcb\<lparr>tp_recv_buf := concat (take (Suc k) cs), tp_rcv_nxt := base + of_nat (off cs (Suc k)), tp_ooseq_count := of_nat (length qs)\<rparr>"
    have "\<exists>k' qs'. rebuilt base cs k' qs' (merge_loop (map (seg_at base cs) qs) ?p1) \<and> Suc k \<le> k' \<and> set qs \<subseteq> {..<k'} \<union> set qs'"
      by (rule Cons.IH) (use Cons.prems q True in \<open>auto simp: cut_ok_def\<close>)
    moreover have "merge_loop (map (seg_at base cs) (q # qs)) pcb = merge_loop (map (seg_at base cs) qs) ?p1"
      using Cons.prems True by (simp add: seg_at_def a Let_def off_Suc[OF kl] add.assoc)
    ultimately show ?thesis using True by force
  next
    case False
    hence lt: "k < q" using q(1) by simp
    have "oo_seq (seg_at base cs q) \<noteq> tp_rcv_nxt pcb" "\<not> TCP_SEQ_LT (oo_seq (seg_at base cs q)) (tp_rcv_nxt pcb)"
      using cut_seq[OF Cons.prems(1), of q k base] Cons.prems lt q by (simp_all add: seg_at_def)
    hence "merge_loop (map (seg_at base cs) (q # qs)) pcb = pcb\<lparr>tp_ooseq := map (seg_at base cs) (q # qs)\<rparr>" by simp
    thus ?thesis using Cons.prems q lt by (intro exI[of _ k] exI[of _ "q # qs"]) (auto simp: rebuilt_def cut_ok_def)
  qed
qed

lemma rebuilt_insert:
  assumes "cut_ok cs pcb" "sorted_wrt (<) qs" "\<forall>q \<in> set qs. q < length cs" "i < length cs"
  shows "ooseq_insert (seg_at base cs i) (map (seg_at base cs) qs)
    = (if i \<in> set qs then None else Some (map (seg_at base cs) (insort i qs)))"
  using assms(2,3)
proof (induction qs)
  case Nil thus ?case by simp
next
  case (Cons q qs)
  have c: "TCP_SEQ_LT (oo_seq (seg_at base cs q)) (oo_seq (seg_at base cs i)) \<longleftrightarrow> q < i"
    "oo_seq (seg_at base cs q) = oo_seq (seg_at base cs i) \<longleftrightarrow> q = i"
    using cut_seq[OF assms(1), of q i base] Cons.prems assms(4) by (simp_all add: seg_at_def)
  show ?case using Cons c by (auto simp: not_less)
qed

lemma sorted_room:
  assumes "sorted_wrt (<) qs" "\<forall>q \<in> set qs. k < q \<and> q < (n::nat)" "i \<notin> set qs" "k < i" "i < n"
  shows "length qs + 2 \<le> n"
proof -
  have d: "distinct (k # i # qs)" using assms by (auto simp: strict_sorted_iff)
  have "set (k # i # qs) \<subseteq> {..<n}" using assms by auto
  hence "card (set (k # i # qs)) \<le> card {..<n}" by (intro card_mono) simp_all
  thus ?thesis using distinct_card[OF d] by simp
qed

text \<open>One arrival, of segment \<open>i\<close>, with memory.\<close>

lemma rebuilt_arrival:
  assumes r: "rebuilt base cs k qs pcb" and i: "i < length cs" and al: "fst al \<noteq> 0" "snd al \<noteq> 0"
  obtains k' qs' where "rebuilt base cs k' qs' (tcp_process_data (base + of_nat (off cs i)) (cs ! i) (of_nat (length (cs ! i))) al pcb)"
    "insert i ({..<k} \<union> set qs) \<subseteq> {..<k'} \<union> set qs'"
proof -
  have R: "cut_ok cs pcb" "k \<le> length cs" "tp_rcv_nxt pcb = base + of_nat (off cs k)" "tp_recv_buf pcb = concat (take k cs)"
    "tp_ooseq pcb = map (seg_at base cs) qs" "tp_ooseq_count pcb = of_nat (length qs)" "sorted_wrt (<) qs" "\<forall>q \<in> set qs. k < q \<and> q < length cs"
    using r by (simp_all add: rebuilt_def)
  have ne: "(of_nat (length (cs ! i)) :: u32) \<noteq> 0"
  proof -
    have "length (cs ! i) < 4294967296" using off_le[of cs "Suc i"] R(1) i by (simp add: off_Suc cut_ok_def)
    moreover have "length (cs ! i) \<noteq> 0" using R(1) i by (metis cut_ok_def length_0_conv nth_mem)
    ultimately show ?thesis using unat_of_nat_u32[of "length (cs ! i)"] by (metis unsigned_0)
  qed
  note cmp = cut_seq[OF R(1), of i k base, unfolded R(3)[symmetric]]
  consider (old) "i < k" | (now) "i = k" | (early) "k < i" by linarith
  thus ?thesis
  proof cases
    case old
    hence "tcp_process_data (base + of_nat (off cs i)) (cs ! i) (of_nat (length (cs ! i))) al pcb = pcb"
      using cmp i R(2) ne by (simp add: tcp_process_data_def)
    thus ?thesis using that[of k qs] r old by auto
  next
    case now
    let ?p1 = "pcb\<lparr>tp_recv_buf := concat (take (Suc k) cs), tp_rcv_nxt := base + of_nat (off cs (Suc k))\<rparr>"
    have p1: "tcp_process_data (base + of_nat (off cs i)) (cs ! i) (of_nat (length (cs ! i))) al pcb
      = merge_loop (map (seg_at base cs) qs) ?p1"
      using rebuilt_append[OF R(4,3,1)] now i ne R(3,5) by (simp add: tcp_process_data_def tcp_ooseq_merge_def Let_def add.assoc)
    have "\<exists>k' qs'. rebuilt base cs k' qs' (merge_loop (map (seg_at base cs) qs) ?p1) \<and> Suc k \<le> k' \<and> set qs \<subseteq> {..<k'} \<union> set qs'"
      by (rule rebuilt_merge) (use R now i in \<open>auto simp: cut_ok_def\<close>)
    thus ?thesis using that now unfolding p1 by fastforce
  next
    case early
    have go: "tcp_process_data (base + of_nat (off cs i)) (cs ! i) (of_nat (length (cs ! i))) al pcb
      = snd (tcp_ooseq_add (base + of_nat (off cs i)) (cs ! i) (of_nat (length (cs ! i))) al pcb)"
      using cmp i R(2) ne early by (simp add: tcp_process_data_def)
    have btw: "TCP_SEQ_BETWEEN (base + of_nat (off cs i)) (tp_rcv_nxt pcb) (tp_rcv_nxt pcb + tp_rcv_wnd pcb)"
      using cmp(4) i R(2) early by simp
    have seg: "\<lparr>oo_seq = base + of_nat (off cs i), oo_len = of_nat (length (cs ! i)), oo_data = cs ! i\<rparr> = seg_at base cs i"
      by (simp add: seg_at_def)
    have ins: "ooseq_insert (seg_at base cs i) (tp_ooseq pcb) = (if i \<in> set qs then None else Some (map (seg_at base cs) (insort i qs)))"
      unfolding R(5) by (rule rebuilt_insert[OF R(1,7)]) (use R(8) i in auto)
    show ?thesis
    proof (cases "i \<in> set qs")
      case True
      hence "tcp_process_data (base + of_nat (off cs i)) (cs ! i) (of_nat (length (cs ! i))) al pcb = pcb"
        unfolding go tcp_ooseq_add_def seg ins by simp
      thus ?thesis using that[of k qs] r True by auto
    next
      case False
      have "length qs + 2 \<le> length cs" by (rule sorted_room[OF R(7,8) False early i])
      hence n: "length qs \<le> 7" using R(1) by (simp add: cut_ok_def)
      hence room: "tp_ooseq_count pcb < TCP_MAX_OOSEQ" unfolding R(6) by (simp add: word_less_nat_alt unat_of_nat_u32)
      have "tcp_process_data (base + of_nat (off cs i)) (cs ! i) (of_nat (length (cs ! i))) al pcb
        = pcb\<lparr>tp_ooseq := map (seg_at base cs) (insort i qs), tp_ooseq_count := of_nat (length (insort i qs))\<rparr>"
        unfolding go tcp_ooseq_add_def seg ins using False room btw al R(6) by (simp add: not_le[symmetric])
      moreover have "sorted_wrt (<) (insort i qs)"
        using R(7) False by (simp add: strict_sorted_iff sorted_insort distinct_insort)
      ultimately show ?thesis using that[of k "insort i qs"] R early i
        by (auto simp: rebuilt_def cut_ok_def set_insort_key)
    qed
  qed
qed

lemma tcp_process_memory:
  fixes s :: "'a tcp_env_scheme"
  assumes pcb: "ts_pcb s p = Some pcb" and mem: "0 \<notin> set (ns_kmalloc s)" "2 \<le> length (ns_kmalloc s)"
  obtains s' al n where "tcp_process p seq data len s = Some s'" "fst al \<noteq> 0" "snd al \<noteq> 0"
    "ts_pcb s' = (ts_pcb s)(p \<mapsto> tcp_process_data seq data len al pcb)" "n \<le> 2" "ns_kmalloc s' = drop n (ns_kmalloc s)"
proof -
  obtain a d as where k: "ns_kmalloc s = a # d # as" using mem(2) by (cases "ns_kmalloc s"; cases "List.tl (ns_kmalloc s)") auto
  have ad: "a \<noteq> 0" "d \<noteq> 0" using mem(1) k by auto
  define queue where "queue = (len \<noteq> 0 \<and> TCP_SEQ_GT seq (tp_rcv_nxt pcb) \<and> tp_ooseq_count pcb < TCP_MAX_OOSEQ
                  \<and> TCP_SEQ_BETWEEN seq (tp_rcv_nxt pcb) (tp_rcv_nxt pcb + tp_rcv_wnd pcb))"
  show ?thesis
  proof (cases queue)
    case True
    hence "tcp_process p seq data len s = upd_tcp p (tcp_process_data seq data len (a, d)) (s\<lparr>ns_kmalloc := as\<rparr>)"
      using pcb k ad unfolding tcp_process_def queue_def by (simp add: kmalloc_next_def)
    thus ?thesis using that[of _ "(a, d)" 2] ad pcb k by (simp add: upd_tcp_def)
  next
    case False
    hence "tcp_process p seq data len s = upd_tcp p (tcp_process_data seq data len (0, 0)) s"
      using pcb unfolding tcp_process_def queue_def by auto
    moreover have "tcp_process_data seq data len (0, 0) pcb = tcp_process_data seq data len (1, 1) pcb"
      using False by (auto simp: tcp_process_data_def tcp_ooseq_add_def queue_def)
    ultimately show ?thesis using that[of _ "(1, 1)" 0] pcb by (simp add: upd_tcp_def)
  qed
qed

definition arrivals :: "u32 \<Rightarrow> u8 list list \<Rightarrow> nat list \<Rightarrow> stream_op list" where
  "arrivals base cs order = map (\<lambda>i. Arrives (base + of_nat (off cs i)) (cs ! i)) order"

lemma rebuilt_arrivals:
  fixes s :: "'a tcp_env_scheme"
  assumes "ts_pcb s p = Some pcb" "rebuilt base cs k qs pcb" "\<forall>i \<in> set order. i < length cs" "0 \<notin> set (ns_kmalloc s)"
    "2 * length order \<le> length (ns_kmalloc s)"
  shows "\<exists>s' pcb' k' qs'. run_stream p (arrivals base cs order) (got, s) = Some (got, s') \<and> ts_pcb s' p = Some pcb'
     \<and> rebuilt base cs k' qs' pcb' \<and> set order \<union> {..<k} \<union> set qs \<subseteq> {..<k'} \<union> set qs'"
  using assms
proof (induction order arbitrary: s pcb k qs)
  case Nil thus ?case by (auto simp: arrivals_def)
next
  case (Cons i order)
  let ?seq = "base + of_nat (off cs i)" and ?len = "of_nat (length (cs ! i)) :: u32"
  have m2: "2 \<le> length (ns_kmalloc s)" using Cons.prems(5) by simp
  obtain s1 al n where s1: "tcp_process p ?seq (cs ! i) ?len s = Some s1" "fst al \<noteq> 0" "snd al \<noteq> 0"
    "ts_pcb s1 = (ts_pcb s)(p \<mapsto> tcp_process_data ?seq (cs ! i) ?len al pcb)" "n \<le> 2" "ns_kmalloc s1 = drop n (ns_kmalloc s)"
    by (rule tcp_process_memory[OF Cons.prems(1,4) m2])
  have i: "i < length cs" using Cons.prems(3) by simp
  obtain k1 qs1 where r1: "rebuilt base cs k1 qs1 (tcp_process_data ?seq (cs ! i) ?len al pcb)" "insert i ({..<k} \<union> set qs) \<subseteq> {..<k1} \<union> set qs1"
    by (rule rebuilt_arrival[OF Cons.prems(2) i s1(2,3)])
  have p1: "ts_pcb s1 p = Some (tcp_process_data ?seq (cs ! i) ?len al pcb)" using s1(4) by simp
  have m1: "0 \<notin> set (ns_kmalloc s1)" "2 * length order \<le> length (ns_kmalloc s1)"
    using Cons.prems(4,5) s1(5,6) set_drop_subset[of n "ns_kmalloc s"] by auto
  have "\<exists>s' pcb' k' qs'. run_stream p (arrivals base cs order) (got, s1) = Some (got, s') \<and> ts_pcb s' p = Some pcb'
     \<and> rebuilt base cs k' qs' pcb' \<and> set order \<union> {..<k1} \<union> set qs1 \<subseteq> {..<k'} \<union> set qs'"
    by (rule Cons.IH[OF p1 r1(1) _ m1]) (use Cons.prems(3) in simp)
  then obtain s' pcb' k' qs' where e: "run_stream p (arrivals base cs order) (got, s1) = Some (got, s')" "ts_pcb s' p = Some pcb'"
    "rebuilt base cs k' qs' pcb'" "set order \<union> {..<k1} \<union> set qs1 \<subseteq> {..<k'} \<union> set qs'" by blast
  have sub: "set (i # order) \<union> {..<k} \<union> set qs \<subseteq> {..<k'} \<union> set qs'" using r1(2) e(4) by (simp only: list.set) blast
  have "run_stream p (arrivals base cs (i # order)) (got, s) = run_stream p (arrivals base cs order) (got, s1)"
    by (simp add: arrivals_def s1(1))
  thus ?case using e(1,2,3) sub by metis
qed

text \<open>C37: \<^bold>\<open>Every segmented stream arrives.\<close>  A stream of at most nine non-empty segments that fits the receive window and buffer is
  complete once each of its segments has arrived at least once, in any order and with any repetitions, provided memory
  for early segments is available: the receive buffer then holds the whole stream, \<open>rcv_nxt\<close> is the number after
  its last byte, and the queue of early segments is empty.\<close>

theorem tcp_stream_complete:
  fixes s :: "'a tcp_env_scheme"
  assumes "ts_pcb s p = Some pcb" "tp_rcv_nxt pcb = base" "tp_recv_buf pcb = []" "tp_ooseq pcb = []" "tp_ooseq_count pcb = 0"
    and "cut_ok cs pcb" "set order = {..<length cs}"
    and "0 \<notin> set (ns_kmalloc s)" "2 * length order \<le> length (ns_kmalloc s)"
  shows "\<exists>s' pcb'. run_stream p (arrivals base cs order) ([], s) = Some ([], s') \<and> ts_pcb s' p = Some pcb'
     \<and> tp_recv_buf pcb' = concat cs \<and> tp_rcv_nxt pcb' = base + of_nat (length (concat cs)) \<and> tp_ooseq pcb' = [] \<and> tp_ooseq_count pcb' = 0"
proof -
  have r: "rebuilt base cs 0 [] pcb" using assms by (simp add: rebuilt_def off_def)
  have o: "\<forall>i \<in> set order. i < length cs" using assms(7) by simp
  obtain s' pcb' k qs where e: "run_stream p (arrivals base cs order) ([], s) = Some ([], s')" "ts_pcb s' p = Some pcb'"
    "rebuilt base cs k qs pcb'" "{..<length cs} \<subseteq> {..<k} \<union> set qs"
    using rebuilt_arrivals[OF assms(1) r o assms(8,9), of "[]"] assms(7) by auto
  have b: "k \<le> length cs" "\<forall>q \<in> set qs. k < q \<and> q < length cs" using e(3) by (simp_all add: rebuilt_def)
  have k: "k = length cs"
  proof (rule ccontr)
    assume "k \<noteq> length cs"
    hence "k \<in> {..<length cs}" using b(1) by simp
    hence "k \<in> {..<k} \<union> set qs" using e(4) by blast
    thus False using b(2) by auto
  qed
  have q: "qs = []" using b(2) k by (cases qs) auto
  show ?thesis using e(1,2,3) unfolding k q by (auto simp: rebuilt_def off_def)
qed

text \<open>A connection whose peer sends the stream \<open>1, 2, 3\<close> from number 100 on, in two segments.\<close>

definition tcp_sample :: tcp_env where
  "tcp_sample = udp_env.extend (udp_sample\<lparr>ns_kmalloc := [0x500, 0x600, 0x700, 0x800, 0x900, 0xA00]\<rparr>)
     \<lparr>ts_pcb = [0x400 \<mapsto> new_tcp_pcb\<lparr>tp_state := TCP_ESTABLISHED, tp_rcv_nxt := 100\<rparr>], ts_pcbs = 0x400, ts_listen_pcbs = 0,
      ts_lock = False, ts_next_ephemeral_port = 49152, ts_isn = 0\<rparr>"

theorem tcp_stream_prefix_witness:
  "\<exists>got s' pcb'. run_stream 0x400 [Arrives 102 [3], Reads 4, Arrives 100 [1, 2], Arrives 101 [2, 3], Reads 1] ([], tcp_sample) = Some (got, s')
     \<and> ts_pcb s' 0x400 = Some pcb' \<and> got @ unread pcb' = take (unat (tp_rcv_nxt pcb' - 100)) [1, 2, 3]"
proof -
  have "piece 100 [1, 2, 3] 102 [3]" "piece 100 [1, 2, 3] 100 [1, 2]" "piece 100 [1, 2, 3] 101 [2, 3]"
    unfolding piece_def by (rule exI[of _ 2], rule exI[of _ 1], simp) (rule exI[of _ 0], rule exI[of _ 2], simp,
      rule exI[of _ 1], rule exI[of _ 2], simp)
  thus ?thesis
    by (intro tcp_stream_prefix[of _ _ "new_tcp_pcb\<lparr>tp_state := TCP_ESTABLISHED, tp_rcv_nxt := 100\<rparr>"])
      (simp_all add: tcp_sample_def udp_env.extend_def new_tcp_pcb_def)
qed

theorem tcp_stream_complete_witness:
  "\<exists>s' pcb'. run_stream 0x400 (arrivals 100 [[1, 2], [3]] [1, 0, 1]) ([], tcp_sample) = Some ([], s') \<and> ts_pcb s' 0x400 = Some pcb'
     \<and> tp_recv_buf pcb' = [1, 2, 3] \<and> tp_rcv_nxt pcb' = 103 \<and> tp_ooseq pcb' = [] \<and> tp_ooseq_count pcb' = 0"
proof -
  have k: "ns_kmalloc tcp_sample = [0x500, 0x600, 0x700, 0x800, 0x900, 0xA00]"
    "ts_pcb tcp_sample 0x400 = Some (new_tcp_pcb\<lparr>tp_state := TCP_ESTABLISHED, tp_rcv_nxt := 100\<rparr>)"
    by (simp_all add: tcp_sample_def udp_env.extend_def)
  have o: "set [1, 0, 1] = {..<length [[1, 2], [3 :: u8]]}" by auto
  show ?thesis
    using tcp_stream_complete[OF k(2) _ _ _ _ _ o, of 100] k(1)
    by (simp add: new_tcp_pcb_def cut_ok_def)
qed

end
