(* ===== verification/Tcp_Ok.thy ===== *)
theory Tcp_Ok
  imports Tcp
begin

text \<open>
  What the operations of \<^verbatim>\<open>src/src/net/tcp.c\<close> keep.  The invariant \<open>tcp_ok\<close> describes the two lists of control
  blocks, the queues, the retransmission queue and the congestion window; every operation returns and keeps
  it, with one exception: a connection request to a listener takes \<^verbatim>\<open>tcp_lock\<close> twice and never returns.
\<close>

section \<open>Steps that leave the datagram layer alone\<close>

definition tstep :: "u32 set \<Rightarrow> 'a tcp_env_scheme \<Rightarrow> 'a tcp_env_scheme \<Rightarrow> bool" where
  "tstep B s s' \<longleftrightarrow> udp_ok s' \<and> kept B s s' \<and> us_pcb s' = us_pcb s \<and> is_reass s' = is_reass s"

lemma tstepD:
  assumes "tstep B s s'"
  shows "udp_ok s'" "kept B s s'" "us_pcb s' = us_pcb s" "is_reass s' = is_reass s" "ns_now s' = ns_now s" "ds_default s' = ds_default s"
  using assms by (simp_all add: tstep_def kept_def)

lemma tstep_refl: "udp_ok s \<Longrightarrow> tstep B s s"
  by (simp add: tstep_def kept_refl udp_okD(1))

lemma tstep_trans: "tstep B s s' \<Longrightarrow> tstep B s' s'' \<Longrightarrow> tstep B s s''"
  using kept_trans1 by (auto simp: tstep_def)

lemma tstep_mono: "tstep A s s' \<Longrightarrow> A \<subseteq> B \<Longrightarrow> tstep B s s'"
  using kept_mono by (auto simp: tstep_def)

lemma tstep_held: "tstep B s s' \<Longrightarrow> held b s \<Longrightarrow> b \<notin> B \<Longrightarrow> held b s'"
  using kept_owned(1)[of B s s' b] queued_same(1)[of s' s] by (simp add: tstep_def held_def)

lemma tstep_low:
  assumes "udp_ok s" "low_eq s s'" "us_pcb s' = us_pcb s" "us_pcbs s' = us_pcbs s" "us_next_ephemeral_port s' = us_next_ephemeral_port s"
  shows "tstep B s s'"
  using assms low_eq_kept[OF udp_okD(1)[OF assms(1)] assms(2)] queued_same[OF assms(3)]
  by (simp add: tstep_def udp_ok_def low_eqD[OF assms(2)])

lemma tstep_fields:
  fixes s :: "'a tcp_env_scheme"
  assumes "udp_ok s"
  shows "tstep B s (s\<lparr>ts_pcb := f\<rparr>)" "tstep B s (s\<lparr>ts_pcbs := p\<rparr>)" "tstep B s (s\<lparr>ts_listen_pcbs := p\<rparr>)" "tstep B s (s\<lparr>ts_lock := l\<rparr>)"
    "tstep B s (s\<lparr>ts_next_ephemeral_port := n\<rparr>)" "tstep B s (s\<lparr>ts_isn := i\<rparr>)"
  by (rule tstep_low[OF assms]; simp add: low_eq_def)+

lemma tstep_kmalloc:
  fixes s :: "'a tcp_env_scheme"
  assumes "udp_ok s"
  shows "tstep B s (s\<lparr>ns_kmalloc := ks\<rparr>)"
proof -
  let ?s = "s\<lparr>ns_kmalloc := ks\<rparr>"
  have k: "arp_ok ?s = arp_ok s \<and> owned b ?s = owned b s \<and> contents ?s b = contents s b \<and> routes_ok ?s = routes_ok s" for b
    by (rule kmalloc_keep) (simp add: low_eq_def)
  have q: "queued ?s = queued s" "queue_of ?s = queue_of s" by (rule queued_same, simp)+
  have "udp_ok ?s" using assms k by (simp add: udp_ok_def q)
  moreover have "kept B s ?s" using udp_okD(1)[OF assms] k by (simp add: kept_def)
  ultimately show ?thesis by (simp add: tstep_def)
qed

lemma more_tcp:
  fixes s s' :: "'a tcp_env_scheme"
  assumes "udp_env.more s' = udp_env.more s"
  shows "ts_pcb s' = ts_pcb s" "ts_pcbs s' = ts_pcbs s" "ts_listen_pcbs s' = ts_listen_pcbs s" "ts_lock s' = ts_lock s"
    "ts_next_ephemeral_port s' = ts_next_ephemeral_port s" "ts_isn s' = ts_isn s" "tcp_env.more s' = tcp_env.more s"
  using assms by (cases s; cases s'; simp)+

section \<open>Segments on the wire\<close>

definition tcp_raw :: "tcp_header_t \<Rightarrow> u8 list \<Rightarrow> u8 list" where
  "tcp_raw h data = tcp_header_bytes h @ data"

definition tcp_bytes :: "u32 \<Rightarrow> u32 \<Rightarrow> tcp_header_t \<Rightarrow> u8 list \<Rightarrow> u8 list" where
  "tcp_bytes src dst h data =
     overwrite 16 (bytes16 (tcp_checksum src dst (tcp_raw h data) (of_nat (20 + length data)))) (tcp_raw h data)"

definition data_of :: "u8 list option \<Rightarrow> u8 list" where
  "data_of data = (case data of None \<Rightarrow> [] | Some d \<Rightarrow> d)"

lemma tcp_header_bytes_length [simp]: "length (tcp_header_bytes h) = 20"
  by (simp add: tcp_header_bytes_def)

lemma length_tcp_bytes [simp]: "length (tcp_bytes src dst h data) = 20 + length data"
  by (simp add: tcp_bytes_def tcp_raw_def)

lemma tcp_build_ok:
  assumes ok: "net_ok s" and c: "contents s b = Some (replicate 128 0, [], replicate n 0)"
    and n: "n = 20 + length (data_of data)" "n \<le> 1920"
  obtains s' where "tcp_build b (of_nat n) src dst h data s = Some s'"
    "buf_step b (replicate 128 0, tcp_bytes src dst h (data_of data), []) s s'"
proof -
  obtain p s1 buf where s1: "netbuf_put b (of_nat n) s = Some (p, s1)" "p \<noteq> 0"
    "buf_step b (replicate 128 0, replicate n 0, []) s s1" "ns_bufs s1 b = Some buf" "p = nb_data buf"
    by (rule put_fresh[OF ok c])
  have c1: "net_ok s1" "contents s1 b = Some (replicate 128 0, replicate n 0, [])" using s1(3) by (simp_all add: buf_step_def)
  let ?h = "tcp_header_bytes h" and ?d = "data_of data"
  have hl: "0 + length ?h \<le> length (replicate n (0 :: u8))" using n by simp
  obtain s2 where s2: "nb_write b (nb_data buf + of_nat 0) ?h s1 = Some s2"
    "buf_step b (replicate 128 0, overwrite 0 ?h (replicate n 0), []) s1 s2" "ns_bufs s2 = ns_bufs s1"
    by (rule nb_write_data[OF c1 s1(4) hl])
  let ?m = "?h @ replicate (length ?d) 0"
  have m: "overwrite 0 ?h (replicate n 0) = ?m" using n by (simp add: overwrite_def)
  have c2: "net_ok s2" "contents s2 b = Some (replicate 128 0, ?m, [])" "ns_bufs s2 b = Some buf"
    using s2(2,3) s1(4) m by (simp_all add: buf_step_def)
  have dl: "20 + length ?d \<le> length ?m" by simp
  obtain s2' where s2': "nb_write b (nb_data buf + of_nat 20) ?d s2 = Some s2'"
    "buf_step b (replicate 128 0, overwrite 20 ?d ?m, []) s2 s2'" "ns_bufs s2' = ns_bufs s2"
    by (rule nb_write_data[OF c2 dl])
  have raw: "overwrite 20 ?d ?m = tcp_raw h ?d" by (simp add: overwrite_def tcp_raw_def)
  obtain s3 where s3: "(case data of None \<Rightarrow> Some s2 | Some bs \<Rightarrow> if bs \<noteq> [] then nb_write b (p + 20) bs s2 else Some s2) = Some s3"
    "buf_step b (replicate 128 0, tcp_raw h ?d, []) s2 s3" "ns_bufs s3 = ns_bufs s2"
  proof (cases "?d = []")
    case True
    have "buf_step b (replicate 128 0, tcp_raw h ?d, []) s2 s2" using c2 True by (simp add: buf_step_def tcp_raw_def)
    moreover have "(case data of None \<Rightarrow> Some s2 | Some bs \<Rightarrow> if bs \<noteq> [] then nb_write b (p + 20) bs s2 else Some s2) = Some s2"
      using True by (simp add: data_of_def split: option.splits)
    ultimately show ?thesis using that by blast
  next
    case False
    then obtain d where d: "data = Some d" "?d = d" by (cases data) (simp_all add: data_of_def)
    have "(case data of None \<Rightarrow> Some s2 | Some bs \<Rightarrow> if bs \<noteq> [] then nb_write b (p + 20) bs s2 else Some s2) = Some s2'"
      using d s2'(1) s1(5) False by simp
    thus ?thesis using that s2'(2,3) unfolding raw by blast
  qed
  have c3: "net_ok s3" "contents s3 b = Some (replicate 128 0, tcp_raw h ?d, [])" "ns_bufs s3 b = Some buf"
    using s3(2,3) c2(3) by (simp_all add: buf_step_def)
  have l3: "length (tcp_raw h ?d) = n" using n by (simp add: tcp_raw_def)
  have rd: "nb_read s3 b (nb_data buf + of_nat 0) n = Some (tcp_raw h ?d)"
    using nb_read_data[OF c3, of 0 n] l3 by simp
  let ?ck = "bytes16 (tcp_checksum src dst (tcp_raw h ?d) (of_nat n))"
  have k: "16 + length ?ck \<le> length (tcp_raw h ?d)" using l3 n by simp
  obtain s4 where s4: "nb_write b (nb_data buf + of_nat 16) ?ck s3 = Some s4"
    "buf_step b (replicate 128 0, overwrite 16 ?ck (tcp_raw h ?d), []) s3 s4"
    by (rule nb_write_data[OF c3 k])
  have un: "unat (of_nat n :: u16) = n" unfolding unat_of_nat using n by simp
  have uc: "(ucast (of_nat n :: u32) :: u16) = of_nat n"
    unfolding word_unat_eq_iff unsigned_ucast_eq un using n(2) by (simp add: take_bit_eq_mod unat_of_nat_u32)
  have "tcp_build b (of_nat n) src dst h data s = Some s4"
    using s1(1,5) s2(1) s3(1)[unfolded s1(5)] rd s4(1) un unfolding tcp_build_def uc by simp
  moreover have "buf_step b (replicate 128 0, tcp_bytes src dst h ?d, []) s s4"
    using buf_step_trans[OF s1(3) buf_step_trans[OF s2(2) buf_step_trans[OF s3(2) s4(2)]]] n(1) by (simp add: tcp_bytes_def)
  ultimately show ?thesis by (rule that)
qed

text \<open>A fresh buffer with a segment.\<close>

lemma tcp_emit_build:
  fixes s :: "'a tcp_env_scheme"
  assumes ok: "udp_ok s" and n: "n = 20 + length (data_of data)" "n \<le> 1920" and a: "netbuf_alloc (of_nat n) s = (b, s1)" "b \<noteq> 0"
  obtains s2 where "tcp_build b (of_nat n) src dst h data s1 = Some s2" "tstep {} s s2" "held b s2" "same_env s s2"
    "contents s2 b = Some (replicate 128 0, tcp_bytes src dst h (data_of data), [])" "udp_env.more s2 = udp_env.more s" "\<not> owned b s"
    "same_env s s1" "udp_env.more s1 = udp_env.more s"
proof -
  have aok: "arp_ok s" by (rule udp_okD(1)[OF ok])
  have un: "unat (of_nat n :: u32) = n" using n(2) by (simp add: unat_of_nat_u32)
  have sz: "unat (of_nat n :: u32) < 4294967168" using un n(2) by simp
  note al = alloc_step[OF aok sz a(1)]
  have c: "contents s1 b = Some (replicate 128 0, [], replicate n 0)"
    using al(4)[OF a(2)] n(2) un by (simp add: fresh_packet_def)
  have ok1: "arp_ok s1" using al(1) by (simp add: arp_step_def)
  obtain s2 where s2: "tcp_build b (of_nat n) src dst h data s1 = Some s2"
    "buf_step b (replicate 128 0, tcp_bytes src dst h (data_of data), []) s1 s2"
    by (rule tcp_build_ok[OF arp_okD(2)[OF ok1] c n])
  have "ns_bufs s1 b \<noteq> None" using c by (auto simp: contents_def bind_eq_Some_conv)
  then have o1: "owned b s1" using a(2) al(5) by (simp add: owned_def)
  note st = buf_step_arp[OF ok1 o1 s2(2)]
  have no: "\<not> owned b s" using al(3)[OF a(2)] by (simp add: owned_def)
  have "kept {b} s s2" using kept_trans[OF arp_step_kept[OF al(1)] arp_step_kept[OF st(1)]] by simp
  then have k: "kept {} s s2" using kept_new no by blast
  have e: "same_env s s2" using same_env_trans[OF al(2)] s2(2) by (simp add: buf_step_def)
  have m: "icmp_env.more s2 = icmp_env.more s" by (rule more_icmp(5)[OF same_env_path(4)[OF e]])
  have m1: "icmp_env.more s1 = icmp_env.more s" by (rule more_icmp(5)[OF same_env_path(4)[OF al(2)]])
  note u = udp_ok_kept[OF ok k m]
  have "b \<notin> queued s" using udp_okD(8)[OF ok] no by blast
  then have h: "held b s2" using st(2) u(2) by (simp add: held_def)
  have t: "tstep {} s s2" using u(1) k more_udp(2)[OF m] same_env_path(3)[OF e] by (simp add: tstep_def)
  show ?thesis by (rule that[OF s2(1) t h e _ more_udp(4)[OF m] no al(2) more_udp(4)[OF m1]]) (use s2(2) in \<open>simp add: buf_step_def\<close>)
qed

lemma tcp_send_buf:
  fixes s :: "'a tcp_env_scheme"
  assumes ok: "udp_ok s" and h: "held b s" and c: "contents s b = Some (pre, pay, post)" and dv: "ds_devs s dev0 \<noteq> None"
  obtains ret s' where "send_or_release dev0 b dst protocol s = Some (ret, s')" "tstep {b} s s'" "ret = 0 \<or> ret = -1"
    "udp_env.more s' = udp_env.more s"
    "path_open dev0 dst dev hop d mac rs s \<and> 34 \<le> length pre \<and> length pay \<le> 1484
     \<longrightarrow> ret = 0 \<and> ds_tx_ready s' = rs
       \<and> ds_wire s' = ds_wire s @ [(dev, ip_frame_bytes mac d (is_id_counter s) protocol dst pay)]"
proof -
  have o: "owned b s" "b \<notin> queued s" using h by (simp_all add: held_def)
  have dv': "dev0 \<noteq> 0 \<longrightarrow> ds_devs s dev0 \<noteq> None" using dv by simp
  obtain ret s' where s': "send_or_release dev0 b dst protocol s = Some (ret, s')" "kept {b} s s'"
    "ret = 0 \<or> ret = -1" "ip_env.more s' = ip_env.more s" "is_reass s' = is_reass s"
    "path_open dev0 dst dev hop d mac rs s \<and> 34 \<le> length pre \<and> length pay \<le> 1484
     \<longrightarrow> ret = 0 \<and> ds_tx_ready s' = rs
       \<and> ds_wire s' = ds_wire s @ [(dev, ip_frame_bytes mac d (is_id_counter s) protocol dst pay)]"
    by (rule send_or_release_step[OF udp_okD(1)[OF ok] o(1) c dv' udp_okD(2)[OF ok]])
  have m: "icmp_env.more s' = icmp_env.more s" by (rule more_icmp(5)[OF s'(4)])
  have u: "udp_ok s'" using udp_ok_kept[OF ok s'(2) m] o by simp
  have t: "tstep {b} s s'" using u s'(2,5) more_udp(2)[OF m] by (simp add: tstep_def)
  show ?thesis by (rule that[OF s'(1) t s'(3) more_udp(4)[OF m] s'(6)])
qed

lemma tstep_new: "tstep {} s s1 \<Longrightarrow> tstep {b} s1 s2 \<Longrightarrow> \<not> owned b s \<Longrightarrow> tstep {} s s2"
  using kept_trans[of "{}" s s1 "{b}" s2] kept_new[of b s s2] by (simp add: tstep_def)

lemma default_dev:
  assumes "udp_ok s" "netdev_get_default s \<noteq> 0"
  obtains d where "ds_devs s (netdev_get_default s) = Some d"
  using dev_okD(4)[OF arp_okD(1)[OF udp_okD(1)[OF assms(1)]]] assms(2) by (auto simp: netdev_get_default_def)

section \<open>Sending keeps the rest of the control block\<close>

text \<open>The fields a sender may change.\<close>

definition sent :: "tcp_pcb_t \<Rightarrow> tcp_pcb_t \<Rightarrow> bool" where
  "sent x y \<longleftrightarrow> y = x\<lparr>tp_snd_nxt := tp_snd_nxt y, tp_last_send_time := tp_last_send_time y, tp_unacked := tp_unacked y,
     tp_timer_retransmit := tp_timer_retransmit y, tp_rtt_measuring := tp_rtt_measuring y, tp_rtt_seq := tp_rtt_seq y\<rparr>"

lemma sent_trans: "sent x y \<Longrightarrow> sent y z \<Longrightarrow> sent x z"
proof -
  assume xy: "sent x y" and yz: "sent y z"
  have 1: "z = y\<lparr>tp_snd_nxt := tp_snd_nxt z, tp_last_send_time := tp_last_send_time z, tp_unacked := tp_unacked z,
     tp_timer_retransmit := tp_timer_retransmit z, tp_rtt_measuring := tp_rtt_measuring z, tp_rtt_seq := tp_rtt_seq z\<rparr>"
    using yz by (simp only: sent_def)
  obtain a b c d e f where 2: "y = x\<lparr>tp_snd_nxt := a, tp_last_send_time := b, tp_unacked := c,
     tp_timer_retransmit := d, tp_rtt_measuring := e, tp_rtt_seq := f\<rparr>"
    using xy by (simp only: sent_def)
  show ?thesis unfolding sent_def by (rule trans[OF 1]) (simp add: 2)
qed

definition seg_ok :: "tcp_segment_t \<Rightarrow> bool" where
  "seg_ok g \<longleftrightarrow> sg_data_len g = of_nat (length (data_of (sg_data g))) \<and> length (data_of (sg_data g)) \<le> 1460"

lemma tcp_queue_unacked_step:
  fixes s :: "'a tcp_env_scheme"
  assumes ok: "udp_ok s" and p: "ts_pcb s p = Some x" and d: "len = of_nat (length (data_of data))" "length (data_of data) \<le> 1460"
  obtains ret s' y where "tcp_queue_unacked p seq flags data len s = Some (ret, s')" "tstep {} s s'"
    "ts_pcb s' = (ts_pcb s)(p \<mapsto> y)" "sent x y" "tp_snd_nxt y = tp_snd_nxt x" "set (tp_unacked y) \<subseteq> set (tp_unacked x) \<union> Collect seg_ok"
    "\<exists>more. tp_unacked y = tp_unacked x @ more"
    "ts_pcbs s' = ts_pcbs s" "ts_listen_pcbs s' = ts_listen_pcbs s" "ts_lock s' = ts_lock s"
    "ts_next_ephemeral_port s' = ts_next_ephemeral_port s" "ds_wire s' = ds_wire s" "ds_tx_ready s' = ds_tx_ready s"
proof -
  obtain a s1 where a: "kmalloc_next (\<lambda>_. False) s = (a, s1)" by fastforce
  obtain ks where s1: "s1 = s\<lparr>ns_kmalloc := ks\<rparr>" using kmalloc_next_state[OF a] by blast
  have self: "(ts_pcb s)(p \<mapsto> x) = ts_pcb s" using p by auto
  have sx: "sent x x" by (simp add: sent_def)
  show ?thesis
  proof (cases "a = 0")
    case True
    then have "tcp_queue_unacked p seq flags data len s = Some (-1, s1)" using a by (simp add: tcp_queue_unacked_def)
    then show ?thesis by (rule that[where y = x]) (use tstep_kmalloc[OF ok] self sx in \<open>simp_all add: s1\<close>)
  next
    case False
    let ?copy = "len > 0 \<and> data \<noteq> None"
    obtain dd s2 where dd: "(if ?copy then kmalloc_next (\<lambda>_. False) s1 else (1, s1)) = (dd, s2)" by fastforce
    obtain ks2 where s2: "s2 = s\<lparr>ns_kmalloc := ks2\<rparr>"
      using dd kmalloc_next_state[of "\<lambda>_. False" s1 dd s2] s1 by (cases ?copy) auto
    show ?thesis
    proof (cases "dd = 0")
      case True
      then have "tcp_queue_unacked p seq flags data len s = Some (-1, s2)"
        using a False dd by (simp add: tcp_queue_unacked_def)
      then show ?thesis by (rule that[where y = x]) (use tstep_kmalloc[OF ok] self sx in \<open>simp_all add: s2\<close>)
    next
      case d0: False
      define seg where "seg = \<lparr>sg_seq = seq, sg_len = len + (if has_flag flags TCP_FLAG_SYN then 1 else 0) + (if has_flag flags TCP_FLAG_FIN then 1 else 0),
         sg_data = (if ?copy then data else None), sg_data_len = len, sg_flags = flags, sg_send_time = ns_now s2,
         sg_retransmit_time = ns_now s2 + tp_rto x, sg_retries = 0\<rparr>"
      define y where "y = x\<lparr>tp_unacked := tp_unacked x @ [seg],
         tp_timer_retransmit := if tp_timer_retransmit x = 0 then sg_retransmit_time seg else tp_timer_retransmit x,
         tp_rtt_seq := if tp_rtt_measuring x then tp_rtt_seq x else seq, tp_rtt_measuring := True\<rparr>"
      have e: "tcp_queue_unacked p seq flags data len s = Some (0, s2\<lparr>ts_pcb := (ts_pcb s2)(p \<mapsto> y)\<rparr>)"
        using a False dd d0 p unfolding tcp_queue_unacked_def Let_def
        by (simp add: upd_tcp_def s2 y_def seg_def)
      have z: "len = 0 \<longleftrightarrow> data_of data = []"
      proof -
        have "unat len = length (data_of data)" using d by (simp add: unat_of_nat_u32)
        thus ?thesis by (metis length_0_conv unat_eq_zero)
      qed
      have g: "seg_ok seg" using d z by (cases "?copy") (auto simp: seg_def seg_ok_def data_of_def word_gt_0 split: option.splits)
      have t: "tstep {} s (s2\<lparr>ts_pcb := (ts_pcb s2)(p \<mapsto> y)\<rparr>)"
        unfolding s2 by (rule tstep_trans[OF tstep_kmalloc[OF ok] tstep_fields(1)]) (rule tstepD(1)[OF tstep_kmalloc[OF ok]])
      show ?thesis
        by (rule that[OF e t, of y]) (use g in \<open>simp_all add: s2 y_def sent_def\<close>)
    qed
  qed
qed

text \<open>Everything a sender of one segment does.\<close>

definition tlists :: "'a tcp_env_scheme \<Rightarrow> 'a tcp_env_scheme \<Rightarrow> bool" where
  "tlists s s' \<longleftrightarrow> ts_pcbs s' = ts_pcbs s \<and> ts_listen_pcbs s' = ts_listen_pcbs s \<and> ts_lock s' = ts_lock s
     \<and> ts_next_ephemeral_port s' = ts_next_ephemeral_port s"

lemma tlists_refl [simp]: "tlists s s"
  by (simp add: tlists_def)

lemma tlists_trans: "tlists s s' \<Longrightarrow> tlists s' s'' \<Longrightarrow> tlists s s''"
  by (simp add: tlists_def)

lemma more_tlists: "udp_env.more s' = udp_env.more (s :: 'a tcp_env_scheme) \<Longrightarrow> tlists s s'"
  using more_tcp[of s' s] by (simp add: tlists_def)

lemma tcp_send_segment_step:
  fixes s :: "'a tcp_env_scheme"
  assumes ok: "udp_ok s" and p: "ts_pcb s p = Some x" and d: "len = of_nat (length (data_of data))" "length (data_of data) \<le> 1460"
  obtains ret s' y where "tcp_send_segment p flags data len s = Some (ret, s')" "tstep {} s s'" "tlists s s'"
    "ts_pcb s' = (ts_pcb s)(p \<mapsto> y)" "sent x y" "set (tp_unacked y) \<subseteq> set (tp_unacked x) \<union> Collect seg_ok" "\<exists>more. tp_unacked y = tp_unacked x @ more"
    "netdev_get_default s = dev \<and> path_open dev (tp_remote_ip x) dev hop e mac rs s \<and> fst (netbuf_alloc (20 + len) s) \<noteq> 0
     \<longrightarrow> ret = 0 \<and> ds_tx_ready s' = rs
       \<and> tp_snd_nxt y = tp_snd_nxt x + (if has_flag flags TCP_FLAG_SYN then 1 else 0) + (if has_flag flags TCP_FLAG_FIN then 1 else 0) + len
       \<and> ds_wire s' = ds_wire s @ [(dev, ip_frame_bytes mac e (is_id_counter s) IP_PROTO_TCP (tp_remote_ip x)
           (tcp_bytes (tcp_source_ip x e) (tp_remote_ip x) (tcp_header_out x (tp_snd_nxt x) flags) (data_of data)))]"
proof -
  let ?dev = "netdev_get_default s"
  have self: "(ts_pcb s)(p \<mapsto> x) = ts_pcb s" using p by auto
  have sx: "sent x x" by (simp add: sent_def)
  define n where "n = 20 + length (data_of data)"
  have n: "n = 20 + length (data_of data)" "n \<le> 1920" "20 + len = of_nat n" using d by (simp_all add: n_def)
  show ?thesis
  proof (cases "?dev = 0")
    case True
    then have "tcp_send_segment p flags data len s = Some (-1, s)" by (simp add: tcp_send_segment_def)
    then show ?thesis by (rule that[where y = x]) (use tstep_refl[OF ok] self sx True in \<open>auto simp: path_open_def\<close>)
  next
    case dv: False
    obtain dd where dd: "ds_devs s ?dev = Some dd" by (rule default_dev[OF ok dv])
    obtain b s1 where a: "netbuf_alloc (of_nat n) s = (b, s1)" by fastforce
    have un: "unat (of_nat n :: u32) < 4294967168" using n(2) by (simp add: unat_of_nat_u32)
    note al = alloc_step[OF udp_okD(1)[OF ok] un a]
    show ?thesis
    proof (cases "b = 0")
      case True
      have m1: "icmp_env.more s1 = icmp_env.more s" by (rule more_icmp(5)[OF same_env_path(4)[OF al(2)]])
      have k: "kept {} s s1" by (rule arp_step_kept[OF al(1)])
      have u: "udp_ok s1" using udp_ok_kept[OF ok k m1] by simp
      have t: "tstep {} s s1" using u k more_udp(2)[OF m1] same_env_path(3)[OF al(2)] by (simp add: tstep_def)
      have run: "tcp_send_segment p flags data len s = Some (-1, s1)"
        using dv a True by (simp add: tcp_send_segment_def n(3) Let_def)
      note mt = more_tcp[OF more_udp(4)[OF m1]]
      show ?thesis
        by (rule that[OF run t more_tlists[OF more_udp(4)[OF m1]], of x]) (use self sx mt a True n(3) in simp_all)
    next
      case b0: False
      let ?h = "tcp_header_out x (tp_snd_nxt x) flags" and ?src = "tcp_source_ip x dd"
      obtain s2 where s2: "tcp_build b (of_nat n) ?src (tp_remote_ip x) ?h data s1 = Some s2" "tstep {} s s2" "held b s2" "same_env s s2"
        "contents s2 b = Some (replicate 128 0, tcp_bytes ?src (tp_remote_ip x) ?h (data_of data), [])"
        "udp_env.more s2 = udp_env.more s" "\<not> owned b s" "same_env s s1" "udp_env.more s1 = udp_env.more s"
        by (rule tcp_emit_build[OF ok n(1,2) a b0])
      note m1 = more_tcp[OF s2(9)] and m2 = more_tcp[OF s2(6)]
      let ?x3 = "x\<lparr>tp_snd_nxt := tp_snd_nxt x + (if has_flag flags TCP_FLAG_SYN then 1 else 0)
                          + (if has_flag flags TCP_FLAG_FIN then 1 else 0) + len, tp_last_send_time := ns_now s2\<rparr>"
      let ?s3 = "s2\<lparr>ts_pcb := (ts_pcb s2)(p \<mapsto> ?x3)\<rparr>"
      have u3: "upd_tcp p (\<lambda>x. x\<lparr>tp_snd_nxt := tp_snd_nxt x + (if has_flag flags TCP_FLAG_SYN then 1 else 0)
                          + (if has_flag flags TCP_FLAG_FIN then 1 else 0) + len, tp_last_send_time := ns_now s2\<rparr>) s2 = Some ?s3"
        using p m2 by (simp add: upd_tcp_def)
      have t3: "tstep {} s2 ?s3" by (rule tstep_fields(1)[OF tstepD(1)[OF s2(2)]])
      have ok3: "udp_ok ?s3" by (rule tstepD(1)[OF t3])
      have h3: "held b ?s3" by (rule tstep_held[OF t3 s2(3)]) simp
      have low3: "low_eq s2 ?s3" by (simp add: low_eq_def)
      note l3 = low_eqD[OF low3]
      have c3: "contents ?s3 b = Some (replicate 128 0, tcp_bytes ?src (tp_remote_ip x) ?h (data_of data), [])" using s2(5) l3(3) by simp
      note ev = same_env_cache[OF s2(4)] and ep = same_env_path[OF s2(4)]
      have dv3: "ds_devs ?s3 ?dev \<noteq> None" using dd ev(2) by simp
      obtain ret s4 where s4: "send_or_release ?dev b (tp_remote_ip x) IP_PROTO_TCP ?s3 = Some (ret, s4)" "tstep {b} ?s3 s4" "ret = 0 \<or> ret = -1"
        "udp_env.more s4 = udp_env.more ?s3"
        "path_open ?dev (tp_remote_ip x) dev hop e mac rs ?s3 \<and> 34 \<le> length (replicate 128 (0::u8)) \<and> length (tcp_bytes ?src (tp_remote_ip x) ?h (data_of data)) \<le> 1484
         \<longrightarrow> ret = 0 \<and> ds_tx_ready s4 = rs
           \<and> ds_wire s4 = ds_wire ?s3 @ [(dev, ip_frame_bytes mac e (is_id_counter ?s3) IP_PROTO_TCP (tp_remote_ip x) (tcp_bytes ?src (tp_remote_ip x) ?h (data_of data)))]"
        by (rule tcp_send_buf[OF ok3 h3 c3 dv3])
      note m4 = more_tcp[OF s4(4)]
      have t4: "tstep {} s s4" by (rule tstep_new[OF tstep_trans[OF s2(2) t3] s4(2) s2(7)])
      have p4: "ts_pcb s4 = (ts_pcb s)(p \<mapsto> ?x3)" using m4(1) m2(1) by simp
      have tl4: "tlists s s4" using more_tlists[OF s4(4)] more_tlists[OF s2(6)] by (simp add: tlists_def)
      have wire: "?dev = dev \<and> path_open dev (tp_remote_ip x) dev hop e mac rs s \<longrightarrow> ret = 0 \<and> ds_tx_ready s4 = rs
         \<and> ds_wire s4 = ds_wire s @ [(dev, ip_frame_bytes mac e (is_id_counter s) IP_PROTO_TCP (tp_remote_ip x)
             (tcp_bytes (tcp_source_ip x e) (tp_remote_ip x) ?h (data_of data)))]"
      proof
        assume po: "?dev = dev \<and> path_open dev (tp_remote_ip x) dev hop e mac rs s"
        hence "dd = e" using dd by (simp add: path_open_def)
        thus "ret = 0 \<and> ds_tx_ready s4 = rs
         \<and> ds_wire s4 = ds_wire s @ [(dev, ip_frame_bytes mac e (is_id_counter s) IP_PROTO_TCP (tp_remote_ip x)
             (tcp_bytes (tcp_source_ip x e) (tp_remote_ip x) ?h (data_of data)))]"
          using s4(5) po d(2) l3(5) ep(1,2) ev(3) by simp
      qed
      let ?need = "has_flag flags TCP_FLAG_SYN \<or> has_flag flags TCP_FLAG_FIN \<or> len > 0"
      have go: "tcp_send_segment p flags data len s = (if ret < 0 then Some (ret, s4)
          else if ?need \<and> tp_state ?x3 \<noteq> TCP_LISTEN
          then do { (_, s5) \<leftarrow> tcp_queue_unacked p (tp_snd_nxt x) flags data len s4; Some (ret, s5) } else Some (ret, s4))"
      proof -
        have 1: "ts_pcb s1 p = Some x" "ds_devs s1 ?dev = Some dd" "ts_pcb s4 p = Some ?x3"
          using p m1(1) dd same_env_cache(2)[OF s2(8)] p4 by simp_all
        show ?thesis unfolding tcp_send_segment_def Let_def n(3)
          by (simp only: dv b0 a 1 s2(1) u3 s4(1) bind.bind_lunit prod.case simp_thms if_False)
      qed
      show ?thesis
      proof (cases "ret < 0 \<or> \<not> (?need \<and> tp_state ?x3 \<noteq> TCP_LISTEN)")
        case True
        have run: "tcp_send_segment p flags data len s = Some (ret, s4)" unfolding go using True by auto
        show ?thesis by (rule that[OF run t4 tl4 p4]) (use wire in \<open>auto simp: sent_def\<close>)
      next
        case False
        have p4p: "ts_pcb s4 p = Some ?x3" using p4 by simp
        obtain r5 s5 y where s5: "tcp_queue_unacked p (tp_snd_nxt x) flags data len s4 = Some (r5, s5)" "tstep {} s4 s5"
          "ts_pcb s5 = (ts_pcb s4)(p \<mapsto> y)" "sent ?x3 y" "tp_snd_nxt y = tp_snd_nxt ?x3"
          "set (tp_unacked y) \<subseteq> set (tp_unacked ?x3) \<union> Collect seg_ok" "\<exists>more. tp_unacked y = tp_unacked ?x3 @ more"
          "ts_pcbs s5 = ts_pcbs s4" "ts_listen_pcbs s5 = ts_listen_pcbs s4" "ts_lock s5 = ts_lock s4"
          "ts_next_ephemeral_port s5 = ts_next_ephemeral_port s4" "ds_wire s5 = ds_wire s4" "ds_tx_ready s5 = ds_tx_ready s4"
          by (rule tcp_queue_unacked_step[OF tstepD(1)[OF t4] p4p d])
        have run: "tcp_send_segment p flags data len s = Some (ret, s5)" unfolding go using False s5(1) by auto
        have sy: "sent x y" by (rule sent_trans[OF _ s5(4)]) (simp add: sent_def)
        show ?thesis
          by (rule that[OF run tstep_trans[OF t4 s5(2)] _ _ sy])
            (use s5(3,5-13) p4 tl4 wire in \<open>auto simp: tlists_def\<close>)
      qed
    qed
  qed
qed

text \<open>The senders without effect on a control block.\<close>

lemma tcp_emit_plain:
  fixes s :: "'a tcp_env_scheme"
  assumes ok: "udp_ok s" and dv: "dev0 = netdev_get_default s" "dev0 \<noteq> 0" and n: "n = 20 + length (data_of data)" "n \<le> 1920"
    and a: "netbuf_alloc (of_nat n) s = (b, s1)"
  obtains (none) "b = 0" "tstep {} s s1" "udp_env.more s1 = udp_env.more s"
  | (sent) s2 ret s3 where "b \<noteq> 0" "ds_devs s1 dev0 = ds_devs s dev0" "udp_env.more s1 = udp_env.more s" "tcp_build b (of_nat n) src dst h data s1 = Some s2"
      "send_or_release dev0 b dst IP_PROTO_TCP s2 = Some (ret, s3)" "tstep {} s s3" "udp_env.more s3 = udp_env.more s"
      "path_open dev0 dst dev hop e mac rs s \<and> n \<le> 1484 \<longrightarrow> ds_tx_ready s3 = rs
       \<and> ds_wire s3 = ds_wire s @ [(dev, ip_frame_bytes mac e (is_id_counter s) IP_PROTO_TCP dst (tcp_bytes src dst h (data_of data)))]"
proof (cases "b = 0")
  case True
  have un: "unat (of_nat n :: u32) < 4294967168" using n(2) by (simp add: unat_of_nat_u32)
  note al = alloc_step[OF udp_okD(1)[OF ok] un a]
  have m1: "icmp_env.more s1 = icmp_env.more s" by (rule more_icmp(5)[OF same_env_path(4)[OF al(2)]])
  have k: "kept {} s s1" by (rule arp_step_kept[OF al(1)])
  have u: "udp_ok s1" using udp_ok_kept[OF ok k m1] by simp
  have t: "tstep {} s s1" using u k more_udp(2)[OF m1] same_env_path(3)[OF al(2)] by (simp add: tstep_def)
  show ?thesis by (rule none[OF True t more_udp(4)[OF m1]])
next
  case b0: False
  obtain s2 where s2: "tcp_build b (of_nat n) src dst h data s1 = Some s2" "tstep {} s s2" "held b s2" "same_env s s2"
    "contents s2 b = Some (replicate 128 0, tcp_bytes src dst h (data_of data), [])" "udp_env.more s2 = udp_env.more s" "\<not> owned b s"
    "same_env s s1" "udp_env.more s1 = udp_env.more s"
    by (rule tcp_emit_build[OF ok n a b0])
  note ev = same_env_cache[OF s2(4)] and ep = same_env_path[OF s2(4)]
  obtain dd where dd: "ds_devs s dev0 = Some dd" using default_dev[OF ok] dv by metis
  have dv2: "ds_devs s2 dev0 \<noteq> None" using dd ev(2) by simp
  obtain ret s3 where s3: "send_or_release dev0 b dst IP_PROTO_TCP s2 = Some (ret, s3)" "tstep {b} s2 s3" "ret = 0 \<or> ret = -1"
    "udp_env.more s3 = udp_env.more s2"
    "path_open dev0 dst dev hop e mac rs s2 \<and> 34 \<le> length (replicate 128 (0::u8)) \<and> length (tcp_bytes src dst h (data_of data)) \<le> 1484
     \<longrightarrow> ret = 0 \<and> ds_tx_ready s3 = rs
       \<and> ds_wire s3 = ds_wire s2 @ [(dev, ip_frame_bytes mac e (is_id_counter s2) IP_PROTO_TCP dst (tcp_bytes src dst h (data_of data)))]"
    by (rule tcp_send_buf[OF tstepD(1)[OF s2(2)] s2(3,5) dv2])
  have t: "tstep {} s s3" by (rule tstep_new[OF s2(2) s3(2) s2(7)])
  show ?thesis
    by (rule sent[OF b0 _ s2(9,1) s3(1) t]) (use same_env_cache(2)[OF s2(8)] s3(4,5) s2(6) ep(1,2) ev(3) n(1) in simp_all)
qed

lemma tcp_send_rst_step:
  fixes s :: "'a tcp_env_scheme"
  assumes ok: "udp_ok s"
  obtains s' where "tcp_send_rst src dst sp dp seq ack valid s = Some s'" "tstep {} s s'" "udp_env.more s' = udp_env.more s"
proof (cases "netdev_get_default s = 0")
  case True
  then have "tcp_send_rst src dst sp dp seq ack valid s = Some s" by (simp add: tcp_send_rst_def)
  then show ?thesis by (rule that) (use tstep_refl[OF ok] in simp_all)
next
  case dv: False
  obtain b s1 where a: "netbuf_alloc (of_nat 20) s = (b, s1)" by fastforce
  let ?h = "\<lparr>th_src_port = htons sp, th_dst_port = htons dp, th_seq_num = htonl seq, th_ack_num = htonl ack, th_data_offset = 0x50,
                     th_flags = TCP_FLAG_RST OR (if valid then TCP_FLAG_ACK else 0), th_window = 0, th_checksum = 0, th_urgent_ptr = 0\<rparr>"
  have n: "20 = 20 + length (data_of None)" "(20 :: nat) \<le> 1920" by (simp_all add: data_of_def)
  show ?thesis
  proof (rule tcp_emit_plain[OF ok refl dv n a, where src = src and dst = dst and h = ?h])
    assume "b = 0" "tstep {} s s1" "udp_env.more s1 = udp_env.more s"
    then show ?thesis using that[of s1] dv a by (simp add: tcp_send_rst_def Let_def)
  next
    fix s2 ret s3
    assume s: "b \<noteq> 0" "ds_devs s1 (netdev_get_default s) = ds_devs s (netdev_get_default s)" "udp_env.more s1 = udp_env.more s"
      "tcp_build b (of_nat 20) src dst ?h None s1 = Some s2"
      "send_or_release (netdev_get_default s) b dst IP_PROTO_TCP s2 = Some (ret, s3)" "tstep {} s s3" "udp_env.more s3 = udp_env.more s"
    have "tcp_send_rst src dst sp dp seq ack valid s = Some s3"
      unfolding tcp_send_rst_def Let_def using dv a s(1,4,5) by simp
    then show ?thesis using that s(6,7) by blast
  qed
qed

lemma tcp_resend_step:
  fixes s :: "'a tcp_env_scheme"
  assumes ok: "udp_ok s" and p: "ts_pcb s p = Some x" and g: "seg_ok seg"
  obtains s' where "tcp_resend p seg s = Some s'" "tstep {} s s'" "udp_env.more s' = udp_env.more s"
proof (cases "netdev_get_default s = 0")
  case True
  then have "tcp_resend p seg s = Some s" by (simp add: tcp_resend_def)
  then show ?thesis by (rule that) (use tstep_refl[OF ok] in simp_all)
next
  case dv: False
  obtain dd where dd: "ds_devs s (netdev_get_default s) = Some dd" by (rule default_dev[OF ok dv])
  define n where "n = 20 + length (data_of (sg_data seg))"
  have n: "n = 20 + length (data_of (sg_data seg))" "n \<le> 1920" "20 + sg_data_len seg = of_nat n" using g by (simp_all add: n_def seg_ok_def)
  obtain b s1 where a: "netbuf_alloc (of_nat n) s = (b, s1)" by fastforce
  let ?h = "tcp_header_out x (sg_seq seg) (sg_flags seg OR TCP_FLAG_ACK)"
  show ?thesis
  proof (rule tcp_emit_plain[OF ok refl dv n(1,2) a, where src = "tcp_source_ip x dd" and dst = "tp_remote_ip x" and h = ?h])
    assume "b = 0" "tstep {} s s1" "udp_env.more s1 = udp_env.more s"
    then show ?thesis using that[of s1] dv a n(3) by (simp add: tcp_resend_def Let_def)
  next
    fix s2 ret s3
    assume s: "b \<noteq> 0" "ds_devs s1 (netdev_get_default s) = ds_devs s (netdev_get_default s)" "udp_env.more s1 = udp_env.more s"
      "tcp_build b (of_nat n) (tcp_source_ip x dd) (tp_remote_ip x) ?h (sg_data seg) s1 = Some s2"
      "send_or_release (netdev_get_default s) b (tp_remote_ip x) IP_PROTO_TCP s2 = Some (ret, s3)" "tstep {} s s3" "udp_env.more s3 = udp_env.more s"
    have "tcp_resend p seg s = Some s3"
      unfolding tcp_resend_def Let_def n(3) using dv a s(1,2,4,5) more_tcp(1)[OF s(3)] p dd by simp
    then show ?thesis using that s(6,7) by blast
  qed
qed

section \<open>Lists of control blocks\<close>

primrec chain :: "(u32 \<Rightarrow> tcp_pcb_t option) \<Rightarrow> u32 \<Rightarrow> u32 list \<Rightarrow> bool" where
  "chain st h [] \<longleftrightarrow> h = 0"
| "chain st h (p # ps) \<longleftrightarrow> h = p \<and> p \<noteq> 0 \<and> (\<exists>x. st p = Some x \<and> chain st (tp_next x) ps)"

lemma chain_live: "chain st h ps \<Longrightarrow> p \<in> set ps \<Longrightarrow> p \<noteq> 0 \<and> st p \<noteq> None"
  by (induction ps arbitrary: h) auto

lemma pcb_chain_cong: "chain st h ps \<Longrightarrow> \<forall>p \<in> set ps. map_option tp_next (st' p) = map_option tp_next (st p) \<Longrightarrow> chain st' h ps"
  by (induction ps arbitrary: h) fastforce+

lemma find_next_chain:
  "chain st h ps \<Longrightarrow> \<exists>q. find_next P st h = Some q \<and> (q = 0 \<and> (\<forall>p \<in> set ps. \<not> P p (the (st p))) \<or> q \<in> set ps \<and> P q (the (st q)))"
proof (induction ps arbitrary: h)
  case Nil thus ?case by (simp add: find_next.simps)
next
  case (Cons p ps)
  obtain x where x: "h = p" "p \<noteq> 0" "st p = Some x" "chain st (tp_next x) ps" using Cons.prems by auto
  show ?case using Cons.IH[OF x(4)] x(1-3) by (subst find_next.simps) auto
qed

lemma find_link_chain:
  "chain st h ps \<Longrightarrow> p \<noteq> 0 \<Longrightarrow> distinct ps \<Longrightarrow>
    find_link p st prev h = (if p \<in> set ps then Some (Some (last (prev # takeWhile (\<lambda>q. q \<noteq> p) ps))) else Some None)"
proof (induction ps arbitrary: h prev)
  case Nil thus ?case by (simp add: find_link.simps)
next
  case (Cons q ps)
  obtain x where x: "h = q" "q \<noteq> 0" "st q = Some x" "chain st (tp_next x) ps" using Cons.prems by auto
  show ?case using Cons.IH[OF x(4), of q] x(1-3) Cons.prems by (subst find_link.simps) auto
qed

text \<open>Cutting a block out of the chain.\<close>

lemma chain_cut:
  assumes "chain st h (qs @ p # ps)" "qs \<noteq> []" "st p = Some x" "distinct (qs @ p # ps)"
  shows "chain (st(last qs := Some ((the (st (last qs)))\<lparr>tp_next := tp_next x\<rparr>))) h (qs @ ps)"
  using assms
proof (induction qs arbitrary: h)
  case Nil thus ?case by simp
next
  case (Cons q qs)
  obtain y where y: "h = q" "q \<noteq> 0" "st q = Some y" "chain st (tp_next y) (qs @ p # ps)" using Cons.prems(1) by auto
  show ?case
  proof (cases "qs = []")
    case True
    have c: "chain st (tp_next x) ps" using y(4) True Cons.prems(3) by auto
    have "chain (st(q := Some (y\<lparr>tp_next := tp_next x\<rparr>))) (tp_next x) ps"
      by (rule pcb_chain_cong[OF c]) (use Cons.prems(4) True in auto)
    thus ?thesis using True y by (simp add: fun_upd_def)
  next
    case False
    have "q \<noteq> last qs" using Cons.prems(4) False by (metis distinct.simps(2) append_Cons Un_iff last_in_set set_append)
    thus ?thesis using Cons.IH[OF y(4) False] Cons.prems y False by simp
  qed
qed

lemma tcp_unlink_chain:
  assumes c: "chain st h ps" and p: "p \<noteq> 0" and d: "distinct ps"
  obtains h' st' where "tcp_unlink p h st = Some (p \<in> set ps, h', st')" "chain st' h' (remove1 p ps)"
    "\<forall>q. q \<notin> set ps \<longrightarrow> st' q = st q"
    "\<forall>q. st' q = st q \<or> (\<exists>x n. st q = Some x \<and> st' q = Some (x\<lparr>tp_next := n\<rparr>) \<and> q \<noteq> p)"
proof (cases "p \<in> set ps")
  case False
  then have "tcp_unlink p h st = Some (False, h, st)" using find_link_chain[OF c p d, of 0] by (simp add: tcp_unlink_def)
  then show ?thesis using that[of h st] c False by (simp add: remove1_idem)
next
  case True
  then obtain qs rs where ps: "ps = qs @ p # rs" "p \<notin> set qs" by (meson split_list_first)
  have tw: "takeWhile (\<lambda>q. q \<noteq> p) ps = qs" unfolding ps(1) using ps(2) by (induction qs) auto
  have rm: "remove1 p ps = qs @ rs" unfolding ps(1) using ps(2) by (simp add: remove1_append)
  obtain x where x: "st p = Some x" using chain_live[OF c True] by auto
  have fl: "find_link p st 0 h = Some (Some (last (0 # qs)))" using find_link_chain[OF c p d, of 0] True tw by simp
  show ?thesis
  proof (cases "qs = []")
    case qs: True
    have "chain st (tp_next x) rs" using c x unfolding ps(1) qs by simp
    moreover have "tcp_unlink p h st = Some (True, tp_next x, st)" using fl x qs by (simp add: tcp_unlink_def)
    ultimately show ?thesis using that[of "tp_next x" st] True rm qs by simp
  next
    case qs: False
    let ?l = "last qs"
    have lm: "?l \<in> set ps" "?l \<noteq> p" using qs ps by (auto dest: last_in_set)
    obtain y where y: "st ?l = Some y" "?l \<noteq> 0" using chain_live[OF c lm(1)] by auto
    let ?st = "st(?l := Some (y\<lparr>tp_next := tp_next x\<rparr>))"
    have u: "tcp_unlink p h st = Some (p \<in> set ps, h, ?st)" using fl x qs y True by (simp add: tcp_unlink_def)
    have c': "chain ?st h (remove1 p ps)" using chain_cut[of st h qs p rs x] c d qs x y unfolding rm unfolding ps(1) by simp
    show ?thesis
    proof (rule that[OF u c'])
      show "\<forall>q. q \<notin> set ps \<longrightarrow> ?st q = st q" using lm(1) by auto
      show "\<forall>q. ?st q = st q \<or> (\<exists>x n. st q = Some x \<and> ?st q = Some (x\<lparr>tp_next := n\<rparr>) \<and> q \<noteq> p)"
      proof
        fix q
        show "?st q = st q \<or> (\<exists>x n. st q = Some x \<and> ?st q = Some (x\<lparr>tp_next := n\<rparr>) \<and> q \<noteq> p)"
          using y(1) lm(2) by (cases "q = ?l") auto
      qed
    qed
  qed
qed

section \<open>Invariant\<close>

definition pcb_ok :: "tcp_pcb_t \<Rightarrow> bool" where
  "pcb_ok x \<longleftrightarrow> tp_accept_queue x = 0 \<and> tp_pending_queue x = 0 \<and> tp_pending_count x = 0 \<and> tp_listen_pcb x = 0 \<and> tp_mss x = 1460
     \<and> 0 < tp_cwnd x \<and> tp_cwnd x \<le> 5000000 \<and> tp_ssthresh x \<le> 2500000 \<and> length (tp_send_buf x) \<le> 8192 \<and> tp_send_buf_size x = 8192
     \<and> list_all seg_ok (tp_unacked x) \<and> (tp_state x = TCP_LISTEN \<longrightarrow> 0 < tp_backlog x)"

definition tcp_lists :: "'a tcp_env_scheme \<Rightarrow> u32 list \<Rightarrow> u32 list \<Rightarrow> bool" where
  "tcp_lists s ps ls \<longleftrightarrow> chain (ts_pcb s) (ts_pcbs s) ps \<and> chain (ts_pcb s) (ts_listen_pcbs s) ls \<and> distinct (ps @ ls)
     \<and> set ps \<union> set ls = dom (ts_pcb s)"

text \<open>\<open>tcp_inv\<close> holds with and without the lock, \<open>tcp_ok\<close> between operations.\<close>

definition tcp_inv :: "'a tcp_env_scheme \<Rightarrow> bool" where
  "tcp_inv s \<longleftrightarrow> udp_ok s \<and> (\<exists>ps ls. tcp_lists s ps ls) \<and> (\<forall>p x. ts_pcb s p = Some x \<longrightarrow> pcb_ok x)
     \<and> 49152 \<le> ts_next_ephemeral_port s \<and> ts_next_ephemeral_port s \<le> 65535"

definition tcp_ok :: "'a tcp_env_scheme \<Rightarrow> bool" where
  "tcp_ok s \<longleftrightarrow> tcp_inv s \<and> \<not> ts_lock s"

lemma tcp_invD:
  assumes "tcp_inv s"
  shows "udp_ok s" "ts_pcb s p = Some x \<Longrightarrow> pcb_ok x" "49152 \<le> ts_next_ephemeral_port s" "ts_next_ephemeral_port s \<le> 65535"
    "ts_pcb s 0 = None"
proof -
  show "udp_ok s" "ts_pcb s p = Some x \<Longrightarrow> pcb_ok x" "49152 \<le> ts_next_ephemeral_port s" "ts_next_ephemeral_port s \<le> 65535"
    using assms by (simp_all add: tcp_inv_def)
  obtain ps ls where l: "tcp_lists s ps ls" using assms by (auto simp: tcp_inv_def)
  show "ts_pcb s 0 = None"
  proof (rule ccontr)
    assume "ts_pcb s 0 \<noteq> None"
    then have "0 \<in> set ps \<union> set ls" using l by (auto simp: tcp_lists_def)
    then show False using chain_live l unfolding tcp_lists_def by blast
  qed
qed

lemma tcp_inv_lists:
  assumes "tcp_inv s"
  obtains ps ls where "chain (ts_pcb s) (ts_pcbs s) ps" "chain (ts_pcb s) (ts_listen_pcbs s) ls" "distinct (ps @ ls)"
    "set ps \<union> set ls = dom (ts_pcb s)"
  using assms by (auto simp: tcp_inv_def tcp_lists_def)

text \<open>A step that changes one block and keeps its link.\<close>

lemma tcp_inv_upd:
  assumes inv: "tcp_inv s" and st: "tstep B s s'" and tl: "ts_pcbs s' = ts_pcbs s" "ts_listen_pcbs s' = ts_listen_pcbs s"
      "ts_next_ephemeral_port s' = ts_next_ephemeral_port s"
    and p: "ts_pcb s p = Some x" and y: "ts_pcb s' = (ts_pcb s)(p \<mapsto> y)" "tp_next y = tp_next x" "pcb_ok y"
  shows "tcp_inv s'"
proof -
  obtain ps ls where l: "chain (ts_pcb s) (ts_pcbs s) ps" "chain (ts_pcb s) (ts_listen_pcbs s) ls" "distinct (ps @ ls)"
    "set ps \<union> set ls = dom (ts_pcb s)" by (rule tcp_inv_lists[OF inv])
  have "chain (ts_pcb s') h qs" if "chain (ts_pcb s) h qs" for h qs
    by (rule pcb_chain_cong[OF that]) (use p y(1,2) in auto)
  moreover have "dom (ts_pcb s') = dom (ts_pcb s)" using p y(1) by auto
  ultimately have "tcp_lists s' ps ls" using l tl by (simp add: tcp_lists_def)
  then show ?thesis unfolding tcp_inv_def using tstepD(1)[OF st] tcp_invD[OF inv] y tl(3)
    by (auto split: if_splits)
qed

lemma tcp_inv_same:
  assumes "tcp_inv s" "tstep B s s'" "ts_pcbs s' = ts_pcbs s" "ts_listen_pcbs s' = ts_listen_pcbs s"
    "ts_next_ephemeral_port s' = ts_next_ephemeral_port s" "ts_pcb s' = ts_pcb s"
  shows "tcp_inv s'"
  using assms tstepD(1)[OF assms(2)] by (simp add: tcp_inv_def tcp_lists_def)

lemma tcp_inv_more: "tcp_inv s \<Longrightarrow> tstep B s s' \<Longrightarrow> udp_env.more s' = udp_env.more s \<Longrightarrow> tcp_inv s'"
  using tcp_inv_same more_tcp by metis

lemma tcp_inv_lock: "tcp_inv (s\<lparr>ts_lock := l\<rparr>) \<longleftrightarrow> tcp_inv s"
proof
  show "tcp_inv s \<Longrightarrow> tcp_inv (s\<lparr>ts_lock := l\<rparr>)"
    by (rule tcp_inv_same[OF _ tstep_fields(4)]) (simp_all add: tcp_invD(1))
  assume "tcp_inv (s\<lparr>ts_lock := l\<rparr>)"
  from tcp_inv_same[OF this tstep_fields(4)[OF tcp_invD(1)[OF this], of _ "ts_lock s"]] show "tcp_inv s" by simp
qed

lemma sentD:
  assumes "sent x y"
  shows "tp_next y = tp_next x" "tp_state y = tp_state x" "tp_recv_callback y = tp_recv_callback x" "tp_callback_arg y = tp_callback_arg x"
    "tp_remote_ip y = tp_remote_ip x" "tp_mss y = tp_mss x" "tp_send_buf y = tp_send_buf x" "tp_rcv_nxt y = tp_rcv_nxt x"
proof -
  obtain a b c d e f where y: "y = x\<lparr>tp_snd_nxt := a, tp_last_send_time := b, tp_unacked := c,
     tp_timer_retransmit := d, tp_rtt_measuring := e, tp_rtt_seq := f\<rparr>"
    using assms by (simp only: sent_def)
  show "tp_next y = tp_next x" "tp_state y = tp_state x" "tp_recv_callback y = tp_recv_callback x" "tp_callback_arg y = tp_callback_arg x"
    "tp_remote_ip y = tp_remote_ip x" "tp_mss y = tp_mss x" "tp_send_buf y = tp_send_buf x" "tp_rcv_nxt y = tp_rcv_nxt x"
    by (simp_all add: y)
qed

lemma pcb_ok_sent:
  assumes "pcb_ok x" "sent x y" "set (tp_unacked y) \<subseteq> set (tp_unacked x) \<union> Collect seg_ok"
  shows "pcb_ok y"
proof -
  obtain a b c d e f where y: "y = x\<lparr>tp_snd_nxt := a, tp_last_send_time := b, tp_unacked := c,
     tp_timer_retransmit := d, tp_rtt_measuring := e, tp_rtt_seq := f\<rparr>"
    using assms(2) by (simp only: sent_def)
  have "list_all seg_ok (tp_unacked y)" using assms(1,3) by (auto simp: pcb_ok_def list_all_iff)
  thus ?thesis using assms(1) by (simp add: pcb_ok_def y)
qed

lemma tcp_send_segment_inv:
  fixes s :: "'a tcp_env_scheme"
  assumes inv: "tcp_inv s" and p: "ts_pcb s p = Some x" and d: "len = of_nat (length (data_of data))" "length (data_of data) \<le> 1460"
  obtains ret s' y where "tcp_send_segment p flags data len s = Some (ret, s')" "tstep {} s s'" "tcp_inv s'" "ts_lock s' = ts_lock s"
    "ts_pcb s' p = Some y" "sent x y" "\<exists>more. tp_unacked y = tp_unacked x @ more" "dom (ts_pcb s') = dom (ts_pcb s)"
    "\<forall>q. q \<noteq> p \<longrightarrow> ts_pcb s' q = ts_pcb s q"
proof -
  obtain ret s' y where s': "tcp_send_segment p flags data len s = Some (ret, s')" "tstep {} s s'" "tlists s s'"
    "ts_pcb s' = (ts_pcb s)(p \<mapsto> y)" "sent x y" "set (tp_unacked y) \<subseteq> set (tp_unacked x) \<union> Collect seg_ok" "\<exists>more. tp_unacked y = tp_unacked x @ more"
    by (rule tcp_send_segment_step[OF tcp_invD(1)[OF inv] p d])
  have i: "tcp_inv s'"
    by (rule tcp_inv_upd[OF inv s'(2) _ _ _ p s'(4) sentD(1)[OF s'(5)] pcb_ok_sent[OF tcp_invD(2)[OF inv p] s'(5,6)]])
      (use s'(3) in \<open>simp_all add: tlists_def\<close>)
  show ?thesis
    by (rule that[OF s'(1,2) i _ _ s'(5,7)]) (use s'(3,4) p in \<open>auto simp: tlists_def\<close>)
qed

section \<open>What happens inside a control block\<close>

text \<open>Arithmetic of the congestion window.\<close>

lemma cwnd_step:
  assumes "0 < (c :: u32)" "c \<le> 5000000" "t \<le> (2500000 :: u32)"
  shows "c < t \<Longrightarrow> 0 < c + 1460 \<and> c + 1460 \<le> 5000000"
    "0 < c + 1460 * 1460 div c \<and> c + 1460 * 1460 div c \<le> 5000000"
proof -
  have b: "0 < unat c" "unat c \<le> 5000000" "unat t \<le> 2500000" using assms by (simp_all add: word_le_nat_alt word_less_nat_alt)
  show "0 < c + 1460 \<and> c + 1460 \<le> 5000000" if "c < t"
  proof -
    have "unat (c + 1460) = unat c + 1460" using that b by (subst unat_add_no_wrap) (simp_all add: word_less_nat_alt)
    thus ?thesis using that b by (simp add: word_le_nat_alt word_less_nat_alt)
  qed
  have q: "unat (1460 * 1460 div c) = 2131600 div unat c" by (simp add: unat_div_distrib)
  have "unat c + 2131600 div unat c \<le> 5000000"
  proof (cases "unat c \<le> 2131600")
    case True
    have "2131600 div unat c \<le> 2131600" by simp
    thus ?thesis using True by linarith
  next
    case False thus ?thesis using b by simp
  qed
  moreover from this have "unat (c + 1460 * 1460 div c) = unat c + 2131600 div unat c" using q by (subst unat_add_no_wrap) simp_all
  ultimately show "0 < c + 1460 * 1460 div c \<and> c + 1460 * 1460 div c \<le> 5000000" using b by (simp add: word_le_nat_alt word_less_nat_alt)
qed

lemma halved_bound:
  assumes "tp_cwnd x \<le> 5000000" "tp_mss x = 1460"
  shows "halved_threshold x \<le> 2500000" "0 < halved_threshold x + 3 * ucast (tp_mss x)" "halved_threshold x + 3 * ucast (tp_mss x) \<le> 5000000"
proof -
  have "unat (tp_cwnd x div 2) \<le> 2500000" using assms(1) by (simp add: word_le_nat_alt unat_div_distrib)
  then have h: "tp_cwnd x div 2 \<le> 2500000" by (simp add: word_le_nat_alt)
  show t: "halved_threshold x \<le> 2500000" using h assms(2) by (simp add: halved_threshold_def Let_def)
  have "unat (halved_threshold x + 4380) = unat (halved_threshold x) + 4380" using t by (subst unat_add_no_wrap) (simp_all add: word_le_nat_alt)
  then show "0 < halved_threshold x + 3 * ucast (tp_mss x)" "halved_threshold x + 3 * ucast (tp_mss x) \<le> 5000000"
    using t assms(2) by (simp_all add: word_le_nat_alt word_less_nat_alt)
qed

lemma ack_segment_ok:
  assumes "pcb_ok x"
  obtains y where "ack_segment now seg x = Some y" "pcb_ok y" "tp_next y = tp_next x" "tp_state y = tp_state x" "tp_snd_nxt y = tp_snd_nxt x"
    "tp_unacked y = tp_unacked x"
proof -
  define x1 where "x1 = (if tp_rtt_measuring x \<and> sg_retries seg = 0 \<and> TCP_SEQ_LEQ (tp_rtt_seq x) (sg_seq seg)
                  then (tcp_update_rtt (now - sg_send_time seg) x)\<lparr>tp_rtt_measuring := False\<rparr> else x)"
  have x1: "pcb_ok x1" "tp_next x1 = tp_next x" "tp_state x1 = tp_state x" "tp_snd_nxt x1 = tp_snd_nxt x" "tp_unacked x1 = tp_unacked x"
    using assms by (simp_all add: x1_def pcb_ok_def tcp_update_rtt_def Let_def)
  have w: "0 < tp_cwnd x1" "tp_cwnd x1 \<le> 5000000" "tp_ssthresh x1 \<le> 2500000" "tp_mss x1 = 1460" using x1(1) by (simp_all add: pcb_ok_def)
  note cw = cwnd_step[OF w(1-3)]
  let ?y = "if tp_cwnd x1 < tp_ssthresh x1 then x1\<lparr>tp_cwnd := tp_cwnd x1 + 1460\<rparr> else x1\<lparr>tp_cwnd := tp_cwnd x1 + 1460 * 1460 div tp_cwnd x1\<rparr>"
  have "ack_segment now seg x = Some ?y"
    unfolding ack_segment_def x1_def[symmetric] Let_def using w by (auto simp: word_gt_0)
  moreover have "pcb_ok ?y" using x1(1) cw by (simp add: pcb_ok_def)
  ultimately show ?thesis using that x1 by simp
qed

lemma ack_loop_ok:
  "pcb_ok x \<Longrightarrow> list_all seg_ok segs \<Longrightarrow> \<exists>y. ack_loop now ack segs x = Some y \<and> pcb_ok y \<and> tp_next y = tp_next x \<and> tp_state y = tp_state x
     \<and> tp_snd_nxt y = tp_snd_nxt x"
proof (induction segs arbitrary: x)
  case Nil thus ?case by (simp add: pcb_ok_def)
next
  case (Cons g segs)
  show ?case
  proof (cases "TCP_SEQ_LEQ (sg_seq g + sg_len g) ack")
    case True
    obtain y where y: "ack_segment now g x = Some y" "pcb_ok y" "tp_next y = tp_next x" "tp_state y = tp_state x" "tp_snd_nxt y = tp_snd_nxt x"
      by (rule ack_segment_ok[OF Cons.prems(1)])
    show ?thesis using Cons.IH[OF y(2)] Cons.prems(2) True y by simp
  next
    case False thus ?thesis using Cons.prems by (simp add: pcb_ok_def)
  qed
qed

lemma tcp_ack_received_ok:
  assumes "pcb_ok x"
  obtains y where "tcp_ack_received now ack x = Some y" "pcb_ok y" "tp_next y = tp_next x"
proof -
  have "list_all seg_ok (tp_unacked x)" using assms by (simp add: pcb_ok_def)
  from ack_loop_ok[OF assms this, of now ack] obtain y where "ack_loop now ack (tp_unacked x) x = Some y" "pcb_ok y" "tp_next y = tp_next x" by blast
  then show ?thesis using that by (simp add: tcp_ack_received_def pcb_ok_def)
qed

text \<open>Incoming data changes the receiving side only.\<close>

definition received :: "tcp_pcb_t \<Rightarrow> tcp_pcb_t \<Rightarrow> bool" where
  "received x y \<longleftrightarrow> (\<exists>a b c d. y = x\<lparr>tp_recv_buf := a, tp_rcv_nxt := b, tp_ooseq := c, tp_ooseq_count := d\<rparr>)"

lemma receivedI [intro!]: "received x (x\<lparr>tp_recv_buf := a, tp_rcv_nxt := b, tp_ooseq := c, tp_ooseq_count := d\<rparr>)"
  by (auto simp: received_def)

lemma received_some:
  "received x x" "received x (x\<lparr>tp_ooseq := c\<rparr>)" "received x (x\<lparr>tp_ooseq_count := d\<rparr>)" "received x (x\<lparr>tp_rcv_nxt := b\<rparr>)" "received x (x\<lparr>tp_recv_buf := a\<rparr>)"
  unfolding received_def
  by (rule exI[of _ "tp_recv_buf x"] exI[of _ a], rule exI[of _ "tp_rcv_nxt x"] exI[of _ b], rule exI[of _ "tp_ooseq x"] exI[of _ c],
      rule exI[of _ "tp_ooseq_count x"] exI[of _ d], simp; fail)+

lemma received_trans: "received x y \<Longrightarrow> received y z \<Longrightarrow> received x z"
  unfolding received_def by (elim exE, simp only:) (intro exI, simp)

lemma received_append: "received x (recv_append data len x)"
  using received_some by (simp add: recv_append_def)

lemma received_merge: "received x (merge_loop gs x)"
proof (induction gs arbitrary: x)
  case Nil thus ?case by (simp add: received_some)
next
  case (Cons g gs)
  show ?case
    using received_trans[OF received_trans[OF received_trans[OF received_append received_some(4)] received_some(3)] Cons.IH]
      received_trans[OF received_some(3) Cons.IH] received_some
    by (auto simp: Let_def)
qed

lemma received_process: "received x (tcp_process_data seq data len al x)"
proof -
  have "received x (tcp_ooseq_merge ((recv_append data len x)\<lparr>tp_rcv_nxt := n\<rparr>))" for n
    unfolding tcp_ooseq_merge_def by (rule received_trans[OF received_trans[OF received_append received_some(4)] received_merge])
  moreover have "received x (snd (tcp_ooseq_add seq data len al x))"
    using received_trans[OF received_some(2) received_some(3)] received_some
    by (auto simp: tcp_ooseq_add_def split: option.splits)
  ultimately show ?thesis using received_some by (simp add: tcp_process_data_def Let_def)
qed

lemma received_ok: "received x y \<Longrightarrow> pcb_ok x \<Longrightarrow> pcb_ok y \<and> tp_next y = tp_next x"
  by (auto simp: received_def pcb_ok_def)

end
