(* ===== verification/Tcp_Ops.thy ===== *)
theory Tcp_Ops
  imports Tcp_Ok
begin

text \<open>
  The interface of \<^verbatim>\<open>src/src/net/tcp.c\<close>, operation by operation: each returns, and keeps the invariant of
  \<^verbatim>\<open>Tcp_Ok\<close>.  The one exception is a connection request that arrives for a listener.
\<close>

section \<open>Control blocks\<close>

lemma upd_tcp_inv:
  assumes inv: "tcp_inv s" and p: "ts_pcb s p = Some x" and f: "tp_next (f x) = tp_next x" "pcb_ok (f x)"
  obtains s' where "upd_tcp p f s = Some s'" "s' = s\<lparr>ts_pcb := (ts_pcb s)(p \<mapsto> f x)\<rparr>" "tstep {} s s'" "tcp_inv s'" "ts_lock s' = ts_lock s"
    "ts_pcb s' p = Some (f x)"
proof -
  let ?s = "s\<lparr>ts_pcb := (ts_pcb s)(p \<mapsto> f x)\<rparr>"
  have t: "tstep {} s ?s" by (rule tstep_fields(1)[OF tcp_invD(1)[OF inv]])
  have "tcp_inv ?s" by (rule tcp_inv_upd[OF inv t _ _ _ p _ f]) simp_all
  moreover have "upd_tcp p f s = Some ?s" using p by (simp add: upd_tcp_def)
  ultimately show ?thesis using that t by simp
qed

lemma new_tcp_pcb_ok: "pcb_ok (new_tcp_pcb\<lparr>tp_next := n\<rparr>)"
  by (simp add: pcb_ok_def new_tcp_pcb_def)

lemma tcp_pcb_new_step:
  fixes s :: "'a tcp_env_scheme"
  assumes ok: "tcp_ok s"
  obtains p s' where "tcp_pcb_new s = Some (p, s')" "tcp_ok s'" "tstep {} s s'"
    "p = 0 \<and> ts_pcb s' = ts_pcb s \<or> ts_pcb s p = None \<and> ts_pcb s' = (ts_pcb s)(p \<mapsto> new_tcp_pcb\<lparr>tp_next := ts_pcbs s\<rparr>)"
proof -
  have inv: "tcp_inv s" and free: "\<not> ts_lock s" using ok by (simp_all add: tcp_ok_def)
  have u: "udp_ok s" by (rule tcp_invD(1)[OF inv])
  have same: "tcp_ok (s\<lparr>ns_kmalloc := ks\<rparr>)" for ks
    using tcp_inv_same[OF inv tstep_kmalloc[OF u, of "{}" ks]] free by (simp add: tcp_ok_def)
  obtain p s1 where a: "kmalloc_next (\<lambda>x. ts_pcb s x \<noteq> None) s = (p, s1)" by fastforce
  obtain k1 where s1: "s1 = s\<lparr>ns_kmalloc := k1\<rparr>" "p \<noteq> 0 \<longrightarrow> ts_pcb s p = None" using kmalloc_next_state[OF a] by auto
  show ?thesis
  proof (cases "p = 0")
    case True
    then have "tcp_pcb_new s = Some (0, s1)" using a by (simp add: tcp_pcb_new_def)
    then show ?thesis by (rule that) (use same tstep_kmalloc[OF u] in \<open>simp_all add: s1(1)\<close>)
  next
    case p0: False
    obtain rb s2 where b: "kmalloc_next (\<lambda>_. False) s1 = (rb, s2)" by fastforce
    obtain k2 where s2: "s2 = s\<lparr>ns_kmalloc := k2\<rparr>" using kmalloc_next_state[OF b] by (auto simp: s1(1))
    obtain sb s3 where c: "kmalloc_next (\<lambda>_. False) s2 = (sb, s3)" by fastforce
    obtain k3 where s3: "s3 = s\<lparr>ns_kmalloc := k3\<rparr>" using kmalloc_next_state[OF c] by (auto simp: s2)
    show ?thesis
    proof (cases "rb = 0 \<or> sb = 0")
      case True
      then have "tcp_pcb_new s = Some (0, s3)" using a b c p0 by (simp add: tcp_pcb_new_def)
      then show ?thesis by (rule that) (use same tstep_kmalloc[OF u] in \<open>simp_all add: s3\<close>)
    next
      case False
      let ?x = "new_tcp_pcb\<lparr>tp_next := ts_pcbs s\<rparr>"
      let ?s = "s3\<lparr>ts_lock := False, ts_pcb := (ts_pcb s)(p \<mapsto> ?x), ts_pcbs := p\<rparr>"
      have run: "tcp_pcb_new s = Some (p, ?s)"
        using a b c p0 False free by (simp add: tcp_pcb_new_def tcp_lock_acquire_def tcp_lock_release_def s3)
      have u3: "udp_ok s3" using tstepD(1)[OF tstep_kmalloc[OF u]] s3 by simp
      have "tstep {} s3 ?s" by (rule tstep_low[OF u3]) (simp_all add: low_eq_def)
      then have t: "tstep {} s ?s" using tstep_trans[OF tstep_kmalloc[OF u]] s3 by blast
      obtain ps ls where l: "chain (ts_pcb s) (ts_pcbs s) ps" "chain (ts_pcb s) (ts_listen_pcbs s) ls" "distinct (ps @ ls)"
        "set ps \<union> set ls = dom (ts_pcb s)" by (rule tcp_inv_lists[OF inv])
      have np: "p \<notin> set ps" "p \<notin> set ls" using l(4) s1(2) p0 by auto
      have k: "chain ((ts_pcb s)(p \<mapsto> ?x)) h qs" if "chain (ts_pcb s) h qs" "p \<notin> set qs" for h qs
        by (rule pcb_chain_cong[OF that(1)]) (use that(2) in auto)
      have "tcp_lists ?s (p # ps) ls"
        unfolding tcp_lists_def using k[OF l(1) np(1)] k[OF l(2) np(2)] l(3,4) np p0 by (auto simp: s3)
      then have "tcp_ok ?s" unfolding tcp_ok_def tcp_inv_def using tstepD(1)[OF t] tcp_invD[OF inv] new_tcp_pcb_ok
        by (auto simp: s3 split: if_splits)
      then show ?thesis by (rule that[OF run _ t]) (use s1(2) p0 in \<open>simp add: s3\<close>)
    qed
  qed
qed

text \<open>Taking a block out of both lists.\<close>

lemma pcb_ok_next: "pcb_ok (x\<lparr>tp_next := n\<rparr>) = pcb_ok x"
  by (simp add: pcb_ok_def)

lemma unlinked_ok:
  assumes "\<forall>q. st' q = st q \<or> (\<exists>x n. st q = Some x \<and> st' q = Some (x\<lparr>tp_next := n\<rparr>) \<and> q \<noteq> p)" "\<forall>p x. st p = Some x \<longrightarrow> pcb_ok x"
  shows "\<forall>p x. st' p = Some x \<longrightarrow> pcb_ok x" "dom st' = dom st" "st' p = st p"
proof -
  show "\<forall>p x. st' p = Some x \<longrightarrow> pcb_ok x"
  proof (intro allI impI)
    fix q y assume y: "st' q = Some y"
    from assms(1) have "st' q = st q \<or> (\<exists>x n. st q = Some x \<and> st' q = Some (x\<lparr>tp_next := n\<rparr>))" by blast
    then show "pcb_ok y" using y assms(2) by (auto simp: pcb_ok_next)
  qed
  have "st' q \<noteq> None \<longleftrightarrow> st q \<noteq> None" for q using assms(1)[rule_format, of q] by (cases "st q") auto
  then show "dom st' = dom st" by (auto simp: dom_def)
  show "st' p = st p" using assms(1)[rule_format, of p] by auto
qed

lemma tcp_pcb_free_step:
  fixes s :: "'a tcp_env_scheme"
  assumes ok: "tcp_ok s" and p: "ts_pcb s p \<noteq> None"
  obtains s' where "tcp_pcb_free p s = Some s'" "tcp_ok s'" "tstep {} s s'" "dom (ts_pcb s') = dom (ts_pcb s) - {p}"
proof -
  have inv: "tcp_inv s" and free: "\<not> ts_lock s" using ok by (simp_all add: tcp_ok_def)
  have p0: "p \<noteq> 0" using p tcp_invD(5)[OF inv] by auto
  obtain ps ls where l: "chain (ts_pcb s) (ts_pcbs s) ps" "chain (ts_pcb s) (ts_listen_pcbs s) ls" "distinct (ps @ ls)"
    "set ps \<union> set ls = dom (ts_pcb s)" by (rule tcp_inv_lists[OF inv])
  have d: "distinct ps" "distinct ls" "set ps \<inter> set ls = {}" using l(3) by auto
  obtain h st where u1: "tcp_unlink p (ts_pcbs s) (ts_pcb s) = Some (p \<in> set ps, h, st)" "chain st h (remove1 p ps)"
    "\<forall>q. q \<notin> set ps \<longrightarrow> st q = ts_pcb s q"
    "\<forall>q. st q = ts_pcb s q \<or> (\<exists>x n. ts_pcb s q = Some x \<and> st q = Some (x\<lparr>tp_next := n\<rparr>) \<and> q \<noteq> p)"
    by (rule tcp_unlink_chain[OF l(1) p0 d(1)])
  have all: "\<forall>p x. ts_pcb s p = Some x \<longrightarrow> pcb_ok x" using tcp_invD(2)[OF inv] by blast
  note k1 = unlinked_ok[OF u1(4) all]
  have c2: "chain st (ts_listen_pcbs s) ls" by (rule pcb_chain_cong[OF l(2)]) (use u1(3) d(3) in auto)
  obtain lh st1 where u2: "tcp_unlink p (ts_listen_pcbs s) st = Some (p \<in> set ls, lh, st1)" "chain st1 lh (remove1 p ls)"
    "\<forall>q. q \<notin> set ls \<longrightarrow> st1 q = st q"
    "\<forall>q. st1 q = st q \<or> (\<exists>x n. st q = Some x \<and> st1 q = Some (x\<lparr>tp_next := n\<rparr>) \<and> q \<noteq> p)"
    by (rule tcp_unlink_chain[OF c2 p0 d(2)])
  note k2 = unlinked_ok[OF u2(4) k1(1)]
  let ?s = "s\<lparr>ts_pcb := st1(p := None), ts_pcbs := h, ts_listen_pcbs := lh, ts_lock := False\<rparr>"
  have st1p: "st1 p \<noteq> None" using k1(3) k2(3) p by simp
  then obtain x where x: "st1 p = Some x" by auto
  have run: "tcp_pcb_free p s = Some ?s"
    using p0 free u1(1) u2(1) x by (simp add: tcp_pcb_free_def tcp_lock_acquire_def tcp_lock_release_def)
  have t: "tstep {} s ?s" by (rule tstep_low[OF tcp_invD(1)[OF inv]]) (simp_all add: low_eq_def)
  have ps': "set (remove1 p ps) = set ps - {p}" "set (remove1 p ls) = set ls - {p}" using d(1,2) by (simp_all add: set_remove1_eq)
  have e1: "chain (st1(p := None)) h (remove1 p ps)"
    by (rule pcb_chain_cong[OF u1(2)]) (use ps' u2(3) d(3) in auto)
  have e2: "chain (st1(p := None)) lh (remove1 p ls)" by (rule pcb_chain_cong[OF u2(2)]) (use ps' in auto)
  have dm: "dom (st1(p := None)) = dom (ts_pcb s) - {p}" using k1(2) k2(2) by auto
  have "tcp_lists ?s (remove1 p ps) (remove1 p ls)"
    unfolding tcp_lists_def using e1 e2 l(3,4) ps' dm by (auto simp: distinct_remove1)
  then have "tcp_ok ?s" unfolding tcp_ok_def tcp_inv_def using tstepD(1)[OF t] tcp_invD[OF inv] k2(1) by auto
  then show ?thesis by (rule that[OF run _ t]) (use dm in simp)
qed

lemma tcp_find_total:
  assumes inv: "tcp_inv s"
  shows "\<exists>q. find_next P (ts_pcb s) (ts_pcbs s) = Some q \<and> (q = 0 \<or> ts_pcb s q \<noteq> None \<and> P q (the (ts_pcb s q)))"
    "\<exists>q. find_next P (ts_pcb s) (ts_listen_pcbs s) = Some q \<and> (q = 0 \<or> ts_pcb s q \<noteq> None \<and> P q (the (ts_pcb s q)))"
proof -
  obtain ps ls where l: "chain (ts_pcb s) (ts_pcbs s) ps" "chain (ts_pcb s) (ts_listen_pcbs s) ls" by (rule tcp_inv_lists[OF inv])
  show "\<exists>q. find_next P (ts_pcb s) (ts_pcbs s) = Some q \<and> (q = 0 \<or> ts_pcb s q \<noteq> None \<and> P q (the (ts_pcb s q)))"
    using find_next_chain[OF l(1), of P] chain_live[OF l(1)] by blast
  show "\<exists>q. find_next P (ts_pcb s) (ts_listen_pcbs s) = Some q \<and> (q = 0 \<or> ts_pcb s q \<noteq> None \<and> P q (the (ts_pcb s q)))"
    using find_next_chain[OF l(2), of P] chain_live[OF l(2)] by blast
qed

lemma tcp_find_pcb_total:
  assumes "tcp_inv s"
  obtains q where "tcp_find_pcb lip lport rip rport s = Some q" "q = 0 \<or> ts_pcb s q \<noteq> None"
proof -
  let ?P = "\<lambda>_ x. tp_local_port x = lport \<and> tp_remote_port x = rport \<and> tp_remote_ip x = rip \<and> (tp_local_ip x = 0 \<or> tp_local_ip x = lip)"
  let ?Q = "\<lambda>_ x. tp_local_port x = lport \<and> (tp_local_ip x = 0 \<or> tp_local_ip x = lip)"
  obtain q where q: "find_next ?P (ts_pcb s) (ts_pcbs s) = Some q" "q = 0 \<or> ts_pcb s q \<noteq> None" using tcp_find_total(1)[OF assms, of ?P] by blast
  obtain r where r: "find_next ?Q (ts_pcb s) (ts_listen_pcbs s) = Some r" "r = 0 \<or> ts_pcb s r \<noteq> None" using tcp_find_total(2)[OF assms, of ?Q] by blast
  show ?thesis by (rule that[of "if q \<noteq> 0 then q else r"]) (use q r in \<open>auto simp: tcp_find_pcb_def\<close>)
qed

lemma tcp_bind_step:
  fixes s :: "'a tcp_env_scheme"
  assumes ok: "tcp_ok s" and p: "ts_pcb s p = Some x"
  obtains ret s' where "tcp_bind p ip port s = Some (ret, s')" "tcp_ok s'" "tstep {} s s'" "dom (ts_pcb s') = dom (ts_pcb s)"
proof -
  have inv: "tcp_inv s" and free: "\<not> ts_lock s" using ok by (simp_all add: tcp_ok_def)
  have p0: "p \<noteq> 0" using p tcp_invD(5)[OF inv] by auto
  have rfl: "tstep {} s s" by (rule tstep_refl[OF tcp_invD(1)[OF inv]])
  let ?f = "\<lambda>x. x\<lparr>tp_local_ip := ip, tp_local_port := port\<rparr>"
  let ?P = "tcp_port_clash p ip port"
  obtain q where q: "find_next ?P (ts_pcb s) (ts_pcbs s) = Some q" using tcp_find_total(1)[OF inv, of ?P] by blast
  obtain r where r: "find_next ?P (ts_pcb s) (ts_listen_pcbs s) = Some r" using tcp_find_total(2)[OF inv, of ?P] by blast
  have f: "tp_next (?f x) = tp_next x" "pcb_ok (?f x)" using tcp_invD(2)[OF inv p] by (simp_all add: pcb_ok_def)
  obtain s' where s': "upd_tcp p ?f s = Some s'" "s' = s\<lparr>ts_pcb := (ts_pcb s)(p \<mapsto> ?f x)\<rparr>" "tstep {} s s'" "tcp_inv s'" "ts_lock s' = ts_lock s"
    by (rule upd_tcp_inv[where f = ?f, OF inv p f])
  have "tcp_bind p ip port s = (if tp_state x \<noteq> TCP_CLOSED \<or> q \<noteq> 0 \<or> r \<noteq> 0 then Some (-1, s) else Some (0, s'))"
    using p0 p free q r s'(2) by (auto simp: tcp_bind_def tcp_lock_acquire_def tcp_lock_release_def upd_tcp_def)
  then show ?thesis
    by (cases "tp_state x \<noteq> TCP_CLOSED \<or> q \<noteq> 0 \<or> r \<noteq> 0")
      (rule that[of "-1" s], use ok rfl in simp_all, rule that[of 0 s'], use s' free p in \<open>auto simp: tcp_ok_def\<close>)
qed

definition listening :: "'a tcp_env_scheme \<Rightarrow> u32 \<Rightarrow> bool" where
  "listening s p \<longleftrightarrow> (\<exists>ls. chain (ts_pcb s) (ts_listen_pcbs s) ls \<and> p \<in> set ls)"

lemma tcp_listen_step:
  fixes s :: "'a tcp_env_scheme"
  assumes ok: "tcp_ok s" and p: "ts_pcb s p = Some x" and nl: "\<not> listening s p"
  obtains ret s' where "tcp_listen p n s = Some (ret, s')" "tcp_ok s'" "tstep {} s s'" "dom (ts_pcb s') = dom (ts_pcb s)"
proof -
  have inv: "tcp_inv s" and free: "\<not> ts_lock s" using ok by (simp_all add: tcp_ok_def)
  have p0: "p \<noteq> 0" using p tcp_invD(5)[OF inv] by auto
  obtain ps ls where l: "chain (ts_pcb s) (ts_pcbs s) ps" "chain (ts_pcb s) (ts_listen_pcbs s) ls" "distinct (ps @ ls)"
    "set ps \<union> set ls = dom (ts_pcb s)" by (rule tcp_inv_lists[OF inv])
  have pl: "p \<notin> set ls" using nl l(2) by (auto simp: listening_def)
  have pp: "p \<in> set ps" using pl l(4) p by auto
  have d: "distinct ps" "distinct ls" "set ps \<inter> set ls = {}" using l(3) by auto
  show ?thesis
  proof (cases "tp_state x \<noteq> TCP_CLOSED \<or> tp_local_port x = 0")
    case True
    then have "tcp_listen p n s = Some (-1, s)" using p0 p by (auto simp: tcp_listen_def)
    then show ?thesis by (rule that) (use ok tstep_refl[OF tcp_invD(1)[OF inv]] in simp_all)
  next
    case False
    obtain h st where u1: "tcp_unlink p (ts_pcbs s) (ts_pcb s) = Some (p \<in> set ps, h, st)" "chain st h (remove1 p ps)"
      "\<forall>q. q \<notin> set ps \<longrightarrow> st q = ts_pcb s q"
      "\<forall>q. st q = ts_pcb s q \<or> (\<exists>x n. ts_pcb s q = Some x \<and> st q = Some (x\<lparr>tp_next := n\<rparr>) \<and> q \<noteq> p)"
      by (rule tcp_unlink_chain[OF l(1) p0 d(1)])
    have all: "\<forall>p x. ts_pcb s p = Some x \<longrightarrow> pcb_ok x" using tcp_invD(2)[OF inv] by blast
    note k1 = unlinked_ok[OF u1(4) all]
    let ?y = "x\<lparr>tp_next := ts_listen_pcbs s, tp_state := TCP_LISTEN, tp_backlog := if n > 0 then n else 5\<rparr>"
    let ?s = "s\<lparr>ts_pcb := st(p \<mapsto> ?y), ts_pcbs := h, ts_listen_pcbs := p, ts_lock := False\<rparr>"
    have stp: "st p = Some x" using k1(3) p by simp
    have run: "tcp_listen p n s = Some (0, ?s)"
      using p0 p False free u1(1) stp by (simp add: tcp_listen_def tcp_lock_acquire_def tcp_lock_release_def upd_tcp_def)
    have t: "tstep {} s ?s" by (rule tstep_low[OF tcp_invD(1)[OF inv]]) (simp_all add: low_eq_def)
    have ps': "set (remove1 p ps) = set ps - {p}" using d(1) by (simp add: set_remove1_eq)
    have e1: "chain (st(p \<mapsto> ?y)) h (remove1 p ps)" by (rule pcb_chain_cong[OF u1(2)]) (use ps' in auto)
    have e2: "chain (st(p \<mapsto> ?y)) (ts_listen_pcbs s) ls" by (rule pcb_chain_cong[OF l(2)]) (use u1(3) d(3) pl in auto)
    have dm: "dom (st(p \<mapsto> ?y)) = dom (ts_pcb s)" using k1(2) p by auto
    have "tcp_lists ?s (remove1 p ps) (p # ls)"
      unfolding tcp_lists_def using e1 e2 l(3,4) ps' dm pl pp p0 by (auto simp: distinct_remove1)
    moreover have "pcb_ok ?y" using tcp_invD(2)[OF inv p] by (simp add: pcb_ok_def)
    ultimately have "tcp_ok ?s" unfolding tcp_ok_def tcp_inv_def using tstepD(1)[OF t] tcp_invD[OF inv] k1(1) by (auto split: if_splits)
    then show ?thesis by (rule that[OF run _ t]) (use dm in simp)
  qed
qed

text \<open>No connection is ever waiting to be accepted.\<close>

lemma tcp_accept_empty:
  fixes s :: "'a tcp_env_scheme"
  assumes ok: "tcp_ok s" and p: "p = 0 \<or> ts_pcb s p \<noteq> None"
  shows "tcp_accept p s = Some (0, s)"
proof -
  have inv: "tcp_inv s" and free: "\<not> ts_lock s" using ok by (simp_all add: tcp_ok_def)
  have "s\<lparr>ts_lock := False\<rparr> = s" using free by simp
  then show ?thesis using p tcp_invD(2)[OF inv, of p] free
    by (auto simp: tcp_accept_def tcp_lock_acquire_def tcp_lock_release_def pcb_ok_def)
qed

section \<open>Ports\<close>

lemma tcp_port_in_use_total:
  assumes "tcp_inv s"
  obtains f where "\<forall>port. tcp_port_in_use port s = Some (f port)"
proof -
  have "\<exists>b. tcp_port_in_use port s = Some b" for port
  proof -
    let ?P = "\<lambda>_ x. tp_local_port x = port"
    obtain q where q: "find_next ?P (ts_pcb s) (ts_pcbs s) = Some q" using tcp_find_total(1)[OF assms, of ?P] by blast
    obtain r where r: "find_next ?P (ts_pcb s) (ts_listen_pcbs s) = Some r" using tcp_find_total(2)[OF assms, of ?P] by blast
    show ?thesis using q r by (intro exI[of _ "q \<noteq> 0 \<or> r \<noteq> 0"]) (simp add: tcp_port_in_use_def)
  qed
  then show ?thesis using that by metis
qed

lemma tcp_port_loop_udp:
  assumes "\<forall>port. in_use port = Some (f port)" "udp_port_loop f start nxt = Some r"
  shows "tcp_port_loop in_use start nxt = Some r"
proof -
  have "f = f \<longrightarrow> tcp_port_loop in_use start nxt = Some r"
  proof (rule udp_port_loop.raw_induct[where P = "\<lambda>g start nxt r. g = f \<longrightarrow> tcp_port_loop in_use start nxt = Some r", OF _ assms(2)])
    fix loop g start nxt r
    assume IH: "\<And>g start nxt r. loop g start nxt = Some r \<Longrightarrow> g = f \<longrightarrow> tcp_port_loop in_use start nxt = Some r"
      and e: "(let port = ucast nxt; nxt1 = if nxt + 1 > 65535 then 49152 else nxt + 1
        in if \<not> g port then Some (port, nxt1) else if nxt1 \<noteq> ucast start then loop g start nxt1 else Some (0, nxt1)) = Some r"
    show "g = f \<longrightarrow> tcp_port_loop in_use start nxt = Some r"
    proof
      assume g: "g = f"
      let ?n = "if nxt + 1 > 65535 then 49152 else nxt + 1 :: u32"
      have step: "tcp_port_loop in_use start nxt = (if \<not> f (ucast nxt) then Some (ucast nxt, ?n)
          else if ?n \<noteq> ucast start then tcp_port_loop in_use start ?n else Some (0, ?n))"
        by (subst tcp_port_loop.simps) (simp only: assms(1) Let_def bind.bind_lunit)
      consider "\<not> f (ucast nxt)" | "f (ucast nxt)" "?n \<noteq> ucast start" | "f (ucast nxt)" "?n = ucast start" by blast
      then show "tcp_port_loop in_use start nxt = Some r"
      proof cases
        case 1 then show ?thesis using e g unfolding step Let_def by (simp only: simp_thms if_True)
      next
        case 2 then show ?thesis using IH[of g start ?n r] e g unfolding step Let_def by (simp only: simp_thms if_True if_False)
      next
        case 3 then show ?thesis using e g unfolding step Let_def by (simp only: simp_thms if_True if_False)
      qed
    qed
  qed
  then show ?thesis by simp
qed

lemma tcp_alloc_port_step:
  fixes s :: "'a tcp_env_scheme"
  assumes ok: "tcp_ok s"
  obtains port n where "tcp_alloc_port s = Some (port, s\<lparr>ts_next_ephemeral_port := n\<rparr>)" "tcp_ok (s\<lparr>ts_next_ephemeral_port := n\<rparr>)"
proof -
  have inv: "tcp_inv s" and free: "\<not> ts_lock s" using ok by (simp_all add: tcp_ok_def)
  have inv1: "tcp_inv (s\<lparr>ts_lock := True\<rparr>)" using inv by (simp add: tcp_inv_lock)
  obtain f where f: "\<forall>port. tcp_port_in_use port (s\<lparr>ts_lock := True\<rparr>) = Some (f port)" by (rule tcp_port_in_use_total[OF inv1])
  define i where "i = unat (ts_next_ephemeral_port s) - 49152"
  have i: "i < 16384" "ts_next_ephemeral_port s = of_nat (49152 + i)"
    using tcp_invD(3,4)[OF inv] unfolding i_def by (auto simp: word_le_nat_alt)
  have u: "ucast (ts_next_ephemeral_port s) = (of_nat (49152 + i) :: u16)"
    unfolding word_unat_eq_iff unsigned_ucast_eq i(2) unat_port32[OF i(1)] unat_of_nat using i(1)
    by (simp add: take_bit_eq_mod)
  obtain port n where p: "udp_port_loop f (of_nat (49152 + i)) (of_nat (49152 + i)) = Some (port, of_nat (49152 + n))" "n < 16384"
    using port_loop_result[OF i(1) i(1)] by blast
  have r: "tcp_port_loop (\<lambda>port. tcp_port_in_use port (s\<lparr>ts_lock := True\<rparr>)) (ucast (ts_next_ephemeral_port s)) (ts_next_ephemeral_port s)
      = Some (port, of_nat (49152 + n))"
    unfolding u unfolding i(2) by (rule tcp_port_loop_udp[OF f p(1)])
  let ?s = "s\<lparr>ts_next_ephemeral_port := of_nat (49152 + n)\<rparr>"
  have same: "s\<lparr>ts_next_ephemeral_port := of_nat (49152 + n), ts_lock := False\<rparr> = ?s" using free by simp
  have run: "tcp_alloc_port s = Some (port, ?s)"
    unfolding tcp_alloc_port_def tcp_lock_acquire_def tcp_lock_release_def using free r same by (simp del: of_nat_add)
  have b: "49152 \<le> (of_nat (49152 + n) :: u32)" "(of_nat (49152 + n) :: u32) \<le> 65535"
    unfolding word_le_nat_alt unat_port32[OF p(2)] using p(2) by simp_all
  have "tcp_ok ?s"
    using inv free b tstepD(1)[OF tstep_fields(5)[OF tcp_invD(1)[OF inv]]]
    by (simp add: tcp_ok_def tcp_inv_def tcp_lists_def del: of_nat_add)
  then show ?thesis by (rule that[OF run])
qed

section \<open>Connections\<close>

lemma tcp_inv_isn: "tcp_inv s \<Longrightarrow> tcp_inv (s\<lparr>ts_isn := i\<rparr>)"
  by (rule tcp_inv_same[OF _ tstep_fields(6)]) (simp_all add: tcp_invD(1))

lemma tcp_connect_step:
  fixes s :: "'a tcp_env_scheme"
  assumes ok: "tcp_ok s" and p: "ts_pcb s p = Some x"
  obtains ret s' where "tcp_connect p ip port s = Some (ret, s')" "tcp_ok s'" "tstep {} s s'" "dom (ts_pcb s') = dom (ts_pcb s)"
proof -
  have inv: "tcp_inv s" and free: "\<not> ts_lock s" using ok by (simp_all add: tcp_ok_def)
  have p0: "p \<noteq> 0" using p tcp_invD(5)[OF inv] by auto
  have rfl: "tstep {} s s" by (rule tstep_refl[OF tcp_invD(1)[OF inv]])
  show ?thesis
  proof (cases "tp_state x = TCP_CLOSED")
    case False
    then have "tcp_connect p ip port s = Some (-1, s)" using p0 p by (simp add: tcp_connect_def)
    then show ?thesis by (rule that) (use ok rfl in simp_all)
  next
    case True
    obtain lport s1 where s1: "(if tp_local_port x = 0 then tcp_alloc_port s else Some (tp_local_port x, s)) = Some (lport, s1)"
      "tcp_ok s1" "tstep {} s s1" "ts_pcb s1 = ts_pcb s"
    proof (cases "tp_local_port x = 0")
      case True
      obtain q n where q: "tcp_alloc_port s = Some (q, s\<lparr>ts_next_ephemeral_port := n\<rparr>)" "tcp_ok (s\<lparr>ts_next_ephemeral_port := n\<rparr>)"
        by (rule tcp_alloc_port_step[OF ok])
      show ?thesis by (rule that[of q "s\<lparr>ts_next_ephemeral_port := n\<rparr>"])
        (use True q tstep_fields(5)[OF tcp_invD(1)[OF inv]] in simp_all)
    next
      case False show ?thesis by (rule that[of "tp_local_port x" s]) (use False ok rfl in simp_all)
    qed
    have inv1: "tcp_inv s1" and free1: "\<not> ts_lock s1" using s1(2) by (simp_all add: tcp_ok_def)
    have p1: "ts_pcb s1 p = Some x" using p s1(4) by simp
    let ?f = "\<lambda>x. x\<lparr>tp_local_port := lport\<rparr>"
    have f: "tp_next (?f x) = tp_next x" "pcb_ok (?f x)" using tcp_invD(2)[OF inv p] by (simp_all add: pcb_ok_def)
    obtain s2 where s2: "upd_tcp p ?f s1 = Some s2" "s2 = s1\<lparr>ts_pcb := (ts_pcb s1)(p \<mapsto> ?f x)\<rparr>" "tstep {} s1 s2" "tcp_inv s2" "ts_lock s2 = ts_lock s1"
      "ts_pcb s2 p = Some (?f x)"
      by (rule upd_tcp_inv[where f = ?f, OF inv1 p1 f])
    have d2: "dom (ts_pcb s2) = dom (ts_pcb s)" using s2(2) p s1(4) by auto
    show ?thesis
    proof (cases "lport = 0")
      case l0: True
      have run: "tcp_connect p ip port s = Some (-1, s2)"
        unfolding tcp_connect_def using p0 p True s1(1) s2(1) l0 by simp
      show ?thesis by (rule that[OF run _ tstep_trans[OF s1(3) s2(3)] d2]) (use s2(4,5) free1 in \<open>simp add: tcp_ok_def\<close>)
    next
      case l0: False
      define isn where "isn = ts_isn s2 + ns_now s2 * 250000"
      let ?s3 = "s2\<lparr>ts_isn := isn\<rparr>"
      have inv3: "tcp_inv ?s3" by (rule tcp_inv_isn[OF s2(4)])
      have p3: "ts_pcb ?s3 p = Some (?f x)" using s2(6) by simp
      let ?g = "\<lambda>x. x\<lparr>tp_remote_ip := ip, tp_remote_port := port, tp_iss := isn, tp_snd_una := isn, tp_snd_nxt := isn, tp_state := TCP_SYN_SENT\<rparr>"
      have g: "tp_next (?g (?f x)) = tp_next (?f x)" "pcb_ok (?g (?f x))" using f(2) by (simp_all add: pcb_ok_def)
      obtain s4 where s4: "upd_tcp p ?g ?s3 = Some s4" "s4 = ?s3\<lparr>ts_pcb := (ts_pcb ?s3)(p \<mapsto> ?g (?f x))\<rparr>" "tstep {} ?s3 s4" "tcp_inv s4"
        "ts_lock s4 = ts_lock ?s3" "ts_pcb s4 p = Some (?g (?f x))"
        by (rule upd_tcp_inv[where f = ?g, OF inv3 p3 g])
      have z: "0 = (of_nat (length (data_of None)) :: u32)" "length (data_of None) \<le> 1460" by (simp_all add: data_of_def)
      obtain ret s5 y where s5: "tcp_send_segment p TCP_FLAG_SYN None 0 s4 = Some (ret, s5)" "tstep {} s4 s5" "tcp_inv s5" "ts_lock s5 = ts_lock s4"
        "dom (ts_pcb s5) = dom (ts_pcb s4)"
        by (rule tcp_send_segment_inv[OF s4(4,6) z])
      have t: "tstep {} s s5"
        by (rule tstep_trans[OF s1(3) tstep_trans[OF s2(3) tstep_trans[OF tstep_fields(6)[OF tcp_invD(1)[OF s2(4)]] tstep_trans[OF s4(3) s5(2)]]]])
      have run: "tcp_connect p ip port s = Some (ret, s5)"
        unfolding tcp_connect_def tcp_gen_isn_def Let_def using p0 p True s1(1) s2(1) l0 s4(1) s5(1) by (simp add: isn_def)
      have d4: "dom (ts_pcb s4) = dom (ts_pcb s2)" using s4(2) s2(6) by auto
      show ?thesis by (rule that[OF run _ t]) (use s5(3,4,5) s4(5) s2(5) free1 d2 d4 in \<open>simp_all add: tcp_ok_def\<close>)
    qed
  qed
qed

lemma tcp_write_step:
  fixes s :: "'a tcp_env_scheme"
  assumes ok: "tcp_ok s" and p: "ts_pcb s p = Some x" and d: "length data = unat len" "length (tp_send_buf x) + unat len < 4294967296"
  obtains ret s' where "tcp_write p (Some data) len s = Some (ret, s')" "tcp_ok s'" "tstep {} s s'" "dom (ts_pcb s') = dom (ts_pcb s)"
proof -
  have inv: "tcp_inv s" and free: "\<not> ts_lock s" using ok by (simp_all add: tcp_ok_def)
  have p0: "p \<noteq> 0" using p tcp_invD(5)[OF inv] by auto
  have rfl: "tstep {} s s" by (rule tstep_refl[OF tcp_invD(1)[OF inv]])
  have x: "pcb_ok x" by (rule tcp_invD(2)[OF inv p])
  have sb: "length (tp_send_buf x) \<le> 8192" "tp_send_buf_size x = 8192" "tp_mss x = 1460" using x by (simp_all add: pcb_ok_def)
  define n where "n = length (tp_send_buf x)"
  have nb: "n \<le> 8192" using sb n_def by simp
  have un: "unat (of_nat n :: u32) = n" using nb by (simp add: unat_of_nat_u32)
  have room: "unat (8192 - of_nat n :: u32) = 8192 - n" using nb un by (subst unat_sub) (simp_all add: word_le_nat_alt)
  have gt: "of_nat n + len > (8192 :: u32) \<longleftrightarrow> n + unat len > 8192"
  proof -
    have "unat (of_nat n + len) = n + unat len" using un d(2) unfolding n_def by (subst unat_add_no_wrap) simp_all
    thus ?thesis by (simp add: word_less_nat_alt)
  qed
  define cl where "cl = (if of_nat n + len > (8192 :: u32) then 8192 - of_nat n else len)"
  have cl: "n + unat cl \<le> 8192" "unat cl \<le> length data" using gt room d(1) nb unfolding cl_def by auto
  show ?thesis
  proof (cases "len = 0 \<or> tp_state x \<noteq> TCP_ESTABLISHED \<and> tp_state x \<noteq> TCP_CLOSE_WAIT \<or> cl = 0")
    case True
    have c0: "tcp_write p (Some data) len s = Some (0, s)" if "len \<noteq> 0" "\<not> (tp_state x \<noteq> TCP_ESTABLISHED \<and> tp_state x \<noteq> TCP_CLOSE_WAIT)" "cl = 0"
    proof -
      have e: "(p = 0 \<or> Some data = None \<or> len = 0) = False" "(tp_state x \<noteq> TCP_ESTABLISHED \<and> tp_state x \<noteq> TCP_CLOSE_WAIT) = False" "(cl = 0) = True"
        using p0 that by auto
      show ?thesis unfolding tcp_write_def Let_def
        by (simp only: e p bind.bind_lunit sb(2) n_def[symmetric] cl_def[symmetric] if_False if_True)
    qed
    have c1: "tcp_write p (Some data) len s = Some (-1, s)" if "len = 0 \<or> tp_state x \<noteq> TCP_ESTABLISHED \<and> tp_state x \<noteq> TCP_CLOSE_WAIT"
      using that p0 p by (auto simp: tcp_write_def)
    obtain r where "tcp_write p (Some data) len s = Some (r, s)" using True c0 c1 by blast
    then show ?thesis by (rule that) (use ok rfl in simp_all)
  next
    case False
    let ?f = "\<lambda>x. x\<lparr>tp_send_buf := tp_send_buf x @ take (unat cl) data\<rparr>"
    have f: "tp_next (?f x) = tp_next x" "pcb_ok (?f x)" using x cl by (simp_all add: pcb_ok_def n_def)
    obtain s1 where s1: "upd_tcp p ?f s = Some s1" "s1 = s\<lparr>ts_pcb := (ts_pcb s)(p \<mapsto> ?f x)\<rparr>" "tstep {} s s1" "tcp_inv s1" "ts_lock s1 = ts_lock s"
      "ts_pcb s1 p = Some (?f x)"
      by (rule upd_tcp_inv[where f = ?f, OF inv p f])
    define sl where "sl = (if cl > 1460 then 1460 else cl)"
    have sl: "unat sl \<le> 1460" "unat sl \<le> unat cl" unfolding sl_def by (auto simp: word_less_nat_alt)
    let ?d = "take (unat sl) (tp_send_buf (?f x))"
    have dl: "length ?d = unat sl" using sl cl by simp
    have z: "sl = of_nat (length (data_of (Some ?d)))" "length (data_of (Some ?d)) \<le> 1460"
      using dl sl(1) by (simp_all add: data_of_def del: take_append length_take)
    obtain ret s2 y where s2: "tcp_send_segment p (TCP_FLAG_ACK OR TCP_FLAG_PSH) (Some ?d) sl s1 = Some (ret, s2)" "tstep {} s1 s2" "tcp_inv s2" "ts_lock s2 = ts_lock s1"
      "ts_pcb s2 p = Some y" "sent (?f x) y" "dom (ts_pcb s2) = dom (ts_pcb s1)"
      by (rule tcp_send_segment_inv[OF s1(4,6) z])
    let ?g = "\<lambda>x. x\<lparr>tp_send_buf := drop (unat sl) (tp_send_buf x)\<rparr>"
    have g: "tp_next (?g y) = tp_next y" "pcb_ok (?g y)" using tcp_invD(2)[OF s2(3,5)] by (auto simp: pcb_ok_def)
    obtain s3 where s3: "upd_tcp p ?g s2 = Some s3" "s3 = s2\<lparr>ts_pcb := (ts_pcb s2)(p \<mapsto> ?g y)\<rparr>" "tstep {} s2 s3" "tcp_inv s3" "ts_lock s3 = ts_lock s2"
      by (rule upd_tcp_inv[where f = ?g, OF s2(3,5) g])
    have msl: "(if cl > ucast (tp_mss x) then ucast (tp_mss x) else cl) = sl" using sb(3) by (simp add: sl_def)
    have e: "(p = 0 \<or> Some data = None \<or> len = 0) = False" "(tp_state x \<noteq> TCP_ESTABLISHED \<and> tp_state x \<noteq> TCP_CLOSE_WAIT) = False" "(cl = 0) = False"
      "(n + unat cl > unat (8192 :: u32)) = False" using p0 False cl by auto
    have run: "tcp_write p (Some data) len s = Some (sint cl, s3)"
      unfolding tcp_write_def Let_def
      by (simp only: e p bind.bind_lunit sb(2) n_def[symmetric] cl_def[symmetric] if_False option.sel s1(1) s1(6) msl s2(1) s3(1) prod.case)
    have dm: "dom (ts_pcb s3) = dom (ts_pcb s)" using s3(2) s2(5,7) s1(2) p by auto
    show ?thesis by (rule that[OF run _ tstep_trans[OF s1(3) tstep_trans[OF s2(2) s3(3)]] dm]) (use s3(4,5) s2(4) s1(5) free in \<open>simp add: tcp_ok_def\<close>)
  qed
qed

lemma tcp_read_step:
  fixes s :: "'a tcp_env_scheme"
  assumes ok: "tcp_ok s" and p: "ts_pcb s p = Some x"
  obtains ret bs s' where "tcp_read p len s = Some (ret, bs, s')" "tcp_ok s'" "tstep {} s s'" "dom (ts_pcb s') = dom (ts_pcb s)"
proof -
  have inv: "tcp_inv s" and free: "\<not> ts_lock s" using ok by (simp_all add: tcp_ok_def)
  have p0: "p \<noteq> 0" using p tcp_invD(5)[OF inv] by auto
  have rfl: "tstep {} s s" by (rule tstep_refl[OF tcp_invD(1)[OF inv]])
  show ?thesis
  proof (cases "len = 0 \<or> tp_recv_buf x = []")
    case True
    then have "tcp_read p len s = Some (if len = 0 then -1 else if tp_state x = TCP_CLOSE_WAIT \<or> tp_state x = TCP_CLOSED then 0 else -1, [], s)"
      using p0 p by (auto simp: tcp_read_def)
    then show ?thesis by (rule that) (use ok rfl in simp_all)
  next
    case False
    define avail where "avail = of_nat (length (tp_recv_buf x)) - tp_recv_read_pos x"
    define cl where "cl = (if len > avail then avail else len)"
    let ?f = "\<lambda>y. if tp_recv_read_pos x + cl \<ge> of_nat (length (tp_recv_buf y)) then y\<lparr>tp_recv_buf := [], tp_recv_read_pos := 0\<rparr>
                              else y\<lparr>tp_recv_read_pos := tp_recv_read_pos x + cl\<rparr>"
    have f: "tp_next (?f x) = tp_next x" "pcb_ok (?f x)" using tcp_invD(2)[OF inv p] by (simp_all add: pcb_ok_def)
    obtain s1 where s1: "upd_tcp p ?f s = Some s1" "s1 = s\<lparr>ts_pcb := (ts_pcb s)(p \<mapsto> ?f x)\<rparr>" "tstep {} s s1" "tcp_inv s1" "ts_lock s1 = ts_lock s"
      by (rule upd_tcp_inv[where f = ?f, OF inv p f])
    have e: "(p = 0 \<or> len = 0) = False" "(tp_recv_buf x = []) = False" using p0 False by auto
    have run: "tcp_read p len s = Some (sint cl, take (unat cl) (drop (unat (tp_recv_read_pos x)) (tp_recv_buf x)), s1)"
      unfolding tcp_read_def Let_def
      by (simp only: e p bind.bind_lunit if_False avail_def[symmetric] cl_def[symmetric] s1(1))
    have dm: "dom (ts_pcb s1) = dom (ts_pcb s)" using s1(2) p by auto
    show ?thesis by (rule that[OF run _ s1(3) dm]) (use s1(4,5) free in \<open>simp add: tcp_ok_def\<close>)
  qed
qed

lemma upd_state_ok: "pcb_ok x \<Longrightarrow> st \<noteq> TCP_LISTEN \<Longrightarrow> pcb_ok (x\<lparr>tp_state := st\<rparr>)"
  by (simp add: pcb_ok_def)

lemma no_data: "0 = (of_nat (length (data_of None)) :: u32)" "length (data_of None) \<le> 1460"
  by (simp_all add: data_of_def)

lemma tcp_close_step:
  fixes s :: "'a tcp_env_scheme"
  assumes ok: "tcp_ok s" and p: "ts_pcb s p = Some x"
  obtains ret s' where "tcp_close p s = Some (ret, s')" "tcp_ok s'" "tstep {} s s'" "dom (ts_pcb s') = dom (ts_pcb s)"
proof -
  have inv: "tcp_inv s" and free: "\<not> ts_lock s" using ok by (simp_all add: tcp_ok_def)
  have p0: "p \<noteq> 0" using p tcp_invD(5)[OF inv] by auto
  have x: "pcb_ok x" by (rule tcp_invD(2)[OF inv p])
  have upd: "\<exists>s1. upd_tcp p (\<lambda>x. x\<lparr>tp_state := st\<rparr>) s = Some s1 \<and> tstep {} s s1 \<and> tcp_inv s1 \<and> ts_lock s1 = ts_lock s
      \<and> ts_pcb s1 p = Some (x\<lparr>tp_state := st\<rparr>) \<and> dom (ts_pcb s1) = dom (ts_pcb s)" if "st \<noteq> TCP_LISTEN" for st
  proof -
    let ?f = "\<lambda>x. x\<lparr>tp_state := st\<rparr>"
    have f: "tp_next (?f x) = tp_next x" "pcb_ok (?f x)" using upd_state_ok[OF x that] by simp_all
    obtain s1 where "upd_tcp p ?f s = Some s1" "s1 = s\<lparr>ts_pcb := (ts_pcb s)(p \<mapsto> ?f x)\<rparr>" "tstep {} s s1" "tcp_inv s1" "ts_lock s1 = ts_lock s"
      "ts_pcb s1 p = Some (?f x)" by (rule upd_tcp_inv[where f = ?f, OF inv p f])
    then show ?thesis using p by auto
  qed
  consider (quiet) "tp_state x \<in> {TCP_CLOSED, TCP_LISTEN, TCP_SYN_SENT}"
    | (fin) "tp_state x \<in> {TCP_SYN_RECEIVED, TCP_ESTABLISHED, TCP_CLOSE_WAIT}"
    | (late) "tp_state x \<notin> {TCP_CLOSED, TCP_LISTEN, TCP_SYN_SENT}" "tp_state x \<notin> {TCP_SYN_RECEIVED, TCP_ESTABLISHED, TCP_CLOSE_WAIT}" by blast
  then show ?thesis
  proof cases
    case quiet
    obtain s1 where s1: "upd_tcp p (\<lambda>x. x\<lparr>tp_state := TCP_CLOSED\<rparr>) s = Some s1" "tstep {} s s1" "tcp_inv s1" "ts_lock s1 = ts_lock s" "dom (ts_pcb s1) = dom (ts_pcb s)"
      using upd[of TCP_CLOSED] by auto
    have "tcp_close p s = Some (0, s1)" using p0 p quiet s1(1) by (simp add: tcp_close_def Let_def)
    then show ?thesis by (rule that) (use s1 free in \<open>simp_all add: tcp_ok_def\<close>)
  next
    case fin
    define st where "st = (if tp_state x = TCP_CLOSE_WAIT then TCP_LAST_ACK else TCP_FIN_WAIT_1)"
    have stl: "st \<noteq> TCP_LISTEN" by (simp add: st_def)
    obtain s1 where s1: "upd_tcp p (\<lambda>x. x\<lparr>tp_state := st\<rparr>) s = Some s1" "tstep {} s s1" "tcp_inv s1" "ts_lock s1 = ts_lock s"
      "ts_pcb s1 p = Some (x\<lparr>tp_state := st\<rparr>)" "dom (ts_pcb s1) = dom (ts_pcb s)"
      using upd[OF stl] by auto
    obtain r s2 y where s2: "tcp_send_segment p (TCP_FLAG_FIN OR TCP_FLAG_ACK) None 0 s1 = Some (r, s2)" "tstep {} s1 s2" "tcp_inv s2" "ts_lock s2 = ts_lock s1"
      "dom (ts_pcb s2) = dom (ts_pcb s1)"
      by (rule tcp_send_segment_inv[OF s1(3,5) no_data])
    have nq: "(tp_state x \<in> {TCP_CLOSED, TCP_LISTEN, TCP_SYN_SENT}) = False" "(tp_state x \<in> {TCP_SYN_RECEIVED, TCP_ESTABLISHED, TCP_CLOSE_WAIT}) = True"
      using fin by auto
    have "tcp_close p s = Some (0, s2)"
      unfolding tcp_close_def Let_def using p0
      by (simp only: p bind.bind_lunit nq if_False if_True st_def[symmetric] s1(1) s2(1) prod.case)
    then show ?thesis by (rule that) (use s1 s2 free tstep_trans[OF s1(2) s2(2)] in \<open>simp_all add: tcp_ok_def\<close>)
  next
    case late
    have "tcp_close p s = Some (-1, s)" using p0 p late by (simp add: tcp_close_def Let_def)
    then show ?thesis by (rule that) (use ok tstep_refl[OF tcp_invD(1)[OF inv]] in simp_all)
  qed
qed

lemma tcp_abort_step:
  fixes s :: "'a tcp_env_scheme"
  assumes ok: "tcp_ok s" and p: "ts_pcb s p = Some x"
  obtains s' where "tcp_abort p s = Some s'" "tcp_ok s'" "tstep {} s s'" "dom (ts_pcb s') = dom (ts_pcb s)"
proof -
  have inv: "tcp_inv s" and free: "\<not> ts_lock s" using ok by (simp_all add: tcp_ok_def)
  have p0: "p \<noteq> 0" using p tcp_invD(5)[OF inv] by auto
  have rfl: "tstep {} s s" by (rule tstep_refl[OF tcp_invD(1)[OF inv]])
  let ?c = "tp_state x \<noteq> TCP_CLOSED \<and> tp_state x \<noteq> TCP_LISTEN \<and> netdev_get_default s \<noteq> 0"
  obtain s1 where s1: "(if ?c then do { d \<leftarrow> ds_devs s (netdev_get_default s);
       tcp_send_rst (nd_ip_addr d) (tp_remote_ip x) (tp_local_port x) (tp_remote_port x) (tp_snd_nxt x) 0 False s } else Some s) = Some s1"
    "tstep {} s s1" "udp_env.more s1 = udp_env.more s"
  proof (cases ?c)
    case True
    obtain dd where dd: "ds_devs s (netdev_get_default s) = Some dd" using default_dev[OF tcp_invD(1)[OF inv]] True by blast
    obtain s1 where "tcp_send_rst (nd_ip_addr dd) (tp_remote_ip x) (tp_local_port x) (tp_remote_port x) (tp_snd_nxt x) 0 False s = Some s1"
      "tstep {} s s1" "udp_env.more s1 = udp_env.more s"
      by (rule tcp_send_rst_step[OF tcp_invD(1)[OF inv]])
    then show ?thesis using that True dd by simp
  next
    case False then show ?thesis using that[of s] rfl by auto
  qed
  have inv1: "tcp_inv s1" by (rule tcp_inv_more[OF inv s1(2,3)])
  note m = more_tcp[OF s1(3)]
  have p1: "ts_pcb s1 p = Some x" using p m by simp
  let ?f = "\<lambda>x. x\<lparr>tp_state := TCP_CLOSED\<rparr>"
  have f: "tp_next (?f x) = tp_next x" "pcb_ok (?f x)" using upd_state_ok[OF tcp_invD(2)[OF inv p]] by simp_all
  obtain s2 where s2: "upd_tcp p ?f s1 = Some s2" "s2 = s1\<lparr>ts_pcb := (ts_pcb s1)(p \<mapsto> ?f x)\<rparr>" "tstep {} s1 s2" "tcp_inv s2" "ts_lock s2 = ts_lock s1"
    by (rule upd_tcp_inv[where f = ?f, OF inv1 p1 f])
  have run: "tcp_abort p s = Some s2" unfolding tcp_abort_def using p0 p s1(1) s2(1) by simp
  have dm: "dom (ts_pcb s2) = dom (ts_pcb s)" using s2(2) p1 m by auto
  show ?thesis by (rule that[OF run _ tstep_trans[OF s1(2) s2(3)] dm]) (use s2(4,5) m(4) free in \<open>simp add: tcp_ok_def\<close>)
qed

section \<open>Incoming segments\<close>

text \<open>A step of the input path that ends with the release of the buffer.\<close>

definition fine :: "u32 \<Rightarrow> 'a tcp_env_scheme \<Rightarrow> 'a tcp_env_scheme option \<Rightarrow> bool" where
  "fine b s r \<longleftrightarrow> (\<exists>s'. r = Some s' \<and> tcp_ok s' \<and> tstep {b} s s' \<and> dom (ts_pcb s') = dom (ts_pcb s))"

lemma fine_step: "tstep {} s s1 \<Longrightarrow> dom (ts_pcb s1) = dom (ts_pcb s) \<Longrightarrow> fine b s1 r \<Longrightarrow> fine b s r"
  unfolding fine_def using tstep_trans[of "{b}" s s1] tstep_mono[of "{}" s s1 "{b}"] by auto

lemma free_fine:
  assumes "tcp_ok s" "held b s"
  shows "fine b s (netbuf_free b s)"
proof -
  have inv: "tcp_inv s" using assms(1) by (simp add: tcp_ok_def)
  obtain s' where s': "netbuf_free b s = Some s'" "udp_ok s'" "kept {b} s s'" "is_reass s' = is_reass s"
    "udp_env.more s' = udp_env.more s" "us_pcb s' = us_pcb s"
  proof -
    have o: "owned b s" using assms(2) by (simp add: held_def)
    obtain t where t: "netbuf_free b s = Some t" "kept {b} s t" "arp_step {b} s t"
      by (rule netbuf_free_kept[OF udp_okD(1)[OF tcp_invD(1)[OF inv]] o])
    obtain t' where t': "netbuf_free b s = Some t'" "udp_ok t'" "kept {b} s t'" "is_reass t' = is_reass s" "udp_env.more t' = udp_env.more s"
      by (rule udp_release[OF tcp_invD(1)[OF inv] assms(2)])
    have "us_pcb t = us_pcb s" by (rule more_udp(2)[OF more_icmp(5)[OF arp_step_ext(4)[OF t(3)]]])
    then show ?thesis using that t t' by simp
  qed
  have t: "tstep {b} s s'" using s' by (simp add: tstep_def)
  note m = more_tcp[OF s'(5)]
  have "tcp_ok s'" using tcp_inv_more[OF inv t s'(5)] m assms(1) by (simp add: tcp_ok_def)
  then show ?thesis using s'(1) t m by (simp add: fine_def)
qed

lemma release_ok: "tcp_inv s \<Longrightarrow> tcp_ok (tcp_lock_release s)"
  by (simp add: tcp_ok_def tcp_lock_release_def tcp_inv_lock)

lemma release_step: "tcp_inv s \<Longrightarrow> tstep {} s (tcp_lock_release s)"
  unfolding tcp_lock_release_def by (rule tstep_fields(4)) (rule tcp_invD(1))

lemma release_pcb [simp]: "ts_pcb (tcp_lock_release s) = ts_pcb s"
  by (simp add: tcp_lock_release_def)

lemma done_fine:
  assumes "tcp_inv s" "held (ta_buf a) s"
  shows "fine (ta_buf a) s (input_done a s)"
  unfolding input_done_def
  by (rule fine_step[OF release_step[OF assms(1)] _ free_fine[OF release_ok[OF assms(1)] tstep_held[OF release_step[OF assms(1)] assms(2)]]]) simp_all

lemma answer_fine:
  assumes inv: "tcp_inv s" and h: "held (ta_buf a) s" and p: "ts_pcb s p = Some x"
  shows "fine (ta_buf a) s (input_answer a p flags s)"
proof -
  let ?s = "tcp_lock_release s"
  have ok: "tcp_ok ?s" by (rule release_ok[OF inv])
  have inv1: "tcp_inv ?s" using ok by (simp add: tcp_ok_def)
  have p1: "ts_pcb ?s p = Some x" using p by simp
  obtain r s1 y where s1: "tcp_send_segment p flags None 0 ?s = Some (r, s1)" "tstep {} ?s s1" "tcp_inv s1" "ts_lock s1 = ts_lock ?s"
    "dom (ts_pcb s1) = dom (ts_pcb ?s)"
    by (rule tcp_send_segment_inv[OF inv1 p1 no_data])
  have ok1: "tcp_ok s1" using s1(3,4) ok by (simp add: tcp_ok_def)
  have t: "tstep {} s s1" by (rule tstep_trans[OF release_step[OF inv] s1(2)])
  have "fine (ta_buf a) s1 (netbuf_free (ta_buf a) s1)" by (rule free_fine[OF ok1 tstep_held[OF t h]]) simp
  then have "fine (ta_buf a) s (netbuf_free (ta_buf a) s1)" by (rule fine_step[OF t, rotated]) (use s1(5) in simp)
  then show ?thesis using s1(1) by (simp add: input_answer_def)
qed

lemma reset_step:
  assumes inv: "tcp_inv s"
  obtains s1 where "input_reset a s = Some s1" "tstep {} s s1" "tcp_inv s1" "ts_pcb s1 = ts_pcb s" "ts_lock s1 = ts_lock s"
proof -
  obtain s1 where s1: "input_reset a s = Some s1" "tstep {} s s1" "udp_env.more s1 = udp_env.more s"
    unfolding input_reset_def by (rule tcp_send_rst_step[OF tcp_invD(1)[OF inv]])
  show ?thesis by (rule that[OF s1(1,2) tcp_inv_more[OF inv s1(2,3)]]) (use more_tcp[OF s1(3)] in simp_all)
qed

lemma reset_fine:
  assumes "tcp_inv s" "held (ta_buf a) s"
  shows "fine (ta_buf a) s (do { s1 \<leftarrow> input_reset a s; input_done a s1 })"
proof -
  obtain s1 where s1: "input_reset a s = Some s1" "tstep {} s s1" "tcp_inv s1" "ts_pcb s1 = ts_pcb s" by (rule reset_step[OF assms(1)])
  have "fine (ta_buf a) s1 (input_done a s1)" by (rule done_fine[OF s1(3) tstep_held[OF s1(2) assms(2)]]) simp
  then have "fine (ta_buf a) s (input_done a s1)" by (rule fine_step[OF s1(2), rotated]) (simp add: s1(4))
  then show ?thesis using s1(1) by simp
qed

lemma no_pcb_fine:
  assumes inv: "tcp_inv s" and h: "held (ta_buf a) s"
  shows "fine (ta_buf a) s (input_no_pcb a s)"
proof -
  let ?s = "tcp_lock_release s"
  have ok: "tcp_ok ?s" by (rule release_ok[OF inv])
  have inv1: "tcp_inv ?s" using ok by (simp add: tcp_ok_def)
  have rel: "fine (ta_buf a) s (netbuf_free (ta_buf a) s2)" if s2: "tstep {} ?s s2" "udp_env.more s2 = udp_env.more ?s" for s2
  proof -
    have t: "tstep {} s s2" by (rule tstep_trans[OF release_step[OF inv] s2(1)])
    have "tcp_ok s2" using tcp_inv_more[OF inv1 s2] more_tcp[OF s2(2)] ok by (simp add: tcp_ok_def)
    from free_fine[OF this tstep_held[OF t h]] have "fine (ta_buf a) s2 (netbuf_free (ta_buf a) s2)" by simp
    then show ?thesis by (rule fine_step[OF t, rotated]) (use more_tcp[OF s2(2)] in simp)
  qed
  have t0: "tstep {} ?s ?s" by (rule tstep_refl[OF tcp_invD(1)[OF inv1]])
  obtain s2 where s2: "(if has_flag (ta_flags a) TCP_FLAG_RST then Some ?s
            else if has_flag (ta_flags a) TCP_FLAG_ACK then input_reset a ?s
            else tcp_send_rst (ta_dst_ip a) (ta_src_ip a) (ta_dst_port a) (ta_src_port a) 0
                   (ta_seq a + ta_data_len a + (if has_flag (ta_flags a) TCP_FLAG_SYN then 1 else 0)
                     + (if has_flag (ta_flags a) TCP_FLAG_FIN then 1 else 0)) True ?s) = Some s2" "tstep {} ?s s2" "udp_env.more s2 = udp_env.more ?s"
  proof -
    obtain r1 where r1: "input_reset a ?s = Some r1" "tstep {} ?s r1" "udp_env.more r1 = udp_env.more ?s"
      unfolding input_reset_def by (rule tcp_send_rst_step[OF tcp_invD(1)[OF inv1]])
    obtain r2 where r2: "tcp_send_rst (ta_dst_ip a) (ta_src_ip a) (ta_dst_port a) (ta_src_port a) 0
                   (ta_seq a + ta_data_len a + (if has_flag (ta_flags a) TCP_FLAG_SYN then 1 else 0)
                     + (if has_flag (ta_flags a) TCP_FLAG_FIN then 1 else 0)) True ?s = Some r2" "tstep {} ?s r2" "udp_env.more r2 = udp_env.more ?s"
      by (rule tcp_send_rst_step[OF tcp_invD(1)[OF inv1]])
    show ?thesis
      by (rule that[of "if has_flag (ta_flags a) TCP_FLAG_RST then ?s else if has_flag (ta_flags a) TCP_FLAG_ACK then r1 else r2"])
        (use r1 r2 t0 in simp_all)
  qed
  show ?thesis unfolding input_no_pcb_def s2(1) using rel[OF s2(2,3)] by simp
qed

text \<open>The callbacks return and leave the stack as it is.\<close>

definition call_ok :: "(tcp_callback \<Rightarrow> 'a tcp_env_scheme \<Rightarrow> 'a tcp_env_scheme option) \<Rightarrow> bool" where
  "call_ok call \<longleftrightarrow> (\<forall>cb s. tcp_ok s \<longrightarrow> (\<exists>s'. call cb s = Some s' \<and> tstep {} s s' \<and> udp_env.more s' = udp_env.more s))"

lemma call_step:
  assumes "call_ok call" "tcp_ok s"
  obtains s' where "call cb s = Some s'" "tstep {} s s'" "tcp_ok s'" "ts_pcb s' = ts_pcb s" "tlists s s'"
proof -
  obtain s' where s': "call cb s = Some s'" "tstep {} s s'" "udp_env.more s' = udp_env.more s" using assms unfolding call_ok_def by blast
  show ?thesis
    by (rule that[OF s'(1,2)]) (use more_tcp[OF s'(3)] tcp_inv_more[OF _ s'(2,3)] more_tlists[OF s'(3)] assms(2) in \<open>auto simp: tcp_ok_def\<close>)
qed

lemma call_fine:
  assumes c: "call_ok call" and inv: "tcp_inv s" and h: "held (ta_buf a) s"
  shows "fine (ta_buf a) s (input_call call a cb s)"
proof -
  obtain s1 where s1: "call cb (tcp_lock_release s) = Some s1" "tstep {} (tcp_lock_release s) s1" "tcp_ok s1" "ts_pcb s1 = ts_pcb (tcp_lock_release s)"
    by (rule call_step[OF c release_ok[OF inv]])
  have t: "tstep {} s s1" by (rule tstep_trans[OF release_step[OF inv] s1(2)])
  have "fine (ta_buf a) s1 (netbuf_free (ta_buf a) s1)" by (rule free_fine[OF s1(3) tstep_held[OF t h]]) simp
  then have "fine (ta_buf a) s (netbuf_free (ta_buf a) s1)" by (rule fine_step[OF t, rotated]) (use s1(4) in simp)
  then show ?thesis using s1(1) by (simp add: input_call_def)
qed

text \<open>Changing the block and going on.\<close>

lemma upd_fine:
  assumes inv: "tcp_inv s" and h: "held (ta_buf a) s" and p: "ts_pcb s p = Some x" and f: "tp_next (f x) = tp_next x" "pcb_ok (f x)"
    and k: "\<And>s1. tcp_inv s1 \<Longrightarrow> held (ta_buf a) s1 \<Longrightarrow> ts_pcb s1 p = Some (f x) \<Longrightarrow> ts_lock s1 = ts_lock s \<Longrightarrow> fine (ta_buf a) s1 (g s1)"
  shows "fine (ta_buf a) s (do { s1 \<leftarrow> upd_tcp p f s; g s1 })"
proof -
  obtain s1 where s1: "upd_tcp p f s = Some s1" "s1 = s\<lparr>ts_pcb := (ts_pcb s)(p \<mapsto> f x)\<rparr>" "tstep {} s s1" "tcp_inv s1" "ts_lock s1 = ts_lock s"
    "ts_pcb s1 p = Some (f x)" by (rule upd_tcp_inv[where f = f, OF inv p f])
  have h1: "held (ta_buf a) s1" by (rule tstep_held[OF s1(3) h]) simp
  have "fine (ta_buf a) s (g s1)" by (rule fine_step[OF s1(3) _ k[OF s1(4) h1 s1(6,5)]]) (use s1(2) p in auto)
  then show ?thesis using s1(1) by simp
qed

lemma tcp_dup_ack_step:
  fixes s :: "'a tcp_env_scheme"
  assumes inv: "tcp_inv s" and p: "ts_pcb s p = Some x"
  obtains s' y where "tcp_dup_ack p s = Some s'" "tstep {} s s'" "tcp_inv s'" "ts_lock s' = ts_lock s" "ts_pcb s' p = Some y"
    "dom (ts_pcb s') = dom (ts_pcb s)"
proof -
  have x: "pcb_ok x" by (rule tcp_invD(2)[OF inv p])
  let ?f = "\<lambda>x. x\<lparr>tp_dup_ack_count := tp_dup_ack_count x + 1\<rparr>"
  have f: "tp_next (?f x) = tp_next x" "pcb_ok (?f x)" using x by (simp_all add: pcb_ok_def)
  obtain s1 where s1: "upd_tcp p ?f s = Some s1" "s1 = s\<lparr>ts_pcb := (ts_pcb s)(p \<mapsto> ?f x)\<rparr>" "tstep {} s s1" "tcp_inv s1" "ts_lock s1 = ts_lock s"
    "ts_pcb s1 p = Some (?f x)" by (rule upd_tcp_inv[where f = ?f, OF inv p f])
  have d1: "dom (ts_pcb s1) = dom (ts_pcb s)" using s1(2) p by auto
  show ?thesis
  proof (cases "tp_unacked x = [] \<or> tp_dup_ack_count (?f x) \<noteq> 3")
    case True
    then have "tcp_dup_ack p s = Some s1"
      unfolding tcp_dup_ack_def using s1(1,6) by (cases "tp_unacked x") auto
    then show ?thesis by (rule that[OF _ s1(3,4,5,6) d1])
  next
    case False
    then obtain seg segs where seg: "tp_unacked x = seg # segs" by (cases "tp_unacked x") auto
    let ?g = "\<lambda>x. x\<lparr>tp_ssthresh := halved_threshold x, tp_cwnd := halved_threshold x + 3 * ucast (tp_mss x)\<rparr>"
    have hb: "halved_threshold (?f x) \<le> 2500000" "0 < halved_threshold (?f x) + 3 * ucast (tp_mss (?f x))"
      "halved_threshold (?f x) + 3 * ucast (tp_mss (?f x)) \<le> 5000000"
      by (rule halved_bound; use x in \<open>simp add: pcb_ok_def\<close>)+
    have g: "tp_next (?g (?f x)) = tp_next (?f x)" "pcb_ok (?g (?f x))" using f(2) hb by (simp_all add: pcb_ok_def)
    obtain s2 where s2: "upd_tcp p ?g s1 = Some s2" "s2 = s1\<lparr>ts_pcb := (ts_pcb s1)(p \<mapsto> ?g (?f x))\<rparr>" "tstep {} s1 s2" "tcp_inv s2" "ts_lock s2 = ts_lock s1"
      "ts_pcb s2 p = Some (?g (?f x))" by (rule upd_tcp_inv[where f = ?g, OF s1(4,6) g])
    have sg: "sg_data_len seg = of_nat (length (data_of (sg_data seg)))" "length (data_of (sg_data seg)) \<le> 1460"
      using x seg by (simp_all add: pcb_ok_def seg_ok_def)
    obtain r s3 y where s3: "tcp_send_segment p (sg_flags seg OR TCP_FLAG_ACK) (sg_data seg) (sg_data_len seg) s2 = Some (r, s3)" "tstep {} s2 s3"
      "tcp_inv s3" "ts_lock s3 = ts_lock s2" "ts_pcb s3 p = Some y" "dom (ts_pcb s3) = dom (ts_pcb s2)"
      by (rule tcp_send_segment_inv[OF s2(4,6) sg])
    let ?h = "\<lambda>x. upd_first (\<lambda>g. g\<lparr>sg_retries := sg_retries g + 1, sg_retransmit_time := ns_now s3 + tp_rto x\<rparr>) x"
    have h: "tp_next (?h y) = tp_next y" "pcb_ok (?h y)"
      using tcp_invD(2)[OF s3(3,5)] by (auto simp: pcb_ok_def upd_first_def seg_ok_def split: list.splits)
    obtain s4 where s4: "upd_tcp p ?h s3 = Some s4" "s4 = s3\<lparr>ts_pcb := (ts_pcb s3)(p \<mapsto> ?h y)\<rparr>" "tstep {} s3 s4" "tcp_inv s4" "ts_lock s4 = ts_lock s3"
      "ts_pcb s4 p = Some (?h y)" by (rule upd_tcp_inv[where f = ?h, OF s3(3,5) h])
    have run: "tcp_dup_ack p s = Some s4"
      unfolding tcp_dup_ack_def using s1(1,6) seg False s2(1) s3(1) s4(1) by simp
    have dm: "dom (ts_pcb s4) = dom (ts_pcb s)" using s4(2) s3(5,6) s2(2) s1(6) d1 by auto
    show ?thesis
      by (rule that[OF run tstep_trans[OF s1(3) tstep_trans[OF s2(3) tstep_trans[OF s3(2) s4(3)]]] s4(4) _ s4(6) dm])
        (use s1(5) s2(5) s3(4) s4(5) in simp)
  qed
qed

lemma input_ack_step:
  fixes s :: "'a tcp_env_scheme"
  assumes inv: "tcp_inv s" and p: "ts_pcb s p = Some x"
  obtains s' y where "input_ack a p s = Some s'" "tstep {} s s'" "tcp_inv s'" "ts_lock s' = ts_lock s" "ts_pcb s' p = Some y"
    "dom (ts_pcb s') = dom (ts_pcb s)"
proof (cases "has_flag (ta_flags a) TCP_FLAG_ACK")
  case False
  then have "input_ack a p s = Some s" by (simp add: input_ack_def)
  then show ?thesis by (rule that) (use inv p tstep_refl[OF tcp_invD(1)[OF inv]] in simp_all)
next
  case True
  let ?new = "TCP_SEQ_GT (ta_ack a) (tp_snd_una x) \<and> TCP_SEQ_LEQ (ta_ack a) (tp_snd_nxt x)"
  let ?dup = "ta_ack a = tp_snd_una x \<and> tp_unacked x \<noteq> []"
  obtain s1 y where s1: "(if ?new then do { pcb1 \<leftarrow> tcp_ack_received (ns_now s) (ta_ack a) (x\<lparr>tp_snd_una := ta_ack a\<rparr>); upd_tcp p (\<lambda>_. pcb1) s }
      else if ?dup then tcp_dup_ack p s else Some s) = Some s1"
    "tstep {} s s1" "tcp_inv s1" "ts_lock s1 = ts_lock s" "ts_pcb s1 p = Some y" "dom (ts_pcb s1) = dom (ts_pcb s)"
  proof -
    consider (new) ?new | (dup) "\<not> ?new" ?dup | (old) "\<not> ?new" "\<not> ?dup" by blast
    then show ?thesis
    proof cases
      case new
      have x1: "pcb_ok (x\<lparr>tp_snd_una := ta_ack a\<rparr>)" using tcp_invD(2)[OF inv p] by (simp add: pcb_ok_def)
      obtain y where y: "tcp_ack_received (ns_now s) (ta_ack a) (x\<lparr>tp_snd_una := ta_ack a\<rparr>) = Some y" "pcb_ok y" "tp_next y = tp_next (x\<lparr>tp_snd_una := ta_ack a\<rparr>)"
        by (rule tcp_ack_received_ok[OF x1])
      let ?f = "\<lambda>_ :: tcp_pcb_t. y"
      have f: "tp_next (?f x) = tp_next x" "pcb_ok (?f x)" using y by simp_all
      obtain s1 where s1: "upd_tcp p ?f s = Some s1" "s1 = s\<lparr>ts_pcb := (ts_pcb s)(p \<mapsto> ?f x)\<rparr>" "tstep {} s s1" "tcp_inv s1" "ts_lock s1 = ts_lock s"
        "ts_pcb s1 p = Some (?f x)" by (rule upd_tcp_inv[where f = ?f, OF inv p f])
      show ?thesis by (rule that[of s1 y]) (use new y(1) s1 p in auto)
    next
      case dup
      obtain s1 y where s1: "tcp_dup_ack p s = Some s1" "tstep {} s s1" "tcp_inv s1" "ts_lock s1 = ts_lock s" "ts_pcb s1 p = Some y"
        "dom (ts_pcb s1) = dom (ts_pcb s)" by (rule tcp_dup_ack_step[OF inv p])
      show ?thesis by (rule that[of s1 y]) (use dup s1 in auto)
    next
      case old
      show ?thesis by (rule that[of s x]) (use old inv p tstep_refl[OF tcp_invD(1)[OF inv]] in auto)
    qed
  qed
  let ?g = "\<lambda>x. if tp_state x = TCP_FIN_WAIT_1 \<and> ta_ack a = tp_snd_nxt x then x\<lparr>tp_state := TCP_FIN_WAIT_2\<rparr> else x"
  have g: "tp_next (?g y) = tp_next y" "pcb_ok (?g y)" using tcp_invD(2)[OF s1(3,5)] by (simp_all add: pcb_ok_def)
  obtain s2 where s2: "upd_tcp p ?g s1 = Some s2" "s2 = s1\<lparr>ts_pcb := (ts_pcb s1)(p \<mapsto> ?g y)\<rparr>" "tstep {} s1 s2" "tcp_inv s2" "ts_lock s2 = ts_lock s1"
    "ts_pcb s2 p = Some (?g y)" by (rule upd_tcp_inv[where f = ?g, OF s1(3,5) g])
  have nack: "(\<not> has_flag (ta_flags a) TCP_FLAG_ACK) = False" using True by simp
  have run: "input_ack a p s = Some s2"
    unfolding input_ack_def nack if_False p bind.bind_lunit s1(1) s2(1) ..
  have dm: "dom (ts_pcb s2) = dom (ts_pcb s)" using s2(2) s1(5,6) by auto
  show ?thesis by (rule that[OF run tstep_trans[OF s1(2) s2(3)] s2(4) _ s2(6) dm]) (use s2(5) s1(4) in simp)
qed

lemma tcp_process_step:
  fixes s :: "'a tcp_env_scheme"
  assumes inv: "tcp_inv s" and p: "ts_pcb s p = Some x"
  obtains s' y where "tcp_process p seq data len s = Some s'" "tstep {} s s'" "tcp_inv s'" "ts_lock s' = ts_lock s" "ts_pcb s' p = Some y"
    "dom (ts_pcb s') = dom (ts_pcb s)"
proof -
  define queue where "queue = (len \<noteq> 0 \<and> TCP_SEQ_GT seq (tp_rcv_nxt x) \<and> tp_ooseq_count x < TCP_MAX_OOSEQ
                  \<and> TCP_SEQ_BETWEEN seq (tp_rcv_nxt x) (tp_rcv_nxt x + tp_rcv_wnd x))"
  obtain a s1 where 1: "(if queue then kmalloc_next (\<lambda>_. False) s else (0, s)) = (a, s1)" by fastforce
  obtain d s2 where 2: "(if queue \<and> a \<noteq> 0 then kmalloc_next (\<lambda>_. False) s1 else (0, s1)) = (d, s2)" by fastforce
  have k1: "\<exists>ks. s1 = s\<lparr>ns_kmalloc := ks\<rparr>"
  proof (cases queue)
    case True then show ?thesis using 1 kmalloc_next_state[of "\<lambda>_. False" s a s1] by simp
  next
    case False
    then have "s1 = s" using 1 by auto
    then show ?thesis by (intro exI[of _ "ns_kmalloc s"]) simp
  qed
  have k2: "\<exists>ks. s2 = s1\<lparr>ns_kmalloc := ks\<rparr>"
  proof (cases "queue \<and> a \<noteq> 0")
    case True then show ?thesis using 2 kmalloc_next_state[of "\<lambda>_. False" s1 d s2] by simp
  next
    case False
    then have "s2 = s1" using 2 by auto
    then show ?thesis by (intro exI[of _ "ns_kmalloc s1"]) simp
  qed
  obtain ks where s2: "s2 = s\<lparr>ns_kmalloc := ks\<rparr>" using k1 k2 by auto
  have t: "tstep {} s s2" unfolding s2 by (rule tstep_kmalloc[OF tcp_invD(1)[OF inv]])
  have inv2: "tcp_inv s2" by (rule tcp_inv_same[OF inv t]) (simp_all add: s2)
  have p2: "ts_pcb s2 p = Some x" using p by (simp add: s2)
  let ?f = "tcp_process_data seq data len (a, d)"
  have f: "tp_next (?f x) = tp_next x" "pcb_ok (?f x)" using received_ok[OF received_process tcp_invD(2)[OF inv p]] by simp_all
  obtain s3 where s3: "upd_tcp p ?f s2 = Some s3" "s3 = s2\<lparr>ts_pcb := (ts_pcb s2)(p \<mapsto> ?f x)\<rparr>" "tstep {} s2 s3" "tcp_inv s3" "ts_lock s3 = ts_lock s2"
    "ts_pcb s3 p = Some (?f x)" by (rule upd_tcp_inv[where f = ?f, OF inv2 p2 f])
  have run: "tcp_process p seq data len s = Some s3"
    using 1 2 p s3(1) unfolding tcp_process_def queue_def Let_def by simp
  show ?thesis by (rule that[OF run tstep_trans[OF t s3(3)] s3(4) _ s3(6)]) (use s3(2) p in \<open>auto simp: s2\<close>)
qed

lemma input_fin_ok: "pcb_ok x \<Longrightarrow> pcb_ok (input_fin now x) \<and> tp_next (input_fin now x) = tp_next x"
  by (auto simp: input_fin_def pcb_ok_def tcp_free_unacked_def Let_def split: tcp_state_t.splits)

lemma reset_block_ok:
  assumes "pcb_ok x"
  shows "tp_next (tcp_free_ooseq (tcp_free_unacked (x\<lparr>tp_state := TCP_CLOSED\<rparr>))) = tp_next x"
    "pcb_ok (tcp_free_ooseq (tcp_free_unacked (x\<lparr>tp_state := TCP_CLOSED\<rparr>)))"
  using assms by (simp_all add: pcb_ok_def tcp_free_ooseq_def tcp_free_unacked_def)

lemma established_fine:
  assumes c: "call_ok call" and inv: "tcp_inv s" and h: "held (ta_buf a) s" and p: "ts_pcb s p = Some x"
  shows "fine (ta_buf a) s (input_established call a p x s)"
proof (cases "has_flag (ta_flags a) TCP_FLAG_RST")
  case True
  have "fine (ta_buf a) s (do { s1 \<leftarrow> upd_tcp p (\<lambda>x. tcp_free_ooseq (tcp_free_unacked (x\<lparr>tp_state := TCP_CLOSED\<rparr>))) s;
        if tp_error_callback x \<noteq> 0 then input_call call a (Error_cb (tp_error_callback x) p (tp_callback_arg x)) s1
        else input_done a s1 })"
    by (rule upd_fine[OF inv h p]) (use reset_block_ok[OF tcp_invD(2)[OF inv p]] in \<open>simp_all add: call_fine[OF c] done_fine\<close>)
  then show ?thesis using True by (simp add: input_established_def)
next
  case False
  obtain s1 x1 where s1: "input_ack a p s = Some s1" "tstep {} s s1" "tcp_inv s1" "ts_lock s1 = ts_lock s" "ts_pcb s1 p = Some x1"
    "dom (ts_pcb s1) = dom (ts_pcb s)" by (rule input_ack_step[OF inv p])
  obtain s2 x2 where s2: "(if ta_data a \<noteq> [] then tcp_process p (ta_seq a) (ta_data a) (ta_data_len a) s1 else Some s1) = Some s2"
    "tstep {} s1 s2" "tcp_inv s2" "ts_pcb s2 p = Some x2" "dom (ts_pcb s2) = dom (ts_pcb s1)"
  proof (cases "ta_data a \<noteq> []")
    case True
    obtain t y where t: "tcp_process p (ta_seq a) (ta_data a) (ta_data_len a) s1 = Some t" "tstep {} s1 t" "tcp_inv t" "ts_lock t = ts_lock s1" "ts_pcb t p = Some y"
      "dom (ts_pcb t) = dom (ts_pcb s1)" by (rule tcp_process_step[OF s1(3,5)])
    show ?thesis by (rule that[of t y]) (use True t in auto)
  next
    case False
    show ?thesis by (rule that[of s1 x1]) (use False s1 tstep_refl[OF tcp_invD(1)[OF s1(3)]] in auto)
  qed
  have t2: "tstep {} s s2" by (rule tstep_trans[OF s1(2) s2(2)])
  have h2: "held (ta_buf a) s2" by (rule tstep_held[OF t2 h]) simp
  have d2: "dom (ts_pcb s2) = dom (ts_pcb s)" using s1(6) s2(5) by simp
  let ?moved = "ta_data a \<noteq> [] \<and> tp_rcv_nxt x2 \<noteq> tp_rcv_nxt x1"
  let ?early = "ta_data a \<noteq> [] \<and> TCP_SEQ_GT (ta_seq a) (tp_rcv_nxt x2)"
  let ?fin = "has_flag (ta_flags a) TCP_FLAG_FIN"
  have rst: "has_flag (ta_flags a) TCP_FLAG_RST = False" using False by simp
  have go: "input_established call a p x s = (if ?moved
        then do {
          (_, s3) \<leftarrow> tcp_send_segment p TCP_FLAG_ACK None 0 (tcp_lock_release s2);
          pcb3 \<leftarrow> ts_pcb s3 p;
          s4 \<leftarrow> (if tp_recv_callback pcb3 \<noteq> 0 then call (Recv_cb (tp_recv_callback pcb3) p (tp_callback_arg pcb3)) s3 else Some s3);
          netbuf_free (ta_buf a) s4 }
        else if ?early then input_answer a p TCP_FLAG_ACK s2
        else if ?fin then do { s3 \<leftarrow> upd_tcp p (input_fin (ns_now s2)) s2; input_answer a p TCP_FLAG_ACK s3 }
        else input_done a s2)"
    unfolding input_established_def rst if_False s1(1) bind.bind_lunit s1(5) s2(1) s2(4) ..
  have "fine (ta_buf a) s2 (input_established call a p x s)"
  proof -
    consider (moved) ?moved | (early) "\<not> ?moved" ?early | (fin) "\<not> ?moved" "\<not> ?early" ?fin | (rest) "\<not> ?moved" "\<not> ?early" "\<not> ?fin" by blast
    then show ?thesis
    proof cases
      case moved
      let ?s = "tcp_lock_release s2"
      have ok: "tcp_ok ?s" by (rule release_ok[OF s2(3)])
      have inv3: "tcp_inv ?s" using ok by (simp add: tcp_ok_def)
      have p3: "ts_pcb ?s p = Some x2" using s2(4) by simp
      obtain r s3 y where s3: "tcp_send_segment p TCP_FLAG_ACK None 0 ?s = Some (r, s3)" "tstep {} ?s s3" "tcp_inv s3" "ts_lock s3 = ts_lock ?s"
        "ts_pcb s3 p = Some y" "dom (ts_pcb s3) = dom (ts_pcb ?s)"
        by (rule tcp_send_segment_inv[OF inv3 p3 no_data])
      have ok3: "tcp_ok s3" using s3(3,4) ok by (simp add: tcp_ok_def)
      obtain s4 where s4: "(if tp_recv_callback y \<noteq> 0 then call (Recv_cb (tp_recv_callback y) p (tp_callback_arg y)) s3 else Some s3) = Some s4"
        "tstep {} s3 s4" "tcp_ok s4" "ts_pcb s4 = ts_pcb s3"
      proof (cases "tp_recv_callback y \<noteq> 0")
        case True
        obtain t where "call (Recv_cb (tp_recv_callback y) p (tp_callback_arg y)) s3 = Some t" "tstep {} s3 t" "tcp_ok t" "ts_pcb t = ts_pcb s3"
          by (rule call_step[OF c ok3])
        then show ?thesis using that True by simp
      next
        case False then show ?thesis using that[of s3] ok3 tstep_refl[OF tcp_invD(1)[OF s3(3)]] by simp
      qed
      have t: "tstep {} s2 s4" by (rule tstep_trans[OF release_step[OF s2(3)] tstep_trans[OF s3(2) s4(2)]])
      have "fine (ta_buf a) s4 (netbuf_free (ta_buf a) s4)" by (rule free_fine[OF s4(3) tstep_held[OF t h2]]) simp
      then have f: "fine (ta_buf a) s2 (netbuf_free (ta_buf a) s4)" by (rule fine_step[OF t, rotated]) (use s4(4) s3(6) in simp)
      have mv: "?moved = True" using moved by simp
      show ?thesis unfolding go mv if_True s3(1) bind.bind_lunit prod.case s3(5) s4(1) by (rule f)
    next
      case early
      have e: "?moved = False" "?early = True" using early by simp_all
      show ?thesis unfolding go e if_True if_False by (rule answer_fine[OF s2(3) h2 s2(4)])
    next
      case fin
      have e: "?moved = False" "?early = False" "?fin = True" using fin by simp_all
      have f: "tp_next (input_fin (ns_now s2) x2) = tp_next x2" "pcb_ok (input_fin (ns_now s2) x2)"
        using input_fin_ok[OF tcp_invD(2)[OF s2(3,4)]] by simp_all
      show ?thesis unfolding go e if_True if_False
        by (rule upd_fine[OF s2(3) h2 s2(4)]) (use f in \<open>simp_all add: answer_fine\<close>)
    next
      case rest
      have e: "?moved = False" "?early = False" "?fin = False" using rest by simp_all
      show ?thesis unfolding go e if_True if_False by (rule done_fine[OF s2(3) h2])
    qed
  qed
  then show ?thesis by (rule fine_step[OF t2 d2])
qed

lemma syn_sent_fine:
  assumes c: "call_ok call" and inv: "tcp_inv s" and h: "held (ta_buf a) s" and p: "ts_pcb s p = Some x"
  shows "fine (ta_buf a) s (input_syn_sent call a p x s)"
proof -
  have x: "pcb_ok x" by (rule tcp_invD(2)[OF inv p])
  let ?ack = "has_flag (ta_flags a) TCP_FLAG_ACK" and ?rst = "has_flag (ta_flags a) TCP_FLAG_RST" and ?syn = "has_flag (ta_flags a) TCP_FLAG_SYN"
  consider (bad) "?ack \<and> ta_ack a \<noteq> tp_snd_nxt x" ?rst | (bad2) "?ack \<and> ta_ack a \<noteq> tp_snd_nxt x" "\<not> ?rst"
    | (rst) "\<not> (?ack \<and> ta_ack a \<noteq> tp_snd_nxt x)" ?rst ?ack | (rst2) "\<not> (?ack \<and> ta_ack a \<noteq> tp_snd_nxt x)" ?rst "\<not> ?ack"
    | (syn) "\<not> (?ack \<and> ta_ack a \<noteq> tp_snd_nxt x)" "\<not> ?rst" ?syn | (rest) "\<not> (?ack \<and> ta_ack a \<noteq> tp_snd_nxt x)" "\<not> ?rst" "\<not> ?syn" by blast
  then show ?thesis
  proof cases
    case bad
    then have "input_syn_sent call a p x s = input_done a s" by (simp add: input_syn_sent_def)
    then show ?thesis using done_fine[OF inv h] by simp
  next
    case bad2
    then have "input_syn_sent call a p x s = do { s1 \<leftarrow> input_reset a s; input_done a s1 }" by (simp add: input_syn_sent_def)
    then show ?thesis using reset_fine[OF inv h] by simp
  next
    case rst
    have "fine (ta_buf a) s (do { s1 \<leftarrow> upd_tcp p (\<lambda>x. x\<lparr>tp_state := TCP_CLOSED\<rparr>) s;
             if tp_error_callback x \<noteq> 0 then input_call call a (Error_cb (tp_error_callback x) p (tp_callback_arg x)) s1 else input_done a s1 })"
      by (rule upd_fine[OF inv h p]) (use upd_state_ok[OF x] in \<open>simp_all add: call_fine[OF c] done_fine\<close>)
    then show ?thesis using rst by (simp add: input_syn_sent_def)
  next
    case rst2
    then have "input_syn_sent call a p x s = input_done a s" by (simp add: input_syn_sent_def)
    then show ?thesis using done_fine[OF inv h] by simp
  next
    case syn
    define una where "una = (if ?ack then ta_ack a else tp_snd_una x)"
    define est where "est = TCP_SEQ_GT una (tp_iss x)"
    have "fine (ta_buf a) s (do { s1 \<leftarrow> upd_tcp p (\<lambda>x. x\<lparr>tp_irs := ta_seq a, tp_rcv_nxt := ta_seq a + 1, tp_snd_una := una,
                           tp_state := if est then TCP_ESTABLISHED else TCP_SYN_RECEIVED\<rparr>) s;
        input_answer a p (if est then TCP_FLAG_ACK else TCP_FLAG_SYN OR TCP_FLAG_ACK) s1 })"
      by (rule upd_fine[OF inv h p]) (use x in \<open>simp_all add: pcb_ok_def answer_fine\<close>)
    moreover have "input_syn_sent call a p x s = do { s1 \<leftarrow> upd_tcp p (\<lambda>x. x\<lparr>tp_irs := ta_seq a, tp_rcv_nxt := ta_seq a + 1, tp_snd_una := una,
                           tp_state := if est then TCP_ESTABLISHED else TCP_SYN_RECEIVED\<rparr>) s;
        input_answer a p (if est then TCP_FLAG_ACK else TCP_FLAG_SYN OR TCP_FLAG_ACK) s1 }"
    proof -
      have e: "(?ack \<and> ta_ack a \<noteq> tp_snd_nxt x) = False" "?rst = False" "?syn = True" using syn by auto
      show ?thesis unfolding input_syn_sent_def Let_def una_def[symmetric] est_def[symmetric] e if_False if_True ..
    qed
    ultimately show ?thesis by simp
  next
    case rest
    then have "input_syn_sent call a p x s = input_done a s" by (auto simp: input_syn_sent_def)
    then show ?thesis using done_fine[OF inv h] by simp
  qed
qed

text \<open>No block has a listener to hand the connection to.\<close>

lemma syn_received_fine:
  assumes inv: "tcp_inv s" and h: "held (ta_buf a) s" and p: "ts_pcb s p = Some x"
  shows "fine (ta_buf a) s (input_syn_received call a p x s)"
proof -
  have x: "pcb_ok x" "tp_listen_pcb x = 0" using tcp_invD(2)[OF inv p] by (simp_all add: pcb_ok_def)
  let ?rst = "has_flag (ta_flags a) TCP_FLAG_RST" and ?est = "has_flag (ta_flags a) TCP_FLAG_ACK \<and> ta_ack a = tp_snd_nxt x"
  consider (rst) ?rst | (est) "\<not> ?rst" ?est | (rest) "\<not> ?rst" "\<not> ?est" by blast
  then show ?thesis
  proof cases
    case rst
    have "fine (ta_buf a) s (do { s1 \<leftarrow> upd_tcp p (\<lambda>x. x\<lparr>tp_state := TCP_CLOSED\<rparr>) s; input_done a s1 })"
      by (rule upd_fine[OF inv h p]) (use upd_state_ok[OF x(1)] in \<open>simp_all add: done_fine\<close>)
    then show ?thesis using rst by (simp add: input_syn_received_def)
  next
    case est
    have "fine (ta_buf a) s (do { s1 \<leftarrow> upd_tcp p (\<lambda>x. x\<lparr>tp_snd_una := ta_ack a, tp_state := TCP_ESTABLISHED\<rparr>) s; input_done a s1 })"
      by (rule upd_fine[OF inv h p]) (use x in \<open>simp_all add: done_fine pcb_ok_def\<close>)
    then show ?thesis using est x(2) by (simp add: input_syn_received_def Let_def)
  next
    case rest
    then have "input_syn_received call a p x s = input_done a s" by (auto simp: input_syn_received_def)
    then show ?thesis using done_fine[OF inv h] by simp
  qed
qed

lemma last_fine:
  assumes inv: "tcp_inv s" and h: "held (ta_buf a) s" and p: "ts_pcb s p = Some x" and st: "st \<noteq> TCP_LISTEN"
  shows "fine (ta_buf a) s (input_last st a p x s)"
proof -
  have "fine (ta_buf a) s (do { s1 \<leftarrow> upd_tcp p (\<lambda>x. x\<lparr>tp_state := st\<rparr>) s; input_done a s1 })"
    by (rule upd_fine[OF inv h p]) (use upd_state_ok[OF tcp_invD(2)[OF inv p] st] in \<open>simp_all add: done_fine\<close>)
  then show ?thesis using done_fine[OF inv h] by (simp add: input_last_def)
qed

text \<open>Memory for the three allocations of \<open>tcp_pcb_new\<close>.\<close>

definition pcb_memory :: "'a tcp_env_scheme \<Rightarrow> bool" where
  "pcb_memory s \<longleftrightarrow> (case ns_kmalloc s of p # rb # sb # _ \<Rightarrow> p \<noteq> 0 \<and> ts_pcb s p = None \<and> rb \<noteq> 0 \<and> sb \<noteq> 0 | _ \<Rightarrow> False)"

text \<open>With the lock held a new block never comes into being.\<close>

lemma tcp_pcb_new_locked:
  assumes "ts_lock s"
  shows "if pcb_memory s then tcp_pcb_new s = None else \<exists>ks. tcp_pcb_new s = Some (0, s\<lparr>ns_kmalloc := ks\<rparr>)"
proof -
  have k: "\<exists>ks. s = s\<lparr>ns_kmalloc := ks\<rparr>" by (rule exI[of _ "ns_kmalloc s"]) simp
  show ?thesis using assms k
    by (auto simp: tcp_pcb_new_def pcb_memory_def kmalloc_next_def tcp_lock_acquire_def Let_def split: list.splits if_splits)
qed

definition syn_only :: "u8 \<Rightarrow> bool" where
  "syn_only flags \<longleftrightarrow> \<not> has_flag flags TCP_FLAG_RST \<and> \<not> has_flag flags TCP_FLAG_ACK \<and> has_flag flags TCP_FLAG_SYN"

lemma listen_fine:
  assumes inv: "tcp_inv s" and l: "ts_lock s" and h: "held (ta_buf a) s" and p: "ts_pcb s p = Some x" and st: "tp_state x = TCP_LISTEN"
  shows "if syn_only (ta_flags a) \<and> pcb_memory s then input_listen a p x s = None else fine (ta_buf a) s (input_listen a p x s)"
proof -
  have room: "\<not> tp_pending_count x \<ge> tp_backlog x" using tcp_invD(2)[OF inv p] st by (simp add: pcb_ok_def)
  let ?ack = "has_flag (ta_flags a) TCP_FLAG_ACK" and ?rst = "has_flag (ta_flags a) TCP_FLAG_RST" and ?syn = "has_flag (ta_flags a) TCP_FLAG_SYN"
  consider (rst) ?rst | (ack) "\<not> ?rst" ?ack | (hang) "syn_only (ta_flags a)" "pcb_memory s" | (mem) "syn_only (ta_flags a)" "\<not> pcb_memory s"
    | (rest) "\<not> ?rst" "\<not> ?ack" "\<not> ?syn" by (auto simp: syn_only_def)
  then show ?thesis
  proof cases
    case rst
    then show ?thesis using done_fine[OF inv h] by (simp add: input_listen_def syn_only_def)
  next
    case ack
    then show ?thesis using reset_fine[OF inv h] by (simp add: input_listen_def syn_only_def)
  next
    case hang
    then show ?thesis using tcp_pcb_new_locked[OF l] room by (simp add: input_listen_def syn_only_def)
  next
    case mem
    obtain ks where n: "tcp_pcb_new s = Some (0, s\<lparr>ns_kmalloc := ks\<rparr>)" using tcp_pcb_new_locked[OF l] mem by auto
    let ?s = "s\<lparr>ns_kmalloc := ks\<rparr>"
    have t: "tstep {} s ?s" by (rule tstep_kmalloc[OF tcp_invD(1)[OF inv]])
    have i: "tcp_inv ?s" by (rule tcp_inv_same[OF inv t]) simp_all
    have "fine (ta_buf a) ?s (input_done a ?s)" by (rule done_fine[OF i tstep_held[OF t h]]) simp
    then have "fine (ta_buf a) s (input_done a ?s)" by (rule fine_step[OF t, rotated]) simp
    moreover have "input_listen a p x s = input_done a ?s"
      using mem room n by (simp add: input_listen_def syn_only_def)
    ultimately show ?thesis using mem by simp
  next
    case rest
    then show ?thesis using done_fine[OF inv h] by (simp add: input_listen_def syn_only_def)
  qed
qed

text \<open>The connection request that is never answered.\<close>

definition hangs :: "tcp_arrival \<Rightarrow> 'a tcp_env_scheme \<Rightarrow> bool" where
  "hangs a s \<longleftrightarrow> syn_only (ta_flags a) \<and> pcb_memory s
     \<and> (case tcp_find_pcb (ta_dst_ip a) (ta_dst_port a) (ta_src_ip a) (ta_src_port a) s of
          None \<Rightarrow> False | Some p \<Rightarrow> (case ts_pcb s p of None \<Rightarrow> False | Some x \<Rightarrow> tp_state x = TCP_LISTEN))"

lemma input_locked_fine:
  assumes c: "call_ok call" and ok: "tcp_ok s" and h: "held (ta_buf a) s"
  shows "if hangs a s then input_locked call a s = None else fine (ta_buf a) s (input_locked call a s)"
proof -
  let ?s = "s\<lparr>ts_lock := True\<rparr>"
  have inv: "tcp_inv s" and free: "\<not> ts_lock s" using ok by (simp_all add: tcp_ok_def)
  have inv1: "tcp_inv ?s" using inv by (simp add: tcp_inv_lock)
  have t: "tstep {} s ?s" by (rule tstep_fields(4)[OF tcp_invD(1)[OF inv]])
  have h1: "held (ta_buf a) ?s" by (rule tstep_held[OF t h]) simp
  have fs: "fine (ta_buf a) s r" if "fine (ta_buf a) ?s r" for r by (rule fine_step[OF t _ that]) simp
  obtain q where q: "tcp_find_pcb (ta_dst_ip a) (ta_dst_port a) (ta_src_ip a) (ta_src_port a) ?s = Some q" "q = 0 \<or> ts_pcb ?s q \<noteq> None"
    by (rule tcp_find_pcb_total[OF inv1])
  have qs: "tcp_find_pcb (ta_dst_ip a) (ta_dst_port a) (ta_src_ip a) (ta_src_port a) s = Some q" using q(1) by (simp add: tcp_find_pcb_def cong: if_cong)
  have mem: "pcb_memory ?s = pcb_memory s" by (simp add: pcb_memory_def split: list.splits)
  show ?thesis
  proof (cases "q = 0")
    case True
    have "ts_pcb s q = None" using True tcp_invD(5)[OF inv] by simp
    then have nh: "\<not> hangs a s" by (simp add: hangs_def qs)
    have "input_locked call a s = input_no_pcb a ?s" using free q(1) True by (simp add: input_locked_def tcp_lock_acquire_def)
    then show ?thesis using fs[OF no_pcb_fine[OF inv1 h1]] nh by simp
  next
    case q0: False
    then obtain x where x: "ts_pcb ?s q = Some x" using q(2) by auto
    have go: "input_locked call a s = input_state call a q x ?s" using free q(1) q0 x by (simp add: input_locked_def tcp_lock_acquire_def)
    have hg: "hangs a s \<longleftrightarrow> syn_only (ta_flags a) \<and> pcb_memory s \<and> tp_state x = TCP_LISTEN" using qs x by (simp add: hangs_def)
    show ?thesis
    proof (cases "tp_state x = TCP_LISTEN")
      case True
      have "ts_lock ?s" by simp
      from listen_fine[OF inv1 this h1 x True] show ?thesis
        unfolding go input_state_def hg mem using True fs by (auto split: if_splits)
    next
      case False
      have "fine (ta_buf a) ?s (input_state call a q x ?s)"
        using False established_fine[OF c inv1 h1 x] syn_sent_fine[OF c inv1 h1 x] syn_received_fine[OF inv1 h1 x] last_fine[OF inv1 h1 x] done_fine[OF inv1 h1]
        unfolding input_state_def by (simp split: tcp_state_t.splits)
      then show ?thesis unfolding go hg using False fs by simp
    qed
  qed
qed

section \<open>From the buffer to the handlers\<close>

abbreviation hdr_of :: "u8 list \<Rightarrow> nat" where "hdr_of pay \<equiv> unat (tcp_header_len (tcp_header_of pay))"

definition seg_good :: "u32 \<Rightarrow> u32 \<Rightarrow> u8 list \<Rightarrow> bool" where
  "seg_good src dst pay \<longleftrightarrow> 20 \<le> length pay \<and> 20 \<le> hdr_of pay \<and> hdr_of pay \<le> length pay
     \<and> tcp_checksum src dst (overwrite 16 (bytes16 0) pay) (of_nat (length pay)) = th_checksum (tcp_header_of pay)"

definition arrival :: "u32 \<Rightarrow> u32 \<Rightarrow> u32 \<Rightarrow> u8 list \<Rightarrow> tcp_arrival" where
  "arrival b src dst pay = arrival_of b src dst (tcp_header_of pay) (drop (hdr_of pay) pay)"

lemma nb_write_kmalloc: "nb_write b p bs s = Some s' \<Longrightarrow> ns_kmalloc s' = ns_kmalloc s"
  by (auto simp: nb_write_def block_write_def bind_eq_Some_conv split: if_splits)

lemma upd_buf_kmalloc: "upd_buf b f s = Some s' \<Longrightarrow> ns_kmalloc s' = ns_kmalloc s"
  by (auto simp: upd_buf_def bind_eq_Some_conv)

lemma tcp_header_of_take: "20 \<le> length pay \<Longrightarrow> tcp_header_of (take 20 pay) = tcp_header_of pay"
  by (simp add: tcp_header_of_def)

lemma overwrite_same:
  assumes "i + 2 \<le> length m" "v = le16 (m ! i) (m ! Suc i)"
  shows "overwrite i (bytes16 v) m = m"
proof -
  have "drop i m = m ! i # m ! Suc i # drop (Suc (Suc i)) m" using assms(1) by (simp add: Cons_nth_drop_Suc)
  then have "m = take i m @ m ! i # m ! Suc i # drop (Suc (Suc i)) m" by (metis append_take_drop_id)
  then show ?thesis by (simp add: overwrite_def assms(2) bytes16_le16)
qed

lemma unat_ucast_u8: "unat (ucast (x :: u8) :: u32) = unat x"
proof -
  have "unat x < 2 ^ LENGTH(8)" by (rule unsigned_less)
  then show ?thesis by (simp add: unsigned_ucast_eq take_bit_eq_mod)
qed

lemma buf_tstep:
  fixes s :: "'a tcp_env_scheme"
  assumes ok: "tcp_ok s" and h: "held b s" and st: "buf_step b c s s'"
  shows "tstep {b} s s'" "held b s'" "udp_env.more s' = udp_env.more s" "tcp_ok s'" "ds_wire s' = ds_wire s"
proof -
  have inv: "tcp_inv s" using ok by (simp add: tcp_ok_def)
  note u = udp_buf_step[OF tcp_invD(1)[OF inv] h st]
  show t: "tstep {b} s s'" using u by (simp add: tstep_def)
  show "held b s'" "udp_env.more s' = udp_env.more s" "ds_wire s' = ds_wire s" using u by simp_all
  then show "tcp_ok s'" using tcp_inv_more[OF inv t] more_tcp[of s' s] ok by (simp add: tcp_ok_def)
qed

lemma fine_buf: "tstep {b} s s1 \<Longrightarrow> udp_env.more s1 = udp_env.more s \<Longrightarrow> fine b s1 r \<Longrightarrow> fine b s r"
  unfolding fine_def using tstep_trans[of "{b}" s s1] more_tcp(1)[of s1 s] by auto

text \<open>A segment that is thrown away leaves the blocks and the wire alone.\<close>

definition dropped :: "u32 \<Rightarrow> 'a tcp_env_scheme \<Rightarrow> 'a tcp_env_scheme option \<Rightarrow> bool" where
  "dropped b s r \<longleftrightarrow> fine b s r \<and> (\<exists>s'. r = Some s' \<and> udp_env.more s' = udp_env.more s \<and> ds_wire s' = ds_wire s)"

lemma free_dropped:
  fixes s :: "'a tcp_env_scheme"
  assumes "tcp_ok s" "held b s"
  shows "dropped b s (netbuf_free b s)"
proof -
  have "udp_ok s" using assms(1) by (simp add: tcp_ok_def tcp_invD(1))
  from udp_release[OF this assms(2)] free_fine[OF assms] show ?thesis unfolding dropped_def by metis
qed

lemma dropped_buf:
  "tstep {b} s s1 \<Longrightarrow> udp_env.more s1 = udp_env.more s \<Longrightarrow> ds_wire s1 = ds_wire s \<Longrightarrow> dropped b s1 r \<Longrightarrow> dropped b s r"
  unfolding dropped_def using fine_buf[of b s s1 r] by auto

lemma tcp_input_cases:
  fixes s :: "'a tcp_env_scheme"
  assumes ok: "tcp_ok s" and h: "held b s" and c: "contents s b = Some (pre, pay, post)" and dv: "dev \<noteq> 0"
  obtains (bad) "\<not> seg_good src dst pay" "dropped b s (tcp_input call dev b src dst s)"
  | (good) s3 where "seg_good src dst pay" "tcp_input call dev b src dst s = input_locked call (arrival b src dst pay) s3"
      "tstep {b} s s3" "tcp_ok s3" "held b s3" "udp_env.more s3 = udp_env.more s" "ns_kmalloc s3 = ns_kmalloc s"
      "same_env s s3" "contents s3 b = Some (pre, pay, post)"
proof -
  have inv: "tcp_inv s" using ok by (simp add: tcp_ok_def)
  have nok: "net_ok s" by (rule arp_okD(2)[OF udp_okD(1)[OF tcp_invD(1)[OF inv]]])
  have b0: "b \<noteq> 0" using h by (simp add: held_def owned_def)
  obtain buf where bf: "ns_bufs s b = Some buf" "nb_len buf = of_nat (length pay)" "length pre + length pay + length post \<le> 2048"
    by (rule contentsD[OF nok c])
  have ul: "unat (nb_len buf) = length pay" using bf(2,3) by (simp add: unat_of_nat_u32)
  have u16: "unat (ucast (nb_len buf) :: u16) = length pay" "(ucast (nb_len buf) :: u16) = of_nat (length pay)"
  proof -
    show 1: "unat (ucast (nb_len buf) :: u16) = length pay" using ul bf(3) by (simp add: unsigned_ucast_eq take_bit_eq_mod)
    show "(ucast (nb_len buf) :: u16) = of_nat (length pay)" unfolding word_unat_eq_iff 1 unat_of_nat using bf(3) by simp
  qed
  have short: "nb_len buf < 20 \<longleftrightarrow> length pay < 20" using ul by (simp add: word_less_nat_alt)
  let ?f = "\<lambda>x. x\<lparr>nb_transport_header := nb_data x\<rparr>"
  obtain s1 where s1: "upd_buf b ?f s = Some s1" "buf_step b (pre, pay, post) s s1" "ns_bufs s1 b = Some (?f buf)"
    by (rule upd_buf_meta[OF nok c bf(1), of ?f]) simp_all
  have c1: "net_ok s1" "contents s1 b = Some (pre, pay, post)" using s1(2) by (simp_all add: buf_step_def)
  note t1 = buf_tstep[OF ok h s1(2)]
  show ?thesis
  proof (cases "length pay < 20")
    case True
    have "tcp_input call dev b src dst s = netbuf_free b s" using True dv b0 bf(1) short by (simp add: tcp_input_def)
    then show ?thesis by (intro bad) (use True free_dropped[OF ok h] in \<open>auto simp: seg_good_def\<close>)
  next
    case ge: False
    have hb: "nb_read s1 b (nb_data buf) 20 = Some (take 20 pay)" using nb_read_data[OF c1 s1(3), of 0 20] ge by simp
    have hh: "tcp_header_of (take 20 pay) = tcp_header_of pay" by (rule tcp_header_of_take) (use ge in simp)
    let ?hl = "tcp_header_len (tcp_header_of pay)" and ?ck = "th_checksum (tcp_header_of pay)"
    have badlen: "(?hl < 20 \<or> ucast ?hl > nb_len buf) \<longleftrightarrow> hdr_of pay < 20 \<or> length pay < hdr_of pay"
    proof -
      have "unat (ucast ?hl :: u32) = unat ?hl" by (rule unat_ucast_u8)
      then show ?thesis using ul by (simp add: word_less_nat_alt)
    qed
    show ?thesis
    proof (cases "hdr_of pay < 20 \<or> length pay < hdr_of pay")
      case True
      have bl: "(?hl < 20 \<or> ucast ?hl > nb_len buf) = True" using badlen True by simp
      have nsh: "(nb_len buf < 20) = False" using short ge by simp
      have "tcp_input call dev b src dst s = netbuf_free b s1"
        unfolding tcp_input_def Let_def using dv b0 by (simp only: bf(1) nsh s1(1) hb hh bl bind.bind_lunit simp_thms if_True if_False)
      then show ?thesis by (intro bad) (use True dropped_buf[OF t1(1,3,5) free_dropped[OF t1(4,2)]] in \<open>auto simp: seg_good_def\<close>)
    next
      case lenok: False
      have k: "16 + length (bytes16 v) \<le> length pay" for v using ge by simp
      obtain s2 where s2: "nb_write b (nb_data (?f buf) + of_nat 16) (bytes16 0) s1 = Some s2"
        "buf_step b (pre, overwrite 16 (bytes16 0) pay, post) s1 s2" "ns_bufs s2 = ns_bufs s1"
        by (rule nb_write_data[OF c1 s1(3) k])
      let ?p1 = "overwrite 16 (bytes16 0) pay"
      have l1: "length ?p1 = length pay" using k by simp
      have c2: "net_ok s2" "contents s2 b = Some (pre, ?p1, post)" "ns_bufs s2 b = Some (?f buf)"
        using s2(2,3) s1(3) by (simp_all add: buf_step_def)
      have rd: "nb_read s2 b (nb_data buf) (unat (ucast (nb_len buf) :: u16)) = Some ?p1"
        using nb_read_data[OF c2, of 0 "length pay"] l1 u16(1) by simp
      note t2 = buf_tstep[OF t1(4,2) s2(2)]
      have t12: "tstep {b} s s2" "udp_env.more s2 = udp_env.more s" "ds_wire s2 = ds_wire s"
        using tstep_trans[OF t1(1) t2(1)] t1(3,5) t2(3,5) by simp_all
      have bl: "(?hl < 20 \<or> ucast ?hl > nb_len buf) = False" using badlen lenok by simp
      have nsh: "(nb_len buf < 20) = False" using short ge by simp
      have w1: "nb_write b (nb_data buf + 16) (bytes16 0) s1 = Some s2" using s2(1) by simp
      have go: "tcp_input call dev b src dst s =
          (if tcp_checksum src dst ?p1 (of_nat (length pay)) \<noteq> ?ck then netbuf_free b s2
            else do {
              s3 \<leftarrow> nb_write b (nb_data buf + 16) (bytes16 ?ck) s2;
              data \<leftarrow> nb_read s3 b (nb_data buf + ucast ?hl) (unat (nb_len buf - ucast ?hl));
              input_locked call (arrival_of b src dst (tcp_header_of pay) data) s3 })"
        unfolding tcp_input_def Let_def using dv b0
        by (simp only: bf(1) nsh s1(1) hb hh bl w1 rd[unfolded u16(2)] u16(2) bind.bind_lunit simp_thms if_True if_False)
      show ?thesis
      proof (cases "tcp_checksum src dst ?p1 (of_nat (length pay)) = ?ck")
        case False
        then have "tcp_input call dev b src dst s = netbuf_free b s2" unfolding go by simp
        then show ?thesis by (intro bad) (use False dropped_buf[OF t12 free_dropped[OF t2(4,2)]] in \<open>auto simp: seg_good_def\<close>)
      next
        case ck: True
        have k1: "16 + length (bytes16 ?ck) \<le> length ?p1" using k l1 by simp
        obtain s3 where s3: "nb_write b (nb_data (?f buf) + of_nat 16) (bytes16 ?ck) s2 = Some s3"
          "buf_step b (pre, overwrite 16 (bytes16 ?ck) ?p1, post) s2 s3" "ns_bufs s3 = ns_bufs s2"
          by (rule nb_write_data[OF c2 k1])
        have orig: "?ck = le16 (pay ! 16) (pay ! Suc 16)" by (simp add: tcp_header_of_def)
        have restored: "overwrite 16 (bytes16 ?ck) ?p1 = pay"
          using overwrite_overwrite[of "bytes16 0" "bytes16 ?ck" 16 pay] overwrite_same[of 16 pay ?ck] orig k ge by simp
        have c3: "net_ok s3" "contents s3 b = Some (pre, pay, post)" "ns_bufs s3 b = Some (?f buf)"
          using s3(2,3) c2(3) restored by (simp_all add: buf_step_def)
        have hl: "unat (ucast ?hl :: u32) = hdr_of pay" by (rule unat_ucast_u8)
        have le: "ucast ?hl \<le> nb_len buf" using hl ul lenok by (simp add: word_le_nat_alt)
        have dn: "unat (nb_len buf - ucast ?hl) = length pay - hdr_of pay" using unat_sub[OF le] ul hl by simp
        have e: "nb_data buf + ucast ?hl = nb_data (?f buf) + of_nat (hdr_of pay)" using hl of_nat_unat_u32[of "ucast ?hl"] by simp
        have rd3: "nb_read s3 b (nb_data buf + ucast ?hl) (unat (nb_len buf - ucast ?hl)) = Some (drop (hdr_of pay) pay)"
          unfolding dn e using nb_read_data[OF c3, of "hdr_of pay" "length pay - hdr_of pay"] lenok by simp
        note t3 = buf_tstep[OF t2(4,2) s3(2)]
        have run: "tcp_input call dev b src dst s = input_locked call (arrival b src dst pay) s3"
          unfolding go arrival_def using ck s3(1) rd3 by simp
        show ?thesis
          by (rule good[OF _ run tstep_trans[OF t12(1) t3(1)] t3(4,2)])
            (use ck lenok ge t12(2) t3(3) nb_write_kmalloc[OF s3(1)] nb_write_kmalloc[OF s2(1)] upd_buf_kmalloc[OF s1(1)] c3(2)
              same_env_trans[OF same_env_trans] s1(2) s2(2) s3(2) in \<open>auto simp: seg_good_def buf_step_def\<close>)
      qed
    qed
  qed
qed

section \<open>The timer\<close>

definition same_links :: "'a tcp_env_scheme \<Rightarrow> 'a tcp_env_scheme \<Rightarrow> bool" where
  "same_links s s' \<longleftrightarrow> (\<forall>q. map_option tp_next (ts_pcb s' q) = map_option tp_next (ts_pcb s q))"

lemma same_links_trans: "same_links s s' \<Longrightarrow> same_links s' s'' \<Longrightarrow> same_links s s''"
  by (simp add: same_links_def)

lemma same_links_dom: "same_links s s' \<Longrightarrow> dom (ts_pcb s') = dom (ts_pcb s)"
  unfolding same_links_def dom_def by (metis map_option_is_None)

lemma timer_backoff_ok:
  assumes "pcb_ok x"
  shows "pcb_ok (timer_backoff now x) \<and> tp_next (timer_backoff now x) = tp_next x"
  using assms halved_bound(1)[of x] by (auto simp: timer_backoff_def pcb_ok_def seg_ok_def Let_def split: list.splits)

lemma timer_time_wait_ok:
  assumes "pcb_ok x"
  shows "pcb_ok (timer_time_wait now x) \<and> tp_next (timer_time_wait now x) = tp_next x"
  using assms by (auto simp: timer_time_wait_def pcb_ok_def)

lemma timer_retransmit_step:
  fixes s :: "'a tcp_env_scheme"
  assumes c: "call_ok call" and inv: "tcp_inv s" and l: "ts_lock s" and p: "ts_pcb s p = Some x"
  obtains s' where "timer_retransmit call now p s = Some s'" "tstep {} s s'" "tcp_inv s'" "ts_lock s'" "same_links s s'"
proof -
  have x: "pcb_ok x" by (rule tcp_invD(2)[OF inv p])
  let ?due = "tp_timer_retransmit x \<noteq> 0 \<and> now \<ge> tp_timer_retransmit x"
  have un: "tcp_inv (s\<lparr>ts_lock := b\<rparr>)" if "tcp_inv s" for b and s :: "'a tcp_env_scheme" using that by (simp add: tcp_inv_lock)
  show ?thesis
  proof (cases "\<not> ?due \<or> tp_unacked x = []")
    case True
    then have "timer_retransmit call now p s = Some s" using p by (auto simp: timer_retransmit_def)
    then show ?thesis by (rule that) (use inv l tstep_refl[OF tcp_invD(1)[OF inv]] in \<open>simp_all add: same_links_def\<close>)
  next
    case False
    then obtain seg segs where seg: "tp_unacked x = seg # segs" and due: ?due by (cases "tp_unacked x") auto
    show ?thesis
    proof (cases "sg_retries seg \<ge> TCP_MAX_RETRIES")
      case True
      let ?f = "\<lambda>x. tcp_free_ooseq (tcp_free_unacked (x\<lparr>tp_state := TCP_CLOSED\<rparr>))"
      obtain s1 where s1: "upd_tcp p ?f s = Some s1" "s1 = s\<lparr>ts_pcb := (ts_pcb s)(p \<mapsto> ?f x)\<rparr>" "tstep {} s s1" "tcp_inv s1" "ts_lock s1 = ts_lock s"
        by (rule upd_tcp_inv[where f = ?f, OF inv p reset_block_ok[OF x]])
      have ln: "same_links s s1" using s1(2) p reset_block_ok(1)[OF x] by (simp add: same_links_def)
      show ?thesis
      proof (cases "tp_error_callback x \<noteq> 0")
        case cb: True
        obtain s2 where s2: "call (Error_cb (tp_error_callback x) p (tp_callback_arg x)) (tcp_lock_release s1) = Some s2"
          "tstep {} (tcp_lock_release s1) s2" "tcp_ok s2" "ts_pcb s2 = ts_pcb (tcp_lock_release s1)"
          by (rule call_step[OF c release_ok[OF s1(4)]])
        let ?s = "s2\<lparr>ts_lock := True\<rparr>"
        have inv2: "tcp_inv s2" using s2(3) by (simp add: tcp_ok_def)
        have e: "(tp_error_callback x \<noteq> 0) = True" "(sg_retries seg \<ge> TCP_MAX_RETRIES) = True" "?due = True" using True cb due by simp_all
        have aq: "tcp_lock_acquire s2 = Some ?s" using s2(3) by (simp add: tcp_ok_def tcp_lock_acquire_def)
        have run: "timer_retransmit call now p s = Some ?s"
          unfolding timer_retransmit_def p bind.bind_lunit seg list.case e if_True s1(1) s2(1) aq ..
        have t: "tstep {} s ?s"
          by (rule tstep_trans[OF s1(3) tstep_trans[OF release_step[OF s1(4)] tstep_trans[OF s2(2) tstep_fields(4)[OF tcp_invD(1)[OF inv2]]]]])
        show ?thesis by (rule that[OF run t un[OF inv2]]) (use ln s2(4) in \<open>simp_all add: same_links_def\<close>)
      next
        case cb: False
        have e: "(tp_error_callback x \<noteq> 0) = False" "(sg_retries seg \<ge> TCP_MAX_RETRIES) = True" "?due = True" using True cb due by simp_all
        have run: "timer_retransmit call now p s = Some s1"
          unfolding timer_retransmit_def p bind.bind_lunit seg list.case e if_True if_False s1(1) ..
        show ?thesis by (rule that[OF run s1(3,4) _ ln]) (use s1(5) l in simp)
      qed
    next
      case False
      let ?s = "tcp_lock_release s"
      have ok: "tcp_ok ?s" by (rule release_ok[OF inv])
      have inv1: "tcp_inv ?s" using ok by (simp add: tcp_ok_def)
      have g: "seg_ok seg" using x seg by (simp add: pcb_ok_def)
      have p1: "ts_pcb ?s p = Some x" using p by simp
      obtain s1 where s1: "tcp_resend p seg ?s = Some s1" "tstep {} ?s s1" "udp_env.more s1 = udp_env.more ?s"
        by (rule tcp_resend_step[OF tcp_invD(1)[OF inv1] p1 g])
      note m = more_tcp[OF s1(3)]
      have inv2: "tcp_inv s1" by (rule tcp_inv_more[OF inv1 s1(2,3)])
      let ?s2 = "s1\<lparr>ts_lock := True\<rparr>"
      have aq: "tcp_lock_acquire s1 = Some ?s2" using m(4) ok by (simp add: tcp_lock_acquire_def tcp_ok_def)
      have inv3: "tcp_inv ?s2" by (rule un[OF inv2])
      have p2: "ts_pcb ?s2 p = Some x" using m(1) p1 by simp
      let ?f = "timer_backoff now"
      have f: "tp_next (?f x) = tp_next x" "pcb_ok (?f x)" using timer_backoff_ok[OF x] by simp_all
      obtain s3 where s3: "upd_tcp p ?f ?s2 = Some s3" "s3 = ?s2\<lparr>ts_pcb := (ts_pcb ?s2)(p \<mapsto> ?f x)\<rparr>" "tstep {} ?s2 s3" "tcp_inv s3" "ts_lock s3 = ts_lock ?s2"
        by (rule upd_tcp_inv[where f = ?f, OF inv3 p2 f])
      have e: "(sg_retries seg \<ge> TCP_MAX_RETRIES) = False" "?due = True" using False due by simp_all
      have run: "timer_retransmit call now p s = Some s3"
        unfolding timer_retransmit_def p bind.bind_lunit seg list.case e if_True if_False s1(1) aq s3(1) ..
      have t: "tstep {} s s3"
        by (rule tstep_trans[OF release_step[OF inv] tstep_trans[OF s1(2) tstep_trans[OF tstep_fields(4)[OF tcp_invD(1)[OF inv2]] s3(3)]]])
      have ln: "same_links s s3" using s3(2) m(1) p f(1) by (simp add: same_links_def)
      show ?thesis by (rule that[OF run t s3(4) _ ln]) (use s3(5) in simp)
    qed
  qed
qed

lemma timer_loop_total:
  assumes c: "call_ok call"
  shows "tcp_inv s \<Longrightarrow> ts_lock s \<Longrightarrow> chain (ts_pcb s) q qs \<Longrightarrow>
    \<exists>s'. timer_loop call now q s = Some s' \<and> tstep {} s s' \<and> tcp_inv s' \<and> same_links s s'"
proof (induction qs arbitrary: q s)
  case Nil
  then show ?case using tstep_refl[OF tcp_invD(1)] by (subst timer_loop.simps) (auto simp: same_links_def)
next
  case (Cons p qs)
  obtain x where x: "q = p" "p \<noteq> 0" "ts_pcb s p = Some x" "chain (ts_pcb s) (tp_next x) qs" using Cons.prems(3) by auto
  obtain s1 where s1: "timer_retransmit call now p s = Some s1" "tstep {} s s1" "tcp_inv s1" "ts_lock s1" "same_links s s1"
    by (rule timer_retransmit_step[OF c Cons.prems(1,2) x(3)])
  have "map_option tp_next (ts_pcb s1 p) = Some (tp_next x)" using s1(5) x(3) by (simp add: same_links_def)
  then obtain y where y: "ts_pcb s1 p = Some y" by auto
  let ?f = "timer_time_wait now"
  have f: "tp_next (?f y) = tp_next y" "pcb_ok (?f y)" using timer_time_wait_ok[OF tcp_invD(2)[OF s1(3) y]] by simp_all
  obtain s2 where s2: "upd_tcp p ?f s1 = Some s2" "s2 = s1\<lparr>ts_pcb := (ts_pcb s1)(p \<mapsto> ?f y)\<rparr>" "tstep {} s1 s2" "tcp_inv s2" "ts_lock s2 = ts_lock s1"
    by (rule upd_tcp_inv[where f = ?f, OF s1(3) y f])
  have "same_links s1 s2" using s2(2) y f(1) by (simp add: same_links_def)
  then have ln2: "same_links s s2" by (rule same_links_trans[OF s1(5)])
  have ch: "chain (ts_pcb s2) (tp_next x) qs" by (rule pcb_chain_cong[OF x(4)]) (use ln2 in \<open>simp add: same_links_def\<close>)
  have l2: "ts_lock s2" using s2(5) s1(4) by simp
  obtain s3 where s3: "timer_loop call now (tp_next x) s2 = Some s3" "tstep {} s2 s3" "tcp_inv s3" "same_links s2 s3"
    using Cons.IH[OF s2(4) l2 ch] by blast
  have "timer_loop call now q s = Some s3" using x(1-3) s1(1) s2(1) s3(1) by (subst timer_loop.simps) simp
  then show ?case using tstep_trans[OF s1(2) tstep_trans[OF s2(3) s3(2)]] s3(3) same_links_trans[OF ln2 s3(4)] by blast
qed

lemma tcp_timer_step:
  fixes s :: "'a tcp_env_scheme"
  assumes c: "call_ok call" and ok: "tcp_ok s"
  obtains s' where "tcp_timer call s = Some s'" "tcp_ok s'" "tstep {} s s'" "dom (ts_pcb s') = dom (ts_pcb s)"
proof -
  have inv: "tcp_inv s" and free: "\<not> ts_lock s" using ok by (simp_all add: tcp_ok_def)
  let ?s = "s\<lparr>ts_lock := True\<rparr>"
  have inv1: "tcp_inv ?s" using inv by (simp add: tcp_inv_lock)
  obtain ps ls where l: "chain (ts_pcb s) (ts_pcbs s) ps" by (rule tcp_inv_lists[OF inv])
  have ch: "chain (ts_pcb ?s) (ts_pcbs ?s) ps" using l by simp
  obtain s1 where s1: "timer_loop call (ns_now s) (ts_pcbs ?s) ?s = Some s1" "tstep {} ?s s1" "tcp_inv s1" "same_links ?s s1"
    using timer_loop_total[OF c inv1 _ ch, of "ns_now s"] by auto
  have run: "tcp_timer call s = Some (tcp_lock_release s1)" using free s1(1) by (simp add: tcp_timer_def tcp_lock_acquire_def)
  have t: "tstep {} s (tcp_lock_release s1)"
    by (rule tstep_trans[OF tstep_fields(4)[OF tcp_invD(1)[OF inv]] tstep_trans[OF s1(2) release_step[OF s1(3)]]])
  show ?thesis by (rule that[OF run release_ok[OF s1(3)] t]) (use same_links_dom[OF s1(4)] in simp)
qed

section \<open>All operations\<close>

datatype tcp_op = Tcp_new | Tcp_free u32 | Tcp_bind u32 u32 u16 | Tcp_listen u32 int | Tcp_connect u32 u32 u16 | Tcp_accept u32
  | Tcp_write u32 "u8 list" | Tcp_read u32 u32 | Tcp_close u32 | Tcp_abort u32 | Tcp_timer | Tcp_input u32 u32 u32 u32

primrec tcp_run :: "(tcp_callback \<Rightarrow> 'a tcp_env_scheme \<Rightarrow> 'a tcp_env_scheme option) \<Rightarrow> tcp_op \<Rightarrow> 'a tcp_env_scheme \<Rightarrow> 'a tcp_env_scheme option" where
  "tcp_run call Tcp_new s = map_option snd (tcp_pcb_new s)"
| "tcp_run call (Tcp_free p) s = tcp_pcb_free p s"
| "tcp_run call (Tcp_bind p ip port) s = map_option snd (tcp_bind p ip port s)"
| "tcp_run call (Tcp_listen p n) s = map_option snd (tcp_listen p n s)"
| "tcp_run call (Tcp_connect p ip port) s = map_option snd (tcp_connect p ip port s)"
| "tcp_run call (Tcp_accept p) s = map_option snd (tcp_accept p s)"
| "tcp_run call (Tcp_write p data) s = map_option snd (tcp_write p (Some data) (of_nat (length data)) s)"
| "tcp_run call (Tcp_read p len) s = map_option (snd \<circ> snd) (tcp_read p len s)"
| "tcp_run call (Tcp_close p) s = map_option snd (tcp_close p s)"
| "tcp_run call (Tcp_abort p) s = tcp_abort p s"
| "tcp_run call Tcp_timer s = tcp_timer call s"
| "tcp_run call (Tcp_input dev b src dst) s = tcp_input call dev b src dst s"

text \<open>A call with valid pointers, a block that exists and a received buffer nobody else holds, that keeps clear of two defects: a block starts to
  listen only if it is not in the list of listeners, and a write does not take the length of the send buffer past 4 GB.  The system calls check
  neither: \<^verbatim>\<open>listen\<close>, \<^verbatim>\<open>shutdown\<close> and \<^verbatim>\<open>listen\<close> on one socket list it twice.\<close>

primrec tcp_callable :: "tcp_op \<Rightarrow> 'a tcp_env_scheme \<Rightarrow> bool" where
  "tcp_callable Tcp_new s \<longleftrightarrow> True"
| "tcp_callable (Tcp_free p) s \<longleftrightarrow> ts_pcb s p \<noteq> None"
| "tcp_callable (Tcp_bind p ip port) s \<longleftrightarrow> ts_pcb s p \<noteq> None"
| "tcp_callable (Tcp_listen p n) s \<longleftrightarrow> ts_pcb s p \<noteq> None \<and> \<not> listening s p"
| "tcp_callable (Tcp_connect p ip port) s \<longleftrightarrow> ts_pcb s p \<noteq> None"
| "tcp_callable (Tcp_accept p) s \<longleftrightarrow> ts_pcb s p \<noteq> None"
| "tcp_callable (Tcp_write p data) s \<longleftrightarrow> (\<exists>x. ts_pcb s p = Some x \<and> length (tp_send_buf x) + length data < 4294967296)"
| "tcp_callable (Tcp_read p len) s \<longleftrightarrow> ts_pcb s p \<noteq> None"
| "tcp_callable (Tcp_close p) s \<longleftrightarrow> ts_pcb s p \<noteq> None"
| "tcp_callable (Tcp_abort p) s \<longleftrightarrow> ts_pcb s p \<noteq> None"
| "tcp_callable Tcp_timer s \<longleftrightarrow> True"
| "tcp_callable (Tcp_input dev b src dst) s \<longleftrightarrow> dev \<noteq> 0 \<and> held b s"

text \<open>A call with valid pointers only.\<close>

definition tcp_valid :: "tcp_op \<Rightarrow> 'a tcp_env_scheme \<Rightarrow> bool" where
  "tcp_valid op s \<longleftrightarrow> (case op of
     Tcp_listen p n \<Rightarrow> ts_pcb s p \<noteq> None
   | Tcp_write p data \<Rightarrow> ts_pcb s p \<noteq> None \<and> length data < 4294967296
   | _ \<Rightarrow> tcp_callable op s)"

text \<open>A block that is in the list of listeners, closed, and made to listen again.\<close>

definition tcp_relistens :: "tcp_op \<Rightarrow> 'a tcp_env_scheme \<Rightarrow> bool" where
  "tcp_relistens op s \<longleftrightarrow> (case op of
     Tcp_listen p n \<Rightarrow> listening s p \<and> (\<exists>x. ts_pcb s p = Some x \<and> tp_state x = TCP_CLOSED \<and> tp_local_port x \<noteq> 0)
   | _ \<Rightarrow> False)"

text \<open>The list of listeners is a circle: a search that finds no block never ends.\<close>

definition listeners_loop :: "'a tcp_env_scheme \<Rightarrow> bool" where
  "listeners_loop s \<longleftrightarrow> (\<forall>P. (\<forall>q x. ts_pcb s q = Some x \<longrightarrow> \<not> P q x) \<longrightarrow> find_next P (ts_pcb s) (ts_listen_pcbs s) = None)"

text \<open>A write whose length plus that of the buffered data passes 4 GB: the test of the free space is done in 32 bits.\<close>

definition tcp_overruns :: "tcp_op \<Rightarrow> 'a tcp_env_scheme \<Rightarrow> bool" where
  "tcp_overruns op s \<longleftrightarrow> (case op of
     Tcp_write p data \<Rightarrow> (\<exists>x. ts_pcb s p = Some x \<and> (tp_state x = TCP_ESTABLISHED \<or> tp_state x = TCP_CLOSE_WAIT)
       \<and> 4294967296 \<le> length (tp_send_buf x) + length data)
   | _ \<Rightarrow> False)"

text \<open>The one operation that does not return.\<close>

definition tcp_hangs :: "tcp_op \<Rightarrow> 'a tcp_env_scheme \<Rightarrow> bool" where
  "tcp_hangs op s \<longleftrightarrow> (case op of
     Tcp_input dev b src dst \<Rightarrow> (case contents s b of None \<Rightarrow> False
       | Some (pre, pay, post) \<Rightarrow> seg_good src dst pay \<and> hangs (arrival b src dst pay) s)
   | _ \<Rightarrow> False)"

lemma hangs_cong:
  assumes "udp_env.more s' = udp_env.more (s :: 'a tcp_env_scheme)" "ns_kmalloc s' = ns_kmalloc s"
  shows "hangs a s' = hangs a s"
  unfolding hangs_def pcb_memory_def tcp_find_pcb_def more_tcp[OF assms(1)] assms(2) ..

lemma tcp_input_step:
  fixes s :: "'a tcp_env_scheme"
  assumes c: "call_ok call" and ok: "tcp_ok s" and h: "held b s" and dv: "dev \<noteq> 0"
  shows "if tcp_hangs (Tcp_input dev b src dst) s then tcp_input call dev b src dst s = None else fine b s (tcp_input call dev b src dst s)"
proof -
  have inv: "tcp_inv s" using ok by (simp add: tcp_ok_def)
  have "owned b s" using h by (simp add: held_def)
  then obtain pre pay post where ct: "contents s b = Some (pre, pay, post)" by (rule owned_contents[OF udp_okD(1)[OF tcp_invD(1)[OF inv]]])
  have hg: "tcp_hangs (Tcp_input dev b src dst) s \<longleftrightarrow> seg_good src dst pay \<and> hangs (arrival b src dst pay) s" by (simp add: tcp_hangs_def ct)
  show ?thesis
  proof (rule tcp_input_cases[OF ok h ct dv, of src dst call])
    assume "\<not> seg_good src dst pay" "dropped b s (tcp_input call dev b src dst s)"
    then show ?thesis using hg by (simp add: dropped_def)
  next
    fix s3
    assume s3: "seg_good src dst pay" "tcp_input call dev b src dst s = input_locked call (arrival b src dst pay) s3"
      "tstep {b} s s3" "tcp_ok s3" "held b s3" "udp_env.more s3 = udp_env.more s" "ns_kmalloc s3 = ns_kmalloc s"
    have a: "ta_buf (arrival b src dst pay) = b" by (simp add: arrival_def arrival_of_def)
    have h3: "held (ta_buf (arrival b src dst pay)) s3" using s3(5) a by simp
    note r = input_locked_fine[OF c s3(4) h3]
    have e: "hangs (arrival b src dst pay) s3 = hangs (arrival b src dst pay) s" by (rule hangs_cong[OF s3(6,7)])
    show ?thesis using r fine_buf[OF s3(3,6)] hg s3(1,2) unfolding e a by (auto split: if_splits)
  qed
qed

lemma tcp_run_ok:
  fixes s :: "'a tcp_env_scheme"
  assumes "call_ok call" "tcp_ok s" "tcp_callable op s"
  shows "if tcp_hangs op s then tcp_run call op s = None else \<exists>s'. tcp_run call op s = Some s' \<and> tcp_ok s'"
proof (cases op)
  case Tcp_new
  obtain p s' where "tcp_pcb_new s = Some (p, s')" "tcp_ok s'" by (rule tcp_pcb_new_step[OF assms(2)])
  then show ?thesis using Tcp_new by (simp add: tcp_hangs_def)
next
  case (Tcp_free p)
  then have "ts_pcb s p \<noteq> None" using assms(3) by simp
  then obtain s' where "tcp_pcb_free p s = Some s'" "tcp_ok s'" by (rule tcp_pcb_free_step[OF assms(2)])
  then show ?thesis using Tcp_free by (simp add: tcp_hangs_def)
next
  case (Tcp_bind p ip port)
  then obtain x where "ts_pcb s p = Some x" using assms(3) by auto
  then obtain r s' where "tcp_bind p ip port s = Some (r, s')" "tcp_ok s'" by (rule tcp_bind_step[OF assms(2)])
  then show ?thesis using Tcp_bind by (simp add: tcp_hangs_def)
next
  case (Tcp_listen p n)
  then obtain x where x: "ts_pcb s p = Some x" "\<not> listening s p" using assms(3) by auto
  obtain r s' where "tcp_listen p n s = Some (r, s')" "tcp_ok s'" by (rule tcp_listen_step[OF assms(2) x])
  then show ?thesis using Tcp_listen by (simp add: tcp_hangs_def)
next
  case (Tcp_connect p ip port)
  then obtain x where "ts_pcb s p = Some x" using assms(3) by auto
  then obtain r s' where "tcp_connect p ip port s = Some (r, s')" "tcp_ok s'" by (rule tcp_connect_step[OF assms(2)])
  then show ?thesis using Tcp_connect by (simp add: tcp_hangs_def)
next
  case (Tcp_accept p)
  then have "p = 0 \<or> ts_pcb s p \<noteq> None" using assms(3) by simp
  from tcp_accept_empty[OF assms(2) this] show ?thesis using Tcp_accept assms(2) by (simp add: tcp_hangs_def)
next
  case (Tcp_write p data)
  then obtain x where x: "ts_pcb s p = Some x" "length (tp_send_buf x) + length data < 4294967296" using assms(3) by auto
  have l: "length data = unat (of_nat (length data) :: u32)" "length (tp_send_buf x) + unat (of_nat (length data) :: u32) < 4294967296"
    using x(2) by (simp_all add: unat_of_nat_u32)
  obtain r s' where "tcp_write p (Some data) (of_nat (length data)) s = Some (r, s')" "tcp_ok s'" by (rule tcp_write_step[OF assms(2) x(1) l])
  then show ?thesis using Tcp_write by (simp add: tcp_hangs_def)
next
  case (Tcp_read p len)
  then obtain x where "ts_pcb s p = Some x" using assms(3) by auto
  then obtain r bs s' where "tcp_read p len s = Some (r, bs, s')" "tcp_ok s'" by (rule tcp_read_step[OF assms(2)])
  then show ?thesis using Tcp_read by (simp add: tcp_hangs_def)
next
  case (Tcp_close p)
  then obtain x where "ts_pcb s p = Some x" using assms(3) by auto
  then obtain r s' where "tcp_close p s = Some (r, s')" "tcp_ok s'" by (rule tcp_close_step[OF assms(2)])
  then show ?thesis using Tcp_close by (simp add: tcp_hangs_def)
next
  case (Tcp_abort p)
  then obtain x where "ts_pcb s p = Some x" using assms(3) by auto
  then obtain s' where "tcp_abort p s = Some s'" "tcp_ok s'" by (rule tcp_abort_step[OF assms(2)])
  then show ?thesis using Tcp_abort by (simp add: tcp_hangs_def)
next
  case Tcp_timer
  obtain s' where "tcp_timer call s = Some s'" "tcp_ok s'" by (rule tcp_timer_step[OF assms(1,2)])
  then show ?thesis using Tcp_timer by (simp add: tcp_hangs_def)
next
  case (Tcp_input dev b src dst)
  then have "held b s" "dev \<noteq> 0" using assms(3) by simp_all
  from tcp_input_step[OF assms(1,2) this, of src dst] show ?thesis using Tcp_input by (auto simp: fine_def split: if_splits)
qed

section \<open>The two calls that fail\<close>

lemma find_next_ends:
  assumes "find_next P st h = Some q" "\<forall>q x. st q = Some x \<longrightarrow> \<not> P q x"
  shows "\<exists>ls. chain st h ls"
proof -
  let ?Q = "\<lambda>t :: (((u32 \<Rightarrow> tcp_pcb_t \<Rightarrow> bool) \<times> (u32 \<Rightarrow> tcp_pcb_t option)) \<times> u32).
    (\<forall>q x. snd (fst t) q = Some x \<longrightarrow> \<not> fst (fst t) q x) \<longrightarrow> (\<exists>ls. chain (snd (fst t)) (snd t) ls)"
  have "?Q ((P, st), h)"
  proof (rule find_next.raw_induct[where Pa = "\<lambda>t _. ?Q t", OF _ assms(1)])
    fix f :: "(u32 \<Rightarrow> tcp_pcb_t \<Rightarrow> bool) \<Rightarrow> (u32 \<Rightarrow> tcp_pcb_t option) \<Rightarrow> u32 \<Rightarrow> u32 option"
    fix P :: "u32 \<Rightarrow> tcp_pcb_t \<Rightarrow> bool" and st :: "u32 \<Rightarrow> tcp_pcb_t option" and h q :: u32
    assume IH: "\<And>P st h q. f P st h = Some q \<Longrightarrow> ?Q ((P, st), h)"
      and b: "(if h = 0 then Some 0 else do { x \<leftarrow> st h; if P h x then Some h else f P st (tp_next x) }) = Some q"
    have "\<exists>ls. chain st h ls" if n: "\<forall>q x. st q = Some x \<longrightarrow> \<not> P q x"
    proof (cases "h = 0")
      case False
      then obtain x where x: "st h = Some x" "f P st (tp_next x) = Some q" using b n by (auto simp: bind_eq_Some_conv split: if_splits)
      then obtain ls where "chain st (tp_next x) ls" using IH[OF x(2)] n by auto
      then show ?thesis using x False by (intro exI[of _ "h # ls"]) simp
    qed (auto intro: exI[of _ "[]"])
    then show "?Q ((P, st), h)" by simp
  qed
  then show ?thesis using assms(2) by simp
qed

lemma chain_det: "chain st h xs \<Longrightarrow> chain st h ys \<Longrightarrow> xs = ys"
proof (induction xs arbitrary: h ys)
  case Nil
  then show ?case by (cases ys) auto
next
  case (Cons a xs)
  then show ?case by (cases ys) auto
qed

lemma chain_through:
  assumes "chain st h (as @ p # bs)" "p \<notin> set as" "chain (st(p := v)) h l"
  shows "\<exists>l'. l = as @ l' \<and> chain (st(p := v)) p l'"
  using assms
proof (induction as arbitrary: h l)
  case (Cons a as)
  obtain x where x: "h = a" "a \<noteq> 0" "st a = Some x" "chain st (tp_next x) (as @ p # bs)" "a \<noteq> p" using Cons.prems by auto
  obtain l1 where l1: "l = a # l1" "chain (st(p := v)) (tp_next x) l1" using Cons.prems(3) x by (cases l) (auto simp del: fun_upd_apply simp: fun_upd_other)
  from Cons.IH[OF x(4) _ l1(2)] Cons.prems(2) show ?case using l1(1) by auto
qed auto

lemma tcp_relisten_loops:
  assumes ok: "tcp_ok s" and r: "tcp_relistens (Tcp_listen p n) s"
  shows "\<exists>s'. tcp_listen p n s = Some (0, s') \<and> listeners_loop s'"
proof -
  have inv: "tcp_inv s" and free: "\<not> ts_lock s" using ok by (simp_all add: tcp_ok_def)
  obtain x where x: "ts_pcb s p = Some x" "tp_state x = TCP_CLOSED" "tp_local_port x \<noteq> 0" "listening s p" using r by (auto simp: tcp_relistens_def)
  have p0: "p \<noteq> 0" using x(1) tcp_invD(5)[OF inv] by auto
  obtain ps ls where l: "chain (ts_pcb s) (ts_pcbs s) ps" "chain (ts_pcb s) (ts_listen_pcbs s) ls" "distinct (ps @ ls)"
    by (rule tcp_inv_lists[OF inv])
  have pl: "p \<in> set ls" using x(4) l(2) chain_det by (auto simp: listening_def)
  then have "p \<notin> set ps" using l(3) by auto
  then have u: "tcp_unlink p (ts_pcbs s) (ts_pcb s) = Some (False, ts_pcbs s, ts_pcb s)"
    using find_link_chain[OF l(1) p0, of 0] l(3) by (simp add: tcp_unlink_def)
  let ?y = "x\<lparr>tp_next := ts_listen_pcbs s, tp_state := TCP_LISTEN, tp_backlog := if n > 0 then n else 5\<rparr>"
  let ?s = "s\<lparr>ts_pcb := (ts_pcb s)(p \<mapsto> ?y), ts_listen_pcbs := p, ts_lock := False\<rparr>"
  have run: "tcp_listen p n s = Some (0, ?s)"
    using p0 x free u by (simp add: tcp_listen_def tcp_lock_acquire_def tcp_lock_release_def upd_tcp_def)
  obtain as bs where ab: "ls = as @ p # bs" "p \<notin> set as" using pl by (meson split_list_first)
  have no: "\<not> chain ((ts_pcb s)(p \<mapsto> ?y)) p l1" for l1
  proof
    assume c: "chain ((ts_pcb s)(p \<mapsto> ?y)) p l1"
    then obtain l2 where l2: "l1 = p # l2" "chain ((ts_pcb s)(p \<mapsto> ?y)) (ts_listen_pcbs s) l2" using p0 by (cases l1) auto
    obtain l3 where "l2 = as @ l3" "chain ((ts_pcb s)(p \<mapsto> ?y)) p l3" using chain_through[OF l(2)[unfolded ab(1)] ab(2) l2(2)] by blast
    then have "length l3 < length l1" "l3 = l1" using l2(1) chain_det[OF c] by auto
    then show False by simp
  qed
  have "listeners_loop ?s" unfolding listeners_loop_def
  proof (intro allI impI)
    fix P assume P: "\<forall>q x. ts_pcb ?s q = Some x \<longrightarrow> \<not> P q x"
    show "find_next P (ts_pcb ?s) (ts_listen_pcbs ?s) = None"
    proof (rule ccontr)
      assume "find_next P (ts_pcb ?s) (ts_listen_pcbs ?s) \<noteq> None"
      then obtain q where "find_next P (ts_pcb ?s) (ts_listen_pcbs ?s) = Some q" by blast
      from find_next_ends[OF this P] show False using no by (simp del: fun_upd_apply)
    qed
  qed
  then show ?thesis using run by blast
qed

lemma tcp_write_overruns:
  assumes ok: "tcp_ok s" and o: "tcp_overruns (Tcp_write p data) s" and d: "length data < 4294967296"
  shows "tcp_write p (Some data) (of_nat (length data)) s = None"
proof -
  have inv: "tcp_inv s" using ok by (simp add: tcp_ok_def)
  obtain x where x: "ts_pcb s p = Some x" "tp_state x = TCP_ESTABLISHED \<or> tp_state x = TCP_CLOSE_WAIT" "4294967296 \<le> length (tp_send_buf x) + length data"
    using o by (auto simp: tcp_overruns_def)
  have p0: "p \<noteq> 0" using x(1) tcp_invD(5)[OF inv] by auto
  have sb: "length (tp_send_buf x) \<le> 8192" "tp_send_buf_size x = 8192" using tcp_invD(2)[OF inv x(1)] by (simp_all add: pcb_ok_def)
  let ?n = "of_nat (length (tp_send_buf x)) :: u32" and ?len = "of_nat (length data) :: u32"
  have u: "unat ?n = length (tp_send_buf x)" "unat ?len = length data" using sb(1) d by (simp_all add: unat_of_nat_u32)
  have w: "unat (?n + ?len) = length (tp_send_buf x) + length data - 4294967296" using u x(3) by (subst unat_add_wrap) simp_all
  have ng: "\<not> ?n + ?len > 8192" unfolding word_less_nat_alt w using sb(1) d by simp
  have nz: "?len \<noteq> 0" using u(2) x(3) sb(1) by auto
  have big: "length (tp_send_buf x) + unat ?len > unat (8192 :: u32)" using u(2) x(3) by simp
  show ?thesis unfolding tcp_write_def Let_def using p0 x(1,2) sb(2) ng nz big by auto
qed

text \<open>C6: \<^bold>\<open>Every operation of the stream protocol returns, with three exceptions.\<close>  In a state that satisfies the invariant, with callbacks that return and leave the
  stack as it is, each of the twelve operations of \<^verbatim>\<open>tcp.c\<close>, called with a block that exists and a received buffer nobody else holds,
  returns without a fault in a state that satisfies the invariant again: both lists of control blocks are finite and disjoint and hold every block, the queues of a
  listener are empty, the congestion window is between 1 and 5000000, and the lock is free.  The exceptions are exact.  A segment with a correct
  checksum that carries a connection request (SYN without ACK and RST) to a block that listens, when there is memory for a new block, makes \<open>tcp_pcb_new\<close> take \<open>tcp_lock\<close>,
  which \<open>tcp_input\<close> holds: the call never returns.  A write on an open connection whose length plus that of the buffered data passes 4 GB overruns the
  send buffer.  And listening again on a closed listener, which \<open>tcp_close\<close> leaves in the list, returns but turns the list into a circle, in which every later
  search that finds no block never ends.\<close>

theorem tcp_ops_safe:
  fixes s :: "'a tcp_env_scheme"
  assumes "call_ok call" "tcp_ok s" "tcp_valid op s"
  shows "if tcp_hangs op s \<or> tcp_overruns op s then tcp_run call op s = None
    else \<exists>s'. tcp_run call op s = Some s' \<and> (if tcp_relistens op s then listeners_loop s' else tcp_ok s')"
proof (cases "tcp_callable op s")
  case True
  then have "\<not> tcp_relistens op s" "\<not> tcp_overruns op s" by (auto simp: tcp_relistens_def tcp_overruns_def split: tcp_op.split)
  then show ?thesis using tcp_run_ok[OF assms(1,2) True] by (simp split: if_splits)
next
  case False
  consider p n where "op = Tcp_listen p n" "ts_pcb s p \<noteq> None" "listening s p"
    | p data where "op = Tcp_write p data" "ts_pcb s p \<noteq> None" "length data < 4294967296" "\<not> tcp_callable op s"
    using assms(3) False by (cases op) (auto simp: tcp_valid_def)
  then show ?thesis
  proof cases
    case (1 p n)
    have h: "\<not> tcp_hangs op s" "\<not> tcp_overruns op s" by (simp_all add: 1(1) tcp_hangs_def tcp_overruns_def)
    show ?thesis
    proof (cases "tcp_relistens op s")
      case True
      then show ?thesis using h tcp_relisten_loops[OF assms(2), of p n] 1(1) by auto
    next
      case False
      then have "tcp_listen p n s = Some (-1, s)" using 1 by (auto simp: tcp_listen_def tcp_relistens_def)
      then show ?thesis using h False assms(2) by (simp add: 1(1))
    qed
  next
    case (2 p data)
    then obtain x where x: "ts_pcb s p = Some x" "4294967296 \<le> length (tp_send_buf x) + length data" by auto
    have h: "\<not> tcp_hangs op s" "\<not> tcp_relistens op s" by (simp_all add: 2(1) tcp_hangs_def tcp_relistens_def)
    show ?thesis
    proof (cases "tcp_overruns op s")
      case True
      then show ?thesis using tcp_write_overruns[OF assms(2) _ 2(3)] 2(1) by simp
    next
      case False
      then have "tp_state x \<noteq> TCP_ESTABLISHED \<and> tp_state x \<noteq> TCP_CLOSE_WAIT" using x by (auto simp: 2(1) tcp_overruns_def)
      then have "tcp_write p (Some data) (of_nat (length data)) s = Some (-1, s)" using x(1) by (auto simp: tcp_write_def)
      then show ?thesis using h False assms(2) by (simp add: 2(1))
    qed
  qed
qed

inductive tcp_reach :: "(tcp_callback \<Rightarrow> 'a tcp_env_scheme \<Rightarrow> 'a tcp_env_scheme option) \<Rightarrow> 'a tcp_env_scheme \<Rightarrow> bool"
  for call where
  tcp_reach_init: "udp_ok s \<Longrightarrow> ts_pcb s = (\<lambda>_. None) \<Longrightarrow> tcp_reach call (tcp_init s)"
| tcp_reach_step: "tcp_reach call s \<Longrightarrow> tcp_callable op s \<Longrightarrow> tcp_run call op s = Some s' \<Longrightarrow> tcp_reach call s'"

lemma tcp_init_ok:
  fixes s :: "'a tcp_env_scheme"
  assumes "udp_ok s" "ts_pcb s = (\<lambda>_. None)"
  shows "tcp_ok (tcp_init s)"
proof -
  have "tstep {} s (tcp_init s)" by (rule tstep_low[OF assms(1)]) (simp_all add: tcp_init_def low_eq_def)
  then have u: "udp_ok (tcp_init s)" by (rule tstepD(1))
  have "tcp_lists (tcp_init s) [] []" using assms(2) by (simp add: tcp_lists_def tcp_init_def)
  then show ?thesis unfolding tcp_ok_def tcp_inv_def using u assms(2) by (auto simp: tcp_init_def)
qed

text \<open>C38: \<^bold>\<open>No connection is ever accepted.\<close>  In every state that the operations of \<^verbatim>\<open>tcp.c\<close> reach from start-up, in any order and with any
  segments arriving (but no block made to listen while it is in the list of listeners and no write past 4 GB), \<open>tcp_accept\<close> finds no connection and returns \<open>NULL\<close>: a listener never gets a connection, because the first request
  that has memory for one does not return.\<close>

theorem tcp_never_accepts:
  fixes s :: "'a tcp_env_scheme"
  assumes "call_ok call" "tcp_reach call s" "p = 0 \<or> ts_pcb s p \<noteq> None"
  shows "tcp_accept p s = Some (0, s)"
proof -
  from assms(2) have "tcp_ok s"
  proof (induction rule: tcp_reach.induct)
    case (tcp_reach_init s) then show ?case by (rule tcp_init_ok)
  next
    case (tcp_reach_step s op s')
    from tcp_run_ok[OF assms(1) tcp_reach_step.IH tcp_reach_step.hyps(2)] tcp_reach_step.hyps(3) show ?case by (auto split: if_splits)
  qed
  then show ?thesis by (rule tcp_accept_empty[OF _ assms(3)])
qed

text \<open>A listener on port 80 of 10.0.0.1 and a received buffer with a connection request from 10.0.0.2.\<close>

definition syn_segment :: "u8 list" where
  "syn_segment = [0x12, 0x34, 0, 80, 0, 0, 0, 1, 0, 0, 0, 0, 0x50, 2, 0, 0, 0x89, 0x5B, 0, 0]"

definition tcp_start :: tcp_env where
  "tcp_start = tcp_init (udp_env.extend
     (udp_sample\<lparr>ns_kmalloc := [0x400, 0x500, 0x600],
        ns_blocks := [0x2000 \<mapsto> replicate 128 0 @ syn_segment],
        ns_bufs := [0x1000 \<mapsto> \<lparr>nb_head = 0x2000, nb_data = 0x2080, nb_tail = 0x2094, nb_end = 0x2094, nb_len = 20,
          nb_total_size = 148, nb_mac_header = 0, nb_network_header = 0, nb_transport_header = 0, nb_dev = 0, nb_src_ip = None, nb_src_port = None\<rparr>]\<rparr>)
     \<lparr>ts_pcb = (\<lambda>_. None), ts_pcbs = 0, ts_listen_pcbs = 0, ts_lock = False, ts_next_ephemeral_port = 0, ts_isn = 0\<rparr>)"

definition tcp_listener :: tcp_env where
  "tcp_listener = tcp_start\<lparr>ts_pcb := [0x300 \<mapsto> new_tcp_pcb\<lparr>tp_local_port := 80, tp_state := TCP_LISTEN, tp_backlog := 5\<rparr>], ts_listen_pcbs := 0x300\<rparr>"

lemmas tcp_start_defs = tcp_start_def tcp_init_def udp_env.extend_def udp_sample_def ip_env.extend_def route_sample_def arp_env.extend_def
  net_sample_def arp_init_def

lemma tcp_start_pend: "pend tcp_start = {}" "pend tcp_listener = {}"
  by (simp_all add: pend_def pq_def tcp_start_defs tcp_listener_def zero_entry_def)

lemma tcp_start_arp: "arp_ok tcp_start"
proof -
  have n: "as_cache tcp_start ! i = zero_entry" if "i < 32" for i using that by (simp add: tcp_start_defs)
  have p: "pq tcp_start i = []" if "i < 32" for i using n[OF that] by (simp add: pq_def zero_entry_def)
  have b: "net_ok tcp_start" by (simp add: net_ok_def tcp_start_defs buf_ok_def syn_segment_def)
  have "dev_ok tcp_start" using b by (simp add: dev_ok_def tcp_start_defs zero_netdev_def)
  moreover have "length (as_cache tcp_start) = 32" by (simp add: tcp_start_defs)
  ultimately show ?thesis unfolding arp_ok_def tcp_start_pend using n p by (auto simp: used_def zero_entry_def)
qed

lemma tcp_start_ok: "udp_ok tcp_start" "ts_pcb tcp_start = (\<lambda>_. None)" "held 0x1000 tcp_start"
proof -
  have q: "queue_of tcp_start p = []" for p by (simp add: queue_of_def tcp_start_defs zero_udp_pcb_def)
  then have qd: "queued tcp_start = {}" by (simp add: queued_def)
  have r: "routes_ok tcp_start" by (auto simp: routes_ok_def tcp_start_defs zero_route_def)
  show "udp_ok tcp_start" unfolding udp_ok_def using tcp_start_arp r q qd by (auto simp: tcp_start_defs zero_udp_pcb_def)
  show "ts_pcb tcp_start = (\<lambda>_. None)" by (simp add: tcp_start_defs)
  show "held 0x1000 tcp_start" using qd tcp_start_pend by (simp add: held_def owned_def tcp_start_defs)
qed

lemma tcp_listener_ok: "tcp_ok tcp_listener" "held 0x1000 tcp_listener"
proof -
  have t: "tstep {} tcp_start tcp_listener"
    by (rule tstep_low[OF tcp_start_ok(1)]) (simp_all add: tcp_listener_def low_eq_def)
  have "tcp_lists tcp_listener [] [0x300]" by (simp add: tcp_lists_def tcp_listener_def tcp_start_def tcp_init_def new_tcp_pcb_def)
  moreover have "pcb_ok x" if "ts_pcb tcp_listener p = Some x" for p x
    using that by (auto simp: tcp_listener_def pcb_ok_def new_tcp_pcb_def split: if_splits)
  moreover have "49152 \<le> ts_next_ephemeral_port tcp_listener" "ts_next_ephemeral_port tcp_listener \<le> 65535" "\<not> ts_lock tcp_listener"
    by (simp_all add: tcp_listener_def tcp_start_def tcp_init_def)
  ultimately show "tcp_ok tcp_listener" unfolding tcp_ok_def tcp_inv_def using tstepD(1)[OF t] by blast
  show "held 0x1000 tcp_listener" by (rule tstep_held[OF t tcp_start_ok(3)]) simp
qed

lemma call_return_ok: "call_ok (\<lambda>_ s. Some s)"
  using tstep_refl tcp_invD(1) by (auto simp: call_ok_def tcp_ok_def)

lemma syn_segment_header: "tcp_header_of syn_segment = \<lparr>th_src_port = 0x3412, th_dst_port = 0x5000, th_seq_num = 0x01000000, th_ack_num = 0,
     th_data_offset = 0x50, th_flags = 2, th_window = 0, th_checksum = 0x5B89, th_urgent_ptr = 0\<rparr>"
  by (simp add: tcp_header_of_def syn_segment_def le16_def le32_def push_bit_eq_mult)

lemma syn_segment_good: "seg_good 0x0200000A 0x0100000A syn_segment"
proof -
  have hl: "hdr_of syn_segment = 20" by (simp add: syn_segment_header tcp_header_len_def drop_bit_eq_div)
  show ?thesis unfolding seg_good_def hl syn_segment_header by code_simp
qed

lemma tcp_listener_hangs: "tcp_hangs (Tcp_input 0x100 0x1000 0x0200000A 0x0100000A) tcp_listener"
proof -
  have c: "contents tcp_listener 0x1000 = Some (replicate 128 0, syn_segment, [])"
    by (simp add: contents_def tcp_listener_def tcp_start_defs split_at_def syn_segment_def)
  have n: "ntohs 0x5000 = 80" by code_simp
  note syn_segment_good
  moreover have "hangs (arrival 0x1000 0x0200000A 0x0100000A syn_segment) tcp_listener"
    unfolding hangs_def arrival_def syn_segment_header using n by (simp add: arrival_of_def syn_only_def pcb_memory_def tcp_find_pcb_def find_next.simps tcp_listener_def
      tcp_start_defs new_tcp_pcb_def)
  ultimately show ?thesis by (simp add: tcp_hangs_def c)
qed

text \<open>The listener after \<^verbatim>\<open>tcp_close\<close>.\<close>

definition tcp_closed_listener :: tcp_env where
  "tcp_closed_listener = tcp_listener\<lparr>ts_pcb := [0x300 \<mapsto> new_tcp_pcb\<lparr>tp_local_port := 80, tp_backlog := 5\<rparr>]\<rparr>"

lemma tcp_closed_listener_close: "tcp_run call (Tcp_close 0x300) tcp_listener = Some tcp_closed_listener"
  by (simp add: tcp_close_def upd_tcp_def tcp_closed_listener_def tcp_listener_def new_tcp_pcb_def)

theorem tcp_ops_safe_witness:
  "tcp_run (\<lambda>_ s. Some s) (Tcp_input 0x100 0x1000 0x0200000A 0x0100000A) tcp_listener = None
   \<and> tcp_run (\<lambda>_ s. Some s) (Tcp_close 0x300) tcp_listener = Some tcp_closed_listener \<and> tcp_ok tcp_closed_listener
   \<and> (\<exists>s'. tcp_run (\<lambda>_ s. Some s) (Tcp_listen 0x300 5) tcp_closed_listener = Some s' \<and> listeners_loop s')"
proof -
  let ?call = "\<lambda>_ s :: tcp_env. Some s"
  have a: "tcp_run ?call (Tcp_input 0x100 0x1000 0x0200000A 0x0100000A) tcp_listener = None"
    using tcp_ops_safe[OF call_return_ok tcp_listener_ok(1), of "Tcp_input 0x100 0x1000 0x0200000A 0x0100000A"] tcp_listener_hangs tcp_listener_ok(2)
    by (simp add: tcp_valid_def)
  have b: "tcp_ok tcp_closed_listener"
    using tcp_ops_safe[OF call_return_ok tcp_listener_ok(1), of "Tcp_close 0x300"]
    by (simp add: tcp_closed_listener_close tcp_valid_def tcp_hangs_def tcp_overruns_def tcp_relistens_def del: tcp_run.simps) (simp add: tcp_listener_def)
  have "listening tcp_closed_listener 0x300" unfolding listening_def
    by (rule exI[of _ "[0x300]"]) (simp add: tcp_closed_listener_def tcp_listener_def new_tcp_pcb_def)
  then have "tcp_relistens (Tcp_listen 0x300 5) tcp_closed_listener"
    by (simp add: tcp_relistens_def tcp_closed_listener_def new_tcp_pcb_def)
  then have "\<exists>s'. tcp_run ?call (Tcp_listen 0x300 5) tcp_closed_listener = Some s' \<and> listeners_loop s'"
    using tcp_ops_safe[OF call_return_ok b, of "Tcp_listen 0x300 5"]
    by (simp add: tcp_valid_def tcp_hangs_def tcp_overruns_def del: tcp_run.simps) (simp add: tcp_closed_listener_def)
  then show ?thesis using a b tcp_closed_listener_close by blast
qed

theorem tcp_never_accepts_witness:
  "let s = snd (the (tcp_pcb_new (tcp_init tcp_start))) in ts_pcb s 0x400 \<noteq> None \<and> tcp_accept 0x400 s = Some (0, s)"
proof -
  obtain s where s: "tcp_pcb_new (tcp_init tcp_start) = Some (0x400, s)" "ts_pcb s 0x400 \<noteq> None"
    by (simp add: tcp_pcb_new_def kmalloc_next_def tcp_lock_acquire_def tcp_lock_release_def tcp_start_defs)
  have "tcp_reach (\<lambda>_ s. Some s) s"
    by (rule tcp_reach_step[OF tcp_reach_init[OF tcp_start_ok(1,2)], of Tcp_new]) (simp_all add: s(1))
  from tcp_never_accepts[OF call_return_ok this, where p = "0x400"] show ?thesis using s by simp
qed

end
