(* ===== verification/Net_Input.thy ===== *)
theory Net_Input
  imports Tcp_Ops
begin

text \<open>
  The receive path of the network stack, from the receive ring of the card to the transport protocols:
  \<^verbatim>\<open>e1000_receive\<close> of \<^verbatim>\<open>src/src/drivers/x86/e1000.c\<close>, \<^verbatim>\<open>netdev_receive\<close>, \<^verbatim>\<open>ethernet_input\<close> and \<^verbatim>\<open>ip_input\<close>,
  and the start-up and configuration routines of \<^verbatim>\<open>src/src/net/net.c\<close>.  The receive callbacks of the
  UDP and TCP blocks are parameters, as in the theories of these protocols.

  The theorems follow a frame through the layers.  Whatever the bytes of a frame are, the path returns and
  keeps the invariants of all layers, with the two exceptions the theorems name; and the frames that
  \<^verbatim>\<open>icmp_send_echo_request\<close> and \<^verbatim>\<open>udp_sendto\<close> put on the wire of one machine have on another machine the effect
  the sender asked for.
\<close>

section \<open>Definitions\<close>

text \<open>The final \<^verbatim>\<open>switch\<close> of \<^verbatim>\<open>ip_input\<close>.\<close>

definition ip_deliver ::
  "(u32 \<Rightarrow> u32 \<Rightarrow> u32 \<Rightarrow> u32 \<Rightarrow> u16 \<Rightarrow> 'a tcp_env_scheme \<Rightarrow> 'a tcp_env_scheme option)
    \<Rightarrow> (tcp_callback \<Rightarrow> 'a tcp_env_scheme \<Rightarrow> 'a tcp_env_scheme option)
    \<Rightarrow> u32 \<Rightarrow> u32 \<Rightarrow> u8 \<Rightarrow> u32 \<Rightarrow> u32 \<Rightarrow> 'a tcp_env_scheme \<Rightarrow> 'a tcp_env_scheme option" where
  "ip_deliver recv call dev b protocol src_ip dst_ip s =
     (if protocol = IP_PROTO_ICMP then icmp_input dev b src_ip s
      else if protocol = IP_PROTO_UDP then udp_input recv dev b src_ip dst_ip s
      else if protocol = IP_PROTO_TCP then tcp_input call dev b src_ip dst_ip s
      else netbuf_free b s)"

definition is_for_us :: "u32 \<Rightarrow> netdev_t \<Rightarrow> bool" where
  "is_for_us dst d \<longleftrightarrow> dst = nd_ip_addr d \<or> dst = 0xFFFFFFFF \<or> dst AND NOT (nd_netmask d) = NOT (nd_netmask d)"

definition ip_input ::
  "(u32 \<Rightarrow> u32 \<Rightarrow> u32 \<Rightarrow> u32 \<Rightarrow> u16 \<Rightarrow> 'a tcp_env_scheme \<Rightarrow> 'a tcp_env_scheme option)
    \<Rightarrow> (tcp_callback \<Rightarrow> 'a tcp_env_scheme \<Rightarrow> 'a tcp_env_scheme option)
    \<Rightarrow> u32 \<Rightarrow> u32 \<Rightarrow> 'a tcp_env_scheme \<Rightarrow> 'a tcp_env_scheme option" where
  "ip_input recv call dev b s =
     (if dev = 0 \<or> b = 0 then Some s
      else do {
        buf \<leftarrow> ns_bufs s b;
        if nb_len buf < 20 then netbuf_free b s
        else do {
          s1 \<leftarrow> upd_buf b (\<lambda>x. x\<lparr>nb_network_header := nb_data x\<rparr>) s;
          hs \<leftarrow> nb_read s1 b (nb_data buf) 20;
          let ip = ip_header_of hs;
          let hdr_len = ip_header_len ip;
          if ip_version ip \<noteq> 4 then netbuf_free b s1
          else if hdr_len < 20 \<or> ucast hdr_len > nb_len buf then netbuf_free b s1
          else do {
            hb \<leftarrow> nb_read s1 b (nb_data buf) (unat hdr_len);
            let total_len = ntohs (ip_total_length ip);
            if ip_checksum hb \<noteq> 0 then netbuf_free b s1
            else if total_len < ucast hdr_len \<or> ucast total_len > nb_len buf then netbuf_free b s1
            else do {
              d \<leftarrow> ds_devs s1 dev;
              if \<not> is_for_us (ip_dst_addr ip) d then netbuf_free b s1
              else do {
                let flags_frag = ntohs (ip_flags_fragment ip);
                (b', s2) \<leftarrow> (if flags_frag AND IP_FLAG_MF \<noteq> 0 \<or> flags_frag AND IP_FRAG_OFFSET_MASK \<noteq> 0
                            then ip_reassemble dev b ip s1
                            else do { (_, s2) \<leftarrow> netbuf_pull b (ucast hdr_len) s1; Some (b, s2) });
                if b' = 0 then Some s2
                else do {
                  s3 \<leftarrow> upd_buf b' (\<lambda>x. x\<lparr>nb_transport_header := nb_data x\<rparr>) s2;
                  ip_deliver recv call dev b' (ip_protocol ip) (ip_src_addr ip) (ip_dst_addr ip) s3 } } } } } })"

definition ethernet_input ::
  "(u32 \<Rightarrow> u32 \<Rightarrow> u32 \<Rightarrow> u32 \<Rightarrow> u16 \<Rightarrow> 'a tcp_env_scheme \<Rightarrow> 'a tcp_env_scheme option)
    \<Rightarrow> (tcp_callback \<Rightarrow> 'a tcp_env_scheme \<Rightarrow> 'a tcp_env_scheme option)
    \<Rightarrow> u32 \<Rightarrow> u32 \<Rightarrow> 'a tcp_env_scheme \<Rightarrow> 'a tcp_env_scheme option" where
  "ethernet_input recv call dev b s =
     (if dev = 0 \<or> b = 0 then Some s
      else do {
        buf \<leftarrow> ns_bufs s b;
        if nb_len buf < ETH_HEADER_LEN then netbuf_free b s
        else do {
          s1 \<leftarrow> upd_buf b (\<lambda>x. x\<lparr>nb_mac_header := nb_data x\<rparr>) s;
          hs \<leftarrow> nb_read s1 b (nb_data buf) 14;
          d \<leftarrow> ds_devs s1 dev;
          let dst = take 6 hs;
          if \<not> mac_addr_is_broadcast dst \<and> \<not> mac_addr_is_multicast dst \<and> dst \<noteq> nd_mac d then netbuf_free b s1
          else do {
            let type = ntohs (le16 (hs ! 12) (hs ! 13));
            (_, s2) \<leftarrow> netbuf_pull b ETH_HEADER_LEN s1;
            s3 \<leftarrow> upd_buf b (\<lambda>x. x\<lparr>nb_network_header := nb_data x\<rparr>) s2;
            if type = ETH_TYPE_ARP then arp_input dev b s3
            else if type = ETH_TYPE_IP then ip_input recv call dev b s3
            else netbuf_free b s3 } } })"

definition netdev_receive ::
  "(u32 \<Rightarrow> u32 \<Rightarrow> u32 \<Rightarrow> u32 \<Rightarrow> u16 \<Rightarrow> 'a tcp_env_scheme \<Rightarrow> 'a tcp_env_scheme option)
    \<Rightarrow> (tcp_callback \<Rightarrow> 'a tcp_env_scheme \<Rightarrow> 'a tcp_env_scheme option)
    \<Rightarrow> u32 \<Rightarrow> u32 \<Rightarrow> 'a tcp_env_scheme \<Rightarrow> 'a tcp_env_scheme option" where
  "netdev_receive recv call dev b s =
     (if dev = 0 \<or> b = 0 then Some s
      else do {
        d \<leftarrow> ds_devs s dev;
        if nd_state d \<noteq> NETDEV_UP
        then do { s1 \<leftarrow> netbuf_free b s; upd_dev dev (\<lambda>d. d\<lparr>nd_rx_dropped := nd_rx_dropped d + 1\<rparr>) s1 }
        else do {
          buf \<leftarrow> ns_bufs s b;
          s1 \<leftarrow> upd_dev dev (\<lambda>d. d\<lparr>nd_rx_packets := nd_rx_packets d + 1, nd_rx_bytes := nd_rx_bytes d + ucast (nb_len buf)\<rparr>) s;
          s2 \<leftarrow> upd_buf b (\<lambda>x. x\<lparr>nb_dev := dev\<rparr>) s1;
          ethernet_input recv call dev b s2 } })"

text \<open>The receive ring: a descriptor with the buffer it points to, and what \<^verbatim>\<open>e1000_device_t\<close> holds of the
  receiving side.  The embedded \<^verbatim>\<open>netdev\<close> is the device object under the address \<open>dev\<close>.\<close>

record e1000_rx_desc_t =
  rx_length :: u16
  rx_status :: u8
  rx_buffer :: "u8 list"

record e1000_rx_t =
  rx_descs :: "e1000_rx_desc_t list"
  rx_cur :: u32
  rx_packets :: u64
  rx_bytes :: u64
  rx_tail :: u32

abbreviation (input) E1000_RXD_STAT_DD :: u8 where "E1000_RXD_STAT_DD \<equiv> 1"

abbreviation (input) E1000_RXD_STAT_EOP :: u8 where "E1000_RXD_STAT_EOP \<equiv> 2"

abbreviation (input) E1000_NUM_RX_DESC :: nat where "E1000_NUM_RX_DESC \<equiv> 32"

abbreviation (input) E1000_RX_BUFFER_SIZE :: u16 where "E1000_RX_BUFFER_SIZE \<equiv> 2048"

text \<open>One descriptor: a complete frame of an acceptable length is copied into a packet buffer and handed on.\<close>

definition e1000_receive_one ::
  "(u32 \<Rightarrow> u32 \<Rightarrow> u32 \<Rightarrow> u32 \<Rightarrow> u16 \<Rightarrow> 'a tcp_env_scheme \<Rightarrow> 'a tcp_env_scheme option)
    \<Rightarrow> (tcp_callback \<Rightarrow> 'a tcp_env_scheme \<Rightarrow> 'a tcp_env_scheme option)
    \<Rightarrow> u32 \<Rightarrow> e1000_rx_desc_t \<Rightarrow> e1000_rx_t \<times> 'a tcp_env_scheme \<Rightarrow> (e1000_rx_t \<times> 'a tcp_env_scheme) option" where
  "e1000_receive_one recv call dev desc rs =
     (let (rx, s) = rs; len = rx_length desc
      in if rx_status desc AND E1000_RXD_STAT_EOP \<noteq> 0 \<and> len > 0 \<and> len \<le> E1000_RX_BUFFER_SIZE
         then let (b, s1) = netbuf_alloc (ucast len) s
              in if b = 0 then Some (rx, s1)
                 else do {
                   (p, s2) \<leftarrow> netbuf_put b (ucast len) s1;
                   s3 \<leftarrow> nb_write b p (take (unat len) (rx_buffer desc)) s2;
                   s4 \<leftarrow> upd_buf b (\<lambda>x. x\<lparr>nb_dev := dev\<rparr>) s3;
                   s5 \<leftarrow> netdev_receive recv call dev b s4;
                   Some (rx\<lparr>rx_packets := rx_packets rx + 1, rx_bytes := rx_bytes rx + ucast len\<rparr>, s5) }
         else Some (rx, s))"

text \<open>The loop, on the ring as the card has left it.  Every round gives one descriptor back, so one round more
  than there are descriptors is enough; running out of rounds is \<open>None\<close>.\<close>

primrec e1000_receive_loop ::
  "(u32 \<Rightarrow> u32 \<Rightarrow> u32 \<Rightarrow> u32 \<Rightarrow> u16 \<Rightarrow> 'a tcp_env_scheme \<Rightarrow> 'a tcp_env_scheme option)
    \<Rightarrow> (tcp_callback \<Rightarrow> 'a tcp_env_scheme \<Rightarrow> 'a tcp_env_scheme option)
    \<Rightarrow> u32 \<Rightarrow> nat \<Rightarrow> e1000_rx_t \<times> 'a tcp_env_scheme \<Rightarrow> (e1000_rx_t \<times> 'a tcp_env_scheme) option" where
  "e1000_receive_loop recv call dev 0 rs = None"
| "e1000_receive_loop recv call dev (Suc n) rs =
     (let cur = rx_cur (fst rs); desc = rx_descs (fst rs) ! unat cur
      in if rx_status desc AND E1000_RXD_STAT_DD = 0 then Some rs
         else do {
           (rx, s1) \<leftarrow> e1000_receive_one recv call dev desc rs;
           e1000_receive_loop recv call dev n
             (rx\<lparr>rx_descs := (rx_descs rx)[unat cur := desc\<lparr>rx_status := 0\<rparr>],
                 rx_cur := (cur + 1) mod of_nat E1000_NUM_RX_DESC, rx_tail := cur\<rparr>, s1) })"

definition e1000_receive ::
  "(u32 \<Rightarrow> u32 \<Rightarrow> u32 \<Rightarrow> u32 \<Rightarrow> u16 \<Rightarrow> 'a tcp_env_scheme \<Rightarrow> 'a tcp_env_scheme option)
    \<Rightarrow> (tcp_callback \<Rightarrow> 'a tcp_env_scheme \<Rightarrow> 'a tcp_env_scheme option)
    \<Rightarrow> u32 \<Rightarrow> e1000_rx_t \<times> 'a tcp_env_scheme \<Rightarrow> (e1000_rx_t \<times> 'a tcp_env_scheme) option" where
  "e1000_receive recv call dev rs = e1000_receive_loop recv call dev (Suc E1000_NUM_RX_DESC) rs"

text \<open>Start-up of the protocols, and the configuration of the default device from text.\<close>

definition net_init :: "'a tcp_env_scheme \<Rightarrow> 'a tcp_env_scheme" where
  "net_init s = tcp_init (udp_init (icmp_init (ip_init (arp_init (netdev_init s)))))"

definition net_configure :: "string \<Rightarrow> string \<Rightarrow> string \<Rightarrow> 'a dev_state_scheme \<Rightarrow> (int \<times> 'a dev_state_scheme) option" where
  "net_configure ip netmask gateway s =
     (let dev = netdev_get_default s
      in if dev = 0 then Some (-1, s)
         else case (str_to_ip ip, str_to_ip netmask, str_to_ip gateway) of
                (Some ip_addr, Some mask_addr, Some gw_addr) \<Rightarrow> do {
                  s1 \<leftarrow> netdev_set_ipaddr dev ip_addr s;
                  s2 \<leftarrow> netdev_set_netmask dev mask_addr s1;
                  s3 \<leftarrow> netdev_set_gateway dev gw_addr s2;
                  Some (0, s3) }
              | _ \<Rightarrow> Some (-1, s))"

section \<open>Reassembly\<close>

lemma reass_keep [simp]:
  fixes s :: "'a udp_env_scheme"
  shows "udp_ok (s\<lparr>is_reass := rs\<rparr>) = udp_ok s" "owned b (s\<lparr>is_reass := rs\<rparr>) = owned b s" "held b (s\<lparr>is_reass := rs\<rparr>) = held b s"
    "contents (s\<lparr>is_reass := rs\<rparr>) b = contents s b" "header_inside (s\<lparr>is_reass := rs\<rparr>) b = header_inside s b"
    "udp_env.more (s\<lparr>is_reass := rs\<rparr>) = udp_env.more s" "icmp_env.more (s\<lparr>is_reass := rs\<rparr>) = icmp_env.more s"
proof -
  have p: "pend (s\<lparr>is_reass := rs\<rparr>) = pend s" by (simp add: pend_def pq_def)
  have q: "queue_of (s\<lparr>is_reass := rs\<rparr>) = queue_of s" by (simp add: queue_of_def fun_eq_iff)
  have o: "owned b (s\<lparr>is_reass := rs\<rparr>) = owned b s" for b by (simp add: owned_def p)
  have d: "queued (s\<lparr>is_reass := rs\<rparr>) = queued s" by (simp add: queued_def q)
  show "udp_ok (s\<lparr>is_reass := rs\<rparr>) = udp_ok s"
    by (simp add: udp_ok_def q d o arp_ok_def dev_ok_def net_ok_def used_def pq_def p routes_ok_def)
  show "owned b (s\<lparr>is_reass := rs\<rparr>) = owned b s" "held b (s\<lparr>is_reass := rs\<rparr>) = held b s"
    by (simp_all add: held_def o d)
qed (simp_all add: contents_def header_inside_def)

lemma kept_reass:
  fixes s s' :: "'a udp_env_scheme"
  assumes "kept B s s'" "udp_ok s'"
  shows "kept B s (s'\<lparr>is_reass := rs\<rparr>)"
  using assms(1) udp_okD(1)[of "s'\<lparr>is_reass := rs\<rparr>"] assms(2) by (simp add: kept_def)

text \<open>The fragments of the table carry data, and their length field is the number of their bytes.\<close>

definition fragment_ok :: "ip_fragment_t \<Rightarrow> bool" where
  "fragment_ok f \<longleftrightarrow> fr_data f \<noteq> [] \<and> unat (fr_len f) = length (fr_data f)"

definition reass_ok :: "'a ip_env_scheme \<Rightarrow> bool" where
  "reass_ok s \<longleftrightarrow> length (is_reass s) = IP_REASS_MAX_ENTRIES \<and> (\<forall>r\<in>set (is_reass s). \<forall>f\<in>set (ra_fragments r). fragment_ok f)"

text \<open>Room for a further fragment of \<open>n\<close> bytes, in every entry, below the 1920 bytes a buffer holds.\<close>

definition reass_room :: "nat \<Rightarrow> 'a ip_env_scheme \<Rightarrow> bool" where
  "reass_room n s \<longleftrightarrow> (\<forall>r\<in>set (is_reass s). length (payload (ra_fragments r)) + n \<le> 1920)"

lemma contiguous_cut:
  assumes "\<forall>f\<in>set fs. fragment_ok f" "k + length (payload fs) < 65536" "contiguous (of_nat k) fs = Some e"
  shows "cut_from k fs \<and> e = of_nat (k + length (payload fs))"
  using assms
proof (induction fs arbitrary: k)
  case (Cons f fs)
  have off: "fr_offset f = of_nat k" and rest: "contiguous (of_nat k + fr_len f) fs = Some e"
    using Cons.prems(3) by (auto split: if_splits)
  have f: "fr_data f \<noteq> []" "unat (fr_len f) = length (fr_data f)" using Cons.prems(1) by (auto simp: fragment_ok_def)
  have "unat (fr_offset f) = k" using off Cons.prems(2) by (simp add: unat_of_nat)
  moreover have "fr_len f = of_nat (length (fr_data f))" using f(2) by (metis of_nat_unat ucast_id)
  then have "contiguous (of_nat (k + length (fr_data f))) fs = Some e" using rest by simp
  from Cons.IH[OF _ _ this] Cons.prems(1,2) have "cut_from (k + length (fr_data f)) fs
      \<and> e = of_nat (k + length (fr_data f) + length (payload fs))" by (simp add: add.assoc)
  ultimately show ?case using f by (simp add: add.assoc)
qed simp

lemma insert_fragment_set:
  assumes "insert_fragment f gs = Some hs"
  shows "set hs = insert f (set gs) \<and> length (payload hs) = length (fr_data f) + length (payload gs)"
  using assms
proof (induction gs arbitrary: hs)
  case (Cons g gs)
  show ?case
  proof (cases "fr_offset g < fr_offset f")
    case True
    then obtain hs' where h: "insert_fragment f gs = Some hs'" "hs = g # hs'" using Cons.prems by auto
    then show ?thesis using Cons.IH[OF h(1)] by auto
  next
    case False
    then show ?thesis using Cons.prems by (auto split: if_splits)
  qed
qed auto

lemma reass_ok_upd:
  assumes "reass_ok s" "\<forall>f\<in>set (ra_fragments r). fragment_ok f"
  shows "reass_ok (s\<lparr>is_reass := (is_reass s)[i := r]\<rparr>)"
  using assms by (auto simp: reass_ok_def dest!: subsetD[OF set_update_subset_insert])

text \<open>What remains of the machine when the lower layers have worked and the table of fragments may have changed.\<close>

definition rstep :: "u32 set \<Rightarrow> 'a udp_env_scheme \<Rightarrow> 'a udp_env_scheme \<Rightarrow> bool" where
  "rstep B s s' \<longleftrightarrow> udp_ok s' \<and> kept B s s' \<and> udp_env.more s' = udp_env.more s"

lemma rstep_trans: "rstep A s s' \<Longrightarrow> rstep B s' s'' \<Longrightarrow> rstep (A \<union> B) s s''"
  unfolding rstep_def using kept_trans by metis

lemma rstep_trans1: "rstep B s s' \<Longrightarrow> rstep B s' s'' \<Longrightarrow> rstep B s s''"
  unfolding rstep_def using kept_trans1 by metis

lemma rstep_refl: "udp_ok s \<Longrightarrow> rstep B s s"
  by (simp add: rstep_def kept_refl udp_okD(1))

lemma rstep_reass: "rstep B s s' \<Longrightarrow> rstep B s (s'\<lparr>is_reass := rs\<rparr>)"
  by (auto simp: rstep_def intro: kept_reass)

lemma rstep_tcp:
  assumes "rstep B s s'" "tcp_ok s"
  shows "tcp_ok s'"
proof -
  have u: "udp_ok s'" "udp_env.more s' = udp_env.more s" using assms(1) by (simp_all add: rstep_def)
  show ?thesis using assms(2) u(1) more_tcp[OF u(2)] unfolding tcp_ok_def tcp_inv_def tcp_lists_def by simp
qed

lemma held_alloc:
  fixes s :: "'a udp_env_scheme"
  assumes ok: "udp_ok s" and sz: "unat sz < 4294967168" and a: "netbuf_alloc sz s = (b, s1)"
  shows "rstep {} s s1" "same_env s s1" "b \<noteq> 0 \<Longrightarrow> held b s1 \<and> \<not> owned b s \<and> contents s1 b = Some (fresh_packet sz)"
proof -
  note al = alloc_step[OF udp_okD(1)[OF ok] sz a]
  have m: "icmp_env.more s1 = icmp_env.more s" using more_icmp(5)[OF same_env_path(4)[OF al(2)]] .
  have k: "kept {} s s1" using arp_step_kept[OF al(1)] .
  have u: "udp_ok s1" "queued s1 = queued s" using udp_ok_kept[OF ok k m] by simp_all
  show "rstep {} s s1" using u k more_udp(4)[OF m] by (simp add: rstep_def)
  show "same_env s s1" by (rule al(2))
  show "held b s1 \<and> \<not> owned b s \<and> contents s1 b = Some (fresh_packet sz)" if b: "b \<noteq> 0"
  proof -
    have c: "contents s1 b = Some (fresh_packet sz)" using al(4)[OF b] .
    then have "ns_bufs s1 b \<noteq> None" by (auto simp: contents_def bind_eq_Some_conv)
    moreover have no: "\<not> owned b s" using al(3)[OF b] by (simp add: owned_def)
    moreover have "b \<notin> queued s" using no udp_okD(8)[OF ok] by blast
    ultimately show ?thesis using b al(5) c u(2) by (simp add: held_def owned_def)
  qed
qed

lemma rstep_buf:
  fixes s :: "'a udp_env_scheme"
  assumes "udp_ok s" "held b s" "buf_step b c s s'"
  shows "rstep {b} s s'" "held b s'" "contents s' b = Some c" "is_reass s' = is_reass s" "same_env s s'"
  using udp_buf_step[OF assms] assms(3) by (simp_all add: rstep_def buf_step_def)

lemma rstep_new: "rstep {b} s s' \<Longrightarrow> \<not> owned b s \<Longrightarrow> rstep {} s s'"
  unfolding rstep_def using kept_new by blast

lemma rstep_mono: "rstep A s s' \<Longrightarrow> A \<subseteq> B \<Longrightarrow> rstep B s s'"
  unfolding rstep_def using kept_mono by blast

text \<open>A completed datagram is in a buffer of its own; an incomplete one leaves the machine as it is.\<close>

definition whole :: "u32 \<Rightarrow> 'a udp_env_scheme \<Rightarrow> 'a udp_env_scheme \<Rightarrow> bool" where
  "whole b s s' \<longleftrightarrow> b \<noteq> 0 \<longrightarrow> held b s' \<and> \<not> owned b s \<and> header_inside s' b
     \<and> (\<exists>pre pay post. contents s' b = Some (pre, pay, post) \<and> length pay \<le> 1920)"

lemma whole_0: "whole 0 s s'"
  by (simp add: whole_def)

lemma fresh_header:
  assumes "net_ok s" "ns_bufs s b = Some buf" "nb_network_header buf = 0"
  shows "header_inside s b"
  using assms unfolding header_inside_def net_ok_def by blast

lemma put_header:
  assumes "netbuf_put b n s = Some (p, s')" "ns_bufs s b = Some buf"
  shows "\<exists>buf'. ns_bufs s' b = Some buf' \<and> nb_network_header buf' = nb_network_header buf"
  using assms by (auto simp: netbuf_put_def upd_buf_def bind_eq_Some_conv Let_def split: if_splits)

lemma ip_reass_complete_step:
  fixes s :: "'a udp_env_scheme"
  assumes ok: "udp_ok s" "reass_ok s" and i: "i < IP_REASS_MAX_ENTRIES"
    and len: "length (payload (ra_fragments (is_reass s ! i))) \<le> 1920"
  obtains b s' where "ip_reass_complete i dev protocol s = Some (b, s')" "rstep {} s s'" "reass_ok s'" "whole b s s'"
proof -
  let ?r = "is_reass s ! i" and ?fs = "ra_fragments (is_reass s ! i)"
  let ?L = "length (payload ?fs)"
  have fok: "\<forall>f\<in>set ?fs. fragment_ok f" using ok(2) i by (auto simp: reass_ok_def)
  show ?thesis
  proof (cases "ra_total_len ?r \<noteq> 0 \<and> contiguous 0 ?fs = Some (ra_total_len ?r)")
    case False
    then have "ip_reass_complete i dev protocol s = Some (0, s)" by (auto simp: ip_reass_complete_def Let_def split: option.split)
    then show ?thesis by (rule that) (use ok in \<open>simp_all add: rstep_refl whole_def\<close>)
  next
    case True
    have cut: "cut_from 0 ?fs" and tl: "ra_total_len ?r = of_nat ?L"
      using contiguous_cut[OF fok, of 0] True len by auto
    have uL: "unat (of_nat ?L :: u16) = ?L" using len by (simp add: unat_of_nat)
    have uc: "(ucast (of_nat ?L :: u16) :: u32) = of_nat ?L" using uL by (metis of_nat_unat)
    have uL32: "unat (of_nat ?L :: u32) = ?L" using len by (simp add: unat_of_nat_u32)
    have sz: "unat (of_nat ?L :: u32) < 4294967168" using uL32 len by simp
    obtain b s1 where a: "netbuf_alloc (of_nat ?L) s = (b, s1)" by fastforce
    note al = held_alloc[OF ok(1) sz a]
    have r1: "is_reass s1 = is_reass s" using same_env_path(3)[OF al(2)] .
    show ?thesis
    proof (cases "b = 0")
      case True
      have "ip_reass_complete i dev protocol s = Some (0, s1)"
        using True a \<open>ra_total_len ?r \<noteq> 0 \<and> _\<close> by (simp add: ip_reass_complete_def Let_def tl uc)
      then show ?thesis by (rule that) (use al(1) ok r1 in \<open>simp_all add: reass_ok_def whole_def\<close>)
    next
      case False
      note b1 = al(3)[OF False]
      have n1: "net_ok s1" using al(1) by (simp add: rstep_def udp_okD(1) arp_okD(2))
      have c1: "contents s1 b = Some (replicate 128 0, [], replicate ?L 0)" using b1 len uL32 by (simp add: fresh_packet_def)
      obtain p s2 buf where s2: "netbuf_put b (of_nat ?L) s1 = Some (p, s2)"
        "buf_step b (replicate 128 0, replicate ?L 0, []) s1 s2" "ns_bufs s2 b = Some buf" "p = nb_data buf"
        by (rule put_fresh[OF n1 c1])
      have c2: "net_ok s2" "contents s2 b = Some (replicate 128 0, [] @ replicate ?L 0, [])"
        using s2(2) by (simp_all add: buf_step_def)
      obtain s3 where s3: "foldM (\<lambda>f s. nb_write b (nb_data buf + ucast (fr_offset f)) (fr_data f) s) ?fs s2 = Some s3"
        "buf_step b (replicate 128 0, [] @ payload ?fs, []) s2 s3" "ns_bufs s3 = ns_bufs s2"
        by (rule write_fragments[OF c2 s2(3)]) (use cut in simp)
      have c3: "net_ok s3" "contents s3 b = Some (replicate 128 0, payload ?fs, [])" using s3(2) by (simp_all add: buf_step_def)
      have b3: "ns_bufs s3 b = Some buf" using s3(3) s2(3) by simp
      obtain s4 where s4: "upd_buf b (\<lambda>x. x\<lparr>nb_dev := dev\<rparr>) s3 = Some s4" "buf_step b (replicate 128 0, payload ?fs, []) s3 s4"
        "ns_bufs s4 b = Some (buf\<lparr>nb_dev := dev\<rparr>)"
        using upd_buf_meta[OF c3 b3, of "\<lambda>x. x\<lparr>nb_dev := dev\<rparr>"] by auto
      have st: "buf_step b (replicate 128 0, payload ?fs, []) s1 s4"
        using s2(2) s3(2) s4(2) buf_step_trans by blast
      note rs = rstep_buf[OF _ conjunct1[OF b1] st]
      have u1: "udp_ok s1" using al(1) by (simp add: rstep_def)
      have run: "ip_reass_complete i dev protocol s = Some (b, ip_reass_free i s4)"
        using True a False s2(1,4) s3(1) s4(1) by (simp add: ip_reass_complete_def Let_def tl uc)
      have R: "rstep {} s (ip_reass_free i s4)"
        using rstep_new[OF rstep_trans1[OF rstep_mono[OF al(1)] rs(1)[OF u1]]] b1 by (simp add: ip_reass_free_def rstep_reass)
      have nh: "nb_network_header buf = 0"
      proof -
        obtain buf1 where b1': "ns_bufs s1 b = Some buf1" "nb_network_header buf1 = 0"
          using alloc_step(6)[OF udp_okD(1)[OF ok(1)] sz a False] by force
        then show ?thesis using put_header[OF s2(1) b1'(1)] s2(3) by auto
      qed
      have "header_inside s4 b" using s4(2,3) nh by (intro fresh_header[OF _ s4(3)]) (simp_all add: buf_step_def)
      then have W: "whole b s (ip_reass_free i s4)"
        using b1 rs(2,3)[OF u1] len by (simp add: whole_def ip_reass_free_def)
      have "reass_ok (ip_reass_free i s4)"
        unfolding ip_reass_free_def by (rule reass_ok_upd) (use rs(4)[OF u1] r1 ok(2) in \<open>simp_all add: reass_ok_def\<close>)
      from run R this W show ?thesis by (rule that)
    qed
  qed
qed

lemma ip_reass_find_cases:
  assumes ok: "reass_ok s" and room: "reass_room n s" and n: "n \<le> 1920"
    and f: "ip_reass_find src dst ident proto s = (entry, s1)"
  obtains rs where "s1 = s\<lparr>is_reass := rs\<rparr>" "reass_ok s1" "reass_room n s1" "\<And>i. entry = Some i \<Longrightarrow> i < IP_REASS_MAX_ENTRIES"
proof -
  let ?new = "new_reass src dst ident proto (ns_now s + IP_REASS_TIMEOUT)"
  have frs: "ra_fragments ?new = []" by (simp add: new_reass_def zero_reass_def)
  have i: "i < IP_REASS_MAX_ENTRIES" if "find P [0..<length (is_reass s)] = Some i" for P i
    using that ok by (auto simp: find_Some_iff reass_ok_def)
  let ?P1 = "\<lambda>i. ra_valid (is_reass s ! i) \<and> ra_src_ip (is_reass s ! i) = src \<and> ra_dst_ip (is_reass s ! i) = dst
                      \<and> ra_id (is_reass s ! i) = ident \<and> ra_protocol (is_reass s ! i) = proto"
  let ?P2 = "\<lambda>i. \<not> ra_valid (is_reass s ! i)"
  let ?P3 = "\<lambda>i. ra_valid (is_reass s ! i) \<and> ns_now s \<ge> ra_timeout (is_reass s ! i)"
  have bound: "j < IP_REASS_MAX_ENTRIES" if "entry = Some j" for j
    using f that i[of ?P1 j] i[of ?P2 j] i[of ?P3 j] unfolding ip_reass_find_def Let_def
    by (simp split: option.splits)
  have "s1 = s \<or> (\<exists>k. s1 = s\<lparr>is_reass := (is_reass s)[k := ?new]\<rparr>)"
    using f unfolding ip_reass_find_def Let_def by (simp split: option.splits) blast+
  then consider "s1 = s" | k where "s1 = s\<lparr>is_reass := (is_reass s)[k := ?new]\<rparr>" by blast
  then show ?thesis
  proof cases
    case 1
    show ?thesis by (rule that[of "is_reass s"]) (use 1 ok room bound in simp_all)
  next
    case 2
    have "reass_ok s1" unfolding 2(1) by (rule reass_ok_upd[OF ok]) (simp add: frs)
    moreover have "reass_room n s1"
      using room n unfolding 2(1) reass_room_def by (auto simp: frs dest!: subsetD[OF set_update_subset_insert])
    ultimately show ?thesis by (rule that[OF 2(1)]) (rule bound)
  qed
qed

lemma alloc_fragment_state: "alloc_fragment len s = (ok, s') \<Longrightarrow> (\<exists>ks. s' = s\<lparr>ns_kmalloc := ks\<rparr>) \<and> (ok \<longrightarrow> len \<noteq> 0)"
proof -
  assume run: "alloc_fragment len s = (ok, s')"
  obtain a s1 where a: "kmalloc_next (\<lambda>_. False) s = (a, s1)" by fastforce
  obtain d s2 where d: "kmalloc_next (\<lambda>_. False) s1 = (d, s2)" by fastforce
  obtain ks where ks: "s1 = s\<lparr>ns_kmalloc := ks\<rparr>" using kmalloc_next_state[OF a] by blast
  obtain ks' where "s2 = s1\<lparr>ns_kmalloc := ks'\<rparr>" using kmalloc_next_state[OF d] by blast
  then show ?thesis using run ks d[unfolded ks] by (auto simp: alloc_fragment_def a split: if_splits)
qed

lemma unat_ucast_u8_u16: "unat (ucast (x :: u8) :: u16) = unat x"
proof -
  have "unat x < 2 ^ LENGTH(8)" by (rule unsigned_less)
  then show ?thesis by (simp add: unsigned_ucast_eq take_bit_eq_mod)
qed

lemma unat_ucast_u16_u32: "unat (ucast (x :: u16) :: u32) = unat x"
proof -
  have "unat x < 2 ^ LENGTH(16)" by (rule unsigned_less)
  then show ?thesis by (simp add: unsigned_ucast_eq take_bit_eq_mod)
qed

text \<open>Storing a fragment touches the list of allocations and one entry of the table.\<close>

lemma ip_reass_add_fragment_step:
  assumes ok: "reass_ok s" and room: "reass_room (length data) s" and i: "i < IP_REASS_MAX_ENTRIES"
    and len: "unat len = length data"
    and run: "ip_reass_add_fragment i offset data len mf s = (ret, s')"
  obtains ks rs where "s' = s\<lparr>ns_kmalloc := ks, is_reass := rs\<rparr>" "reass_ok s'" "length (payload (ra_fragments (is_reass s' ! i))) \<le> 1920"
proof -
  let ?s1 = "if \<not> mf then upd_reass i (\<lambda>r. r\<lparr>ra_total_len := offset + len\<rparr>) s else s"
  obtain a s2 where a: "alloc_fragment len ?s1 = (a, s2)" by fastforce
  obtain ks where s2: "s2 = ?s1\<lparr>ns_kmalloc := ks\<rparr>" "a \<longrightarrow> len \<noteq> 0" using alloc_fragment_state[OF a] by blast
  have il: "i < length (is_reass s)" using ok i by (simp add: reass_ok_def)
  have fr: "ra_fragments (is_reass s2 ! i) = ra_fragments (is_reass s ! i)" using il by (simp add: s2(1) upd_reass_def)
  have fok: "\<forall>f\<in>set (ra_fragments (is_reass s ! i)). fragment_ok f" using ok il by (auto simp: reass_ok_def)
  have sz: "length (payload (ra_fragments (is_reass s ! i))) + length data \<le> 1920" using room il by (auto simp: reass_room_def)
  have e2: "\<exists>rs. s2 = s\<lparr>ns_kmalloc := ks, is_reass := rs\<rparr>" by (rule exI[of _ "is_reass s2"]) (simp add: s2(1) upd_reass_def)
  have ok2: "reass_ok s2"
  proof -
    have "reass_ok ?s1" using reass_ok_upd[OF ok, of "(is_reass s ! i)\<lparr>ra_total_len := offset + len\<rparr>"] ok fok by (simp add: upd_reass_def)
    then show ?thesis by (simp add: s2(1) reass_ok_def)
  qed
  let ?f = "\<lparr>fr_offset = offset, fr_len = len, fr_data = data\<rparr>"
  show ?thesis
  proof (cases "a \<and> insert_fragment ?f (ra_fragments (is_reass s2 ! i)) \<noteq> None")
    case False
    then have "s' = s2" using run unfolding ip_reass_add_fragment_def Let_def a by (auto split: option.splits if_splits)
    then show ?thesis using e2 ok2 fr sz that by auto
  next
    case True
    then obtain frs where frs: "insert_fragment ?f (ra_fragments (is_reass s2 ! i)) = Some frs" by auto
    have s': "s' = upd_reass i (\<lambda>r. r\<lparr>ra_fragments := frs, ra_received_len := ra_received_len r + len\<rparr>) s2"
      using run True frs unfolding ip_reass_add_fragment_def Let_def a by auto
    note fs = insert_fragment_set[OF frs[unfolded fr]]
    have "fragment_ok ?f" using s2(2) True len by (auto simp: fragment_ok_def unat_eq_0)
    then have "\<forall>f\<in>set frs. fragment_ok f" using fs fok by auto
    then have "reass_ok s'" unfolding s' upd_reass_def by (intro reass_ok_upd[OF ok2]) simp
    moreover have "length (is_reass s2) = length (is_reass s)" using ok2 ok by (simp add: reass_ok_def)
    then have "ra_fragments (is_reass s' ! i) = frs" using il by (simp add: s' upd_reass_def)
    then have "length (payload (ra_fragments (is_reass s' ! i))) \<le> 1920" using fs sz by simp
    moreover have "\<exists>rs. s' = s\<lparr>ns_kmalloc := ks, is_reass := rs\<rparr>" using e2 by (auto simp: s' upd_reass_def)
    ultimately show ?thesis using that by blast
  qed
qed

lemma rstep_kmalloc:
  fixes s :: "'a tcp_env_scheme"
  assumes "udp_ok s"
  shows "rstep B s (s\<lparr>ns_kmalloc := ks\<rparr>)" "held b (s\<lparr>ns_kmalloc := ks\<rparr>) = held b s"
proof -
  have t: "tstep B s (s\<lparr>ns_kmalloc := ks\<rparr>)" for B by (rule tstep_kmalloc[OF assms])
  then show "rstep B s (s\<lparr>ns_kmalloc := ks\<rparr>)" by (simp add: rstep_def tstep_def)
  have "pend (s\<lparr>ns_kmalloc := ks\<rparr>) = pend s" "queued (s\<lparr>ns_kmalloc := ks\<rparr>) = queued s"
    by (simp_all add: pend_def pq_def queued_def queue_of_def)
  then show "held b (s\<lparr>ns_kmalloc := ks\<rparr>) = held b s" by (simp add: held_def owned_def)
qed

lemma rstep_release:
  fixes s :: "'a udp_env_scheme"
  assumes "udp_ok s" "held b s"
  obtains s' where "netbuf_free b s = Some s'" "rstep {b} s s'" "is_reass s' = is_reass s" "ns_bufs s' b = None"
proof -
  obtain s' where s': "netbuf_free b s = Some s'" "udp_ok s'" "kept {b} s s'" "is_reass s' = is_reass s"
    "udp_env.more s' = udp_env.more s" by (rule udp_release[OF assms])
  have "owned b s" using assms(2) by (simp add: held_def)
  then obtain s'' where "netbuf_free b s = Some s''" "ns_bufs s'' b = None"
    using netbuf_free_kept[OF udp_okD(1)[OF assms(1)]] by metis
  then have "ns_bufs s' b = None" using s'(1) by simp
  then show ?thesis using that s' by (simp add: rstep_def)
qed

lemma ip_reassemble_step:
  fixes s :: "'a tcp_env_scheme"
  assumes ok: "udp_ok s" "reass_ok s" and h: "held b s" and c: "contents s b = Some (pre, pay, post)"
    and hl: "unat (ip_header_len ip) \<le> unat (ntohs (ip_total_length ip))" "unat (ntohs (ip_total_length ip)) \<le> length pay"
    and room: "reass_room (unat (ntohs (ip_total_length ip)) - unat (ip_header_len ip)) s" and n: "length pay \<le> 1920"
  obtains b' s' where "ip_reassemble dev b ip s = Some (b', s')" "rstep {b} s s'" "reass_ok s'" "b' \<noteq> 0 \<longrightarrow> held b' s' \<and> header_inside s' b'
    \<and> (owned b' s \<longrightarrow> b' = b) \<and> (\<exists>pre pay post. contents s' b' = Some (pre, pay, post) \<and> length pay \<le> 1920)"
proof -
  let ?hl = "ip_header_len ip" and ?tl = "ntohs (ip_total_length ip)"
  let ?n = "unat ?tl - unat ?hl"
  let ?ff = "ntohs (ip_flags_fragment ip)"
  obtain entry s1 where f: "ip_reass_find (ip_src_addr ip) (ip_dst_addr ip) (ntohs (ip_identification ip)) (ip_protocol ip) s = (entry, s1)"
    by fastforce
  have n': "?n \<le> 1920" using hl n by simp
  obtain rs where s1: "s1 = s\<lparr>is_reass := rs\<rparr>" "reass_ok s1" "reass_room ?n s1" "\<And>i. entry = Some i \<Longrightarrow> i < IP_REASS_MAX_ENTRIES"
    using ip_reass_find_cases[OF ok(2) room n' f] by blast
  have u1: "udp_ok s1" "held b s1" "contents s1 b = Some (pre, pay, post)" using ok h c by (simp_all add: s1(1))
  have R1: "rstep {b} s s1" unfolding s1(1) by (rule rstep_reass[OF rstep_refl[OF ok(1)]])
  show ?thesis
  proof (cases entry)
    case None
    obtain s2 where s2: "netbuf_free b s1 = Some s2" "rstep {b} s1 s2" "is_reass s2 = is_reass s1"
      by (rule rstep_release[OF u1(1,2)])
    have "ip_reassemble dev b ip s = Some (0, s2)" using f None s2(1) by (simp add: ip_reassemble_def Let_def)
    then show ?thesis by (rule that) (use rstep_trans1[OF R1 s2(2)] s1(2) s2(3) in \<open>simp_all add: reass_ok_def\<close>)
  next
    case (Some i)
    obtain buf where buf: "ns_bufs s1 b = Some buf" using u1(2) by (auto simp: held_def owned_def)
    have dl: "unat (?tl - ucast ?hl) = ?n" using hl(1) by (simp add: unat_sub word_le_nat_alt unat_ucast_u8_u16)
    let ?data = "take ?n (drop (unat ?hl) pay)"
    have uhl: "(ucast ?hl :: u32) = of_nat (unat ?hl)" by simp
    have rd: "nb_read s1 b (nb_data buf + ucast ?hl) ?n = Some ?data"
      unfolding uhl by (rule nb_read_data[OF _ u1(3) buf]) (use hl u1(1) in \<open>simp_all add: udp_okD(1) arp_okD(2)\<close>)
    have ld: "length ?data = ?n" using hl by simp
    obtain ret s2 where a: "ip_reass_add_fragment i ((?ff AND IP_FRAG_OFFSET_MASK) * 8) ?data (?tl - ucast ?hl) (?ff AND IP_FLAG_MF \<noteq> 0) s1 = (ret, s2)"
      by fastforce
    obtain ks rs2 where s2: "s2 = s1\<lparr>ns_kmalloc := ks, is_reass := rs2\<rparr>" "reass_ok s2"
        "length (payload (ra_fragments (is_reass s2 ! i))) \<le> 1920"
      by (rule ip_reass_add_fragment_step[OF s1(2) _ s1(4)[OF Some] _ a]) (use s1(3) ld dl in simp_all)
    have R2: "rstep {b} s1 s2" unfolding s2(1) by (rule rstep_reass[OF rstep_kmalloc(1)[OF u1(1)]])
    have u2: "udp_ok s2" "held b s2" using R2 u1(2) rstep_kmalloc(2)[OF u1(1)] unfolding s2(1) by (simp_all add: rstep_def)
    obtain s3 where s3: "netbuf_free b s2 = Some s3" "rstep {b} s2 s3" "is_reass s3 = is_reass s2" "ns_bufs s3 b = None"
      by (rule rstep_release[OF u2])
    have R3: "rstep {b} s s3" using rstep_trans1[OF R1 rstep_trans1[OF R2 s3(2)]] .
    have ok3: "udp_ok s3" "reass_ok s3" using s3(2,3) s2(2) by (simp_all add: rstep_def reass_ok_def)
    have run: "ip_reassemble dev b ip s = (if ret < 0 then Some (0, s3) else ip_reass_complete i dev (is_released s3 (nb_data buf + 9)) s3)"
      using f Some buf rd a s3(1) by (simp add: ip_reassemble_def Let_def dl)
    show ?thesis
    proof (cases "ret < 0")
      case True
      then show ?thesis by (intro that[of 0 s3]) (use run R3 ok3 in simp_all)
    next
      case False
      obtain b' s' where s': "ip_reass_complete i dev (is_released s3 (nb_data buf + 9)) s3 = Some (b', s')" "rstep {} s3 s'" "reass_ok s'" "whole b' s3 s'"
        by (rule ip_reass_complete_step[OF ok3 s1(4)[OF Some]]) (use s2(3) s3(3) in simp)
      have o: "owned b' s \<longrightarrow> b' = b" if "b' \<noteq> 0"
        using s'(4) that kept_owned(1)[of "{b}" s s3 b'] R3 by (auto simp: whole_def rstep_def)
      show ?thesis
        by (rule that[of b' s']) (use run False s' o rstep_trans1[OF R3 rstep_mono[OF s'(2)]] in \<open>auto simp: whole_def\<close>)
    qed
  qed
qed

section \<open>The network layer\<close>

text \<open>The tests of \<^verbatim>\<open>ip_input\<close>, on the bytes of the packet.\<close>

definition ip_accepts :: "u8 list \<Rightarrow> netdev_t \<Rightarrow> bool" where
  "ip_accepts pay d \<longleftrightarrow> 20 \<le> length pay \<and> (let ip = ip_header_of (take 20 pay); hl = unat (ip_header_len ip); n = unat (ntohs (ip_total_length ip)) in
     ip_version ip = 4 \<and> 20 \<le> hl \<and> hl \<le> length pay \<and> ip_checksum (take hl pay) = 0 \<and> hl \<le> n \<and> n \<le> length pay
     \<and> is_for_us (ip_dst_addr ip) d)"

definition ip_fragmented :: "ip_header_t \<Rightarrow> bool" where
  "ip_fragmented ip \<longleftrightarrow> ntohs (ip_flags_fragment ip) AND IP_FLAG_MF \<noteq> 0 \<or> ntohs (ip_flags_fragment ip) AND IP_FRAG_OFFSET_MASK \<noteq> 0"

lemma nb_len_contents:
  assumes "net_ok s" "contents s b = Some (pre, pay, post)" "ns_bufs s b = Some buf"
  shows "unat (nb_len buf) = length pay" "length pay \<le> 2048"
proof -
  obtain bs where bs: "ns_blocks s (nb_head buf) = Some bs" "buf_ok buf bs" using assms(1,3) unfolding net_ok_def by blast
  have "(pre, pay, post) = split_at (unat (nb_data buf - nb_head buf)) (unat (nb_tail buf - nb_head buf)) bs"
    using assms(2,3) bs(1) by (simp add: contents_def)
  then show "unat (nb_len buf) = length pay" "length pay \<le> 2048" using bs(2) by (auto simp: buf_ok_def split_at_def)
qed

lemma upd_buf_blocks: "upd_buf b f s = Some s' \<Longrightarrow> ns_blocks s' = ns_blocks s"
  by (auto simp: upd_buf_def bind_eq_Some_conv)

lemma netbuf_pull_blocks: "netbuf_pull b n s = Some (p, s') \<Longrightarrow> ns_blocks s' = ns_blocks s"
  by (auto simp: netbuf_pull_def bind_eq_Some_conv Let_def dest: upd_buf_blocks split: if_splits)

lemma ip_input_cases:
  fixes s :: "'a tcp_env_scheme"
  assumes ok: "udp_ok s" and h: "held b s" and c: "contents s b = Some (pre, pay, post)" and d: "ds_devs s dev = Some d"
  obtains (bad) s' where "\<not> ip_accepts pay d" "ip_input recv call dev b s = Some s'" "rstep {b} s s'" "is_reass s' = is_reass s"
  | (good) buf s1 where "ip_accepts pay d" "ns_bufs s b = Some buf" "buf_step b (pre, pay, post) s s1"
      "ns_bufs s1 b = Some (buf\<lparr>nb_network_header := nb_data buf\<rparr>)" "ns_blocks s1 = ns_blocks s"
      "ip_input recv call dev b s = (let ip = ip_header_of (take 20 pay) in do {
         (b', s2) \<leftarrow> (if ip_fragmented ip then ip_reassemble dev b ip s1
                     else do { (_, s2) \<leftarrow> netbuf_pull b (ucast (ip_header_len ip)) s1; Some (b, s2) });
         if b' = 0 then Some s2
         else do {
           s3 \<leftarrow> upd_buf b' (\<lambda>x. x\<lparr>nb_transport_header := nb_data x\<rparr>) s2;
           ip_deliver recv call dev b' (ip_protocol ip) (ip_src_addr ip) (ip_dst_addr ip) s3 } })"
proof -
  obtain buf where buf: "ns_bufs s b = Some buf" using h by (auto simp: held_def owned_def)
  have n: "net_ok s" using ok by (simp add: udp_okD(1) arp_okD(2))
  note len = nb_len_contents(1)[OF n c buf]
  have nz: "dev \<noteq> 0" "b \<noteq> 0" using d dev_okD(3)[of s dev d] udp_okD(1)[OF ok] arp_okD(1) h by (auto simp: held_def owned_def)
  have short: "(nb_len buf < 20) = (length pay < 20)" using len by (simp add: word_less_nat_alt)
  let ?h = "ip_header_of (take 20 pay)"
  let ?f = "\<lambda>x :: netbuf_t. x\<lparr>nb_network_header := nb_data x\<rparr>"
  show ?thesis
  proof (cases "length pay < 20")
    case True
    obtain s' where s': "netbuf_free b s = Some s'" "rstep {b} s s'" "is_reass s' = is_reass s" by (rule rstep_release[OF ok h])
    show ?thesis
      by (rule bad[OF _ _ s'(2,3)]) (use True short nz buf s'(1) in \<open>simp_all add: ip_accepts_def ip_input_def\<close>)
  next
    case False
    obtain s1 where s1: "upd_buf b ?f s = Some s1" "buf_step b (pre, pay, post) s s1" "ns_bufs s1 b = Some (?f buf)"
      by (rule upd_buf_meta[OF n c buf, of ?f]) simp_all
    note r1 = rstep_buf[OF ok h s1(2)]
    have n1: "net_ok s1" using s1(2) by (simp add: buf_step_def)
    have rd: "nb_read s1 b (nb_data buf) k = Some (take k pay)" if "k \<le> length pay" for k
      using nb_read_data[OF n1 r1(3) s1(3), of 0 k] that by simp
    have d1: "ds_devs s1 dev = Some d" using same_env_cache(2)[OF r1(5)] d by simp
    have u1: "udp_ok s1" using r1(1) by (simp add: rstep_def)
    let ?hl = "ip_header_len ?h" and ?tl = "ntohs (ip_total_length ?h)"
    have c1: "(ip_header_len ?h < 20 \<or> ucast ?hl > nb_len buf) = (\<not> (20 \<le> unat ?hl \<and> unat ?hl \<le> length pay))"
      using len unat_ucast_u8[of ?hl] by (auto simp: word_less_nat_alt)
    have c2: "(?tl < ucast ?hl \<or> ucast ?tl > nb_len buf) = (\<not> (unat ?hl \<le> unat ?tl \<and> unat ?tl \<le> length pay))"
      using len unat_ucast_u8_u16[of ?hl] unat_ucast_u16_u32[of ?tl] by (auto simp: word_less_nat_alt)
    have rd20: "nb_read s1 b (nb_data buf) 20 = Some (take 20 pay)" using rd False by simp
    show ?thesis
    proof (cases "ip_accepts pay d")
      case True
      have v: "(ip_version ?h \<noteq> 4) = False" "20 \<le> unat ?hl" "unat ?hl \<le> length pay" "ip_checksum (take (unat ?hl) pay) = 0"
        "unat ?hl \<le> unat ?tl" "unat ?tl \<le> length pay" "is_for_us (ip_dst_addr ?h) d"
        using True by (simp_all add: ip_accepts_def Let_def)
      show ?thesis
        by (rule good[OF True buf s1(2,3) upd_buf_blocks[OF s1(1)]])
          (use nz buf short False s1(1) rd20 v rd[OF v(3)] d1 c1 c2 in \<open>simp add: ip_input_def ip_fragmented_def Let_def\<close>)
    next
      case no: False
      obtain s' where s': "netbuf_free b s1 = Some s'" "rstep {b} s1 s'" "is_reass s' = is_reass s1" by (rule rstep_release[OF u1 r1(2)])
      have "ip_input recv call dev b s = netbuf_free b s1"
      proof (cases "ip_version ?h = 4 \<and> 20 \<le> unat ?hl \<and> unat ?hl \<le> length pay")
        case True
        then have rdh: "nb_read s1 b (nb_data buf) (unat ?hl) = Some (take (unat ?hl) pay)" using rd by simp
        have "\<not> (ip_checksum (take (unat ?hl) pay) = 0 \<and> unat ?hl \<le> unat ?tl \<and> unat ?tl \<le> length pay \<and> is_for_us (ip_dst_addr ?h) d)"
          using no True False by (simp add: ip_accepts_def Let_def)
        then show ?thesis using nz buf short False s1(1) rd20 rdh d1 c1 c2 True
          by (auto simp: ip_input_def Let_def)
      qed (use nz buf short False s1(1) rd20 c1 in \<open>auto simp: ip_input_def Let_def\<close>)
      then show ?thesis
        by (intro bad[OF no _ rstep_trans1[OF r1(1) s'(2)]]) (use s'(1,3) r1(4) in simp_all)
    qed
  qed
qed

text \<open>An accepted packet that is no fragment goes to its protocol, with the header stripped.\<close>

lemma ip_input_plain:
  fixes s :: "'a tcp_env_scheme"
  assumes ok: "udp_ok s" and h: "held b s" and c: "contents s b = Some (pre, pay, post)" and d: "ds_devs s dev = Some d"
    and acc: "ip_accepts pay d" and fr: "\<not> ip_fragmented (ip_header_of (take 20 pay))"
  obtains s' where "ip_input recv call dev b s
      = ip_deliver recv call dev b (ip_protocol (ip_header_of (take 20 pay))) (ip_src_addr (ip_header_of (take 20 pay)))
          (ip_dst_addr (ip_header_of (take 20 pay))) s'"
    "buf_step b (pre @ take (unat (ip_header_len (ip_header_of (take 20 pay)))) pay, drop (unat (ip_header_len (ip_header_of (take 20 pay)))) pay, post) s s'"
    "header_inside s' b" "ns_blocks s' = ns_blocks s"
proof (rule ip_input_cases[OF ok h c d, where recv = recv and call = call])
  fix s' assume "\<not> ip_accepts pay d"
  then show ?thesis using acc by simp
next
  fix buf s1
  assume buf: "ns_bufs s b = Some buf" and s1: "buf_step b (pre, pay, post) s s1"
    and b1: "ns_bufs s1 b = Some (buf\<lparr>nb_network_header := nb_data buf\<rparr>)" and bl: "ns_blocks s1 = ns_blocks s"
    and run: "ip_input recv call dev b s = (let ip = ip_header_of (take 20 pay) in do {
         (b', s2) \<leftarrow> (if ip_fragmented ip then ip_reassemble dev b ip s1
                     else do { (_, s2) \<leftarrow> netbuf_pull b (ucast (ip_header_len ip)) s1; Some (b, s2) });
         if b' = 0 then Some s2
         else do {
           s3 \<leftarrow> upd_buf b' (\<lambda>x. x\<lparr>nb_transport_header := nb_data x\<rparr>) s2;
           ip_deliver recv call dev b' (ip_protocol ip) (ip_src_addr ip) (ip_dst_addr ip) s3 } })"
  let ?h = "ip_header_of (take 20 pay)" and ?f = "\<lambda>x :: netbuf_t. x\<lparr>nb_transport_header := nb_data x\<rparr>"
  let ?n = "unat (ip_header_len ?h)"
  have n: "20 \<le> ?n" "?n \<le> length pay" using acc by (simp_all add: ip_accepts_def Let_def)
  have n1: "net_ok s1" "contents s1 b = Some (pre, pay, post)" using s1 by (simp_all add: buf_step_def)
  obtain p s2 where s2: "netbuf_pull b (of_nat ?n) s1 = Some (p, s2)" "buf_step b (pre @ take ?n pay, drop ?n pay, post) s1 s2"
    "ns_bufs s2 b = Some (buf\<lparr>nb_network_header := nb_data buf, nb_data := p, nb_len := of_nat (length pay - ?n)\<rparr>)"
    by (rule netbuf_pull_ok[OF n1 n(2)]) (simp add: b1)
  have n2: "net_ok s2" "contents s2 b = Some (pre @ take ?n pay, drop ?n pay, post)" using s2(2) by (simp_all add: buf_step_def)
  obtain s3 where s3: "upd_buf b ?f s2 = Some s3" "buf_step b (pre @ take ?n pay, drop ?n pay, post) s2 s3"
    "ns_bufs s3 b = Some (?f (buf\<lparr>nb_network_header := nb_data buf, nb_data := p, nb_len := of_nat (length pay - ?n)\<rparr>))"
    by (rule upd_buf_meta[OF n2 s2(3), of ?f]) simp_all
  have e: "(ucast (ip_header_len ?h) :: u32) = of_nat ?n" by simp
  have b0: "b \<noteq> 0" using h by (simp add: held_def owned_def)
  have go: "ip_input recv call dev b s = ip_deliver recv call dev b (ip_protocol ?h) (ip_src_addr ?h) (ip_dst_addr ?h) s3"
    using run fr s2(1) s3(1) b0 unfolding e Let_def by simp
  have n3: "net_ok s3" "contents s3 b = Some (pre @ take ?n pay, drop ?n pay, post)" using s3(2) by (simp_all add: buf_step_def)
  have "header_inside s3 b"
  proof -
    obtain bs where bs: "ns_blocks s3 (nb_head buf) = Some bs" "length bs = length pre + length pay + length post"
      by (rule contents_block[OF n3 s3(3)]) (use n in simp)
    obtain bs1 where "unat (nb_data buf - nb_head buf) = length pre" by (rule contents_block[OF n1 b1]) simp
    then show ?thesis using s3(3) bs n by (simp add: header_inside_def)
  qed
  then show ?thesis
    by (rule that[OF go buf_step_trans[OF buf_step_trans[OF s1 s2(2)] s3(2)]])
      (use bl netbuf_pull_blocks[OF s2(1)] upd_buf_blocks[OF s3(1)] in simp)
qed

lemma kept_drop: "kept (insert b B) s s' \<Longrightarrow> owned b s \<longrightarrow> b \<in> B \<Longrightarrow> kept B s s'"
  unfolding kept_def by blast

definition handled :: "u32 set \<Rightarrow> 'a tcp_env_scheme \<Rightarrow> 'a tcp_env_scheme option \<Rightarrow> bool" where
  "handled B s r \<longleftrightarrow> (\<exists>s'. r = Some s' \<and> tcp_ok s' \<and> reass_ok s' \<and> kept B s s')"

lemma handledI: "r = Some s' \<Longrightarrow> tcp_ok s' \<Longrightarrow> reass_ok s' \<Longrightarrow> kept B s s' \<Longrightarrow> handled B s r"
  by (auto simp: handled_def)

lemma handled_pre: "rstep A s s' \<Longrightarrow> handled B s' r \<Longrightarrow> handled (A \<union> B) s r"
  unfolding handled_def rstep_def using kept_trans by metis

lemma handled_pre1: "rstep B s s' \<Longrightarrow> handled B s' r \<Longrightarrow> handled B s r"
  using handled_pre[of B s s' B r] by simp

lemma handled_mono: "handled A s r \<Longrightarrow> A \<subseteq> B \<Longrightarrow> handled B s r"
  unfolding handled_def using kept_mono by blast

lemma handled_rstep:
  assumes "r = Some s'" "rstep B s s'" "tcp_ok s" "reass_ok s'"
  shows "handled B s r"
  using assms rstep_tcp[OF assms(2,3)] by (auto simp: handled_def rstep_def)

text \<open>Some block waits for connections.\<close>

definition listening :: "'a tcp_env_scheme \<Rightarrow> bool" where
  "listening s \<longleftrightarrow> (\<exists>p x. ts_pcb s p = Some x \<and> tp_state x = TCP_LISTEN)"

lemma rstep_listening: "rstep B s s' \<Longrightarrow> listening s' = listening s"
  using more_tcp(1)[of s' s] by (simp add: rstep_def listening_def)

lemma tcp_hangs_listening: "tcp_hangs (Tcp_input dev b src dst) s \<Longrightarrow> listening s"
  unfolding tcp_hangs_def hangs_def listening_def
  by (simp split: option.split_asm prod.split_asm) blast+

lemma ip_deliver_step:
  fixes s :: "'a tcp_env_scheme"
  assumes cb: "recv_ok recv" "call_ok call" and ok: "tcp_ok s" "reass_ok s" and h: "held b s" and dv: "dev \<noteq> 0"
    and c: "contents s b = Some (pre, pay, post)" "length pay \<le> 1920" and hi: "header_inside s b"
  shows "handled {b} s (ip_deliver recv call dev b protocol src dst s) \<or> listening s"
proof -
  have u: "udp_ok s" using ok(1) by (simp add: tcp_ok_def tcp_inv_def)
  have ow: "owned b s" "{b} \<inter> queued s = {}" using h by (simp_all add: held_def)
  consider "protocol = IP_PROTO_ICMP" | "protocol = IP_PROTO_UDP" | "protocol = IP_PROTO_TCP"
    | "protocol \<noteq> IP_PROTO_ICMP" "protocol \<noteq> IP_PROTO_UDP" "protocol \<noteq> IP_PROTO_TCP" by blast
  then show ?thesis
  proof cases
    case 1
    obtain s' where s': "icmp_input dev b src s = Some s'" "kept {b} s s'" "icmp_env.more s' = icmp_env.more s" "is_reass s' = is_reass s"
      by (rule icmp_input_step[OF udp_okD(1,2)[OF u] ow(1) dv c])
    have "rstep {b} s s'" using udp_ok_kept(1)[OF u s'(2,3) ow(2)] s'(2) more_udp(4)[OF s'(3)] by (simp add: rstep_def)
    then have "handled {b} s (Some s')" by (rule handled_rstep[OF refl _ ok(1)]) (use ok(2) s'(4) in \<open>simp add: reass_ok_def\<close>)
    then show ?thesis using 1 s'(1) by (simp add: ip_deliver_def)
  next
    case 2
    obtain s' where s': "udp_input recv dev b src dst s = Some s'" "udp_ok s'" "kept {b} s s'" "is_reass s' = is_reass s"
      "udp_env.more s' = udp_env.more s" by (rule udp_input_step[OF u h dv cb(1) c(1) hi])
    have "rstep {b} s s'" using s' by (simp add: rstep_def)
    then have "handled {b} s (Some s')" by (rule handled_rstep[OF refl _ ok(1)]) (use ok(2) s'(4) in \<open>simp add: reass_ok_def\<close>)
    then show ?thesis using 2 s'(1) by (simp add: ip_deliver_def)
  next
    case 3
    show ?thesis
    proof (cases "tcp_hangs (Tcp_input dev b src dst) s")
      case True
      then show ?thesis using tcp_hangs_listening by blast
    next
      case False
      then have "fine b s (tcp_input call dev b src dst s)" using tcp_input_step[OF cb(2) ok(1) h dv] by simp
      then obtain s' where "tcp_input call dev b src dst s = Some s'" "tcp_ok s'" "tstep {b} s s'" by (auto simp: fine_def)
      then show ?thesis using 3 ok(2) by (auto simp: ip_deliver_def tstep_def handled_def reass_ok_def)
    qed
  next
    case 4
    obtain s' where s': "netbuf_free b s = Some s'" "rstep {b} s s'" "is_reass s' = is_reass s" by (rule rstep_release[OF u h])
    have "handled {b} s (Some s')" by (rule handled_rstep[OF refl s'(2) ok(1)]) (use ok(2) s'(3) in \<open>simp add: reass_ok_def\<close>)
    then show ?thesis using 4 s'(1) by (simp add: ip_deliver_def)
  qed
qed

lemma ip_input_step:
  fixes s :: "'a tcp_env_scheme"
  assumes cb: "recv_ok recv" "call_ok call" and ok: "tcp_ok s" "reass_ok s" and h: "held b s" and d: "ds_devs s dev = Some d"
    and c: "contents s b = Some (pre, pay, post)" "length pay \<le> 1920" and room: "reass_room (length pay) s"
  shows "handled {b} s (ip_input recv call dev b s) \<or> listening s"
proof -
  let ?h = "ip_header_of (take 20 pay)"
  have u: "udp_ok s" using ok(1) by (simp add: tcp_ok_def tcp_inv_def)
  have dv: "dev \<noteq> 0" using d dev_okD(3)[of s dev d] udp_okD(1)[OF u] arp_okD(1) by auto
  show ?thesis
  proof (cases rule: ip_input_cases[OF u h c(1) d, where recv = recv and call = call])
    case (1 s')
    then show ?thesis using handled_rstep[OF 1(2,3) ok(1)] ok(2) by (simp add: reass_ok_def)
  next
    case (2 buf s1)
    show ?thesis
    proof (cases "ip_fragmented ?h")
      case False
      obtain s' where s': "ip_input recv call dev b s = ip_deliver recv call dev b (ip_protocol ?h) (ip_src_addr ?h) (ip_dst_addr ?h) s'"
        "buf_step b (pre @ take (unat (ip_header_len ?h)) pay, drop (unat (ip_header_len ?h)) pay, post) s s'" "header_inside s' b"
        by (rule ip_input_plain[OF u h c(1) d 2(1) False])
      note r = rstep_buf[OF u h s'(2)]
      have "handled {b} s' (ip_input recv call dev b s) \<or> listening s'" unfolding s'(1)
        by (rule ip_deliver_step[OF cb rstep_tcp[OF r(1) ok(1)] _ r(2) dv r(3) _ s'(3)])
          (use ok(2) r(4) c(2) in \<open>simp_all add: reass_ok_def\<close>)
      then show ?thesis using handled_pre1[OF r(1)] rstep_listening[OF r(1)] by blast
    next
      case True
      note r1 = rstep_buf[OF u h 2(3)]
      have u1: "udp_ok s1" "reass_ok s1" using r1(1,4) ok(2) by (simp_all add: rstep_def reass_ok_def)
      have hl: "unat (ip_header_len ?h) \<le> unat (ntohs (ip_total_length ?h))" "unat (ntohs (ip_total_length ?h)) \<le> length pay"
        using 2(1) by (simp_all add: ip_accepts_def Let_def)
      have room1: "reass_room (unat (ntohs (ip_total_length ?h)) - unat (ip_header_len ?h)) s1"
        using room r1(4) hl by (fastforce simp: reass_room_def)
      obtain b' s2 where s2: "ip_reassemble dev b ?h s1 = Some (b', s2)" "rstep {b} s1 s2" "reass_ok s2"
        "b' \<noteq> 0 \<longrightarrow> held b' s2 \<and> header_inside s2 b' \<and> (owned b' s1 \<longrightarrow> b' = b)
           \<and> (\<exists>pre pay post. contents s2 b' = Some (pre, pay, post) \<and> length pay \<le> 1920)"
        by (rule ip_reassemble_step[OF u1 r1(2,3) hl room1 c(2)])
      have R: "rstep {b} s s2" by (rule rstep_trans1[OF r1(1) s2(2)])
      have run: "ip_input recv call dev b s = (if b' = 0 then Some s2
         else do {
           s3 \<leftarrow> upd_buf b' (\<lambda>x. x\<lparr>nb_transport_header := nb_data x\<rparr>) s2;
           ip_deliver recv call dev b' (ip_protocol ?h) (ip_src_addr ?h) (ip_dst_addr ?h) s3 })"
        unfolding 2(6) Let_def using True s2(1) by simp
      show ?thesis
      proof (cases "b' = 0")
        case True
        then show ?thesis using handled_rstep[OF _ R ok(1) s2(3)] run by simp
      next
        case False
        then obtain pre' pay' post' where b': "held b' s2" "header_inside s2 b'" "owned b' s1 \<longrightarrow> b' = b"
          "contents s2 b' = Some (pre', pay', post')" "length pay' \<le> 1920" using s2(4) by auto
        obtain buf' where buf': "ns_bufs s2 b' = Some buf'" using b'(1) by (auto simp: held_def owned_def)
        have u2: "udp_ok s2" "net_ok s2" using R by (simp_all add: rstep_def udp_okD(1) arp_okD(2))
        let ?f = "\<lambda>x :: netbuf_t. x\<lparr>nb_transport_header := nb_data x\<rparr>"
        obtain s3 where s3: "upd_buf b' ?f s2 = Some s3" "buf_step b' (pre', pay', post') s2 s3" "ns_bufs s3 b' = Some (?f buf')"
          by (rule upd_buf_meta[OF u2(2) b'(4) buf', of ?f]) simp_all
        note r3 = rstep_buf[OF u2(1) b'(1) s3(2)]
        have t3: "tcp_ok s3" by (rule rstep_tcp[OF r3(1) rstep_tcp[OF R ok(1)]])
        have "ns_blocks s3 = ns_blocks s2" using s3(1) by (auto simp: upd_buf_def bind_eq_Some_conv)
        then have hi: "header_inside s3 b'" using b'(2) s3(3) buf' by (auto simp: header_inside_def)
        have "handled {b'} s3 (ip_input recv call dev b s) \<or> listening s3"
          using ip_deliver_step[OF cb t3 _ r3(2) dv r3(3) b'(5) hi] run False s3(1) s2(3) r3(4) by (simp add: reass_ok_def)
        moreover have "kept {b} s s'" if k: "kept {b'} s3 s'" for s'
        proof -
          have "kept {b'} s2 s'" using r3(1) k kept_trans1 unfolding rstep_def by blast
          then have "kept ({b} \<union> {b'}) s s'" using R kept_trans unfolding rstep_def by blast
          moreover have "owned b' s \<longrightarrow> b' = b"
            using b'(3) kept_owned(1)[of "{b}" s s1 b'] r1(1) by (auto simp: rstep_def)
          ultimately show ?thesis by (intro kept_drop[of b' "{b}"]) (simp_all add: insert_commute)
        qed
        ultimately show ?thesis using rstep_listening[OF r3(1)] rstep_listening[OF R] unfolding handled_def by blast
      qed
    qed
  qed
qed

section \<open>The link layer\<close>

text \<open>The address test of \<^verbatim>\<open>ethernet_input\<close> on the bytes of a frame.\<close>

definition eth_accepts :: "u8 list \<Rightarrow> netdev_t \<Rightarrow> bool" where
  "eth_accepts frame d \<longleftrightarrow> 14 \<le> length frame
     \<and> (mac_addr_is_broadcast (take 6 frame) \<or> mac_addr_is_multicast (take 6 frame) \<or> take 6 frame = nd_mac d)"

definition eth_type :: "u8 list \<Rightarrow> u16" where
  "eth_type frame = ntohs (le16 (frame ! 12) (frame ! 13))"

lemma ethernet_input_cases:
  fixes s :: "'a tcp_env_scheme"
  assumes ok: "udp_ok s" and h: "held b s" and c: "contents s b = Some (pre, frame, post)" and d: "ds_devs s dev = Some d"
  obtains (bad) s' where "\<not> eth_accepts frame d" "ethernet_input recv call dev b s = Some s'" "rstep {b} s s'" "is_reass s' = is_reass s"
  | (good) s1 where "eth_accepts frame d" "buf_step b (pre @ take 14 frame, drop 14 frame, post) s s1" "ns_blocks s1 = ns_blocks s"
      "ethernet_input recv call dev b s = (if eth_type frame = ETH_TYPE_ARP then arp_input dev b s1
         else if eth_type frame = ETH_TYPE_IP then ip_input recv call dev b s1 else netbuf_free b s1)"
proof -
  obtain buf where buf: "ns_bufs s b = Some buf" using h by (auto simp: held_def owned_def)
  have n: "net_ok s" using ok by (simp add: udp_okD(1) arp_okD(2))
  note len = nb_len_contents(1)[OF n c buf]
  have nz: "dev \<noteq> 0" "b \<noteq> 0" using d dev_okD(3)[of s dev d] udp_okD(1)[OF ok] arp_okD(1) h by (auto simp: held_def owned_def)
  have short: "(nb_len buf < 14) = (length frame < 14)" using len by (simp add: word_less_nat_alt)
  let ?f = "\<lambda>x :: netbuf_t. x\<lparr>nb_mac_header := nb_data x\<rparr>" and ?g = "\<lambda>x :: netbuf_t. x\<lparr>nb_network_header := nb_data x\<rparr>"
  show ?thesis
  proof (cases "length frame < 14")
    case True
    obtain s' where s': "netbuf_free b s = Some s'" "rstep {b} s s'" "is_reass s' = is_reass s" by (rule rstep_release[OF ok h])
    show ?thesis
      by (rule bad[OF _ _ s'(2,3)]) (use True short nz buf s'(1) in \<open>simp_all add: eth_accepts_def ethernet_input_def\<close>)
  next
    case False
    obtain s1 where s1: "upd_buf b ?f s = Some s1" "buf_step b (pre, frame, post) s s1" "ns_bufs s1 b = Some (?f buf)"
      by (rule upd_buf_meta[OF n c buf, of ?f]) simp_all
    note r1 = rstep_buf[OF ok h s1(2)]
    have n1: "net_ok s1" using s1(2) by (simp add: buf_step_def)
    have rd: "nb_read s1 b (nb_data buf) 14 = Some (take 14 frame)"
      using nb_read_data[OF n1 r1(3) s1(3), of 0 14] False by simp
    have d1: "ds_devs s1 dev = Some d" using same_env_cache(2)[OF r1(5)] d by simp
    have u1: "udp_ok s1" using r1(1) by (simp add: rstep_def)
    have t6: "take 6 (take 14 frame) = take 6 frame" by simp
    show ?thesis
    proof (cases "eth_accepts frame d")
      case True
      have le: "14 \<le> length frame" using False by simp
      obtain p s2 buf2 where s2: "netbuf_pull b (of_nat 14) s1 = Some (p, s2)" "buf_step b (pre @ take 14 frame, drop 14 frame, post) s1 s2"
        "ns_bufs s2 b = Some buf2" by (rule netbuf_pull_ok[OF n1 r1(3) le])
      have n2: "net_ok s2" "contents s2 b = Some (pre @ take 14 frame, drop 14 frame, post)" using s2(2) by (simp_all add: buf_step_def)
      obtain s3 where s3: "upd_buf b ?g s2 = Some s3" "buf_step b (pre @ take 14 frame, drop 14 frame, post) s2 s3"
        by (rule upd_buf_meta[OF n2 s2(3), of ?g]) simp_all
      have acc: "(\<not> mac_addr_is_broadcast (take 6 frame) \<and> \<not> mac_addr_is_multicast (take 6 frame) \<and> take 6 frame \<noteq> nd_mac d) = False"
        using True by (auto simp: eth_accepts_def)
      have e: "(of_nat 14 :: u32) = 14" by simp
      show ?thesis
        by (rule good[OF True buf_step_trans[OF buf_step_trans[OF s1(2) s2(2)] s3(2)]],
            use upd_buf_blocks[OF s1(1)] netbuf_pull_blocks[OF s2(1)] upd_buf_blocks[OF s3(1)] in simp)
          (use nz buf short False s1(1) rd d1 s2(1)[unfolded e] s3(1) acc t6 in \<open>auto simp: ethernet_input_def Let_def eth_type_def\<close>)
    next
      case no: False
      obtain s' where s': "netbuf_free b s1 = Some s'" "rstep {b} s1 s'" "is_reass s' = is_reass s1" by (rule rstep_release[OF u1 r1(2)])
      have "ethernet_input recv call dev b s = netbuf_free b s1"
        using nz buf short False s1(1) rd d1 t6 no by (auto simp: ethernet_input_def Let_def eth_accepts_def)
      then show ?thesis
        by (intro bad[OF no _ rstep_trans1[OF r1(1) s'(2)]]) (use s'(1,3) r1(4) in simp_all)
    qed
  qed
qed

lemma ethernet_input_step:
  fixes s :: "'a tcp_env_scheme"
  assumes cb: "recv_ok recv" "call_ok call" and ok: "tcp_ok s" "reass_ok s" and h: "held b s" and d: "ds_devs s dev = Some d"
    and c: "contents s b = Some (pre, frame, post)" "length frame \<le> 1920" and room: "reass_room (length frame) s"
  shows "handled {b} s (ethernet_input recv call dev b s) \<or> listening s"
proof -
  have u: "udp_ok s" using ok(1) by (simp add: tcp_ok_def tcp_inv_def)
  show ?thesis
  proof (cases rule: ethernet_input_cases[OF u h c(1) d, where recv = recv and call = call])
    case (1 s')
    then show ?thesis using handled_rstep[OF 1(2,3) ok(1)] ok(2) by (simp add: reass_ok_def)
  next
    case (2 s1)
    note r = rstep_buf[OF u h 2(2)]
    have u1: "udp_ok s1" "tcp_ok s1" "reass_ok s1" using r(1,4) ok(2) rstep_tcp[OF r(1) ok(1)] by (simp_all add: rstep_def reass_ok_def)
    have d1: "ds_devs s1 dev = Some d" using same_env_cache(2)[OF r(5)] d by simp
    consider "eth_type frame = ETH_TYPE_ARP" | "eth_type frame = ETH_TYPE_IP" | "eth_type frame \<noteq> ETH_TYPE_ARP" "eth_type frame \<noteq> ETH_TYPE_IP"
      by blast
    then have "handled {b} s1 (ethernet_input recv call dev b s) \<or> listening s1"
    proof cases
      case 1
      have np: "b \<notin> pend s1" "{b} \<inter> queued s1 = {}" using r(2) by (simp_all add: held_def owned_def)
      obtain s' where s': "arp_input dev b s1 = Some s'" "arp_step {b} s1 s'" by (rule arp_input_step[OF udp_okD(1)[OF u1(1)] d1 r(3) np(1)])
      note x = arp_step_ext[OF s'(2)]
      have m: "icmp_env.more s' = icmp_env.more s1" by (rule more_icmp(5)[OF x(4)])
      have k: "kept {b} s1 s'" by (rule arp_step_kept[OF s'(2)])
      have "rstep {b} s1 s'" using udp_ok_kept(1)[OF u1(1) k m np(2)] k more_udp(4)[OF m] by (simp add: rstep_def)
      then have "handled {b} s1 (Some s')" by (rule handled_rstep[OF refl _ u1(2)]) (use u1(3) x(2) in \<open>simp add: reass_ok_def\<close>)
      then show ?thesis using 2(4) 1 s'(1) by simp
    next
      case ip: 2
      have "reass_room (length (drop 14 frame)) s1" using room r(4) by (fastforce simp: reass_room_def)
      then show ?thesis using ip_input_step[OF cb u1(2,3) r(2) d1 r(3)] c(2) 2(4) ip by simp
    next
      case 3
      obtain s' where s': "netbuf_free b s1 = Some s'" "rstep {b} s1 s'" "is_reass s' = is_reass s1" by (rule rstep_release[OF u1(1) r(2)])
      then have "handled {b} s1 (Some s')" by (intro handled_rstep[OF refl s'(2) u1(2)]) (use u1(3) s'(3) in \<open>simp add: reass_ok_def\<close>)
      then show ?thesis using 2(4) 3 s'(1) by simp
    qed
    then show ?thesis using handled_pre1[OF r(1)] rstep_listening[OF r(1)] by blast
  qed
qed

section \<open>The device\<close>

lemma upd_dev_rstep:
  fixes s :: "'a udp_env_scheme"
  assumes ok: "udp_ok s" and d: "ds_devs s dev = Some d" and f: "dev_cfg (f d) = dev_cfg d"
  defines "s' \<equiv> s\<lparr>ds_devs := (ds_devs s)(dev := Some (f d))\<rparr>"
  shows "upd_dev dev f s = Some s'" "rstep B s s'" "held b s' = held b s" "contents s' b = contents s b" "is_reass s' = is_reass s"
    "ds_devs s' dev = Some (f d)" "ns_bufs s' = ns_bufs s"
proof -
  show "upd_dev dev f s = Some s'" using d by (simp add: upd_dev_def s'_def)
  show "contents s' b = contents s b" "is_reass s' = is_reass s" "ds_devs s' dev = Some (f d)" "ns_bufs s' = ns_bufs s" for b
    by (simp_all add: s'_def contents_def)
  have p: "pend s' = pend s" by (simp add: s'_def pend_def pq_def)
  have q: "queue_of s' = queue_of s" by (simp add: s'_def queue_of_def fun_eq_iff)
  have o: "owned b s' = owned b s" for b by (simp add: owned_def p) (simp add: s'_def)
  have qd: "queued s' = queued s" by (simp add: queued_def q)
  show "held b s' = held b s" by (simp add: held_def o qd)
  have mac: "nd_mac (f d) = nd_mac d" using f by (simp add: dev_cfg_def)
  have e: "used s' = used s" "pq s' = pq s" "as_cache s' = as_cache s" "ns_bufs s' = ns_bufs s"
    by (simp_all add: s'_def used_def pq_def fun_eq_iff)
  have a: "arp_ok s" by (rule udp_okD(1)[OF ok])
  then have "dev_ok s'" using d mac unfolding arp_ok_def dev_ok_def by (simp add: s'_def net_ok_def)
  then have "arp_ok s'" using a unfolding arp_ok_def e p by simp
  moreover have "routes_ok s'" using udp_okD(2)[OF ok] by (auto simp: s'_def routes_ok_def)
  ultimately have u: "udp_ok s'" using ok unfolding udp_ok_def q qd o by (simp add: s'_def)
  have c: "contents s' b = contents s b" for b by (simp add: s'_def contents_def)
  have "kept B s s'" using \<open>arp_ok s'\<close> f d unfolding kept_def o c by (simp add: s'_def)
  then show "rstep B s s'" using u by (simp add: rstep_def s'_def)
qed

lemma netdev_receive_step:
  fixes s :: "'a tcp_env_scheme"
  assumes cb: "recv_ok recv" "call_ok call" and ok: "tcp_ok s" "reass_ok s" and h: "held b s" and d: "ds_devs s dev = Some d"
    and c: "contents s b = Some (pre, frame, post)" "length frame \<le> 1920" and room: "reass_room (length frame) s"
  shows "handled {b} s (netdev_receive recv call dev b s) \<or> listening s"
proof -
  have u: "udp_ok s" using ok(1) by (simp add: tcp_ok_def tcp_inv_def)
  have nz: "dev \<noteq> 0" "b \<noteq> 0" using d dev_okD(3)[of s dev d] udp_okD(1)[OF u] arp_okD(1) h by (auto simp: held_def owned_def)
  obtain buf where buf: "ns_bufs s b = Some buf" using h by (auto simp: held_def owned_def)
  show ?thesis
  proof (cases "nd_state d = NETDEV_UP")
    case False
    obtain s1 where s1: "netbuf_free b s = Some s1" "rstep {b} s s1" "is_reass s1 = is_reass s" by (rule rstep_release[OF u h])
    have "owned b s" using h by (simp add: held_def)
    then obtain s1' where "netbuf_free b s = Some s1'" "ds_devs s1' = ds_devs s"
      using netbuf_free_kept[OF udp_okD(1)[OF u]] by metis
    then have d1: "ds_devs s1 dev = Some d" using s1(1) d by simp
    have u1: "udp_ok s1" using s1(2) by (simp add: rstep_def)
    note t = upd_dev_rstep[OF u1 d1, of "\<lambda>d. d\<lparr>nd_rx_dropped := nd_rx_dropped d + 1\<rparr>"]
    have cfg: "dev_cfg (d\<lparr>nd_rx_dropped := nd_rx_dropped d + 1\<rparr>) = dev_cfg d" by (simp add: dev_cfg_def)
    have "netdev_receive recv call dev b s = Some (s1\<lparr>ds_devs := (ds_devs s1)(dev := Some (d\<lparr>nd_rx_dropped := nd_rx_dropped d + 1\<rparr>))\<rparr>)"
      using False nz d s1(1) t(1)[OF cfg] by (simp add: netdev_receive_def)
    then show ?thesis
      using handled_rstep[OF _ rstep_trans1[OF s1(2) t(2)[OF cfg]] ok(1)] ok(2) s1(3) by (simp add: reass_ok_def)
  next
    case True
    let ?f = "\<lambda>d. d\<lparr>nd_rx_packets := nd_rx_packets d + 1, nd_rx_bytes := nd_rx_bytes d + ucast (nb_len buf)\<rparr>"
    let ?g = "\<lambda>x :: netbuf_t. x\<lparr>nb_dev := dev\<rparr>"
    let ?s1 = "s\<lparr>ds_devs := (ds_devs s)(dev := Some (?f d))\<rparr>"
    have cfg: "dev_cfg (?f d) = dev_cfg d" by (simp add: dev_cfg_def)
    note t = upd_dev_rstep[OF u d, of ?f, OF cfg]
    have u1: "udp_ok ?s1" "net_ok ?s1" using t(2) by (auto simp: rstep_def udp_okD(1) arp_okD(2))
    have c1: "contents ?s1 b = Some (pre, frame, post)" "ns_bufs ?s1 b = Some buf" "held b ?s1" using t(3,4,7) c h buf by simp_all
    obtain s2 where s2: "upd_buf b ?g ?s1 = Some s2" "buf_step b (pre, frame, post) ?s1 s2"
      by (rule upd_buf_meta[OF u1(2) c1(1,2), of ?g]) simp_all
    note r2 = rstep_buf[OF u1(1) c1(3) s2(2)]
    have R: "rstep {b} s s2" by (rule rstep_trans1[OF t(2) r2(1)])
    have d2: "ds_devs s2 dev = Some (?f d)" using same_env_cache(2)[OF r2(5)] t(6) by simp
    have rs: "is_reass s2 = is_reass s" using r2(4) t(5) by simp
    have run: "netdev_receive recv call dev b s = ethernet_input recv call dev b s2"
      using True nz d buf t(1) s2(1) by (simp add: netdev_receive_def)
    have "handled {b} s2 (netdev_receive recv call dev b s) \<or> listening s2" unfolding run
      by (rule ethernet_input_step[OF cb rstep_tcp[OF R ok(1)] _ r2(2) d2 r2(3) c(2)])
        (use ok(2) room rs in \<open>simp_all add: reass_ok_def reass_room_def\<close>)
    then show ?thesis using handled_pre1[OF R] rstep_listening[OF R] by blast
  qed
qed

section \<open>Any frame\<close>

text \<open>C7: \<^bold>\<open>No frame harms a machine without a TCP listener.\<close>  In a state that satisfies the invariants of all layers, any bytes at all, up to the 1920 a packet buffer
  holds, may arrive at a device.  \<open>netdev_receive\<close> then returns without a fault, the invariants hold again, and the buffers that belong to others are untouched.  The
  callbacks of sockets are parameters: that of UDP is assumed to return, to keep the invariant and to take over the buffer it is given (\<open>recv_ok\<close>), those of TCP to return
  and to leave the stack as it is (\<open>call_ok\<close>).  Two further conditions exclude a defect each: no TCP block listens (a connection request would leave the machine waiting for its
  own lock), and the fragments kept for reassembly leave room for this frame below 1920 bytes (a larger datagram is written through a null pointer).  One defect is inside: a fragment
  makes \<open>ip_reassemble\<close> read a byte of the buffer it has just released, which may have any value and does not influence the result.\<close>

theorem net_receive_safe:
  fixes s :: "'a tcp_env_scheme"
  assumes "recv_ok recv" "call_ok call" "tcp_ok s" "reass_ok s" "held b s" "ds_devs s dev = Some d"
    "contents s b = Some (pre, frame, post)" "length frame \<le> 1920" "reass_room (length frame) s" "\<not> listening s"
  shows "\<exists>s'. netdev_receive recv call dev b s = Some s' \<and> tcp_ok s' \<and> reass_ok s' \<and> kept {b} s s'"
  using netdev_receive_step[OF assms(1-9)] assms(10) by (auto simp: handled_def)

text \<open>A machine with one device, one known neighbour and a frame that has just arrived.\<close>

definition host :: "u8 list \<Rightarrow> u32 \<Rightarrow> u8 list \<Rightarrow> u32 \<Rightarrow> last_ping_t \<Rightarrow> u8 list \<Rightarrow> tcp_env" where
  "host mac ip pmac pip lp bytes =
     \<lparr>ns_kmalloc = [0x3000, 0x4000], ns_now = 7, ns_blocks = [0x2000 \<mapsto> replicate 128 0 @ bytes],
      ns_bufs = [0x1000 \<mapsto> \<lparr>nb_head = 0x2000, nb_data = 0x2080, nb_tail = 0x2080 + of_nat (length bytes), nb_end = 0x2080 + of_nat (length bytes),
        nb_len = of_nat (length bytes), nb_total_size = of_nat (128 + length bytes), nb_mac_header = 0, nb_network_header = 0, nb_transport_header = 0,
        nb_dev = 0, nb_src_ip = None, nb_src_port = None\<rparr>],
      ds_devs = [0x100 \<mapsto> zero_netdev\<lparr>nd_mac := mac, nd_state := NETDEV_UP, nd_ops := Some E1000_ops, nd_ip_addr := ip, nd_netmask := 0x00FFFFFF\<rparr>],
      ds_netdevs = [0x100], ds_default = 0x100, ds_eth_num = 1, ds_tx_ready = [True], ds_wire = [],
      as_cache = zero_entry\<lparr>ae_ip_addr := pip, ae_mac_addr := pmac, ae_state := ARP_STATE_RESOLVED\<rparr> # replicate 31 zero_entry,
      is_id_counter = 0, is_reass = replicate 8 zero_reass, is_routes = replicate 16 zero_route, is_released = (\<lambda>_. 0),
      cs_callback = Some Ping_callback, cs_last_ping = lp, cs_last_rtt = -1, cs_ping_result = \<lparr>pr_received = False, pr_rtt = 0, pr_src_ip = 0\<rparr>,
      us_pcbs = [0x300], us_pcb = [0x300 \<mapsto> zero_udp_pcb\<lparr>up_local_port := 49152\<rparr>], us_next_ephemeral_port = 49153,
      ts_pcb = (\<lambda>_. None), ts_pcbs = 0, ts_listen_pcbs = 0, ts_lock = False, ts_next_ephemeral_port = 49152, ts_isn = 0\<rparr>"

lemma host_buffer:
  assumes "length bytes \<le> 1920"
  shows "net_ok (host mac ip pmac pip lp bytes)" "contents (host mac ip pmac pip lp bytes) 0x1000 = Some (replicate 128 0, bytes, [])"
proof -
  let ?n = "length bytes"
  have u: "unat (of_nat ?n :: u32) = ?n" "unat (0x80 + of_nat ?n :: u32) = 128 + ?n"
  proof -
    show "unat (of_nat ?n :: u32) = ?n" using assms by (simp add: unat_of_nat_u32)
    have "(0x80 + of_nat ?n :: u32) = of_nat (128 + ?n)" by simp
    then show "unat (0x80 + of_nat ?n :: u32) = 128 + ?n" using assms by (simp only: unat_of_nat_u32)
  qed
  have e: "(0x2080 + of_nat ?n) - 0x2000 = (0x80 + of_nat ?n :: u32)" by simp
  show "net_ok (host mac ip pmac pip lp bytes)"
    using assms u by (auto simp: net_ok_def host_def buf_ok_def e)
  show "contents (host mac ip pmac pip lp bytes) 0x1000 = Some (replicate 128 0, bytes, [])"
    using u by (simp add: contents_def host_def split_at_def e)
qed

lemma host_ok:
  assumes "length bytes \<le> 1920" "length mac = 6" "length pmac = 6"
  shows "tcp_ok (host mac ip pmac pip lp bytes)" "held 0x1000 (host mac ip pmac pip lp bytes)" "reass_ok (host mac ip pmac pip lp bytes)"
    "reass_room n (host mac ip pmac pip lp bytes) = (n \<le> 1920)" "\<not> listening (host mac ip pmac pip lp bytes)"
proof -
  let ?s = "host mac ip pmac pip lp bytes"
  let ?e = "zero_entry\<lparr>ae_ip_addr := pip, ae_mac_addr := pmac, ae_state := ARP_STATE_RESOLVED\<rparr>"
  have nth: "as_cache ?s ! i = (if i = 0 then ?e else zero_entry)" if "i < 32" for i
    using that by (cases i) (simp_all add: host_def)
  have pq: "pq ?s i = []" if "i < 32" for i using nth[OF that] by (simp add: pq_def zero_entry_def)
  then have pend: "pend ?s = {}" by (simp add: pend_def)
  have us: "used ?s i \<longleftrightarrow> i = 0" if "i < 32" for i using nth[OF that] by (simp add: used_def zero_entry_def)
  have dv: "dev_ok ?s" using host_buffer(1)[OF assms(1)] assms(2) by (auto simp: dev_ok_def host_def split: if_splits)
  have arp: "arp_ok ?s" unfolding arp_ok_def using dv pq pend us nth assms(3) by (auto simp: zero_entry_def) (simp add: host_def)
  have q: "queue_of ?s p = []" for p by (simp add: queue_of_def host_def zero_udp_pcb_def)
  then have qd: "queued ?s = {}" by (simp add: queued_def)
  have rt: "routes_ok ?s" by (auto simp: routes_ok_def host_def zero_route_def)
  have u: "udp_ok ?s" unfolding udp_ok_def using arp rt q qd by (auto simp: host_def zero_udp_pcb_def)
  have "tcp_lists ?s [] []" by (simp add: tcp_lists_def host_def)
  then show "tcp_ok ?s" unfolding tcp_ok_def tcp_inv_def using u by (auto simp: host_def)
  show "held 0x1000 ?s" using qd pend by (simp add: held_def owned_def) (simp add: host_def)
  show "reass_ok ?s" "\<not> listening ?s" "reass_room n ?s = (n \<le> 1920)"
    by (auto simp: reass_ok_def listening_def reass_room_def host_def zero_reass_def)
qed

lemma recv_release_ok: "recv_ok (\<lambda>cb p b src sport s :: 'a udp_env_scheme. netbuf_free b s)"
  unfolding recv_ok_def by (metis udp_release)

text \<open>The first fragment of a UDP datagram for this machine, eight bytes of it.\<close>

definition fragment_frame :: "u8 list" where
  "fragment_frame = [2, 0, 0, 0, 0, 1, 2, 0, 0, 0, 0, 2, 0x08, 0x00,
     0x45, 0x00, 0x00, 0x1C, 0x00, 0x01, 0x20, 0x00, 0x40, 0x11, 0x46, 0xCE, 0x0A, 0x00, 0x00, 0x02, 0x0A, 0x00, 0x00, 0x01,
     1, 2, 3, 4, 5, 6, 7, 8]"

lemma fragment_frame_header: "ip_header_of (take 20 (drop 14 fragment_frame)) = \<lparr>ip_version_ihl = 0x45, ip_tos = 0, ip_total_length = 0x1C00,
     ip_identification = 0x0100, ip_flags_fragment = 0x0020, ip_ttl = 0x40, ip_protocol = 0x11, ip_hdr_checksum = 0xCE46, ip_src_addr = 0x0200000A, ip_dst_addr = 0x0100000A\<rparr>"
  by (simp add: ip_header_of_def fragment_frame_def le16_def le32_def push_bit_eq_mult)

theorem net_receive_safe_witness:
  "\<exists>d s'. ds_devs (host [2, 0, 0, 0, 0, 1] 0x0100000A [2, 0, 0, 0, 0, 2] 0x0200000A \<lparr>lp_id = 0, lp_seq = 0, lp_send_time = 0, lp_waiting = False\<rparr> fragment_frame) 0x100 = Some d
     \<and> ip_accepts (drop 14 fragment_frame) d \<and> ip_fragmented (ip_header_of (take 20 (drop 14 fragment_frame)))
     \<and> netdev_receive (\<lambda>cb p b src sport. netbuf_free b) (\<lambda>_ s. Some s) 0x100 0x1000
         (host [2, 0, 0, 0, 0, 1] 0x0100000A [2, 0, 0, 0, 0, 2] 0x0200000A \<lparr>lp_id = 0, lp_seq = 0, lp_send_time = 0, lp_waiting = False\<rparr> fragment_frame) = Some s'
     \<and> tcp_ok s'"
proof -
  let ?lp = "\<lparr>lp_id = 0, lp_seq = 0, lp_send_time = 0, lp_waiting = False\<rparr>"
  let ?s = "host [2, 0, 0, 0, 0, 1] 0x0100000A [2, 0, 0, 0, 0, 2] 0x0200000A ?lp fragment_frame"
  let ?d = "zero_netdev\<lparr>nd_mac := [2, 0, 0, 0, 0, 1], nd_state := NETDEV_UP, nd_ops := Some E1000_ops, nd_ip_addr := 0x0100000A, nd_netmask := 0x00FFFFFF\<rparr>"
  have l: "length fragment_frame \<le> 1920" "length [2, 0, 0, 0, 0, 1 :: u8] = 6" "length [2, 0, 0, 0, 0, 2 :: u8] = 6" by (simp_all add: fragment_frame_def)
  note h = host_ok[OF l, where ip = "0x0100000A" and pip = "0x0200000A" and lp = ?lp]
  have d: "ds_devs ?s 0x100 = Some ?d" by (simp add: host_def)
  have r: "reass_room (length fragment_frame) ?s" unfolding h(4) by (rule l(1))
  have hl: "ip_header_len (ip_header_of (take 20 (drop 14 fragment_frame))) = 20" unfolding fragment_frame_header by code_simp
  have sum: "ip_checksum (take 20 (drop 14 fragment_frame)) = 0" by code_simp
  have acc: "ip_accepts (drop 14 fragment_frame) ?d" "ip_fragmented (ip_header_of (take 20 (drop 14 fragment_frame)))"
    using sum hl unfolding ip_accepts_def ip_fragmented_def fragment_frame_header Let_def
    by (simp_all add: is_for_us_def ip_version_def drop_bit_eq_div push_bit_eq_mult htons_def fragment_frame_def)
  from net_receive_safe[OF recv_release_ok call_return_ok h(1,3,2) d host_buffer(2)[OF l(1)] l(1) r h(5)]
  show ?thesis using d acc by blast
qed

end
