(* ===== verification/Net_Hosts.thy ===== *)
theory Net_Hosts
  imports Net_Input
begin

text \<open>
  Two machines on a wire: the frames that one machine's protocols send, followed through the receive path of
  another machine.  The states of the machines are independent; what connects them is that the bytes of a
  frame in the record of the sender are the contents of the buffer the receiver's driver hands on.
\<close>

section \<open>From one machine to another\<close>

text \<open>A frame that the IP layer of one machine sent, as it arrives: short frames are filled up by the link.\<close>

lemma ip_frame_header:
  assumes "length mac = 6" "length (nd_mac peer) = 6"
  shows "take 6 (ip_frame_bytes mac peer ident proto dst pay @ pad) = mac"
    "drop 14 (ip_frame_bytes mac peer ident proto dst pay @ pad)
      = ip_header_bytes (sealed (ip_header_out (of_nat (20 + length pay)) ident proto (nd_ip_addr peer) dst)) @ pay @ pad"
    "eth_type (ip_frame_bytes mac peer ident proto dst pay @ pad) = ETH_TYPE_IP"
    "length (ip_frame_bytes mac peer ident proto dst pay @ pad) = 34 + length pay + length pad"
  using assms
  by (simp_all add: ip_frame_bytes_def eth_header_bytes_def eth_type_def nth_append bytes16_def le16_bytes16)

lemma sealed_simps [simp]:
  "ip_version_ihl (sealed h) = ip_version_ihl h" "ip_total_length (sealed h) = ip_total_length h" "ip_protocol (sealed h) = ip_protocol h"
  "ip_flags_fragment (sealed h) = ip_flags_fragment h" "ip_src_addr (sealed h) = ip_src_addr h" "ip_dst_addr (sealed h) = ip_dst_addr h"
  by (simp_all add: sealed_def)

lemma ip_packet_accepted:
  fixes pay pad :: "u8 list" and src dst :: u32 and proto :: u8 and ident :: u16
  defines "h \<equiv> sealed (ip_header_out (of_nat (20 + length pay)) ident proto src dst)"
  assumes len: "length pay \<le> 1500" and us: "is_for_us dst d"
  shows "ip_accepts (ip_header_bytes h @ pay @ pad) d" "ip_header_of (take 20 (ip_header_bytes h @ pay @ pad)) = h"
    "unat (ip_header_len h) = 20" "\<not> ip_fragmented h" "ip_protocol h = proto" "ip_src_addr h = src" "ip_dst_addr h = dst"
proof -
  have h: "ip_header_of (take 20 (ip_header_bytes h @ pay @ pad)) = h"
    using ip_header_of_bytes[of h "[]"] by simp
  then show "ip_header_of (take 20 (ip_header_bytes h @ pay @ pad)) = h" .
  show hl: "unat (ip_header_len h) = 20" by (simp add: h_def ip_header_len_def ip_header_out_def)
  have tl: "unat (ntohs (ip_total_length h)) = 20 + length pay"
  proof -
    have "ntohs (ip_total_length h) = ucast (of_nat (20 + length pay) :: u32)" by (simp add: h_def ip_header_out_def)
    moreover have "unat (of_nat (20 + length pay) :: u32) = 20 + length pay" by (rule unat_of_nat_u32) (use len in simp)
    ultimately show ?thesis using len by (simp add: unsigned_ucast_eq take_bit_eq_mod del: of_nat_add)
  qed
  have ck: "ip_checksum (ip_header_bytes h) = 0" unfolding h_def by (rule sealed_verifies) (simp add: ip_header_out_def)
  show "ip_accepts (ip_header_bytes h @ pay @ pad) d"
    unfolding ip_accepts_def Let_def h hl tl using ck us by (simp add: h_def ip_version_def ip_header_out_def)
  show "\<not> ip_fragmented h" by (simp add: h_def ip_fragmented_def ip_header_out_def)
  show "ip_protocol h = proto" "ip_src_addr h = src" "ip_dst_addr h = dst" by (simp_all add: h_def ip_header_out_def)
qed

text \<open>Such a frame reaches its protocol with the payload, and on the way only the statistics of the device change.\<close>

lemma frame_delivered:
  fixes s :: "'a tcp_env_scheme"
  assumes ok: "udp_ok s" and h: "held b s" and d: "ds_devs s dev = Some d" "nd_state d = NETDEV_UP"
    and c: "contents s b = Some (pre, ip_frame_bytes mac peer ident proto dst pay @ pad, post)"
    and mac: "length mac = 6" "length (nd_mac peer) = 6" "mac = nd_mac d \<or> mac_addr_is_broadcast mac"
    and len: "length pay \<le> 1500" and us: "is_for_us dst d"
  obtains s' d' pre' where "netdev_receive recv call dev b s = ip_deliver recv call dev b proto (nd_ip_addr peer) dst s'"
    "rstep {b} s s'" "held b s'" "contents s' b = Some (pre', pay @ pad, post)" "header_inside s' b" "is_reass s' = is_reass s"
    "same_env (s\<lparr>ds_devs := (ds_devs s)(dev := Some d')\<rparr>) s'" "dev_cfg d' = dev_cfg d" "ns_kmalloc s' = ns_kmalloc s"
    "ns_blocks s' = ns_blocks s" "\<forall>x. x \<noteq> b \<longrightarrow> ns_bufs s' x = ns_bufs s x"
proof -
  obtain buf where buf: "ns_bufs s b = Some buf" using h by (auto simp: held_def owned_def)
  let ?frame = "ip_frame_bytes mac peer ident proto dst pay @ pad"
  let ?f = "\<lambda>d. d\<lparr>nd_rx_packets := nd_rx_packets d + 1, nd_rx_bytes := nd_rx_bytes d + ucast (nb_len buf)\<rparr>"
  let ?g = "\<lambda>x :: netbuf_t. x\<lparr>nb_dev := dev\<rparr>"
  let ?s1 = "s\<lparr>ds_devs := (ds_devs s)(dev := Some (?f d))\<rparr>"
  let ?h = "sealed (ip_header_out (of_nat (20 + length pay)) ident proto (nd_ip_addr peer) dst)"
  have nz: "dev \<noteq> 0" "b \<noteq> 0" using d dev_okD(3)[of s dev d] udp_okD(1)[OF ok] arp_okD(1) h by (auto simp: held_def owned_def)
  have cfg: "dev_cfg (?f d) = dev_cfg d" by (simp add: dev_cfg_def)
  note t = upd_dev_rstep[OF ok d(1), of ?f, OF cfg]
  have u1: "udp_ok ?s1" "net_ok ?s1" using t(2) by (auto simp: rstep_def udp_okD(1) arp_okD(2))
  have c1: "contents ?s1 b = Some (pre, ?frame, post)" "ns_bufs ?s1 b = Some buf" "held b ?s1" using t(3,4,7) c h buf by simp_all
  obtain s2 where s2: "upd_buf b ?g ?s1 = Some s2" "buf_step b (pre, ?frame, post) ?s1 s2"
    by (rule upd_buf_meta[OF u1(2) c1(1,2), of ?g]) simp_all
  note r2 = rstep_buf[OF u1(1) c1(3) s2(2)]
  have u2: "udp_ok s2" using r2(1) by (simp add: rstep_def)
  have d2: "ds_devs s2 dev = Some (?f d)" using same_env_cache(2)[OF r2(5)] t(6) by simp
  have run: "netdev_receive recv call dev b s = ethernet_input recv call dev b s2"
    using d nz buf t(1) s2(1) by (simp add: netdev_receive_def)
  note fh = ip_frame_header[OF mac(1,2), of ident proto dst pay pad]
  have acc: "eth_accepts ?frame (?f d)" using fh(1,4) mac(3) unfolding eth_accepts_def by auto
  obtain s3 where s3: "ethernet_input recv call dev b s2 = ip_input recv call dev b s3"
      "buf_step b (pre @ take 14 ?frame, ip_header_bytes ?h @ pay @ pad, post) s2 s3" "ns_blocks s3 = ns_blocks s2"
  proof (cases rule: ethernet_input_cases[OF u2 r2(2,3) d2, where recv = recv and call = call])
    case 1
    then show ?thesis using acc by simp
  next
    case (2 s1)
    show ?thesis by (rule that[of s1]) (use 2(2-4) fh(2,3) in simp_all)
  qed
  note r3 = rstep_buf[OF u2 r2(2) s3(2)]
  have u3: "udp_ok s3" using r3(1) by (simp add: rstep_def)
  have d3: "ds_devs s3 dev = Some (?f d)" using same_env_cache(2)[OF r3(5)] d2 by simp
  have us': "is_for_us dst (?f d)" using us by (simp add: is_for_us_def)
  note ip = ip_packet_accepted[OF len us']
  have nf: "\<not> ip_fragmented (ip_header_of (take 20 (ip_header_bytes ?h @ pay @ pad)))" unfolding ip(2) by (rule ip(4))
  obtain s4 where s4: "ip_input recv call dev b s3 = ip_deliver recv call dev b proto (nd_ip_addr peer) dst s4"
      "buf_step b ((pre @ take 14 ?frame) @ ip_header_bytes ?h, pay @ pad, post) s3 s4" "header_inside s4 b" "ns_blocks s4 = ns_blocks s3"
    by (rule ip_input_plain[OF u3 r3(2,3) d3 ip(1) nf, of recv call]) (unfold ip(2,3,5-7), simp)
  have st: "buf_step b ((pre @ take 14 ?frame) @ ip_header_bytes ?h, pay @ pad, post) ?s1 s4"
    by (rule buf_step_trans[OF buf_step_trans[OF s2(2) s3(2)] s4(2)])
  note r4 = rstep_buf[OF u1(1) c1(3) st]
  show ?thesis
    by (rule that[OF _ rstep_trans1[OF t(2) r4(1)] r4(2,3) s4(3) _ r4(5) cfg])
      (use run s3(1,3) s4(1,4) r4(4) st upd_buf_blocks[OF s2(1)] in \<open>simp_all add: buf_step_def\<close>)
qed

lemma egress_devs:
  assumes "ds_devs s dev = Some d" "dev_cfg d' = dev_cfg d"
  shows "egress dev0 dst (s\<lparr>ds_devs := (ds_devs s)(dev := Some d')\<rparr>) = egress dev0 dst s"
proof -
  have "ip_get_next_hop d' = ip_get_next_hop d" using assms(2) by (auto simp: ip_get_next_hop_def dev_cfg_def fun_eq_iff)
  then show ?thesis using assms(1)
    unfolding egress_def ip_route_lookup_def netdev_get_default_def Let_def by simp
qed

lemma ip_frame_cfg: "dev_cfg d' = dev_cfg d \<Longrightarrow> ip_frame_bytes mac d' ident proto dst pay = ip_frame_bytes mac d ident proto dst pay"
  by (simp add: ip_frame_bytes_def dev_cfg_def)

lemma path_open_devs:
  fixes s :: "'a ip_env_scheme"
  assumes "ds_devs s dev = Some d" "dev_cfg d' = dev_cfg d" "path_open dev0 dst devo hop dd mac rs s"
  shows "\<exists>dd'. dev_cfg dd' = dev_cfg dd \<and> path_open dev0 dst devo hop dd' mac rs (s\<lparr>ds_devs := (ds_devs s)(dev := Some d')\<rparr>)"
proof -
  let ?s = "s\<lparr>ds_devs := (ds_devs s)(dev := Some d')\<rparr>"
  let ?dd = "if devo = dev then d' else dd"
  have lk: "arp_cache_lookup hop ?s = arp_cache_lookup hop s" by (rule lookup_cache) simp
  have dd: "dev_cfg ?dd = dev_cfg dd" using assms by (auto simp: path_open_def)
  then have "path_open dev0 dst devo hop ?dd mac rs ?s"
    using assms(3) unfolding path_open_def egress_devs[OF assms(1,2)] lk by (auto simp: dev_cfg_def)
  then show ?thesis using dd by blast
qed

lemma alloc_fst_cong:
  assumes "ns_kmalloc s' = ns_kmalloc s" "ns_blocks s' = ns_blocks s" "\<forall>x. (ns_bufs s' x = None) = (ns_bufs s x = None)"
  shows "fst (netbuf_alloc n s') = fst (netbuf_alloc n s)"
  using assms by (auto simp: netbuf_alloc_def kmalloc_next_def kmalloc_block_def Let_def split: list.split)

text \<open>The frame a call put on the wire last.\<close>

definition last_frame :: "'a dev_state_scheme \<Rightarrow> u8 list" where
  "last_frame s = snd (last (ds_wire s))"

text \<open>A device that is up and has the hardware and the protocol address of a machine.\<close>

definition station :: "u32 \<Rightarrow> u8 list \<Rightarrow> u32 \<Rightarrow> 'a dev_state_scheme \<Rightarrow> bool" where
  "station dev mac ip s \<longleftrightarrow> (\<exists>d. ds_devs s dev = Some d \<and> nd_state d = NETDEV_UP \<and> nd_mac d = mac \<and> nd_ip_addr d = ip)"

section \<open>Datagrams\<close>

lemma udp_bytes_header:
  assumes "length pay \<le> 1476"
  shows "ntohs (uh_length (udp_header_of (udp_bytes src dst sp dp pay @ pad))) = of_nat (8 + length pay)"
    "ntohs (uh_src_port (udp_header_of (udp_bytes src dst sp dp pay @ pad))) = sp"
    "ntohs (uh_dst_port (udp_header_of (udp_bytes src dst sp dp pay @ pad))) = dp"
    "udp_good src dst (of_nat (8 + length pay)) (uh_checksum (udp_header_of (udp_bytes src dst sp dp pay @ pad))) (udp_bytes src dst sp dp pay @ pad)"
    "drop 8 (udp_bytes src dst sp dp pay @ pad) = pay @ pad"
proof -
  let ?c = "udp_checksum src dst (udp_raw sp dp pay) (of_nat (8 + length pay))"
  have raw: "udp_raw sp dp pay = bytes16 (htons sp) @ bytes16 (htons dp) @ bytes16 (htons (of_nat (8 + length pay))) @ bytes16 0 @ pay"
    by (simp add: udp_raw_def udp_header_bytes_def)
  have b: "udp_bytes src dst sp dp pay = bytes16 (htons sp) @ bytes16 (htons dp) @ bytes16 (htons (of_nat (8 + length pay))) @ bytes16 ?c @ pay"
    unfolding udp_bytes_def by (subst (2) raw) (simp add: overwrite_def bytes16_def)
  show "ntohs (uh_length (udp_header_of (udp_bytes src dst sp dp pay @ pad))) = of_nat (8 + length pay)"
    "ntohs (uh_src_port (udp_header_of (udp_bytes src dst sp dp pay @ pad))) = sp"
    "ntohs (uh_dst_port (udp_header_of (udp_bytes src dst sp dp pay @ pad))) = dp"
    "drop 8 (udp_bytes src dst sp dp pay @ pad) = pay @ pad"
    unfolding b by (simp_all add: udp_header_of_def bytes16_def le16_bytes16 del: of_nat_add)
  have ck: "uh_checksum (udp_header_of (udp_bytes src dst sp dp pay @ pad)) = ?c"
    unfolding b by (simp add: udp_header_of_def bytes16_def le16_bytes16 del: of_nat_add)
  have un: "unat (of_nat (8 + length pay) :: u16) = 8 + length pay" unfolding unat_of_nat using assms by simp
  have "overwrite 6 (bytes16 0) (udp_bytes src dst sp dp pay) = udp_raw sp dp pay"
    unfolding raw by (simp add: b overwrite_def bytes16_def del: of_nat_add)
  moreover have "take (8 + length pay) (udp_bytes src dst sp dp pay @ pad) = udp_bytes src dst sp dp pay" by simp
  ultimately show "udp_good src dst (of_nat (8 + length pay)) (uh_checksum (udp_header_of (udp_bytes src dst sp dp pay @ pad))) (udp_bytes src dst sp dp pay @ pad)"
    unfolding udp_good_def ck un by simp
qed

text \<open>C9: \<^bold>\<open>A datagram arrives.\<close>  \<open>udp_sendto\<close> on one machine, with a bound block, an open path and at most 1476 bytes of data, succeeds and puts
  one frame on the wire.  When these bytes arrive at the machine with the destination address, followed by whatever bytes the link has added to a short frame, the
  buffer is appended to the receive queue of the block that \<open>udp_find_pcb\<close> selects, and its contents are the data sent followed by the added bytes: the receive
  path never cuts a packet to the length its header states.\<close>

theorem udp_datagram_arrives:
  fixes sA :: "'a udp_env_scheme" and sB :: "'b tcp_env_scheme"
  assumes A: "udp_ok sA" "us_pcb sA p = Some pcb" "held bA sA" "contents sA bA = Some (preA, data, postA)" "up_local_port pcb \<noteq> 0"
      "up_local_ip pcb = 0 \<or> up_local_ip pcb = nd_ip_addr dA" "ds_default sA = devA" "path_open devA dst devA hop dA mac rs sA"
      "42 \<le> length preA" "length data \<le> 1476"
    and B: "udp_ok sB" "recv_ok recv" "held b sB" "station dev mac dst sB"
      "contents sB b = Some (pre, last_frame (snd (the (udp_sendto p bA dst dport sA))) @ pad, post)"
      "udp_find_pcb dst dport (nd_ip_addr dA) (up_local_port pcb) sB = Some q" "q \<noteq> 0" "us_pcb sB q = Some qcb" "up_recv_callback qcb = 0"
  shows "\<exists>sA' sB' pre'. udp_sendto p bA dst dport sA = Some (0, sA') \<and> netdev_receive recv call dev b sB = Some sB'
    \<and> queue_of sB' q = queue_of sB q @ [b] \<and> contents sB' b = Some (pre', data @ pad, post)"
proof -
  let ?pay = "udp_bytes (nd_ip_addr dA) dst (up_local_port pcb) dport data"
  have src: "(if up_local_ip pcb \<noteq> 0 then up_local_ip pcb else nd_ip_addr dA) = nd_ip_addr dA" using A(6) by auto
  obtain ret sA' where s: "udp_sendto p bA dst dport sA = Some (ret, sA')"
    "up_local_port pcb \<noteq> 0 \<and> ds_default sA = devA \<and> path_open devA dst devA hop dA mac rs sA \<and> 42 \<le> length preA \<and> length data \<le> 1476
     \<longrightarrow> ret = 0 \<and> ds_tx_ready sA' = rs
       \<and> ds_wire sA' = ds_wire sA @ [(devA, ip_frame_bytes mac dA (is_id_counter sA) IP_PROTO_UDP dst
           (udp_bytes (if up_local_ip pcb \<noteq> 0 then up_local_ip pcb else nd_ip_addr dA) dst (up_local_port pcb) dport data))]"
    by (rule udp_sendto_step[OF A(1-4)])
  have sent: "udp_sendto p bA dst dport sA = Some (0, sA')" "last_frame sA' = ip_frame_bytes mac dA (is_id_counter sA) IP_PROTO_UDP dst ?pay"
    using s(1) s(2)[unfolded src] A(5,7-10) by (simp_all add: last_frame_def)
  have c: "contents sB b = Some (pre, ip_frame_bytes mac dA (is_id_counter sA) IP_PROTO_UDP dst ?pay @ pad, post)"
    using B(5) sent by simp
  obtain d where d: "ds_devs sB dev = Some d" "nd_state d = NETDEV_UP" "nd_mac d = mac" "nd_ip_addr d = dst" using B(4) by (auto simp: station_def)
  have m: "length mac = 6" using dev_okD(2)[OF arp_okD(1)[OF udp_okD(1)[OF B(1)]] d(1)] d(3) by simp
  have mA: "length (nd_mac dA) = 6" using dev_okD(2)[OF arp_okD(1)[OF udp_okD(1)[OF A(1)]]] A(8) by (auto simp: path_open_def)
  have mm: "mac = nd_mac d \<or> mac_addr_is_broadcast mac" using d(3) by simp
  have us: "is_for_us dst d" using d(4) by (simp add: is_for_us_def)
  have l: "length ?pay \<le> 1500" using A(10) by simp
  obtain s' d' pre1 where s': "netdev_receive recv call dev b sB = ip_deliver recv call dev b IP_PROTO_UDP (nd_ip_addr dA) dst s'"
    "rstep {b} sB s'" "held b s'" "contents s' b = Some (pre1, ?pay @ pad, post)" "header_inside s' b"
    "same_env (sB\<lparr>ds_devs := (ds_devs sB)(dev := Some d')\<rparr>) s'"
    by (rule frame_delivered[OF B(1,3) d(1,2) c m mA mm l us, where recv = recv and call = call])
  have more: "icmp_env.more s' = icmp_env.more sB" using more_icmp(5)[OF same_env_path(4)[OF s'(6)]] by simp
  note mu = more_udp[OF more]
  have q: "queue_of s' q = queue_of sB q" by (simp add: queue_of_def mu)
  have fp: "udp_find_pcb dst dport (nd_ip_addr dA) (up_local_port pcb) s' = Some q"
    using B(6) udp_find_pcb_cong[OF mu(2,1)] by simp
  have dv: "dev \<noteq> 0" using dev_okD(3)[OF arp_okD(1)[OF udp_okD(1)[OF B(1)]] d(1)] .
  have u': "udp_ok s'" using s'(2) by (simp add: rstep_def)
  note hd = udp_bytes_header[OF A(10), where pad = pad and src = "nd_ip_addr dA" and dst = dst and sp = "up_local_port pcb" and dp = dport]
  have un: "unat (of_nat (8 + length data) :: u16) = 8 + length data" unfolding unat_of_nat using A(10) by simp
  obtain sB' where r: "udp_input recv dev b (nd_ip_addr dA) dst s' = Some sB'"
    "queue_of sB' q = queue_of s' q @ [b] \<and> contents sB' b = Some (pre1 @ take 8 (?pay @ pad), drop 8 (?pay @ pad), post) \<and> ds_wire sB' = ds_wire s'"
    by (rule udp_input_step[OF u' s'(3) dv B(2) s'(4,5), where q = q and pcb = qcb and src = "nd_ip_addr dA" and dst = dst])
      (use fp B(7-9) mu hd un in \<open>simp del: of_nat_add\<close>)
  show ?thesis
    by (intro exI[of _ sA'] exI[of _ sB'] exI[of _ "pre1 @ take 8 (?pay @ pad)"])
      (use sent(1) s'(1) r q hd(5) in \<open>simp add: ip_deliver_def\<close>)
qed

section \<open>Ping\<close>

lemma echo_bytes_form:
  assumes "length bs \<le> 1476"
  shows "checksum (echo_bytes typ ident seq bs) = 0" "length (echo_bytes typ ident seq bs) = 8 + length bs"
    "\<exists>c. echo_bytes typ ident seq bs = [typ, 0] @ bytes16 c @ bytes16 (htons ident) @ bytes16 (htons seq) @ bs"
proof -
  have m: "icmp_header_bytes (echo_header typ ident seq) @ bs = [typ, 0, 0, 0] @ bytes16 (htons ident) @ bytes16 (htons seq) @ bs"
    by (simp add: icmp_header_bytes_def echo_header_def bytes16_def)
  have l: "length (bytes16 (htons ident) @ bytes16 (htons seq) @ bs) \<le> 131000" using assms by simp
  note w = with_checksum_verifies[OF m l]
  show "checksum (echo_bytes typ ident seq bs) = 0" "length (echo_bytes typ ident seq bs) = 8 + length bs"
    unfolding echo_bytes_def using w by simp_all
  show "\<exists>c. echo_bytes typ ident seq bs = [typ, 0] @ bytes16 c @ bytes16 (htons ident) @ bytes16 (htons seq) @ bs"
    unfolding echo_bytes_def using w(3) by auto
qed

lemma echo_bytes_header:
  assumes "length bs \<le> 1476"
  shows "echo_bytes typ ident seq bs ! 0 = typ" "ic_type (icmp_header_of (echo_bytes typ ident seq bs)) = typ"
    "ntohs (fst (ic_un (icmp_header_of (echo_bytes typ ident seq bs)))) = ident"
    "ntohs (snd (ic_un (icmp_header_of (echo_bytes typ ident seq bs)))) = seq" "drop 8 (echo_bytes typ ident seq bs) = bs"
  using echo_bytes_form(3)[OF assms, of "typ" ident seq] by (auto simp: icmp_header_of_def bytes16_def le16_bytes16)

lemma echo_answer:
  assumes "length bs \<le> 1476"
  shows "echo_reply (echo_bytes ICMP_ECHO_REQUEST ident seq bs) = echo_bytes ICMP_ECHO_REPLY ident seq bs"
  using echo_reply_bytes[of "echo_bytes ICMP_ECHO_REQUEST ident seq bs"] echo_bytes_form(2)[OF assms, of ICMP_ECHO_REQUEST ident seq]
  by (simp add: echo_bytes_header[OF assms])

text \<open>The reply that is waited for ends the wait and reports the round-trip time.\<close>

lemma icmp_reply_noted:
  fixes s :: "'a icmp_env_scheme"
  assumes ok: "arp_ok s" and b: "owned b s" and dv: "dev \<noteq> 0" and len: "length bs \<le> 1476"
    and c: "contents s b = Some (pre, echo_bytes ICMP_ECHO_REPLY ident seq bs, post)"
    and lp: "cs_last_ping s = \<lparr>lp_id = ident, lp_seq = seq, lp_send_time = t, lp_waiting = True\<rparr>" and cb: "cs_callback s = Some Ping_callback"
  obtains s' where "icmp_input dev b src s = Some s'" "cs_last_rtt s' = ns_now s - t" "\<not> lp_waiting (cs_last_ping s')"
    "cs_ping_result s' = \<lparr>pr_received = True, pr_rtt = ns_now s - t, pr_src_ip = src\<rparr>" "ds_wire s' = ds_wire s"
proof -
  let ?pay = "echo_bytes ICMP_ECHO_REPLY ident seq bs"
  note h = echo_bytes_header[OF len, of ICMP_ECHO_REPLY ident seq] and f = echo_bytes_form(1,2)[OF len, of ICMP_ECHO_REPLY ident seq]
  have nok: "net_ok s" by (rule arp_okD(2)[OF ok])
  obtain buf where bf: "ns_bufs s b = Some buf" using b by (auto simp: owned_def)
  have ul: "unat (nb_len buf) = length ?pay" by (rule nb_len_contents(1)[OF nok c bf])
  have rd: "nb_read s b (nb_data buf) (unat (nb_len buf)) = Some ?pay"
    using nb_read_data[OF nok c bf, of 0 "length ?pay"] ul by simp
  have short: "\<not> nb_len buf < 8" using ul f(2) by (simp add: word_less_nat_alt)
  let ?rtt = "ns_now s - t"
  let ?s1 = "s\<lparr>cs_last_rtt := ?rtt, cs_last_ping := (cs_last_ping s)\<lparr>lp_waiting := False\<rparr>,
    cs_ping_result := \<lparr>pr_received = True, pr_rtt = ?rtt, pr_src_ip = src\<rparr>\<rparr>"
  have run: "icmp_input dev b src s = netbuf_free b ?s1"
    using dv b bf short rd f(1) h lp cb by (simp add: icmp_input_def Let_def owned_def ping_callback_def)
  have low: "low_eq s ?s1" by (simp add: low_eq_def)
  have k: "kept {} s ?s1" by (rule low_eq_kept[OF ok low])
  have o1: "owned b ?s1" using kept_owned(1)[OF k b] by simp
  obtain s2 where s2: "netbuf_free b ?s1 = Some s2" "arp_step {b} ?s1 s2" "ds_wire s2 = ds_wire ?s1"
    by (rule netbuf_free_kept[OF kept_ok[OF k] o1])
  note m = more_icmp[OF arp_step_ext(4)[OF s2(2)]]
  show ?thesis by (rule that[of s2]) (use run s2(1,3) m in simp_all)
qed

text \<open>The first two steps of a ping: the request on the wire of one machine, the reply on the wire of the other.\<close>

lemma ping_answered:
  fixes sA :: "'a tcp_env_scheme" and sB :: "'b tcp_env_scheme"
  assumes A: "udp_ok sA" "path_open 0 dst devA hopA dA macB rsA sA" "fst (netbuf_alloc (of_nat (8 + length bs)) sA) \<noteq> 0" "length bs \<le> 1476"
    and B: "udp_ok sB" "held b sB" "station dev macB dst sB" "path_open 0 (nd_ip_addr dA) devB hopB dB macA rsB sB"
      "fst (netbuf_alloc (of_nat (8 + length bs)) sB) \<noteq> 0"
      "contents sB b = Some (pre, last_frame (snd (the (icmp_send_echo_request dst ident seq (Some bs) (of_nat (length bs)) sA))), post)"
  obtains sA1 sB' i where "icmp_send_echo_request dst ident seq (Some bs) (of_nat (length bs)) sA = Some (0, sA1)"
    "cs_last_ping sA1 = \<lparr>lp_id = ident, lp_seq = seq, lp_send_time = ns_now sA, lp_waiting = True\<rparr>"
    "last_frame sA1 = ip_frame_bytes macB dA (is_id_counter sA) IP_PROTO_ICMP dst (echo_bytes ICMP_ECHO_REQUEST ident seq bs)"
    "netdev_receive recv call dev b sB = Some sB'" "length (ds_wire sB') = length (ds_wire sB) + 1"
    "last_frame sB' = ip_frame_bytes macA dB i IP_PROTO_ICMP (nd_ip_addr dA) (echo_bytes ICMP_ECHO_REPLY ident seq bs)"
proof -
  let ?req = "echo_bytes ICMP_ECHO_REQUEST ident seq bs" and ?rep = "echo_bytes ICMP_ECHO_REPLY ident seq bs"
  let ?k = "length bs"
  obtain ret sA1 where s: "icmp_send_echo_request dst ident seq (Some bs) (of_nat ?k) sA = Some (ret, sA1)"
    "path_open 0 dst devA hopA dA macB rsA sA \<and> ?k \<le> 1476 \<and> fst (netbuf_alloc (of_nat (8 + ?k)) sA) \<noteq> 0
     \<longrightarrow> ret = 0 \<and> ds_tx_ready sA1 = rsA \<and> cs_last_rtt sA1 = -1
       \<and> cs_last_ping sA1 = \<lparr>lp_id = ident, lp_seq = seq, lp_send_time = ns_now sA, lp_waiting = True\<rparr>
       \<and> ds_wire sA1 = ds_wire sA @ [(devA, ip_frame_bytes macB dA (is_id_counter sA) IP_PROTO_ICMP dst ?req)]"
    by (rule icmp_send_echo_request_step[OF udp_okD(1,2)[OF A(1)], where data = "Some bs" and bs = bs and k = ?k]) (use A(4) in simp_all)
  have sent: "icmp_send_echo_request dst ident seq (Some bs) (of_nat ?k) sA = Some (0, sA1)"
      "last_frame sA1 = ip_frame_bytes macB dA (is_id_counter sA) IP_PROTO_ICMP dst ?req"
      "cs_last_ping sA1 = \<lparr>lp_id = ident, lp_seq = seq, lp_send_time = ns_now sA, lp_waiting = True\<rparr>"
    using s A(2-4) by (simp_all add: last_frame_def)
  have dk: "dev_ok sA" "dev_ok sB" using A(1) B(1) by (simp_all add: udp_okD(1) arp_okD(1))
  have c: "contents sB b = Some (pre, ip_frame_bytes macB dA (is_id_counter sA) IP_PROTO_ICMP dst ?req @ [], post)" using B(6) sent by simp
  obtain d where d: "ds_devs sB dev = Some d" "nd_state d = NETDEV_UP" "nd_mac d = macB" "nd_ip_addr d = dst" using B(3) by (auto simp: station_def)
  have m: "length macB = 6" "length (nd_mac dA) = 6" "macB = nd_mac d \<or> mac_addr_is_broadcast macB"
    using dev_okD(2)[OF dk(2) d(1)] d(3) dev_okD(2)[OF dk(1)] A(2) by (auto simp: path_open_def)
  have us: "is_for_us dst d" using d(4) by (simp add: is_for_us_def)
  note f = echo_bytes_form(1,2)[OF A(4), of ICMP_ECHO_REQUEST ident seq]
  have l: "length ?req \<le> 1500" "length ?req \<le> 1920" using f(2) A(4) by simp_all
  obtain s' d' pre1 where s': "netdev_receive recv call dev b sB = ip_deliver recv call dev b IP_PROTO_ICMP (nd_ip_addr dA) dst s'"
    "rstep {b} sB s'" "held b s'" "contents s' b = Some (pre1, ?req @ [], post)"
    "same_env (sB\<lparr>ds_devs := (ds_devs sB)(dev := Some d')\<rparr>) s'" "dev_cfg d' = dev_cfg d" "ns_kmalloc s' = ns_kmalloc sB"
    "ns_blocks s' = ns_blocks sB" "\<forall>x. x \<noteq> b \<longrightarrow> ns_bufs s' x = ns_bufs sB x"
    by (rule frame_delivered[OF B(1,2) d(1,2) c m l(1) us, where recv = recv and call = call])
  have u': "udp_ok s'" using s'(2) by (simp add: rstep_def)
  have ow: "owned b s'" "owned b sB" using s'(3) B(2) by (simp_all add: held_def)
  have al: "fst (netbuf_alloc (of_nat (length ?req)) s') \<noteq> 0"
    using alloc_fst_cong[OF s'(7,8), of "of_nat (8 + ?k)"] s'(9) ow B(5) unfolding f(2) owned_def by metis
  obtain dB' where dB': "dev_cfg dB' = dev_cfg dB" "path_open 0 (nd_ip_addr dA) devB hopB dB' macA rsB s'"
    using path_open_devs[OF d(1) s'(6) B(4)] same_env_path(1)[OF s'(5)] by blast
  have dv: "dev \<noteq> 0" by (rule dev_okD(3)[OF dk(2) d(1)])
  have c': "contents s' b = Some (pre1, ?req, post)" using s'(4) by simp
  obtain sB' where r: "icmp_input dev b (nd_ip_addr dA) s' = Some sB'"
    "ds_tx_ready sB' = rsB \<and> ds_wire sB' = ds_wire s' @ [(devB, ip_frame_bytes macA dB' (is_id_counter s') IP_PROTO_ICMP (nd_ip_addr dA) (echo_reply ?req))]"
    by (rule icmp_input_step[OF udp_okD(1,2)[OF u'] ow(1) dv c' l(2), where src = "nd_ip_addr dA" and dev' = devB and hop = hopB and dd = dB' and mac = macA and rs = rsB])
      (use f al dB'(2) A(4) echo_bytes_header(1)[OF A(4)] in simp)
  have wire: "ds_wire s' = ds_wire sB" using same_env_cache(3)[OF s'(5)] by simp
  have recB: "netdev_receive recv call dev b sB = Some sB'" using s'(1) r(1) by (simp add: ip_deliver_def)
  have lf: "last_frame sB' = ip_frame_bytes macA dB (is_id_counter s') IP_PROTO_ICMP (nd_ip_addr dA) ?rep"
    using r(2) by (simp add: last_frame_def echo_answer[OF A(4)] ip_frame_cfg[OF dB'(1)])
  show ?thesis by (rule that[OF sent(1,3,2) recB _ lf]) (use r(2) wire in simp)
qed

text \<open>C8: \<^bold>\<open>A ping comes back.\<close>  Three steps on two machines.  \<open>icmp_send_echo_request\<close> on the first machine, with an open path, puts one frame on the wire.
  When it arrives at the machine with the destination address, that machine, if it has memory and an open path back, puts a frame on its wire that carries the
  same identifier, sequence number and data as an echo reply.  When this frame arrives at the first machine, which is still waiting, the wait ends, and the
  callback of \<open>net_ping\<close> notes the address of the second machine and the time since the request was sent.\<close>

theorem ping_round_trip:
  fixes sA sA2 :: "'a tcp_env_scheme" and sB :: "'b tcp_env_scheme"
  assumes A: "udp_ok sA" "path_open 0 dst devA hopA dA macB rsA sA" "fst (netbuf_alloc (of_nat (8 + length bs)) sA) \<noteq> 0" "length bs \<le> 1476"
    and B: "udp_ok sB" "held b sB" "station dev macB dst sB" "path_open 0 (nd_ip_addr dA) devB hopB dB macA rsB sB"
      "fst (netbuf_alloc (of_nat (8 + length bs)) sB) \<noteq> 0"
      "contents sB b = Some (pre, last_frame (snd (the (icmp_send_echo_request dst ident seq (Some bs) (of_nat (length bs)) sA))), post)"
    and A2: "udp_ok sA2" "held b2 sA2" "station dev2 macA (nd_ip_addr dA) sA2" "cs_callback sA2 = Some Ping_callback" "nd_ip_addr dB = dst"
      "cs_last_ping sA2 = cs_last_ping (snd (the (icmp_send_echo_request dst ident seq (Some bs) (of_nat (length bs)) sA)))"
      "contents sA2 b2 = Some (pre2, last_frame (the (netdev_receive recv call dev b sB)), post2)"
  shows "\<exists>sA1 sB' sA3. icmp_send_echo_request dst ident seq (Some bs) (of_nat (length bs)) sA = Some (0, sA1)
    \<and> netdev_receive recv call dev b sB = Some sB' \<and> length (ds_wire sB') = length (ds_wire sB) + 1
    \<and> netdev_receive recv2 call2 dev2 b2 sA2 = Some sA3 \<and> \<not> lp_waiting (cs_last_ping sA3)
    \<and> cs_ping_result sA3 = \<lparr>pr_received = True, pr_rtt = ns_now sA2 - ns_now sA, pr_src_ip = dst\<rparr>"
proof -
  let ?rep = "echo_bytes ICMP_ECHO_REPLY ident seq bs"
  obtain sA1 sB' i where p: "icmp_send_echo_request dst ident seq (Some bs) (of_nat (length bs)) sA = Some (0, sA1)"
    "cs_last_ping sA1 = \<lparr>lp_id = ident, lp_seq = seq, lp_send_time = ns_now sA, lp_waiting = True\<rparr>"
    "netdev_receive recv call dev b sB = Some sB'" "length (ds_wire sB') = length (ds_wire sB) + 1"
    "last_frame sB' = ip_frame_bytes macA dB i IP_PROTO_ICMP (nd_ip_addr dA) ?rep"
    by (rule ping_answered[OF A B, where recv = recv and call = call])
  have dk: "dev_ok sB" "dev_ok sA2" using B(1) A2(1) by (simp_all add: udp_okD(1) arp_okD(1))
  have c2: "contents sA2 b2 = Some (pre2, ip_frame_bytes macA dB (i) IP_PROTO_ICMP (nd_ip_addr dA) ?rep @ [], post2)"
    using A2(7) p(3,5) by simp
  obtain d2 where d2: "ds_devs sA2 dev2 = Some d2" "nd_state d2 = NETDEV_UP" "nd_mac d2 = macA" "nd_ip_addr d2 = nd_ip_addr dA"
    using A2(3) by (auto simp: station_def)
  have m2: "length macA = 6" "length (nd_mac dB) = 6" "macA = nd_mac d2 \<or> mac_addr_is_broadcast macA"
    using dev_okD(2)[OF dk(2) d2(1)] d2(3) dev_okD(2)[OF dk(1)] B(4) by (auto simp: path_open_def)
  have dv: "dev2 \<noteq> 0" by (rule dev_okD(3)[OF dk(2) d2(1)])
  have us2: "is_for_us (nd_ip_addr dA) d2" using d2(4) by (simp add: is_for_us_def)
  have l2: "length ?rep \<le> 1500" using echo_bytes_form(2)[OF A(4), of ICMP_ECHO_REPLY ident seq] A(4) by simp
  obtain t' e' pre3 where t': "netdev_receive recv2 call2 dev2 b2 sA2 = ip_deliver recv2 call2 dev2 b2 IP_PROTO_ICMP (nd_ip_addr dB) (nd_ip_addr dA) t'"
    "rstep {b2} sA2 t'" "held b2 t'" "contents t' b2 = Some (pre3, ?rep @ [], post2)"
    "same_env (sA2\<lparr>ds_devs := (ds_devs sA2)(dev2 := Some e')\<rparr>) t'"
    by (rule frame_delivered[OF A2(1,2) d2(1,2) c2 m2 l2 us2, where recv = recv2 and call = call2])
  have ut: "arp_ok t'" "owned b2 t'" using t'(2,3) by (simp_all add: rstep_def udp_okD(1) held_def)
  note mi = more_icmp[OF same_env_path(4)[OF t'(5)]]
  have lp: "cs_last_ping t' = \<lparr>lp_id = ident, lp_seq = seq, lp_send_time = ns_now sA, lp_waiting = True\<rparr>"
    using mi(2) A2(6) p(1,2) by simp
  have cb: "cs_callback t' = Some Ping_callback" using mi(1) A2(4) by simp
  have now: "ns_now t' = ns_now sA2" using same_env_path(5)[OF t'(5)] by simp
  have c3: "contents t' b2 = Some (pre3, ?rep, post2)" using t'(4) by simp
  obtain sA3 where fin: "icmp_input dev2 b2 (nd_ip_addr dB) t' = Some sA3" "\<not> lp_waiting (cs_last_ping sA3)"
    "cs_ping_result sA3 = \<lparr>pr_received = True, pr_rtt = ns_now t' - ns_now sA, pr_src_ip = nd_ip_addr dB\<rparr>"
    by (rule icmp_reply_noted[OF ut dv A(4) c3 lp cb])
  show ?thesis
    by (intro exI[of _ sA1] exI[of _ sB'] exI[of _ sA3])
      (use p(1,3,4) t'(1) fin now A2(5) in \<open>simp add: ip_deliver_def\<close>)
qed

section \<open>Padded segments\<close>

lemma word_sum_zeros: "word_sum (replicate n 0) = 0"
  by (induction n rule: nat_less_induct) (case_tac n; simp; case_tac nat; simp add: le16_def)

lemma word_sum_padded: "word_sum (xs @ replicate n 0) = word_sum xs"
proof (induction xs rule: word_sum.induct)
  case (2 b)
  show ?case by (cases n) (simp_all add: word_sum_zeros)
qed (simp_all add: word_sum_zeros)

lemma tcp_checksum_length:
  assumes "length xs \<le> 2000" "length ys \<le> 2000" "word_sum xs = word_sum ys"
    "tcp_checksum src dst xs m = tcp_checksum src dst ys n" "unat m \<in> {0<..<65535}" "unat n \<in> {0<..<65535}"
  shows "m = n"
proof -
  let ?p = "\<lambda>l. tcp_pseudo_header src dst l"
  let ?b = "word_sum (bytes32 src @ bytes32 dst @ [0, IP_PROTO_TCP])"
  have ps: "word_sum (?p l) = ?b + unat (htons l)" for l
    using word_sum_field[of "bytes32 src @ bytes32 dst @ [0, IP_PROTO_TCP]" "htons l" "[]"] by (simp add: tcp_pseudo_header_def)
  have pl: "length (?p l) = 12" for l by (simp add: tcp_pseudo_header_def)
  have acc: "unat (checksum_partial (checksum_partial 0 (?p l)) zs) = word_sum (?p l) + word_sum zs" if "length zs \<le> 2000" for l zs
  proof -
    have u: "unat (checksum_partial 0 (?p l)) = word_sum (?p l)" by (rule checksum_partial_0) (simp add: pl)
    have "2 * word_sum (?p l) \<le> 65535 * 13" using word_sum_bound[of "?p l"] pl by simp
    moreover have "65535 * (length zs + 1) \<le> 65535 * 2001" using that by simp
    then have "2 * word_sum zs \<le> 65535 * 2001" using word_sum_bound[of zs] by linarith
    ultimately show ?thesis using checksum_partial_sum[of "checksum_partial 0 (?p l)" zs] u by simp
  qed
  have f: "unat (fold_carries (checksum_partial (checksum_partial 0 (?p m)) xs)) = unat (fold_carries (checksum_partial (checksum_partial 0 (?p n)) ys))"
    using arg_cong[OF assms(4), of unat] fold_carries_bound[of "checksum_partial (checksum_partial 0 (?p m)) xs"]
      fold_carries_bound[of "checksum_partial (checksum_partial 0 (?p n)) ys"]
    unfolding tcp_checksum_def unat_checksum_finish by linarith
  have "(?b + unat (htons m) + word_sum xs) mod 65535 = (?b + unat (htons n) + word_sum ys) mod 65535"
    using fold_carries_mod[of "checksum_partial (checksum_partial 0 (?p m)) xs"] fold_carries_mod[of "checksum_partial (checksum_partial 0 (?p n)) ys"]
    unfolding f acc[OF assms(1)] acc[OF assms(2)] ps by simp
  then have e: "(unat (htons m) + (?b + word_sum ys)) mod 65535 = (unat (htons n) + (?b + word_sum ys)) mod 65535"
    using assms(3) by (simp add: ac_simps)
  have cancel: "x = y" if a: "(x + c) mod 65535 = (y + c) mod 65535" "0 < x" "x < 65535" "0 < y" "y < 65535" for x y c :: nat
  proof -
    have "(int x + int c) mod 65535 = (int y + int c) mod 65535" using arg_cong[OF a(1), of int] by (simp add: zmod_int)
    then have "65535 dvd (int x - int y)" by (simp add: mod_eq_dvd_iff)
    then obtain k where k: "int x - int y = 65535 * k" by (auto simp: dvd_def)
    then have "k < 1" "-1 < k" using a by linarith+
    then show ?thesis using k by simp
  qed
  have nz: "unat (htons l) \<in> {0<..<65535}" if "unat l \<in> {0<..<65535}" for l
  proof -
    have "htons 0 = 0" "htons 0xFFFF = 0xFFFF" by (simp_all add: htons_def)
    then have "htons l \<noteq> 0" "htons l \<noteq> 0xFFFF" using that htons_inject[of l 0] htons_inject[of l "0xFFFF"] by auto
    then have "unat (htons l) \<noteq> 0" "unat (htons l) \<noteq> 65535" by (auto simp: word_unat_eq_iff)
    then show ?thesis using unat_le16_bound[of "htons l"] by simp
  qed
  then have "unat (htons m) = unat (htons n)" using cancel[OF e] nz[OF assms(5)] nz[OF assms(6)] by simp
  then show ?thesis by (simp add: word_unat_eq_iff[symmetric])
qed

lemma padded_not_good:
  assumes "seg_good src dst seg" "0 < n" "length seg + n \<le> 1500"
  shows "\<not> seg_good src dst (seg @ replicate n 0)"
proof
  assume g: "seg_good src dst (seg @ replicate n 0)"
  let ?xs = "overwrite 16 (bytes16 0) seg"
  have l: "20 \<le> length seg" using assms(1) by (simp add: seg_good_def)
  have h: "tcp_header_of (seg @ replicate n 0) = tcp_header_of seg" 
    using l tcp_header_of_take[of seg] tcp_header_of_take[of "seg @ replicate n 0"] by simp
  have o: "overwrite 16 (bytes16 0) (seg @ replicate n 0) = ?xs @ replicate n 0" using l by (simp add: overwrite_def bytes16_def)
  have ck: "tcp_checksum src dst ?xs (of_nat (length seg)) = tcp_checksum src dst (?xs @ replicate n 0) (of_nat (length seg + n))"
    using assms(1) g by (simp add: seg_good_def h o)
  have lx: "length ?xs = length seg" using l by (simp add: overwrite_def)
  have u: "unat (of_nat (length seg) :: u16) = length seg" "unat (of_nat (length seg + n) :: u16) = length seg + n"
    unfolding unat_of_nat using assms(3) by simp_all
  have "(of_nat (length seg) :: u16) = of_nat (length seg + n)"
    by (rule tcp_checksum_length[OF _ _ word_sum_padded[symmetric] ck]) (use assms(3) l lx u in \<open>auto simp del: of_nat_add\<close>)
  then show False using arg_cong[of _ _ unat] u assms(2) by (metis add_cancel_right_right less_irrefl)
qed

text \<open>C39: \<^bold>\<open>A padded segment is thrown away.\<close>  A frame carries a TCP segment that the receiver would accept, for the right address and with a correct checksum, and the link
  has filled the frame up with zero bytes, as Ethernet does with every frame below 60 bytes and so with every acknowledgement without data.  The network layer does not cut the packet to
  its stated length, so \<open>tcp_input\<close> sums the segment with the wrong length and drops it: no block changes and nothing is sent.\<close>

theorem tcp_padded_segment_dropped:
  fixes s :: "'a tcp_env_scheme"
  assumes "tcp_ok s" "held b s" "station dev mac dst s" "length (nd_mac peer) = 6"
    "contents s b = Some (pre, ip_frame_bytes mac peer ident IP_PROTO_TCP dst seg @ replicate n 0, post)"
    "seg_good (nd_ip_addr peer) dst seg" "0 < n" "length seg + n \<le> 1500"
  shows "\<exists>s'. netdev_receive recv call dev b s = Some s' \<and> tcp_ok s' \<and> ts_pcb s' = ts_pcb s \<and> ds_wire s' = ds_wire s"
proof -
  have u: "udp_ok s" using assms(1) by (simp add: tcp_ok_def tcp_inv_def)
  have dk: "dev_ok s" by (rule arp_okD(1)[OF udp_okD(1)[OF u]])
  obtain d where d: "ds_devs s dev = Some d" "nd_state d = NETDEV_UP" "nd_mac d = mac" "nd_ip_addr d = dst"
    using assms(3) by (auto simp: station_def)
  have m: "length mac = 6" "mac = nd_mac d \<or> mac_addr_is_broadcast mac" using dev_okD(2)[OF dk d(1)] d(3) by simp_all
  have us: "is_for_us dst d" using d(4) by (simp add: is_for_us_def)
  have l: "length seg \<le> 1500" using assms(8) by simp
  obtain s1 d' pre1 where s1: "netdev_receive recv call dev b s = ip_deliver recv call dev b IP_PROTO_TCP (nd_ip_addr peer) dst s1"
    "rstep {b} s s1" "held b s1" "contents s1 b = Some (pre1, seg @ replicate n 0, post)"
    "same_env (s\<lparr>ds_devs := (ds_devs s)(dev := Some d')\<rparr>) s1"
    by (rule frame_delivered[OF u assms(2) d(1,2) assms(5) m(1) assms(4) m(2) l us, where recv = recv and call = call])
  have ok1: "tcp_ok s1" by (rule rstep_tcp[OF s1(2) assms(1)])
  have dv: "dev \<noteq> 0" by (rule dev_okD(3)[OF dk d(1)])
  have "dropped b s1 (tcp_input call dev b (nd_ip_addr peer) dst s1)"
    by (rule tcp_input_cases[OF ok1 s1(3,4) dv, where src = "nd_ip_addr peer" and dst = dst and call = call])
      (use padded_not_good[OF assms(6-8)] in simp_all)
  then obtain s' where s': "tcp_input call dev b (nd_ip_addr peer) dst s1 = Some s'" "tcp_ok s'" "udp_env.more s' = udp_env.more s1" "ds_wire s' = ds_wire s1"
    by (auto simp: dropped_def fine_def)
  have "ts_pcb s1 = ts_pcb s" using more_tcp(1)[of s1 s] s1(2) by (simp add: rstep_def)
  moreover have "ds_wire s1 = ds_wire s" using same_env_cache(3)[OF s1(5)] by simp
  ultimately show ?thesis using s1(1) s' more_tcp(1)[OF s'(3)] by (simp add: ip_deliver_def)
qed

section \<open>Two machines\<close>

abbreviation no_ping :: last_ping_t where
  "no_ping \<equiv> \<lparr>lp_id = 0, lp_seq = 0, lp_send_time = 0, lp_waiting = False\<rparr>"

abbreviation mac1 :: "u8 list" where "mac1 \<equiv> [2, 0, 0, 0, 0, 1]"

abbreviation mac2 :: "u8 list" where "mac2 \<equiv> [2, 0, 0, 0, 0, 2]"

text \<open>The machine 10.0.0.1 and the machine 10.0.0.2, each with the other in its address cache.\<close>

definition host1 :: "last_ping_t \<Rightarrow> u8 list \<Rightarrow> tcp_env" where
  "host1 lp bytes = host mac1 0x0100000A mac2 0x0200000A lp bytes"

definition host2 :: "u8 list \<Rightarrow> tcp_env" where
  "host2 bytes = host mac2 0x0200000A mac1 0x0100000A no_ping bytes"

definition nic :: "u8 list \<Rightarrow> u32 \<Rightarrow> netdev_t" where
  "nic mac ip = zero_netdev\<lparr>nd_mac := mac, nd_state := NETDEV_UP, nd_ops := Some E1000_ops, nd_ip_addr := ip, nd_netmask := 0x00FFFFFF\<rparr>"

lemma hosts_ok:
  assumes "length bytes \<le> 1920"
  shows "tcp_ok (host1 lp bytes)" "held 0x1000 (host1 lp bytes)" "contents (host1 lp bytes) 0x1000 = Some (replicate 128 0, bytes, [])"
    "tcp_ok (host2 bytes)" "held 0x1000 (host2 bytes)" "contents (host2 bytes) 0x1000 = Some (replicate 128 0, bytes, [])"
    "station 0x100 mac1 0x0100000A (host1 lp bytes)" "station 0x100 mac2 0x0200000A (host2 bytes)"
  using host_ok(1,2)[OF assms, of mac1 mac2] host_ok(1,2)[OF assms, of mac2 mac1] host_buffer(2)[OF assms]
  by (simp_all add: host1_def host2_def) (simp_all add: station_def host_def)

theorem tcp_padded_segment_dropped_witness:
  "\<exists>s'. netdev_receive (\<lambda>cb p b src sport. netbuf_free b) (\<lambda>_ s. Some s) 0x100 0x1000
     (host1 no_ping (ip_frame_bytes mac1 (nic mac2 0x0200000A) 0 IP_PROTO_TCP 0x0100000A syn_segment @ replicate 6 0)) = Some s' \<and> ds_wire s' = []"
proof -
  let ?f = "ip_frame_bytes mac1 (nic mac2 0x0200000A) 0 IP_PROTO_TCP 0x0100000A syn_segment @ replicate 6 0"
  have l: "length ?f \<le> 1920" using ip_frame_header(4)[of mac1 "nic mac2 0x0200000A"] by (simp add: nic_def syn_segment_def)
  have m: "length (nd_mac (nic mac2 0x0200000A)) = 6" by (simp add: nic_def)
  have g: "seg_good (nd_ip_addr (nic mac2 0x0200000A)) 0x0100000A syn_segment" using syn_segment_good by (simp add: nic_def)
  have n: "length syn_segment + 6 \<le> 1500" by (simp add: syn_segment_def)
  note h = hosts_ok(1,2,7,3)[OF l, of no_ping]
  from tcp_padded_segment_dropped[OF h(1-3) m h(4) g _ n] show ?thesis by (fastforce simp: host1_def host_def)
qed

lemma host_path:
  assumes "dev0 = 0 \<or> dev0 = 0x100" "ip \<noteq> 0" "ip AND 0x00FFFFFF = pip AND 0x00FFFFFF"
  shows "path_open dev0 pip 0x100 pip (nic mac ip) pmac [] (host mac ip pmac pip lp bytes)"
proof -
  have "fold (route_step pip) (replicate k zero_route) r = r" for k r
    by (induction k) (simp_all add: route_step_def zero_route_def)
  then have e: "egress dev0 pip (host mac ip pmac pip lp bytes) = Some (0x100, pip)"
    using assms by (auto simp: egress_def ip_route_lookup_def host_def netdev_get_default_def ip_get_next_hop_def ip_same_subnet_def zero_netdev_def)
  have "arp_cache_find pip (host mac ip pmac pip lp bytes) = Some 0"
    by (simp add: arp_cache_find_def host_def upt_rec[of 0])
  then have "arp_cache_lookup pip (host mac ip pmac pip lp bytes) = Some pmac"
    by (simp add: arp_cache_lookup_def) (simp add: host_def)
  then show ?thesis using e assms(2) by (simp add: path_open_def nic_def) (simp add: host_def zero_netdev_def)
qed

lemma host1_path: "dev0 = 0 \<or> dev0 = 0x100 \<Longrightarrow> path_open dev0 0x0200000A 0x100 0x0200000A (nic mac1 0x0100000A) mac2 [] (host1 lp bytes)"
  unfolding host1_def by (rule host_path) simp_all

lemma host2_path: "path_open 0 0x0100000A 0x100 0x0100000A (nic mac2 0x0200000A) mac1 [] (host2 bytes)"
  unfolding host2_def by (rule host_path) simp_all

theorem udp_datagram_arrives_witness:
  "let r = udp_sendto 0x300 0x1000 0x0200000A 49152 (host1 no_ping [1, 2, 3]); sB = host2 (last_frame (snd (the r)) @ [0]) in
     \<exists>sB' pre. netdev_receive (\<lambda>cb p b src sport. netbuf_free b) (\<lambda>_ s. Some s) 0x100 0x1000 sB = Some sB'
       \<and> queue_of sB' 0x300 = [0x1000] \<and> contents sB' 0x1000 = Some (pre, [1, 2, 3, 0], [])"
proof -
  let ?A = "host1 no_ping [1, 2, 3]" and ?pcb = "zero_udp_pcb\<lparr>up_local_port := 49152\<rparr>"
  let ?F = "last_frame (snd (the (udp_sendto 0x300 0x1000 0x0200000A 49152 ?A)))"
  have l3: "length [1, 2, 3 :: u8] \<le> 1920" by simp
  note A = hosts_ok(1-3)[OF l3, of no_ping]
  have uA: "udp_ok ?A" using A(1) by (simp add: tcp_ok_def tcp_inv_def)
  have pA: "us_pcb ?A 0x300 = Some ?pcb" "up_local_ip ?pcb = 0" "up_local_port ?pcb = 49152" "ds_default ?A = 0x100"
    by (simp_all add: host1_def host_def zero_udp_pcb_def)
  note path = host1_path[of "0x100" no_ping "[1, 2, 3]", simplified]
  obtain ret sA' where s: "udp_sendto 0x300 0x1000 0x0200000A 49152 ?A = Some (ret, sA')"
    "up_local_port ?pcb \<noteq> 0 \<and> ds_default ?A = 0x100 \<and> path_open 0x100 0x0200000A 0x100 0x0200000A (nic mac1 0x0100000A) mac2 [] ?A
        \<and> 42 \<le> length (replicate 128 (0 :: u8)) \<and> length [1, 2, 3 :: u8] \<le> 1476
     \<longrightarrow> ret = 0 \<and> ds_tx_ready sA' = [] \<and> ds_wire sA' = ds_wire ?A @ [(0x100, ip_frame_bytes mac2 (nic mac1 0x0100000A) (is_id_counter ?A) IP_PROTO_UDP 0x0200000A
           (udp_bytes (if up_local_ip ?pcb \<noteq> 0 then up_local_ip ?pcb else nd_ip_addr (nic mac1 0x0100000A)) 0x0200000A (up_local_port ?pcb) 49152 [1, 2, 3]))]"
    by (rule udp_sendto_step[OF uA pA(1) A(2,3)])
  have lf: "length (?F @ [0]) \<le> 1920"
    using s path pA(3,4) ip_frame_header(4)[of mac2 "nic mac1 0x0100000A" _ _ _ _ "[]"] by (simp add: last_frame_def nic_def)
  note B = hosts_ok(4-6,8)[OF lf]
  have uB: "udp_ok (host2 (?F @ [0]))" using B(1) by (simp add: tcp_ok_def tcp_inv_def)
  have pB: "us_pcb (host2 (?F @ [0])) 0x300 = Some ?pcb" "up_recv_callback ?pcb = 0" "queue_of (host2 (?F @ [0])) 0x300 = []"
    "udp_find_pcb 0x0200000A 49152 (nd_ip_addr (nic mac1 0x0100000A)) (up_local_port ?pcb) (host2 (?F @ [0])) = Some 0x300"
    by (simp_all add: host2_def host_def zero_udp_pcb_def queue_of_def udp_find_pcb_def udp_score_def)
  have x: "up_local_port ?pcb \<noteq> 0" "up_local_ip ?pcb = 0 \<or> up_local_ip ?pcb = nd_ip_addr (nic mac1 0x0100000A)" "42 \<le> length (replicate 128 (0 :: u8))"
    "length [1, 2, 3 :: u8] \<le> 1476" "(0x300 :: u32) \<noteq> 0" using pA by simp_all
  from udp_datagram_arrives[OF uA pA(1) A(2,3) x(1,2) pA(4) path x(3,4) uB recv_release_ok B(2,4,3) pB(4) x(5) pB(1,2)]
  show ?thesis unfolding pB(3) Let_def by fastforce
qed

theorem ping_round_trip_witness:
  "let r = icmp_send_echo_request 0x0200000A 1 1 (Some [9, 8]) 2 (host1 no_ping []);
       sB = host2 (last_frame (snd (the r)));
       answer = netdev_receive (\<lambda>cb p b src sport. netbuf_free b) (\<lambda>_ s. Some s) 0x100 0x1000 sB;
       sA = host1 (cs_last_ping (snd (the r))) (last_frame (the answer)) in
     \<exists>sA'. netdev_receive (\<lambda>cb p b src sport. netbuf_free b) (\<lambda>_ s. Some s) 0x100 0x1000 sA = Some sA'
       \<and> cs_ping_result sA' = \<lparr>pr_received = True, pr_rtt = 0, pr_src_ip = 0x0200000A\<rparr>"
proof -
  let ?A = "host1 no_ping []" and ?recv = "\<lambda>(cb :: u32) (p :: u32) b (src :: u32) (sport :: u16). netbuf_free b"
  let ?r = "icmp_send_echo_request 0x0200000A 1 1 (Some [9, 8]) (of_nat (length [9, 8 :: u8])) ?A"
  let ?F = "last_frame (snd (the ?r))" and ?dA = "nic mac1 0x0100000A" and ?dB = "nic mac2 0x0200000A"
  let ?G = "last_frame (the (netdev_receive ?recv (\<lambda>_ s. Some s) 0x100 0x1000 (host2 ?F)))"
  have l0: "length ([] :: u8 list) \<le> 1920" and k: "length [9, 8 :: u8] \<le> 1476" by simp_all
  have uA: "udp_ok ?A" using hosts_ok(1)[OF l0, of no_ping] by (simp add: tcp_ok_def tcp_inv_def)
  have alA: "fst (netbuf_alloc (of_nat (8 + length [9, 8 :: u8])) ?A) \<noteq> 0"
    by (simp add: host1_def host_def netbuf_alloc_def kmalloc_next_def kmalloc_block_def Let_def)
  note pA = host1_path[of 0 no_ping "[]", simplified]
  have dA: "nd_ip_addr ?dA = 0x0100000A" "length (nd_mac ?dA) = 6" "nd_ip_addr ?dB = 0x0200000A" "length (nd_mac ?dB) = 6" by (simp_all add: nic_def)
  have "\<exists>i pay. ?F = ip_frame_bytes mac2 ?dA i IP_PROTO_ICMP 0x0200000A pay \<and> length pay = 10"
  proof -
    obtain ret sA1 where "?r = Some (ret, sA1)" "path_open 0 0x0200000A 0x100 0x0200000A ?dA mac2 [] ?A \<and> length [9, 8 :: u8] \<le> 1476
        \<and> fst (netbuf_alloc (of_nat (8 + length [9, 8 :: u8])) ?A) \<noteq> 0
      \<longrightarrow> ret = 0 \<and> ds_tx_ready sA1 = [] \<and> cs_last_rtt sA1 = -1
        \<and> cs_last_ping sA1 = \<lparr>lp_id = 1, lp_seq = 1, lp_send_time = ns_now ?A, lp_waiting = True\<rparr>
        \<and> ds_wire sA1 = ds_wire ?A @ [(0x100, ip_frame_bytes mac2 ?dA (is_id_counter ?A) IP_PROTO_ICMP 0x0200000A (echo_bytes ICMP_ECHO_REQUEST 1 1 [9, 8]))]"
      by (rule icmp_send_echo_request_step[OF udp_okD(1,2)[OF uA], where data = "Some [9, 8]" and bs = "[9, 8]" and k = "length [9, 8 :: u8]"]) (use k in simp_all)
    then show ?thesis using pA alA k echo_bytes_form(2)[OF k, of ICMP_ECHO_REQUEST 1 1] by (auto simp: last_frame_def)
  qed
  then have lF: "length ?F \<le> 1920" using ip_frame_header(4)[of mac2 ?dA _ _ _ _ "[]"] dA(2) by auto
  note B = hosts_ok(4-6,8)[OF lF]
  have uB: "udp_ok (host2 ?F)" using B(1) by (simp add: tcp_ok_def tcp_inv_def)
  have alB: "fst (netbuf_alloc (of_nat (8 + length [9, 8 :: u8])) (host2 ?F)) \<noteq> 0"
    by (simp add: host2_def host_def netbuf_alloc_def kmalloc_next_def kmalloc_block_def Let_def)
  have pB: "path_open 0 (nd_ip_addr ?dA) 0x100 0x0100000A ?dB mac1 [] (host2 ?F)" unfolding dA(1) by (rule host2_path)
  have lG: "length ?G \<le> 1920"
  proof -
    obtain sB' i where "netdev_receive ?recv (\<lambda>_ s. Some s) 0x100 0x1000 (host2 ?F) = Some sB'"
      "last_frame sB' = ip_frame_bytes mac1 ?dB i IP_PROTO_ICMP (nd_ip_addr ?dA) (echo_bytes ICMP_ECHO_REPLY 1 1 [9, 8])"
      by (rule ping_answered[OF uA pA alA k uB B(2,4) pB alB B(3), where recv = ?recv and call = "\<lambda>_ s. Some s"])
    then show ?thesis using ip_frame_header(4)[of mac1 ?dB _ _ _ _ "[]"] dA(4) echo_bytes_form(2)[OF k, of ICMP_ECHO_REPLY 1 1] by simp
  qed
  note A2 = hosts_ok(1-3,7)[OF lG, of "cs_last_ping (snd (the ?r))"]
  have stA: "station 0x100 mac1 (nd_ip_addr ?dA) (host1 (cs_last_ping (snd (the ?r))) ?G)" unfolding dA(1) by (rule A2(4))
  have uA2: "udp_ok (host1 (cs_last_ping (snd (the ?r))) ?G)" using A2(1) by (simp add: tcp_ok_def tcp_inv_def)
  have x: "cs_callback (host1 (cs_last_ping (snd (the ?r))) ?G) = Some Ping_callback"
    "cs_last_ping (host1 (cs_last_ping (snd (the ?r))) ?G) = cs_last_ping (snd (the ?r))"
    "ns_now (host1 (cs_last_ping (snd (the ?r))) ?G) = ns_now ?A" by (simp_all add: host1_def host_def)
  from ping_round_trip[OF uA pA alA k uB B(2,4) pB alB B(3) uA2 A2(2) stA x(1) dA(3) x(2) A2(3), of ?recv "\<lambda>_ s. Some s"]
  show ?thesis unfolding Let_def x(3) by fastforce
qed

end
