(* ===== verification/Spec2Isabelle.thy ===== *)
theory Spec2Isabelle
  imports Prelude Kmem Pmm Paging Pgtable_Arch Vmm Heap Fd_Table Sched_Props Tcp_Stream Net_Hosts
begin

text \<open>
  \<^bold>\<open>CastorOS\<close>: a verification development for a small operating system kernel in C.

  The kernel manages physical memory (\<^verbatim>\<open>src/src/mm/pmm.c\<close>), page tables (\<^verbatim>\<open>src/src/arch/\<close>) and address spaces
  (\<^verbatim>\<open>src/src/mm/vmm.c\<close>); its heap (\<^verbatim>\<open>src/src/mm/heap.c\<close>) takes frames from the first and maps them with the second.
  On these stand tasks, locks, the file-system layer with its system calls, and a network stack.  Where the code depends on the
  configuration the development follows the i686 build: pointers and \<^verbatim>\<open>size_t\<close> have 32 bits and wrap, physical addresses
  have 64.  All integers keep their width; what C does on overflow is what the word operations do.

  \<^bold>\<open>Conventions.\<close>  A C structure is a record, a pointer to one an address under which a store holds the record, or an index where
  the code keeps the objects in an array.  An operation takes the state and returns the new one; a C result, an error code included,
  is returned with it.  \<open>None\<close> as the result of an operation is an access to memory that is not there, or a call that does not return;
  where a theorem says an operation returns, it says so by \<open>Some\<close>.  A section of code under a lock is one step, because the locks
  exclude each other (theory \<open>Sync\<close>); the lock of TCP is the exception and is part of the state, because the code takes it twice.
  What firmware and hardware decide (the memory map, whether a transmit descriptor becomes free, the time) and the outcomes of the
  allocator in the network stack (the list \<open>ns_kmalloc\<close>, one entry for each call) are inputs, so that theorems hold for all of them.
  A read of a buffer that has been released is such an input too where the code does it (\<open>is_released\<close>, one place in
  \<^verbatim>\<open>ip_reassemble\<close>): the memory stays mapped and may contain anything.

  \<^bold>\<open>The theories.\<close>

  \<^item> \<open>Prelude\<close>: machine types, byte memory, facts on words and lists, the locale \<open>undoable_steps\<close> of loops that roll back.
  \<^item> \<open>Kmem\<close>: \<^verbatim>\<open>memset\<close>, \<^verbatim>\<open>memcpy\<close>, \<^verbatim>\<open>memmove\<close>, \<^verbatim>\<open>memcmp\<close> of \<^verbatim>\<open>src/src/lib/string.c\<close> with their word loops.
    The optimised routines equal the ideal fill and the ideal copy, for all lengths, alignments and overlaps.
  \<^item> \<open>Pmm\<close>: \<^verbatim>\<open>src/src/mm/pmm.c\<close>, one definition for each function.  After any calls whatever the counters agree with the bitmap
    (\<open>account_inv\<close>); the invariant \<open>pmm_inv\<close> adds reference counts and protected list, for callers that count references of used
    frames only and free no protected ones.  The allocators return free frames and fail only when there is none.
  \<^item> \<open>Paging\<close>: \<^verbatim>\<open>src/src/arch/i686/mm/paging.c\<close> on page tables in memory.  Mapping and unmapping change exactly one translation;
    the loop that maps a large page and its roll-back are an instance of the locale \<open>undoable_steps\<close> (\<open>hm\<close>).
  \<^item> \<open>Pgtable\<close>, \<open>Pgtable_Arch\<close>: the entry formats of the three \<^verbatim>\<open>pgtable.c\<close>.  The locale \<open>page_entry\<close> is the interface of
    \<^verbatim>\<open>src/src/include/hal/pgtable.h\<close>; i686, x86-64 and ARM64 are its interpretations.
  \<^item> \<open>Vmm\<close>: \<^verbatim>\<open>src/src/mm/vmm.c\<close>: mapping, cloning by copy-on-write, release, page faults.  The copy-on-write fault gives a private
    writable page with the same contents.
  \<^item> \<open>Heap\<close>: \<^verbatim>\<open>src/src/mm/heap.c\<close>.  Block headers are a store; \<open>heap_inv\<close> says that the blocks tile the heap.  Allocation and release
    keep it as long as the heap does not grow after a split of its last block; a run of ten calls shows what happens then.
  \<^item> \<open>Sync\<close>: spin locks, mutexes and semaphores (\<^verbatim>\<open>src/src/kernel/sync/\<close>).  Spin locks are a step relation over processors, with
    the exchange as the atomic step; mutual exclusion is an invariant of the reachable states.
  \<^item> \<open>Task_Queue\<close>, \<open>Task\<close>, \<open>Sched\<close>, \<open>Sched_Props\<close>: \<^verbatim>\<open>src/src/kernel/task.c\<close> and the process calls of
    \<^verbatim>\<open>src/src/kernel/syscalls/process.c\<close>.  The doubly linked ready queue refines a list (locale \<open>run_queue\<close>, interpreted as \<open>rq\<close>); in all
    reachable states it holds exactly the ready tasks; yielding is round robin.  The calls of a task that was killed and still runs
    are included, but for one: it must not kill its own parent, which would free its control block under it.
  \<^item> \<open>Fs_Node\<close>, \<open>Ramfs\<close>, \<open>Byte_Queue\<close>, \<open>Pipe\<close>, \<open>Vfs\<close>, \<open>Fd_Table\<close>: the objects of the file-system layer, the RAM file system, pipes (the
    locale \<open>bounded_queue\<close>, interpreted as \<open>pq\<close>), the dispatch of \<^verbatim>\<open>src/src/fs/vfs.c\<close>, the descriptor table and all calls of
    \<^verbatim>\<open>src/src/kernel/syscalls/fs.c\<close>.  Reading gives what was written, pipes keep the order of bytes, path resolution follows the
    components, and the working directory stays normalised.
  \<^item> \<open>Checksum\<close>, \<open>Netbuf\<close>, \<open>Netdev\<close>, \<open>Arp\<close>, \<open>Ip\<close>, \<open>Icmp\<close>, \<open>Udp\<close>, \<open>Tcp\<close>: the network stack (\<^verbatim>\<open>src/src/net/\<close>) from the bottom up; the state
    of a layer extends the record of the layer below it, and its invariant the invariant below.  \<open>Tcp_Ok\<close> and \<open>Tcp_Ops\<close> show that
    the operations of the stream protocol return and keep the invariant, and exactly when they do not; \<open>Tcp_Stream\<close> shows that its receiver assembles the stream sent.
  \<^item> \<open>Net_Input\<close>: the receive path, from the ring of the card (\<^verbatim>\<open>src/src/drivers/x86/e1000.c\<close>) through \<^verbatim>\<open>ethernet_input\<close> and
    \<^verbatim>\<open>ip_input\<close> to the transport protocols.  Arbitrary frames are handled without an access outside a buffer.
  \<^item> \<open>Net_Hosts\<close>: two machines joined by a wire: what one sends with \<^verbatim>\<open>icmp_send_echo_request\<close>, \<^verbatim>\<open>udp_sendto\<close> or TCP, and what the
    receive path of the other makes of it.  These theorems span all layers of the stack, on both sides.

  \<^bold>\<open>Loops.\<close>  A loop over an array or a counter is structural recursion or a \<open>function\<close> with its termination proof.  A search along
  pointers or through port numbers may go on for ever in an inconsistent state; it is a \<open>partial_function\<close>, and the theorems about its
  callers show that it returns in the states of the invariant.  The receive loop of the card runs over its ring at most once in
  the model, 33 rounds; the 33rd finds a descriptor that the loop has itself given back, whose done bit is clear.

  \<^bold>\<open>What the theorems do not promise.\<close>  Some of them state that the code fails: two live heap blocks that overlap, a pipe freed under its
  other end, control blocks that are never released, address spaces that outlive their process, a connection request that spins
  on \<^verbatim>\<open>tcp_lock\<close>, a circular list of listeners, reassembly of long datagrams, a write of a file past 4 GB, a size that
  \<^verbatim>\<open>kmalloc\<close> rounds to 0.  The theorems on correct behaviour carry the hypotheses that exclude these cases.

  \<^bold>\<open>Not modelled.\<close>  Boot code, descriptor tables, interrupt entry and the context switch are assembly or privileged instructions; the
  model takes a switch as atomic and the translation of addresses from the tables in memory, not from a translation
  cache.  Console, timer, disk, USB and bus drivers are port and memory-mapped I/O.  The paging code of the 64-bit builds is outside the
  configuration chosen; their entry formats are the part shared by interface.  Functions that print, and the formatting they use, have
  no effect on the state.  FAT32, block devices, devices and shared memory as files, the program loader with \<^verbatim>\<open>execve\<close>, \<^verbatim>\<open>brk\<close> and
  \<^verbatim>\<open>mmap\<close>, the socket layer and the DNS and DHCP clients are left out: each is a client of the components above, and no
  modelled operation calls it.  User programs and the two shells are interactive loops.
\<close>

end
